(* ===== verification/Prelude.thy ===== *)
theory Prelude
  imports Main "HOL-Library.AList" "HOL-Library.Sublist" "HOL-Library.Word"
begin

text \<open>
  Shared vocabulary of the development: the collections of automation lemmas, the
  string operations of JavaScript that the modelled code uses, the insertion-ordered
  \<open>Map\<close> of JavaScript, and its interface as a locale.

  A JavaScript string is a sequence of 16-bit code units. Where a component only compares
  its input with ASCII constants or copies it, a string is an Isabelle \<^typ>\<open>string\<close>,
  whose characters stand for the code units below 256. Where surrogate pairs or byte lengths
  matter (the splitters and the RPC chunker) the theory in question uses 16-bit words.
\<close>

section \<open>Collections of automation lemmas\<close>

named_theorems js_string_simps \<open>evaluation of the JavaScript string operations\<close>
named_theorems jsmap_simps \<open>lookups in insertion-ordered maps\<close>

section \<open>String operations of JavaScript\<close>

definition starts_with :: "'a list \<Rightarrow> 'a list \<Rightarrow> bool" where
  "starts_with s p \<longleftrightarrow> take (length p) s = p"

definition ends_with :: "'a list \<Rightarrow> 'a list \<Rightarrow> bool" where
  "ends_with s e \<longleftrightarrow> length e \<le> length s \<and> drop (length s - length e) s = e"

fun contains_code :: "'a \<Rightarrow> 'a list \<Rightarrow> bool" where
  "contains_code c [] = False"
| "contains_code c (x # xs) = (x = c \<or> contains_code c xs)"

text \<open>\<open>s.split(c)\<close> for a one-character separator: never empty.\<close>

fun split_on :: "'a \<Rightarrow> 'a list \<Rightarrow> 'a list list" where
  "split_on c [] = [[]]"
| "split_on c (x # xs) =
     (if x = c then [] # split_on c xs
      else (case split_on c xs of [] \<Rightarrow> [[x]] | y # ys \<Rightarrow> (x # y) # ys))"

text \<open>\<open>xs.join(sep)\<close>.\<close>

fun join_with :: "'a list \<Rightarrow> 'a list list \<Rightarrow> 'a list" where
  "join_with sep [] = []"
| "join_with sep [x] = x"
| "join_with sep (x # y # zs) = x @ sep @ join_with sep (y # zs)"

text \<open>\<open>s.indexOf(needle, from)\<close>, with \<open>None\<close> for -1.\<close>

fun index_of :: "'a list \<Rightarrow> 'a list \<Rightarrow> nat option" where
  "index_of needle [] = (if needle = [] then Some 0 else None)"
| "index_of needle (x # xs) =
     (if starts_with (x # xs) needle then Some 0 else map_option Suc (index_of needle xs))"

definition index_from :: "'a list \<Rightarrow> nat \<Rightarrow> 'a list \<Rightarrow> nat option" where
  "index_from needle from s = map_option (\<lambda>i. i + from) (index_of needle (drop from s))"

text \<open>White space of \<open>trim\<close> among the code units below 256.\<close>

definition is_ws :: "char \<Rightarrow> bool" where
  "is_ws c \<longleftrightarrow> c \<in> {CHR 0x09, CHR 0x0A, CHR 0x0B, CHR 0x0C, CHR 0x0D, CHR 0x20, CHR 0xA0}"

definition js_trim :: "string \<Rightarrow> string" where
  "js_trim s = rev (dropWhile is_ws (rev (dropWhile is_ws s)))"

text \<open>\<open>toLowerCase\<close> on the code units below 256.\<close>

definition lower_char :: "char \<Rightarrow> char" where
  "lower_char c =
     (let n = (of_char c :: nat)
      in if (65 \<le> n \<and> n \<le> 90) \<or> (192 \<le> n \<and> n \<le> 222 \<and> n \<noteq> 215) then char_of (n + 32) else c)"

definition js_lower :: "string \<Rightarrow> string" where
  "js_lower s = map lower_char s"

subsection \<open>Lemmas\<close>

lemma starts_with_append [simp]: "starts_with (p @ s) p"
  by (simp add: starts_with_def)

lemma starts_with_iff_prefix: "starts_with s p \<longleftrightarrow> prefix p s"
  by (auto simp: starts_with_def prefix_def) (metis append_take_drop_id)

lemma ends_with_iff_suffix: "ends_with s e \<longleftrightarrow> suffix e s"
  by (auto simp: ends_with_def suffix_def) (metis append_take_drop_id)

lemma starts_with_Nil [simp]: "starts_with s []"
  by (simp add: starts_with_def)

lemma starts_with_Cons [simp, js_string_simps]:
  "starts_with (x # xs) (y # ys) \<longleftrightarrow> x = y \<and> starts_with xs ys"
  by (auto simp: starts_with_def)

lemma starts_with_Nil_Cons [simp, js_string_simps]: "\<not> starts_with [] (y # ys)"
  by (simp add: starts_with_def)

lemma starts_with_trans_append: "starts_with s p \<Longrightarrow> starts_with (s @ t) p"
  by (simp add: starts_with_iff_prefix prefix_prefix)

lemma contains_code_iff [simp]: "contains_code c s \<longleftrightarrow> c \<in> set s"
  by (induction s) auto

lemma split_on_not_Nil [simp]: "split_on c s \<noteq> []"
  by (induction s) (auto split: list.splits)

lemma split_on_no_sep: "c \<notin> set s \<Longrightarrow> split_on c s = [s]"
  by (induction s) auto

lemma split_on_append:
  "c \<notin> set p \<Longrightarrow> split_on c (p @ c # s) = p # split_on c s"
  by (induction p) auto

lemma split_on_pieces: "p \<in> set (split_on c s) \<Longrightarrow> c \<notin> set p"
proof (induction s arbitrary: p)
  case Nil
  then show ?case by simp
next
  case (Cons x xs)
  then show ?case by (auto split: if_splits list.splits)
qed

lemma join_with_Cons: "ys \<noteq> [] \<Longrightarrow> join_with sep (x # ys) = x @ sep @ join_with sep ys"
  by (cases ys) auto

lemma join_split_on [simp]: "join_with [c] (split_on c s) = s"
proof (induction s)
  case Nil
  then show ?case by simp
next
  case (Cons x xs)
  show ?case
  proof (cases "x = c")
    case True
    with Cons show ?thesis by (simp add: join_with_Cons)
  next
    case False
    obtain y ys where y: "split_on c xs = y # ys"
      by (cases "split_on c xs") auto
    with Cons False show ?thesis by (cases ys) auto
  qed
qed

lemma split_on_join:
  assumes "xs \<noteq> []" and "\<And>x. x \<in> set xs \<Longrightarrow> c \<notin> set x"
  shows "split_on c (join_with [c] xs) = xs"
  using assms
proof (induction xs)
  case Nil
  then show ?case by simp
next
  case (Cons x xs)
  then show ?case
    by (cases xs) (auto simp: split_on_no_sep split_on_append)
qed

lemma split_on_first:
  obtains p rest where "split_on c s = p # rest" and "c \<notin> set p"
proof -
  obtain p rest where "split_on c s = p # rest" by (cases "split_on c s") auto
  with split_on_pieces [of p c s] that show thesis by auto
qed

lemma split_on_char_cases:
  "split_on c s = (if c \<in> set s then takeWhile (\<lambda>x. x \<noteq> c) s # split_on c (tl (dropWhile (\<lambda>x. x \<noteq> c) s)) else [s])"
  by (induction s) auto

lemma js_lower_idem: "js_lower (js_lower s) = js_lower s"
proof -
  have "lower_char (lower_char c) = lower_char c" for c
    by (auto simp: lower_char_def Let_def take_bit_eq_mod)
  then show ?thesis by (simp add: js_lower_def)
qed

section \<open>Code units\<close>

text \<open>A JavaScript string where its encoding matters: 16-bit code units, with surrogate pairs.\<close>

type_synonym code_unit = "16 word"

definition is_high :: "code_unit \<Rightarrow> bool" where
  "is_high c \<longleftrightarrow> 0xD800 \<le> c \<and> c \<le> 0xDBFF"

definition is_low :: "code_unit \<Rightarrow> bool" where
  "is_low c \<longleftrightarrow> 0xDC00 \<le> c \<and> c \<le> 0xDFFF"

section \<open>Insertion-ordered maps\<close>

text \<open>
  A JavaScript \<open>Map\<close> keeps its keys in insertion order: \<open>set\<close> on a present key keeps its
  position, on a new key appends it, and \<open>delete\<close> removes it. The library's \<^const>\<open>AList.update\<close>
  and \<^const>\<open>AList.delete\<close> on association lists do exactly this.
\<close>

type_synonym ('k, 'v) jsmap = "('k \<times> 'v) list"

abbreviation jm_get :: "('k, 'v) jsmap \<Rightarrow> 'k \<Rightarrow> 'v option" where
  "jm_get m k \<equiv> map_of m k"

abbreviation jm_set :: "'k \<Rightarrow> 'v \<Rightarrow> ('k, 'v) jsmap \<Rightarrow> ('k, 'v) jsmap" where
  "jm_set \<equiv> AList.update"

abbreviation jm_delete :: "'k \<Rightarrow> ('k, 'v) jsmap \<Rightarrow> ('k, 'v) jsmap" where
  "jm_delete \<equiv> AList.delete"

abbreviation jm_keys :: "('k, 'v) jsmap \<Rightarrow> 'k list" where
  "jm_keys m \<equiv> map fst m"

definition jm_has :: "('k, 'v) jsmap \<Rightarrow> 'k \<Rightarrow> bool" where
  "jm_has m k \<longleftrightarrow> map_of m k \<noteq> None"

definition jm_wf :: "('k, 'v) jsmap \<Rightarrow> bool" where
  "jm_wf m \<longleftrightarrow> distinct (map fst m)"

text \<open>The interface a client of such a map relies on.\<close>

locale ordered_map =
  fixes get :: "'m \<Rightarrow> 'k \<Rightarrow> 'v option"
    and put :: "'k \<Rightarrow> 'v \<Rightarrow> 'm \<Rightarrow> 'm"
    and del :: "'k \<Rightarrow> 'm \<Rightarrow> 'm"
    and keys :: "'m \<Rightarrow> 'k list"
    and ok :: "'m \<Rightarrow> bool"
  assumes get_put: "get (put k v m) j = (if j = k then Some v else get m j)"
    and get_del: "ok m \<Longrightarrow> get (del k m) j = (if j = k then None else get m j)"
    and keys_put: "keys (put k v m) = (if k \<in> set (keys m) then keys m else keys m @ [k])"
    and keys_del: "keys (del k m) = filter (\<lambda>j. j \<noteq> k) (keys m)"
    and keys_get: "k \<in> set (keys m) \<longleftrightarrow> get m k \<noteq> None"
    and ok_keys: "ok m \<longleftrightarrow> distinct (keys m)"
begin

lemma ok_put: "ok m \<Longrightarrow> ok (put k v m)"
  by (simp add: ok_keys keys_put)

lemma ok_del: "ok m \<Longrightarrow> ok (del k m)"
  by (simp add: ok_keys keys_del)

text \<open>Deleting and setting again moves a key to the end: the recency order of an LRU cache.\<close>

lemma touch_keys: "keys (put k v (del k m)) = filter (\<lambda>j. j \<noteq> k) (keys m) @ [k]"
  by (simp add: keys_put keys_del)

lemma touch_get: "ok m \<Longrightarrow> get (put k v (del k m)) j = (if j = k then Some v else get m j)"
  by (simp add: get_put get_del)

lemma touch_ok: "ok m \<Longrightarrow> ok (put k v (del k m))"
  by (simp add: ok_put ok_del)

lemma touch_size:
  assumes "ok m" and "k \<in> set (keys m)"
  shows "length (keys (put k v (del k m))) = length (keys m)"
proof -
  have "length (filter (\<lambda>j. j \<noteq> k) (keys m)) = length (removeAll k (keys m))"
    by (simp add: removeAll_filter_not_eq eq_commute)
  also have "\<dots> = length (remove1 k (keys m))"
    using assms by (simp add: ok_keys distinct_remove1_removeAll)
  finally show ?thesis
    using assms by (simp add: touch_keys length_remove1) (metis One_nat_def Suc_pred length_pos_if_in_set)
qed

lemma put_size: "length (keys (put k v m)) \<le> Suc (length (keys m))"
  by (simp add: keys_put)

lemma del_size: "length (keys (del k m)) \<le> length (keys m)"
  by (simp add: keys_del)

end

lemma jm_keys_set: "jm_keys (jm_set k v m) = (if k \<in> set (jm_keys m) then jm_keys m else jm_keys m @ [k])"
  by (induction m) auto

lemma jm_keys_delete: "jm_keys (jm_delete k m) = filter (\<lambda>j. j \<noteq> k) (jm_keys m)"
  by (induction m) auto

interpretation jsm: ordered_map map_of AList.update AList.delete "map fst" jm_wf
proof unfold_locales
  fix k j :: 'a and v :: 'b and m :: "('a, 'b) jsmap"
  show "map_of (AList.update k v m) j = (if j = k then Some v else map_of m j)"
    by (simp add: update_conv')
  show "map_of (AList.delete k m) j = (if j = k then None else map_of m j)"
    by (simp add: delete_conv')
  show "jm_keys (AList.update k v m) = (if k \<in> set (jm_keys m) then jm_keys m else jm_keys m @ [k])"
    by (rule jm_keys_set)
  show "jm_keys (AList.delete k m) = filter (\<lambda>j. j \<noteq> k) (jm_keys m)"
    by (rule jm_keys_delete)
  show "k \<in> set (jm_keys m) \<longleftrightarrow> map_of m k \<noteq> None"
    by (simp add: map_of_eq_None_iff)
  show "jm_wf m \<longleftrightarrow> distinct (jm_keys m)"
    by (simp add: jm_wf_def)
qed

lemma jm_has_iff: "jm_has m k \<longleftrightarrow> k \<in> set (jm_keys m)"
  by (simp add: jm_has_def map_of_eq_None_iff)

lemma jm_get_set [simp, jsmap_simps]: "jm_get (jm_set k v m) j = (if j = k then Some v else jm_get m j)"
  by (rule jsm.get_put)

lemma jm_get_delete [simp, jsmap_simps]: "jm_get (jm_delete k m) j = (if j = k then None else jm_get m j)"
  by (simp add: delete_conv')

lemma jm_has_set [simp, jsmap_simps]: "jm_has (jm_set k v m) j \<longleftrightarrow> j = k \<or> jm_has m j"
  by (simp add: jm_has_def)

lemma jm_has_delete [simp, jsmap_simps]: "jm_has (jm_delete k m) j \<longleftrightarrow> j \<noteq> k \<and> jm_has m j"
  by (simp add: jm_has_def)

lemma jm_wf_Nil [simp]: "jm_wf []"
  by (simp add: jm_wf_def)

lemma jm_wf_set [simp]: "jm_wf m \<Longrightarrow> jm_wf (jm_set k v m)"
  by (rule jsm.ok_put)

lemma jm_wf_delete [simp]: "jm_wf m \<Longrightarrow> jm_wf (jm_delete k m)"
  by (rule jsm.ok_del)

lemma jm_size_set: "length (jm_set k v m) = (if jm_has m k then length m else Suc (length m))"
proof -
  have "length (jm_keys (jm_set k v m)) = (if jm_has m k then length m else Suc (length m))"
    by (simp only: jm_keys_set jm_has_iff) simp
  then show ?thesis by simp
qed

section \<open>Lists\<close>

text \<open>\<open>unique\<close> keeps the first occurrence of each element, as a JavaScript \<open>Set\<close> does.\<close>

fun js_unique :: "'a list \<Rightarrow> 'a list" where
  "js_unique [] = []"
| "js_unique (x # xs) = x # filter (\<lambda>y. y \<noteq> x) (js_unique xs)"

lemma set_js_unique [simp]: "set (js_unique xs) = set xs"
  by (induction xs) auto

lemma distinct_js_unique [simp]: "distinct (js_unique xs)"
  by (induction xs) auto

lemma js_unique_id: "distinct xs \<Longrightarrow> js_unique xs = xs"
  by (induction xs) (auto simp: filter_id_conv)

lemma map_of_pair_map: "map_of (map (\<lambda>x. (x, f x)) xs) k = (if k \<in> set xs then Some (f k) else None)"
  by (induction xs) auto

text \<open>\<open>slice\<close> of strings and typed arrays, with the bounds clipped.\<close>

definition js_slice :: "'a list \<Rightarrow> nat \<Rightarrow> nat \<Rightarrow> 'a list" where
  "js_slice s from to = drop from (take to s)"

lemma js_slice_append: "c \<le> e \<Longrightarrow> js_slice p c e @ drop e p = drop c p"
proof -
  assume "c \<le> e"
  then have "drop e p = drop (e - c) (drop c p)" by simp
  moreover have "js_slice p c e = take (e - c) (drop c p)" by (simp add: js_slice_def drop_take)
  ultimately show ?thesis by (simp only: append_take_drop_id)
qed

lemma length_js_slice: "length (js_slice p c e) = min (length p) e - c"
  by (simp add: js_slice_def)

text \<open>\<open>xs.sort(cmp)\<close>: stable, for a consistent comparison.\<close>

fun insert_by :: "('a \<Rightarrow> 'a \<Rightarrow> int) \<Rightarrow> 'a \<Rightarrow> 'a list \<Rightarrow> 'a list" where
  "insert_by cmp x [] = [x]"
| "insert_by cmp x (y # ys) = (if cmp x y \<le> 0 then x # y # ys else y # insert_by cmp x ys)"

definition sort_with :: "('a \<Rightarrow> 'a \<Rightarrow> int) \<Rightarrow> 'a list \<Rightarrow> 'a list" where
  "sort_with cmp xs = foldr (insert_by cmp) xs []"

section \<open>Asynchronous operations\<close>

text \<open>
  An \<open>async\<close> method of the code is a state transformer with three outcomes: it returns
  (\<open>Some (Inr a, w)\<close>), it throws (\<open>Some (Inl e, w)\<close>), or it never settles (\<open>None\<close>).
\<close>

type_synonym ('w, 'e, 'a) act = "'w \<Rightarrow> (('e + 'a) \<times> 'w) option"

definition retE :: "'a \<Rightarrow> ('w, 'e, 'a) act" where
  "retE a = (\<lambda>w. Some (Inr a, w))"

definition throwE :: "'e \<Rightarrow> ('w, 'e, 'a) act" where
  "throwE e = (\<lambda>w. Some (Inl e, w))"

definition bindE :: "('w, 'e, 'a) act \<Rightarrow> ('a \<Rightarrow> ('w, 'e, 'b) act) \<Rightarrow> ('w, 'e, 'b) act" where
  "bindE m f = (\<lambda>w. case m w of None \<Rightarrow> None | Some (Inl e, w') \<Rightarrow> Some (Inl e, w')
     | Some (Inr a, w') \<Rightarrow> f a w')"

lemma bindE_Inr:
  "bindE m f w = Some (Inr b, w'') \<longleftrightarrow> (\<exists>a w'. m w = Some (Inr a, w') \<and> f a w' = Some (Inr b, w''))"
  by (auto simp: bindE_def split: option.splits prod.splits sum.splits)

lemma bindE_retE [simp]: "bindE (retE a) f = f a"
  by (simp add: bindE_def retE_def)

lemma bindE_throwE [simp]: "bindE (throwE e) f = throwE e"
  by (simp add: bindE_def throwE_def)

lemma bindE_assoc: "bindE (bindE m f) g = bindE m (\<lambda>a. bindE (f a) g)"
  by (auto simp: bindE_def fun_eq_iff split: option.splits prod.splits sum.splits)

lemma retE_Inr [simp]: "retE a w = Some (Inr b, w') \<longleftrightarrow> b = a \<and> w' = w"
  by (auto simp: retE_def)

lemma throwE_Inr [simp]: "throwE e w \<noteq> Some (Inr b, w')"
  by (simp add: throwE_def)

section \<open>Transition systems\<close>

text \<open>
  The contract of a state machine with an invariant. The components that run concurrently with
  others are step relations, and their safety properties are invariants of reachable states.
\<close>

locale transition_invariant =
  fixes step :: "'s \<Rightarrow> 's \<Rightarrow> bool" and start :: "'s \<Rightarrow> bool" and I :: "'s \<Rightarrow> bool"
  assumes start_inv: "start s \<Longrightarrow> I s"
    and step_inv: "I s \<Longrightarrow> step s s' \<Longrightarrow> I s'"
begin

lemma steps_inv: "step\<^sup>*\<^sup>* s s' \<Longrightarrow> I s \<Longrightarrow> I s'"
  by (induction rule: rtranclp_induct) (auto intro: step_inv)

lemma reachable_inv: "start s \<Longrightarrow> step\<^sup>*\<^sup>* s s' \<Longrightarrow> I s'"
  using steps_inv start_inv by blast

end

end
