(* ===== verification/Paths.thy ===== *)
theory Paths
  imports Prelude
begin

text \<open>
  \<open>src/string_and_binary/path.ts\<close>: file-name validity, path prefixes, the translation between
  paths and document identifiers, ignored files. SHA-256 and the glob matcher \<open>Minimatch\<close> are
  parameters. The two per-key caches of the file (\<open>memorizeFuncWithLRUCache\<close> around the hash,
  \<open>matcherCache\<close> around the matcher) only store the value of a pure function and are not part of
  the model.
\<close>

section \<open>Constants\<close>

definition PREFIX_OBFUSCATED :: string where "PREFIX_OBFUSCATED = ''f:''"
definition PREFIX_ENCRYPTED_CHUNK :: string where "PREFIX_ENCRYPTED_CHUNK = ''h:+''"
definition PREFIXMD_LOGFILE :: string where "PREFIXMD_LOGFILE = ''livesync_log_''"
definition PREFIXMD_LOGFILE_UC :: string where "PREFIXMD_LOGFILE_UC = ''LIVESYNC_LOG_''"
definition FLAGMD_REDFLAG :: string where "FLAGMD_REDFLAG = ''redflag.md''"
definition FLAGMD_REDFLAG2 :: string where "FLAGMD_REDFLAG2 = ''redflag2.md''"
definition FLAGMD_REDFLAG3 :: string where "FLAGMD_REDFLAG3 = ''redflag3.md''"
definition FLAGMD_REDFLAG2_HR :: string where "FLAGMD_REDFLAG2_HR = ''flag_rebuild.md''"
definition FLAGMD_REDFLAG3_HR :: string where "FLAGMD_REDFLAG3_HR = ''flag_fetch.md''"

lemmas path_consts = PREFIX_OBFUSCATED_def PREFIXMD_LOGFILE_def PREFIXMD_LOGFILE_UC_def
  FLAGMD_REDFLAG_def FLAGMD_REDFLAG2_def FLAGMD_REDFLAG3_def FLAGMD_REDFLAG2_HR_def
  FLAGMD_REDFLAG3_HR_def

section \<open>File-name validity\<close>

definition is_control :: "char \<Rightarrow> bool" where
  "is_control c \<longleftrightarrow> (of_char c :: nat) < 32"

definition vfat_forbidden :: "char \<Rightarrow> bool" where
  "vfat_forbidden c \<longleftrightarrow> is_control c \<or>
     c \<in> {CHR 0x5C, CHR 0x22, CHR 0x3A, CHR 0x3F, CHR 0x3C, CHR 0x3E, CHR 0x7C, CHR 0x2A, CHR 0x23}"

definition is_digit :: "char \<Rightarrow> bool" where
  "is_digit c \<longleftrightarrow> 48 \<le> (of_char c :: nat) \<and> (of_char c :: nat) \<le> 57"

text \<open>
  What can follow one of the alternatives \<open>COM\d|LPT\d|CON|PRN|AUX|NUL\<close> read at the head of the
  input (in lower case, for the flag \<open>i\<close>).
\<close>

definition device_rest :: "string \<Rightarrow> string option" where
  "device_rest s =
     (if (starts_with s ''com'' \<or> starts_with s ''lpt'') \<and> 3 < length s \<and> is_digit (s ! 3)
      then Some (drop 4 s)
      else if starts_with s ''con'' \<or> starts_with s ''prn'' \<or> starts_with s ''aux'' \<or> starts_with s ''nul''
      then Some (drop 3 s)
      else None)"

text \<open>The unescaped \<open>$\<close> of \<open>CLOCK$\<close> in the source is an end-of-input anchor.\<close>

definition device_at :: "string \<Rightarrow> bool" where
  "device_at s \<longleftrightarrow>
     (case device_rest s of None \<Rightarrow> False | Some r \<Rightarrow> r = [] \<or> starts_with r ''.'')
     \<or> s = ''clock''"

fun win_reserved :: "string \<Rightarrow> bool" where
  "win_reserved [] = False"
| "win_reserved (c # cs) = ((c = CHR 0x5C \<or> c = CHR ''/'') \<and> device_at (js_lower cs) \<or> win_reserved cs)"

definition isValidFilenameInWidows :: "string \<Rightarrow> bool" where
  "isValidFilenameInWidows filename =
     (if list_ex vfat_forbidden filename then False
      else if win_reserved filename then False else True)"

definition isValidFilenameInDarwin :: "string \<Rightarrow> bool" where
  "isValidFilenameInDarwin filename = (\<not> list_ex (\<lambda>c. is_control c \<or> c = CHR '':'') filename)"

definition isValidFilenameInLinux :: "string \<Rightarrow> bool" where
  "isValidFilenameInLinux filename = (\<not> list_ex (\<lambda>c. is_control c \<or> c = CHR '':'') filename)"

definition isValidFilenameInAndroid :: "string \<Rightarrow> bool" where
  "isValidFilenameInAndroid filename = (\<not> list_ex vfat_forbidden filename)"

section \<open>Prefixes\<close>

definition isFilePath :: "string \<Rightarrow> bool" where
  "isFilePath path = (if \<not> contains_code CHR '':'' path then True else False)"

text \<open>\<open>let [prefix, body] = s.split(":", 2)\<close>: the second piece may be missing, later ones are dropped.\<close>

definition split2 :: "string \<Rightarrow> string \<times> string option" where
  "split2 s = (case split_on CHR '':'' s of
      [] \<Rightarrow> ([], None) | [p] \<Rightarrow> (p, None) | p # b # _ \<Rightarrow> (p, Some b))"

definition expandFilePathPrefix :: "string \<Rightarrow> string \<times> string" where
  "expandFilePathPrefix path =
     (case split2 path of (pfx, body) \<Rightarrow>
        (if body = None \<or> body = Some [] then ([], pfx) else (pfx @ '':'', the body)))"

definition expandDocumentIDPrefix :: "string \<Rightarrow> string \<times> string" where
  "expandDocumentIDPrefix id' =
     (case split2 id' of (pfx, body) \<Rightarrow>
        (if body = None \<or> body = Some [] then ([], pfx) else (pfx @ '':'', the body)))"

lemma expandDocumentIDPrefix_eq: "expandDocumentIDPrefix = expandFilePathPrefix"
  by (simp add: fun_eq_iff expandDocumentIDPrefix_def expandFilePathPrefix_def)

lemma split2_body: "snd (split2 s) = Some b \<Longrightarrow> CHR '':'' \<notin> set b"
  by (auto simp: split2_def split: list.splits dest!: split_on_pieces [of _ "CHR '':''" s, rotated -1])
     (metis list.set_intros(1,2) split_on_pieces)

lemma split2_prefix: "CHR '':'' \<notin> set (fst (split2 s))"
  by (auto simp: split2_def split: list.splits) (metis list.set_intros(1) split_on_pieces)+

lemma expand_body_no_colon: "CHR '':'' \<notin> set (snd (expandFilePathPrefix s))"
  using split2_body [of s] split2_prefix [of s]
  by (auto simp: expandFilePathPrefix_def split: prod.splits)

function stripAllPrefixes :: "string \<Rightarrow> string" where
  "stripAllPrefixes prefixedPath =
     (if isFilePath prefixedPath then prefixedPath
      else stripAllPrefixes (snd (expandFilePathPrefix prefixedPath)))"
  by pat_completeness auto
termination
proof (relation "measure (\<lambda>s. if CHR '':'' \<in> set s then 1 else 0)", goal_cases)
  case 1
  show ?case by simp
next
  case (2 s)
  then show ?case by (simp add: isFilePath_def expand_body_no_colon split: if_splits)
qed

declare stripAllPrefixes.simps [simp del]

definition addPrefix :: "string \<Rightarrow> string \<Rightarrow> string" where
  "addPrefix path pre = (if pre \<noteq> [] \<and> starts_with path pre then path else pre @ path)"

definition stripPrefix :: "string \<Rightarrow> string" where
  "stripPrefix prefixedPath =
     (case split2 prefixedPath of (pfx, body) \<Rightarrow>
        (if body = None \<or> body = Some [] then pfx else the body))"

section \<open>Document identifiers\<close>

text \<open>
  \<open>sha\<close> is \<open>hashString\<close>: the lower-case hexadecimal SHA-256 of a string, from the platform's
  crypto interface. \<open>obfuscatePassphrase\<close> is \<open>None\<close> for \<open>false\<close>; an empty passphrase is falsy too.
\<close>

definition path2id_base :: "(string \<Rightarrow> string) \<Rightarrow> string \<Rightarrow> string option \<Rightarrow> bool \<Rightarrow> string" where
  "path2id_base sha filenameSrc obfuscatePassphrase caseInsensitive =
     (if starts_with filenameSrc PREFIX_OBFUSCATED then filenameSrc
      else
        let obfuscate = (case obfuscatePassphrase of None \<Rightarrow> False | Some p \<Rightarrow> p \<noteq> []);
            newPrefix = (if obfuscate then PREFIX_OBFUSCATED else []);
            filename = (if caseInsensitive then js_lower filenameSrc else filenameSrc);
            x = (if starts_with filename ''_'' then ''/'' @ filename else filename)
        in if \<not> obfuscate then newPrefix @ x
           else (case expandFilePathPrefix x of (pfx, body) \<Rightarrow>
             (if starts_with body PREFIX_OBFUSCATED then newPrefix @ x
              else let hashedPassphrase = sha (the obfuscatePassphrase);
                       out = sha (hashedPassphrase @ '':'' @ filename)
                   in pfx @ newPrefix @ out)))"

datatype path_error = EntryHasBeenObfuscated

definition id2path_plain :: "string \<Rightarrow> path_error + string" where
  "id2path_plain id' =
     (if starts_with id' PREFIX_OBFUSCATED then Inl EntryHasBeenObfuscated
      else (case expandDocumentIDPrefix id' of (pfx, body) \<Rightarrow>
        (if starts_with body PREFIX_OBFUSCATED then Inl EntryHasBeenObfuscated
         else if starts_with body ''/'' then Inr (drop 1 body)
         else Inr (pfx @ body))))"

text \<open>\<open>entry\<close> is the \<open>path\<close> of the optional second argument; an empty path is falsy.\<close>

definition id2path_base :: "string \<Rightarrow> string option \<Rightarrow> path_error + string" where
  "id2path_base id' entry =
     (case entry of
        Some p \<Rightarrow> (if p \<noteq> [] then id2path_plain p else id2path_plain id')
      | None \<Rightarrow> id2path_plain id')"

record any_entry_head =
  entry_id :: string
  entry_path :: string

definition getPath :: "any_entry_head \<Rightarrow> path_error + string" where
  "getPath entry = id2path_base (entry_id entry) (Some (entry_path entry))"

definition getPathWithoutPrefix :: "any_entry_head \<Rightarrow> path_error + string" where
  "getPathWithoutPrefix entry =
     (case getPath entry of Inl e \<Rightarrow> Inl e | Inr f \<Rightarrow> Inr (stripAllPrefixes f))"

section \<open>Classification by name\<close>

definition shouldBeIgnored :: "string \<Rightarrow> bool" where
  "shouldBeIgnored filename =
     (if filename = FLAGMD_REDFLAG then True
      else if filename = FLAGMD_REDFLAG2 then True
      else if filename = FLAGMD_REDFLAG2_HR then True
      else if filename = FLAGMD_REDFLAG3 then True
      else if filename = FLAGMD_REDFLAG3_HR then True
      else if starts_with filename PREFIXMD_LOGFILE then True
      else if starts_with filename PREFIXMD_LOGFILE_UC then True
      else False)"

definition isPlainText :: "string \<Rightarrow> bool" where
  "isPlainText filename =
     list_ex (ends_with filename)
       [''.md'', ''.txt'', ''.svg'', ''.html'', ''.csv'', ''.css'', ''.js'', ''.xml'', ''.canvas'']"

definition shouldSplitAsPlainText :: "string \<Rightarrow> bool" where
  "shouldSplitAsPlainText filename = list_ex (ends_with filename) [''.md'', ''.txt'', ''.canvas'']"

section \<open>Ignored files\<close>

text \<open>
  \<open>mm pattern path\<close> is \<open>new Minimatch(pattern, matchOpts).match(path)\<close>. \<open>None\<close> is \<open>undefined\<close>:
  the path is not mentioned.
\<close>

fun isAccepted_loop :: "(string \<Rightarrow> string \<Rightarrow> bool) \<Rightarrow> string \<Rightarrow> string list \<Rightarrow> bool option \<Rightarrow> bool option" where
  "isAccepted_loop mm path [] result = result"
| "isAccepted_loop mm path (pattern # patterns) result =
     (if ends_with pattern ''/'' \<and> mm (pattern @ ''**'') path then Some False
      else
        let newResult = starts_with pattern ''!'';
            matched = mm pattern path \<or> (\<not> ends_with pattern ''/'' \<and> mm (pattern @ ''/**'') path)
        in isAccepted_loop mm path patterns (if matched then Some newResult else result))"

definition ignore_patterns :: "string list \<Rightarrow> string list" where
  "ignore_patterns ignore = filter (\<lambda>e. 0 < length e \<and> \<not> starts_with e ''#'') (map js_trim ignore)"

definition isAccepted :: "(string \<Rightarrow> string \<Rightarrow> bool) \<Rightarrow> string \<Rightarrow> string list \<Rightarrow> bool option" where
  "isAccepted mm path ignore =
     (if index_of ''./'' path \<noteq> None \<or> index_of ''../'' path \<noteq> None then Some False
      else isAccepted_loop mm path (ignore_patterns ignore) None)"

text \<open>\<open>path.substring(0, path.lastIndexOf("/"))\<close>, empty when there is no slash.\<close>

definition dirname :: "string \<Rightarrow> string" where
  "dirname path = rev (tl (dropWhile (\<lambda>c. c \<noteq> CHR ''/'') (rev path)))"

fun slash_scan :: "string \<Rightarrow> string list \<Rightarrow> string list" where
  "slash_scan acc [] = [acc]"
| "slash_scan acc (c # cs) = acc # slash_scan (acc @ ''/'' @ c) cs"

definition intermediatePaths :: "string \<Rightarrow> string list" where
  "intermediatePaths path =
     rev (js_unique (map (drop 1) (slash_scan [] (split_on CHR ''/'' (dirname path)))))"

text \<open>The verdicts of the ignore files of one directory, in the order of the configured names.\<close>

fun accept_in_dir :: "(string \<Rightarrow> string \<Rightarrow> bool) \<Rightarrow> (string \<Rightarrow> string list option) \<Rightarrow> string \<Rightarrow> string \<Rightarrow>
    string list \<Rightarrow> bool option" where
  "accept_in_dir mm getList path dir [] = None"
| "accept_in_dir mm getList path dir (ignoreFile # rest) =
     (case getList (dir @ ''/'' @ ignoreFile) of
        None \<Rightarrow> accept_in_dir mm getList path dir rest
      | Some list \<Rightarrow>
          (case isAccepted mm (drop (if length dir \<noteq> 0 then length dir + 1 else 0) path) list of
             None \<Rightarrow> accept_in_dir mm getList path dir rest
           | Some result \<Rightarrow> Some result))"

fun accept_dirs :: "(string \<Rightarrow> string \<Rightarrow> bool) \<Rightarrow> (string \<Rightarrow> string list option) \<Rightarrow> string \<Rightarrow> string list \<Rightarrow>
    string list \<Rightarrow> bool" where
  "accept_dirs mm getList path ignoreFiles [] = True"
| "accept_dirs mm getList path ignoreFiles (dir # dirs) =
     (case accept_in_dir mm getList path dir ignoreFiles of
        None \<Rightarrow> accept_dirs mm getList path ignoreFiles dirs
      | Some result \<Rightarrow> result)"

definition isAcceptedAll :: "(string \<Rightarrow> string \<Rightarrow> bool) \<Rightarrow> (string \<Rightarrow> string list option) \<Rightarrow> string \<Rightarrow>
    string list \<Rightarrow> bool" where
  "isAcceptedAll mm getList path ignoreFiles =
     accept_dirs mm getList path ignoreFiles (intermediatePaths path)"

section \<open>Lemmas\<close>

lemma isFilePath_iff [simp]: "isFilePath p \<longleftrightarrow> CHR '':'' \<notin> set p"
  by (simp add: isFilePath_def)

lemma split2_no_colon: "CHR '':'' \<notin> set p \<Longrightarrow> split2 p = (p, None)"
  by (simp add: split2_def split_on_no_sep)

lemma split2_colon: "CHR '':'' \<notin> set p \<Longrightarrow> CHR '':'' \<notin> set b \<Longrightarrow>
    split2 (p @ CHR '':'' # b) = (p, Some b)"
  by (simp add: split2_def split_on_append split_on_no_sep)

lemma split2_colon2: "CHR '':'' \<notin> set p \<Longrightarrow> CHR '':'' \<notin> set b \<Longrightarrow>
    split2 (p @ CHR '':'' # b @ CHR '':'' # c) = (p, Some b)"
  using split_on_not_Nil [of "CHR '':''" c]
  by (auto simp: split2_def split_on_append split: list.splits)

lemma expand_no_colon [simp]: "CHR '':'' \<notin> set p \<Longrightarrow> expandFilePathPrefix p = ([], p)"
  by (simp add: expandFilePathPrefix_def split2_no_colon)

lemma expand_colon [simp]: "CHR '':'' \<notin> set p \<Longrightarrow> CHR '':'' \<notin> set b \<Longrightarrow> b \<noteq> [] \<Longrightarrow>
    expandFilePathPrefix (p @ CHR '':'' # b) = (p @ '':'', b)"
  by (simp add: expandFilePathPrefix_def split2_colon)

lemma stripAllPrefixes_eq:
  "stripAllPrefixes p = (if CHR '':'' \<in> set p then snd (expandFilePathPrefix p) else p)"
  by (simp add: stripAllPrefixes.simps [of p] stripAllPrefixes.simps [of "snd (expandFilePathPrefix p)"]
      expand_body_no_colon)

lemma lower_char_fixed: "lower_char c = d \<Longrightarrow> of_char d < (65 :: nat) \<Longrightarrow> c = d"
  by (auto simp: lower_char_def Let_def take_bit_eq_mod split: if_splits)

lemma of_char_lower:
  "(of_char (lower_char c) :: nat) =
     (if (65 \<le> (of_char c :: nat) \<and> (of_char c :: nat) \<le> 90) \<or>
         (192 \<le> (of_char c :: nat) \<and> (of_char c :: nat) \<le> 222 \<and> (of_char c :: nat) \<noteq> 215)
      then of_char c + 32 else of_char c)"
  by (auto simp: lower_char_def Let_def)

lemma lower_char_underscore: "lower_char c = CHR ''_'' \<longleftrightarrow> c = CHR ''_''"
proof
  assume "lower_char c = CHR ''_''"
  then have "(of_char (lower_char c) :: nat) = 95" by simp
  with of_char_lower [of c] have "(of_char c :: nat) = of_char (CHR ''_'')"
    by (simp split: if_splits)
  then show "c = CHR ''_''" by (simp only: of_char_eq_iff)
next
  assume "c = CHR ''_''"
  then show "lower_char c = CHR ''_''" by (simp add: lower_char_def)
qed

lemma lower_char_keep: "of_char d < (65 :: nat) \<Longrightarrow> lower_char d = d"
  by (auto simp: lower_char_def Let_def)

lemma lower_char_iff: "of_char d < (65 :: nat) \<Longrightarrow> lower_char c = d \<longleftrightarrow> c = d"
  using lower_char_fixed lower_char_keep by blast

lemma js_lower_set:
  assumes "of_char d < (65 :: nat)"
  shows "d \<in> set (js_lower s) \<longleftrightarrow> d \<in> set s"
proof -
  have "d = lower_char c \<longleftrightarrow> d = c" for c
    using lower_char_iff [OF assms, of c] by auto
  then show ?thesis by (simp add: js_lower_def image_iff)
qed

lemma js_lower_append: "js_lower (a @ b) = js_lower a @ js_lower b"
  by (simp add: js_lower_def)

lemma js_lower_Nil: "js_lower b = [] \<longleftrightarrow> b = []"
  by (simp add: js_lower_def)

lemma js_lower_Cons: "of_char d < (65 :: nat) \<Longrightarrow> js_lower (d # b) = d # js_lower b"
  by (simp add: js_lower_def lower_char_keep)

lemma starts_with_single: "starts_with s [c] \<longleftrightarrow> (\<exists>t. s = c # t)"
  by (cases s) auto

lemma js_lower_starts: "of_char d < (65 :: nat) \<Longrightarrow> starts_with (js_lower s) [d] \<longleftrightarrow> starts_with s [d]"
  by (cases s) (auto simp: js_lower_def lower_char_iff)

section \<open>Properties\<close>

text \<open>
  Paths whose document identifier can be read back: no prefix, or exactly one prefix, and a body
  that is not empty and does not start with a slash. A prefixed path must not start with an
  underscore (\<open>path2id_base\<close> puts a slash in front of it, which \<open>id2path_base\<close> looks for in the
  body only) and must not look obfuscated.
\<close>

definition wf_path :: "string \<Rightarrow> bool" where
  "wf_path p \<longleftrightarrow>
     (case split_on CHR '':'' p of
        [] \<Rightarrow> False
      | [b] \<Rightarrow> \<not> starts_with b ''/''
      | [pre, b] \<Rightarrow> b \<noteq> [] \<and> \<not> starts_with b ''/'' \<and> \<not> starts_with pre ''_'' \<and> js_lower pre \<noteq> ''f''
      | _ \<Rightarrow> False)"

lemma wf_path_cases:
  assumes "wf_path p"
  obtains (plain) "CHR '':'' \<notin> set p" "\<not> starts_with p ''/''"
  | (prefixed) pre b where "p = pre @ CHR '':'' # b" "CHR '':'' \<notin> set pre" "CHR '':'' \<notin> set b"
      "b \<noteq> []" "\<not> starts_with b ''/''" "\<not> starts_with pre ''_''" "js_lower pre \<noteq> ''f''"
proof -
  have j: "join_with '':'' (split_on CHR '':'' p) = p" by simp
  have pc: "\<And>q. q \<in> set (split_on CHR '':'' p) \<Longrightarrow> CHR '':'' \<notin> set q" by (rule split_on_pieces)
  consider b where "split_on CHR '':'' p = [b]" "\<not> starts_with b ''/''"
    | pre b where "split_on CHR '':'' p = [pre, b]" "b \<noteq> []" "\<not> starts_with b ''/''"
        "\<not> starts_with pre ''_''" "js_lower pre \<noteq> ''f''"
    using assms by (auto simp: wf_path_def split: list.splits)
  then show thesis
  proof cases
    case 1
    with j pc show thesis by (auto intro: plain)
  next
    case 2
    with j pc show thesis by (auto intro: prefixed)
  qed
qed

lemma id2path_plain_roundtrip:
  assumes "CHR '':'' \<notin> set q" and "\<not> starts_with q ''/''"
  shows "id2path_plain (if starts_with q ''_'' then ''/'' @ q else q) = Inr q"
proof -
  have "\<not> starts_with q PREFIX_OBFUSCATED"
  proof
    assume "starts_with q PREFIX_OBFUSCATED"
    then have "prefix ''f:'' q" by (simp add: starts_with_iff_prefix PREFIX_OBFUSCATED_def)
    then have "CHR '':'' \<in> set q" by (auto simp: prefix_def)
    with assms show False by simp
  qed
  then show ?thesis
    using assms
    by (auto simp: id2path_plain_def expandDocumentIDPrefix_eq PREFIX_OBFUSCATED_def)
qed

lemma id2path_prefixed:
  assumes "CHR '':'' \<notin> set pre" and "CHR '':'' \<notin> set b" and "b \<noteq> []" and "\<not> starts_with b ''/''"
    and "pre \<noteq> ''f''"
  shows "id2path_plain (pre @ CHR '':'' # b) = Inr (pre @ CHR '':'' # b)"
proof -
  have "\<not> starts_with (pre @ CHR '':'' # b) PREFIX_OBFUSCATED"
    using assms(1,5) by (cases pre; cases "tl pre") (auto simp: PREFIX_OBFUSCATED_def)
  moreover have "\<not> starts_with b PREFIX_OBFUSCATED"
    using assms(2) by (auto simp: PREFIX_OBFUSCATED_def starts_with_iff_prefix prefix_def)
  ultimately show ?thesis
    using assms by (simp add: id2path_plain_def expandDocumentIDPrefix_eq)
qed



lemma body_not_obfuscated: "\<not> starts_with (snd (expandFilePathPrefix x)) PREFIX_OBFUSCATED"
  using expand_body_no_colon [of x]
  by (auto simp: PREFIX_OBFUSCATED_def starts_with_iff_prefix prefix_def)

text \<open>
  With a passphrase, every path that does not itself start with the obfuscation prefix is
  hashed: the guard that should leave an already hashed body alone never fires, because the body
  read by \<open>split(":", 2)\<close> cannot contain the colon of the prefix it is compared with.
\<close>

theorem path2id_always_hashes:
  assumes "\<not> starts_with p PREFIX_OBFUSCATED" and "pw \<noteq> []"
  shows "path2id_base sha p (Some pw) ci =
    (let f = (if ci then js_lower p else p); x = (if starts_with f ''_'' then ''/'' @ f else f)
     in fst (expandFilePathPrefix x) @ PREFIX_OBFUSCATED @ sha (sha pw @ '':'' @ f))"
  using assms body_not_obfuscated
  by (auto simp: path2id_base_def Let_def split: prod.splits) (metis snd_conv)+

theorem path2id_always_hashes_witness:
  "path2id_base (\<lambda>s. ''0'') ''i:f:abc'' (Some ''pw'') False = ''i:f:0''"
  using path2id_always_hashes [of "''i:f:abc''" "''pw''" "\<lambda>s. ''0''" False]
  by (simp add: PREFIX_OBFUSCATED_def expandFilePathPrefix_def split2_def)

text \<open>
  A prefixed obfuscated identifier is not rejected by \<open>id2path_base\<close>: the second of its two
  checks is dead, and the call returns the prefix and the letter \<open>f\<close> instead of an error.
\<close>

theorem id2path_prefixed_obfuscated:
  assumes "CHR '':'' \<notin> set pre" and "pre \<noteq> ''f''"
  shows "id2path_base (pre @ '':'' @ PREFIX_OBFUSCATED @ h) None = Inr (pre @ '':f'')"
proof -
  have "\<not> starts_with (pre @ '':f:'' @ h) PREFIX_OBFUSCATED"
    using assms by (cases pre; cases "tl pre") (auto simp: PREFIX_OBFUSCATED_def)
  moreover have "expandFilePathPrefix (pre @ '':f:'' @ h) = (pre @ '':'', ''f'')"
    using split2_colon2 [of pre "''f''" h] assms by (simp add: expandFilePathPrefix_def)
  ultimately show ?thesis
    by (simp add: id2path_base_def id2path_plain_def expandDocumentIDPrefix_eq PREFIX_OBFUSCATED_def)
qed

theorem id2path_prefixed_obfuscated_witness: "id2path_base ''i:f:0123'' None = Inr ''i:f''"
  using id2path_prefixed_obfuscated [of "''i''" "''0123''"] by (simp add: PREFIX_OBFUSCATED_def)

text \<open>
  \<open>stripAllPrefixes\<close> terminates on every path with a path free of colons, and it never strips
  more than one prefix: it is \<open>stripPrefix\<close>, and of a path with two colons it keeps only what is
  between them.
\<close>

theorem stripAllPrefixes_spec:
  "CHR '':'' \<notin> set (stripAllPrefixes p) \<and> stripAllPrefixes (stripAllPrefixes p) = stripAllPrefixes p \<and>
   stripAllPrefixes p = stripPrefix p"
proof -
  have a: "CHR '':'' \<notin> set (stripAllPrefixes p)"
    by (simp add: stripAllPrefixes_eq expand_body_no_colon)
  then have b: "stripAllPrefixes (stripAllPrefixes p) = stripAllPrefixes p"
    by (simp add: stripAllPrefixes_eq [of "stripAllPrefixes p"])
  have "stripAllPrefixes p = stripPrefix p"
    by (auto simp: stripAllPrefixes_eq stripPrefix_def expandFilePathPrefix_def split2_no_colon
        split: prod.splits)
  with a b show ?thesis by blast
qed

lemma stripAllPrefixes_two_colons:
  assumes "CHR '':'' \<notin> set a" and "CHR '':'' \<notin> set b" and "b \<noteq> []"
  shows "stripAllPrefixes (a @ '':'' @ b @ '':'' @ c) = b"
  using assms split2_colon2 [of a b c] by (simp add: stripAllPrefixes_eq expandFilePathPrefix_def)

subsection \<open>Ignored files\<close>

text \<open>The reference: a directory pattern that matches rejects; otherwise the last match decides.\<close>

definition dir_hit :: "(string \<Rightarrow> string \<Rightarrow> bool) \<Rightarrow> string \<Rightarrow> string \<Rightarrow> bool" where
  "dir_hit mm path p \<longleftrightarrow> ends_with p ''/'' \<and> mm (p @ ''**'') path"

definition pattern_hit :: "(string \<Rightarrow> string \<Rightarrow> bool) \<Rightarrow> string \<Rightarrow> string \<Rightarrow> bool" where
  "pattern_hit mm path p \<longleftrightarrow> mm p path \<or> (\<not> ends_with p ''/'' \<and> mm (p @ ''/**'') path)"

definition gitignore_verdict :: "(string \<Rightarrow> string \<Rightarrow> bool) \<Rightarrow> string \<Rightarrow> string list \<Rightarrow> bool option" where
  "gitignore_verdict mm path ps =
     (if list_ex (dir_hit mm path) ps then Some False
      else (case rev (filter (pattern_hit mm path) ps) of
              [] \<Rightarrow> None | p # _ \<Rightarrow> Some (starts_with p ''!'')))"

lemma isAccepted_loop_eq:
  "isAccepted_loop mm path ps r =
     (if list_ex (dir_hit mm path) ps then Some False
      else (case rev (filter (pattern_hit mm path) ps) of
              [] \<Rightarrow> r | p # _ \<Rightarrow> Some (starts_with p ''!'')))"
proof (induction ps arbitrary: r)
  case Nil
  then show ?case by simp
next
  case (Cons p ps)
  show ?case
  proof (cases "dir_hit mm path p")
    case True
    then show ?thesis by (simp add: dir_hit_def)
  next
    case False
    have "isAccepted_loop mm path (p # ps) r =
        isAccepted_loop mm path ps (if pattern_hit mm path p then Some (starts_with p ''!'') else r)"
      using False by (simp only: isAccepted_loop.simps dir_hit_def pattern_hit_def if_False Let_def)
    with False Cons.IH show ?thesis
      by (cases "rev (filter (pattern_hit mm path) ps)") auto
  qed
qed


lemma negated_directory_rejects:
  assumes "mm ''!keep/**'' path"
  shows "isAccepted mm path [''!keep/''] = Some False"
  using assms
  by (simp add: isAccepted_def ignore_patterns_def js_trim_def is_ws_def ends_with_def)

definition dir_verdicts :: "(string \<Rightarrow> string \<Rightarrow> bool) \<Rightarrow> (string \<Rightarrow> string list option) \<Rightarrow> string \<Rightarrow>
    string list \<Rightarrow> string \<Rightarrow> bool list" where
  "dir_verdicts mm getList path ignoreFiles dir =
     List.map_filter (\<lambda>f. case getList (dir @ ''/'' @ f) of None \<Rightarrow> None
        | Some list \<Rightarrow> isAccepted mm (drop (if length dir \<noteq> 0 then length dir + 1 else 0) path) list) ignoreFiles"

lemma accept_in_dir_eq:
  "accept_in_dir mm getList path dir fs =
     (case dir_verdicts mm getList path fs dir of [] \<Rightarrow> None | r # _ \<Rightarrow> Some r)"
  by (induction fs) (auto simp: dir_verdicts_def map_filter_simps split: option.splits)

lemma accept_dirs_eq:
  "accept_dirs mm getList path fs dirs =
     (case concat (map (dir_verdicts mm getList path fs) dirs) of [] \<Rightarrow> True | r # _ \<Rightarrow> r)"
proof (induction dirs)
  case Nil
  then show ?case by simp
next
  case (Cons d dirs)
  then show ?case
    by (cases "dir_verdicts mm getList path fs d") (simp_all add: accept_in_dir_eq)
qed

text \<open>
  The verdict on a path is the first one given on the way from its own directory up to the
  root, in each directory in the order of the configured ignore files; without any it is accepted.
\<close>

theorem isAcceptedAll_first_verdict:
  "isAcceptedAll mm getList path fs =
     (case concat (map (dir_verdicts mm getList path fs) (intermediatePaths path)) of
        [] \<Rightarrow> True | r # _ \<Rightarrow> r)"
  by (simp add: isAcceptedAll_def accept_dirs_eq)

lemma intermediatePaths_example:
  "intermediatePaths ''a/b/c.md'' = [''a/b'', ''a'', []]"
  by (simp add: intermediatePaths_def dirname_def)

lemma valid_windows_android: "isValidFilenameInWidows f \<Longrightarrow> isValidFilenameInAndroid f"
  by (simp add: isValidFilenameInWidows_def isValidFilenameInAndroid_def split: if_splits)

lemma valid_android_linux: "isValidFilenameInAndroid f \<Longrightarrow> isValidFilenameInLinux f"
  by (auto simp: isValidFilenameInAndroid_def isValidFilenameInLinux_def vfat_forbidden_def list_ex_iff)

lemma device_name_without_directory: "isValidFilenameInWidows ''CON'' = True"
  by (simp add: isValidFilenameInWidows_def vfat_forbidden_def is_control_def)

end
