(* ===== verification/CacheLayer.thy ===== *)
theory CacheLayer
  imports Prelude "HOL-Library.While_Combinator"
begin

text \<open>
  \<open>src/managers/LayeredChunkManager/CacheLayer.ts\<close>: the in-memory chunk cache, with its
  least-recently-used order, and the two pipeline entry points \<open>read\<close> and \<open>write\<close>. The chunk type
  \<open>EntryLeaf\<close> of \<open>src/common/models/db.type.ts\<close> and the option and result records of
  \<open>LayeredChunkManager/types.ts\<close> are declared here.

  A \<open>FallbackWeakRef\<close> is a cell that holds the chunk until the collector clears it: \<open>None\<close> is a
  cleared cell, and the environment step \<open>gc\<close> clears any cells it likes.
\<close>

section \<open>Chunks, options and results\<close>

type_synonym doc_id = string

record entry_leaf =
  leaf_id :: doc_id
  leaf_rev :: "string option"
  leaf_deleted :: bool
  leaf_data :: string
  leaf_isCorrupted :: bool

record read_options =
  ro_skipCache :: bool
  ro_waitForDelivery :: "bool option"
  ro_timeout :: "int option"
  ro_preventRemoteRequest :: bool

record write_options =
  wo_skipCache :: bool
  wo_force :: bool

record write_counts =
  wc_cached :: int
  wc_hotPack :: int
  wc_written :: int
  wc_duplicated :: int

record write_result =
  wr_result :: bool
  wr_processed :: write_counts

section \<open>State and operations\<close>

record cache_layer =
  caches :: "(doc_id, entry_leaf option) jsmap"
  maxCacheSize :: int
  allocCount :: nat
  derefCount :: nat

definition new_cache :: "int \<Rightarrow> cache_layer" where
  "new_cache mx = \<lparr>caches = [], maxCacheSize = mx, allocCount = 0, derefCount = 0\<rparr>"

definition deleteCachedChunk :: "doc_id \<Rightarrow> cache_layer \<Rightarrow> cache_layer" where
  "deleteCachedChunk i c = (if jm_has (caches c) i then c\<lparr>caches := jm_delete i (caches c)\<rparr> else c)"

definition getCachedChunk :: "doc_id \<Rightarrow> cache_layer \<Rightarrow> entry_leaf option \<times> cache_layer" where
  "getCachedChunk i c =
     (if \<not> jm_has (caches c) i then (None, c)
      else (case jm_get (caches c) i of
              Some cell \<Rightarrow>
                (case cell of
                   Some cachedChunk \<Rightarrow> (Some cachedChunk, c)
                 | None \<Rightarrow> (None, deleteCachedChunk i (c\<lparr>derefCount := derefCount c + 1\<rparr>)))
            | None \<Rightarrow> (None, c)))"

fun getChunkID_loop :: "string \<Rightarrow> (doc_id, entry_leaf option) jsmap \<Rightarrow> cache_layer \<Rightarrow> doc_id option \<times> cache_layer" where
  "getChunkID_loop data [] c = (None, c)"
| "getChunkID_loop data ((i, cell) # rest) c =
     (case cell of
        Some chunk \<Rightarrow> (if leaf_data chunk = data then (Some i, c) else getChunkID_loop data rest c)
      | None \<Rightarrow> getChunkID_loop data rest (deleteCachedChunk i (c\<lparr>derefCount := derefCount c + 1\<rparr>)))"

definition getChunkIDFromCache :: "string \<Rightarrow> cache_layer \<Rightarrow> doc_id option \<times> cache_layer" where
  "getChunkIDFromCache data c = getChunkID_loop data (caches c) c"

definition reorderChunk :: "doc_id \<Rightarrow> cache_layer \<Rightarrow> cache_layer" where
  "reorderChunk i c =
     (case getCachedChunk i c of
        (Some chunk, c') \<Rightarrow> c'\<lparr>caches := jm_set i (Some chunk) (jm_delete i (caches c'))\<rparr>
      | (None, c') \<Rightarrow> c')"

text \<open>
  One round of the eviction loop: the first key is deleted when it is truthy. The loop is
  \<^const>\<open>while_option\<close>, so that never leaving it is \<open>None\<close>.
\<close>

definition evict_first :: "(doc_id, entry_leaf option) jsmap \<Rightarrow> (doc_id, entry_leaf option) jsmap" where
  "evict_first m = (case m of [] \<Rightarrow> m | (firstKey, _) # _ \<Rightarrow> if firstKey \<noteq> [] then jm_delete firstKey m else m)"

definition evict :: "int \<Rightarrow> (doc_id, entry_leaf option) jsmap \<Rightarrow> (doc_id, entry_leaf option) jsmap option" where
  "evict mx m = while_option (\<lambda>m. int (length m) > mx) evict_first m"

definition cacheChunk :: "entry_leaf \<Rightarrow> cache_layer \<Rightarrow> cache_layer option" where
  "cacheChunk chunk c =
     (case getCachedChunk (leaf_id chunk) c of
        (Some _, c1) \<Rightarrow> Some (reorderChunk (leaf_id chunk) c1)
      | (None, c1) \<Rightarrow>
          (let c2 = c1\<lparr>caches := jm_set (leaf_id chunk) (Some chunk) (caches c1), allocCount := allocCount c1 + 1\<rparr>
           in (case evict (maxCacheSize c2) (caches c2) of
                 None \<Rightarrow> None
               | Some m \<Rightarrow> Some (c2\<lparr>caches := m\<rparr>))))"

definition clearCaches :: "cache_layer \<Rightarrow> cache_layer" where
  "clearCaches c = c\<lparr>caches := [], allocCount := 0, derefCount := 0\<rparr>"

definition cache_tearDown :: "cache_layer \<Rightarrow> cache_layer" where
  "cache_tearDown c = clearCaches c"

definition getStatistics :: "cache_layer \<Rightarrow> nat \<times> nat \<times> nat" where
  "getStatistics c = (length (caches c), allocCount c, derefCount c)"

text \<open>The collector: clears the cells of a set of identifiers.\<close>

definition gc :: "doc_id set \<Rightarrow> cache_layer \<Rightarrow> cache_layer" where
  "gc dead c = c\<lparr>caches := map (\<lambda>(i, cell). (i, if i \<in> dead then None else cell)) (caches c)\<rparr>"

subsection \<open>The read entry point\<close>

text \<open>The loop of \<open>read\<close>: what was found (in \<open>resultMap\<close>) and what remains.\<close>

fun cache_scan :: "doc_id list \<Rightarrow> cache_layer \<Rightarrow> (doc_id, entry_leaf) jsmap \<Rightarrow> doc_id list \<Rightarrow>
    (doc_id, entry_leaf) jsmap \<times> doc_id list \<times> cache_layer" where
  "cache_scan [] c resultMap remainingIds = (resultMap, remainingIds, c)"
| "cache_scan (i # is) c resultMap remainingIds =
     (case getCachedChunk i c of
        (Some cached, c1) \<Rightarrow> cache_scan is (reorderChunk i c1) (jm_set i cached resultMap) remainingIds
      | (None, c1) \<Rightarrow> cache_scan is c1 resultMap (remainingIds @ [i]))"

text \<open>
  \<open>nextResultMap.get(id) ?? false\<close>, where the map pairs the remaining identifiers with the results
  by position: later pairs overwrite earlier ones, and a missing result is \<open>undefined\<close>.
\<close>

definition pair_results :: "doc_id list \<Rightarrow> entry_leaf option list \<Rightarrow> doc_id \<Rightarrow> entry_leaf option" where
  "pair_results remaining rs i =
     (case map_of (rev (zip remaining (map Some rs @ replicate (length remaining - length rs) None))) i of
        None \<Rightarrow> None | Some r \<Rightarrow> (case r of None \<Rightarrow> None | Some v \<Rightarrow> v))"

definition cache_read :: "doc_id list \<Rightarrow> read_options \<Rightarrow>
    (doc_id list \<Rightarrow> (cache_layer \<times> 'r, 'e, entry_leaf option list) act) \<Rightarrow>
    (cache_layer \<times> 'r, 'e, entry_leaf option list) act" where
  "cache_read ids options next =
     (if ro_skipCache options then next ids
      else (\<lambda>(c, r).
        (case cache_scan ids c [] [] of (resultMap, remainingIds, c1) \<Rightarrow>
          if length remainingIds = 0 then retE (map (\<lambda>i. jm_get resultMap i) ids) (c1, r)
          else bindE (next remainingIds) (\<lambda>nextResults.
                 retE (map (\<lambda>i. case jm_get resultMap i of Some l \<Rightarrow> Some l
                              | None \<Rightarrow> pair_results remainingIds nextResults i) ids)) (c1, r))))"

subsection \<open>The write entry point\<close>

fun cache_filter :: "entry_leaf list \<Rightarrow> cache_layer \<Rightarrow> entry_leaf list \<Rightarrow> entry_leaf list \<times> cache_layer" where
  "cache_filter [] c filtered = (filtered, c)"
| "cache_filter (chunk # chunks) c filtered =
     (case getCachedChunk (leaf_id chunk) c of
        (None, c1) \<Rightarrow> cache_filter chunks c1 (filtered @ [chunk])
      | (Some _, c1) \<Rightarrow> cache_filter chunks (reorderChunk (leaf_id chunk) c1) filtered)"

fun cacheAll :: "entry_leaf list \<Rightarrow> cache_layer \<Rightarrow> cache_layer option" where
  "cacheAll [] c = Some c"
| "cacheAll (chunk # chunks) c = (case cacheChunk chunk c of None \<Rightarrow> None | Some c' \<Rightarrow> cacheAll chunks c')"

definition cache_write :: "entry_leaf list \<Rightarrow> write_options \<Rightarrow>
    (entry_leaf list \<Rightarrow> (cache_layer \<times> 'r, 'e, write_result) act) \<Rightarrow>
    (cache_layer \<times> 'r, 'e, write_result) act" where
  "cache_write chunks options next = (\<lambda>(c, r).
     (case cache_filter chunks c [] of (filtered, c1) \<Rightarrow>
        bindE (next filtered) (\<lambda>result. \<lambda>(c2, r2).
          (case (if wr_result result \<and> \<not> wo_skipCache options then cacheAll chunks c2 else Some c2) of
             None \<Rightarrow> None
           | Some c3 \<Rightarrow>
               retE (result\<lparr>wr_processed := (wr_processed result)
                      \<lparr>wc_cached := int (length chunks) - int (length filtered)\<rparr>\<rparr>) (c3, r2)))
          (c1, r)))"

section \<open>Invariant and abstraction\<close>

text \<open>The abstract content: the live cells.\<close>

definition cached :: "cache_layer \<Rightarrow> doc_id \<Rightarrow> entry_leaf option" where
  "cached c k = (case jm_get (caches c) k of Some (Some l) \<Rightarrow> Some l | _ \<Rightarrow> None)"

definition cache_ok :: "cache_layer \<Rightarrow> bool" where
  "cache_ok c \<longleftrightarrow> jm_wf (caches c) \<and> (\<forall>k l. cached c k = Some l \<longrightarrow> leaf_id l = k)"

definition cache_bounded :: "cache_layer \<Rightarrow> bool" where
  "cache_bounded c \<longleftrightarrow> [] \<notin> set (jm_keys (caches c)) \<and> 0 \<le> maxCacheSize c \<and>
     int (length (caches c)) \<le> maxCacheSize c"

lemma cache_okI: "jm_wf (caches c) \<Longrightarrow> (\<And>k l. cached c k = Some l \<Longrightarrow> leaf_id l = k) \<Longrightarrow> cache_ok c"
  by (simp add: cache_ok_def)

lemma cache_ok_wf: "cache_ok c \<Longrightarrow> jm_wf (caches c)"
  by (simp add: cache_ok_def)

lemma cache_ok_id: "cache_ok c \<Longrightarrow> cached c k = Some l \<Longrightarrow> leaf_id l = k"
  by (simp add: cache_ok_def)

lemma cached_delete: "cached (deleteCachedChunk k c) j = (if j = k then None else cached c j)"
  by (auto simp: cached_def deleteCachedChunk_def jm_has_def)

lemma wf_deleteCachedChunk [simp]: "jm_wf (caches c) \<Longrightarrow> jm_wf (caches (deleteCachedChunk k c))"
  by (simp add: deleteCachedChunk_def)

lemma cached_derefCount [simp]: "cached (c\<lparr>derefCount := n\<rparr>) = cached c"
  by (simp add: cached_def fun_eq_iff)

lemma fst_getCachedChunk: "fst (getCachedChunk k c) = cached c k"
  by (auto simp: getCachedChunk_def cached_def jm_has_def split: option.splits)

lemma snd_getCachedChunk:
  "snd (getCachedChunk k c) =
     (if jm_get (caches c) k = Some None then deleteCachedChunk k (c\<lparr>derefCount := derefCount c + 1\<rparr>) else c)"
  by (auto simp: getCachedChunk_def jm_has_def split: option.splits)

lemma cached_getCachedChunk: "cached (snd (getCachedChunk k c)) = cached c"
  by (auto simp: snd_getCachedChunk fun_eq_iff cached_delete) (simp add: cached_def)

lemma jm_keys_delete_absent: "jm_get m k = None \<Longrightarrow> filter (\<lambda>j. j \<noteq> k) (jm_keys m) = jm_keys m"
  by (auto simp: filter_id_conv map_of_eq_None_iff)

lemma keys_getCachedChunk:
  "jm_keys (caches (snd (getCachedChunk k c))) =
     (if cached c k = None then filter (\<lambda>j. j \<noteq> k) (jm_keys (caches c)) else jm_keys (caches c))"
  by (auto simp: snd_getCachedChunk cached_def deleteCachedChunk_def jm_has_def jm_keys_delete
      jm_keys_delete_absent split: option.splits simp del: set_map)

lemma max_getCachedChunk [simp]: "maxCacheSize (snd (getCachedChunk k c)) = maxCacheSize c"
  by (simp add: getCachedChunk_def deleteCachedChunk_def split: option.splits)

lemma wf_getCachedChunk [simp]: "jm_wf (caches c) \<Longrightarrow> jm_wf (caches (snd (getCachedChunk k c)))"
  by (auto simp: getCachedChunk_def split: option.splits)

lemma getCachedChunk_eq: "getCachedChunk k c = (cached c k, snd (getCachedChunk k c))"
  by (simp add: fst_getCachedChunk [symmetric])

lemma ok_getCachedChunk: "cache_ok c \<Longrightarrow> cache_ok (snd (getCachedChunk k c))"
  by (auto simp: cache_ok_def cached_getCachedChunk)

lemma bounded_keys_subset:
  assumes "cache_bounded c" and "maxCacheSize c' = maxCacheSize c"
    and "set (jm_keys (caches c')) \<subseteq> set (jm_keys (caches c))"
    and "length (caches c') \<le> length (caches c)"
  shows "cache_bounded c'"
  using assms unfolding cache_bounded_def by auto

lemma bounded_getCachedChunk: "cache_bounded c \<Longrightarrow> cache_bounded (snd (getCachedChunk k c))"
  by (rule bounded_keys_subset [of c])
     (auto simp: snd_getCachedChunk deleteCachedChunk_def length_delete_le jm_keys_delete simp del: set_map)

lemma reorderChunk_hit:
  "cached c k = Some l \<Longrightarrow>
     reorderChunk k c = c\<lparr>caches := jm_set k (Some l) (jm_delete k (caches c))\<rparr>"
  by (auto simp: reorderChunk_def getCachedChunk_def cached_def jm_has_def split: option.splits)

lemma reorderChunk_miss: "cached c k = None \<Longrightarrow> reorderChunk k c = snd (getCachedChunk k c)"
  using fst_getCachedChunk [of k c] by (cases "getCachedChunk k c") (simp add: reorderChunk_def)

lemma cached_reorderChunk: "cached (reorderChunk k c) = cached c"
proof (cases "cached c k")
  case None
  then show ?thesis by (simp add: reorderChunk_miss cached_getCachedChunk)
next
  case (Some l)
  then show ?thesis by (auto simp: reorderChunk_hit fun_eq_iff cached_def)
qed

lemma keys_reorderChunk:
  "cached c k = Some l \<Longrightarrow>
     jm_keys (caches (reorderChunk k c)) = filter (\<lambda>j. j \<noteq> k) (jm_keys (caches c)) @ [k]"
  by (simp add: reorderChunk_hit jm_keys_set jm_keys_delete del: map_append)

lemma ok_reorderChunk: "cache_ok c \<Longrightarrow> cache_ok (reorderChunk k c)"
proof -
  assume ok: "cache_ok c"
  have "jm_wf (caches (reorderChunk k c))"
    using cache_ok_wf [OF ok]
    by (cases "cached c k") (simp_all add: reorderChunk_hit reorderChunk_miss)
  with ok show ?thesis by (simp add: cache_ok_def cached_reorderChunk)
qed

lemma max_reorderChunk [simp]: "maxCacheSize (reorderChunk k c) = maxCacheSize c"
  by (cases "cached c k") (simp_all add: reorderChunk_hit reorderChunk_miss)

lemma bounded_reorderChunk: "cache_ok c \<Longrightarrow> cache_bounded c \<Longrightarrow> cache_bounded (reorderChunk k c)"
proof (cases "cached c k")
  case None
  assume "cache_bounded c"
  with None show ?thesis by (simp add: reorderChunk_miss bounded_getCachedChunk)
next
  case (Some l)
  assume ok: "cache_ok c" and b: "cache_bounded c"
  have kin: "k \<in> set (jm_keys (caches c))"
    using Some unfolding cached_def by (metis jsm.keys_get option.case(1) option.distinct(1))
  have len: "length (caches (reorderChunk k c)) = length (caches c)"
    using jsm.touch_size [OF cache_ok_wf [OF ok] kin, of "Some l"] Some
    by (simp add: reorderChunk_hit)
  have ks: "set (jm_keys (caches (reorderChunk k c))) \<subseteq> set (jm_keys (caches c))"
    using kin by (simp only: keys_reorderChunk [OF Some] set_append set_filter list.set) blast
  from len ks b show ?thesis by (intro bounded_keys_subset [OF b]) simp_all
qed

lemma cached_gc: "cached (gc dead c) k = (if k \<in> dead then None else cached c k)"
proof -
  have "map_of (map (\<lambda>(i, cell). (i, if i \<in> dead then None else cell)) m) k =
        (case map_of m k of None \<Rightarrow> None | Some cell \<Rightarrow> Some (if k \<in> dead then None else cell))"
    for m :: "(doc_id, entry_leaf option) jsmap"
    by (induction m) auto
  then show ?thesis by (auto simp: cached_def gc_def split: option.splits)
qed

section \<open>Eviction\<close>

lemma jm_delete_absent: "k \<notin> set (jm_keys m) \<Longrightarrow> jm_delete k m = m"
  by (induction m) auto

lemma evict_first_Cons:
  "jm_wf ((k, v) # m) \<Longrightarrow> k \<noteq> [] \<Longrightarrow> evict_first ((k, v) # m) = m"
  by (simp add: evict_first_def jm_wf_def jm_delete_absent)

lemma evict_drops:
  "jm_wf m \<Longrightarrow> [] \<notin> set (jm_keys m) \<Longrightarrow> 0 \<le> mx \<Longrightarrow> evict mx m = Some (drop (length m - nat mx) m)"
proof (induction m)
  case Nil
  then show ?case by (simp add: evict_def while_option_unfold)
next
  case (Cons kv m)
  obtain k v where kv: "kv = (k, v)" by (cases kv)
  from Cons.prems have IH: "evict mx m = Some (drop (length m - nat mx) m)"
    by (intro Cons.IH) (auto simp: jm_wf_def)
  show ?case
  proof (cases "int (length (kv # m)) > mx")
    case False
    then show ?thesis by (simp add: evict_def while_option_unfold)
  next
    case True
    have "evict mx (kv # m) = evict mx (evict_first (kv # m))"
      using True by (simp add: evict_def while_option_unfold [of _ _ "kv # m"])
    also have "evict_first (kv # m) = m"
      using Cons.prems unfolding kv by (intro evict_first_Cons) auto
    finally have "evict mx (kv # m) = Some (drop (length m - nat mx) m)"
      using IH by simp
    moreover have "length (kv # m) - nat mx = Suc (length m - nat mx)"
      using True Cons.prems(3) by simp
    ultimately show ?thesis by (simp only: drop_Suc list.sel)
  qed
qed

text \<open>The recency order after a chunk was cached: the chunk last, the oldest entries gone.\<close>

definition lru_after :: "cache_layer \<Rightarrow> doc_id \<Rightarrow> doc_id list" where
  "lru_after c k =
     (let ks = filter (\<lambda>j. j \<noteq> k) (jm_keys (caches c)) @ [k] in drop (length ks - nat (maxCacheSize c)) ks)"

lemma map_of_drop_distinct:
  "distinct (map fst m) \<Longrightarrow> map_of (drop n m) k = (if k \<in> set (map fst (drop n m)) then map_of m k else None)"
proof (induction m arbitrary: n)
  case Nil
  then show ?case by simp
next
  case (Cons kv m)
  show ?case
  proof (cases n)
    case 0
    then show ?thesis by (simp add: map_of_eq_None_iff)
  next
    case (Suc n')
    have "k \<in> set (map fst (drop n' m)) \<Longrightarrow> k \<noteq> fst kv"
      using Cons.prems by (auto simp: drop_map [symmetric] dest: in_set_dropD)
    with Suc Cons show ?thesis by (cases kv) auto
  qed
qed

lemma cacheChunk_hit:
  assumes "cached c (leaf_id chunk) = Some l"
  shows "cacheChunk chunk c = Some (reorderChunk (leaf_id chunk) c)"
  using assms
  by (auto simp: cacheChunk_def getCachedChunk_def cached_def jm_has_def split: option.splits)

lemma cacheChunk_miss:
  assumes "cached c (leaf_id chunk) = None"
  shows "cacheChunk chunk c =
    (let c1 = snd (getCachedChunk (leaf_id chunk) c);
         c2 = c1\<lparr>caches := jm_set (leaf_id chunk) (Some chunk) (caches c1), allocCount := allocCount c1 + 1\<rparr>
     in map_option (\<lambda>m. c2\<lparr>caches := m\<rparr>) (evict (maxCacheSize c2) (caches c2)))"
  using assms fst_getCachedChunk [of "leaf_id chunk" c]
  by (cases "getCachedChunk (leaf_id chunk) c") (auto simp: cacheChunk_def Let_def split: option.splits)

lemma cacheChunk_miss_entries:
  fixes c :: cache_layer and k :: doc_id and chunk :: entry_leaf
  defines "c1 \<equiv> snd (getCachedChunk k c)"
  defines "m \<equiv> jm_set k (Some chunk) (caches c1)"
  assumes ok: "cache_ok c" and miss: "cached c k = None"
  shows "jm_keys m = filter (\<lambda>j. j \<noteq> k) (jm_keys (caches c)) @ [k]"
    and "jm_wf m" and "jm_get m j = (if j = k then Some (Some chunk) else jm_get (caches c1) j)"
proof -
  have ks: "jm_keys (caches c1) = filter (\<lambda>j. j \<noteq> k) (jm_keys (caches c))"
    using miss by (simp add: c1_def keys_getCachedChunk)
  have "k \<notin> set (jm_keys (caches c1))" unfolding ks by simp
  then show "jm_keys m = filter (\<lambda>j. j \<noteq> k) (jm_keys (caches c)) @ [k]"
    unfolding m_def jm_keys_set ks by simp
  show "jm_wf m"
    using cache_ok_wf [OF ok] by (simp add: m_def c1_def)
  show "jm_get m j = (if j = k then Some (Some chunk) else jm_get (caches c1) j)"
    by (simp add: m_def)
qed

lemma cacheChunk_spec:
  assumes ok: "cache_ok c" and b: "cache_bounded c" and ne: "leaf_id chunk \<noteq> []"
  shows "\<exists>c'. cacheChunk chunk c = Some c' \<and> cache_ok c' \<and> cache_bounded c' \<and>
    maxCacheSize c' = maxCacheSize c \<and>
    jm_keys (caches c') = lru_after c (leaf_id chunk) \<and>
    (\<forall>j. cached c' j =
       (if j \<notin> set (lru_after c (leaf_id chunk)) then None
        else if j = leaf_id chunk \<and> cached c j = None then Some chunk else cached c j))"
proof (cases "cached c (leaf_id chunk)")
  case (Some l)
  let ?k = "leaf_id chunk" and ?c' = "reorderChunk (leaf_id chunk) c"
  have ks: "jm_keys (caches ?c') = filter (\<lambda>j. j \<noteq> ?k) (jm_keys (caches c)) @ [?k]"
    by (rule keys_reorderChunk [OF Some])
  have b': "cache_bounded ?c'" by (rule bounded_reorderChunk [OF ok b])
  have "length (jm_keys (caches ?c')) - nat (maxCacheSize c) = 0"
    using b' by (auto simp: cache_bounded_def)
  then have lru: "lru_after c ?k = jm_keys (caches ?c')"
    by (simp only: lru_after_def Let_def ks drop_0)
  have "cached c j = None" if "j \<notin> set (jm_keys (caches ?c'))" for j
  proof -
    have "cached ?c' j = None"
      using that by (simp add: cached_def map_of_eq_None_iff [symmetric])
    then show ?thesis by (simp add: cached_reorderChunk)
  qed
  with Some ok b' lru show ?thesis
    by (auto simp: cacheChunk_hit cached_reorderChunk ok_reorderChunk simp del: set_map)
next
  case None
  let ?k = "leaf_id chunk"
  let ?c1 = "snd (getCachedChunk ?k c)"
  let ?m = "jm_set ?k (Some chunk) (caches ?c1)"
  let ?ks = "filter (\<lambda>j. j \<noteq> ?k) (jm_keys (caches c)) @ [?k]"
  note entries = cacheChunk_miss_entries [OF ok None, of chunk]
  have len: "length ?m = length ?ks"
    using entries(1) by (metis length_map)
  have ne': "[] \<notin> set (jm_keys ?m)"
    unfolding entries(1) using b ne by (auto simp: cache_bounded_def)
  have mx: "0 \<le> maxCacheSize c" using b by (simp add: cache_bounded_def)
  let ?d = "drop (length ?ks - nat (maxCacheSize c)) ?m"
  have ev: "evict (maxCacheSize c) ?m = Some ?d"
    using evict_drops [OF entries(2) ne' mx] len by simp
  let ?c' = "?c1\<lparr>allocCount := allocCount ?c1 + 1, caches := ?d\<rparr>"
  have res: "cacheChunk chunk c = Some ?c'"
    using ev by (simp add: cacheChunk_miss [OF None] Let_def)
  have kd: "jm_keys ?d = lru_after c ?k"
    by (simp only: lru_after_def Let_def drop_map [symmetric] entries(1))
  have wf: "jm_wf ?d"
    using entries(2) by (simp add: jm_wf_def drop_map [symmetric])
  have content: "cached ?c' j =
      (if j \<notin> set (lru_after c ?k) then None else if j = ?k \<and> cached c j = None then Some chunk else cached c j)" for j
  proof -
    have "jm_get ?d j = (if j \<in> set (lru_after c ?k) then jm_get ?m j else None)"
      using map_of_drop_distinct [of ?m _ j] entries(2) kd by (simp only: jm_wf_def)
    moreover have "cached c j = (case jm_get (caches ?c1) j of Some (Some l) \<Rightarrow> Some l | _ \<Rightarrow> None)"
      using cached_getCachedChunk [of ?k c] by (simp add: cached_def fun_eq_iff)
    ultimately show ?thesis
      using None by (auto simp: cached_def entries(3))
  qed
  have ok': "cache_ok ?c'"
  proof (rule cache_okI)
    show "jm_wf (caches ?c')" using wf by simp
    show "leaf_id l = j" if "cached ?c' j = Some l" for j l
      using that ok unfolding content by (auto simp: cache_ok_def split: if_splits)
  qed
  have b': "cache_bounded ?c'"
  proof -
    have "set (jm_keys ?d) \<subseteq> set (jm_keys ?m)" by (auto simp: drop_map [symmetric] dest: in_set_dropD)
    moreover have "length ?d \<le> nat (maxCacheSize c)" using len by simp
    ultimately show ?thesis using ne' mx by (auto simp: cache_bounded_def simp del: set_map)
  qed
  show ?thesis
    using res ok' b' kd content by (intro exI [of _ ?c']) simp
qed

lemma evict_negative_limit: "mx < 0 \<Longrightarrow> evict mx m = None"
  by (auto simp: evict_def while_option_def)

lemma cacheChunk_negative_limit:
  assumes "maxCacheSize c < 0" and "cached c (leaf_id chunk) = None"
  shows "cacheChunk chunk c = None"
  using assms by (simp add: cacheChunk_miss Let_def evict_negative_limit)

section \<open>The pipeline entry points\<close>

lemma getCachedChunk_cases:
  obtains (hit) l where "cached c k = Some l" "getCachedChunk k c = (Some l, c)"
  | (miss) "cached c k = None" "getCachedChunk k c = (None, snd (getCachedChunk k c))"
proof (cases "cached c k")
  case None
  with fst_getCachedChunk [of k c] miss show thesis by (metis prod.collapse)
next
  case (Some l)
  then have "getCachedChunk k c = (Some l, c)"
    by (auto simp: getCachedChunk_def cached_def jm_has_def split: option.splits)
  with Some hit show thesis by blast
qed

lemma cache_scan_spec:
  assumes "cache_ok c"
  shows "\<exists>rm' c'. cache_scan ids c rm rem = (rm', rem @ filter (\<lambda>i. cached c i = None) ids, c') \<and>
    cache_ok c' \<and> cached c' = cached c \<and> (cache_bounded c \<longrightarrow> cache_bounded c') \<and>
    (\<forall>j. jm_get rm' j = (if j \<in> set ids \<and> cached c j \<noteq> None then cached c j else jm_get rm j))"
  using assms
proof (induction ids arbitrary: c rm rem)
  case Nil
  then show ?case by simp
next
  case (Cons i ids)
  show ?case
  proof (cases rule: getCachedChunk_cases [where c = c and k = i])
    case (hit l)
    have "cache_ok (reorderChunk i c)" using Cons.prems by (rule ok_reorderChunk)
    from Cons.IH [OF this, of "jm_set i l rm" rem] hit Cons.prems show ?thesis
      by (auto simp: cached_reorderChunk bounded_reorderChunk)
  next
    case miss
    obtain c1 where c1: "getCachedChunk i c = (None, c1)"
      using miss(2) by blast
    then have facts: "cached c1 = cached c" "cache_ok c1" "cache_bounded c \<Longrightarrow> cache_bounded c1"
      using cached_getCachedChunk [of i c] ok_getCachedChunk [OF Cons.prems, of i]
        bounded_getCachedChunk [of c i] by simp_all
    from Cons.IH [OF facts(2), of rm "rem @ [i]"] c1 facts miss(1) show ?thesis
      by auto
  qed
qed

lemma cache_read_unfold:
  assumes "cache_ok c" and "\<not> ro_skipCache options"
  obtains c' where "cache_ok c'" and "cached c' = cached c" and "cache_bounded c \<longrightarrow> cache_bounded c'"
    and "cache_read ids options next (c, r) =
      (let remaining = filter (\<lambda>i. cached c i = None) ids
       in if remaining = [] then Some (Inr (map (cached c) ids), (c', r))
          else bindE (next remaining) (\<lambda>rs. retE (map (\<lambda>i. case cached c i of Some l \<Rightarrow> Some l
                 | None \<Rightarrow> pair_results remaining rs i) ids)) (c', r))"
proof -
  obtain rm' c' where sc: "cache_scan ids c [] [] = (rm', filter (\<lambda>i. cached c i = None) ids, c')"
    and c': "cache_ok c'" "cached c' = cached c" "cache_bounded c \<longrightarrow> cache_bounded c'"
    and rm: "\<And>j. jm_get rm' j = (if j \<in> set ids \<and> cached c j \<noteq> None then cached c j else None)"
    using cache_scan_spec [OF assms(1), of ids "[]" "[]"] by auto
  have m1: "map (\<lambda>i. jm_get rm' i) ids = map (cached c) ids"
    by (simp add: rm)
  have m2: "map (\<lambda>i. case jm_get rm' i of Some l \<Rightarrow> Some l | None \<Rightarrow> f i) ids =
      map (\<lambda>i. case cached c i of Some l \<Rightarrow> Some l | None \<Rightarrow> f i) ids" for f
    by (auto simp: rm split: option.splits)
  show thesis
    by (rule that [OF c'])
       (simp only: cache_read_def assms(2) if_False prod.case sc m1 m2 Let_def length_0_conv retE_def)
qed

text \<open>How the positional results of the next layer are read.\<close>

definition id_matches :: "doc_id \<Rightarrow> entry_leaf option \<Rightarrow> bool" where
  "id_matches i r \<longleftrightarrow> (case r of None \<Rightarrow> True | Some l \<Rightarrow> leaf_id l = i)"

text \<open>Results aligned with the identifiers they answer: the contract of \<open>IReadLayer\<close>.\<close>

definition aligned :: "doc_id list \<Rightarrow> entry_leaf option list \<Rightarrow> bool" where
  "aligned ids rs \<longleftrightarrow> list_all2 id_matches ids rs"

lemma aligned_length: "aligned ids rs \<Longrightarrow> length rs = length ids"
  by (simp add: aligned_def list_all2_lengthD)

lemma aligned_map: "aligned ids (map f ids) \<longleftrightarrow> (\<forall>i \<in> set ids. id_matches i (f i))"
  by (induction ids) (auto simp: aligned_def)

lemma map_of_map_Some: "map_of (map (\<lambda>(a, b). (a, Some b)) xs) i = map_option Some (map_of xs i)"
  by (induction xs) auto

lemma pair_results_aligned:
  assumes "length rs = length remaining"
  shows "pair_results remaining rs i =
    (case map_of (rev (zip remaining rs)) i of None \<Rightarrow> None | Some r \<Rightarrow> r)"
proof -
  have "zip remaining (map Some rs) = map (\<lambda>(a, b). (a, Some b)) (zip remaining rs)"
    by (simp add: zip_map2)
  then have "map_of (rev (zip remaining (map Some rs))) i = map_option Some (map_of (rev (zip remaining rs)) i)"
    by (simp add: rev_map map_of_map_Some)
  with assms show ?thesis
    by (auto simp: pair_results_def split: option.splits)
qed

lemma pair_results_match:
  assumes "aligned remaining rs"
  shows "id_matches i (pair_results remaining rs i)"
proof -
  have len: "length rs = length remaining" using assms by (rule aligned_length)
  show ?thesis
  proof (cases "map_of (rev (zip remaining rs)) i")
    case None
    then show ?thesis by (simp add: pair_results_aligned [OF len] id_matches_def)
  next
    case (Some r)
    then have "(i, r) \<in> set (zip remaining rs)" by (metis map_of_SomeD set_rev)
    with assms have "id_matches i r" by (auto simp: aligned_def list_all2_iff)
    with Some show ?thesis by (simp add: pair_results_aligned [OF len])
  qed
qed

lemma map_of_zip_fun:
  assumes "i \<in> set xs"
  shows "map_of (rev (zip xs (map f xs))) i = Some (f i)"
proof -
  have "map_of (rev (zip xs (map f xs))) i \<noteq> None"
  proof -
    have "fst ` set (zip xs (map f xs)) = set xs"
      by (metis length_map list.set_map map_fst_zip)
    with assms show ?thesis by (simp add: map_of_eq_None_iff)
  qed
  then obtain y where y: "map_of (rev (zip xs (map f xs))) i = Some y" by blast
  then have "(i, y) \<in> set (zip xs (map f xs))" by (metis map_of_SomeD set_rev)
  then have "y = f i" by (auto simp: set_zip)
  with y show ?thesis by simp
qed

lemma pair_results_map: "i \<in> set ids \<Longrightarrow> pair_results ids (map f ids) i = f i"
  by (simp add: pair_results_aligned map_of_zip_fun)

lemma cache_filter_spec:
  assumes "cache_ok c"
  shows "\<exists>c'. cache_filter chunks c fl = (fl @ filter (\<lambda>ch. cached c (leaf_id ch) = None) chunks, c') \<and>
    cache_ok c' \<and> cached c' = cached c \<and> maxCacheSize c' = maxCacheSize c \<and>
    (cache_bounded c \<longrightarrow> cache_bounded c')"
  using assms
proof (induction chunks arbitrary: c fl)
  case Nil
  then show ?case by simp
next
  case (Cons ch chunks)
  show ?case
  proof (cases rule: getCachedChunk_cases [where c = c and k = "leaf_id ch"])
    case (hit l)
    have "cache_ok (reorderChunk (leaf_id ch) c)" using Cons.prems by (rule ok_reorderChunk)
    from Cons.IH [OF this, of fl] hit Cons.prems show ?thesis
      by (auto simp: cached_reorderChunk bounded_reorderChunk)
  next
    case miss
    obtain c1 where c1: "getCachedChunk (leaf_id ch) c = (None, c1)"
      using miss(2) by blast
    then have facts: "cached c1 = cached c" "cache_ok c1" "maxCacheSize c1 = maxCacheSize c"
        "cache_bounded c \<Longrightarrow> cache_bounded c1"
      using cached_getCachedChunk [of "leaf_id ch" c] ok_getCachedChunk [OF Cons.prems, of "leaf_id ch"]
        max_getCachedChunk [of "leaf_id ch" c] bounded_getCachedChunk [of c "leaf_id ch"] by simp_all
    from Cons.IH [OF facts(2), of "fl @ [ch]"] c1 facts miss(1) show ?thesis
      by auto
  qed
qed

lemma cacheAll_total:
  assumes "cache_ok c" and "cache_bounded c" and "\<forall>ch \<in> set chunks. leaf_id ch \<noteq> []"
  shows "\<exists>c'. cacheAll chunks c = Some c' \<and> cache_ok c' \<and> cache_bounded c'"
  using assms
proof (induction chunks arbitrary: c)
  case Nil
  then show ?case by simp
next
  case (Cons ch chunks)
  then obtain c1 where c1: "cacheChunk ch c = Some c1" "cache_ok c1" "cache_bounded c1"
    using cacheChunk_spec [of c ch] by auto
  from Cons.IH [OF c1(2,3)] c1(1) Cons.prems(3) show ?case by auto
qed

text \<open>What was cached last survives as long as its number is within the limit.\<close>

lemma lru_keeps_recent:
  assumes "distinct (jm_keys (caches c))" and "jm_keys (caches c) = xs @ ys"
    and "int (card (insert k (set ys))) \<le> maxCacheSize c"
  shows "\<exists>xs'. lru_after c k = xs' @ filter (\<lambda>j. j \<noteq> k) ys @ [k]"
proof -
  let ?ys = "filter (\<lambda>j. j \<noteq> k) ys @ [k]" and ?xs = "filter (\<lambda>j. j \<noteq> k) xs"
  have d: "distinct ?ys" using assms(1,2) by simp
  have "set ?ys = insert k (set ys)" by auto
  then have "length ?ys = card (insert k (set ys))" using distinct_card [OF d] by simp
  with assms(3) have "int (length ?ys) \<le> maxCacheSize c" by presburger
  then have "length (?xs @ ?ys) - nat (maxCacheSize c) \<le> length ?xs" by simp
  moreover have "lru_after c k = drop (length (?xs @ ?ys) - nat (maxCacheSize c)) (?xs @ ?ys)"
    by (simp only: lru_after_def Let_def assms(2) filter_append append_assoc)
  ultimately show ?thesis by (simp add: drop_append)
qed

lemma cacheAll_retains:
  assumes "cache_ok c" and "cache_bounded c" and "\<forall>ch \<in> set chunks. leaf_id ch \<noteq> []"
    and "jm_keys (caches c) = xs @ ys" and "\<forall>j \<in> set ys. cached c j \<noteq> None"
    and "int (card (set ys \<union> leaf_id ` set chunks)) \<le> maxCacheSize c"
  shows "\<exists>c'. cacheAll chunks c = Some c' \<and> (\<forall>j \<in> set ys \<union> leaf_id ` set chunks. cached c' j \<noteq> None)"
  using assms
proof (induction chunks arbitrary: c xs ys)
  case Nil
  then show ?case by simp
next
  case (Cons ch chunks)
  let ?k = "leaf_id ch" and ?ys = "filter (\<lambda>j. j \<noteq> leaf_id ch) ys @ [leaf_id ch]"
  obtain c1 where c1: "cacheChunk ch c = Some c1" "cache_ok c1" "cache_bounded c1"
      "maxCacheSize c1 = maxCacheSize c" "jm_keys (caches c1) = lru_after c ?k"
    and content: "\<And>j. cached c1 j = (if j \<notin> set (lru_after c ?k) then None
        else if j = ?k \<and> cached c j = None then Some ch else cached c j)"
    using cacheChunk_spec [OF Cons.prems(1,2), of ch] Cons.prems(3) by auto
  have "insert ?k (set ys) \<subseteq> set ys \<union> leaf_id ` set (ch # chunks)" by auto
  then have "card (insert ?k (set ys)) \<le> card (set ys \<union> leaf_id ` set (ch # chunks))"
    by (intro card_mono) auto
  with Cons.prems(6) have cap: "int (card (insert ?k (set ys))) \<le> maxCacheSize c" by linarith
  have dist: "distinct (jm_keys (caches c))"
    using cache_ok_wf [OF Cons.prems(1)] by (simp add: jm_wf_def)
  obtain xs' where xs': "lru_after c ?k = xs' @ ?ys"
    using lru_keeps_recent [OF dist Cons.prems(4) cap] by auto
  have live: "\<forall>j \<in> set ?ys. cached c1 j \<noteq> None"
    using Cons.prems(5) by (auto simp: content xs')
  have un: "set ?ys \<union> leaf_id ` set chunks = set ys \<union> leaf_id ` set (ch # chunks)" by auto
  have "int (card (set ?ys \<union> leaf_id ` set chunks)) \<le> maxCacheSize c1"
    unfolding un c1(4) by (rule Cons.prems(6))
  moreover have "jm_keys (caches c1) = xs' @ ?ys" using c1(5) xs' by simp
  ultimately obtain c' where "cacheAll chunks c1 = Some c'"
      "\<forall>j \<in> set ?ys \<union> leaf_id ` set chunks. cached c' j \<noteq> None"
    using Cons.IH [OF c1(2,3) _ _ live] Cons.prems(3) by auto
  with un c1(1) show ?case by (intro exI [of _ c']) simp
qed

section \<open>Properties\<close>

text \<open>
  Caching a chunk returns, keeps the invariant and the size limit, and leaves exactly the
  least-recently-used order: the chunk last, the entries before it in their old order, and the
  oldest of them dropped. A live cell is kept as it is; a missing or cleared one holds the chunk.
\<close>

theorem cacheChunk_lru:
  assumes "cache_ok c" and "cache_bounded c" and "leaf_id chunk \<noteq> []"
  shows "\<exists>c'. cacheChunk chunk c = Some c' \<and> cache_ok c' \<and> cache_bounded c' \<and>
    jm_keys (caches c') = lru_after c (leaf_id chunk) \<and>
    (\<forall>j. cached c' j =
       (if j \<notin> set (lru_after c (leaf_id chunk)) then None
        else if j = leaf_id chunk \<and> cached c j = None then Some chunk else cached c j))"
  using cacheChunk_spec [OF assms] by blast

definition sample_leaf :: "doc_id \<Rightarrow> string \<Rightarrow> entry_leaf" where
  "sample_leaf i d = \<lparr>leaf_id = i, leaf_rev = None, leaf_deleted = False, leaf_data = d, leaf_isCorrupted = False\<rparr>"

definition sample_cache :: cache_layer where
  "sample_cache = \<lparr>caches = [(''h:1'', Some (sample_leaf ''h:1'' ''x'')), (''h:2'', None)],
     maxCacheSize = 2, allocCount = 2, derefCount = 0\<rparr>"

lemma sample_cache_ok: "cache_ok sample_cache \<and> cache_bounded sample_cache"
  by (auto simp: cache_ok_def cache_bounded_def sample_cache_def cached_def jm_wf_def sample_leaf_def
      split: if_splits)

theorem cacheChunk_lru_witness:
  "\<exists>c'. cacheChunk (sample_leaf ''h:3'' ''y'') sample_cache = Some c' \<and>
     jm_keys (caches c') = [''h:2'', ''h:3'']"
proof -
  have "leaf_id (sample_leaf ''h:3'' ''y'') \<noteq> []" by (simp add: sample_leaf_def)
  from cacheChunk_lru [OF _ _ this, of sample_cache] sample_cache_ok
  obtain c' where "cacheChunk (sample_leaf ''h:3'' ''y'') sample_cache = Some c'"
      "jm_keys (caches c') = lru_after sample_cache (leaf_id (sample_leaf ''h:3'' ''y''))" by blast
  then show ?thesis
    by (simp add: lru_after_def sample_cache_def sample_leaf_def)
qed

end
