(* ===== verification/ChunkPipeline.thy ===== *)
theory ChunkPipeline
  imports CacheLayer
begin

text \<open>
  \<open>src/managers/LayeredChunkManager.ts\<close> and the layers under it: the database read and write
  layers, the arrival layer as the pipeline sees it, and the \<open>read\<close> and \<open>write\<close> pipelines
  (Cache, Database, ArrivalWait; Database, Cache). The state is the cache together with the state
  \<open>'d\<close> of the PouchDB database, whose \<open>allDocs\<close> and \<open>bulkDocs\<close> are parameters.

  The layer contract of \<open>ChunkLayerInterfaces.ts\<close> is the locale \<open>read_layer\<close>.
\<close>

section \<open>Documents and rows\<close>

datatype db_doc = LeafDoc entry_leaf | OtherDoc doc_id string

text \<open>The part of a JavaScript value that \<open>isMissingError\<close> looks at: strings and objects with
  the optional fields \<open>status\<close> and \<open>error\<close>.\<close>

datatype js_value = JsStr string | JsObj "int option" "js_value option" | JsPrim

record db_row =
  row_key :: "string option"
  row_doc :: "db_doc option"
  row_obj :: js_value

record write_row =
  wrow_error :: "string option"
  wrow_status :: "int option"
  wrow_id :: "string option"

datatype chunk_error =
  ReadChunkFailed "string option"
| WriteChunksFailed "string list"
| WriteLayerError

fun isMissingError :: "js_value \<Rightarrow> bool" where
  "isMissingError (JsObj status err) =
     (if status = Some 404 then True
      else if err = Some (JsStr ''not_found'') then True
      else (case err of Some e \<Rightarrow> isMissingError e | None \<Rightarrow> False))"
| "isMissingError _ = False"

section \<open>The layers\<close>

type_synonym ('w, 'e) read_next = "doc_id list \<Rightarrow> ('w, 'e, entry_leaf option list) act"
type_synonym ('w, 'e) layer = "doc_id list \<Rightarrow> read_options \<Rightarrow> ('w, 'e) read_next \<Rightarrow> ('w, 'e, entry_leaf option list) act"

fun db_scan :: "db_row list \<Rightarrow> (doc_id, entry_leaf) jsmap \<Rightarrow> doc_id list \<Rightarrow>
    chunk_error + (doc_id, entry_leaf) jsmap \<times> doc_id list" where
  "db_scan [] resultMap remainingIds = Inr (resultMap, remainingIds)"
| "db_scan (row # rows) resultMap remainingIds =
     (case row_doc row of
        Some (LeafDoc chunk) \<Rightarrow> db_scan rows (jm_set (leaf_id chunk) chunk resultMap) remainingIds
      | _ \<Rightarrow>
          if \<not> isMissingError (row_obj row) then Inl (ReadChunkFailed (row_key row))
          else (case row_key row of
                  Some k \<Rightarrow> db_scan rows resultMap (if k \<noteq> [] then remainingIds @ [k] else remainingIds)
                | None \<Rightarrow> db_scan rows resultMap remainingIds))"

text \<open>\<open>allDocs d keys\<close> is \<open>None\<close> when the call throws.\<close>

definition db_read :: "('d \<Rightarrow> doc_id list \<Rightarrow> db_row list option) \<Rightarrow> (cache_layer \<times> 'd, chunk_error) layer" where
  "db_read allDocs ids options next = (\<lambda>(c, d).
     (if length ids = 0 then retE [] (c, d)
      else (case allDocs d ids of
              None \<Rightarrow> retE (map (\<lambda>_. None) ids) (c, d)
            | Some rows \<Rightarrow>
                (case db_scan rows [] [] of
                   Inl e \<Rightarrow> throwE e (c, d)
                 | Inr (resultMap, remainingIds) \<Rightarrow>
                     if length remainingIds = 0 then retE (map (\<lambda>i. jm_get resultMap i) ids) (c, d)
                     else bindE (next remainingIds) (\<lambda>nextResults.
                            retE (map (\<lambda>i. case jm_get resultMap i of Some l \<Rightarrow> Some l
                                         | None \<Rightarrow> pair_results remainingIds nextResults i) ids)) (c, d)))))"

text \<open>
  The arrival layer ends the pipeline. \<open>deliver ids d\<close> stands for the wait: \<open>None\<close> when some waiter
  is never settled, otherwise the value each waiter was settled with and the database afterwards.
  The theory \<open>ChunkDelivery\<close> models the waiters themselves.
\<close>

definition arrival_read :: "(doc_id list \<Rightarrow> 'd \<Rightarrow> ((doc_id \<Rightarrow> entry_leaf option) \<times> 'd) option) \<Rightarrow>
    (cache_layer \<times> 'd, chunk_error) layer" where
  "arrival_read deliver ids options next = (\<lambda>(c, d).
     (let waitForDelivery = (case ro_waitForDelivery options of
            Some b \<Rightarrow> b
          | None \<Rightarrow> (case ro_timeout options of None \<Rightarrow> True | Some t \<Rightarrow> t > 0))
      in if \<not> waitForDelivery \<or> length ids = 0 then retE (map (\<lambda>_. None) ids) (c, d)
         else (case deliver ids d of
                 None \<Rightarrow> None
               | Some (f, d') \<Rightarrow> retE (map f ids) (c, d'))))"

text \<open>\<open>executeReadPipeline\<close>: each layer receives the rest of the pipeline as \<open>next\<close>.\<close>

fun executeReadPipeline :: "('w, 'e) layer list \<Rightarrow> read_options \<Rightarrow> doc_id list \<Rightarrow>
    ('w, 'e, entry_leaf option list) act" where
  "executeReadPipeline [] options remaining = retE (map (\<lambda>_. None) remaining)"
| "executeReadPipeline (layer # layers) options remaining =
     layer remaining options (executeReadPipeline layers options)"

definition readLayers :: "('d \<Rightarrow> doc_id list \<Rightarrow> db_row list option) \<Rightarrow>
    (doc_id list \<Rightarrow> 'd \<Rightarrow> ((doc_id \<Rightarrow> entry_leaf option) \<times> 'd) option) \<Rightarrow>
    (cache_layer \<times> 'd, chunk_error) layer list" where
  "readLayers allDocs deliver = [cache_read, db_read allDocs, arrival_read deliver]"

section \<open>The manager's read\<close>

text \<open>The loop over \<open>Object.entries(preloadedChunks)\<close>; \<open>None\<close> when caching a chunk never returns.\<close>

fun preload :: "(doc_id \<times> db_doc) list \<Rightarrow> cache_layer \<Rightarrow> (doc_id, entry_leaf option) jsmap \<Rightarrow> doc_id list \<Rightarrow>
    (cache_layer \<times> (doc_id, entry_leaf option) jsmap \<times> doc_id list) option" where
  "preload [] c resultMap readIds = Some (c, resultMap, readIds)"
| "preload ((i, doc) # rest) c resultMap readIds =
     (case doc of
        LeafDoc chunk \<Rightarrow>
          (case cacheChunk chunk c of
             None \<Rightarrow> None
           | Some c' \<Rightarrow> preload rest c' (jm_set i (Some chunk) resultMap) (filter (\<lambda>j. j \<noteq> i) readIds))
      | OtherDoc _ _ \<Rightarrow> preload rest c resultMap readIds)"

fun merge_results :: "entry_leaf option list \<Rightarrow> (doc_id, entry_leaf option) jsmap \<Rightarrow> (doc_id, entry_leaf option) jsmap" where
  "merge_results [] resultMap = resultMap"
| "merge_results (r # rs) resultMap =
     (case r of None \<Rightarrow> merge_results rs resultMap
      | Some chunk \<Rightarrow> merge_results rs (jm_set (leaf_id chunk) (Some chunk) resultMap))"

definition map_or_false :: "(doc_id, entry_leaf option) jsmap \<Rightarrow> doc_id \<Rightarrow> entry_leaf option" where
  "map_or_false m i = (case jm_get m i of Some (Some l) \<Rightarrow> Some l | _ \<Rightarrow> None)"

definition manager_read :: "('d \<Rightarrow> doc_id list \<Rightarrow> db_row list option) \<Rightarrow>
    (doc_id list \<Rightarrow> 'd \<Rightarrow> ((doc_id \<Rightarrow> entry_leaf option) \<times> 'd) option) \<Rightarrow>
    doc_id list \<Rightarrow> read_options \<Rightarrow> (doc_id \<times> db_doc) list \<Rightarrow>
    (cache_layer \<times> 'd, chunk_error, entry_leaf option list) act" where
  "manager_read allDocs deliver ids options preloadedChunks = (\<lambda>(c, d).
     (let order = ids;
          resultMap = foldl (\<lambda>m i. jm_set i None m) [] ids;
          readIds = js_unique (jm_keys resultMap)
      in (case preload preloadedChunks c resultMap readIds of
            None \<Rightarrow> None
          | Some (c1, resultMap1, readIds1) \<Rightarrow>
              bindE (executeReadPipeline (readLayers allDocs deliver) options readIds1)
                (\<lambda>results. retE (map (map_or_false (merge_results results resultMap1)) order)) (c1, d))))"

section \<open>The write pipeline\<close>

type_synonym ('w, 'e) write_layer = "entry_leaf list \<Rightarrow> write_options \<Rightarrow>
    (entry_leaf list \<Rightarrow> ('w, 'e, write_result) act) \<Rightarrow> ('w, 'e, write_result) act"

text \<open>\<open>bulkDocs chunks new_edits d\<close> is \<open>None\<close> with the database when the call throws.\<close>

definition db_write :: "(entry_leaf list \<Rightarrow> bool \<Rightarrow> 'd \<Rightarrow> write_row list option \<times> 'd) \<Rightarrow>
    (cache_layer \<times> 'd, chunk_error) write_layer" where
  "db_write bulkDocs chunks options next = (\<lambda>(c, d).
     (if length chunks = 0 then next [] (c, d)
      else (case bulkDocs chunks (\<not> wo_force options) d of
              (None, d') \<Rightarrow> throwE WriteLayerError (c, d')
            | (Some result, d') \<Rightarrow>
                (let failed = filter (\<lambda>res. wrow_error res \<noteq> None) result
                 in if list_ex (\<lambda>res. wrow_status res \<noteq> Some 409) failed
                    then throwE (WriteChunksFailed (List.map_filter wrow_error failed)) (c, d')
                    else
                      let conflictedChunkIDs = List.map_filter wrow_id failed
                      in bindE (next chunks) (\<lambda>nextResult.
                           retE \<lparr>wr_result = True,
                                 wr_processed = \<lparr>wc_cached = wc_cached (wr_processed nextResult),
                                   wc_hotPack = wc_hotPack (wr_processed nextResult),
                                   wc_written = int (length result) - int (length failed),
                                   wc_duplicated = int (length conflictedChunkIDs)\<rparr>\<rparr>) (c, d')))))"

definition hotPack_write :: "('w, 'e) write_layer" where
  "hotPack_write chunks options next = next chunks"

fun executeWritePipeline :: "('w, 'e) write_layer list \<Rightarrow> write_options \<Rightarrow> entry_leaf list \<Rightarrow>
    ('w, 'e, write_result) act" where
  "executeWritePipeline [] options remaining =
     retE \<lparr>wr_result = True, wr_processed = \<lparr>wc_cached = 0, wc_hotPack = 0, wc_written = 0, wc_duplicated = 0\<rparr>\<rparr>"
| "executeWritePipeline (layer # layers) options remaining =
     layer remaining options (executeWritePipeline layers options)"

definition manager_write :: "(entry_leaf list \<Rightarrow> bool \<Rightarrow> 'd \<Rightarrow> write_row list option \<times> 'd) \<Rightarrow>
    entry_leaf list \<Rightarrow> write_options \<Rightarrow> (cache_layer \<times> 'd, chunk_error, write_result) act" where
  "manager_write bulkDocs chunks options =
     executeWritePipeline [db_write bulkDocs, cache_write] options chunks"

section \<open>The layer contract\<close>

text \<open>What a layer may assume of the continuation it is handed.\<close>

definition next_ok :: "('w \<Rightarrow> bool) \<Rightarrow> ('w, 'e) read_next \<Rightarrow> bool" where
  "next_ok I next \<longleftrightarrow>
     (\<forall>ids w rs w'. I w \<longrightarrow> next ids w = Some (Inr rs, w') \<longrightarrow> aligned ids rs \<and> I w')"

lemma next_okI:
  "(\<And>ids w rs w'. I w \<Longrightarrow> next ids w = Some (Inr rs, w') \<Longrightarrow> aligned ids rs \<and> I w') \<Longrightarrow> next_ok I next"
  by (simp add: next_ok_def)

lemma next_okD:
  "next_ok I next \<Longrightarrow> I w \<Longrightarrow> next ids w = Some (Inr rs, w') \<Longrightarrow> aligned ids rs \<and> I w'"
  by (simp add: next_ok_def)

text \<open>
  \<open>IReadLayer\<close>: called with a well-behaved continuation, a layer answers every identifier in its
  place, with the chunk of that identifier or \<open>false\<close>, and keeps the invariant of the state.
\<close>

locale read_layer =
  fixes rd :: "('w, 'e) layer"
    and I :: "'w \<Rightarrow> bool"
  assumes rd_sound: "next_ok I next \<Longrightarrow> I w \<Longrightarrow> rd ids options next w = Some (Inr rs, w') \<Longrightarrow>
      aligned ids rs \<and> I w'"
begin

lemma rd_next_ok: "next_ok I next \<Longrightarrow> next_ok I (\<lambda>ids. rd ids options next)"
  by (intro next_okI) (rule rd_sound)

lemma rd_length: "next_ok I next \<Longrightarrow> I w \<Longrightarrow> rd ids options next w = Some (Inr rs, w') \<Longrightarrow>
    length rs = length ids"
  using rd_sound aligned_length by blast

end

text \<open>Two layers in sequence are a layer again.\<close>

locale two_layers = first: read_layer rd1 I + second: read_layer rd2 I
  for rd1 :: "('w, 'e) layer" and rd2 :: "('w, 'e) layer" and I :: "'w \<Rightarrow> bool"

sublocale two_layers \<subseteq> composed: read_layer "\<lambda>ids options next. rd1 ids options (\<lambda>r. rd2 r options next)" I
proof unfold_locales
  fix "next" w ids options rs w'
  assume "next_ok I next" and "I w" and "rd1 ids options (\<lambda>r. rd2 r options next) w = Some (Inr rs, w')"
  then show "aligned ids rs \<and> I w'"
    using first.rd_sound second.rd_next_ok by blast
qed

lemma executeReadPipeline_next_ok:
  "(\<And>l. l \<in> set layers \<Longrightarrow> read_layer l I) \<Longrightarrow> next_ok I (executeReadPipeline layers options)"
proof (induction layers)
  case Nil
  then show ?case
    by (auto intro!: next_okI simp: aligned_map id_matches_def)
next
  case (Cons l layers)
  then have rest: "next_ok I (executeReadPipeline layers options)" by simp
  have "read_layer l I" using Cons.prems by simp
  from read_layer.rd_next_ok [OF this rest, of options] show ?case
    by (simp add: next_ok_def)
qed

text \<open>The state invariant of the three layers: the cache is sound.\<close>

definition world_ok :: "cache_layer \<times> 'd \<Rightarrow> bool" where
  "world_ok w \<longleftrightarrow> cache_ok (fst w)"

text \<open>\<open>deliver\<close> settles a waiter with the chunk of its own identifier only.\<close>

definition deliver_law :: "(doc_id list \<Rightarrow> 'd \<Rightarrow> ((doc_id \<Rightarrow> entry_leaf option) \<times> 'd) option) \<Rightarrow> bool" where
  "deliver_law deliver \<longleftrightarrow> (\<forall>ids d f d' i. deliver ids d = Some (f, d') \<longrightarrow> id_matches i (f i))"

lemma merged_match:
  assumes "\<And>i l. m i = Some l \<Longrightarrow> leaf_id l = i" and "aligned remaining rs"
  shows "aligned ids (map (\<lambda>i. case m i of Some l \<Rightarrow> Some l | None \<Rightarrow> pair_results remaining rs i) ids)"
proof -
  have "id_matches i (case m i of Some l \<Rightarrow> Some l | None \<Rightarrow> pair_results remaining rs i)" for i
    using assms(1) pair_results_match [OF assms(2)] by (cases "m i") (auto simp: id_matches_def)
  then show ?thesis by (simp add: aligned_map)
qed

interpretation cache: read_layer cache_read world_ok
proof unfold_locales
  fix "next" :: "(cache_layer \<times> 'a, 'b) read_next" and w ids options rs w'
  assume n: "next_ok world_ok next" and i: "world_ok w" and r: "cache_read ids options next w = Some (Inr rs, w')"
  obtain c d where w: "w = (c, d)" by (cases w)
  show "aligned ids rs \<and> world_ok w'"
  proof (cases "ro_skipCache options")
    case True
    with r have "next ids w = Some (Inr rs, w')" by (simp add: cache_read_def)
    with n i show ?thesis by (rule next_okD)
  next
    case False
    have ok: "cache_ok c" using i w by (simp add: world_ok_def)
    obtain c' where c': "cache_ok c'" and "cached c' = cached c" and "cache_bounded c \<longrightarrow> cache_bounded c'"
      and eq: "cache_read ids options next (c, d) =
      (let remaining = filter (\<lambda>i. cached c i = None) ids
       in if remaining = [] then Some (Inr (map (cached c) ids), (c', d))
          else bindE (next remaining) (\<lambda>rs. retE (map (\<lambda>i. case cached c i of Some l \<Rightarrow> Some l
                 | None \<Rightarrow> pair_results remaining rs i) ids)) (c', d))"
      by (rule cache_read_unfold [OF ok False, of ids "next" d])
    have ids: "id_matches i (cached c i)" for i
      using cache_ok_id [OF ok] by (auto simp: id_matches_def split: option.splits)
    show ?thesis
    proof (cases "filter (\<lambda>i. cached c i = None) ids = []")
      case True
      with r c' ids show ?thesis by (auto simp: w eq world_ok_def aligned_map)
    next
      case rem: False
      with r obtain rs1 w1 where nx: "next (filter (\<lambda>i. cached c i = None) ids) (c', d) = Some (Inr rs1, w1)"
        and out: "rs = map (\<lambda>i. case cached c i of Some l \<Rightarrow> Some l
                 | None \<Rightarrow> pair_results (filter (\<lambda>i. cached c i = None) ids) rs1 i) ids" "w' = w1"
        by (auto simp: w eq bindE_Inr Let_def)
      have "world_ok (c', d)" using c' by (simp add: world_ok_def)
      from next_okD [OF n this nx]
      have "aligned (filter (\<lambda>i. cached c i = None) ids) rs1" "world_ok w1" by simp_all
      with merged_match [of "cached c"] cache_ok_id [OF ok] out show ?thesis by blast
    qed
  qed
qed

definition keyed :: "(doc_id, entry_leaf) jsmap \<Rightarrow> bool" where
  "keyed m \<longleftrightarrow> (\<forall>i l. jm_get m i = Some l \<longrightarrow> leaf_id l = i)"

lemma keyed_Nil [simp]: "keyed []"
  by (simp add: keyed_def)

lemma keyed_set [simp]: "keyed m \<Longrightarrow> keyed (jm_set (leaf_id l) l m)"
  by (simp add: keyed_def)

lemma db_scan_ids: "db_scan rows rm rem = Inr (rm', rem') \<Longrightarrow> keyed rm \<Longrightarrow> keyed rm'"
  by (induction rows arbitrary: rm rem) (auto split: option.splits db_doc.splits if_splits)

interpretation db: read_layer "db_read allDocs" world_ok for allDocs
proof unfold_locales
  fix "next" :: "(cache_layer \<times> 'a, chunk_error) read_next" and w ids options rs w'
  assume n: "next_ok world_ok next" and i: "world_ok w" and r: "db_read allDocs ids options next w = Some (Inr rs, w')"
  obtain c d where w: "w = (c, d)" by (cases w)
  consider (empty) "ids = []" | (threw) "ids \<noteq> []" "allDocs d ids = None"
    | (rows) rows where "ids \<noteq> []" "allDocs d ids = Some rows" by (cases "allDocs d ids") auto
  then show "aligned ids rs \<and> world_ok w'"
  proof cases
    case empty
    with r i w show ?thesis by (simp add: db_read_def aligned_def)
  next
    case threw
    with r i w show ?thesis by (simp add: db_read_def aligned_map id_matches_def)
  next
    case rows
    then obtain rm rem where sc: "db_scan rows [] [] = Inr (rm, rem)"
      using r w by (cases "db_scan rows [] []") (auto simp: db_read_def)
    have ids: "leaf_id l = j" if "jm_get rm j = Some l" for j l
      using db_scan_ids [OF sc] that by (simp add: keyed_def)
    show ?thesis
    proof (cases "rem = []")
      case True
      with r i w rows sc ids show ?thesis
        by (auto simp: db_read_def aligned_map id_matches_def split: option.splits)
    next
      case False
      with r w rows sc obtain rs1 w1 where nx: "next rem (c, d) = Some (Inr rs1, w1)"
        and out: "rs = map (\<lambda>i. case jm_get rm i of Some l \<Rightarrow> Some l | None \<Rightarrow> pair_results rem rs1 i) ids" "w' = w1"
        by (auto simp: db_read_def bindE_Inr)
      from next_okD [OF n i [unfolded w] nx] have al: "aligned rem rs1" "world_ok w1" by simp_all
      with merged_match [of "\<lambda>j. jm_get rm j" rem rs1 ids] ids out show ?thesis by simp
    qed
  qed
qed

definition waits_for_delivery :: "read_options \<Rightarrow> bool" where
  "waits_for_delivery options =
     (case ro_waitForDelivery options of
        Some b \<Rightarrow> b | None \<Rightarrow> (case ro_timeout options of None \<Rightarrow> True | Some t \<Rightarrow> t > 0))"

lemma arrival_read_eq:
  "arrival_read deliver ids options next (c, d) =
     (if \<not> waits_for_delivery options \<or> ids = [] then Some (Inr (map (\<lambda>_. None) ids), (c, d))
      else map_option (\<lambda>(f, d'). (Inr (map f ids), (c, d'))) (deliver ids d))"
  by (auto simp: arrival_read_def waits_for_delivery_def Let_def retE_def split: option.splits)

lemma deliver_lawD: "deliver_law deliver \<Longrightarrow> deliver ids d = Some (f, d') \<Longrightarrow> id_matches i (f i)"
  unfolding deliver_law_def by blast

lemma arrival_read_layer:
  assumes "deliver_law deliver"
  shows "read_layer (arrival_read deliver) world_ok"
proof unfold_locales
  fix "next" :: "(cache_layer \<times> 'a, chunk_error) read_next" and w ids options rs w'
  assume i: "world_ok w" and r: "arrival_read deliver ids options next w = Some (Inr rs, w')"
  obtain c d where w: "w = (c, d)" by (cases w)
  show "aligned ids rs \<and> world_ok w'"
  proof (cases "\<not> waits_for_delivery options \<or> ids = []")
    case True
    with r i have "rs = map (\<lambda>_. None) ids \<and> world_ok w'" by (auto simp: w arrival_read_eq)
    then show ?thesis by (simp add: aligned_map id_matches_def)
  next
    case False
    with r obtain f d' where "deliver ids d = Some (f, d')" "rs = map f ids" "w' = (c, d')"
      by (auto simp: w arrival_read_eq)
    with deliver_lawD [OF assms] i show ?thesis by (auto simp: w aligned_map world_ok_def)
  qed
qed

interpretation cache_db: two_layers cache_read "db_read allDocs" world_ok for allDocs
  by unfold_locales

lemma pipeline_next_ok:
  assumes "deliver_law deliver"
  shows "next_ok world_ok (executeReadPipeline (readLayers allDocs deliver) options)"
  using cache.read_layer_axioms db.read_layer_axioms arrival_read_layer [OF assms]
  by (intro executeReadPipeline_next_ok) (auto simp: readLayers_def)

section \<open>What a read finds\<close>

text \<open>
  The documented behaviour of \<open>allDocs({ keys, include_docs: true })\<close>: one row for each key, in the
  order of the keys, with the document of that identifier or a \<open>not_found\<close> error. \<open>content d\<close> is
  the content of the database.
\<close>

definition row_for :: "(doc_id \<rightharpoonup> db_doc) \<Rightarrow> doc_id \<Rightarrow> db_row" where
  "row_for m i = (case m i of
      Some doc \<Rightarrow> \<lparr>row_key = Some i, row_doc = Some doc, row_obj = JsObj None None\<rparr>
    | None \<Rightarrow> \<lparr>row_key = Some i, row_doc = None, row_obj = JsObj None (Some (JsStr ''not_found''))\<rparr>)"

definition allDocs_law :: "('d \<Rightarrow> doc_id list \<Rightarrow> db_row list option) \<Rightarrow> ('d \<Rightarrow> doc_id \<rightharpoonup> db_doc) \<Rightarrow> bool" where
  "allDocs_law allDocs content \<longleftrightarrow>
     (\<forall>d ids. allDocs d ids = Some (map (row_for (content d)) ids)) \<and>
     (\<forall>d i l. content d i = Some (LeafDoc l) \<longrightarrow> leaf_id l = i)"

lemma allDocs_lawD:
  "allDocs_law allDocs content \<Longrightarrow> allDocs d ids = Some (map (row_for (content d)) ids)"
  "allDocs_law allDocs content \<Longrightarrow> content d i = Some (LeafDoc l) \<Longrightarrow> leaf_id l = i"
  unfolding allDocs_law_def by blast+

definition leaf_of :: "db_doc option \<Rightarrow> entry_leaf option" where
  "leaf_of doc = (case doc of Some (LeafDoc l) \<Rightarrow> Some l | _ \<Rightarrow> None)"

definition only_leaves :: "(doc_id \<rightharpoonup> db_doc) \<Rightarrow> doc_id list \<Rightarrow> bool" where
  "only_leaves m ids \<longleftrightarrow> (\<forall>i \<in> set ids. i \<noteq> [] \<and> (m i = None \<or> leaf_of (m i) \<noteq> None))"

lemma only_leaves_cases:
  assumes "only_leaves m (i # ids)"
  obtains (absent) "m i = None" "i \<noteq> []" | (leaf) l where "m i = Some (LeafDoc l)" "i \<noteq> []"
  using assms by (auto simp: only_leaves_def leaf_of_def split: option.splits db_doc.splits)

lemma only_leaves_subset: "only_leaves m ids \<Longrightarrow> set js \<subseteq> set ids \<Longrightarrow> only_leaves m js"
  by (auto simp: only_leaves_def)

lemma db_scan_rows:
  assumes "only_leaves m ids" and "\<And>i l. m i = Some (LeafDoc l) \<Longrightarrow> leaf_id l = i"
  shows "\<exists>rm'. db_scan (map (row_for m) ids) rm rem = Inr (rm', rem @ filter (\<lambda>i. m i = None) ids) \<and>
    (\<forall>j. jm_get rm' j = (if j \<in> set ids \<and> m j \<noteq> None then leaf_of (m j) else jm_get rm j))"
  using assms(1)
proof (induction ids arbitrary: rm rem)
  case Nil
  then show ?case by simp
next
  case (Cons i ids)
  have rest: "only_leaves m ids" using Cons.prems by (rule only_leaves_subset) auto
  from Cons.prems show ?case
  proof (cases rule: only_leaves_cases)
    case absent
    from Cons.IH [OF rest, of rm "rem @ [i]"] absent show ?thesis
      by (auto simp: row_for_def)
  next
    case (leaf l)
    then have "leaf_id l = i" by (simp add: assms(2))
    with Cons.IH [OF rest, of "jm_set i l rm" rem] leaf show ?thesis
      by (auto simp: row_for_def leaf_of_def)
  qed
qed

lemma bind_next_map:
  assumes "next xs w = Some (Inr (map g xs), w')" and "xs = filter P ids" and "\<And>i. i \<in> set ids \<Longrightarrow> \<not> P i \<Longrightarrow> m i \<noteq> None"
    and "\<And>i. P i \<Longrightarrow> m i = None"
  shows "bindE (next xs) (\<lambda>rs. retE (map (\<lambda>i. case m i of Some l \<Rightarrow> Some l | None \<Rightarrow> pair_results xs rs i) ids)) w =
    Some (Inr (map (\<lambda>i. case m i of Some l \<Rightarrow> Some l | None \<Rightarrow> g i) ids), w')"
proof -
  have "(case m i of Some l \<Rightarrow> Some l | None \<Rightarrow> pair_results xs (map g xs) i) =
      (case m i of Some l \<Rightarrow> Some l | None \<Rightarrow> g i)" if "i \<in> set ids" for i
  proof (cases "P i")
    case True
    then have "pair_results xs (map g xs) i = g i" using that by (simp add: assms(2) pair_results_map)
    then show ?thesis by (simp split: option.split)
  next
    case False
    with assms(3) [OF that] show ?thesis by auto
  qed
  then show ?thesis using assms(1) by (simp add: bindE_def retE_def)
qed

lemma db_read_spec:
  assumes law: "allDocs_law allDocs content" and ol: "only_leaves (content d) ids"
    and nx: "\<And>xs. xs \<noteq> [] \<Longrightarrow> set xs \<subseteq> set ids \<Longrightarrow> next xs (c, d) = Some (Inr (map f xs), (c, d'))"
  shows "\<exists>d''. db_read allDocs ids options next (c, d) =
    Some (Inr (map (\<lambda>i. case leaf_of (content d i) of Some l \<Rightarrow> Some l | None \<Rightarrow> f i) ids), (c, d''))"
proof -
  let ?m = "content d"
  have idl: "leaf_id l = i" if "?m i = Some (LeafDoc l)" for i l
    using allDocs_lawD(2) [OF law that] .
  obtain rm where sc: "db_scan (map (row_for ?m) ids) [] [] = Inr (rm, filter (\<lambda>i. ?m i = None) ids)"
    and rm: "\<And>j. jm_get rm j = (if j \<in> set ids \<and> ?m j \<noteq> None then leaf_of (?m j) else jm_get [] j)"
    using db_scan_rows [OF ol idl, of "[]" "[]"] unfolding append_Nil by blast
  have eq: "jm_get rm j = leaf_of (?m j)" if "j \<in> set ids" for j
    using that rm by (auto simp: leaf_of_def)
  let ?rem = "filter (\<lambda>i. ?m i = None) ids"
  consider "ids = []" | "ids \<noteq> []" "?rem = []" | "?rem \<noteq> []" by fastforce
  then show ?thesis
  proof cases
    case 1
    then show ?thesis by (simp add: db_read_def retE_def)
  next
    case 2
    have lf: "leaf_of (?m j) \<noteq> None" if "j \<in> set ids" for j
      using that ol 2(2) unfolding only_leaves_def filter_empty_conv by blast
    have "jm_get rm j = (case leaf_of (?m j) of Some l \<Rightarrow> Some l | None \<Rightarrow> f j)" if "j \<in> set ids" for j
      using lf [OF that] eq [OF that] by auto
    with 2 show ?thesis
      by (simp add: db_read_def retE_def allDocs_lawD(1) [OF law] sc cong: map_cong)
  next
    case 3
    then have ne: "ids \<noteq> []" by auto
    have "next ?rem (c, d) = Some (Inr (map f ?rem), (c, d'))" using 3 by (intro nx) auto
    have found: "leaf_of (?m i) \<noteq> None" if "i \<in> set ids" "\<not> ?m i = None" for i
      using ol [unfolded only_leaves_def, rule_format, OF that(1)] that(2) by simp
    have absent: "leaf_of (?m i) = None" if "?m i = None" for i
      using that by (simp add: leaf_of_def)
    note b = bind_next_map [of "next" ?rem "(c, d)" f "(c, d')" "\<lambda>i. ?m i = None" ids "\<lambda>i. leaf_of (?m i)",
      OF \<open>next ?rem (c, d) = _\<close> refl found absent]
    show ?thesis
      using 3 ne b by (simp add: db_read_def allDocs_lawD(1) [OF law] sc eq cong: map_cong)
  qed
qed

text \<open>Where a chunk is found: the cache first, then the database, then the delivery.\<close>

definition store_lookup :: "cache_layer \<Rightarrow> (doc_id \<rightharpoonup> db_doc) \<Rightarrow> (doc_id \<Rightarrow> entry_leaf option) \<Rightarrow>
    doc_id \<Rightarrow> entry_leaf option" where
  "store_lookup c m f i = (case cached c i of Some l \<Rightarrow> Some l
     | None \<Rightarrow> (case leaf_of (m i) of Some l \<Rightarrow> Some l | None \<Rightarrow> f i))"

definition delivered :: "read_options \<Rightarrow> (doc_id \<Rightarrow> entry_leaf option) \<Rightarrow> doc_id \<Rightarrow> entry_leaf option" where
  "delivered options f i = (if waits_for_delivery options then f i else None)"

lemma pipeline_spec:
  assumes ok: "cache_ok c" and sk: "\<not> ro_skipCache options"
    and law: "allDocs_law allDocs content" and ol: "only_leaves (content d) ids"
    and dl: "\<And>xs. deliver xs d = Some (f, d)"
  shows "\<exists>w. executeReadPipeline (readLayers allDocs deliver) options ids (c, d) =
    Some (Inr (map (store_lookup c (content d) (delivered options f)) ids), w)"
proof -
  let ?arrival = "executeReadPipeline [arrival_read deliver] options"
  let ?db = "executeReadPipeline [db_read allDocs, arrival_read deliver] options"
  have arr: "?arrival xs (c', d) = Some (Inr (map (delivered options f) xs), (c', d))" for xs c'
    by (auto simp: arrival_read_eq delivered_def dl)
  have db: "\<exists>d''. ?db xs (c', d) = Some (Inr (map (\<lambda>i. case leaf_of (content d i) of Some l \<Rightarrow> Some l
      | None \<Rightarrow> delivered options f i) xs), (c', d''))" if "set xs \<subseteq> set ids" for xs c'
    using db_read_spec [OF law only_leaves_subset [OF ol that], of ?arrival c' "delivered options f" d options] arr
    by simp
  obtain c' where c': "cache_read ids options ?db (c, d) =
      (let remaining = filter (\<lambda>i. cached c i = None) ids
       in if remaining = [] then Some (Inr (map (cached c) ids), (c', d))
          else bindE (?db remaining) (\<lambda>rs. retE (map (\<lambda>i. case cached c i of Some l \<Rightarrow> Some l
                 | None \<Rightarrow> pair_results remaining rs i) ids)) (c', d))"
    by (rule cache_read_unfold [OF ok sk, of ids ?db d])
  show ?thesis
  proof (cases "filter (\<lambda>i. cached c i = None) ids = []")
    case True
    then have "cached c i = store_lookup c (content d) (delivered options f) i" if "i \<in> set ids" for i
      using that by (auto simp: filter_empty_conv store_lookup_def)
    with True show ?thesis by (simp add: readLayers_def c' cong: map_cong)
  next
    case False
    obtain d'' where "?db (filter (\<lambda>i. cached c i = None) ids) (c', d) =
      Some (Inr (map (\<lambda>i. case leaf_of (content d i) of Some l \<Rightarrow> Some l
        | None \<Rightarrow> delivered options f i) (filter (\<lambda>i. cached c i = None) ids)), (c', d''))"
      using db [of "filter (\<lambda>i. cached c i = None) ids" c'] by auto
    from bind_next_map [of ?db "filter (\<lambda>i. cached c i = None) ids" "(c', d)" "\<lambda>i. case leaf_of (content d i) of
        Some l \<Rightarrow> Some l | None \<Rightarrow> delivered options f i" "(c', d'')" "\<lambda>i. cached c i = None" ids "cached c", OF this refl] False
    show ?thesis by (simp add: readLayers_def c' store_lookup_def [abs_def])
  qed
qed

lemma merge_results_map:
  assumes "\<And>i. i \<in> set xs \<Longrightarrow> id_matches i (g i)" and "distinct xs"
  shows "jm_get (merge_results (map g xs) m) i =
    (if i \<in> set xs \<and> g i \<noteq> None then Some (g i) else jm_get m i)"
  using assms
proof (induction xs arbitrary: m)
  case Nil
  then show ?case by simp
next
  case (Cons x xs)
  have gx: "id_matches x (g x)" using Cons.prems(1) by simp
  show ?case
  proof (cases "g x")
    case None
    with Cons show ?thesis by auto
  next
    case (Some l)
    with gx have "leaf_id l = x" by (simp add: id_matches_def)
    with Some Cons.IH [of "jm_set x (Some l) m"] Cons.prems show ?thesis by auto
  qed
qed

lemma init_result_map: "jm_get (foldl (\<lambda>m i. jm_set i None m) m ids) i =
    (if i \<in> set ids then Some None else jm_get m i)"
  by (induction ids arbitrary: m) auto

lemma init_result_keys: "set (jm_keys (foldl (\<lambda>m i. jm_set i None m) m ids)) = set (jm_keys m) \<union> set ids"
  by (rule set_eqI) (simp only: Un_iff jsm.keys_get init_result_map, simp)

lemma merge_results_keyed:
  assumes "\<And>i l. jm_get m i = Some (Some l) \<Longrightarrow> leaf_id l = i"
    and "jm_get (merge_results rs m) i = Some (Some l)"
  shows "leaf_id l = i"
  using assms
proof (induction rs arbitrary: m)
  case Nil
  then show ?case by simp
next
  case (Cons r rs)
  show ?case
  proof (cases r)
    case None
    with Cons.IH [OF Cons.prems(1)] Cons.prems(2) show ?thesis by simp
  next
    case (Some k)
    have "leaf_id l' = j" if "jm_get (jm_set (leaf_id k) (Some k) m) j = Some (Some l')" for j l'
      using that Cons.prems(1) by (auto split: if_splits)
    moreover have "jm_get (merge_results rs (jm_set (leaf_id k) (Some k) m)) i = Some (Some l)"
      using Cons.prems(2) Some by simp
    ultimately show ?thesis by (rule Cons.IH)
  qed
qed

lemma id_matches_map_or_false:
  "(\<And>l. jm_get m i = Some (Some l) \<Longrightarrow> leaf_id l = i) \<Longrightarrow> id_matches i (map_or_false m i)"
  by (auto simp: map_or_false_def id_matches_def split: option.splits)

lemma preload_ok:
  assumes "cache_ok c" and "cache_bounded c"
    and "\<And>i l. (i, LeafDoc l) \<in> set pre \<Longrightarrow> leaf_id l = i \<and> i \<noteq> []"
    and "\<And>i l. jm_get rm i = Some (Some l) \<Longrightarrow> leaf_id l = i"
  shows "\<exists>c' rm' ids'. preload pre c rm ids = Some (c', rm', ids') \<and> cache_ok c' \<and> cache_bounded c' \<and>
    (\<forall>i l. jm_get rm' i = Some (Some l) \<longrightarrow> leaf_id l = i)"
  using assms
proof (induction pre arbitrary: c rm ids)
  case Nil
  then show ?case by simp
next
  case (Cons x pre)
  obtain i doc where x: "x = (i, doc)" by (cases x)
  have pre: "leaf_id l = i \<and> i \<noteq> []" if "(i, LeafDoc l) \<in> set pre" for i l
    using Cons.prems(3) [of i l] that by simp
  show ?case
  proof (cases doc)
    case (LeafDoc l)
    have li: "leaf_id l = i" "leaf_id l \<noteq> []" using Cons.prems(3) [of i l] x LeafDoc by auto
    obtain c1 where c1: "cacheChunk l c = Some c1" "cache_ok c1" "cache_bounded c1"
      using cacheChunk_spec [OF Cons.prems(1,2) li(2)] by blast
    have rm: "leaf_id l' = j" if "jm_get (jm_set i (Some l) rm) j = Some (Some l')" for j l'
      using that Cons.prems(4) [of j l'] li(1) by (simp split: if_splits)
    from Cons.IH [where ids = "filter (\<lambda>j. j \<noteq> i) ids" and rm = "jm_set i (Some l) rm", OF c1(2,3) pre rm] c1(1) LeafDoc x show ?thesis by simp
  next
    case (OtherDoc j s)
    with Cons.IH [where ids = ids, OF Cons.prems(1,2) pre Cons.prems(4)] x show ?thesis by simp
  qed
qed

section \<open>What a write leaves behind\<close>

definition conflicts_only :: "write_row list \<Rightarrow> bool" where
  "conflicts_only rows \<longleftrightarrow> (\<forall>r \<in> set rows. wrow_error r \<noteq> None \<longrightarrow> wrow_status r = Some 409)"

definition failed_rows :: "write_row list \<Rightarrow> write_row list" where
  "failed_rows rows = filter (\<lambda>r. wrow_error r \<noteq> None) rows"

lemma list_ex_failed: "list_ex (\<lambda>r. wrow_status r \<noteq> Some 409) (filter (\<lambda>r. wrow_error r \<noteq> None) rows) \<longleftrightarrow>
    \<not> conflicts_only rows"
  by (auto simp: list_ex_iff conflicts_only_def)

lemma cache_write_last:
  assumes "cache_ok c" and "cache_bounded c" and "\<forall>ch \<in> set chunks. leaf_id ch \<noteq> []" and "\<not> wo_skipCache options"
  shows "\<exists>c'. executeWritePipeline [cache_write] options chunks (c, d) =
      Some (Inr \<lparr>wr_result = True, wr_processed = \<lparr>wc_cached = int (length chunks) -
        int (length (filter (\<lambda>ch. cached c (leaf_id ch) = None) chunks)),
        wc_hotPack = 0, wc_written = 0, wc_duplicated = 0\<rparr>\<rparr>, (c', d)) \<and>
    cache_ok c' \<and> cache_bounded c' \<and>
    (int (card (leaf_id ` set chunks)) \<le> maxCacheSize c \<longrightarrow> (\<forall>ch \<in> set chunks. cached c' (leaf_id ch) \<noteq> None))"
proof -
  let ?fl = "filter (\<lambda>ch. cached c (leaf_id ch) = None) chunks"
  obtain c1 where c1: "cache_filter chunks c [] = (?fl, c1)" "cache_ok c1" "cached c1 = cached c"
      "maxCacheSize c1 = maxCacheSize c" "cache_bounded c1"
    using cache_filter_spec [OF assms(1), of chunks "[]"] assms(2) by auto
  obtain c2 where c2: "cacheAll chunks c1 = Some c2" "cache_ok c2" "cache_bounded c2"
    using cacheAll_total [OF c1(2,5) assms(3)] by blast
  have "\<forall>ch \<in> set chunks. cached c2 (leaf_id ch) \<noteq> None" if "int (card (leaf_id ` set chunks)) \<le> maxCacheSize c"
    using cacheAll_retains [OF c1(2,5) assms(3), of "jm_keys (caches c1)" "[]"] that c1(4) c2(1) by auto
  with c1 c2 assms(4) show ?thesis
    by (intro exI [of _ c2]) (simp add: cache_write_def bindE_def retE_def)
qed

section \<open>Properties of the pipelines\<close>

text \<open>
  Whatever the read pipeline answers is aligned with the identifiers asked for: one answer for
  each, at its place, and a chunk answered for an identifier is the chunk of that identifier. The
  cache keeps its invariant. It holds for every database and every delivery that settles a waiter
  with its own chunk only, and with any chunks preloaded under their own identifiers.
\<close>

theorem manager_read_aligned:
  assumes "deliver_law deliver" and "cache_ok c" and "cache_bounded c"
    and "\<And>i l. (i, LeafDoc l) \<in> set pre \<Longrightarrow> leaf_id l = i \<and> i \<noteq> []"
    and "manager_read allDocs deliver ids options pre (c, d) = Some (Inr rs, w')"
  shows "list_all2 (\<lambda>i r. case r of None \<Rightarrow> True | Some l \<Rightarrow> leaf_id l = i) ids rs \<and> cache_ok (fst w')"
proof -
  let ?rm = "foldl (\<lambda>m i. jm_set i (None :: entry_leaf option) m) [] ids"
  have rm0: "leaf_id l = i" if "jm_get ?rm i = Some (Some l)" for i l
    using that by (simp add: init_result_map split: if_splits)
  from preload_ok [where ids = "js_unique (jm_keys ?rm)", OF assms(2-4) rm0]
  obtain c1 rm1 ids1 where p: "preload pre c ?rm (js_unique (jm_keys ?rm)) = Some (c1, rm1, ids1)"
    and c1: "cache_ok c1" and rm1: "\<And>i l. jm_get rm1 i = Some (Some l) \<Longrightarrow> leaf_id l = i" by blast
  have "bindE (executeReadPipeline (readLayers allDocs deliver) options ids1)
      (\<lambda>results. retE (map (map_or_false (merge_results results rm1)) ids)) (c1, d) = Some (Inr rs, w')"
    using assms(5) by (simp only: manager_read_def Let_def prod.case p option.case)
  then obtain rs1 where r1: "executeReadPipeline (readLayers allDocs deliver) options ids1 (c1, d) = Some (Inr rs1, w')"
    and rs: "rs = map (map_or_false (merge_results rs1 rm1)) ids"
    by (auto simp: bindE_Inr)
  have "world_ok (c1, d)" using c1 by (simp add: world_ok_def)
  from next_okD [OF pipeline_next_ok [OF assms(1)] this r1] have "world_ok w'" by simp
  moreover have "id_matches i (map_or_false (merge_results rs1 rm1) i)" for i
    using merge_results_keyed [OF rm1] by (rule id_matches_map_or_false)
  then have "aligned ids rs" by (simp add: rs aligned_map)
  ultimately show ?thesis by (simp add: world_ok_def aligned_def id_matches_def [abs_def])
qed


definition sample_options :: read_options where
  "sample_options = \<lparr>ro_skipCache = False, ro_waitForDelivery = None, ro_timeout = Some 0, ro_preventRemoteRequest = False\<rparr>"

definition sample_content :: "doc_id \<rightharpoonup> db_doc" where
  "sample_content = [''h:4'' \<mapsto> LeafDoc (sample_leaf ''h:4'' ''z'')]"

lemma sample_content_law: "allDocs_law (\<lambda>_ ids. Some (map (row_for sample_content) ids)) (\<lambda>_. sample_content)"
  by (simp add: allDocs_law_def sample_content_def sample_leaf_def)

theorem manager_read_aligned_witness:
  "\<exists>rs w'. manager_read (\<lambda>_ _. None) (\<lambda>_ _. None) [''h:1'', ''h:9''] sample_options [] (sample_cache, ()) = Some (Inr rs, w') \<and>
     list_all2 (\<lambda>i r. case r of None \<Rightarrow> True | Some l \<Rightarrow> leaf_id l = i) [''h:1'', ''h:9''] rs"
proof -
  have "(case manager_read (\<lambda>_ _. None) (\<lambda>_ _. None) [''h:1'', ''h:9''] sample_options [] (sample_cache, ()) of
      Some (Inr _, _) \<Rightarrow> True | _ \<Rightarrow> False)"
    by code_simp
  then obtain rs w' where r: "manager_read (\<lambda>_ _. None) (\<lambda>_ _. None) [''h:1'', ''h:9''] sample_options [] (sample_cache, ()) = Some (Inr rs, w')"
    by (auto split: option.splits sum.splits)
  have "deliver_law (\<lambda>_ _. None)" by (simp add: deliver_law_def)
  from manager_read_aligned [OF this _ _ _ r] sample_cache_ok
  have "list_all2 (\<lambda>i r. case r of None \<Rightarrow> True | Some l \<Rightarrow> leaf_id l = i) [''h:1'', ''h:9''] rs" by simp
  with r show ?thesis by blast
qed


text \<open>
  A write whose rows carry at most conflicts (409) succeeds: it counts as written the rows
  without an error and as duplicated the conflicts, hands every chunk to the cache, which keeps its
  invariant and its limit, and every chunk of the batch is found in the cache afterwards when the
  batch fits in it.
\<close>

theorem manager_write_ok:
  assumes "cache_ok c" and "cache_bounded c" and "\<forall>ch \<in> set chunks. leaf_id ch \<noteq> []" and "chunks \<noteq> []"
    and "\<not> wo_skipCache options" and "bulkDocs chunks (\<not> wo_force options) d = (Some rows, d')" and "conflicts_only rows"
  shows "\<exists>c' n. manager_write bulkDocs chunks options (c, d) =
      Some (Inr \<lparr>wr_result = True, wr_processed = \<lparr>wc_cached = n, wc_hotPack = 0,
        wc_written = int (length (filter (\<lambda>r. wrow_error r = None) rows)),
        wc_duplicated = int (length (List.map_filter wrow_id (failed_rows rows)))\<rparr>\<rparr>, (c', d')) \<and>
    cache_ok c' \<and> cache_bounded c' \<and>
    (int (card (leaf_id ` set chunks)) \<le> maxCacheSize c \<longrightarrow> (\<forall>ch \<in> set chunks. cached c' (leaf_id ch) \<noteq> None))"
proof -
  from cache_write_last [OF assms(1,2,3,5), of d']
  obtain c' n where nx: "executeWritePipeline [cache_write] options chunks (c, d') =
      Some (Inr \<lparr>wr_result = True, wr_processed = \<lparr>wc_cached = n, wc_hotPack = 0, wc_written = 0, wc_duplicated = 0\<rparr>\<rparr> :: chunk_error + write_result, (c', d'))"
    and c': "cache_ok c'" "cache_bounded c'"
      "int (card (leaf_id ` set chunks)) \<le> maxCacheSize c \<longrightarrow> (\<forall>ch \<in> set chunks. cached c' (leaf_id ch) \<noteq> None)" by blast
  have "int (length rows) - int (length (failed_rows rows)) = int (length (filter (\<lambda>r. wrow_error r = None) rows))"
    using sum_length_filter_compl [of "\<lambda>r. wrow_error r = None" rows] by (simp add: failed_rows_def)
  then show ?thesis
    using nx c' assms(4,6,7)
    by (intro exI [of _ c'] exI [of _ n])
       (simp add: manager_write_def db_write_def list_ex_failed bindE_def retE_def failed_rows_def del: not_None_eq)
qed

text \<open>
  A write with a row that failed for another reason than a conflict throws, with the errors of
  the failed rows, and nothing of the batch reaches the cache.
\<close>

theorem manager_write_failed:
  assumes "chunks \<noteq> []" and "bulkDocs chunks (\<not> wo_force options) d = (Some rows, d')" and "\<not> conflicts_only rows"
  shows "manager_write bulkDocs chunks options (c, d) =
    Some (Inl (WriteChunksFailed (List.map_filter wrow_error (failed_rows rows))), (c, d'))"
  using assms by (simp add: manager_write_def db_write_def list_ex_failed throwE_def failed_rows_def del: not_None_eq)

definition sample_wopts :: write_options where
  "sample_wopts = \<lparr>wo_skipCache = False, wo_force = False\<rparr>"

definition ok_row :: write_row where
  "ok_row = \<lparr>wrow_error = None, wrow_status = None, wrow_id = Some ''h:7''\<rparr>"

definition full_row :: write_row where
  "full_row = \<lparr>wrow_error = Some ''quota'', wrow_status = Some 507, wrow_id = Some ''h:8''\<rparr>"

theorem manager_write_ok_witness:
  "\<exists>c' res. manager_write (\<lambda>_ _ _. (Some [ok_row], ())) [sample_leaf ''h:7'' ''q''] sample_wopts (sample_cache, ()) =
      Some (Inr res, (c', ())) \<and> cached c' ''h:7'' \<noteq> None"
  using manager_write_ok [of sample_cache "[sample_leaf ''h:7'' ''q'']" sample_wopts "\<lambda>_ _ _. (Some [ok_row], ())" "()" "[ok_row]" "()"]
    sample_cache_ok
  by (simp add: sample_wopts_def sample_leaf_def conflicts_only_def ok_row_def sample_cache_def) blast

theorem manager_write_failed_witness:
  "manager_write (\<lambda>_ _ _. (Some [ok_row, full_row], ())) [sample_leaf ''h:8'' ''q''] sample_wopts (sample_cache, ()) =
     Some (Inl (WriteChunksFailed [''quota'']), (sample_cache, ()))"
proof -
  have "\<not> conflicts_only [ok_row, full_row]" by (simp add: conflicts_only_def full_row_def)
  from manager_write_failed [of "[sample_leaf ''h:8'' ''q'']" "\<lambda>_ _ _. (Some [ok_row, full_row], ())", OF _ refl this]
  show ?thesis by (simp add: failed_rows_def ok_row_def full_row_def List.map_filter_def)
qed

end
