(* ===== verification/RpcChunking.thy ===== *)
theory RpcChunking
  imports Prelude
begin

text \<open>
  \<open>src/rpc/chunking.ts\<close>: cutting an RPC payload into parts of bounded size, and the buffer that
  reassembles them. A payload is a JavaScript string, a list of 16-bit code units, because the
  bound is on the UTF-8 length while the cuts are at code units.
\<close>

section \<open>Byte length\<close>

definition unit_bytes :: "code_unit \<Rightarrow> nat" where
  "unit_bytes c = (if c < 0x80 then 1 else if c < 0x800 then 2 else 3)"

text \<open>\<open>TextEncoder.encode\<close>: a surrogate pair takes four bytes, a lone surrogate becomes U+FFFD,
  which takes three.\<close>

fun estimateBytes :: "code_unit list \<Rightarrow> nat" where
  "estimateBytes [] = 0"
| "estimateBytes [c] = unit_bytes c"
| "estimateBytes (c # d # cs) =
     (if is_high c \<and> is_low d then 4 + estimateBytes cs else unit_bytes c + estimateBytes (d # cs))"

section \<open>Splitting\<close>

text \<open>The inner loop: it gives up one code unit at a time until the part fits.\<close>

function shrink :: "code_unit list \<Rightarrow> int \<Rightarrow> nat \<Rightarrow> nat \<Rightarrow> nat" where
  "shrink payload maxBytes cursor stop =
     (let part = js_slice payload cursor stop
      in if length part > 1 \<and> int (estimateBytes part) > maxBytes
         then shrink payload maxBytes cursor (max (cursor + 1) (stop - 1)) else stop)"
  by pat_completeness auto
termination
  by (relation "measure (\<lambda>(p, m, c, e). e)") (auto simp: js_slice_def)

declare shrink.simps [simp del]

definition window_end :: "code_unit list \<Rightarrow> int \<Rightarrow> nat \<Rightarrow> nat" where
  "window_end payload maxBytes cursor = min (length payload) (cursor + max 16 (nat (maxBytes div 2)))"

lemma shrink_le: "shrink payload maxBytes cursor stop \<le> max (cursor + 1) stop"
proof (induction payload maxBytes cursor stop rule: shrink.induct)
  case (1 payload maxBytes cursor stop)
  then show ?case
    by (subst shrink.simps) (auto simp: Let_def)
qed

lemma shrink_gt:
  assumes "cursor < stop"
  shows "cursor < shrink payload maxBytes cursor stop"
  using assms
proof (induction payload maxBytes cursor stop rule: shrink.induct)
  case (1 payload maxBytes cursor stop)
  then show ?case
    by (subst shrink.simps) (auto simp: Let_def)
qed

function split_loop :: "code_unit list \<Rightarrow> int \<Rightarrow> nat \<Rightarrow> code_unit list list \<Rightarrow> code_unit list list" where
  "split_loop payload maxBytes cursor chunks =
     (if cursor < length payload then
        let stop = shrink payload maxBytes cursor (window_end payload maxBytes cursor);
            part = js_slice payload cursor stop
        in split_loop payload maxBytes stop (chunks @ [part])
      else chunks)"
  by pat_completeness auto
termination
proof (relation "measure (\<lambda>(p, m, c, _). length p - c)", goal_cases)
  case 1
  then show ?case by simp
next
  case (2 payload maxBytes cursor chunks e p)
  then have "cursor < window_end payload maxBytes cursor" by (simp add: window_end_def)
  from shrink_gt [OF this, of payload maxBytes] 2 show ?case by simp
qed

declare split_loop.simps [simp del]

definition splitIntoChunks :: "code_unit list \<Rightarrow> int \<Rightarrow> code_unit list list" where
  "splitIntoChunks payload maxBytes =
     (if maxBytes \<le> 0 then [payload]
      else if int (estimateBytes payload) \<le> maxBytes then [payload]
      else split_loop payload maxBytes 0 [])"

section \<open>The incoming buffer\<close>

record incoming =
  ib_total :: int
  ib_parts :: "(int, code_unit list) jsmap"

definition new_buffer :: "int \<Rightarrow> incoming" where
  "new_buffer n = \<lparr>ib_total = n, ib_parts = []\<rparr>"

definition ib_add :: "int \<Rightarrow> code_unit list \<Rightarrow> incoming \<Rightarrow> incoming" where
  "ib_add index payload b =
     (if index < 0 \<or> index \<ge> ib_total b then b else b\<lparr>ib_parts := jm_set index payload (ib_parts b)\<rparr>)"

definition missingIndices :: "incoming \<Rightarrow> int list" where
  "missingIndices b = filter (\<lambda>i. \<not> jm_has (ib_parts b) i) [0..ib_total b - 1]"

definition isComplete :: "incoming \<Rightarrow> bool" where
  "isComplete b \<longleftrightarrow> int (length (ib_parts b)) = ib_total b"

text \<open>\<open>toPayload\<close>: \<open>Inl i\<close> is the error \<open>Missing chunk i\<close>.\<close>

fun payload_loop :: "int list \<Rightarrow> incoming \<Rightarrow> code_unit list \<Rightarrow> int + code_unit list" where
  "payload_loop [] b acc = Inr acc"
| "payload_loop (i # is) b acc =
     (case jm_get (ib_parts b) i of None \<Rightarrow> Inl i | Some part \<Rightarrow> payload_loop is b (acc @ part))"

definition toPayload :: "incoming \<Rightarrow> int + code_unit list" where
  "toPayload b = payload_loop [0..ib_total b - 1] b []"

text \<open>A delivery: the messages in the order they arrive.\<close>

definition receive :: "(int \<times> code_unit list) list \<Rightarrow> incoming \<Rightarrow> incoming" where
  "receive msgs b = foldl (\<lambda>b (i, p). ib_add i p b) b msgs"

section \<open>Lemmas on splitting\<close>

lemma shrink_result:
  "let part = js_slice payload cursor (shrink payload maxBytes cursor stop)
   in length part \<le> 1 \<or> int (estimateBytes part) \<le> maxBytes"
proof (induction payload maxBytes cursor stop rule: shrink.induct)
  case (1 payload maxBytes cursor stop)
  show ?case
  proof (cases "length (js_slice payload cursor stop) > 1 \<and> int (estimateBytes (js_slice payload cursor stop)) > maxBytes")
    case True
    with 1 [OF refl True] show ?thesis by (subst shrink.simps) (simp add: Let_def)
  next
    case False
    then show ?thesis by (subst shrink.simps) (auto simp: Let_def)
  qed
qed

definition good_part :: "int \<Rightarrow> code_unit list \<Rightarrow> bool" where
  "good_part maxBytes part \<longleftrightarrow> part \<noteq> [] \<and> int (length part) \<le> max 16 (maxBytes div 2) \<and>
     (length part = 1 \<or> int (estimateBytes part) \<le> maxBytes)"

lemma window_part:
  assumes "cursor < length payload" and "stop = shrink payload maxBytes cursor (window_end payload maxBytes cursor)"
  shows "cursor < stop" and "stop \<le> length payload" and "good_part maxBytes (js_slice payload cursor stop)"
proof -
  let ?w = "window_end payload maxBytes cursor"
  have w: "cursor < ?w" "?w \<le> length payload" using assms(1) by (auto simp: window_end_def)
  show gt: "cursor < stop" using shrink_gt [OF w(1)] assms(2) by simp
  have le: "stop \<le> ?w" using shrink_le [of payload maxBytes cursor ?w] w(1) assms(2) by simp
  with w(2) show "stop \<le> length payload" by simp
  have len: "length (js_slice payload cursor stop) = stop - cursor"
    using le w(2) by (simp add: length_js_slice)
  have "?w - cursor \<le> max 16 (nat (maxBytes div 2))" by (simp add: window_end_def)
  with le have "stop - cursor \<le> max 16 (nat (maxBytes div 2))" by linarith
  then have "int (stop - cursor) \<le> max 16 (maxBytes div 2)" by linarith
  moreover have "js_slice payload cursor stop \<noteq> []" using len gt by auto
  moreover have "length (js_slice payload cursor stop) = 1 \<or> int (estimateBytes (js_slice payload cursor stop)) \<le> maxBytes"
    using shrink_result [of payload cursor maxBytes ?w] gt len assms(2) by (auto simp: Let_def)
  ultimately show "good_part maxBytes (js_slice payload cursor stop)"
    using len by (simp add: good_part_def)
qed

lemma split_loop_concat:
  "concat (split_loop payload maxBytes cursor chunks) = concat chunks @ drop cursor payload"
proof (induction payload maxBytes cursor chunks rule: split_loop.induct)
  case (1 payload maxBytes cursor chunks)
  show ?case
  proof (cases "cursor < length payload")
    case True
    have "cursor \<le> shrink payload maxBytes cursor (window_end payload maxBytes cursor)"
      using window_part(1) [OF True refl] by (rule less_imp_le)
    with 1 [OF True refl refl] show ?thesis
      by (subst split_loop.simps) (simp add: True Let_def js_slice_append)
  next
    case False
    then show ?thesis by (subst split_loop.simps) simp
  qed
qed

lemma split_loop_parts:
  "part \<in> set (split_loop payload maxBytes cursor chunks) \<Longrightarrow> part \<in> set chunks \<or> good_part maxBytes part"
proof (induction payload maxBytes cursor chunks rule: split_loop.induct)
  case (1 payload maxBytes cursor chunks)
  show ?case
  proof (cases "cursor < length payload")
    case True
    let ?e = "shrink payload maxBytes cursor (window_end payload maxBytes cursor)"
    have "part \<in> set (split_loop payload maxBytes ?e (chunks @ [js_slice payload cursor ?e]))"
      using 1(2) by (subst (asm) split_loop.simps) (simp add: True Let_def)
    from 1(1) [OF True refl refl this] window_part(3) [OF True refl] show ?thesis by auto
  next
    case False
    with 1(2) show ?thesis by (subst (asm) split_loop.simps) simp
  qed
qed

section \<open>Lemmas on the buffer\<close>

definition in_range :: "incoming \<Rightarrow> int \<Rightarrow> bool" where
  "in_range b i \<longleftrightarrow> 0 \<le> i \<and> i < ib_total b"

definition buffer_ok :: "incoming \<Rightarrow> bool" where
  "buffer_ok b \<longleftrightarrow> jm_wf (ib_parts b) \<and> (\<forall>i. jm_has (ib_parts b) i \<longrightarrow> in_range b i)"

lemma ib_total_add [simp]: "ib_total (ib_add i p b) = ib_total b"
  by (simp add: ib_add_def)

lemma buffer_ok_add: "buffer_ok b \<Longrightarrow> buffer_ok (ib_add i p b)"
  by (auto simp: buffer_ok_def ib_add_def in_range_def)

lemma jm_get_add:
  "jm_get (ib_parts (ib_add i p b)) j = (if j = i \<and> in_range b i then Some p else jm_get (ib_parts b) j)"
  by (auto simp: ib_add_def in_range_def)

lemma receive_Cons: "receive ((i, p) # msgs) b = receive msgs (ib_add i p b)"
  by (simp add: receive_def)

lemma receive_total [simp]: "ib_total (receive msgs b) = ib_total b"
  by (induction msgs arbitrary: b) (auto simp: receive_def)

lemma receive_ok: "buffer_ok b \<Longrightarrow> buffer_ok (receive msgs b)"
proof (induction msgs arbitrary: b)
  case Nil
  then show ?case by (simp add: receive_def)
next
  case (Cons x msgs)
  then show ?case by (cases x) (simp add: receive_Cons buffer_ok_add)
qed

lemma receive_has:
  "jm_has (ib_parts (receive msgs b)) j \<longleftrightarrow> jm_has (ib_parts b) j \<or> (in_range b j \<and> j \<in> fst ` set msgs)"
proof (induction msgs arbitrary: b)
  case Nil
  then show ?case by (simp add: receive_def)
next
  case (Cons x msgs)
  obtain i p where x: "x = (i, p)" by (cases x)
  have "in_range (ib_add i p b) j = in_range b j" by (simp add: in_range_def)
  with Cons.IH [of "ib_add i p b"] show ?case
    by (auto simp: x receive_Cons jm_has_def jm_get_add split: if_splits)
qed

lemma receive_get:
  assumes "\<And>i p. (i, p) \<in> set msgs \<Longrightarrow> in_range b i \<Longrightarrow> p = f i"
    and "\<And>i p. jm_get (ib_parts b) i = Some p \<Longrightarrow> p = f i"
    and "jm_get (ib_parts (receive msgs b)) j = Some q"
  shows "q = f j"
  using assms
proof (induction msgs arbitrary: b)
  case Nil
  then show ?case by (simp add: receive_def)
next
  case (Cons x msgs)
  obtain i p where x: "x = (i, p)" by (cases x)
  show ?case
  proof (rule Cons.IH [of "ib_add i p b"])
    show "p' = f i'" if "(i', p') \<in> set msgs" "in_range (ib_add i p b) i'" for i' p'
      using Cons.prems(1) [of i' p'] that by (simp add: in_range_def)
    show "p' = f i'" if "jm_get (ib_parts (ib_add i p b)) i' = Some p'" for i' p'
      using that Cons.prems(1) [of i p] Cons.prems(2) [of i' p'] x by (auto simp: jm_get_add split: if_splits)
    show "jm_get (ib_parts (receive msgs (ib_add i p b))) j = Some q"
      using Cons.prems(3) by (simp add: x receive_Cons)
  qed
qed

lemma isComplete_iff:
  assumes "buffer_ok b" and "0 \<le> ib_total b"
  shows "isComplete b \<longleftrightarrow> missingIndices b = []"
proof -
  have d: "distinct (jm_keys (ib_parts b))" using assms(1) by (simp add: buffer_ok_def jm_wf_def)
  have sub: "set (jm_keys (ib_parts b)) \<subseteq> {0..<ib_total b}"
    using assms(1) by (auto simp: buffer_ok_def in_range_def jm_has_iff simp del: set_map)
  have card: "length (ib_parts b) = card (set (jm_keys (ib_parts b)))"
    using distinct_card [OF d] by simp
  have "isComplete b \<longleftrightarrow> int (card (set (jm_keys (ib_parts b)))) = ib_total b"
    by (simp only: isComplete_def card)
  also have "\<dots> \<longleftrightarrow> card (set (jm_keys (ib_parts b))) = card {0..<ib_total b}"
    using assms(2) by auto
  also have "\<dots> \<longleftrightarrow> set (jm_keys (ib_parts b)) = {0..<ib_total b}"
    by (rule iffI) (erule card_subset_eq [OF finite_atLeastLessThan_int sub], erule arg_cong)
  also have "\<dots> \<longleftrightarrow> {0..<ib_total b} \<subseteq> set (jm_keys (ib_parts b))" using sub by blast
  also have "\<dots> \<longleftrightarrow> missingIndices b = []"
    by (simp only: missingIndices_def filter_empty_conv jm_has_iff) (auto simp: subset_iff)
  finally show ?thesis .
qed

lemma payload_loop_found:
  assumes "\<And>i. i \<in> set is \<Longrightarrow> jm_get (ib_parts b) i = Some (f i)"
  shows "payload_loop is b acc = Inr (acc @ concat (map f is))"
  using assms by (induction "is" arbitrary: acc) auto

lemma concat_indices: "concat (map (\<lambda>i. xs ! nat i) [0..int (length xs) - 1]) = concat xs"
proof -
  have "map (\<lambda>i. xs ! nat i) [0..int (length xs) - 1] = xs"
    by (rule nth_equalityI) auto
  then show ?thesis by simp
qed

lemma new_buffer_ok: "buffer_ok (new_buffer n)"
  by (simp add: buffer_ok_def new_buffer_def jm_has_def)

lemma new_buffer_simps [simp]:
  "ib_total (new_buffer n) = n"
  "\<not> jm_has (ib_parts (new_buffer n)) i"
  "jm_get (ib_parts (new_buffer n)) i = None"
  by (simp_all add: new_buffer_def jm_has_def)

lemma payload_loop_missing:
  "filter (\<lambda>i. \<not> jm_has (ib_parts b) i) is = i # rest \<Longrightarrow> payload_loop is b acc = Inl i"
  by (induction "is" arbitrary: acc) (auto simp: jm_has_def split: if_splits option.splits)

lemma concat_chunks: "concat (splitIntoChunks payload maxBytes) = payload"
  by (simp add: splitIntoChunks_def split_loop_concat)

section \<open>Properties\<close>

text \<open>
  Splitting loses nothing: the parts of a payload, concatenated, are the payload, for every
  payload and every bound (a non-positive one included).
\<close>

theorem splitIntoChunks_concat: "concat (splitIntoChunks payload maxBytes) = payload"
  by (rule concat_chunks)

text \<open>
  With a positive bound every part fits in it, except a part of a single code unit, which may
  be longer than a tiny bound; a payload above the bound is cut into parts that are never empty and
  no longer than half of the bound (at least 16) in code units.
\<close>

theorem splitIntoChunks_bounds:
  assumes "0 < maxBytes" and "part \<in> set (splitIntoChunks payload maxBytes)"
  shows "(length part = 1 \<or> int (estimateBytes part) \<le> maxBytes) \<and>
    (maxBytes < int (estimateBytes payload) \<longrightarrow> part \<noteq> [] \<and> int (length part) \<le> max 16 (maxBytes div 2))"
proof (cases "int (estimateBytes payload) \<le> maxBytes")
  case True
  with assms show ?thesis by (simp add: splitIntoChunks_def)
next
  case False
  with assms split_loop_parts [of part payload maxBytes 0 "[]"]
  have "good_part maxBytes part" by (simp add: splitIntoChunks_def)
  then show ?thesis by (simp add: good_part_def)
qed

text \<open>
  C30. A transfer: the parts of a payload reach the buffer in any order, repeated, with messages of
  indices out of range among them. The buffer is complete exactly when every index has arrived, and
  then it reassembles the payload; before that \<open>toPayload\<close> throws for the first missing index.
\<close>

theorem rpc_transfer:
  assumes "\<And>i p. (i, p) \<in> set msgs \<Longrightarrow> 0 \<le> i \<Longrightarrow> i < int (length (splitIntoChunks payload maxBytes)) \<Longrightarrow>
      p = splitIntoChunks payload maxBytes ! nat i"
  shows "let b = receive msgs (new_buffer (int (length (splitIntoChunks payload maxBytes))))
    in (isComplete b \<longleftrightarrow> (\<forall>k < length (splitIntoChunks payload maxBytes). int k \<in> fst ` set msgs)) \<and>
       toPayload b = (if isComplete b then Inr payload else Inl (hd (missingIndices b)))"
proof -
  let ?cs = "splitIntoChunks payload maxBytes"
  let ?n = "int (length ?cs)"
  define b where "b = receive msgs (new_buffer ?n)"
  have tot: "ib_total b = ?n" by (simp add: b_def)
  have ok: "buffer_ok b" unfolding b_def by (rule receive_ok) (rule new_buffer_ok)
  have has: "jm_has (ib_parts b) i \<longleftrightarrow> 0 \<le> i \<and> i < ?n \<and> i \<in> fst ` set msgs" for i
    by (auto simp: b_def receive_has in_range_def)
  have part: "q = ?cs ! nat i" if "jm_get (ib_parts b) i = Some q" for i q
    using receive_get [of msgs "new_buffer ?n" "\<lambda>i. ?cs ! nat i" i q] assms that
    by (auto simp: b_def in_range_def)
  have comp: "isComplete b \<longleftrightarrow> missingIndices b = []"
    using ok by (rule isComplete_iff) (simp add: tot)
  have all: "missingIndices b = [] \<longleftrightarrow> (\<forall>k < length ?cs. int k \<in> fst ` set msgs)"
  proof -
    have "missingIndices b = [] \<longleftrightarrow> (\<forall>i \<in> {0..?n - 1}. jm_has (ib_parts b) i)"
      by (simp add: missingIndices_def filter_empty_conv tot)
    also have "\<dots> \<longleftrightarrow> (\<forall>k < length ?cs. int k \<in> fst ` set msgs)"
      by (auto simp: has) (metis int_nat_eq nat_less_iff)
    finally show ?thesis .
  qed
  have "toPayload b = Inr payload" if m: "missingIndices b = []"
  proof -
    have "jm_get (ib_parts b) i = Some (?cs ! nat i)" if "i \<in> set [0..?n - 1]" for i
    proof -
      have "jm_has (ib_parts b) i"
        using m that unfolding missingIndices_def tot filter_empty_conv by blast
      then show ?thesis using part [of i] by (auto simp: jm_has_def)
    qed
    from payload_loop_found [of "[0..?n - 1]" b "\<lambda>i. ?cs ! nat i" "[]", OF this] show ?thesis
      by (simp add: toPayload_def tot concat_indices concat_chunks)
  qed
  moreover have "toPayload b = Inl (hd (missingIndices b))" if "missingIndices b \<noteq> []"
    using that payload_loop_missing [of b "[0..?n - 1]"]
    by (cases "missingIndices b") (auto simp: toPayload_def tot missingIndices_def)
  ultimately show ?thesis
    using comp all by (simp add: b_def Let_def)
qed

definition sample_payload :: "code_unit list" where
  "sample_payload = replicate 20 0x3042"

theorem splitIntoChunks_bounds_witness:
  "length (splitIntoChunks sample_payload 48) = 2 \<and> int (estimateBytes (hd (splitIntoChunks sample_payload 48))) \<le> 48"
proof -
  have len: "length (splitIntoChunks sample_payload 48) = 2"
    and hd1: "length (hd (splitIntoChunks sample_payload 48)) = 16" by code_simp+
  then have "hd (splitIntoChunks sample_payload 48) \<in> set (splitIntoChunks sample_payload 48)"
    by (cases "splitIntoChunks sample_payload 48") auto
  from splitIntoChunks_bounds [OF _ this] hd1 len show ?thesis by simp
qed

theorem rpc_transfer_witness:
  "toPayload (receive [(1, replicate 4 0x3042), (7, []), (0, replicate 16 0x3042), (1, replicate 4 0x3042)] (new_buffer 2)) =
    Inr sample_payload"
proof -
  let ?msgs = "[(1, replicate 4 0x3042), (7, []), (0, replicate 16 0x3042), (1, replicate 4 0x3042)] :: (int \<times> code_unit list) list"
  have cs: "splitIntoChunks sample_payload 48 = [replicate 16 0x3042, replicate 4 0x3042]" by code_simp
  have len: "length (splitIntoChunks sample_payload 48) = 2" by (simp add: cs)
  have hyp: "p = splitIntoChunks sample_payload 48 ! nat i"
    if "(i, p) \<in> set ?msgs" "0 \<le> i" "i < int (length (splitIntoChunks sample_payload 48))" for i p
    using that by (auto simp: cs)
  have all: "\<forall>k < 2. int k \<in> fst ` set ?msgs" by (auto simp: less_2_cases_iff)
  have "let b = receive ?msgs (new_buffer (int (length (splitIntoChunks sample_payload 48))))
    in (isComplete b \<longleftrightarrow> (\<forall>k < length (splitIntoChunks sample_payload 48). int k \<in> fst ` set ?msgs)) \<and>
       toPayload b = (if isComplete b then Inr sample_payload else Inl (hd (missingIndices b)))"
    by (rule rpc_transfer) (rule hyp)
  then have r: "isComplete (receive ?msgs (new_buffer 2)) \<longleftrightarrow> (\<forall>k < 2. int k \<in> fst ` set ?msgs)"
      "toPayload (receive ?msgs (new_buffer 2)) = (if isComplete (receive ?msgs (new_buffer 2)) then Inr sample_payload
         else Inl (hd (missingIndices (receive ?msgs (new_buffer 2)))))"
    unfolding len Let_def of_nat_numeral by (rule conjunct1, rule conjunct2)
  from r(1) all have "isComplete (receive ?msgs (new_buffer 2))" by blast
  then show ?thesis by (simp only: r(2) if_True)
qed

end
