(* ===== verification/TextSplitting.thy ===== *)
theory TextSplitting
  imports Prelude "HOL-Library.Monad_Syntax"
begin

text \<open>
  The text splitters of \<open>src/string_and_binary/chunks.ts\<close>, which cut a note into the chunks that are
  stored. A text is a list of code units. A generator is modelled by the list of the values it
  yields, as an option: \<open>None\<close> when it never finishes. The sentence segmenter \<open>Intl.Segmenter\<close> is a
  parameter.

  Every splitter has the contract of the locale \<open>splitter\<close>: it finishes, and what it yields,
  concatenated, is the text.
\<close>

type_synonym ustring = "code_unit list"

definition ascii :: "string \<Rightarrow> ustring" where
  "ascii s = map of_char s"

definition nl :: code_unit where "nl = 0x0A"

definition tick3 :: ustring where "tick3 = [0x60, 0x60, 0x60]"

section \<open>Fixed-size pieces\<close>

partial_function (option) splitStringWithinLength :: "'a list \<Rightarrow> nat \<Rightarrow> 'a list list option" where
  "splitStringWithinLength leftData pieceSize =
     (let piece = take pieceSize leftData; rest = drop pieceSize leftData
      in if rest = [] then Some [piece]
         else Option.bind (splitStringWithinLength rest pieceSize) (\<lambda>ps. Some (piece # ps)))"

definition binaryTextSplit :: "ustring \<Rightarrow> nat \<Rightarrow> nat \<Rightarrow> ustring list option" where
  "binaryTextSplit data pieceSize minimumChunkSize = splitStringWithinLength data pieceSize"

text \<open>The concatenation of the yields of two generators.\<close>

definition then_yields :: "'a list option \<Rightarrow> 'a list option \<Rightarrow> 'a list option" where
  "then_yields g h = Option.bind g (\<lambda>xs. Option.bind h (\<lambda>ys. Some (xs @ ys)))"

section \<open>Version 1: lines, code blocks and headings\<close>

definition fence_line :: "ustring \<Rightarrow> bool" where
  "fence_line l \<longleftrightarrow> starts_with l tick3 \<or> starts_with l (0x20 # tick3) \<or>
     starts_with l (0x20 # 0x20 # tick3) \<or> starts_with l (0x20 # 0x20 # 0x20 # tick3)"

definition nl_if :: "ustring list \<Rightarrow> ustring" where
  "nl_if leftData = (if leftData \<noteq> [] then [nl] else [])"

fun code_body :: "ustring list \<Rightarrow> ustring \<Rightarrow> ustring \<times> ustring list" where
  "code_body [] buffer = (buffer, [])"
| "code_body (curPx # leftData) buffer =
     (let buffer' = buffer @ curPx @ nl_if leftData
      in if leftData \<noteq> [] \<and> \<not> fence_line (hd leftData) then code_body leftData buffer' else (buffer', leftData))"

text \<open>
  \<open>buffer.split(/(.*?[;,:<])/g).filter((e) => e != "")\<close>: the text up to the last line terminator
  before a delimiter, then the rest of it with the delimiter, and so on.
\<close>

definition is_line_end :: "code_unit \<Rightarrow> bool" where
  "is_line_end c \<longleftrightarrow> c \<in> {0x0A, 0x0D, 0x2028, 0x2029}"

definition is_delim :: "code_unit \<Rightarrow> bool" where
  "is_delim c \<longleftrightarrow> c \<in> {0x3B, 0x2C, 0x3A, 0x3C}"

fun split_expr :: "ustring \<Rightarrow> ustring \<Rightarrow> ustring \<Rightarrow> ustring list" where
  "split_expr between cap [] = filter (\<lambda>e. e \<noteq> []) [between @ cap]"
| "split_expr between cap (c # cs) =
     (if is_delim c then filter (\<lambda>e. e \<noteq> []) [between, cap @ [c]] @ split_expr [] [] cs
      else if is_line_end c then split_expr (between @ cap @ [c]) [] cs
      else split_expr between (cap @ [c]) cs)"

lemma code_body_length: "length (snd (code_body ls b)) \<le> length ls"
  by (induction ls b rule: code_body.induct) (auto simp: Let_def)

text \<open>A code block: its pieces, and the lines after it.\<close>

definition code_block :: "ustring \<Rightarrow> ustring list \<Rightarrow> ustring list \<times> ustring list" where
  "code_block curLine leftData =
     (let (buffer1, left1) = code_body leftData (curLine @ nl_if leftData);
          isLooksLikeBASE64 = ends_with buffer1 (ascii ''='');
          maybeUneditable = length buffer1 > 2048;
          (buffer2, left2) = (case left1 of [] \<Rightarrow> (buffer1, [])
            | endOfCodeBlock # rest \<Rightarrow> (buffer1 @ endOfCodeBlock @ nl_if rest, rest))
      in (if \<not> isLooksLikeBASE64 \<and> \<not> maybeUneditable then split_expr [] [] buffer2 else [buffer2], left2))"

lemma code_block_length: "length (snd (code_block curLine leftData)) \<le> length leftData"
  using code_body_length [of leftData "curLine @ nl_if leftData"]
  by (auto simp: code_block_def Let_def split: prod.splits list.splits)

lemma code_block_shrinks: "(sx, left2) = code_block curLine leftData \<Longrightarrow> length left2 < Suc (length leftData)"
  using code_block_length [of curLine leftData] by (metis le_imp_less_Suc snd_conv)

function pickPiece :: "ustring list \<Rightarrow> nat \<Rightarrow> ustring \<Rightarrow> ustring list" where
  "pickPiece [] minimumChunkSize buffer = [buffer]"
| "pickPiece (curLine # leftData) minimumChunkSize buffer =
     (if fence_line curLine then
        (case code_block curLine leftData of (sx, left2) \<Rightarrow>
           buffer # sx @ (if left2 \<noteq> [] then pickPiece left2 minimumChunkSize [] else []))
      else
        (let buffer1 = buffer @ curLine @ nl_if leftData
         in if length buffer1 \<ge> minimumChunkSize \<or> leftData = [] \<or> hd leftData = ascii ''#'' \<or>
               (buffer1 \<noteq> [] \<and> hd buffer1 = 0x23)
            then buffer1 # (if leftData \<noteq> [] then pickPiece leftData minimumChunkSize [] else [])
            else pickPiece leftData minimumChunkSize buffer1))"
  by pat_completeness auto
termination
  by (relation "measure (\<lambda>(ls, _, _). length ls)") (auto dest: code_block_shrinks)

text \<open>
  \<open>buffer.charCodeAt(i) != buffer.codePointAt(i)\<close>: a high surrogate followed by a low one, or an
  index out of range (\<open>NaN != undefined\<close>). \<open>before\<close> is the test at \<open>i - 1\<close>.
\<close>

definition pair_at :: "ustring \<Rightarrow> nat \<Rightarrow> bool" where
  "pair_at s i \<longleftrightarrow> length s \<le> i \<or> (is_high (s ! i) \<and> i + 1 < length s \<and> is_low (s ! (i + 1)))"

definition pair_before :: "ustring \<Rightarrow> nat \<Rightarrow> bool" where
  "pair_before s n \<longleftrightarrow> n = 0 \<or> pair_at s (n - 1)"

partial_function (option) cut_pairs :: "ustring \<Rightarrow> nat \<Rightarrow> ustring list option" where
  "cut_pairs buffer pieceSize =
     (let ps = (if pair_before buffer pieceSize then pieceSize + 1 else pieceSize);
          rest = drop ps buffer
      in if rest = [] then Some [take ps buffer]
         else Option.bind (cut_pairs rest pieceSize) (\<lambda>qs. Some (take ps buffer # qs)))"

fun yield_all :: "('a \<Rightarrow> 'b list option) \<Rightarrow> 'a list \<Rightarrow> 'b list option" where
  "yield_all f [] = Some []"
| "yield_all f (x # xs) = then_yields (f x) (yield_all f xs)"

definition splitPiecesTextV1 :: "ustring list \<Rightarrow> nat \<Rightarrow> bool \<Rightarrow> nat \<Rightarrow> ustring list option" where
  "splitPiecesTextV1 dataList pieceSize plainSplit minimumChunkSize =
     yield_all (\<lambda>data.
       if plainSplit then yield_all (\<lambda>piece. cut_pairs piece pieceSize) (pickPiece (split_on nl data) minimumChunkSize [])
       else splitStringWithinLength data pieceSize) dataList"

section \<open>Version 2: lines and sentence segments\<close>

text \<open>\<open>skip_nl s i\<close> is the first position from \<open>i\<close> on that is no newline.\<close>

definition skip_nl :: "ustring \<Rightarrow> nat \<Rightarrow> nat" where
  "skip_nl s i = i + length (takeWhile (\<lambda>c. c = nl) (drop i s))"

text \<open>The initial \<open>start = -1\<close> stands for position 0, as \<open>indexOf\<close> and \<open>substring\<close> read it.\<close>

function lines_from :: "ustring \<Rightarrow> nat \<Rightarrow> ustring list" where
  "lines_from s start =
     (case index_from [nl] start s of
        None \<Rightarrow> [drop start s]
      | Some e \<Rightarrow> (let e' = skip_nl s e in take (e' - start) (drop start s) # lines_from s e'))"
  by pat_completeness auto

lemma index_of_single: "index_of [c] s = Some i \<longleftrightarrow> i < length s \<and> s ! i = c \<and> c \<notin> set (take i s)"
proof (induction s arbitrary: i)
  case Nil
  then show ?case by simp
next
  case (Cons x s)
  show ?case
  proof (cases i)
    case 0
    then show ?thesis by auto
  next
    case (Suc k)
    with Cons [of k] show ?thesis by auto
  qed
qed

lemma index_of_single_None: "index_of [c] s = None \<longleftrightarrow> c \<notin> set s"
  by (induction s) auto

lemma skip_nl_gt: "i < length s \<Longrightarrow> s ! i = nl \<Longrightarrow> i < skip_nl s i"
  by (simp add: skip_nl_def Cons_nth_drop_Suc [symmetric])

lemma skip_nl_le: "i \<le> length s \<Longrightarrow> skip_nl s i \<le> length s"
  using length_takeWhile_le [of "\<lambda>c. c = nl" "drop i s"] by (simp add: skip_nl_def)

lemma index_from_single:
  assumes "index_from [nl] start s = Some e"
  shows "start \<le> e" and "e < length s" and "s ! e = nl"
  using assms by (auto simp: index_from_def index_of_single add.commute)

termination lines_from
proof (relation "measure (\<lambda>(s, start). length s - start)", goal_cases)
  case 1
  then show ?case by simp
next
  case (2 s start e e')
  note i = index_from_single [OF 2(1)]
  from skip_nl_gt [OF i(2,3)] skip_nl_le [of e s] i 2(2) show ?case by simp
qed

declare lines_from.simps [simp del]

definition splitInNewLine :: "ustring list \<Rightarrow> ustring list" where
  "splitInNewLine texts = concat (map (\<lambda>t. lines_from t 0) texts)"

fun seg_loop :: "ustring list \<Rightarrow> ustring \<Rightarrow> ustring \<Rightarrow> nat \<Rightarrow> nat \<Rightarrow> ustring list option" where
  "seg_loop [] prev buf pieceSize minimumChunkSize =
     (if length buf > 0 then splitStringWithinLength buf pieceSize else Some [])"
| "seg_loop (buffer # segs) prev buf pieceSize minimumChunkSize =
     (if prev = buffer \<or> length buf < minimumChunkSize
      then seg_loop segs buffer (buf @ buffer) pieceSize minimumChunkSize
      else then_yields (if length buf > 0 then splitStringWithinLength buf pieceSize else Some [])
             (seg_loop segs buffer buffer pieceSize minimumChunkSize))"

definition splitTextInSegment :: "(ustring \<Rightarrow> ustring list) \<Rightarrow> ustring \<Rightarrow> nat \<Rightarrow> nat \<Rightarrow> ustring list option" where
  "splitTextInSegment segmenter s pieceSize minimumChunkSize =
     seg_loop (segmenter s) [] [] pieceSize minimumChunkSize"

text \<open>\<open>fence_state line inCodeBlock\<close> is the new state with the flags \<open>flushBefore\<close> and \<open>flush\<close>.\<close>

definition fence_state :: "ustring \<Rightarrow> nat \<Rightarrow> nat \<times> bool \<times> bool" where
  "fence_state line inCodeBlock =
     (if starts_with line (0x60 # tick3) then
        (if inCodeBlock = 0 then (4, True, False) else if inCodeBlock = 4 then (0, False, True) else (inCodeBlock, False, False))
      else if starts_with line tick3 then
        (if inCodeBlock = 0 then (3, True, False) else if inCodeBlock = 3 then (0, False, True) else (inCodeBlock, False, False))
      else (inCodeBlock, False, False))"

fun v2_loop :: "(ustring \<Rightarrow> ustring list) \<Rightarrow> nat \<Rightarrow> nat \<Rightarrow> ustring list \<Rightarrow> nat \<Rightarrow> ustring list \<Rightarrow> ustring list option" where
  "v2_loop segmenter pieceSize minimumChunkSize [] inCodeBlock buf =
     (if length buf > 0 then
        if inCodeBlock = 0 then splitTextInSegment segmenter (concat buf) pieceSize minimumChunkSize
        else splitStringWithinLength (concat buf) pieceSize
      else Some [])"
| "v2_loop segmenter pieceSize minimumChunkSize (line # lines) inCodeBlock buf =
     (case fence_state line inCodeBlock of (inCodeBlock', flushBefore, flush) \<Rightarrow>
        let out1 = (if flushBefore \<and> length buf > 0
                    then splitTextInSegment segmenter (concat buf) pieceSize minimumChunkSize else Some []);
            buf1 = (if flushBefore \<and> length buf > 0 then [] else buf) @ [line];
            out2 = (if flush then splitStringWithinLength (concat buf1) pieceSize else Some []);
            buf2 = (if flush then [] else buf1)
        in then_yields out1 (then_yields out2 (v2_loop segmenter pieceSize minimumChunkSize lines inCodeBlock' buf2)))"

definition splitPiecesTextV2 :: "(ustring \<Rightarrow> ustring list) \<Rightarrow> ustring list \<Rightarrow> nat \<Rightarrow> nat \<Rightarrow> ustring list option" where
  "splitPiecesTextV2 segmenter dataSrc pieceSize minimumChunkSize =
     v2_loop segmenter pieceSize minimumChunkSize (splitInNewLine dataSrc) 0 []"

text \<open>\<open>segmenter = None\<close>: the runtime has no \<open>Intl.Segmenter\<close>. The source is a string here.\<close>

definition splitPiecesText :: "(ustring \<Rightarrow> ustring list) option \<Rightarrow> ustring \<Rightarrow> nat \<Rightarrow> bool \<Rightarrow> nat \<Rightarrow> bool \<Rightarrow> ustring list option" where
  "splitPiecesText segmenter dataSrc pieceSize plainSplit minimumChunkSize useSegmenter =
     (case (if useSegmenter then segmenter else None) of
        None \<Rightarrow> splitPiecesTextV1 [dataSrc] pieceSize plainSplit minimumChunkSize
      | Some seg \<Rightarrow> if \<not> plainSplit then binaryTextSplit dataSrc pieceSize minimumChunkSize
                   else splitPiecesTextV2 seg [dataSrc] pieceSize minimumChunkSize)"

section \<open>The splitters of \<open>splitPieces2V2\<close>\<close>

text \<open>One source: \<open>(yields, buf, pending)\<close>, where \<open>pending\<close> is the variable \<open>last\<close>; \<open>None\<close> when the inner loop never ends.\<close>

partial_function (option) delim_loop :: "ustring \<Rightarrow> ustring \<Rightarrow> nat \<Rightarrow> nat \<Rightarrow> ustring \<Rightarrow> bool \<Rightarrow> ustring list \<Rightarrow>
    (ustring list \<times> ustring \<times> bool) option" where
  "delim_loop source delimiter minimumChunkLength prev buf pending out =
     (case index_from delimiter prev source of
        None \<Rightarrow> Some (out, buf @ drop prev source, True)
      | Some i \<Rightarrow>
          (let buf1 = buf @ take (i - prev) (drop prev source) @ delimiter;
               out1 = (if length buf1 > minimumChunkLength then out @ [buf1] else out);
               buf2 = (if length buf1 > minimumChunkLength then [] else buf1);
               pending1 = (if length buf1 > minimumChunkLength then False else True);
               prev1 = i + length delimiter
           in if i < length source then delim_loop source delimiter minimumChunkLength prev1 buf2 pending1 out1
              else if prev1 \<noteq> i then Some (out1, buf2 @ drop prev1 source, True) else Some (out1, buf2, pending1)))"

fun delim_sources :: "ustring list \<Rightarrow> ustring \<Rightarrow> nat \<Rightarrow> nat option \<Rightarrow> ustring \<Rightarrow> bool \<Rightarrow> ustring list option" where
  "delim_sources [] delimiter minimumChunkLength splitThreshold buf pending = Some (if pending then [buf] else [])"
| "delim_sources (source # sources) delimiter minimumChunkLength splitThreshold buf pending =
     (if (case splitThreshold of None \<Rightarrow> False | Some t \<Rightarrow> t \<noteq> 0 \<and> length source > t)
      then then_yields (Some [buf @ source]) (delim_sources sources delimiter minimumChunkLength splitThreshold [] False)
      else (case delim_loop source delimiter minimumChunkLength 0 buf pending [] of
              None \<Rightarrow> None
            | Some (out, buf1, pending1) \<Rightarrow>
                then_yields (Some out) (delim_sources sources delimiter minimumChunkLength splitThreshold buf1 pending1)))"

definition splitByDelimiterWithMinLength :: "ustring list \<Rightarrow> ustring \<Rightarrow> nat \<Rightarrow> nat option \<Rightarrow> ustring list option" where
  "splitByDelimiterWithMinLength sources delimiter minimumChunkLength splitThreshold =
     delim_sources sources delimiter minimumChunkLength splitThreshold [] False"

partial_function (option) grow_end :: "ustring \<Rightarrow> nat \<Rightarrow> nat option" where
  "grow_end source stop = (if pair_before source stop then grow_end source (stop + 1) else Some stop)"

partial_function (option) chunk_from :: "ustring \<Rightarrow> nat \<Rightarrow> nat \<Rightarrow> ustring list option" where
  "chunk_from source maxLength from =
     (let stop = from + maxLength
      in if stop > length source then Some [drop from source]
         else Option.bind (grow_end source stop) (\<lambda>stop.
           let piece = take (stop - from) (drop from source)
           in if stop < length source
              then Option.bind (chunk_from source maxLength stop) (\<lambda>ps. Some (piece # ps))
              else Some [piece]))"

definition chunkStringGenerator :: "ustring \<Rightarrow> nat \<Rightarrow> ustring list option" where
  "chunkStringGenerator source maxLength =
     (if length source > maxLength then chunk_from source maxLength 0 else Some [source])"

definition chunkStringGeneratorFromGenerator :: "ustring list \<Rightarrow> nat \<Rightarrow> ustring list option" where
  "chunkStringGeneratorFromGenerator sources maxLength = yield_all (\<lambda>s. chunkStringGenerator s maxLength) sources"

definition MAX_ITEMS :: nat where "MAX_ITEMS = 100"

text \<open>The loop \<open>while (textLen / x > MAX_ITEMS) x += minimumChunkSize\<close>; a division by 0 is \<open>Infinity\<close>,
  or \<open>NaN\<close> for the empty text.\<close>

partial_function (option) grow_minimum :: "nat \<Rightarrow> nat \<Rightarrow> nat \<Rightarrow> nat option" where
  "grow_minimum textLen minimumChunkSize x =
     (if textLen > MAX_ITEMS * x then grow_minimum textLen minimumChunkSize (x + minimumChunkSize) else Some x)"

definition splitText2V2 :: "ustring \<Rightarrow> nat \<Rightarrow> bool \<Rightarrow> nat \<Rightarrow> ustring list option" where
  "splitText2V2 s pieceSize plainSplit minimumChunkSize =
     (if s = [] then Some []
      else if \<not> plainSplit then chunkStringGenerator s pieceSize
      else Option.bind (grow_minimum (length s) minimumChunkSize minimumChunkSize) (\<lambda>xMinimumChunkSize.
             Option.bind (splitByDelimiterWithMinLength [s] [nl] xMinimumChunkSize None) (\<lambda>gen1.
               chunkStringGeneratorFromGenerator gen1 pieceSize)))"

section \<open>The contract of a splitter\<close>

text \<open>\<open>pieces_of n s g\<close>: the generator finishes, its yields make up \<open>s\<close>, and none is longer than \<open>n\<close>.\<close>

definition pieces_of :: "nat \<Rightarrow> 'a list \<Rightarrow> 'a list list option \<Rightarrow> bool" where
  "pieces_of n s g \<longleftrightarrow> (\<exists>ps. g = Some ps \<and> concat ps = s \<and> (\<forall>p \<in> set ps. length p \<le> n))"

named_theorems pieces \<open>introduction rules for the contract of a splitter\<close>

lemma pieces_ofI: "g = Some ps \<Longrightarrow> concat ps = s \<Longrightarrow> (\<And>p. p \<in> set ps \<Longrightarrow> length p \<le> n) \<Longrightarrow> pieces_of n s g"
  unfolding pieces_of_def by blast

lemma pieces_ofE:
  assumes "pieces_of n s g"
  obtains ps where "g = Some ps" "concat ps = s" "\<And>p. p \<in> set ps \<Longrightarrow> length p \<le> n"
  using assms unfolding pieces_of_def by blast

lemma pieces_none [pieces]: "pieces_of n [] (Some [])"
  by (simp add: pieces_of_def)

lemma pieces_single [pieces]: "length s \<le> n \<Longrightarrow> pieces_of n s (Some [s])"
  by (simp add: pieces_of_def)

lemma pieces_mono: "pieces_of n s g \<Longrightarrow> n \<le> m \<Longrightarrow> pieces_of m s g"
  by (erule pieces_ofE, rule pieces_ofI) (auto intro: le_trans)

lemma pieces_then [pieces]:
  "pieces_of n s g \<Longrightarrow> pieces_of n t h \<Longrightarrow> pieces_of n (s @ t) (then_yields g h)"
  by (auto simp: pieces_of_def then_yields_def)

lemma pieces_all:
  "(\<And>x. x \<in> set xs \<Longrightarrow> pieces_of n (k x) (f x)) \<Longrightarrow> pieces_of n (concat (map k xs)) (yield_all f xs)"
  by (induction xs) (auto intro: pieces)

text \<open>A piece in front of the rest, as the loops below yield it.\<close>

lemma pieces_Cons:
  "pieces_of n s g \<Longrightarrow> length p \<le> n \<Longrightarrow> pieces_of n (p @ s) (Option.bind g (\<lambda>ps. Some (p # ps)))"
  by (auto simp: pieces_of_def)

locale splitter =
  fixes sp :: "'a list \<Rightarrow> 'a list list option" and n :: nat
  assumes sp_pieces: "pieces_of n s (sp s)"
begin

lemma sp_all: "pieces_of n (concat xs) (yield_all sp xs)"
  using pieces_all [of xs n "\<lambda>s. s" sp] sp_pieces by simp

lemma sp_finishes: "sp s \<noteq> None"
  using sp_pieces [of s] by (auto simp: pieces_of_def)

text \<open>What is split after being split by another generator is split to the finer bound.\<close>

lemma sp_compose:
  assumes "pieces_of m s g"
  shows "pieces_of n s (Option.bind g (\<lambda>ps. yield_all sp ps))"
  using assms by (rule pieces_ofE) (use sp_all in auto)

end

section \<open>The splitters keep the contract\<close>

lemma within_pieces: "pieces_of (Suc k) s (splitStringWithinLength s (Suc k))"
proof (induction s rule: measure_induct_rule [of length])
  case (less s)
  show ?case
  proof (cases "drop (Suc k) s = []")
    case True
    then show ?thesis
      by (subst splitStringWithinLength.simps) (auto intro!: pieces simp: Let_def)
  next
    case False
    then have "pieces_of (Suc k) (drop (Suc k) s) (splitStringWithinLength (drop (Suc k) s) (Suc k))"
      by (intro less.IH) simp
    from pieces_Cons [OF this, of "take (Suc k) s"] False show ?thesis
      by (subst splitStringWithinLength.simps) (simp add: Let_def del: drop_eq_Nil)
  qed
qed

interpretation within: splitter "\<lambda>s. splitStringWithinLength s (Suc k)" "Suc k" for k
  by unfold_locales (rule within_pieces)

lemma splitStringWithinLength_pieces: "0 < n \<Longrightarrow> pieces_of n s (splitStringWithinLength s n)"
  using within_pieces [of "n - 1"] by simp

lemma splitStringWithinLength_stuck:
  assumes "splitStringWithinLength s m = Some ps"
  shows "m = 0 \<longrightarrow> s = []"
  by (rule splitStringWithinLength.raw_induct [where P = "\<lambda>s m _. m = 0 \<longrightarrow> s = []", OF _ assms])
     (auto simp: Let_def split: if_splits bind_splits)

lemma splitStringWithinLength_zero: "s \<noteq> [] \<Longrightarrow> splitStringWithinLength s 0 = None"
  using splitStringWithinLength_stuck [of s 0] by (cases "splitStringWithinLength s 0") auto

lemma cut_pairs_pieces: "pieces_of (Suc n) s (cut_pairs s n)"
proof (induction s rule: measure_induct_rule [of length])
  case (less s)
  let ?ps = "if pair_before s n then n + 1 else n"
  have pos: "0 < ?ps" and le: "?ps \<le> Suc n" by (auto simp: pair_before_def)
  show ?case
  proof (cases "drop ?ps s = []")
    case True
    then show ?thesis
      by (subst cut_pairs.simps) (use le in \<open>auto intro!: pieces simp: Let_def\<close>)
  next
    case False
    then have "pieces_of (Suc n) (drop ?ps s) (cut_pairs (drop ?ps s) n)"
      using pos by (intro less.IH) auto
    from pieces_Cons [OF this, of "take ?ps s"] False le show ?thesis
      by (subst cut_pairs.simps) (simp add: Let_def del: drop_eq_Nil)
  qed
qed

interpretation cut: splitter "\<lambda>s. cut_pairs s n" "Suc n" for n
  by unfold_locales (rule cut_pairs_pieces)

lemma split_expr_concat: "concat (split_expr between cap s) = between @ cap @ s"
proof -
  have f: "concat (filter (\<lambda>e. e \<noteq> []) es) = concat es" for es :: "ustring list"
    by (induction es) auto
  show ?thesis
    by (induction between cap s rule: split_expr.induct) (simp_all only: split_expr.simps if_distrib concat_append f, auto)
qed

text \<open>Lines joined as the code has them: a newline after each line but the last.\<close>

abbreviation lines_text :: "ustring list \<Rightarrow> ustring" where
  "lines_text \<equiv> join_with [nl]"

lemma lines_text_Cons: "lines_text (l # ls) = l @ nl_if ls @ lines_text ls"
  by (cases ls) (simp_all add: nl_if_def)

lemma code_body_text: "fst (code_body ls b) @ lines_text (snd (code_body ls b)) = b @ lines_text ls"
  by (induction ls b rule: code_body.induct) (auto simp: Let_def lines_text_Cons simp del: join_with.simps)

lemma code_block_text:
  "concat (fst (code_block curLine ls)) @ lines_text (snd (code_block curLine ls)) = lines_text (curLine # ls)"
proof -
  obtain b1 l1 where b: "code_body ls (curLine @ nl_if ls) = (b1, l1)" by (cases "code_body ls (curLine @ nl_if ls)")
  have t: "b1 @ lines_text l1 = lines_text (curLine # ls)"
    using code_body_text [of ls "curLine @ nl_if ls"] b by (simp add: lines_text_Cons del: join_with.simps(3))
  show ?thesis
    by (cases l1) (use t in \<open>auto simp: code_block_def b Let_def split_expr_concat lines_text_Cons simp del: join_with.simps(3)\<close>)
qed

lemma pickPiece_text: "lines \<noteq> [] \<Longrightarrow> concat (pickPiece lines m buffer) = buffer @ lines_text lines"
proof (induction lines m buffer rule: pickPiece.induct)
  case (1 m buffer)
  then show ?case by simp
next
  case (2 curLine leftData m buffer)
  show ?case
  proof (cases "fence_line curLine")
    case True
    obtain sx left2 where cb: "code_block curLine leftData = (sx, left2)" by (cases "code_block curLine leftData")
    have t: "concat sx @ lines_text left2 = lines_text (curLine # leftData)"
      using code_block_text [of curLine leftData] cb by (simp del: join_with.simps)
    show ?thesis
      using 2(1) [OF True cb [symmetric]] t by (cases "left2 = []") (simp_all add: True cb del: join_with.simps(2,3))
  next
    case False
    show ?thesis
      using 2(2,3) [OF False refl] False by (auto simp: Let_def lines_text_Cons nl_if_def simp del: join_with.simps(2,3))
  qed
qed

lemma pickPiece_split: "concat (pickPiece (split_on nl data) m []) = data"
  by (simp add: pickPiece_text)

lemma take_drop_skip: "a \<le> b \<Longrightarrow> take (b - a) (drop a s) @ drop b s = drop a s"
proof -
  assume "a \<le> b"
  then have "drop b s = drop (b - a) (drop a s)" by simp
  then show ?thesis by (simp only: append_take_drop_id)
qed

lemma lines_from_concat: "concat (lines_from s start) = drop start s"
proof (induction s start rule: lines_from.induct)
  case (1 s start)
  show ?case
  proof (cases "index_from [nl] start s")
    case None
    then show ?thesis by (subst lines_from.simps) simp
  next
    case (Some e)
    note i = index_from_single [OF Some]
    have "start \<le> skip_nl s e" using skip_nl_gt [OF i(2,3)] i(1) by simp
    with 1 [OF Some refl] Some show ?thesis
      by (subst lines_from.simps) (simp add: Let_def take_drop_skip)
  qed
qed

lemma splitInNewLine_concat: "concat (splitInNewLine texts) = concat texts"
  by (induction texts) (simp_all add: splitInNewLine_def lines_from_concat)

text \<open>\<open>Intl.Segmenter\<close> cuts a text into segments that make it up.\<close>

definition segmenter_law :: "(ustring \<Rightarrow> ustring list) \<Rightarrow> bool" where
  "segmenter_law seg \<longleftrightarrow> (\<forall>s. concat (seg s) = s)"

lemma flush_pieces:
  "pieces_of (Suc k) buf (if length buf > 0 then splitStringWithinLength buf (Suc k) else Some [])"
  by (auto intro: within_pieces pieces)

lemma seg_loop_pieces: "pieces_of (Suc k) (buf @ concat segs) (seg_loop segs prev buf (Suc k) m)"
proof (induction segs arbitrary: prev buf)
  case Nil
  then show ?case using flush_pieces [of k buf] by simp
next
  case (Cons s segs)
  show ?case
    using Cons [of "buf @ s" s] pieces_then [OF flush_pieces [of k buf] Cons [of s s]] by simp
qed

lemma segment_pieces: "segmenter_law seg \<Longrightarrow> pieces_of (Suc k) s (splitTextInSegment seg s (Suc k) m)"
  using seg_loop_pieces [of k "[]" "seg s"] by (simp add: splitTextInSegment_def segmenter_law_def)

lemma v2_loop_pieces:
  assumes seg: "segmenter_law seg"
  shows "pieces_of (Suc k) (concat buf @ concat lines) (v2_loop seg (Suc k) m lines st buf)"
proof (induction lines arbitrary: st buf)
  case Nil
  then show ?case
    using segment_pieces [OF seg, of k "concat buf" m] within_pieces [of k "concat buf"]
    by (cases buf) (auto intro: pieces)
next
  case (Cons line lines)
  obtain st' fb fl where fs: "fence_state line st = (st', fb, fl)" by (cases "fence_state line st")
  let ?early = "fb \<and> length buf > 0"
  let ?buf1 = "(if ?early then [] else buf) @ [line]"
  have o1: "pieces_of (Suc k) (if ?early then concat buf else [])
      (if ?early then splitTextInSegment seg (concat buf) (Suc k) m else Some [])"
    using segment_pieces [OF seg] by (simp add: pieces)
  have o2: "pieces_of (Suc k) (if fl then concat ?buf1 else [])
      (if fl then splitStringWithinLength (concat ?buf1) (Suc k) else Some [])"
    by (cases fl) (simp_all only: if_True if_False within_pieces pieces_none)
  have p: "pieces_of (Suc k) ((if ?early then concat buf else []) @ (if fl then concat ?buf1 else []) @
      (concat (if fl then [] else ?buf1) @ concat lines)) (v2_loop seg (Suc k) m (line # lines) st buf)"
    unfolding v2_loop.simps fs prod.case Let_def
    by (rule pieces_then [OF o1 pieces_then [OF o2 Cons.IH]])
  have e: "(if ?early then concat buf else []) @ (if fl then concat ?buf1 else []) @
      (concat (if fl then [] else ?buf1) @ concat lines) = concat buf @ concat (line # lines)"
    by simp
  show ?case unfolding e [symmetric] by (rule p)
qed

lemma v1_pieces: "pieces_of (Suc (Suc k)) (concat dataList) (splitPiecesTextV1 dataList (Suc k) plainSplit m)"
proof -
  have "pieces_of (Suc (Suc k)) data
      (if plainSplit then yield_all (\<lambda>piece. cut_pairs piece (Suc k)) (pickPiece (split_on nl data) m [])
       else splitStringWithinLength data (Suc k))" for data
    using cut.sp_all [of "Suc k" "pickPiece (split_on nl data) m []"] pieces_mono [OF within_pieces [of k data]]
    by (simp add: pickPiece_split)
  then show ?thesis
    using pieces_all [of dataList "Suc (Suc k)" "\<lambda>d. d"] by (simp add: splitPiecesTextV1_def)
qed

lemma low_not_high: "is_low c \<Longrightarrow> \<not> is_high c"
  by (auto simp: is_high_def is_low_def word_le_nat_alt)

lemma grow_end_spec:
  assumes "0 < stop" and "stop \<le> length s"
  shows "\<exists>e. grow_end s stop = Some e \<and> stop \<le> e \<and> e \<le> Suc stop \<and> e \<le> length s \<and>
    \<not> (e < length s \<and> is_high (s ! (e - 1)) \<and> is_low (s ! e))"
proof (cases "pair_before s stop")
  case True
  then have p: "is_high (s ! (stop - 1))" "stop < length s" "is_low (s ! stop)"
    using assms by (auto simp: pair_before_def pair_at_def)
  then have "\<not> pair_before s (stop + 1)"
    using low_not_high by (auto simp: pair_before_def pair_at_def)
  then have "grow_end s stop = Some (stop + 1)"
    using True by (subst grow_end.simps, simp, subst grow_end.simps, simp)
  with p low_not_high show ?thesis by auto
next
  case False
  then have "grow_end s stop = Some stop" by (subst grow_end.simps) simp
  with False assms show ?thesis by (auto simp: pair_before_def pair_at_def)
qed

text \<open>No cut separates the halves of a surrogate pair.\<close>

fun keeps_pairs :: "ustring list \<Rightarrow> bool" where
  "keeps_pairs (p # q # ps) \<longleftrightarrow> \<not> (is_high (last p) \<and> is_low (hd q)) \<and> keeps_pairs (q # ps)"
| "keeps_pairs _ \<longleftrightarrow> True"

lemma last_take_drop:
  assumes "from < e" and "e \<le> length s"
  shows "last (take (e - from) (drop from s)) = s ! (e - 1)"
proof -
  let ?p = "take (e - from) (drop from s)"
  have len: "length ?p = e - from" using assms by simp
  then have "?p \<noteq> []" using assms(1) by fastforce
  then have "last ?p = ?p ! (e - from - 1)" using last_conv_nth len by metis
  also have "\<dots> = s ! (e - 1)" using assms by simp
  finally show ?thesis .
qed

lemma chunk_from_spec:
  assumes "from < length s"
  shows "\<exists>ps. chunk_from s (Suc k) from = Some ps \<and> concat ps = drop from s \<and> (\<forall>p \<in> set ps. length p \<le> Suc (Suc k)) \<and>
    ps \<noteq> [] \<and> [] \<notin> set ps \<and> hd (hd ps) = s ! from \<and> keeps_pairs ps"
  using assms
proof (induction "length s - from" arbitrary: "from" rule: less_induct)
  case less
  let ?stop = "from + Suc k"
  show ?case
  proof (cases "?stop > length s")
    case True
    then show ?thesis
      using less.prems by (subst chunk_from.simps) (auto simp: Let_def hd_drop_conv_nth)
  next
    case False
    then obtain e where e: "grow_end s ?stop = Some e" "?stop \<le> e" "e \<le> Suc ?stop" "e \<le> length s"
        "\<not> (e < length s \<and> is_high (s ! (e - 1)) \<and> is_low (s ! e))"
      using grow_end_spec [of ?stop s] by auto
    let ?p = "take (e - from) (drop from s)"
    have p: "?p \<noteq> []" "length ?p \<le> Suc (Suc k)" "hd ?p = s ! from" "last ?p = s ! (e - 1)"
      using e less.prems by (auto simp: hd_drop_conv_nth last_take_drop)
    show ?thesis
    proof (cases "e < length s")
      case True
      have dec: "length s - e < length s - from" using e(2) less.prems by simp
      obtain ps where ps: "chunk_from s (Suc k) e = Some ps" "concat ps = drop e s"
          "\<forall>p \<in> set ps. length p \<le> Suc (Suc k)" "ps \<noteq> []" "[] \<notin> set ps" "hd (hd ps) = s ! e" "keeps_pairs ps"
        using less.hyps [OF dec True] by blast
      have "keeps_pairs (?p # ps)" using ps(4,6,7) p(4) e(5) True by (cases ps) auto
      moreover have "chunk_from s (Suc k) from = Some (?p # ps)"
        using False e(1) True ps(1) by (subst chunk_from.simps) (simp add: Let_def)
      ultimately show ?thesis using ps p e(2) by (auto simp: take_drop_skip)
    next
      case False': False
      then have "chunk_from s (Suc k) from = Some [?p]"
        using False e(1) by (subst chunk_from.simps) (simp add: Let_def)
      with p e False' show ?thesis by simp
    qed
  qed
qed

lemma chunkStringGenerator_pieces: "pieces_of (Suc (Suc k)) s (chunkStringGenerator s (Suc k))"
proof (cases "length s > Suc k")
  case True
  then have "0 < length s" by linarith
  from chunk_from_spec [OF this, of k] obtain ps where "chunk_from s (Suc k) 0 = Some ps" "concat ps = s"
      "\<forall>p \<in> set ps. length p \<le> Suc (Suc k)"
    unfolding drop_0 by blast
  with True show ?thesis by (auto simp: chunkStringGenerator_def intro: pieces_ofI)
next
  case False
  then show ?thesis by (auto simp: chunkStringGenerator_def intro: pieces)
qed

interpretation chunked: splitter "\<lambda>s. chunkStringGenerator s (Suc k)" "Suc (Suc k)" for k
  by unfold_locales (rule chunkStringGenerator_pieces)

lemma index_from_Some:
  assumes "index_from d prev s = Some i"
  shows "prev \<le> i" and "starts_with (drop i s) d" and "d \<noteq> [] \<Longrightarrow> i < length s"
proof -
  have st: "starts_with (drop j t) d \<and> (d \<noteq> [] \<longrightarrow> j < length t)" if "index_of d t = Some j" for t j
    using that
  proof (induction t arbitrary: j)
    case Nil
    then show ?case by (auto split: if_splits)
  next
    case (Cons x t)
    then show ?case by (auto split: if_splits)
  qed
  obtain j where j: "index_of d (drop prev s) = Some j" "i = j + prev"
    using assms by (auto simp: index_from_def)
  from st [OF j(1)] j(2) show "prev \<le> i" "starts_with (drop i s) d" "d \<noteq> [] \<Longrightarrow> i < length s"
    by (auto simp: add.commute)
qed

lemma delim_piece:
  assumes "index_from d prev s = Some i"
  shows "take (i - prev) (drop prev s) @ d @ drop (i + length d) s = drop prev s"
proof -
  note i = index_from_Some [OF assms]
  have "drop i s = d @ drop (length d) (drop i s)"
    using i(2) append_take_drop_id [of "length d" "drop i s"] by (simp add: starts_with_def)
  then have "d @ drop (i + length d) s = drop i s" by (simp add: add.commute)
  then show ?thesis using take_drop_skip [OF i(1), of s] by simp
qed

lemma delim_loop_spec:
  assumes "d \<noteq> []"
  shows "\<exists>out' buf'. delim_loop s d m prev buf pending out = Some (out', buf', True) \<and>
    concat out' @ buf' = concat out @ buf @ drop prev s"
proof (induction "length s - prev" arbitrary: prev buf pending out rule: less_induct)
  case less
  show ?case
  proof (cases "index_from d prev s")
    case None
    then show ?thesis by (subst delim_loop.simps) simp
  next
    case (Some i)
    note i = index_from_Some [OF Some] and t = delim_piece [OF Some]
    have lt: "i < length s" using i(3) assms .
    have dec: "length s - (i + length d) < length s - prev"
      using lt i(1) assms by (cases d) auto
    let ?b = "buf @ take (i - prev) (drop prev s) @ d"
    have "concat (if length ?b > m then out @ [?b] else out) @ (if length ?b > m then [] else ?b) @ drop (i + length d) s =
        concat out @ buf @ drop prev s"
      using t by simp
    with less.hyps [OF dec, of "if length ?b > m then [] else ?b" "if length ?b > m then False else True"
        "if length ?b > m then out @ [?b] else out"] lt
    show ?thesis by (subst delim_loop.simps) (simp add: Some Let_def)
  qed
qed

lemma delim_sources_concat:
  assumes "d \<noteq> []"
  shows "\<exists>ps. delim_sources sources d m None buf pending = Some ps \<and> (pending \<or> buf = [] \<longrightarrow> concat ps = buf @ concat sources)"
proof (induction sources arbitrary: buf pending)
  case Nil
  then show ?case by auto
next
  case (Cons s sources)
  obtain out' buf' where l: "delim_loop s d m 0 buf pending [] = Some (out', buf', True)" "concat out' @ buf' = buf @ s"
    using delim_loop_spec [OF assms, of s m 0 buf pending "[]"] by auto
  obtain ps where ps: "delim_sources sources d m None buf' True = Some ps" "concat ps = buf' @ concat sources"
    using Cons.IH [of buf' True] by auto
  have "concat (out' @ ps) = buf @ concat (s # sources)" using l(2) ps(2) by simp
  with l(1) ps(1) show ?case by (simp add: then_yields_def)
qed

lemma grow_minimum_total:
  assumes "0 < m" and "0 < x"
  shows "\<exists>y. grow_minimum n m x = Some y \<and> n \<le> MAX_ITEMS * y \<and> x \<le> y"
  using assms(2)
proof (induction "n - x" arbitrary: x rule: less_induct)
  case less
  show ?case
  proof (cases "n > MAX_ITEMS * x")
    case True
    then have "n - (x + m) < n - x" using assms(1) by (simp add: MAX_ITEMS_def)
    from less.hyps [OF this] less.prems obtain y where "grow_minimum n m (x + m) = Some y" "n \<le> MAX_ITEMS * y" "x + m \<le> y"
      by auto
    with True show ?thesis by (intro exI [of _ y]) (subst grow_minimum.simps, simp)
  next
    case False
    then show ?thesis by (subst grow_minimum.simps) simp
  qed
qed

section \<open>Properties\<close>

text \<open>
  For a positive piece size, splitting a text into stored pieces always finishes, and the pieces
  make up the text again and are at most one code unit longer than the piece size, with and without
  the sentence segmenter, for plain and other text.
\<close>

theorem splitPiecesText_pieces:
  assumes "0 < pieceSize" and "\<And>seg. segmenter = Some seg \<Longrightarrow> segmenter_law seg"
  shows "pieces_of (Suc pieceSize) s (splitPiecesText segmenter s pieceSize plainSplit minimumChunkSize useSegmenter)"
proof -
  obtain k where k: "pieceSize = Suc k" using assms(1) gr0_implies_Suc by blast
  consider (v1) "\<not> useSegmenter \<or> segmenter = None" | (bin) "useSegmenter" "segmenter \<noteq> None" "\<not> plainSplit"
    | (v2) seg where "useSegmenter" "segmenter = Some seg" "plainSplit" by blast
  then show ?thesis
  proof cases
    case v1
    then show ?thesis using v1_pieces [of k "[s]" plainSplit minimumChunkSize] by (auto simp: k splitPiecesText_def)
  next
    case bin
    then show ?thesis
      using pieces_mono [OF within_pieces [of k s]] by (auto simp: k splitPiecesText_def binaryTextSplit_def)
  next
    case v2
    have "pieces_of (Suc k) s (splitPiecesTextV2 seg [s] (Suc k) minimumChunkSize)"
      using v2_loop_pieces [OF assms(2) [OF v2(2)], of k "[]" "splitInNewLine [s]" minimumChunkSize 0]
      by (simp add: splitPiecesTextV2_def splitInNewLine_concat)
    with v2 show ?thesis by (simp add: k splitPiecesText_def pieces_mono)
  qed
qed

text \<open>
  For positive sizes the newer splitter of texts also always finishes, loses nothing and keeps
  the piece size up to one code unit: the growth of the minimum ends, every line goes into one
  buffer or piece, and the buffers are cut again to the piece size.
\<close>

theorem splitText2V2_pieces:
  assumes "0 < pieceSize" and "0 < minimumChunkSize"
  shows "pieces_of (Suc pieceSize) s (splitText2V2 s pieceSize plainSplit minimumChunkSize)"
proof -
  obtain k where k: "pieceSize = Suc k" using assms(1) gr0_implies_Suc by blast
  obtain y where y: "grow_minimum (length s) minimumChunkSize minimumChunkSize = Some y"
    using grow_minimum_total [OF assms(2,2), of "length s"] by blast
  obtain ps where ps: "splitByDelimiterWithMinLength [s] [nl] y None = Some ps" "concat ps = s"
    using delim_sources_concat [of "[nl]" "[s]" y "[]" False] by (auto simp: splitByDelimiterWithMinLength_def)
  have "pieces_of (Suc pieceSize) s (chunkStringGeneratorFromGenerator ps pieceSize)"
    using chunked.sp_all [of k ps] ps(2) by (simp add: chunkStringGeneratorFromGenerator_def k)
  moreover have "pieces_of (Suc pieceSize) s (chunkStringGenerator s pieceSize)"
    using chunkStringGenerator_pieces [of k s] by (simp add: k)
  moreover have "pieces_of (Suc pieceSize) [] (Some [] :: ustring list option)" by (rule pieces_none)
  ultimately show ?thesis by (simp add: splitText2V2_def y ps)
qed

text \<open>
  Cutting a long text to the maximal length never separates the halves of a surrogate pair: the
  piece grows by one code unit instead, no piece is empty, and the pieces make up the text.
\<close>

theorem chunkStringGenerator_keeps_pairs:
  assumes "0 < maxLength" and "maxLength < length source"
  shows "\<exists>ps. chunkStringGenerator source maxLength = Some ps \<and> concat ps = source \<and>
    (\<forall>p \<in> set ps. p \<noteq> [] \<and> length p \<le> Suc maxLength) \<and> keeps_pairs ps"
proof -
  obtain k where k: "maxLength = Suc k" using assms(1) gr0_implies_Suc by blast
  have "0 < length source" using assms by linarith
  from chunk_from_spec [OF this, of k] assms(2) show ?thesis
    unfolding k drop_0 by (auto simp: chunkStringGenerator_def)
qed

definition sample_text :: ustring where
  "sample_text = ascii ''a;b'' @ [nl, 0xD83D, 0xDE00, 0x63]"

theorem splitPiecesText_pieces_witness:
  "pieces_of 3 sample_text (splitPiecesText (Some (\<lambda>s. [s])) sample_text 2 True 1 True)"
  using splitPiecesText_pieces [of 2 "Some (\<lambda>s. [s])" sample_text True 1 True] by (simp add: segmenter_law_def)

theorem splitText2V2_pieces_witness:
  "pieces_of 3 sample_text (splitText2V2 sample_text 2 True 1)"
  using splitText2V2_pieces [of 2 1 sample_text True] by simp

theorem chunkStringGenerator_keeps_pairs_witness:
  "\<exists>ps. chunkStringGenerator sample_text 5 = Some ps \<and> concat ps = sample_text \<and> keeps_pairs ps"
  using chunkStringGenerator_keeps_pairs [of 5 sample_text] by (auto simp: sample_text_def ascii_def)

text \<open>
  C39. The generator that cuts a text by length ends exactly when the length is positive or the text is empty: with
  the length 0 it yields empty pieces for ever.
\<close>

theorem splitStringWithinLength_ends:
  "(\<exists>ps. splitStringWithinLength s n = Some ps) = (0 < n \<or> s = [])"
proof (cases "n = 0")
  case True
  show ?thesis
  proof (cases "s = []")
    case True
    then show ?thesis by (simp add: splitStringWithinLength.simps)
  next
    case False
    then show ?thesis using \<open>n = 0\<close> splitStringWithinLength_zero [of s] by simp
  qed
next
  case False
  then show ?thesis using splitStringWithinLength_pieces [of n s] by (auto elim: pieces_ofE)
qed

end
