(* ===== verification/BinarySplitting.thy ===== *)
theory BinarySplitting
  imports TextSplitting Complex_Main
begin

text \<open>
  The binary splitters of \<open>src/string_and_binary/chunks.ts\<close>: the delimiter-based splitters of
  \<open>splitPieces2V2\<close> and \<open>splitPieces2\<close>, and the content-defined chunking of
  \<open>splitPiecesRabinKarp\<close> with its 32-bit rolling hash. A piece is modelled by the bytes it holds; the
  code encodes them with \<open>arrayBufferToBase64Single\<close> or \<open>readString\<close> as it yields them.
\<close>

type_synonym bytes = "8 word list"

section \<open>The size-dependent minimum\<close>

text \<open>\<open>while (w > 10) { w /= 12.5; step++; }\<close>, with exact quotients.\<close>

function count_steps :: "rat \<Rightarrow> nat \<Rightarrow> nat" where
  "count_steps w step = (if w > 10 then count_steps (w / (25 / 2)) (step + 1) else step)"
  by pat_completeness auto
termination
proof (relation "measure (\<lambda>(w, _). nat \<lceil>w\<rceil>)", goal_cases)
  case 1
  then show ?case by simp
next
  case (2 w step)
  have "w / (25 / 2) \<le> w - 1" using 2 by simp
  then have "\<lceil>w / (25 / 2)\<rceil> \<le> \<lceil>w - 1\<rceil>" by (rule ceiling_mono)
  also have "\<dots> = \<lceil>w\<rceil> - 1" by simp
  finally have "\<lceil>w / (25 / 2)\<rceil> < \<lceil>w\<rceil>" by simp
  moreover have "0 < \<lceil>w\<rceil>" using 2 by simp
  ultimately show ?case by simp
qed

declare count_steps.simps [simp del]

definition delimiter_for :: "string \<Rightarrow> 8 word" where
  "delimiter_for filename = (if ends_with filename ''.pdf'' then 0x2F else if ends_with filename ''.json'' then 0x2C else 0)"

definition minimum_for :: "string \<Rightarrow> nat \<Rightarrow> nat" where
  "minimum_for filename dataSize =
     (let canBeSmall = \<not> ends_with filename ''.pdf'' \<and> ends_with filename ''.json'';
          clampMin = (if canBeSmall then 100 else 100000);
          clampMax = 100000000;
          clampedSize = max clampMin (min clampMax dataSize);
          step = count_steps (of_nat clampedSize) 1
      in 10 ^ (step - 1))"

section \<open>Splitting at delimiters\<close>

definition byte_index :: "8 word \<Rightarrow> nat \<Rightarrow> bytes \<Rightarrow> nat option" where
  "byte_index b from buf = index_from [b] from buf"

partial_function (option) blobV2_loop :: "bytes \<Rightarrow> nat \<Rightarrow> nat \<Rightarrow> 8 word \<Rightarrow> nat \<Rightarrow> bytes list option" where
  "blobV2_loop buf pieceSize minimumChunkSize delimiter i =
     (let findStart = i + minimumChunkSize;
          defaultSplitEnd = i + pieceSize;
          i1 = (case byte_index delimiter findStart buf of Some j \<Rightarrow> Some j | None \<Rightarrow> byte_index 0x0A findStart buf);
          splitEnd = (case i1 of None \<Rightarrow> defaultSplitEnd | Some j \<Rightarrow> if j < defaultSplitEnd then j else defaultSplitEnd);
          piece = js_slice buf i splitEnd
      in if splitEnd < length buf
         then Option.bind (blobV2_loop buf pieceSize minimumChunkSize delimiter splitEnd) (\<lambda>ps. Some (piece # ps))
         else Some [piece])"

definition splitBlobV2 :: "string \<Rightarrow> bytes \<Rightarrow> nat \<Rightarrow> bytes list option" where
  "splitBlobV2 filename buf pieceSize =
     (if length buf = 0 then Some []
      else blobV2_loop buf pieceSize (minimum_for filename (length buf)) (delimiter_for filename) 0)"

partial_function (option) blob_loop :: "bytes \<Rightarrow> nat \<Rightarrow> nat \<Rightarrow> 8 word \<Rightarrow> nat \<Rightarrow> bytes list option" where
  "blob_loop buf pieceSize minimumChunkSize delimiter i =
     (let currentData = js_slice buf i (i + pieceSize);
          nextIdx = byte_index delimiter minimumChunkSize currentData;
          splitSize = (case nextIdx of None \<Rightarrow> pieceSize | Some j \<Rightarrow> min pieceSize j);
          piece = js_slice currentData 0 splitSize;
          i1 = i + length piece
      in if i1 < length buf
         then Option.bind (blob_loop buf pieceSize minimumChunkSize delimiter i1) (\<lambda>ps. Some (piece # ps))
         else Some [piece])"

definition splitBlob :: "string \<Rightarrow> bytes \<Rightarrow> nat \<Rightarrow> bytes list option" where
  "splitBlob filename buf pieceSize =
     blob_loop buf pieceSize (minimum_for filename (length buf)) (delimiter_for filename) 0"

section \<open>Rabin-Karp chunking\<close>

record rk_params =
  rk_min :: nat
  rk_max :: nat
  rk_avg :: nat

function chunk_unit :: "nat \<Rightarrow> nat \<Rightarrow> nat" where
  "chunk_unit dataSize u = (if dataSize > 500 * (u * 4) then chunk_unit dataSize (u + 32) else u)"
  by pat_completeness auto
termination
  by (relation "measure (\<lambda>(s, u). s - u)") auto

declare chunk_unit.simps [simp del]

definition rk_params_of :: "nat \<Rightarrow> nat \<Rightarrow> bool \<Rightarrow> bool \<Rightarrow> nat \<Rightarrow> rk_params" where
  "rk_params_of dataSize absoluteMaxPieceSize doPlainSplit isText minimumChunkSize =
     (let plainSplit0 = doPlainSplit \<or> isText;
          plainSplit = plainSplit0 \<and> \<not> dataSize \<ge> 4 * 1024 * 1024;
          chunkUnitPlain = (if plainSplit then chunk_unit dataSize 64 else 64);
          chunkUnitBinary = 256 * 1024;
          fixedAvgChunkSize = (if plainSplit then chunkUnitPlain * 4 else chunkUnitBinary * 4);
          fixedMaxChunkSize = (if plainSplit then chunkUnitPlain * 16 else chunkUnitBinary * 16);
          fixedMinChunkSize = (if plainSplit then chunkUnitPlain * 2 else chunkUnitBinary);
          effectiveAbsoluteMaxPieceSize = max absoluteMaxPieceSize (30 * 1024);
          maxChunkSize = min fixedMaxChunkSize effectiveAbsoluteMaxPieceSize;
          minChunkSize = min (max fixedMinChunkSize minimumChunkSize) maxChunkSize;
          avgChunkSize = min (max fixedAvgChunkSize minChunkSize) maxChunkSize
      in \<lparr>rk_min = minChunkSize, rk_max = maxChunkSize, rk_avg = avgChunkSize\<rparr>)"

definition rk_params_old :: "nat \<Rightarrow> nat \<Rightarrow> bool \<Rightarrow> bool \<Rightarrow> nat \<Rightarrow> rk_params" where
  "rk_params_old dataSize absoluteMaxPieceSize doPlainSplit isText minimumChunkSize =
     (let plainSplit = doPlainSplit \<or> isText;
          minPieceSize = (if plainSplit then 128 else 1024 * 4);
          splitPieceCount = (if plainSplit then 20 else 12);
          avgChunkSize = max minPieceSize (dataSize div splitPieceCount);
          maxChunkSize = min absoluteMaxPieceSize (avgChunkSize * 5);
          minChunkSize = min (max (avgChunkSize div 4) minimumChunkSize) maxChunkSize
      in \<lparr>rk_min = minChunkSize, rk_max = maxChunkSize, rk_avg = avgChunkSize\<rparr>)"

definition windowSize :: nat where "windowSize = 48"
definition PRIME :: "32 word" where "PRIME = 31"
definition P_pow_w :: "32 word" where "P_pow_w = ((\<lambda>p. p * PRIME) ^^ (windowSize - 1)) 1"

record rk_state =
  rk_pos :: nat
  rk_start :: nat
  rk_hash :: "32 word"
  rk_out :: "bytes list"

definition rk_update :: "bytes \<Rightarrow> nat \<Rightarrow> nat \<Rightarrow> 32 word \<Rightarrow> 32 word" where
  "rk_update buf pos start h =
     (let byte = ucast (buf ! pos)
      in if pos \<ge> start + windowSize
         then (let oldByteTerm = ucast (buf ! (pos - windowSize)) * P_pow_w in (h - oldByteTerm) * PRIME + byte)
         else h * PRIME + byte)"

definition rk_candidate :: "rk_params \<Rightarrow> nat \<Rightarrow> 32 word \<Rightarrow> bool" where
  "rk_candidate par currentChunkSize h \<longleftrightarrow>
     (currentChunkSize \<ge> rk_min par \<and> unat h mod rk_avg par = 1) \<or> currentChunkSize \<ge> rk_max par"

definition is_continuation :: "8 word \<Rightarrow> bool" where
  "is_continuation b \<longleftrightarrow> and b 0xC0 = 0x80"

definition rk_safe :: "bool \<Rightarrow> bytes \<Rightarrow> nat \<Rightarrow> bool" where
  "rk_safe isText buf pos \<longleftrightarrow> \<not> (isText \<and> pos + 1 < length buf \<and> is_continuation (buf ! (pos + 1)))"

definition rk_iter :: "rk_params \<Rightarrow> bool \<Rightarrow> bytes \<Rightarrow> rk_state \<Rightarrow> rk_state" where
  "rk_iter par isText buf st =
     (let pos = rk_pos st; start = rk_start st;
          h = rk_update buf pos start (rk_hash st);
          currentChunkSize = pos - start + 1
      in if rk_candidate par currentChunkSize h \<and> rk_safe isText buf pos
         then st\<lparr>rk_hash := h, rk_out := rk_out st @ [js_slice buf start (pos + 1)], rk_start := pos + 1, rk_pos := pos + 1\<rparr>
         else st\<lparr>rk_hash := h, rk_pos := pos + 1\<rparr>)"

lemma rk_pos_iter [simp]: "rk_pos (rk_iter par isText buf st) = Suc (rk_pos st)"
  by (simp add: rk_iter_def Let_def)

function rk_loop :: "rk_params \<Rightarrow> bool \<Rightarrow> bytes \<Rightarrow> rk_state \<Rightarrow> rk_state" where
  "rk_loop par isText buf st = (if rk_pos st < length buf then rk_loop par isText buf (rk_iter par isText buf st) else st)"
  by pat_completeness auto
termination
  by (relation "measure (\<lambda>(_, _, buf, st). length buf - rk_pos st)") auto

declare rk_loop.simps [simp del]

definition rk_pieces :: "rk_params \<Rightarrow> bool \<Rightarrow> bytes \<Rightarrow> bytes list" where
  "rk_pieces par isText buf =
     (let st = rk_loop par isText buf \<lparr>rk_pos = 0, rk_start = 0, rk_hash = 0, rk_out = []\<rparr>
      in rk_out st @ (if rk_start st < length buf then [js_slice buf (rk_start st) (length buf)] else []))"

definition splitPiecesRabinKarp :: "bytes \<Rightarrow> nat \<Rightarrow> bool \<Rightarrow> bool \<Rightarrow> nat \<Rightarrow> bytes list" where
  "splitPiecesRabinKarp buf absoluteMaxPieceSize doPlainSplit isText minimumChunkSize =
     rk_pieces (rk_params_of (length buf) absoluteMaxPieceSize doPlainSplit isText minimumChunkSize) isText buf"

definition splitPiecesRabinKarpOld :: "bytes \<Rightarrow> nat \<Rightarrow> bool \<Rightarrow> bool \<Rightarrow> nat \<Rightarrow> bytes list" where
  "splitPiecesRabinKarpOld buf absoluteMaxPieceSize doPlainSplit isText minimumChunkSize =
     rk_pieces (rk_params_old (length buf) absoluteMaxPieceSize doPlainSplit isText minimumChunkSize) isText buf"

section \<open>Loops that cut a buffer\<close>

text \<open>
  The contract of the two delimiter loops: \<open>loop i\<close> yields the slice up to \<open>cut i\<close> and goes on from
  there; each cut is at least \<open>lo\<close> and at most \<open>hi\<close> ahead.
\<close>

locale cut_loop =
  fixes loop :: "nat \<Rightarrow> 'a list list option"
    and cut :: "nat \<Rightarrow> nat"
    and buf :: "'a list"
    and lo hi :: nat
  assumes loop_unfold: "i < length buf \<Longrightarrow> loop i =
      (if cut i < length buf then Option.bind (loop (cut i)) (\<lambda>ps. Some (js_slice buf i (cut i) # ps))
       else Some [js_slice buf i (cut i)])"
    and lo_pos: "0 < lo"
    and cut_lo: "i + lo \<le> cut i"
    and cut_hi: "cut i \<le> i + hi"
begin

lemma loop_spec:
  assumes "i < length buf"
  shows "\<exists>ps. loop i = Some ps \<and> concat ps = drop i buf \<and> ps \<noteq> [] \<and>
    (\<forall>p \<in> set ps. p \<noteq> [] \<and> length p \<le> hi) \<and> (\<forall>p \<in> set (butlast ps). lo \<le> length p)"
  using assms
proof (induction "length buf - i" arbitrary: i rule: less_induct)
  case less
  have gt: "i < cut i" using cut_lo [of i] lo_pos by linarith
  have piece: "js_slice buf i (cut i) \<noteq> []" "length (js_slice buf i (cut i)) \<le> hi"
    using gt less.prems cut_hi [of i] by (auto simp: js_slice_def)
  show ?case
  proof (cases "cut i < length buf")
    case True
    have "length buf - cut i < length buf - i" using gt less.prems by simp
    from less.hyps [OF this True] obtain ps where ps: "loop (cut i) = Some ps" "concat ps = drop (cut i) buf" "ps \<noteq> []"
        "\<forall>p \<in> set ps. p \<noteq> [] \<and> length p \<le> hi" "\<forall>p \<in> set (butlast ps). lo \<le> length p" by blast
    have "lo \<le> length (js_slice buf i (cut i))" using True cut_lo [of i] by (simp add: js_slice_def)
    with ps piece gt True show ?thesis by (simp add: loop_unfold [OF less.prems] js_slice_append)
  next
    case False
    then have "js_slice buf i (cut i) = drop i buf" by (simp add: js_slice_def)
    with False piece show ?thesis by (simp add: loop_unfold [OF less.prems])
  qed
qed

end

definition v2_cut :: "bytes \<Rightarrow> nat \<Rightarrow> nat \<Rightarrow> 8 word \<Rightarrow> nat \<Rightarrow> nat" where
  "v2_cut buf pieceSize m d i =
     (case (case byte_index d (i + m) buf of Some j \<Rightarrow> Some j | None \<Rightarrow> byte_index 0x0A (i + m) buf) of
        None \<Rightarrow> i + pieceSize | Some j \<Rightarrow> if j < i + pieceSize then j else i + pieceSize)"

lemma byte_index_ge: "byte_index d n buf = Some j \<Longrightarrow> n \<le> j"
  unfolding byte_index_def by (auto simp: index_from_def)

lemma v2_cut_bounds: "i + min m pieceSize \<le> v2_cut buf pieceSize m d i" "v2_cut buf pieceSize m d i \<le> i + pieceSize"
  using byte_index_ge by (fastforce simp: v2_cut_def split: option.splits)+

interpretation v2: cut_loop "blobV2_loop buf (Suc k) (Suc m) d" "v2_cut buf (Suc k) (Suc m) d" buf
    "min (Suc m) (Suc k)" "Suc k" for buf k m d
proof unfold_locales
  fix i
  show "blobV2_loop buf (Suc k) (Suc m) d i =
      (if v2_cut buf (Suc k) (Suc m) d i < length buf
       then Option.bind (blobV2_loop buf (Suc k) (Suc m) d (v2_cut buf (Suc k) (Suc m) d i))
              (\<lambda>ps. Some (js_slice buf i (v2_cut buf (Suc k) (Suc m) d i) # ps))
       else Some [js_slice buf i (v2_cut buf (Suc k) (Suc m) d i)])"
    by (subst blobV2_loop.simps) (simp only: Let_def v2_cut_def)
  show "0 < min (Suc m) (Suc k)" by simp
  show "i + min (Suc m) (Suc k) \<le> v2_cut buf (Suc k) (Suc m) d i" "v2_cut buf (Suc k) (Suc m) d i \<le> i + Suc k"
    by (rule v2_cut_bounds)+
qed

definition blob_cut :: "bytes \<Rightarrow> nat \<Rightarrow> nat \<Rightarrow> 8 word \<Rightarrow> nat \<Rightarrow> nat" where
  "blob_cut buf pieceSize m d i =
     i + (case byte_index d m (js_slice buf i (i + pieceSize)) of None \<Rightarrow> pieceSize | Some j \<Rightarrow> min pieceSize j)"

lemma blob_cut_bounds: "i + min m pieceSize \<le> blob_cut buf pieceSize m d i" "blob_cut buf pieceSize m d i \<le> i + pieceSize"
  using byte_index_ge by (fastforce simp: blob_cut_def split: option.splits)+

lemma js_slice_slice: "n \<le> p \<Longrightarrow> js_slice (js_slice buf i (i + p)) 0 n = js_slice buf i (i + n)"
  by (simp add: js_slice_def drop_take min_def)

lemma blob_loop_unfold:
  assumes lt: "i < length buf"
  shows "blob_loop buf pieceSize m d i =
      (if blob_cut buf pieceSize m d i < length buf
       then Option.bind (blob_loop buf pieceSize m d (blob_cut buf pieceSize m d i))
              (\<lambda>ps. Some (js_slice buf i (blob_cut buf pieceSize m d i) # ps))
       else Some [js_slice buf i (blob_cut buf pieceSize m d i)])"
proof -
  let ?n = "case byte_index d m (js_slice buf i (i + pieceSize)) of None \<Rightarrow> pieceSize | Some j \<Rightarrow> min pieceSize j"
  have n: "?n \<le> pieceSize" by (simp split: option.split)
  have piece: "js_slice (js_slice buf i (i + pieceSize)) 0 ?n = js_slice buf i (i + ?n)"
    by (rule js_slice_slice [OF n])
  have i1: "(i + length (js_slice buf i (i + ?n)) < length buf) = (i + ?n < length buf)"
      "i + ?n < length buf \<Longrightarrow> i + length (js_slice buf i (i + ?n)) = i + ?n"
    using lt by (auto simp: length_js_slice)
  show ?thesis
    unfolding blob_cut_def by (subst blob_loop.simps) (simp only: Let_def piece i1 cong: if_cong)
qed

interpretation v1: cut_loop "blob_loop buf (Suc k) (Suc m) d" "blob_cut buf (Suc k) (Suc m) d" buf
    "min (Suc m) (Suc k)" "Suc k" for buf k m d
  by unfold_locales (erule blob_loop_unfold, simp, rule blob_cut_bounds(1), rule blob_cut_bounds(2))

lemma minimum_for_pos: "\<exists>m. minimum_for filename n = Suc m"
  by (metis Suc_pred minimum_for_def pos2 zero_less_numeral zero_less_power)

section \<open>Invariant of the Rabin-Karp loop\<close>

definition rk_ok :: "rk_params \<Rightarrow> bool" where
  "rk_ok par \<longleftrightarrow> 0 < rk_min par \<and> rk_min par \<le> rk_max par"

definition good_piece :: "rk_params \<Rightarrow> bool \<Rightarrow> bytes \<Rightarrow> bool" where
  "good_piece par isText p \<longleftrightarrow> rk_min par \<le> length p \<and> (\<not> isText \<longrightarrow> length p \<le> rk_max par)"

definition rk_inv :: "rk_params \<Rightarrow> bool \<Rightarrow> bytes \<Rightarrow> rk_state \<Rightarrow> bool" where
  "rk_inv par isText buf st \<longleftrightarrow>
     rk_start st \<le> rk_pos st \<and> rk_pos st \<le> length buf \<and>
     concat (rk_out st) = take (rk_start st) buf \<and>
     (\<forall>p \<in> set (rk_out st). good_piece par isText p) \<and>
     (\<not> isText \<longrightarrow> rk_pos st - rk_start st < rk_max par) \<and>
     (isText \<longrightarrow> (\<forall>p \<in> set (tl (rk_out st)). \<not> is_continuation (hd p)) \<and>
       (rk_out st \<noteq> [] \<and> rk_start st < length buf \<longrightarrow> \<not> is_continuation (buf ! rk_start st)))"

lemma tl_snoc: "xs \<noteq> [] \<Longrightarrow> tl (xs @ [x]) = tl xs @ [x]"
  by (cases xs) auto

lemma take_slice: "a \<le> b \<Longrightarrow> take a s @ js_slice s a b = take b s"
proof -
  assume "a \<le> b"
  then have "take a s = take a (take b s)" by (simp add: min_def)
  then show ?thesis by (simp only: js_slice_def append_take_drop_id)
qed

lemma rk_iter_inv:
  assumes ok: "rk_ok par" and iv: "rk_inv par isText buf st" and lt: "rk_pos st < length buf"
  shows "rk_inv par isText buf (rk_iter par isText buf st)"
proof -
  let ?pos = "rk_pos st" and ?start = "rk_start st"
  let ?h = "rk_update buf ?pos ?start (rk_hash st)"
  let ?p = "js_slice buf ?start (?pos + 1)"
  have le: "?start \<le> ?pos" using iv by (simp add: rk_inv_def)
  show ?thesis
  proof (cases "rk_candidate par (?pos - ?start + 1) ?h \<and> rk_safe isText buf ?pos")
    case True
    have hdp: "hd ?p = buf ! ?start" using le lt by (simp add: js_slice_def drop_take hd_drop_conv_nth)
    have "rk_min par \<le> length ?p"
      using True ok le lt by (auto simp: length_js_slice rk_candidate_def rk_ok_def)
    moreover have "\<not> isText \<longrightarrow> length ?p \<le> rk_max par"
      using iv le lt by (auto simp: length_js_slice rk_inv_def)
    ultimately have good: "good_piece par isText ?p" by (simp add: good_piece_def)
    have safe: "isText \<longrightarrow> (?pos + 1 < length buf \<longrightarrow> \<not> is_continuation (buf ! (?pos + 1)))"
      using True by (auto simp: rk_safe_def)
    have cont: "isText \<longrightarrow> (\<forall>p \<in> set (tl (rk_out st @ [?p])). \<not> is_continuation (hd p))"
      using iv lt le hdp by (cases "rk_out st = []") (auto simp: rk_inv_def tl_snoc)
    have "rk_iter par isText buf st = st\<lparr>rk_hash := ?h, rk_out := rk_out st @ [?p], rk_start := ?pos + 1, rk_pos := ?pos + 1\<rparr>"
      using True by (simp add: rk_iter_def Let_def)
    then show ?thesis
      using iv ok lt le good safe cont by (simp add: rk_inv_def rk_ok_def take_slice)
  next
    case False
    have max: "?pos + 1 - ?start < rk_max par" if "\<not> isText"
      using False that le by (auto simp: rk_candidate_def rk_safe_def)
    have "rk_iter par isText buf st = st\<lparr>rk_hash := ?h, rk_pos := ?pos + 1\<rparr>"
      using False by (auto simp: rk_iter_def Let_def)
    then show ?thesis
      using iv lt max by (simp add: rk_inv_def)
  qed
qed

lemma rk_loop_inv:
  "rk_ok par \<Longrightarrow> rk_inv par isText buf st \<Longrightarrow>
     rk_inv par isText buf (rk_loop par isText buf st) \<and> rk_pos (rk_loop par isText buf st) = length buf"
proof (induction par isText buf st rule: rk_loop.induct)
  case (1 par isText buf st)
  show ?case
  proof (cases "rk_pos st < length buf")
    case True
    with 1 rk_iter_inv [OF 1(2,3)] show ?thesis by (subst (1 2) rk_loop.simps) simp
  next
    case False
    then have "rk_loop par isText buf st = st" by (subst rk_loop.simps) simp
    with False 1(3) show ?thesis by (auto simp: rk_inv_def)
  qed
qed

lemma rk_pieces_spec:
  assumes "rk_ok par"
  shows "concat (rk_pieces par isText buf) = buf"
    and "\<And>p. p \<in> set (rk_pieces par isText buf) \<Longrightarrow> p \<noteq> []"
    and "\<And>p. p \<in> set (butlast (rk_pieces par isText buf)) \<Longrightarrow> rk_min par \<le> length p"
    and "\<And>p. p \<in> set (rk_pieces par isText buf) \<Longrightarrow> \<not> isText \<Longrightarrow> length p \<le> rk_max par"
    and "\<And>p. p \<in> set (tl (rk_pieces par isText buf)) \<Longrightarrow> isText \<Longrightarrow> \<not> is_continuation (hd p)"
proof -
  let ?s0 = "\<lparr>rk_pos = 0, rk_start = 0, rk_hash = 0, rk_out = []\<rparr>"
  define st where "st = rk_loop par isText buf ?s0"
  define rest where "rest = (if rk_start st < length buf then [js_slice buf (rk_start st) (length buf)] else [])"
  have "rk_inv par isText buf ?s0" using assms by (simp add: rk_inv_def rk_ok_def)
  from rk_loop_inv [OF assms this] have iv: "rk_inv par isText buf st" and pos: "rk_pos st = length buf"
    by (simp_all add: st_def)
  have ps: "rk_pieces par isText buf = rk_out st @ rest"
    by (simp add: rk_pieces_def st_def rest_def Let_def)
  have out: "concat (rk_out st) = take (rk_start st) buf" "\<And>p. p \<in> set (rk_out st) \<Longrightarrow> good_piece par isText p"
    using iv by (simp_all add: rk_inv_def)
  have rest_c: "concat rest = drop (rk_start st) buf" by (simp add: rest_def js_slice_def)
  have rest_p: "p = drop (rk_start st) buf \<and> rk_start st < length buf" if "p \<in> set rest" for p
    using that by (simp add: rest_def js_slice_def split: if_splits)
  show "concat (rk_pieces par isText buf) = buf" by (simp add: ps out(1) rest_c)
  show "p \<noteq> []" if "p \<in> set (rk_pieces par isText buf)" for p
    using that out(2) [of p] rest_p [of p] assms by (auto simp: ps good_piece_def rk_ok_def)
  show "rk_min par \<le> length p" if "p \<in> set (butlast (rk_pieces par isText buf))" for p
  proof -
    have "p \<in> set (rk_out st)"
      using that by (auto simp: ps rest_def butlast_append split: if_splits dest: in_set_butlastD)
    from out(2) [OF this] show ?thesis by (simp add: good_piece_def)
  qed
  show "length p \<le> rk_max par" if "p \<in> set (rk_pieces par isText buf)" "\<not> isText" for p
  proof -
    have "p \<in> set (rk_out st) \<or> p \<in> set rest" using that(1) by (simp add: ps)
    with that(2) out(2) [of p] rest_p [of p] iv pos show ?thesis by (auto simp: good_piece_def rk_inv_def)
  qed
  show "\<not> is_continuation (hd p)" if "p \<in> set (tl (rk_pieces par isText buf))" "isText" for p
  proof (cases "rk_out st = []")
    case True
    with that(1) show ?thesis unfolding ps by (simp add: rest_def split: if_splits)
  next
    case False
    then have "p \<in> set (tl (rk_out st)) \<or> p \<in> set rest" using that(1) unfolding ps by (auto simp: tl_append2)
    with iv that(2) False rest_p [of p] show ?thesis by (auto simp: rk_inv_def hd_drop_conv_nth)
  qed
qed

lemma chunk_unit_ge: "u \<le> chunk_unit n u"
  by (induction n u rule: chunk_unit.induct) (subst chunk_unit.simps, auto)

lemma clamp_bounds:
  fixes fmin fmax favg m a fl :: nat
  assumes "128 \<le> fmin" and "128 \<le> fmax" and "128 \<le> fl"
  shows "128 \<le> min (max fmin m) (min fmax (max a fl))"
    and "min (max fmin m) (min fmax (max a fl)) \<le>
      min (max favg (min (max fmin m) (min fmax (max a fl)))) (min fmax (max a fl))"
    and "min fmax (max a fl) \<le> max a fl"
  using assms by auto

definition plain_mode :: "nat \<Rightarrow> bool \<Rightarrow> bool \<Rightarrow> bool" where
  "plain_mode n plain isText \<longleftrightarrow> (plain \<or> isText) \<and> \<not> n \<ge> 4 * 1024 * 1024"

lemma rk_params_of_bounds:
  "128 \<le> rk_min (rk_params_of n absMax plain isText m)"
  "rk_min (rk_params_of n absMax plain isText m) \<le> rk_avg (rk_params_of n absMax plain isText m)"
  "rk_avg (rk_params_of n absMax plain isText m) \<le> rk_max (rk_params_of n absMax plain isText m)"
  "rk_max (rk_params_of n absMax plain isText m) \<le> max absMax (30 * 1024)"
proof -
  define u where "u = (if plain_mode n plain isText then chunk_unit n 64 else 64)"
  have u: "64 \<le> u" using chunk_unit_ge [of 64 n] by (simp add: u_def)
  define fmin fmax favg where
    "fmin = (if plain_mode n plain isText then u * 2 else 256 * 1024)" and
    "fmax = (if plain_mode n plain isText then u * 16 else 256 * 1024 * 16)" and
    "favg = (if plain_mode n plain isText then u * 4 else 256 * 1024 * 4)"
  have f: "128 \<le> fmin" "128 \<le> fmax" "128 \<le> (30 * 1024 :: nat)" using u by (auto simp: fmin_def fmax_def)
  have par: "rk_params_of n absMax plain isText m =
      \<lparr>rk_min = min (max fmin m) (min fmax (max absMax (30 * 1024))), rk_max = min fmax (max absMax (30 * 1024)),
       rk_avg = min (max favg (min (max fmin m) (min fmax (max absMax (30 * 1024))))) (min fmax (max absMax (30 * 1024)))\<rparr>"
    unfolding rk_params_of_def Let_def fmin_def fmax_def favg_def u_def plain_mode_def by (rule refl)
  show "128 \<le> rk_min (rk_params_of n absMax plain isText m)"
    using clamp_bounds(1) [OF f, of m absMax] by (simp only: par rk_params.simps)
  show "rk_min (rk_params_of n absMax plain isText m) \<le> rk_avg (rk_params_of n absMax plain isText m)"
    using clamp_bounds(2) [OF f, of m absMax favg] by (simp only: par rk_params.simps)
  show "rk_avg (rk_params_of n absMax plain isText m) \<le> rk_max (rk_params_of n absMax plain isText m)"
    by (simp only: par rk_params.simps min.cobounded2)
  show "rk_max (rk_params_of n absMax plain isText m) \<le> max absMax (30 * 1024)"
    by (simp only: par rk_params.simps min.cobounded2)
qed

section \<open>The rolling hash\<close>

definition poly_hash :: "bytes \<Rightarrow> 32 word" where
  "poly_hash bs = foldl (\<lambda>h b. h * PRIME + ucast b) 0 bs"

lemma poly_hash_snoc: "poly_hash (bs @ [b]) = poly_hash bs * PRIME + ucast b"
  by (simp add: poly_hash_def)

lemma poly_hash_Cons: "poly_hash (b # bs) = ucast b * PRIME ^ length bs + poly_hash bs"
proof (induction bs rule: rev_induct)
  case Nil
  then show ?case by (simp add: poly_hash_def)
next
  case (snoc x bs)
  have "poly_hash ((b # bs) @ [x]) = (ucast b * PRIME ^ length bs + poly_hash bs) * PRIME + ucast x"
    by (simp only: poly_hash_snoc snoc)
  then show ?case by (simp add: poly_hash_snoc algebra_simps)
qed

lemma funpow_times: "((\<lambda>p. p * x) ^^ n) 1 = (x :: 'a :: comm_monoid_mult) ^ n"
  by (induction n) (simp_all add: mult.commute)

lemma P_pow_w_eq: "P_pow_w = PRIME ^ 47"
  unfolding P_pow_w_def windowSize_def funpow_times by (rule arg_cong [where f = "power PRIME"]) simp

lemma slide:
  assumes "0 < w" and "w \<le> n" and "n < length xs"
  shows "drop (n - w) (take n xs) = xs ! (n - w) # drop (Suc (n - w)) (take n xs)"
    and "drop (Suc n - w) (take (Suc n) xs) = drop (Suc (n - w)) (take n xs) @ [xs ! n]"
    and "length (drop (Suc (n - w)) (take n xs)) = w - 1"
proof -
  show "drop (n - w) (take n xs) = xs ! (n - w) # drop (Suc (n - w)) (take n xs)"
    using assms Cons_nth_drop_Suc [of "n - w" "take n xs"] by simp
  show "drop (Suc n - w) (take (Suc n) xs) = drop (Suc (n - w)) (take n xs) @ [xs ! n]"
    using assms by (simp add: take_Suc_conv_app_nth Suc_diff_le)
  show "length (drop (Suc (n - w)) (take n xs)) = w - 1"
    using assms by simp
qed

text \<open>The last 48 bytes of the first \<open>n\<close> bytes of a chunk, or all of them when there are fewer.\<close>

definition rk_window :: "bytes \<Rightarrow> nat \<Rightarrow> nat \<Rightarrow> bytes" where
  "rk_window buf start n = drop (n - windowSize) (take n (drop start buf))"

lemma rk_window_grow:
  assumes "start + n < length buf" and "n < windowSize"
  shows "rk_window buf start (Suc n) = rk_window buf start n @ [buf ! (start + n)]"
proof -
  have "take (Suc n) (drop start buf) = take n (drop start buf) @ [buf ! (start + n)]"
    using assms(1) by (simp add: take_Suc_conv_app_nth)
  with assms(2) show ?thesis by (simp add: rk_window_def)
qed

lemma rk_window_slide:
  assumes "start + n < length buf" and "windowSize \<le> n"
  obtains t where "rk_window buf start n = buf ! (start + n - windowSize) # t"
    and "rk_window buf start (Suc n) = t @ [buf ! (start + n)]" and "length t = windowSize - 1"
proof
  let ?t = "drop (Suc (n - windowSize)) (take n (drop start buf))"
  have w: "0 < windowSize" by (simp add: windowSize_def)
  have n: "n < length (drop start buf)" using assms(1) by simp
  note sl = slide [OF w assms(2) n]
  have "drop start buf ! (n - windowSize) = buf ! (start + n - windowSize)"
    using assms by simp
  with sl(1) show "rk_window buf start n = buf ! (start + n - windowSize) # ?t"
    unfolding rk_window_def by simp
  show "rk_window buf start (Suc n) = ?t @ [buf ! (start + n)]"
    using sl(2) assms(1) unfolding rk_window_def by simp
  show "length ?t = windowSize - 1" by (rule sl(3))
qed

lemma rk_update_window:
  assumes "start + n < length buf" and "h = c * PRIME ^ n + poly_hash (rk_window buf start n)"
  shows "rk_update buf (start + n) start h = c * PRIME ^ Suc n + poly_hash (rk_window buf start (Suc n))"
proof (cases "n < windowSize")
  case True
  then show ?thesis
    by (simp add: rk_update_def Let_def assms(2) rk_window_grow [OF assms(1)] poly_hash_snoc algebra_simps)
next
  case False
  then have w: "windowSize \<le> n" by simp
  obtain t where t: "rk_window buf start n = buf ! (start + n - windowSize) # t"
      "rk_window buf start (Suc n) = t @ [buf ! (start + n)]" "length t = windowSize - 1"
    by (rule rk_window_slide [OF assms(1) w])
  have "length t = 47" using t(3) by (simp add: windowSize_def)
  then have "poly_hash (rk_window buf start n) = ucast (buf ! (start + n - windowSize)) * PRIME ^ 47 + poly_hash t"
    by (simp add: t(1) poly_hash_Cons)
  moreover have "poly_hash (rk_window buf start (Suc n)) = poly_hash t * PRIME + ucast (buf ! (start + n))"
    by (simp add: t(2) poly_hash_snoc)
  ultimately show ?thesis
    using w by (simp add: rk_update_def Let_def assms(2) P_pow_w_eq algebra_simps)
qed

lemma PRIME_invertible: "x * PRIME ^ n = 0 \<longleftrightarrow> x = 0"
proof
  assume "x * PRIME ^ n = 0"
  then have "x * PRIME ^ n * 3186588639 ^ n = 0" by simp
  moreover have "PRIME * 3186588639 = 1" by (simp add: PRIME_def)
  then have "PRIME ^ n * 3186588639 ^ n = 1" by (metis power_mult_distrib power_one)
  ultimately show "x = 0" by (metis mult.assoc mult.right_neutral)
qed simp

lemma rk_iters_pos: "rk_pos ((rk_iter par isText buf ^^ n) st) = rk_pos st + n"
  by (induction n) simp_all

lemma rk_iter_start:
  "rk_start (rk_iter par isText buf st) = rk_start st \<or> rk_start (rk_iter par isText buf st) = Suc (rk_pos st)"
  by (auto simp: rk_iter_def Let_def)

lemma rk_iter_hash: "rk_hash (rk_iter par isText buf st) = rk_update buf (rk_pos st) (rk_start st) (rk_hash st)"
  by (simp add: rk_iter_def Let_def)

lemma rk_iters_start_le: "rk_start st \<le> rk_pos st \<Longrightarrow> rk_start st \<le> rk_start ((rk_iter par isText buf ^^ n) st)"
proof (induction n)
  case 0
  then show ?case by simp
next
  case (Suc n)
  with rk_iter_start [of par isText buf "(rk_iter par isText buf ^^ n) st"] show ?case
    by (auto simp: rk_iters_pos)
qed

lemma rk_iters_same_start:
  assumes "rk_start st \<le> rk_pos st" and "rk_start ((rk_iter par isText buf ^^ Suc n) st) = rk_start st"
  shows "rk_start ((rk_iter par isText buf ^^ n) st) = rk_start st"
  using rk_iter_start [of par isText buf "(rk_iter par isText buf ^^ n) st"] assms
  by (auto simp: rk_iters_pos)

section \<open>Properties\<close>

text \<open>
  C7. Rabin-Karp chunking loses nothing and keeps its bounds, for every file and every setting: the
  pieces make up the file, none is empty, all but the last have at least the minimal size (which is
  at least 128), pieces of a binary file stay within the maximum, and no piece of a text file after
  the first begins in the middle of a UTF-8 sequence.
\<close>

theorem splitPiecesRabinKarp_pieces:
  fixes absMax m :: nat
  defines "par \<equiv> \<lambda>buf plain isText. rk_params_of (length buf) absMax plain isText m"
  shows "concat (splitPiecesRabinKarp buf absMax plain isText m) = buf \<and>
    [] \<notin> set (splitPiecesRabinKarp buf absMax plain isText m) \<and>
    128 \<le> rk_min (par buf plain isText) \<and> rk_max (par buf plain isText) \<le> max absMax 30720 \<and>
    (\<forall>p \<in> set (butlast (splitPiecesRabinKarp buf absMax plain isText m)). rk_min (par buf plain isText) \<le> length p) \<and>
    (\<not> isText \<longrightarrow> (\<forall>p \<in> set (splitPiecesRabinKarp buf absMax plain isText m). length p \<le> rk_max (par buf plain isText))) \<and>
    (isText \<longrightarrow> (\<forall>p \<in> set (tl (splitPiecesRabinKarp buf absMax plain isText m)). \<not> is_continuation (hd p)))"
proof -
  note b = rk_params_of_bounds [of "length buf" absMax plain isText m]
  have "rk_ok (rk_params_of (length buf) absMax plain isText m)"
    using b(1,2,3) by (simp add: rk_ok_def)
  note s = rk_pieces_spec [where isText = isText and buf = buf, OF this]
  have ne: "[] \<notin> set (rk_pieces (rk_params_of (length buf) absMax plain isText m) isText buf)"
    using s(2) by blast
  have mx: "rk_max (rk_params_of (length buf) absMax plain isText m) \<le> max absMax 30720"
    using b(4) by simp
  show ?thesis
    unfolding splitPiecesRabinKarp_def par_def using s(1,3-5) b(1) ne mx by blast
qed


text \<open>
  The delimiter-based splitters of binary data finish for a positive piece size, lose nothing,
  and every piece is non-empty and within the piece size; all but the last have at least the minimum
  computed from the size of the file, or the piece size when that is smaller.
\<close>

theorem splitBlob_pieces:
  assumes "0 < pieceSize" and "buf \<noteq> []" and "split \<in> {splitBlobV2, splitBlob}"
  shows "\<exists>ps. split filename buf pieceSize = Some ps \<and> concat ps = buf \<and>
    (\<forall>p \<in> set ps. p \<noteq> [] \<and> length p \<le> pieceSize) \<and>
    (\<forall>p \<in> set (butlast ps). min (minimum_for filename (length buf)) pieceSize \<le> length p)"
proof -
  obtain k where k: "pieceSize = Suc k" using assms(1) by (cases pieceSize) simp_all
  obtain m where m: "minimum_for filename (length buf) = Suc m"
    using minimum_for_pos [of filename "length buf"] by blast
  have lt: "0 < length buf" using assms(2) by simp
  show ?thesis
  proof (cases "split = splitBlobV2")
    case True
    with v2.loop_spec [OF lt, of k m "delimiter_for filename"] lt show ?thesis
      by (auto simp: splitBlobV2_def k m)
  next
    case False
    then have "split = splitBlob" using assms(3) by simp
    with v1.loop_spec [OF lt, of k m "delimiter_for filename"] show ?thesis
      by (auto simp: splitBlob_def k m)
  qed
qed

lemma splitBlob_newline_unused:
  assumes "delimiter_for filename \<notin> set buf" and "i < length buf"
  shows "blob_loop buf (Suc k) m (delimiter_for filename) i = splitStringWithinLength (drop i buf) (Suc k)"
  using assms(2)
proof (induction "length buf - i" arbitrary: i rule: less_induct)
  case less
  have "delimiter_for filename \<notin> set (js_slice buf i (i + Suc k))"
    using assms(1) by (auto simp: js_slice_def dest: in_set_dropD in_set_takeD)
  then have "byte_index (delimiter_for filename) m (js_slice buf i (i + Suc k)) = None"
    by (auto simp: byte_index_def index_from_def index_of_single_None dest: in_set_dropD)
  then have cut: "blob_cut buf (Suc k) m (delimiter_for filename) i = i + Suc k"
    by (simp add: blob_cut_def)
  have sl: "js_slice buf i (Suc (i + k)) = take (Suc k) (drop i buf)" by (simp add: js_slice_def take_drop add.commute)
  show ?case
  proof (cases "i + Suc k < length buf")
    case True
    have "length buf - (i + Suc k) < length buf - i" using less.prems by linarith
    from less.hyps [OF this True] True show ?thesis
      by (subst splitStringWithinLength.simps)
         (simp add: blob_loop_unfold [OF less.prems] cut sl Let_def add.commute)
  next
    case False
    then show ?thesis
      by (subst splitStringWithinLength.simps) (simp add: blob_loop_unfold [OF less.prems] cut sl Let_def)
  qed
qed

theorem splitPiecesRabinKarp_pieces_witness:
  "list_all (\<lambda>p. length p \<le> 30720) (splitPiecesRabinKarp [1, 2, 3] 0 False False 0) \<and>
   list_all (\<lambda>p. \<not> is_continuation (hd p)) (tl (splitPiecesRabinKarp [0xE3, 0x81, 0x82] 0 True True 0))"
proof -
  note b = splitPiecesRabinKarp_pieces [of "[1, 2, 3]" 0 False False 0]
    and t = splitPiecesRabinKarp_pieces [of "[0xE3, 0x81, 0x82]" 0 True True 0]
  from b have "\<forall>p \<in> set (splitPiecesRabinKarp [1, 2, 3] 0 False False 0). length p \<le> 30720" by fastforce
  with t show ?thesis unfolding list_all_iff by blast
qed


theorem splitBlob_pieces_witness:
  "\<exists>ps. splitBlob ''a.json'' [0x2C, 1, 2] 2 = Some ps \<and> concat ps = [0x2C, 1, 2] \<and> list_all (\<lambda>p. length p \<le> 2) ps"
proof -
  obtain ps where "splitBlob ''a.json'' [0x2C, 1, 2] 2 = Some ps" "concat ps = [0x2C, 1, 2]"
      "\<forall>p \<in> set ps. p \<noteq> [] \<and> length p \<le> 2"
    using splitBlob_pieces [of 2 "[0x2C, 1, 2]" splitBlob "''a.json''"] by auto
  then show ?thesis unfolding list_all_iff by blast
qed

end
