(* ===== verification/Json.thy ===== *)
theory Json
  imports Prelude "HOL-Library.Multiset"
begin

text \<open>
  JSON values as the code handles them, with \<open>undefined\<close>. An object is a list of properties in
  insertion order. Numbers are integers; any other number is \<open>JFloat\<close> with its printed form.
\<close>

datatype json =
  JUndef
| JNull
| JBool bool
| JNum int
| JFloat string
| JStr string
| JArr "json list"
| JObj "(string \<times> json) list"

definition js_field :: "(string \<times> json) list \<Rightarrow> string \<Rightarrow> json" where
  "js_field ps k = (case map_of ps k of None \<Rightarrow> JUndef | Some v \<Rightarrow> v)"

text \<open>\<open>Number.isSafeInteger(n) && n >= 0\<close>.\<close>

definition safe_nat :: "json \<Rightarrow> nat option" where
  "safe_nat v = (case v of JNum n \<Rightarrow> if 0 \<le> n \<and> n \<le> 2 ^ 53 - 1 then Some (nat n) else None | _ \<Rightarrow> None)"

lemma safe_nat_num: "n \<le> 2 ^ 53 - 1 \<Longrightarrow> safe_nat (JNum (int n)) = Some n"
  by (simp add: safe_nat_def)

lemma safe_nat_Some: "safe_nat v = Some n \<longleftrightarrow> v = JNum (int n) \<and> n \<le> 2 ^ 53 - 1"
  by (cases v) (auto simp: safe_nat_def)

end
