(* ===== verification/LeaseCoordinator.thy ===== *)
theory LeaseCoordinator
  imports Json
begin

text \<open>
  \<open>src/services/lib/DurableReplicationCoordinator.ts\<close>: the durable replication queue. Requests raise
  a generation number, a runtime that wants to replicate acquires a lease with a fencing token, and
  completing a cycle marks the generations it covered. All runtimes share one durable value, changed
  by \<open>atomicUpdate\<close> only; the clock and the interleaving of runtimes are the environment.
\<close>

section \<open>The durable state\<close>

record lease =
  l_holder :: string
  l_token :: nat
  l_expires :: nat

record queue_state =
  q_requested :: nat
  q_completed :: nat
  q_fencing :: nat
  q_lease :: "lease option"

datatype queue_error =
  InvalidState
| InvalidSchema
| InvalidInteger string
| InvalidOrder
| InvalidLeaseSchema
| InvalidLeaseHolder
| InvalidLeaseToken

definition createInitialState :: queue_state where
  "createInitialState = \<lparr>q_requested = 0, q_completed = 0, q_fencing = 0, q_lease = None\<rparr>"

definition assertInteger :: "json \<Rightarrow> string \<Rightarrow> queue_error + nat" where
  "assertInteger v label = (case safe_nat v of None \<Rightarrow> Inl (InvalidInteger label) | Some n \<Rightarrow> Inr n)"

definition check :: "('e + 'a) \<Rightarrow> ('a \<Rightarrow> 'e + 'b) \<Rightarrow> 'e + 'b" where
  "check r f = (case r of Inl e \<Rightarrow> Inl e | Inr a \<Rightarrow> f a)"

text \<open>Two key lists are equal after sorting when they are equal as multisets.\<close>

definition same_keys :: "string list \<Rightarrow> string list \<Rightarrow> bool" where
  "same_keys ks es \<longleftrightarrow> mset ks = mset es"

definition validateLease :: "json \<Rightarrow> nat \<Rightarrow> queue_error + lease" where
  "validateLease v fencing =
     (case v of
        JObj ls \<Rightarrow>
          if \<not> same_keys (map fst ls) [''expiresAt'', ''fencingToken'', ''holderId''] then Inl InvalidLeaseSchema
          else (case js_field ls ''holderId'' of
                  JStr h \<Rightarrow>
                    if length h < 8 then Inl InvalidLeaseHolder
                    else check (assertInteger (js_field ls ''fencingToken'') ''lease fencing token'') (\<lambda>tok.
                         check (assertInteger (js_field ls ''expiresAt'') ''lease expiry'') (\<lambda>ex.
                           if tok \<noteq> fencing then Inl InvalidLeaseToken
                           else Inr \<lparr>l_holder = h, l_token = tok, l_expires = ex\<rparr>))
                | _ \<Rightarrow> Inl InvalidLeaseHolder)
      | _ \<Rightarrow> Inl InvalidLeaseSchema)"

definition validateState :: "json \<Rightarrow> queue_error + queue_state" where
  "validateState v =
     (case v of
        JUndef \<Rightarrow> Inr createInitialState
      | JNull \<Rightarrow> Inr createInitialState
      | JObj ps \<Rightarrow>
          (let expected = [''schema'', ''requestedGeneration'', ''completedGeneration'', ''fencingToken''] @
                 (if js_field ps ''lease'' \<noteq> JUndef then [''lease''] else [])
           in if \<not> same_keys (map fst ps) expected \<or> js_field ps ''schema'' \<noteq> JNum 1 then Inl InvalidSchema
              else check (assertInteger (js_field ps ''requestedGeneration'') ''requested generation'') (\<lambda>rq.
                   check (assertInteger (js_field ps ''completedGeneration'') ''completed generation'') (\<lambda>cg.
                   check (assertInteger (js_field ps ''fencingToken'') ''fencing token'') (\<lambda>ft.
                     if cg > rq then Inl InvalidOrder
                     else if js_field ps ''lease'' \<noteq> JUndef then
                       check (validateLease (js_field ps ''lease'') ft) (\<lambda>l.
                         Inr \<lparr>q_requested = rq, q_completed = cg, q_fencing = ft, q_lease = Some l\<rparr>)
                     else Inr \<lparr>q_requested = rq, q_completed = cg, q_fencing = ft, q_lease = None\<rparr>))))
      | _ \<Rightarrow> Inl InvalidState)"

text \<open>The value that is stored for a state.\<close>

definition lease_json :: "lease \<Rightarrow> json" where
  "lease_json l = JObj [(''holderId'', JStr (l_holder l)), (''fencingToken'', JNum (int (l_token l))),
     (''expiresAt'', JNum (int (l_expires l)))]"

definition state_json :: "queue_state \<Rightarrow> json" where
  "state_json s = JObj ([(''schema'', JNum 1), (''requestedGeneration'', JNum (int (q_requested s))),
     (''completedGeneration'', JNum (int (q_completed s))), (''fencingToken'', JNum (int (q_fencing s)))] @
     (case q_lease s of None \<Rightarrow> [] | Some l \<Rightarrow> [(''lease'', lease_json l)]))"

definition updateState :: "(queue_state \<Rightarrow> queue_state \<times> 'r) \<Rightarrow> json \<Rightarrow> (queue_error + 'r) \<times> json" where
  "updateState change stored =
     (case validateState stored of
        Inl e \<Rightarrow> (Inl e, stored)
      | Inr current \<Rightarrow>
          (case change current of (state, r) \<Rightarrow>
             (case validateState (state_json state) of
                Inl e \<Rightarrow> (Inl e, stored)
              | Inr _ \<Rightarrow> (Inr r, state_json state))))"

definition readState :: "json \<Rightarrow> queue_error + queue_state" where
  "readState stored = validateState stored"

section \<open>A coordinator\<close>

record coordinator =
  co_holder :: string
  co_ttl :: nat
  co_takeOver :: bool
  co_looked :: bool
  co_earlier :: "string option"
  co_lastFailed :: nat

datatype ctor_error = TtlOutOfRange | InvalidHolder

definition new_coordinator :: "string \<Rightarrow> int option \<Rightarrow> bool \<Rightarrow> ctor_error + coordinator" where
  "new_coordinator holderId ttl takeOver =
     (let leaseTtlMs = (case ttl of None \<Rightarrow> 45000 | Some t \<Rightarrow> t)
      in if leaseTtlMs \<le> 0 \<or> leaseTtlMs > 45000 then Inl TtlOutOfRange
         else if length holderId < 8 then Inl InvalidHolder
         else Inr \<lparr>co_holder = holderId, co_ttl = nat leaseTtlMs, co_takeOver = takeOver, co_looked = False,
                co_earlier = None, co_lastFailed = 0\<rparr>)"

definition mustWaitFor :: "lease \<Rightarrow> nat \<Rightarrow> coordinator \<Rightarrow> bool \<times> coordinator" where
  "mustWaitFor l now c =
     (if l_holder l = co_holder c \<or> l_expires l \<le> now then (False, c)
      else (let c1 = (if \<not> co_looked c
                      then c\<lparr>co_looked := True, co_earlier := (if co_takeOver c then Some (l_holder l) else co_earlier c)\<rparr>
                      else c)
            in (Some (l_holder l) \<noteq> co_earlier c1, c1)))"

definition requestGeneration :: "queue_state \<Rightarrow> queue_state \<times> nat" where
  "requestGeneration s = (s\<lparr>q_requested := q_requested s + 1\<rparr>, q_requested s + 1)"

datatype attempt =
  Complete
| Wait nat
| Acquired nat nat nat  \<comment> \<open>fencing token, expiry, target\<close>

definition acquire_change :: "nat \<Rightarrow> coordinator \<Rightarrow> queue_state \<Rightarrow> queue_state \<times> attempt \<times> coordinator" where
  "acquire_change now c s =
     (if q_completed s \<ge> q_requested s then (s, Complete, c)
      else
        (let (wait, c1) = (case q_lease s of None \<Rightarrow> (False, c) | Some l \<Rightarrow> mustWaitFor l now c)
         in if wait then (s, Wait (case q_lease s of None \<Rightarrow> 0 | Some l \<Rightarrow> l_expires l - now), c1)
            else (let fencingToken = q_fencing s + 1; expiresAt = now + co_ttl c1
                  in (s\<lparr>q_fencing := fencingToken,
                        q_lease := Some \<lparr>l_holder = co_holder c1, l_token = fencingToken, l_expires = expiresAt\<rparr>\<rparr>,
                      Acquired fencingToken expiresAt (q_requested s), c1\<lparr>co_looked := True\<rparr>))))"

definition lease_valid :: "string \<Rightarrow> nat \<Rightarrow> nat \<Rightarrow> queue_state \<Rightarrow> bool" where
  "lease_valid holder token now s =
     (case q_lease s of None \<Rightarrow> False | Some l \<Rightarrow> l_holder l = holder \<and> l_token l = token \<and> l_expires l > now)"

definition renew_change :: "string \<Rightarrow> nat \<Rightarrow> nat \<Rightarrow> nat \<Rightarrow> queue_state \<Rightarrow> queue_state \<times> bool" where
  "renew_change holder ttl token now s =
     (if \<not> lease_valid holder token now s then (s, False)
      else (s\<lparr>q_lease := map_option (\<lambda>l. l\<lparr>l_expires := now + ttl\<rparr>) (q_lease s)\<rparr>, True))"

definition release_change :: "string \<Rightarrow> nat \<Rightarrow> queue_state \<Rightarrow> queue_state \<times> unit" where
  "release_change holder token s =
     (case q_lease s of
        Some l \<Rightarrow> if l_holder l = holder \<and> l_token l = token then (s\<lparr>q_lease := None\<rparr>, ()) else (s, ())
      | None \<Rightarrow> (s, ()))"

definition complete_change :: "string \<Rightarrow> nat \<Rightarrow> nat \<Rightarrow> nat \<Rightarrow> queue_state \<Rightarrow> queue_state \<times> bool" where
  "complete_change holder target token now s =
     (if \<not> lease_valid holder token now s then (s, False)
      else (s\<lparr>q_completed := max (q_completed s) target, q_lease := None\<rparr>, True))"

definition acquireOnce :: "nat \<Rightarrow> json \<Rightarrow> coordinator \<Rightarrow> (queue_error + attempt) \<times> json \<times> coordinator" where
  "acquireOnce now stored c =
     (case validateState stored of
        Inl e \<Rightarrow> (Inl e, stored, c)
      | Inr current \<Rightarrow>
          (case acquire_change now c current of (state, a, c') \<Rightarrow>
             (case validateState (state_json state) of
                Inl e \<Rightarrow> (Inl e, stored, c')
              | Inr _ \<Rightarrow> (Inr a, state_json state, c'))))"

section \<open>Validation\<close>

definition max_safe :: nat where "max_safe = 2 ^ 53 - 1"

definition lease_wf :: "nat \<Rightarrow> lease \<Rightarrow> bool" where
  "lease_wf fencing l \<longleftrightarrow> 8 \<le> length (l_holder l) \<and> l_token l = fencing \<and> l_expires l \<le> max_safe"

definition queue_wf :: "queue_state \<Rightarrow> bool" where
  "queue_wf s \<longleftrightarrow> q_requested s \<le> max_safe \<and> q_fencing s \<le> max_safe \<and> q_completed s \<le> q_requested s \<and>
     (case q_lease s of None \<Rightarrow> True | Some l \<Rightarrow> lease_wf (q_fencing s) l)"

lemma check_Inr [simp]: "check r f = Inr b \<longleftrightarrow> (\<exists>a. r = Inr a \<and> f a = Inr b)"
  by (cases r) (auto simp: check_def)

lemma assertInteger_Inr [simp]: "assertInteger v label = Inr n \<longleftrightarrow> v = JNum (int n) \<and> n \<le> max_safe"
  using safe_nat_Some [of v n] by (auto simp: assertInteger_def max_safe_def split: option.splits)

lemma validateLease_json: "validateLease (lease_json l) ft = Inr l' \<longleftrightarrow> l' = l \<and> lease_wf ft l \<and> ft \<le> max_safe"
  by (cases l) (auto simp: validateLease_def lease_json_def same_keys_def js_field_def lease_wf_def split: if_splits)

lemma validateLease_wf: "validateLease v ft = Inr l \<Longrightarrow> lease_wf ft l"
  by (auto simp: validateLease_def lease_wf_def split: json.splits if_splits)

lemma validateState_wf:
  assumes "validateState v = Inr s"
  shows "queue_wf s"
proof (cases v)
  case (JObj ps)
  with assms show ?thesis
    by (auto simp: validateState_def queue_wf_def Let_def split: if_splits dest: validateLease_wf)
qed (use assms in \<open>auto simp: validateState_def queue_wf_def createInitialState_def\<close>)

lemma validateState_json: "validateState (state_json s) = Inr s' \<longleftrightarrow> queue_wf s \<and> s' = s"
proof (cases "q_lease s")
  case None
  then show ?thesis
    by (cases s) (auto simp: validateState_def state_json_def same_keys_def js_field_def queue_wf_def Let_def
        split: if_splits)
next
  case (Some l)
  have n: "lease_json l \<noteq> JUndef" by (simp add: lease_json_def)
  from Some show ?thesis
    by (cases s) (auto simp: validateState_def state_json_def same_keys_def js_field_def queue_wf_def Let_def n
        validateLease_json lease_wf_def split: if_splits)
qed

text \<open>What an update does, in terms of states.\<close>

lemma updateState_Inr:
  assumes "updateState change stored = (Inr r, stored')"
  obtains s s' where "validateState stored = Inr s" "change s = (s', r)" "queue_wf s'" "stored' = state_json s'"
    "validateState stored' = Inr s'"
proof -
  from assms obtain s s' where s: "validateState stored = Inr s" "change s = (s', r)"
    and v: "\<exists>x. validateState (state_json s') = Inr x" "stored' = state_json s'"
    by (auto simp: updateState_def split: sum.splits prod.splits)
  from v(1) have "queue_wf s'" by (auto simp: validateState_json)
  with that s v(2) show thesis by (simp add: validateState_json)
qed

lemma updateState_Inl: "updateState change stored = (Inl e, stored') \<Longrightarrow> stored' = stored"
  by (auto simp: updateState_def split: sum.splits prod.splits)

section \<open>Runtimes sharing the queue\<close>

text \<open>
  The history of the queue, newest event first. It is what the theorems speak about; the code keeps
  only the durable value and each runtime's coordinator.
\<close>

datatype event =
  Requested nat
| Granted string nat nat    \<comment> \<open>holder, fencing token, target\<close>
| Completed string nat nat

record system =
  sy_stored :: json
  sy_coords :: "nat \<Rightarrow> coordinator"
  sy_log :: "event list"

text \<open>
  One atomic step of any runtime at any time: the clock value \<open>now\<close> is read before the update and
  may be stale. A runtime completes only a lease it was granted, as \<open>drain\<close> does.
\<close>

inductive lease_step :: "system \<Rightarrow> system \<Rightarrow> bool" where
  request: "updateState requestGeneration (sy_stored s) = (Inr g, st') \<Longrightarrow>
    lease_step s (s\<lparr>sy_stored := st', sy_log := Requested g # sy_log s\<rparr>)"
| acquire: "acquireOnce now (sy_stored s) (sy_coords s i) = (Inr (Acquired tok ex target), st', c') \<Longrightarrow>
    lease_step s (s\<lparr>sy_stored := st', sy_coords := (sy_coords s)(i := c'),
      sy_log := Granted (co_holder (sy_coords s i)) tok target # sy_log s\<rparr>)"
| wait: "acquireOnce now (sy_stored s) (sy_coords s i) = (Inr a, st', c') \<Longrightarrow> (\<forall>tok ex t. a \<noteq> Acquired tok ex t) \<Longrightarrow>
    lease_step s (s\<lparr>sy_stored := st', sy_coords := (sy_coords s)(i := c')\<rparr>)"
| renew: "updateState (renew_change (co_holder (sy_coords s i)) ttl tok now) (sy_stored s) = (Inr b, st') \<Longrightarrow>
    lease_step s (s\<lparr>sy_stored := st'\<rparr>)"
| release: "updateState (release_change (co_holder (sy_coords s i)) tok) (sy_stored s) = (Inr u, st') \<Longrightarrow>
    lease_step s (s\<lparr>sy_stored := st'\<rparr>)"
| complete: "Granted (co_holder (sy_coords s i)) tok target \<in> set (sy_log s) \<Longrightarrow>
    updateState (complete_change (co_holder (sy_coords s i)) target tok now) (sy_stored s) = (Inr b, st') \<Longrightarrow>
    lease_step s (s\<lparr>sy_stored := st',
      sy_log := (if b then [Completed (co_holder (sy_coords s i)) tok target] else []) @ sy_log s\<rparr>)"

inductive_cases lease_stepE: "lease_step s s'"

definition lease_start :: "system \<Rightarrow> bool" where
  "lease_start s \<longleftrightarrow> sy_stored s = JUndef \<and> sy_log s = []"

subsection \<open>What a history says\<close>

fun requests :: "event list \<Rightarrow> nat" where
  "requests [] = 0"
| "requests (Requested g # l) = Suc (requests l)"
| "requests (_ # l) = requests l"

fun grants :: "event list \<Rightarrow> (string \<times> nat \<times> nat) list" where
  "grants [] = []"
| "grants (Granted h tok t # l) = (h, tok, t) # grants l"
| "grants (_ # l) = grants l"

fun completed_tokens :: "event list \<Rightarrow> nat list" where
  "completed_tokens [] = []"
| "completed_tokens (Completed h tok t # l) = tok # completed_tokens l"
| "completed_tokens (_ # l) = completed_tokens l"

fun covered :: "event list \<Rightarrow> nat" where
  "covered [] = 0"
| "covered (Completed h tok t # l) = max (covered l) t"
| "covered (_ # l) = covered l"

text \<open>
  A correct history: requests are numbered in order, a grant has the next fencing token and covers
  the requests so far, of which some are not complete, and a completion is that of the latest grant,
  which has not completed before.
\<close>

fun log_ok :: "event list \<Rightarrow> bool" where
  "log_ok [] \<longleftrightarrow> True"
| "log_ok (Requested g # l) \<longleftrightarrow> log_ok l \<and> g = Suc (requests l)"
| "log_ok (Granted h tok t # l) \<longleftrightarrow> log_ok l \<and> tok = Suc (length (grants l)) \<and> t = requests l \<and> covered l < t"
| "log_ok (Completed h tok t # l) \<longleftrightarrow> log_ok l \<and> grants l \<noteq> [] \<and> hd (grants l) = (h, tok, t) \<and> tok \<notin> set (completed_tokens l)"

definition abstracts :: "queue_state \<Rightarrow> event list \<Rightarrow> bool" where
  "abstracts q l \<longleftrightarrow> q_requested q = requests l \<and> q_fencing q = length (grants l) \<and> q_completed q = covered l \<and>
     (case q_lease q of None \<Rightarrow> True
      | Some x \<Rightarrow> grants l \<noteq> [] \<and> fst (hd (grants l)) = l_holder x \<and> fst (snd (hd (grants l))) = l_token x \<and>
                  l_token x \<notin> set (completed_tokens l))"

definition system_ok :: "system \<Rightarrow> bool" where
  "system_ok s \<longleftrightarrow> log_ok (sy_log s) \<and> (\<exists>q. validateState (sy_stored s) = Inr q \<and> abstracts q (sy_log s))"

lemma grants_tokens:
  "log_ok l \<Longrightarrow> (h, tok, t) \<in> set (grants l) \<Longrightarrow> tok \<le> length (grants l)"
  by (induction l rule: log_ok.induct) auto

lemma grants_unique:
  "log_ok l \<Longrightarrow> (h, tok, t) \<in> set (grants l) \<Longrightarrow> (h', tok, t') \<in> set (grants l) \<Longrightarrow> h' = h \<and> t' = t"
  by (induction l rule: log_ok.induct) (auto dest: grants_tokens)

lemma completed_granted:
  "log_ok l \<Longrightarrow> tok \<in> set (completed_tokens l) \<Longrightarrow> tok \<le> length (grants l)"
proof (induction l rule: log_ok.induct)
  case (4 h k t l)
  then have "(h, k, t) \<in> set (grants l)" by (metis hd_in_set log_ok.simps(4))
  with 4 grants_tokens [of l h k t] show ?case by auto
qed auto

lemma Granted_iff: "Granted h tok t \<in> set l \<longleftrightarrow> (h, tok, t) \<in> set (grants l)"
  by (induction l rule: grants.induct) auto

subsection \<open>Each step keeps the history correct\<close>

lemma abstracts_request:
  "abstracts q l \<Longrightarrow> requestGeneration q = (q', g) \<Longrightarrow> abstracts q' (Requested g # l) \<and> g = Suc (requests l)"
  by (auto simp: abstracts_def requestGeneration_def split: option.splits)

lemma mustWaitFor_coord: "mustWaitFor l now c = (b, c') \<Longrightarrow> co_holder c' = co_holder c \<and> co_ttl c' = co_ttl c"
  by (auto simp: mustWaitFor_def Let_def split: if_splits)

lemma acquire_cases:
  assumes "acquire_change now c q = (q', a, c')"
  obtains (complete) "q' = q" "a = Complete" "q_completed q \<ge> q_requested q"
    | (wait) w where "q' = q" "a = Wait w"
    | (granted) ex where "a = Acquired (q_fencing q + 1) ex (q_requested q)" "q_completed q < q_requested q"
        "q' = q\<lparr>q_fencing := q_fencing q + 1,
          q_lease := Some \<lparr>l_holder = co_holder c, l_token = q_fencing q + 1, l_expires = ex\<rparr>\<rparr>"
proof (cases "q_completed q \<ge> q_requested q")
  case True
  with assms show ?thesis by (intro complete) (auto simp: acquire_change_def)
next
  case False
  obtain w c1 where w: "(case q_lease q of None \<Rightarrow> (False, c) | Some l \<Rightarrow> mustWaitFor l now c) = (w, c1)"
    by (cases "case q_lease q of None \<Rightarrow> (False, c) | Some l \<Rightarrow> mustWaitFor l now c") simp
  then have h: "co_holder c1 = co_holder c"
    by (cases "q_lease q") (auto dest: mustWaitFor_coord)
  show ?thesis
  proof (cases w)
    case True
    with assms False w show ?thesis by (intro wait) (auto simp: acquire_change_def)
  next
    case nw: False
    with assms False w h show ?thesis by (intro granted) (auto simp: acquire_change_def Let_def)
  qed
qed

lemma abstracts_granted:
  assumes "log_ok l" and "abstracts q l" and "q_completed q < q_requested q"
    and "q' = q\<lparr>q_fencing := q_fencing q + 1, q_lease := Some \<lparr>l_holder = h, l_token = q_fencing q + 1, l_expires = ex\<rparr>\<rparr>"
  shows "abstracts q' (Granted h (q_fencing q + 1) (q_requested q) # l) \<and>
    log_ok (Granted h (q_fencing q + 1) (q_requested q) # l)"
proof -
  have "Suc (length (grants l)) \<notin> set (completed_tokens l)"
    using completed_granted [OF assms(1)] by fastforce
  with assms show ?thesis by (auto simp: abstracts_def)
qed

lemma abstracts_renew: "abstracts q l \<Longrightarrow> renew_change h ttl tok now q = (q', b) \<Longrightarrow> abstracts q' l"
  by (auto simp: abstracts_def renew_change_def split: if_splits option.splits)

lemma abstracts_release: "abstracts q l \<Longrightarrow> release_change h tok q = (q', u) \<Longrightarrow> abstracts q' l"
  by (auto simp: abstracts_def release_change_def split: if_splits option.splits)

lemma abstracts_complete:
  assumes "log_ok l" and "abstracts q l" and "(h, tok, t) \<in> set (grants l)"
    and "complete_change h t tok now q = (q', b)"
  shows "let l' = (if b then [Completed h tok t] else []) @ l in abstracts q' l' \<and> log_ok l'"
proof (cases "lease_valid h tok now q")
  case True
  then obtain x where x: "q_lease q = Some x" "l_holder x = h" "l_token x = tok"
    by (auto simp: lease_valid_def split: option.splits)
  with assms(2) have g: "grants l \<noteq> []" "fst (hd (grants l)) = h" "fst (snd (hd (grants l))) = tok"
      "tok \<notin> set (completed_tokens l)"
    by (auto simp: abstracts_def)
  have "hd (grants l) \<in> set (grants l)" using g(1) by simp
  then have "(h, tok, snd (snd (hd (grants l)))) \<in> set (grants l)" using g(2,3) by (metis prod.collapse)
  with assms(1,3) have "snd (snd (hd (grants l))) = t" using grants_unique by blast
  with g have "hd (grants l) = (h, tok, t)" by (metis prod.collapse)
  with True assms x g show ?thesis by (auto simp: complete_change_def abstracts_def Let_def)
next
  case False
  with assms show ?thesis by (simp add: complete_change_def)
qed

lemma acquireOnce_Inr:
  assumes "acquireOnce now stored c = (Inr a, st', c')"
  obtains q q' where "validateState stored = Inr q" "acquire_change now c q = (q', a, c')" "validateState st' = Inr q'"
proof -
  from assms obtain q q' where q: "validateState stored = Inr q" "acquire_change now c q = (q', a, c')"
    and v: "\<exists>x. validateState (state_json q') = Inr x" "st' = state_json q'"
    by (auto simp: acquireOnce_def split: sum.splits prod.splits)
  with that show thesis by (auto simp: validateState_json)
qed

lemma system_okI:
  "log_ok l \<Longrightarrow> abstracts q l \<Longrightarrow> validateState st = Inr q \<Longrightarrow> sy_log s = l \<Longrightarrow> sy_stored s = st \<Longrightarrow> system_ok s"
  by (auto simp: system_ok_def)

lemma lease_step_ok:
  assumes "system_ok s" and "lease_step s s'"
  shows "system_ok s'"
proof -
  obtain q where lg: "log_ok (sy_log s)" and q: "validateState (sy_stored s) = Inr q" and ab: "abstracts q (sy_log s)"
    using assms(1) by (auto simp: system_ok_def)
  from assms(2) show ?thesis
  proof (cases rule: lease_step.cases)
    case (request g st')
    from request(2) obtain q' where "requestGeneration q = (q', g)" and v: "validateState st' = Inr q'"
      by (rule updateState_Inr) (use q in auto)
    from abstracts_request [OF ab this(1)] lg v show ?thesis
      by (intro system_okI [of "Requested g # sy_log s" q' st']) (auto simp: request(1))
  next
    case (acquire "now" i tok ex target st' c')
    from acquire(2) obtain q' where a: "acquire_change now (sy_coords s i) q = (q', Acquired tok ex target, c')"
      and v: "validateState st' = Inr q'"
      by (rule acquireOnce_Inr) (use q in auto)
    let ?h = "co_holder (sy_coords s i)"
    from a have lt: "q_completed q < q_requested q" and t: "tok = q_fencing q + 1" "target = q_requested q"
      and q': "q' = q\<lparr>q_fencing := q_fencing q + 1, q_lease := Some \<lparr>l_holder = ?h, l_token = q_fencing q + 1, l_expires = ex\<rparr>\<rparr>"
      by (auto elim!: acquire_cases)
    note new = abstracts_granted [OF lg ab lt q']
    show ?thesis
      unfolding acquire(1) t by (rule system_okI [OF conjunct2 [OF new] conjunct1 [OF new] v]) simp_all
  next
    case (wait "now" i a st' c')
    from wait(2) obtain q' where a: "acquire_change now (sy_coords s i) q = (q', a, c')"
      and v: "validateState st' = Inr q'"
      by (rule acquireOnce_Inr) (use q in auto)
    from a have "q' = q" using wait(3) by (auto elim!: acquire_cases)
    with lg ab v show ?thesis by (intro system_okI [of "sy_log s" q st']) (simp_all add: wait(1))
  next
    case (renew i ttl tok "now" b st')
    from renew(2) obtain q' where "renew_change (co_holder (sy_coords s i)) ttl tok now q = (q', b)"
      and v: "validateState st' = Inr q'"
      by (rule updateState_Inr) (use q in auto)
    from abstracts_renew [OF ab this(1)] lg v show ?thesis
      by (intro system_okI [of "sy_log s" q' st']) (simp_all add: renew(1))
  next
    case (release i tok u st')
    from release(2) obtain q' where "release_change (co_holder (sy_coords s i)) tok q = (q', u)"
      and v: "validateState st' = Inr q'"
      by (rule updateState_Inr) (use q in auto)
    from abstracts_release [OF ab this(1)] lg v show ?thesis
      by (intro system_okI [of "sy_log s" q' st']) (simp_all add: release(1))
  next
    case (complete i tok target "now" b st')
    from complete(3) obtain q' where c: "complete_change (co_holder (sy_coords s i)) target tok now q = (q', b)"
      and v: "validateState st' = Inr q'"
      by (rule updateState_Inr) (use q in auto)
    have "(co_holder (sy_coords s i), tok, target) \<in> set (grants (sy_log s))"
      using complete(2) by (simp add: Granted_iff)
    from abstracts_complete [OF lg ab this c] v show ?thesis
      unfolding Let_def complete(1) by (auto intro: system_okI)
  qed
qed

lemma lease_start_ok: "lease_start s \<Longrightarrow> system_ok s"
  by (auto simp: lease_start_def system_ok_def validateState_def createInitialState_def abstracts_def)

interpretation lease: transition_invariant lease_step lease_start system_ok
  by unfold_locales (auto intro: lease_start_ok lease_step_ok)

lemma log_ok_target: "log_ok (xs @ Granted h tok t # older) \<Longrightarrow> t = requests older"
  by (induction xs rule: log_ok.induct) auto

lemma covered_history:
  assumes "log_ok l" and "1 \<le> g" and "g \<le> covered l"
  shows "\<exists>h tok t newer between older. l = newer @ Completed h tok t # between @ Granted h tok t # older \<and>
    g \<le> t \<and> t = requests older"
  using assms(1,3)
proof (induction l rule: log_ok.induct)
  case 1
  then show ?case using assms(2) by simp
next
  case (2 r l)
  then obtain h tok t newer between older where "l = newer @ Completed h tok t # between @ Granted h tok t # older"
      "g \<le> t" "t = requests older" by auto
  moreover from this(1) have "Requested r # l = (Requested r # newer) @ Completed h tok t # between @ Granted h tok t # older" by simp
  ultimately show ?case by blast
next
  case (3 h' tok' t' l)
  then obtain h tok t newer between older where "l = newer @ Completed h tok t # between @ Granted h tok t # older"
      "g \<le> t" "t = requests older" by auto
  moreover from this(1) have "Granted h' tok' t' # l = (Granted h' tok' t' # newer) @ Completed h tok t # between @ Granted h tok t # older" by simp
  ultimately show ?case by blast
next
  case (4 h' tok' t' l)
  show ?case
  proof (cases "g \<le> covered l")
    case True
    with 4 obtain h tok t newer between older where "l = newer @ Completed h tok t # between @ Granted h tok t # older"
        "g \<le> t" "t = requests older" by auto
    moreover from this(1) have "Completed h' tok' t' # l = (Completed h' tok' t' # newer) @
        Completed h tok t # between @ Granted h tok t # older" by simp
    ultimately show ?thesis by blast
  next
    case False
    then have g: "g \<le> t'" using 4(3) by auto
    have "(h', tok', t') \<in> set (grants l)" using 4(2) by (metis hd_in_set log_ok.simps(4))
    then have "Granted h' tok' t' \<in> set l" by (simp add: Granted_iff)
    then obtain between older where l: "l = between @ Granted h' tok' t' # older" by (meson split_list)
    have "t' = requests older" using 4(2) l log_ok_target by (metis log_ok.simps(4))
    moreover have "Completed h' tok' t' # l = [] @ Completed h' tok' t' # between @ Granted h' tok' t' # older"
      using l by simp
    ultimately show ?thesis using g by blast
  qed
qed

lemma requested_in: "log_ok l \<Longrightarrow> 1 \<le> g \<Longrightarrow> g \<le> requests l \<Longrightarrow> Requested g \<in> set l"
  by (induction l rule: log_ok.induct) (auto simp: le_Suc_eq)

section \<open>The drain of one runtime\<close>

text \<open>
  What a drain awaits is the environment: \<open>others\<close> lets the other runtimes change the stored value,
  \<open>tick\<close> reads the clock after that, \<open>pause\<close> waits, \<open>task\<close> runs a replication cycle during which the
  renewal timer fired the given number of times, and \<open>join\<close> tells whether a drain of an earlier caller
  is running when \<open>run\<close> looks, and how it ends. \<open>'x\<close> is the state of all of them.
\<close>

record 'x world =
  w_stored :: json
  w_coord :: coordinator
  w_env :: 'x

datatype task_result = Returned bool | Threw

datatype drain_error = TaskError | StoreError queue_error

type_synonym drain_result = "drain_error + bool"

record 'x env_ops =
  others :: "'x world \<Rightarrow> 'x world"
  tick :: "'x world \<Rightarrow> nat \<times> 'x world"
  pause :: "nat \<Rightarrow> 'x world \<Rightarrow> 'x world"
  task :: "'x world \<Rightarrow> nat \<times> task_result \<times> 'x world"
  join :: "'x world \<Rightarrow> (drain_result \<times> 'x world) option"

definition w_update :: "(queue_state \<Rightarrow> queue_state \<times> 'r) \<Rightarrow> 'x world \<Rightarrow> (queue_error + 'r) \<times> 'x world" where
  "w_update change w = (case updateState change (w_stored w) of (r, st) \<Rightarrow> (r, w\<lparr>w_stored := st\<rparr>))"

partial_function (option) acquireLease :: "'x env_ops \<Rightarrow> 'x world \<Rightarrow>
    ((queue_error + (nat \<times> nat \<times> nat) option) \<times> 'x world) option" where
  "acquireLease ops w =
     (case tick ops w of (now, w1) \<Rightarrow>
        (case acquireOnce now (w_stored w1) (w_coord w1) of (r, st, c) \<Rightarrow>
           (let w2 = w1\<lparr>w_stored := st, w_coord := c\<rparr>
            in case r of
                 Inl e \<Rightarrow> Some (Inl e, w2)
               | Inr Complete \<Rightarrow> Some (Inr None, w2)
               | Inr (Wait ms) \<Rightarrow> acquireLease ops (pause ops (max 1 (min ms (co_ttl c))) w2)
               | Inr (Acquired tok ex target) \<Rightarrow> Some (Inr (Some (tok, ex, target)), w2))))"

definition renewLease :: "'x env_ops \<Rightarrow> nat \<Rightarrow> 'x world \<Rightarrow> (queue_error + bool) \<times> 'x world" where
  "renewLease ops tok w =
     (case tick ops w of (now, w1) \<Rightarrow> w_update (renew_change (co_holder (w_coord w1)) (co_ttl (w_coord w1)) tok now) w1)"

definition releaseLease :: "'x env_ops \<Rightarrow> nat \<Rightarrow> 'x world \<Rightarrow> (queue_error + unit) \<times> 'x world" where
  "releaseLease ops tok w = (let w1 = others ops w in w_update (release_change (co_holder (w_coord w1)) tok) w1)"

definition completeGeneration :: "'x env_ops \<Rightarrow> nat \<Rightarrow> nat \<Rightarrow> 'x world \<Rightarrow> (queue_error + bool) \<times> 'x world" where
  "completeGeneration ops target tok w =
     (case tick ops w of (now, w1) \<Rightarrow> w_update (complete_change (co_holder (w_coord w1)) target tok now) w1)"

text \<open>The chain of renewals: the first that fails makes the lease invalid and the later ones are skipped.\<close>

fun renewals :: "'x env_ops \<Rightarrow> nat \<Rightarrow> nat \<Rightarrow> bool \<Rightarrow> 'x world \<Rightarrow> bool \<times> 'x world" where
  "renewals ops tok 0 leaseValid w = (leaseValid, w)"
| "renewals ops tok (Suc n) leaseValid w =
     (if \<not> leaseValid then renewals ops tok n False w
      else (case renewLease ops tok w of
              (Inl e, w1) \<Rightarrow> renewals ops tok n False w1
            | (Inr b, w1) \<Rightarrow> renewals ops tok n b w1))"

text \<open>\<open>Inl ()\<close>: the task threw.\<close>

definition runLeasedTask :: "'x env_ops \<Rightarrow> nat \<Rightarrow> 'x world \<Rightarrow> (unit + bool) \<times> 'x world" where
  "runLeasedTask ops tok w =
     (case task ops w of (n, outcome, w1) \<Rightarrow>
        (case renewals ops tok n True w1 of (leaseValid, w2) \<Rightarrow>
           (case outcome of Threw \<Rightarrow> (Inl (), w2) | Returned b \<Rightarrow> (Inr (b \<and> leaseValid), w2))))"

definition set_failed :: "nat \<Rightarrow> 'x world \<Rightarrow> 'x world" where
  "set_failed target w = w\<lparr>w_coord := (w_coord w)\<lparr>co_lastFailed := target\<rparr>\<rparr>"

partial_function (option) drain :: "'x env_ops \<Rightarrow> 'x world \<Rightarrow> (drain_result \<times> 'x world) option" where
  "drain ops w =
     (case acquireLease ops w of
        None \<Rightarrow> None
      | Some (Inl e, w1) \<Rightarrow> Some (Inl (StoreError e), w1)
      | Some (Inr None, w1) \<Rightarrow> Some (Inr True, w1)
      | Some (Inr (Some (tok, ex, target)), w1) \<Rightarrow>
          (case runLeasedTask ops tok w1 of
             (Inl _, w2) \<Rightarrow> Some (Inl TaskError, snd (releaseLease ops tok (set_failed target w2)))
           | (Inr succeeded, w2) \<Rightarrow>
               if \<not> succeeded then
                 (case releaseLease ops tok (set_failed target w2) of
                    (Inl e, w3) \<Rightarrow> Some (Inl (StoreError e), w3)
                  | (Inr _, w3) \<Rightarrow> Some (Inr False, w3))
               else
                 (case completeGeneration ops target tok w2 of
                    (Inl e, w3) \<Rightarrow> Some (Inl (StoreError e), w3)
                  | (Inr completed, w3) \<Rightarrow> if \<not> completed then Some (Inr False, w3) else drain ops w3)))"

partial_function (option) run :: "'x env_ops \<Rightarrow> nat option \<Rightarrow> bool \<Rightarrow> 'x world \<Rightarrow> (drain_result \<times> 'x world) option" where
  "run ops ownGeneration joinedFailedDrain w =
     (case (case join ops w of
              None \<Rightarrow> map_option (\<lambda>(r, w'). (True, r, w')) (drain ops w)
            | Some (r, w') \<Rightarrow> Some (False, r, w')) of
        None \<Rightarrow> None
      | Some (startedHere, r, w1) \<Rightarrow>
          (if startedHere \<and> (case r of Inl _ \<Rightarrow> True | Inr _ \<Rightarrow> False) then Some (r, w1)
           else if (case r of Inl _ \<Rightarrow> True | Inr drained \<Rightarrow> \<not> drained) then
             (let attemptedBefore = (case ownGeneration of None \<Rightarrow> True | Some g \<Rightarrow> g \<le> co_lastFailed (w_coord w1))
              in if startedHere \<or> joinedFailedDrain \<or> attemptedBefore then Some (Inr False, w1)
                 else run ops ownGeneration True w1)
           else
             (let w2 = others ops w1
              in case readState (w_stored w2) of
                   Inl e \<Rightarrow> Some (Inl (StoreError e), w2)
                 | Inr q \<Rightarrow> if q_completed q \<ge> q_requested q then Some (Inr True, w2)
                           else run ops ownGeneration joinedFailedDrain w2)))"

definition enqueue :: "'x env_ops \<Rightarrow> 'x world \<Rightarrow> (drain_result \<times> 'x world) option" where
  "enqueue ops w =
     (case w_update requestGeneration (others ops w) of
        (Inl e, w1) \<Rightarrow> Some (Inl (StoreError e), w1)
      | (Inr g, w1) \<Rightarrow>
          (case run ops (Some g) False w1 of
             None \<Rightarrow> None
           | Some (Inl e, w2) \<Rightarrow> Some (Inl e, w2)
           | Some (Inr succeeded, w2) \<Rightarrow>
               if \<not> succeeded then Some (Inr False, w2)
               else
                 (let w3 = others ops w2
                  in case readState (w_stored w3) of
                       Inl e \<Rightarrow> Some (Inl (StoreError e), w3)
                     | Inr q \<Rightarrow> Some (Inr (q_completed q \<ge> g), w3))))"

definition resumePending :: "'x env_ops \<Rightarrow> 'x world \<Rightarrow> (drain_result \<times> 'x world) option" where
  "resumePending ops w =
     (let w1 = others ops w
      in case readState (w_stored w1) of
           Inl e \<Rightarrow> Some (Inl (StoreError e), w1)
         | Inr q \<Rightarrow> if q_completed q \<ge> q_requested q then Some (Inr True, w1) else run ops None False w1)"

definition all_done :: "'x world \<Rightarrow> bool" where
  "all_done w \<longleftrightarrow> (\<exists>q. validateState (w_stored w) = Inr q \<and> q_requested q \<le> q_completed q)"

lemma acquireOnce_complete:
  assumes "acquireOnce now stored c = (Inr Complete, st, c')"
  shows "\<exists>q. validateState st = Inr q \<and> q_requested q \<le> q_completed q"
  using assms by (auto elim!: acquireOnce_Inr acquire_cases)

lemma acquireLease_None:
  assumes "acquireLease ops w = Some rw"
  shows "fst rw = Inr None \<longrightarrow> all_done (snd rw)"
  by (rule acquireLease.raw_induct [where P = "\<lambda>ops w rw. fst rw = Inr None \<longrightarrow> all_done (snd rw)", OF _ assms])
     (auto simp: Let_def all_done_def split: prod.splits sum.splits attempt.splits dest!: acquireOnce_complete)

lemma drain_True:
  assumes "drain ops w = Some rw"
  shows "fst rw = Inr True \<longrightarrow> all_done (snd rw)"
  by (rule drain.raw_induct [where P = "\<lambda>ops w rw. fst rw = Inr True \<longrightarrow> all_done (snd rw)", OF _ assms])
     (auto split: prod.splits sum.splits option.splits if_splits dest!: acquireLease_None)

section \<open>Properties\<close>

text \<open>
  \<open>validateState\<close> accepts exactly the well-formed queue states (ordered generations, safe
  integers, a lease that carries the current fencing token), and every one of them reads back from
  the value that is stored for it.
\<close>

theorem queue_state_roundtrip:
  "((\<exists>v. validateState v = Inr s) \<longleftrightarrow> queue_wf s) \<and> (validateState (state_json s) = Inr s \<longleftrightarrow> queue_wf s)"
  using validateState_wf validateState_json by blast

text \<open>
  C1. However the runtimes interleave, with stale clocks and expired leases, the history of the queue
  is correct: requests are numbered one by one, fencing tokens are granted strictly in order and
  only while a request is open, and a cycle completes only under the most recently granted token and
  once for each token. The durable value is the abstraction of that history.
\<close>

theorem lease_history_ok:
  assumes "lease_start s\<^sub>0" and "lease_step\<^sup>*\<^sup>* s\<^sub>0 s"
  shows "log_ok (sy_log s) \<and> (\<exists>q. validateState (sy_stored s) = Inr q \<and> abstracts q (sy_log s))"
  using lease.reachable_inv [OF assms] by (simp add: system_ok_def)

text \<open>
  C2. No request is lost: when the durable state says that generation \<open>g\<close> is complete, some cycle
  completed whose lease was granted after request \<open>g\<close> was made, so the cycle began after it.
\<close>

theorem completed_request_covered:
  assumes "lease_start s\<^sub>0" and "lease_step\<^sup>*\<^sup>* s\<^sub>0 s" and "validateState (sy_stored s) = Inr q"
    and "1 \<le> g" and "g \<le> q_completed q"
  shows "\<exists>h tok t newer between older. sy_log s = newer @ Completed h tok t # between @ Granted h tok t # older \<and>
    Requested g \<in> set older \<and> g \<le> t"
proof -
  have ok: "log_ok (sy_log s)" "abstracts q (sy_log s)"
    using lease.reachable_inv [OF assms(1,2)] assms(3) by (auto simp: system_ok_def)
  then have "g \<le> covered (sy_log s)" using assms(5) by (simp add: abstracts_def)
  from covered_history [OF ok(1) assms(4) this] obtain h tok t newer between older
    where l: "sy_log s = newer @ Completed h tok t # between @ Granted h tok t # older" "g \<le> t" "t = requests older" by blast
  have "log_ok (xs @ Completed h tok t # ys @ Granted h tok t # older) \<Longrightarrow> log_ok older" for xs ys
  proof (induction xs rule: log_ok.induct)
    case 1
    have "log_ok (ys @ Granted h tok t # older) \<Longrightarrow> log_ok older"
      by (induction ys rule: log_ok.induct) auto
    with 1 show ?case by simp
  qed auto
  then have "log_ok older" using ok(1) l(1) by metis
  from requested_in [OF this assms(4)] l show ?thesis by blast
qed

text \<open>
  \<open>enqueue\<close> returns \<open>true\<close> only when the durable state says that the generation it requested is
  complete, whatever the task, the clock, other runtimes and other drains do meanwhile.
\<close>

theorem enqueue_true_completed:
  assumes "enqueue ops w = Some (Inr True, w')"
  shows "\<exists>g w1 q. w_update requestGeneration (others ops w) = (Inr g, w1) \<and>
    validateState (w_stored w') = Inr q \<and> g \<le> q_completed q"
proof -
  obtain r w1 where u: "w_update requestGeneration (others ops w) = (r, w1)"
    by (cases "w_update requestGeneration (others ops w)")
  with assms show ?thesis
    by (auto simp: enqueue_def Let_def readState_def split: sum.splits option.splits prod.splits if_splits)
qed

text \<open>
  A drain that reports success leaves no open request: the durable state it ends in says that
  every requested generation is complete.
\<close>

theorem drain_true_all_done:
  assumes "drain ops w = Some (Inr True, w')"
  shows "\<exists>q. validateState (w_stored w') = Inr q \<and> q_requested q = q_completed q"
proof -
  obtain q where q: "validateState (w_stored w') = Inr q" "q_requested q \<le> q_completed q"
    using drain_True [OF assms] by (auto simp: all_done_def)
  with validateState_wf [OF q(1)] show ?thesis by (auto simp: queue_wf_def)
qed

subsection \<open>A concrete run\<close>

definition runtime_a :: coordinator where
  "runtime_a = \<lparr>co_holder = ''runtime-a'', co_ttl = 45000, co_takeOver = False, co_looked = False, co_earlier = None,
     co_lastFailed = 0\<rparr>"

definition run0 :: system where
  "run0 = \<lparr>sy_stored = JUndef, sy_coords = (\<lambda>_. runtime_a), sy_log = []\<rparr>"

definition run_q1 :: queue_state where
  "run_q1 = \<lparr>q_requested = 1, q_completed = 0, q_fencing = 0, q_lease = None\<rparr>"

definition run_q2 :: queue_state where
  "run_q2 = \<lparr>q_requested = 1, q_completed = 0, q_fencing = 1,
     q_lease = Some \<lparr>l_holder = ''runtime-a'', l_token = 1, l_expires = 45007\<rparr>\<rparr>"

definition run_q3 :: queue_state where
  "run_q3 = \<lparr>q_requested = 1, q_completed = 1, q_fencing = 1, q_lease = None\<rparr>"

definition run3 :: system where
  "run3 = \<lparr>sy_stored = state_json run_q3, sy_coords = (\<lambda>_. runtime_a)(0 := runtime_a\<lparr>co_looked := True\<rparr>),
     sy_log = [Completed ''runtime-a'' 1 1, Granted ''runtime-a'' 1 1, Requested 1]\<rparr>"

lemma updateStateI:
  "validateState st = Inr q \<Longrightarrow> change q = (q', r) \<Longrightarrow> queue_wf q' \<Longrightarrow> updateState change st = (Inr r, state_json q')"
  using validateState_json [of q' q'] by (simp add: updateState_def)

lemma acquireOnceI:
  "validateState st = Inr q \<Longrightarrow> acquire_change now c q = (q', a, c') \<Longrightarrow> queue_wf q' \<Longrightarrow>
    acquireOnce now st c = (Inr a, state_json q', c')"
  using validateState_json [of q' q'] by (simp add: acquireOnce_def)

lemma run_valid:
  shows "validateState (state_json run_q1) = Inr run_q1" "validateState (state_json run_q2) = Inr run_q2"
  "validateState (state_json run_q3) = Inr run_q3"
    and run_wf: "queue_wf run_q1" "queue_wf run_q2" "queue_wf run_q3"
  by (simp_all add: validateState_json queue_wf_def run_q1_def run_q2_def run_q3_def lease_wf_def max_safe_def)

lemma run_updates:
  shows run_request: "updateState requestGeneration JUndef = (Inr 1, state_json run_q1)"
    and run_acquire: "acquireOnce 7 (state_json run_q1) runtime_a = (Inr (Acquired 1 45007 1), state_json run_q2, runtime_a\<lparr>co_looked := True\<rparr>)"
    and run_complete: "updateState (complete_change ''runtime-a'' 1 1 7) (state_json run_q2) = (Inr True, state_json run_q3)"
    and run_idle: "acquireOnce 7 (state_json run_q3) c = (Inr Complete, state_json run_q3, c)"
proof -
  have q1: "requestGeneration createInitialState = (run_q1, 1)"
    by (simp add: requestGeneration_def createInitialState_def run_q1_def)
  show "updateState requestGeneration JUndef = (Inr 1, state_json run_q1)"
    by (rule updateStateI [where change = requestGeneration, OF _ q1 run_wf(1)]) (simp add: validateState_def)
  have q2: "acquire_change 7 runtime_a run_q1 = (run_q2, Acquired 1 45007 1, runtime_a\<lparr>co_looked := True\<rparr>)"
    by (simp add: acquire_change_def run_q1_def run_q2_def runtime_a_def)
  show "acquireOnce 7 (state_json run_q1) runtime_a = (Inr (Acquired 1 45007 1), state_json run_q2, runtime_a\<lparr>co_looked := True\<rparr>)"
    by (rule acquireOnceI [OF run_valid(1) q2 run_wf(2)])
  have q3: "complete_change ''runtime-a'' 1 1 7 run_q2 = (run_q3, True)"
    by (simp add: complete_change_def lease_valid_def run_q2_def run_q3_def)
  show "updateState (complete_change ''runtime-a'' 1 1 7) (state_json run_q2) = (Inr True, state_json run_q3)"
    by (rule updateStateI [where change = "complete_change ''runtime-a'' 1 1 7", OF run_valid(2) q3 run_wf(3)])
  have q4: "acquire_change 7 c run_q3 = (run_q3, Complete, c)"
    by (simp add: acquire_change_def run_q3_def)
  show "acquireOnce 7 (state_json run_q3) c = (Inr Complete, state_json run_q3, c)"
    by (rule acquireOnceI [OF run_valid(3) q4 run_wf(3)])
qed

lemma run_reaches: "lease_step\<^sup>*\<^sup>* run0 run3"
proof -
  let ?s1 = "run0\<lparr>sy_stored := state_json run_q1, sy_log := Requested 1 # sy_log run0\<rparr>"
  let ?s2 = "?s1\<lparr>sy_stored := state_json run_q2, sy_coords := (sy_coords ?s1)(0 := runtime_a\<lparr>co_looked := True\<rparr>),
      sy_log := Granted (co_holder (sy_coords ?s1 0)) 1 1 # sy_log ?s1\<rparr>"
  have holder: "co_holder (runtime_a\<lparr>co_looked := True\<rparr>) = ''runtime-a''" by (simp add: runtime_a_def)
  have "lease_step run0 ?s1"
    by (rule lease_step.request) (simp only: run0_def system.simps run_request)
  moreover have "lease_step ?s1 ?s2"
    by (rule lease_step.acquire [where now = 7 and ex = 45007]) (simp only: run0_def system.simps run_acquire)
  moreover have "lease_step ?s2 (?s2\<lparr>sy_stored := state_json run_q3,
      sy_log := (if True then [Completed (co_holder (sy_coords ?s2 0)) 1 1] else []) @ sy_log ?s2\<rparr>)"
    by (rule lease_step.complete [where now = 7])
       (simp add: run0_def runtime_a_def, simp only: run0_def system.simps fun_upd_same holder run_complete)
  moreover have "?s2\<lparr>sy_stored := state_json run_q3,
      sy_log := (if True then [Completed (co_holder (sy_coords ?s2 0)) 1 1] else []) @ sy_log ?s2\<rparr> = run3"
    by (simp add: run0_def run3_def runtime_a_def)
  ultimately show ?thesis by (metis (no_types, lifting) rtranclp.rtrancl_into_rtrancl rtranclp.rtrancl_refl)
qed

theorem lease_history_ok_witness:
  "log_ok (sy_log run3) \<and> (\<exists>q. validateState (sy_stored run3) = Inr q \<and> abstracts q (sy_log run3))"
  using lease_history_ok [of run0 run3] run_reaches by (simp add: lease_start_def run0_def)

theorem completed_request_covered_witness:
  "\<exists>h tok t newer between older. sy_log run3 = newer @ Completed h tok t # between @ Granted h tok t # older \<and>
    Requested 1 \<in> set older \<and> 1 \<le> t"
  by (rule completed_request_covered [of run0 run3 run_q3])
     (use run_reaches in \<open>simp_all add: lease_start_def run0_def run3_def run_valid\<close>, simp add: run_q3_def)

definition quiet_ops :: "unit env_ops" where
  "quiet_ops = \<lparr>others = (\<lambda>w. w), tick = (\<lambda>w. (7, w)), pause = (\<lambda>_ w. w), task = (\<lambda>w. (0, Returned True, w)), join = (\<lambda>_. None)\<rparr>"

definition quiet_world :: "unit world" where
  "quiet_world = \<lparr>w_stored = JUndef, w_coord = runtime_a, w_env = ()\<rparr>"

text \<open>A runtime alone: \<open>enqueue\<close> requests, acquires, runs, completes and drains.\<close>

abbreviation quiet :: "queue_state \<Rightarrow> coordinator \<Rightarrow> unit world" where
  "quiet q c \<equiv> \<lparr>w_stored = state_json q, w_coord = c, w_env = ()\<rparr>"

lemma quiet_drain: "drain quiet_ops (quiet run_q1 runtime_a) = Some (Inr True, quiet run_q3 (runtime_a\<lparr>co_looked := True\<rparr>))"
proof -
  let ?c = "runtime_a\<lparr>co_looked := True\<rparr>"
  have ops: "tick quiet_ops w = (7, w)" "others quiet_ops w = w" "task quiet_ops w = (0, Returned True, w)" for w
    by (simp_all add: quiet_ops_def)
  have h: "co_holder ?c = ''runtime-a''" by (simp add: runtime_a_def)
  have a1: "acquireLease quiet_ops (quiet run_q1 runtime_a) = Some (Inr (Some (1, 45007, 1)), quiet run_q2 ?c)"
    by (subst acquireLease.simps) (simp only: ops prod.case world.simps run_acquire Let_def sum.case attempt.case)
  have a2: "acquireLease quiet_ops (quiet run_q3 ?c) = Some (Inr None, quiet run_q3 ?c)"
    by (subst acquireLease.simps) (simp only: ops prod.case world.simps run_idle Let_def sum.case attempt.case)
  have t: "runLeasedTask quiet_ops 1 w = (Inr True, w)" for w
    by (simp add: runLeasedTask_def ops)
  have cg: "completeGeneration quiet_ops 1 1 (quiet run_q2 ?c) = (Inr True, quiet run_q3 ?c)"
    by (simp only: completeGeneration_def ops prod.case world.simps h w_update_def run_complete)
  have d2: "drain quiet_ops (quiet run_q3 ?c) = Some (Inr True, quiet run_q3 ?c)"
    by (subst drain.simps) (simp only: a2 option.case prod.case sum.case)
  show ?thesis
    by (subst drain.simps) (simp only: a1 option.case prod.case sum.case t not_True_eq_False if_False cg d2)
qed

lemma quiet_enqueue: "enqueue quiet_ops quiet_world = Some (Inr True, quiet run_q3 (runtime_a\<lparr>co_looked := True\<rparr>))"
proof -
  let ?w = "quiet run_q3 (runtime_a\<lparr>co_looked := True\<rparr>)"
  have ops: "others quiet_ops w = w" "join quiet_ops w = None" for w by (simp_all add: quiet_ops_def)
  have u: "w_update requestGeneration quiet_world = (Inr 1, quiet run_q1 runtime_a)"
    by (simp only: w_update_def quiet_world_def world.simps run_request prod.case)
  have fin: "q_completed run_q3 \<ge> q_requested run_q3" "q_completed run_q3 = 1" by (simp_all add: run_q3_def)
  have r: "run quiet_ops (Some 1) False (quiet run_q1 runtime_a) = Some (Inr True, ?w)"
    by (subst run.simps) (simp add: ops quiet_drain readState_def run_valid fin(1) Let_def)
  show ?thesis
    by (simp only: enqueue_def ops u prod.case sum.case r option.case not_True_eq_False if_False Let_def world.simps
        readState_def run_valid fin(2) order_refl)
qed

theorem enqueue_true_completed_witness:
  "\<exists>g w1 q. w_update requestGeneration quiet_world = (Inr g, w1) \<and>
    validateState (state_json run_q3) = Inr q \<and> g \<le> q_completed q"
  using enqueue_true_completed [OF quiet_enqueue] by (simp add: quiet_ops_def)

theorem drain_true_all_done_witness:
  "\<exists>q. validateState (state_json run_q3) = Inr q \<and> q_requested q = q_completed q"
  using drain_true_all_done [OF quiet_drain] by simp

end
