(* ===== verification/ChunkDelivery.thy ===== *)
theory ChunkDelivery
  imports ChunkPipeline "HOL-Library.Multiset"
begin

text \<open>
  \<open>src/managers/ChunkDeliveryCoordinator.ts\<close> and the waiters of
  \<open>LayeredChunkManager/ArrivalWaitLayer.ts\<close>. Claims say which chunks are being fetched; a waiter is
  kept as long as its chunk may still be delivered, and is settled with the chunk, or with \<open>false\<close>
  after the activity has ended and the database has been looked at once more.

  Listeners run synchronously, so one call of the code is one operation here. The answers of the
  asynchronous recheck, the stall timers and the finite replication activity are the environment.
\<close>

section \<open>State\<close>

record claim_state =
  cl_pending :: "doc_id list"
  cl_released :: bool
  cl_armed :: bool
  cl_timeout :: int

record waiter =
  wt_key :: nat  \<comment> \<open>the promise\<close>
  wt_observed :: bool
  wt_version :: nat

record delivery =
  claimCounts :: "(doc_id, nat) jsmap"
  claims :: "claim_state list"
  claimReleases :: "nat list"
  finiteActivity :: nat
  finiteActivityWasActive :: bool
  disposed :: bool
  listening :: bool
  waitingMap :: "(doc_id, waiter) jsmap"
  nextKey :: nat
  rechecks :: "(doc_id \<times> nat) list list"
  settledLog :: "(nat \<times> doc_id \<times> entry_leaf option) list"

definition new_delivery :: "nat \<Rightarrow> delivery" where
  "new_delivery activity = \<lparr>claimCounts = [], claims = [], claimReleases = [], finiteActivity = activity,
     finiteActivityWasActive = activity > 0, disposed = False, listening = True, waitingMap = [], nextKey = 0,
     rechecks = [], settledLog = []\<rparr>"

section \<open>The arrival layer\<close>

definition isFiniteReplicationActive :: "delivery \<Rightarrow> bool" where
  "isFiniteReplicationActive d \<longleftrightarrow> finiteActivity d > 0"

definition isClaimActiveFor :: "delivery \<Rightarrow> doc_id \<Rightarrow> bool" where
  "isClaimActiveFor d i \<longleftrightarrow> jm_has (claimCounts d) i"

definition isActivityActiveFor :: "delivery \<Rightarrow> doc_id \<Rightarrow> bool" where
  "isActivityActiveFor d i \<longleftrightarrow> isClaimActiveFor d i \<or> isFiniteReplicationActive d"

definition enqueueWaiting :: "doc_id \<Rightarrow> delivery \<Rightarrow> nat \<times> delivery" where
  "enqueueWaiting i d =
     (case jm_get (waitingMap d) i of
        Some previous \<Rightarrow> (wt_key previous, d)
      | None \<Rightarrow> (nextKey d, d\<lparr>nextKey := nextKey d + 1,
          waitingMap := jm_set i \<lparr>wt_key = nextKey d, wt_observed = False, wt_version = 0\<rparr> (waitingMap d)\<rparr>))"

definition settleWaiter :: "doc_id \<Rightarrow> entry_leaf option \<Rightarrow> delivery \<Rightarrow> delivery" where
  "settleWaiter i value d =
     (case jm_get (waitingMap d) i of
        None \<Rightarrow> d
      | Some queue \<Rightarrow> d\<lparr>waitingMap := jm_delete i (waitingMap d), settledLog := settledLog d @ [(wt_key queue, i, value)]\<rparr>)"

text \<open>The synchronous first part of \<open>settleAfterObservedActivity\<close>; the rest runs when the recheck answers.\<close>

fun candidates_loop :: "doc_id list \<Rightarrow> delivery \<Rightarrow> (doc_id \<times> nat) list \<times> delivery" where
  "candidates_loop [] d = ([], d)"
| "candidates_loop (i # is) d =
     (case jm_get (waitingMap d) i of
        None \<Rightarrow> candidates_loop is d
      | Some queue \<Rightarrow>
          if \<not> wt_observed queue \<or> isActivityActiveFor d i then candidates_loop is d
          else (let version = wt_version queue + 1;
                    d1 = d\<lparr>waitingMap := jm_set i (queue\<lparr>wt_version := version\<rparr>) (waitingMap d)\<rparr>
                in case candidates_loop is d1 of (cs, d2) \<Rightarrow> ((i, version) # cs, d2)))"

definition settleAfterObservedActivity :: "doc_id list \<Rightarrow> delivery \<Rightarrow> delivery" where
  "settleAfterObservedActivity is d =
     (case candidates_loop is d of (candidates, d1) \<Rightarrow>
        if candidates = [] then d1 else d1\<lparr>rechecks := rechecks d1 @ [candidates]\<rparr>)"

fun refresh_loop :: "doc_id list \<Rightarrow> delivery \<Rightarrow> doc_id list \<Rightarrow> doc_id list \<times> delivery" where
  "refresh_loop [] d completed = (completed, d)"
| "refresh_loop (i # is) d completed =
     (case jm_get (waitingMap d) i of
        None \<Rightarrow> refresh_loop is d completed
      | Some queue \<Rightarrow>
          if isActivityActiveFor d i then
            refresh_loop is (d\<lparr>waitingMap := jm_set i (queue\<lparr>wt_observed := True, wt_version := wt_version queue + 1\<rparr>)
              (waitingMap d)\<rparr>) completed
          else if wt_observed queue then refresh_loop is d (completed @ [i])
          else refresh_loop is (settleWaiter i None d) completed)"

text \<open>The default argument is every waiting identifier.\<close>

definition refreshActivity :: "doc_id list option \<Rightarrow> delivery \<Rightarrow> delivery" where
  "refreshActivity ids d =
     (let ids' = (case ids of None \<Rightarrow> jm_keys (waitingMap d) | Some xs \<Rightarrow> xs)
      in case refresh_loop ids' d [] of (completed, d1) \<Rightarrow>
           if length completed > 0 then settleAfterObservedActivity completed d1 else d1)"

text \<open>The recheck answers: \<open>None\<close> when it throws, which counts as \<open>false\<close> for every candidate.\<close>

fun recheck_loop :: "(doc_id \<times> nat) list \<Rightarrow> entry_leaf option list \<Rightarrow> delivery \<Rightarrow> delivery" where
  "recheck_loop [] results d = d"
| "recheck_loop ((i, version) # cs) results d =
     (let result = (case results of [] \<Rightarrow> None | r # _ \<Rightarrow> r);
          d1 = (case jm_get (waitingMap d) i of
                  None \<Rightarrow> d
                | Some queue \<Rightarrow>
                    if wt_version queue \<noteq> version then d
                    else (case result of
                            Some l \<Rightarrow> settleWaiter i (Some l) d
                          | None \<Rightarrow> if isActivityActiveFor d i then refreshActivity (Some [i]) d
                                    else settleWaiter i None d))
      in recheck_loop cs (tl results) d1)"

definition recheckAnswered :: "nat \<Rightarrow> entry_leaf option list option \<Rightarrow> delivery \<Rightarrow> delivery" where
  "recheckAnswered k answer d =
     (if k < length (rechecks d) then
        (let candidates = rechecks d ! k;
             d1 = d\<lparr>rechecks := take k (rechecks d) @ drop (Suc k) (rechecks d)\<rparr>
         in recheck_loop candidates (case answer of None \<Rightarrow> map (\<lambda>_. None) candidates | Some rs \<Rightarrow> rs) d1)
      else d)"

definition onChunkArrived :: "entry_leaf \<Rightarrow> bool \<Rightarrow> delivery \<Rightarrow> delivery" where
  "onChunkArrived doc deleted d = settleWaiter (leaf_id doc) (if leaf_deleted doc \<or> deleted then None else Some doc) d"

definition onMissingChunk :: "doc_id \<Rightarrow> delivery \<Rightarrow> delivery" where
  "onMissingChunk i d = settleWaiter i None d"

definition clearWaiting :: "delivery \<Rightarrow> delivery" where
  "clearWaiting d = foldl (\<lambda>d i. settleWaiter i None d) d (jm_keys (waitingMap d))"

definition arrival_tearDown :: "delivery \<Rightarrow> delivery" where
  "arrival_tearDown d = clearWaiting (d\<lparr>listening := False\<rparr>)"

definition getWaitingCount :: "delivery \<Rightarrow> nat" where
  "getWaitingCount d = length (waitingMap d)"

section \<open>The coordinator\<close>

definition notifyChanged :: "doc_id list option \<Rightarrow> delivery \<Rightarrow> delivery" where
  "notifyChanged ids d = (if listening d then refreshActivity ids d else d)"

definition finiteActivityChanged :: "nat \<Rightarrow> delivery \<Rightarrow> delivery" where
  "finiteActivityChanged n d =
     (let d0 = d\<lparr>finiteActivity := n\<rparr>; active = n > 0
      in if disposed d \<or> active = finiteActivityWasActive d then d0
         else notifyChanged None (d0\<lparr>finiteActivityWasActive := active\<rparr>))"

definition removeActiveIds :: "doc_id list \<Rightarrow> (doc_id, nat) jsmap \<Rightarrow> (doc_id, nat) jsmap" where
  "removeActiveIds ids counts =
     foldl (\<lambda>m i. let count = (case jm_get m i of None \<Rightarrow> 0 | Some n \<Rightarrow> n)
                  in if count \<le> 1 then jm_delete i m else jm_set i (count - 1) m) counts ids"

definition upd_claim :: "nat \<Rightarrow> (claim_state \<Rightarrow> claim_state) \<Rightarrow> delivery \<Rightarrow> delivery" where
  "upd_claim c f d = d\<lparr>claims := (claims d)[c := f (claims d ! c)]\<rparr>"

definition armStallTimer :: "nat \<Rightarrow> delivery \<Rightarrow> delivery" where
  "armStallTimer c d =
     (let cl = claims d ! c
      in upd_claim c (\<lambda>cl. cl\<lparr>cl_armed := \<not> (cl_released cl \<or> cl_pending cl = [] \<or> cl_timeout cl \<le> 0)\<rparr>) d)"

definition releaseClaim :: "nat \<Rightarrow> delivery \<Rightarrow> delivery" where
  "releaseClaim c d =
     (if cl_released (claims d ! c) then d
      else
        (let activeIds = cl_pending (claims d ! c);
             d1 = upd_claim c (\<lambda>cl. cl\<lparr>cl_released := True, cl_armed := False, cl_pending := []\<rparr>) d;
             d2 = d1\<lparr>claimCounts := removeActiveIds activeIds (claimCounts d1),
                     claimReleases := filter (\<lambda>k. k \<noteq> c) (claimReleases d1)\<rparr>
         in if length activeIds > 0 then notifyChanged (Some activeIds) d2 else d2))"

definition settleClaim :: "nat \<Rightarrow> doc_id \<Rightarrow> delivery \<Rightarrow> delivery" where
  "settleClaim c i d =
     (if cl_released (claims d ! c) \<or> i \<notin> set (cl_pending (claims d ! c)) then d
      else
        (let d1 = upd_claim c (\<lambda>cl. cl\<lparr>cl_pending := filter (\<lambda>j. j \<noteq> i) (cl_pending cl)\<rparr>) d;
             d2 = notifyChanged (Some [i]) (d1\<lparr>claimCounts := removeActiveIds [i] (claimCounts d1)\<rparr>)
         in if cl_pending (claims d2 ! c) = [] then releaseClaim c d2 else armStallTimer c d2))"

definition touchClaim :: "nat \<Rightarrow> delivery \<Rightarrow> delivery" where
  "touchClaim = armStallTimer"

text \<open>The stall timer of a claim fires; the result is the list handed to \<open>onStalled\<close>.\<close>

definition stallFired :: "nat \<Rightarrow> delivery \<Rightarrow> doc_id list \<times> delivery" where
  "stallFired c d = (cl_pending (claims d ! c), releaseClaim c (upd_claim c (\<lambda>cl. cl\<lparr>cl_armed := False\<rparr>) d))"

definition add_counts :: "doc_id list \<Rightarrow> (doc_id, nat) jsmap \<Rightarrow> (doc_id, nat) jsmap" where
  "add_counts ids counts = foldl (\<lambda>m i. jm_set i ((case jm_get m i of None \<Rightarrow> 0 | Some n \<Rightarrow> n) + 1) m) counts ids"

text \<open>\<open>Inl ()\<close>: the coordinator has been disposed; \<open>None\<close> is the claim on nothing.\<close>

definition claim :: "doc_id list \<Rightarrow> int option \<Rightarrow> delivery \<Rightarrow> unit + nat option \<times> delivery" where
  "claim ids stallTimeoutMs d =
     (if disposed d then Inl ()
      else (let pending = js_unique ids
            in if pending = [] then Inr (None, d)
               else (let c = length (claims d);
                         timeout = (case stallTimeoutMs of None \<Rightarrow> 300000 | Some t \<Rightarrow> t);
                         d1 = d\<lparr>claims := claims d @ [\<lparr>cl_pending = pending, cl_released = False, cl_armed = False, cl_timeout = timeout\<rparr>],
                                claimCounts := add_counts pending (claimCounts d),
                                claimReleases := claimReleases d @ [c]\<rparr>
                     in Inr (Some c, armStallTimer c (notifyChanged (Some pending) d1)))))"

definition dispose :: "delivery \<Rightarrow> delivery" where
  "dispose d =
     (if disposed d then d
      else (let d1 = d\<lparr>disposed := True\<rparr>
            in (foldl (\<lambda>d c. releaseClaim c d) d1 (claimReleases d1))\<lparr>listening := False\<rparr>))"

text \<open>
  A waiting \<open>read\<close>: the waiters are entered, the missing-chunks event lets the fetcher claim
  identifiers synchronously (the lists \<open>claimed\<close>), and the activity is looked at. The result is the
  promise of each identifier.
\<close>

fun enqueue_all :: "doc_id list \<Rightarrow> delivery \<Rightarrow> nat list \<times> delivery" where
  "enqueue_all [] d = ([], d)"
| "enqueue_all (i # is) d =
     (case enqueueWaiting i d of (k, d1) \<Rightarrow> case enqueue_all is d1 of (ks, d2) \<Rightarrow> (k # ks, d2))"

definition claim_or_skip :: "doc_id list \<Rightarrow> delivery \<Rightarrow> delivery" where
  "claim_or_skip ids d = (case claim ids None d of Inl _ \<Rightarrow> d | Inr (_, d') \<Rightarrow> d')"

definition waiting_read :: "doc_id list \<Rightarrow> read_options \<Rightarrow> doc_id list list \<Rightarrow> delivery \<Rightarrow> nat list option \<times> delivery" where
  "waiting_read ids options claimed d =
     (if \<not> waits_for_delivery options \<or> ids = [] then (None, d)
      else (case enqueue_all ids d of (ks, d1) \<Rightarrow>
              let d2 = (if \<not> ro_preventRemoteRequest options then foldl (\<lambda>d c. claim_or_skip c d) d1 claimed else d1)
              in (Some ks, refreshActivity (Some ids) d2)))"

section \<open>What the arrival layer leaves alone\<close>

definition core :: "delivery \<Rightarrow> (doc_id, nat) jsmap \<times> claim_state list \<times> nat list \<times> nat \<times> bool \<times> bool \<times> bool" where
  "core d = (claimCounts d, claims d, claimReleases d, finiteActivity d, finiteActivityWasActive d, disposed d, listening d)"

lemma core_simps [simp]:
  "core (d\<lparr>waitingMap := w\<rparr>) = core d" "core (d\<lparr>rechecks := r\<rparr>) = core d"
  "core (d\<lparr>settledLog := l\<rparr>) = core d" "core (d\<lparr>nextKey := n\<rparr>) = core d"
  by (simp_all add: core_def)

lemma core_fields:
  assumes "core d' = core d"
  shows "claimCounts d' = claimCounts d" "claims d' = claims d" "claimReleases d' = claimReleases d"
    "finiteActivity d' = finiteActivity d" "finiteActivityWasActive d' = finiteActivityWasActive d"
    "disposed d' = disposed d" "listening d' = listening d" "isActivityActiveFor d' = isActivityActiveFor d"
  using assms by (auto simp: core_def isActivityActiveFor_def isClaimActiveFor_def isFiniteReplicationActive_def fun_eq_iff)

lemma core_settle [simp]: "core (settleWaiter i v d) = core d"
  by (simp add: settleWaiter_def split: option.split)

definition upd_waiter :: "doc_id \<Rightarrow> waiter \<Rightarrow> delivery \<Rightarrow> delivery" where
  "upd_waiter i q d = d\<lparr>waitingMap := jm_set i q (waitingMap d)\<rparr>"

lemma core_upd_waiter [simp]: "core (upd_waiter i q d) = core d"
  by (simp add: upd_waiter_def)

lemma candidates_skip:
  "(\<And>q. jm_get (waitingMap d) i = Some q \<Longrightarrow> \<not> wt_observed q \<or> isActivityActiveFor d i) \<Longrightarrow>
    candidates_loop (i # is) d = candidates_loop is d"
  by (auto split: option.splits)

lemma candidates_take:
  assumes "jm_get (waitingMap d) i = Some q" and "wt_observed q" and "\<not> isActivityActiveFor d i"
  shows "candidates_loop (i # is) d =
    ((i, Suc (wt_version q)) # fst (candidates_loop is (upd_waiter i (q\<lparr>wt_version := Suc (wt_version q)\<rparr>) d)),
     snd (candidates_loop is (upd_waiter i (q\<lparr>wt_version := Suc (wt_version q)\<rparr>) d)))"
  using assms by (simp add: Let_def upd_waiter_def split: prod.split)

lemma candidates_case [case_names skip take]:
  assumes "(\<And>q. jm_get (waitingMap d) i = Some q \<Longrightarrow> \<not> wt_observed q \<or> isActivityActiveFor d i) \<Longrightarrow> P"
    and "\<And>q. jm_get (waitingMap d) i = Some q \<Longrightarrow> wt_observed q \<Longrightarrow> \<not> isActivityActiveFor d i \<Longrightarrow> P"
  shows P
  using assms by (cases "jm_get (waitingMap d) i") auto

lemma core_candidates: "core (snd (candidates_loop is d)) = core d"
proof (induction "is" arbitrary: d)
  case (Cons i "is")
  show ?case
    by (cases rule: candidates_case [of d i]) (simp_all add: candidates_skip candidates_take Cons del: candidates_loop.simps)
qed simp

lemma core_after [simp]: "core (settleAfterObservedActivity is d) = core d"
  using core_candidates [of "is" d] by (auto simp: settleAfterObservedActivity_def split: prod.splits)

lemma core_refresh_loop: "core (snd (refresh_loop is d fin)) = core d"
proof (induction "is" arbitrary: d fin)
  case (Cons i "is")
  then show ?case by (auto split: option.splits)
qed simp

lemma core_refresh [simp]: "core (refreshActivity ids d) = core d"
  using core_refresh_loop [of _ d "[]"] by (auto simp: refreshActivity_def Let_def split: prod.splits option.splits)
     (metis snd_conv)+

section \<open>Promises are settled once, each with its own chunk\<close>

definition wkeys :: "(doc_id, waiter) jsmap \<Rightarrow> nat multiset" where
  "wkeys m = mset (map (\<lambda>x. wt_key (snd x)) m)"

definition wowners :: "(doc_id, waiter) jsmap \<Rightarrow> (nat \<times> doc_id) set" where
  "wowners m = set (map (\<lambda>x. (wt_key (snd x), fst x)) m)"

definition waiters_ok :: "delivery \<Rightarrow> bool" where
  "waiters_ok d \<longleftrightarrow> jm_wf (waitingMap d) \<and>
     wkeys (waitingMap d) + mset (map fst (settledLog d)) = mset [0..<nextKey d] \<and>
     (\<forall>e \<in> set (settledLog d). id_matches (fst (snd e)) (snd (snd e)))"

text \<open>Which identifier a promise belongs to.\<close>

definition owners :: "delivery \<Rightarrow> (nat \<times> doc_id) set" where
  "owners d = wowners (waitingMap d) \<union> (\<lambda>e. (fst e, fst (snd e))) ` set (settledLog d)"

definition evolves :: "delivery \<Rightarrow> delivery \<Rightarrow> bool" where
  "evolves d d' \<longleftrightarrow> (waiters_ok d \<longrightarrow> waiters_ok d' \<and> owners d \<subseteq> owners d')"

named_theorems evolving \<open>operations that keep the promises\<close>

lemma evolves_refl [evolving]: "evolves d d"
  by (simp add: evolves_def)

lemma evolves_trans: "evolves d d' \<Longrightarrow> evolves d' d'' \<Longrightarrow> evolves d d''"
  by (auto simp: evolves_def)

lemma evolves_frame:
  "waitingMap d' = waitingMap d \<Longrightarrow> settledLog d' = settledLog d \<Longrightarrow> nextKey d' = nextKey d \<Longrightarrow> evolves d d'"
  by (simp add: evolves_def waiters_ok_def owners_def)

lemma mset_delete:
  "jm_wf m \<Longrightarrow> jm_get m i = Some q \<Longrightarrow> mset m = add_mset (i, q) (mset (jm_delete i m))"
proof (induction m)
  case Nil
  then show ?case by simp
next
  case (Cons x m)
  show ?case
  proof (cases "fst x = i")
    case True
    then have "i \<notin> fst ` set m" using Cons.prems(1) by (auto simp: jm_wf_def)
    then have "jm_delete i m = m" using jm_delete_absent [of i m] by simp
    moreover have "x = (i, q)" using True Cons.prems(2) by (cases x) auto
    ultimately show ?thesis using True by simp
  next
    case False
    with Cons show ?thesis by (cases x) (auto simp: jm_wf_def)
  qed
qed

lemma mset_update:
  "jm_get m i = Some q \<Longrightarrow> f (i, q') = f (i, q) \<Longrightarrow> map f (jm_set i q' m) = map f m"
  by (induction m) (auto split: if_splits)

lemma update_new: "jm_get m i = None \<Longrightarrow> jm_set i q m = m @ [(i, q)]"
  by (induction m) (auto split: if_splits)

lemma wkeys_simps:
  "jm_get m i = Some q \<Longrightarrow> wt_key q' = wt_key q \<Longrightarrow> wkeys (jm_set i q' m) = wkeys m"
  "jm_get m i = Some q \<Longrightarrow> wt_key q' = wt_key q \<Longrightarrow> wowners (jm_set i q' m) = wowners m"
  "jm_get m i = None \<Longrightarrow> wkeys (jm_set i q' m) = add_mset (wt_key q') (wkeys m)"
  "jm_get m i = None \<Longrightarrow> wowners (jm_set i q' m) = insert (wt_key q', i) (wowners m)"
  by (simp_all add: wkeys_def wowners_def mset_update update_new)

lemma wkeys_delete:
  assumes "jm_wf m" and "jm_get m i = Some q"
  shows "wkeys m = add_mset (wt_key q) (wkeys (jm_delete i m))"
    and "wowners m = insert (wt_key q, i) (wowners (jm_delete i m))"
proof -
  have ms: "mset m = add_mset (i, q) (mset (jm_delete i m))" by (rule mset_delete [OF assms])
  show "wkeys m = add_mset (wt_key q) (wkeys (jm_delete i m))"
    unfolding wkeys_def mset_map ms image_mset_add_mset by simp
  have "set m = insert (i, q) (set (jm_delete i m))"
    unfolding set_mset_mset [symmetric] ms set_mset_add_mset_insert by simp
  then have "wowners m = (\<lambda>x. (wt_key (snd x), fst x)) ` insert (i, q) (set (jm_delete i m))"
    by (simp only: wowners_def set_map)
  then show "wowners m = insert (wt_key q, i) (wowners (jm_delete i m))"
    by (simp only: wowners_def set_map image_insert fst_conv snd_conv)
qed

lemma evolves_upd_waiter:
  "jm_get (waitingMap d) i = Some q \<Longrightarrow> wt_key q' = wt_key q \<Longrightarrow> evolves d (upd_waiter i q' d)"
  by (simp add: evolves_def waiters_ok_def owners_def upd_waiter_def wkeys_simps)

lemma evolves_settle:
  assumes "id_matches i v"
  shows "evolves d (settleWaiter i v d)"
proof (cases "jm_get (waitingMap d) i")
  case None
  then show ?thesis by (simp add: settleWaiter_def evolves_refl)
next
  case (Some q)
  have "waiters_ok (settleWaiter i v d) \<and> owners d \<subseteq> owners (settleWaiter i v d)" if ok: "waiters_ok d"
  proof -
    have wf: "jm_wf (waitingMap d)" using ok by (simp add: waiters_ok_def)
    note del = wkeys_delete [OF wf Some]
    have "waiters_ok (settleWaiter i v d)"
      using ok del(1) assms by (simp add: waiters_ok_def settleWaiter_def Some)
    moreover have "owners d \<subseteq> owners (settleWaiter i v d)"
      by (auto simp: owners_def settleWaiter_def Some del(2))
    ultimately show ?thesis ..
  qed
  then show ?thesis by (simp add: evolves_def)
qed

lemma evolves_settle_None [evolving]: "evolves d (settleWaiter i None d)"
  by (rule evolves_settle) (simp add: id_matches_def)

lemma evolves_enqueue [evolving]: "evolves d (snd (enqueueWaiting i d))"
proof (cases "jm_get (waitingMap d) i")
  case (Some q)
  then show ?thesis by (simp add: enqueueWaiting_def evolves_refl)
next
  case None
  then show ?thesis
    by (auto simp: evolves_def waiters_ok_def owners_def enqueueWaiting_def wkeys_simps atLeastLessThanSuc)
qed

lemma enqueue_owner: "(fst (enqueueWaiting i d), i) \<in> owners (snd (enqueueWaiting i d))"
proof (cases "jm_get (waitingMap d) i")
  case (Some q)
  then have "(i, q) \<in> set (waitingMap d)" by (rule map_of_SomeD)
  with Some show ?thesis by (force simp: enqueueWaiting_def owners_def wowners_def)
next
  case None
  then show ?thesis by (simp add: enqueueWaiting_def owners_def wkeys_simps)
qed

lemma evolves_candidates [evolving]: "evolves d (snd (candidates_loop is d))"
proof (induction "is" arbitrary: d)
  case Nil
  then show ?case by (simp add: evolves_refl)
next
  case (Cons i "is")
  show ?case
  proof (cases rule: candidates_case [of d i])
    case skip
    with Cons show ?thesis by (simp add: candidates_skip del: candidates_loop.simps)
  next
    case (take q)
    have "evolves d (upd_waiter i (q\<lparr>wt_version := Suc (wt_version q)\<rparr>) d)"
      by (rule evolves_upd_waiter [OF take(1)]) simp
    from evolves_trans [OF this Cons] take show ?thesis
      by (simp add: candidates_take del: candidates_loop.simps)
  qed
qed

lemma evolves_after [evolving]: "evolves d (settleAfterObservedActivity is d)"
proof -
  obtain cs d1 where c: "candidates_loop is d = (cs, d1)" by (cases "candidates_loop is d")
  then have "evolves d d1" using evolves_candidates [of d "is"] by simp
  moreover have "evolves d1 (d1\<lparr>rechecks := r\<rparr>)" for r by (rule evolves_frame) simp_all
  ultimately show ?thesis using evolves_trans by (auto simp: settleAfterObservedActivity_def c)
qed

lemma refresh_none: "jm_get (waitingMap d) i = None \<Longrightarrow> refresh_loop (i # is) d fin = refresh_loop is d fin"
  by simp

lemma refresh_some:
  assumes "jm_get (waitingMap d) i = Some q"
  shows "refresh_loop (i # is) d fin =
    (if isActivityActiveFor d i
     then refresh_loop is (upd_waiter i (q\<lparr>wt_observed := True, wt_version := wt_version q + 1\<rparr>) d) fin
     else if wt_observed q then refresh_loop is d (fin @ [i]) else refresh_loop is (settleWaiter i None d) fin)"
  using assms by (simp add: upd_waiter_def)

lemma evolves_refresh_loop: "evolves d (snd (refresh_loop is d fin))"
proof (induction "is" arbitrary: d fin)
  case Nil
  then show ?case by (simp add: evolves_refl)
next
  case (Cons i "is")
  show ?case
  proof (cases "jm_get (waitingMap d) i")
    case None
    with Cons show ?thesis by simp
  next
    case (Some q)
    have u: "evolves d (upd_waiter i (q\<lparr>wt_observed := True, wt_version := wt_version q + 1\<rparr>) d)"
      by (rule evolves_upd_waiter [OF Some]) simp
    show ?thesis
      using Cons evolves_trans [OF u Cons] evolves_trans [OF evolves_settle_None Cons]
      by (simp add: refresh_some [OF Some] del: refresh_loop.simps)
  qed
qed

lemma evolves_refresh [evolving]: "evolves d (refreshActivity ids d)"
proof -
  define ids' where "ids' = (case ids of None \<Rightarrow> jm_keys (waitingMap d) | Some xs \<Rightarrow> xs)"
  obtain fin d1 where r: "refresh_loop ids' d [] = (fin, d1)" by (cases "refresh_loop ids' d []")
  then have "evolves d d1" using evolves_refresh_loop [of d ids' "[]"] by simp
  then show ?thesis
    using evolves_trans evolves_after by (auto simp: refreshActivity_def Let_def ids'_def [symmetric] r)
qed

lemma evolves_recheck_loop:
  "list_all2 (\<lambda>c r. id_matches (fst c) r) cs rs \<Longrightarrow> evolves d (recheck_loop cs rs d)"
proof (induction cs arbitrary: rs d)
  case Nil
  then show ?case by (simp add: evolves_refl)
next
  case (Cons c cs)
  obtain i ver where c: "c = (i, ver)" by (cases c)
  obtain r rs' where rs: "rs = r # rs'" "id_matches i r" "list_all2 (\<lambda>c r. id_matches (fst c) r) cs rs'"
    using Cons.prems c by (cases rs) auto
  define d1 where "d1 = (case jm_get (waitingMap d) i of
      None \<Rightarrow> d
    | Some queue \<Rightarrow>
        if wt_version queue \<noteq> ver then d
        else (case r of
                Some l \<Rightarrow> settleWaiter i (Some l) d
              | None \<Rightarrow> if isActivityActiveFor d i then refreshActivity (Some [i]) d else settleWaiter i None d))"
  have "evolves d d1"
    using rs(2) by (auto simp: d1_def intro: evolving evolves_settle split: option.split)
  moreover have "recheck_loop (c # cs) rs d = recheck_loop cs rs' d1"
    by (simp add: c rs(1) d1_def Let_def)
  ultimately show ?case using Cons.IH [OF rs(3)] evolves_trans by metis
qed

lemma evolves_recheck:
  assumes "case answer of None \<Rightarrow> True | Some rs \<Rightarrow> list_all2 (\<lambda>c r. id_matches (fst c) r) (rechecks d ! k) rs"
  shows "evolves d (recheckAnswered k answer d)"
proof (cases "k < length (rechecks d)")
  case True
  let ?d1 = "d\<lparr>rechecks := take k (rechecks d) @ drop (Suc k) (rechecks d)\<rparr>"
  have "evolves d ?d1" by (rule evolves_frame) simp_all
  moreover have "list_all2 (\<lambda>c r. id_matches (fst c) r) cs (map (\<lambda>_. None) cs)" for cs :: "(doc_id \<times> nat) list"
    by (induction cs) (auto simp: id_matches_def)
  then have "list_all2 (\<lambda>c r. id_matches (fst c) r) (rechecks d ! k)
      (case answer of None \<Rightarrow> map (\<lambda>_. None) (rechecks d ! k) | Some rs \<Rightarrow> rs)"
    using assms by (simp split: option.splits)
  ultimately show ?thesis
    using evolves_trans [OF _ evolves_recheck_loop] by (simp add: recheckAnswered_def True Let_def)
next
  case False
  then show ?thesis by (simp add: recheckAnswered_def evolves_refl)
qed

lemma evolves_arrived [evolving]: "evolves d (onChunkArrived doc deleted d)"
  by (auto simp: onChunkArrived_def id_matches_def intro: evolves_settle)

lemma evolves_missing [evolving]: "evolves d (onMissingChunk i d)"
  by (simp add: onMissingChunk_def evolves_settle_None)

lemma evolves_foldl: "(\<And>d x. evolves d (f d x)) \<Longrightarrow> evolves d (foldl f d xs)"
proof (induction xs arbitrary: d)
  case Nil
  then show ?case by (simp add: evolves_refl)
next
  case (Cons x xs)
  from evolves_trans [OF Cons.prems Cons.IH [OF Cons.prems]] show ?case by simp
qed

lemma evolves_tearDown [evolving]: "evolves d (arrival_tearDown d)"
proof -
  have "evolves d (d\<lparr>listening := False\<rparr>)" by (rule evolves_frame) simp_all
  then show ?thesis
    unfolding arrival_tearDown_def clearWaiting_def
    by (rule evolves_trans) (rule evolves_foldl, rule evolves_settle_None)
qed

lemma evolves_notify [evolving]: "evolves d (notifyChanged ids d)"
  by (simp add: notifyChanged_def evolving)

lemma evolves_frame_notify:
  "waitingMap d' = waitingMap d \<Longrightarrow> settledLog d' = settledLog d \<Longrightarrow> nextKey d' = nextKey d \<Longrightarrow>
    evolves d (notifyChanged ids d')"
  by (rule evolves_trans [OF evolves_frame evolves_notify])

lemma evolves_finite [evolving]: "evolves d (finiteActivityChanged n d)"
  by (auto simp: finiteActivityChanged_def Let_def intro: evolves_frame evolves_frame_notify)

lemma evolves_upd_claim [evolving]: "evolves d (upd_claim c f d)"
  by (rule evolves_frame) (simp_all add: upd_claim_def)

lemma evolves_arm [evolving]: "evolves d (armStallTimer c d)"
  by (simp add: armStallTimer_def evolving)

lemma evolves_release [evolving]: "evolves d (releaseClaim c d)"
  by (auto simp: releaseClaim_def Let_def upd_claim_def intro: evolves_frame evolves_frame_notify evolves_refl)

lemmas evolves_then =
  evolves_trans [OF _ evolves_release] evolves_trans [OF _ evolves_arm] evolves_trans [OF _ evolves_notify]

lemma evolves_settleClaim [evolving]: "evolves d (settleClaim c i d)"
  by (auto simp: settleClaim_def Let_def upd_claim_def intro!: evolves_refl evolves_then evolves_frame)

lemma evolves_stall [evolving]: "evolves d (snd (stallFired c d))"
  by (simp add: stallFired_def evolves_trans [OF evolves_upd_claim evolves_release])

lemma evolves_claim: "claim ids t d = Inr (c, d') \<Longrightarrow> evolves d d'"
  by (auto simp: claim_def Let_def intro!: evolves_refl evolves_trans [OF evolves_frame_notify evolves_arm] split: if_splits)

lemma evolves_claim_or_skip [evolving]: "evolves d (claim_or_skip ids d)"
  by (auto simp: claim_or_skip_def intro: evolves_refl evolves_claim split: sum.splits)

lemma evolves_dispose [evolving]: "evolves d (dispose d)"
proof -
  have l: "evolves d (d\<lparr>listening := b\<rparr>)" "evolves d (d\<lparr>disposed := b\<rparr>)" for d b by (rule evolves_frame; simp)+
  then show ?thesis
    by (auto simp: dispose_def Let_def intro: evolves_refl
        intro!: evolves_trans [OF l(2) evolves_trans [OF evolves_foldl l(1)]] evolves_release)
qed

lemma evolves_enqueue_all [evolving]: "evolves d (snd (enqueue_all is d))"
proof (induction "is" arbitrary: d)
  case Nil
  then show ?case by (simp add: evolves_refl)
next
  case (Cons i "is")
  from evolves_trans [OF evolves_enqueue Cons] show ?case by (auto split: prod.split) (metis snd_conv)
qed

section \<open>The counts are the claims\<close>

definition pending_for :: "claim_state list \<Rightarrow> doc_id \<Rightarrow> nat" where
  "pending_for cs i = length (filter (\<lambda>cl. i \<in> set (cl_pending cl)) cs)"

definition claim_wf :: "claim_state \<Rightarrow> bool" where
  "claim_wf cl \<longleftrightarrow> distinct (cl_pending cl) \<and> (cl_released cl \<longrightarrow> cl_pending cl = [] \<and> \<not> cl_armed cl)"

definition claims_ok :: "delivery \<Rightarrow> bool" where
  "claims_ok d \<longleftrightarrow> list_all claim_wf (claims d) \<and>
     (\<forall>c. c \<in> set (claimReleases d) \<longleftrightarrow> c < length (claims d) \<and> \<not> cl_released (claims d ! c)) \<and>
     (\<forall>i. jm_get (claimCounts d) i = (if pending_for (claims d) i = 0 then None else Some (pending_for (claims d) i)))"

lemma claims_ok_core: "core d = core d' \<Longrightarrow> claims_ok d = claims_ok d'"
  by (simp add: claims_ok_def core_def)

lemma claims_ok_wf: "claims_ok d \<Longrightarrow> c < length (claims d) \<Longrightarrow> claim_wf (claims d ! c)"
  by (simp add: claims_ok_def list_all_length)

lemma core_notify [simp]: "core (notifyChanged ids d) = core d"
  by (simp add: notifyChanged_def)

lemma claims_ok_notify [simp]: "claims_ok (notifyChanged ids d) = claims_ok d"
  by (rule claims_ok_core) simp

lemma claims_notify [simp]: "claims (notifyChanged ids d) = claims d"
  by (rule core_fields) simp

lemma pending_for_update:
  assumes "c < length cs"
  shows "pending_for (cs[c := cl]) i + (if i \<in> set (cl_pending (cs ! c)) then 1 else 0) =
    pending_for cs i + (if i \<in> set (cl_pending cl) then 1 else 0)"
  using assms unfolding pending_for_def
proof (induction cs arbitrary: c)
  case Nil
  then show ?case by simp
next
  case (Cons x cs)
  then show ?case by (cases c) (auto split: if_splits)
qed

lemma pending_for_pos: "c < length cs \<Longrightarrow> i \<in> set (cl_pending (cs ! c)) \<Longrightarrow> 0 < pending_for cs i"
  unfolding pending_for_def by (auto simp: filter_empty_conv intro: nth_mem)

definition dec :: "nat option \<Rightarrow> nat option" where
  "dec n = (case n of None \<Rightarrow> None | Some k \<Rightarrow> if k \<le> 1 then None else Some (k - 1))"

lemma removeActiveIds_get:
  "distinct ids \<Longrightarrow> jm_get (removeActiveIds ids m) i = (if i \<in> set ids then dec (jm_get m i) else jm_get m i)"
  unfolding removeActiveIds_def
  by (induction ids arbitrary: m) (auto simp: dec_def Let_def split: option.splits)

lemma add_counts_get:
  "distinct ids \<Longrightarrow> jm_get (add_counts ids m) i =
    (if i \<in> set ids then Some ((case jm_get m i of None \<Rightarrow> 0 | Some n \<Rightarrow> n) + 1) else jm_get m i)"
  unfolding add_counts_def by (induction ids arbitrary: m) (auto split: option.splits)

text \<open>Dropping identifiers from one claim and from the counts together.\<close>

lemma claims_ok_drop:
  assumes ok: "claims_ok d" and c: "c < length (claims d)" and ids: "distinct ids" "set ids \<subseteq> set (cl_pending (claims d ! c))"
    and wf: "claim_wf cl" and rest: "set (cl_pending cl) = set (cl_pending (claims d ! c)) - set ids"
    and rel: "releases = (if cl_released cl then filter (\<lambda>k. k \<noteq> c) (claimReleases d) else claimReleases d)"
    and mono: "cl_released (claims d ! c) \<longrightarrow> cl_released cl"
  shows "claims_ok (d\<lparr>claims := (claims d)[c := cl], claimCounts := removeActiveIds ids (claimCounts d), claimReleases := releases\<rparr>)"
proof -
  have cnt: "jm_get (removeActiveIds ids (claimCounts d)) i =
      (if pending_for ((claims d)[c := cl]) i = 0 then None else Some (pending_for ((claims d)[c := cl]) i))" for i
  proof (cases "i \<in> set ids")
    case True
    then have i: "i \<in> set (cl_pending (claims d ! c))" "i \<notin> set (cl_pending cl)" using ids(2) rest by auto
    then have "pending_for (claims d) i = Suc (pending_for ((claims d)[c := cl]) i)"
      using pending_for_update [OF c, of cl i] by simp
    with ok True show ?thesis by (simp add: removeActiveIds_get [OF ids(1)] claims_ok_def dec_def)
  next
    case False
    then have "i \<in> set (cl_pending cl) \<longleftrightarrow> i \<in> set (cl_pending (claims d ! c))" using rest by auto
    then have "pending_for ((claims d)[c := cl]) i = pending_for (claims d) i"
      using pending_for_update [OF c, of cl i] by (auto split: if_splits)
    with ok False show ?thesis by (simp add: removeActiveIds_get [OF ids(1)] claims_ok_def)
  qed
  have "list_all claim_wf ((claims d)[c := cl])"
    using ok wf by (auto simp: claims_ok_def list_all_iff dest: subsetD [OF set_update_subset_insert])
  moreover have "k \<in> set releases \<longleftrightarrow> k < length ((claims d)[c := cl]) \<and> \<not> cl_released ((claims d)[c := cl] ! k)" for k
    using ok c rel mono by (cases "k = c") (auto simp: claims_ok_def)
  ultimately show ?thesis using cnt by (simp add: claims_ok_def)
qed

lemma claims_ok_release:
  assumes ok: "claims_ok d" and c: "c < length (claims d)"
  shows "claims_ok (releaseClaim c d)"
proof (cases "cl_released (claims d ! c)")
  case True
  with ok show ?thesis by (simp add: releaseClaim_def)
next
  case False
  let ?cl = "(claims d ! c)\<lparr>cl_released := True, cl_armed := False, cl_pending := []\<rparr>"
  have "distinct (cl_pending (claims d ! c))" using claims_ok_wf [OF ok c] by (simp add: claim_wf_def)
  from claims_ok_drop [OF ok c this subset_refl, of ?cl "filter (\<lambda>k. k \<noteq> c) (claimReleases d)"] False
  show ?thesis
    by (cases "cl_pending (claims d ! c) = []") (simp_all add: releaseClaim_def upd_claim_def Let_def claim_wf_def)
qed

lemma claims_ok_arm:
  assumes "claims_ok d" and c: "c < length (claims d)"
  shows "claims_ok (armStallTimer c d)"
proof -
  let ?cl = "(claims d ! c)\<lparr>cl_armed := \<not> (cl_released (claims d ! c) \<or> cl_pending (claims d ! c) = [] \<or> cl_timeout (claims d ! c) \<le> 0)\<rparr>"
  have "claim_wf ?cl" using claims_ok_wf [OF assms] by (simp add: claim_wf_def)
  moreover have "claimReleases d = (if cl_released ?cl then filter (\<lambda>k. k \<noteq> c) (claimReleases d) else claimReleases d)"
    using assms(1) by (auto simp: claims_ok_def intro!: filter_True [symmetric])
  ultimately have "claims_ok (d\<lparr>claims := (claims d)[c := ?cl], claimCounts := removeActiveIds [] (claimCounts d), claimReleases := claimReleases d\<rparr>)"
    by (intro claims_ok_drop [OF assms]) simp_all
  then show ?thesis by (simp add: armStallTimer_def upd_claim_def removeActiveIds_def)
qed

lemma claims_ok_disarm:
  assumes "claims_ok d" and c: "c < length (claims d)"
  shows "claims_ok (upd_claim c (\<lambda>cl. cl\<lparr>cl_armed := False\<rparr>) d)"
proof -
  let ?cl = "(claims d ! c)\<lparr>cl_armed := False\<rparr>"
  have "claim_wf ?cl" using claims_ok_wf [OF assms] by (simp add: claim_wf_def)
  moreover have "claimReleases d = (if cl_released ?cl then filter (\<lambda>k. k \<noteq> c) (claimReleases d) else claimReleases d)"
    using assms(1) by (auto simp: claims_ok_def intro!: filter_True [symmetric])
  ultimately have "claims_ok (d\<lparr>claims := (claims d)[c := ?cl], claimCounts := removeActiveIds [] (claimCounts d), claimReleases := claimReleases d\<rparr>)"
    by (intro claims_ok_drop [OF assms]) simp_all
  then show ?thesis by (simp add: upd_claim_def removeActiveIds_def)
qed

lemma claims_ok_settleClaim:
  assumes ok: "claims_ok d" and c: "c < length (claims d)"
  shows "claims_ok (settleClaim c i d)"
proof (cases "cl_released (claims d ! c) \<or> i \<notin> set (cl_pending (claims d ! c))")
  case True
  with ok show ?thesis by (auto simp: settleClaim_def)
next
  case False
  let ?cl = "(claims d ! c)\<lparr>cl_pending := filter (\<lambda>j. j \<noteq> i) (cl_pending (claims d ! c))\<rparr>"
  let ?d1 = "d\<lparr>claims := (claims d)[c := ?cl], claimCounts := removeActiveIds [i] (claimCounts d)\<rparr>"
  have "claim_wf ?cl" using claims_ok_wf [OF ok c] False by (simp add: claim_wf_def)
  with False have "claims_ok (d\<lparr>claims := (claims d)[c := ?cl], claimCounts := removeActiveIds [i] (claimCounts d), claimReleases := claimReleases d\<rparr>)"
    by (intro claims_ok_drop [OF ok c]) auto
  then have d1: "claims_ok (notifyChanged (Some [i]) ?d1)" by simp
  have c1: "c < length (claims (notifyChanged (Some [i]) ?d1))" using c by simp
  show ?thesis
    using claims_ok_release [OF d1 c1] claims_ok_arm [OF d1 c1] False
    by (auto simp: settleClaim_def upd_claim_def Let_def)
qed

lemma claims_ok_claim:
  assumes ok: "claims_ok d" and cl: "claim ids t d = Inr (k, d')"
  shows "claims_ok d'"
proof (cases "js_unique ids = []")
  case True
  with assms show ?thesis by (auto simp: claim_def split: if_splits)
next
  case False
  define c where "c = length (claims d)"
  define new where "new = \<lparr>cl_pending = js_unique ids, cl_released = False, cl_armed = False,
    cl_timeout = (case t of None \<Rightarrow> 300000 | Some t \<Rightarrow> t)\<rparr>"
  define d1 where "d1 = d\<lparr>claims := claims d @ [new], claimCounts := add_counts (js_unique ids) (claimCounts d),
    claimReleases := claimReleases d @ [c]\<rparr>"
  have p: "pending_for (claims d @ [new]) i = pending_for (claims d) i + (if i \<in> set ids then 1 else 0)" for i
    by (simp add: pending_for_def new_def)
  have "jm_get (claimCounts d1) i = (if pending_for (claims d1) i = 0 then None else Some (pending_for (claims d1) i))" for i
    using ok by (simp add: d1_def p add_counts_get claims_ok_def)
  moreover have "list_all claim_wf (claims d1)"
    using ok by (simp add: d1_def claims_ok_def new_def claim_wf_def)
  moreover have "j \<in> set (claimReleases d1) \<longleftrightarrow> j < length (claims d1) \<and> \<not> cl_released (claims d1 ! j)" for j
    using ok by (auto simp: d1_def claims_ok_def new_def c_def nth_append less_Suc_eq)
  ultimately have "claims_ok d1" by (simp add: claims_ok_def)
  then have "claims_ok (armStallTimer c (notifyChanged (Some (js_unique ids)) d1))"
    by (intro claims_ok_arm) (simp_all add: d1_def c_def)
  moreover have "d' = armStallTimer c (notifyChanged (Some (js_unique ids)) d1)"
    using cl False by (auto simp: claim_def Let_def d1_def new_def c_def split: if_splits)
  ultimately show ?thesis by simp
qed

lemma claims_length [simp]:
  "length (claims (releaseClaim c d)) = length (claims d)" "length (claims (armStallTimer c d)) = length (claims d)"
  by (simp_all add: releaseClaim_def armStallTimer_def upd_claim_def Let_def)

lemma release_all:
  assumes "claims_ok d" and "set cs \<subseteq> {..<length (claims d)}"
  shows "claims_ok (foldl (\<lambda>d c. releaseClaim c d) d cs) \<and>
    set (claimReleases (foldl (\<lambda>d c. releaseClaim c d) d cs)) = set (claimReleases d) - set cs"
  using assms
proof (induction cs arbitrary: d)
  case Nil
  then show ?case by simp
next
  case (Cons c cs)
  have c: "c < length (claims d)" using Cons.prems by simp
  have ok: "claims_ok (releaseClaim c d)" by (rule claims_ok_release [OF Cons.prems(1) c])
  have "claimReleases (notifyChanged ids d') = claimReleases d'" for ids d'
    by (rule core_fields) simp
  then have "set (claimReleases (releaseClaim c d)) = set (claimReleases d) - {c}"
    using Cons.prems(1) c by (auto simp: releaseClaim_def upd_claim_def Let_def claims_ok_def)
  with Cons.IH [OF ok] Cons.prems(2) show ?case by auto
qed

lemma claims_ok_dispose:
  assumes "claims_ok d"
  shows "claims_ok (dispose d)" and "\<not> disposed d \<Longrightarrow> \<not> isClaimActiveFor (dispose d) i"
proof -
  let ?d1 = "d\<lparr>disposed := True\<rparr>"
  let ?d2 = "foldl (\<lambda>d c. releaseClaim c d) ?d1 (claimReleases d)"
  have "claims_ok ?d1" using assms by (simp add: claims_ok_def)
  moreover have sub: "set (claimReleases d) \<subseteq> {..<length (claims ?d1)}" using assms by (auto simp: claims_ok_def)
  ultimately have r: "claims_ok ?d2" "set (claimReleases ?d2) = {}"
    using release_all [of ?d1 "claimReleases d"] by auto
  show "claims_ok (dispose d)" using r(1) assms by (simp add: dispose_def Let_def claims_ok_def)
  have "pending_for (claims ?d2) i = 0" for i
  proof -
    have "cl_released cl" if "cl \<in> set (claims ?d2)" for cl
      using r that by (auto simp: claims_ok_def in_set_conv_nth)
    then have "cl_pending cl = []" if "cl \<in> set (claims ?d2)" for cl
      using r(1) that by (auto simp: claims_ok_def list_all_iff claim_wf_def)
    then show ?thesis by (auto simp: pending_for_def filter_empty_conv)
  qed
  with r(1) show "\<not> isClaimActiveFor (dispose d) i" if "\<not> disposed d"
    using that by (simp add: dispose_def Let_def isClaimActiveFor_def jm_has_def claims_ok_def)
qed

text \<open>A claim is active for an identifier exactly when an unreleased claim still waits for it.\<close>

lemma active_iff_pending:
  assumes "claims_ok d"
  shows "isClaimActiveFor d i \<longleftrightarrow> (\<exists>cl \<in> set (claims d). \<not> cl_released cl \<and> i \<in> set (cl_pending cl))"
proof -
  have "isClaimActiveFor d i \<longleftrightarrow> 0 < pending_for (claims d) i"
    using assms by (simp add: isClaimActiveFor_def jm_has_def claims_ok_def)
  also have "\<dots> \<longleftrightarrow> (\<exists>cl \<in> set (claims d). i \<in> set (cl_pending cl))"
    by (auto simp: pending_for_def filter_empty_conv)
  also have "\<dots> \<longleftrightarrow> (\<exists>cl \<in> set (claims d). \<not> cl_released cl \<and> i \<in> set (cl_pending cl))"
    using assms by (force simp: claims_ok_def list_all_iff claim_wf_def)
  finally show ?thesis .
qed

section \<open>No waiter is stranded\<close>

text \<open>
  A waiter is attended when it has observed the activity for its identifier and either the activity
  still goes on, or a recheck of the database is under way that will settle it. \<open>E\<close> are the
  candidates of the recheck that is being processed.
\<close>

definition attended :: "(doc_id \<times> nat) set \<Rightarrow> delivery \<Rightarrow> doc_id \<Rightarrow> bool" where
  "attended E d i \<longleftrightarrow> (\<forall>q. jm_get (waitingMap d) i = Some q \<longrightarrow>
     wt_observed q \<and> (isActivityActiveFor d i \<or> (i, wt_version q) \<in> E \<union> set (concat (rechecks d))))"

lemma attendedI:
  "(\<And>q. jm_get (waitingMap d) i = Some q \<Longrightarrow> wt_observed q \<and>
     (isActivityActiveFor d i \<or> (i, wt_version q) \<in> E \<union> set (concat (rechecks d)))) \<Longrightarrow> attended E d i"
  by (simp add: attended_def)

lemma attended_frame:
  assumes "attended E d i" and "jm_get (waitingMap d') i = jm_get (waitingMap d) i"
    and "isActivityActiveFor d i \<Longrightarrow> isActivityActiveFor d' i"
    and "E \<union> set (concat (rechecks d)) \<subseteq> E' \<union> set (concat (rechecks d'))"
  shows "attended E' d' i"
  using assms unfolding attended_def by (metis subsetD)

lemma waiting_upd_waiter: "jm_get (waitingMap (upd_waiter i q d)) j = (if j = i then Some q else jm_get (waitingMap d) j)"
  by (simp add: upd_waiter_def)

lemma waiting_settle: "jm_get (waitingMap (settleWaiter i v d)) j = (if j = i then None else jm_get (waitingMap d) j)"
  by (auto simp: settleWaiter_def split: option.split)

lemma rechecks_frames [simp]:
  "rechecks (upd_waiter i q d) = rechecks d" "rechecks (settleWaiter i v d) = rechecks d"
  by (simp_all add: upd_waiter_def settleWaiter_def split: option.split)

lemma rechecks_candidates: "rechecks (snd (candidates_loop is d)) = rechecks d"
proof (induction "is" arbitrary: d)
  case (Cons i "is")
  then show ?case
    by (cases rule: candidates_case [of d i]) (simp_all add: candidates_skip candidates_take del: candidates_loop.simps)
qed simp

lemma candidates_frame:
  "j \<notin> set is \<Longrightarrow> jm_get (waitingMap (snd (candidates_loop is d))) j = jm_get (waitingMap d) j"
proof (induction "is" arbitrary: d)
  case (Cons i "is")
  then show ?case
    by (cases rule: candidates_case [of d i])
       (simp_all add: candidates_skip candidates_take waiting_upd_waiter del: candidates_loop.simps)
qed simp

text \<open>Every observed identifier handed to the loop ends up active or among the candidates.\<close>

lemma candidates_match:
  assumes "j \<in> set is" and "\<And>q. jm_get (waitingMap d) j = Some q \<Longrightarrow> wt_observed q"
    and "jm_get (waitingMap (snd (candidates_loop is d))) j = Some q'"
  shows "wt_observed q' \<and> (isActivityActiveFor d j \<or> (j, wt_version q') \<in> set (fst (candidates_loop is d)))"
  using assms
proof (induction "is" arbitrary: d)
  case Nil
  then show ?case by simp
next
  case (Cons i "is")
  show ?case
  proof (cases rule: candidates_case [of d i])
    case skip
    note step = candidates_skip [OF skip]
    show ?thesis
    proof (cases "j \<in> set is")
      case True
      with Cons.IH [OF True Cons.prems(2)] Cons.prems(3) step show ?thesis by (simp del: candidates_loop.simps)
    next
      case False
      then have "j = i" using Cons.prems(1) by simp
      moreover have "jm_get (waitingMap d) j = Some q'"
        using Cons.prems(3) step candidates_frame [OF False, of d] by (simp del: candidates_loop.simps)
      ultimately show ?thesis using skip Cons.prems(2) by auto
    qed
  next
    case (take q)
    let ?d = "upd_waiter i (q\<lparr>wt_version := Suc (wt_version q)\<rparr>) d"
    note step = candidates_take [OF take]
    have act: "isActivityActiveFor ?d = isActivityActiveFor d" by (rule core_fields) simp
    show ?thesis
    proof (cases "j \<in> set is")
      case True
      have obs: "wt_observed r" if "jm_get (waitingMap ?d) j = Some r" for r
        using that take(2) Cons.prems(2) by (auto simp: waiting_upd_waiter split: if_splits)
      have "jm_get (waitingMap (snd (candidates_loop is ?d))) j = Some q'"
        using Cons.prems(3) by (simp add: step del: candidates_loop.simps)
      with True obs have "wt_observed q' \<and> (isActivityActiveFor ?d j \<or> (j, wt_version q') \<in> set (fst (candidates_loop is ?d)))"
        by (rule Cons.IH)
      then show ?thesis by (auto simp: step act simp del: candidates_loop.simps)
    next
      case False
      then have "j = i" using Cons.prems(1) by simp
      moreover have "q' = q\<lparr>wt_version := Suc (wt_version q)\<rparr>"
        using Cons.prems(3) step candidates_frame [OF False, of ?d] \<open>j = i\<close>
        by (simp add: waiting_upd_waiter del: candidates_loop.simps)
      ultimately show ?thesis using take step by (simp del: candidates_loop.simps)
    qed
  qed
qed

lemma after_attends:
  assumes "j \<in> set is \<and> (\<forall>q. jm_get (waitingMap d) j = Some q \<longrightarrow> wt_observed q) \<or> j \<notin> set is \<and> attended E d j"
  shows "attended E (settleAfterObservedActivity is d) j"
proof -
  obtain cs d1 where c: "candidates_loop is d = (cs, d1)" by (cases "candidates_loop is d")
  have r1: "rechecks d1 = rechecks d" using rechecks_candidates [of "is" d] by (simp add: c)
  have a1: "isActivityActiveFor d1 = isActivityActiveFor d"
    by (rule core_fields) (use core_candidates [of "is" d] in \<open>simp add: c\<close>)
  define d2 where "d2 = settleAfterObservedActivity is d"
  have d2: "waitingMap d2 = waitingMap d1" "isActivityActiveFor d2 = isActivityActiveFor d"
    "set (concat (rechecks d2)) = set cs \<union> set (concat (rechecks d))"
    using core_fields(8) [OF core_after, of "is" d] r1
    by (auto simp: d2_def settleAfterObservedActivity_def c)
  show ?thesis
    using assms
  proof
    assume "j \<in> set is \<and> (\<forall>q. jm_get (waitingMap d) j = Some q \<longrightarrow> wt_observed q)"
    then show ?thesis
      using candidates_match [of j "is" d] d2 by (auto simp: attended_def c d2_def [symmetric])
  next
    assume j: "j \<notin> set is \<and> attended E d j"
    have "jm_get (waitingMap d2) j = jm_get (waitingMap d) j"
      using candidates_frame [of j "is" d] j by (simp add: d2 c)
    with j d2 show ?thesis
      unfolding d2_def [symmetric] by (intro attended_frame [of E d j d2 E]) auto
  qed
qed

definition handled :: "doc_id \<Rightarrow> delivery \<Rightarrow> doc_id list \<Rightarrow> bool" where
  "handled j d fin \<longleftrightarrow> (\<forall>q. jm_get (waitingMap d) j = Some q \<longrightarrow> wt_observed q \<and> (isActivityActiveFor d j \<or> j \<in> set fin))"

lemma active_frames [simp]:
  "isActivityActiveFor (upd_waiter i q d) = isActivityActiveFor d"
  "isActivityActiveFor (settleWaiter i v d) = isActivityActiveFor d"
  by (rule core_fields(8), simp)+

lemma refresh_loop_handles:
  "handled j d fin \<or> j \<in> set is \<Longrightarrow> handled j (snd (refresh_loop is d fin)) (fst (refresh_loop is d fin))"
proof (induction "is" arbitrary: d fin)
  case Nil
  then show ?case by simp
next
  case (Cons i "is")
  show ?case
  proof (cases "jm_get (waitingMap d) i")
    case None
    then have "handled j d fin \<or> j \<in> set is" using Cons.prems by (auto simp: handled_def)
    from Cons.IH [OF this] None show ?thesis by simp
  next
    case (Some q)
    let ?obs = "q\<lparr>wt_observed := True, wt_version := wt_version q + 1\<rparr>"
    have s1: "handled j (upd_waiter i ?obs d) fin \<or> j \<in> set is" if "isActivityActiveFor d i"
      using Cons.prems that by (auto simp: handled_def waiting_upd_waiter)
    have s2: "handled j d (fin @ [i]) \<or> j \<in> set is" if "wt_observed q"
      using Cons.prems that Some by (auto simp: handled_def)
    have s3: "handled j (settleWaiter i None d) fin \<or> j \<in> set is"
      using Cons.prems by (auto simp: handled_def waiting_settle)
    show ?thesis
      using Cons.IH [OF s1] Cons.IH [OF s2] Cons.IH [OF s3]
      by (simp add: refresh_some [OF Some] del: refresh_loop.simps)
  qed
qed

lemma refresh_loop_frame:
  "j \<notin> set is \<Longrightarrow> jm_get (waitingMap (snd (refresh_loop is d fin))) j = jm_get (waitingMap d) j"
proof (induction "is" arbitrary: d fin)
  case Nil
  then show ?case by simp
next
  case (Cons i "is")
  then show ?case
    by (cases "jm_get (waitingMap d) i")
       (simp_all add: refresh_some refresh_none waiting_upd_waiter waiting_settle del: refresh_loop.simps)
qed

lemma refresh_loop_rechecks: "rechecks (snd (refresh_loop is d fin)) = rechecks d"
proof (induction "is" arbitrary: d fin)
  case Nil
  then show ?case by simp
next
  case (Cons i "is")
  then show ?case
    by (cases "jm_get (waitingMap d) i") (simp_all add: refresh_some refresh_none del: refresh_loop.simps)
qed

lemma refresh_loop_completed: "set (fst (refresh_loop is d fin)) \<subseteq> set fin \<union> set is"
proof (induction "is" arbitrary: d fin)
  case Nil
  then show ?case by simp
next
  case (Cons i "is")
  show ?case
  proof (cases "jm_get (waitingMap d) i")
    case None
    then show ?thesis using Cons [of d fin] by auto
  next
    case (Some q)
    then show ?thesis
      using Cons [of "upd_waiter i (q\<lparr>wt_observed := True, wt_version := wt_version q + 1\<rparr>) d" fin]
        Cons [of d "fin @ [i]"] Cons [of "settleWaiter i None d" fin]
      by (auto simp: refresh_some [OF Some] simp del: refresh_loop.simps)
  qed
qed

lemma refresh_attends:
  assumes "j \<in> set ids \<or> attended E d j"
  shows "attended E (refreshActivity (Some ids) d) j"
proof -
  obtain fin d1 where r: "refresh_loop ids d [] = (fin, d1)" by (cases "refresh_loop ids d []")
  have a1: "isActivityActiveFor d1 = isActivityActiveFor d"
    by (rule core_fields) (use core_refresh_loop [of ids d "[]"] in \<open>simp add: r\<close>)
  have rr: "rechecks d1 = rechecks d" using refresh_loop_rechecks [of ids d "[]"] by (simp add: r)
  have fin: "set fin \<subseteq> set ids" using refresh_loop_completed [of ids d "[]"] by (simp add: r)
  have cond: "j \<in> set fin \<and> (\<forall>q. jm_get (waitingMap d1) j = Some q \<longrightarrow> wt_observed q) \<or> j \<notin> set fin \<and> attended E d1 j"
  proof (cases "j \<in> set ids")
    case True
    then have "handled j d1 fin" using refresh_loop_handles [of j d "[]" ids] by (simp add: r)
    then show ?thesis by (auto simp: handled_def attended_def)
  next
    case False
    then have "jm_get (waitingMap d1) j = jm_get (waitingMap d) j"
      using refresh_loop_frame [of j ids d "[]"] by (simp add: r)
    with False assms fin a1 rr show ?thesis by (auto intro!: attended_frame [of E d j d1 E])
  qed
  show ?thesis
  proof (cases "fin = []")
    case True
    with cond show ?thesis by (simp add: refreshActivity_def r)
  next
    case False
    with after_attends [OF cond] show ?thesis by (simp add: refreshActivity_def r)
  qed
qed

lemma refresh_all_attends: "attended E (refreshActivity None d) j"
proof -
  have "refreshActivity None d = refreshActivity (Some (jm_keys (waitingMap d))) d"
    by (simp add: refreshActivity_def)
  moreover have "j \<in> set (jm_keys (waitingMap d)) \<or> attended E d j"
  proof (cases "jm_get (waitingMap d) j")
    case None
    then show ?thesis by (simp add: attended_def)
  next
    case (Some q)
    then show ?thesis using jsm.keys_get [of j "waitingMap d"] by simp
  qed
  ultimately show ?thesis using refresh_attends by metis
qed

lemma recheck_attends:
  assumes "\<And>j. attended (E \<union> set cs) d j"
  shows "attended E (recheck_loop cs rs d) j"
  using assms
proof (induction cs arbitrary: rs d)
  case Nil
  then show ?case by simp
next
  case (Cons c cs)
  obtain i ver where c: "c = (i, ver)" by (cases c)
  define r where "r = (case rs of [] \<Rightarrow> None | x # _ \<Rightarrow> x)"
  define d1 where "d1 = (case jm_get (waitingMap d) i of
      None \<Rightarrow> d
    | Some queue \<Rightarrow>
        if wt_version queue \<noteq> ver then d
        else (case r of
                Some l \<Rightarrow> settleWaiter i (Some l) d
              | None \<Rightarrow> if isActivityActiveFor d i then refreshActivity (Some [i]) d else settleWaiter i None d))"
  have "attended (E \<union> set cs) d1 k" for k
  proof (cases "k = i")
    case False
    have "attended (E \<union> set cs) d k"
      using Cons.prems [of k] False by (auto simp: attended_def c)
    then show ?thesis
      using refresh_attends [of k "[i]" "E \<union> set cs" d] False
      by (auto simp: d1_def waiting_settle intro: attended_frame split: option.split)
  next
    case True
    have old: "attended (E \<union> set cs) d i" if "\<And>q. jm_get (waitingMap d) i = Some q \<Longrightarrow> wt_version q \<noteq> ver"
      using Cons.prems [of i] that by (auto simp: attended_def c)
    have settled: "attended (E \<union> set cs) (settleWaiter i v d) i" for v
      by (simp add: attended_def waiting_settle)
    have refreshed: "attended (E \<union> set cs) (refreshActivity (Some [i]) d) i"
      by (rule refresh_attends) simp
    show ?thesis
      unfolding True d1_def using old settled refreshed by (auto split: option.split)
  qed
  then have "attended E (recheck_loop cs (tl rs) d1) j" by (rule Cons.IH)
  moreover have "recheck_loop (c # cs) rs d = recheck_loop cs (tl rs) d1"
    unfolding c recheck_loop.simps Let_def d1_def r_def ..
  ultimately show ?case by simp
qed

section \<open>The coordinator keeps the waiters attended\<close>

text \<open>Every waiter outside \<open>S\<close> is attended.\<close>

definition attended_but :: "doc_id set \<Rightarrow> delivery \<Rightarrow> bool" where
  "attended_but S d \<longleftrightarrow> (\<forall>j. j \<notin> S \<longrightarrow> attended {} d j)"

definition flags :: "delivery \<Rightarrow> nat \<times> bool \<times> bool \<times> bool" where
  "flags d = (finiteActivity d, finiteActivityWasActive d, disposed d, listening d)"

lemma flags_core: "core d' = core d \<Longrightarrow> flags d' = flags d"
  by (simp add: core_def flags_def)

lemma flags_notify [simp]: "flags (notifyChanged ids d) = flags d"
  by (rule flags_core) simp

lemma flags_release [simp]: "flags (releaseClaim c d) = flags d"
proof -
  have "flags (notifyChanged ids (d\<lparr>claims := x, claimCounts := y, claimReleases := z\<rparr>)) = flags d" for ids x y z
    by simp (simp add: flags_def)
  then show ?thesis by (simp add: releaseClaim_def upd_claim_def Let_def flags_def)
qed

lemma flags_arm [simp]: "flags (armStallTimer c d) = flags d"
  by (simp add: armStallTimer_def upd_claim_def Let_def flags_def)

lemma flags_settleClaim [simp]: "flags (settleClaim c i d) = flags d"
proof -
  have "flags (notifyChanged ids (d\<lparr>claims := x, claimCounts := y\<rparr>)) = flags d" for ids x y
    by simp (simp add: flags_def)
  then show ?thesis by (simp add: settleClaim_def upd_claim_def Let_def)
qed

lemma flags_claim:
  assumes "claim ids t d = Inr (k, d')"
  shows "flags d' = flags d"
proof -
  have "flags (armStallTimer c (notifyChanged ids (d\<lparr>claims := x, claimCounts := y, claimReleases := z\<rparr>))) = flags d" for c ids x y z
    by simp (simp add: flags_def)
  with assms show ?thesis by (auto simp: claim_def Let_def split: if_splits)
qed

lemma listening_flags: "flags d' = flags d \<Longrightarrow> listening d' = listening d"
  by (simp add: flags_def)

lemma attended_but_frame:
  assumes "attended_but S d" and "waitingMap d' = waitingMap d" and "rechecks d' = rechecks d"
    and "\<And>j. j \<notin> S' \<Longrightarrow> isActivityActiveFor d j \<Longrightarrow> isActivityActiveFor d' j" and "S \<subseteq> S'"
  shows "attended_but S' d'"
  unfolding attended_but_def
proof (intro allI impI)
  fix j assume j: "j \<notin> S'"
  then have "attended {} d j" using assms(1,5) by (auto simp: attended_but_def)
  then show "attended {} d' j"
    by (rule attended_frame) (use assms(2-4) j in simp_all)
qed

text \<open>Notifying the listeners of the identifiers whose activity changed attends them again.\<close>

lemma attended_but_notify:
  assumes "attended_but (S \<union> set ids) d" and "listening d"
  shows "attended_but S (notifyChanged (Some ids) d)"
  using assms by (auto simp: attended_but_def notifyChanged_def intro!: refresh_attends)

lemma attended_but_arm:
  assumes "attended_but S d" shows "attended_but S (armStallTimer c d)"
  by (rule attended_but_frame [OF assms])
     (simp_all add: armStallTimer_def upd_claim_def Let_def isActivityActiveFor_def isClaimActiveFor_def isFiniteReplicationActive_def)

lemma removeActiveIds_other: "i \<notin> set ids \<Longrightarrow> jm_get (removeActiveIds ids m) i = jm_get m i"
  unfolding removeActiveIds_def by (induction ids arbitrary: m) (auto simp: Let_def split: option.splits)

lemma attended_but_removed:
  assumes "attended_but S d"
  shows "attended_but (S \<union> set ids) (d\<lparr>claims := cs, claimCounts := removeActiveIds ids (claimCounts d), claimReleases := rs\<rparr>)"
  by (rule attended_but_frame [OF assms])
     (auto simp: isActivityActiveFor_def isClaimActiveFor_def isFiniteReplicationActive_def jm_has_def removeActiveIds_other)

lemma attended_but_release:
  assumes "attended_but S d" and "listening d"
  shows "attended_but S (releaseClaim c d)"
proof (cases "cl_released (claims d ! c)")
  case True
  with assms show ?thesis by (simp add: releaseClaim_def)
next
  case False
  define ids where "ids = cl_pending (claims d ! c)"
  define d2 where "d2 = d\<lparr>claims := (claims d)[c := (claims d ! c)\<lparr>cl_released := True, cl_armed := False, cl_pending := []\<rparr>],
      claimCounts := removeActiveIds ids (claimCounts d), claimReleases := filter (\<lambda>k. k \<noteq> c) (claimReleases d)\<rparr>"
  have d2: "attended_but (S \<union> set ids) d2" unfolding d2_def by (rule attended_but_removed [OF assms(1)])
  have "releaseClaim c d = (if length ids > 0 then notifyChanged (Some ids) d2 else d2)"
    using False by (simp add: releaseClaim_def upd_claim_def Let_def d2_def ids_def)
  moreover have "listening d2" using assms(2) by (simp add: d2_def)
  ultimately show ?thesis using attended_but_notify [OF d2] d2 by (cases "ids = []") simp_all
qed

lemma attended_but_settleClaim:
  assumes "attended_but S d" and "listening d"
  shows "attended_but S (settleClaim c i d)"
proof (cases "cl_released (claims d ! c) \<or> i \<notin> set (cl_pending (claims d ! c))")
  case True
  with assms show ?thesis by (auto simp: settleClaim_def)
next
  case False
  define cs where "cs = (claims d)[c := (claims d ! c)\<lparr>cl_pending := filter (\<lambda>j. j \<noteq> i) (cl_pending (claims d ! c))\<rparr>]"
  define d1 where "d1 = d\<lparr>claims := cs, claimCounts := removeActiveIds [i] (claimCounts d)\<rparr>"
  define d2 where "d2 = notifyChanged (Some [i]) d1"
  have "attended_but (S \<union> set [i]) d1"
    unfolding d1_def
    by (rule attended_but_frame [OF assms(1)])
       (auto simp: isActivityActiveFor_def isClaimActiveFor_def isFiniteReplicationActive_def jm_has_def removeActiveIds_other)
  moreover have "listening d1" using assms(2) by (simp add: d1_def)
  ultimately have "attended_but S d2" unfolding d2_def by (rule attended_but_notify)
  moreover have "listening d2" using listening_flags [of d2 d1] assms(2) by (simp add: d2_def d1_def)
  moreover have "settleClaim c i d = (if cl_pending (claims d2 ! c) = [] then releaseClaim c d2 else armStallTimer c d2)"
    using False by (simp add: settleClaim_def upd_claim_def Let_def d2_def d1_def cs_def)
  ultimately show ?thesis by (simp add: attended_but_release attended_but_arm)
qed

lemma add_counts_keeps: "jm_get m i \<noteq> None \<Longrightarrow> jm_get (add_counts ids m) i \<noteq> None"
  unfolding add_counts_def by (induction ids arbitrary: m) auto

lemma attended_but_claim:
  assumes "attended_but S d" and "listening d" and "claim ids t d = Inr (k, d')"
  shows "attended_but S d'"
proof (cases "js_unique ids = []")
  case True
  with assms show ?thesis by (auto simp: claim_def split: if_splits)
next
  case False
  define d1 where "d1 = d\<lparr>claims := claims d @ [\<lparr>cl_pending = js_unique ids, cl_released = False, cl_armed = False,
      cl_timeout = (case t of None \<Rightarrow> 300000 | Some t \<Rightarrow> t)\<rparr>],
    claimCounts := add_counts (js_unique ids) (claimCounts d), claimReleases := claimReleases d @ [length (claims d)]\<rparr>"
  have "attended_but (S \<union> set (js_unique ids)) d1"
    by (rule attended_but_frame [OF assms(1)])
       (use add_counts_keeps [of "claimCounts d" _ "js_unique ids"] in
         \<open>auto simp: d1_def isActivityActiveFor_def isClaimActiveFor_def isFiniteReplicationActive_def jm_has_def\<close>)
  moreover have "listening d1" using assms(2) by (simp add: d1_def)
  ultimately have "attended_but S (notifyChanged (Some (js_unique ids)) d1)" by (rule attended_but_notify)
  moreover have "d' = armStallTimer (length (claims d)) (notifyChanged (Some (js_unique ids)) d1)"
    using assms(3) False by (auto simp: claim_def Let_def d1_def split: if_splits)
  ultimately show ?thesis by (simp add: attended_but_arm)
qed

lemma attended_but_enqueue:
  "attended_but S d \<Longrightarrow> attended_but (S \<union> set ids) (snd (enqueue_all ids d))"
proof (induction ids arbitrary: S d)
  case Nil
  then show ?case by simp
next
  case (Cons i ids)
  have w: "jm_get (waitingMap (snd (enqueueWaiting i d))) j = jm_get (waitingMap d) j" if "j \<noteq> i" for j
    using that by (auto simp: enqueueWaiting_def split: option.split)
  have r: "rechecks (snd (enqueueWaiting i d)) = rechecks d"
    and a: "isActivityActiveFor (snd (enqueueWaiting i d)) = isActivityActiveFor d"
    by (auto simp: enqueueWaiting_def split: option.split intro!: core_fields(8))
  have "attended_but (insert i S) (snd (enqueueWaiting i d))"
    using Cons.prems by (auto simp: attended_but_def w r a intro: attended_frame)
  from Cons.IH [OF this] show ?case
    by (simp add: split: prod.split) (metis snd_conv)
qed

lemma core_enqueue_all: "core (snd (enqueue_all ids d)) = core d"
proof (induction ids arbitrary: d)
  case Nil
  then show ?case by simp
next
  case (Cons i ids)
  have "core (snd (enqueueWaiting i d)) = core d" by (simp add: enqueueWaiting_def split: option.split)
  with Cons [of "snd (enqueueWaiting i d)"] show ?case by (auto split: prod.splits)
qed

lemma flags_claim_or_skip [simp]: "flags (claim_or_skip ids d) = flags d"
  using flags_claim [of ids None d] by (auto simp: claim_or_skip_def split: sum.split)

lemma claims_fold:
  "flags (foldl (\<lambda>d c. claim_or_skip c d) d cs) = flags d"
  "attended_but S d \<Longrightarrow> listening d \<Longrightarrow> attended_but S (foldl (\<lambda>d c. claim_or_skip c d) d cs)"
proof (induction cs arbitrary: d)
  case Nil
  { case 1 then show ?case by simp next case 2 then show ?case by simp }
next
  case (Cons c cs)
  { case 1 show ?case using Cons(1) [of "claim_or_skip c d"] by simp
  next
    case 2
    have "attended_but S (claim_or_skip c d)"
      using attended_but_claim [OF 2] 2 by (auto simp: claim_or_skip_def split: sum.split)
    moreover have "listening (claim_or_skip c d)" using 2(2) listening_flags [OF flags_claim_or_skip] by simp
    ultimately show ?case using Cons(2) [of "claim_or_skip c d"] by simp }
qed

lemma waiting_read_flags [simp]: "flags (snd (waiting_read ids options claimed d)) = flags d"
proof -
  obtain ks d1 where e: "enqueue_all ids d = (ks, d1)" by (cases "enqueue_all ids d")
  have "flags d1 = flags d" by (rule flags_core) (use core_enqueue_all [of ids d] in \<open>simp add: e\<close>)
  moreover have "flags (refreshActivity x y) = flags y" for x y by (rule flags_core) simp
  ultimately show ?thesis by (simp add: waiting_read_def e claims_fold(1))
qed

lemma waiting_read_attends:
  assumes "attended_but {} d" and "listening d"
  shows "attended_but {} (snd (waiting_read ids options claimed d))"
proof -
  obtain ks d1 where e: "enqueue_all ids d = (ks, d1)" by (cases "enqueue_all ids d")
  have d1: "attended_but (set ids) d1" using attended_but_enqueue [OF assms(1), of ids] by (simp add: e)
  have "listening d1"
    using listening_flags [OF flags_core [OF core_enqueue_all, of ids d]] assms(2) by (simp add: e)
  define d2 where "d2 = (if \<not> ro_preventRemoteRequest options then foldl (\<lambda>d c. claim_or_skip c d) d1 claimed else d1)"
  have "attended_but (set ids) d2" using claims_fold(2) [OF d1 \<open>listening d1\<close>] d1 by (simp add: d2_def)
  then have "attended_but {} (refreshActivity (Some ids) d2)"
    by (auto simp: attended_but_def intro: refresh_attends)
  with assms(1) show ?thesis by (simp add: waiting_read_def e d2_def)
qed

section \<open>Steps\<close>

text \<open>
  What may happen to the pair of layers, in any order: a read, an operation of one of the claims
  handed out, a stall timer that is armed, a change of the finite activity, an arrival, an answer
  of a recheck, a tear down and a disposal.
\<close>

inductive delivery_step :: "delivery \<Rightarrow> delivery \<Rightarrow> bool" where
  read: "delivery_step d (snd (waiting_read ids options claimed d))"
| claimed: "claim ids t d = Inr (k, d') \<Longrightarrow> delivery_step d d'"
| settled: "c < length (claims d) \<Longrightarrow> delivery_step d (settleClaim c i d)"
| released: "c < length (claims d) \<Longrightarrow> delivery_step d (releaseClaim c d)"
| touched: "c < length (claims d) \<Longrightarrow> delivery_step d (touchClaim c d)"
| stalled: "c < length (claims d) \<Longrightarrow> cl_armed (claims d ! c) \<Longrightarrow> delivery_step d (snd (stallFired c d))"
| activity: "delivery_step d (finiteActivityChanged n d)"
| arrived: "delivery_step d (onChunkArrived doc deleted d)"
| missing: "delivery_step d (onMissingChunk i d)"
| answered: "k < length (rechecks d) \<Longrightarrow>
    (case answer of None \<Rightarrow> True | Some rs \<Rightarrow> list_all2 (\<lambda>c r. id_matches (fst c) r) (rechecks d ! k) rs) \<Longrightarrow>
    delivery_step d (recheckAnswered k answer d)"
| tornDown: "delivery_step d (arrival_tearDown d)"
| disposed: "delivery_step d (dispose d)"

lemma evolves_waiting_read [evolving]: "evolves d (snd (waiting_read ids options claimed d))"
proof -
  obtain ks d1 where e: "enqueue_all ids d = (ks, d1)" by (cases "enqueue_all ids d")
  have e1: "evolves d d1" using evolves_enqueue_all [of d ids] by (simp add: e)
  have "evolves d1 (foldl (\<lambda>d c. claim_or_skip c d) d1 claimed)" by (rule evolves_foldl, rule evolves_claim_or_skip)
  then show ?thesis
    using evolves_trans [OF e1 evolves_refresh] evolves_trans [OF evolves_trans [OF e1] evolves_refresh] evolves_refl
    by (simp add: waiting_read_def e)
qed

lemma evolves_step: "delivery_step d d' \<Longrightarrow> evolves d d'"
  by (induction rule: delivery_step.induct) (auto simp: touchClaim_def intro: evolving evolves_claim evolves_recheck)

lemma evolves_steps: "delivery_step\<^sup>*\<^sup>* d d' \<Longrightarrow> evolves d d'"
  by (induction rule: rtranclp_induct) (auto intro: evolves_refl evolves_trans evolves_step)

text \<open>Nothing is claimed after the disposal.\<close>

definition claims_inv :: "delivery \<Rightarrow> bool" where
  "claims_inv d \<longleftrightarrow> claims_ok d \<and> (disposed d \<longrightarrow> claimReleases d = [])"

lemma claims_inv_core: "core d' = core d \<Longrightarrow> claims_inv d \<Longrightarrow> claims_inv d'"
  using claims_ok_core [of d' d] by (simp add: claims_inv_def core_def)

lemma disposed_flags: "flags d' = flags d \<Longrightarrow> disposed d' = disposed d"
  by (simp add: flags_def)

lemma releases_shrink:
  "set (claimReleases (releaseClaim c d)) \<subseteq> set (claimReleases d)"
  "claimReleases (armStallTimer c d) = claimReleases d"
  "set (claimReleases (settleClaim c i d)) \<subseteq> set (claimReleases d)"
proof -
  have n: "claimReleases (notifyChanged ids d') = claimReleases d'" for ids d' by (rule core_fields) simp
  show r: "set (claimReleases (releaseClaim c d)) \<subseteq> set (claimReleases d)" for d
    by (auto simp: releaseClaim_def upd_claim_def Let_def n)
  show a: "claimReleases (armStallTimer c d) = claimReleases d" for d
    by (simp add: armStallTimer_def upd_claim_def Let_def)
  show "set (claimReleases (settleClaim c i d)) \<subseteq> set (claimReleases d)"
  proof -
    have "set (claimReleases (releaseClaim c (notifyChanged ids (d\<lparr>claims := x, claimCounts := y\<rparr>)))) \<subseteq> set (claimReleases d)"
      for ids x y using r [of "notifyChanged ids (d\<lparr>claims := x, claimCounts := y\<rparr>)"] by (simp add: n)
    then show ?thesis by (simp add: settleClaim_def upd_claim_def Let_def a n)
  qed
qed

lemma claims_inv_claim: "claims_inv d \<Longrightarrow> claim ids t d = Inr (k, d') \<Longrightarrow> claims_inv d'"
  using disposed_flags [OF flags_claim, of ids t d k d'] claims_ok_claim [of d ids t k d']
  by (auto simp: claims_inv_def) (simp add: claim_def)

lemma claims_inv_read: "claims_inv d \<Longrightarrow> claims_inv (snd (waiting_read ids options claimed d))"
proof -
  assume inv: "claims_inv d"
  obtain ks d1 where e: "enqueue_all ids d = (ks, d1)" by (cases "enqueue_all ids d")
  have d1: "claims_inv d1" using claims_inv_core [OF core_enqueue_all, of d ids] inv by (simp add: e)
  have "claims_inv d' \<Longrightarrow> claims_inv (claim_or_skip c d')" for c d'
    by (auto simp: claim_or_skip_def intro: claims_inv_claim split: sum.split)
  then have fold: "claims_inv d' \<Longrightarrow> claims_inv (foldl (\<lambda>d c. claim_or_skip c d) d' claimed)" for d'
    by (induction claimed arbitrary: d') auto
  show ?thesis
    using inv claims_inv_core [OF core_refresh d1] claims_inv_core [OF core_refresh fold [OF d1]]
    by (simp add: waiting_read_def e)
qed

lemma core_recheck_loop: "core (recheck_loop cs rs d) = core d"
proof (induction cs arbitrary: rs d)
  case Nil
  then show ?case by simp
next
  case (Cons c cs)
  then show ?case by (cases c) (simp add: Let_def split: option.split)
qed

lemma core_clear: "core (foldl (\<lambda>d i. settleWaiter i None d) d is) = core d"
  by (induction "is" arbitrary: d) simp_all

lemma core_operations [simp]:
  "core (onChunkArrived doc deleted d) = core d" "core (onMissingChunk i d) = core d"
  "core (recheckAnswered k answer d) = core d" "core (clearWaiting d) = core d"
  by (simp_all add: onChunkArrived_def onMissingChunk_def recheckAnswered_def clearWaiting_def Let_def
      core_recheck_loop core_clear)

lemma claims_inv_step: "claims_inv d \<Longrightarrow> delivery_step d d' \<Longrightarrow> claims_inv d'"
proof -
  have arm: "claims_inv (armStallTimer c d)" if "claims_inv d" "c < length (claims d)" for c d
    using that claims_ok_arm disposed_flags [OF flags_arm] by (simp add: claims_inv_def releases_shrink(2))
  have rel: "claims_inv (releaseClaim c d)" if "claims_inv d" "c < length (claims d)" for c d
    using that claims_ok_release disposed_flags [OF flags_release] releases_shrink(1) [of c d]
    by (auto simp: claims_inv_def)
  have stall: "claims_inv (upd_claim c (\<lambda>cl. cl\<lparr>cl_armed := False\<rparr>) d)" if "claims_inv d" "c < length (claims d)" for c d
    using claims_ok_disarm [of d c] that by (simp add: claims_inv_def) (simp add: upd_claim_def)
  have fin: "claims_inv (finiteActivityChanged n d)" if "claims_inv d" for n d
  proof -
    have "claims_inv (d\<lparr>finiteActivity := n, finiteActivityWasActive := b\<rparr>)" "claims_inv (d\<lparr>finiteActivity := n\<rparr>)" for b
      using that by (simp_all add: claims_inv_def claims_ok_def)
    then show ?thesis by (auto simp: finiteActivityChanged_def Let_def intro: claims_inv_core [OF core_notify])
  qed
  assume inv: "claims_inv d" and "delivery_step d d'"
  from this(2) inv show ?thesis
  proof (induction rule: delivery_step.induct)
    case (settled c d i)
    then show ?case
      using claims_ok_settleClaim disposed_flags [OF flags_settleClaim] releases_shrink(3) [of c i d]
      by (auto simp: claims_inv_def)
  next
    case (stalled c d)
    then show ?case using rel [OF stall [OF stalled(3,1)], of c] by (simp add: stallFired_def upd_claim_def)
  next
    case (tornDown d)
    then have "claims_inv (d\<lparr>listening := False\<rparr>)" by (simp add: claims_inv_def claims_ok_def)
    then show ?case unfolding arrival_tearDown_def by (rule claims_inv_core [OF core_operations(4)])
  next
    case (disposed d)
    let ?d2 = "foldl (\<lambda>d c. releaseClaim c d) (d\<lparr>disposed := True\<rparr>) (claimReleases d)"
    have "claims_ok (d\<lparr>disposed := True\<rparr>)" using disposed by (simp add: claims_inv_def claims_ok_def)
    moreover have "set (claimReleases d) \<subseteq> {..<length (claims (d\<lparr>disposed := True\<rparr>))}"
      using disposed by (auto simp: claims_inv_def claims_ok_def)
    ultimately have "claimReleases ?d2 = []" using release_all [of "d\<lparr>disposed := True\<rparr>" "claimReleases d"] by simp
    then have "claimReleases (dispose d) = []" if "\<not> delivery.disposed d" using that by (simp add: dispose_def Let_def)
    moreover have "claims_ok (dispose d)" using disposed by (simp add: claims_inv_def claims_ok_dispose)
    ultimately show ?case using disposed by (cases "delivery.disposed d") (auto simp: claims_inv_def dispose_def)
  qed (auto simp: touchClaim_def intro: arm rel fin claims_inv_claim claims_inv_read claims_inv_core [OF core_operations(1)]
      claims_inv_core [OF core_operations(2)] claims_inv_core [OF core_operations(3)])
qed

definition watched :: "delivery \<Rightarrow> bool" where
  "watched d \<longleftrightarrow> (\<not> disposed d \<and> listening d \<longrightarrow>
     (finiteActivityWasActive d \<longleftrightarrow> finiteActivity d > 0) \<and> attended_but {} d)"

lemma watched_flags:
  assumes "watched d" and "flags d' = flags d" and "attended_but {} d \<Longrightarrow> listening d \<Longrightarrow> attended_but {} d'"
  shows "watched d'"
  using assms by (auto simp: watched_def flags_def)

lemma attended_but_settle: "attended_but {} d \<Longrightarrow> attended_but {} (settleWaiter i v d)"
  by (auto simp: attended_but_def attended_def waiting_settle)

lemma recheck_attended_but:
  assumes "attended_but {} d"
  shows "attended_but {} (recheckAnswered k answer d)"
proof (cases "k < length (rechecks d)")
  case False
  with assms show ?thesis by (simp add: recheckAnswered_def)
next
  case True
  define d1 where "d1 = d\<lparr>rechecks := take k (rechecks d) @ drop (Suc k) (rechecks d)\<rparr>"
  have "concat (rechecks d) = concat (take k (rechecks d)) @ (rechecks d ! k) @ concat (drop (Suc k) (rechecks d))"
    using id_take_nth_drop [OF True] by (metis concat.simps(2) concat_append)
  then have "set (concat (rechecks d)) = set (rechecks d ! k) \<union> set (concat (rechecks d1))"
    by (auto simp: d1_def)
  then have "attended ({} \<union> set (rechecks d ! k)) d1 j" for j
    using assms
    by (auto simp: attended_but_def d1_def isActivityActiveFor_def isClaimActiveFor_def isFiniteReplicationActive_def
        intro: attended_frame [of "{}" d j])
  then have "attended {} (recheck_loop (rechecks d ! k) rs d1) j" for rs j by (rule recheck_attends)
  then show ?thesis using True by (simp add: recheckAnswered_def attended_but_def Let_def d1_def)
qed

lemma activity_attends:
  assumes "watched d"
  shows "watched (finiteActivityChanged n d)"
proof (cases "disposed d \<or> \<not> listening d")
  case True
  moreover have "flags (finiteActivityChanged n d) = (n, if disposed d then finiteActivityWasActive d else n > 0, disposed d, listening d)"
    by (auto simp: finiteActivityChanged_def Let_def) (simp_all add: flags_def)
  ultimately show ?thesis by (auto simp: watched_def flags_def)
next
  case False
  with assms have was: "finiteActivityWasActive d \<longleftrightarrow> finiteActivity d > 0" and att: "attended_but {} d"
    by (simp_all add: watched_def)
  show ?thesis
  proof (cases "(n > 0) = finiteActivityWasActive d")
    case True
    then have "attended_but {} (d\<lparr>finiteActivity := n\<rparr>)"
      by (intro attended_but_frame [OF att])
         (auto simp: isActivityActiveFor_def isClaimActiveFor_def isFiniteReplicationActive_def was)
    then show ?thesis using True by (simp add: finiteActivityChanged_def Let_def watched_def)
  next
    case changed: False
    let ?d = "d\<lparr>finiteActivity := n, finiteActivityWasActive := n > 0\<rparr>"
    have "flags (notifyChanged None ?d) = flags ?d" by simp
    then have "finiteActivityWasActive (notifyChanged None ?d) = (finiteActivity (notifyChanged None ?d) > 0)"
      by (simp add: flags_def)
    moreover have "attended_but {} (notifyChanged None ?d)"
      using False by (simp add: attended_but_def notifyChanged_def refresh_all_attends)
    ultimately show ?thesis using changed False by (auto simp: finiteActivityChanged_def Let_def watched_def)
  qed
qed

lemma watched_step: "watched d \<Longrightarrow> delivery_step d d' \<Longrightarrow> watched d'"
proof -
  assume inv: "watched d" and "delivery_step d d'"
  from this(2) inv show ?thesis
  proof (induction rule: delivery_step.induct)
    case (stalled c d)
    let ?d = "upd_claim c (\<lambda>cl. cl\<lparr>cl_armed := False\<rparr>) d"
    have "attended_but {} ?d" if "attended_but {} d"
      by (rule attended_but_frame [OF that])
         (simp_all add: upd_claim_def isActivityActiveFor_def isClaimActiveFor_def isFiniteReplicationActive_def)
    then have w: "watched ?d" by (intro watched_flags [OF stalled(3)]) (simp_all add: flags_def upd_claim_def)
    show ?case by (rule watched_flags [OF w]) (simp_all add: stallFired_def attended_but_release)
  next
    case (tornDown d)
    have "flags (arrival_tearDown d) = flags (d\<lparr>listening := False\<rparr>)"
      by (rule flags_core) (simp add: arrival_tearDown_def)
    then show ?case by (simp add: watched_def flags_def)
  next
    case (disposed d)
    have f: "flags (foldl (\<lambda>d c. releaseClaim c d) d cs) = flags d" for d cs by (induction cs arbitrary: d) simp_all
    show ?case
    proof (cases "delivery.disposed d")
      case True
      with disposed show ?thesis by (simp add: dispose_def)
    next
      case False
      then show ?thesis by (simp add: dispose_def Let_def watched_def)
    qed
  next
    case (settled c d i)
    then show ?case by (intro watched_flags [OF settled(2)]) (simp_all add: attended_but_settleClaim)
  next
    case (released c d)
    then show ?case by (intro watched_flags [OF released(2)]) (simp_all add: attended_but_release)
  next
    case (touched c d)
    then show ?case by (intro watched_flags [OF touched(2)]) (simp_all add: attended_but_arm touchClaim_def)
  next
    case (claimed ids t d k d')
    then show ?case by (intro watched_flags [OF claimed(2)]) (auto simp: flags_claim intro: attended_but_claim)
  next
    case (read d ids options claimed)
    then show ?case by (intro watched_flags [OF read]) (simp_all add: waiting_read_attends)
  next
    case (activity d n)
    then show ?case by (rule activity_attends)
  next
    case (arrived d doc deleted)
    then show ?case
      by (intro watched_flags [OF arrived] flags_core core_operations(1)) (simp add: onChunkArrived_def attended_but_settle)
  next
    case (missing d i)
    then show ?case
      by (intro watched_flags [OF missing] flags_core core_operations(2)) (simp add: onMissingChunk_def attended_but_settle)
  next
    case (answered k d answer)
    then show ?case by (intro watched_flags [OF answered(3)] flags_core core_operations(3)) (rule recheck_attended_but)
  qed
qed

lemma new_delivery_inv: "claims_inv (new_delivery n)" "watched (new_delivery n)" "waiters_ok (new_delivery n)"
  by (simp_all add: new_delivery_def claims_inv_def claims_ok_def pending_for_def watched_def attended_but_def
      attended_def waiters_ok_def wkeys_def jm_wf_def)

interpretation delivery: transition_invariant delivery_step "\<lambda>d. \<exists>n. d = new_delivery n"
  "\<lambda>d. claims_inv d \<and> watched d \<and> waiters_ok d"
  by unfold_locales
    (auto simp: new_delivery_inv intro: claims_inv_step watched_step dest: evolves_step simp: evolves_def)

section \<open>The recheck settles what it was started for\<close>

lemma recheck_keeps_settled:
  "jm_get (waitingMap d) i = None \<Longrightarrow> jm_get (waitingMap (recheck_loop cs rs d)) i = None"
proof (induction cs arbitrary: rs d)
  case Nil
  then show ?case by simp
next
  case (Cons c cs)
  have r: "jm_get (waitingMap (refreshActivity (Some [j]) d)) i = None" if "isActivityActiveFor d j" for j
    using that Cons.prems by (auto simp: refreshActivity_def split: option.split)
  show ?case
    using Cons.prems by (cases c) (auto simp: Let_def waiting_settle r intro!: Cons.IH split: option.splits)
qed

lemma recheck_settles:
  assumes "(i, wt_version q) \<in> set cs" and "jm_get (waitingMap d) i = Some q" and "\<not> isActivityActiveFor d i"
  shows "jm_get (waitingMap (recheck_loop cs rs d)) i = None"
  using assms
proof (induction cs arbitrary: rs d)
  case Nil
  then show ?case by simp
next
  case (Cons c cs)
  obtain k ver where c: "c = (k, ver)" by (cases c)
  define d1 where "d1 = (case jm_get (waitingMap d) k of
      None \<Rightarrow> d
    | Some queue \<Rightarrow>
        if wt_version queue \<noteq> ver then d
        else (case (case rs of [] \<Rightarrow> None | r # _ \<Rightarrow> r) of
                Some l \<Rightarrow> settleWaiter k (Some l) d
              | None \<Rightarrow> if isActivityActiveFor d k then refreshActivity (Some [k]) d else settleWaiter k None d))"
  have step: "recheck_loop (c # cs) rs d = recheck_loop cs (tl rs) d1"
    unfolding c recheck_loop.simps Let_def d1_def ..
  show ?case
  proof (cases "k = i \<and> ver = wt_version q")
    case True
    then have "jm_get (waitingMap d1) i = None" using Cons.prems by (simp add: d1_def waiting_settle split: option.split)
    then show ?thesis unfolding step by (rule recheck_keeps_settled)
  next
    case False
    have "(i, wt_version q) \<in> set cs" using False Cons.prems(1) by (auto simp: c)
    moreover have "jm_get (waitingMap d1) i = Some q"
      using False Cons.prems(2,3) unfolding d1_def
      by (auto simp: waiting_settle refreshActivity_def waiting_upd_waiter split: option.split)
    moreover have "isActivityActiveFor d1 = isActivityActiveFor d"
      by (rule core_fields(8)) (simp add: d1_def split: option.split)
    ultimately show ?thesis unfolding step using Cons.IH Cons.prems(3) by simp
  qed
qed

lemma answered_settles:
  assumes "(i, wt_version q) \<in> set (rechecks d ! k)" and "k < length (rechecks d)"
    and "jm_get (waitingMap d) i = Some q" and "\<not> isActivityActiveFor d i"
  shows "jm_get (waitingMap (recheckAnswered k answer d)) i = None"
proof -
  let ?d1 = "d\<lparr>rechecks := take k (rechecks d) @ drop (Suc k) (rechecks d)\<rparr>"
  have "isActivityActiveFor ?d1 = isActivityActiveFor d" by (rule core_fields(8)) simp
  then show ?thesis
    using assms(2) recheck_settles [OF assms(1), of ?d1] assms(3,4) by (simp add: recheckAnswered_def Let_def)
qed

lemma count_keys: "count (mset (map fst l)) k = length (filter (\<lambda>e. fst e = k) l)"
  by (induction l) auto

lemma keys_once:
  assumes "waiters_ok d"
  shows "count (wkeys (waitingMap d)) k + length (filter (\<lambda>e. fst e = k) (settledLog d)) \<le> 1"
proof -
  have "count (wkeys (waitingMap d)) k + length (filter (\<lambda>e. fst e = k) (settledLog d)) = count (mset [0..<nextKey d]) k"
    using assms unfolding waiters_ok_def count_keys [symmetric] count_union [symmetric] by simp
  also have "\<dots> \<le> 1" using distinct_count_atmost_1 [of "[0..<nextKey d]"] by (simp del: mset_upt)
  finally show ?thesis .
qed

lemma wowners_get:
  assumes "(k, i) \<in> wowners m" and "jm_wf m"
  shows "\<exists>q. jm_get m i = Some q \<and> wt_key q = k"
proof -
  obtain q where "(i, q) \<in> set m" "wt_key q = k" using assms(1) by (auto simp: wowners_def)
  moreover from this assms(2) have "jm_get m i = Some q" by (simp add: jm_wf_def map_of_eq_Some_iff)
  ultimately show ?thesis by blast
qed

lemma get_wkeys: "jm_get m i = Some q \<Longrightarrow> 0 < count (wkeys m) (wt_key q)"
  unfolding wkeys_def by (force simp: count_greater_zero_iff dest: map_of_SomeD)

lemma length1_filter:
  assumes "length (filter P l) \<le> 1" and "e \<in> set l" and "P e"
  shows "filter P l = [e]"
proof -
  have "e \<in> set (filter P l)" using assms(2,3) by simp
  with assms(1) show ?thesis by (cases "filter P l") auto
qed

lemma owner_once:
  assumes ok: "waiters_ok d" and own: "(k, i) \<in> owners d"
  shows "filter (\<lambda>e. fst e = k) (settledLog d) = [] \<and> (\<exists>q. jm_get (waitingMap d) i = Some q \<and> wt_key q = k) \<or>
    (\<exists>v. filter (\<lambda>e. fst e = k) (settledLog d) = [(k, i, v)] \<and> id_matches i v \<and>
       (\<nexists>q. jm_get (waitingMap d) i = Some q \<and> wt_key q = k))"
  using own unfolding owners_def
proof
  assume "(k, i) \<in> wowners (waitingMap d)"
  then obtain q where q: "jm_get (waitingMap d) i = Some q" "wt_key q = k"
    using wowners_get [of k i "waitingMap d"] ok unfolding waiters_ok_def by blast
  then have "filter (\<lambda>e. fst e = k) (settledLog d) = []"
    using keys_once [OF ok, of k] get_wkeys [OF q(1)] by (cases "filter (\<lambda>e. fst e = k) (settledLog d)") auto
  with q show ?thesis by blast
next
  assume "(k, i) \<in> (\<lambda>e. (fst e, fst (snd e))) ` set (settledLog d)"
  then obtain v where e: "(k, i, v) \<in> set (settledLog d)" by auto
  have "length (filter (\<lambda>e. fst e = k) (settledLog d)) \<le> 1" using keys_once [OF ok, of k] by simp
  from length1_filter [OF this e] have f: "filter (\<lambda>e. fst e = k) (settledLog d) = [(k, i, v)]" by simp
  moreover have "id_matches i v" using e ok by (auto simp: waiters_ok_def)
  moreover have "\<not> (jm_get (waitingMap d) i = Some q \<and> wt_key q = k)" for q
    using keys_once [OF ok, of k] get_wkeys [of "waitingMap d" i q] f by (auto simp del: count_greater_zero_iff)
  ultimately show ?thesis by blast
qed

lemma enqueue_all_owner:
  "waiters_ok d \<Longrightarrow> length (fst (enqueue_all ids d)) = length ids \<and>
    (\<forall>p < length ids. (fst (enqueue_all ids d) ! p, ids ! p) \<in> owners (snd (enqueue_all ids d)))"
proof (induction ids arbitrary: d)
  case Nil
  then show ?case by simp
next
  case (Cons i ids)
  obtain k d1 where e: "enqueueWaiting i d = (k, d1)" by (cases "enqueueWaiting i d")
  obtain ks d2 where es: "enqueue_all ids d1 = (ks, d2)" by (cases "enqueue_all ids d1")
  have d1: "waiters_ok d1" using evolves_enqueue [of d i] Cons.prems by (simp add: e evolves_def)
  have "(k, i) \<in> owners d1" using enqueue_owner [of i d] by (simp add: e)
  then have "(k, i) \<in> owners d2" using evolves_enqueue_all [of d1 ids] d1 by (auto simp: es evolves_def)
  with Cons.IH [OF d1] show ?case by (auto simp: e es nth_Cons split: nat.split)
qed

section \<open>What the layers promise\<close>

text \<open>
  Starting from a fresh coordinator, whatever happens, a chunk counts as being delivered exactly when
  a claim on it has been neither released nor settled for it; a disposed coordinator has none.
\<close>

theorem claim_active_iff_pending:
  assumes "delivery_step\<^sup>*\<^sup>* (new_delivery n) d"
  shows "(isClaimActiveFor d i \<longleftrightarrow> list_ex (\<lambda>cl. \<not> cl_released cl \<and> i \<in> set (cl_pending cl)) (claims d)) \<and>
    \<not> isClaimActiveFor (dispose d) i"
proof
  have inv: "claims_inv d" using delivery.reachable_inv [OF _ assms] by blast
  then show "isClaimActiveFor d i \<longleftrightarrow> list_ex (\<lambda>cl. \<not> cl_released cl \<and> i \<in> set (cl_pending cl)) (claims d)"
    by (simp add: active_iff_pending claims_inv_def list_ex_iff)
  have d': "claims_inv (dispose d)" by (rule claims_inv_step [OF inv delivery_step.disposed])
  have "flags (foldl (\<lambda>d c. releaseClaim c d) d cs) = flags d" for d cs by (induction cs arbitrary: d) simp_all
  from disposed_flags [OF this] have "delivery.disposed (dispose d)" by (auto simp: dispose_def Let_def)
  with d' show "\<not> isClaimActiveFor (dispose d) i"
    by (force simp: claims_inv_def active_iff_pending claims_ok_def in_set_conv_nth)
qed

text \<open>
  C10. The promise a waiting read gets for each of its identifiers is settled at most once, only with the
  chunk of that identifier or with \<open>false\<close>, and until then the identifier keeps waiting under it. This is
  the law the read pipeline assumes of the delivery.
\<close>

theorem promise_settled_once:
  assumes "delivery_step\<^sup>*\<^sup>* (new_delivery n) d" and "waiting_read ids options claimed d = (Some ks, d1)"
    and "delivery_step\<^sup>*\<^sup>* d1 d2" and "p < length ids"
  shows "length ks = length ids \<and>
    (filter (\<lambda>e. fst e = ks ! p) (settledLog d2) = [] \<and> (\<exists>q. jm_get (waitingMap d2) (ids ! p) = Some q \<and> wt_key q = ks ! p) \<or>
     (\<exists>v. filter (\<lambda>e. fst e = ks ! p) (settledLog d2) = [(ks ! p, ids ! p, v)] \<and> id_matches (ids ! p) v \<and>
        (\<nexists>q. jm_get (waitingMap d2) (ids ! p) = Some q \<and> wt_key q = ks ! p)))"
proof -
  have ok: "waiters_ok d" using delivery.reachable_inv [OF _ assms(1)] by blast
  obtain ks0 e1 where e: "enqueue_all ids d = (ks0, e1)" by (cases "enqueue_all ids d")
  have e1: "waiters_ok e1" using evolves_enqueue_all [of d ids] ok by (simp add: e evolves_def)
  have r: "length ks0 = length ids" "(ks0 ! p, ids ! p) \<in> owners e1"
    using enqueue_all_owner [OF ok, of ids] assms(4) by (simp_all add: e)
  have "evolves e1 (foldl (\<lambda>d c. claim_or_skip c d) e1 claimed)" by (rule evolves_foldl, rule evolves_claim_or_skip)
  then have "evolves e1 d1 \<and> ks = ks0"
    using assms(2) evolves_trans [OF _ evolves_refresh] evolves_refresh
    by (auto simp: waiting_read_def e Let_def split: if_splits)
  with evolves_steps [OF assms(3)] have "evolves e1 d2" "ks = ks0" using evolves_trans by blast+
  with e1 r have "waiters_ok d2" "(ks ! p, ids ! p) \<in> owners d2" by (auto simp: evolves_def)
  from owner_once [OF this] r \<open>ks = ks0\<close> show ?thesis by simp
qed

text \<open>
  C9. No waiter is stranded: while the layer listens and the coordinator lives, every waiting identifier
  is either still being delivered, or a recheck of the database is under way whose answer, whatever it
  is, ends its wait.
\<close>

theorem no_waiter_stranded:
  assumes "delivery_step\<^sup>*\<^sup>* (new_delivery n) d" and "listening d" and "\<not> delivery.disposed d"
    and "jm_get (waitingMap d) i = Some q" and "\<not> isActivityActiveFor d i"
  shows "\<exists>k < length (rechecks d). \<forall>answer. jm_get (waitingMap (recheckAnswered k answer d)) i = None"
proof -
  have "watched d" using delivery.reachable_inv [OF _ assms(1)] by blast
  with assms have "(i, wt_version q) \<in> set (concat (rechecks d))"
    by (auto simp: watched_def attended_but_def attended_def)
  then obtain cs where "cs \<in> set (rechecks d)" "(i, wt_version q) \<in> set cs" by auto
  then obtain k where "k < length (rechecks d)" "(i, wt_version q) \<in> set (rechecks d ! k)"
    by (auto simp: in_set_conv_nth [of cs])
  with answered_settles [OF _ _ assms(4,5)] show ?thesis by blast
qed

lemma jm_get_none_delete: "jm_get m i = None \<Longrightarrow> jm_delete i m = m"
  by (rule jm_delete_absent) (simp add: map_of_eq_None_iff)

lemma clear_all:
  "set (jm_keys (waitingMap d)) \<subseteq> set is \<Longrightarrow> waitingMap (foldl (\<lambda>d i. settleWaiter i None d) d is) = []"
proof (induction "is" arbitrary: d)
  case Nil
  then show ?case by simp
next
  case (Cons i "is")
  have "waitingMap (settleWaiter i None d) = jm_delete i (waitingMap d)"
    by (auto simp: settleWaiter_def jm_get_none_delete split: option.split)
  then have "set (jm_keys (waitingMap (settleWaiter i None d))) \<subseteq> set is"
    using Cons.prems by (auto simp: jm_keys_delete)
  from Cons.IH [OF this] show ?case by simp
qed

text \<open>Tearing the arrival layer down leaves nobody waiting: every waiter gets \<open>false\<close>.\<close>

theorem tearDown_leaves_none: "getWaitingCount (arrival_tearDown d) = 0"
  by (simp add: getWaitingCount_def arrival_tearDown_def clearWaiting_def clear_all)

section \<open>A run\<close>

text \<open>A read of one chunk which the fetcher claims, gives up, and the recheck then finds in the database.\<close>

definition run_options :: read_options where
  "run_options = \<lparr>ro_skipCache = False, ro_waitForDelivery = None, ro_timeout = None, ro_preventRemoteRequest = False\<rparr>"

definition run_leaf :: entry_leaf where
  "run_leaf = \<lparr>leaf_id = ''h:a'', leaf_rev = None, leaf_deleted = False, leaf_data = ''x'', leaf_isCorrupted = False\<rparr>"

definition run_claimed :: "bool \<Rightarrow> claim_state" where
  "run_claimed released = \<lparr>cl_pending = (if released then [] else [''h:a'']), cl_released = released,
     cl_armed = \<not> released, cl_timeout = 300000\<rparr>"

definition run_read :: delivery where
  "run_read = \<lparr>claimCounts = [(''h:a'', 1)], claims = [run_claimed False], claimReleases = [0], finiteActivity = 0,
     finiteActivityWasActive = False, disposed = False, listening = True,
     waitingMap = [(''h:a'', \<lparr>wt_key = 0, wt_observed = True, wt_version = 2\<rparr>)], nextKey = 1, rechecks = [], settledLog = []\<rparr>"

definition run_given_up :: delivery where
  "run_given_up = run_read\<lparr>claimCounts := [], claims := [run_claimed True], claimReleases := [],
     waitingMap := [(''h:a'', \<lparr>wt_key = 0, wt_observed = True, wt_version = 3\<rparr>)], rechecks := [[(''h:a'', 3)]]\<rparr>"

definition run_found :: delivery where
  "run_found = run_given_up\<lparr>waitingMap := [], rechecks := [], settledLog := [(0, ''h:a'', Some run_leaf)]\<rparr>"

lemmas run_defs = run_options_def run_leaf_def run_claimed_def run_read_def run_given_up_def run_found_def

lemmas delivery_activity_defs = isActivityActiveFor_def isClaimActiveFor_def isFiniteReplicationActive_def

lemma run_read_eq: "waiting_read [''h:a''] run_options [[''h:a'']] (new_delivery 0) = (Some [0], run_read)"
  by (simp add: waiting_read_def waits_for_delivery_def enqueueWaiting_def new_delivery_def claim_or_skip_def claim_def
      add_counts_def notifyChanged_def refreshActivity_def delivery_activity_defs armStallTimer_def upd_claim_def
      run_defs Let_def jm_has_def numeral_2_eq_2)

lemma run_release_eq: "releaseClaim 0 run_read = run_given_up"
  by (simp add: releaseClaim_def upd_claim_def removeActiveIds_def notifyChanged_def refreshActivity_def delivery_activity_defs
      settleAfterObservedActivity_def run_defs Let_def jm_has_def)

lemma run_answer_eq: "recheckAnswered 0 (Some [Some run_leaf]) run_given_up = run_found"
  by (simp add: recheckAnswered_def run_given_up_def run_read_def run_found_def settleWaiter_def)

lemma run_steps:
  "delivery_step\<^sup>*\<^sup>* (new_delivery 0) run_read" "delivery_step\<^sup>*\<^sup>* (new_delivery 0) run_given_up"
  "delivery_step\<^sup>*\<^sup>* run_read run_found"
proof -
  have s1: "delivery_step (new_delivery 0) run_read"
    using delivery_step.read [of "new_delivery 0" "[''h:a'']" run_options "[[''h:a'']]"] by (simp add: run_read_eq)
  have s2: "delivery_step run_read run_given_up"
    using delivery_step.released [of 0 run_read] by (simp add: run_release_eq) (simp add: run_read_def)
  have s3: "delivery_step run_given_up run_found"
    using delivery_step.answered [of 0 run_given_up "Some [Some run_leaf]"]
    by (simp add: run_answer_eq) (simp add: run_given_up_def run_read_def run_leaf_def id_matches_def)
  show "delivery_step\<^sup>*\<^sup>* (new_delivery 0) run_read" using s1 by blast
  show "delivery_step\<^sup>*\<^sup>* (new_delivery 0) run_given_up" using s1 s2 by (meson rtranclp.simps)
  show "delivery_step\<^sup>*\<^sup>* run_read run_found" using s2 s3 by (meson rtranclp.simps)
qed

theorem claim_active_iff_pending_witness:
  "isClaimActiveFor run_read ''h:a'' \<and> \<not> isClaimActiveFor (dispose run_read) ''h:a''"
  using claim_active_iff_pending [OF run_steps(1), of "''h:a''"] by (simp add: run_read_def run_claimed_def)

theorem promise_settled_once_witness:
  "settledLog run_found = [(0, ''h:a'', Some run_leaf)] \<and> length [0::nat] = length [''h:a'']"
  using promise_settled_once [OF rtranclp.rtrancl_refl run_read_eq run_steps(3), of 0]
  by (auto simp: run_found_def)

theorem no_waiter_stranded_witness:
  "\<exists>k < length (rechecks run_given_up). \<forall>answer. jm_get (waitingMap (recheckAnswered k answer run_given_up)) ''h:a'' = None"
  by (rule no_waiter_stranded [OF run_steps(2)])
     (simp_all add: run_given_up_def run_read_def delivery_activity_defs jm_has_def)

end
