(* ===== verification/ChunkFetcher.thy ===== *)
theory ChunkFetcher
  imports ChunkDelivery
begin

text \<open>
  \<open>src/managers/ChunkFetcher.ts\<close> together with the coordinator and the arrival layer of
  \<open>ChunkDelivery\<close>: the queue of missing chunks, the claims the fetcher holds, and its requests, cut at
  every \<open>await\<close>. The remote replicator, the bounded activity runner, the timers and the clock are the
  environment. A claim is known by its index in the coordinator, a pending delivery by its index here.
\<close>

section \<open>State\<close>

record pending_delivery =
  pd_claim :: nat
  pd_boundary :: "bool option"  \<comment> \<open>\<open>activityBoundaryEntered\<close>, once resolved\<close>

text \<open>The await a request is suspended in, with its \<open>requestIDs\<close>.\<close>

datatype request =
    AtBoundary "doc_id list" "nat list"
  | Delaying "doc_id list"
  | Fetching "doc_id list"
  | Writing "doc_id list" "entry_leaf list" "doc_id list"

record fetcher =
  f_queue :: "doc_id list"
  f_pendingClaims :: "(doc_id, nat) jsmap"
  f_deliveries :: "pending_delivery list"
  f_destroyed :: bool
  f_processing :: nat
  f_previous :: int
  f_timers :: nat
  f_requests :: "request list"
  f_delivery :: delivery

definition BATCH_SIZE :: nat where "BATCH_SIZE = 100"

record settings =
  st_interval :: int
  st_concurrency :: int
  st_stallTimeout :: "int option"

text \<open>\<open>minimumIntervalOfReadChunksOnline || default\<close>; the defaults are those of the settings type.\<close>

definition interval :: "int \<Rightarrow> settings \<Rightarrow> int" where
  "interval dflt s = (if st_interval s = 0 then dflt else st_interval s)"

definition concurrency :: "int \<Rightarrow> settings \<Rightarrow> int" where
  "concurrency dflt s = (if st_concurrency s = 0 then dflt else st_concurrency s)"

definition new_fetcher :: "delivery \<Rightarrow> fetcher" where
  "new_fetcher d = \<lparr>f_queue = [], f_pendingClaims = [], f_deliveries = [], f_destroyed = False, f_processing = 0,
     f_previous = 0, f_timers = 0, f_requests = [], f_delivery = d\<rparr>"

section \<open>Claims\<close>

definition resolveBoundary :: "nat \<Rightarrow> bool \<Rightarrow> fetcher \<Rightarrow> fetcher" where
  "resolveBoundary p entered f =
     f\<lparr>f_deliveries := (f_deliveries f)[p := (f_deliveries f ! p)\<lparr>pd_boundary :=
        (case pd_boundary (f_deliveries f ! p) of None \<Rightarrow> Some entered | Some b \<Rightarrow> Some b)\<rparr>]\<rparr>"

definition set_pending :: "nat \<Rightarrow> doc_id list \<Rightarrow> (doc_id, nat) jsmap \<Rightarrow> (doc_id, nat) jsmap" where
  "set_pending p ids m = foldl (\<lambda>m i. jm_set i p m) m ids"

text \<open>The activity runner is started here and calls back later; \<open>Inl ()\<close> is the throw of a disposed coordinator.\<close>

definition ensureClaims :: "settings \<Rightarrow> doc_id list \<Rightarrow> fetcher \<Rightarrow> unit + doc_id list \<times> fetcher" where
  "ensureClaims s ids f =
     (let unclaimedIds = js_unique (filter (\<lambda>i. \<not> jm_has (f_pendingClaims f) i) ids)
      in if length unclaimedIds = 0 then Inr ([], f)
         else (case claim unclaimedIds (Some (case st_stallTimeout s of None \<Rightarrow> 300000 | Some t \<Rightarrow> t)) (f_delivery f) of
                 Inl e \<Rightarrow> Inl e
               | Inr (None, d) \<Rightarrow> Inr (unclaimedIds, f\<lparr>f_delivery := d\<rparr>)
               | Inr (Some c, d) \<Rightarrow>
                   Inr (unclaimedIds, f\<lparr>f_delivery := d,
                     f_pendingClaims := set_pending (length (f_deliveries f)) unclaimedIds (f_pendingClaims f),
                     f_deliveries := f_deliveries f @ [\<lparr>pd_claim = c, pd_boundary = None\<rparr>]\<rparr>)))"

definition delete_pending :: "nat \<Rightarrow> doc_id list \<Rightarrow> (doc_id, nat) jsmap \<Rightarrow> (doc_id, nat) jsmap" where
  "delete_pending p ids m = foldl (\<lambda>m i. if jm_get m i = Some p then jm_delete i m else m) m ids"

definition removePendingDelivery :: "nat \<Rightarrow> doc_id list \<Rightarrow> fetcher \<Rightarrow> fetcher" where
  "removePendingDelivery p ids f =
     (let m = delete_pending p ids (f_pendingClaims f)
      in f\<lparr>f_pendingClaims := m, f_queue := filter (\<lambda>i. \<not> (i \<in> set ids \<and> \<not> jm_has m i)) (f_queue f)\<rparr>)"

text \<open>The runner enters the activity, or rejects before the claim is settled.\<close>

definition activityEntered :: "nat \<Rightarrow> fetcher \<Rightarrow> fetcher" where
  "activityEntered p f =
     resolveBoundary p True (f\<lparr>f_delivery := touchClaim (pd_claim (f_deliveries f ! p)) (f_delivery f)\<rparr>)"

definition activityRejected :: "nat \<Rightarrow> fetcher \<Rightarrow> fetcher" where
  "activityRejected p f =
     (let c = pd_claim (f_deliveries f ! p);
          abandonedIds = cl_pending (claims (f_delivery f) ! c);
          f1 = removePendingDelivery p abandonedIds (resolveBoundary p False f)
      in f1\<lparr>f_delivery := releaseClaim c (f_delivery f1)\<rparr>)"

text \<open>The stall timer of the claim fires: the coordinator releases it and calls \<open>onClaimStalled\<close>.\<close>

definition onClaimStalled :: "nat \<Rightarrow> doc_id list \<Rightarrow> fetcher \<Rightarrow> fetcher" where
  "onClaimStalled p stalledIds f = removePendingDelivery p stalledIds (resolveBoundary p False f)"

definition claimStalls :: "nat \<Rightarrow> fetcher \<Rightarrow> fetcher" where
  "claimStalls p f =
     (case stallFired (pd_claim (f_deliveries f ! p)) (f_delivery f) of
        (stalledIds, d) \<Rightarrow> onClaimStalled p stalledIds (f\<lparr>f_delivery := d\<rparr>))"

definition fetcher_settleClaim :: "doc_id \<Rightarrow> fetcher \<Rightarrow> fetcher" where
  "fetcher_settleClaim i f =
     (case jm_get (f_pendingClaims f) i of
        None \<Rightarrow> f
      | Some p \<Rightarrow> f\<lparr>f_pendingClaims := jm_delete i (f_pendingClaims f),
                   f_delivery := settleClaim (pd_claim (f_deliveries f ! p)) i (f_delivery f)\<rparr>)"

definition pending_of :: "doc_id list \<Rightarrow> fetcher \<Rightarrow> nat list" where
  "pending_of ids f = js_unique (List.map_filter (jm_get (f_pendingClaims f)) ids)"

definition touchClaims :: "doc_id list \<Rightarrow> fetcher \<Rightarrow> fetcher" where
  "touchClaims ids f =
     f\<lparr>f_delivery := foldl (\<lambda>d p. touchClaim (pd_claim (f_deliveries f ! p)) d) (f_delivery f) (pending_of ids f)\<rparr>"

section \<open>Requests\<close>

definition canRequestMore :: "int \<Rightarrow> settings \<Rightarrow> fetcher \<Rightarrow> bool" where
  "canRequestMore dflt s f \<longleftrightarrow> int (f_processing f) < concurrency dflt s \<and> length (f_queue f) > 0"

definition setTimer :: "fetcher \<Rightarrow> fetcher" where
  "setTimer f = f\<lparr>f_timers := f_timers f + 1\<rparr>"

text \<open>A throw of \<open>ensureClaims\<close> leaves the handler at once.\<close>

definition onEvent :: "int \<Rightarrow> settings \<Rightarrow> doc_id list \<Rightarrow> fetcher \<Rightarrow> fetcher" where
  "onEvent dflt s ids f =
     (if f_destroyed f then f
      else (case ensureClaims s ids f of
              Inl _ \<Rightarrow> f
            | Inr (claimedIds, f1) \<Rightarrow>
                (let f2 = f1\<lparr>f_queue := js_unique (f_queue f1 @ claimedIds)\<rparr>
                 in if canRequestMore dflt s f2 then setTimer f2 else f2)))"

text \<open>The outermost \<open>finally\<close>.\<close>

definition finishRequest :: "doc_id list \<Rightarrow> int \<Rightarrow> fetcher \<Rightarrow> fetcher" where
  "finishRequest ids now f =
     (let f1 = foldl (\<lambda>f i. fetcher_settleClaim i f) f ids;
          f2 = f1\<lparr>f_processing := f_processing f1 - 1, f_previous := now\<rparr>
      in if length (f_queue f2) > 0 then setTimer f2 else f2)"

text \<open>From the call to the first await. The result is the suspended request, if it has not ended.\<close>

definition requestMissingChunks :: "int \<Rightarrow> settings \<Rightarrow> int \<Rightarrow> fetcher \<Rightarrow> request option \<times> fetcher" where
  "requestMissingChunks dflt s now f =
     (if f_destroyed f \<or> \<not> canRequestMore dflt s f then (None, f)
      else (let requestIDs = take BATCH_SIZE (f_queue f);
                f1 = f\<lparr>f_processing := f_processing f + 1, f_queue := drop BATCH_SIZE (f_queue f)\<rparr>
            in case ensureClaims s requestIDs f1 of
                 Inl _ \<Rightarrow> (None, finishRequest requestIDs now f1)
               | Inr (_, f2) \<Rightarrow> (Some (AtBoundary requestIDs (pending_of requestIDs f2)), f2)))"

definition entered_ids :: "doc_id list \<Rightarrow> nat list \<Rightarrow> fetcher \<Rightarrow> doc_id list" where
  "entered_ids ids ps f =
     filter (\<lambda>i. case jm_get (f_pendingClaims f) i of None \<Rightarrow> False
                 | Some p \<Rightarrow> p \<in> set ps \<and> pd_boundary (f_deliveries f ! p) = Some True) ids"

definition startFetch :: "doc_id list \<Rightarrow> bool \<Rightarrow> int \<Rightarrow> fetcher \<Rightarrow> request option \<times> fetcher" where
  "startFetch ids hasReplicator now f =
     (let f1 = touchClaims ids f
      in if \<not> hasReplicator then (None, finishRequest ids now f1) else (Some (Fetching ids), f1))"

definition timeToWait :: "int \<Rightarrow> int \<Rightarrow> int \<Rightarrow> int" where
  "timeToWait every now previous = max (every - (now - previous)) 0"

definition boundaryPassed :: "int \<Rightarrow> settings \<Rightarrow> doc_id list \<Rightarrow> nat list \<Rightarrow> bool \<Rightarrow> int \<Rightarrow> fetcher \<Rightarrow> request option \<times> fetcher" where
  "boundaryPassed dflt s ids ps hasReplicator now f =
     (let requestIDs = entered_ids ids ps f
      in if length requestIDs = 0 then (None, finishRequest requestIDs now f)
         else (let f1 = touchClaims requestIDs f;
                   wait = timeToWait (interval dflt s) now (f_previous f1);
                   f2 = f1\<lparr>f_previous := now\<rparr>
               in if wait > 0 then (Some (Delaying requestIDs), f2) else startFetch requestIDs hasReplicator now f2))"

definition emitChunkFetched :: "entry_leaf list \<Rightarrow> fetcher \<Rightarrow> fetcher" where
  "emitChunkFetched chunks f = f\<lparr>f_delivery := foldl (\<lambda>d l. onChunkArrived l False d) (f_delivery f) chunks\<rparr>"

definition emitMissing :: "doc_id list \<Rightarrow> fetcher \<Rightarrow> fetcher" where
  "emitMissing ids f = f\<lparr>f_delivery := foldl (\<lambda>d i. onMissingChunk i d) (f_delivery f) ids\<rparr>"

text \<open>
  \<open>fetchRemoteChunks\<close> answers: \<open>None\<close> a throw, \<open>Some None\<close> the value \<open>false\<close>, else the chunks, where
  \<open>None\<close> is one that \<open>isValidChunk\<close> refuses.
\<close>

definition fetchAnswered :: "doc_id list \<Rightarrow> entry_leaf option list option option \<Rightarrow> int \<Rightarrow> fetcher \<Rightarrow> request option \<times> fetcher" where
  "fetchAnswered ids answer now f =
     (case answer of
        None \<Rightarrow> (None, finishRequest ids now f)
      | Some None \<Rightarrow> (None, finishRequest ids now (emitMissing ids (touchClaims ids f)))
      | Some (Some fetched) \<Rightarrow>
          (let f1 = touchClaims ids f;
               chunks = List.map_filter (\<lambda>c. c) fetched;
               missingIDs = filter (\<lambda>i. \<not> list_ex (\<lambda>c. leaf_id c = i) chunks) ids
           in if length chunks = 0 then (None, finishRequest ids now (emitMissing missingIDs (emitChunkFetched chunks f1)))
              else (Some (Writing ids chunks missingIDs), f1)))"

text \<open>The chunks are announced whether the write worked, failed or threw.\<close>

definition writeFinished :: "doc_id list \<Rightarrow> entry_leaf list \<Rightarrow> doc_id list \<Rightarrow> bool \<Rightarrow> int \<Rightarrow> fetcher \<Rightarrow> request option \<times> fetcher" where
  "writeFinished ids chunks missingIDs threw now f =
     (let f1 = (if threw then f else touchClaims ids f)
      in (None, finishRequest ids now (emitMissing missingIDs (emitChunkFetched chunks f1))))"

definition destroy :: "fetcher \<Rightarrow> fetcher" where
  "destroy f =
     (if f_destroyed f then f
      else (let f1 = f\<lparr>f_destroyed := True, f_queue := []\<rparr>;
                pendingDeliveries = js_unique (map snd (f_pendingClaims f1));
                f2 = f1\<lparr>f_pendingClaims := []\<rparr>
            in foldl (\<lambda>f p. let f' = resolveBoundary p False f
                            in f'\<lparr>f_delivery := releaseClaim (pd_claim (f_deliveries f' ! p)) (f_delivery f')\<rparr>)
                 f2 pendingDeliveries))"

text \<open>
  A waiting read of the arrival layer, with the missing-chunks event going to this fetcher.
\<close>

definition fetcher_read :: "int \<Rightarrow> settings \<Rightarrow> doc_id list \<Rightarrow> read_options \<Rightarrow> fetcher \<Rightarrow> nat list option \<times> fetcher" where
  "fetcher_read dflt s ids options f =
     (if \<not> waits_for_delivery options \<or> ids = [] then (None, f)
      else (case enqueue_all ids (f_delivery f) of (ks, d1) \<Rightarrow>
              let f1 = f\<lparr>f_delivery := d1\<rparr>;
                  f2 = (if \<not> ro_preventRemoteRequest options then onEvent dflt s ids f1 else f1)
              in (Some ks, f2\<lparr>f_delivery := refreshActivity (Some ids) (f_delivery f2)\<rparr>)))"

section \<open>Steps\<close>

definition advance :: "nat \<Rightarrow> request option \<times> fetcher \<Rightarrow> fetcher" where
  "advance k rf = (snd rf)\<lparr>f_requests :=
     (case fst rf of Some r \<Rightarrow> (f_requests (snd rf))[k := r]
      | None \<Rightarrow> take k (f_requests (snd rf)) @ drop (Suc k) (f_requests (snd rf)))\<rparr>"

definition started :: "request option \<times> fetcher \<Rightarrow> fetcher" where
  "started rf = (snd rf)\<lparr>f_requests := f_requests (snd rf) @ (case fst rf of Some r \<Rightarrow> [r] | None \<Rightarrow> [])\<rparr>"

text \<open>
  \<open>di\<close> and \<open>dc\<close> are the default interval and concurrency, \<open>s\<close> the settings.
\<close>

inductive fetch_step :: "int \<Rightarrow> int \<Rightarrow> settings \<Rightarrow> fetcher \<Rightarrow> fetcher \<Rightarrow> bool" for di dc s where
  read: "fetch_step di dc s f (snd (fetcher_read dc s ids options f))"
| event: "fetch_step di dc s f (onEvent dc s ids f)"
| timer: "0 < f_timers f \<Longrightarrow>
    fetch_step di dc s f (started (requestMissingChunks dc s now (f\<lparr>f_timers := f_timers f - 1\<rparr>)))"
| boundary: "k < length (f_requests f) \<Longrightarrow> f_requests f ! k = AtBoundary ids ps \<Longrightarrow>
    list_all (\<lambda>p. pd_boundary (f_deliveries f ! p) \<noteq> None) ps \<Longrightarrow>
    fetch_step di dc s f (advance k (boundaryPassed di s ids ps hasReplicator now f))"
| delayed: "k < length (f_requests f) \<Longrightarrow> f_requests f ! k = Delaying ids \<Longrightarrow>
    fetch_step di dc s f (advance k (startFetch ids hasReplicator now f))"
| fetched: "k < length (f_requests f) \<Longrightarrow> f_requests f ! k = Fetching ids \<Longrightarrow>
    fetch_step di dc s f (advance k (fetchAnswered ids answer now f))"
| written: "k < length (f_requests f) \<Longrightarrow> f_requests f ! k = Writing ids chunks missingIDs \<Longrightarrow>
    fetch_step di dc s f (advance k (writeFinished ids chunks missingIDs threw now f))"
| entered: "p < length (f_deliveries f) \<Longrightarrow> fetch_step di dc s f (activityEntered p f)"
| rejected: "p < length (f_deliveries f) \<Longrightarrow> fetch_step di dc s f (activityRejected p f)"
| stalled: "p < length (f_deliveries f) \<Longrightarrow> cl_armed (claims (f_delivery f) ! pd_claim (f_deliveries f ! p)) \<Longrightarrow>
    fetch_step di dc s f (claimStalls p f)"
| arrived: "fetch_step di dc s f (f\<lparr>f_delivery := onChunkArrived doc deleted (f_delivery f)\<rparr>)"
| missing: "fetch_step di dc s f (f\<lparr>f_delivery := onMissingChunk i (f_delivery f)\<rparr>)"
| answered: "fetch_step di dc s f (f\<lparr>f_delivery := recheckAnswered k answer (f_delivery f)\<rparr>)"
| activity: "fetch_step di dc s f (f\<lparr>f_delivery := finiteActivityChanged n (f_delivery f)\<rparr>)"
| destroyed: "fetch_step di dc s f (destroy f)"

section \<open>The claims of the fetcher\<close>

text \<open>Claim \<open>p\<close> of the coordinator still waits for \<open>i\<close>.\<close>

definition pend :: "delivery \<Rightarrow> nat \<Rightarrow> doc_id \<Rightarrow> bool" where
  "pend d p i \<longleftrightarrow> p < length (claims d) \<and> i \<in> set (cl_pending (claims d ! p))"

lemma pend_core: "core d' = core d \<Longrightarrow> pend d' = pend d"
  by (simp add: pend_def core_def fun_eq_iff)

lemma pend_arm [simp]: "pend (armStallTimer c d) = pend d"
  by (cases "c < length (claims d)") (auto simp: pend_def armStallTimer_def upd_claim_def Let_def fun_eq_iff nth_list_update)

lemma pend_released: "claims_ok d \<Longrightarrow> cl_released (claims d ! c) \<Longrightarrow> \<not> pend d c i"
  using claims_ok_wf [of d c] by (auto simp: pend_def claim_wf_def)

lemma pend_release:
  assumes "claims_ok d"
  shows "pend (releaseClaim c d) p i \<longleftrightarrow> pend d p i \<and> p \<noteq> c"
proof (cases "cl_released (claims d ! c)")
  case True
  with pend_released [OF assms True] show ?thesis by (auto simp: releaseClaim_def)
next
  case False
  have n: "pend (notifyChanged ids d') = pend d'" for ids d' by (rule pend_core) simp
  have u: "pend (d\<lparr>claims := (claims d)[c := (claims d ! c)\<lparr>cl_released := True, cl_armed := False, cl_pending := []\<rparr>],
      claimCounts := x, claimReleases := y\<rparr>) p i \<longleftrightarrow> pend d p i \<and> p \<noteq> c" for x y
    by (cases "c < length (claims d)") (auto simp: pend_def nth_list_update)
  show ?thesis using False by (simp add: releaseClaim_def upd_claim_def Let_def n u)
qed

lemma pend_settle:
  assumes ok: "claims_ok d" and c: "c < length (claims d)"
  shows "pend (settleClaim c i d) p j \<longleftrightarrow> pend d p j \<and> \<not> (p = c \<and> j = i)"
proof (cases "cl_released (claims d ! c) \<or> i \<notin> set (cl_pending (claims d ! c))")
  case True
  then have "\<not> pend d c i" using pend_released [OF ok] by (auto simp: pend_def)
  with True show ?thesis by (auto simp: settleClaim_def)
next
  case False
  let ?cl = "(claims d ! c)\<lparr>cl_pending := filter (\<lambda>j. j \<noteq> i) (cl_pending (claims d ! c))\<rparr>"
  let ?d1 = "d\<lparr>claims := (claims d)[c := ?cl], claimCounts := removeActiveIds [i] (claimCounts d)\<rparr>"
  let ?d2 = "notifyChanged (Some [i]) ?d1"
  have p1: "pend ?d1 p j \<longleftrightarrow> pend d p j \<and> \<not> (p = c \<and> j = i)" using c by (auto simp: pend_def nth_list_update)
  have p2: "pend ?d2 = pend ?d1" by (rule pend_core) simp
  have wf: "claim_wf ?cl" using claims_ok_wf [OF ok c] False by (simp add: claim_wf_def)
  have "claims_ok (d\<lparr>claims := (claims d)[c := ?cl], claimCounts := removeActiveIds [i] (claimCounts d), claimReleases := claimReleases d\<rparr>)"
    using False wf by (intro claims_ok_drop [OF ok c]) auto
  then have ok2: "claims_ok ?d2" by simp
  have fin: "pend (releaseClaim c ?d2) p j = pend ?d2 p j" if "cl_pending (claims ?d2 ! c) = []"
    using that by (auto simp: pend_release [OF ok2]) (auto simp: pend_def)
  have "settleClaim c i d = (if cl_pending (claims ?d2 ! c) = [] then releaseClaim c ?d2 else armStallTimer c ?d2)"
    using False by (simp add: settleClaim_def upd_claim_def Let_def)
  with fin p1 p2 show ?thesis by simp
qed

lemma pend_claim:
  assumes "claim ids t d = Inr (Some c, d')"
  shows "c = length (claims d)" and "length (claims d') = Suc (length (claims d))"
    and "pend d' p i \<longleftrightarrow> pend d p i \<or> p = c \<and> i \<in> set ids"
proof -
  have n: "pend (notifyChanged ids d') = pend d'" for ids d' by (rule pend_core) simp
  show "c = length (claims d)" and "length (claims d') = Suc (length (claims d))"
    using assms by (auto simp: claim_def Let_def split: if_splits)
  show "pend d' p i \<longleftrightarrow> pend d p i \<or> p = c \<and> i \<in> set ids"
    using assms by (auto simp: claim_def Let_def n split: if_splits) (auto simp: pend_def nth_append split: if_splits)
qed

lemma claims_length_settle [simp]: "length (claims (settleClaim c i d)) = length (claims d)"
  by (simp add: settleClaim_def upd_claim_def Let_def)

section \<open>The invariant\<close>

text \<open>The coordinator's claims are those of the fetcher, and they wait for what \<open>pendingClaims\<close> says.\<close>

definition holds_claims :: "fetcher \<Rightarrow> bool" where
  "holds_claims f \<longleftrightarrow> claims_inv (f_delivery f) \<and> \<not> disposed (f_delivery f) \<and>
     length (claims (f_delivery f)) = length (f_deliveries f) \<and>
     (\<forall>p < length (f_deliveries f). pd_claim (f_deliveries f ! p) = p) \<and>
     jm_wf (f_pendingClaims f) \<and>
     (\<forall>i p. jm_get (f_pendingClaims f) i = Some p \<longleftrightarrow> pend (f_delivery f) p i)"

definition boundaries :: "fetcher \<Rightarrow> bool" where
  "boundaries f \<longleftrightarrow> (\<forall>p < length (f_deliveries f). pd_boundary (f_deliveries f ! p) = Some False \<longrightarrow>
     (\<forall>i. jm_get (f_pendingClaims f) i \<noteq> Some p))"

text \<open>The request that will settle the claim \<open>p\<close> on \<open>i\<close>.\<close>

fun covers :: "doc_id \<Rightarrow> nat \<Rightarrow> request \<Rightarrow> bool" where
  "covers i p (AtBoundary ids ps) \<longleftrightarrow> i \<in> set ids \<and> p \<in> set ps"
| "covers i p (Delaying ids) \<longleftrightarrow> i \<in> set ids"
| "covers i p (Fetching ids) \<longleftrightarrow> i \<in> set ids"
| "covers i p (Writing ids chunks missingIDs) \<longleftrightarrow> i \<in> set ids"

definition served :: "request list \<Rightarrow> fetcher \<Rightarrow> bool" where
  "served rs f \<longleftrightarrow> (\<forall>i p. jm_get (f_pendingClaims f) i = Some p \<longrightarrow> i \<in> set (f_queue f) \<or> (\<exists>r \<in> set rs. covers i p r))"

definition stopped :: "fetcher \<Rightarrow> bool" where
  "stopped f \<longleftrightarrow> (f_destroyed f \<longrightarrow> f_queue f = [] \<and> f_pendingClaims f = [])"

definition claims_kept :: "request list \<Rightarrow> fetcher \<Rightarrow> bool" where
  "claims_kept rs f \<longleftrightarrow> holds_claims f \<and> boundaries f \<and> served rs f \<and> stopped f"

text \<open>What the accounting of requests depends on.\<close>

definition pace :: "fetcher \<Rightarrow> nat \<times> nat \<times> request list" where
  "pace f = (f_processing f, f_timers f, f_requests f)"

lemma disposed_core: "core d' = core d \<Longrightarrow> disposed d' = disposed d"
  by (rule core_fields)

lemma claims_kept_delivery:
  assumes "claims_kept rs f" and "claims_inv d'" and "disposed d' = disposed (f_delivery f)"
    and "length (claims d') = length (claims (f_delivery f))" and "pend d' = pend (f_delivery f)"
  shows "claims_kept rs (f\<lparr>f_delivery := d'\<rparr>)"
proof -
  have "holds_claims (f\<lparr>f_delivery := d'\<rparr>)" using assms by (simp add: claims_kept_def holds_claims_def)
  moreover have "boundaries (f\<lparr>f_delivery := d'\<rparr>)" using assms(1) by (simp add: claims_kept_def boundaries_def)
  moreover have "served rs (f\<lparr>f_delivery := d'\<rparr>)" using assms(1) by (simp add: claims_kept_def served_def)
  moreover have "stopped (f\<lparr>f_delivery := d'\<rparr>)" using assms(1) by (simp add: claims_kept_def stopped_def)
  ultimately show ?thesis by (simp add: claims_kept_def)
qed

text \<open>The accounting is apart from the claims.\<close>

lemma claims_kept_frame:
  "f_queue f' = f_queue f \<Longrightarrow> f_pendingClaims f' = f_pendingClaims f \<Longrightarrow> f_deliveries f' = f_deliveries f \<Longrightarrow>
    f_destroyed f' = f_destroyed f \<Longrightarrow> f_delivery f' = f_delivery f \<Longrightarrow> claims_kept rs f' = claims_kept rs f"
  by (simp only: claims_kept_def holds_claims_def boundaries_def served_def stopped_def)

lemma claims_kept_core:
  assumes "claims_kept rs f" and "core d' = core (f_delivery f)"
  shows "claims_kept rs (f\<lparr>f_delivery := d'\<rparr>)"
proof (rule claims_kept_delivery [OF assms(1)])
  show "claims_inv d'" using assms claims_inv_core by (auto simp: claims_kept_def holds_claims_def)
  show "disposed d' = disposed (f_delivery f)" by (rule disposed_core [OF assms(2)])
  show "length (claims d') = length (claims (f_delivery f))" using core_fields(2) [OF assms(2)] by simp
  show "pend d' = pend (f_delivery f)" by (rule pend_core [OF assms(2)])
qed

lemma claims_inv_touch:
  assumes "claims_inv d"
  shows "claims_inv (touchClaim c d)"
proof (cases "c < length (claims d)")
  case True
  then show ?thesis by (intro claims_inv_step [OF assms] delivery_step.touched)
next
  case False
  then have "touchClaim c d = d" by (simp add: touchClaim_def armStallTimer_def upd_claim_def Let_def list_update_beyond)
  with assms show ?thesis by simp
qed

lemma claims_kept_touch:
  assumes "claims_kept rs f"
  shows "claims_kept rs (f\<lparr>f_delivery := touchClaim c (f_delivery f)\<rparr>)"
proof (rule claims_kept_delivery [OF assms])
  show "claims_inv (touchClaim c (f_delivery f))" using assms by (simp add: claims_kept_def holds_claims_def claims_inv_touch)
qed (simp_all add: touchClaim_def disposed_flags [OF flags_arm])

lemma claims_kept_touchClaims:
  assumes "claims_kept rs f"
  shows "claims_kept rs (touchClaims ids f)"
proof -
  have "claims_kept rs (f\<lparr>f_delivery := foldl (\<lambda>d p. touchClaim (pd_claim (ds ! p)) d) (f_delivery f) ps\<rparr>)" for ps ds
  proof (induction ps rule: rev_induct)
    case Nil
    then show ?case using assms by simp
  next
    case (snoc p ps)
    from claims_kept_touch [OF snoc] show ?case by simp
  qed
  then show ?thesis by (simp add: touchClaims_def)
qed

lemma claims_kept_resolve_True:
  assumes "claims_kept rs f" and "p < length (f_deliveries f)"
  shows "claims_kept rs (resolveBoundary p True f)"
  using assms
  by (auto simp: claims_kept_def holds_claims_def boundaries_def served_def stopped_def resolveBoundary_def nth_list_update
      split: option.split)

lemma claims_kept_finite:
  assumes "claims_kept rs f"
  shows "claims_kept rs (f\<lparr>f_delivery := finiteActivityChanged n (f_delivery f)\<rparr>)"
proof (rule claims_kept_delivery [OF assms])
  have n: "pend (notifyChanged ids d') = pend d'" "disposed (notifyChanged ids d') = disposed d'" for ids d'
    using pend_core [OF core_notify] disposed_core [OF core_notify] by auto
  show "claims_inv (finiteActivityChanged n (f_delivery f))"
    using assms claims_inv_step delivery_step.activity by (auto simp: claims_kept_def holds_claims_def)
  show "disposed (finiteActivityChanged n (f_delivery f)) = disposed (f_delivery f)"
    by (simp add: finiteActivityChanged_def Let_def n)
  show "length (claims (finiteActivityChanged n (f_delivery f))) = length (claims (f_delivery f))"
    by (simp add: finiteActivityChanged_def Let_def)
  show "pend (finiteActivityChanged n (f_delivery f)) = pend (f_delivery f)"
    by (simp add: finiteActivityChanged_def Let_def n) (simp add: pend_def fun_eq_iff)
qed

text \<open>Operations that give up the claims \<open>gone\<close>.\<close>

lemma claims_kept_shrink:
  assumes kept: "claims_kept rs f"
    and d': "claims_inv d'" "disposed d' = disposed (f_delivery f)" "length (claims d') = length (claims (f_delivery f))"
      "\<And>i p. pend d' p i \<longleftrightarrow> pend (f_delivery f) p i \<and> \<not> gone i p"
    and m': "jm_wf m'" "\<And>i p. jm_get m' i = Some p \<longleftrightarrow> jm_get (f_pendingClaims f) i = Some p \<and> \<not> gone i p"
    and ds': "length ds' = length (f_deliveries f)"
      "\<And>p. p < length (f_deliveries f) \<Longrightarrow> pd_claim (ds' ! p) = pd_claim (f_deliveries f ! p)"
      "\<And>p i. p < length (f_deliveries f) \<Longrightarrow> pd_boundary (ds' ! p) = Some False \<Longrightarrow>
         pd_boundary (f_deliveries f ! p) = Some False \<or> gone i p"
    and q': "\<And>i p. jm_get m' i = Some p \<Longrightarrow> i \<in> set (f_queue f) \<Longrightarrow> i \<in> set q'"
      "f_destroyed f \<Longrightarrow> q' = [] \<and> m' = []"
  shows "claims_kept rs (f\<lparr>f_queue := q', f_pendingClaims := m', f_deliveries := ds', f_delivery := d'\<rparr>)"
proof -
  let ?f = "f\<lparr>f_queue := q', f_pendingClaims := m', f_deliveries := ds', f_delivery := d'\<rparr>"
  have "holds_claims ?f" using kept d' m' ds' by (simp add: claims_kept_def holds_claims_def)
  moreover have "boundaries ?f" using kept ds' m' by (simp add: claims_kept_def boundaries_def) blast
  moreover have "served rs ?f" using kept m' q'(1) unfolding claims_kept_def served_def by simp blast
  moreover have "stopped ?f" using q'(2) by (simp add: stopped_def)
  ultimately show ?thesis by (simp add: claims_kept_def)
qed

lemma kept_pend: "claims_kept rs f \<Longrightarrow> jm_get (f_pendingClaims f) i = Some p \<longleftrightarrow> pend (f_delivery f) p i"
  by (simp add: claims_kept_def holds_claims_def)

lemma kept_claim: "claims_kept rs f \<Longrightarrow> p < length (f_deliveries f) \<Longrightarrow>
    pd_claim (f_deliveries f ! p) = p \<and> p < length (claims (f_delivery f))"
  by (simp add: claims_kept_def holds_claims_def)

lemma kept_inv: "claims_kept rs f \<Longrightarrow> claims_inv (f_delivery f)"
  by (simp add: claims_kept_def holds_claims_def)

lemma inv_ok: "claims_inv d \<Longrightarrow> claims_ok d"
  by (simp add: claims_inv_def)

text \<open>Settling one identifier.\<close>

lemma claims_kept_settle:
  assumes "claims_kept rs f"
  shows "claims_kept rs (fetcher_settleClaim i f)"
proof (cases "jm_get (f_pendingClaims f) i")
  case None
  with assms show ?thesis by (simp add: fetcher_settleClaim_def)
next
  case (Some p)
  note inv = kept_inv [OF assms]
  have pl: "p < length (claims (f_delivery f))" "p < length (f_deliveries f)"
    using Some assms by (auto simp: kept_pend [OF assms] pend_def claims_kept_def holds_claims_def)
  have wf: "jm_wf (f_pendingClaims f)" using assms by (simp add: claims_kept_def holds_claims_def)
  have "claims_inv (settleClaim p i (f_delivery f))"
    by (rule claims_inv_step [OF inv delivery_step.settled [OF pl(1)]])
  then have "claims_kept rs (f\<lparr>f_queue := f_queue f, f_pendingClaims := jm_delete i (f_pendingClaims f),
      f_deliveries := f_deliveries f, f_delivery := settleClaim p i (f_delivery f)\<rparr>)"
    using Some assms
    by (intro claims_kept_shrink [where gone = "\<lambda>j q. j = i \<and> q = p"])
       (auto simp: wf disposed_flags [OF flags_settleClaim] pend_settle [OF inv_ok [OF inv] pl(1)] claims_kept_def stopped_def split: if_splits)
  then show ?thesis using Some kept_claim [OF assms pl(2)] by (simp add: fetcher_settleClaim_def)
qed

lemma settle_get: "jm_get (f_pendingClaims (fetcher_settleClaim i f)) j = (if j = i then None else jm_get (f_pendingClaims f) j)"
  by (auto simp: fetcher_settleClaim_def split: option.split)

lemma settle_pace [simp]: "pace (fetcher_settleClaim i f) = pace f" "f_queue (fetcher_settleClaim i f) = f_queue f"
  by (auto simp: fetcher_settleClaim_def pace_def split: option.split)

lemma settle_all:
  shows "claims_kept rs f \<Longrightarrow> claims_kept rs (foldl (\<lambda>f i. fetcher_settleClaim i f) f ids)"
    and "jm_get (f_pendingClaims (foldl (\<lambda>f i. fetcher_settleClaim i f) f ids)) j =
      (if j \<in> set ids then None else jm_get (f_pendingClaims f) j)"
    and "pace (foldl (\<lambda>f i. fetcher_settleClaim i f) f ids) = pace f"
    and "f_queue (foldl (\<lambda>f i. fetcher_settleClaim i f) f ids) = f_queue f"
  by (induction ids arbitrary: f) (auto simp: claims_kept_settle settle_get)

text \<open>A request ends: what it was answerable for is settled, so that it may go.\<close>

lemma finish_kept:
  assumes "claims_kept rs f"
    and "\<And>i p r. r \<in> set rs \<Longrightarrow> r \<notin> set rs' \<Longrightarrow> covers i p r \<Longrightarrow> jm_get (f_pendingClaims f) i = Some p \<Longrightarrow> i \<in> set ids"
  shows "claims_kept rs' (finishRequest ids now f)"
proof -
  let ?f = "foldl (\<lambda>f i. fetcher_settleClaim i f) f ids"
  have k: "claims_kept rs ?f" by (rule settle_all(1) [OF assms(1)])
  have "served rs' ?f"
    using k assms(2) settle_all(2) [of f ids] unfolding claims_kept_def served_def by (metis option.distinct(1))
  with k have "claims_kept rs' ?f" by (simp add: claims_kept_def)
  then show ?thesis
    using claims_kept_frame [of "finishRequest ids now f" ?f rs'] by (simp add: finishRequest_def Let_def setTimer_def)
qed

lemma finish_pace:
  "pace (finishRequest ids now f) = (f_processing f - 1, (if f_queue f = [] then f_timers f else f_timers f + 1), f_requests f)"
  "f_queue (finishRequest ids now f) = f_queue f"
  using settle_all(3,4) [of f ids] by (auto simp: finishRequest_def Let_def setTimer_def pace_def)

text \<open>A claim is given up by its runner or its stall timer.\<close>

lemma delete_pending_get:
  "jm_get (delete_pending p ids m) j = Some q \<longleftrightarrow> jm_get m j = Some q \<and> \<not> (q = p \<and> j \<in> set ids)"
  unfolding delete_pending_def by (induction ids arbitrary: m) auto

lemma delete_pending_wf: "jm_wf m \<Longrightarrow> jm_wf (delete_pending p ids m)"
  unfolding delete_pending_def by (induction ids arbitrary: m) auto

lemma delete_pending_Nil: "delete_pending p ids [] = []"
  unfolding delete_pending_def by (induction ids) auto

lemma given_up:
  assumes kept: "claims_kept rs f" and p: "p < length (f_deliveries f)"
    and d': "claims_inv d'" "disposed d' = disposed (f_delivery f)" "length (claims d') = length (claims (f_delivery f))"
      "\<And>q i. pend d' q i \<longleftrightarrow> pend (f_delivery f) q i \<and> q \<noteq> p"
    and ids: "set ids = {i. pend (f_delivery f) p i}"
  shows "claims_kept rs ((removePendingDelivery p ids (resolveBoundary p False f))\<lparr>f_delivery := d'\<rparr>)"
proof -
  let ?m = "delete_pending p ids (f_pendingClaims f)"
  have wf: "jm_wf ?m" using kept by (simp add: claims_kept_def holds_claims_def delete_pending_wf)
  have get: "jm_get ?m i = Some q \<longleftrightarrow> jm_get (f_pendingClaims f) i = Some q \<and> \<not> q = p" for i q
    using ids by (auto simp: delete_pending_get kept_pend [OF kept])
  have "claims_kept rs (f\<lparr>f_queue := filter (\<lambda>i. \<not> (i \<in> set ids \<and> \<not> jm_has ?m i)) (f_queue f), f_pendingClaims := ?m,
      f_deliveries := f_deliveries (resolveBoundary p False f), f_delivery := d'\<rparr>)"
    using kept p
    by (intro claims_kept_shrink [where gone = "\<lambda>i q. q = p"] kept d' wf get)
       (auto simp: resolveBoundary_def nth_list_update jm_has_def claims_kept_def stopped_def delete_pending_Nil
         split: if_splits)
  moreover have "claims_kept rs ((removePendingDelivery p ids (resolveBoundary p False f))\<lparr>f_delivery := d'\<rparr>) =
    claims_kept rs (f\<lparr>f_queue := filter (\<lambda>i. \<not> (i \<in> set ids \<and> \<not> jm_has ?m i)) (f_queue f), f_pendingClaims := ?m,
      f_deliveries := f_deliveries (resolveBoundary p False f), f_delivery := d'\<rparr>)"
    by (rule claims_kept_frame) (simp_all add: removePendingDelivery_def Let_def resolveBoundary_def)
  ultimately show ?thesis by simp
qed

lemma release_keeps:
  assumes "claims_inv d" and "c < length (claims d)"
  shows "claims_inv (releaseClaim c d)" "disposed (releaseClaim c d) = disposed d"
    "length (claims (releaseClaim c d)) = length (claims d)" "pend (releaseClaim c d) q i \<longleftrightarrow> pend d q i \<and> q \<noteq> c"
  using claims_inv_step [OF assms(1) delivery_step.released [OF assms(2)]] disposed_flags [OF flags_release]
    pend_release [OF inv_ok [OF assms(1)]]
  by simp_all

lemma claims_kept_rejected:
  assumes kept: "claims_kept rs f" and p: "p < length (f_deliveries f)"
  shows "claims_kept rs (activityRejected p f)"
proof -
  have c: "pd_claim (f_deliveries f ! p) = p" "p < length (claims (f_delivery f))" using kept_claim [OF kept p] by auto
  have "set (cl_pending (claims (f_delivery f) ! p)) = {i. pend (f_delivery f) p i}" using c by (auto simp: pend_def)
  from given_up [OF kept p release_keeps [OF kept_inv [OF kept] c(2)] this]
  show ?thesis by (simp add: activityRejected_def Let_def c removePendingDelivery_def resolveBoundary_def)
qed

lemma claims_kept_stalls:
  assumes kept: "claims_kept rs f" and p: "p < length (f_deliveries f)"
  shows "claims_kept rs (claimStalls p f)"
proof -
  have c: "pd_claim (f_deliveries f ! p) = p" "p < length (claims (f_delivery f))" using kept_claim [OF kept p] by auto
  let ?d0 = "upd_claim p (\<lambda>cl. cl\<lparr>cl_armed := False\<rparr>) (f_delivery f)"
  have d0: "claims_inv ?d0" "p < length (claims ?d0)" "disposed ?d0 = disposed (f_delivery f)"
    "length (claims ?d0) = length (claims (f_delivery f))"
    using kept_inv [OF kept] claims_ok_disarm [of "f_delivery f" p] c
    by (simp_all add: claims_inv_def) (simp_all add: upd_claim_def)
  have pend0: "pend ?d0 q i \<longleftrightarrow> pend (f_delivery f) q i" for q i
    using c by (auto simp: pend_def upd_claim_def nth_list_update)
  have ids: "set (cl_pending (claims (f_delivery f) ! p)) = {i. pend (f_delivery f) p i}" using c by (auto simp: pend_def)
  let ?g = "(removePendingDelivery p (cl_pending (claims (f_delivery f) ! p)) (resolveBoundary p False f))
      \<lparr>f_delivery := releaseClaim p ?d0\<rparr>"
  have "claims_kept rs ?g"
    using release_keeps [OF d0(1,2)] d0(3,4) pend0 by (intro given_up [OF kept p _ _ _ _ ids]) simp_all
  moreover have "claims_kept rs (claimStalls p f) = claims_kept rs ?g"
    by (rule claims_kept_frame)
       (simp_all add: claimStalls_def stallFired_def onClaimStalled_def c removePendingDelivery_def resolveBoundary_def Let_def)
  ultimately show ?thesis by simp
qed

lemma up_pace [simp]:
  "pace (activityRejected p f) = pace f" "pace (claimStalls p f) = pace f" "pace (activityEntered p f) = pace f"
  by (simp_all add: pace_def activityRejected_def claimStalls_def activityEntered_def onClaimStalled_def removePendingDelivery_def
      resolveBoundary_def Let_def split: prod.split)

lemma up_queue:
  "set (f_queue (activityRejected p f)) \<subseteq> set (f_queue f)" "set (f_queue (claimStalls p f)) \<subseteq> set (f_queue f)"
  by (auto simp: activityRejected_def claimStalls_def onClaimStalled_def removePendingDelivery_def resolveBoundary_def Let_def
      split: prod.splits)

section \<open>New claims\<close>

lemma set_pending_get: "jm_get (set_pending p ids m) j = (if j \<in> set ids then Some p else jm_get m j)"
  unfolding set_pending_def by (induction ids arbitrary: m) auto

lemma set_pending_wf: "jm_wf m \<Longrightarrow> jm_wf (set_pending p ids m)"
  unfolding set_pending_def by (induction ids arbitrary: m) auto

lemma ensure_claims:
  assumes kept: "claims_kept rs f" and e: "ensureClaims s ids f = Inr (cl, f1)"
  shows "set cl = {i \<in> set ids. jm_get (f_pendingClaims f) i = None}"
    and "jm_get (f_pendingClaims f1) i = (if i \<in> set cl then Some (length (f_deliveries f)) else jm_get (f_pendingClaims f) i)"
    and "pace f1 = pace f" "f_queue f1 = f_queue f" "f_destroyed f1 = f_destroyed f"
    and "holds_claims f1" and "boundaries f1"
proof -
  let ?u = "js_unique (filter (\<lambda>i. \<not> jm_has (f_pendingClaims f) i) ids)"
  have cl: "cl = ?u" using e by (auto simp: ensureClaims_def Let_def split: if_splits sum.splits option.splits)
  show "set cl = {i \<in> set ids. jm_get (f_pendingClaims f) i = None}" by (auto simp: cl jm_has_def)
  have kept': "holds_claims f" "boundaries f" using kept by (simp_all add: claims_kept_def)
  have all: "jm_get (f_pendingClaims f1) i = (if i \<in> set cl then Some (length (f_deliveries f)) else jm_get (f_pendingClaims f) i) \<and>
      pace f1 = pace f \<and> f_queue f1 = f_queue f \<and> f_destroyed f1 = f_destroyed f \<and> holds_claims f1 \<and> boundaries f1" for i
  proof (cases "?u = []")
    case True
    with e kept' show ?thesis by (simp add: ensureClaims_def cl)
  next
    case False
    define t where "t = (case st_stallTimeout s of None \<Rightarrow> 300000 | Some t \<Rightarrow> t)"
    have nd: "\<not> disposed (f_delivery f)" using kept' by (simp add: holds_claims_def)
    obtain c d where c: "claim ?u (Some t) (f_delivery f) = Inr (Some c, d)"
      using nd False by (simp add: claim_def Let_def js_unique_id)
    note pc = pend_claim [OF c]
    have len: "c = length (f_deliveries f)" using pc(1) kept' by (simp add: holds_claims_def)
    have f1: "f1 = f\<lparr>f_delivery := d, f_pendingClaims := set_pending (length (f_deliveries f)) ?u (f_pendingClaims f),
        f_deliveries := f_deliveries f @ [\<lparr>pd_claim = c, pd_boundary = None\<rparr>]\<rparr>"
      using e False by (auto simp: ensureClaims_def Let_def t_def [symmetric] c)
    have get: "jm_get (f_pendingClaims f1) i = (if i \<in> set cl then Some (length (f_deliveries f)) else jm_get (f_pendingClaims f) i)" for i
      unfolding cl by (simp add: f1 set_pending_get)
    have old: "jm_get (f_pendingClaims f) i = Some p \<longleftrightarrow> pend (f_delivery f) p i" for i p
      by (rule kept_pend [OF kept])
    have fresh: "jm_get (f_pendingClaims f) i \<noteq> Some c" for i
      using kept' by (simp add: old pend_def len holds_claims_def)
    have "jm_get (f_pendingClaims f1) i = Some p \<longleftrightarrow> pend d p i" for i p
      using fresh [of i] by (auto simp: get cl pc(3) len [symmetric] old [symmetric] jm_has_def)
    moreover have "claims_inv d" by (rule claims_inv_claim [OF kept_inv [OF kept] c])
    moreover have "\<not> disposed d" using nd disposed_flags [OF flags_claim [OF c]] by simp
    ultimately have "holds_claims f1"
      using kept' pc(2) len by (auto simp: holds_claims_def f1 nth_append less_Suc_eq set_pending_wf)
    moreover have "boundaries f1"
      using kept'(2) by (auto simp: boundaries_def get) (auto simp: f1 nth_append less_Suc_eq split: if_splits)
    ultimately show ?thesis using get by (simp add: f1 pace_def)
  qed
  from all show "jm_get (f_pendingClaims f1) i = (if i \<in> set cl then Some (length (f_deliveries f)) else jm_get (f_pendingClaims f) i)"
    and "pace f1 = pace f" "f_queue f1 = f_queue f" "f_destroyed f1 = f_destroyed f" "holds_claims f1" "boundaries f1"
    by blast+
qed

lemma ensure_alive: "\<not> disposed (f_delivery f) \<Longrightarrow> \<exists>cl f1. ensureClaims s ids f = Inr (cl, f1)"
  by (auto simp: ensureClaims_def claim_def Let_def)

lemma ensure_returns: "claims_kept rs f \<Longrightarrow> \<exists>cl f1. ensureClaims s ids f = Inr (cl, f1)"
  by (rule ensure_alive) (simp add: claims_kept_def holds_claims_def)

lemma ensure_pace: "ensureClaims s ids f = Inr (cl, f1) \<Longrightarrow> pace f1 = pace f"
  by (auto simp: ensureClaims_def Let_def pace_def split: if_splits sum.splits option.splits)

lemma claims_kept_event:
  assumes kept: "claims_kept rs f"
  shows "claims_kept rs (onEvent dc s ids f)"
proof (cases "f_destroyed f")
  case True
  with kept show ?thesis by (simp add: onEvent_def)
next
  case False
  obtain cl f1 where e: "ensureClaims s ids f = Inr (cl, f1)" using ensure_returns [OF kept] by blast
  note n = ensure_claims [OF kept e]
  let ?f2 = "f1\<lparr>f_queue := js_unique (f_queue f1 @ cl)\<rparr>"
  have "served rs ?f2"
    using kept by (auto simp: served_def n(2,4) claims_kept_def split: if_splits)
  moreover have "holds_claims ?f2" "boundaries ?f2" using n(6,7) by (simp_all add: holds_claims_def boundaries_def)
  moreover have "stopped ?f2" using False n(5) by (simp add: stopped_def)
  ultimately have "claims_kept rs ?f2" by (simp add: claims_kept_def)
  moreover have "claims_kept rs (setTimer ?f2) = claims_kept rs ?f2" by (rule claims_kept_frame) (simp_all add: setTimer_def)
  ultimately show ?thesis using False by (simp add: onEvent_def e Let_def)
qed

section \<open>Requests keep the claims\<close>

lemma replace_kept:
  assumes "claims_kept rs f" and "\<And>i p. covers i p (rs ! k) \<Longrightarrow> jm_get (f_pendingClaims f) i = Some p \<Longrightarrow> covers i p r"
    and "k < length rs"
  shows "claims_kept (rs[k := r]) f"
proof -
  have "served (rs[k := r]) f"
    unfolding served_def
  proof (intro allI impI)
    fix i p assume ip: "jm_get (f_pendingClaims f) i = Some p"
    with assms(1) consider "i \<in> set (f_queue f)" | x where "x \<in> set rs" "covers i p x"
      unfolding claims_kept_def served_def by blast
    then show "i \<in> set (f_queue f) \<or> (\<exists>r \<in> set (rs[k := r]). covers i p r)"
    proof cases
      case 2
      then obtain j where j: "j < length rs" "rs ! j = x" by (auto simp: in_set_conv_nth)
      show ?thesis
      proof (cases "j = k")
        case True
        with assms(2) [of i p] 2 ip j have "covers i p r" by simp
        then show ?thesis using assms(3) by (auto intro: set_update_memI)
      next
        case False
        then have "rs[k := r] ! j = x" using j by simp
        then have "x \<in> set (rs[k := r])" using j nth_mem [of j "rs[k := r]"] by simp
        with 2 show ?thesis by blast
      qed
    qed blast
  qed
  with assms(1) show ?thesis by (simp add: claims_kept_def)
qed

definition advanced :: "nat \<Rightarrow> request option \<Rightarrow> request list \<Rightarrow> request list" where
  "advanced k r rs = (case r of Some r \<Rightarrow> rs[k := r] | None \<Rightarrow> take k rs @ drop (Suc k) rs)"

lemma removed_one: "k < length rs \<Longrightarrow> r \<in> set rs \<Longrightarrow> r \<notin> set (take k rs @ drop (Suc k) rs) \<Longrightarrow> r = rs ! k"
  using id_take_nth_drop [of k rs] by (metis Un_iff insert_iff list.simps(15) set_append)

text \<open>Request \<open>k\<close> answers at most for \<open>ids\<close>.\<close>

definition answers_for :: "nat \<Rightarrow> doc_id list \<Rightarrow> request list \<Rightarrow> fetcher \<Rightarrow> bool" where
  "answers_for k ids rs f \<longleftrightarrow> k < length rs \<and>
     (\<forall>i p. covers i p (rs ! k) \<longrightarrow> jm_get (f_pendingClaims f) i = Some p \<longrightarrow> i \<in> set ids)"

lemma answers_frame:
  "f_pendingClaims f' = f_pendingClaims f \<Longrightarrow> answers_for k ids rs f' = answers_for k ids rs f"
  by (simp add: answers_for_def)

lemma finish_advanced:
  assumes "claims_kept rs f" and "answers_for k ids rs f"
  shows "claims_kept (advanced k None rs) (finishRequest ids now f)"
  using assms removed_one [of k rs] by (intro finish_kept [OF assms(1)]) (auto simp: advanced_def answers_for_def)

lemma replace_advanced:
  assumes "claims_kept rs f" and "answers_for k ids rs f" and "\<And>i p. i \<in> set ids \<Longrightarrow> covers i p r"
  shows "claims_kept (advanced k (Some r) rs) f"
  unfolding advanced_def option.case
  by (rule replace_kept [OF assms(1)]) (use assms(2,3) in \<open>auto simp: answers_for_def\<close>)

lemma touchClaims_frames [simp]:
  "f_pendingClaims (touchClaims ids f) = f_pendingClaims f" "pace (touchClaims ids f) = pace f"
  "f_queue (touchClaims ids f) = f_queue f" "f_processing (touchClaims ids f) = f_processing f"
  by (simp_all add: touchClaims_def pace_def)

lemma emit_frames [simp]:
  "f_pendingClaims (emitMissing ids f) = f_pendingClaims f" "f_pendingClaims (emitChunkFetched cs f) = f_pendingClaims f"
  "pace (emitMissing ids f) = pace f" "pace (emitChunkFetched cs f) = pace f"
  "f_queue (emitMissing ids f) = f_queue f" "f_queue (emitChunkFetched cs f) = f_queue f"
  by (simp_all add: emitMissing_def emitChunkFetched_def pace_def)

lemma core_emissions:
  "core (foldl (\<lambda>d i. onMissingChunk i d) d ids) = core d" "core (foldl (\<lambda>d l. onChunkArrived l False d) d cs) = core d"
  by (induction ids arbitrary: d, simp_all) (induction cs arbitrary: d, simp_all)

lemma claims_kept_emit:
  "claims_kept rs f \<Longrightarrow> claims_kept rs (emitMissing ids f)" "claims_kept rs f \<Longrightarrow> claims_kept rs (emitChunkFetched cs f)"
  unfolding emitMissing_def emitChunkFetched_def by (rule claims_kept_core, assumption, rule core_emissions)+

lemma startFetch_kept:
  assumes "claims_kept rs f" and "answers_for k ids rs f"
  shows "claims_kept (advanced k (fst (startFetch ids rep now f)) rs) (snd (startFetch ids rep now f))"
proof -
  have t: "claims_kept rs (touchClaims ids f)" "answers_for k ids rs (touchClaims ids f)"
    using assms claims_kept_touchClaims answers_frame [of "touchClaims ids f" f] by auto
  show ?thesis
    using finish_advanced [OF t] replace_advanced [OF t, of "Fetching ids"] by (simp add: startFetch_def Let_def)
qed

lemma boundary_answers:
  assumes kept: "claims_kept rs f" and k: "k < length rs" "rs ! k = AtBoundary ids ps"
    and res: "list_all (\<lambda>p. pd_boundary (f_deliveries f ! p) \<noteq> None) ps"
  shows "answers_for k (entered_ids ids ps f) rs f"
  unfolding answers_for_def
proof (intro conjI allI impI)
  fix i p assume c: "covers i p (rs ! k)" and ip: "jm_get (f_pendingClaims f) i = Some p"
  then have "p < length (f_deliveries f)"
    using kept by (auto simp: claims_kept_def holds_claims_def pend_def)
  then have "pd_boundary (f_deliveries f ! p) \<noteq> Some False"
    using kept ip by (auto simp: claims_kept_def boundaries_def)
  moreover have "pd_boundary (f_deliveries f ! p) \<noteq> None" using res c k by (auto simp: list_all_iff)
  ultimately have "pd_boundary (f_deliveries f ! p) = Some True" by (metis (full_types) option.exhaust)
  then show "i \<in> set (entered_ids ids ps f)" using c k ip by (simp add: entered_ids_def)
qed (rule k)

lemma boundaryPassed_kept:
  assumes kept: "claims_kept rs f" and k: "k < length rs" "rs ! k = AtBoundary ids ps"
    and res: "list_all (\<lambda>p. pd_boundary (f_deliveries f ! p) \<noteq> None) ps"
  shows "claims_kept (advanced k (fst (boundaryPassed di s ids ps rep now f)) rs) (snd (boundaryPassed di s ids ps rep now f))"
proof -
  define ids' where "ids' = entered_ids ids ps f"
  have a: "answers_for k ids' rs f" unfolding ids'_def by (rule boundary_answers [OF assms])
  define f2 where "f2 = (touchClaims ids' f)\<lparr>f_previous := now\<rparr>"
  have "claims_kept rs (touchClaims ids' f)" by (rule claims_kept_touchClaims [OF kept])
  then have f2: "claims_kept rs f2" using claims_kept_frame [of f2 "touchClaims ids' f" rs] by (simp add: f2_def)
  have a2: "answers_for k ids' rs f2" using a answers_frame [of f2 f] by (simp add: f2_def)
  show ?thesis
    using finish_advanced [OF kept a] startFetch_kept [OF f2 a2] replace_advanced [OF f2 a2, of "Delaying ids'"]
    by (cases "ids' = []") (simp_all add: boundaryPassed_def Let_def ids'_def [symmetric] f2_def [symmetric])
qed

lemma fetchAnswered_kept:
  assumes kept: "claims_kept rs f" and a: "answers_for k ids rs f"
  shows "claims_kept (advanced k (fst (fetchAnswered ids answer now f)) rs) (snd (fetchAnswered ids answer now f))"
proof -
  have f1: "claims_kept rs (touchClaims ids f)" by (rule claims_kept_touchClaims [OF kept])
  have any: "answers_for k ids rs f'" if "f_pendingClaims f' = f_pendingClaims f" for f'
    using a answers_frame that by blast
  have m: "claims_kept (advanced k None rs) (finishRequest ids now (emitMissing ids (touchClaims ids f)))"
    by (rule finish_advanced) (simp_all add: claims_kept_emit f1 any)
  have c: "claims_kept (advanced k None rs) (finishRequest ids now (emitMissing ms (emitChunkFetched cs (touchClaims ids f))))" for ms cs
    by (rule finish_advanced) (simp_all add: claims_kept_emit f1 any)
  have w: "claims_kept (advanced k (Some (Writing ids cs ms)) rs) (touchClaims ids f)" for cs ms
    by (rule replace_advanced [OF f1 any]) simp_all
  show ?thesis
    using finish_advanced [OF kept a] m c w by (simp add: fetchAnswered_def Let_def split: option.split)
qed

lemma writeFinished_kept:
  assumes kept: "claims_kept rs f" and a: "answers_for k ids rs f"
  shows "claims_kept (advanced k (fst (writeFinished ids cs ms threw now f)) rs) (snd (writeFinished ids cs ms threw now f))"
proof -
  have "claims_kept rs (if threw then f else touchClaims ids f)" using kept claims_kept_touchClaims by simp
  then show ?thesis
    unfolding writeFinished_def Let_def fst_conv snd_conv
    using a answers_frame [of "emitMissing ms (emitChunkFetched cs (if threw then f else touchClaims ids f))" f k ids rs]
    by (intro finish_advanced claims_kept_emit) (simp_all split: if_splits)
qed

lemma request_eq:
  assumes "\<not> f_destroyed f" and "canRequestMore dc s f"
    and "ensureClaims s (take BATCH_SIZE (f_queue f))
      (f\<lparr>f_processing := f_processing f + 1, f_queue := drop BATCH_SIZE (f_queue f)\<rparr>) = Inr (cl, f2)"
  shows "requestMissingChunks dc s now f =
    (Some (AtBoundary (take BATCH_SIZE (f_queue f)) (pending_of (take BATCH_SIZE (f_queue f)) f2)), f2)"
  unfolding requestMissingChunks_def Let_def assms(3) using assms(1,2) by simp

lemma request_started:
  assumes "claims_kept rs f" and "\<not> f_destroyed f" and "canRequestMore dc s f"
  shows "\<exists>r f2. requestMissingChunks dc s now f = (Some r, f2) \<and>
    pace f2 = (f_processing f + 1, f_timers f, f_requests f)"
proof -
  let ?f1 = "f\<lparr>f_processing := f_processing f + 1, f_queue := drop BATCH_SIZE (f_queue f)\<rparr>"
  have "\<not> disposed (f_delivery ?f1)" using assms(1) by (simp add: claims_kept_def holds_claims_def)
  then obtain cl f2 where e: "ensureClaims s (take BATCH_SIZE (f_queue f)) ?f1 = Inr (cl, f2)"
    using ensure_alive by blast
  from request_eq [OF assms(2,3) e] ensure_pace [OF e] show ?thesis by (simp add: pace_def)
qed

lemma request_requests:
  assumes "claims_kept rs f"
  shows "f_requests (snd (requestMissingChunks dc s now f)) = f_requests f"
proof (cases "f_destroyed f \<or> \<not> canRequestMore dc s f")
  case True
  then show ?thesis by (simp add: requestMissingChunks_def)
next
  case False
  with request_started [OF assms, of dc s now] show ?thesis by (auto simp: pace_def)
qed

lemma request_kept:
  assumes kept: "claims_kept rs f"
  shows "claims_kept (rs @ (case fst (requestMissingChunks dc s now f) of Some r \<Rightarrow> [r] | None \<Rightarrow> []))
    (snd (requestMissingChunks dc s now f))"
proof (cases "f_destroyed f \<or> \<not> canRequestMore dc s f")
  case True
  with kept show ?thesis by (simp add: requestMissingChunks_def)
next
  case False
  define ids where "ids = take BATCH_SIZE (f_queue f)"
  define f1 where "f1 = f\<lparr>f_processing := f_processing f + 1, f_queue := drop BATCH_SIZE (f_queue f)\<rparr>"
  \<comment> \<open>with a stand-in for the request that takes the identifiers from the queue\<close>
  have q: "set (f_queue f) = set ids \<union> set (f_queue f1)"
    unfolding ids_def f1_def by (simp add: set_append [symmetric] del: set_append)
  have f1k: "claims_kept (rs @ [Delaying ids]) f1"
  proof -
    have "served (rs @ [Delaying ids]) f1"
      unfolding served_def
    proof (intro allI impI)
      fix i p assume "jm_get (f_pendingClaims f1) i = Some p"
      then have "i \<in> set (f_queue f) \<or> (\<exists>r \<in> set rs. covers i p r)"
        using kept unfolding claims_kept_def served_def by (simp add: f1_def)
      then show "i \<in> set (f_queue f1) \<or> (\<exists>r \<in> set (rs @ [Delaying ids]). covers i p r)" unfolding q by auto
    qed
    moreover have "holds_claims f1" using kept by (simp add: claims_kept_def holds_claims_def f1_def)
    moreover have "boundaries f1" using kept by (simp add: claims_kept_def boundaries_def f1_def)
    moreover have "stopped f1" using False by (simp add: stopped_def f1_def)
    ultimately show ?thesis by (simp add: claims_kept_def)
  qed
  obtain cl f2 where e: "ensureClaims s ids f1 = Inr (cl, f2)" using ensure_returns [OF f1k] by blast
  note n = ensure_claims [OF f1k e]
  have has: "jm_get (f_pendingClaims f2) i \<noteq> None" if "i \<in> set ids" for i
    using that n(1,2) by (auto split: if_splits)
  have "served (rs @ [AtBoundary ids (pending_of ids f2)]) f2"
    unfolding served_def
  proof (intro allI impI)
    fix i p assume ip: "jm_get (f_pendingClaims f2) i = Some p"
    show "i \<in> set (f_queue f2) \<or> (\<exists>r \<in> set (rs @ [AtBoundary ids (pending_of ids f2)]). covers i p r)"
    proof (cases "i \<in> set ids")
      case True
      with ip have "p \<in> set (pending_of ids f2)" by (force simp: pending_of_def List.map_filter_def)
      with True show ?thesis by simp
    next
      case False
      then have "jm_get (f_pendingClaims f1) i = Some p" using ip n(1,2) by auto
      then show ?thesis using f1k False n(4) by (auto simp: claims_kept_def served_def)
    qed
  qed
  moreover have "stopped f2" using False n(5) by (simp add: stopped_def f1_def)
  ultimately have "claims_kept (rs @ [AtBoundary ids (pending_of ids f2)]) f2" using n(6,7) by (simp add: claims_kept_def)
  moreover have "requestMissingChunks dc s now f = (Some (AtBoundary ids (pending_of ids f2)), f2)"
    unfolding ids_def by (rule request_eq) (use False e in \<open>auto simp: ids_def f1_def\<close>)
  ultimately show ?thesis by simp
qed

section \<open>Destruction and reads\<close>

lemma destroy_loop:
  defines "g \<equiv> \<lambda>f p. let f' = resolveBoundary p False f
    in f'\<lparr>f_delivery := releaseClaim (pd_claim (f_deliveries f' ! p)) (f_delivery f')\<rparr>"
  assumes "claims_inv (f_delivery f)" and "length (claims (f_delivery f)) = length (f_deliveries f)"
    and "\<forall>p < length (f_deliveries f). pd_claim (f_deliveries f ! p) = p" and "set ps \<subseteq> {..<length (f_deliveries f)}"
  shows "claims_inv (f_delivery (foldl g f ps)) \<and> disposed (f_delivery (foldl g f ps)) = disposed (f_delivery f) \<and>
    length (claims (f_delivery (foldl g f ps))) = length (f_deliveries (foldl g f ps)) \<and>
    (\<forall>p < length (f_deliveries (foldl g f ps)). pd_claim (f_deliveries (foldl g f ps) ! p) = p) \<and>
    (\<forall>p i. pend (f_delivery (foldl g f ps)) p i \<longleftrightarrow> pend (f_delivery f) p i \<and> p \<notin> set ps) \<and>
    f_pendingClaims (foldl g f ps) = f_pendingClaims f \<and> f_queue (foldl g f ps) = f_queue f \<and>
    f_destroyed (foldl g f ps) = f_destroyed f \<and> pace (foldl g f ps) = pace f"
  using assms(2-)
proof (induction ps arbitrary: f)
  case Nil
  then show ?case by simp
next
  case (Cons p ps)
  have p: "p < length (f_deliveries f)" "pd_claim (f_deliveries f ! p) = p" "p < length (claims (f_delivery f))"
    using Cons.prems by auto
  note r = release_keeps [OF Cons.prems(1) p(3)]
  have gf: "f_delivery (g f p) = releaseClaim p (f_delivery f)" "length (f_deliveries (g f p)) = length (f_deliveries f)"
    "f_pendingClaims (g f p) = f_pendingClaims f" "f_queue (g f p) = f_queue f" "f_destroyed (g f p) = f_destroyed f"
    "pace (g f p) = pace f"
    using p by (simp_all add: g_def Let_def resolveBoundary_def pace_def)
  have pc: "\<forall>q < length (f_deliveries f). pd_claim (f_deliveries (g f p) ! q) = q"
    using Cons.prems(3) p by (auto simp: g_def Let_def resolveBoundary_def nth_list_update)
  have "claims_inv (f_delivery (g f p))" "length (claims (f_delivery (g f p))) = length (f_deliveries (g f p))"
    "\<forall>q < length (f_deliveries (g f p)). pd_claim (f_deliveries (g f p) ! q) = q" "set ps \<subseteq> {..<length (f_deliveries (g f p))}"
    using r Cons.prems pc by (simp_all add: gf)
  from Cons.IH [OF this] show ?case using r by (auto simp: gf)
qed

lemma destroy_kept:
  assumes kept: "claims_kept rs f"
  shows "claims_kept rs' (destroy f)" and "pace (destroy f) = pace f" and "f_destroyed (destroy f)"
    and "f_queue (destroy f) = []"
proof -
  define f2 where "f2 = f\<lparr>f_destroyed := True, f_queue := [], f_pendingClaims := []\<rparr>"
  define ps where "ps = js_unique (map snd (f_pendingClaims f))"
  let ?g = "\<lambda>f p. let f' = resolveBoundary p False f
    in f'\<lparr>f_delivery := releaseClaim (pd_claim (f_deliveries f' ! p)) (f_delivery f')\<rparr>"
  have d: "destroy f = (if f_destroyed f then f else foldl ?g f2 ps)" by (simp add: destroy_def Let_def f2_def ps_def)
  have all: "claims_kept rs' (destroy f) \<and> pace (destroy f) = pace f \<and> f_destroyed (destroy f) \<and> f_queue (destroy f) = []"
  proof (cases "f_destroyed f")
    case True
    with kept show ?thesis by (auto simp: d claims_kept_def served_def stopped_def)
  next
    case False
    have inr: "p \<in> set ps \<longleftrightarrow> (\<exists>i. pend (f_delivery f) p i)" for p
    proof -
      have "p \<in> set ps \<longleftrightarrow> (\<exists>i. (i, p) \<in> set (f_pendingClaims f))" by (force simp: ps_def)
      also have "\<dots> \<longleftrightarrow> (\<exists>i. jm_get (f_pendingClaims f) i = Some p)"
      proof -
        have "distinct (jm_keys (f_pendingClaims f))" using kept by (simp add: claims_kept_def holds_claims_def jm_wf_def)
        then show ?thesis by simp
      qed
      finally show ?thesis by (simp add: kept_pend [OF kept])
    qed
    have "claims_inv (f_delivery f2)" "length (claims (f_delivery f2)) = length (f_deliveries f2)"
      "\<forall>p < length (f_deliveries f2). pd_claim (f_deliveries f2 ! p) = p" "set ps \<subseteq> {..<length (f_deliveries f2)}"
      using kept by (auto simp: f2_def claims_kept_def holds_claims_def inr pend_def)
    note l = destroy_loop [OF this]
    have "\<not> pend (f_delivery (foldl ?g f2 ps)) p i" for p i
      using l inr [of p] by (auto simp: f2_def)
    moreover have "\<not> disposed (f_delivery f)" using kept by (simp add: claims_kept_def holds_claims_def)
    ultimately have "claims_kept rs' (foldl ?g f2 ps)"
      using l unfolding claims_kept_def holds_claims_def boundaries_def served_def stopped_def
      by (simp add: f2_def jm_wf_def)
    with l show ?thesis using False by (simp add: d) (simp add: f2_def pace_def)
  qed
  from all show "claims_kept rs' (destroy f)" and "pace (destroy f) = pace f" and "f_destroyed (destroy f)"
    and "f_queue (destroy f) = []" by blast+
qed

lemma read_kept:
  assumes kept: "claims_kept rs f"
  shows "claims_kept rs (snd (fetcher_read dc s ids options f))"
proof -
  obtain ks d1 where e: "enqueue_all ids (f_delivery f) = (ks, d1)" by (cases "enqueue_all ids (f_delivery f)")
  have f1: "claims_kept rs (f\<lparr>f_delivery := d1\<rparr>)"
    by (rule claims_kept_core [OF kept]) (use core_enqueue_all [of ids "f_delivery f"] in \<open>simp add: e\<close>)
  show ?thesis
    using kept claims_kept_core [OF f1, of "refreshActivity (Some ids) d1"]
      claims_kept_core [OF claims_kept_event [OF f1, of dc s ids] core_refresh]
    by (simp add: fetcher_read_def e Let_def)
qed

section \<open>The requests\<close>

definition paced :: "int \<Rightarrow> settings \<Rightarrow> fetcher \<Rightarrow> bool" where
  "paced dc s f \<longleftrightarrow> f_processing f = length (f_requests f) \<and> int (f_processing f) \<le> concurrency dc s \<and>
     (f_queue f \<noteq> [] \<longrightarrow> 0 < f_timers f \<or> f_requests f \<noteq> [])"

lemma paced_mono:
  assumes "paced dc s f" and "pace f' = pace f" and "set (f_queue f') \<subseteq> set (f_queue f)"
  shows "paced dc s f'"
  using assms by (cases "f_queue f = []") (auto simp: paced_def pace_def)

lemma event_paced:
  assumes kept: "claims_kept rs f" and "paced dc s f" and "0 < concurrency dc s"
  shows "paced dc s (onEvent dc s ids f)"
proof (cases "f_destroyed f")
  case True
  with assms show ?thesis by (simp add: onEvent_def)
next
  case False
  obtain cl f1 where e: "ensureClaims s ids f = Inr (cl, f1)" using ensure_returns [OF kept] by blast
  have "pace f1 = pace f" by (rule ensure_claims [OF kept e])
  with assms(2,3) False show ?thesis
    by (auto simp: onEvent_def e Let_def paced_def pace_def setTimer_def canRequestMore_def)
qed

text \<open>How a request of the code leaves the accounting.\<close>

definition settles_pace :: "fetcher \<Rightarrow> request option \<times> fetcher \<Rightarrow> bool" where
  "settles_pace f rf \<longleftrightarrow> f_requests (snd rf) = f_requests f \<and>
     (case fst rf of Some _ \<Rightarrow> f_processing (snd rf) = f_processing f
      | None \<Rightarrow> f_processing (snd rf) = f_processing f - 1 \<and> (f_queue (snd rf) \<noteq> [] \<longrightarrow> 0 < f_timers (snd rf)))"

lemma advance_paced:
  assumes "paced dc s f" and "k < length (f_requests f)" and "settles_pace f rf"
  shows "paced dc s (advance k rf)"
proof (cases "fst rf")
  case None
  then have "length (take k (f_requests f) @ drop (Suc k) (f_requests f)) = length (f_requests f) - 1"
    using assms(2) by simp
  with None assms show ?thesis by (auto simp: paced_def advance_def settles_pace_def)
next
  case (Some r)
  with assms show ?thesis by (auto simp: paced_def advance_def settles_pace_def)
qed

lemma finish_settles: "pace f' = pace f \<Longrightarrow> settles_pace f (None, finishRequest ids now f')"
  using finish_pace [of ids now f'] by (auto simp: settles_pace_def pace_def)

lemma goes_on_settles: "pace f' = pace f \<Longrightarrow> settles_pace f (Some r, f')"
  by (simp add: settles_pace_def pace_def)

lemma requests_settle:
  "settles_pace f (startFetch ids rep now f)" "settles_pace f (boundaryPassed di s ids ps rep now f)"
  "settles_pace f (fetchAnswered ids answer now f)" "settles_pace f (writeFinished ids cs ms threw now f)"
proof -
  have start: "settles_pace f (startFetch ids rep now f')" if "pace f' = pace f" for f' ids
    using that by (simp add: startFetch_def Let_def finish_settles goes_on_settles)
  show "settles_pace f (startFetch ids rep now f)" by (rule start) simp
  have "pace (f'\<lparr>f_previous := now\<rparr>) = pace f'" for f' by (simp add: pace_def)
  then show "settles_pace f (boundaryPassed di s ids ps rep now f)"
    by (simp add: boundaryPassed_def Let_def finish_settles goes_on_settles start)
  show "settles_pace f (fetchAnswered ids answer now f)"
    by (simp add: fetchAnswered_def Let_def finish_settles goes_on_settles split: option.split)
  show "settles_pace f (writeFinished ids cs ms threw now f)"
    by (simp add: writeFinished_def Let_def finish_settles)
qed

lemma timer_paced:
  assumes kept: "claims_kept (f_requests f) f" and p: "paced dc s f" and "0 < concurrency dc s"
  shows "paced dc s (started (requestMissingChunks dc s now (f\<lparr>f_timers := f_timers f - 1\<rparr>)))"
proof -
  define f0 where "f0 = f\<lparr>f_timers := f_timers f - 1\<rparr>"
  have k0: "claims_kept (f_requests f) f0" using kept claims_kept_frame [of f0 f] by (simp add: f0_def)
  show ?thesis
  proof (cases "f_destroyed f0 \<or> \<not> canRequestMore dc s f0")
    case True
    then have "requestMissingChunks dc s now f0 = (None, f0)" by (simp add: requestMissingChunks_def)
    moreover have "f_queue f \<noteq> [] \<Longrightarrow> f_requests f \<noteq> []"
      using True p assms(3) kept by (auto simp: f0_def canRequestMore_def paced_def claims_kept_def stopped_def)
    ultimately show ?thesis using p by (simp add: f0_def [symmetric] started_def) (simp add: paced_def f0_def)
  next
    case False
    then obtain r f2 where r: "requestMissingChunks dc s now f0 = (Some r, f2)"
      "pace f2 = (f_processing f0 + 1, f_timers f0, f_requests f0)"
      using request_started [OF k0] by blast
    with False p show ?thesis
      unfolding f0_def [symmetric] started_def r(1) by (auto simp: paced_def pace_def f0_def canRequestMore_def)
  qed
qed

definition fetcher_ok :: "int \<Rightarrow> settings \<Rightarrow> fetcher \<Rightarrow> bool" where
  "fetcher_ok dc s f \<longleftrightarrow> claims_kept (f_requests f) f \<and> paced dc s f"

lemma advance_kept:
  "claims_kept (advanced k (fst rf) (f_requests (snd rf))) (snd rf) \<Longrightarrow> claims_kept (f_requests (advance k rf)) (advance k rf)"
  using claims_kept_frame [of "advance k rf" "snd rf"] by (simp add: advance_def advanced_def)

lemma advance_ok:
  assumes "fetcher_ok dc s f" and "k < length (f_requests f)" and "settles_pace f rf"
    and "claims_kept (advanced k (fst rf) (f_requests f)) (snd rf)"
  shows "fetcher_ok dc s (advance k rf)"
  using assms(1,4) advance_paced [OF _ assms(2,3)] advance_kept [of k rf] assms(3)
  unfolding fetcher_ok_def settles_pace_def by simp

lemma answers_own:
  assumes "k < length (f_requests f)" and "\<And>i p. covers i p (f_requests f ! k) \<Longrightarrow> i \<in> set ids"
  shows "answers_for k ids (f_requests f) f"
  using assms by (auto simp: answers_for_def)

lemma pace_requests: "pace f' = pace f \<Longrightarrow> f_requests f' = f_requests f"
  by (simp add: pace_def)

lemma quiet_ok:
  assumes ok: "fetcher_ok dc s f" and k: "claims_kept (f_requests f) f'" and p: "pace f' = pace f"
    and q: "set (f_queue f') \<subseteq> set (f_queue f)"
  shows "fetcher_ok dc s f'"
proof -
  have "paced dc s f'" by (rule paced_mono [OF _ p q]) (use ok in \<open>simp add: fetcher_ok_def\<close>)
  with k show ?thesis unfolding fetcher_ok_def pace_requests [OF p] by simp
qed

lemma delivery_ok:
  assumes "fetcher_ok dc s f" and "core d' = core (f_delivery f)"
  shows "fetcher_ok dc s (f\<lparr>f_delivery := d'\<rparr>)"
proof (rule quiet_ok [OF assms(1)])
  show "claims_kept (f_requests f) (f\<lparr>f_delivery := d'\<rparr>)"
    by (rule claims_kept_core [OF _ assms(2)]) (use assms(1) in \<open>simp add: fetcher_ok_def\<close>)
qed (simp_all add: pace_def)

lemma event_requests:
  assumes "claims_kept rs g"
  shows "f_requests (onEvent dc s ids g) = f_requests g"
proof (cases "f_destroyed g")
  case True
  then show ?thesis by (simp add: onEvent_def)
next
  case False
  obtain cl g1 where e: "ensureClaims s ids g = Inr (cl, g1)" using ensure_returns [OF assms] by blast
  have "f_requests g1 = f_requests g" by (rule pace_requests [OF ensure_pace [OF e]])
  then show ?thesis by (simp add: onEvent_def e Let_def setTimer_def)
qed

lemma event_ok:
  assumes "fetcher_ok dc s f" and "0 < concurrency dc s"
  shows "fetcher_ok dc s (onEvent dc s ids f)"
proof -
  have k: "claims_kept (f_requests f) f" and p: "paced dc s f" using assms(1) by (simp_all add: fetcher_ok_def)
  show ?thesis unfolding fetcher_ok_def event_requests [OF k]
    using claims_kept_event [OF k] event_paced [OF k p assms(2)] by simp
qed

lemma fetch_step_ok:
  assumes "0 < concurrency dc s" and "fetcher_ok dc s f" and "fetch_step di dc s f f'"
  shows "fetcher_ok dc s f'"
  using assms(3,2)
proof (induction rule: fetch_step.induct)
  case (read f ids options)
  obtain ks d1 where e: "enqueue_all ids (f_delivery f) = (ks, d1)" by (cases "enqueue_all ids (f_delivery f)")
  have d1: "core d1 = core (f_delivery f)" using core_enqueue_all [of ids "f_delivery f"] by (simp add: e)
  have f1: "fetcher_ok dc s (f\<lparr>f_delivery := d1\<rparr>)" by (rule delivery_ok [OF read d1])
  show ?case
    using read delivery_ok [OF f1, of "refreshActivity (Some ids) d1"] delivery_ok [OF event_ok [OF f1 assms(1)] core_refresh]
    by (simp add: fetcher_read_def e Let_def)
next
  case (event f ids)
  then show ?case using assms(1) by (rule event_ok)
next
  case (timer f now)
  let ?f0 = "f\<lparr>f_timers := f_timers f - 1\<rparr>"
  have k: "claims_kept (f_requests f) f" and p: "paced dc s f" using timer by (simp_all add: fetcher_ok_def)
  have k0: "claims_kept (f_requests f) ?f0" using k claims_kept_frame [of ?f0 f] by simp
  let ?rf = "requestMissingChunks dc s now ?f0"
  have "claims_kept (f_requests (started ?rf)) (started ?rf)"
  proof -
    have "f_requests (snd ?rf) = f_requests f" using request_requests [OF k0] by simp
    with request_kept [OF k0, of dc s now] show ?thesis
      using claims_kept_frame [of "started ?rf" "snd ?rf"] by (simp add: started_def)
  qed
  with timer_paced [OF k p assms(1)] show ?case by (simp add: fetcher_ok_def)
next
  case (boundary k f ids ps hasReplicator now)
  have "claims_kept (f_requests f) f" using boundary(4) by (simp add: fetcher_ok_def)
  from boundaryPassed_kept [OF this boundary(1-3)] show ?case
    by (rule advance_ok [OF boundary(4,1) requests_settle(2)])
next
  case (delayed k f ids hasReplicator now)
  have k: "claims_kept (f_requests f) f" and a: "answers_for k ids (f_requests f) f"
    using delayed by (auto simp: fetcher_ok_def answers_for_def)
  from startFetch_kept [OF k a] show ?case by (rule advance_ok [OF delayed(3,1) requests_settle(1)])
next
  case (fetched k f ids answer now)
  have k: "claims_kept (f_requests f) f" and a: "answers_for k ids (f_requests f) f"
    using fetched by (auto simp: fetcher_ok_def answers_for_def)
  from fetchAnswered_kept [OF k a] show ?case by (rule advance_ok [OF fetched(3,1) requests_settle(3)])
next
  case (written k f ids chunks missingIDs threw now)
  have k: "claims_kept (f_requests f) f" and a: "answers_for k ids (f_requests f) f"
    using written by (auto simp: fetcher_ok_def answers_for_def)
  from writeFinished_kept [OF k a] show ?case by (rule advance_ok [OF written(3,1) requests_settle(4)])
next
  case (entered p f)
  then have "claims_kept (f_requests f) (activityEntered p f)"
    unfolding activityEntered_def fetcher_ok_def
    by (intro claims_kept_resolve_True claims_kept_touch) simp_all
  with entered show ?case
    by (intro quiet_ok [OF entered(2)]) (simp_all add: activityEntered_def resolveBoundary_def pace_def)
next
  case (rejected p f)
  then show ?case by (intro quiet_ok [OF rejected(2)]) (simp_all add: claims_kept_rejected fetcher_ok_def up_queue)
next
  case (stalled p f)
  then show ?case by (intro quiet_ok [OF stalled(3)]) (simp_all add: claims_kept_stalls fetcher_ok_def up_queue)
next
  case (arrived f doc deleted)
  then show ?case by (rule delivery_ok) simp
next
  case (missing f i)
  then show ?case by (rule delivery_ok) simp
next
  case (answered f k answer)
  then show ?case by (rule delivery_ok) simp
next
  case (activity f n)
  then show ?case by (intro quiet_ok [OF activity]) (auto simp: fetcher_ok_def pace_def intro: claims_kept_finite)
next
  case (destroyed f)
  then have "claims_kept (f_requests f) f" by (simp add: fetcher_ok_def)
  note d = destroy_kept [OF this]
  show ?case by (intro quiet_ok [OF destroyed] d) (simp add: d)
qed

lemma new_fetcher_ok: "0 < concurrency dc s \<Longrightarrow> fetcher_ok dc s (new_fetcher (new_delivery n))"
  using new_delivery_inv(1) [of n]
  by (simp add: fetcher_ok_def claims_kept_def holds_claims_def boundaries_def served_def stopped_def paced_def new_fetcher_def
      jm_wf_def) (simp add: new_delivery_def pend_def)

text \<open>
  The interface of a state machine is used for every positive concurrency at once: the guard is a part
  of the steps considered.
\<close>

interpretation fetching: transition_invariant
  "\<lambda>f f'. 0 < concurrency dc s \<and> fetch_step di dc s f f'"
  "\<lambda>f. 0 < concurrency dc s \<and> (\<exists>n. f = new_fetcher (new_delivery n))" "fetcher_ok dc s"
  for di dc s
  by unfold_locales (auto intro: new_fetcher_ok fetch_step_ok)

lemma fetch_reachable:
  assumes "0 < concurrency dc s" and "(fetch_step di dc s)\<^sup>*\<^sup>* (new_fetcher (new_delivery n)) f"
  shows "fetcher_ok dc s f"
proof -
  have "(\<lambda>f f'. 0 < concurrency dc s \<and> fetch_step di dc s f f')\<^sup>*\<^sup>* (new_fetcher (new_delivery n)) f"
    using assms by simp
  with assms(1) show ?thesis by (intro fetching.reachable_inv) auto
qed

lemma destroyed_frames:
  "f_destroyed (touchClaims ids f) = f_destroyed f" "f_destroyed (emitMissing ids f) = f_destroyed f"
  "f_destroyed (emitChunkFetched cs f) = f_destroyed f" "f_destroyed (finishRequest ids now f) = f_destroyed f"
proof -
  have "f_destroyed (foldl (\<lambda>f i. fetcher_settleClaim i f) f ids) = f_destroyed f"
    by (induction ids arbitrary: f) (auto simp: fetcher_settleClaim_def split: option.split)
  then show "f_destroyed (finishRequest ids now f) = f_destroyed f" by (simp add: finishRequest_def Let_def setTimer_def)
qed (simp_all add: touchClaims_def emitMissing_def emitChunkFetched_def)

lemma destroyed_event: "f_destroyed f \<Longrightarrow> onEvent dc s ids f = f"
  by (simp add: onEvent_def)

lemma destroyed_stays: "fetch_step di dc s f f' \<Longrightarrow> f_destroyed f \<Longrightarrow> f_destroyed f'"
  by (induction rule: fetch_step.induct)
     (auto simp: fetcher_read_def destroyed_event Let_def started_def advance_def requestMissingChunks_def boundaryPassed_def
       startFetch_def fetchAnswered_def writeFinished_def destroyed_frames activityEntered_def activityRejected_def
       claimStalls_def onClaimStalled_def removePendingDelivery_def resolveBoundary_def destroy_def
       split: prod.split option.split)

section \<open>What the fetcher promises\<close>

text \<open>
  C28. No claim is abandoned: while a chunk counts as being delivered it stands in the queue or in a
  running request that will settle its claim; the queue is never left without a running request or a
  timer; and the running requests are counted exactly and never exceed the configured concurrency.
\<close>

theorem no_claim_abandoned:
  assumes "0 < concurrency dc s" and "(fetch_step di dc s)\<^sup>*\<^sup>* (new_fetcher (new_delivery n)) f"
  shows "(isClaimActiveFor (f_delivery f) i \<longrightarrow> i \<in> set (f_queue f) \<or> (\<exists>p. list_ex (covers i p) (f_requests f))) \<and>
    (f_queue f \<noteq> [] \<longrightarrow> 0 < f_timers f \<or> f_requests f \<noteq> []) \<and>
    f_processing f = length (f_requests f) \<and> int (f_processing f) \<le> concurrency dc s"
proof -
  have ok: "claims_kept (f_requests f) f" "paced dc s f" using fetch_reachable [OF assms] by (simp_all add: fetcher_ok_def)
  have "i \<in> set (f_queue f) \<or> (\<exists>p. list_ex (covers i p) (f_requests f))" if act: "isClaimActiveFor (f_delivery f) i"
  proof -
    obtain cl where "cl \<in> set (claims (f_delivery f))" "i \<in> set (cl_pending cl)"
      using act active_iff_pending [OF inv_ok [OF kept_inv [OF ok(1)]]] by blast
    then obtain p where "pend (f_delivery f) p i" by (auto simp: pend_def in_set_conv_nth)
    then have "jm_get (f_pendingClaims f) i = Some p" by (simp add: kept_pend [OF ok(1)])
    with ok(1) show ?thesis unfolding claims_kept_def served_def list_ex_iff by blast
  qed
  with ok(2) show ?thesis by (simp add: paced_def)
qed

text \<open>
  A destroyed fetcher holds nothing: its queue and its claims are gone whatever its requests were
  doing, and no later event brings any back.
\<close>

theorem destroyed_holds_nothing:
  assumes "0 < concurrency dc s" and "(fetch_step di dc s)\<^sup>*\<^sup>* (new_fetcher (new_delivery n)) f"
    and "(fetch_step di dc s)\<^sup>*\<^sup>* (destroy f) f'"
  shows "f_queue f' = [] \<and> f_pendingClaims f' = [] \<and> \<not> isClaimActiveFor (f_delivery f') i"
proof -
  have okf: "fetcher_ok dc s f" by (rule fetch_reachable [OF assms(1,2)])
  have stays: "f_destroyed f'"
    using assms(3)
  proof (induction rule: rtranclp_induct)
    case base
    have "claims_kept (f_requests f) f" using okf by (simp add: fetcher_ok_def)
    then show ?case by (rule destroy_kept)
  next
    case (step y z)
    from step.hyps(2) step.IH show ?case by (rule destroyed_stays)
  qed
  have "fetch_step di dc s f (destroy f)" by (rule fetch_step.destroyed)
  with assms(2,3) have "(fetch_step di dc s)\<^sup>*\<^sup>* (new_fetcher (new_delivery n)) f'"
    by (meson converse_rtranclp_into_rtranclp rtranclp_trans)
  then have ok: "claims_kept (f_requests f') f'" using fetch_reachable [OF assms(1)] by (simp add: fetcher_ok_def)
  then have e: "f_queue f' = []" "f_pendingClaims f' = []" using stays by (simp_all add: claims_kept_def stopped_def)
  have "\<not> pend (f_delivery f') p i" for p using kept_pend [OF ok, of i p] e by simp
  then have "\<not> isClaimActiveFor (f_delivery f') i"
    unfolding active_iff_pending [OF inv_ok [OF kept_inv [OF ok]]] by (auto simp: pend_def in_set_conv_nth [of _ "claims (f_delivery f')"])
  with e show ?thesis by simp
qed

section \<open>The pause between requests\<close>

text \<open>
  Two requests that pass the boundary after one another, the second before the first has ended, the first
  at \<open>t\<close>: whenever the first does not have to wait out a pause of its own, the second starts an interval
  after it. But when both have to wait, since the time of the last request is set before the pause and not
  after, they start together.
\<close>

lemma interval_after_immediate:
  assumes "timeToWait every t previous = 0" and "t \<le> t'"
  shows "t + every \<le> t' + timeToWait every t' t"
  using assms by (simp add: timeToWait_def)

lemma interval_not_respected:
  assumes "0 < every" and "t \<le> t'" and "t' \<le> t + every"
  shows "t + timeToWait every t t = t' + timeToWait every t' t"
  using assms by (simp add: timeToWait_def)

section \<open>A run\<close>

text \<open>One missing chunk is announced to a fresh fetcher.\<close>

definition sample_settings :: settings where
  "sample_settings = \<lparr>st_interval = 0, st_concurrency = 0, st_stallTimeout = None\<rparr>"

definition sample_fetcher :: fetcher where
  "sample_fetcher = \<lparr>f_queue = [''h:a''], f_pendingClaims = [(''h:a'', 0)],
     f_deliveries = [\<lparr>pd_claim = 0, pd_boundary = None\<rparr>], f_destroyed = False, f_processing = 0, f_previous = 0,
     f_timers = 1, f_requests = [],
     f_delivery = (new_delivery 0)\<lparr>claimCounts := [(''h:a'', 1)], claims := [run_claimed False], claimReleases := [0]\<rparr>\<rparr>"

lemma sample_concurrency: "0 < concurrency 15 sample_settings"
  by (simp add: concurrency_def sample_settings_def)

lemma sample_event: "onEvent 15 sample_settings [''h:a''] (new_fetcher (new_delivery 0)) = sample_fetcher"
  by (simp add: onEvent_def ensureClaims_def new_fetcher_def new_delivery_def claim_def sample_settings_def jm_has_def
      add_counts_def notifyChanged_def refreshActivity_def armStallTimer_def upd_claim_def set_pending_def canRequestMore_def
      concurrency_def setTimer_def sample_fetcher_def run_claimed_def Let_def)

lemma sample_reached: "(fetch_step 10 15 sample_settings)\<^sup>*\<^sup>* (new_fetcher (new_delivery 0)) sample_fetcher"
  using fetch_step.event [of 10 15 sample_settings "new_fetcher (new_delivery 0)" "[''h:a'']"]
  unfolding sample_event by blast

theorem no_claim_abandoned_witness:
  "isClaimActiveFor (f_delivery sample_fetcher) ''h:a'' \<and> ''h:a'' \<in> set (f_queue sample_fetcher) \<and>
   0 < f_timers sample_fetcher"
proof -
  have "isClaimActiveFor (f_delivery sample_fetcher) ''h:a''"
    by (simp add: sample_fetcher_def isClaimActiveFor_def jm_has_def)
  with no_claim_abandoned [OF sample_concurrency sample_reached, of "''h:a''"] show ?thesis
    by (simp add: sample_fetcher_def)
qed

theorem destroyed_holds_nothing_witness:
  "f_queue (destroy sample_fetcher) = [] \<and> \<not> isClaimActiveFor (f_delivery (destroy sample_fetcher)) ''h:a''"
  using destroyed_holds_nothing [OF sample_concurrency sample_reached rtranclp.rtrancl_refl] by blast

end
