(* ===== verification/Handlers.thy ===== *)
theory Handlers
  imports Prelude "HOL-Library.Product_Lexorder" "HOL-Library.Multiset"
begin

text \<open>
  \<open>src/services/lib/HandlerUtils.ts\<close>: the binders and dispatchers the services are wired with.

  A callback is a function object, known by its identity (a number); \<open>fns\<close> gives the behaviour of
  each as an asynchronous operation on a world that contains the binder itself, so that a handler may
  register and remove handlers while the binder runs them.
\<close>

section \<open>Values and errors\<close>

datatype 'u reply = Undefined | Bool bool | Val 'u

datatype thrown = ErrorObject string | OtherValue string

datatype binder_error = AlreadyAssigned string | NotAssigned string | Callback thrown

text \<open>\<open>error instanceof Error ? error : new Error(String(error))\<close>\<close>

definition as_error :: "thrown \<Rightarrow> thrown" where
  "as_error error = (case error of ErrorObject m \<Rightarrow> ErrorObject m | OtherValue s \<Rightarrow> ErrorObject s)"

type_synonym callback = nat

section \<open>A single handler\<close>

record single_binder =
  bn_name :: string
  bn_callback :: "callback option"

definition new_binder :: "string \<Rightarrow> callback option \<Rightarrow> single_binder" where
  "new_binder name initialCallback = \<lparr>bn_name = name, bn_callback = initialCallback\<rparr>"

definition binder_assign :: "callback \<Rightarrow> bool \<Rightarrow> single_binder \<Rightarrow> binder_error + single_binder" where
  "binder_assign callback override b =
     (if bn_callback b \<noteq> None \<and> \<not> override then Inl (AlreadyAssigned (bn_name b))
      else Inr (b\<lparr>bn_callback := Some callback\<rparr>))"

text \<open>The function \<open>assign\<close> returns.\<close>

definition binder_unassign :: "single_binder \<Rightarrow> single_binder" where
  "binder_unassign b = b\<lparr>bn_callback := None\<rparr>"

definition binder_invoke :: "(callback \<Rightarrow> 'a \<Rightarrow> 'w \<Rightarrow> (thrown + 'r) \<times> 'w) \<Rightarrow> 'a \<Rightarrow> single_binder \<Rightarrow> 'w \<Rightarrow> (binder_error + 'r) \<times> 'w" where
  "binder_invoke fns args b w =
     (case bn_callback b of
        Some f \<Rightarrow> (case fns f args w of (Inl e, w') \<Rightarrow> (Inl (Callback e), w') | (Inr r, w') \<Rightarrow> (Inr r, w'))
      | None \<Rightarrow> (Inl (NotAssigned (bn_name b)), w))"

section \<open>A single handler that may come later\<close>

text \<open>
  The promise the invocations wait for is replaced by every unassignment; \<open>lb_resolved\<close> are the
  promises resolved so far.
\<close>

record lazy_binder =
  lb_name :: string
  lb_callback :: "callback option"
  lb_promise :: nat
  lb_resolved :: "nat list"

definition new_lazy :: "string \<Rightarrow> callback option \<Rightarrow> lazy_binder" where
  "new_lazy name initialCallback =
     \<lparr>lb_name = name, lb_callback = initialCallback, lb_promise = 0,
      lb_resolved = (case initialCallback of None \<Rightarrow> [] | Some _ \<Rightarrow> [0])\<rparr>"

definition lazy_assign :: "callback \<Rightarrow> bool \<Rightarrow> lazy_binder \<Rightarrow> binder_error + lazy_binder" where
  "lazy_assign callback override b =
     (if lb_callback b \<noteq> None \<and> \<not> override then Inl (AlreadyAssigned (lb_name b))
      else Inr (b\<lparr>lb_callback := Some callback, lb_resolved := lb_promise b # lb_resolved b\<rparr>))"

definition lazy_unassign :: "lazy_binder \<Rightarrow> lazy_binder" where
  "lazy_unassign b = b\<lparr>lb_callback := None, lb_promise := lb_promise b + 1\<rparr>"

text \<open>An invocation waits for the promise it finds; it goes on once that promise is resolved.\<close>

definition lazy_await :: "lazy_binder \<Rightarrow> nat" where
  "lazy_await b = lb_promise b"

definition lazy_ready :: "nat \<Rightarrow> lazy_binder \<Rightarrow> bool" where
  "lazy_ready p b \<longleftrightarrow> p \<in> set (lb_resolved b)"

definition lazy_resume :: "lazy_binder \<Rightarrow> binder_error + callback" where
  "lazy_resume b = (case lb_callback b of Some f \<Rightarrow> Inr f | None \<Rightarrow> Inl (NotAssigned (lb_name b)))"

inductive lazy_step :: "lazy_binder \<Rightarrow> lazy_binder \<Rightarrow> bool" where
  assign: "lazy_assign f override b = Inr b' \<Longrightarrow> lazy_step b b'"
| unassign: "lazy_step b (lazy_unassign b)"

definition lazy_ok :: "lazy_binder \<Rightarrow> bool" where
  "lazy_ok b \<longleftrightarrow> (lb_callback b \<noteq> None \<longleftrightarrow> lazy_ready (lb_promise b) b) \<and> list_all (\<lambda>p. p \<le> lb_promise b) (lb_resolved b)"

interpretation lazy_inv: transition_invariant lazy_step "\<lambda>b. \<exists>name f. b = new_lazy name f" lazy_ok
proof unfold_locales
  show "lazy_ok b" if "\<exists>name f. b = new_lazy name f" for b
    using that by (auto simp: lazy_ok_def new_lazy_def lazy_ready_def split: option.splits)
  show "lazy_ok b'" if "lazy_ok b" "lazy_step b b'" for b b'
    using that(2,1)
    by (induction rule: lazy_step.induct)
       (auto simp: lazy_ok_def lazy_assign_def lazy_unassign_def lazy_ready_def list_all_iff split: if_splits)
qed

section \<open>Many handlers\<close>

record multi_binder =
  mb_name :: string
  mb_callbackMap :: "(callback, int \<times> nat) jsmap"
  mb_isCallbackDirty :: bool
  mb_maxUsedPriority :: nat
  mb_sortedCallbacks :: "callback list"

definition new_multi :: "string \<Rightarrow> multi_binder" where
  "new_multi name = \<lparr>mb_name = name, mb_callbackMap = [], mb_isCallbackDirty = False, mb_maxUsedPriority = 0,
     mb_sortedCallbacks = []\<rparr>"

definition addHandler :: "callback \<Rightarrow> int \<Rightarrow> multi_binder \<Rightarrow> multi_binder" where
  "addHandler callback priority b =
     b\<lparr>mb_callbackMap := jm_set callback (priority, mb_maxUsedPriority b) (mb_callbackMap b),
       mb_maxUsedPriority := mb_maxUsedPriority b + 1, mb_isCallbackDirty := True\<rparr>"

definition removeHandler :: "callback \<Rightarrow> multi_binder \<Rightarrow> multi_binder" where
  "removeHandler callback b =
     b\<lparr>mb_callbackMap := jm_delete callback (mb_callbackMap b), mb_isCallbackDirty := True\<rparr>"

text \<open>The function \<open>addHandler\<close> returns.\<close>

definition unregister :: "callback \<Rightarrow> multi_binder \<Rightarrow> multi_binder" where
  "unregister callback b = (removeHandler callback b)\<lparr>mb_isCallbackDirty := True\<rparr>"

definition use_handler :: "callback \<Rightarrow> int \<Rightarrow> multi_binder \<Rightarrow> multi_binder" where
  "use_handler callback priority = addHandler callback priority"

text \<open>The comparator orders by the priority and then by the order of registration.\<close>

definition callbacks :: "multi_binder \<Rightarrow> callback list \<times> multi_binder" where
  "callbacks b =
     (let b' = (if mb_isCallbackDirty b
                then b\<lparr>mb_sortedCallbacks := map fst (sort_key snd (mb_callbackMap b)), mb_isCallbackDirty := False\<rparr>
                else b)
      in (mb_sortedCallbacks b', b'))"

section \<open>Running the handlers\<close>

type_synonym ('x, 'r) handlers = "callback \<Rightarrow> (multi_binder \<times> 'x, thrown, 'r) act"

text \<open>The snapshot of the handlers an invocation runs.\<close>

definition snapshot :: "(multi_binder \<times> 'x, thrown, callback list) act" where
  "snapshot = (\<lambda>(b, x). case callbacks b of (cs, b') \<Rightarrow> Some (Inr cs, (b', x)))"

fun dispatch_loop :: "('x, 'r) handlers \<Rightarrow> callback list \<Rightarrow> (thrown + 'r) list \<Rightarrow>
    (multi_binder \<times> 'x, thrown, (thrown + 'r) list) act" where
  "dispatch_loop fns [] results w = Some (Inr results, w)"
| "dispatch_loop fns (c # cs) results w =
     (case fns c w of
        None \<Rightarrow> None
      | Some (Inr r, w') \<Rightarrow> dispatch_loop fns cs (results @ [Inr r]) w'
      | Some (Inl e, w') \<Rightarrow> dispatch_loop fns cs (results @ [Inl (as_error e)]) w')"

definition dispatch :: "('x, 'r) handlers \<Rightarrow> (multi_binder \<times> 'x, thrown, (thrown + 'r) list) act" where
  "dispatch fns = bindE snapshot (\<lambda>cs. dispatch_loop fns cs [])"

fun all_loop :: "('x, 'u reply) handlers \<Rightarrow> callback list \<Rightarrow> (multi_binder \<times> 'x, thrown, bool) act" where
  "all_loop fns [] w = Some (Inr True, w)"
| "all_loop fns (c # cs) w =
     (case fns c w of
        None \<Rightarrow> None
      | Some (Inr r, w') \<Rightarrow> if r = Bool False then Some (Inr False, w') else all_loop fns cs w'
      | Some (Inl e, w') \<Rightarrow> Some (Inr False, w'))"

definition all_invoke :: "('x, 'u reply) handlers \<Rightarrow> (multi_binder \<times> 'x, thrown, bool) act" where
  "all_invoke fns = bindE snapshot (all_loop fns)"

fun any_loop :: "('x, 'u reply) handlers \<Rightarrow> callback list \<Rightarrow> (multi_binder \<times> 'x, thrown, bool) act" where
  "any_loop fns [] w = Some (Inr False, w)"
| "any_loop fns (c # cs) w =
     (case fns c w of
        None \<Rightarrow> None
      | Some (Inr r, w') \<Rightarrow> if r = Bool True then Some (Inr True, w') else any_loop fns cs w'
      | Some (Inl e, w') \<Rightarrow> any_loop fns cs w')"

definition anySuccess_invoke :: "('x, 'u reply) handlers \<Rightarrow> (multi_binder \<times> 'x, thrown, bool) act" where
  "anySuccess_invoke fns = bindE snapshot (any_loop fns)"

fun first_loop :: "('x, 'u reply) handlers \<Rightarrow> callback list \<Rightarrow> (multi_binder \<times> 'x, thrown, 'u reply) act" where
  "first_loop fns [] w = Some (Inr (Bool False), w)"
| "first_loop fns (c # cs) w =
     (case fns c w of
        None \<Rightarrow> None
      | Some (Inr r, w') \<Rightarrow> if r \<noteq> Undefined \<and> r \<noteq> Bool False then Some (Inr r, w') else first_loop fns cs w'
      | Some (Inl e, w') \<Rightarrow> first_loop fns cs w')"

definition firstResult_invoke :: "('x, 'u reply) handlers \<Rightarrow> (multi_binder \<times> 'x, thrown, 'u reply) act" where
  "firstResult_invoke fns = bindE snapshot (first_loop fns)"

text \<open>
  The parallel variants start every handler of the snapshot and wait for all of them; \<open>outcome\<close> is what
  each one settles with, \<open>None\<close> for one that never does.
\<close>

fun settled_all :: "(callback \<Rightarrow> (thrown + 'r) option) \<Rightarrow> callback list \<Rightarrow> (thrown + 'r) list option" where
  "settled_all outcome [] = Some []"
| "settled_all outcome (c # cs) =
     (case outcome c of None \<Rightarrow> None | Some r \<Rightarrow> map_option (\<lambda>rs. r # rs) (settled_all outcome cs))"

definition dispatchParallel :: "(callback \<Rightarrow> (thrown + 'r) option) \<Rightarrow> multi_binder \<Rightarrow> (thrown + 'r) list option \<times> multi_binder" where
  "dispatchParallel outcome b =
     (case callbacks b of (cs, b') \<Rightarrow>
        (map_option (map (\<lambda>r. case r of Inl e \<Rightarrow> Inl (as_error e) | Inr v \<Rightarrow> Inr v)) (settled_all outcome cs), b'))"

definition parallelAll_invoke :: "(callback \<Rightarrow> (thrown + 'u reply) option) \<Rightarrow> multi_binder \<Rightarrow> bool option \<times> multi_binder" where
  "parallelAll_invoke outcome b =
     (case callbacks b of (cs, b') \<Rightarrow>
        (map_option (\<lambda>rs. list_all (\<lambda>res. res = Bool True)
            (map (\<lambda>r. case r of Inl e \<Rightarrow> Bool False | Inr v \<Rightarrow> v) rs)) (settled_all outcome cs), b'))"

section \<open>The order of the handlers\<close>

datatype registration = Add callback int | Remove callback | Read

definition register :: "multi_binder \<Rightarrow> registration \<Rightarrow> multi_binder" where
  "register b r = (case r of Add c p \<Rightarrow> addHandler c p b | Remove c \<Rightarrow> removeHandler c b | Read \<Rightarrow> snd (callbacks b))"

text \<open>The specification: the registered handlers with their priorities, in the order of registration.\<close>

definition note_registration :: "(callback \<times> int) list \<Rightarrow> registration \<Rightarrow> (callback \<times> int) list" where
  "note_registration l r = (case r of Add c p \<Rightarrow> filter (\<lambda>e. fst e \<noteq> c) l @ [(c, p)]
      | Remove c \<Rightarrow> filter (\<lambda>e. fst e \<noteq> c) l | Read \<Rightarrow> l)"

definition registered :: "registration list \<Rightarrow> (callback \<times> int) list" where
  "registered rs = foldl note_registration [] rs"

lemma insort_pair_sorted:
  fixes p :: "'a \<Rightarrow> 'p::linorder" and q :: "'a \<Rightarrow> 'q::linorder"
  assumes "sorted (map (\<lambda>y. (p y, q y)) ys)" and "\<forall>y \<in> set ys. q x \<le> q y"
  shows "sorted (map (\<lambda>y. (p y, q y)) (insort_key p x ys))"
  using assms
proof (induction ys)
  case Nil
  then show ?case by simp
next
  case (Cons y ys)
  then show ?case by (auto simp: less_eq_prod_def set_insort_key less_le_not_le)
qed

lemma sort_pair_sorted:
  fixes p :: "'a \<Rightarrow> 'p::linorder" and q :: "'a \<Rightarrow> 'q::linorder"
  shows "sorted (map q xs) \<Longrightarrow> sorted (map (\<lambda>y. (p y, q y)) (sort_key p xs))"
  by (induction xs) (auto intro: insort_pair_sorted)

lemma map_insort: "map g (insort_key (\<lambda>y. f (g y)) x xs) = insort_key f (g x) (map g xs)"
  by (induction xs) auto

lemma map_sort: "map g (sort_key (\<lambda>y. f (g y)) xs) = sort_key f (map g xs)"
  by (induction xs) (simp_all add: map_insort)

text \<open>The registrations of a binder \<open>l\<close>, with the order numbers \<open>L\<close> it gave them.\<close>

definition orders :: "multi_binder \<Rightarrow> (callback \<times> int \<times> nat) list \<Rightarrow> bool" where
  "orders b L \<longleftrightarrow> mset L = mset (mb_callbackMap b) \<and> jm_wf (mb_callbackMap b) \<and>
     sorted (map (\<lambda>e. snd (snd e)) L) \<and> distinct (map (\<lambda>e. snd (snd e)) L) \<and>
     list_all (\<lambda>e. snd (snd e) < mb_maxUsedPriority b) L"

definition forget :: "callback \<times> int \<times> nat \<Rightarrow> callback \<times> int" where
  "forget e = (fst e, fst (snd e))"

lemma sort_orders:
  assumes "orders b L"
  shows "map fst (sort_key snd (mb_callbackMap b)) = map fst (sort_key snd (map forget L))"
proof -
  let ?L = "sort_key (\<lambda>e. fst (snd e)) L"
  have "sorted (map (\<lambda>e. (fst (snd e), snd (snd e))) ?L)"
    using assms unfolding orders_def by (intro sort_pair_sorted) simp
  then have s: "sorted (map snd ?L)" by simp
  have "inj_on (\<lambda>e. snd (snd e)) (set L)" using assms by (simp add: orders_def distinct_map)
  then have "inj_on snd (set L)" by (auto simp: inj_on_def)
  moreover have "set L = set (mb_callbackMap b)"
    using assms unfolding orders_def by (metis set_mset_mset)
  ultimately have "sort_key snd (mb_callbackMap b) = ?L"
    using assms s by (intro sort_key_inj_key_eq) (simp_all add: orders_def)
  moreover have "sort_key snd (map forget L) = map forget ?L"
    using map_sort [of forget snd L] by (simp add: forget_def comp_def)
  ultimately show ?thesis by (simp add: forget_def comp_def)
qed

lemma img_snd: "(k, v) \<in> set m \<Longrightarrow> k \<in> fst ` set m"
  by force

lemma mset_jm_set:
  "jm_wf m \<Longrightarrow> mset (jm_set c v m) = add_mset (c, v) (mset (filter (\<lambda>e. fst e \<noteq> c) m))"
proof (induction m)
  case Nil
  then show ?case by simp
next
  case (Cons x m)
  have "filter (\<lambda>e. fst e \<noteq> c) m = m" if "fst x = c"
    using that Cons.prems unfolding jm_wf_def filter_id_conv by (cases x) (auto dest: img_snd)
  with Cons show ?case by (cases x) (auto simp: jm_wf_def)
qed

lemma jm_delete_filter: "jm_delete c m = filter (\<lambda>e. fst e \<noteq> c) m"
  by (induction m) auto

lemma sorted_filter_map: "sorted (map f xs) \<Longrightarrow> sorted (map f (filter P xs))"
  by (induction xs) auto

lemma orders_add:
  assumes "orders b L"
  shows "orders (addHandler c p b) (filter (\<lambda>e. fst e \<noteq> c) L @ [(c, p, mb_maxUsedPriority b)])"
proof -
  have "mset (filter (\<lambda>e. fst e \<noteq> c) L) = mset (filter (\<lambda>e. fst e \<noteq> c) (mb_callbackMap b))"
    using assms by (simp add: orders_def mset_filter [symmetric] del: mset_filter) (simp add: orders_def)
  then show ?thesis
    using assms
    by (auto simp: orders_def addHandler_def mset_jm_set sorted_append sorted_filter_map distinct_map_filter list_all_iff)
qed

lemma orders_remove: "orders b L \<Longrightarrow> orders (removeHandler c b) (filter (\<lambda>e. fst e \<noteq> c) L)"
  by (simp add: orders_def removeHandler_def jm_delete_filter sorted_filter_map distinct_map_filter list_all_iff jm_wf_def)

lemma forget_filter: "map forget (filter (\<lambda>e. fst e \<noteq> c) L) = filter (\<lambda>e. fst e \<noteq> c) (map forget L)"
  by (induction L) (auto simp: forget_def)

definition binder_ok :: "multi_binder \<Rightarrow> (callback \<times> int) list \<Rightarrow> bool" where
  "binder_ok b l \<longleftrightarrow> (\<exists>L. orders b L \<and> map forget L = l) \<and>
     (\<not> mb_isCallbackDirty b \<longrightarrow> mb_sortedCallbacks b = map fst (sort_key snd (mb_callbackMap b)))"

lemma binder_ok_callbacks:
  assumes "binder_ok b l"
  shows "fst (callbacks b) = map fst (sort_key snd l)" "binder_ok (snd (callbacks b)) l"
proof -
  show "fst (callbacks b) = map fst (sort_key snd l)"
    using assms by (auto simp: binder_ok_def callbacks_def Let_def sort_orders)
  show "binder_ok (snd (callbacks b)) l"
    using assms by (auto simp: binder_ok_def callbacks_def Let_def orders_def)
qed

lemma binder_ok_register:
  assumes "binder_ok b l"
  shows "binder_ok (register b r) (note_registration l r)"
proof (cases r)
  case (Add c p)
  obtain L where L: "orders b L" "map forget L = l" using assms by (auto simp: binder_ok_def)
  have "map forget (filter (\<lambda>e. fst e \<noteq> c) L @ [(c, p, mb_maxUsedPriority b)]) = filter (\<lambda>e. fst e \<noteq> c) l @ [(c, p)]"
    by (simp add: forget_filter L(2)) (simp add: forget_def)
  with orders_add [OF L(1), of c p]
  have "\<exists>L'. orders (addHandler c p b) L' \<and> map forget L' = note_registration l r"
    unfolding Add note_registration_def registration.case by blast
  moreover have "mb_isCallbackDirty (register b r)" by (simp add: Add register_def addHandler_def)
  moreover have "register b r = addHandler c p b" by (simp add: Add register_def)
  ultimately show ?thesis by (simp add: binder_ok_def)
next
  case (Remove c)
  obtain L where L: "orders b L" "map forget L = l" using assms by (auto simp: binder_ok_def)
  have "map forget (filter (\<lambda>e. fst e \<noteq> c) L) = filter (\<lambda>e. fst e \<noteq> c) l" by (simp add: forget_filter L(2))
  with orders_remove [OF L(1)] Remove show ?thesis by (auto simp: binder_ok_def register_def removeHandler_def note_registration_def)
next
  case Read
  with binder_ok_callbacks(2) [OF assms] show ?thesis by (simp add: register_def note_registration_def)
qed

text \<open>
  C40. After any sequence of registrations, removals and reads, the handlers run in the order of their
  priorities, those of equal priority in the order of their last registration, each registered handler
  once: caching the sorted list never shows.
\<close>

theorem callbacks_order:
  "fst (callbacks (foldl register (new_multi name) rs)) = map fst (sort_key snd (registered rs))"
proof -
  have "binder_ok (foldl register (new_multi name) rs) (registered rs)"
  proof (induction rs rule: rev_induct)
    case Nil
    show ?case by (simp add: binder_ok_def orders_def new_multi_def registered_def jm_wf_def)
  next
    case (snoc r rs)
    from binder_ok_register [OF snoc, of r] show ?case by (simp add: registered_def)
  qed
  then show ?thesis by (rule binder_ok_callbacks(1))
qed

section \<open>Which handlers run\<close>

text \<open>\<open>runs fns cs w rs w'\<close>: run one after the other from \<open>w\<close>, the handlers \<open>cs\<close> gave \<open>rs\<close> and left \<open>w'\<close>.\<close>

fun runs :: "('x, 'r) handlers \<Rightarrow> callback list \<Rightarrow> multi_binder \<times> 'x \<Rightarrow> (thrown + 'r) list \<Rightarrow> multi_binder \<times> 'x \<Rightarrow> bool" where
  "runs fns [] w [] w' \<longleftrightarrow> w' = w"
| "runs fns (c # cs) w (r # rs) w' \<longleftrightarrow> (case fns c w of None \<Rightarrow> False | Some (r', w1) \<Rightarrow> r' = r \<and> runs fns cs w1 rs w')"
| "runs fns _ w _ w' \<longleftrightarrow> False"

text \<open>The loops of the code are one loop: run until an outcome stops it.\<close>

fun until :: "((thrown + 'r) \<Rightarrow> bool) \<Rightarrow> ((thrown + 'r) \<Rightarrow> 'b) \<Rightarrow> 'b \<Rightarrow> ('x, 'r) handlers \<Rightarrow> callback list \<Rightarrow>
    (multi_binder \<times> 'x, thrown, 'b) act" where
  "until stop out dflt fns [] w = Some (Inr dflt, w)"
| "until stop out dflt fns (c # cs) w =
     (case fns c w of None \<Rightarrow> None
      | Some (r, w') \<Rightarrow> if stop r then Some (Inr (out r), w') else until stop out dflt fns cs w')"

definition all_stop :: "(thrown + 'u reply) \<Rightarrow> bool" where
  "all_stop r = (case r of Inl _ \<Rightarrow> True | Inr v \<Rightarrow> v = Bool False)"

definition any_stop :: "(thrown + 'u reply) \<Rightarrow> bool" where
  "any_stop r = (case r of Inl _ \<Rightarrow> False | Inr v \<Rightarrow> v = Bool True)"

definition first_stop :: "(thrown + 'u reply) \<Rightarrow> bool" where
  "first_stop r = (case r of Inl _ \<Rightarrow> False | Inr v \<Rightarrow> v \<noteq> Undefined \<and> v \<noteq> Bool False)"

lemma loops_until:
  "all_loop fns cs w = until all_stop (\<lambda>_. False) True fns cs w"
  "any_loop fns cs w = until any_stop (\<lambda>_. True) False fns cs w"
  "first_loop fns cs w = until first_stop projr (Bool False) fns cs w"
  by (induction cs arbitrary: w)
     (auto simp: all_stop_def any_stop_def first_stop_def split: option.split sum.split)

text \<open>The outcomes of a loop: those before the last let it go on, and the last one decides.\<close>

definition decided :: "((thrown + 'r) \<Rightarrow> bool) \<Rightarrow> ((thrown + 'r) \<Rightarrow> 'b) \<Rightarrow> 'b \<Rightarrow> callback list \<Rightarrow> (thrown + 'r) list \<Rightarrow> 'b \<Rightarrow> bool" where
  "decided stop out dflt cs rs b \<longleftrightarrow>
     (if list_ex stop rs then list_all (\<lambda>r. \<not> stop r) (butlast rs) \<and> b = out (last rs) else length rs = length cs \<and> b = dflt)"

lemma until_ran:
  assumes "until stop out dflt fns cs w = Some (r, w')"
  shows "\<exists>rs b. r = Inr b \<and> length rs \<le> length cs \<and> runs fns (take (length rs) cs) w rs w' \<and> decided stop out dflt cs rs b"
  using assms
proof (induction cs arbitrary: w)
  case Nil
  then show ?case by (auto simp: decided_def intro!: exI [of _ "[]"])
next
  case (Cons c cs)
  obtain o1 w1 where f: "fns c w = Some (o1, w1)" using Cons.prems by (cases "fns c w") auto
  show ?case
  proof (cases "stop o1")
    case True
    with Cons.prems f show ?thesis by (auto simp: decided_def intro!: exI [of _ "[o1]"])
  next
    case False
    with Cons.prems f have "until stop out dflt fns cs w1 = Some (r, w')" by simp
    from Cons.IH [OF this] obtain rs b where
      IH: "r = Inr b" "length rs \<le> length cs" "runs fns (take (length rs) cs) w1 rs w'" "decided stop out dflt cs rs b" by blast
    then have "decided stop out dflt (c # cs) (o1 # rs) b" using False by (auto simp: decided_def)
    with IH f show ?thesis by (intro exI [of _ "o1 # rs"] exI [of _ b]) simp
  qed
qed

lemma snapshot_eq: "bindE snapshot f (b, x) = f (fst (callbacks b)) (snd (callbacks b), x)"
  by (simp add: bindE_def snapshot_def split: prod.split)

text \<open>
  \<open>AllHandler\<close> runs the handlers of the moment it is invoked in their order, whatever they do to the
  registrations meanwhile, and never throws. It stops at the first handler that answers \<open>false\<close> or
  throws, and its answer is \<open>true\<close> exactly when no handler did. \<open>AnySuccessHandler\<close> stops at the first
  \<open>true\<close> and \<open>FirstResultHandler\<close> at the first answer other than \<open>undefined\<close> and \<open>false\<close>, which it
  returns; errors do not stop these two.
\<close>

theorem handlers_run_until_decided:
  assumes "all_invoke fns (b, x) = Some (r1, w1)" and "anySuccess_invoke fns (b, x) = Some (r2, w2)"
    and "firstResult_invoke fns (b, x) = Some (r3, w3)" and "callbacks b = (cs, b')"
  shows "(\<exists>rs v. r1 = Inr v \<and> runs fns (take (length rs) cs) (b', x) rs w1 \<and> decided all_stop (\<lambda>_. False) True cs rs v) \<and>
    (\<exists>rs v. r2 = Inr v \<and> runs fns (take (length rs) cs) (b', x) rs w2 \<and> decided any_stop (\<lambda>_. True) False cs rs v) \<and>
    (\<exists>rs v. r3 = Inr v \<and> runs fns (take (length rs) cs) (b', x) rs w3 \<and> decided first_stop projr (Bool False) cs rs v)"
proof -
  have 1: "until all_stop (\<lambda>_. False) True fns cs (b', x) = Some (r1, w1)"
    using assms by (simp add: all_invoke_def snapshot_eq loops_until)
  have 2: "until any_stop (\<lambda>_. True) False fns cs (b', x) = Some (r2, w2)"
    using assms by (simp add: anySuccess_invoke_def snapshot_eq loops_until)
  have 3: "until first_stop projr (Bool False) fns cs (b', x) = Some (r3, w3)"
    using assms by (simp add: firstResult_invoke_def snapshot_eq loops_until)
  from until_ran [OF 1] until_ran [OF 2] until_ran [OF 3] show ?thesis by blast
qed

lemma dispatch_ran:
  "dispatch_loop fns cs acc w = Some (r, w') \<Longrightarrow>
    \<exists>rs. r = Inr (acc @ map (\<lambda>r. case r of Inl e \<Rightarrow> Inl (as_error e) | Inr v \<Rightarrow> Inr v) rs) \<and> runs fns cs w rs w'"
proof (induction cs arbitrary: acc w)
  case Nil
  then show ?case by (auto intro!: exI [of _ "[]"])
next
  case (Cons c cs)
  obtain o1 w1 where f: "fns c w = Some (o1, w1)" using Cons.prems by (cases "fns c w") auto
  obtain acc1 where a: "acc1 = acc @ [case o1 of Inl e \<Rightarrow> Inl (as_error e) | Inr v \<Rightarrow> Inr v]" by blast
  have "dispatch_loop fns cs acc1 w1 = Some (r, w')"
    using Cons.prems f by (cases o1) (simp_all add: a)
  from Cons.IH [OF this] obtain rs where
    "r = Inr (acc1 @ map (\<lambda>r. case r of Inl e \<Rightarrow> Inl (as_error e) | Inr v \<Rightarrow> Inr v) rs)" "runs fns cs w1 rs w'" by blast
  with f a show ?case by (intro exI [of _ "o1 # rs"]) simp
qed

lemma settled_all_spec:
  "settled_all outcome cs = (if list_all (\<lambda>c. outcome c \<noteq> None) cs then Some (map (\<lambda>c. the (outcome c)) cs) else None)"
  by (induction cs) (auto split: option.split)

text \<open>
  The parallel conjunction is stricter than the sequential one: it is \<open>true\<close> exactly when every
  handler has settled with \<open>true\<close> itself, and it settles at all exactly when every handler does; a handler
  without an answer fails it, while \<open>AllHandler\<close> lets the same handler pass.
\<close>

theorem parallelAll_strict:
  "(fst (parallelAll_invoke outcome b) = Some True \<longleftrightarrow>
      list_all (\<lambda>c. outcome c = Some (Inr (Bool True))) (fst (callbacks b))) \<and>
   (fst (parallelAll_invoke outcome b) = None \<longleftrightarrow> list_ex (\<lambda>c. outcome c = None) (fst (callbacks b))) \<and>
   all_loop (\<lambda>c w. Some (Inr Undefined, w)) cs w = Some (Inr True, w)"
proof (intro conjI)
  show "all_loop (\<lambda>c w. Some (Inr Undefined, w)) cs w = Some (Inr True, w)" by (induction cs) simp_all
  have one: "(case the (outcome c) of Inl e \<Rightarrow> Bool False | Inr v \<Rightarrow> v) = Bool True \<longleftrightarrow> outcome c = Some (Inr (Bool True))"
    if "outcome c \<noteq> None" for c
    using that by (auto split: sum.split)
  show "fst (parallelAll_invoke outcome b) = Some True \<longleftrightarrow>
      list_all (\<lambda>c. outcome c = Some (Inr (Bool True))) (fst (callbacks b))"
    using one by (force simp: parallelAll_invoke_def settled_all_spec list_all_iff split: prod.split)
  show "fst (parallelAll_invoke outcome b) = None \<longleftrightarrow> list_ex (\<lambda>c. outcome c = None) (fst (callbacks b))"
    by (auto simp: parallelAll_invoke_def settled_all_spec list_all_iff list_ex_iff split: prod.split)
qed

section \<open>Late binding\<close>

lemma lazy_promise_mono: "lazy_step\<^sup>*\<^sup>* b b' \<Longrightarrow> lb_promise b \<le> lb_promise b'"
  by (induction rule: rtranclp_induct)
     (auto elim!: lazy_step.cases simp: lazy_assign_def lazy_unassign_def split: if_splits)

lemma stranded_stays:
  "lazy_step\<^sup>*\<^sup>* b b' \<Longrightarrow> p < lb_promise b \<Longrightarrow> \<not> lazy_ready p b \<Longrightarrow> \<not> lazy_ready p b'"
proof (induction rule: rtranclp_induct)
  case base
  then show ?case by simp
next
  case (step y z)
  have "p < lb_promise y" using lazy_promise_mono [OF step.hyps(1)] step.prems(1) by simp
  then show ?case
    using step.IH step.prems step.hyps(2)
    by (auto elim!: lazy_step.cases simp: lazy_assign_def lazy_unassign_def lazy_ready_def split: if_splits)
qed

text \<open>
  A lazy invocation goes on with the handler as soon as one is assigned, and at once when there is
  one. But an unassignment while no handler is assigned (the function returned by \<open>assign\<close>, called twice)
  replaces the promise that is being waited for: an invocation waiting at that time never goes on,
  whatever is assigned later.
\<close>

theorem lazy_invocation:
  assumes "lazy_step\<^sup>*\<^sup>* (new_lazy name initial) b"
  shows "(lb_callback b = Some f \<longrightarrow> lazy_ready (lazy_await b) b \<and> lazy_resume b = Inr f) \<and>
    (lazy_assign f override b = Inr b1 \<longrightarrow> lazy_ready (lazy_await b) b1 \<and> lazy_resume b1 = Inr f) \<and>
    (lb_callback b = None \<and> lazy_step\<^sup>*\<^sup>* (lazy_unassign b) b2 \<longrightarrow> \<not> lazy_ready (lazy_await b) b2)"
proof -
  have ok: "lazy_ok b" using lazy_inv.reachable_inv [OF _ assms] by blast
  have "\<not> lazy_ready (lazy_await b) (lazy_unassign b)" if "lb_callback b = None"
    using ok that by (auto simp: lazy_ok_def lazy_await_def lazy_ready_def lazy_unassign_def)
  with stranded_stays [of "lazy_unassign b" b2 "lazy_await b"] ok show ?thesis
    by (auto simp: lazy_ok_def lazy_await_def lazy_resume_def lazy_assign_def lazy_unassign_def lazy_ready_def split: if_splits)
qed

theorem lazy_invocation_witness:
  "lazy_ready 0 (\<lparr>lb_name = ''x'', lb_callback = Some 5, lb_promise = 0, lb_resolved = [0]\<rparr>) \<and>
   \<not> lazy_ready 0 (\<lparr>lb_name = ''x'', lb_callback = Some 5, lb_promise = 1, lb_resolved = [1]\<rparr>)"
proof -
  let ?b = "new_lazy ''x'' None"
  let ?b2 = "\<lparr>lb_name = ''x'', lb_callback = Some 5, lb_promise = 1, lb_resolved = [1]\<rparr>"
  have "lazy_step (lazy_unassign ?b) ?b2"
    by (rule lazy_step.assign [of 5 False]) (simp add: lazy_assign_def lazy_unassign_def new_lazy_def)
  then have "lazy_step\<^sup>*\<^sup>* (lazy_unassign ?b) ?b2" by blast
  then show ?thesis
    using lazy_invocation [OF rtranclp.rtrancl_refl, of "''x''" None 5 False "\<lparr>lb_name = ''x'', lb_callback = Some 5, lb_promise = 0, lb_resolved = [0]\<rparr>" ?b2]
    by (simp add: new_lazy_def lazy_await_def lazy_assign_def)
qed

text \<open>The function returned by the first \<open>assign\<close> also removes a handler that has overridden the first.\<close>

lemma unassign_after_override:
  assumes "binder_assign f False b = Inr b1" and "binder_assign g True b1 = Inr b2"
  shows "bn_callback b2 = Some g" and "fst (binder_invoke fns args (binder_unassign b2) w) = Inl (NotAssigned (bn_name b))"
  using assms by (auto simp: binder_assign_def binder_unassign_def binder_invoke_def split: if_splits)

section \<open>A run\<close>

definition sample_binder :: multi_binder where
  "sample_binder = addHandler 3 0 (addHandler 2 (-1) (addHandler 1 0 (new_multi ''sample'')))"

text \<open>Handler 2 answers \<open>true\<close>, handler 1 throws, handler 3 answers \<open>false\<close>; each leaves its number.\<close>

definition sample_handlers :: "(nat list, nat reply) handlers" where
  "sample_handlers c = (\<lambda>(b, l). Some (if c = 1 then Inl (OtherValue ''oops'') else Inr (Bool (c = 2)), (b, l @ [c])))"

theorem handlers_run_until_decided_witness:
  "\<exists>w1 w2 w3 b'. all_invoke sample_handlers (sample_binder, []) = Some (Inr False, w1) \<and> snd w1 = [2, 1] \<and>
    anySuccess_invoke sample_handlers (sample_binder, []) = Some (Inr True, w2) \<and> snd w2 = [2] \<and>
    firstResult_invoke sample_handlers (sample_binder, []) = Some (Inr (Bool True), w3) \<and>
    (\<exists>rs v. (Inr False :: thrown + bool) = Inr v \<and> runs sample_handlers (take (length rs) [2, 1, 3]) (b', []) rs w1 \<and>
       decided all_stop (\<lambda>_. False) True [2, 1, 3] rs v)"
proof -
  have c: "fst (callbacks sample_binder) = [2, 1, 3]"
    by (simp add: sample_binder_def addHandler_def new_multi_def callbacks_def)
  obtain b' where b': "callbacks sample_binder = ([2, 1, 3], b')" using c by (cases "callbacks sample_binder") simp
  have a: "all_invoke sample_handlers (sample_binder, []) = Some (Inr False, (b', [2, 1]))"
    "anySuccess_invoke sample_handlers (sample_binder, []) = Some (Inr True, (b', [2]))"
    "firstResult_invoke sample_handlers (sample_binder, []) = Some (Inr (Bool True), (b', [2]))"
    by (simp_all add: all_invoke_def anySuccess_invoke_def firstResult_invoke_def snapshot_eq b' sample_handlers_def)
  have "(\<exists>rs v. (Inr False :: thrown + bool) = Inr v \<and> runs sample_handlers (take (length rs) [2, 1, 3]) (b', []) rs (b', [2, 1]) \<and>
       decided all_stop (\<lambda>_. False) True [2, 1, 3] rs v)"
    using handlers_run_until_decided [OF a b'] by (rule conjunct1)
  with a show ?thesis by (intro exI [of _ "(b', [2, 1])"] exI [of _ "(b', [2])"] exI [of _ b']) simp
qed

end
