(* ===== verification/SensibleMerge.thy ===== *)
theory SensibleMerge
  imports Prelude "HOL-Library.Multiset" "HOL-Library.Sublist"
begin

text \<open>
  The line merge of \<open>src/managers/ConflictManager.ts\<close> (\<open>mergeSensibly\<close>): cutting the two diffs against
  the common base into lines and running through them side by side. The diff library is a parameter;
  its law is that the kept and deleted parts of a diff are the old text and the kept and inserted parts
  the new one.
\<close>

section \<open>Diffs\<close>

datatype diff_op = DIFF_DELETE | DIFF_EQUAL | DIFF_INSERT

type_synonym diff = "diff_op \<times> string"

text \<open>\<open>split(/([^\n]*\n)/)\<close> without the empty pieces: the lines with their line ends, and the rest.\<close>

fun line_pieces :: "string \<Rightarrow> string \<Rightarrow> string list" where
  "line_pieces acc [] = (if acc = [] then [] else [acc])"
| "line_pieces acc (c # cs) =
     (if c = CHR 0x0A then (acc @ [c]) # line_pieces [] cs else line_pieces (acc @ [c]) cs)"

text \<open>A deletion followed by an insertion: their lines are taken in turn.\<close>

fun pair_up :: "string list \<Rightarrow> string list \<Rightarrow> diff list" where
  "pair_up [] ins = map (\<lambda>e. (DIFF_INSERT, e)) ins"
| "pair_up (pt # ps) ins =
     (DIFF_DELETE, pt) # (case ins of [] \<Rightarrow> pair_up ps [] | pairP # ins' \<Rightarrow> (DIFF_INSERT, pairP) # pair_up ps ins')"

fun splitDiffPiece :: "diff list \<Rightarrow> diff list" where
  "splitDiffPiece [] = []"
| "splitDiffPiece [(d, t)] =
     (if d \<noteq> DIFF_DELETE then map (\<lambda>e. (d, e)) (line_pieces [] t)
      else map (\<lambda>e. (DIFF_EQUAL, e)) (line_pieces [] t))"
| "splitDiffPiece ((d, t) # (nd, u) # src) =
     (if d \<noteq> DIFF_DELETE then map (\<lambda>e. (d, e)) (line_pieces [] t) @ splitDiffPiece ((nd, u) # src)
      else if nd = DIFF_INSERT then pair_up (line_pieces [] t) (line_pieces [] u) @ splitDiffPiece src
      else map (\<lambda>e. (d, e)) (line_pieces [] t) @ map (\<lambda>e. (nd, e)) (line_pieces [] u) @ splitDiffPiece src)"

section \<open>The merge\<close>

text \<open>\<open>diff[idx] ?? [0, ""]\<close>; the indices of the code are the suffixes still to be read.\<close>

definition item_at :: "diff list \<Rightarrow> diff" where
  "item_at ds = (case ds of [] \<Rightarrow> (DIFF_EQUAL, []) | d # _ \<Rightarrow> d)"

text \<open>\<open>None\<close>: \<open>autoMerge\<close> became false.\<close>

function merge_loop :: "bool \<Rightarrow> bool \<Rightarrow> diff list \<Rightarrow> diff list \<Rightarrow> diff list \<Rightarrow> diff list option" where
  "merge_loop preserveConcurrentInserts leftFirst ls rs merged =
     (if ls = [] \<and> rs = [] then Some merged
      else
        let leftItem = item_at ls; rightItem = item_at rs; ls' = tl ls; rs' = tl rs in
        if fst leftItem = DIFF_EQUAL \<and> fst rightItem = DIFF_EQUAL \<and> snd leftItem = snd rightItem then
          merge_loop preserveConcurrentInserts leftFirst ls' rs' (merged @ [leftItem])
        else if fst leftItem = DIFF_DELETE \<and> fst rightItem = DIFF_DELETE \<and> snd leftItem = snd rightItem then
          (let nextLeftItem = item_at ls'; nextRightItem = item_at rs';
               nextLeftIsInsert = (fst nextLeftItem = DIFF_INSERT); nextRightIsInsert = (fst nextRightItem = DIFF_INSERT)
           in if nextLeftIsInsert \<noteq> nextRightIsInsert then None
              else if nextLeftIsInsert \<and> nextRightIsInsert \<and> snd nextLeftItem \<noteq> snd nextRightItem then None
              else merge_loop preserveConcurrentInserts leftFirst ls' rs' (merged @ [leftItem]))
        else if fst leftItem = DIFF_INSERT \<and> fst rightItem = DIFF_INSERT then
          (if snd leftItem = snd rightItem then
             merge_loop preserveConcurrentInserts leftFirst ls' rs' (merged @ [leftItem])
           else if preserveConcurrentInserts then None
           else merge_loop preserveConcurrentInserts leftFirst ls' rs'
                  (merged @ (if leftFirst then [leftItem, rightItem] else [rightItem, leftItem])))
        else if fst leftItem = DIFF_INSERT then
          merge_loop preserveConcurrentInserts leftFirst ls' rs (merged @ [leftItem])
        else if fst rightItem = DIFF_INSERT then
          merge_loop preserveConcurrentInserts leftFirst ls rs' (merged @ [rightItem])
        else if snd rightItem \<noteq> snd leftItem then None
        else if fst leftItem = DIFF_DELETE then
          (if fst rightItem = DIFF_EQUAL then
             merge_loop preserveConcurrentInserts leftFirst ls' rs' (merged @ [leftItem])
           else None)
        else if fst rightItem = DIFF_DELETE then
          (if fst leftItem = DIFF_EQUAL then
             merge_loop preserveConcurrentInserts leftFirst ls' rs' (merged @ [rightItem])
           else None)
        else Some merged)"
  by pat_completeness auto
termination
proof (relation "measure (\<lambda>(_, _, ls, rs, _). length ls + length rs)", goal_cases)
  case 1
  then show ?case by simp
qed (auto simp: item_at_def split: list.splits)

declare merge_loop.simps [simp del]

text \<open>A loaded leaf; \<open>None\<close> for an undefined \<open>deleted\<close> and for a modification time that is not a finite number.\<close>

record result_leaf =
  rl_rev :: string
  rl_data :: string
  rl_deleted :: "bool option"
  rl_ctime :: "int option"
  rl_mtime :: "int option"

definition is_deleted :: "result_leaf \<Rightarrow> bool" where
  "is_deleted l \<longleftrightarrow> rl_deleted l = Some True"

text \<open>\<open>left.mtime <= right.mtime\<close>, false when either is not a number.\<close>

definition mtime_le :: "int option \<Rightarrow> int option \<Rightarrow> bool" where
  "mtime_le a b = (case (a, b) of (Some x, Some y) \<Rightarrow> x \<le> y | _ \<Rightarrow> False)"

definition mergeSensibly :: "(string \<Rightarrow> string \<Rightarrow> diff list) \<Rightarrow> (string \<Rightarrow> result_leaf option) \<Rightarrow>
    string \<Rightarrow> string \<Rightarrow> string \<Rightarrow> bool \<Rightarrow> diff list option" where
  "mergeSensibly diff_lines getLeaf baseRev currentRev conflictedRev preserveConcurrentInserts =
     (case (getLeaf baseRev, getLeaf currentRev, getLeaf conflictedRev) of
        (Some baseLeaf, Some leftLeaf, Some rightLeaf) \<Rightarrow>
          if is_deleted leftLeaf \<or> is_deleted rightLeaf then None
          else merge_loop preserveConcurrentInserts (mtime_le (rl_mtime leftLeaf) (rl_mtime rightLeaf))
                 (splitDiffPiece (diff_lines (rl_data baseLeaf) (rl_data leftLeaf)))
                 (splitDiffPiece (diff_lines (rl_data baseLeaf) (rl_data rightLeaf))) []
      | _ \<Rightarrow> None)"

text \<open>The text of a merge, as the caller forms it.\<close>

definition merged_text :: "diff list \<Rightarrow> string" where
  "merged_text ds = concat (map snd (filter (\<lambda>e. fst e \<noteq> DIFF_DELETE) ds))"

section \<open>The specification of a three-way merge\<close>

text \<open>
  \<open>merges L R M\<close>: \<open>M\<close> is a merge of two diffs of one base. Every base line is met by both sides at once,
  and is deleted when either side deletes it; insertions of either side are kept at their place.
\<close>

inductive merges :: "diff list \<Rightarrow> diff list \<Rightarrow> diff list \<Rightarrow> bool" where
  empty: "merges [] [] []"
| same: "merges L R M \<Longrightarrow> merges (x # L) (x # R) (x # M)"
| deleted_left: "merges L R M \<Longrightarrow> merges ((DIFF_DELETE, t) # L) ((DIFF_EQUAL, t) # R) ((DIFF_DELETE, t) # M)"
| deleted_right: "merges L R M \<Longrightarrow> merges ((DIFF_EQUAL, t) # L) ((DIFF_DELETE, t) # R) ((DIFF_DELETE, t) # M)"
| inserted_left: "merges L R M \<Longrightarrow> merges ((DIFF_INSERT, t) # L) R ((DIFF_INSERT, t) # M)"
| inserted_right: "merges L R M \<Longrightarrow> merges L ((DIFF_INSERT, t) # R) ((DIFF_INSERT, t) # M)"

inductive_simps merges_Nil: "merges [] [] M"

text \<open>The lines of the base, with whether they are deleted.\<close>

definition base_lines :: "diff list \<Rightarrow> (string \<times> bool) list" where
  "base_lines ds = map (\<lambda>d. (snd d, fst d = DIFF_DELETE)) (filter (\<lambda>d. fst d \<noteq> DIFF_INSERT) ds)"

text \<open>The lines inserted before each line of the base, and after the last.\<close>

fun gaps :: "diff list \<Rightarrow> string list list" where
  "gaps [] = [[]]"
| "gaps (d # ds) = (if fst d = DIFF_INSERT then (snd d # hd (gaps ds)) # tl (gaps ds) else [] # gaps ds)"

lemma gaps_not_Nil [simp]: "gaps ds \<noteq> []"
  by (induction ds) auto

lemma gaps_cases: "\<exists>g gs. gaps ds = g # gs"
  by (cases "gaps ds") auto

section \<open>The loop computes a merge\<close>

definition pieces_wf :: "diff list \<Rightarrow> bool" where
  "pieces_wf ds \<longleftrightarrow> list_all (\<lambda>d. snd d \<noteq> []) ds"

lemma item_at_simps [simp]: "item_at [] = (DIFF_EQUAL, [])" "item_at (d # ds) = d"
  by (simp_all add: item_at_def)

lemma merges_both: "merges L R M \<Longrightarrow> merges ((DIFF_INSERT, t) # L) ((DIFF_INSERT, u) # R) ((DIFF_INSERT, t) # (DIFF_INSERT, u) # M)"
  "merges L R M \<Longrightarrow> merges ((DIFF_INSERT, t) # L) ((DIFF_INSERT, u) # R) ((DIFF_INSERT, u) # (DIFF_INSERT, t) # M)"
  by (auto intro: merges.intros)

text \<open>One iteration of the loop: which rule of the specification it takes.\<close>

lemma merge_loop_cases:
  assumes "merge_loop p lf ls rs acc = Some m" and "pieces_wf ls" and "pieces_wf rs"
  shows "(ls = [] \<and> rs = [] \<and> m = acc) \<or>
    (\<exists>x L R. ls = x # L \<and> rs = x # R \<and> merge_loop p lf L R (acc @ [x]) = Some m) \<or>
    (\<exists>t L R. ls = (DIFF_DELETE, t) # L \<and> rs = (DIFF_EQUAL, t) # R \<and> merge_loop p lf L R (acc @ [(DIFF_DELETE, t)]) = Some m) \<or>
    (\<exists>t L R. ls = (DIFF_EQUAL, t) # L \<and> rs = (DIFF_DELETE, t) # R \<and> merge_loop p lf L R (acc @ [(DIFF_DELETE, t)]) = Some m) \<or>
    (\<exists>t L. ls = (DIFF_INSERT, t) # L \<and> merge_loop p lf L rs (acc @ [(DIFF_INSERT, t)]) = Some m) \<or>
    (\<exists>t R. rs = (DIFF_INSERT, t) # R \<and> merge_loop p lf ls R (acc @ [(DIFF_INSERT, t)]) = Some m) \<or>
    (\<exists>t u L R. ls = (DIFF_INSERT, t) # L \<and> rs = (DIFF_INSERT, u) # R \<and>
       merge_loop p lf L R (acc @ (if lf then [(DIFF_INSERT, t), (DIFF_INSERT, u)] else [(DIFF_INSERT, u), (DIFF_INSERT, t)])) = Some m)"
proof (cases ls)
  case Nil
  show ?thesis
  proof (cases rs)
    case Nil
    with \<open>ls = []\<close> assms(1) show ?thesis by (simp add: merge_loop.simps [of p lf "[]" "[]"])
  next
    case (Cons r R)
    obtain ro rt where r: "r = (ro, rt)" by (cases r)
    have "rt \<noteq> []" using assms(3) Cons r by (simp add: pieces_wf_def)
    with \<open>ls = []\<close> Cons r assms(1) show ?thesis
      by (subst (asm) merge_loop.simps) (simp add: Let_def split: if_splits)
  qed
next
  case (Cons l L)
  obtain lo lt where l: "l = (lo, lt)" by (cases l)
  have lt: "lt \<noteq> []" using assms(2) Cons l by (simp add: pieces_wf_def)
  show ?thesis
  proof (cases rs)
    case Nil
    with Cons l lt assms(1) show ?thesis
      by (subst (asm) merge_loop.simps) (simp add: Let_def split: if_splits)
  next
    case (Cons r R)
    obtain ro rt where r: "r = (ro, rt)" by (cases r)
    show ?thesis
      using assms(1) \<open>ls = l # L\<close> Cons l r
      by (subst (asm) merge_loop.simps, cases lo; cases ro; cases lf) (simp_all add: Let_def split: if_splits)
  qed
qed

lemma pieces_wf_Cons [simp]: "pieces_wf (d # ds) \<longleftrightarrow> snd d \<noteq> [] \<and> pieces_wf ds"
  by (simp add: pieces_wf_def)

lemma merge_loop_merges:
  assumes "merge_loop p lf ls rs acc = Some m" and "pieces_wf ls" and "pieces_wf rs"
  shows "\<exists>M. m = acc @ M \<and> merges ls rs M"
  using assms
proof (induction "length ls + length rs" arbitrary: ls rs acc rule: less_induct)
  case less
  have step: "\<exists>M. m = acc @ M \<and> merges ls rs M"
    if "merge_loop p lf L R (acc @ X) = Some m" "length L + length R < length ls + length rs" "pieces_wf L" "pieces_wf R"
      "\<And>M. merges L R M \<Longrightarrow> merges ls rs (X @ M)" for L R X
  proof -
    from less.hyps [OF that(2,1,3,4)] obtain M where "m = (acc @ X) @ M" "merges L R M" by blast
    with that(5) show ?thesis by auto
  qed
  from merge_loop_cases [OF less.prems] show ?case
  proof (elim disjE exE conjE, goal_cases)
    case 1
    then show ?case by (simp add: merges.empty)
  next
    case (2 x L R)
    show ?case by (rule step [OF 2(3)]) (use 2 less.prems in \<open>auto intro: merges.same\<close>)
  next
    case (3 t L R)
    show ?case by (rule step [OF 3(3)]) (use 3 less.prems in \<open>auto intro: merges.deleted_left\<close>)
  next
    case (4 t L R)
    show ?case by (rule step [OF 4(3)]) (use 4 less.prems in \<open>auto intro: merges.deleted_right\<close>)
  next
    case (5 t L)
    show ?case by (rule step [OF 5(2)]) (use 5 less.prems in \<open>auto intro: merges.inserted_left\<close>)
  next
    case (6 t R)
    show ?case by (rule step [OF 6(2)]) (use 6 less.prems in \<open>auto intro: merges.inserted_right\<close>)
  next
    case (7 t u L R)
    show ?case by (rule step [OF 7(3)]) (use 7 less.prems in \<open>auto intro: merges_both\<close>)
  qed
qed

section \<open>What a merge keeps\<close>

definition either :: "string \<times> bool \<Rightarrow> string \<times> bool \<Rightarrow> string \<times> bool" where
  "either x y = (fst x, snd x \<or> snd y)"

lemma base_lines_simps [simp]:
  "base_lines [] = []"
  "base_lines ((DIFF_INSERT, t) # ds) = base_lines ds"
  "base_lines ((DIFF_DELETE, t) # ds) = (t, True) # base_lines ds"
  "base_lines ((DIFF_EQUAL, t) # ds) = (t, False) # base_lines ds"
  by (simp_all add: base_lines_def)

lemma base_lines_Cons: "base_lines (d # ds) = (if fst d = DIFF_INSERT then base_lines ds else (snd d, fst d = DIFF_DELETE) # base_lines ds)"
  by (simp add: base_lines_def)

lemma merges_base:
  "merges L R M \<Longrightarrow> map fst (base_lines L) = map fst (base_lines R) \<and>
    base_lines M = map2 either (base_lines L) (base_lines R)"
  by (induction rule: merges.induct) (auto simp: either_def base_lines_Cons)

text \<open>Gap by gap, the insertions of a side are a subsequence of the merge's, and the merge has no others.\<close>

definition gaps_merged :: "string list list \<Rightarrow> string list list \<Rightarrow> string list list \<Rightarrow> bool" where
  "gaps_merged gl gr gm \<longleftrightarrow> list_all2 subseq gl gm \<and> list_all2 subseq gr gm \<and>
     list_all (\<lambda>(g, l, r). mset g \<subseteq># mset l + mset r) (zip gm (zip gl gr))"

lemma gaps_merged_Nil: "gaps_merged gl gr gm \<Longrightarrow> gaps_merged ([] # gl) ([] # gr) ([] # gm)"
  by (simp add: gaps_merged_def)

lemma gaps_merged_hd:
  assumes "gaps_merged (l # gl) (r # gr) (g # gm)"
  shows "gaps_merged ((t # l) # gl) (r # gr) ((t # g) # gm)" "gaps_merged (l # gl) ((t # r) # gr) ((t # g) # gm)"
    "gaps_merged ((t # l) # gl) ((t # r) # gr) ((t # g) # gm)"
proof -
  have g: "mset g \<subseteq># mset l + mset r" and sub: "subseq l g" "subseq r g"
    and rest: "list_all2 subseq gl gm" "list_all2 subseq gr gm" "list_all (\<lambda>(g, l, r). mset g \<subseteq># mset l + mset r) (zip gm (zip gl gr))"
    using assms by (simp_all add: gaps_merged_def)
  have one: "add_mset t (mset g) \<subseteq># add_mset t (mset l + mset r)" using g by simp
  have "add_mset t (mset l + mset r) \<subseteq># add_mset t (mset l + mset r) + {#t#}" by (rule mset_subset_eq_add_left)
  with one have two: "add_mset t (mset g) \<subseteq># add_mset t (mset l + mset r) + {#t#}" by (rule subset_mset.order_trans)
  have skip: "subseq l (t # g)" "subseq r (t # g)" using sub by (auto intro: list_emb_Cons)
  show "gaps_merged ((t # l) # gl) (r # gr) ((t # g) # gm)"
    unfolding gaps_merged_def using one sub skip rest by simp
  show "gaps_merged (l # gl) ((t # r) # gr) ((t # g) # gm)"
    unfolding gaps_merged_def using one sub skip rest by simp
  show "gaps_merged ((t # l) # gl) ((t # r) # gr) ((t # g) # gm)"
    unfolding gaps_merged_def using two sub rest by simp
qed

lemma merges_gaps: "merges L R M \<Longrightarrow> gaps_merged (gaps L) (gaps R) (gaps M)"
proof (induction rule: merges.induct)
  case empty
  then show ?case by (simp add: gaps_merged_def)
next
  case (same L R M x)
  then show ?case
    using gaps_cases [of L] gaps_cases [of R] gaps_cases [of M] gaps_merged_hd(3) by (auto intro: gaps_merged_Nil)
next
  case (deleted_left L R M t)
  then show ?case by (simp add: gaps_merged_Nil)
next
  case (deleted_right L R M t)
  then show ?case by (simp add: gaps_merged_Nil)
next
  case (inserted_left L R M t)
  then show ?case
    using gaps_cases [of L] gaps_cases [of R] gaps_cases [of M] gaps_merged_hd(1) by auto
next
  case (inserted_right L R M t)
  then show ?case
    using gaps_cases [of L] gaps_cases [of R] gaps_cases [of M] gaps_merged_hd(2) by auto
qed

lemma merges_unchanged: "merges L R M \<Longrightarrow> list_all (\<lambda>d. fst d = DIFF_EQUAL) R \<Longrightarrow> M = L"
  by (induction rule: merges.induct) auto

section \<open>Cutting a diff into lines\<close>

lemma line_pieces_concat: "concat (line_pieces acc s) = acc @ s"
  by (induction acc s rule: line_pieces.induct) auto

lemma line_pieces_ne: "p \<in> set (line_pieces acc s) \<Longrightarrow> p \<noteq> []"
  by (induction acc s rule: line_pieces.induct) (auto split: if_splits)

definition old_text :: "diff list \<Rightarrow> string" where
  "old_text ds = concat (map snd (filter (\<lambda>e. fst e \<noteq> DIFF_INSERT) ds))"

lemma text_simps [simp]:
  "old_text [] = []" "merged_text [] = []"
  "old_text ((o1, t) # ds) = (if o1 = DIFF_INSERT then [] else t) @ old_text ds"
  "merged_text ((o1, t) # ds) = (if o1 = DIFF_DELETE then [] else t) @ merged_text ds"
  "old_text (as @ bs) = old_text as @ old_text bs" "merged_text (as @ bs) = merged_text as @ merged_text bs"
  by (auto simp: old_text_def merged_text_def)

lemma text_map [simp]:
  "old_text (map (\<lambda>e. (o1, e)) xs) = (if o1 = DIFF_INSERT then [] else concat xs)"
  "merged_text (map (\<lambda>e. (o1, e)) xs) = (if o1 = DIFF_DELETE then [] else concat xs)"
  by (induction xs) auto

lemma text_pair_up: "old_text (pair_up ps ins) = concat ps" "merged_text (pair_up ps ins) = concat ins"
proof (induction ps ins rule: pair_up.induct)
  case (2 pt ps ins)
  { case 1 show ?case using 2 by (cases ins) auto next case 2 show ?case using "2" "2.IH" by (cases ins) auto }
qed auto

lemma pieces_wf_append [simp]: "pieces_wf (as @ bs) \<longleftrightarrow> pieces_wf as \<and> pieces_wf bs"
  by (simp add: pieces_wf_def)

lemma pieces_wf_map [simp]: "pieces_wf (map (\<lambda>e. (o1, e)) (line_pieces acc s))"
  by (auto simp: pieces_wf_def list_all_iff dest: line_pieces_ne)

lemma pieces_wf_pair: "list_all (\<lambda>p. p \<noteq> []) ps \<Longrightarrow> list_all (\<lambda>p. p \<noteq> []) ins \<Longrightarrow> pieces_wf (pair_up ps ins)"
proof (induction ps ins rule: pair_up.induct)
  case (1 ins)
  then show ?case by (simp add: pieces_wf_def list_all_iff)
next
  case (2 pt ps ins)
  then show ?case by (cases ins) auto
qed

lemma pieces_wf_split [simp]: "pieces_wf (splitDiffPiece src)"
proof (induction src rule: splitDiffPiece.induct)
  case 1
  then show ?case by (simp add: pieces_wf_def)
next
  case (3 d t nd u src)
  have "list_all (\<lambda>p. p \<noteq> []) (line_pieces [] s)" for s by (auto simp: list_all_iff dest: line_pieces_ne)
  then have "pieces_wf (pair_up (line_pieces [] t) (line_pieces [] u))" by (intro pieces_wf_pair)
  with 3 show ?case by simp
qed simp

lemma split_old: "old_text (splitDiffPiece src) = old_text src"
  by (induction src rule: splitDiffPiece.induct) (auto simp: line_pieces_concat text_pair_up)

lemma split_new:
  "src = [] \<or> fst (List.last src) \<noteq> DIFF_DELETE \<Longrightarrow> merged_text (splitDiffPiece src) = merged_text src"
  by (induction src rule: splitDiffPiece.induct) (auto simp: line_pieces_concat text_pair_up split: if_splits)

lemma all_equal_map: "list_all (\<lambda>d. fst d = DIFF_EQUAL) (map (\<lambda>e. (DIFF_EQUAL, e)) xs)"
  by (simp add: list_all_iff)

lemma split_equal: "list_all (\<lambda>d. fst d = DIFF_EQUAL) src \<Longrightarrow> list_all (\<lambda>d. fst d = DIFF_EQUAL) (splitDiffPiece src)"
proof (induction src rule: splitDiffPiece.induct)
  case (3 d t nd u src)
  then have "d = DIFF_EQUAL" "list_all (\<lambda>d. fst d = DIFF_EQUAL) (splitDiffPiece ((nd, u) # src))" by simp_all
  then show ?case by (simp add: all_equal_map)
qed (simp_all add: all_equal_map)

section \<open>The merge of a document\<close>

lemma mergeSensibly_merges:
  assumes "mergeSensibly dl getLeaf b c d pres = Some m" and "getLeaf b = Some bl" and "getLeaf c = Some ll" and "getLeaf d = Some rl"
  shows "merges (splitDiffPiece (dl (rl_data bl) (rl_data ll))) (splitDiffPiece (dl (rl_data bl) (rl_data rl))) m"
  using assms merge_loop_merges [of pres _ _ _ "[]" m] by (auto simp: mergeSensibly_def split: if_splits)


text \<open>
  Merging with a side that has not changed gives the text of the other side, as long as the diff of
  that side does not end in a deletion; when it does, the deletion is taken back, since the last piece of
  the diff is then kept as an unchanged one.
\<close>

theorem sensible_merge_one_sided:
  assumes "mergeSensibly dl getLeaf b c d pres = Some m" and "getLeaf b = Some bl" and "getLeaf c = Some ll" and "getLeaf d = Some rl"
    and "merged_text (dl (rl_data bl) (rl_data ll)) = rl_data ll"
    and "list_all (\<lambda>e. fst e = DIFF_EQUAL) (dl (rl_data bl) (rl_data rl))"
    and "dl (rl_data bl) (rl_data ll) = D @ [(o1, t)]"
  shows "(o1 \<noteq> DIFF_DELETE \<longrightarrow> merged_text m = rl_data ll) \<and>
    (o1 = DIFF_DELETE \<and> (D = [] \<or> fst (List.last D) = DIFF_EQUAL) \<longrightarrow> merged_text m = rl_data ll @ t)"
proof -
  have m: "m = splitDiffPiece (D @ [(o1, t)])"
    using merges_unchanged [OF mergeSensibly_merges [OF assms(1-4)] split_equal [OF assms(6)]] assms(7) by simp
  have "merged_text (splitDiffPiece (D @ [(DIFF_DELETE, t)])) = merged_text D @ t"
    if "D = [] \<or> fst (List.last D) = DIFF_EQUAL"
    using that
  proof (induction D rule: splitDiffPiece.induct)
    case (3 x y nx ny src)
    show ?case
    proof (cases "src = []")
      case True
      with 3 show ?thesis by (auto simp: line_pieces_concat text_pair_up)
    next
      case False
      with 3 show ?thesis by (auto simp: line_pieces_concat text_pair_up)
    qed
  qed (auto simp: line_pieces_concat)
  moreover have "merged_text D = rl_data ll" if "o1 = DIFF_DELETE" using that assms(5,7) by simp
  ultimately show ?thesis using split_new [of "D @ [(o1, t)]"] assms(5,7) by (auto simp: m)
qed

section \<open>Examples\<close>

definition sample_leaf :: "string \<Rightarrow> int \<Rightarrow> result_leaf" where
  "sample_leaf text mtime = \<lparr>rl_rev = [], rl_data = text, rl_deleted = None, rl_ctime = None, rl_mtime = Some mtime\<rparr>"

text \<open>The base has the lines a and b; the left side drops b, the right side adds x in front.\<close>

definition sample_leaves :: "string \<Rightarrow> result_leaf option" where
  "sample_leaves r =
     (if r = ''1-0'' then Some (sample_leaf [CHR ''a'', CHR 0x0A, CHR ''b'', CHR 0x0A] 1)
      else if r = ''2-l'' then Some (sample_leaf [CHR ''a'', CHR 0x0A] 2)
      else if r = ''2-r'' then Some (sample_leaf [CHR ''x'', CHR 0x0A, CHR ''a'', CHR 0x0A, CHR ''b'', CHR 0x0A] 3) else None)"

definition sample_diff :: "string \<Rightarrow> string \<Rightarrow> diff list" where
  "sample_diff old new =
     (if old = new then [(DIFF_EQUAL, old)]
      else if length new < length old then [(DIFF_EQUAL, new), (DIFF_DELETE, drop (length new) old)]
      else [(DIFF_INSERT, take (length new - length old) new), (DIFF_EQUAL, old)])"

lemma sample_diff_law:
  "old_text (sample_diff [CHR ''a'', CHR 0x0A, CHR ''b'', CHR 0x0A] [CHR ''a'', CHR 0x0A]) = [CHR ''a'', CHR 0x0A, CHR ''b'', CHR 0x0A]"
  "merged_text (sample_diff [CHR ''a'', CHR 0x0A, CHR ''b'', CHR 0x0A] [CHR ''a'', CHR 0x0A]) = [CHR ''a'', CHR 0x0A]"
  by (simp_all add: sample_diff_def)

text \<open>The merge is reported as possible and has the line b again: the deletion of the left side is lost.\<close>

lemma trailing_deletion_lost:
  "map_option merged_text (mergeSensibly sample_diff sample_leaves ''1-0'' ''2-l'' ''2-r'' True) =
    Some [CHR ''x'', CHR 0x0A, CHR ''a'', CHR 0x0A, CHR ''b'', CHR 0x0A]"
  by (simp add: mergeSensibly_def sample_leaves_def sample_leaf_def is_deleted_def sample_diff_def merge_loop.simps)


theorem sensible_merge_one_sided_witness:
  "\<exists>m. mergeSensibly sample_diff sample_leaves ''1-0'' ''2-l'' ''1-0'' True = Some m \<and>
    merged_text m = [CHR ''a'', CHR 0x0A] @ [CHR ''b'', CHR 0x0A]"
proof -
  let ?m = "[(DIFF_EQUAL, [CHR ''a'', CHR 0x0A]), (DIFF_EQUAL, [CHR ''b'', CHR 0x0A])]"
  have m: "mergeSensibly sample_diff sample_leaves ''1-0'' ''2-l'' ''1-0'' True = Some ?m"
    by (simp add: mergeSensibly_def sample_leaves_def sample_leaf_def is_deleted_def sample_diff_def merge_loop.simps)
  have l: "sample_leaves ''1-0'' = Some (sample_leaf [CHR ''a'', CHR 0x0A, CHR ''b'', CHR 0x0A] 1)"
    "sample_leaves ''2-l'' = Some (sample_leaf [CHR ''a'', CHR 0x0A] 2)"
    by (simp_all add: sample_leaves_def)
  from sensible_merge_one_sided [OF m l(1) l(2) l(1), of "[(DIFF_EQUAL, [CHR ''a'', CHR 0x0A])]" DIFF_DELETE "[CHR ''b'', CHR 0x0A]"]
  have "merged_text ?m = [CHR ''a'', CHR 0x0A] @ [CHR ''b'', CHR 0x0A]"
    by (simp add: sample_leaf_def sample_diff_def)
  with m show ?thesis by blast
qed

end
