(* ===== verification/Patch.thy ===== *)
theory Patch
  imports Json "HOL-Library.List_Lexorder" "HOL-Library.Char_ord"
begin

text \<open>
  \<open>src/common/utils.patch.ts\<close>: patches between JSON objects, their application, the merge of two objects
  and the flattening of a patch. An object is the list of its properties in insertion order; JavaScript
  lists integer-like keys first, which none of the results below depends on. The code changes its first
  argument in place and returns it; here the changed value is returned. Numbers are read from text only
  when they are integers.
\<close>

section \<open>Marks, keys and conversions\<close>

definition MARK_OPERATOR :: string where "MARK_OPERATOR = [CHR 0x01]"
definition MARK_DELETED :: string where "MARK_DELETED = MARK_OPERATOR @ ''__DELETED''"
definition MARK_ISARRAY :: string where "MARK_ISARRAY = MARK_OPERATOR @ ''__ARRAY''"
definition MARK_SWAPPED :: string where "MARK_SWAPPED = MARK_OPERATOR @ ''__SWAP''"

datatype patch_error = UnsafeKey string | TypeErr | NotUnordered | ArrayMismatch

definition FORBIDDEN_PATCH_KEYS :: "string list" where
  "FORBIDDEN_PATCH_KEYS = [''__proto__'', ''constructor'', ''prototype'']"

definition unsafe_key :: "string \<Rightarrow> bool" where
  "unsafe_key key \<longleftrightarrow> key \<in> set FORBIDDEN_PATCH_KEYS"

fun digits :: "nat \<Rightarrow> string" where
  "digits n = (if n < 10 then [char_of (48 + n)] else digits (n div 10) @ [char_of (48 + n mod 10)])"

declare digits.simps [simp del]

definition int_text :: "int \<Rightarrow> string" where
  "int_text n = (if n < 0 then CHR ''-'' # digits (nat (- n)) else digits (nat n))"

text \<open>\<open>String(v)\<close>, as in a computed key.\<close>

fun key_text :: "json \<Rightarrow> string" where
  "key_text JUndef = ''undefined''"
| "key_text JNull = ''null''"
| "key_text (JBool b) = (if b then ''true'' else ''false'')"
| "key_text (JNum n) = int_text n"
| "key_text (JFloat s) = s"
| "key_text (JStr s) = s"
| "key_text (JArr xs) = join_with '','' (map (\<lambda>x. if x = JNull \<or> x = JUndef then [] else key_text x) xs)"
| "key_text (JObj ps) = ''[object Object]''"

fun digit_value :: "nat \<Rightarrow> string \<Rightarrow> nat option" where
  "digit_value acc [] = Some acc"
| "digit_value acc (c # cs) =
     (let d = of_char c :: nat in if 48 \<le> d \<and> d \<le> 57 then digit_value (acc * 10 + (d - 48)) cs else None)"

text \<open>\<open>Number(s)\<close> of an integer.\<close>

definition int_of_text :: "string \<Rightarrow> int option" where
  "int_of_text s =
     (case s of
        [] \<Rightarrow> Some 0
      | c # cs \<Rightarrow> if c = CHR ''-'' \<and> cs \<noteq> [] then map_option (\<lambda>n. - int n) (digit_value 0 cs) else map_option int (digit_value 0 s))"

text \<open>\<open>s == v\<close> for a string.\<close>

definition text_equals :: "string \<Rightarrow> json \<Rightarrow> bool" where
  "text_equals s v =
     (case v of
        JStr t \<Rightarrow> s = t
      | JNum n \<Rightarrow> int_of_text s = Some n
      | JFloat t \<Rightarrow> s = t
      | JBool b \<Rightarrow> int_of_text s = Some (if b then 1 else 0)
      | JArr xs \<Rightarrow> s = key_text v
      | JObj ps \<Rightarrow> s = key_text v
      | _ \<Rightarrow> False)"

definition js_typeof :: "json \<Rightarrow> string" where
  "js_typeof v =
     (case v of JUndef \<Rightarrow> ''undefined'' | JBool _ \<Rightarrow> ''boolean'' | JNum _ \<Rightarrow> ''number'' | JFloat _ \<Rightarrow> ''number''
      | JStr _ \<Rightarrow> ''string'' | _ \<Rightarrow> ''object'')"

definition is_array :: "json \<Rightarrow> bool" where
  "is_array v = (case v of JArr _ \<Rightarrow> True | _ \<Rightarrow> False)"

section \<open>Unordered arrays\<close>

text \<open>\<open>entry.id\<close>\<close>

definition id_of :: "json \<Rightarrow> patch_error + json" where
  "id_of v = (case v of JUndef \<Rightarrow> Inl TypeErr | JNull \<Rightarrow> Inl TypeErr | JObj ps \<Rightarrow> Inr (js_field ps ''id'') | _ \<Rightarrow> Inr JUndef)"

fun assert_ids :: "json list \<Rightarrow> patch_error + unit" where
  "assert_ids [] = Inr ()"
| "assert_ids (e # es) =
     (case id_of e of
        Inl x \<Rightarrow> Inl x
      | Inr v \<Rightarrow>
          if (case v of JStr s \<Rightarrow> unsafe_key s | _ \<Rightarrow> False) then Inl (UnsafeKey (key_text v)) else assert_ids es)"

definition unorderedArrayToObject :: "json list \<Rightarrow> patch_error + (string \<times> json) list" where
  "unorderedArrayToObject obj =
     (case assert_ids obj of
        Inl x \<Rightarrow> Inl x
      | Inr _ \<Rightarrow> Inr (foldl (\<lambda>p e. jm_set (case id_of e of Inr v \<Rightarrow> key_text v | Inl _ \<Rightarrow> []) e p) [] obj))"

definition objectToUnorderedArray :: "(string \<times> json) list \<Rightarrow> patch_error + json list" where
  "objectToUnorderedArray entries =
     (if list_ex (\<lambda>e. \<not> (case id_of (snd e) of Inl _ \<Rightarrow> False | Inr v \<Rightarrow> text_equals (fst e) v)) entries then Inl NotUnordered
      else Inr (map snd entries))"

text \<open>\<open>xs.every((e) => typeof e == "object" && "id" in e)\<close>; \<open>"id" in null\<close> throws.\<close>

fun every_has_id :: "json list \<Rightarrow> patch_error + bool" where
  "every_has_id [] = Inr True"
| "every_has_id (e # es) =
     (case e of JNull \<Rightarrow> Inl TypeErr | JObj ps \<Rightarrow> if jm_has ps ''id'' then every_has_id es else Inr False | _ \<Rightarrow> Inr False)"

section \<open>Sizes\<close>

fun json_weight :: "json \<Rightarrow> nat" where
  "json_weight (JArr xs) = Suc (sum_list (map (\<lambda>x. Suc (json_weight x)) xs))"
| "json_weight (JObj ps) = Suc (sum_list (map (\<lambda>p. Suc (json_weight (snd p))) ps))"
| "json_weight _ = 0"

definition entries_weight :: "(string \<times> json) list \<Rightarrow> nat" where
  "entries_weight ps = sum_list (map (\<lambda>p. Suc (json_weight (snd p))) ps)"

lemma entries_weight_simps [simp]:
  "entries_weight [] = 0" "entries_weight (p # ps) = Suc (json_weight (snd p)) + entries_weight ps"
  by (simp_all add: entries_weight_def)

lemma entries_weight_set: "entries_weight (jm_set k v ps) \<le> Suc (json_weight v) + entries_weight ps"
  by (induction ps) auto

lemma unordered_weight:
  assumes "unorderedArrayToObject xs = Inr ps"
  shows "entries_weight ps \<le> sum_list (map (\<lambda>x. Suc (json_weight x)) xs)"
proof -
  have "entries_weight (foldl (\<lambda>p e. jm_set (f e) e p) acc xs) \<le> entries_weight acc + sum_list (map (\<lambda>x. Suc (json_weight x)) xs)"
    for f acc
  proof (induction xs arbitrary: acc)
    case Nil
    then show ?case by simp
  next
    case (Cons x xs)
    from Cons [of "jm_set (f x) x acc"] entries_weight_set [of "f x" x acc] show ?case by simp
  qed
  from this [of _ "[]"] assms show ?thesis by (auto simp: unorderedArrayToObject_def split: sum.splits)
qed

section \<open>Generating a patch\<close>

definition swapped :: "json \<Rightarrow> json" where
  "swapped v = JObj [(MARK_SWAPPED, v)]"

text \<open>
  \<open>generate_value v value\<close> is what the loop writes for a key of both objects, \<open>None\<close> when it writes
  nothing. Its two last branches compare the printed values, which agree on values that are not objects
  exactly when the values do.
\<close>

function (sequential) generatePatchObj :: "(string \<times> json) list \<Rightarrow> (string \<times> json) list \<Rightarrow> patch_error + (string \<times> json) list"
  and generate_entries :: "(string \<times> json) list \<Rightarrow> (string \<times> json) list \<Rightarrow> (string \<times> json) list \<Rightarrow>
    patch_error + (string \<times> json) list \<times> (string \<times> json) list"
  and generate_value :: "json \<Rightarrow> json \<Rightarrow> patch_error + json option"
  and generatePatchUnorderedArray :: "json list \<Rightarrow> json list \<Rightarrow> patch_error + json option" where
  "generatePatchObj from to =
     (case generate_entries from [] to of
        Inl e \<Rightarrow> Inl e
      | Inr (ret, tempMap) \<Rightarrow> Inr (foldl (\<lambda>r k. jm_set k (JStr MARK_DELETED) r) ret (jm_keys tempMap)))"
| "generate_entries tempMap ret [] = Inr (ret, tempMap)"
| "generate_entries tempMap ret ((key, value) # newEntries) =
     (if unsafe_key key then Inl (UnsafeKey key)
      else (case jm_get tempMap key of
              None \<Rightarrow> generate_entries (jm_delete key tempMap) (jm_set key value ret) newEntries
            | Some v \<Rightarrow>
                (case generate_value v value of
                   Inl e \<Rightarrow> Inl e
                 | Inr None \<Rightarrow> generate_entries (jm_delete key tempMap) ret newEntries
                 | Inr (Some d) \<Rightarrow> generate_entries (jm_delete key tempMap) (jm_set key d ret) newEntries)))"
| "generate_value v value =
     (if js_typeof v \<noteq> js_typeof value \<or> is_array v \<noteq> is_array value then Inr (Some (swapped value))
      else if v = JNull \<and> value = JNull then Inr None
      else if v = JNull then Inr (Some (swapped value))
      else if value = JNull then Inr (Some (swapped value))
      else (case (v, value) of
              (JObj a, JObj b) \<Rightarrow>
                (case generatePatchObj a b of
                   Inl e \<Rightarrow> Inl e
                 | Inr wk \<Rightarrow> Inr (if length wk > 0 then Some (JObj wk) else None))
            | (JArr a, JArr b) \<Rightarrow> generatePatchUnorderedArray a b
            | _ \<Rightarrow> Inr (if v \<noteq> value then Some value else None)))"
| "generatePatchUnorderedArray from to =
     (case every_has_id from of
        Inl e \<Rightarrow> Inl e
      | Inr False \<Rightarrow> Inr (Some (swapped (JArr to)))
      | Inr True \<Rightarrow>
          (case every_has_id to of
             Inl e \<Rightarrow> Inl e
           | Inr False \<Rightarrow> Inr (Some (swapped (JArr to)))
           | Inr True \<Rightarrow>
               (case unorderedArrayToObject from of
                  Inl e \<Rightarrow> Inl e
                | Inr fObj \<Rightarrow>
                    (case unorderedArrayToObject to of
                       Inl e \<Rightarrow> Inl e
                     | Inr tObj \<Rightarrow>
                         (case generatePatchObj fObj tObj of
                            Inl e \<Rightarrow> Inl e
                          | Inr diff \<Rightarrow> Inr (if length diff > 0 then Some (JObj [(MARK_ISARRAY, JObj diff)]) else None))))))"
  by pat_completeness auto
termination
proof (relation "measure (case_sum (case_sum (\<lambda>(_, to). 3 * entries_weight to + 1) (\<lambda>(_, _, es). 3 * entries_weight es))
    (case_sum (\<lambda>(_, v). 3 * json_weight v) (\<lambda>(_, to). 3 * sum_list (map (\<lambda>x. Suc (json_weight x)) to) + 2)))", goal_cases)
qed (auto simp: entries_weight_def [symmetric] dest: unordered_weight)

section \<open>Applying a patch\<close>

definition has_prop :: "json \<Rightarrow> string \<Rightarrow> bool" where
  "has_prop v k =
     (case v of
        JObj ps \<Rightarrow> jm_has ps k
      | JArr xs \<Rightarrow> (case int_of_text k of None \<Rightarrow> False | Some i \<Rightarrow> k = int_text i \<and> 0 \<le> i \<and> nat i < length xs)
      | _ \<Rightarrow> False)"

definition get_prop :: "json \<Rightarrow> string \<Rightarrow> json" where
  "get_prop v k =
     (case v of
        JObj ps \<Rightarrow> js_field ps k
      | JArr xs \<Rightarrow> if has_prop v k then (case int_of_text k of Some i \<Rightarrow> xs ! nat i | None \<Rightarrow> JUndef) else JUndef
      | _ \<Rightarrow> JUndef)"

text \<open>Assignments to a primitive throw; an index beyond the end extends the array; another key of an array is not printed.\<close>

definition set_prop :: "json \<Rightarrow> string \<Rightarrow> json \<Rightarrow> patch_error + json" where
  "set_prop v k x =
     (case v of
        JObj ps \<Rightarrow> Inr (JObj (jm_set k x ps))
      | JArr xs \<Rightarrow>
          (case int_of_text k of
             Some i \<Rightarrow>
               if k = int_text i \<and> 0 \<le> i
               then Inr (JArr (if nat i < length xs then xs[nat i := x] else xs @ replicate (nat i - length xs) JUndef @ [x]))
               else Inr v
           | None \<Rightarrow> Inr v)
      | _ \<Rightarrow> Inl TypeErr)"

definition del_prop :: "json \<Rightarrow> string \<Rightarrow> patch_error + json" where
  "del_prop v k =
     (case v of
        JObj ps \<Rightarrow> Inr (JObj (jm_delete k ps))
      | JArr xs \<Rightarrow> if has_prop v k then set_prop v k JUndef else Inr v
      | JNull \<Rightarrow> Inl TypeErr
      | JUndef \<Rightarrow> Inl TypeErr
      | _ \<Rightarrow> Inr v)"

text \<open>\<open>Object.entries\<close>, but for a string, whose entries are its characters.\<close>

definition entries_of :: "json \<Rightarrow> patch_error + (string \<times> json) list" where
  "entries_of v =
     (case v of
        JObj ps \<Rightarrow> Inr ps
      | JArr xs \<Rightarrow> Inr (zip (map (\<lambda>i. digits i) [0..<length xs]) xs)
      | JUndef \<Rightarrow> Inl TypeErr
      | JNull \<Rightarrow> Inl TypeErr
      | _ \<Rightarrow> Inr [])"

lemma entries_weight_zip: "entries_weight (zip ks xs) \<le> sum_list (map (\<lambda>x. Suc (json_weight x)) xs)"
proof (induction xs arbitrary: ks)
  case Nil
  then show ?case by simp
next
  case (Cons x xs)
  then show ?case by (cases ks) (auto intro: add_mono le_SucI trans_le_add2)
qed

lemma entries_of_weight: "entries_of v = Inr ps \<Longrightarrow> entries_weight ps \<le> json_weight v"
  using entries_weight_zip by (auto simp: entries_of_def entries_weight_def [symmetric] le_SucI split: json.splits)

text \<open>A string used as a patch puts its characters under their indices.\<close>

fun apply_chars :: "json \<Rightarrow> nat \<Rightarrow> string \<Rightarrow> patch_error + json" where
  "apply_chars ret i [] = Inr ret"
| "apply_chars ret i (c # cs) =
     (case set_prop ret (digits i) (JStr [c]) of Inl e \<Rightarrow> Inl e | Inr ret' \<Rightarrow> apply_chars ret' (Suc i) cs)"

text \<open>\<open>value == MARK_DELETED\<close>\<close>

definition deletes :: "json \<Rightarrow> bool" where
  "deletes value = text_equals MARK_DELETED value"

lemma field_weight: "jm_get ps k = Some v \<Longrightarrow> json_weight v < entries_weight ps"
  by (induction ps) (auto split: if_splits)

lemma nth_weight: "i < length xs \<Longrightarrow> json_weight (xs ! i) \<le> sum_list (map (\<lambda>x. Suc (json_weight x)) xs)"
proof (induction xs arbitrary: i)
  case Nil
  then show ?case by simp
next
  case (Cons x xs)
  then show ?case by (cases i) (auto intro: le_SucI trans_le_add2)
qed

lemma get_prop_weight: "has_prop v k \<Longrightarrow> json_weight (get_prop v k) \<le> json_weight v"
proof (cases v)
  case (JArr xs)
  assume "has_prop v k"
  with JArr show ?thesis by (auto simp: has_prop_def get_prop_def intro: le_SucI nth_weight split: option.splits)
next
  case (JObj ps)
  assume "has_prop v k"
  then obtain x where "jm_get ps k = Some x" using JObj by (auto simp: has_prop_def jm_has_def)
  with field_weight [OF this] JObj show ?thesis
    by (simp add: get_prop_def js_field_def entries_weight_def [symmetric])
qed (simp_all add: has_prop_def)

lemma patch_weight: "has_prop v k \<Longrightarrow> get_prop v k = x \<Longrightarrow> entries_of x = Inr ps \<Longrightarrow> entries_weight ps \<le> json_weight v"
  using get_prop_weight [of v k] entries_of_weight [of "get_prop v k" ps] by auto

text \<open>
  \<open>apply_value ret key value\<close> is what an entry of the patch leaves under its key, \<open>None\<close> for a deletion.
\<close>

function (sequential) applyPatch :: "json \<Rightarrow> (string \<times> json) list \<Rightarrow> patch_error + json"
  and apply_value :: "json \<Rightarrow> string \<Rightarrow> json \<Rightarrow> patch_error + json option" where
  "applyPatch ret [] = Inr ret"
| "applyPatch ret ((key, value) # patches) =
     (if unsafe_key key then Inl (UnsafeKey key)
      else (case apply_value ret key value of
              Inl e \<Rightarrow> Inl e
            | Inr None \<Rightarrow> (case del_prop ret key of Inl e \<Rightarrow> Inl e | Inr ret' \<Rightarrow> applyPatch ret' patches)
            | Inr (Some x) \<Rightarrow> (case set_prop ret key x of Inl e \<Rightarrow> Inl e | Inr ret' \<Rightarrow> applyPatch ret' patches)))"
| "apply_value ret key value =
     (if deletes value then Inr None
      else if value = JNull then Inr (Some JNull)
      else if js_typeof value = ''object'' then
        (if has_prop value MARK_SWAPPED then Inr (Some (get_prop value MARK_SWAPPED))
         else if has_prop value MARK_ISARRAY then
           (case (if has_prop ret key then get_prop ret key else JArr []) of
              JArr org \<Rightarrow>
                (case unorderedArrayToObject org of
                   Inl e \<Rightarrow> Inl e
                 | Inr orgArrayObject \<Rightarrow>
                     (case (case get_prop value MARK_ISARRAY of
                              JStr s \<Rightarrow> apply_chars (JObj orgArrayObject) 0 s
                            | inner \<Rightarrow> (case entries_of inner of Inl e \<Rightarrow> Inl e | Inr ps \<Rightarrow> applyPatch (JObj orgArrayObject) ps)) of
                        Inl e \<Rightarrow> Inl e
                      | Inr (JObj appliedObject) \<Rightarrow>
                          (case objectToUnorderedArray appliedObject of
                             Inl e \<Rightarrow> Inl e | Inr appliedArray \<Rightarrow> Inr (Some (JArr appliedArray)))
                      | Inr _ \<Rightarrow> Inl TypeErr))
            | _ \<Rightarrow> Inl ArrayMismatch)
         else if \<not> has_prop ret key then Inr (Some value)
         else (case entries_of value of
                 Inl e \<Rightarrow> Inl e
               | Inr ps \<Rightarrow> map_sum id Some (applyPatch (get_prop ret key) ps)))
      else Inr (Some value))"
  by pat_completeness auto

termination
proof (relation "measure (case_sum (\<lambda>(_, ps). 2 * entries_weight ps) (\<lambda>(_, _, v). 2 * json_weight v + 1))", goal_cases)
qed (auto dest: entries_of_weight patch_weight)

section \<open>Merging and flattening\<close>

definition entries_all :: "json \<Rightarrow> patch_error + (string \<times> json) list" where
  "entries_all v =
     (case v of
        JStr s \<Rightarrow> Inr (zip (map (\<lambda>i. digits i) [0..<length s]) (map (\<lambda>c. JStr [c]) s))
      | _ \<Rightarrow> entries_of v)"

text \<open>\<open>[...new Set(xs)]\<close>: two objects are never the same element.\<close>

definition new_set :: "json list \<Rightarrow> json list" where
  "new_set xs = foldl (\<lambda>s x. if js_typeof x \<noteq> ''object'' \<and> x \<in> set s \<or> x = JNull \<and> JNull \<in> set s then s else s @ [x]) [] xs"

definition all_weight :: "json \<Rightarrow> nat" where
  "all_weight v = (case v of JStr s \<Rightarrow> length s | _ \<Rightarrow> json_weight v)"

lemma entries_all_weight: "entries_all v = Inr ps \<Longrightarrow> entries_weight ps \<le> all_weight v"
proof (cases v)
  case (JStr s)
  assume "entries_all v = Inr ps"
  moreover have "entries_weight (zip ks (map (\<lambda>c. JStr [c]) s)) \<le> length s" for ks
  proof (induction s arbitrary: ks)
    case Nil
    then show ?case by simp
  next
    case (Cons c s)
    then show ?case by (cases ks) auto
  qed
  ultimately show ?thesis using JStr by (auto simp: entries_all_def all_weight_def)
qed (auto simp: entries_all_def all_weight_def dest: entries_of_weight)

lemma all_weight_object: "js_typeof v = ''object'' \<Longrightarrow> all_weight v = json_weight v"
  by (cases v) (auto simp: js_typeof_def all_weight_def)

text \<open>
  The value of a key that both have is looked up in \<open>objA\<close>: the keys of \<open>objB\<close> are distinct, so that
  \<open>ret\<close> still holds it.
\<close>

function (sequential) mergeObject :: "json \<Rightarrow> json \<Rightarrow> patch_error + json"
  and merge_entries :: "(string \<times> json) list \<Rightarrow> (string \<times> json) list \<Rightarrow> (string \<times> json) list \<Rightarrow> patch_error + (string \<times> json) list" where
  "mergeObject objA objB =
     (case entries_all objB of
        Inl e \<Rightarrow> Inl e
      | Inr newEntries \<Rightarrow>
          if js_typeof objA \<noteq> js_typeof objB \<or> is_array objA \<noteq> is_array objB then Inr objB
          else
            (let old = (case entries_all objA of Inl _ \<Rightarrow> [] | Inr ps \<Rightarrow> ps) in
             case merge_entries old old newEntries of
               Inl e \<Rightarrow> Inl e
             | Inr ret \<Rightarrow>
                 (let retSorted = sort_key fst ret
                  in Inr (if is_array objA \<and> is_array objB
                          then JArr (map snd (sort_key (\<lambda>e. case int_of_text (fst e) of Some i \<Rightarrow> i | None \<Rightarrow> 0) retSorted))
                          else JObj retSorted))))"
| "merge_entries old ret [] = Inr ret"
| "merge_entries old ret ((key, v) # newEntries) =
     (if unsafe_key key then Inl (UnsafeKey key)
      else (case jm_get old key of
              None \<Rightarrow> merge_entries old (jm_set key v ret) newEntries
            | Some value \<Rightarrow>
                if js_typeof v \<noteq> js_typeof value \<or> is_array v \<noteq> is_array value then merge_entries old (jm_set key v ret) newEntries
                else if js_typeof v = ''object'' \<and> js_typeof value = ''object'' \<and> \<not> is_array v \<and> \<not> is_array value then
                  (case mergeObject v value of
                     Inl e \<Rightarrow> Inl e
                   | Inr x \<Rightarrow> merge_entries old (jm_set key x ret) newEntries)
                else
                  (case (v, value) of
                     (JArr xs, JArr ys) \<Rightarrow> merge_entries old (jm_set key (JArr (new_set (xs @ ys))) ret) newEntries
                   | _ \<Rightarrow> merge_entries old (jm_set key v ret) newEntries)))"
  by pat_completeness auto

termination
proof (relation "measure (case_sum (\<lambda>(a, b). 2 * (all_weight a + all_weight b) + 1) (\<lambda>(old, _, es). 2 * (entries_weight old + entries_weight es)))", goal_cases)
qed (auto dest!: entries_all_weight field_weight simp: all_weight_object entries_weight_def [symmetric] split: sum.split)

text \<open>\<open>stringify\<close> is \<open>JSON.stringify\<close>.\<close>

fun flattenObject :: "(json \<Rightarrow> string) \<Rightarrow> string list \<Rightarrow> json \<Rightarrow> (string \<times> json) list" where
  "flattenObject stringify path (JObj ps) = concat (map (\<lambda>p. flattenObject stringify (path @ [fst p]) (snd p)) ps)"
| "flattenObject stringify path (JArr xs) = [(join_with ''.'' path, JStr (stringify (JArr xs)))]"
| "flattenObject stringify path obj = [(join_with ''.'' path, obj)]"

definition isSensibleMargeApplicable :: "string \<Rightarrow> bool" where
  "isSensibleMargeApplicable path \<longleftrightarrow> ends_with path ''.md''"

definition isObjectMargeApplicable :: "string \<Rightarrow> bool" where
  "isObjectMargeApplicable path \<longleftrightarrow> ends_with path ''.canvas'' \<or> ends_with path ''.json''"

text \<open>
  Which side wins depends on the depth: the recursive call swaps its arguments, so that the second object
  wins at the top and the first one a level below.
\<close>

lemma merge_precedence_alternates:
  "mergeObject (JObj [(''x'', JNum 1)]) (JObj [(''x'', JNum 2)]) = Inr (JObj [(''x'', JNum 2)])"
  "mergeObject (JObj [(''a'', JObj [(''x'', JNum 1)])]) (JObj [(''a'', JObj [(''x'', JNum 2)])]) =
    Inr (JObj [(''a'', JObj [(''x'', JNum 1)])])"
  by (simp_all add: entries_all_def entries_of_def js_typeof_def is_array_def unsafe_key_def FORBIDDEN_PATCH_KEYS_def)

section \<open>Patches, key by key\<close>

declare generatePatchObj.simps [simp del] generate_value.simps [simp del] generatePatchUnorderedArray.simps [simp del]
  apply_value.simps [simp del]

definition patch_at :: "json option \<Rightarrow> json option \<Rightarrow> json option" where
  "patch_at old new =
     (case (old, new) of
        (None, None) \<Rightarrow> None
      | (Some _, None) \<Rightarrow> Some (JStr MARK_DELETED)
      | (None, Some v) \<Rightarrow> Some v
      | (Some w, Some v) \<Rightarrow> (case generate_value w v of Inr r \<Rightarrow> r | Inl _ \<Rightarrow> None))"

lemma generate_entries_get:
  assumes "generate_entries temp ret es = Inr (ret', temp')" and "jm_wf es" and "jm_wf ret"
    and "\<And>k. k \<in> set (jm_keys es) \<Longrightarrow> jm_get ret k = None"
  shows "jm_wf ret' \<and> (\<forall>k. jm_get temp' k = (if k \<in> set (jm_keys es) then None else jm_get temp k)) \<and>
    (\<forall>k. jm_get ret' k = (case jm_get es k of None \<Rightarrow> jm_get ret k | Some v \<Rightarrow> patch_at (jm_get temp k) (Some v))) \<and>
    (\<forall>k v w. jm_get es k = Some v \<longrightarrow> \<not> unsafe_key k \<and> (jm_get temp k = Some w \<longrightarrow> (\<exists>r. generate_value w v = Inr r)))"
  using assms
proof (induction es arbitrary: temp ret)
  case Nil
  then show ?case by simp
next
  case (Cons e es)
  obtain key v where e: "e = (key, v)" by (cases e)
  have key: "key \<notin> set (jm_keys es)" "jm_wf es" using Cons.prems(2) e by (auto simp: jm_wf_def)
  then have none: "jm_get es key = None" by (simp add: map_of_eq_None_iff)
  have ok: "\<not> unsafe_key key" using Cons.prems(1) e by (auto split: if_splits)
  define d where "d = patch_at (jm_get temp key) (Some v)"
  define ret1 where "ret1 = (case d of None \<Rightarrow> ret | Some x \<Rightarrow> jm_set key x ret)"
  have g: "\<exists>r. generate_value w v = Inr r" if "jm_get temp key = Some w" for w
    using Cons.prems(1) e ok that by (cases "generate_value w v") auto
  have step: "generate_entries (jm_delete key temp) ret1 es = Inr (ret', temp')"
    using Cons.prems(1) e ok g
    by (auto simp: ret1_def d_def patch_at_def split: option.splits sum.splits)
  have r1: "jm_wf ret1" "jm_get ret1 k = (if k = key then d else jm_get ret k)" for k
    using Cons.prems(3,4) e by (auto simp: ret1_def split: option.split)
  have "jm_get ret1 k = None" if "k \<in> set (jm_keys es)" for k
    using that key Cons.prems(4) [of k] e by (auto simp: r1)
  from Cons.IH [OF step key(2) r1(1) this] show ?case
    using ok g key none by (auto simp: e r1 d_def split: option.split)
qed

lemma foldl_mark_get: "jm_get (foldl (\<lambda>r k. jm_set k x r) ret ks) k = (if k \<in> set ks then Some x else jm_get ret k)"
  by (induction ks arbitrary: ret) auto

lemma foldl_mark_wf: "jm_wf ret \<Longrightarrow> jm_wf (foldl (\<lambda>r k. jm_set k x r) ret ks)"
  by (induction ks arbitrary: ret) auto

lemma patch_get:
  assumes "generatePatchObj a b = Inr d" and "jm_wf b"
  shows "jm_wf d" and "jm_get d k = patch_at (jm_get a k) (jm_get b k)"
    and "jm_get b k = Some v \<Longrightarrow> \<not> unsafe_key k"
    and "jm_get a k = Some w \<Longrightarrow> jm_get b k = Some v \<Longrightarrow> \<exists>r. generate_value w v = Inr r"
proof -
  obtain ret temp where g: "generate_entries a [] b = Inr (ret, temp)"
    and d: "d = foldl (\<lambda>r k. jm_set k (JStr MARK_DELETED) r) ret (jm_keys temp)"
    using assms(1) by (auto simp: generatePatchObj.simps split: sum.splits)
  note s = generate_entries_get [OF g assms(2)]
  have wf: "jm_wf ret" using s by simp
  show "jm_wf d" using wf by (simp add: d foldl_mark_wf)
  have left: "jm_get temp k = (if jm_get b k = None then jm_get a k else None)" using s by (simp add: map_of_eq_None_iff)
  have "k \<in> set (jm_keys temp) \<longleftrightarrow> jm_get temp k \<noteq> None" by (simp add: map_of_eq_None_iff)
  also have "\<dots> \<longleftrightarrow> jm_get a k \<noteq> None \<and> jm_get b k = None" by (simp add: left)
  finally show "jm_get d k = patch_at (jm_get a k) (jm_get b k)"
    using s by (auto simp: d foldl_mark_get patch_at_def split: option.split)
  show "jm_get b k = Some v \<Longrightarrow> \<not> unsafe_key k" using s by simp
  show "jm_get a k = Some w \<Longrightarrow> jm_get b k = Some v \<Longrightarrow> \<exists>r. generate_value w v = Inr r" using s by simp
qed

lemma apply_value_cong:
  "has_prop r k = has_prop r' k \<Longrightarrow> get_prop r k = get_prop r' k \<Longrightarrow> apply_value r k v = apply_value r' k v"
  unfolding apply_value.simps by (simp cong: sum.case_cong)

lemma props_obj [simp]:
  "has_prop (JObj r) k = jm_has r k" "get_prop (JObj r) k = js_field r k"
  "set_prop (JObj r) k x = Inr (JObj (jm_set k x r))" "del_prop (JObj r) k = Inr (JObj (jm_delete k r))"
  by (simp_all add: has_prop_def get_prop_def set_prop_def del_prop_def)

lemma apply_get:
  assumes "jm_wf d" and "jm_wf r"
    and "\<And>k v. jm_get d k = Some v \<Longrightarrow> \<not> unsafe_key k \<and> (\<exists>x. apply_value (JObj r) k v = Inr x)"
  shows "\<exists>r'. applyPatch (JObj r) d = Inr (JObj r') \<and> jm_wf r' \<and>
    (\<forall>k. jm_get r' k = (case jm_get d k of None \<Rightarrow> jm_get r k
       | Some v \<Rightarrow> (case apply_value (JObj r) k v of Inr x \<Rightarrow> x | Inl _ \<Rightarrow> None)))"
  using assms
proof (induction d arbitrary: r)
  case Nil
  then show ?case by simp
next
  case (Cons e d)
  obtain key v where e: "e = (key, v)" by (cases e)
  have key: "key \<notin> set (jm_keys d)" "jm_wf d" using Cons.prems(1) e by (auto simp: jm_wf_def)
  then have none: "jm_get d key = None" by (simp add: map_of_eq_None_iff)
  obtain x where x: "\<not> unsafe_key key" "apply_value (JObj r) key v = Inr x"
    using Cons.prems(3) [of key v] e by auto
  define r1 where "r1 = (case x of None \<Rightarrow> jm_delete key r | Some y \<Rightarrow> jm_set key y r)"
  have r1: "jm_wf r1" "jm_get r1 k = (if k = key then x else jm_get r k)" for k
    using Cons.prems(2) by (auto simp: r1_def split: option.split)
  have same: "apply_value (JObj r1) k w = apply_value (JObj r) k w" if "k \<noteq> key" for k w
    using that by (intro apply_value_cong) (auto simp: jm_has_def js_field_def r1)
  have "\<not> unsafe_key k \<and> (\<exists>y. apply_value (JObj r1) k w = Inr y)" if "jm_get d k = Some w" for k w
  proof -
    have "k \<noteq> key" using that none by auto
    with Cons.prems(3) [of k w] that e show ?thesis by (simp add: same)
  qed
  from Cons.IH [OF key(2) r1(1) this] obtain r' where
    r': "applyPatch (JObj r1) d = Inr (JObj r')" "jm_wf r'"
    "\<And>k. jm_get r' k = (case jm_get d k of None \<Rightarrow> jm_get r1 k
       | Some v \<Rightarrow> (case apply_value (JObj r1) k v of Inr x \<Rightarrow> x | Inl _ \<Rightarrow> None))" by blast
  have "applyPatch (JObj r) (e # d) = Inr (JObj r')"
    using x r'(1) by (simp add: e r1_def split: option.splits)
  moreover have "jm_get r' k = (case jm_get (e # d) k of None \<Rightarrow> jm_get r k
       | Some v \<Rightarrow> (case apply_value (JObj r) k v of Inr x \<Rightarrow> x | Inl _ \<Rightarrow> None))" for k
    using none x by (cases "k = key") (auto simp: r'(3) r1 e same split: option.split)
  ultimately show ?case using r'(2) by blast
qed

section \<open>Applying a generated patch\<close>

definition id_key :: "json \<Rightarrow> string" where
  "id_key e = (case id_of e of Inr v \<Rightarrow> key_text v | Inl _ \<Rightarrow> [])"

definition by_id :: "json list \<Rightarrow> (string \<times> json) list" where
  "by_id xs = map (\<lambda>e. (id_key e, e)) xs"

definition text_id :: "json \<Rightarrow> bool" where
  "text_id e = (case id_of e of Inr (JStr s) \<Rightarrow> True | _ \<Rightarrow> False)"

text \<open>
  Values whose patches mean what they say: keys and texts are none of the marks, and the items of an
  array of items with ids have distinct texts as ids.
\<close>

fun clean :: "json \<Rightarrow> bool" where
  "clean (JObj ps) \<longleftrightarrow> jm_wf ps \<and>
     (\<forall>p\<in>set ps. \<not> unsafe_key (fst p) \<and> fst p \<noteq> MARK_SWAPPED \<and> fst p \<noteq> MARK_ISARRAY \<and> clean (snd p))"
| "clean (JArr xs) \<longleftrightarrow> \<not> deletes (JArr xs) \<and> (\<forall>x\<in>set xs. clean x) \<and>
     (every_has_id xs = Inr True \<longrightarrow> list_all text_id xs \<and> jm_wf (by_id xs))"
| "clean v \<longleftrightarrow> \<not> deletes v"

text \<open>
  The same value up to the order of keys and the order of the items of an array of items with ids.
\<close>

inductive jeq :: "json \<Rightarrow> json \<Rightarrow> bool" where
  jeq_refl: "jeq v v"
| jeq_obj: "jm_wf a \<Longrightarrow> jm_wf b \<Longrightarrow> (\<And>k. rel_option jeq (jm_get a k) (jm_get b k)) \<Longrightarrow> jeq (JObj a) (JObj b)"
| jeq_arr: "jm_wf (by_id xs) \<Longrightarrow> jm_wf (by_id ys) \<Longrightarrow> (\<And>k. rel_option jeq (jm_get (by_id xs) k) (jm_get (by_id ys) k)) \<Longrightarrow>
    jeq (JArr xs) (JArr ys)"

inductive_cases jeq_objE: "jeq x (JObj b)"
inductive_cases jeq_strE: "jeq x (JStr s)"

lemma rel_option_refl: "(\<And>x. R x x) \<Longrightarrow> rel_option R v v"
  by (cases v) auto

lemma jeq_id:
  assumes "jeq x y" and "text_id y"
  shows "id_of x = id_of y"
proof -
  obtain b s where b: "y = JObj b" "js_field b ''id'' = JStr s"
    using assms(2) by (cases y) (auto simp: text_id_def id_of_def split: json.splits)
  then have s: "jm_get b ''id'' = Some (JStr s)" by (auto simp: js_field_def split: option.splits)
  from assms(1) show ?thesis
  proof (cases rule: jeq.cases)
    case (jeq_obj a b')
    have "rel_option jeq (jm_get a ''id'') (Some (JStr s))" using jeq_obj(5) [of "''id''"] jeq_obj(2) b s by simp
    then obtain z where "jm_get a ''id'' = Some z" "jeq z (JStr s)" by (auto simp: option_rel_Some2)
    then show ?thesis using jeq_obj(1) b s by (auto simp: id_of_def js_field_def elim: jeq_strE)
  qed (use b in simp_all)
qed

lemma update_fresh: "k \<notin> set (jm_keys m) \<Longrightarrow> jm_set k v m = m @ [(k, v)]"
  by (induction m) auto

lemma foldl_set_fresh:
  "distinct (map fst acc @ map f xs) \<Longrightarrow> foldl (\<lambda>p e. jm_set (f e) e p) acc xs = acc @ map (\<lambda>e. (f e, e)) xs"
proof (induction xs arbitrary: acc)
  case Nil
  then show ?case by simp
next
  case (Cons x xs)
  have "jm_set (f x) x acc = acc @ [(f x, x)]"
    using Cons.prems by (intro update_fresh) auto
  with Cons show ?case by simp
qed

lemma unordered_by_id:
  assumes "unorderedArrayToObject xs = Inr ps" and "jm_wf (by_id xs)"
  shows "ps = by_id xs"
proof -
  have "ps = foldl (\<lambda>p e. jm_set (id_key e) e p) [] xs"
    using assms(1) by (auto simp: unorderedArrayToObject_def id_key_def split: sum.splits)
  then show ?thesis using assms(2) foldl_set_fresh [of "[]" id_key xs] by (simp add: by_id_def jm_wf_def comp_def)
qed

definition good :: "json \<Rightarrow> json \<Rightarrow> json option \<Rightarrow> bool" where
  "good w v r \<longleftrightarrow>
     (case r of
        None \<Rightarrow> jeq w v
      | Some p \<Rightarrow> \<forall>ret k. has_prop ret k \<longrightarrow> get_prop ret k = w \<longrightarrow> (\<exists>x. apply_value ret k p = Inr (Some x) \<and> jeq x v))"

lemma marks_apart: "MARK_SWAPPED \<noteq> MARK_ISARRAY" "int_of_text MARK_SWAPPED = None" "int_of_text MARK_ISARRAY = None"
  by (simp_all add: MARK_SWAPPED_def MARK_ISARRAY_def MARK_OPERATOR_def int_of_text_def)

lemma deletes_simps [simp]:
  "deletes (JObj ps) = False" "deletes (JStr s) \<longleftrightarrow> s = MARK_DELETED" "deletes JNull = False" "deletes JUndef = False"
  "deletes (JBool b) = False"
  by (auto simp: deletes_def text_equals_def MARK_DELETED_def MARK_OPERATOR_def int_of_text_def)

lemma apply_swapped: "apply_value ret k (swapped v) = Inr (Some v)"
  by (simp add: swapped_def apply_value.simps js_typeof_def jm_has_def js_field_def)

lemma clean_marks: "clean (JObj ps) \<Longrightarrow> \<not> jm_has ps MARK_SWAPPED \<and> \<not> jm_has ps MARK_ISARRAY"
  by (auto simp: jm_has_iff)

lemma fresh_value:
  assumes "clean v" and "\<not> jm_has a k"
  shows "apply_value (JObj a) k v = Inr (Some v)"
proof (cases v)
  case (JObj ps)
  then show ?thesis using assms clean_marks by (auto simp: apply_value.simps js_typeof_def)
qed (use assms in \<open>auto simp: apply_value.simps js_typeof_def has_prop_def marks_apart\<close>)

lemma object_good:
  assumes gen: "generatePatchObj a b = Inr d" and wf: "jm_wf a" "jm_wf b"
    and safe: "\<And>k. k \<in> set (jm_keys a) \<Longrightarrow> \<not> unsafe_key k"
    and cl: "\<And>k v. jm_get b k = Some v \<Longrightarrow> clean v"
    and val: "\<And>k v w r. jm_get a k = Some w \<Longrightarrow> jm_get b k = Some v \<Longrightarrow> generate_value w v = Inr r \<Longrightarrow> good w v r"
  shows "\<exists>r'. applyPatch (JObj a) d = Inr (JObj r') \<and> jm_wf r' \<and> (\<forall>k. rel_option jeq (jm_get r' k) (jm_get b k))"
proof -
  note pg = patch_get [OF gen wf(2)]
  have entry: "\<not> unsafe_key k \<and> (\<exists>y. apply_value (JObj a) k p = Inr y \<and> rel_option jeq y (jm_get b k))"
    if p: "jm_get d k = Some p" for k p
  proof (cases "jm_get b k")
    case None
    then obtain w where w: "jm_get a k = Some w" and "p = JStr MARK_DELETED"
      using p pg(2) [of k] by (auto simp: patch_at_def split: option.splits)
    then have "apply_value (JObj a) k p = Inr None" by (simp add: apply_value.simps)
    moreover have "\<not> unsafe_key k" using safe [of k] map_of_SomeD [OF w] by force
    ultimately show ?thesis using None by simp
  next
    case (Some v)
    note safe' = pg(3) [OF Some]
    show ?thesis
    proof (cases "jm_get a k")
      case None
      then have "p = v" using p pg(2) [of k] Some by (simp add: patch_at_def)
      then have "apply_value (JObj a) k p = Inr (Some v)"
        using fresh_value [OF cl [OF Some], of a k] None by (simp add: jm_has_def)
      with safe' Some show ?thesis by (auto intro: jeq_refl)
    next
      case (Some w)
      note v = \<open>jm_get b k = Some v\<close>
      obtain r where r: "generate_value w v = Inr r" using pg(4) [OF Some v] by blast
      then have "r = Some p" using p pg(2) [of k] Some v by (simp add: patch_at_def)
      with val [OF Some v r] Some have "\<exists>x. apply_value (JObj a) k p = Inr (Some x) \<and> jeq x v"
        by (auto simp: good_def jm_has_def js_field_def)
      with safe' v show ?thesis by auto
    qed
  qed
  have "\<exists>r'. applyPatch (JObj a) d = Inr (JObj r') \<and> jm_wf r' \<and>
    (\<forall>k. jm_get r' k = (case jm_get d k of None \<Rightarrow> jm_get a k
       | Some v \<Rightarrow> (case apply_value (JObj a) k v of Inr x \<Rightarrow> x | Inl _ \<Rightarrow> None)))"
    using entry by (intro apply_get [OF pg(1) wf(1)]) blast
  then obtain r' where r': "applyPatch (JObj a) d = Inr (JObj r')" "jm_wf r'"
    "\<And>k. jm_get r' k = (case jm_get d k of None \<Rightarrow> jm_get a k
       | Some v \<Rightarrow> (case apply_value (JObj a) k v of Inr x \<Rightarrow> x | Inl _ \<Rightarrow> None))" by blast
  have "rel_option jeq (jm_get r' k) (jm_get b k)" for k
  proof (cases "jm_get d k")
    case (Some p)
    with entry [OF Some] r'(3) [of k] show ?thesis by auto
  next
    case None
    then have same: "jm_get r' k = jm_get a k" by (simp add: r'(3))
    show ?thesis
    proof (cases "jm_get a k")
      case None': None
      then have "jm_get b k = None" using None pg(2) [of k] by (cases "jm_get b k") (simp_all add: patch_at_def)
      with None' same show ?thesis by simp
    next
      case (Some w)
      then obtain v where v: "jm_get b k = Some v"
        using None pg(2) [of k] by (cases "jm_get b k") (simp_all add: patch_at_def)
      obtain r where r: "generate_value w v = Inr r" using pg(4) [OF Some v] by blast
      then have "r = None" using None pg(2) [of k] Some v by (simp add: patch_at_def)
      with val [OF Some v r] Some v same show ?thesis by (simp add: good_def)
    qed
  qed
  with r' show ?thesis by blast
qed

lemma safe_ids: "assert_ids xs = Inr u \<Longrightarrow> x \<in> set xs \<Longrightarrow> text_id x \<Longrightarrow> \<not> unsafe_key (id_key x)"
  by (induction xs) (auto simp: text_id_def id_key_def split: sum.splits json.splits if_splits)

lemma by_id_get: "jm_get (by_id xs) k = Some v \<Longrightarrow> v \<in> set xs \<and> id_key v = k"
  by (auto simp: by_id_def dest: map_of_SomeD)

lemma rekeyed:
  assumes "\<And>k. rel_option jeq (jm_get r k) (jm_get (by_id ys) k)" and "jm_wf r" and "list_all text_id ys"
  shows "objectToUnorderedArray r = Inr (map snd r)" and "by_id (map snd r) = r"
proof -
  have id: "id_of x = Inr (JStr k)" if "(k, x) \<in> set r" for k x
  proof -
    have "jm_get r k = Some x" using that assms(2) by (simp add: jm_wf_def)
    then have "rel_option jeq (Some x) (jm_get (by_id ys) k)" using assms(1) [of k] by simp
    then obtain y where y: "jm_get (by_id ys) k = Some y" "jeq x y" by (auto simp: option_rel_Some1)
    have t: "text_id y" "id_key y = k" using by_id_get [OF y(1)] assms(3) by (auto simp: list_all_iff)
    then show ?thesis using jeq_id [OF y(2) t(1)] by (auto simp: text_id_def id_key_def split: sum.splits json.splits)
  qed
  then show "objectToUnorderedArray r = Inr (map snd r)"
    by (auto simp: objectToUnorderedArray_def list_ex_iff text_equals_def)
  show "by_id (map snd r) = r"
    using id by (auto simp: by_id_def id_key_def comp_def intro!: map_idI)
qed

lemma array_good:
  assumes gen: "generatePatchUnorderedArray xs ys = Inr r" and cl: "clean (JArr xs)" "clean (JArr ys)"
    and val: "\<And>v w r. v \<in> set ys \<Longrightarrow> clean w \<Longrightarrow> clean v \<Longrightarrow> generate_value w v = Inr r \<Longrightarrow> good w v r"
  shows "good (JArr xs) (JArr ys) r"
proof (cases "every_has_id xs = Inr True \<and> every_has_id ys = Inr True")
  case False
  then have "r = Some (swapped (JArr ys))"
    using gen by (auto simp: generatePatchUnorderedArray.simps split: sum.splits bool.splits)
  then show ?thesis by (auto simp: good_def apply_swapped intro: jeq_refl)
next
  case True
  then have ids: "list_all text_id xs" "list_all text_id ys" "jm_wf (by_id xs)" "jm_wf (by_id ys)" using cl by auto
  obtain f t where ft: "unorderedArrayToObject xs = Inr f" "unorderedArrayToObject ys = Inr t"
    using gen True by (auto simp: generatePatchUnorderedArray.simps split: sum.splits bool.splits)
  have eqs: "f = by_id xs" "t = by_id ys" using unordered_by_id ft ids by auto
  obtain d where d: "generatePatchObj (by_id xs) (by_id ys) = Inr d"
    and r: "r = (if length d > 0 then Some (JObj [(MARK_ISARRAY, JObj d)]) else None)"
    using gen True ft eqs by (auto simp: generatePatchUnorderedArray.simps split: sum.splits bool.splits)
  have "assert_ids xs = Inr ()" using ft(1) by (auto simp: unorderedArrayToObject_def split: sum.splits)
  then have safe: "\<not> unsafe_key k" if "k \<in> set (jm_keys (by_id xs))" for k
    using that ids(1) safe_ids by (auto simp: by_id_def list_all_iff)
  have "\<exists>r'. applyPatch (JObj (by_id xs)) d = Inr (JObj r') \<and> jm_wf r' \<and>
    (\<forall>k. rel_option jeq (jm_get r' k) (jm_get (by_id ys) k))"
  proof (rule object_good [OF d ids(3,4) safe])
    show "clean v" if "jm_get (by_id ys) k = Some v" for k v using by_id_get [OF that] cl(2) by auto
    show "good w v r" if "jm_get (by_id xs) k = Some w" "jm_get (by_id ys) k = Some v" "generate_value w v = Inr r" for k v w r
      using by_id_get [OF that(1)] by_id_get [OF that(2)] cl val that(3) by auto
  qed
  then obtain r' where r': "applyPatch (JObj (by_id xs)) d = Inr (JObj r')" "jm_wf r'"
    "\<And>k. rel_option jeq (jm_get r' k) (jm_get (by_id ys) k)" by blast
  show ?thesis
  proof (cases "d = []")
    case True
    then have "r' = by_id xs" using r'(1) by simp
    then have "jeq (JArr xs) (JArr ys)" using r' ids by (intro jeq_arr) auto
    then show ?thesis using r True by (simp add: good_def)
  next
    case False
    note same = rekeyed [OF r'(3) r'(2) ids(2)]
    have "jeq (JArr (map snd r')) (JArr ys)" using r' ids same(2) by (intro jeq_arr) auto
    moreover have "apply_value ret k (JObj [(MARK_ISARRAY, JObj d)]) = Inr (Some (JArr (map snd r')))"
      if "has_prop ret k" "get_prop ret k = JArr xs" for ret k
      using that ft(1) eqs(1) r'(1) same(1) marks_apart
      by (simp add: apply_value.simps js_typeof_def jm_has_def js_field_def entries_of_def)
    ultimately show ?thesis using r False by (auto simp: good_def)
  qed
qed

lemma value_good:
  "clean w \<Longrightarrow> clean v \<Longrightarrow> generate_value w v = Inr r \<Longrightarrow> good w v r"
proof (induction v arbitrary: w r rule: measure_induct_rule [where f = json_weight])
  case (less v)
  note gen = less.prems(3)
  have swap: "good w v (Some (swapped v))" by (auto simp: good_def apply_swapped intro: jeq_refl)
  show ?case
  proof (cases "r = Some (swapped v) \<or> w = v \<and> r = None")
    case True
    then show ?thesis using swap by (auto simp: good_def intro: jeq_refl)
  next
    case False
    then have kinds: "js_typeof w = js_typeof v" "is_array w = is_array v" "w \<noteq> JNull" "v \<noteq> JNull"
      using gen by (auto simp: generate_value.simps split: if_splits)
    show ?thesis
    proof (cases v)
      case (JObj b)
      then obtain a where a: "w = JObj a" using kinds by (cases w) (auto simp: js_typeof_def is_array_def)
      obtain d where d: "generatePatchObj a b = Inr d" and r: "r = (if length d > 0 then Some (JObj d) else None)"
        using gen JObj a by (auto simp: generate_value.simps js_typeof_def is_array_def split: sum.splits)
      have wf: "jm_wf a" "jm_wf b" using less.prems a JObj by auto
      have sub: "clean y" if "jm_get c k = Some y" "clean (JObj c)" for c k y
        using that map_of_SomeD [OF that(1)] by auto
      have "\<exists>r'. applyPatch (JObj a) d = Inr (JObj r') \<and> jm_wf r' \<and> (\<forall>k. rel_option jeq (jm_get r' k) (jm_get b k))"
      proof (rule object_good [OF d wf])
        show "\<not> unsafe_key k" if "k \<in> set (jm_keys a)" for k using that less.prems(1) a by auto
        show "clean y" if "jm_get b k = Some y" for k y using sub that less.prems(2) JObj by auto
        show "good x y r" if xy: "jm_get a k = Some x" "jm_get b k = Some y" and g: "generate_value x y = Inr r" for k y x r
        proof (rule less.IH [OF _ _ _ g])
          show "json_weight y < json_weight v" using field_weight [OF xy(2)] JObj by (simp add: entries_weight_def [symmetric])
          show "clean x" using sub [OF xy(1)] less.prems(1) a by auto
          show "clean y" using sub [OF xy(2)] less.prems(2) JObj by auto
        qed
      qed
      then obtain r' where r': "applyPatch (JObj a) d = Inr (JObj r')" "jm_wf r'"
        "\<And>k. rel_option jeq (jm_get r' k) (jm_get b k)" by blast
      have eq: "jeq (JObj r') (JObj b)" using r' wf by (intro jeq_obj) auto
      show ?thesis
      proof (cases "d = []")
        case True
        then show ?thesis using r r'(1) eq a JObj by (simp add: good_def)
      next
        case False
        have keys: "\<not> jm_has d m" if "\<not> jm_has a m" "\<not> jm_has b m" for m
          using that patch_get(2) [OF d wf(2), of m] by (simp add: jm_has_def patch_at_def)
        have "\<not> jm_has d MARK_SWAPPED" "\<not> jm_has d MARK_ISARRAY"
          using keys clean_marks less.prems a JObj by auto
        then have "apply_value ret k (JObj d) = Inr (Some (JObj r'))" if "has_prop ret k" "get_prop ret k = w" for ret k
          using that r'(1) a by (simp add: apply_value.simps js_typeof_def entries_of_def)
        with eq r False JObj show ?thesis by (auto simp: good_def)
      qed
    next
      case (JArr ys)
      then obtain xs where xs: "w = JArr xs" using kinds by (cases w) (auto simp: js_typeof_def is_array_def)
      have g: "generatePatchUnorderedArray xs ys = Inr r"
        using gen JArr xs by (simp add: generate_value.simps js_typeof_def is_array_def)
      have "good (JArr xs) (JArr ys) r"
      proof (rule array_good [OF g])
        show "clean (JArr xs)" "clean (JArr ys)" using less.prems xs JArr by auto
        show "good y z r" if "z \<in> set ys" "clean y" "clean z" "generate_value y z = Inr r" for z y r
        proof (rule less.IH [OF _ that(2-4)])
          have "Suc (json_weight z) \<le> sum_list (map (\<lambda>x. Suc (json_weight x)) ys)"
            using that(1) by (intro member_le_sum_list) auto
          then show "json_weight z < json_weight v" using JArr by simp
        qed
      qed
      then show ?thesis using xs JArr by simp
    qed (use gen kinds less.prems(2) False in \<open>auto simp: generate_value.simps good_def apply_value.simps js_typeof_def is_array_def
        split: json.splits if_splits intro: jeq_refl\<close>)
  qed
qed

text \<open>
  C11. A patch says what changed: applied to the object it was generated from, the patch from one object to
  another gives the second one, up to the order of keys and the order of the items of arrays of items with
  ids. This covers added, deleted and replaced properties, nested objects and arrays of items with ids.
\<close>

theorem patch_roundtrip:
  assumes "generatePatchObj a b = Inr d" and "clean (JObj a)" and "clean (JObj b)"
  shows "\<exists>c. applyPatch (JObj a) d = Inr (JObj c) \<and> jeq (JObj c) (JObj b)"
proof -
  have wf: "jm_wf a" "jm_wf b" using assms(2,3) by auto
  have sub: "clean y" if "jm_get c k = Some y" "clean (JObj c)" for c k y
    using that map_of_SomeD [OF that(1)] by auto
  have "\<exists>r'. applyPatch (JObj a) d = Inr (JObj r') \<and> jm_wf r' \<and> (\<forall>k. rel_option jeq (jm_get r' k) (jm_get b k))"
  proof (rule object_good [OF assms(1) wf])
    show "\<not> unsafe_key k" if "k \<in> set (jm_keys a)" for k using that assms(2) by auto
    show "clean y" if "jm_get b k = Some y" for k y using sub that assms(3) by auto
    show "good x y r" if "jm_get a k = Some x" "jm_get b k = Some y" "generate_value x y = Inr r" for k y x r
      using value_good sub that assms(2,3) by blast
  qed
  then show ?thesis using wf by (blast intro: jeq_obj)
qed

lemma patch_roundtrip_witness:
  "\<exists>d c. generatePatchObj [(''x'', JNum 1), (''y'', JStr ''a''), (''l'', JArr [JObj [(''id'', JStr ''p''), (''v'', JNum 1)], JObj [(''id'', JStr ''q'')]])]
      [(''x'', JNum 2), (''l'', JArr [JObj [(''id'', JStr ''p''), (''v'', JNum 3)]]), (''z'', JNull)] = Inr d \<and> length d = 4 \<and>
    applyPatch (JObj [(''x'', JNum 1), (''y'', JStr ''a''), (''l'', JArr [JObj [(''id'', JStr ''p''), (''v'', JNum 1)], JObj [(''id'', JStr ''q'')]])]) d =
      Inr (JObj c) \<and>
    jeq (JObj c) (JObj [(''x'', JNum 2), (''l'', JArr [JObj [(''id'', JStr ''p''), (''v'', JNum 3)]]), (''z'', JNull)])"
proof -
  let ?a = "[(''x'', JNum 1), (''y'', JStr ''a''), (''l'', JArr [JObj [(''id'', JStr ''p''), (''v'', JNum 1)], JObj [(''id'', JStr ''q'')]])]"
  let ?b = "[(''x'', JNum 2), (''l'', JArr [JObj [(''id'', JStr ''p''), (''v'', JNum 3)]]), (''z'', JNull)]"
  have g: "generatePatchObj ?a ?b = Inr [(''x'', JNum 2),
    (''l'', JObj [(MARK_ISARRAY, JObj [(''p'', JObj [(''v'', JNum 3)]), (''q'', JStr MARK_DELETED)])]),
    (''z'', JNull), (''y'', JStr MARK_DELETED)]"
    by (simp add: generatePatchObj.simps generate_value.simps generatePatchUnorderedArray.simps js_typeof_def is_array_def
        unsafe_key_def FORBIDDEN_PATCH_KEYS_def unorderedArrayToObject_def id_of_def js_field_def jm_has_def)
  have "clean (JObj ?a)" "clean (JObj ?b)"
    by (simp_all add: jm_wf_def unsafe_key_def FORBIDDEN_PATCH_KEYS_def MARK_SWAPPED_def MARK_ISARRAY_def MARK_OPERATOR_def
        MARK_DELETED_def deletes_def text_equals_def int_of_text_def text_id_def id_of_def js_field_def by_id_def id_key_def)
  from patch_roundtrip [OF g this] g show ?thesis by auto
qed

end
