(* ===== verification/ConflictManager.thy ===== *)
theory ConflictManager
  imports SensibleMerge Patch
begin

text \<open>
  The rest of \<open>src/managers/ConflictManager.ts\<close>: loading the leaves of a conflict, their order, the merge of
  two JSON documents and the choice of what is done with a conflict. The entry manager, the database,
  \<open>JSON.parse\<close> and \<open>JSON.stringify\<close> are parameters.
\<close>

section \<open>Leaves\<close>

datatype stored_data = OneText string | Pieces "string list"

record loaded_entry =
  le_deleted :: "bool option"
  le_pouch_deleted :: "bool option"
  le_datatype :: string
  le_data :: stored_data
  le_ctime :: "int option"
  le_mtime :: "int option"

fun getDocData :: "stored_data \<Rightarrow> string" where
  "getDocData (OneText s) = s"
| "getDocData (Pieces ss) = concat ss"

text \<open>
  What \<open>getDBEntry\<close> answers for a revision: an exception (\<open>Inl\<close>, with its status), no entry, or the entry.
  \<open>decode\<close> is \<open>readString\<close> of \<open>decodeBinary\<close>. Either kind of exception is answered with \<open>false\<close>.
\<close>

definition getConflictedDoc ::
  "(stored_data \<Rightarrow> string) \<Rightarrow> (string \<Rightarrow> int + loaded_entry option) \<Rightarrow> string \<Rightarrow> result_leaf option" where
  "getConflictedDoc decode getDBEntry rv =
     (case getDBEntry rv of
        Inl status \<Rightarrow> None
      | Inr None \<Rightarrow> None
      | Inr (Some doc) \<Rightarrow>
          (let data = (if le_datatype doc = ''newnote'' then decode (le_data doc) else getDocData (le_data doc))
           in Some \<lparr>rl_rev = rv, rl_data = data,
                rl_deleted = (if le_deleted doc = Some True then Some True else le_pouch_deleted doc),
                rl_ctime = le_ctime doc, rl_mtime = le_mtime doc\<rparr>))"

section \<open>The order of the conflicts\<close>

type_synonym candidate = "string \<times> result_leaf option"

text \<open>\<open>s.split("-", 1)[0]\<close>\<close>

definition before_dash :: "string \<Rightarrow> string" where
  "before_dash s = takeWhile (\<lambda>c. c \<noteq> CHR ''-'') s"

definition revisionGeneration :: "string \<Rightarrow> int" where
  "revisionGeneration revision = (case int_of_text (before_dash revision) of Some n \<Rightarrow> n | None \<Rightarrow> 2 ^ 53 - 1)"

text \<open>\<open>None\<close> is \<open>-Infinity\<close>.\<close>

definition leaf_mtime :: "candidate \<Rightarrow> int option" where
  "leaf_mtime c = (case snd c of None \<Rightarrow> None | Some l \<Rightarrow> rl_mtime l)"

text \<open>
  The sign of the answer. Two missing times differ by \<open>NaN\<close>, which is not \<open>0\<close>: it is returned, and a sort
  takes it for \<open>0\<close>.
\<close>

definition compareConflictCandidates :: "candidate \<Rightarrow> candidate \<Rightarrow> int" where
  "compareConflictCandidates left right =
     (let generationDifference = revisionGeneration (fst left) - revisionGeneration (fst right) in
      if generationDifference \<noteq> 0 then generationDifference
      else (case (leaf_mtime left, leaf_mtime right) of
              (None, None) \<Rightarrow> 0
            | (None, Some _) \<Rightarrow> -1
            | (Some _, None) \<Rightarrow> 1
            | (Some leftMtime, Some rightMtime) \<Rightarrow>
                if leftMtime - rightMtime \<noteq> 0 then leftMtime - rightMtime
                else if fst left < fst right then -1
                else if fst right < fst left then 1
                else 0))"

section \<open>Merging JSON documents\<close>

definition nullish :: "json \<Rightarrow> bool" where
  "nullish v \<longleftrightarrow> v = JNull \<or> v = JUndef"

definition to_number :: "json \<Rightarrow> json" where
  "to_number v =
     (case v of
        JBool b \<Rightarrow> JNum (if b then 1 else 0)
      | JStr s \<Rightarrow> (case int_of_text s of Some n \<Rightarrow> JNum n | None \<Rightarrow> JFloat s)
      | _ \<Rightarrow> v)"

text \<open>\<open>a == b\<close> for values that are not objects.\<close>

definition loosely_equal :: "json \<Rightarrow> json \<Rightarrow> bool" where
  "loosely_equal a b =
     (if nullish a \<or> nullish b then nullish a \<and> nullish b
      else (case (a, b) of (JStr s, JStr t) \<Rightarrow> s = t | _ \<Rightarrow> to_number a = to_number b))"

text \<open>\<open>new Map(entries)\<close>\<close>

definition new_map :: "(string \<times> json) list \<Rightarrow> (string \<times> json) list" where
  "new_map es = foldl (\<lambda>m e. jm_set (fst e) (snd e) m) [] es"

definition drop_same :: "(string \<times> json) list \<Rightarrow> (string \<times> json) list \<Rightarrow> (string \<times> json) list" where
  "drop_same left right =
     foldl (\<lambda>r e. case jm_get r (fst e) of
         None \<Rightarrow> r
       | Some v \<Rightarrow> if loosely_equal v (snd e) then jm_delete (fst e) r else r) right left"

definition conflicted_key :: "(string \<times> json) list \<Rightarrow> (string \<times> json) list \<Rightarrow> bool" where
  "conflicted_key left right =
     list_ex (\<lambda>e. case jm_get left (fst e) of None \<Rightarrow> False | Some v \<Rightarrow> \<not> loosely_equal v (snd e)) right"

definition tryParseJSON :: "(string \<Rightarrow> json option) \<Rightarrow> string \<Rightarrow> json \<Rightarrow> json" where
  "tryParseJSON parse str fallbackValue = (case parse str of Some v \<Rightarrow> v | None \<Rightarrow> fallbackValue)"

text \<open>\<open>[l, r].sort((a, b) => a.mtime - b.mtime)\<close>\<close>

definition by_mtime :: "int option \<times> 'a \<Rightarrow> int option \<times> 'a \<Rightarrow> 'a list" where
  "by_mtime l r =
     (case (fst l, fst r) of
        (Some a, Some b) \<Rightarrow> if a - b > 0 then [snd r, snd l] else [snd l, snd r]
      | _ \<Rightarrow> [snd l, snd r])"

fun apply_patches :: "json \<Rightarrow> (string \<times> json) list list \<Rightarrow> patch_error + json" where
  "apply_patches newObj [] = Inr newObj"
| "apply_patches newObj (patch # patches) =
     (case applyPatch newObj patch of Inl e \<Rightarrow> Inl e | Inr newObj' \<Rightarrow> apply_patches newObj' patches)"

text \<open>
  \<open>None\<close> is \<open>false\<close>; every exception of the body is caught and answered with it. \<open>JSON.stringify(undefined)\<close>
  is \<open>undefined\<close>, which the caller takes for \<open>false\<close> too.
\<close>

definition merge_values :: "(json \<Rightarrow> string) \<Rightarrow> json \<Rightarrow> int option \<times> json \<Rightarrow> int option \<times> json \<Rightarrow> string option" where
  "merge_values stringify base left right =
     (let baseObj = [(''data'', base)] in
      case (generatePatchObj baseObj [(''data'', snd left)], generatePatchObj baseObj [(''data'', snd right)]) of
        (Inr diffLeft, Inr diffRight) \<Rightarrow>
          (let diffSetLeft = new_map (flattenObject stringify [] (JObj diffLeft));
               diffSetRight = drop_same diffSetLeft (new_map (flattenObject stringify [] (JObj diffRight)))
           in if conflicted_key diffSetLeft diffSetRight then None
              else (case apply_patches (JObj baseObj) (by_mtime (fst left, diffLeft) (fst right, diffRight)) of
                      Inl e \<Rightarrow> None
                    | Inr newObj \<Rightarrow> (case get_prop newObj ''data'' of JUndef \<Rightarrow> None | v \<Rightarrow> Some (stringify v))))
      | _ \<Rightarrow> None)"

definition manager_mergeObject :: "(string \<Rightarrow> json option) \<Rightarrow> (json \<Rightarrow> string) \<Rightarrow> (string \<Rightarrow> result_leaf option) \<Rightarrow>
    string \<Rightarrow> string \<Rightarrow> string \<Rightarrow> string option" where
  "manager_mergeObject parse stringify getLeaf baseRev currentRev conflictedRev =
     (case (getLeaf baseRev, getLeaf currentRev, getLeaf conflictedRev) of
        (Some baseLeaf, Some leftLeaf, Some rightLeaf) \<Rightarrow>
          if is_deleted leftLeaf \<or> is_deleted rightLeaf then None
          else merge_values stringify (tryParseJSON parse (rl_data baseLeaf) (JObj []))
                 (rl_mtime leftLeaf, tryParseJSON parse (rl_data leftLeaf) (JObj []))
                 (rl_mtime rightLeaf, tryParseJSON parse (rl_data rightLeaf) (JObj []))
      | _ \<Rightarrow> None)"

section \<open>Choosing what to do\<close>

text \<open>A branch as the database returns it; its revisions with their status, if any are listed.\<close>

record branch =
  br_ctime :: "int option"
  br_mtime :: "int option"
  br_revs_info :: "(string \<times> string) list option"

definition entryTimes :: "branch \<Rightarrow> int \<times> int" where
  "entryTimes doc = ((case br_ctime doc of Some t \<Rightarrow> t | None \<Rightarrow> 0), (case br_mtime doc of Some t \<Rightarrow> t | None \<Rightarrow> 0))"

record revision_target =
  rt_revision :: string
  rt_ctime :: int
  rt_mtime :: int

definition available :: "branch \<Rightarrow> string list" where
  "available b = map fst (filter (\<lambda>r. snd r = ''available'') (case br_revs_info b of Some rs \<Rightarrow> rs | None \<Rightarrow> []))"

text \<open>\<open>Number(rev.split("-")[0])\<close>; \<open>NaN\<close> compares as equal.\<close>

definition compare_revs :: "string \<Rightarrow> string \<Rightarrow> int" where
  "compare_revs left right =
     (case (int_of_text (before_dash right), int_of_text (before_dash left)) of (Some r, Some l) \<Rightarrow> r - l | _ \<Rightarrow> 0)"

definition common_base :: "branch \<Rightarrow> branch \<Rightarrow> string" where
  "common_base currentBranch conflictedBranch =
     (case sort_with compare_revs (filter (\<lambda>r. r \<in> set (available currentBranch)) (available conflictedBranch)) of
        [] \<Rightarrow> []
      | r # _ \<Rightarrow> r)"

record automerge_env =
  am_leaf :: "string \<Rightarrow> result_leaf option"
  am_branch :: "string \<Rightarrow> branch option"
  am_diff :: "string \<Rightarrow> string \<Rightarrow> diff list"
  am_parse :: "string \<Rightarrow> json option"
  am_stringify :: "json \<Rightarrow> string"

text \<open>\<open>None\<close> of \<open>am_branch\<close>: the database throws.\<close>

definition merged_content :: "automerge_env \<Rightarrow> string \<Rightarrow> bool \<Rightarrow> string \<Rightarrow> string \<Rightarrow> string \<Rightarrow> string option" where
  "merged_content env path preserveConcurrentInserts commonBase currentRev conflictedRev =
     (if isSensibleMargeApplicable path then
        map_option merged_text
          (mergeSensibly (am_diff env) (am_leaf env) commonBase currentRev conflictedRev preserveConcurrentInserts)
      else if isObjectMargeApplicable path then
        (case manager_mergeObject (am_parse env) (am_stringify env) (am_leaf env) commonBase currentRev conflictedRev of
           Some result \<Rightarrow> if result = [] then None else Some result
         | None \<Rightarrow> None)
      else None)"

definition tryAutoMergeSensibly :: "automerge_env \<Rightarrow> string \<Rightarrow> string \<Rightarrow> string list \<Rightarrow> bool \<Rightarrow>
    (string \<times> string \<times> revision_target) option" where
  "tryAutoMergeSensibly env path currentRev conflicts preserveConcurrentInserts =
     (let conflictedRev = hd conflicts in
      case (am_branch env currentRev, am_branch env conflictedRev) of
        (Some currentBranch, Some conflictedBranch) \<Rightarrow>
          (let current = entryTimes currentBranch; conflicted = entryTimes conflictedBranch;
               mergedOn = \<lparr>rt_revision = currentRev, rt_ctime = max (fst current) (fst conflicted),
                 rt_mtime = max (snd current) (snd conflicted)\<rparr>;
               commonBase = common_base currentBranch conflictedBranch
           in if commonBase \<noteq> []
              then map_option (\<lambda>p. (p, conflictedRev, mergedOn))
                     (merged_content env path preserveConcurrentInserts commonBase currentRev conflictedRev)
              else None)
      | _ \<Rightarrow> None)"

datatype merge_outcome =
  MISSING_OR_ERROR
| NOT_CONFLICTED
| AutoMerged string string revision_target
| UserActionRequired string string "result_leaf option" "result_leaf option"

text \<open>The document read for the path: its revision and its conflicts, if they are listed.\<close>

definition tryAutoMerge :: "automerge_env \<Rightarrow> string \<Rightarrow> (string \<times> string list option) option \<Rightarrow> bool \<Rightarrow> bool \<Rightarrow> merge_outcome" where
  "tryAutoMerge env path test enableMarkdownAutoMerge preserveConcurrentInserts =
     (case test of
        None \<Rightarrow> MISSING_OR_ERROR
      | Some (_, None) \<Rightarrow> NOT_CONFLICTED
      | Some (testRev, Some revs) \<Rightarrow>
          if revs = [] then NOT_CONFLICTED
          else
            (let conflictCandidates = sort_with compareConflictCandidates (map (\<lambda>revision. (revision, am_leaf env revision)) revs);
                 conflicts = map fst conflictCandidates;
                 leftLeaf = am_leaf env testRev;
                 rightLeaf = snd (hd conflictCandidates);
                 ask = UserActionRequired testRev (hd conflicts) leftLeaf rightLeaf
             in case (leftLeaf, rightLeaf) of
                  (Some l, Some r) \<Rightarrow>
                    if rl_data l = rl_data r \<and> rl_deleted l = rl_deleted r then ask
                    else if (isSensibleMargeApplicable path \<or> isObjectMargeApplicable path) \<and> enableMarkdownAutoMerge then
                      (case tryAutoMergeSensibly env path testRev conflicts preserveConcurrentInserts of
                         Some (p, c, m) \<Rightarrow> AutoMerged p c m
                       | None \<Rightarrow> ask)
                    else ask
                | _ \<Rightarrow>
                    if (isSensibleMargeApplicable path \<or> isObjectMargeApplicable path) \<and> enableMarkdownAutoMerge then
                      (case tryAutoMergeSensibly env path testRev conflicts preserveConcurrentInserts of
                         Some (p, c, m) \<Rightarrow> AutoMerged p c m
                       | None \<Rightarrow> ask)
                    else ask))"

section \<open>Sorting with a comparison\<close>

locale comparison =
  fixes cmp :: "'a \<Rightarrow> 'a \<Rightarrow> int"
  assumes either_way: "cmp x y \<le> 0 \<or> cmp y x \<le> 0"
    and chain: "cmp x y \<le> 0 \<Longrightarrow> cmp y z \<le> 0 \<Longrightarrow> cmp x z \<le> 0"
begin

lemma insert_mset: "mset (insert_by cmp x xs) = add_mset x (mset xs)"
  by (induction xs) auto

lemma sort_mset: "mset (sort_with cmp xs) = mset xs"
  by (induction xs) (simp_all add: sort_with_def insert_mset)

lemma sort_set: "set (sort_with cmp xs) = set xs"
  using sort_mset [of xs] by (metis set_mset_mset)

lemma insert_set: "set (insert_by cmp x xs) = insert x (set xs)"
  using insert_mset [of x xs] by (metis set_mset_add_mset_insert set_mset_mset)

lemma insert_sorted:
  "sorted_wrt (\<lambda>a b. cmp a b \<le> 0) xs \<Longrightarrow> sorted_wrt (\<lambda>a b. cmp a b \<le> 0) (insert_by cmp x xs)"
proof (induction xs)
  case (Cons y ys)
  then show ?case using either_way [of x y] chain [of x y] by (auto simp: insert_set)
qed simp

lemma sort_sorted: "sorted_wrt (\<lambda>a b. cmp a b \<le> 0) (sort_with cmp xs)"
  by (induction xs) (simp_all add: sort_with_def insert_sorted)

lemma sort_least: "xs \<noteq> [] \<Longrightarrow> hd (sort_with cmp xs) \<in> set xs \<and> (\<forall>y\<in>set xs. cmp (hd (sort_with cmp xs)) y \<le> 0)"
proof (cases "sort_with cmp xs")
  case (Cons a list)
  have "cmp a a \<le> 0" using either_way [of a a] by simp
  moreover have "set xs = insert a (set list)" using sort_set [of xs] Cons by simp
  ultimately show ?thesis using sort_sorted [of xs] Cons by auto
qed (use sort_set [of xs] in simp)

lemma sorted_unique:
  assumes "sorted_wrt (\<lambda>a b. cmp a b \<le> 0) xs" and "sorted_wrt (\<lambda>a b. cmp a b \<le> 0) ys" and "mset xs = mset ys"
    and "\<And>x y. x \<in> set xs \<Longrightarrow> y \<in> set xs \<Longrightarrow> cmp x y \<le> 0 \<Longrightarrow> cmp y x \<le> 0 \<Longrightarrow> x = y"
  shows "xs = ys"
  using assms
proof (induction xs arbitrary: ys)
  case (Cons x xs)
  then obtain y ys' where ys: "ys = y # ys'" by (cases ys) auto
  have sets: "insert x (set xs) = insert y (set ys')"
    using Cons.prems(3) ys by (metis list.simps(15) set_mset_mset)
  have "x = y"
  proof (rule ccontr)
    assume ne: "x \<noteq> y"
    then have "y \<in> set xs" "x \<in> set ys'" using sets by auto
    with ne Cons.prems ys show False by auto
  qed
  with Cons.prems ys have "mset xs = mset ys'" by simp
  with Cons.IH [of ys'] Cons.prems ys \<open>x = y\<close> show ?case by simp
qed simp

lemma sort_unique:
  assumes "mset xs = mset ys"
    and "\<And>x y. x \<in> set xs \<Longrightarrow> y \<in> set xs \<Longrightarrow> cmp x y \<le> 0 \<Longrightarrow> cmp y x \<le> 0 \<Longrightarrow> x = y"
  shows "sort_with cmp xs = sort_with cmp ys"
  by (rule sorted_unique [OF sort_sorted sort_sorted]) (auto simp: sort_mset sort_set assms)

end

interpretation candidates: comparison compareConflictCandidates
proof
  fix x y z :: candidate
  show "compareConflictCandidates x y \<le> 0 \<or> compareConflictCandidates y x \<le> 0"
    by (auto simp: compareConflictCandidates_def split: option.split)
  show "compareConflictCandidates x z \<le> 0" if "compareConflictCandidates x y \<le> 0" "compareConflictCandidates y z \<le> 0"
    using that by (auto simp: compareConflictCandidates_def Let_def split: option.splits if_splits)
qed

lemma candidates_tie:
  assumes "compareConflictCandidates x y \<le> 0" and "compareConflictCandidates y x \<le> 0"
  shows "revisionGeneration (fst x) = revisionGeneration (fst y) \<and> leaf_mtime x = leaf_mtime y \<and>
    (leaf_mtime x \<noteq> None \<longrightarrow> fst x = fst y)"
  using assms by (auto simp: compareConflictCandidates_def Let_def split: option.splits if_splits)

section \<open>Symmetry of the merges\<close>

lemma merge_loop_swap: "merge_loop p lf ls rs m = merge_loop p (\<not> lf) rs ls m"
proof (induction "length ls + length rs" arbitrary: ls rs m rule: less_induct)
  case less
  obtain a t b u where it: "item_at ls = (a, t)" "item_at rs = (b, u)" by (metis surj_pair)
  note unf = merge_loop.simps [of p lf ls rs] merge_loop.simps [of p "\<not> lf" rs ls]
  show ?case
  proof (cases "ls = [] \<and> rs = []")
    case False
    have both: "merge_loop p lf (tl ls) (tl rs) M = merge_loop p (\<not> lf) (tl rs) (tl ls) M" for M
      using less [of "tl ls" "tl rs"] False by (cases ls; cases rs) auto
    have left: "merge_loop p lf (tl ls) rs M = merge_loop p (\<not> lf) rs (tl ls) M" if "a = DIFF_INSERT" for M
      using less [of "tl ls" rs] that it by (cases ls) (auto simp: item_at_def)
    have right: "merge_loop p lf ls (tl rs) M = merge_loop p (\<not> lf) (tl rs) ls M" if "b = DIFF_INSERT" for M
      using less [of ls "tl rs"] that it by (cases rs) (auto simp: item_at_def)
    have ne: "(ls = [] \<and> rs = []) = False" "(rs = [] \<and> ls = []) = False" using False by auto
    show ?thesis
      by (cases a; cases b; cases "t = u") (auto simp only: unf ne it fst_conv snd_conv Let_def both left right if_False
          if_True simp_thms diff_op.distinct HOL.refl split: if_split)
  qed (simp add: merge_loop.simps)
qed

definition times_differ :: "result_leaf option \<Rightarrow> result_leaf option \<Rightarrow> bool" where
  "times_differ x y \<longleftrightarrow>
     (case (x, y) of
        (Some l, Some r) \<Rightarrow> (case (rl_mtime l, rl_mtime r) of (Some a, Some b) \<Rightarrow> a \<noteq> b | _ \<Rightarrow> False)
      | _ \<Rightarrow> True)"

lemma mergeSensibly_swap:
  assumes "times_differ (getLeaf l) (getLeaf r)"
  shows "mergeSensibly dl getLeaf b l r p = mergeSensibly dl getLeaf b r l p"
proof -
  have "mtime_le (rl_mtime x) (rl_mtime y) = (\<not> mtime_le (rl_mtime y) (rl_mtime x))"
    if "getLeaf l = Some x" "getLeaf r = Some y" for x y
    using that assms by (auto simp: times_differ_def mtime_le_def split: option.splits)
  then show ?thesis
    by (auto simp: mergeSensibly_def split: option.split) (metis merge_loop_swap)+
qed

lemma new_map_wf: "jm_wf (new_map es)"
proof -
  have "jm_wf m \<Longrightarrow> jm_wf (foldl (\<lambda>m e. jm_set (fst e) (snd e) m) m es)" for m :: "(string \<times> json) list"
    by (induction es arbitrary: m) auto
  then show ?thesis by (simp add: new_map_def)
qed

lemma drop_same_get:
  assumes "jm_wf left"
  shows "jm_get (drop_same left right) k =
    (case (jm_get right k, jm_get left k) of
       (Some v, Some w) \<Rightarrow> if loosely_equal v w then None else Some v
     | (v, _) \<Rightarrow> v)"
  using assms unfolding drop_same_def
proof (induction left arbitrary: right k)
  case (Cons e left)
  have e: "jm_get left (fst e) = None" "jm_wf left" using Cons.prems by (auto simp: jm_wf_def map_of_eq_None_iff)
  show ?case using e by (cases "k = fst e") (auto simp: Cons.IH [OF e(2)] split: option.splits)
qed (auto split: option.split)

lemma drop_same_wf: "jm_wf right \<Longrightarrow> jm_wf (drop_same left right)"
  unfolding drop_same_def by (induction left arbitrary: right) (auto split: option.split)

lemma loosely_equal_sym: "loosely_equal a b = loosely_equal b a"
  by (auto simp: loosely_equal_def eq_commute split: json.split)

lemma conflicted_iff:
  assumes "jm_wf left" and "jm_wf right"
  shows "conflicted_key left (drop_same left right) \<longleftrightarrow>
    (\<exists>k v w. jm_get left k = Some w \<and> jm_get right k = Some v \<and> \<not> loosely_equal v w)"
proof -
  let ?d = "drop_same left right"
  have mem: "(k, v) \<in> set ?d \<longleftrightarrow> jm_get ?d k = Some v" for k v
    using drop_same_wf [OF assms(2), of left] by (simp add: jm_wf_def)
  have test: "(case x of None \<Rightarrow> False | Some w \<Rightarrow> P w) \<longleftrightarrow> (\<exists>w. x = Some w \<and> P w)" for x :: "json option" and P
    by (cases x) auto
  have "conflicted_key left ?d \<longleftrightarrow> (\<exists>k v. (k, v) \<in> set ?d \<and> (\<exists>w. jm_get left k = Some w \<and> \<not> loosely_equal w v))"
    by (simp only: conflicted_key_def list_ex_iff test Bex_def split_paired_Ex fst_conv snd_conv)
  also have "\<dots> \<longleftrightarrow> (\<exists>k v w. jm_get ?d k = Some v \<and> jm_get left k = Some w \<and> \<not> loosely_equal v w)"
    by (simp add: mem loosely_equal_sym)
  also have "\<dots> \<longleftrightarrow> (\<exists>k v w. jm_get left k = Some w \<and> jm_get right k = Some v \<and> \<not> loosely_equal v w)"
    by (rule ex_cong1)+ (auto simp: drop_same_get [OF assms(1)] split: option.splits if_splits)
  finally show ?thesis .
qed

lemma merge_values_swap:
  assumes "fst left = Some a" and "fst right = Some b" and "a \<noteq> b"
  shows "merge_values stringify base left right = merge_values stringify base right left"
proof -
  have sym: "conflicted_key (new_map x) (drop_same (new_map x) (new_map y)) =
    conflicted_key (new_map y) (drop_same (new_map y) (new_map x))" for x y
    by (auto simp: conflicted_iff new_map_wf) (metis loosely_equal_sym)+
  have ord: "by_mtime (fst left, x) (fst right, y) = by_mtime (fst right, y) (fst left, x)" for x y :: "(string \<times> json) list"
    using assms by (simp add: by_mtime_def)
  let ?gen = "\<lambda>v. generatePatchObj [(''data'', base)] [(''data'', v)]"
  show ?thesis
  proof (cases "?gen (snd left)"; cases "?gen (snd right)")
    fix dl dr
    assume "?gen (snd left) = Inr dl" and "?gen (snd right) = Inr dr"
    then show ?thesis
      using sym [of "flattenObject stringify [] (JObj dl)" "flattenObject stringify [] (JObj dr)"] ord [of dl dr]
      by (simp only: merge_values_def Let_def prod.case sum.case)
  qed (simp_all add: merge_values_def)
qed

lemma manager_mergeObject_swap:
  assumes "times_differ (getLeaf l) (getLeaf r)"
  shows "manager_mergeObject parse stringify getLeaf b l r = manager_mergeObject parse stringify getLeaf b r l"
proof (cases "getLeaf l"; cases "getLeaf r"; cases "getLeaf b")
  fix x y z
  assume l: "getLeaf l = Some x" "getLeaf r = Some y" "getLeaf b = Some z"
  with assms obtain m n where "rl_mtime x = Some m" "rl_mtime y = Some n" "m \<noteq> n"
    by (auto simp: times_differ_def split: option.splits)
  then show ?thesis
    using l merge_values_swap [of "(rl_mtime x, v)" m "(rl_mtime y, w)" n for v w]
    by (auto simp: manager_mergeObject_def)
qed (simp_all add: manager_mergeObject_def)

text \<open>
  It does not matter which leaf of a conflict is the current one: when the two were modified at
  different times, merging the one into the other gives the same content, for line merges and for JSON
  documents. Two devices that meet the same conflict therefore store the same merge.
\<close>

theorem merged_content_symmetric:
  assumes "times_differ (am_leaf env l) (am_leaf env r)"
  shows "merged_content env path pres base l r = merged_content env path pres base r l"
  by (simp add: merged_content_def mergeSensibly_swap [OF assms] manager_mergeObject_swap [OF assms])

section \<open>The order of the conflicts and the outcome\<close>

definition untimed :: "automerge_env \<Rightarrow> string \<Rightarrow> bool" where
  "untimed env rv \<longleftrightarrow> leaf_mtime (rv, am_leaf env rv) = None"

lemma tryAutoMerge_sorted:
  assumes "sort_with compareConflictCandidates (map (\<lambda>r. (r, am_leaf env r)) revs) =
      sort_with compareConflictCandidates (map (\<lambda>r. (r, am_leaf env r)) revs')"
    and "revs = [] \<longleftrightarrow> revs' = []"
  shows "tryAutoMerge env path (Some (rv, Some revs)) e p = tryAutoMerge env path (Some (rv, Some revs')) e p"
  using assms(2) unfolding tryAutoMerge_def by (simp only: option.case prod.case assms(1) Let_def)



section \<open>Examples\<close>

definition sample_branch :: "string \<Rightarrow> branch option" where
  "sample_branch rv =
     (if rv = ''2-l'' then Some \<lparr>br_ctime = Some 1, br_mtime = Some 2,
        br_revs_info = Some [(''2-l'', ''available''), (''1-0'', ''available'')]\<rparr>
      else if rv = ''2-r'' then Some \<lparr>br_ctime = Some 1, br_mtime = Some 3,
        br_revs_info = Some [(''2-r'', ''available''), (''1-0'', ''available'')]\<rparr>
      else None)"

definition sample_env :: automerge_env where
  "sample_env = \<lparr>am_leaf = sample_leaves, am_branch = sample_branch, am_diff = sample_diff,
     am_parse = \<lambda>s. None, am_stringify = \<lambda>v. []\<rparr>"

lemmas sample_simps = sample_env_def sample_leaves_def sample_leaf_def sample_diff_def sample_branch_def is_deleted_def
  mergeSensibly_def merge_loop.simps merged_content_def isSensibleMargeApplicable_def merged_text_def mtime_le_def
  ends_with_def

lemma merged_content_symmetric_witness:
  "merged_content sample_env ''a.md'' True ''1-0'' ''2-l'' ''2-r'' = merged_content sample_env ''a.md'' True ''1-0'' ''2-r'' ''2-l'' \<and>
   merged_content sample_env ''a.md'' True ''1-0'' ''2-l'' ''2-r'' \<noteq> None"
proof -
  have "times_differ (am_leaf sample_env ''2-l'') (am_leaf sample_env ''2-r'')"
    by (simp add: times_differ_def sample_simps)
  note same = merged_content_symmetric [OF this, of "''a.md''" True "''1-0''"]
  have "merged_content sample_env ''a.md'' True ''1-0'' ''2-l'' ''2-r'' \<noteq> None"
    by (simp add: sample_simps)
  with same show ?thesis by blast
qed



text \<open>
  Two conflicts of one generation whose leaves cannot be loaded keep the order of the database, whatever
  their revisions: the comparison answers \<open>NaN\<close> before it reaches the revisions.
\<close>

lemma missing_time_enumeration_order:
  "sort_with compareConflictCandidates [(''3-b'', None), (''3-a'', None)] = [(''3-b'', None), (''3-a'', None)]"
  "sort_with compareConflictCandidates [(''3-a'', None), (''3-b'', None)] = [(''3-a'', None), (''3-b'', None)]"
  by (simp_all add: sort_with_def compareConflictCandidates_def leaf_mtime_def revisionGeneration_def before_dash_def)

text \<open>
  A plain array that only one side changed is a conflict: the patch of an array whose items have no ids
  always replaces it, so that the other side seems to set the old items again.
\<close>

definition show_array :: "json \<Rightarrow> string" where
  "show_array v = (case v of JArr [] \<Rightarrow> ''[]'' | _ \<Rightarrow> ''[1]'')"

lemma plain_array_change_conflicts:
  "merge_values show_array (JObj [(''l'', JArr [JNull])])
     (Some 1, JObj [(''l'', JArr [])]) (Some 2, JObj [(''l'', JArr [JNull])]) = None"
  "merge_values show_array (JObj [(''l'', JArr [JNum 1])])
     (Some 1, JObj [(''l'', JArr [])]) (Some 2, JObj [(''l'', JArr [JNum 1])]) = None"
  by (simp_all add: merge_values_def generatePatchObj.simps generate_value.simps generatePatchUnorderedArray.simps js_typeof_def
      is_array_def unsafe_key_def FORBIDDEN_PATCH_KEYS_def swapped_def new_map_def drop_same_def conflicted_key_def
      loosely_equal_def nullish_def show_array_def)

end
