(* ===== verification/StorageEvents.thy ===== *)
theory StorageEvents
  imports Paths "HOL-Library.Multiset"
begin

text \<open>
  \<open>src/managers/StorageEventManager.ts\<close>: which storage events are queued (\<open>appendQueue\<close>), and the queue
  itself as a transition system: the buffer, the batch waiting of each path with its timer, the running
  \<open>processFileEvent\<close> and \<open>runQueuedEvents\<close> calls, each cut at its \<open>await\<close>s, and the snapshot that survives
  a restart. When a semaphore, a lock, a timer or the storage answers is up to the environment: each answer
  is an event of the system, in any order. Log lines and the status display are left out.
\<close>

section \<open>Events\<close>

datatype event_type = CREATE | DELETE | CHANGED | RENAME | INTERNAL

text \<open>\<open>fi_size\<close> is \<open>stat.size\<close>, \<open>None\<close> without a \<open>stat\<close>; \<open>fi_mtime\<close> is \<open>stat.mtime\<close> when there is one.\<close>

record file_info =
  fi_path :: string
  fi_name :: string
  fi_size :: "nat option"
  fi_mtime :: int
  fi_internal :: bool
  fi_deleted :: bool

record file_event =
  fe_type :: event_type
  fe_file :: file_info
  fe_oldPath :: "string option"
  fe_cachedData :: "string option"
  fe_skipBatchWait :: bool
  fe_revalidate :: bool

record event_item =
  ei_type :: event_type
  ei_file :: file_info
  ei_oldPath :: "string option"
  ei_cache :: "string option"
  ei_key :: nat
  ei_restored :: bool
  ei_skipBatchWait :: bool
  ei_cancelled :: bool

abbreviation ei_path :: "event_item \<Rightarrow> string" where
  "ei_path e \<equiv> fi_path (ei_file e)"

definition LARGE_FILE_BYTES :: nat where "LARGE_FILE_BYTES = 50 * 1024 * 1024"

definition isLargeFileEvent :: "event_item \<Rightarrow> bool" where
  "isLargeFileEvent fei \<longleftrightarrow> LARGE_FILE_BYTES \<le> (case fi_size (ei_file fei) of Some n \<Rightarrow> n | None \<Rightarrow> 0)"

section \<open>Which events are queued\<close>

record em_settings =
  es_isConfigured :: bool
  es_suspendFileWatching :: bool
  es_maxMTimeForReflectEvents :: "int option"
  es_syncInternalFiles :: bool
  es_batchSave :: bool
  es_liveSync :: bool
  es_batchSaveMinimumDelay :: int
  es_batchSaveMaximumDelay :: int

definition isRemediationModeActive :: "em_settings \<Rightarrow> bool" where
  "isRemediationModeActive settings \<longleftrightarrow> (case es_maxMTimeForReflectEvents settings of Some n \<Rightarrow> n | None \<Rightarrow> 0) > 0"

definition shouldBatchSave :: "em_settings \<Rightarrow> bool" where
  "shouldBatchSave settings \<longleftrightarrow> es_batchSave settings \<and> \<not> es_liveSync settings"

text \<open>The type guards, the vault and the storage access that \<open>appendQueue\<close> asks.\<close>

record admit_env =
  ae_isFolder :: "file_info \<Rightarrow> bool"
  ae_isFile :: "file_info \<Rightarrow> bool"
  ae_isTargetFile :: "string \<Rightarrow> bool"
  ae_tooLarge :: "nat \<Rightarrow> bool"
  ae_recentlyTouched :: "file_info \<Rightarrow> bool"

definition isTargetPath :: "admit_env \<Rightarrow> em_settings \<Rightarrow> string \<Rightarrow> bool" where
  "isTargetPath env settings path \<longleftrightarrow>
     (if shouldBeIgnored path then False
      else if \<not> es_syncInternalFiles settings \<and> starts_with path ''.'' then False
      else ae_isTargetFile env path)"

text \<open>What becomes of a rename: \<open>None\<close> when it is skipped.\<close>

definition admit_rename :: "admit_env \<Rightarrow> em_settings \<Rightarrow> file_info \<Rightarrow> string option \<Rightarrow> (event_type \<times> file_info) option" where
  "admit_rename env settings file oldPath =
     (case (oldPath, fi_size file) of
        (Some old, Some sz) \<Rightarrow>
          if old = [] \<or> \<not> ae_isFile env file then None
          else
            (let oldPathIsTarget = isTargetPath env settings old;
                 newPathIsTarget = (isTargetPath env settings (fi_path file) \<and> \<not> ae_tooLarge env sz)
             in if \<not> oldPathIsTarget \<and> \<not> newPathIsTarget then None
                else if oldPathIsTarget \<and> \<not> newPathIsTarget then
                  Some (DELETE, \<lparr>fi_path = old, fi_name = List.last (split_on CHR ''/'' old), fi_size = Some sz, fi_mtime = fi_mtime file,
                                 fi_internal = False, fi_deleted = True\<rparr>)
                else if \<not> oldPathIsTarget \<and> newPathIsTarget then Some (CREATE, file)
                else Some (RENAME, file))
      | _ \<Rightarrow> None)"

datatype admission = Skipped | Throws | Admitted event_item

text \<open>
  One round of the loop of \<open>appendQueue\<close>; \<open>key\<close> is the random key. A file without \<open>stat\<close> makes the size
  check throw.
\<close>

definition admit :: "admit_env \<Rightarrow> em_settings \<Rightarrow> nat \<Rightarrow> file_event \<Rightarrow> admission" where
  "admit env settings key param =
     (if ae_isFolder env (fe_file param) then Skipped
      else
        (let checked =
               (if fe_type param = RENAME then
                  (case admit_rename env settings (fe_file param) (fe_oldPath param) of
                     None \<Rightarrow> Inl Skipped
                   | Some tf \<Rightarrow> Inr tf)
                else if \<not> isTargetPath env settings (fi_path (fe_file param)) then Inl Skipped
                else if fe_type param \<noteq> INTERNAL then
                  (case fi_size (fe_file param) of
                     None \<Rightarrow> Inl Throws
                   | Some sz \<Rightarrow>
                       if ae_tooLarge env sz \<and> (fe_type param = CREATE \<or> fe_type param = CHANGED) then Inl Skipped
                       else Inr (fe_type param, fe_file param))
                else Inr (fe_type param, fe_file param))
         in case checked of
              Inl a \<Rightarrow> a
            | Inr (type, file) \<Rightarrow>
                if ae_isFile env file \<and> (type = CREATE \<or> type = CHANGED \<or> type = RENAME) \<and> ae_recentlyTouched env file then Skipped
                else Admitted \<lparr>ei_type = type, ei_file = file,
                       ei_oldPath = (if type = RENAME then fe_oldPath param else None),
                       ei_cache = (if fe_cachedData param = Some [] then None else fe_cachedData param),
                       ei_key = key, ei_restored = fe_revalidate param, ei_skipBatchWait = fe_skipBatchWait param,
                       ei_cancelled = False\<rparr>))"

text \<open>
  The items that are queued, in order. \<open>unloaded n\<close> says whether the host had unloaded when the checks of the
  \<open>n\<close>-th event were finished; \<open>keys\<close> are the random keys.
\<close>

fun append_loop :: "admit_env \<Rightarrow> em_settings \<Rightarrow> (nat \<Rightarrow> nat) \<Rightarrow> (nat \<Rightarrow> bool) \<Rightarrow> nat \<Rightarrow> file_event list \<Rightarrow> event_item list" where
  "append_loop env settings keys unloaded n [] = []"
| "append_loop env settings keys unloaded n (param # params) =
     (case admit env settings (keys n) param of
        Skipped \<Rightarrow> append_loop env settings keys unloaded (Suc n) params
      | Throws \<Rightarrow> []
      | Admitted item \<Rightarrow> if unloaded n then [] else item # append_loop env settings keys unloaded (Suc n) params)"

definition appendQueue :: "admit_env \<Rightarrow> em_settings \<Rightarrow> (nat \<Rightarrow> nat) \<Rightarrow> (nat \<Rightarrow> bool) \<Rightarrow> bool \<Rightarrow> file_event list \<Rightarrow> event_item list" where
  "appendQueue env settings keys unloaded hostUnloaded params =
     (if hostUnloaded then []
      else if \<not> es_isConfigured settings then []
      else if es_suspendFileWatching settings then []
      else if isRemediationModeActive settings then []
      else append_loop env settings keys unloaded 0 params)"

section \<open>The watchers\<close>

text \<open>
  What the handlers of the watcher queue, \<open>None\<close> for nothing. \<open>processing\<close> says whether the path is being
  written by the program itself; \<open>info\<close> is the converted file.
\<close>

definition watchVaultCreate :: "bool \<Rightarrow> bool \<Rightarrow> file_info \<Rightarrow> file_event option" where
  "watchVaultCreate isFolder processing info =
     (if isFolder then None else if processing then None
      else Some \<lparr>fe_type = CREATE, fe_file = info, fe_oldPath = None, fe_cachedData = None, fe_skipBatchWait = False, fe_revalidate = False\<rparr>)"

definition watchVaultChange :: "bool \<Rightarrow> bool \<Rightarrow> file_info \<Rightarrow> file_event option" where
  "watchVaultChange isFolder processing info =
     (if isFolder then None else if processing then None
      else Some \<lparr>fe_type = CHANGED, fe_file = info, fe_oldPath = None, fe_cachedData = None, fe_skipBatchWait = False, fe_revalidate = False\<rparr>)"

definition watchVaultDelete :: "bool \<Rightarrow> bool \<Rightarrow> file_info \<Rightarrow> file_event option" where
  "watchVaultDelete isFolder processing info =
     (if isFolder then None else if processing then None
      else Some \<lparr>fe_type = DELETE, fe_file = info, fe_oldPath = None, fe_cachedData = None, fe_skipBatchWait = False, fe_revalidate = False\<rparr>)"

definition watchVaultRename :: "bool \<Rightarrow> file_info \<Rightarrow> string \<Rightarrow> file_event option" where
  "watchVaultRename isFile info oldPath =
     (if isFile
      then Some \<lparr>fe_type = RENAME, fe_file = info, fe_oldPath = Some oldPath, fe_cachedData = None, fe_skipBatchWait = True, fe_revalidate = False\<rparr>
      else None)"

text \<open>
  A change in the editor is queued only while a save of the path is waiting. \<open>path\<close> and \<open>file\<close> are those of the
  editor's information, \<open>None\<close> where it has none.
\<close>

definition watchEditorChange :: "em_settings \<Rightarrow> string option \<Rightarrow> file_info option \<Rightarrow> (file_info \<Rightarrow> bool) \<Rightarrow>
    (string \<Rightarrow> bool) \<Rightarrow> (string \<Rightarrow> bool) \<Rightarrow> string option \<Rightarrow> file_event option" where
  "watchEditorChange settings infoPath infoFile isFile isFileProcessing isWaiting data =
     (case (infoPath, infoFile) of
        (Some ip, Some file) \<Rightarrow>
          if \<not> shouldBatchSave settings then None
          else
            (let path = (if isFile file then fi_path file else ip) in
             if path = [] then None
             else if isFileProcessing path then None
             else if \<not> isWaiting path then None
             else Some \<lparr>fe_type = CHANGED, fe_file = file, fe_oldPath = None, fe_cachedData = data,
                    fe_skipBatchWait = False, fe_revalidate = False\<rparr>)
      | _ \<Rightarrow> None)"

section \<open>The queue\<close>

datatype buffered = Flush | Item event_item

text \<open>A path that waits for its batch; its timer is armed as long as the entry is in the map.\<close>

record wait_info =
  wi_since :: int
  wi_type :: event_type
  wi_promise :: nat
  wi_event :: event_item
  wi_delay :: int

text \<open>Where a \<open>processFileEvent\<close> call is: what it awaits.\<close>

datatype stage =
  Acquiring
| AfterPrevious "nat option" "int option"
| AfterBatch "nat option"
| Locking
| InLane
| Handling
| Returning
| Finishing
| Gone

record task =
  tk_item :: event_item
  tk_stage :: stage
  tk_slot :: bool

datatype runner_stage = RHead | RSaving buffered | RSlot buffered | RSettle | RIdle "nat list" | RFinal | RGone

record runner =
  rn_wait :: bool
  rn_stage :: runner_stage
  rn_dispatched :: "nat list"

text \<open>How an event ended: \<open>Superseded c\<close> when \<open>c\<close> cancelled its waiting.\<close>

datatype outcome =
  Processed bool
| HandlerThrew
| WasCancelled
| WasScanned
| HostUnloaded
| Superseded event_item
| AlreadyWaiting
| SnapshotFailed
| Overwritten

record event_manager =
  em_buffer :: "buffered list"
  em_waiting :: "(string, wait_info) jsmap"
  em_settled :: "(nat, bool \<times> event_item option) jsmap"
  em_nextPromise :: nat
  em_idle :: "nat list option"
  em_tasks :: "task list"
  em_runners :: "runner list"
  em_slots :: nat
  em_leaked :: nat
  em_processing :: nat
  em_snapshot :: "buffered list"
  em_unloaded :: bool
  em_enqueued :: "event_item list"
  em_ends :: "(event_item \<times> outcome) list"

text \<open>
  \<open>em_settled\<close> holds the settled \<open>canProceed\<close> promises, with the event that cancelled them; \<open>em_slots\<close> counts the
  acquired slots of the semaphore. \<open>em_enqueued\<close> and \<open>em_ends\<close> are the history of the events, \<open>em_leaked\<close> counts
  slots that are never released again.
\<close>

definition new_manager :: event_manager where
  "new_manager = \<lparr>em_buffer = [], em_waiting = [], em_settled = [], em_nextPromise = 0, em_idle = None, em_tasks = [],
     em_runners = [], em_slots = 0, em_leaked = 0, em_processing = 0, em_snapshot = [], em_unloaded = False,
     em_enqueued = [], em_ends = []\<rparr>"

definition takeSnapshot :: "event_manager \<Rightarrow> event_manager" where
  "takeSnapshot s =
     (if em_unloaded s then s
      else s\<lparr>em_snapshot := map (\<lambda>e. Item (wi_event (snd e))) (em_waiting s) @ em_buffer s\<rparr>)"

definition enqueue_item :: "event_item \<Rightarrow> event_manager \<Rightarrow> event_manager" where
  "enqueue_item newItem s =
     (let s1 = (if ei_type newItem = DELETE \<or> ei_type newItem = RENAME then s\<lparr>em_buffer := em_buffer s @ [Flush]\<rparr> else s)
      in takeSnapshot (s1\<lparr>em_buffer := em_buffer s1 @ [Item newItem], em_enqueued := em_enqueued s1 @ [newItem]\<rparr>))"

definition proceedWaiting :: "string \<Rightarrow> event_manager \<Rightarrow> event_manager" where
  "proceedWaiting key s =
     (case jm_get (em_waiting s) key of
        None \<Rightarrow> s
      | Some w \<Rightarrow> s\<lparr>em_settled := jm_set (wi_promise w) (True, None) (em_settled s), em_waiting := jm_delete key (em_waiting s)\<rparr>)"

definition cancelWaiting :: "string \<Rightarrow> event_item \<Rightarrow> event_manager \<Rightarrow> event_manager" where
  "cancelWaiting key by s =
     (case jm_get (em_waiting s) key of
        None \<Rightarrow> s
      | Some w \<Rightarrow> s\<lparr>em_settled := jm_set (wi_promise w) (False, Some by) (em_settled s), em_waiting := jm_delete key (em_waiting s)\<rparr>)"

definition addWaiting :: "em_settings \<Rightarrow> int \<Rightarrow> string \<Rightarrow> event_item \<Rightarrow> int option \<Rightarrow> event_manager \<Rightarrow> (nat \<times> event_manager) option" where
  "addWaiting settings now key event waitedSince s =
     (if jm_has (em_waiting s) key then None
      else
        (let since = (case waitedSince of Some t \<Rightarrow> t | None \<Rightarrow> now);
             elapsed = now - since;
             maxDelay = es_batchSaveMaximumDelay settings * 1000;
             remainingDelay = max 0 (maxDelay - elapsed);
             nextDelay = min remainingDelay (es_batchSaveMinimumDelay settings * 1000);
             p = em_nextPromise s;
             w = \<lparr>wi_since = since, wi_type = ei_type event, wi_promise = p, wi_event = event, wi_delay = nextDelay\<rparr>
         in Some (p, s\<lparr>em_waiting := jm_set key w (em_waiting s), em_nextPromise := Suc p\<rparr>)))"

text \<open>The promises that the answer of \<open>waitForIdle\<close> waits for.\<close>

definition waitForIdle :: "event_manager \<Rightarrow> nat list \<times> event_manager" where
  "waitForIdle s =
     (if em_waiting s = [] then ([], s)
      else (case em_idle s of
              Some ps \<Rightarrow> (ps, s)
            | None \<Rightarrow>
                (let ps = map (\<lambda>e. wi_promise (snd e)) (em_waiting s)
                 in (ps, (foldl (\<lambda>t k. proceedWaiting k t) s (jm_keys (em_waiting s)))\<lparr>em_idle := Some ps\<rparr>))))"

definition is_settled :: "event_manager \<Rightarrow> nat \<Rightarrow> bool" where
  "is_settled s p \<longleftrightarrow> jm_has (em_settled s) p"

definition idleDone :: "event_manager \<Rightarrow> event_manager option" where
  "idleDone s =
     (case em_idle s of
        Some ps \<Rightarrow> if list_all (is_settled s) ps then Some (s\<lparr>em_idle := None\<rparr>) else None
      | None \<Rightarrow> None)"

section \<open>Processing an event\<close>

definition set_stage :: "nat \<Rightarrow> stage \<Rightarrow> event_manager \<Rightarrow> event_manager" where
  "set_stage t st s = s\<lparr>em_tasks := (em_tasks s)[t := (em_tasks s ! t)\<lparr>tk_stage := st\<rparr>]\<rparr>"

definition stage_of :: "event_manager \<Rightarrow> nat \<Rightarrow> stage" where
  "stage_of s t = (if t < length (em_tasks s) then tk_stage (em_tasks s ! t) else Gone)"

definition item_of :: "event_manager \<Rightarrow> nat \<Rightarrow> event_item" where
  "item_of s t = tk_item (em_tasks s ! t)"

definition ends_with_outcome :: "nat \<Rightarrow> outcome \<Rightarrow> stage \<Rightarrow> event_manager \<Rightarrow> event_manager" where
  "ends_with_outcome t out st s = set_stage t st (s\<lparr>em_ends := em_ends s @ [(item_of s t, out)]\<rparr>)"

definition startTask :: "event_item \<Rightarrow> event_manager \<Rightarrow> event_manager" where
  "startTask fei s = s\<lparr>em_tasks := em_tasks s @ [\<lparr>tk_item = fei, tk_stage = Acquiring, tk_slot = False\<rparr>]\<rparr>"

text \<open>From the slot to \<open>await previousPromise\<close>.\<close>

definition slotGranted :: "nat \<Rightarrow> event_manager \<Rightarrow> event_manager option" where
  "slotGranted t s =
     (if stage_of s t \<noteq> Acquiring then None
      else
        (let s1 = s\<lparr>em_slots := Suc (em_slots s), em_tasks := (em_tasks s)[t := (em_tasks s ! t)\<lparr>tk_slot := True\<rparr>]\<rparr>;
             fei = item_of s t; waitingKey = ei_path fei
         in case jm_get (em_waiting s1) waitingKey of
              None \<Rightarrow> Some (set_stage t (AfterPrevious None None) s1)
            | Some previous \<Rightarrow>
                (let isShouldBeCancelled = (ei_skipBatchWait fei \<or> ei_type fei = DELETE \<or> wi_type previous = ei_type fei);
                     s2 = (if isShouldBeCancelled then cancelWaiting waitingKey fei s1 else proceedWaiting waitingKey s1)
                 in Some (set_stage t (AfterPrevious (Some (wi_promise previous)) (Some (wi_since previous))) s2))))"

definition requestProcessQueue :: "nat \<Rightarrow> event_manager \<Rightarrow> event_manager" where
  "requestProcessQueue t s = set_stage t Locking (s\<lparr>em_processing := Suc (em_processing s)\<rparr>)"

definition previousDone :: "nat \<Rightarrow> em_settings \<Rightarrow> int \<Rightarrow> event_manager \<Rightarrow> event_manager option" where
  "previousDone t settings now s =
     (case stage_of s t of
        AfterPrevious prev since \<Rightarrow>
          if (case prev of None \<Rightarrow> False | Some p \<Rightarrow> \<not> is_settled s p) then None
          else
            (let fei = item_of s t in
             if shouldBatchSave settings \<and> \<not> ei_skipBatchWait fei then
               (if ei_type fei = CREATE \<or> ei_type fei = CHANGED then
                  (case addWaiting settings now (ei_path fei) fei since s of
                     None \<Rightarrow> Some (takeSnapshot (ends_with_outcome t AlreadyWaiting Finishing s))
                   | Some (p, s1) \<Rightarrow> Some (set_stage t (AfterBatch (Some p)) s1))
                else Some (set_stage t (AfterBatch None) s))
             else Some (requestProcessQueue t s))
      | _ \<Rightarrow> None)"

definition batchDone :: "nat \<Rightarrow> event_manager \<Rightarrow> event_manager option" where
  "batchDone t s =
     (case stage_of s t of
        AfterBatch None \<Rightarrow> Some (requestProcessQueue t s)
      | AfterBatch (Some p) \<Rightarrow>
          (case jm_get (em_settled s) p of
             None \<Rightarrow> None
           | Some (True, _) \<Rightarrow> Some (requestProcessQueue t s)
           | Some (False, by) \<Rightarrow>
               Some (takeSnapshot (ends_with_outcome t
                 (case by of Some c \<Rightarrow> Superseded c | None \<Rightarrow> WasCancelled) Finishing s)))
      | _ \<Rightarrow> None)"

definition releaseSlot :: "nat \<Rightarrow> event_manager \<Rightarrow> event_manager" where
  "releaseSlot t s =
     (if tk_slot (em_tasks s ! t)
      then s\<lparr>em_slots := em_slots s - 1, em_tasks := (em_tasks s)[t := (em_tasks s ! t)\<lparr>tk_slot := False\<rparr>]\<rparr>
      else s)"

text \<open>
  The body of \<open>handleFileEvent\<close> up to the handler. The time of the last scan is the constant 0, so that a file
  with the modification time 0 is taken for one that has been scanned.
\<close>

definition goes_to_handler :: "event_item \<Rightarrow> bool" where
  "goes_to_handler fei \<longleftrightarrow> ei_type fei = INTERNAL \<or> fi_internal (ei_file fei) \<or> ei_type fei = DELETE \<or>
     fi_size (ei_file fei) \<noteq> None \<and> fi_mtime (ei_file fei) \<noteq> 0"

definition handleFileEvent :: "nat \<Rightarrow> event_manager \<Rightarrow> event_manager" where
  "handleFileEvent t s =
     (if ei_cancelled (item_of s t) then takeSnapshot (ends_with_outcome t WasCancelled Returning s)
      else if em_unloaded s then takeSnapshot (ends_with_outcome t HostUnloaded Returning s)
      else if goes_to_handler (item_of s t) then set_stage t Handling s
      else if fi_size (ei_file (item_of s t)) = None then ends_with_outcome t HandlerThrew Returning s
      else takeSnapshot (ends_with_outcome t WasScanned Returning s))"

definition lockGranted :: "nat \<Rightarrow> event_manager \<Rightarrow> event_manager option" where
  "lockGranted t s =
     (if stage_of s t \<noteq> Locking then None
      else if isLargeFileEvent (item_of s t) then Some (set_stage t InLane (releaseSlot t s))
      else Some (handleFileEvent t s))"

definition laneGranted :: "nat \<Rightarrow> event_manager \<Rightarrow> event_manager option" where
  "laneGranted t s = (if stage_of s t \<noteq> InLane then None else Some (handleFileEvent t s))"

text \<open>
  The handler answers: \<open>None\<close> when it throws. Only the answer of an ordinary creation, change or rename counts.
\<close>

definition handlerAnswered :: "nat \<Rightarrow> bool option \<Rightarrow> event_manager \<Rightarrow> event_manager option" where
  "handlerAnswered t answer s =
     (if stage_of s t \<noteq> Handling then None
      else
        (let fei = item_of s t in
         case answer of
           None \<Rightarrow> Some (ends_with_outcome t HandlerThrew Returning s)
         | Some ok \<Rightarrow>
             if ei_type fei = INTERNAL \<or> fi_internal (ei_file fei) \<or> ei_type fei = DELETE \<or> ok
             then Some (takeSnapshot (ends_with_outcome t (Processed ok) Returning s))
             else Some (takeSnapshot (ends_with_outcome t (Processed ok) Returning (cancelWaiting (ei_path fei) fei s)))))"

text \<open>The end of \<open>requestProcessQueue\<close>, and the snapshot of the last \<open>finally\<close>, which may fail.\<close>

definition requestDone :: "nat \<Rightarrow> event_manager \<Rightarrow> event_manager option" where
  "requestDone t s =
     (if stage_of s t \<noteq> Returning then None
      else Some (takeSnapshot (set_stage t Finishing (s\<lparr>em_processing := em_processing s - 1\<rparr>))))"

definition snapshotSaved :: "nat \<Rightarrow> bool \<Rightarrow> event_manager \<Rightarrow> event_manager option" where
  "snapshotSaved t ok s =
     (if stage_of s t \<noteq> Finishing then None
      else if ok then Some (set_stage t Gone (releaseSlot t s))
      else Some (set_stage t Gone (if tk_slot (em_tasks s ! t) then s\<lparr>em_leaked := Suc (em_leaked s)\<rparr> else s)))"

section \<open>Running the queue\<close>

definition set_rstage :: "nat \<Rightarrow> runner_stage \<Rightarrow> event_manager \<Rightarrow> event_manager" where
  "set_rstage r st s = s\<lparr>em_runners := (em_runners s)[r := (em_runners s ! r)\<lparr>rn_stage := st\<rparr>]\<rparr>"

definition rstage_of :: "event_manager \<Rightarrow> nat \<Rightarrow> runner_stage" where
  "rstage_of s r = (if r < length (em_runners s) then rn_stage (em_runners s ! r) else RGone)"

definition startRunner :: "bool \<Rightarrow> event_manager \<Rightarrow> event_manager" where
  "startRunner waitForProcessing s =
     s\<lparr>em_runners := em_runners s @ [\<lparr>rn_wait = waitForProcessing, rn_stage = RHead, rn_dispatched = []\<rparr>]\<rparr>"

definition runnerHead :: "nat \<Rightarrow> event_manager \<Rightarrow> event_manager option" where
  "runnerHead r s =
     (if rstage_of s r \<noteq> RHead then None
      else if em_buffer s = [] \<or> em_unloaded s then
        Some (set_rstage r (if rn_wait (em_runners s ! r) then RFinal else RGone) s)
      else Some (takeSnapshot (set_rstage r (RSaving (hd (em_buffer s))) (s\<lparr>em_buffer := tl (em_buffer s)\<rparr>))))"

definition runnerSaved :: "nat \<Rightarrow> bool \<Rightarrow> event_manager \<Rightarrow> event_manager option" where
  "runnerSaved r ok s =
     (case rstage_of s r of
        RSaving i \<Rightarrow>
          if ok then Some (set_rstage r (RSlot i) s)
          else Some (set_rstage r RGone (case i of Item e \<Rightarrow> s\<lparr>em_ends := em_ends s @ [(e, SnapshotFailed)]\<rparr> | Flush \<Rightarrow> s))
      | _ \<Rightarrow> None)"

definition runnerWaitsIdle :: "nat \<Rightarrow> event_manager \<Rightarrow> event_manager" where
  "runnerWaitsIdle r s = (case waitForIdle s of (ps, s1) \<Rightarrow> set_rstage r (RIdle ps) s1)"

definition runnerGranted :: "nat \<Rightarrow> event_manager \<Rightarrow> event_manager option" where
  "runnerGranted r s =
     (case rstage_of s r of
        RSlot Flush \<Rightarrow> Some (if rn_wait (em_runners s ! r) then set_rstage r RSettle s else runnerWaitsIdle r s)
      | RSlot (Item fei) \<Rightarrow>
          (let s1 = set_rstage r RHead (startTask fei s) in
           Some (if rn_wait (em_runners s ! r)
                 then s1\<lparr>em_runners := (em_runners s1)[r := (em_runners s1 ! r)\<lparr>rn_dispatched :=
                        rn_dispatched (em_runners s1 ! r) @ [length (em_tasks s)]\<rparr>]\<rparr>
                 else s1))
      | _ \<Rightarrow> None)"

definition dispatched_done :: "event_manager \<Rightarrow> nat \<Rightarrow> bool" where
  "dispatched_done s r \<longleftrightarrow> list_all (\<lambda>t. stage_of s t = Gone) (rn_dispatched (em_runners s ! r))"

definition runnerSettled :: "nat \<Rightarrow> event_manager \<Rightarrow> event_manager option" where
  "runnerSettled r s =
     (if \<not> dispatched_done s r then None
      else
        (let s1 = s\<lparr>em_runners := (em_runners s)[r := (em_runners s ! r)\<lparr>rn_dispatched := []\<rparr>]\<rparr> in
         case rstage_of s r of
           RSettle \<Rightarrow> Some (runnerWaitsIdle r s1)
         | RFinal \<Rightarrow> Some (set_rstage r RGone s1)
         | _ \<Rightarrow> None))"

definition runnerIdle :: "nat \<Rightarrow> event_manager \<Rightarrow> event_manager option" where
  "runnerIdle r s =
     (case rstage_of s r of
        RIdle ps \<Rightarrow> if list_all (is_settled s) ps then Some (set_rstage r RHead s) else None
      | _ \<Rightarrow> None)"

fun buffer_items :: "buffered list \<Rightarrow> event_item list" where
  "buffer_items [] = []"
| "buffer_items (Flush # bs) = buffer_items bs"
| "buffer_items (Item e # bs) = e # buffer_items bs"

definition restored :: "buffered \<Rightarrow> buffered" where
  "restored b = (case b of Flush \<Rightarrow> Flush | Item e \<Rightarrow> Item (e\<lparr>ei_restored := True, ei_skipBatchWait := True\<rparr>))"

text \<open>The loaded snapshot replaces the buffer.\<close>

definition restoreFromSnapshot :: "buffered list option \<Rightarrow> event_manager \<Rightarrow> event_manager" where
  "restoreFromSnapshot snapShot s =
     (case snapShot of
        None \<Rightarrow> s
      | Some bs \<Rightarrow>
          if bs = [] then s
          else startRunner True
            (s\<lparr>em_buffer := map restored bs,
               em_enqueued := em_enqueued s @ buffer_items (map restored bs),
               em_ends := em_ends s @ map (\<lambda>e. (e, Overwritten)) (buffer_items (em_buffer s))\<rparr>))"

datatype em_event =
  Enqueued event_item
| IdleAsked
| IdleDone
| TimerFires string
| SnapshotDue
| Unloads
| Restores "buffered list option"
| StartsRunner
| RunnerHead nat
| RunnerSaved nat bool
| RunnerGranted nat
| RunnerSettled nat
| RunnerIdle nat
| SlotGranted nat
| PreviousDone nat em_settings int
| BatchDone nat
| LockGranted nat
| LaneGranted nat
| Handled nat "bool option"
| RequestDone nat
| SnapshotSaved nat bool

text \<open>\<open>None\<close>: the event can not happen now.\<close>

fun em_step :: "em_event \<Rightarrow> event_manager \<Rightarrow> event_manager option" where
  "em_step (Enqueued e) s = Some (enqueue_item e s)"
| "em_step IdleAsked s = Some (snd (waitForIdle s))"
| "em_step IdleDone s = idleDone s"
| "em_step (TimerFires key) s = Some (proceedWaiting key s)"
| "em_step SnapshotDue s = Some (takeSnapshot s)"
| "em_step Unloads s = Some (s\<lparr>em_unloaded := True\<rparr>)"
| "em_step (Restores bs) s = Some (restoreFromSnapshot bs s)"
| "em_step StartsRunner s = Some (startRunner False s)"
| "em_step (RunnerHead r) s = runnerHead r s"
| "em_step (RunnerSaved r ok) s = runnerSaved r ok s"
| "em_step (RunnerGranted r) s = runnerGranted r s"
| "em_step (RunnerSettled r) s = runnerSettled r s"
| "em_step (RunnerIdle r) s = runnerIdle r s"
| "em_step (SlotGranted t) s = slotGranted t s"
| "em_step (PreviousDone t cfg now) s = previousDone t cfg now s"
| "em_step (BatchDone t) s = batchDone t s"
| "em_step (LockGranted t) s = lockGranted t s"
| "em_step (LaneGranted t) s = laneGranted t s"
| "em_step (Handled t ok) s = handlerAnswered t ok s"
| "em_step (RequestDone t) s = requestDone t s"
| "em_step (SnapshotSaved t ok) s = snapshotSaved t ok s"

inductive em_reachable :: "event_manager \<Rightarrow> bool" where
  start: "em_reachable new_manager"
| step: "em_reachable s \<Longrightarrow> em_step e s = Some s' \<Longrightarrow> em_reachable s'"

fun run_events :: "em_event list \<Rightarrow> event_manager \<Rightarrow> event_manager option" where
  "run_events [] s = Some s"
| "run_events (e # es) s = (case em_step e s of None \<Rightarrow> None | Some s' \<Rightarrow> run_events es s')"

lemma run_reachable: "em_reachable s \<Longrightarrow> run_events es s = Some s' \<Longrightarrow> em_reachable s'"
  by (induction es arbitrary: s) (auto split: option.splits intro: em_reachable.step)

section \<open>Accounting for events\<close>

definition live :: "task \<Rightarrow> event_item list" where
  "live t = (if tk_stage t \<in> {Returning, Finishing, Gone} then [] else [tk_item t])"

definition in_hand :: "runner \<Rightarrow> event_item list" where
  "in_hand r = (case rn_stage r of RSaving b \<Rightarrow> buffer_items [b] | RSlot b \<Rightarrow> buffer_items [b] | _ \<Rightarrow> [])"

text \<open>The events that are somewhere: in the buffer, in the hand of a runner, being processed, or ended.\<close>

definition everywhere :: "event_manager \<Rightarrow> event_item multiset" where
  "everywhere s = mset (buffer_items (em_buffer s)) + mset (concat (map in_hand (em_runners s))) +
     mset (concat (map live (em_tasks s))) + mset (map fst (em_ends s))"

lemma mset_concat_update:
  "i < length xs \<Longrightarrow> mset (concat (map f (xs[i := x]))) + mset (f (xs ! i)) = mset (concat (map f xs)) + mset (f x)"
proof (induction xs arbitrary: i)
  case Nil
  then show ?case by simp
next
  case (Cons y ys)
  show ?case
  proof (cases i)
    case 0
    then show ?thesis by (simp add: ac_simps)
  next
    case (Suc j)
    with Cons.IH [of j] Cons.prems show ?thesis by (simp add: add.assoc)
  qed
qed

lemma mset_concat_same: "i < length xs \<Longrightarrow> f (xs ! i) = f x \<Longrightarrow> mset (concat (map f (xs[i := x]))) = mset (concat (map f xs))"
  using mset_concat_update [of i xs f x] by simp

lemma buffer_items_append [simp]: "buffer_items (xs @ ys) = buffer_items xs @ buffer_items ys"
  by (induction xs rule: buffer_items.induct) auto

lemma stage_length: "stage_of s t \<noteq> Gone \<Longrightarrow> t < length (em_tasks s)"
  by (auto simp: stage_of_def split: if_splits)

lemma rstage_length: "rstage_of s r \<noteq> RGone \<Longrightarrow> r < length (em_runners s)"
  by (auto simp: rstage_of_def split: if_splits)

lemma everywhere_frames [simp]:
  "everywhere (takeSnapshot s) = everywhere s" "everywhere (proceedWaiting k s) = everywhere s"
  "everywhere (cancelWaiting k c s) = everywhere s" "everywhere (s\<lparr>em_idle := i\<rparr>) = everywhere s"
  "everywhere (s\<lparr>em_slots := n\<rparr>) = everywhere s" "everywhere (s\<lparr>em_leaked := n\<rparr>) = everywhere s"
  "everywhere (s\<lparr>em_processing := n\<rparr>) = everywhere s" "everywhere (s\<lparr>em_unloaded := b\<rparr>) = everywhere s"
  "everywhere (s\<lparr>em_waiting := w, em_nextPromise := n\<rparr>) = everywhere s"
  "everywhere (startRunner b s) = everywhere s"
  by (simp_all add: everywhere_def takeSnapshot_def proceedWaiting_def cancelWaiting_def startRunner_def in_hand_def split: option.split)

lemma proceed_all: "(\<And>s k. P (proceedWaiting k s) = P s) \<Longrightarrow> P (foldl (\<lambda>t k. proceedWaiting k t) s ks) = P s"
  by (induction ks arbitrary: s) auto

lemma everywhere_idle [simp]: "everywhere (snd (waitForIdle s)) = everywhere s"
  by (simp add: waitForIdle_def Let_def proceed_all [of everywhere] split: option.split)

lemma everywhere_stage:
  assumes "stage_of s t \<notin> {Returning, Finishing, Gone}" and "st \<notin> {Returning, Finishing, Gone}"
  shows "everywhere (set_stage t st s) = everywhere s"
proof -
  have "t < length (em_tasks s)" using assms(1) stage_length by blast
  then show ?thesis using assms mset_concat_same [of t "em_tasks s" live]
    by (simp add: everywhere_def set_stage_def live_def stage_of_def)
qed

lemma everywhere_stage_ended:
  assumes "stage_of s t \<in> {Returning, Finishing}" and "st \<in> {Returning, Finishing, Gone}"
  shows "everywhere (set_stage t st s) = everywhere s"
proof -
  have "t < length (em_tasks s)" using assms(1) stage_length [of s t] by auto
  then show ?thesis using assms mset_concat_same [of t "em_tasks s" live "(em_tasks s ! t)\<lparr>tk_stage := st\<rparr>"]
    by (auto simp: everywhere_def set_stage_def live_def stage_of_def)
qed

lemma everywhere_ends:
  assumes "stage_of s t \<notin> {Returning, Finishing, Gone}" and "st \<in> {Returning, Finishing, Gone}"
  shows "everywhere (ends_with_outcome t out st s) = everywhere s"
proof -
  have "t < length (em_tasks s)" using assms(1) stage_length by blast
  then show ?thesis
    using assms mset_concat_update [of t "em_tasks s" live "(em_tasks s ! t)\<lparr>tk_stage := st\<rparr>"]
    by (simp add: everywhere_def ends_with_outcome_def set_stage_def live_def stage_of_def item_of_def)
qed

lemma stage_frames [simp]:
  "stage_of (takeSnapshot s) t = stage_of s t" "stage_of (proceedWaiting k s) t = stage_of s t"
  "stage_of (cancelWaiting k c s) t = stage_of s t" "stage_of (s\<lparr>em_idle := i\<rparr>) t = stage_of s t"
  "stage_of (s\<lparr>em_slots := n\<rparr>) t = stage_of s t" "stage_of (s\<lparr>em_leaked := n\<rparr>) t = stage_of s t"
  "stage_of (s\<lparr>em_processing := n\<rparr>) t = stage_of s t" "stage_of (s\<lparr>em_unloaded := b\<rparr>) t = stage_of s t"
  "stage_of (s\<lparr>em_ends := x\<rparr>) t = stage_of s t" "stage_of (s\<lparr>em_buffer := y\<rparr>) t = stage_of s t"
  "stage_of (s\<lparr>em_runners := z\<rparr>) t = stage_of s t" "stage_of (s\<lparr>em_enqueued := x'\<rparr>) t = stage_of s t"
  "stage_of (s\<lparr>em_waiting := w, em_nextPromise := n\<rparr>) t = stage_of s t"
  "stage_of (s\<lparr>em_slots := n, em_tasks := ts\<rparr>) t = (if t < length ts then tk_stage (ts ! t) else Gone)"
  by (simp_all add: stage_of_def takeSnapshot_def proceedWaiting_def cancelWaiting_def split: option.split)

lemma enqueued_frames [simp]:
  "em_enqueued (takeSnapshot s) = em_enqueued s" "em_enqueued (proceedWaiting k s) = em_enqueued s"
  "em_enqueued (cancelWaiting k c s) = em_enqueued s" "em_enqueued (set_stage t st s) = em_enqueued s"
  "em_enqueued (ends_with_outcome t out st s) = em_enqueued s" "em_enqueued (set_rstage r rst s) = em_enqueued s"
  "em_enqueued (requestProcessQueue t s) = em_enqueued s" "em_enqueued (releaseSlot t s) = em_enqueued s"
  "em_enqueued (handleFileEvent t s) = em_enqueued s"
  "em_enqueued (startTask e s) = em_enqueued s" "em_enqueued (startRunner b s) = em_enqueued s"
  by (simp_all add: takeSnapshot_def proceedWaiting_def cancelWaiting_def set_stage_def ends_with_outcome_def set_rstage_def
      requestProcessQueue_def releaseSlot_def handleFileEvent_def startTask_def startRunner_def split: option.split)

lemma enqueued_idle [simp]: "em_enqueued (snd (waitForIdle s)) = em_enqueued s"
  by (simp add: waitForIdle_def Let_def proceed_all [of em_enqueued] split: option.split)

lemma everywhere_slot:
  assumes "stage_of s t \<noteq> Gone"
  shows "everywhere (s\<lparr>em_slots := n, em_tasks := (em_tasks s)[t := (em_tasks s ! t)\<lparr>tk_slot := b\<rparr>]\<rparr>) = everywhere s"
  using stage_length [OF assms] mset_concat_same [of t "em_tasks s" live] by (simp add: everywhere_def live_def)

lemma everywhere_release:
  assumes "stage_of s t \<noteq> Gone"
  shows "everywhere (releaseSlot t s) = everywhere s"
  using everywhere_slot [OF assms, of False "em_slots s - 1"] by (simp add: releaseSlot_def)

lemma stage_release [simp]: "stage_of (releaseSlot t s) u = stage_of s u"
  by (cases "t < length (em_tasks s)") (auto simp: releaseSlot_def stage_of_def nth_list_update)

lemma everywhere_request:
  assumes "stage_of s t \<notin> {Returning, Finishing, Gone}"
  shows "everywhere (requestProcessQueue t s) = everywhere s"
  using assms by (simp add: requestProcessQueue_def everywhere_stage)

lemma everywhere_handle:
  assumes "stage_of s t \<notin> {Returning, Finishing, Gone}"
  shows "everywhere (handleFileEvent t s) = everywhere s"
  using assms by (simp add: handleFileEvent_def everywhere_stage everywhere_ends)

definition keeps :: "event_manager \<Rightarrow> event_manager \<Rightarrow> bool" where
  "keeps s s' \<longleftrightarrow> everywhere s' = everywhere s \<and> em_enqueued s' = em_enqueued s"

lemma keeps_slotGranted: "slotGranted t s = Some s' \<Longrightarrow> keeps s s'"
proof -
  assume g: "slotGranted t s = Some s'"
  let ?s1 = "s\<lparr>em_slots := Suc (em_slots s), em_tasks := (em_tasks s)[t := (em_tasks s ! t)\<lparr>tk_slot := True\<rparr>]\<rparr>"
  have st: "stage_of s t = Acquiring" using g by (auto simp: slotGranted_def split: if_splits)
  then have "t < length (em_tasks s)" using stage_length [of s t] by simp
  then have 1: "stage_of ?s1 t = Acquiring" using st by (simp add: stage_of_def)
  have 2: "everywhere ?s1 = everywhere s" using st by (intro everywhere_slot) simp
  have e: "everywhere (set_stage t (AfterPrevious a b) u) = everywhere u" if "stage_of u t = Acquiring" for a b u
    using that by (intro everywhere_stage) simp_all
  show ?thesis
    using g st e [of ?s1] e [of "cancelWaiting _ _ ?s1"] e [of "proceedWaiting _ ?s1"] 1 2
    by (auto simp: slotGranted_def keeps_def Let_def split: option.splits)
qed

lemma keeps_previousDone: "previousDone t cfg now s = Some s' \<Longrightarrow> keeps s s'"
  by (auto simp: previousDone_def keeps_def addWaiting_def Let_def everywhere_request everywhere_stage everywhere_ends
      split: stage.splits if_splits option.splits)

lemma keeps_batchDone: "batchDone t s = Some s' \<Longrightarrow> keeps s s'"
  by (auto simp: batchDone_def keeps_def everywhere_request everywhere_stage everywhere_ends
      split: stage.splits if_splits option.splits bool.splits)

lemma keeps_lockGranted: "lockGranted t s = Some s' \<Longrightarrow> keeps s s'"
  by (auto simp: lockGranted_def keeps_def everywhere_handle everywhere_stage everywhere_release split: if_splits)

lemma keeps_laneGranted: "laneGranted t s = Some s' \<Longrightarrow> keeps s s'"
  by (auto simp: laneGranted_def keeps_def everywhere_handle split: if_splits)

lemma keeps_handled: "handlerAnswered t ok s = Some s' \<Longrightarrow> keeps s s'"
  by (auto simp: handlerAnswered_def keeps_def Let_def everywhere_ends split: if_splits option.splits)

lemma keeps_requestDone: "requestDone t s = Some s' \<Longrightarrow> keeps s s'"
  by (auto simp: requestDone_def keeps_def everywhere_stage_ended split: if_splits)

lemma keeps_snapshotSaved: "snapshotSaved t ok s = Some s' \<Longrightarrow> keeps s s'"
  by (auto simp: snapshotSaved_def keeps_def everywhere_stage_ended everywhere_release split: if_splits)

lemmas task_keeps = keeps_slotGranted keeps_previousDone keeps_batchDone keeps_lockGranted keeps_laneGranted keeps_handled
  keeps_requestDone keeps_snapshotSaved

lemma everywhere_rstage:
  assumes "rstage_of s r \<noteq> RGone"
  shows "everywhere (set_rstage r st s) + mset (in_hand (em_runners s ! r)) =
    everywhere s + mset (in_hand ((em_runners s ! r)\<lparr>rn_stage := st\<rparr>))"
  using mset_concat_update [OF rstage_length [OF assms], of in_hand "(em_runners s ! r)\<lparr>rn_stage := st\<rparr>"]
  by (simp add: everywhere_def set_rstage_def)

lemma everywhere_dispatched: "everywhere (s\<lparr>em_runners := (em_runners s)[r := (em_runners s ! r)\<lparr>rn_dispatched := d\<rparr>]\<rparr>) = everywhere s"
  by (cases "r < length (em_runners s)") (simp_all add: everywhere_def mset_concat_same in_hand_def not_less list_update_beyond)

lemma in_hand_simps [simp]:
  "rstage_of s r = RSaving b \<Longrightarrow> in_hand (em_runners s ! r) = buffer_items [b]"
  "rstage_of s r = RSlot b \<Longrightarrow> in_hand (em_runners s ! r) = buffer_items [b]"
  "rstage_of s r \<in> {RHead, RSettle, RFinal} \<Longrightarrow> in_hand (em_runners s ! r) = []"
  "rstage_of s r = RIdle ps \<Longrightarrow> in_hand (em_runners s ! r) = []"
  "in_hand (rn\<lparr>rn_stage := RSaving b\<rparr>) = buffer_items [b]" "in_hand (rn\<lparr>rn_stage := RSlot b\<rparr>) = buffer_items [b]"
  "in_hand (rn\<lparr>rn_stage := RHead\<rparr>) = []" "in_hand (rn\<lparr>rn_stage := RSettle\<rparr>) = []" "in_hand (rn\<lparr>rn_stage := RFinal\<rparr>) = []"
  "in_hand (rn\<lparr>rn_stage := RGone\<rparr>) = []" "in_hand (rn\<lparr>rn_stage := RIdle ps\<rparr>) = []"
  by (auto simp: in_hand_def rstage_of_def split: if_splits)

lemma rstage_frames [simp]:
  "rstage_of (proceedWaiting k s) r = rstage_of s r" "rstage_of (s\<lparr>em_idle := i\<rparr>) r = rstage_of s r"
  "rstage_of (s\<lparr>em_buffer := b\<rparr>) r = rstage_of s r" "rstage_of (s\<lparr>em_ends := x\<rparr>) r = rstage_of s r"
  "rstage_of (startTask e s) r = rstage_of s r"
  "em_runners (proceedWaiting k s) = em_runners s" "em_runners (startTask e s) = em_runners s"
  by (simp_all add: rstage_of_def proceedWaiting_def startTask_def split: option.split)

lemma runners_idle [simp]: "em_runners (snd (waitForIdle s)) = em_runners s" "rstage_of (snd (waitForIdle s)) r = rstage_of s r"
proof -
  show "em_runners (snd (waitForIdle s)) = em_runners s"
    by (simp add: waitForIdle_def Let_def proceed_all [of em_runners] split: option.split)
  then show "rstage_of (snd (waitForIdle s)) r = rstage_of s r" by (simp add: rstage_of_def)
qed

lemma keeps_waits_idle:
  assumes "rstage_of s r \<notin> {RGone}" and "in_hand (em_runners s ! r) = []"
  shows "keeps s (runnerWaitsIdle r s)"
  using everywhere_rstage [of "snd (waitForIdle s)" r "RIdle (fst (waitForIdle s))"] assms
  by (simp add: keeps_def runnerWaitsIdle_def case_prod_beta)

lemma keeps_runnerHead: "runnerHead r s = Some s' \<Longrightarrow> keeps s s'"
proof -
  assume h: "runnerHead r s = Some s'"
  then have st: "rstage_of s r = RHead" by (auto simp: runnerHead_def split: if_splits)
  show ?thesis
  proof (cases "em_buffer s = [] \<or> em_unloaded s")
    case True
    then show ?thesis using h st everywhere_rstage [of s r RFinal] everywhere_rstage [of s r RGone]
      by (auto simp: runnerHead_def keeps_def)
  next
    case False
    then obtain b bs where b: "em_buffer s = b # bs" by (cases "em_buffer s") auto
    have "everywhere (s\<lparr>em_buffer := bs\<rparr>) + mset (buffer_items [b]) = everywhere s"
      by (cases b) (simp_all add: everywhere_def b)
    then show ?thesis using h st False b everywhere_rstage [of "s\<lparr>em_buffer := bs\<rparr>" r "RSaving b"]
      by (auto simp: runnerHead_def keeps_def)
  qed
qed

lemma keeps_runnerSaved: "runnerSaved r ok s = Some s' \<Longrightarrow> keeps s s'"
proof -
  assume h: "runnerSaved r ok s = Some s'"
  then obtain i where st: "rstage_of s r = RSaving i" by (auto simp: runnerSaved_def split: runner_stage.splits)
  show ?thesis
  proof (cases i)
    case Flush
    then show ?thesis using h st everywhere_rstage [of s r "RSlot i"] everywhere_rstage [of s r RGone]
      by (auto simp: runnerSaved_def keeps_def split: if_splits)
  next
    case (Item e)
    have "everywhere (s\<lparr>em_ends := em_ends s @ [(e, SnapshotFailed)]\<rparr>) = add_mset e (everywhere s)"
      by (simp add: everywhere_def)
    then show ?thesis
      using h st Item everywhere_rstage [of s r "RSlot i"]
        everywhere_rstage [of "s\<lparr>em_ends := em_ends s @ [(e, SnapshotFailed)]\<rparr>" r RGone]
      by (auto simp: runnerSaved_def keeps_def split: if_splits)
  qed
qed

lemma keeps_runnerGranted: "runnerGranted r s = Some s' \<Longrightarrow> keeps s s'"
proof -
  assume h: "runnerGranted r s = Some s'"
  then obtain i where st: "rstage_of s r = RSlot i" by (auto simp: runnerGranted_def split: runner_stage.splits)
  show ?thesis
  proof (cases i)
    case Flush
    then show ?thesis using h st everywhere_rstage [of s r RSettle] keeps_waits_idle [of s r]
      by (auto simp: runnerGranted_def keeps_def split: if_splits)
  next
    case (Item e)
    have "everywhere (startTask e s) = add_mset e (everywhere s)"
      by (simp add: everywhere_def startTask_def live_def)
    then have "keeps s (set_rstage r RHead (startTask e s))"
      using st Item everywhere_rstage [of "startTask e s" r RHead] by (auto simp: keeps_def)
    then show ?thesis using h st Item
      by (auto simp: runnerGranted_def keeps_def Let_def everywhere_dispatched split: if_splits)
  qed
qed

lemma keeps_runnerSettled: "runnerSettled r s = Some s' \<Longrightarrow> keeps s s'"
proof -
  assume h: "runnerSettled r s = Some s'"
  let ?s1 = "s\<lparr>em_runners := (em_runners s)[r := (em_runners s ! r)\<lparr>rn_dispatched := []\<rparr>]\<rparr>"
  from h have st: "rstage_of s r \<in> {RSettle, RFinal}" by (auto simp: runnerSettled_def Let_def split: if_splits runner_stage.splits)
  then have len: "r < length (em_runners s)" using rstage_length [of s r] by auto
  then have st1: "rstage_of ?s1 r = rstage_of s r" and ih: "in_hand (em_runners ?s1 ! r) = []"
    using st by (auto simp: rstage_of_def in_hand_def)
  have "keeps s ?s1" by (simp add: keeps_def everywhere_dispatched)
  moreover have "keeps ?s1 s'"
    using h st st1 ih everywhere_rstage [of ?s1 r RGone] keeps_waits_idle [of ?s1 r]
    by (auto simp: runnerSettled_def Let_def keeps_def split: if_splits)
  ultimately show ?thesis by (simp add: keeps_def)
qed

lemma keeps_runnerIdle: "runnerIdle r s = Some s' \<Longrightarrow> keeps s s'"
  using everywhere_rstage [of s r RHead] by (auto simp: runnerIdle_def keeps_def split: runner_stage.splits if_splits)

lemma keeps_idleDone: "idleDone s = Some s' \<Longrightarrow> keeps s s'"
  by (auto simp: idleDone_def keeps_def split: option.splits if_splits)

lemmas runner_keeps = keeps_runnerHead keeps_runnerSaved keeps_runnerGranted keeps_runnerSettled keeps_runnerIdle keeps_idleDone

lemma everywhere_append:
  "everywhere (s\<lparr>em_buffer := em_buffer s @ bs, em_enqueued := q\<rparr>) = mset (buffer_items bs) + everywhere s"
  by (simp add: everywhere_def)

lemma everywhere_flush [simp]: "everywhere (s\<lparr>em_buffer := em_buffer s @ [Flush]\<rparr>) = everywhere s"
  by (simp add: everywhere_def)

lemma step_keeps_or_adds:
  assumes "em_step e s = Some s'" and "mset (em_enqueued s) = everywhere s"
  shows "mset (em_enqueued s') = everywhere s'"
proof -
  have "keeps s s' \<or> (\<exists>i. e = Enqueued i) \<or> (\<exists>b. e = Restores b)"
    using assms(1) by (cases e) (auto dest: task_keeps runner_keeps simp: keeps_def)
  moreover have "mset (em_enqueued s') = everywhere s'" if "e = Enqueued i" for i
    using assms that everywhere_append by (auto simp: enqueue_item_def Let_def)
  moreover have "mset (em_enqueued s') = everywhere s'" if "e = Restores b" for b
    using assms that
    by (auto simp: restoreFromSnapshot_def everywhere_def startRunner_def in_hand_def multiset.map_comp comp_def split: option.splits)
  ultimately show ?thesis using assms(2) by (auto simp: keeps_def)
qed

lemma reachable_accounted: "em_reachable s \<Longrightarrow> mset (em_enqueued s) = everywhere s"
  by (induction rule: em_reachable.induct) (auto simp: new_manager_def everywhere_def dest: step_keeps_or_adds)

lemma live_enqueued:
  assumes "mset (em_enqueued s) = everywhere s" and "stage_of s t \<notin> {Returning, Finishing, Gone}"
  shows "item_of s t \<in> set (em_enqueued s)"
proof -
  have "t < length (em_tasks s)" using assms(2) stage_length by blast
  then have "item_of s t \<in> set (concat (map live (em_tasks s)))"
    using assms(2) by (auto simp: item_of_def live_def stage_of_def intro!: bexI [of _ "em_tasks s ! t"])
  then have "item_of s t \<in># everywhere s" by (auto simp: everywhere_def)
  then show ?thesis using assms(1) by (metis set_mset_mset)
qed

section \<open>Waiting\<close>

text \<open>
  What the waiting map, the promises and the waiting tasks have to do with each other: an entry belongs to
  the one task that waits for its promise, and a task whose promise has not settled has its entry.
\<close>

definition wait_ok :: "event_manager \<Rightarrow> bool" where
  "wait_ok s \<longleftrightarrow> jm_wf (em_waiting s) \<and>
     (\<forall>k w. jm_get (em_waiting s) k = Some w \<longrightarrow> wi_promise w < em_nextPromise s \<and> \<not> is_settled s (wi_promise w) \<and>
        (\<exists>t. stage_of s t = AfterBatch (Some (wi_promise w)) \<and> ei_path (item_of s t) = k)) \<and>
     (\<forall>t p. stage_of s t = AfterBatch (Some p) \<longrightarrow> p < em_nextPromise s \<and>
        (is_settled s p \<or> (\<exists>w. jm_get (em_waiting s) (ei_path (item_of s t)) = Some w \<and> wi_promise w = p))) \<and>
     (\<forall>t p si. stage_of s t = AfterPrevious (Some p) si \<longrightarrow> is_settled s p) \<and>
     (\<forall>p. is_settled s p \<longrightarrow> p < em_nextPromise s) \<and>
     (\<forall>t u p. stage_of s t = AfterBatch (Some p) \<and> stage_of s u = AfterBatch (Some p) \<longrightarrow> t = u) \<and>
     (\<forall>t p by. stage_of s t = AfterBatch (Some p) \<and> jm_get (em_settled s) p = Some (False, by) \<longrightarrow>
        (\<exists>c. by = Some c \<and> ei_path c = ei_path (item_of s t) \<and> c \<in> set (em_enqueued s)))"

lemma wait_okD:
  assumes "wait_ok s"
  shows "jm_wf (em_waiting s)"
    and "jm_get (em_waiting s) k = Some w \<Longrightarrow> wi_promise w < em_nextPromise s \<and> \<not> is_settled s (wi_promise w) \<and>
        (\<exists>t. stage_of s t = AfterBatch (Some (wi_promise w)) \<and> ei_path (item_of s t) = k)"
    and "stage_of s t = AfterBatch (Some p) \<Longrightarrow> p < em_nextPromise s \<and>
        (is_settled s p \<or> (\<exists>w. jm_get (em_waiting s) (ei_path (item_of s t)) = Some w \<and> wi_promise w = p))"
    and "stage_of s t = AfterPrevious (Some p) si \<Longrightarrow> is_settled s p"
    and "is_settled s p \<Longrightarrow> p < em_nextPromise s"
    and "stage_of s t = AfterBatch (Some p) \<Longrightarrow> stage_of s u = AfterBatch (Some p) \<Longrightarrow> t = u"
    and "stage_of s t = AfterBatch (Some p) \<Longrightarrow> jm_get (em_settled s) p = Some (False, by) \<Longrightarrow>
        \<exists>c. by = Some c \<and> ei_path c = ei_path (item_of s t) \<and> c \<in> set (em_enqueued s)"
  using assms unfolding wait_ok_def by blast+

lemma wait_okI:
  assumes "jm_wf (em_waiting s)"
    and "\<And>k w. jm_get (em_waiting s) k = Some w \<Longrightarrow> wi_promise w < em_nextPromise s \<and> \<not> is_settled s (wi_promise w) \<and>
        (\<exists>t. stage_of s t = AfterBatch (Some (wi_promise w)) \<and> ei_path (item_of s t) = k)"
    and "\<And>t p. stage_of s t = AfterBatch (Some p) \<Longrightarrow> p < em_nextPromise s \<and>
        (is_settled s p \<or> (\<exists>w. jm_get (em_waiting s) (ei_path (item_of s t)) = Some w \<and> wi_promise w = p))"
    and "\<And>t p si. stage_of s t = AfterPrevious (Some p) si \<Longrightarrow> is_settled s p"
    and "\<And>p. is_settled s p \<Longrightarrow> p < em_nextPromise s"
    and "\<And>t u p. stage_of s t = AfterBatch (Some p) \<Longrightarrow> stage_of s u = AfterBatch (Some p) \<Longrightarrow> t = u"
    and "\<And>t p by. stage_of s t = AfterBatch (Some p) \<Longrightarrow> jm_get (em_settled s) p = Some (False, by) \<Longrightarrow>
        \<exists>c. by = Some c \<and> ei_path c = ei_path (item_of s t) \<and> c \<in> set (em_enqueued s)"
  shows "wait_ok s"
  using assms unfolding wait_ok_def by blast

text \<open>What \<open>wait_ok\<close> looks at.\<close>

definition same_waits :: "event_manager \<Rightarrow> event_manager \<Rightarrow> bool" where
  "same_waits s s' \<longleftrightarrow> em_waiting s' = em_waiting s \<and> em_settled s' = em_settled s \<and> em_nextPromise s' = em_nextPromise s \<and>
     stage_of s' = stage_of s \<and> item_of s' = item_of s \<and> set (em_enqueued s) \<subseteq> set (em_enqueued s')"

lemma wait_ok_same:
  assumes "wait_ok s" and "same_waits s s'"
  shows "wait_ok s'"
proof -
  have eqs: "em_waiting s' = em_waiting s" "em_settled s' = em_settled s" "em_nextPromise s' = em_nextPromise s"
    "stage_of s' = stage_of s" "item_of s' = item_of s" "is_settled s' = is_settled s"
    and sub: "set (em_enqueued s) \<subseteq> set (em_enqueued s')"
    using assms(2) by (auto simp: same_waits_def is_settled_def fun_eq_iff)
  show ?thesis unfolding wait_ok_def eqs using assms(1) sub unfolding wait_ok_def by blast
qed

lemma same_waits_task:
  assumes "em_waiting s' = em_waiting s" and "em_settled s' = em_settled s" and "em_nextPromise s' = em_nextPromise s"
    and "em_tasks s' = em_tasks s" and "set (em_enqueued s) \<subseteq> set (em_enqueued s')"
  shows "same_waits s s'"
  using assms by (auto simp: same_waits_def stage_of_def item_of_def)

lemma same_waits_frames [simp]:
  "same_waits s (takeSnapshot s)" "same_waits s (s\<lparr>em_idle := i\<rparr>)" "same_waits s (s\<lparr>em_leaked := n\<rparr>)"
  "same_waits s (s\<lparr>em_processing := n\<rparr>)" "same_waits s (s\<lparr>em_unloaded := b\<rparr>)" "same_waits s (s\<lparr>em_ends := x\<rparr>)"
  "same_waits s (s\<lparr>em_buffer := y\<rparr>)" "same_waits s (s\<lparr>em_runners := z\<rparr>)" "same_waits s (set_rstage r rst s)"
  "same_waits s (enqueue_item e s)" "same_waits s (startRunner b s)" "same_waits s (restoreFromSnapshot bs s)"
  by (auto intro!: same_waits_task simp: takeSnapshot_def set_rstage_def enqueue_item_def Let_def startRunner_def
      restoreFromSnapshot_def split: option.split)

lemma same_waits_slot [simp]:
  "same_waits s (s\<lparr>em_slots := n, em_tasks := (em_tasks s)[t := (em_tasks s ! t)\<lparr>tk_slot := b\<rparr>]\<rparr>)"
proof -
  have "tk_item ((em_tasks s)[t := (em_tasks s ! t)\<lparr>tk_slot := b\<rparr>] ! u) = tk_item (em_tasks s ! u)"
    "tk_stage ((em_tasks s)[t := (em_tasks s ! t)\<lparr>tk_slot := b\<rparr>] ! u) = tk_stage (em_tasks s ! u)" for u
    by (cases "t < length (em_tasks s)"; simp add: nth_list_update list_update_beyond not_less)+
  then show ?thesis by (simp add: same_waits_def stage_of_def item_of_def fun_eq_iff)
qed

lemma same_waits_release [simp]: "same_waits s (releaseSlot t s)"
proof (cases "tk_slot (em_tasks s ! t)")
  case False
  then show ?thesis by (simp add: releaseSlot_def same_waits_def)
qed (simp add: releaseSlot_def)

lemma same_waits_trans: "same_waits s s' \<Longrightarrow> same_waits s' s'' \<Longrightarrow> same_waits s s''"
  by (auto simp: same_waits_def)

lemma stage_set: "stage_of s t \<noteq> Gone \<Longrightarrow> stage_of (set_stage t st s) u = (if u = t then st else stage_of s u)"
  by (frule stage_length) (cases "u = t"; simp add: set_stage_def stage_of_def)

lemma item_set [simp]: "item_of (set_stage t st s) u = item_of s u"
  by (cases "t < length (em_tasks s)") (simp_all add: set_stage_def item_of_def nth_list_update list_update_beyond not_less)

lemma waits_set [simp]:
  "em_waiting (set_stage t st s) = em_waiting s" "em_settled (set_stage t st s) = em_settled s"
  "em_nextPromise (set_stage t st s) = em_nextPromise s" "is_settled (set_stage t st s) p = is_settled s p"
  by (simp_all add: set_stage_def is_settled_def)

lemma wait_ok_stage:
  assumes "wait_ok s" and "stage_of s t \<noteq> Gone" and "\<And>p. stage_of s t = AfterBatch (Some p) \<Longrightarrow> is_settled s p"
    and "\<And>p. st \<noteq> AfterBatch (Some p)" and "\<And>p si. st = AfterPrevious (Some p) si \<Longrightarrow> is_settled s p"
  shows "wait_ok (set_stage t st s)"
proof -
  note d = wait_okD [OF assms(1)]
  have "\<exists>u. (if u = t then st else stage_of s u) = AfterBatch (Some (wi_promise w)) \<and> ei_path (item_of s u) = k"
    if w: "jm_get (em_waiting s) k = Some w" for k w
  proof -
    obtain u where u: "stage_of s u = AfterBatch (Some (wi_promise w))" "ei_path (item_of s u) = k" "\<not> is_settled s (wi_promise w)"
      using d(2) [OF w] by blast
    then have "u \<noteq> t" using assms(3) by auto
    with u show ?thesis by auto
  qed
  moreover have "\<And>k w. jm_get (em_waiting s) k = Some w \<Longrightarrow> wi_promise w < em_nextPromise s \<and> \<not> is_settled s (wi_promise w)"
    using d(2) by blast
  ultimately show ?thesis
    unfolding wait_ok_def using assms(2,4,5) d(1) d(3) d(4) d(5) d(6) d(7)
    by (auto simp: stage_set)
qed

definition settle_waiting :: "string \<Rightarrow> bool \<times> event_item option \<Rightarrow> event_manager \<Rightarrow> event_manager" where
  "settle_waiting key v s =
     (case jm_get (em_waiting s) key of
        None \<Rightarrow> s
      | Some w \<Rightarrow> s\<lparr>em_settled := jm_set (wi_promise w) v (em_settled s), em_waiting := jm_delete key (em_waiting s)\<rparr>)"

lemma settles: "proceedWaiting key s = settle_waiting key (True, None) s" "cancelWaiting key c s = settle_waiting key (False, Some c) s"
  by (simp_all add: settle_waiting_def proceedWaiting_def cancelWaiting_def)

lemma settle_frames [simp]:
  "stage_of (settle_waiting key v s) t = stage_of s t" "item_of (settle_waiting key v s) t = item_of s t"
  "em_nextPromise (settle_waiting key v s) = em_nextPromise s" "em_enqueued (settle_waiting key v s) = em_enqueued s"
  "em_tasks (settle_waiting key v s) = em_tasks s"
  "em_waiting (settle_waiting key v s) = jm_delete key (em_waiting s)"
  by (auto simp: settle_waiting_def stage_of_def item_of_def delete_id map_of_eq_None_iff split: option.split)

lemma settle_settled:
  "jm_get (em_settled (settle_waiting key v s)) p =
    (case jm_get (em_waiting s) key of Some w \<Rightarrow> if p = wi_promise w then Some v else jm_get (em_settled s) p
     | None \<Rightarrow> jm_get (em_settled s) p)"
  by (auto simp: settle_waiting_def split: option.split)

lemma settle_is_settled:
  "is_settled (settle_waiting key v s) p \<longleftrightarrow> is_settled s p \<or> (\<exists>w. jm_get (em_waiting s) key = Some w \<and> p = wi_promise w)"
  by (auto simp: is_settled_def jm_has_def settle_settled split: option.split)

lemma wait_ok_settle:
  assumes "wait_ok s"
    and "\<And>c. v = (False, c) \<Longrightarrow> \<exists>c'. c = Some c' \<and> ei_path c' = key \<and> c' \<in> set (em_enqueued s)"
  shows "wait_ok (settle_waiting key v s)"
proof -
  note d = wait_okD [OF assms(1)]
  let ?s = "settle_waiting key v s"
  have "wi_promise w < em_nextPromise ?s \<and> \<not> is_settled ?s (wi_promise w) \<and>
        (\<exists>t. stage_of ?s t = AfterBatch (Some (wi_promise w)) \<and> ei_path (item_of ?s t) = k)"
    if w: "jm_get (em_waiting ?s) k = Some w" for k w
  proof -
    have w': "jm_get (em_waiting s) k = Some w" "k \<noteq> key" using w by (auto split: if_splits)
    have "wi_promise w \<noteq> wi_promise w2" if w2: "jm_get (em_waiting s) key = Some w2" for w2
    proof
      assume same: "wi_promise w = wi_promise w2"
      obtain t u where "stage_of s t = AfterBatch (Some (wi_promise w))" "ei_path (item_of s t) = k"
        "stage_of s u = AfterBatch (Some (wi_promise w2))" "ei_path (item_of s u) = key"
        using d(2) [OF w'(1)] d(2) [OF w2] by blast
      then show False using d(6) [of t "wi_promise w" u] same w'(2) by auto
    qed
    then show ?thesis using d(2) [OF w'(1)] by (auto simp: settle_is_settled)
  qed
  moreover have "p < em_nextPromise ?s \<and>
        (is_settled ?s p \<or> (\<exists>w. jm_get (em_waiting ?s) (ei_path (item_of ?s t)) = Some w \<and> wi_promise w = p))"
    if "stage_of ?s t = AfterBatch (Some p)" for t p
    using that d(3) [of t p] by (auto simp: settle_is_settled)
  moreover have "\<exists>c. by = Some c \<and> ei_path c = ei_path (item_of ?s t) \<and> c \<in> set (em_enqueued ?s)"
    if t: "stage_of ?s t = AfterBatch (Some p)" and p: "jm_get (em_settled ?s) p = Some (False, by)" for t p "by"
  proof (cases "\<exists>w. jm_get (em_waiting s) key = Some w \<and> p = wi_promise w")
    case True
    then obtain w where w: "jm_get (em_waiting s) key = Some w" "p = wi_promise w" by blast
    obtain u where "stage_of s u = AfterBatch (Some (wi_promise w))" "ei_path (item_of s u) = key" using d(2) [OF w(1)] by blast
    then have "ei_path (item_of s t) = key" using d(6) [of t p u] t w(2) by auto
    moreover have "v = (False, by)" using p w by (auto simp: settle_settled)
    ultimately show ?thesis using assms(2) by auto
  next
    case False
    then have "jm_get (em_settled s) p = Some (False, by)" using p by (auto simp: settle_settled split: option.splits if_splits)
    then show ?thesis using d(7) [of t p "by"] t by simp
  qed
  moreover have "jm_wf (em_waiting ?s)" using d(1) by simp
  moreover have "\<And>t p si. stage_of ?s t = AfterPrevious (Some p) si \<Longrightarrow> is_settled ?s p" using d(4) by (auto simp: settle_is_settled)
  moreover have "\<And>p. is_settled ?s p \<Longrightarrow> p < em_nextPromise ?s" using d(2,5) by (auto simp: settle_is_settled)
  moreover have "\<And>t u p. stage_of ?s t = AfterBatch (Some p) \<and> stage_of ?s u = AfterBatch (Some p) \<Longrightarrow> t = u" using d(6) by auto
  ultimately show ?thesis unfolding wait_ok_def by blast
qed

lemma wait_ok_proceed: "wait_ok s \<Longrightarrow> wait_ok (proceedWaiting key s)"
  unfolding settles by (rule wait_ok_settle) auto

lemma wait_ok_cancel: "wait_ok s \<Longrightarrow> ei_path c = key \<Longrightarrow> c \<in> set (em_enqueued s) \<Longrightarrow> wait_ok (cancelWaiting key c s)"
  unfolding settles by (rule wait_ok_settle) auto

lemma addWaiting_Some:
  assumes "addWaiting cfg now key event since s = Some (p, s1)"
  shows "p = em_nextPromise s \<and> jm_get (em_waiting s) key = None \<and>
    (\<exists>w. wi_promise w = p \<and> wi_event w = event \<and>
       s1 = s\<lparr>em_waiting := jm_set key w (em_waiting s), em_nextPromise := Suc p\<rparr>)"
proof -
  let ?since = "case since of Some t \<Rightarrow> t | None \<Rightarrow> now"
  let ?w = "\<lparr>wi_since = ?since, wi_type = ei_type event, wi_promise = em_nextPromise s, wi_event = event,
    wi_delay = min (max 0 (es_batchSaveMaximumDelay cfg * 1000 - (now - ?since))) (es_batchSaveMinimumDelay cfg * 1000)\<rparr>"
  have "\<not> jm_has (em_waiting s) key" "p = em_nextPromise s"
    "s1 = s\<lparr>em_waiting := jm_set key ?w (em_waiting s), em_nextPromise := Suc p\<rparr>"
    using assms by (auto simp: addWaiting_def Let_def split: if_splits)
  then show ?thesis by (auto simp: jm_has_def intro!: exI [of _ ?w])
qed

lemma wait_ok_add:
  assumes "wait_ok s" and "stage_of s t = AfterPrevious prev si"
    and "addWaiting cfg now (ei_path (item_of s t)) fei since s = Some (p, s1)"
  shows "wait_ok (set_stage t (AfterBatch (Some p)) s1)"
proof -
  note d = wait_okD [OF assms(1)]
  obtain w where p: "p = em_nextPromise s" and w: "wi_promise w = p" and none: "jm_get (em_waiting s) (ei_path (item_of s t)) = None"
    and s1: "s1 = s\<lparr>em_waiting := jm_set (ei_path (item_of s t)) w (em_waiting s), em_nextPromise := Suc p\<rparr>"
    using addWaiting_Some [OF assms(3)] by blast
  have st: "stage_of (set_stage t (AfterBatch (Some p)) s1) u = (if u = t then AfterBatch (Some p) else stage_of s u)" for u
    using assms(2) by (subst stage_set) (simp_all add: s1)
  have it: "item_of (set_stage t (AfterBatch (Some p)) s1) u = item_of s u" for u by (simp add: s1 item_of_def [of "s\<lparr>em_waiting := _, em_nextPromise := _\<rparr>"] item_of_def [of s])
  have se: "is_settled (set_stage t (AfterBatch (Some p)) s1) q = is_settled s q" for q by (simp add: s1 is_settled_def)
  have other: "stage_of s u \<noteq> AfterBatch (Some p)" "\<not> is_settled s p" for u using d(3) [of u p] d(5) [of p] p by auto
  have old: "wi_promise x < p \<and> (\<exists>u. u \<noteq> t \<and> stage_of s u = AfterBatch (Some (wi_promise x)) \<and> ei_path (item_of s u) = k) \<and>
      \<not> is_settled s (wi_promise x)" if x: "jm_get (em_waiting s) k = Some x" for k x
  proof -
    obtain u where "stage_of s u = AfterBatch (Some (wi_promise x))" "ei_path (item_of s u) = k" using d(2) [OF x] by blast
    moreover from this have "u \<noteq> t" using assms(2) by auto
    ultimately show ?thesis using d(2) [OF x] p by blast
  qed
  let ?s = "set_stage t (AfterBatch (Some p)) s1"
  have wt: "jm_get (em_waiting ?s) k = (if k = ei_path (item_of s t) then Some w else jm_get (em_waiting s) k)" for k
    by (simp add: s1)
  have nx: "em_nextPromise ?s = Suc p" and sd: "em_settled ?s = em_settled s" and en: "em_enqueued ?s = em_enqueued s"
    by (simp_all add: s1)
  have "wi_promise x < em_nextPromise ?s \<and> \<not> is_settled ?s (wi_promise x) \<and>
      (\<exists>u. stage_of ?s u = AfterBatch (Some (wi_promise x)) \<and> ei_path (item_of ?s u) = k)"
    if x: "jm_get (em_waiting ?s) k = Some x" for k x
  proof (cases "k = ei_path (item_of s t)")
    case True
    then have "x = w" using x unfolding wt by simp
    moreover have "stage_of ?s t = AfterBatch (Some p) \<and> ei_path (item_of ?s t) = k" using True by (simp only: st it) simp
    moreover have "\<not> is_settled ?s p" using other(2) unfolding se .
    moreover have "p < em_nextPromise ?s" by (simp add: s1)
    ultimately show ?thesis using w by blast
  next
    case False
    then have "jm_get (em_waiting s) k = Some x" using x unfolding wt by simp
    from old [OF this] obtain u where "wi_promise x < p" "u \<noteq> t" "stage_of s u = AfterBatch (Some (wi_promise x))"
      "ei_path (item_of s u) = k" "\<not> is_settled s (wi_promise x)" by blast
    then show ?thesis unfolding st it se nx by (auto intro!: exI [of _ u])
  qed
  moreover have "q < em_nextPromise ?s \<and>
      (is_settled ?s q \<or> (\<exists>x. jm_get (em_waiting ?s) (ei_path (item_of ?s u)) = Some x \<and> wi_promise x = q))"
    if u: "stage_of ?s u = AfterBatch (Some q)" for u q
  proof (cases "u = t")
    case True
    then show ?thesis using u w unfolding st it wt nx by auto
  next
    case False
    then have u': "stage_of s u = AfterBatch (Some q)" using u unfolding st by simp
    from d(3) [OF u'] none show ?thesis using p unfolding it wt se nx by auto
  qed
  moreover have "jm_wf (em_waiting ?s)" using d(1) by (simp add: s1)
  moreover have "\<And>u q sx. stage_of ?s u = AfterPrevious (Some q) sx \<Longrightarrow> is_settled ?s q"
    using d(4) unfolding st se by (auto split: if_splits)
  moreover have "\<And>q. is_settled ?s q \<Longrightarrow> q < em_nextPromise ?s" using d(5) p unfolding se nx by (auto simp: less_Suc_eq)
  moreover have "\<And>u v q. stage_of ?s u = AfterBatch (Some q) \<and> stage_of ?s v = AfterBatch (Some q) \<Longrightarrow> u = v"
    using d(6) other(1) unfolding st by (auto split: if_splits)
  moreover have "\<exists>c. by = Some c \<and> ei_path c = ei_path (item_of ?s u) \<and> c \<in> set (em_enqueued ?s)"
    if u: "stage_of ?s u = AfterBatch (Some q)" and q: "jm_get (em_settled ?s) q = Some (False, by)" for u q "by"
  proof -
    have q': "jm_get (em_settled s) q = Some (False, by)" using q unfolding sd .
    then have "is_settled s q" by (simp add: is_settled_def jm_has_def)
    then have "stage_of s u = AfterBatch (Some q)" using u other(2) unfolding st by (auto split: if_splits)
    from d(7) [OF this q'] show ?thesis unfolding it en .
  qed
  ultimately show ?thesis unfolding wait_ok_def by blast
qed

lemma wait_ok_start: "wait_ok s \<Longrightarrow> wait_ok (startTask e s)"
proof -
  assume ok: "wait_ok s"
  note d = wait_okD [OF ok]
  have st: "stage_of (startTask e s) u = (if u = length (em_tasks s) then Acquiring else stage_of s u)" for u
    by (auto simp: startTask_def stage_of_def nth_append)
  have it: "item_of (startTask e s) u = item_of s u" if "stage_of s u \<noteq> Gone" for u
    using stage_length [OF that] by (simp add: startTask_def item_of_def nth_append)
  have new: "stage_of s (length (em_tasks s)) = Gone" by (simp add: stage_of_def)
  have fr: "em_waiting (startTask e s) = em_waiting s" "em_settled (startTask e s) = em_settled s"
    "em_nextPromise (startTask e s) = em_nextPromise s" "is_settled (startTask e s) p = is_settled s p" for p
    by (simp_all add: startTask_def is_settled_def)
  have "\<exists>t. stage_of (startTask e s) t = AfterBatch (Some (wi_promise w)) \<and> ei_path (item_of (startTask e s) t) = k"
    if w: "jm_get (em_waiting s) k = Some w" for k w
  proof -
    obtain t where t: "stage_of s t = AfterBatch (Some (wi_promise w))" "ei_path (item_of s t) = k" using d(2) [OF w] by blast
    then have "t \<noteq> length (em_tasks s)" using new by auto
    with t show ?thesis using it [of t] st [of t] by (intro exI [of _ t]) auto
  qed
  then have "\<And>k w. jm_get (em_waiting s) k = Some w \<Longrightarrow> wi_promise w < em_nextPromise s \<and> \<not> is_settled s (wi_promise w) \<and>
      (\<exists>t. stage_of (startTask e s) t = AfterBatch (Some (wi_promise w)) \<and> ei_path (item_of (startTask e s) t) = k)"
    using d(2) by blast
  moreover have "stage_of s t = AfterBatch (Some p) \<and> item_of (startTask e s) t = item_of s t"
    if "stage_of (startTask e s) t = AfterBatch (Some p)" for t p
    using that it [of t] by (auto simp: st split: if_splits)
  moreover have "stage_of s t = AfterPrevious (Some p) si" if "stage_of (startTask e s) t = AfterPrevious (Some p) si" for t p si
    using that by (auto simp: st split: if_splits)
  ultimately show ?thesis
  proof (intro wait_okI, goal_cases)
    case 1
    then show ?case using d(1) unfolding fr by blast
  next
    case (2 k w)
    then show ?case unfolding fr by blast
  next
    case (3 t p)
    then show ?case using d(3) [of t p] unfolding fr by auto
  next
    case (4 t p si)
    then show ?case using d(4) unfolding fr by blast
  next
    case (5 p)
    then show ?case using d(5) unfolding fr by blast
  next
    case (6 t u p)
    then show ?case using d(6) by blast
  next
    case (7 t p "by")
    then show ?case using d(7) [of t p "by"] unfolding fr enqueued_frames by auto
  qed
qed

lemma wait_ok_idle: "wait_ok s \<Longrightarrow> wait_ok (snd (waitForIdle s))"
proof -
  assume ok: "wait_ok s"
  have "wait_ok t \<Longrightarrow> wait_ok (foldl (\<lambda>t k. proceedWaiting k t) t ks)" for t ks
    by (induction ks arbitrary: t) (auto intro: wait_ok_proceed)
  with ok have "wait_ok (foldl (\<lambda>t k. proceedWaiting k t) s (jm_keys (em_waiting s)))" by blast
  then have "wait_ok ((foldl (\<lambda>t k. proceedWaiting k t) s (jm_keys (em_waiting s)))\<lparr>em_idle := i\<rparr>)" for i
    by (rule wait_ok_same) simp
  with ok show ?thesis by (simp add: waitForIdle_def Let_def split: option.split)
qed

lemma wait_ok_simple:
  assumes "wait_ok s" and "stage_of s t \<noteq> Gone" and "\<And>p. stage_of s t \<noteq> AfterBatch (Some p)"
    and "\<And>p. st \<noteq> AfterBatch (Some p)" and "\<And>p si. st \<noteq> AfterPrevious (Some p) si"
  shows "wait_ok (set_stage t st s)"
  by (rule wait_ok_stage) (use assms in auto)

lemma wait_ok_snapshot: "wait_ok s \<Longrightarrow> wait_ok (takeSnapshot s)"
  by (erule wait_ok_same) simp

lemma wait_ok_outcome:
  assumes "wait_ok s" and "stage_of s t \<noteq> Gone" and "\<And>p. stage_of s t = AfterBatch (Some p) \<Longrightarrow> is_settled s p"
    and "\<And>p. st \<noteq> AfterBatch (Some p)" and "\<And>p si. st \<noteq> AfterPrevious (Some p) si"
  shows "wait_ok (ends_with_outcome t out st s)"
  unfolding ends_with_outcome_def
proof (rule wait_ok_stage)
  show "wait_ok (s\<lparr>em_ends := em_ends s @ [(item_of s t, out)]\<rparr>)" by (rule wait_ok_same [OF assms(1)]) simp
qed (use assms in \<open>auto simp: is_settled_def\<close>)

lemma wait_ok_request:
  assumes "wait_ok s" and "stage_of s t \<noteq> Gone" and "\<And>p. stage_of s t = AfterBatch (Some p) \<Longrightarrow> is_settled s p"
  shows "wait_ok (requestProcessQueue t s)"
  unfolding requestProcessQueue_def
proof (rule wait_ok_stage)
  show "wait_ok (s\<lparr>em_processing := Suc (em_processing s)\<rparr>)" by (rule wait_ok_same [OF assms(1)]) simp
qed (use assms in \<open>auto simp: is_settled_def\<close>)

lemma wait_ok_handle:
  assumes "wait_ok s" and "stage_of s t \<noteq> Gone" and "\<And>p. stage_of s t \<noteq> AfterBatch (Some p)"
  shows "wait_ok (handleFileEvent t s)"
  unfolding handleFileEvent_def using assms by (auto intro!: wait_ok_snapshot wait_ok_outcome wait_ok_simple)

section \<open>Every step keeps the invariants\<close>

lemma wait_ok_slotGranted:
  assumes "wait_ok s" and "mset (em_enqueued s) = everywhere s" and "slotGranted t s = Some s'"
  shows "wait_ok s'"
proof -
  let ?s1 = "s\<lparr>em_slots := Suc (em_slots s), em_tasks := (em_tasks s)[t := (em_tasks s ! t)\<lparr>tk_slot := True\<rparr>]\<rparr>"
  have st: "stage_of s t = Acquiring" using assms(3) by (auto simp: slotGranted_def split: if_splits)
  have same: "same_waits s ?s1" by simp
  then have f: "stage_of ?s1 = stage_of s" "item_of ?s1 = item_of s" "em_waiting ?s1 = em_waiting s" by (auto simp: same_waits_def)
  have ok: "wait_ok ?s1" using wait_ok_same [OF assms(1) same] .
  have enq: "item_of s t \<in> set (em_enqueued s)" using live_enqueued [OF assms(2)] st by simp
  show ?thesis
  proof (cases "jm_get (em_waiting s) (ei_path (item_of s t))")
    case None
    then have "s' = set_stage t (AfterPrevious None None) ?s1" using assms(3) st by (simp add: slotGranted_def Let_def)
    moreover have "wait_ok (set_stage t (AfterPrevious None None) ?s1)"
      by (rule wait_ok_stage [OF ok]) (simp_all only: f st, simp_all)
    ultimately show ?thesis by simp
  next
    case (Some w)
    have go: "wait_ok (set_stage t (AfterPrevious (Some (wi_promise w)) si) (settle_waiting (ei_path (item_of s t)) v ?s1))"
      if "wait_ok (settle_waiting (ei_path (item_of s t)) v ?s1)" for si v
      using Some st
      by (intro wait_ok_stage [OF that]) (simp_all only: settle_frames settle_is_settled f st, simp_all)
    have c: "wait_ok (cancelWaiting (ei_path (item_of s t)) (item_of s t) ?s1)"
      using ok enq by (intro wait_ok_cancel) auto
    have p: "wait_ok (proceedWaiting (ei_path (item_of s t)) ?s1)" using ok by (rule wait_ok_proceed)
    show ?thesis using assms(3) st Some c p go by (auto simp: slotGranted_def Let_def settles split: if_splits)
  qed
qed

lemma wait_ok_previousDone:
  assumes "wait_ok s" and "previousDone t cfg now s = Some s'"
  shows "wait_ok s'"
proof -
  obtain prev si where st: "stage_of s t = AfterPrevious prev si" using assms(2) by (auto simp: previousDone_def split: stage.splits)
  have r: "wait_ok (requestProcessQueue t s)" by (rule wait_ok_request [OF assms(1)]) (simp_all add: st)
  have b: "wait_ok (set_stage t (AfterBatch None) s)" by (rule wait_ok_simple [OF assms(1)]) (simp_all add: st)
  have o: "wait_ok (takeSnapshot (ends_with_outcome t AlreadyWaiting Finishing s))"
    by (rule wait_ok_snapshot, rule wait_ok_outcome [OF assms(1)]) (simp_all add: st)
  show ?thesis using assms(2) st r b o wait_ok_add [OF assms(1) st]
    by (auto simp: previousDone_def Let_def split: if_splits option.splits)
qed

lemma wait_ok_batchDone:
  assumes "wait_ok s" and "batchDone t s = Some s'"
  shows "wait_ok s'"
proof -
  obtain pr where st: "stage_of s t = AfterBatch pr" using assms(2) by (auto simp: batchDone_def split: stage.splits)
  have settled: "is_settled s p" if "pr = Some p" for p
    using assms(2) st that by (auto simp: batchDone_def is_settled_def jm_has_def split: option.splits)
  have r: "wait_ok (requestProcessQueue t s)" by (rule wait_ok_request [OF assms(1)]) (use st settled in auto)
  have o: "wait_ok (takeSnapshot (ends_with_outcome t out Finishing s))" for out
    by (rule wait_ok_snapshot, rule wait_ok_outcome [OF assms(1)]) (use st settled in auto)
  show ?thesis using assms(2) st r o by (auto simp: batchDone_def split: option.splits bool.splits)
qed

lemma wait_ok_locked:
  assumes "wait_ok s"
  shows "lockGranted t s = Some s' \<Longrightarrow> wait_ok s'" and "laneGranted t s = Some s' \<Longrightarrow> wait_ok s'"
proof -
  have rel: "wait_ok (releaseSlot t s)" using wait_ok_same [OF assms] by simp
  have "wait_ok (set_stage t InLane (releaseSlot t s))" if "stage_of s t = Locking"
    by (rule wait_ok_simple [OF rel]) (simp_all add: that)
  moreover have "wait_ok (handleFileEvent t s)" if "stage_of s t = Locking \<or> stage_of s t = InLane"
    by (rule wait_ok_handle [OF assms]) (use that in auto)
  ultimately show "lockGranted t s = Some s' \<Longrightarrow> wait_ok s'" and "laneGranted t s = Some s' \<Longrightarrow> wait_ok s'"
    by (auto simp: lockGranted_def laneGranted_def split: if_splits)
qed

lemma wait_ok_handled:
  assumes "wait_ok s" and "mset (em_enqueued s) = everywhere s" and "handlerAnswered t ok s = Some s'"
  shows "wait_ok s'"
proof -
  have st: "stage_of s t = Handling" using assms(3) by (auto simp: handlerAnswered_def split: if_splits)
  have c: "wait_ok (cancelWaiting (ei_path (item_of s t)) (item_of s t) s)"
    using assms(1) live_enqueued [OF assms(2), of t] st by (intro wait_ok_cancel) auto
  have o: "wait_ok (ends_with_outcome t out Returning u)" if "wait_ok u" "stage_of u t = Handling" for out u
    by (rule wait_ok_outcome [OF that(1)]) (simp_all add: that(2))
  show ?thesis using assms(1,3) st c by (auto simp: handlerAnswered_def Let_def intro!: wait_ok_snapshot o split: if_splits option.splits)
qed

lemma wait_ok_finish:
  assumes "wait_ok s"
  shows "requestDone t s = Some s' \<Longrightarrow> wait_ok s'" and "snapshotSaved t ok s = Some s' \<Longrightarrow> wait_ok s'"
proof -
  have go: "wait_ok (set_stage t st u)" if "wait_ok u" "stage_of u t = stage_of s t" "stage_of s t \<in> {Returning, Finishing}"
    "st \<in> {Finishing, Gone}" for u st
    by (rule wait_ok_simple [OF that(1)]) (use that in auto)
  have u: "wait_ok (s\<lparr>em_processing := n\<rparr>)" "wait_ok (releaseSlot t s)" "wait_ok (s\<lparr>em_leaked := n\<rparr>)" for n
    using wait_ok_same [OF assms] by simp_all
  show "requestDone t s = Some s' \<Longrightarrow> wait_ok s'" and "snapshotSaved t ok s = Some s' \<Longrightarrow> wait_ok s'"
    using go u assms by (auto simp: requestDone_def snapshotSaved_def intro!: wait_ok_snapshot split: if_splits)
qed

lemma wait_ok_runner:
  assumes "wait_ok s"
  shows "runnerHead r s = Some s' \<Longrightarrow> wait_ok s'" and "runnerSaved r ok s = Some s' \<Longrightarrow> wait_ok s'"
    and "runnerGranted r s = Some s' \<Longrightarrow> wait_ok s'" and "runnerSettled r s = Some s' \<Longrightarrow> wait_ok s'"
    and "runnerIdle r s = Some s' \<Longrightarrow> wait_ok s'"
proof -
  have f: "wait_ok u \<Longrightarrow> wait_ok (set_rstage r st u)" "wait_ok u \<Longrightarrow> wait_ok (u\<lparr>em_buffer := b\<rparr>)"
    "wait_ok u \<Longrightarrow> wait_ok (u\<lparr>em_ends := x\<rparr>)" "wait_ok u \<Longrightarrow> wait_ok (u\<lparr>em_runners := y\<rparr>)" for u st b x y
    by (erule wait_ok_same, simp)+
  have i: "wait_ok u \<Longrightarrow> wait_ok (runnerWaitsIdle r u)" for u
    using f(1) [OF wait_ok_idle [of u]] by (simp add: runnerWaitsIdle_def case_prod_beta)
  show "runnerHead r s = Some s' \<Longrightarrow> wait_ok s'"
    using f assms by (auto simp: runnerHead_def intro!: wait_ok_snapshot split: if_splits)
  show "runnerSaved r ok s = Some s' \<Longrightarrow> wait_ok s'"
    using f assms by (auto simp: runnerSaved_def split: runner_stage.splits buffered.splits if_splits)
  show "runnerGranted r s = Some s' \<Longrightarrow> wait_ok s'"
    using f assms i wait_ok_start by (auto simp: runnerGranted_def Let_def split: runner_stage.splits buffered.splits if_splits)
  show "runnerSettled r s = Some s' \<Longrightarrow> wait_ok s'"
    using f assms i by (auto simp: runnerSettled_def Let_def split: runner_stage.splits if_splits)
  show "runnerIdle r s = Some s' \<Longrightarrow> wait_ok s'"
    using f assms by (auto simp: runnerIdle_def split: runner_stage.splits if_splits)
qed

lemma step_wait_ok:
  assumes "wait_ok s" and "mset (em_enqueued s) = everywhere s" and "em_step e s = Some s'"
  shows "wait_ok s'"
proof (cases e)
  case IdleDone
  then show ?thesis using assms(3) wait_ok_same [OF assms(1) same_waits_frames(2)]
    by (auto simp: idleDone_def split: option.splits if_splits)
next
  case (Enqueued i)
  then show ?thesis using assms(3) wait_ok_same [OF assms(1) same_waits_frames(10)] by auto
next
  case IdleAsked
  then show ?thesis using assms(3) wait_ok_idle [OF assms(1)] by auto
next
  case (TimerFires k)
  then show ?thesis using assms(3) wait_ok_proceed [OF assms(1), of k] by auto
next
  case SnapshotDue
  then show ?thesis using assms(3) wait_ok_snapshot [OF assms(1)] by auto
next
  case Unloads
  then show ?thesis using assms(3) wait_ok_same [OF assms(1) same_waits_frames(5)] by auto
next
  case (Restores bs)
  then show ?thesis using assms(3) wait_ok_same [OF assms(1) same_waits_frames(12)] by auto
next
  case StartsRunner
  then show ?thesis using assms(3) wait_ok_same [OF assms(1) same_waits_frames(11)] by auto
next
  case (RunnerHead r)
  then show ?thesis using assms(3) wait_ok_runner(1) [OF assms(1)] by auto
next
  case (RunnerSaved r ok)
  then show ?thesis using assms(3) wait_ok_runner(2) [OF assms(1)] by auto
next
  case (RunnerGranted r)
  then show ?thesis using assms(3) wait_ok_runner(3) [OF assms(1)] by auto
next
  case (RunnerSettled r)
  then show ?thesis using assms(3) wait_ok_runner(4) [OF assms(1)] by auto
next
  case (RunnerIdle r)
  then show ?thesis using assms(3) wait_ok_runner(5) [OF assms(1)] by auto
next
  case (SlotGranted t)
  then show ?thesis using assms(3) wait_ok_slotGranted [OF assms(1,2)] by auto
next
  case (PreviousDone t cfg now)
  then show ?thesis using assms(3) wait_ok_previousDone [OF assms(1)] by auto
next
  case (BatchDone t)
  then show ?thesis using assms(3) wait_ok_batchDone [OF assms(1)] by auto
next
  case (LockGranted t)
  then show ?thesis using assms(3) wait_ok_locked(1) [OF assms(1)] by auto
next
  case (LaneGranted t)
  then show ?thesis using assms(3) wait_ok_locked(2) [OF assms(1)] by auto
next
  case (Handled t ok)
  then show ?thesis using assms(3) wait_ok_handled [OF assms(1,2)] by auto
next
  case (RequestDone t)
  then show ?thesis using assms(3) wait_ok_finish(1) [OF assms(1)] by auto
next
  case (SnapshotSaved t ok)
  then show ?thesis using assms(3) wait_ok_finish(2) [OF assms(1)] by auto
qed

lemma wait_ok_new: "wait_ok new_manager"
  by (rule wait_okI) (simp_all add: new_manager_def stage_of_def is_settled_def jm_has_def)

lemma reachable_wait_ok: "em_reachable s \<Longrightarrow> wait_ok s"
  by (induction rule: em_reachable.induct) (auto intro: wait_ok_new step_wait_ok reachable_accounted)

text \<open>A flush goes on: what it waits for has already settled.\<close>

definition idle_ok :: "event_manager \<Rightarrow> bool" where
  "idle_ok s \<longleftrightarrow> (\<forall>ps. em_idle s = Some ps \<longrightarrow> list_all (is_settled s) ps) \<and>
     (\<forall>r ps. rstage_of s r = RIdle ps \<longrightarrow> list_all (is_settled s) ps)"

definition idle_grows :: "event_manager \<Rightarrow> event_manager \<Rightarrow> bool" where
  "idle_grows s s' \<longleftrightarrow> em_idle s' = em_idle s \<and> em_runners s' = em_runners s \<and> (\<forall>p. is_settled s p \<longrightarrow> is_settled s' p)"

lemma idle_ok_grows: "idle_ok s \<Longrightarrow> idle_grows s s' \<Longrightarrow> idle_ok s'"
proof -
  assume ok: "idle_ok s" and g: "idle_grows s s'"
  have "rstage_of s' r = rstage_of s r" for r using g by (simp add: idle_grows_def rstage_of_def)
  with ok g show ?thesis unfolding idle_ok_def idle_grows_def list_all_iff by metis
qed

lemma idle_grows_trans: "idle_grows s s' \<Longrightarrow> idle_grows s' s'' \<Longrightarrow> idle_grows s s''"
  by (auto simp: idle_grows_def)

lemma idle_grows_frames [simp]:
  "idle_grows s s" "idle_grows s (set_stage t st s)" "idle_grows s (takeSnapshot s)" "idle_grows s (settle_waiting k v s)"
  "idle_grows s (ends_with_outcome t out st s)" "idle_grows s (releaseSlot t s)" "idle_grows s (requestProcessQueue t s)"
  "idle_grows s (s\<lparr>em_slots := n, em_tasks := ts\<rparr>)" "idle_grows s (s\<lparr>em_leaked := n\<rparr>)" "idle_grows s (s\<lparr>em_processing := n\<rparr>)"
  "idle_grows s (s\<lparr>em_buffer := y\<rparr>)" "idle_grows s (s\<lparr>em_ends := x\<rparr>)" "idle_grows s (startTask e s)"
  "idle_grows s (s\<lparr>em_waiting := w, em_nextPromise := n\<rparr>)" "idle_grows s (s\<lparr>em_unloaded := b\<rparr>)" "idle_grows s (enqueue_item e s)"
  by (auto simp: idle_grows_def settle_is_settled set_stage_def takeSnapshot_def ends_with_outcome_def releaseSlot_def
      requestProcessQueue_def startTask_def enqueue_item_def is_settled_def Let_def)
    (auto simp: settle_waiting_def split: option.split)

lemma idle_grows_settles [simp]: "idle_grows s (proceedWaiting k s)" "idle_grows s (cancelWaiting k c s)"
  by (simp_all add: settles)

lemma idle_grows_then:
  assumes "idle_grows s u"
  shows "idle_grows s (set_stage t st u)" and "idle_grows s (takeSnapshot u)" and "idle_grows s (ends_with_outcome t out st u)"
    and "idle_grows s (proceedWaiting k u)" and "idle_grows s (cancelWaiting k c u)"
  by (rule idle_grows_trans [OF assms], simp)+

lemma idle_grows_handle [simp]: "idle_grows s (handleFileEvent t s)"
  by (auto simp: handleFileEvent_def intro: idle_grows_then)

lemma idle_grows_task:
  "slotGranted t s = Some s' \<Longrightarrow> idle_grows s s'" "previousDone t cfg now s = Some s' \<Longrightarrow> idle_grows s s'"
  "batchDone t s = Some s' \<Longrightarrow> idle_grows s s'" "lockGranted t s = Some s' \<Longrightarrow> idle_grows s s'"
  "laneGranted t s = Some s' \<Longrightarrow> idle_grows s s'" "handlerAnswered t ok s = Some s' \<Longrightarrow> idle_grows s s'"
  "requestDone t s = Some s' \<Longrightarrow> idle_grows s s'" "snapshotSaved t k s = Some s' \<Longrightarrow> idle_grows s s'"
proof -
  show "slotGranted t s = Some s' \<Longrightarrow> idle_grows s s'"
    by (auto simp: slotGranted_def Let_def intro!: idle_grows_then split: if_splits option.splits)
  show "previousDone t cfg now s = Some s' \<Longrightarrow> idle_grows s s'"
    by (auto simp: previousDone_def Let_def dest!: addWaiting_Some intro!: idle_grows_then split: if_splits option.splits stage.splits)
  show "batchDone t s = Some s' \<Longrightarrow> idle_grows s s'"
    by (auto simp: batchDone_def intro!: idle_grows_then split: option.splits bool.splits stage.splits)
  show "lockGranted t s = Some s' \<Longrightarrow> idle_grows s s'"
    by (auto simp: lockGranted_def intro!: idle_grows_then split: if_splits)
  show "laneGranted t s = Some s' \<Longrightarrow> idle_grows s s'"
    by (auto simp: laneGranted_def split: if_splits)
  show "handlerAnswered t ok s = Some s' \<Longrightarrow> idle_grows s s'"
    by (auto simp: handlerAnswered_def Let_def intro!: idle_grows_then split: if_splits option.splits)
  show "requestDone t s = Some s' \<Longrightarrow> idle_grows s s'"
    by (auto simp: requestDone_def intro!: idle_grows_then split: if_splits)
  show "snapshotSaved t k s = Some s' \<Longrightarrow> idle_grows s s'"
    by (auto simp: snapshotSaved_def intro!: idle_grows_then split: if_splits)
qed

lemma is_settled_fold: "is_settled s p \<Longrightarrow> is_settled (foldl (\<lambda>t k. proceedWaiting k t) s ks) p"
  by (induction ks arbitrary: s) (auto simp: settles settle_is_settled)

lemma fold_settles_entry:
  "jm_get (em_waiting s) k = Some w \<Longrightarrow> k \<in> set ks \<Longrightarrow> is_settled (foldl (\<lambda>t k. proceedWaiting k t) s ks) (wi_promise w)"
proof (induction ks arbitrary: s)
  case (Cons j ks)
  show ?case
  proof (cases "j = k")
    case True
    then have "is_settled (proceedWaiting j s) (wi_promise w)" using Cons.prems by (auto simp: settles settle_is_settled)
    then show ?thesis by (simp add: is_settled_fold)
  next
    case False
    with Cons show ?thesis by (auto simp: settles)
  qed
qed simp

lemma idle_settles:
  assumes "idle_ok s" and "jm_wf (em_waiting s)"
  shows "list_all (is_settled (snd (waitForIdle s))) (fst (waitForIdle s))" and "idle_ok (snd (waitForIdle s))"
proof -
  let ?ps = "map (\<lambda>e. wi_promise (snd e)) (em_waiting s)"
  let ?f = "foldl (\<lambda>t k. proceedWaiting k t) s (jm_keys (em_waiting s))"
  have entry: "is_settled ?f (wi_promise w)" if "(k, w) \<in> set (em_waiting s)" for k w
  proof (rule fold_settles_entry)
    show "jm_get (em_waiting s) k = Some w" using that assms(2) by (simp add: jm_wf_def)
    show "k \<in> set (jm_keys (em_waiting s))" using that by force
  qed
  then have all: "list_all (is_settled ?f) ?ps" by (auto simp: list_all_iff)
  have idle: "is_settled (u\<lparr>em_idle := i\<rparr>) = is_settled u" for u i by (simp add: is_settled_def fun_eq_iff)
  show "list_all (is_settled (snd (waitForIdle s))) (fst (waitForIdle s))"
    using assms(1) all by (simp add: waitForIdle_def Let_def idle idle_ok_def split: option.split)
  have rs: "rstage_of ?f r = rstage_of s r" for r by (rule proceed_all [of "\<lambda>u. rstage_of u r"]) simp
  have ri: "rstage_of (u\<lparr>em_idle := i\<rparr>) r = rstage_of u r" for u i r by (simp add: rstage_of_def)
  have "idle_ok (?f\<lparr>em_idle := Some ?ps\<rparr>)"
    using assms(1) all is_settled_fold [of s _ "jm_keys (em_waiting s)"]
    unfolding idle_ok_def idle ri rs list_all_iff by auto
  then show "idle_ok (snd (waitForIdle s))"
    using assms(1) by (simp add: waitForIdle_def Let_def split: option.split)
qed

lemma idle_ok_rstage:
  assumes "idle_ok s" and "\<And>ps. st = RIdle ps \<Longrightarrow> list_all (is_settled s) ps"
  shows "idle_ok (set_rstage r st s)"
proof -
  have "is_settled (set_rstage r st s) = is_settled s" "em_idle (set_rstage r st s) = em_idle s"
    by (simp_all add: set_rstage_def is_settled_def fun_eq_iff)
  moreover have "rstage_of (set_rstage r st s) q = (if q = r \<and> r < length (em_runners s) then st else rstage_of s q)" for q
    by (auto simp: set_rstage_def rstage_of_def)
  ultimately show ?thesis using assms by (auto simp: idle_ok_def split: if_splits)
qed

lemma idle_ok_dispatched:
  "idle_ok s \<Longrightarrow> idle_ok (s\<lparr>em_runners := (em_runners s)[r := (em_runners s ! r)\<lparr>rn_dispatched := d\<rparr>]\<rparr>)"
proof -
  let ?s = "s\<lparr>em_runners := (em_runners s)[r := (em_runners s ! r)\<lparr>rn_dispatched := d\<rparr>]\<rparr>"
  have "rstage_of ?s q = rstage_of s q" for q
    by (cases "r < length (em_runners s)") (simp_all add: rstage_of_def nth_list_update list_update_beyond not_less)
  moreover have "is_settled ?s = is_settled s" by (simp add: is_settled_def fun_eq_iff)
  ultimately show "idle_ok s \<Longrightarrow> idle_ok ?s" by (simp add: idle_ok_def)
qed

lemma idle_ok_waits:
  assumes "idle_ok s" and "jm_wf (em_waiting s)"
  shows "idle_ok (runnerWaitsIdle r s)"
  using idle_settles [OF assms] idle_ok_rstage [of "snd (waitForIdle s)" "RIdle (fst (waitForIdle s))" r]
  by (simp add: runnerWaitsIdle_def case_prod_beta)

lemma idle_ok_runner:
  assumes "idle_ok s" and "jm_wf (em_waiting s)"
  shows "runnerHead r s = Some s' \<Longrightarrow> idle_ok s'" and "runnerSaved r ok s = Some s' \<Longrightarrow> idle_ok s'"
    and "runnerGranted r s = Some s' \<Longrightarrow> idle_ok s'" and "runnerSettled r s = Some s' \<Longrightarrow> idle_ok s'"
    and "runnerIdle r s = Some s' \<Longrightarrow> idle_ok s'"
proof -
  have fr: "idle_ok u \<Longrightarrow> idle_grows u v \<Longrightarrow> idle_ok v" for u v by (rule idle_ok_grows)
  have buf: "idle_ok (s\<lparr>em_buffer := b\<rparr>)" "idle_ok (s\<lparr>em_ends := x\<rparr>)" "idle_ok (startTask e s)" for b x e
    using assms(1) by (rule fr, simp)+
  have snap: "idle_ok u \<Longrightarrow> idle_ok (takeSnapshot u)" for u by (erule fr) simp
  show "runnerHead r s = Some s' \<Longrightarrow> idle_ok s'"
    using assms buf by (auto simp: runnerHead_def intro!: snap idle_ok_rstage split: if_splits)
  show "runnerSaved r ok s = Some s' \<Longrightarrow> idle_ok s'"
    using assms buf by (auto simp: runnerSaved_def intro!: idle_ok_rstage split: runner_stage.splits buffered.splits if_splits)
  show "runnerGranted r s = Some s' \<Longrightarrow> idle_ok s'"
    using assms buf by (auto simp: runnerGranted_def Let_def intro!: idle_ok_dispatched idle_ok_rstage idle_ok_waits
        split: runner_stage.splits buffered.splits if_splits)
  show "runnerSettled r s = Some s' \<Longrightarrow> idle_ok s'"
    using assms by (auto simp: runnerSettled_def Let_def intro!: idle_ok_rstage idle_ok_waits idle_ok_dispatched
        split: runner_stage.splits if_splits)
  show "runnerIdle r s = Some s' \<Longrightarrow> idle_ok s'"
    using assms by (auto simp: runnerIdle_def intro!: idle_ok_rstage split: runner_stage.splits if_splits)
qed

lemma idle_ok_startRunner: "idle_ok s \<Longrightarrow> idle_ok (startRunner b s)"
proof -
  assume ok: "idle_ok s"
  have "rstage_of (startRunner b s) r = RIdle ps \<Longrightarrow> rstage_of s r = RIdle ps" for r ps
    by (auto simp: startRunner_def rstage_of_def nth_append split: if_splits)
  moreover have "is_settled (startRunner b s) = is_settled s" "em_idle (startRunner b s) = em_idle s"
    by (simp_all add: startRunner_def is_settled_def fun_eq_iff)
  ultimately show ?thesis using ok unfolding idle_ok_def by metis
qed

lemma step_idle_ok:
  assumes "idle_ok s" and "jm_wf (em_waiting s)" and "em_step e s = Some s'"
  shows "idle_ok s'"
proof -
  have task: "idle_grows s s' \<Longrightarrow> idle_ok s'" using idle_ok_grows [OF assms(1)] .
  have buf: "idle_ok (s\<lparr>em_buffer := x, em_enqueued := y, em_ends := z\<rparr>)" for x y z
    by (rule idle_ok_grows [OF assms(1)]) (simp add: idle_grows_def is_settled_def)
  have restore: "idle_ok (restoreFromSnapshot bs s)" for bs
    using assms(1) by (auto simp: restoreFromSnapshot_def intro!: idle_ok_startRunner buf split: option.split)
  have "rstage_of (s\<lparr>em_idle := None\<rparr>) = rstage_of s" "is_settled (s\<lparr>em_idle := None\<rparr>) = is_settled s"
    by (simp_all add: rstage_of_def is_settled_def fun_eq_iff)
  then have idle: "idle_ok (s\<lparr>em_idle := None\<rparr>)" using assms(1) by (simp add: idle_ok_def)
  show ?thesis
    using assms(3) idle_ok_runner [OF assms(1,2)] task idle_grows_task idle_settles(2) [OF assms(1,2)] restore
      idle_ok_startRunner [OF assms(1)] idle
    by (cases e) (auto simp: idleDone_def split: option.splits if_splits)
qed

lemma reachable_idle_ok: "em_reachable s \<Longrightarrow> idle_ok s"
proof (induction rule: em_reachable.induct)
  case start
  then show ?case by (simp add: new_manager_def idle_ok_def rstage_of_def)
next
  case (step s e s')
  then show ?case using step_idle_ok wait_okD(1) reachable_wait_ok by blast
qed

section \<open>Who supersedes whom\<close>

definition superseded_ok :: "event_manager \<Rightarrow> bool" where
  "superseded_ok s \<longleftrightarrow> (\<forall>(e, out)\<in>set (em_ends s). \<forall>c. out = Superseded c \<longrightarrow> ei_path c = ei_path e \<and> c \<in> set (em_enqueued s))"

lemma ends_frames [simp]:
  "em_ends (takeSnapshot s) = em_ends s" "em_ends (proceedWaiting k s) = em_ends s" "em_ends (cancelWaiting k c s) = em_ends s"
  "em_ends (set_stage t st s) = em_ends s" "em_ends (set_rstage r rst s) = em_ends s" "em_ends (releaseSlot t s) = em_ends s"
  "em_ends (requestProcessQueue t s) = em_ends s" "em_ends (startTask e s) = em_ends s" "em_ends (startRunner b s) = em_ends s"
  "em_ends (enqueue_item e s) = em_ends s"
  "em_ends (ends_with_outcome t out st s) = em_ends s @ [(item_of s t, out)]"
  by (simp_all add: takeSnapshot_def proceedWaiting_def cancelWaiting_def set_stage_def set_rstage_def releaseSlot_def
      requestProcessQueue_def startTask_def startRunner_def enqueue_item_def ends_with_outcome_def Let_def split: option.split)

lemma ends_idle [simp]: "em_ends (snd (waitForIdle s)) = em_ends s" "em_ends (runnerWaitsIdle r s) = em_ends s"
proof -
  show "em_ends (snd (waitForIdle s)) = em_ends s"
    by (simp add: waitForIdle_def Let_def proceed_all [of em_ends] split: option.split)
  then show "em_ends (runnerWaitsIdle r s) = em_ends s" by (simp add: runnerWaitsIdle_def case_prod_beta)
qed

definition plain_ends :: "event_manager \<Rightarrow> event_manager \<Rightarrow> bool" where
  "plain_ends s s' \<longleftrightarrow> (\<forall>(e, out)\<in>set (em_ends s'). (e, out) \<in> set (em_ends s) \<or> (\<forall>c. out \<noteq> Superseded c))"

lemma plain_ends_same: "em_ends s' = em_ends s \<Longrightarrow> plain_ends s s'"
  by (auto simp: plain_ends_def)

lemma plain_ends_steps:
  "slotGranted t s = Some s' \<Longrightarrow> plain_ends s s'" "previousDone t cfg now s = Some s' \<Longrightarrow> plain_ends s s'"
  "lockGranted t s = Some s' \<Longrightarrow> plain_ends s s'" "laneGranted t s = Some s' \<Longrightarrow> plain_ends s s'"
  "handlerAnswered t ok s = Some s' \<Longrightarrow> plain_ends s s'" "requestDone t s = Some s' \<Longrightarrow> plain_ends s s'"
  "snapshotSaved t k s = Some s' \<Longrightarrow> plain_ends s s'" "runnerHead r s = Some s' \<Longrightarrow> plain_ends s s'"
  "runnerSaved r k s = Some s' \<Longrightarrow> plain_ends s s'" "runnerGranted r s = Some s' \<Longrightarrow> plain_ends s s'"
  "runnerSettled r s = Some s' \<Longrightarrow> plain_ends s s'" "runnerIdle r s = Some s' \<Longrightarrow> plain_ends s s'"
  "idleDone s = Some s' \<Longrightarrow> plain_ends s s'" "restoreFromSnapshot bs s = s' \<Longrightarrow> plain_ends s s'"
proof -
  show "slotGranted t s = Some s' \<Longrightarrow> plain_ends s s'"
    by (auto simp: slotGranted_def plain_ends_def Let_def split: if_splits option.splits)
  show "previousDone t cfg now s = Some s' \<Longrightarrow> plain_ends s s'"
    by (auto simp: previousDone_def plain_ends_def Let_def addWaiting_def split: if_splits option.splits stage.splits)
  show "lockGranted t s = Some s' \<Longrightarrow> plain_ends s s'" and "laneGranted t s = Some s' \<Longrightarrow> plain_ends s s'"
    by (auto simp: lockGranted_def laneGranted_def handleFileEvent_def plain_ends_def split: if_splits)
  show "handlerAnswered t ok s = Some s' \<Longrightarrow> plain_ends s s'"
    by (auto simp: handlerAnswered_def plain_ends_def Let_def split: if_splits option.splits)
  show "requestDone t s = Some s' \<Longrightarrow> plain_ends s s'" and "snapshotSaved t k s = Some s' \<Longrightarrow> plain_ends s s'"
    by (auto simp: requestDone_def snapshotSaved_def plain_ends_def split: if_splits)
  show "runnerHead r s = Some s' \<Longrightarrow> plain_ends s s'" and "runnerIdle r s = Some s' \<Longrightarrow> plain_ends s s'"
    and "idleDone s = Some s' \<Longrightarrow> plain_ends s s'"
    by (auto simp: runnerHead_def runnerIdle_def idleDone_def plain_ends_def split: if_splits runner_stage.splits option.splits)
  show "runnerSaved r k s = Some s' \<Longrightarrow> plain_ends s s'"
    by (auto simp: runnerSaved_def plain_ends_def split: if_splits runner_stage.splits buffered.splits)
  show "runnerGranted r s = Some s' \<Longrightarrow> plain_ends s s'" and "runnerSettled r s = Some s' \<Longrightarrow> plain_ends s s'"
    by (auto simp: runnerGranted_def runnerSettled_def plain_ends_def Let_def split: if_splits runner_stage.splits buffered.splits)
  show "restoreFromSnapshot bs s = s' \<Longrightarrow> plain_ends s s'"
    by (auto simp: restoreFromSnapshot_def plain_ends_def split: option.splits if_splits)
qed

lemma superseded_plain:
  assumes "superseded_ok s" and "plain_ends s s'" and "set (em_enqueued s) \<subseteq> set (em_enqueued s')"
  shows "superseded_ok s'"
  unfolding superseded_ok_def
proof (intro ballI, clarify)
  fix e c
  assume "(e, Superseded c) \<in> set (em_ends s')"
  then have "(e, Superseded c) \<in> set (em_ends s)" using assms(2) by (auto simp: plain_ends_def)
  then have "ei_path c = ei_path e \<and> c \<in> set (em_enqueued s)" using assms(1) by (auto simp: superseded_ok_def)
  then show "ei_path c = ei_path e \<and> c \<in> set (em_enqueued s')" using assms(3) by blast
qed

lemma enqueued_grows: "em_step e s = Some s' \<Longrightarrow> set (em_enqueued s) \<subseteq> set (em_enqueued s')"
  by (cases e) (auto dest!: task_keeps runner_keeps simp: keeps_def enqueue_item_def Let_def restoreFromSnapshot_def split: option.splits)

lemma superseded_batchDone:
  assumes "superseded_ok s" and "wait_ok s" and "batchDone t s = Some s'"
  shows "superseded_ok s'"
proof (cases "\<exists>p c. stage_of s t = AfterBatch (Some p) \<and> jm_get (em_settled s) p = Some (False, c)")
  case True
  then obtain p "by" where p: "stage_of s t = AfterBatch (Some p)" "jm_get (em_settled s) p = Some (False, by)" by blast
  obtain c where c: "by = Some c" "ei_path c = ei_path (item_of s t)" "c \<in> set (em_enqueued s)"
    using wait_okD(7) [OF assms(2) p] by blast
  then have "s' = takeSnapshot (ends_with_outcome t (Superseded c) Finishing s)" using assms(3) p by (simp add: batchDone_def)
  then show ?thesis using assms(1) c by (auto simp: superseded_ok_def)
next
  case False
  then have "s' = requestProcessQueue t s"
    using assms(3) by (auto simp: batchDone_def split: stage.splits option.splits bool.splits)
  then show ?thesis using assms(1) by (simp add: superseded_ok_def)
qed

lemma reachable_superseded: "em_reachable s \<Longrightarrow> superseded_ok s"
proof (induction rule: em_reachable.induct)
  case start
  then show ?case by (simp add: new_manager_def superseded_ok_def)
next
  case (step s e s')
  show ?case
  proof (cases "\<exists>t. e = BatchDone t")
    case True
    then show ?thesis using step superseded_batchDone reachable_wait_ok by auto
  next
    case False
    then have "plain_ends s s'"
      using step(2) plain_ends_steps by (cases e) (auto intro: plain_ends_same)
    then show ?thesis using superseded_plain [OF step(3)] enqueued_grows [OF step(2)] by blast
  qed
qed

section \<open>The slots\<close>

definition slot_mark :: "task \<Rightarrow> bool \<times> bool \<times> bool" where
  "slot_mark t = (tk_slot t, tk_stage t = Gone, tk_stage t = Acquiring)"

definition slots_view :: "event_manager \<Rightarrow> nat \<times> nat \<times> (bool \<times> bool \<times> bool) list" where
  "slots_view s = (em_slots s, em_leaked s, map slot_mark (em_tasks s))"

fun slots_right :: "nat \<times> nat \<times> (bool \<times> bool \<times> bool) list \<Rightarrow> bool" where
  "slots_right (n, l, ms) \<longleftrightarrow> n = length (filter (\<lambda>(slot, gone, acq). slot) ms) \<and>
     l = length (filter (\<lambda>(slot, gone, acq). slot \<and> gone) ms) \<and> (\<forall>m\<in>set ms. snd (snd m) \<longrightarrow> \<not> fst m)"

lemma filter_update:
  "i < length xs \<Longrightarrow> length (filter P (xs[i := x])) + (if P (xs ! i) then 1 else 0) =
    length (filter P xs) + (if P x then 1 else 0)"
proof (induction xs arbitrary: i)
  case (Cons y ys)
  then show ?case by (cases i) auto
qed simp

lemma view_frames [simp]:
  "slots_view (takeSnapshot s) = slots_view s" "slots_view (proceedWaiting k s) = slots_view s"
  "slots_view (cancelWaiting k c s) = slots_view s" "slots_view (set_rstage r rst s) = slots_view s"
  "slots_view (startRunner b s) = slots_view s" "slots_view (enqueue_item e s) = slots_view s"
  "slots_view (s\<lparr>em_processing := n\<rparr>) = slots_view s" "slots_view (s\<lparr>em_buffer := y\<rparr>) = slots_view s"
  "slots_view (s\<lparr>em_ends := x\<rparr>) = slots_view s" "slots_view (s\<lparr>em_idle := i\<rparr>) = slots_view s"
  "slots_view (s\<lparr>em_unloaded := b\<rparr>) = slots_view s" "slots_view (s\<lparr>em_runners := z\<rparr>) = slots_view s"
  "slots_view (s\<lparr>em_waiting := w, em_nextPromise := n\<rparr>) = slots_view s"
  "slots_view (s\<lparr>em_enqueued := q\<rparr>) = slots_view s"
  by (simp_all add: slots_view_def takeSnapshot_def proceedWaiting_def cancelWaiting_def set_rstage_def startRunner_def
      enqueue_item_def Let_def split: option.split)

lemma view_settle: "slots_view (settle_waiting k v s) = slots_view s"
  by (simp add: settle_waiting_def slots_view_def split: option.split)

lemma view_idle [simp]: "slots_view (snd (waitForIdle s)) = slots_view s" "slots_view (runnerWaitsIdle r s) = slots_view s"
proof -
  show "slots_view (snd (waitForIdle s)) = slots_view s"
    by (simp add: waitForIdle_def Let_def proceed_all [of slots_view] split: option.split)
  then show "slots_view (runnerWaitsIdle r s) = slots_view s" by (simp add: runnerWaitsIdle_def case_prod_beta)
qed

lemma view_stage:
  assumes "stage_of s t \<notin> {Gone, Acquiring}" and "st \<notin> {Gone, Acquiring}"
  shows "slots_view (set_stage t st s) = slots_view s"
proof -
  have len: "t < length (em_tasks s)" using assms(1) stage_length [of s t] by auto
  then have "slot_mark ((em_tasks s ! t)\<lparr>tk_stage := st\<rparr>) = slot_mark (em_tasks s ! t)"
    using assms by (auto simp: slot_mark_def stage_of_def)
  then show ?thesis using len by (simp add: slots_view_def set_stage_def map_update) (metis length_map list_update_id nth_map)
qed

lemma view_outcome:
  assumes "stage_of s t \<notin> {Gone, Acquiring}" and "st \<notin> {Gone, Acquiring}"
  shows "slots_view (ends_with_outcome t out st s) = slots_view s"
  using assms view_stage [of "s\<lparr>em_ends := em_ends s @ [(item_of s t, out)]\<rparr>" t st] by (simp add: ends_with_outcome_def)

lemma view_request:
  assumes "stage_of s t \<notin> {Gone, Acquiring}"
  shows "slots_view (requestProcessQueue t s) = slots_view s"
  using assms view_stage [of "s\<lparr>em_processing := Suc (em_processing s)\<rparr>" t Locking] by (simp add: requestProcessQueue_def)

lemma view_handle:
  assumes "stage_of s t \<notin> {Gone, Acquiring}"
  shows "slots_view (handleFileEvent t s) = slots_view s"
  using assms by (simp add: handleFileEvent_def view_stage view_outcome)

lemma view_steps:
  "previousDone t cfg now s = Some s' \<Longrightarrow> slots_view s' = slots_view s" "batchDone t s = Some s' \<Longrightarrow> slots_view s' = slots_view s"
  "laneGranted t s = Some s' \<Longrightarrow> slots_view s' = slots_view s" "handlerAnswered t ok s = Some s' \<Longrightarrow> slots_view s' = slots_view s"
  "requestDone t s = Some s' \<Longrightarrow> slots_view s' = slots_view s" "runnerHead r s = Some s' \<Longrightarrow> slots_view s' = slots_view s"
  "runnerSaved r k s = Some s' \<Longrightarrow> slots_view s' = slots_view s" "runnerSettled r s = Some s' \<Longrightarrow> slots_view s' = slots_view s"
  "runnerIdle r s = Some s' \<Longrightarrow> slots_view s' = slots_view s" "idleDone s = Some s' \<Longrightarrow> slots_view s' = slots_view s"
  "restoreFromSnapshot bs s = s' \<Longrightarrow> slots_view s' = slots_view s"
proof -
  show "previousDone t cfg now s = Some s' \<Longrightarrow> slots_view s' = slots_view s"
    by (auto simp: previousDone_def Let_def addWaiting_def view_request view_outcome view_stage split: if_splits option.splits stage.splits)
  show "batchDone t s = Some s' \<Longrightarrow> slots_view s' = slots_view s"
    by (auto simp: batchDone_def view_request view_outcome split: option.splits bool.splits stage.splits)
  show "laneGranted t s = Some s' \<Longrightarrow> slots_view s' = slots_view s"
    by (auto simp: laneGranted_def view_handle split: if_splits)
  show "handlerAnswered t ok s = Some s' \<Longrightarrow> slots_view s' = slots_view s"
    by (auto simp: handlerAnswered_def Let_def view_outcome split: if_splits option.splits)
  show "requestDone t s = Some s' \<Longrightarrow> slots_view s' = slots_view s"
    by (auto simp: requestDone_def view_stage split: if_splits)
  show "runnerHead r s = Some s' \<Longrightarrow> slots_view s' = slots_view s"
    by (auto simp: runnerHead_def split: if_splits)
  show "runnerSaved r k s = Some s' \<Longrightarrow> slots_view s' = slots_view s"
    by (auto simp: runnerSaved_def split: if_splits runner_stage.splits buffered.splits)
  show "runnerSettled r s = Some s' \<Longrightarrow> slots_view s' = slots_view s"
    by (auto simp: runnerSettled_def Let_def split: if_splits runner_stage.splits)
  show "runnerIdle r s = Some s' \<Longrightarrow> slots_view s' = slots_view s"
    by (auto simp: runnerIdle_def split: if_splits runner_stage.splits)
  show "idleDone s = Some s' \<Longrightarrow> slots_view s' = slots_view s"
    by (auto simp: idleDone_def split: if_splits option.splits)
  show "restoreFromSnapshot bs s = s' \<Longrightarrow> slots_view s' = slots_view s"
    by (auto simp: restoreFromSnapshot_def split: if_splits option.splits)
qed

lemma slots_update:
  assumes "slots_right (n, l, ms)" and "i < length ms" and "ms ! i = (slot, gone, acq)" and "\<not> gone" and "m = (slot', gone', acq')"
    and "acq' \<longrightarrow> \<not> slot'"
  shows "slots_right (n + of_bool slot' - of_bool slot, l + of_bool (slot' \<and> gone'), ms[i := m])"
proof -
  have f: "length (filter (\<lambda>(slot, gone, acq). slot) (ms[i := m])) + of_bool slot = n + of_bool slot'"
    "length (filter (\<lambda>(slot, gone, acq). slot \<and> gone) (ms[i := m])) = l + of_bool (slot' \<and> gone')"
    using filter_update [OF assms(2), of "\<lambda>(slot, gone, acq). slot" m]
      filter_update [OF assms(2), of "\<lambda>(slot, gone, acq). slot \<and> gone" m] assms by auto
  have "\<forall>x\<in>set (ms[i := m]). snd (snd x) \<longrightarrow> \<not> fst x"
  proof
    fix x
    assume "x \<in> set (ms[i := m])"
    then have "x = m \<or> x \<in> set ms" using set_update_subset_insert [of ms i m] by auto
    then show "snd (snd x) \<longrightarrow> \<not> fst x" using assms(1,5,6) by auto
  qed
  then show ?thesis using f by simp
qed

lemma marks_nth: "t < length (em_tasks s) \<Longrightarrow> map slot_mark (em_tasks s) ! t = (tk_slot (em_tasks s ! t), stage_of s t = Gone, stage_of s t = Acquiring)"
  by (simp add: slot_mark_def stage_of_def)

lemma slots_granted:
  assumes "slots_right (slots_view s)" and "slotGranted t s = Some s'"
  shows "slots_right (slots_view s')"
proof -
  let ?s1 = "s\<lparr>em_slots := Suc (em_slots s), em_tasks := (em_tasks s)[t := (em_tasks s ! t)\<lparr>tk_slot := True\<rparr>]\<rparr>"
  have st: "stage_of s t = Acquiring" using assms(2) by (auto simp: slotGranted_def split: if_splits)
  then have len: "t < length (em_tasks s)" using stage_length [of s t] by simp
  have noslot: "\<not> tk_slot (em_tasks s ! t)"
  proof -
    have "\<forall>m\<in>set (em_tasks s). snd (snd (slot_mark m)) \<longrightarrow> \<not> fst (slot_mark m)" using assms(1) by (auto simp: slots_view_def)
    then have "snd (snd (slot_mark (em_tasks s ! t))) \<longrightarrow> \<not> fst (slot_mark (em_tasks s ! t))" using len by simp
    then show ?thesis using st len by (simp add: slot_mark_def stage_of_def)
  qed
  have v: "slots_view (set_stage t (AfterPrevious a b) u) = (Suc (em_slots s), em_leaked s, (map slot_mark (em_tasks s))[t := (True, False, False)])"
    if "slots_view u = slots_view ?s1" "em_tasks u = em_tasks ?s1" for u a b
    using that len by (simp add: slots_view_def set_stage_def map_update slot_mark_def)
  have "slots_right (em_slots s + of_bool True - of_bool False, em_leaked s + of_bool (True \<and> False),
      (map slot_mark (em_tasks s))[t := (True, False, False)])"
  proof (rule slots_update [where acq' = False])
    show "slots_right (em_slots s, em_leaked s, map slot_mark (em_tasks s))" using assms(1) by (simp add: slots_view_def)
    show "map slot_mark (em_tasks s) ! t = (False, False, True)" using marks_nth [OF len] st noslot by simp
  qed (use len in simp_all)
  then have "slots_right (slots_view (set_stage t (AfterPrevious a b) u))"
    if "slots_view u = slots_view ?s1" "em_tasks u = em_tasks ?s1" for u a b
    using v [OF that] by simp
  moreover have "slots_view (cancelWaiting k c ?s1) = slots_view ?s1" "em_tasks (cancelWaiting k c ?s1) = em_tasks ?s1"
    "slots_view (proceedWaiting k ?s1) = slots_view ?s1" "em_tasks (proceedWaiting k ?s1) = em_tasks ?s1" for k c
    by (simp_all only: settles settle_frames view_settle)
  ultimately show ?thesis using assms(2) st by (auto simp: slotGranted_def Let_def split: option.splits)
qed

lemma slots_released:
  assumes "slots_right (slots_view s)" and "stage_of s t \<notin> {Gone, Acquiring}" and "st \<noteq> Acquiring"
  shows "slots_right (slots_view (set_stage t st (releaseSlot t s)))"
proof -
  have len: "t < length (em_tasks s)" using assms(2) stage_length [of s t] by auto
  have ms: "map slot_mark (em_tasks s) ! t = (tk_slot (em_tasks s ! t), False, False)" using marks_nth [OF len] assms(2) by simp
  have "slots_view (set_stage t st (releaseSlot t s)) =
      (em_slots s - of_bool (tk_slot (em_tasks s ! t)), em_leaked s, (map slot_mark (em_tasks s))[t := (False, st = Gone, False)])"
    using len assms(3) by (auto simp: slots_view_def releaseSlot_def set_stage_def map_update slot_mark_def)
  moreover have "slots_right (em_slots s + of_bool False - of_bool (tk_slot (em_tasks s ! t)), em_leaked s + of_bool (False \<and> st = Gone),
      (map slot_mark (em_tasks s))[t := (False, st = Gone, False)])"
    by (rule slots_update [where gone = False and acq = False and acq' = False]) (use assms(1) ms len in \<open>simp_all add: slots_view_def\<close>)
  ultimately show ?thesis by simp
qed

lemma slots_leaked:
  assumes "slots_right (slots_view s)" and "stage_of s t = Finishing"
  shows "slots_right (slots_view (set_stage t Gone (if tk_slot (em_tasks s ! t) then s\<lparr>em_leaked := Suc (em_leaked s)\<rparr> else s)))"
proof -
  let ?b = "tk_slot (em_tasks s ! t)"
  have len: "t < length (em_tasks s)" using assms(2) stage_length [of s t] by auto
  have ms: "map slot_mark (em_tasks s) ! t = (?b, False, False)" using marks_nth [OF len] assms(2) by simp
  have "slots_view (set_stage t Gone (if ?b then s\<lparr>em_leaked := Suc (em_leaked s)\<rparr> else s)) =
      (em_slots s, em_leaked s + of_bool ?b, (map slot_mark (em_tasks s))[t := (?b, True, False)])"
    using len by (auto simp: slots_view_def set_stage_def map_update slot_mark_def)
  moreover have "slots_right (em_slots s + of_bool ?b - of_bool ?b, em_leaked s + of_bool (?b \<and> True),
      (map slot_mark (em_tasks s))[t := (?b, True, False)])"
    by (rule slots_update [where gone = False and acq = False and acq' = False]) (use assms(1) ms len in \<open>simp_all add: slots_view_def\<close>)
  ultimately show ?thesis by simp
qed

lemma slots_runnerGranted:
  assumes "slots_right (slots_view s)" and "runnerGranted r s = Some s'"
  shows "slots_right (slots_view s')"
proof -
  have v: "slots_view (startTask e s) = (em_slots s, em_leaked s, map slot_mark (em_tasks s) @ [(False, False, True)])" for e
    by (simp add: slots_view_def startTask_def slot_mark_def)
  have "slots_right (slots_view (startTask e s))" for e
    using assms(1) unfolding v by (auto simp: slots_view_def)
  then show ?thesis using assms by (auto simp: runnerGranted_def Let_def split: runner_stage.splits buffered.splits if_splits)
qed

lemma step_slots:
  assumes "slots_right (slots_view s)" and "em_step e s = Some s'"
  shows "slots_right (slots_view s')"
proof (cases "\<exists>t ok r. e = SlotGranted t \<or> e = LockGranted t \<or> e = SnapshotSaved t ok \<or> e = RunnerGranted r")
  case False
  then have "slots_view s' = slots_view s" using assms(2) view_steps by (cases e) auto
  then show ?thesis using assms(1) by simp
next
  case True
  have leak: "tk_slot (em_tasks s ! t) \<Longrightarrow> slots_right (slots_view (set_stage t Gone (s\<lparr>em_leaked := Suc (em_leaked s)\<rparr>)))"
    "\<not> tk_slot (em_tasks s ! t) \<Longrightarrow> slots_right (slots_view (set_stage t Gone s))" if "stage_of s t = Finishing" for t
    using slots_leaked [OF assms(1) that] by simp_all
  have "slots_right (slots_view s')" if "em_step (LockGranted t) s = Some s'" for t
    using that assms(1) slots_released [OF assms(1)] by (auto simp: lockGranted_def view_handle split: if_splits)
  moreover have "slots_right (slots_view s')" if "em_step (SnapshotSaved t ok) s = Some s'" for t ok
    using that slots_released [OF assms(1), of t Gone] leak [of t] by (simp add: snapshotSaved_def split: if_splits)
  ultimately show ?thesis
    using True assms(2) slots_granted [OF assms(1)] slots_runnerGranted [OF assms(1)] by auto
qed

lemma reachable_slots: "em_reachable s \<Longrightarrow> slots_right (slots_view s)"
proof (induction rule: em_reachable.induct)
  case start
  then show ?case by (simp add: new_manager_def slots_view_def)
next
  case (step s e s')
  then show ?case by (blast intro: step_slots)
qed

section \<open>Properties\<close>

text \<open>
  C13. No event is lost silently. Whatever the order in which slots, locks, timers, handlers and the storage answer,
  every queued event is in exactly one place: in the buffer, in the hand of the runner, being processed, or ended with
  a recorded outcome. An event that was superseded was so by a queued event of the same path.
\<close>

theorem events_accounted:
  assumes "em_reachable s"
  shows "mset (em_enqueued s) = everywhere s \<and>
    (\<forall>e c. (e, Superseded c) \<in> set (em_ends s) \<longrightarrow> ei_path c = ei_path e \<and> c \<in> set (em_enqueued s))"
  using reachable_accounted [OF assms] reachable_superseded [OF assms] by (auto simp: superseded_ok_def)

text \<open>
  C14. No event is stuck. A call that waits for its batch goes on: its promise has settled, or its timer is armed and
  lets it go on to the handler. A call that waits for the previous one of its path can always go on, and so can a
  runner that waits for a flush.
\<close>

theorem waiting_goes_on:
  assumes "em_reachable s"
  shows "(stage_of s t = AfterBatch (Some p) \<longrightarrow> (\<exists>s'. em_step (BatchDone t) s = Some s') \<or>
      (\<exists>s'. em_step (TimerFires (ei_path (item_of s t))) s = Some s' \<and> em_step (BatchDone t) s' = Some (requestProcessQueue t s'))) \<and>
    (stage_of s t = AfterPrevious prev since \<longrightarrow> (\<exists>s'. em_step (PreviousDone t cfg now) s = Some s')) \<and>
    (rstage_of s r = RIdle ps \<longrightarrow> (\<exists>s'. em_step (RunnerIdle r) s = Some s'))"
proof (intro conjI impI)
  note w = reachable_wait_ok [OF assms]
  show "(\<exists>s'. em_step (BatchDone t) s = Some s') \<or>
      (\<exists>s'. em_step (TimerFires (ei_path (item_of s t))) s = Some s' \<and> em_step (BatchDone t) s' = Some (requestProcessQueue t s'))"
    if st: "stage_of s t = AfterBatch (Some p)"
  proof (cases "is_settled s p")
    case True
    then show ?thesis using st by (auto simp: batchDone_def is_settled_def jm_has_def split: bool.split)
  next
    case False
    then obtain x where "jm_get (em_waiting s) (ei_path (item_of s t)) = Some x" "wi_promise x = p"
      using wait_okD(3) [OF w st] by blast
    then have "jm_get (em_settled (proceedWaiting (ei_path (item_of s t)) s)) p = Some (True, None)"
      by (simp add: settles settle_settled)
    then show ?thesis using st by (simp add: batchDone_def)
  qed
  show "\<exists>s'. em_step (PreviousDone t cfg now) s = Some s'" if "stage_of s t = AfterPrevious prev since"
    using that wait_okD(4) [OF w, of t] by (auto simp: previousDone_def Let_def split: option.splits)
  show "\<exists>s'. em_step (RunnerIdle r) s = Some s'" if "rstage_of s r = RIdle ps"
    using that reachable_idle_ok [OF assms] by (simp add: runnerIdle_def idle_ok_def)
qed

text \<open>
  The slots of the semaphore are accounted for: a slot is held by a running call, or it was lost because the last
  snapshot of its call could not be saved.
\<close>

theorem slots_accounted:
  assumes "em_reachable s"
  shows "em_slots s = length (filter (\<lambda>t. tk_slot t \<and> tk_stage t \<noteq> Gone) (em_tasks s)) + em_leaked s"
proof -
  have "length (filter P xs) = length (filter (\<lambda>x. P x \<and> \<not> Q x) xs) + length (filter (\<lambda>x. P x \<and> Q x) xs)" for P Q and xs :: "task list"
    by (induction xs) auto
  from this [of tk_slot "em_tasks s" "\<lambda>t. tk_stage t = Gone"] reachable_slots [OF assms] show ?thesis
    by (simp add: slots_view_def comp_def slot_mark_def)
qed

text \<open>
  Only events of files that the settings cover are queued: the path of a queued event is a target, so is the old
  path of a rename, and what is created, changed or renamed is not too large and was not just written by the program
  itself. In particular a rename out of the covered files is queued as the deletion of the old path, a rename into
  them as the creation of the new one.
\<close>

theorem admitted_events_are_targets:
  assumes "item \<in> set (appendQueue env settings keys unloaded hostUnloaded params)"
  shows "es_isConfigured settings \<and> \<not> es_suspendFileWatching settings \<and> isTargetPath env settings (ei_path item) \<and>
    (ei_type item = RENAME \<longrightarrow> (\<exists>old. ei_oldPath item = Some old \<and> isTargetPath env settings old)) \<and>
    (ei_type item \<in> {CREATE, CHANGED, RENAME} \<longrightarrow>
       (\<exists>n. fi_size (ei_file item) = Some n \<and> \<not> ae_tooLarge env n) \<and>
       \<not> (ae_isFile env (ei_file item) \<and> ae_recentlyTouched env (ei_file item)))"
proof -
  have "\<exists>n param. admit env settings (keys n) param = Admitted item"
    if "item \<in> set (append_loop env settings keys unloaded m params)" for m
    using that by (induction params arbitrary: m) (auto split: admission.splits if_splits)
  moreover have "item \<in> set (append_loop env settings keys unloaded 0 params)" and
    s: "es_isConfigured settings \<and> \<not> es_suspendFileWatching settings"
    using assms by (auto simp: appendQueue_def split: if_splits)
  ultimately obtain n param where a: "admit env settings (keys n) param = Admitted item" by blast
  show ?thesis
  proof (cases "fe_type param = RENAME")
    case True
    then show ?thesis using a s
      by (auto simp: admit_def admit_rename_def Let_def split: if_splits option.splits)
  next
    case False
    then show ?thesis using a s by (cases "fe_type param") (auto simp: admit_def Let_def split: if_splits option.splits)
  qed
qed

section \<open>Examples\<close>

definition sample_file :: "string \<Rightarrow> file_info" where
  "sample_file path = \<lparr>fi_path = path, fi_name = path, fi_size = Some 10, fi_mtime = 1, fi_internal = False, fi_deleted = False\<rparr>"

definition sample_item :: "nat \<Rightarrow> event_item" where
  "sample_item key = \<lparr>ei_type = CHANGED, ei_file = sample_file ''a.md'', ei_oldPath = None, ei_cache = None, ei_key = key,
     ei_restored = False, ei_skipBatchWait = False, ei_cancelled = False\<rparr>"

definition sample_settings :: em_settings where
  "sample_settings = \<lparr>es_isConfigured = True, es_suspendFileWatching = False, es_maxMTimeForReflectEvents = None,
     es_syncInternalFiles = False, es_batchSave = True, es_liveSync = False, es_batchSaveMinimumDelay = 5, es_batchSaveMaximumDelay = 60\<rparr>"

text \<open>Two changes of one file: the second one arrives while the first one waits for its batch.\<close>

definition two_changes :: "em_event list" where
  "two_changes = [Enqueued (sample_item 0), StartsRunner, RunnerHead 0, RunnerSaved 0 True, RunnerGranted 0, SlotGranted 0,
     PreviousDone 0 sample_settings 0, Enqueued (sample_item 1), RunnerHead 0, RunnerSaved 0 True, RunnerGranted 0, SlotGranted 1,
     BatchDone 0, PreviousDone 1 sample_settings 1000]"

lemmas run_simps = enqueue_item_def startRunner_def runnerHead_def runnerSaved_def runnerGranted_def slotGranted_def previousDone_def
  batchDone_def lockGranted_def handlerAnswered_def requestDone_def snapshotSaved_def requestProcessQueue_def handleFileEvent_def
  releaseSlot_def ends_with_outcome_def startTask_def cancelWaiting_def proceedWaiting_def takeSnapshot_def stage_of_def
  rstage_of_def set_stage_def set_rstage_def item_of_def is_settled_def jm_has_def goes_to_handler_def isLargeFileEvent_def
  LARGE_FILE_BYTES_def addWaiting_def shouldBatchSave_def sample_settings_def sample_item_def sample_file_def new_manager_def Let_def

lemma run_two_changes:
  "\<exists>s. run_events two_changes new_manager = Some s \<and> em_ends s = [(sample_item 0, Superseded (sample_item 1))] \<and>
    stage_of s 1 = AfterBatch (Some 1) \<and> em_slots s = 2"
  by (simp add: two_changes_def run_simps)

lemma events_accounted_witness:
  "\<exists>s. run_events two_changes new_manager = Some s \<and> mset (em_enqueued s) = everywhere s \<and>
    (sample_item 0, Superseded (sample_item 1)) \<in> set (em_ends s) \<and> sample_item 1 \<in> set (em_enqueued s)"
proof -
  obtain s where s: "run_events two_changes new_manager = Some s" "em_ends s = [(sample_item 0, Superseded (sample_item 1))]"
    using run_two_changes by blast
  with events_accounted [OF run_reachable [OF em_reachable.start s(1)]] show ?thesis by auto
qed

lemma waiting_goes_on_witness:
  "\<exists>s. run_events two_changes new_manager = Some s \<and> stage_of s 1 = AfterBatch (Some 1) \<and>
    ((\<exists>s'. em_step (BatchDone 1) s = Some s') \<or>
     (\<exists>s'. em_step (TimerFires (ei_path (item_of s 1))) s = Some s' \<and> em_step (BatchDone 1) s' = Some (requestProcessQueue 1 s')))"
proof -
  obtain s where s: "run_events two_changes new_manager = Some s" "stage_of s 1 = AfterBatch (Some 1)"
    using run_two_changes by blast
  with waiting_goes_on [OF run_reachable [OF em_reachable.start s(1)]] show ?thesis by blast
qed

lemma slots_accounted_witness:
  "\<exists>s. run_events two_changes new_manager = Some s \<and> em_slots s = 2 \<and>
    em_slots s = length (filter (\<lambda>t. tk_slot t \<and> tk_stage t \<noteq> Gone) (em_tasks s)) + em_leaked s"
proof -
  obtain s where s: "run_events two_changes new_manager = Some s" "em_slots s = 2"
    using run_two_changes by blast
  with slots_accounted [OF run_reachable [OF em_reachable.start s(1)]] show ?thesis by blast
qed

text \<open>
  A snapshot that can not be saved costs a slot for good: the code releases the slot after the snapshot of its
  \<open>finally\<close>, and not at all when that throws. An event that the runner has taken from the buffer is in no snapshot.
\<close>

lemma slot_lost:
  "\<exists>s. run_events [Enqueued (sample_item 0), StartsRunner, RunnerHead 0, RunnerSaved 0 True, RunnerGranted 0, SlotGranted 0,
     PreviousDone 0 (sample_settings\<lparr>es_batchSave := False\<rparr>) 0, LockGranted 0, Handled 0 (Some True), RequestDone 0,
     SnapshotSaved 0 False] new_manager = Some s \<and> stage_of s 0 = Gone \<and> em_slots s = 1"
  by (simp add: run_simps)

lemma in_hand_not_saved:
  "\<exists>s. run_events [Enqueued (sample_item 0), StartsRunner, RunnerHead 0, RunnerSaved 0 True, RunnerGranted 0, SlotGranted 0,
     PreviousDone 0 (sample_settings\<lparr>es_batchSave := False\<rparr>) 0, LockGranted 0] new_manager = Some s \<and>
     stage_of s 0 = Handling \<and> em_snapshot s = []"
  by (simp add: run_simps)

text \<open>A change whose handler fails takes a newer change of the same file with it.\<close>

lemma failure_drops_newer_change:
  "\<exists>s. run_events [Enqueued (sample_item 0), StartsRunner, RunnerHead 0, RunnerSaved 0 True, RunnerGranted 0, SlotGranted 0,
     PreviousDone 0 (sample_settings\<lparr>es_batchSave := False\<rparr>) 0, LockGranted 0,
     Enqueued (sample_item 1), RunnerHead 0, RunnerSaved 0 True, RunnerGranted 0, SlotGranted 1, PreviousDone 1 sample_settings 0,
     Handled 0 (Some False), BatchDone 1] new_manager = Some s \<and>
     em_ends s = [(sample_item 0, Processed False), (sample_item 1, Superseded (sample_item 0))]"
  by (simp add: run_simps)

definition sample_admit :: admit_env where
  "sample_admit = \<lparr>ae_isFolder = \<lambda>f. False, ae_isFile = \<lambda>f. True, ae_isTargetFile = \<lambda>p. p \<noteq> ''out.md'', ae_tooLarge = \<lambda>n. 100 < n,
     ae_recentlyTouched = \<lambda>f. False\<rparr>"

definition sample_rename :: file_event where
  "sample_rename = \<lparr>fe_type = RENAME, fe_file = sample_file ''b.md'', fe_oldPath = Some ''a.md'', fe_cachedData = None,
     fe_skipBatchWait = True, fe_revalidate = False\<rparr>"

lemma admitted_events_are_targets_witness:
  "\<exists>item. appendQueue sample_admit sample_settings id (\<lambda>n. False) False [sample_rename] = [item] \<and> ei_type item = RENAME \<and>
    isTargetPath sample_admit sample_settings (ei_path item) \<and>
    (\<exists>old. ei_oldPath item = Some old \<and> isTargetPath sample_admit sample_settings old)"
proof -
  have "\<exists>item. appendQueue sample_admit sample_settings id (\<lambda>n. False) False [sample_rename] = [item] \<and> ei_type item = RENAME"
    by (simp add: appendQueue_def sample_settings_def isRemediationModeActive_def admit_def sample_rename_def sample_admit_def admit_rename_def
        sample_file_def isTargetPath_def shouldBeIgnored_def FLAGMD_REDFLAG_def FLAGMD_REDFLAG2_def FLAGMD_REDFLAG2_HR_def
        FLAGMD_REDFLAG3_def FLAGMD_REDFLAG3_HR_def PREFIXMD_LOGFILE_def PREFIXMD_LOGFILE_UC_def starts_with_def)
  then obtain item where i: "appendQueue sample_admit sample_settings id (\<lambda>n. False) False [sample_rename] = [item]" "ei_type item = RENAME"
    by blast
  have "item \<in> set (appendQueue sample_admit sample_settings id (\<lambda>n. False) False [sample_rename])" using i(1) by simp
  from admitted_events_are_targets [OF this] i show ?thesis by auto
qed

end
