(* ===== verification/HostCalls.thy ===== *)
theory HostCalls
  imports Prelude
begin

text \<open>
  Sequences of calls of host services that always settle, and the weakest preconditions to reason about them.
  A call transforms the world and returns a value (\<open>Inr\<close>) or throws (\<open>Inl\<close>). What a postcondition needs of
  the world at the start of a program is computed by the rules in the collection \<open>wp_simps\<close>; the answers of a
  host are arbitrary (\<open>wp_host\<close>).
\<close>

named_theorems wp_simps "weakest preconditions of the program constructs"

type_synonym ('w, 'e, 'a) call = "'w \<Rightarrow> ('e + 'a) \<times> 'w"

definition ret :: "'a \<Rightarrow> ('w, 'e, 'a) call" where
  "ret a w = (Inr a, w)"

definition throw :: "'e \<Rightarrow> ('w, 'e, 'a) call" where
  "throw e w = (Inl e, w)"

definition after :: "('w, 'e, 'a) call \<Rightarrow> ('a \<Rightarrow> ('w, 'e, 'b) call) \<Rightarrow> ('w, 'e, 'b) call" where
  "after m f w = (case m w of (Inl e, w') \<Rightarrow> (Inl e, w') | (Inr a, w') \<Rightarrow> f a w')"

definition modifyW :: "('w \<Rightarrow> 'w) \<Rightarrow> ('w, 'e, unit) call" where
  "modifyW g w = (Inr (), g w)"

definition getW :: "('w \<Rightarrow> 'a) \<Rightarrow> ('w, 'e, 'a) call" where
  "getW g w = (Inr (g w), w)"

text \<open>\<open>try { m } catch (e) { h }\<close>, and \<open>try { m } finally { g }\<close> where \<open>g\<close> cannot throw.\<close>

definition catching :: "('w, 'e, 'a) call \<Rightarrow> ('e \<Rightarrow> ('w, 'f, 'a) call) \<Rightarrow> ('w, 'f, 'a) call" where
  "catching m h w = (case m w of (Inl e, w') \<Rightarrow> h e w' | (Inr a, w') \<Rightarrow> (Inr a, w'))"

definition finally' :: "('w, 'e, 'a) call \<Rightarrow> ('e + 'a \<Rightarrow> 'w \<Rightarrow> 'w) \<Rightarrow> ('w, 'e, 'a) call" where
  "finally' m g w = (case m w of (r, w') \<Rightarrow> (r, g r w'))"

text \<open>What the code knew when the error was thrown.\<close>

definition tagging :: "'t \<Rightarrow> ('w, 'e, 'a) call \<Rightarrow> ('w, 'e \<times> 't, 'a) call" where
  "tagging t m = catching m (\<lambda>e. throw (e, t))"

fun forEach :: "('a \<Rightarrow> ('w, 'e, 'b) call) \<Rightarrow> 'a list \<Rightarrow> ('w, 'e, 'b list) call" where
  "forEach f [] = ret []"
| "forEach f (x # xs) = after (f x) (\<lambda>b. after (forEach f xs) (\<lambda>bs. ret (b # bs)))"

definition wp :: "('w, 'e, 'a) call \<Rightarrow> ('e + 'a \<Rightarrow> 'w \<Rightarrow> bool) \<Rightarrow> 'w \<Rightarrow> bool" where
  "wp m Q w = (case m w of (r, w') \<Rightarrow> Q r w')"

lemma wp_ret [simp, wp_simps]: "wp (ret a) Q w = Q (Inr a) w"
  by (simp add: wp_def ret_def)

lemma wp_throw [simp, wp_simps]: "wp (throw e) Q w = Q (Inl e) w"
  by (simp add: wp_def throw_def)

lemma wp_after [simp, wp_simps]:
  "wp (after m f) Q w = wp m (\<lambda>r w'. case r of Inl e \<Rightarrow> Q (Inl e) w' | Inr a \<Rightarrow> wp (f a) Q w') w"
  by (auto simp: wp_def after_def split: prod.split sum.split)

lemma wp_modifyW [simp, wp_simps]: "wp (modifyW g) Q w = Q (Inr ()) (g w)"
  by (simp add: wp_def modifyW_def)

lemma wp_getW [simp, wp_simps]: "wp (getW g) Q w = Q (Inr (g w)) w"
  by (simp add: wp_def getW_def)

lemma wp_catching [simp, wp_simps]:
  "wp (catching m h) Q w = wp m (\<lambda>r w'. case r of Inl e \<Rightarrow> wp (h e) Q w' | Inr a \<Rightarrow> Q (Inr a) w') w"
  by (auto simp: wp_def catching_def split: prod.split sum.split)

lemma wp_tagging [simp, wp_simps]:
  "wp (tagging t m) Q w = wp m (\<lambda>r w'. case r of Inl e \<Rightarrow> Q (Inl (e, t)) w' | Inr a \<Rightarrow> Q (Inr a) w') w"
  by (simp add: tagging_def cong: sum.case_cong)

lemma wp_finally [simp, wp_simps]: "wp (finally' m g) Q w = wp m (\<lambda>r w'. Q r (g r w')) w"
  by (auto simp: wp_def finally'_def split: prod.split)

lemma wp_if [simp, wp_simps]: "wp (if b then m else n) Q w = (if b then wp m Q w else wp n Q w)"
  by simp

lemma wp_option [simp, wp_simps]:
  "wp (case x of None \<Rightarrow> m | Some a \<Rightarrow> n a) Q w = (case x of None \<Rightarrow> wp m Q w | Some a \<Rightarrow> wp (n a) Q w)"
  by (simp split: option.split)

lemma wp_prod [simp, wp_simps]: "wp (case p of (a, b) \<Rightarrow> m a b) Q w = (case p of (a, b) \<Rightarrow> wp (m a b) Q w)"
  by (simp split: prod.split)

lemma wp_mono: "wp m Q w \<Longrightarrow> (\<And>r w'. Q r w' \<Longrightarrow> R r w') \<Longrightarrow> wp m R w"
  by (auto simp: wp_def split: prod.splits)

lemma wp_conj: "wp m Q w \<Longrightarrow> wp m R w \<Longrightarrow> wp m (\<lambda>r w'. Q r w' \<and> R r w') w"
  by (auto simp: wp_def split: prod.splits)

lemma wpD: "wp m Q w \<Longrightarrow> m w = (r, w') \<Longrightarrow> Q r w'"
  by (simp add: wp_def)

lemma wpI: "(\<And>r w'. m w = (r, w') \<Longrightarrow> Q r w') \<Longrightarrow> wp m Q w"
  by (auto simp: wp_def split: prod.split)

text \<open>The rule of a sequence, with an intermediate assertion.\<close>

lemma wp_seq:
  assumes "wp m (\<lambda>r w'. case r of Inl e \<Rightarrow> Q (Inl e) w' | Inr a \<Rightarrow> I a w') w" and "\<And>a w'. I a w' \<Longrightarrow> wp (f a) Q w'"
  shows "wp (after m f) Q w"
  using assms by (auto intro: wp_mono split: sum.splits)

text \<open>An invariant of every call of a loop is one of the loop.\<close>

lemma wp_forEach:
  assumes "\<And>x w. x \<in> set xs \<Longrightarrow> I w \<Longrightarrow> wp (f x) (\<lambda>r w'. I w') w" and "I w"
  shows "wp (forEach f xs) (\<lambda>r w'. I w') w"
  using assms
proof (induction xs arbitrary: w)
  case Nil
  then show ?case by simp
next
  case (Cons x xs)
  have "wp (f x) (\<lambda>r w'. I w') w" using Cons.prems by simp
  then have "wp (f x) (\<lambda>r w'. case r of Inl e \<Rightarrow> I w' | Inr a \<Rightarrow> wp (forEach f xs) (\<lambda>r w'. I w') w') w"
    by (rule wp_mono) (use Cons in \<open>auto split: sum.split\<close>)
  then show ?case
    by (simp split: sum.split) (auto elim!: wp_mono split: sum.splits)
qed

text \<open>
  A loop with an invariant on what is done so far and on its results.
\<close>

lemma wp_forEach_results:
  assumes step: "\<And>d x rest rs w. xs = d @ x # rest \<Longrightarrow> length rs = length d \<Longrightarrow> J d rs w \<Longrightarrow>
      wp (f x) (\<lambda>r w'. case r of Inl e \<Rightarrow> Q (Inl e) w' | Inr b \<Rightarrow> J (d @ [x]) (rs @ [b]) w') w"
    and start: "J [] [] w" and fin: "\<And>rs w. J xs rs w \<Longrightarrow> length rs = length xs \<Longrightarrow> Q (Inr rs) w"
  shows "wp (forEach f xs) Q w"
proof -
  have "wp (forEach f ys) (\<lambda>r w'. case r of Inl e \<Rightarrow> Q (Inl e) w' | Inr bs \<Rightarrow> Q (Inr (rs @ bs)) w') w"
    if "xs = d @ ys" and "length rs = length d" and "J d rs w" for ys d rs w
    using that
  proof (induction ys arbitrary: d rs w)
    case Nil
    then show ?case using fin by simp
  next
    case (Cons x ys)
    show ?case
      unfolding forEach.simps wp_after wp_ret
    proof (rule wp_mono [OF step [OF Cons.prems]], goal_cases)
      case (1 r w')
      have "wp (forEach f ys) (\<lambda>r w'. case r of Inl e \<Rightarrow> Q (Inl e) w' | Inr bs \<Rightarrow> Q (Inr ((rs @ [b]) @ bs)) w') w'"
        if "J (d @ [x]) (rs @ [b]) w'" for b
        by (rule Cons.IH) (use Cons.prems that in simp_all)
      with 1 show ?case by (cases r) (simp_all add: sum.case_distrib cong: sum.case_cong)
    qed
  qed
  note loop = this
  have "wp (forEach f xs) (\<lambda>r w'. case r of Inl e \<Rightarrow> Q (Inl e) w' | Inr bs \<Rightarrow> Q (Inr ([] @ bs)) w') w"
    by (rule loop) (simp, simp, rule start)
  then show ?thesis by (rule wp_mono) (simp split: sum.splits)
qed

text \<open>A call that hands a part of the world to a host, whose answer is arbitrary.\<close>

definition ask :: "('w \<Rightarrow> 'x) \<Rightarrow> ('x \<Rightarrow> 'w \<Rightarrow> 'w) \<Rightarrow> ('x, 'e, 'a) call \<Rightarrow> ('w, 'e, 'a) call" where
  "ask get put m w = (case m (get w) of (r, x) \<Rightarrow> (r, put x w))"

lemma wp_host: "(\<And>r x. m (get w) = (r, x) \<Longrightarrow> Q r (put x w)) \<Longrightarrow> wp (ask get put m) Q w"
  by (auto simp: wp_def ask_def split: prod.split)

text \<open>
  What a program keeps: an invariant of the world that holds before it holds after it, whether it returns or
  throws. The rules follow the constructs, so that only the calls that could break an invariant need a proof.
\<close>

named_theorems maintains_rules "programs that keep an invariant"

definition maintains :: "('w \<Rightarrow> bool) \<Rightarrow> ('w, 'e, 'a) call \<Rightarrow> bool" where
  "maintains I m \<longleftrightarrow> (\<forall>w. I w \<longrightarrow> wp m (\<lambda>r. I) w)"

lemma maintainsI: "(\<And>w. I w \<Longrightarrow> wp m (\<lambda>r. I) w) \<Longrightarrow> maintains I m"
  by (simp add: maintains_def)

lemma maintainsD: "maintains I m \<Longrightarrow> I w \<Longrightarrow> wp m (\<lambda>r. I) w"
  by (simp add: maintains_def)

lemma maintains_run: "maintains I m \<Longrightarrow> m w = (r, w') \<Longrightarrow> I w \<Longrightarrow> I w'"
  by (auto simp: maintains_def dest: wpD)

lemma maintains_ret [maintains_rules]: "maintains I (ret a)"
  by (simp add: maintains_def)

lemma maintains_throw [maintains_rules]: "maintains I (throw e)"
  by (simp add: maintains_def)

lemma maintains_getW [maintains_rules]: "maintains I (getW g)"
  by (simp add: maintains_def)

lemma maintains_after [maintains_rules]: "maintains I m \<Longrightarrow> (\<And>a. maintains I (f a)) \<Longrightarrow> maintains I (after m f)"
  by (auto simp: maintains_def elim!: wp_mono split: sum.split)

lemma maintains_catching [maintains_rules]: "maintains I m \<Longrightarrow> (\<And>e. maintains I (f e)) \<Longrightarrow> maintains I (catching m f)"
  by (auto simp: maintains_def elim!: wp_mono split: sum.split)

lemma maintains_if [maintains_rules]: "(b \<Longrightarrow> maintains I m) \<Longrightarrow> (\<not> b \<Longrightarrow> maintains I n) \<Longrightarrow> maintains I (if b then m else n)"
  by simp

lemma maintains_option [maintains_rules]:
  "(x = None \<Longrightarrow> maintains I m) \<Longrightarrow> (\<And>a. x = Some a \<Longrightarrow> maintains I (n a)) \<Longrightarrow> maintains I (case x of None \<Rightarrow> m | Some a \<Rightarrow> n a)"
  by (simp split: option.split)

lemma maintains_prod [maintains_rules]: "(\<And>a b. p = (a, b) \<Longrightarrow> maintains I (m a b)) \<Longrightarrow> maintains I (case p of (a, b) \<Rightarrow> m a b)"
  by (simp split: prod.split)

lemma maintains_sum [maintains_rules]:
  "(\<And>a. x = Inl a \<Longrightarrow> maintains I (m a)) \<Longrightarrow> (\<And>b. x = Inr b \<Longrightarrow> maintains I (n b)) \<Longrightarrow> maintains I (case x of Inl a \<Rightarrow> m a | Inr b \<Rightarrow> n b)"
  by (simp split: sum.split)

lemma maintains_let [maintains_rules]: "maintains I (f x) \<Longrightarrow> maintains I (let y = x in f y)"
  by simp

lemma maintains_forEach [maintains_rules]: "(\<And>x. x \<in> set xs \<Longrightarrow> maintains I (f x)) \<Longrightarrow> maintains I (forEach f xs)"
  by (auto simp: maintains_def intro: wp_forEach)

lemma maintains_modifyW: "(\<And>w. I w \<Longrightarrow> I (g w)) \<Longrightarrow> maintains I (modifyW g)"
  by (simp add: maintains_def)

lemma maintains_conj: "maintains I m \<Longrightarrow> maintains J m \<Longrightarrow> maintains (\<lambda>w. I w \<and> J w) m"
  by (auto simp: maintains_def intro: wp_conj)

end
