(* ===== verification/PathService.thy ===== *)
theory PathService
  imports Paths Json
begin

text \<open>
  \<open>src/services/base/PathService.ts\<close> with \<open>src/services/implements/injectable/InjectablePathService.ts\<close>: the
  paths and identifiers of entries under the active settings, the comparison of modification times, the size
  limit of \<open>VaultService\<close>, and the identity of metadata documents of \<open>src/serviceFeatures/offlineScanner.ts\<close>,
  which rests on them.
\<close>

section \<open>Entries\<close>

text \<open>
  \<open>me_size\<close> is \<open>None\<close> when the entry has none; \<open>me_deleted\<close> is the optional flag \<open>deleted\<close> and
  \<open>me_tombstone\<close> is \<open>_deleted\<close>; missing conflicts are the empty list. The chunks in \<open>eden\<close> are JSON values.
\<close>

record meta_entry =
  me_id :: string
  me_rev :: "string option"
  me_path :: string
  me_ctime :: int
  me_mtime :: int
  me_size :: "nat option"
  me_type :: string
  me_children :: "string list"
  me_eden :: "(string \<times> json) list"
  me_deleted :: "bool option"
  me_tombstone :: bool
  me_conflicts :: "string list"

text \<open>A note of the database: \<open>isMetaEntry\<close> holds of those with a list of chunks, the first kind.\<close>

datatype note_doc = Meta meta_entry | NoMeta meta_entry

fun isMetaEntry :: "note_doc \<Rightarrow> bool" where
  "isMetaEntry (Meta d) = True"
| "isMetaEntry (NoMeta d) = False"

definition isDeletedEntry :: "meta_entry \<Rightarrow> bool" where
  "isDeletedEntry entry \<longleftrightarrow> me_deleted entry = Some True \<or> me_tombstone entry"

section \<open>Paths under the settings\<close>

text \<open>\<open>ps_obfuscation\<close> is the injected \<open>getPathObfuscationPassphrase\<close>: absent, or answering \<open>false\<close> or a passphrase.\<close>

record path_settings =
  ps_usePathObfuscation :: bool
  ps_passphrase :: string
  ps_handleFilenameCaseSensitive :: bool
  ps_obfuscation :: "string option option"

fun collapse_slashes :: "string \<Rightarrow> string" where
  "collapse_slashes (c # d # s) = (if c = CHR ''/'' \<and> d = CHR ''/'' then collapse_slashes (d # s) else c # collapse_slashes (d # s))"
| "collapse_slashes s = s"

definition normalizePath :: "string \<Rightarrow> string" where
  "normalizePath path = collapse_slashes (map (\<lambda>c. if c = CHR 0x5C then CHR ''/'' else c) path)"

text \<open>The part after the last colon is normalised, what is before it is kept.\<close>

definition fix_last :: "string \<Rightarrow> string" where
  "fix_last filename =
     (let temp = split_on CHR '':'' filename
      in join_with '':'' (butlast temp @ [normalizePath (last temp)]))"

definition service_id2path :: "string \<Rightarrow> string option \<Rightarrow> path_error + string" where
  "service_id2path id' entry = (case id2path_base id' entry of Inl e \<Rightarrow> Inl e | Inr filename \<Rightarrow> Inr (fix_last filename))"

definition ICHeader :: string where "ICHeader = ''i:''"
definition ICXHeader :: string where "ICXHeader = ''ix:''"
definition PSCHeader :: string where "PSCHeader = ''ps:''"

definition isInternalMetadata :: "string \<Rightarrow> bool" where
  "isInternalMetadata id' = starts_with id' ICHeader"

definition stripInternalMetadataPrefix :: "string \<Rightarrow> string" where
  "stripInternalMetadataPrefix id' = drop (length ICHeader) id'"

definition id2path :: "string \<Rightarrow> string option \<Rightarrow> bool \<Rightarrow> path_error + string" where
  "id2path id' entry strip =
     (case service_id2path id' entry of
        Inl e \<Rightarrow> Inl e
      | Inr tempId \<Rightarrow> if strip \<and> isInternalMetadata tempId then Inr (stripInternalMetadataPrefix tempId) else Inr tempId)"

definition service_path2id :: "(string \<Rightarrow> string) \<Rightarrow> string \<Rightarrow> string option \<Rightarrow> bool \<Rightarrow> string" where
  "service_path2id sha filename obfuscatePassphrase caseInsensitive =
     path2id_base sha (fix_last filename) obfuscatePassphrase caseInsensitive"

definition path2id :: "(string \<Rightarrow> string) \<Rightarrow> path_settings \<Rightarrow> string \<Rightarrow> string \<Rightarrow> string" where
  "path2id sha settings filename pre =
     (let destPath = addPrefix filename pre;
          pathObfuscationPassphrase =
            (case ps_obfuscation settings of
               Some answer \<Rightarrow> answer
             | None \<Rightarrow> if ps_usePathObfuscation settings then Some (ps_passphrase settings) else None)
      in service_path2id sha destPath pathObfuscationPassphrase (\<not> ps_handleFilenameCaseSensitive settings))"

definition entry_getPath :: "meta_entry \<Rightarrow> path_error + string" where
  "entry_getPath entry = id2path (me_id entry) (Some (me_path entry)) False"

section \<open>Freshness\<close>

datatype freshness = BASE_IS_NEW | TARGET_IS_NEW | EVEN

text \<open>\<open>~~(t / 2000) * 2000\<close>: the quotient is cut towards zero and taken as a signed 32-bit integer.\<close>

definition truncate_mtime :: "int \<Rightarrow> int" where
  "truncate_mtime t = signed_take_bit 31 (if t < 0 then - ((- t) div 2000) else t div 2000) * 2000"

definition compareMTime :: "int \<Rightarrow> int \<Rightarrow> freshness" where
  "compareMTime baseMTime targetMTime =
     (if truncate_mtime baseMTime = truncate_mtime targetMTime then EVEN
      else if truncate_mtime baseMTime > truncate_mtime targetMTime then BASE_IS_NEW
      else TARGET_IS_NEW)"

text \<open>An argument that is \<open>undefined\<close> is \<open>None\<close>, a missing time is 0.\<close>

definition compareFileFreshness :: "int option \<Rightarrow> int option \<Rightarrow> freshness" where
  "compareFileFreshness baseFile checkTarget =
     (case baseFile of
        None \<Rightarrow> (if checkTarget = None then EVEN else TARGET_IS_NEW)
      | Some modifiedBase \<Rightarrow>
          (case checkTarget of
             None \<Rightarrow> BASE_IS_NEW
           | Some modifiedTarget \<Rightarrow>
               if modifiedBase = 0 \<and> modifiedTarget = 0 then EVEN else compareMTime modifiedBase modifiedTarget))"

text \<open>A missing size is not above any limit.\<close>

definition isFileSizeTooLarge :: "int \<Rightarrow> nat option \<Rightarrow> bool" where
  "isFileSizeTooLarge maxSize bytes =
     (case bytes of None \<Rightarrow> False | Some n \<Rightarrow> 0 < maxSize \<and> 0 < n \<and> maxSize * 1024 * 1024 < int n)"

section \<open>The identity of a metadata document\<close>

datatype namespace = NORMAL | INTERNAL_NS | CUSTOMISATION | PLUGIN_STORAGE

definition getMetadataDocumentNamespace :: "string \<Rightarrow> namespace" where
  "getMetadataDocumentNamespace value =
     (if starts_with value ICXHeader then CUSTOMISATION
      else if starts_with value ICHeader then INTERNAL_NS
      else if starts_with value PSCHeader then PLUGIN_STORAGE
      else NORMAL)"

datatype unresolved_reason = DOCUMENT_ID_MISMATCH | NAMESPACE_MISMATCH

record diagnostic =
  dg_reason :: unresolved_reason
  dg_actualDocumentId :: string
  dg_declaredPath :: string
  dg_expectedDocumentId :: "string option"
  dg_actualNamespace :: namespace
  dg_declaredPathNamespace :: namespace

text \<open>The arguments of a consistent document are its identifier, declared path and expected identifier.\<close>

datatype inspection =
  CONSISTENT string string string
| EXCLUDED string string namespace
| UNRESOLVED diagnostic

definition inspectMetadataDocumentIdentity ::
    "(string \<Rightarrow> string) \<Rightarrow> path_settings \<Rightarrow> meta_entry \<Rightarrow> path_error + inspection" where
  "inspectMetadataDocumentIdentity sha settings doc =
     (case entry_getPath doc of
        Inl e \<Rightarrow> Inl e
      | Inr declaredPath \<Rightarrow>
          (let actualDocumentId = me_id doc;
               actualNamespace = getMetadataDocumentNamespace actualDocumentId;
               declaredPathNamespace = getMetadataDocumentNamespace declaredPath
           in if actualNamespace \<noteq> NORMAL \<or> declaredPathNamespace \<noteq> NORMAL
              then Inr (if actualNamespace = declaredPathNamespace
                        then EXCLUDED actualDocumentId declaredPath actualNamespace
                        else UNRESOLVED \<lparr>dg_reason = NAMESPACE_MISMATCH, dg_actualDocumentId = actualDocumentId,
                               dg_declaredPath = declaredPath, dg_expectedDocumentId = None,
                               dg_actualNamespace = actualNamespace, dg_declaredPathNamespace = declaredPathNamespace\<rparr>)
              else
                let expectedDocumentId = path2id sha settings declaredPath []
                in Inr (if actualDocumentId \<noteq> expectedDocumentId
                        then UNRESOLVED \<lparr>dg_reason = DOCUMENT_ID_MISMATCH, dg_actualDocumentId = actualDocumentId,
                               dg_declaredPath = declaredPath, dg_expectedDocumentId = Some expectedDocumentId,
                               dg_actualNamespace = actualNamespace, dg_declaredPathNamespace = declaredPathNamespace\<rparr>
                        else CONSISTENT actualDocumentId declaredPath expectedDocumentId)))"

definition convertCase :: "bool \<Rightarrow> string \<Rightarrow> string" where
  "convertCase handleFilenameCaseSensitive path = (if handleFilenameCaseSensitive then path else js_lower path)"

section \<open>Lemmas\<close>

lemma fix_last_plain: "CHR '':'' \<notin> set p \<Longrightarrow> fix_last p = normalizePath p"
  by (simp add: fix_last_def split_on_no_sep)

lemma collapse_slashes_set: "set (collapse_slashes s) \<subseteq> set s"
  by (induction s rule: collapse_slashes.induct) auto

lemma collapse_slashes_single: "\<not> (\<exists>u v. collapse_slashes s = u @ ''//'' @ v)"
proof (induction s rule: collapse_slashes.induct)
  case (1 c d s)
  show ?case
  proof (cases "c = CHR ''/'' \<and> d = CHR ''/''")
    case True
    with 1 show ?thesis by simp
  next
    case False
    have hd: "\<exists>r. collapse_slashes (d # s) = d # r"
      by (induction s) auto
    show ?thesis
    proof
      assume "\<exists>u v. collapse_slashes (c # d # s) = u @ ''//'' @ v"
      then obtain u v where e: "c # collapse_slashes (d # s) = u @ ''//'' @ v"
        using False by auto
      show False
      proof (cases u)
        case Nil
        with e hd False show False by auto
      next
        case (Cons x u')
        with e 1(2) False show False by auto
      qed
    qed
  qed
qed auto

lemma normalizePath_backslash: "CHR 0x5C \<notin> set (normalizePath p)"
  using collapse_slashes_set [of "map (\<lambda>c. if c = CHR 0x5C then CHR ''/'' else c) p"]
  by (auto simp: normalizePath_def split: if_splits)

lemma collapse_slashes_id: "\<not> (\<exists>u v. s = u @ ''//'' @ v) \<Longrightarrow> collapse_slashes s = s"
proof (induction s rule: collapse_slashes.induct)
  case (1 c d s)
  have "\<not> (c = CHR ''/'' \<and> d = CHR ''/'')"
    using 1(3) by (metis append_Cons append_Nil)
  moreover have "\<not> (\<exists>u v. d # s = u @ ''//'' @ v)"
    using 1(3) by (metis append_Cons)
  ultimately show ?case using 1 by auto
qed auto

lemma normalizePath_idem: "normalizePath (normalizePath p) = normalizePath p"
proof -
  have "map (\<lambda>c. if c = CHR 0x5C then CHR ''/'' else c) (normalizePath p) = normalizePath p"
    using normalizePath_backslash by (intro map_idI) metis
  then show ?thesis
    unfolding normalizePath_def [of "normalizePath p"]
    by (simp only: normalizePath_def collapse_slashes_id [OF collapse_slashes_single])
qed

lemma no_colon_not_prefixed: "CHR '':'' \<notin> set p \<Longrightarrow> CHR '':'' \<in> set q \<Longrightarrow> \<not> starts_with p q"
  by (auto simp: starts_with_iff_prefix prefix_def)

lemma namespace_plain: "CHR '':'' \<notin> set p \<Longrightarrow> getMetadataDocumentNamespace p = NORMAL"
  by (simp add: getMetadataDocumentNamespace_def no_colon_not_prefixed ICXHeader_def ICHeader_def PSCHeader_def)

lemma entry_getPath_plain:
  assumes "CHR '':'' \<notin> set p" and "\<not> starts_with p ''/''" and "normalizePath p = p" and "p \<noteq> []"
    and "me_path d = p"
  shows "entry_getPath d = Inr p"
proof -
  have nf: "\<not> starts_with p PREFIX_OBFUSCATED"
    by (rule no_colon_not_prefixed [OF assms(1)]) (simp add: PREFIX_OBFUSCATED_def)
  have "expandDocumentIDPrefix p = ([], p)"
    using assms(1) by (simp add: expandDocumentIDPrefix_def split2_def split_on_no_sep)
  then have "id2path_plain p = Inr p"
    using assms(2) nf by (simp add: id2path_plain_def)
  then show ?thesis
    using assms by (simp add: entry_getPath_def id2path_def service_id2path_def id2path_base_def fix_last_plain)
qed

lemma path2id_plain_namespace:
  assumes "CHR '':'' \<notin> set p" and "normalizePath p = p"
  shows "getMetadataDocumentNamespace (path2id sha settings p []) = NORMAL"
proof -
  have nf: "\<not> starts_with p PREFIX_OBFUSCATED"
    by (rule no_colon_not_prefixed [OF assms(1)]) (simp add: PREFIX_OBFUSCATED_def)
  have l: "CHR '':'' \<notin> set (if b then js_lower p else p)" for b
    using assms(1) by (simp add: js_lower_set)
  have ns: "getMetadataDocumentNamespace (PREFIX_OBFUSCATED @ s) = NORMAL" for s
    by (simp add: getMetadataDocumentNamespace_def PREFIX_OBFUSCATED_def ICXHeader_def ICHeader_def PSCHeader_def)
  let ?o = "case ps_obfuscation settings of Some answer \<Rightarrow> answer
      | None \<Rightarrow> if ps_usePathObfuscation settings then Some (ps_passphrase settings) else None"
  have id: "path2id sha settings p [] = path2id_base sha p ?o (\<not> ps_handleFilenameCaseSensitive settings)"
    using assms by (simp add: path2id_def service_path2id_def fix_last_plain addPrefix_def)
  have "getMetadataDocumentNamespace (path2id_base sha p obf ci) = NORMAL" for obf ci
  proof (cases "case obf of None \<Rightarrow> False | Some q \<Rightarrow> q \<noteq> []")
    case True
    let ?f = "if ci then js_lower p else p"
    let ?x = "if starts_with ?f ''_'' then ''/'' @ ?f else ?f"
    have "CHR '':'' \<notin> set ?x" using l [of ci] by simp
    then have "expandFilePathPrefix ?x = ([], ?x)"
      by (simp add: expandFilePathPrefix_def split2_def split_on_no_sep)
    with True nf show ?thesis
      by (simp add: path2id_base_def Let_def ns)
  next
    case False
    then show ?thesis
      using nf l [of ci] by (auto simp: path2id_base_def Let_def intro!: namespace_plain)
  qed
  with id show ?thesis by simp
qed

lemma trunc_small:
  assumes "0 \<le> t" and "t < 2 ^ 32 * 1000"
  shows "truncate_mtime t = t div 2000 * 2000"
proof -
  have "t div 2000 < 2 ^ 31" "0 \<le> t div 2000" using assms by (simp_all add: div_less_iff_less_mult)
  then have "signed_take_bit 31 (t div 2000) = t div 2000"
    by (intro signed_take_bit_int_eq_self) simp_all
  with assms show ?thesis by (simp add: truncate_mtime_def)
qed

section \<open>Properties\<close>

text \<open>
  C36. An entry that is stored under the identifier of its path, with the path as the storage gives it (no
  colon, normalised, not absolute), is consistent under the settings it was stored with, obfuscated or not.
\<close>

theorem written_entry_consistent:
  assumes "CHR '':'' \<notin> set p" and "\<not> starts_with p ''/''" and "normalizePath p = p" and "p \<noteq> []"
    and "me_id d = path2id sha settings p []" and "me_path d = p"
  shows "inspectMetadataDocumentIdentity sha settings d = Inr (CONSISTENT (me_id d) p (me_id d))"
  using assms
  by (simp add: inspectMetadataDocumentIdentity_def entry_getPath_plain namespace_plain path2id_plain_namespace Let_def)

text \<open>
  C37. Up to the year 2106 the comparison of modification times is that of their two-second windows: it is
  antisymmetric, and times that differ by two seconds or more are never taken for even.
\<close>

theorem compareMTime_windows:
  assumes "0 \<le> a" and "a < 2 ^ 32 * 1000" and "0 \<le> b" and "b < 2 ^ 32 * 1000"
  shows "(compareMTime a b = EVEN \<longleftrightarrow> a div 2000 = b div 2000) \<and>
    (compareMTime a b = BASE_IS_NEW \<longleftrightarrow> b div 2000 < a div 2000) \<and>
    (compareMTime a b = BASE_IS_NEW \<longleftrightarrow> compareMTime b a = TARGET_IS_NEW) \<and>
    (a + 2000 \<le> b \<longrightarrow> compareMTime a b = TARGET_IS_NEW)"
  using assms by (auto simp: compareMTime_def trunc_small)

text \<open>Beyond, the quotient overflows, and the later of two times is taken for the older one.\<close>

lemma compareMTime_overflow: "compareMTime (2 ^ 32 * 1000) (2 ^ 32 * 1000 - 2000) = TARGET_IS_NEW"
  by code_simp

definition sample_path_settings :: path_settings where
  "sample_path_settings = \<lparr>ps_usePathObfuscation = True, ps_passphrase = ''secret'',
     ps_handleFilenameCaseSensitive = False, ps_obfuscation = None\<rparr>"

definition sample_entry :: "string \<Rightarrow> string \<Rightarrow> int \<Rightarrow> nat \<Rightarrow> meta_entry" where
  "sample_entry i p mtime n = \<lparr>me_id = i, me_rev = Some ''1-a'', me_path = p, me_ctime = mtime, me_mtime = mtime,
     me_size = Some n, me_type = ''plain'', me_children = [''h:1''], me_eden = [], me_deleted = None,
     me_tombstone = False, me_conflicts = []\<rparr>"

theorem written_entry_consistent_witness:
  "inspectMetadataDocumentIdentity rev sample_path_settings
     (sample_entry (path2id rev sample_path_settings ''Notes/A.md'' []) ''Notes/A.md'' 0 1) =
   Inr (CONSISTENT (path2id rev sample_path_settings ''Notes/A.md'' []) ''Notes/A.md''
     (path2id rev sample_path_settings ''Notes/A.md'' []))"
proof -
  let ?d = "sample_entry (path2id rev sample_path_settings ''Notes/A.md'' []) ''Notes/A.md'' 0 1"
  have "normalizePath ''Notes/A.md'' = ''Notes/A.md''" by code_simp
  from written_entry_consistent [of "''Notes/A.md''" ?d rev sample_path_settings, OF _ _ this] show ?thesis
    by (simp add: sample_entry_def)
qed

theorem compareMTime_windows_witness:
  "compareMTime 1700000000000 1700000002000 = TARGET_IS_NEW"
  using compareMTime_windows [of 1700000000000 1700000002000] by simp

end
