(* ===== verification/OfflineScanner.thy ===== *)
theory OfflineScanner
  imports HostCalls PathService StorageEvents
begin

text \<open>
  \<open>src/serviceFeatures/offlineScanner.ts\<close>: the reconciliation of the storage with the database. The scan lists
  both sides, pairs them by the normalised path, decides an action for each pair and hands what failed over for
  another attempt. The services it calls are a parameter: each call may throw and may change the environment.
  The module's variables are the world: the last-seen times, the timer that saves them and the listing for the
  start-up reconciliation. A ghost trace records the calls that change the storage or the database. A pair is
  processed without another in between; pairs have different keys in the map of last-seen times. Log lines and
  the notifications of changed files are left out.
\<close>

section \<open>The host and the module's state\<close>

record js_error =
  er_name :: string
  er_message :: string
  er_status :: nat

datatype scan_error = EarlyScanInterrupted | EarlyDatabaseRead | UnknownFileWriteState | Thrown js_error

definition error_text :: "string \<Rightarrow> scan_error" where
  "error_text m = Thrown \<lparr>er_name = ''Error'', er_message = m, er_status = 0\<rparr>"

datatype pair_result = COMPLETED | SKIPPED | FAILED

type_synonym 'x answer = "('x, scan_error, bool) call"
type_synonym file_pair = "file_info option \<times> meta_entry option"

datatype entry_or_path = AnEntry meta_entry | APath string

record 'x scan_host =
  sh_sha :: "string \<Rightarrow> string"
  sh_paths :: path_settings
  sh_maxSize :: int
  sh_writeDocumentsIfConflicted :: bool
  sh_deleteMetadataDays :: int
  sh_em :: em_settings
  sh_isValidPath :: "string \<Rightarrow> bool"
  sh_isTargetFile :: "string \<Rightarrow> bool"
  sh_freshness :: "file_info \<Rightarrow> meta_entry \<Rightarrow> freshness"
  sh_awaited :: "'x \<Rightarrow> 'x"
  sh_now :: "'x \<Rightarrow> int"
  sh_getFiles :: "('x, scan_error, file_info list) call"
  sh_normalDocs :: "('x, scan_error, note_doc list) call"
  sh_allDocs :: "('x, scan_error, note_doc list) call"
  sh_putRaw :: "meta_entry \<Rightarrow> ('x, scan_error, unit) call"
  sh_storeFile :: "file_info \<Rightarrow> 'x answer"
  sh_dbToStorage :: "entry_or_path \<Rightarrow> string option \<Rightarrow> bool \<Rightarrow> 'x answer"
  sh_deleteFileFromDB :: "string \<Rightarrow> 'x answer"
  sh_delete :: "string \<Rightarrow> bool \<Rightarrow> ('x, scan_error, unit) call"
  sh_parseSynchroniseResult :: "(meta_entry list \<Rightarrow> 'x answer) option"
  sh_appendStorageEvents :: "(file_event list \<Rightarrow> ('x, scan_error, unit) call) option"
  sh_kvGet :: "('x, scan_error, (string, int) jsmap option) call option"
  sh_kvSet :: "((string, int) jsmap \<Rightarrow> ('x, scan_error, unit) call) option"
  sh_getInitialized :: "'x answer"
  sh_setInitialized :: "('x, scan_error, unit) call"
  sh_restoreState :: "('x, scan_error, unit) call"
  sh_schedule :: "file_pair list \<Rightarrow> file_pair list \<Rightarrow> file_pair list"
  sh_earlyActive :: "'x \<Rightarrow> bool"
  sh_mayContinue :: "'x \<Rightarrow> bool"
  sh_earlyScan :: "string \<Rightarrow> ('x, scan_error, pair_result) call"
  sh_earlyComplete :: "'x answer"

text \<open>The calls that change the storage or the database; the flag of \<open>Reflect\<close> is \<open>force\<close>.\<close>

datatype host_action =
  StoreToDB string
| Reflect string bool
| DeleteFile string
| DeleteEntry string
| EarlyScan string
| PurgeEntry string
| PutEntry meta_entry
| RemoveEntry string string

record scan_outcome =
  oc_failedPairs :: "nat option"
  oc_interrupted :: bool
  oc_queuedForReflection :: "nat option"
  oc_queuedAsStorageEvents :: "nat option"

definition no_outcome :: scan_outcome where
  "no_outcome = \<lparr>oc_failedPairs = None, oc_interrupted = False, oc_queuedForReflection = None, oc_queuedAsStorageEvents = None\<rparr>"

record startup_listing =
  sl_caseSensitive :: bool
  sl_files :: "(string, file_info) jsmap"

text \<open>
  \<open>sw_listing\<close> is the entry of \<open>startupListings\<close>: \<open>None\<close> when the host has none, \<open>Some None\<close> when it awaits a
  listing. \<open>sw_reflections\<close> and \<open>sw_events\<close> are the \<open>ScanRetries\<close> of the running scan, \<open>sw_outcome\<close> the object the
  caller passed and \<open>sw_errors\<close> the unresolved errors that are shown.
\<close>

datatype scan_problem = NotConfigured | Suspending | InRemediation

record 'x scan_world =
  sw_fileMaps :: "(string, int) jsmap"
  sw_timer :: bool
  sw_listing :: "startup_listing option option"
  sw_reflections :: "meta_entry list"
  sw_events :: "file_event list"
  sw_outcome :: scan_outcome
  sw_errors :: "scan_problem list"
  sw_trace :: "host_action list"
  sw_env :: 'x

type_synonym ('x, 'a) scan_call = "('x scan_world, scan_error, 'a) call"

definition host :: "('x, scan_error, 'a) call \<Rightarrow> ('x, 'a) scan_call" where
  "host = ask sw_env (\<lambda>x w. w\<lparr>sw_env := x\<rparr>)"

definition host_acts :: "host_action \<Rightarrow> ('x, scan_error, 'a) call \<Rightarrow> ('x, 'a) scan_call" where
  "host_acts a = ask sw_env (\<lambda>x w. w\<lparr>sw_env := x, sw_trace := sw_trace w @ [a]\<rparr>)"

text \<open>The environment moves while an answer is awaited that the host gives without effect.\<close>

definition awaits :: "'x scan_host \<Rightarrow> ('x, unit) scan_call" where
  "awaits h = modifyW (\<lambda>w. w\<lparr>sw_env := sh_awaited h (sw_env w)\<rparr>)"

definition interrupted :: "'x scan_host \<Rightarrow> 'x scan_world \<Rightarrow> bool" where
  "interrupted h w \<longleftrightarrow> sh_earlyActive h (sw_env w) \<and> \<not> sh_mayContinue h (sw_env w)"

definition checkInterrupted :: "'x scan_host \<Rightarrow> ('x, unit) scan_call" where
  "checkInterrupted h = after (getW (interrupted h)) (\<lambda>b. if b then throw EarlyScanInterrupted else ret ())"

definition handleFilenameCaseSensitive :: "'x scan_host \<Rightarrow> bool" where
  "handleFilenameCaseSensitive h = ps_handleFilenameCaseSensitive (sh_paths h)"

definition tooLarge :: "'x scan_host \<Rightarrow> nat option \<Rightarrow> bool" where
  "tooLarge h n = isFileSizeTooLarge (sh_maxSize h) n"

fun lift_path :: "path_error + 'a \<Rightarrow> ('x, 'a) scan_call" where
  "lift_path (Inl e) = throw (error_text ''Entry has been obfuscated!'')"
| "lift_path (Inr a) = ret a"

definition getPathFromEntry :: "meta_entry \<Rightarrow> ('x, string) scan_call" where
  "getPathFromEntry doc = lift_path (entry_getPath doc)"

section \<open>Last-seen times\<close>

definition loadFileStatus :: "'x scan_host \<Rightarrow> ('x, unit) scan_call" where
  "loadFileStatus h =
     (case sh_kvGet h of
        None \<Rightarrow> modifyW (\<lambda>w. w\<lparr>sw_fileMaps := []\<rparr>)
      | Some kvGet \<Rightarrow>
          after (host kvGet) (\<lambda>mapItems.
          modifyW (\<lambda>w. w\<lparr>sw_fileMaps := (case mapItems of None \<Rightarrow> [] | Some m \<Rightarrow> m)\<rparr>)))"

definition saveFileStatusNow :: "'x scan_host \<Rightarrow> ('x, unit) scan_call" where
  "saveFileStatusNow h =
     (case sh_kvSet h of
        None \<Rightarrow> ret ()
      | Some kvSet \<Rightarrow> after (getW sw_fileMaps) (\<lambda>m. host (kvSet m)))"

text \<open>The timer is started when there is none; when it fires it is forgotten and the map is saved.\<close>

definition saveFileStatus :: "'x scan_world \<Rightarrow> 'x scan_world" where
  "saveFileStatus w = w\<lparr>sw_timer := True\<rparr>"

definition saveTimerFired :: "'x scan_host \<Rightarrow> ('x, unit) scan_call" where
  "saveTimerFired h = after (modifyW (\<lambda>w. w\<lparr>sw_timer := False\<rparr>)) (\<lambda>_. saveFileStatusNow h)"

definition updateFileMTimeInMap :: "string \<Rightarrow> int \<Rightarrow> 'x scan_world \<Rightarrow> 'x scan_world" where
  "updateFileMTimeInMap key mtime w = saveFileStatus (w\<lparr>sw_fileMaps := jm_set key mtime (sw_fileMaps w)\<rparr>)"

definition forgetFileMTime :: "string \<Rightarrow> 'x scan_world \<Rightarrow> 'x scan_world" where
  "forgetFileMTime key w = saveFileStatus (w\<lparr>sw_fileMaps := jm_delete key (sw_fileMaps w)\<rparr>)"

definition getFileMTimeFromMap :: "string \<Rightarrow> 'x scan_world \<Rightarrow> int option" where
  "getFileMTimeFromMap key w = jm_get (sw_fileMaps w) key"

text \<open>Spreading one object over another keeps the places of the keys it has and appends the new ones.\<close>

definition spread_over :: "('k, 'v) jsmap \<Rightarrow> ('k, 'v) jsmap \<Rightarrow> ('k, 'v) jsmap" where
  "spread_over persisted fresh = foldl (\<lambda>m (k, v). jm_set k v m) persisted fresh"

definition clearOfflineScannerLastSeen :: "'x scan_host \<Rightarrow> string \<Rightarrow> ('x, unit) scan_call" where
  "clearOfflineScannerLastSeen h path =
     (let key = convertCase (handleFilenameCaseSensitive h) path
      in after (modifyW (\<lambda>w. w\<lparr>sw_timer := False, sw_fileMaps := jm_delete key (sw_fileMaps w)\<rparr>)) (\<lambda>_.
         case sh_kvSet h of
           None \<Rightarrow> ret ()
         | Some kvSet \<Rightarrow>
             after (case sh_kvGet h of
                      Some kvGet \<Rightarrow> after (host kvGet) (\<lambda>m. ret (case m of None \<Rightarrow> [] | Some p \<Rightarrow> p))
                    | None \<Rightarrow> getW sw_fileMaps) (\<lambda>persisted.
             after (getW sw_fileMaps) (\<lambda>fresh.
             host (kvSet (jm_delete key (spread_over persisted fresh)))))))"

section \<open>One pair\<close>

definition stat_size :: "file_info \<Rightarrow> nat" where
  "stat_size file = (case fi_size file of Some n \<Rightarrow> n | None \<Rightarrow> 0)"

definition push_reflection :: "meta_entry \<Rightarrow> 'x scan_world \<Rightarrow> 'x scan_world" where
  "push_reflection doc w = w\<lparr>sw_reflections := sw_reflections w @ [doc]\<rparr>"

definition push_event :: "event_type \<Rightarrow> file_info \<Rightarrow> 'x scan_world \<Rightarrow> 'x scan_world" where
  "push_event t file w = w\<lparr>sw_events := sw_events w @
     [\<lparr>fe_type = t, fe_file = file, fe_oldPath = None, fe_cachedData = None, fe_skipBatchWait = False, fe_revalidate = True\<rparr>]\<rparr>"

definition reflectEntryToStorage :: "('x, bool) scan_call \<Rightarrow> meta_entry \<Rightarrow> ('x, bool) scan_call" where
  "reflectEntryToStorage reflect doc = finally' reflect (\<lambda>r w. if r = Inr True then w else push_reflection doc w)"

definition storeStorageFile :: "'x scan_host \<Rightarrow> file_info \<Rightarrow> ('x, unit) scan_call" where
  "storeStorageFile h file =
     catching
       (after (host_acts (StoreToDB (fi_path file)) (sh_storeFile h file)) (\<lambda>stored.
          if stored then ret () else throw (error_text ''Could not store the file during the offline scan'')))
       (\<lambda>ex. after (modifyW (push_event CHANGED file)) (\<lambda>_. throw ex))"

text \<open>The freshness that decides, after the sizes have been looked at.\<close>

definition decideFreshness :: "'x scan_host \<Rightarrow> file_info \<Rightarrow> meta_entry \<Rightarrow> freshness" where
  "decideFreshness h file doc =
     (let compareResult = sh_freshness h file doc
      in case me_size doc of
           Some n \<Rightarrow>
             (if compareResult = EVEN \<and> stat_size file \<noteq> n
              then if 0 < stat_size file \<and> n = 0 \<and> me_mtime doc < fi_mtime file then BASE_IS_NEW
                   else if \<not> sh_writeDocumentsIfConflicted h then TARGET_IS_NEW
                   else compareResult
              else compareResult)
         | None \<Rightarrow> compareResult)"

definition syncFileBetweenDBandStorage :: "'x scan_host \<Rightarrow> file_info \<Rightarrow> meta_entry \<Rightarrow> ('x, pair_result) scan_call" where
  "syncFileBetweenDBandStorage h file doc =
     after (getPathFromEntry doc) (\<lambda>docPath.
       case decideFreshness h file doc of
         BASE_IS_NEW \<Rightarrow>
           (if \<not> tooLarge h (fi_size file) then after (storeStorageFile h file) (\<lambda>_. ret COMPLETED) else ret SKIPPED)
       | TARGET_IS_NEW \<Rightarrow>
           (if \<not> tooLarge h (me_size doc) then
              after (reflectEntryToStorage
                       (host_acts (Reflect (stripAllPrefixes docPath) False)
                          (sh_dbToStorage h (AnEntry doc) (Some (stripAllPrefixes docPath)) False)) doc) (\<lambda>ok.
              ret (if ok then COMPLETED else FAILED))
            else ret SKIPPED)
       | EVEN \<Rightarrow> ret COMPLETED)"

definition updateToDatabase :: "'x scan_host \<Rightarrow> file_info \<Rightarrow> ('x, pair_result) scan_call" where
  "updateToDatabase h file =
     (if \<not> tooLarge h (fi_size file) then after (storeStorageFile h file) (\<lambda>_. ret COMPLETED) else ret SKIPPED)"

definition updateToStorage :: "'x scan_host \<Rightarrow> meta_entry \<Rightarrow> ('x, pair_result) scan_call" where
  "updateToStorage h w =
     after (getPathFromEntry w) (\<lambda>path.
       if \<not> isDeletedEntry w then
         (if \<not> tooLarge h (me_size w) then
            (if me_conflicts w \<noteq> [] then ret SKIPPED
             else after (reflectEntryToStorage
                           (host_acts (Reflect path True) (sh_dbToStorage h (APath path) None True)) w) (\<lambda>reflected.
                  ret (if \<not> reflected then FAILED else COMPLETED)))
          else ret SKIPPED)
       else ret SKIPPED)"

definition syncStorageAndDatabase :: "'x scan_host \<Rightarrow> file_info \<Rightarrow> meta_entry \<Rightarrow> ('x, pair_result) scan_call" where
  "syncStorageAndDatabase h file doc =
     (if me_conflicts doc \<noteq> [] then ret SKIPPED
      else if \<not> tooLarge h (fi_size file) \<and> \<not> tooLarge h (me_size doc) then syncFileBetweenDBandStorage h file doc
      else after (getPathFromEntry doc) (\<lambda>_. ret SKIPPED))"

datatype full_scan_mode = DB_APPLY | NEWER_WINS
datatype extra_on_local = DELETE_DB_DELETED | DELETE_DB_MISSING | APPEND_STORAGE_ONLY
datatype extra_on_remote = DELETE_LOCAL_MISSING

record full_scan_options =
  so_mode :: full_scan_mode
  so_extraOnLocal :: "extra_on_local option"
  so_extraOnRemote :: "extra_on_remote option"
  so_showingNotice :: "bool option"
  so_ignoreSuspending :: "bool option"

text \<open>The first argument of \<open>performFullScan\<close>: a flag, or options whose mode may be missing.\<close>

datatype scan_argument = AFlag bool | Options "full_scan_mode option" full_scan_options

definition normaliseFullScanOptions :: "scan_argument option \<Rightarrow> bool \<Rightarrow> full_scan_options" where
  "normaliseFullScanOptions showingNoticeOrOptions ignoreSuspending =
     (case showingNoticeOrOptions of
        Some (Options mode opts) \<Rightarrow> opts\<lparr>so_mode := (case mode of Some m \<Rightarrow> m | None \<Rightarrow> NEWER_WINS)\<rparr>
      | _ \<Rightarrow> \<lparr>so_mode = NEWER_WINS, so_extraOnLocal = None, so_extraOnRemote = None,
               so_showingNotice = Some (case showingNoticeOrOptions of Some (AFlag b) \<Rightarrow> b | _ \<Rightarrow> False),
               so_ignoreSuspending = Some ignoreSuspending\<rparr>)"

datatype pair_state = StorageOnly | DbOnly | DbOnlyDeleted | Both | BothDbDeleted
datatype pair_action = UpdateDb | UpdateStorage | SyncNewer | DeleteLocal | DeleteDb | Skip

text \<open>\<open>None\<close>: the pair is corrupted, an error is thrown.\<close>

fun getFilePairState :: "file_pair \<Rightarrow> pair_state option" where
  "getFilePairState (Some file, Some doc) = Some (if isDeletedEntry doc then BothDbDeleted else Both)"
| "getFilePairState (Some file, None) = Some StorageOnly"
| "getFilePairState (None, Some doc) = Some (if isDeletedEntry doc then DbOnlyDeleted else DbOnly)"
| "getFilePairState (None, None) = None"

definition shouldDeleteLocalWhenRemoteMissing :: "full_scan_options \<Rightarrow> bool" where
  "shouldDeleteLocalWhenRemoteMissing options \<longleftrightarrow>
     so_extraOnRemote options = Some DELETE_LOCAL_MISSING \<or> so_extraOnLocal options = Some DELETE_DB_MISSING"

definition shouldDeleteLocalWhenRemoteDeleted :: "full_scan_options \<Rightarrow> bool" where
  "shouldDeleteLocalWhenRemoteDeleted options \<longleftrightarrow>
     so_extraOnRemote options = Some DELETE_LOCAL_MISSING \<or> so_extraOnLocal options = Some DELETE_DB_DELETED \<or>
     so_extraOnLocal options = Some DELETE_DB_MISSING"

definition resolveFilePairAction :: "pair_state \<Rightarrow> full_scan_options \<Rightarrow> pair_action" where
  "resolveFilePairAction state options =
     (case so_mode options of
        DB_APPLY \<Rightarrow>
          (case state of
             Both \<Rightarrow> UpdateStorage
           | DbOnly \<Rightarrow> UpdateStorage
           | StorageOnly \<Rightarrow> if shouldDeleteLocalWhenRemoteMissing options then DeleteLocal else Skip
           | BothDbDeleted \<Rightarrow> if shouldDeleteLocalWhenRemoteDeleted options then DeleteLocal else Skip
           | DbOnlyDeleted \<Rightarrow> Skip)
      | NEWER_WINS \<Rightarrow>
          (case state of
             Both \<Rightarrow> SyncNewer
           | StorageOnly \<Rightarrow> if shouldDeleteLocalWhenRemoteMissing options then DeleteLocal else UpdateDb
           | DbOnly \<Rightarrow> UpdateStorage
           | BothDbDeleted \<Rightarrow>
               if shouldDeleteLocalWhenRemoteDeleted options then DeleteLocal
               else if so_extraOnLocal options = Some APPEND_STORAGE_ONLY then UpdateDb else Skip
           | DbOnlyDeleted \<Rightarrow> Skip))"

text \<open>
  The action of \<open>delete-db\<close>: a deletion that did not happen is queued again, dated when the file was last seen.
\<close>

definition deletion_event :: "string \<Rightarrow> int option \<Rightarrow> meta_entry \<Rightarrow> file_info" where
  "deletion_event path lastSeenMTime doc =
     (let deletedPath = stripAllPrefixes path;
          seen = (case lastSeenMTime of Some t \<Rightarrow> t | None \<Rightarrow> me_mtime doc)
      in \<lparr>fi_path = deletedPath, fi_name = last (split_on CHR ''/'' deletedPath), fi_size = me_size doc,
          fi_mtime = seen, fi_internal = False, fi_deleted = True\<rparr>)"

definition deleteEntryOfPair :: "'x scan_host \<Rightarrow> string \<Rightarrow> string \<Rightarrow> int option \<Rightarrow> meta_entry \<Rightarrow> ('x, pair_result) scan_call" where
  "deleteEntryOfPair h path fileMapKey lastSeenMTime doc =
     after (finally' (host_acts (DeleteEntry (stripAllPrefixes path)) (sh_deleteFileFromDB h (stripAllPrefixes path)))
              (\<lambda>r w. if r = Inr True then w else push_event DELETE (deletion_event path lastSeenMTime doc) w)) (\<lambda>dbDeleted.
       if dbDeleted then after (modifyW (forgetFileMTime fileMapKey)) (\<lambda>_. ret COMPLETED) else ret FAILED)"

definition performPairAction :: "'x scan_host \<Rightarrow> pair_action \<Rightarrow> file_pair \<Rightarrow> string \<Rightarrow> string \<Rightarrow> int option \<Rightarrow> ('x, pair_result) scan_call" where
  "performPairAction h action pair path fileMapKey lastSeenMTime =
     (case action of
        UpdateDb \<Rightarrow>
          (case fst pair of
             None \<Rightarrow> throw (error_text ''Missing storage file'')
           | Some file \<Rightarrow> updateToDatabase h file)
      | UpdateStorage \<Rightarrow>
          (case snd pair of
             None \<Rightarrow> throw (error_text ''Missing database entry'')
           | Some doc \<Rightarrow>
               after (updateToStorage h doc) (\<lambda>r.
               after (modifyW (if r = COMPLETED then updateFileMTimeInMap fileMapKey (me_mtime doc) else id)) (\<lambda>_. ret r)))
      | SyncNewer \<Rightarrow>
          (case pair of
             (Some file, Some doc) \<Rightarrow>
               after (syncStorageAndDatabase h file doc) (\<lambda>r.
               after (modifyW (if r = COMPLETED then updateFileMTimeInMap fileMapKey (max (fi_mtime file) (me_mtime doc)) else id))
                 (\<lambda>_. ret r))
           | _ \<Rightarrow> throw (error_text ''Cannot compare freshness''))
      | DeleteLocal \<Rightarrow>
          (case fst pair of
             None \<Rightarrow> ret COMPLETED
           | Some file \<Rightarrow>
               after (host_acts (DeleteFile (fi_path file)) (sh_delete h (fi_path file) True)) (\<lambda>_.
               after (modifyW (forgetFileMTime fileMapKey)) (\<lambda>_. ret COMPLETED)))
      | DeleteDb \<Rightarrow>
          (case snd pair of
             None \<Rightarrow> throw (error_text ''Missing database entry'')
           | Some doc \<Rightarrow> deleteEntryOfPair h path fileMapKey lastSeenMTime doc)
      | Skip \<Rightarrow> ret SKIPPED)"

text \<open>A file that was seen before and is missing now was deleted while nobody watched, unless the entry is newer.\<close>

definition deleted_offline :: "full_scan_options \<Rightarrow> pair_state \<Rightarrow> meta_entry option \<Rightarrow> int option \<Rightarrow> bool" where
  "deleted_offline options state doc lastSeenMTime \<longleftrightarrow>
     so_mode options = NEWER_WINS \<and> state = DbOnly \<and>
     (case (doc, lastSeenMTime) of
        (Some d, Some t) \<Rightarrow> compareMTime t (me_mtime d) = BASE_IS_NEW \<or> compareMTime t (me_mtime d) = EVEN
      | _ \<Rightarrow> False)"

definition processFilePair :: "'x scan_host \<Rightarrow> full_scan_options \<Rightarrow> file_pair \<Rightarrow> ('x, pair_result) scan_call" where
  "processFilePair h options pair =
     after (case snd pair of
              Some doc \<Rightarrow> getPathFromEntry doc
            | None \<Rightarrow> ret (case fst pair of Some file \<Rightarrow> fi_path file | None \<Rightarrow> [])) (\<lambda>path.
     if path = [] then throw (error_text ''Corrupted file pair'')
     else
       let fileMapKey = convertCase (handleFilenameCaseSensitive h) path in
       after (modifyW (case fst pair of Some file \<Rightarrow> updateFileMTimeInMap fileMapKey (fi_mtime file) | None \<Rightarrow> id)) (\<lambda>_.
       if (case snd pair of Some doc \<Rightarrow> me_conflicts doc \<noteq> [] | None \<Rightarrow> False) then ret SKIPPED
       else
         case getFilePairState pair of
           None \<Rightarrow> throw (error_text ''Corrupted file pair'')
         | Some state \<Rightarrow>
             after (getW (getFileMTimeFromMap fileMapKey)) (\<lambda>seen.
             let lastSeenMTime = (if so_mode options = NEWER_WINS \<and> state = DbOnly then seen else None);
                 action = (if deleted_offline options state (snd pair) lastSeenMTime then DeleteDb
                           else resolveFilePairAction state options)
             in catching (performPairAction h action pair path fileMapKey lastSeenMTime) (\<lambda>_. ret FAILED))))"

definition isLargeFilePair :: "file_pair \<Rightarrow> bool" where
  "isLargeFilePair pair \<longleftrightarrow>
     LARGE_FILE_BYTES \<le> (case fst pair of Some file \<Rightarrow> stat_size file | None \<Rightarrow> 0) \<or>
     LARGE_FILE_BYTES \<le> (case snd pair of Some doc \<Rightarrow> (case me_size doc of Some n \<Rightarrow> n | None \<Rightarrow> 0) | None \<Rightarrow> 0)"

section \<open>What is listed\<close>

definition from_entries :: "('a \<Rightarrow> 'k) \<Rightarrow> ('a \<Rightarrow> 'v) \<Rightarrow> 'a list \<Rightarrow> ('k, 'v) jsmap" where
  "from_entries key val xs = foldl (\<lambda>m x. jm_set (key x) (val x) m) [] xs"

text \<open>The names by path, and the last path of each normalised path.\<close>

definition index_names :: "bool \<Rightarrow> ('a \<Rightarrow> string) \<Rightarrow> 'a list \<Rightarrow> (string, 'a) jsmap \<times> (string, string) jsmap" where
  "index_names caseSensitive name xs =
     (let nameMap = from_entries name id xs
      in (nameMap, from_entries (convertCase caseSensitive) id (jm_keys nameMap)))"

definition collectFilesOnStorage :: "'x scan_host \<Rightarrow> ('x, (string, file_info) jsmap \<times> (string, string) jsmap) scan_call" where
  "collectFilesOnStorage h =
     after (host (sh_getFiles h)) (\<lambda>filesStorageSrc.
     after (forEach (\<lambda>f.
              after (checkInterrupted h) (\<lambda>_.
              if shouldBeIgnored (fi_path f) then ret []
              else after (awaits h) (\<lambda>_. ret (if sh_isTargetFile h (fi_path f) then [f] else [])))) filesStorageSrc) (\<lambda>kept.
     ret (index_names (handleFilenameCaseSensitive h) fi_path (concat kept))))"

datatype listed = Ignored | Unresolved string | Selected meta_entry string

definition selectDatabaseFile :: "'x scan_host \<Rightarrow> note_doc \<Rightarrow> ('x, listed) scan_call" where
  "selectDatabaseFile h doc =
     after (checkInterrupted h) (\<lambda>_.
     case doc of
       NoMeta _ \<Rightarrow> ret Ignored
     | Meta d \<Rightarrow>
         after (awaits h) (\<lambda>_.
         after (lift_path (inspectMetadataDocumentIdentity (sh_sha h) (sh_paths h) d)) (\<lambda>identity.
         case identity of
           EXCLUDED _ _ _ \<Rightarrow> ret Ignored
         | UNRESOLVED dg \<Rightarrow> ret (Unresolved (convertCase (handleFilenameCaseSensitive h) (stripAllPrefixes (dg_declaredPath dg))))
         | CONSISTENT _ path _ \<Rightarrow>
             if sh_isValidPath h path \<and> \<not> shouldBeIgnored path
             then after (awaits h) (\<lambda>_. ret (if sh_isTargetFile h path then Selected d path else Ignored))
             else ret Ignored)))"

definition unresolved_names :: "listed list \<Rightarrow> string list" where
  "unresolved_names ls = js_unique (concat (map (\<lambda>l. case l of Unresolved k \<Rightarrow> [k] | _ \<Rightarrow> []) ls))"

definition resolvable_names :: "bool \<Rightarrow> listed list \<Rightarrow> string list" where
  "resolvable_names caseSensitive ls =
     js_unique (concat (map (\<lambda>l. case l of Selected d p \<Rightarrow> [convertCase caseSensitive (stripAllPrefixes p)] | _ \<Rightarrow> []) ls))"

definition selected_entries :: "listed list \<Rightarrow> (string \<times> meta_entry) list" where
  "selected_entries ls = concat (map (\<lambda>l. case l of Selected d p \<Rightarrow> [(p, d)] | _ \<Rightarrow> []) ls)"

text \<open>The map of entries by path, the last path of each normalised path, and the quarantined paths.\<close>

definition collectDatabaseFiles ::
    "'x scan_host \<Rightarrow> ('x, (string, string \<times> meta_entry) jsmap \<times> (string, string) jsmap \<times> string list) scan_call" where
  "collectDatabaseFiles h =
     after (host (sh_normalDocs h)) (\<lambda>docs.
     after (forEach (selectDatabaseFile h) docs) (\<lambda>ls.
     let caseSensitive = handleFilenameCaseSensitive h;
         (names, caps) = index_names caseSensitive fst (selected_entries ls)
     in ret (names, caps, filter (\<lambda>path. path \<notin> set (resolvable_names caseSensitive ls)) (unresolved_names ls))))"

section \<open>The scan\<close>

definition make_pairs ::
    "(string, file_info) jsmap \<times> (string, string) jsmap \<Rightarrow>
     (string, string \<times> meta_entry) jsmap \<times> (string, string) jsmap \<times> string list \<Rightarrow> file_pair list" where
  "make_pairs storage database =
     (case (storage, database) of
        ((storageFileNameMap, storageFileNameCI2CS), (databaseFileNameMap, databaseFileNameCI2CS, quarantinedFileNamesLC)) \<Rightarrow>
          map (\<lambda>fileNameLC.
            (Option.bind (jm_get storageFileNameCI2CS fileNameLC) (jm_get storageFileNameMap),
             map_option snd (Option.bind (jm_get databaseFileNameCI2CS fileNameLC) (jm_get databaseFileNameMap))))
          (filter (\<lambda>fileNameLC. fileNameLC \<notin> set quarantinedFileNamesLC)
            (js_unique (jm_keys storageFileNameCI2CS @ jm_keys databaseFileNameCI2CS))))"

definition retry_pair :: "file_pair \<Rightarrow> 'x scan_world \<Rightarrow> 'x scan_world" where
  "retry_pair pair =
     (case snd pair of
        Some doc \<Rightarrow> push_reflection doc
      | None \<Rightarrow> (case fst pair of Some file \<Rightarrow> push_event CHANGED file | None \<Rightarrow> id))"

text \<open>The words of \<open>isFatalEarlyDatabaseError\<close>, matched without regard to case.\<close>

definition database_words :: "string list" where
  "database_words = [''indexed_db_went_bad'', ''indexeddb'', ''pouch'', ''invalidstateerror'', ''transactioninactiveerror'',
     ''unknownerror'', ''aborterror'', ''databaseclosederror'']"

fun isFatalEarlyDatabaseError :: "scan_error \<Rightarrow> bool" where
  "isFatalEarlyDatabaseError EarlyDatabaseRead = True"
| "isFatalEarlyDatabaseError EarlyScanInterrupted = False"
| "isFatalEarlyDatabaseError UnknownFileWriteState = False"
| "isFatalEarlyDatabaseError (Thrown e) =
     (500 \<le> er_status e \<or>
      list_ex (\<lambda>word. index_of word (js_lower (er_name e @ '' '' @ er_message e)) \<noteq> None) database_words)"

definition earlyPair :: "'x scan_host \<Rightarrow> file_pair \<Rightarrow> ('x, pair_result) scan_call" where
  "earlyPair h pair =
     after (case snd pair of
              Some doc \<Rightarrow> getPathFromEntry doc
            | None \<Rightarrow> ret (case fst pair of Some file \<Rightarrow> fi_path file | None \<Rightarrow> [])) (\<lambda>path.
     if path = [] then ret FAILED
     else after (host_acts (EarlyScan path) (sh_earlyScan h path)) (\<lambda>result.
          after (modifyW (if result = FAILED then retry_pair pair else id)) (\<lambda>_. ret result)))"

definition processPair :: "'x scan_host \<Rightarrow> full_scan_options \<Rightarrow> file_pair \<Rightarrow> ('x, pair_result) scan_call" where
  "processPair h options pair =
     catching
       (after (getW (\<lambda>w. sh_earlyActive h (sw_env w))) (\<lambda>early.
          if early then earlyPair h pair else processFilePair h options pair))
       (\<lambda>ex. after (getW (\<lambda>w. sh_earlyActive h (sw_env w))) (\<lambda>early.
          if early \<and> isFatalEarlyDatabaseError ex then throw ex
          else after (modifyW (if early then retry_pair pair else id)) (\<lambda>_. ret FAILED)))"

text \<open>How many entries and how many storage events were taken for another attempt.\<close>

definition queueScanRetries :: "'x scan_host \<Rightarrow> ('x, nat \<times> nat) scan_call" where
  "queueScanRetries h =
     after (getW sw_reflections) (\<lambda>reflections.
     after (if reflections = [] then ret 0
            else after (catching
                   (case sh_parseSynchroniseResult h of None \<Rightarrow> ret False | Some parse \<Rightarrow> host (parse reflections))
                   (\<lambda>_. ret False)) (\<lambda>accepted. ret (if accepted then length reflections else 0))) (\<lambda>n.
     after (getW sw_events) (\<lambda>storageEvents.
     after (if storageEvents = [] then ret 0
            else after (catching
                   (case sh_appendStorageEvents h of None \<Rightarrow> ret False | Some takeEvents \<Rightarrow> after (host (takeEvents storageEvents)) (\<lambda>_. ret True))
                   (\<lambda>_. ret False)) (\<lambda>accepted. ret (if accepted then length storageEvents else 0))) (\<lambda>m.
     ret (n, m)))))"

definition clearVaultScanOutcome :: "'x scan_world \<Rightarrow> 'x scan_world" where
  "clearVaultScanOutcome w = w\<lparr>sw_outcome := no_outcome\<rparr>"

definition rememberListing :: "'x scan_host \<Rightarrow> (string, file_info) jsmap \<times> (string, string) jsmap \<Rightarrow> 'x scan_world \<Rightarrow> 'x scan_world" where
  "rememberListing h storage w =
     (if sw_listing w = None then w
      else w\<lparr>sw_listing := Some (Some \<lparr>sl_caseSensitive = handleFilenameCaseSensitive h,
             sl_files = concat (map (\<lambda>(key, path). case jm_get (fst storage) path of Some f \<Rightarrow> [(key, f)] | None \<Rightarrow> []) (snd storage))\<rparr>)\<rparr>)"

definition listPairs :: "'x scan_host \<Rightarrow> ('x, file_pair list) scan_call" where
  "listPairs h =
     after (modifyW clearVaultScanOutcome) (\<lambda>_.
     after (loadFileStatus h) (\<lambda>_.
     after (collectFilesOnStorage h) (\<lambda>storage.
     after (modifyW (rememberListing h storage)) (\<lambda>_.
     after (collectDatabaseFiles h) (\<lambda>database.
     ret (make_pairs storage database))))))"

definition runPairs :: "'x scan_host \<Rightarrow> full_scan_options \<Rightarrow> file_pair list \<Rightarrow> ('x, pair_result list) scan_call" where
  "runPairs h options pairs =
     after (modifyW (\<lambda>w. w\<lparr>sw_reflections := [], sw_events := []\<rparr>)) (\<lambda>_.
     forEach (processPair h options)
       (sh_schedule h (filter (\<lambda>p. \<not> isLargeFilePair p) pairs) (filter isLargeFilePair pairs)))"

definition synchroniseAllFilesBetweenDBandStorage :: "'x scan_host \<Rightarrow> full_scan_options \<Rightarrow> ('x, bool) scan_call" where
  "synchroniseAllFilesBetweenDBandStorage h options =
     after (listPairs h) (\<lambda>pairs.
     after (runPairs h options pairs) (\<lambda>results.
     let failedCount = length (filter (\<lambda>r. r = FAILED) results) in
     after (queueScanRetries h) (\<lambda>queued.
     after (checkInterrupted h) (\<lambda>_.
     after (saveFileStatusNow h) (\<lambda>_.
     after (modifyW (\<lambda>w. w\<lparr>sw_outcome := (sw_outcome w)\<lparr>oc_failedPairs := Some failedCount,
              oc_queuedForReflection := Some (fst queued), oc_queuedAsStorageEvents := Some (snd queued)\<rparr>\<rparr>)) (\<lambda>_.
     ret (failedCount = 0)))))))"

section \<open>Permission, expired deletions and the full scan\<close>

definition showError :: "scan_problem \<Rightarrow> 'x scan_world \<Rightarrow> 'x scan_world" where
  "showError p w = (if p \<in> set (sw_errors w) then w else w\<lparr>sw_errors := sw_errors w @ [p]\<rparr>)"

definition clearError :: "scan_problem \<Rightarrow> 'x scan_world \<Rightarrow> 'x scan_world" where
  "clearError p w = w\<lparr>sw_errors := filter (\<lambda>q. q \<noteq> p) (sw_errors w)\<rparr>"

definition canProceedScan :: "'x scan_host \<Rightarrow> bool \<Rightarrow> ('x, bool) scan_call" where
  "canProceedScan h ignoreSuspending =
     (let settings = sh_em h in
      if \<not> es_isConfigured settings then after (modifyW (showError NotConfigured)) (\<lambda>_. ret False)
      else after (modifyW (clearError NotConfigured)) (\<lambda>_.
        if \<not> ignoreSuspending \<and> es_suspendFileWatching settings
        then after (modifyW (showError Suspending)) (\<lambda>_. ret False)
        else after (modifyW (clearError Suspending)) (\<lambda>_.
          if isRemediationModeActive settings then after (modifyW (showError InRemediation)) (\<lambda>_. ret False)
          else after (modifyW (clearError InRemediation)) (\<lambda>_. ret True))))"

definition isAnyNote :: "meta_entry \<Rightarrow> bool" where
  "isAnyNote d \<longleftrightarrow> me_type d = ''newnote'' \<or> me_type d = ''plain''"

definition expiredDeletion :: "'x scan_host \<Rightarrow> int \<Rightarrow> note_doc \<Rightarrow> ('x, meta_entry list) scan_call" where
  "expiredDeletion h limit doc =
     (let d = (case doc of Meta e \<Rightarrow> e | NoMeta e \<Rightarrow> e)
      in if isAnyNote d \<and> me_deleted d = Some True \<and> me_mtime d - limit < 0
         then (if isMetaEntry doc
               then after (awaits h) (\<lambda>_.
                    after (lift_path (inspectMetadataDocumentIdentity (sh_sha h) (sh_paths h) d)) (\<lambda>identity.
                    ret (case identity of UNRESOLVED _ \<Rightarrow> [] | _ \<Rightarrow> [d])))
               else ret [d])
         else ret [])"

definition collectDeletedFiles :: "'x scan_host \<Rightarrow> ('x, unit) scan_call" where
  "collectDeletedFiles h =
     (if sh_deleteMetadataDays h \<le> 0 then ret ()
      else
        after (getW (\<lambda>w. sh_now h (sw_env w) - 86400 * 1000 * sh_deleteMetadataDays h)) (\<lambda>limit.
        after (host (sh_allDocs h)) (\<lambda>docs.
        after (forEach (expiredDeletion h limit) docs) (\<lambda>notes.
        after (forEach (\<lambda>d. host_acts (PurgeEntry (me_id d)) (sh_putRaw h (d\<lparr>me_tombstone := True\<rparr>))) (concat notes)) (\<lambda>_. ret ())))))"

text \<open>The end of a full scan, after its pairs.\<close>

definition finishFullScan :: "'x scan_host \<Rightarrow> bool \<Rightarrow> bool \<Rightarrow> ('x, bool) scan_call" where
  "finishFullScan h isInitialized scanResult =
     after (getW sw_outcome) (\<lambda>pairOutcome.
     after (modifyW clearVaultScanOutcome) (\<lambda>_.
     after (checkInterrupted h) (\<lambda>_.
     after (if \<not> isInitialized then host (sh_setInitialized h) else ret ()) (\<lambda>_.
     after (modifyW (\<lambda>w. w\<lparr>sw_outcome := pairOutcome\<rparr>)) (\<lambda>_.
     let failedPairs = (case oc_failedPairs pairOutcome of Some n \<Rightarrow> n | None \<Rightarrow> 0);
         queuedPairs = (case oc_queuedForReflection pairOutcome of Some n \<Rightarrow> n | None \<Rightarrow> 0) +
                       (case oc_queuedAsStorageEvents pairOutcome of Some n \<Rightarrow> n | None \<Rightarrow> 0)
     in
     after (getW (\<lambda>w. sh_earlyActive h (sw_env w))) (\<lambda>early.
     if early \<and> (scanResult \<or> 0 < failedPairs \<and> failedPairs \<le> queuedPairs)
     then after (host (sh_earlyComplete h)) (\<lambda>done. if done then ret scanResult else throw EarlyScanInterrupted)
     else ret scanResult))))))"

definition performFullScan :: "'x scan_host \<Rightarrow> scan_argument option \<Rightarrow> bool \<Rightarrow> ('x, bool) scan_call" where
  "performFullScan h showingNoticeOrOptions ignoreSuspending =
     (let options = normaliseFullScanOptions showingNoticeOrOptions ignoreSuspending;
          shouldIgnoreSuspending = (case so_ignoreSuspending options of Some b \<Rightarrow> b | None \<Rightarrow> False)
      in
     after (modifyW clearVaultScanOutcome) (\<lambda>_.
     after (canProceedScan h shouldIgnoreSuspending) (\<lambda>permitted.
     if \<not> permitted then ret False
     else
     after (host (sh_getInitialized h)) (\<lambda>isInitialized.
     after (checkInterrupted h) (\<lambda>_.
     after (if isInitialized then host (sh_restoreState h) else ret ()) (\<lambda>_.
     after (collectDeletedFiles h) (\<lambda>_.
     after (synchroniseAllFilesBetweenDBandStorage h options) (finishFullScan h isInitialized))))))))"

definition handleScanVault :: "'x scan_host \<Rightarrow> bool option \<Rightarrow> bool \<Rightarrow> ('x, bool) scan_call" where
  "handleScanVault h showingNotice ignoreSuspending =
     catching
       (performFullScan h (Some (Options None \<lparr>so_mode = NEWER_WINS, so_extraOnLocal = None, so_extraOnRemote = None,
          so_showingNotice = Some (case showingNotice of Some b \<Rightarrow> b | None \<Rightarrow> False),
          so_ignoreSuspending = Some ignoreSuspending\<rparr>)) False)
       (\<lambda>ex. if ex = EarlyScanInterrupted
              then after (modifyW (\<lambda>w. w\<lparr>sw_outcome := no_outcome\<lparr>oc_interrupted := True\<rparr>\<rparr>)) (\<lambda>_. ret False)
              else throw ex)"

section \<open>The start-up reconciliation\<close>

definition same_stat :: "file_info \<Rightarrow> file_info \<Rightarrow> bool" where
  "same_stat before file \<longleftrightarrow> fi_mtime before = fi_mtime file \<and> fi_size before = fi_size file"

definition changed_event :: "startup_listing \<Rightarrow> (string, int) jsmap \<Rightarrow> string \<Rightarrow> file_info \<Rightarrow> (event_type \<times> file_info) list" where
  "changed_event listed seen key file =
     (let before = jm_get (sl_files listed) key
      in if (case before of Some b \<Rightarrow> same_stat b file | None \<Rightarrow> False) then []
         else if (case before of None \<Rightarrow> True | Some b \<Rightarrow> fi_size b = fi_size file) \<and> jm_get seen key = Some (fi_mtime file) then []
         else [(if before \<noteq> None then CHANGED else CREATE, file)])"

definition deleted_event :: "string list \<Rightarrow> (string, int) jsmap \<Rightarrow> string \<Rightarrow> file_info \<Rightarrow> (event_type \<times> file_info) list" where
  "deleted_event present seen key before =
     (if key \<in> set present \<or> jm_get seen key = None then []
      else [(DELETE, \<lparr>fi_path = fi_path before, fi_name = last (split_on CHR ''/'' (fi_path before)), fi_size = fi_size before,
               fi_mtime = fi_mtime before, fi_internal = False, fi_deleted = True\<rparr>)])"

definition revalidated :: "event_type \<times> file_info \<Rightarrow> file_event" where
  "revalidated e = \<lparr>fe_type = fst e, fe_file = snd e, fe_oldPath = None, fe_cachedData = None, fe_skipBatchWait = False,
     fe_revalidate = True\<rparr>"

definition storageChanges ::
    "startup_listing \<Rightarrow> (string, int) jsmap \<Rightarrow> (string, file_info) jsmap \<times> (string, string) jsmap \<Rightarrow> file_event list" where
  "storageChanges listed seen storage =
     map revalidated
       (concat (map (\<lambda>(key, path). case jm_get (fst storage) path of
                 Some file \<Rightarrow> changed_event listed seen key file | None \<Rightarrow> []) (snd storage)) @
        concat (map (\<lambda>(key, before). deleted_event (jm_keys (snd storage)) seen key before) (sl_files listed)))"

definition queueStorageChangesSinceLastScan :: "'x scan_host \<Rightarrow> ('x, bool) scan_call" where
  "queueStorageChangesSinceLastScan h =
     after (getW sw_listing) (\<lambda>entry.
     after (modifyW (\<lambda>w. w\<lparr>sw_listing := None\<rparr>)) (\<lambda>_.
     case (entry, sh_appendStorageEvents h) of
       (Some (Some listed), Some appendEvents) \<Rightarrow>
         catching
           (if handleFilenameCaseSensitive h \<noteq> sl_caseSensitive listed then ret True
            else
              after (collectFilesOnStorage h) (\<lambda>storage.
              after (getW sw_fileMaps) (\<lambda>seen.
              let events = storageChanges listed seen storage in
              if events = [] then ret True
              else after (host (appendEvents events)) (\<lambda>_. ret True))))
           (\<lambda>_. ret True)
     | _ \<Rightarrow> ret True))"

section \<open>Weakest preconditions of the host's calls\<close>

lemma wp_host_call [simp, wp_simps]:
  "wp (host m) Q w = (case m (sw_env w) of (r, x) \<Rightarrow> Q r (w\<lparr>sw_env := x\<rparr>))"
  by (simp add: wp_def host_def ask_def split: prod.split)

lemma wp_host_acts [simp, wp_simps]:
  "wp (host_acts a m) Q w = (case m (sw_env w) of (r, x) \<Rightarrow> Q r (w\<lparr>sw_env := x, sw_trace := sw_trace w @ [a]\<rparr>))"
  by (simp add: wp_def host_acts_def ask_def split: prod.split)

lemma wp_awaits [simp, wp_simps]: "wp (awaits h) Q w = Q (Inr ()) (w\<lparr>sw_env := sh_awaited h (sw_env w)\<rparr>)"
  by (simp add: awaits_def)

lemma wp_checkInterrupted [simp, wp_simps]:
  "wp (checkInterrupted h) Q w = (if interrupted h w then Q (Inl EarlyScanInterrupted) w else Q (Inr ()) w)"
  by (simp add: checkInterrupted_def)

lemma wp_lift_path [simp, wp_simps]:
  "wp (lift_path r) Q w = (case r of Inl e \<Rightarrow> Q (Inl (error_text ''Entry has been obfuscated!'')) w | Inr a \<Rightarrow> Q (Inr a) w)"
  by (cases r) simp_all

lemma wp_getPathFromEntry [simp, wp_simps]:
  "wp (getPathFromEntry d) Q w =
     (case entry_getPath d of Inl e \<Rightarrow> Q (Inl (error_text ''Entry has been obfuscated!'')) w | Inr a \<Rightarrow> Q (Inr a) w)"
  by (simp add: getPathFromEntry_def)

section \<open>What a pair may do\<close>

definition pair_path :: "file_pair \<Rightarrow> string" where
  "pair_path pair =
     (case snd pair of
        Some doc \<Rightarrow> (case entry_getPath doc of Inr p \<Rightarrow> p | Inl _ \<Rightarrow> [])
      | None \<Rightarrow> (case fst pair of Some file \<Rightarrow> fi_path file | None \<Rightarrow> []))"

definition pair_key :: "'x scan_host \<Rightarrow> file_pair \<Rightarrow> string" where
  "pair_key h pair = convertCase (handleFilenameCaseSensitive h) (pair_path pair)"

text \<open>The options with which no file of the storage is given up for the sake of the database.\<close>

definition safe_options :: "full_scan_options \<Rightarrow> bool" where
  "safe_options options \<longleftrightarrow>
     so_mode options = NEWER_WINS \<and> so_extraOnRemote options = None \<and>
     so_extraOnLocal options \<in> {None, Some APPEND_STORAGE_ONLY}"

text \<open>What justifies a change, given the last-seen time of the pair.\<close>

fun justified :: "'x scan_host \<Rightarrow> file_pair \<Rightarrow> int option \<Rightarrow> host_action \<Rightarrow> bool" where
  "justified h (f, d) seen (StoreToDB p) \<longleftrightarrow>
     (case (f, d) of
        (Some file, None) \<Rightarrow> p = fi_path file
      | (Some file, Some doc) \<Rightarrow> p = fi_path file \<and> me_conflicts doc = [] \<and>
          (isDeletedEntry doc \<or> decideFreshness h file doc = BASE_IS_NEW)
      | _ \<Rightarrow> False)"
| "justified h (f, d) seen (Reflect p force) \<longleftrightarrow>
     (case (f, d) of
        (Some file, Some doc) \<Rightarrow> \<not> force \<and> me_conflicts doc = [] \<and> \<not> isDeletedEntry doc \<and> decideFreshness h file doc = TARGET_IS_NEW
      | (None, Some doc) \<Rightarrow> force \<and> me_conflicts doc = [] \<and> \<not> isDeletedEntry doc \<and>
          (case seen of None \<Rightarrow> True | Some t \<Rightarrow> compareMTime t (me_mtime doc) = TARGET_IS_NEW)
      | _ \<Rightarrow> False)"
| "justified h (f, d) seen (DeleteEntry p) \<longleftrightarrow>
     (case (f, d) of
        (None, Some doc) \<Rightarrow> me_conflicts doc = [] \<and> \<not> isDeletedEntry doc \<and> p = stripAllPrefixes (pair_path (f, d)) \<and>
          (case seen of None \<Rightarrow> False | Some t \<Rightarrow> compareMTime t (me_mtime doc) \<noteq> TARGET_IS_NEW)
      | _ \<Rightarrow> False)"
| "justified h (f, d) seen (DeleteFile p) \<longleftrightarrow> False"
| "justified h (f, d) seen (EarlyScan p) \<longleftrightarrow> False"
| "justified h (f, d) seen (PurgeEntry p) \<longleftrightarrow> False"
| "justified h (f, d) seen (PutEntry e) \<longleftrightarrow> False"
| "justified h (f, d) seen (RemoveEntry p r) \<longleftrightarrow> False"

definition retries_count :: "'x scan_world \<Rightarrow> nat" where
  "retries_count w = length (sw_reflections w) + length (sw_events w)"

text \<open>What one pair does to the world: at most one justified action, one retry exactly when it fails, its own key.\<close>

definition pair_effect :: "'x scan_host \<Rightarrow> file_pair \<Rightarrow> 'x scan_world \<Rightarrow> pair_result \<Rightarrow> 'x scan_world \<Rightarrow> bool" where
  "pair_effect h pair w r w' \<longleftrightarrow>
     (\<exists>acts. sw_trace w' = sw_trace w @ acts \<and> length acts \<le> 1 \<and>
        (\<forall>a\<in>set acts. justified h pair (jm_get (sw_fileMaps w) (pair_key h pair)) a)) \<and>
     retries_count w' = retries_count w + (if r = FAILED then 1 else 0) \<and>
     (\<forall>k. k \<noteq> pair_key h pair \<longrightarrow> jm_get (sw_fileMaps w') k = jm_get (sw_fileMaps w) k) \<and>
     sw_outcome w' = sw_outcome w \<and> sw_listing w' = sw_listing w"

definition pair_ok :: "file_pair \<Rightarrow> bool" where
  "pair_ok pair \<longleftrightarrow> pair_path pair \<noteq> [] \<and> (case snd pair of Some doc \<Rightarrow> (\<exists>p. entry_getPath doc = Inr p) | None \<Rightarrow> True)"

lemmas pair_world_simps = push_reflection_def push_event_def retries_count_def updateFileMTimeInMap_def
  forgetFileMTime_def saveFileStatus_def getFileMTimeFromMap_def

lemma storeStorageFile_wp:
  assumes "\<And>x. Q (Inr ()) (w\<lparr>sw_env := x, sw_trace := sw_trace w @ [StoreToDB (fi_path file)]\<rparr>)"
    and "\<And>e x. Q (Inl e) (push_event CHANGED file (w\<lparr>sw_env := x, sw_trace := sw_trace w @ [StoreToDB (fi_path file)]\<rparr>))"
  shows "wp (storeStorageFile h file) Q w"
  using assms by (simp add: storeStorageFile_def split: prod.split sum.split)

lemma reflect_wp:
  assumes "\<And>x. Q (Inr True) (w\<lparr>sw_env := x, sw_trace := sw_trace w @ [a]\<rparr>)"
    and "\<And>r x. r \<noteq> Inr True \<Longrightarrow> Q r (push_reflection doc (w\<lparr>sw_env := x, sw_trace := sw_trace w @ [a]\<rparr>))"
  shows "wp (reflectEntryToStorage (host_acts a m) doc) Q w"
  using assms by (simp add: reflectEntryToStorage_def split: prod.split)

definition pair_post :: "'x scan_host \<Rightarrow> file_pair \<Rightarrow> 'x scan_world \<Rightarrow> scan_error + pair_result \<Rightarrow> 'x scan_world \<Rightarrow> bool" where
  "pair_post h pair w r w' = (case r of Inl e \<Rightarrow> False | Inr res \<Rightarrow> pair_effect h pair w res w')"

lemma safe_action_storage_only:
  "safe_options options \<Longrightarrow> resolveFilePairAction StorageOnly options = UpdateDb"
  by (auto simp: safe_options_def resolveFilePairAction_def shouldDeleteLocalWhenRemoteMissing_def)

lemma safe_action_deleted:
  "safe_options options \<Longrightarrow> resolveFilePairAction BothDbDeleted options \<in> {UpdateDb, Skip}"
  by (auto simp: safe_options_def resolveFilePairAction_def shouldDeleteLocalWhenRemoteDeleted_def)

lemma safe_action_other:
  "safe_options options \<Longrightarrow> resolveFilePairAction Both options = SyncNewer"
  "safe_options options \<Longrightarrow> resolveFilePairAction DbOnly options = UpdateStorage"
  "safe_options options \<Longrightarrow> resolveFilePairAction DbOnlyDeleted options = Skip"
  by (auto simp: safe_options_def resolveFilePairAction_def)

lemmas pair_defs = processFilePair_def pair_ok_def pair_path_def Let_def deleted_offline_def performPairAction_def
  updateToDatabase_def updateToStorage_def syncStorageAndDatabase_def syncFileBetweenDBandStorage_def deleteEntryOfPair_def
  pair_post_def pair_effect_def pair_key_def pair_world_simps

lemma pair_storage_only:
  assumes "safe_options options" and "pair_ok (Some file, None)"
  shows "wp (processFilePair h options (Some file, None)) (pair_post h (Some file, None) w) w"
  using assms by (auto simp: pair_defs safe_action_storage_only intro!: storeStorageFile_wp)

lemma pair_deleted_entry:
  assumes "safe_options options" and "pair_ok (Some file, Some doc)" and "isDeletedEntry doc"
  shows "wp (processFilePair h options (Some file, Some doc)) (pair_post h (Some file, Some doc) w) w"
  using assms safe_action_deleted [OF assms(1)] by (auto simp: pair_defs intro!: storeStorageFile_wp)

lemma pair_both:
  assumes "safe_options options" and "pair_ok (Some file, Some doc)" and "\<not> isDeletedEntry doc"
  shows "wp (processFilePair h options (Some file, Some doc)) (pair_post h (Some file, Some doc) w) w"
  using assms
  by (auto simp: pair_defs safe_action_other intro!: storeStorageFile_wp reflect_wp split: freshness.split sum.splits)

lemma pair_db_only:
  assumes "safe_options options" and "pair_ok (None, Some doc)"
  shows "wp (processFilePair h options (None, Some doc)) (pair_post h (None, Some doc) w) w"
proof (cases "jm_get (sw_fileMaps w) (pair_key h (None, Some doc))")
  case None
  then show ?thesis using assms
    by (auto simp: pair_defs safe_action_other intro!: reflect_wp split: sum.splits)
next
  case (Some t)
  moreover have "so_mode options = NEWER_WINS" using assms(1) by (simp add: safe_options_def)
  ultimately show ?thesis using assms
    by (cases "compareMTime t (me_mtime doc)")
       (auto simp: pair_defs safe_action_other intro!: reflect_wp split: sum.splits)
qed

lemma pair_nonempty: "pair_ok pair \<Longrightarrow> pair \<noteq> (None, None)"
  by (auto simp: pair_ok_def pair_path_def)

text \<open>One pair, whatever it is.\<close>

lemma processFilePair_wp:
  assumes "safe_options options" and "pair_ok pair"
  shows "wp (processFilePair h options pair) (pair_post h pair w) w"
proof (cases pair)
  case (Pair f d)
  then consider f1 where "pair = (Some f1, None)"
    | f1 doc where "pair = (Some f1, Some doc)" "isDeletedEntry doc"
    | f1 doc where "pair = (Some f1, Some doc)" "\<not> isDeletedEntry doc"
    | doc where "pair = (None, Some doc)"
    using pair_nonempty [OF assms(2)] by (cases f; cases d) auto
  then show ?thesis
    by cases (use assms in \<open>simp_all add: pair_storage_only pair_deleted_entry pair_both pair_db_only\<close>)
qed

definition never_early :: "'x scan_host \<Rightarrow> bool" where
  "never_early h \<longleftrightarrow> (\<forall>x. \<not> sh_earlyActive h x)"

lemma processPair_wp:
  assumes "safe_options options" and "pair_ok pair" and "never_early h"
  shows "wp (processPair h options pair) (pair_post h pair w) w"
  using processFilePair_wp [OF assms(1,2), of h w] assms(3)
  by (auto simp: processPair_def never_early_def pair_post_def elim!: wp_mono split: sum.splits)

text \<open>
  What a run over pairs with different keys has done: its actions are justified by their pairs and by the
  last-seen times from before the run, one retry was kept for each failure, and the keys of the pairs that are
  still to come are untouched.
\<close>

definition run_effect :: "'x scan_host \<Rightarrow> 'x scan_world \<Rightarrow> file_pair list \<Rightarrow> pair_result list \<Rightarrow> 'x scan_world \<Rightarrow> bool" where
  "run_effect h w done rs w' \<longleftrightarrow>
     (\<exists>acts. sw_trace w' = sw_trace w @ acts \<and> length acts \<le> length done \<and>
        (\<forall>a\<in>set acts. \<exists>p\<in>set done. justified h p (jm_get (sw_fileMaps w) (pair_key h p)) a)) \<and>
     retries_count w' = retries_count w + length (filter (\<lambda>r. r = FAILED) rs) \<and>
     (\<forall>k. k \<notin> pair_key h ` set done \<longrightarrow> jm_get (sw_fileMaps w') k = jm_get (sw_fileMaps w) k) \<and>
     sw_outcome w' = sw_outcome w \<and> sw_listing w' = sw_listing w"

lemma run_effect_start: "run_effect h w [] [] w"
  by (simp add: run_effect_def)

lemma run_effect_step:
  assumes "run_effect h w done rs w1" and "pair_effect h p w1 r w2" and "pair_key h p \<notin> pair_key h ` set done"
  shows "run_effect h w (done @ [p]) (rs @ [r]) w2"
proof -
  obtain acts1 where 1: "sw_trace w1 = sw_trace w @ acts1" "length acts1 \<le> length done"
      "\<forall>a\<in>set acts1. \<exists>p\<in>set done. justified h p (jm_get (sw_fileMaps w) (pair_key h p)) a"
    using assms(1) by (auto simp: run_effect_def)
  obtain acts2 where 2: "sw_trace w2 = sw_trace w1 @ acts2" "length acts2 \<le> 1"
      "\<forall>a\<in>set acts2. justified h p (jm_get (sw_fileMaps w1) (pair_key h p)) a"
    using assms(2) by (auto simp: pair_effect_def)
  have same: "jm_get (sw_fileMaps w1) (pair_key h p) = jm_get (sw_fileMaps w) (pair_key h p)"
    using assms(1,3) by (auto simp: run_effect_def)
  have "sw_trace w2 = sw_trace w @ (acts1 @ acts2)" "length (acts1 @ acts2) \<le> length (done @ [p])"
    "\<forall>a\<in>set (acts1 @ acts2). \<exists>q\<in>set (done @ [p]). justified h q (jm_get (sw_fileMaps w) (pair_key h q)) a"
    using 1 2 same by auto
  then show ?thesis
    using assms by (auto simp: run_effect_def pair_effect_def)
qed

lemma run_pairs_wp:
  assumes "safe_options options" and "never_early h" and "\<forall>p\<in>set ps. pair_ok p" and "distinct (map (pair_key h) ps)"
  shows "wp (forEach (processPair h options) ps)
           (\<lambda>r w'. case r of Inl e \<Rightarrow> False | Inr rs \<Rightarrow> length rs = length ps \<and> run_effect h w ps rs w') w"
proof (rule wp_forEach_results [where J = "run_effect h w"], goal_cases)
  case (1 d x rest rs w1)
  have new: "pair_key h x \<notin> pair_key h ` set d" using assms(4) 1(1) by auto
  have "wp (processPair h options x) (pair_post h x w1) w1"
    by (rule processPair_wp) (use assms 1(1) in auto)
  then show ?case
    by (rule wp_mono) (use run_effect_step [OF 1(3) _ new] in \<open>auto simp: pair_post_def split: sum.splits\<close>)
next
  case 2
  show ?case by (rule run_effect_start)
next
  case (3 rs w1)
  then show ?case by simp
qed

section \<open>The pairs\<close>

lemma from_entries_snoc: "from_entries key val (xs @ [x]) = jm_set (key x) (val x) (from_entries key val xs)"
  by (simp add: from_entries_def)

lemma from_entries_wf: "jm_wf (from_entries key val xs)"
  by (induction xs rule: rev_induct) (simp_all add: from_entries_snoc, simp add: from_entries_def)

lemma from_entries_keys: "set (jm_keys (from_entries key val xs)) = key ` set xs"
  by (induction xs rule: rev_induct) (auto simp: from_entries_snoc jm_keys_set, auto simp: from_entries_def)

lemma from_entries_Some:
  "jm_get (from_entries key val xs) k = Some v \<Longrightarrow> \<exists>x\<in>set xs. key x = k \<and> val x = v"
  by (induction xs rule: rev_induct) (auto simp: from_entries_snoc split: if_splits, simp add: from_entries_def)

lemma from_entries_has: "jm_get (from_entries key val xs) k \<noteq> None \<longleftrightarrow> k \<in> key ` set xs"
  using from_entries_keys [of key val xs] jsm.keys_get [of k "from_entries key val xs"] by simp

lemma from_entries_last:
  "key x = k \<Longrightarrow> \<forall>y\<in>set ys. key y \<noteq> k \<Longrightarrow> jm_get (from_entries key val (xs @ x # ys)) k = Some (val x)"
proof (induction ys rule: rev_induct)
  case Nil
  then show ?case by (simp add: from_entries_snoc)
next
  case (snoc y ys)
  then show ?case using from_entries_snoc [of key val "xs @ x # ys" y] by auto
qed

text \<open>The entry that an index chooses for a normalised path.\<close>

definition chosen :: "(string, 'a) jsmap \<times> (string, string) jsmap \<Rightarrow> string \<Rightarrow> 'a option" where
  "chosen index k = Option.bind (jm_get (snd index) k) (jm_get (fst index))"

lemma chosen_Some:
  assumes "chosen (index_names cs name xs) k = Some x"
  shows "x \<in> set xs" and "convertCase cs (name x) = k"
proof -
  obtain n where n: "jm_get (snd (index_names cs name xs)) k = Some n" "jm_get (fst (index_names cs name xs)) n = Some x"
    using assms by (auto simp: chosen_def split: bind_splits)
  from n(2) have x: "x \<in> set xs" "name x = n"
    by (auto simp: index_names_def Let_def dest!: from_entries_Some)
  moreover have "convertCase cs n = k"
    using n(1) by (auto simp: index_names_def Let_def dest!: from_entries_Some)
  ultimately show "x \<in> set xs" "convertCase cs (name x) = k" by simp_all
qed

lemma index_names_keys: "set (jm_keys (snd (index_names cs name xs))) = (\<lambda>x. convertCase cs (name x)) ` set xs"
  by (simp only: index_names_def Let_def snd_conv from_entries_keys image_image)

lemmas index_names_fst = index_names_keys [unfolded set_map]

lemma chosen_None: "chosen (index_names cs name xs) k = None \<longleftrightarrow> (\<forall>x\<in>set xs. convertCase cs (name x) \<noteq> k)"
proof
  assume none: "chosen (index_names cs name xs) k = None"
  show "\<forall>x\<in>set xs. convertCase cs (name x) \<noteq> k"
  proof
    fix x
    assume "x \<in> set xs"
    have "k \<notin> set (jm_keys (snd (index_names cs name xs)))"
    proof
      assume "k \<in> set (jm_keys (snd (index_names cs name xs)))"
      then obtain n where n: "jm_get (snd (index_names cs name xs)) k = Some n"
        by (metis jsm.keys_get not_None_eq)
      then have "n \<in> set (jm_keys (fst (index_names cs name xs)))"
        by (auto simp: index_names_def Let_def dest!: from_entries_Some)
      then have "jm_get (fst (index_names cs name xs)) n \<noteq> None" by (metis jsm.keys_get)
      with none n show False by (simp add: chosen_def)
    qed
    then show "convertCase cs (name x) \<noteq> k"
      using \<open>x \<in> set xs\<close> by (auto simp: index_names_fst)
  qed
next
  assume "\<forall>x\<in>set xs. convertCase cs (name x) \<noteq> k"
  then show "chosen (index_names cs name xs) k = None"
    using chosen_Some by (metis not_None_eq)
qed

definition pair_names :: "string list \<Rightarrow> string list \<Rightarrow> string list \<Rightarrow> string list" where
  "pair_names storageKeys databaseKeys quarantined = filter (\<lambda>k. k \<notin> set quarantined) (js_unique (storageKeys @ databaseKeys))"

lemma make_pairs_eq:
  "make_pairs storage (names, caps, q) =
     map (\<lambda>k. (chosen storage k, map_option snd (chosen (names, caps) k)))
       (pair_names (jm_keys (snd storage)) (jm_keys caps) q)"
  by (simp add: make_pairs_def pair_names_def chosen_def split: prod.split)

lemma distinct_pair_names: "distinct (pair_names a b q)"
  by (simp add: pair_names_def)

text \<open>A pair stands for its normalised path: both sides have it.\<close>

lemma pair_of_name:
  assumes "k \<in> set (pair_names (jm_keys (snd (index_names cs fi_path fs))) (jm_keys (snd (index_names cs fst es))) q)"
    and "cs = handleFilenameCaseSensitive h"
    and "\<forall>(p, d)\<in>set es. entry_getPath d = Inr p \<and> p \<noteq> []" and "\<forall>f\<in>set fs. fi_path f \<noteq> []"
  defines "pair \<equiv> (chosen (index_names cs fi_path fs) k, map_option snd (chosen (index_names cs fst es) k))"
  shows "pair_ok pair \<and> pair_key h pair = k"
proof -
  have some: "(\<exists>f\<in>set fs. convertCase cs (fi_path f) = k) \<or> (\<exists>e\<in>set es. convertCase cs (fst e) = k)"
    using assms(1) by (auto simp: pair_names_def index_names_fst)
  show ?thesis
  proof (cases "chosen (index_names cs fst es) k")
    case None
    then have "chosen (index_names cs fi_path fs) k \<noteq> None"
      using some by (simp add: chosen_None)
    then obtain f where "chosen (index_names cs fi_path fs) k = Some f" by blast
    with None chosen_Some [OF this] assms(2,4) show ?thesis
      by (auto simp: pair_def pair_ok_def pair_path_def pair_key_def)
  next
    case (Some e)
    with chosen_Some [OF this] assms(2,3) show ?thesis
      by (cases e) (auto simp: pair_def pair_ok_def pair_path_def pair_key_def)
  qed
qed

section \<open>The listings\<close>

definition only_env :: "'x scan_world \<Rightarrow> 'x scan_world \<Rightarrow> bool" where
  "only_env w w' \<longleftrightarrow> w' = w\<lparr>sw_env := sw_env w'\<rparr>"

lemma only_env_refl [simp]: "only_env w w"
  by (simp add: only_env_def)

lemma only_env_upd [simp]: "only_env w (w1\<lparr>sw_env := x\<rparr>) = only_env w w1"
  by (cases w; cases w1) (simp add: only_env_def)

definition file_listed :: "'x scan_host \<Rightarrow> file_info \<Rightarrow> bool" where
  "file_listed h f \<longleftrightarrow> \<not> shouldBeIgnored (fi_path f) \<and> sh_isTargetFile h (fi_path f)"

definition entry_listed :: "'x scan_host \<Rightarrow> string \<Rightarrow> meta_entry \<Rightarrow> bool" where
  "entry_listed h p d \<longleftrightarrow> entry_getPath d = Inr p \<and> me_id d = path2id (sh_sha h) (sh_paths h) p [] \<and>
     sh_isValidPath h p \<and> \<not> shouldBeIgnored p \<and> sh_isTargetFile h p"

definition storage_index :: "'x scan_host \<Rightarrow> (string, file_info) jsmap \<times> (string, string) jsmap \<Rightarrow> bool" where
  "storage_index h idx \<longleftrightarrow>
     (\<exists>fs. idx = index_names (handleFilenameCaseSensitive h) fi_path fs \<and> (\<forall>f\<in>set fs. file_listed h f))"

definition database_index :: "'x scan_host \<Rightarrow> (string, string \<times> meta_entry) jsmap \<times> (string, string) jsmap \<Rightarrow> bool" where
  "database_index h idx \<longleftrightarrow>
     (\<exists>es. idx = index_names (handleFilenameCaseSensitive h) fst es \<and> (\<forall>e\<in>set es. entry_listed h (fst e) (snd e)))"

lemma storage_indexI: "\<forall>y\<in>set kept. \<forall>f\<in>set y. file_listed h f \<Longrightarrow>
    storage_index h (index_names (handleFilenameCaseSensitive h) fi_path (concat kept))"
  unfolding storage_index_def by (intro exI [of _ "concat kept"]) simp

lemma collectFilesOnStorage_wp:
  "wp (collectFilesOnStorage h)
     (\<lambda>r w'. only_env w w' \<and> (case r of Inl e \<Rightarrow> True | Inr idx \<Rightarrow> storage_index h idx)) w"
proof -
  have loop: "wp (forEach (\<lambda>f. after (checkInterrupted h) (\<lambda>_.
              if shouldBeIgnored (fi_path f) then ret []
              else after (awaits h) (\<lambda>_. ret (if sh_isTargetFile h (fi_path f) then [f] else [])))) src)
        (\<lambda>r w'. only_env w w' \<and> (case r of Inl e \<Rightarrow> True | Inr kept \<Rightarrow> \<forall>f\<in>set (concat kept). file_listed h f)) w1"
    if "only_env w w1" for src w1
    by (rule wp_forEach_results [where J = "\<lambda>d kept w'. only_env w w' \<and> (\<forall>f\<in>set (concat kept). file_listed h f)"])
       (use that in \<open>auto simp: file_listed_def\<close>)
  then show ?thesis
    unfolding collectFilesOnStorage_def wp_after wp_host_call
    by (auto split: prod.split sum.split intro!: wp_mono [OF loop] storage_indexI)
qed

definition listed_ok :: "'x scan_host \<Rightarrow> listed \<Rightarrow> bool" where
  "listed_ok h l \<longleftrightarrow> (case l of Selected d p \<Rightarrow> entry_listed h p d | _ \<Rightarrow> True)"

lemma inspect_consistent:
  "inspectMetadataDocumentIdentity sha s d = Inr (CONSISTENT a p e) \<Longrightarrow>
     entry_getPath d = Inr p \<and> me_id d = path2id sha s p []"
  by (auto simp: inspectMetadataDocumentIdentity_def Let_def split: sum.splits if_splits)

lemma selectDatabaseFile_wp:
  "only_env w w1 \<Longrightarrow>
   wp (selectDatabaseFile h doc) (\<lambda>r w'. only_env w w' \<and> (case r of Inl e \<Rightarrow> True | Inr l \<Rightarrow> listed_ok h l)) w1"
  by (auto simp: selectDatabaseFile_def listed_ok_def entry_listed_def split: note_doc.split sum.split inspection.split
      dest!: inspect_consistent)

lemma database_indexI:
  assumes "\<forall>l\<in>set ls. listed_ok h l"
  shows "database_index h (index_names (handleFilenameCaseSensitive h) fst (selected_entries ls))"
proof -
  have "\<forall>e\<in>set (selected_entries ls). entry_listed h (fst e) (snd e)"
    using assms by (force simp: selected_entries_def listed_ok_def split: listed.splits)
  then show ?thesis by (auto simp: database_index_def)
qed

lemma collectDatabaseFiles_wp:
  assumes "only_env w w1"
  shows "wp (collectDatabaseFiles h)
     (\<lambda>r w'. only_env w w' \<and> (case r of Inl e \<Rightarrow> True | Inr (names, caps, q) \<Rightarrow> database_index h (names, caps))) w1"
proof -
  have loop: "wp (forEach (selectDatabaseFile h) docs)
        (\<lambda>r w'. only_env w w' \<and> (case r of Inl e \<Rightarrow> True | Inr ls \<Rightarrow> \<forall>l\<in>set ls. listed_ok h l)) w2"
    if "only_env w w2" for docs w2
    by (rule wp_forEach_results [where J = "\<lambda>d ls w'. only_env w w' \<and> (\<forall>l\<in>set ls. listed_ok h l)"])
       (use that in \<open>auto elim!: wp_mono [OF selectDatabaseFile_wp] split: sum.split\<close>)
  from assms show ?thesis
    unfolding collectDatabaseFiles_def wp_after wp_host_call
    by (auto split: prod.split sum.split simp: Let_def intro!: wp_mono [OF loop])
       (use database_indexI in metis)
qed

section \<open>The whole scan\<close>

definition loaded_times :: "'x scan_host \<Rightarrow> 'x \<Rightarrow> (string, int) jsmap" where
  "loaded_times h x =
     (case sh_kvGet h of
        None \<Rightarrow> []
      | Some kvGet \<Rightarrow> (case fst (kvGet x) of Inr (Some m) \<Rightarrow> m | _ \<Rightarrow> []))"

text \<open>
  What the model relies on: \<open>withConcurrency\<close> and the lane of large files process every pair once, in some
  order, and the empty path is not a target.
\<close>

definition schedules :: "'x scan_host \<Rightarrow> bool" where
  "schedules h \<longleftrightarrow> (\<forall>ps qs. mset (sh_schedule h ps qs) = mset ps + mset qs)"

definition listed_pair :: "'x scan_host \<Rightarrow> file_pair \<Rightarrow> bool" where
  "listed_pair h p \<longleftrightarrow>
     (case fst p of Some f \<Rightarrow> file_listed h f | None \<Rightarrow> True) \<and>
     (case snd p of Some d \<Rightarrow> (\<exists>q. entry_listed h q d) | None \<Rightarrow> True)"

lemma made_pairs:
  assumes "storage_index h storage" and "database_index h (names, caps)" and "\<not> sh_isTargetFile h []"
  shows "\<forall>p\<in>set (make_pairs storage (names, caps, q)). pair_ok p \<and> listed_pair h p \<and> pair_key h p \<notin> set q"
    and "distinct (map (pair_key h) (make_pairs storage (names, caps, q)))"
proof -
  let ?cs = "handleFilenameCaseSensitive h"
  obtain fs where fs: "storage = index_names ?cs fi_path fs" "\<forall>f\<in>set fs. file_listed h f"
    using assms(1) by (auto simp: storage_index_def)
  obtain es where es: "(names, caps) = index_names ?cs fst es" "\<forall>e\<in>set es. entry_listed h (fst e) (snd e)"
    using assms(2) by (auto simp: database_index_def)
  have caps: "names = fst (index_names ?cs fst es)" "caps = snd (index_names ?cs fst es)"
    by (simp_all add: es(1) [symmetric])
  let ?ks = "pair_names (jm_keys (snd storage)) (jm_keys caps) q"
  let ?pair = "\<lambda>k. (chosen storage k, map_option snd (chosen (names, caps) k))"
  have "\<forall>(p, d)\<in>set es. entry_getPath d = Inr p \<and> p \<noteq> []" "\<forall>f\<in>set fs. fi_path f \<noteq> []"
    using fs(2) es(2) assms(3) by (auto simp: file_listed_def entry_listed_def)
  then have ok: "pair_ok (?pair k) \<and> pair_key h (?pair k) = k" if "k \<in> set ?ks" for k
    using pair_of_name [of k ?cs fs es q h] that by (simp add: fs(1) caps)
  have listed: "listed_pair h (?pair k)" for k
    using fs(2) es(2) chosen_Some(1) [of ?cs fi_path fs k] chosen_Some(1) [of ?cs fst es k]
    by (fastforce simp: listed_pair_def fs(1) caps split: option.split)
  show "\<forall>p\<in>set (make_pairs storage (names, caps, q)). pair_ok p \<and> listed_pair h p \<and> pair_key h p \<notin> set q"
    using ok listed by (auto simp: make_pairs_eq pair_names_def)
  have "map (pair_key h) (make_pairs storage (names, caps, q)) = ?ks"
    using ok by (simp add: make_pairs_eq map_idI)
  then show "distinct (map (pair_key h) (make_pairs storage (names, caps, q)))"
    by (simp add: distinct_pair_names)
qed

lemma scheduled_pairs:
  assumes "schedules h"
  shows "mset (sh_schedule h (filter (\<lambda>p. \<not> isLargeFilePair p) ps) (filter isLargeFilePair ps)) = mset ps"
  using assms multiset_partition [of "mset ps" isLargeFilePair] by (simp add: schedules_def mset_filter add.commute)

text \<open>
  A scan that may have ended early: its actions are justified. When it has run to the end, the failures it reports
  are the retries it kept.
\<close>

definition scan_safe :: "'x scan_host \<Rightarrow> (string, int) jsmap \<Rightarrow> 'x scan_world \<Rightarrow> 'x scan_world \<Rightarrow> bool" where
  "scan_safe h seen w w' \<longleftrightarrow>
     (\<exists>acts. sw_trace w' = sw_trace w @ acts \<and>
        (\<forall>a\<in>set acts. \<exists>p. listed_pair h p \<and> justified h p (jm_get seen (pair_key h p)) a))"

lemma queueScanRetries_wp:
  "wp (queueScanRetries h)
     (\<lambda>r w'. only_env w w' \<and> (case r of Inl e \<Rightarrow> False
        | Inr (n, m) \<Rightarrow> n \<in> {0, length (sw_reflections w)} \<and> m \<in> {0, length (sw_events w)})) w"
  by (auto simp: queueScanRetries_def split: prod.split sum.split option.split)

lemma only_env_fields:
  assumes "only_env w w'"
  shows "sw_trace w' = sw_trace w" "sw_fileMaps w' = sw_fileMaps w" "sw_reflections w' = sw_reflections w"
    "sw_events w' = sw_events w" "sw_outcome w' = sw_outcome w" "retries_count w' = retries_count w"
    "sw_listing w' = sw_listing w"
  using assms by (cases w; cases w'; simp add: only_env_def retries_count_def)+

lemma loadFileStatus_wp:
  "wp (loadFileStatus h)
     (\<lambda>r w'. sw_trace w' = sw_trace w \<and> (r = Inr () \<longrightarrow> sw_fileMaps w' = loaded_times h (sw_env w))) w"
  by (auto simp: loadFileStatus_def loaded_times_def split: option.split prod.split sum.split)

lemma saveFileStatusNow_wp: "wp (saveFileStatusNow h) (\<lambda>r w'. only_env w w') w"
  by (auto simp: saveFileStatusNow_def split: option.split prod.split)

definition scan_end :: "'x scan_world \<Rightarrow> bool \<Rightarrow> bool" where
  "scan_end w b \<longleftrightarrow>
     (\<exists>n. oc_failedPairs (sw_outcome w) = Some n \<and> (b \<longleftrightarrow> n = 0) \<and> retries_count w = n \<and>
        (\<exists>q \<in> {0, length (sw_reflections w)}. oc_queuedForReflection (sw_outcome w) = Some q) \<and>
        (\<exists>q \<in> {0, length (sw_events w)}. oc_queuedAsStorageEvents (sw_outcome w) = Some q))"

lemma scan_tail_wp:
  assumes "retries_count w = n" and "scan_safe h seen w0 w"
  shows "wp (after (queueScanRetries h) (\<lambda>queued.
     after (checkInterrupted h) (\<lambda>_.
     after (saveFileStatusNow h) (\<lambda>_.
     after (modifyW (\<lambda>w. w\<lparr>sw_outcome := (sw_outcome w)\<lparr>oc_failedPairs := Some n,
              oc_queuedForReflection := Some (fst queued), oc_queuedAsStorageEvents := Some (snd queued)\<rparr>\<rparr>)) (\<lambda>_.
     ret (n = 0))))))
     (\<lambda>r w'. scan_safe h seen w0 w' \<and> (case r of Inl e \<Rightarrow> True | Inr b \<Rightarrow> scan_end w' b)) w"
  unfolding wp_after
proof (rule wp_mono [OF queueScanRetries_wp], goal_cases)
  case (1 r w1)
  then obtain a b where r: "r = Inr (a, b)" "a \<in> {0, length (sw_reflections w)}" "b \<in> {0, length (sw_events w)}"
    and w1: "only_env w w1"
    by (auto split: sum.splits)
  have safe: "scan_safe h seen w0 w1"
    using assms(2) only_env_fields(1) [OF w1] by (simp add: scan_safe_def)
  have "wp (saveFileStatusNow h) (\<lambda>r w'. case r of Inl e \<Rightarrow> scan_safe h seen w0 w' | Inr _ \<Rightarrow>
      scan_safe h seen w0 w' \<and> scan_end (w'\<lparr>sw_outcome := (sw_outcome w')\<lparr>oc_failedPairs := Some n,
        oc_queuedForReflection := Some a, oc_queuedAsStorageEvents := Some b\<rparr>\<rparr>) (n = 0)) w1"
  proof (rule wp_mono [OF saveFileStatusNow_wp], goal_cases)
    case (1 r w2)
    note f = only_env_fields [OF 1] only_env_fields [OF w1]
    have "scan_safe h seen w0 w2"
      using safe f(1) by (simp add: scan_safe_def)
    moreover have "retries_count w2 = n" using f assms(1) by simp
    ultimately show ?case
      using r f by (cases r) (auto simp: scan_end_def retries_count_def)
  qed
  then show ?case
    using r safe by (auto simp: scan_safe_def elim!: wp_mono split: sum.splits)
qed

lemma run_scan_safe:
  assumes "run_effect h w ps rs w'" and "\<forall>p\<in>set ps. listed_pair h p"
  shows "scan_safe h (sw_fileMaps w) w w'"
  using assms unfolding run_effect_def scan_safe_def by blast

text \<open>What is known of the pairs that a scan has listed.\<close>

definition pairs_listed :: "'x scan_host \<Rightarrow> file_pair list \<Rightarrow> bool" where
  "pairs_listed h pairs \<longleftrightarrow> (\<forall>p\<in>set pairs. pair_ok p \<and> listed_pair h p) \<and> distinct (map (pair_key h) pairs)"

lemma listPairs_wp:
  assumes "\<not> sh_isTargetFile h []"
  shows "wp (listPairs h) (\<lambda>r w'. sw_trace w' = sw_trace w \<and>
     (case r of Inl e \<Rightarrow> True | Inr pairs \<Rightarrow> sw_fileMaps w' = loaded_times h (sw_env w) \<and> pairs_listed h pairs)) w"
proof -
  have made: "pairs_listed h (make_pairs storage database)"
    if "storage_index h storage" "case database of (names, caps, q) \<Rightarrow> database_index h (names, caps)" for storage database
    using made_pairs [of h storage _ _ "snd (snd database)"] that assms
    by (cases database) (auto simp: pairs_listed_def)
  show ?thesis
    unfolding listPairs_def wp_after
    by (simp add: clearVaultScanOutcome_def, rule wp_mono [OF loadFileStatus_wp])
       (auto split: sum.split simp: rememberListing_def only_env_fields made
         intro!: wp_mono [OF collectFilesOnStorage_wp] wp_mono [OF collectDatabaseFiles_wp [OF only_env_refl]])
qed

lemma runPairs_wp:
  assumes "safe_options options" and "never_early h" and "schedules h" and "pairs_listed h pairs"
  shows "wp (runPairs h options pairs)
     (\<lambda>r w'. case r of Inl e \<Rightarrow> False
       | Inr rs \<Rightarrow> length rs = length pairs \<and> scan_safe h (sw_fileMaps w) w w' \<and>
           retries_count w' = length (filter (\<lambda>r. r = FAILED) rs)) w"
proof -
  let ?ps = "sh_schedule h (filter (\<lambda>p. \<not> isLargeFilePair p) pairs) (filter isLargeFilePair pairs)"
  have m: "mset ?ps = mset pairs" by (rule scheduled_pairs [OF assms(3)])
  have ok: "\<forall>p\<in>set ?ps. pair_ok p" and listed: "\<forall>p\<in>set ?ps. listed_pair h p"
    using assms(4) mset_eq_setD [OF m] by (auto simp: pairs_listed_def)
  have "mset (map (pair_key h) ?ps) = mset (map (pair_key h) pairs)" using m by simp
  then have d: "distinct (map (pair_key h) ?ps)"
    using assms(4) by (metis mset_eq_imp_distinct_iff pairs_listed_def)
  let ?w = "w\<lparr>sw_reflections := [], sw_events := []\<rparr>"
  have "wp (forEach (processPair h options) ?ps)
     (\<lambda>r w'. case r of Inl e \<Rightarrow> False
       | Inr rs \<Rightarrow> length rs = length pairs \<and> scan_safe h (sw_fileMaps w) w w' \<and>
           retries_count w' = length (filter (\<lambda>r. r = FAILED) rs)) ?w"
  proof (rule wp_mono [OF run_pairs_wp [OF assms(1,2) ok d]], goal_cases)
    case (1 r w')
    then obtain rs where rs: "r = Inr rs" "length rs = length ?ps" "run_effect h ?w ?ps rs w'"
      by (cases r) auto
    have "length ?ps = length pairs" by (rule mset_eq_length [OF m])
    moreover have "retries_count w' = length (filter (\<lambda>r. r = FAILED) rs)"
      using rs(3) by (simp add: run_effect_def retries_count_def)
    moreover have "scan_safe h (sw_fileMaps w) w w'"
      using run_scan_safe [OF rs(3) listed] by (simp add: scan_safe_def)
    ultimately show ?case using rs by simp
  qed
  then show ?thesis by (simp add: runPairs_def)
qed

lemma scan_safe_trans:
  "sw_trace w1 = sw_trace w \<Longrightarrow> scan_safe h seen w1 w2 \<Longrightarrow> scan_safe h seen w w2"
  by (simp add: scan_safe_def)

lemma scan_safe_same: "sw_trace w' = sw_trace w \<Longrightarrow> scan_safe h seen w w'"
  by (auto simp: scan_safe_def)

definition scan_post :: "'x scan_host \<Rightarrow> 'x scan_world \<Rightarrow> scan_error + bool \<Rightarrow> 'x scan_world \<Rightarrow> bool" where
  "scan_post h w r w' \<longleftrightarrow> scan_safe h (loaded_times h (sw_env w)) w w' \<and>
     (case r of Inl e \<Rightarrow> True | Inr b \<Rightarrow> scan_end w' b)"

lemma synchroniseAll_wp:
  assumes "safe_options options" and "never_early h" and "schedules h" and "\<not> sh_isTargetFile h []"
  shows "wp (synchroniseAllFilesBetweenDBandStorage h options) (scan_post h w) w"
  unfolding synchroniseAllFilesBetweenDBandStorage_def
proof (rule wp_seq [where I = "\<lambda>pairs w'. sw_trace w' = sw_trace w \<and> sw_fileMaps w' = loaded_times h (sw_env w) \<and> pairs_listed h pairs"],
    goal_cases)
  case 1
  show ?case
    by (rule wp_mono [OF listPairs_wp [OF assms(4)]]) (auto simp: scan_post_def intro: scan_safe_same split: sum.splits)
next
  case (2 pairs w1)
  show ?case
  proof (rule wp_seq [where I = "\<lambda>rs w'. scan_safe h (loaded_times h (sw_env w)) w w' \<and>
      retries_count w' = length (filter (\<lambda>r. r = FAILED) rs)"], goal_cases)
    case 1
    show ?case
      by (rule wp_mono [OF runPairs_wp [OF assms(1-3)]])
         (use 2 in \<open>auto intro: scan_safe_trans split: sum.splits\<close>)
  next
    case (2 rs w2)
    have eq: "(\<lambda>r w'. scan_safe h (loaded_times h (sw_env w)) w w' \<and>
        (case r of Inl e \<Rightarrow> True | Inr b \<Rightarrow> scan_end w' b)) = scan_post h w"
      by (simp add: fun_eq_iff scan_post_def)
    from 2 scan_tail_wp [of w2 "length (filter (\<lambda>r. r = FAILED) rs)" h "loaded_times h (sw_env w)" w, unfolded eq]
    show ?case by (simp only: Let_def)
  qed
qed

section \<open>The full scan\<close>

lemma expired_wp:
  assumes "only_env w w1"
  shows "wp (expiredDeletion h limit doc)
     (\<lambda>r w'. only_env w w' \<and> (case r of Inl e \<Rightarrow> True | Inr ds \<Rightarrow> \<forall>d\<in>set ds. me_deleted d = Some True \<and> me_mtime d < limit)) w1"
  using assms by (auto simp: expiredDeletion_def Let_def split: sum.split inspection.split)

definition purges :: "'x scan_host \<Rightarrow> host_action \<Rightarrow> bool" where
  "purges h a \<longleftrightarrow> (\<exists>d :: meta_entry. a = PurgeEntry (me_id d) \<and> me_deleted d = Some True) \<and> 0 < sh_deleteMetadataDays h"

definition purged_only :: "'x scan_host \<Rightarrow> 'x scan_world \<Rightarrow> 'x scan_world \<Rightarrow> bool" where
  "purged_only h w w' \<longleftrightarrow> (\<exists>acts. sw_trace w' = sw_trace w @ acts \<and> (\<forall>a\<in>set acts. purges h a))"

lemma purge_loop_wp:
  assumes "\<forall>d\<in>set ds. me_deleted d = Some True" and "0 < sh_deleteMetadataDays h" and "purged_only h w0 w"
  shows "wp (forEach (\<lambda>d. host_acts (PurgeEntry (me_id d)) (sh_putRaw h (d\<lparr>me_tombstone := True\<rparr>))) ds)
     (\<lambda>r w'. purged_only h w0 w') w"
proof (rule wp_forEach [where I = "purged_only h w0"])
  show "purged_only h w0 w" by (rule assms(3))
  fix d w1
  assume d: "d \<in> set ds" and "purged_only h w0 w1"
  then obtain acts where acts: "sw_trace w1 = sw_trace w0 @ acts" "\<forall>a\<in>set acts. purges h a"
    by (auto simp: purged_only_def)
  have "purges h (PurgeEntry (me_id d))" using assms(1,2) d by (auto simp: purges_def)
  with acts show "wp (host_acts (PurgeEntry (me_id d)) (sh_putRaw h (d\<lparr>me_tombstone := True\<rparr>))) (\<lambda>r w'. purged_only h w0 w') w1"
    by (auto simp: purged_only_def split: prod.split intro!: exI [of _ "acts @ [PurgeEntry (me_id d)]"])
qed

lemma purged_only_env: "only_env w w' \<Longrightarrow> purged_only h w w'"
  by (simp add: purged_only_def only_env_fields)

lemma collectDeletedFiles_wp: "wp (collectDeletedFiles h) (\<lambda>r w'. purged_only h w w') w"
proof (cases "sh_deleteMetadataDays h \<le> 0")
  case True
  then show ?thesis by (simp add: collectDeletedFiles_def purged_only_env)
next
  case False
  have find: "wp (forEach (expiredDeletion h limit) docs)
      (\<lambda>r w'. only_env w w' \<and> (case r of Inl e \<Rightarrow> True | Inr dss \<Rightarrow> \<forall>ds\<in>set dss. \<forall>d\<in>set ds. me_deleted d = Some True)) w1"
    if "only_env w w1" for limit docs w1
    by (rule wp_forEach_results [where J = "\<lambda>_ dss w'. only_env w w' \<and> (\<forall>ds\<in>set dss. \<forall>d\<in>set ds. me_deleted d = Some True)"])
       (use that in \<open>auto elim!: wp_mono [OF expired_wp] split: sum.split\<close>)
  have purge: "wp (forEach (\<lambda>d. host_acts (PurgeEntry (me_id d)) (sh_putRaw h (d\<lparr>me_tombstone := True\<rparr>))) (concat dss))
      (\<lambda>r w'. purged_only h w w') w1"
    if "only_env w w1" and "\<forall>ds\<in>set dss. \<forall>d\<in>set ds. me_deleted d = Some True" for dss w1
    by (rule purge_loop_wp) (use that False purged_only_env in \<open>auto simp: purged_only_env\<close>)
  show ?thesis
    unfolding collectDeletedFiles_def wp_after wp_getW
    using False
    by (auto split: prod.split sum.split simp: purged_only_env intro!: wp_mono [OF find] wp_mono [OF purge])
qed

definition full_scan_safe :: "'x scan_host \<Rightarrow> 'x scan_world \<Rightarrow> 'x scan_world \<Rightarrow> bool" where
  "full_scan_safe h w w' \<longleftrightarrow>
     (\<exists>acts x. sw_trace w' = sw_trace w @ acts \<and>
        (\<forall>a\<in>set acts. purges h a \<or> (\<exists>p. listed_pair h p \<and> justified h p (jm_get (loaded_times h x) (pair_key h p)) a)))"

lemma full_scan_same: "sw_trace w' = sw_trace w \<Longrightarrow> full_scan_safe h w w'"
  by (auto simp: full_scan_safe_def)

lemma full_scan_purged: "purged_only h w w' \<Longrightarrow> full_scan_safe h w w'"
  unfolding purged_only_def full_scan_safe_def by blast

lemma full_scan_combine:
  assumes "purged_only h w w1" and "scan_safe h (loaded_times h x) w1 w2"
  shows "full_scan_safe h w w2"
proof -
  obtain a1 where "sw_trace w1 = sw_trace w @ a1" "\<forall>a\<in>set a1. purges h a"
    using assms(1) by (auto simp: purged_only_def)
  moreover obtain a2 where "sw_trace w2 = sw_trace w1 @ a2"
      "\<forall>a\<in>set a2. \<exists>p. listed_pair h p \<and> justified h p (jm_get (loaded_times h x) (pair_key h p)) a"
    using assms(2) by (auto simp: scan_safe_def)
  ultimately show ?thesis
    unfolding full_scan_safe_def by (intro exI [of _ "a1 @ a2"] exI [of _ x]) auto
qed

lemma full_scan_trans: "sw_trace w1 = sw_trace w \<Longrightarrow> full_scan_safe h w1 w2 \<Longrightarrow> full_scan_safe h w w2"
  by (simp add: full_scan_safe_def)

lemma full_scan_after: "full_scan_safe h w w1 \<Longrightarrow> sw_trace w2 = sw_trace w1 \<Longrightarrow> full_scan_safe h w w2"
  by (simp add: full_scan_safe_def)

lemma canProceedScan_wp: "wp (canProceedScan h b) (\<lambda>r w'. sw_trace w' = sw_trace w \<and> sw_env w' = sw_env w \<and> (case r of Inl e \<Rightarrow> False | Inr p \<Rightarrow> True)) w"
  by (simp add: canProceedScan_def Let_def showError_def clearError_def)

lemma finishFullScan_wp:
  "wp (finishFullScan h i b) (\<lambda>r w'. sw_trace w' = sw_trace w) w"
  by (auto simp: finishFullScan_def Let_def clearVaultScanOutcome_def split: prod.split sum.split)

lemma full_scan_pairs_wp:
  assumes "safe_options options" and "never_early h" and "schedules h" and "\<not> sh_isTargetFile h []"
  shows "wp (after (collectDeletedFiles h) (\<lambda>_.
      after (synchroniseAllFilesBetweenDBandStorage h options) (finishFullScan h i))) (\<lambda>r w'. full_scan_safe h w w') w"
proof (rule wp_seq [where I = "\<lambda>_ w1. purged_only h w w1"], goal_cases)
  case 1
  show ?case
    by (rule wp_mono [OF collectDeletedFiles_wp]) (auto intro: full_scan_purged split: sum.split)
next
  case (2 _ w1)
  show ?case
  proof (rule wp_seq [where I = "\<lambda>_ w2. full_scan_safe h w w2"], goal_cases)
    case 1
    show ?case
      by (rule wp_mono [OF synchroniseAll_wp [OF assms]])
         (auto simp: scan_post_def intro: full_scan_combine [OF 2] split: sum.split)
  next
    case (2 b w2)
    then show ?case by (intro wp_mono [OF finishFullScan_wp]) (rule full_scan_after)
  qed
qed

lemma permitted_wp:
  assumes "\<And>i w1. sw_trace w1 = sw_trace w \<Longrightarrow> wp (rest i) (\<lambda>r w'. full_scan_safe h w w') w1"
  shows "wp (after (modifyW clearVaultScanOutcome) (\<lambda>_.
     after (canProceedScan h b) (\<lambda>permitted.
     if \<not> permitted then ret False
     else
     after (host (sh_getInitialized h)) (\<lambda>isInitialized.
     after (checkInterrupted h) (\<lambda>_.
     after (if isInitialized then host (sh_restoreState h) else ret ()) (\<lambda>_. rest isInitialized)))))) (\<lambda>r w'. full_scan_safe h w w') w"
  by (auto intro!: wp_mono [OF canProceedScan_wp] full_scan_same assms simp: clearVaultScanOutcome_def
       split: prod.split sum.split)

lemma performFullScan_wp:
  assumes "safe_options (normaliseFullScanOptions arg ig)" and "never_early h" and "schedules h" and "\<not> sh_isTargetFile h []"
  shows "wp (performFullScan h arg ig) (\<lambda>r w'. full_scan_safe h w w') w"
  unfolding performFullScan_def Let_def
proof (rule permitted_wp)
  fix i and w1 :: "'a scan_world"
  assume "sw_trace w1 = sw_trace w"
  then show "wp (after (collectDeletedFiles h) (\<lambda>_.
      after (synchroniseAllFilesBetweenDBandStorage h (normaliseFullScanOptions arg ig)) (finishFullScan h i)))
      (\<lambda>r w'. full_scan_safe h w w') w1"
    by (intro wp_mono [OF full_scan_pairs_wp [OF assms]]) (rule full_scan_trans)
qed

section \<open>Properties\<close>




text \<open>
  A file that was seen and is gone is deleted from the database, and the record that it was seen is given up
  only when that happened. When the deletion fails, the record stays, so that the next scan tries the deletion
  again and does not bring the file back, and the deletion is queued with the time the file was last seen.
\<close>

theorem offline_deletion_record:
  assumes "so_mode options = NEWER_WINS" and "pair_ok (None, Some doc)" and "me_conflicts doc = []" and "\<not> isDeletedEntry doc"
    and "jm_get (sw_fileMaps w) (pair_key h (None, Some doc)) = Some t" and "compareMTime t (me_mtime doc) \<noteq> TARGET_IS_NEW"
    and "processFilePair h options (None, Some doc) w = (r, w')"
  shows "sw_trace w' = sw_trace w @ [DeleteEntry (stripAllPrefixes (pair_path (None, Some doc)))] \<and>
    (r = Inr COMPLETED \<and> jm_get (sw_fileMaps w') (pair_key h (None, Some doc)) = None \<and> sw_events w' = sw_events w \<or>
     r = Inr FAILED \<and> sw_fileMaps w' = sw_fileMaps w \<and>
       (\<exists>e. sw_events w' = sw_events w @ [e] \<and> fe_type e = DELETE \<and> fi_mtime (fe_file e) = t \<and> fe_revalidate e))"
    (is "?post r w'")
proof -
  have "compareMTime t (me_mtime doc) = BASE_IS_NEW \<or> compareMTime t (me_mtime doc) = EVEN"
    using assms(6) by (cases "compareMTime t (me_mtime doc)") simp_all
  with assms(1-5) have "wp (processFilePair h options (None, Some doc)) ?post w"
    by (auto simp: pair_defs deletion_event_def split: prod.split sum.splits)
  from wpD [OF this assms(7)] show ?thesis .
qed

section \<open>Instances\<close>

definition plain_settings :: path_settings where
  "plain_settings = \<lparr>ps_usePathObfuscation = False, ps_passphrase = [], ps_handleFilenameCaseSensitive = True,
     ps_obfuscation = None\<rparr>"

definition open_settings :: em_settings where
  "open_settings = \<lparr>es_isConfigured = True, es_suspendFileWatching = False, es_maxMTimeForReflectEvents = None,
     es_syncInternalFiles = False, es_batchSave = False, es_liveSync = False, es_batchSaveMinimumDelay = 0,
     es_batchSaveMaximumDelay = 0\<rparr>"

definition yes :: "(unit, scan_error, bool) call" where
  "yes x = (Inr True, x)"

text \<open>A vault with a new file and an entry whose file was seen before and is gone; entries are never deleted.\<close>

definition sample_host :: "unit scan_host" where
  "sample_host = \<lparr>sh_sha = (\<lambda>s. s), sh_paths = plain_settings, sh_maxSize = 50, sh_writeDocumentsIfConflicted = False,
     sh_deleteMetadataDays = 0, sh_em = open_settings, sh_isValidPath = (\<lambda>p. True), sh_isTargetFile = (\<lambda>p. p \<noteq> []),
     sh_freshness = (\<lambda>f d. compareFileFreshness (Some (fi_mtime f)) (Some (me_mtime d))), sh_awaited = (\<lambda>x. x),
     sh_now = (\<lambda>x. 0), sh_getFiles = ret [sample_file ''a.md''], sh_normalDocs = ret [Meta (sample_entry ''b.md'' ''b.md'' 4000 2)],
     sh_allDocs = ret [], sh_putRaw = (\<lambda>d. ret ()), sh_storeFile = (\<lambda>f. yes), sh_dbToStorage = (\<lambda>e p b. yes),
     sh_deleteFileFromDB = (\<lambda>p. ret False), sh_delete = (\<lambda>p b. ret ()), sh_parseSynchroniseResult = None,
     sh_appendStorageEvents = Some (\<lambda>es. ret ()), sh_kvGet = Some (ret (Some [(''b.md'', 4000)])), sh_kvSet = Some (\<lambda>m. ret ()),
     sh_getInitialized = yes, sh_setInitialized = ret (), sh_restoreState = ret (), sh_schedule = (@),
     sh_earlyActive = (\<lambda>x. False), sh_mayContinue = (\<lambda>x. True), sh_earlyScan = (\<lambda>p. ret COMPLETED), sh_earlyComplete = yes\<rparr>"

definition sample_world :: "unit scan_world" where
  "sample_world = \<lparr>sw_fileMaps = [], sw_timer = False, sw_listing = None, sw_reflections = [], sw_events = [],
     sw_outcome = no_outcome, sw_errors = [], sw_trace = [], sw_env = ()\<rparr>"

lemma sample_never_early: "never_early sample_host"
  by (simp add: never_early_def sample_host_def)

lemma sample_schedules: "schedules sample_host"
  by (simp add: schedules_def sample_host_def)

lemma sample_target: "\<not> sh_isTargetFile sample_host []"
  by (simp add: sample_host_def)


definition newer_wins :: full_scan_options where
  "newer_wins = normaliseFullScanOptions None False"

lemma sample_paths:
  "entry_getPath (sample_entry ''b.md'' ''b.md'' 4000 2) = Inr ''b.md''"
  "inspectMetadataDocumentIdentity (\<lambda>s. s) plain_settings (sample_entry ''b.md'' ''b.md'' 4000 2) = Inr (CONSISTENT ''b.md'' ''b.md'' ''b.md'')"
  "shouldBeIgnored ''a.md'' = False" "shouldBeIgnored ''b.md'' = False" "stripAllPrefixes ''b.md'' = ''b.md''"
  "compareMTime 4000 4000 = EVEN"
  by code_simp+

lemma sample_listing:
  "wp (listPairs sample_host) (\<lambda>r w. r = Inr [(Some (sample_file ''a.md''), None), (None, Some (sample_entry ''b.md'' ''b.md'' 4000 2))] \<and>
     w = sample_world\<lparr>sw_fileMaps := [(''b.md'', 4000)]\<rparr>) sample_world"
  by (simp add: listPairs_def clearVaultScanOutcome_def loadFileStatus_def collectFilesOnStorage_def collectDatabaseFiles_def
      selectDatabaseFile_def rememberListing_def sample_host_def sample_world_def sample_paths [unfolded plain_settings_def] interrupted_def awaits_def
      handleFilenameCaseSensitive_def plain_settings_def make_pairs_def index_names_def from_entries_def convertCase_def
      selected_entries_def unresolved_names_def resolvable_names_def sample_file_def no_outcome_def ret_def)

lemma sample_listed:
  "wp (listPairs sample_host) Q sample_world =
     Q (Inr [(Some (sample_file ''a.md''), None), (None, Some (sample_entry ''b.md'' ''b.md'' 4000 2))])
       (sample_world\<lparr>sw_fileMaps := [(''b.md'', 4000)]\<rparr>)"
  using sample_listing by (auto simp: wp_def split: prod.splits)

lemma sample_entry_fields:
  "me_id (sample_entry i p t n) = i" "me_size (sample_entry i p t n) = Some n" "me_mtime (sample_entry i p t n) = t"
  "me_conflicts (sample_entry i p t n) = []" "me_deleted (sample_entry i p t n) = None" "\<not> me_tombstone (sample_entry i p t n)"
  by (simp_all add: sample_entry_def)

lemma sample_scan:
  "wp (synchroniseAllFilesBetweenDBandStorage sample_host newer_wins)
     (\<lambda>r w. r = Inr False \<and> sw_trace w = [StoreToDB ''a.md'', DeleteEntry ''b.md''] \<and>
        length (sw_reflections w) + length (sw_events w) = 1) sample_world"
  unfolding synchroniseAllFilesBetweenDBandStorage_def wp_after sample_listed sum.case
  by (simp add: runPairs_def processPair_def pair_defs
      storeStorageFile_def newer_wins_def normaliseFullScanOptions_def resolveFilePairAction_def
      shouldDeleteLocalWhenRemoteMissing_def sample_paths queueScanRetries_def saveFileStatusNow_def sample_host_def
      sample_world_def sample_file_def sample_entry_fields isLargeFilePair_def LARGE_FILE_BYTES_def stat_size_def
      tooLarge_def isFileSizeTooLarge_def yes_def ret_def interrupted_def isDeletedEntry_def convertCase_def
      handleFilenameCaseSensitive_def plain_settings_def)



text \<open>The actions of the sample are the two that are expected, so the theorem on the vault scan is not void.\<close>

lemma sample_scan_acts:
  "sw_trace (snd (synchroniseAllFilesBetweenDBandStorage sample_host newer_wins sample_world)) = [StoreToDB ''a.md'', DeleteEntry ''b.md'']"
proof -
  obtain r w where e: "synchroniseAllFilesBetweenDBandStorage sample_host newer_wins sample_world = (r, w)" by fastforce
  from wpD [OF sample_scan e] e show ?thesis by simp
qed

theorem offline_deletion_record_witness:
  "sw_trace (snd (processFilePair sample_host newer_wins (None, Some (sample_entry ''b.md'' ''b.md'' 4000 2))
     (sample_world\<lparr>sw_fileMaps := [(''b.md'', 4000)]\<rparr>))) = [DeleteEntry ''b.md'']"
proof -
  let ?d = "sample_entry ''b.md'' ''b.md'' 4000 2" and ?w = "sample_world\<lparr>sw_fileMaps := [(''b.md'', 4000)]\<rparr>"
  have m: "so_mode newer_wins = NEWER_WINS" by (simp add: newer_wins_def normaliseFullScanOptions_def)
  have ok: "pair_ok (None, Some ?d)" and k: "pair_key sample_host (None, Some ?d) = ''b.md''"
    by (simp_all add: pair_ok_def pair_path_def pair_key_def sample_paths convertCase_def handleFilenameCaseSensitive_def
        sample_host_def plain_settings_def)
  have c: "me_conflicts ?d = []" "\<not> isDeletedEntry ?d"
    by (simp_all add: sample_entry_fields isDeletedEntry_def)
  have s: "jm_get (sw_fileMaps ?w) (pair_key sample_host (None, Some ?d)) = Some 4000"
    by (simp add: k sample_world_def)
  have n: "compareMTime 4000 (me_mtime ?d) \<noteq> TARGET_IS_NEW" by (simp add: sample_entry_fields sample_paths)
  from offline_deletion_record [OF m ok c s n prod.collapse [symmetric]]
  show ?thesis by (simp add: pair_path_def sample_paths sample_world_def)
qed

end
