(* ===== verification/IdentityRepair.thy ===== *)
theory IdentityRepair
  imports OfflineScanner "HOL-Library.List_Lexorder" "HOL-Library.Char_ord"
begin

text \<open>
  The rest of \<open>src/serviceFeatures/offlineScanner.ts\<close>: the report on metadata documents whose identifier is not
  that of their path, and the repair of one of them, which copies the entry to the identifier its path has and
  then removes the old document. The calls of the database are a parameter; each may throw and may change the
  environment. \<open>localeCompare\<close> is a parameter too.
\<close>

section \<open>Exact copies\<close>

type_synonym locale_compare = "string \<Rightarrow> string \<Rightarrow> int"

text \<open>
  \<open>stableValue\<close> sorts the properties and drops the undefined ones. A property is undefined after the recursive
  call exactly when it was before, so the order of the two steps does not matter.
\<close>

fun stableValue :: "locale_compare \<Rightarrow> json \<Rightarrow> json" where
  "stableValue cmp (JArr vs) = JArr (map (stableValue cmp) vs)"
| "stableValue cmp (JObj ps) =
     JObj (sort_with (\<lambda>p q. cmp (fst p) (fst q))
       (filter (\<lambda>p. snd p \<noteq> JUndef) (map (\<lambda>p. (fst p, stableValue cmp (snd p))) ps)))"
| "stableValue cmp v = v"

definition logicalMetadataPayload :: "locale_compare \<Rightarrow> meta_entry \<Rightarrow> json" where
  "logicalMetadataPayload cmp doc =
     stableValue cmp (JObj [
       (''path'', JStr (me_path doc)),
       (''ctime'', JNum (me_ctime doc)),
       (''mtime'', JNum (me_mtime doc)),
       (''size'', case me_size doc of Some n \<Rightarrow> JNum (int n) | None \<Rightarrow> JUndef),
       (''type'', JStr (me_type doc)),
       (''children'', JArr (map JStr (me_children doc))),
       (''eden'', JObj (me_eden doc)),
       (''deleted'', JBool (isDeletedEntry doc))])"

definition isExactMetadataCopy :: "locale_compare \<Rightarrow> meta_entry \<Rightarrow> meta_entry \<Rightarrow> bool" where
  "isExactMetadataCopy cmp source target \<longleftrightarrow> logicalMetadataPayload cmp source = logicalMetadataPayload cmp target"

definition cloneChunk :: "json \<Rightarrow> json" where
  "cloneChunk chunk = (case chunk of
     JObj ps \<Rightarrow> JObj [(''data'', js_field ps ''data''), (''epoch'', js_field ps ''epoch'')]
   | _ \<Rightarrow> JObj [(''data'', JUndef), (''epoch'', JUndef)])"

definition cloneEden :: "(string \<times> json) list \<Rightarrow> (string \<times> json) list" where
  "cloneEden eden = map (\<lambda>(i, chunk). (i, cloneChunk chunk)) eden"

definition createReaddressedMetadata :: "meta_entry \<Rightarrow> string \<Rightarrow> meta_entry" where
  "createReaddressedMetadata source expectedDocumentId =
     \<lparr>me_id = expectedDocumentId, me_rev = None, me_path = me_path source, me_ctime = me_ctime source,
      me_mtime = me_mtime source, me_size = me_size source, me_type = me_type source, me_children = me_children source,
      me_eden = cloneEden (me_eden source), me_deleted = me_deleted source, me_tombstone = False, me_conflicts = []\<rparr>"

section \<open>The report\<close>

text \<open>A row of \<open>allDocsRaw\<close>: its key, error, deleted flag and document.\<close>

record target_row =
  tr_key :: string
  tr_error :: "string option"
  tr_deleted :: bool
  tr_doc :: "note_doc option"

record 'x repair_host =
  rh_scan :: "'x scan_host"
  rh_compare :: locale_compare
  rh_allDocsRaw :: "string list \<Rightarrow> ('x, scan_error, target_row list) call"
  rh_getRaw :: "string \<Rightarrow> string option \<Rightarrow> ('x, scan_error, note_doc) call"
  rh_removeRaw :: "string \<Rightarrow> string \<Rightarrow> ('x, scan_error, unit) call"

record identity_issue =
  ii_diagnostic :: diagnostic
  ii_sourceRevision :: "string option"
  ii_logicallyDeleted :: bool
  ii_conflictRevisions :: "string list"
  ii_repairAvailable :: bool
  ii_targetAlreadyPresent :: bool
  ii_ordinaryPathAvailable :: bool

type_synonym observation = "meta_entry \<times> inspection"

fun declared_path :: "inspection \<Rightarrow> string" where
  "declared_path (CONSISTENT i p e) = p"
| "declared_path (EXCLUDED i p n) = p"
| "declared_path (UNRESOLVED dg) = dg_declaredPath dg"

text \<open>The identifier a document should have, for one whose identifier is not that of its path.\<close>

fun expected_target :: "inspection \<Rightarrow> string option" where
  "expected_target (UNRESOLVED dg) = (if dg_reason dg = DOCUMENT_ID_MISMATCH then dg_expectedDocumentId dg else None)"
| "expected_target i = None"

definition observe :: "'x repair_host \<Rightarrow> note_doc \<Rightarrow> ('x, observation list) scan_call" where
  "observe h doc =
     (case doc of
        NoMeta _ \<Rightarrow> ret []
      | Meta d \<Rightarrow>
          after (awaits (rh_scan h)) (\<lambda>_.
          after (lift_path (inspectMetadataDocumentIdentity (sh_sha (rh_scan h)) (sh_paths (rh_scan h)) d)) (\<lambda>i. ret [(d, i)])))"

definition path_claims :: "bool \<Rightarrow> observation list \<Rightarrow> string \<Rightarrow> string list" where
  "path_claims caseSensitive observations key =
     js_unique (map (me_id \<circ> fst) (filter (\<lambda>(d, i). getMetadataDocumentNamespace (declared_path i) = NORMAL \<and>
       convertCase caseSensitive (declared_path i) = key) observations))"

definition target_claims :: "observation list \<Rightarrow> string \<Rightarrow> string list" where
  "target_claims observations i' =
     js_unique (map (me_id \<circ> fst) (filter (\<lambda>(d, i). expected_target i = Some i') observations))"

definition ordinary_path :: "'x scan_host \<Rightarrow> observation list \<Rightarrow> string \<Rightarrow> string \<Rightarrow> bool" where
  "ordinary_path h observations expectedDocumentId normalisedPath =
     (case jm_get (from_entries (me_id \<circ> fst) id observations) expectedDocumentId of
        Some (_, CONSISTENT _ targetPath _) \<Rightarrow>
          convertCase (handleFilenameCaseSensitive h) targetPath = normalisedPath \<and> sh_isValidPath h targetPath \<and>
          \<not> shouldBeIgnored targetPath \<and> sh_isTargetFile h targetPath
      | _ \<Rightarrow> False)"

definition describe :: "'x repair_host \<Rightarrow> observation list \<Rightarrow> (string, target_row) jsmap \<Rightarrow> observation \<Rightarrow> identity_issue list" where
  "describe h observations targetRows obs =
     (case obs of (doc, inspected) \<Rightarrow>
        (case inspected of
           UNRESOLVED dg \<Rightarrow>
             (let scan = rh_scan h;
                  caseSensitive = handleFilenameCaseSensitive scan;
                  (repairAvailable, targetAlreadyPresent, ordinaryPathAvailable) =
                    (case expected_target inspected of
                       None \<Rightarrow> (False, False, False)
                     | Some expectedDocumentId \<Rightarrow>
                         (let normalisedPath = convertCase caseSensitive (dg_declaredPath dg);
                              row = jm_get targetRows expectedDocumentId;
                              targetMetadata = (case Option.bind row tr_doc of Some (Meta d) \<Rightarrow> Some d | _ \<Rightarrow> None);
                              already = (case targetMetadata of Some t \<Rightarrow> isExactMetadataCopy (rh_compare h) doc t | None \<Rightarrow> False);
                              targetIsAvailable =
                                (case row of
                                   None \<Rightarrow> True
                                 | Some r \<Rightarrow> tr_error r = Some ''not_found'' \<or>
                                     already \<and> \<not> tr_deleted r \<and>
                                     (case targetMetadata of
                                        Some t \<Rightarrow> \<not> me_tombstone t \<and> me_deleted t \<noteq> Some True \<and> me_conflicts t = []
                                      | None \<Rightarrow> True));
                              samePathClaims = path_claims caseSensitive observations normalisedPath;
                              permittedExactPair = already \<and> length samePathClaims = 2 \<and>
                                me_id doc \<in> set samePathClaims \<and> expectedDocumentId \<in> set samePathClaims;
                              pathIsUnambiguous = length samePathClaims = 1 \<or> permittedExactPair;
                              targetIsUnambiguous = length (target_claims observations expectedDocumentId) = 1
                          in ((case me_rev doc of Some r \<Rightarrow> r \<noteq> [] | None \<Rightarrow> False) \<and> me_deleted doc \<noteq> Some True \<and>
                              \<not> me_tombstone doc \<and> me_conflicts doc = [] \<and> sh_isValidPath scan (dg_declaredPath dg) \<and>
                              sh_isTargetFile scan (dg_declaredPath dg) \<and> pathIsUnambiguous \<and> targetIsUnambiguous \<and> targetIsAvailable,
                              already,
                              ordinary_path scan observations expectedDocumentId normalisedPath)))
              in [\<lparr>ii_diagnostic = dg, ii_sourceRevision = me_rev doc, ii_logicallyDeleted = isDeletedEntry doc,
                   ii_conflictRevisions = me_conflicts doc, ii_repairAvailable = repairAvailable,
                   ii_targetAlreadyPresent = targetAlreadyPresent, ii_ordinaryPathAvailable = ordinaryPathAvailable\<rparr>])
         | _ \<Rightarrow> []))"

definition inspectMetadataDocumentIdentities :: "'x repair_host \<Rightarrow> ('x, identity_issue list) scan_call" where
  "inspectMetadataDocumentIdentities h =
     after (host (sh_normalDocs (rh_scan h))) (\<lambda>docs.
     after (forEach (observe h) docs) (\<lambda>obss.
     let observations = concat obss;
         expectedTargetIds = js_unique (concat (map (\<lambda>(d, i). case expected_target i of Some e \<Rightarrow> [e] | None \<Rightarrow> []) observations))
     in
     after (if expectedTargetIds = [] then ret [] else host (rh_allDocsRaw h expectedTargetIds)) (\<lambda>rows.
     after (awaits (rh_scan h)) (\<lambda>_.
     ret (concat (map (describe h observations (from_entries tr_key id rows)) observations))))))"

section \<open>The repair\<close>

text \<open>The locks are taken in the order of their keys.\<close>

definition repair_locks :: "string list \<Rightarrow> string list" where
  "repair_locks documentIds = map (\<lambda>i. ''processFileEvent-'' @ i) (sort (js_unique documentIds))"

datatype repair_status = RepairCompleted | RepairStale | RepairBlocked | RepairFailed

record repair_request =
  rr_actualDocumentId :: string
  rr_expectedDocumentId :: string
  rr_sourceRevision :: string

text \<open>The answer is the status with \<open>targetCreated\<close>; the rest of it repeats the request.\<close>

definition findRepairEntry :: "identity_issue list \<Rightarrow> string \<Rightarrow> identity_issue option" where
  "findRepairEntry entries actualDocumentId =
     List.find (\<lambda>e. dg_actualDocumentId (ii_diagnostic e) = actualDocumentId) entries"

definition request_stale :: "repair_request \<Rightarrow> identity_issue option \<Rightarrow> bool" where
  "request_stale request entry =
     (case entry of
        None \<Rightarrow> True
      | Some e \<Rightarrow> ii_sourceRevision e \<noteq> Some (rr_sourceRevision request) \<or>
          dg_reason (ii_diagnostic e) \<noteq> DOCUMENT_ID_MISMATCH \<or>
          dg_expectedDocumentId (ii_diagnostic e) \<noteq> Some (rr_expectedDocumentId request))"

definition target_verified :: "locale_compare \<Rightarrow> meta_entry \<Rightarrow> note_doc \<Rightarrow> bool" where
  "target_verified cmp source target =
     (case target of
        NoMeta _ \<Rightarrow> False
      | Meta t \<Rightarrow> me_deleted t \<noteq> Some True \<and> \<not> me_tombstone t \<and> me_conflicts t = [] \<and> isExactMetadataCopy cmp source t)"

text \<open>From the source that was read: publish, verify, remove.\<close>

definition moveDocument ::
    "'x repair_host \<Rightarrow> repair_request \<Rightarrow> identity_issue \<Rightarrow> meta_entry \<Rightarrow>
     ('x scan_world, scan_error \<times> bool, repair_status \<times> bool) call" where
  "moveDocument h request entry source =
     (let copied = createReaddressedMetadata source (rr_expectedDocumentId request) in
      after (tagging False (clearOfflineScannerLastSeen (rh_scan h) (dg_declaredPath (ii_diagnostic entry)))) (\<lambda>_.
      after (tagging False
               (if ii_targetAlreadyPresent entry then ret False
                else after (host_acts (PutEntry copied) (sh_putRaw (rh_scan h) copied)) (\<lambda>_. ret True))) (\<lambda>targetCreated.
      after (tagging targetCreated (host (rh_getRaw h (rr_expectedDocumentId request) None))) (\<lambda>target.
      if \<not> target_verified (rh_compare h) source target then ret (RepairFailed, targetCreated)
      else
        after (tagging targetCreated
                 (host_acts (RemoveEntry (rr_actualDocumentId request) (rr_sourceRevision request))
                    (rh_removeRaw h (rr_actualDocumentId request) (rr_sourceRevision request)))) (\<lambda>_.
        ret (RepairCompleted, targetCreated))))))"

definition repairMetadataDocumentIdentity ::
    "'x repair_host \<Rightarrow> repair_request \<Rightarrow> ('x scan_world, scan_error, repair_status \<times> bool) call" where
  "repairMetadataDocumentIdentity h request =
     catching
       (after (tagging False (inspectMetadataDocumentIdentities h)) (\<lambda>entries.
        case findRepairEntry entries (rr_actualDocumentId request) of
          None \<Rightarrow> ret (RepairStale, False)
        | Some entry \<Rightarrow>
            if request_stale request (Some entry) then ret (RepairStale, False)
            else if \<not> ii_repairAvailable entry then ret (RepairBlocked, False)
            else
              after (tagging False (host (rh_getRaw h (rr_actualDocumentId request) (Some (rr_sourceRevision request))))) (\<lambda>doc.
              case doc of
                NoMeta _ \<Rightarrow> ret (RepairStale, False)
              | Meta source \<Rightarrow>
                  if me_rev source \<noteq> Some (rr_sourceRevision request) then ret (RepairStale, False)
                  else moveDocument h request entry source)))
       (\<lambda>(e, created). ret (RepairFailed, created))"

section \<open>What the report says of an entry that can be repaired\<close>

definition issue_live :: "identity_issue \<Rightarrow> bool" where
  "issue_live e \<longleftrightarrow> \<not> ii_logicallyDeleted e \<and> ii_conflictRevisions e = [] \<and> ii_sourceRevision e \<noteq> None \<and>
     dg_reason (ii_diagnostic e) = DOCUMENT_ID_MISMATCH"

lemma expected_target_Some:
  "expected_target (UNRESOLVED dg) = Some i \<longleftrightarrow> dg_reason dg = DOCUMENT_ID_MISMATCH \<and> dg_expectedDocumentId dg = Some i"
  by auto

lemma describe_live:
  assumes "e \<in> set (describe h obs rows (doc, i))" and "ii_repairAvailable e"
  shows "issue_live e"
proof -
  obtain dg where dg: "i = UNRESOLVED dg"
    using assms(1) by (cases i) (auto simp: describe_def)
  show ?thesis
  proof (cases "expected_target (UNRESOLVED dg)")
    case None
    with assms dg show ?thesis by (simp add: describe_def Let_def del: expected_target.simps)
  next
    case (Some t)
    then have "dg_reason dg = DOCUMENT_ID_MISMATCH" by (simp only: expected_target_Some)
    with assms dg Some show ?thesis
      by (auto simp: describe_def Let_def issue_live_def isDeletedEntry_def simp del: expected_target.simps split: option.splits)
  qed
qed

lemma observe_wp: "only_env w w1 \<Longrightarrow> wp (observe h doc) (\<lambda>r w'. only_env w w') w1"
  by (auto simp: observe_def split: note_doc.split sum.split)

lemma inspect_wp:
  "wp (inspectMetadataDocumentIdentities h)
     (\<lambda>r w'. only_env w w' \<and> (case r of Inl e \<Rightarrow> True | Inr es \<Rightarrow> \<forall>e\<in>set es. ii_repairAvailable e \<longrightarrow> issue_live e)) w"
proof -
  have loop: "wp (forEach (observe h) docs) (\<lambda>r w'. only_env w w') w1" if "only_env w w1" for docs w1
    by (rule wp_forEach [where I = "only_env w"]) (use that observe_wp in auto)
  show ?thesis
    unfolding inspectMetadataDocumentIdentities_def wp_after wp_host_call
    by (auto simp: Let_def split: prod.split sum.split intro!: wp_mono [OF loop] intro: describe_live)
qed

lemma clear_wp: "wp (clearOfflineScannerLastSeen h p) (\<lambda>r w'. sw_trace w' = sw_trace w) w"
  by (auto simp: clearOfflineScannerLastSeen_def Let_def split: option.split prod.split sum.split)

lemma findRepairEntry_in: "findRepairEntry es i = Some e \<Longrightarrow> e \<in> set es \<and> dg_actualDocumentId (ii_diagnostic e) = i"
  by (auto simp: findRepairEntry_def find_Some_iff)

text \<open>
  The changes of a repair: the copy is written unless it is there, and the old document is removed only after a
  live exact copy has been read back.
\<close>

definition moved_safely :: "'x repair_host \<Rightarrow> repair_request \<Rightarrow> identity_issue \<Rightarrow> meta_entry \<Rightarrow> repair_status \<Rightarrow> host_action list \<Rightarrow> bool" where
  "moved_safely h request e source st acts \<longleftrightarrow>
     (\<exists>puts removals. acts = puts @ removals \<and>
        (puts = [] \<or> puts = [PutEntry (createReaddressedMetadata source (rr_expectedDocumentId request))] \<and> \<not> ii_targetAlreadyPresent e) \<and>
        (removals = [] \<and> st \<noteq> RepairCompleted \<or>
         removals = [RemoveEntry (rr_actualDocumentId request) (rr_sourceRevision request)] \<and>
           (puts \<noteq> [] \<or> ii_targetAlreadyPresent e) \<and>
           (\<exists>x t. fst (rh_getRaw h (rr_expectedDocumentId request) None x) = Inr t \<and> target_verified (rh_compare h) source t)))"

lemma moved_safelyI:
  assumes "puts = [] \<or> puts = [PutEntry (createReaddressedMetadata source (rr_expectedDocumentId request))] \<and> \<not> ii_targetAlreadyPresent e"
  shows "st \<noteq> RepairCompleted \<Longrightarrow> moved_safely h request e source st puts"
    and "rh_getRaw h (rr_expectedDocumentId request) None x = (Inr t, x') \<Longrightarrow> target_verified (rh_compare h) source t \<Longrightarrow>
      puts \<noteq> [] \<or> ii_targetAlreadyPresent e \<Longrightarrow>
      moved_safely h request e source st (puts @ [RemoveEntry (rr_actualDocumentId request) (rr_sourceRevision request)])"
proof -
  show "st \<noteq> RepairCompleted \<Longrightarrow> moved_safely h request e source st puts"
    using assms unfolding moved_safely_def by (intro exI [of _ puts] exI [of _ "[]"]) simp
  assume "rh_getRaw h (rr_expectedDocumentId request) None x = (Inr t, x')" "target_verified (rh_compare h) source t"
    "puts \<noteq> [] \<or> ii_targetAlreadyPresent e"
  moreover from this(1) have "fst (rh_getRaw h (rr_expectedDocumentId request) None x) = Inr t" by simp
  ultimately show "moved_safely h request e source st
      (puts @ [RemoveEntry (rr_actualDocumentId request) (rr_sourceRevision request)])"
    using assms unfolding moved_safely_def
    by (intro exI [of _ puts] exI [of _ "[RemoveEntry (rr_actualDocumentId request) (rr_sourceRevision request)]"]) blast
qed

definition move_result :: "(scan_error \<times> bool) + (repair_status \<times> bool) \<Rightarrow> repair_status" where
  "move_result r = (case r of Inl _ \<Rightarrow> RepairFailed | Inr (st, _) \<Rightarrow> st)"

lemma moveDocument_wp:
  "wp (moveDocument h request e source)
     (\<lambda>r w'. \<exists>acts. sw_trace w' = sw_trace w @ acts \<and> moved_safely h request e source (move_result r) acts) w"
proof -
  let ?copied = "createReaddressedMetadata source (rr_expectedDocumentId request)"
  have finish: "wp (after (tagging created (host (rh_getRaw h (rr_expectedDocumentId request) None))) (\<lambda>target.
      if \<not> target_verified (rh_compare h) source target then ret (RepairFailed, created)
      else
        after (tagging created
                 (host_acts (RemoveEntry (rr_actualDocumentId request) (rr_sourceRevision request))
                    (rh_removeRaw h (rr_actualDocumentId request) (rr_sourceRevision request)))) (\<lambda>_.
        ret (RepairCompleted, created))))
     (\<lambda>r w'. \<exists>acts. sw_trace w' = sw_trace w @ acts \<and> moved_safely h request e source (move_result r) acts) w1"
    if "sw_trace w1 = sw_trace w @ puts"
      and p: "puts = [] \<or> puts = [PutEntry ?copied] \<and> \<not> ii_targetAlreadyPresent e" "puts \<noteq> [] \<or> ii_targetAlreadyPresent e"
    for created w1 puts
    using that(1) moved_safelyI [OF p(1)] p(2)
    by (auto simp: move_result_def split: prod.split sum.split)
  show ?thesis
    unfolding moveDocument_def Let_def
  proof (rule wp_seq [where I = "\<lambda>_ w1. sw_trace w1 = sw_trace w"], goal_cases)
    case 1
    show ?case
      by (simp, rule wp_mono [OF clear_wp]) (auto simp: move_result_def intro!: moved_safelyI(1) split: sum.split)
  next
    case (2 _ w1)
    let ?puts = "if ii_targetAlreadyPresent e then [] else [PutEntry ?copied]"
    show ?case
    proof (rule wp_seq [where I = "\<lambda>created w2. sw_trace w2 = sw_trace w @ ?puts"], goal_cases)
      case 1
      show ?case
        using 2 moved_safelyI(1) [of "[PutEntry ?copied]" source request e]
        by (auto simp: move_result_def split: prod.split sum.split)
    next
      case (2 created w2)
      then show ?case by (rule finish) simp_all
    qed
  qed
qed

definition repair_post :: "'x repair_host \<Rightarrow> repair_request \<Rightarrow> 'x scan_world \<Rightarrow> repair_status \<Rightarrow> 'x scan_world \<Rightarrow> bool" where
  "repair_post h request w st w' \<longleftrightarrow>
     (\<exists>acts. sw_trace w' = sw_trace w @ acts \<and>
        (acts = [] \<and> st \<noteq> RepairCompleted \<or>
         (\<exists>e source x. issue_live e \<and> ii_repairAvailable e \<and> ii_sourceRevision e = Some (rr_sourceRevision request) \<and>
            me_rev source = Some (rr_sourceRevision request) \<and>
            fst (rh_getRaw h (rr_actualDocumentId request) (Some (rr_sourceRevision request)) x) = Inr (Meta source) \<and>
            moved_safely h request e source st acts)))"

lemma repair_post_same: "sw_trace w' = sw_trace w \<Longrightarrow> st \<noteq> RepairCompleted \<Longrightarrow> repair_post h request w st w'"
  by (simp add: repair_post_def)

lemma repair_post_moved:
  assumes "sw_trace w1 = sw_trace w" and "issue_live e" and "ii_repairAvailable e"
    and "\<not> request_stale request (Some e)" and "me_rev source = Some (rr_sourceRevision request)"
    and "rh_getRaw h (rr_actualDocumentId request) (Some (rr_sourceRevision request)) x = (Inr (Meta source), x')"
    and "\<exists>acts. sw_trace w' = sw_trace w1 @ acts \<and> moved_safely h request e source st acts"
  shows "repair_post h request w st w'"
proof -
  have "fst (rh_getRaw h (rr_actualDocumentId request) (Some (rr_sourceRevision request)) x) = Inr (Meta source)"
    using assms(6) by simp
  moreover have "ii_sourceRevision e = Some (rr_sourceRevision request)"
    using assms(4) by (simp add: request_stale_def)
  ultimately show ?thesis
    using assms unfolding repair_post_def by fastforce
qed

lemma repair_wp:
  "wp (repairMetadataDocumentIdentity h request)
     (\<lambda>r w'. case r of Inl e \<Rightarrow> False | Inr (st, created) \<Rightarrow> repair_post h request w st w') w"
proof -
  let ?Q = "\<lambda>r w'. repair_post h request w (move_result r) w'"
  have "wp (after (tagging False (inspectMetadataDocumentIdentities h)) (\<lambda>entries.
        case findRepairEntry entries (rr_actualDocumentId request) of
          None \<Rightarrow> ret (RepairStale, False)
        | Some entry \<Rightarrow>
            if request_stale request (Some entry) then ret (RepairStale, False)
            else if \<not> ii_repairAvailable entry then ret (RepairBlocked, False)
            else
              after (tagging False (host (rh_getRaw h (rr_actualDocumentId request) (Some (rr_sourceRevision request))))) (\<lambda>doc.
              case doc of
                NoMeta _ \<Rightarrow> ret (RepairStale, False)
              | Meta source \<Rightarrow>
                  if me_rev source \<noteq> Some (rr_sourceRevision request) then ret (RepairStale, False)
                  else moveDocument h request entry source))) ?Q w"
  proof (rule wp_seq [where I = "\<lambda>es w1. sw_trace w1 = sw_trace w \<and> (\<forall>e\<in>set es. ii_repairAvailable e \<longrightarrow> issue_live e)"],
      goal_cases)
    case 1
    show ?case
      by (simp, rule wp_mono [OF inspect_wp])
         (auto simp: move_result_def only_env_fields intro: repair_post_same split: sum.splits)
  next
    case (2 es w1)
    show ?case
    proof (cases "findRepairEntry es (rr_actualDocumentId request)")
      case None
      then show ?thesis using 2 by (simp add: move_result_def repair_post_same)
    next
      case (Some e)
      then have e: "e \<in> set es" by (simp add: findRepairEntry_in)
      show ?thesis
        using 2 e Some
        by (auto simp: move_result_def [of "Inl _"] move_result_def [of "Inr (_, _)"] repair_post_same
            split: prod.split sum.split note_doc.split intro!: wp_mono [OF moveDocument_wp] intro: repair_post_moved)
    qed
  qed
  then show ?thesis
    by (simp add: repairMetadataDocumentIdentity_def del: wp_after)
       (erule wp_mono, auto simp: move_result_def split: sum.splits prod.splits)
qed

section \<open>Properties\<close>


lemma cloneEden_clean: "\<forall>(i, c)\<in>set eden. \<exists>a b. c = JObj [(''data'', a), (''epoch'', b)] \<Longrightarrow> cloneEden eden = eden"
  unfolding cloneEden_def by (rule map_idI) (fastforce simp: cloneChunk_def js_field_def)

text \<open>
  The copy that a repair writes is an exact copy of a live entry whose embedded chunks hold only their data
  and epoch, and it is consistent when the identifier is that of the path: the verification of the repair accepts
  it, and the next report does not list it again.
\<close>

theorem readdressed_copy_verified:
  assumes "\<forall>(i, c)\<in>set (me_eden source). \<exists>a b. c = JObj [(''data'', a), (''epoch'', b)]"
    and "\<not> isDeletedEntry source" and "entry_getPath source = Inr p" and "me_path source \<noteq> []"
    and "getMetadataDocumentNamespace p = NORMAL" and "getMetadataDocumentNamespace (path2id sha settings p []) = NORMAL"
  defines "copied \<equiv> createReaddressedMetadata source (path2id sha settings p [])"
  shows "target_verified cmp source (Meta copied) \<and>
    inspectMetadataDocumentIdentity sha settings copied = Inr (CONSISTENT (me_id copied) p (me_id copied))"
proof
  have same: "me_deleted source \<noteq> Some True" "\<not> me_tombstone source" using assms(2) by (auto simp: isDeletedEntry_def)
  then have "isDeletedEntry copied = isDeletedEntry source"
    by (simp add: copied_def createReaddressedMetadata_def isDeletedEntry_def)
  then have "isExactMetadataCopy cmp source copied"
    by (simp add: isExactMetadataCopy_def logicalMetadataPayload_def copied_def createReaddressedMetadata_def
        cloneEden_clean [OF assms(1)])
  then show "target_verified cmp source (Meta copied)"
    using same by (simp add: target_verified_def copied_def createReaddressedMetadata_def)
  have "entry_getPath copied = Inr p"
    using assms(3,4)
    by (simp add: entry_getPath_def id2path_def service_id2path_def id2path_base_def copied_def createReaddressedMetadata_def)
  then show "inspectMetadataDocumentIdentity sha settings copied = Inr (CONSISTENT (me_id copied) p (me_id copied))"
    using assms(5,6) by (simp add: inspectMetadataDocumentIdentity_def Let_def copied_def createReaddressedMetadata_def)
qed

theorem readdressed_copy_verified_witness:
  "target_verified (\<lambda>a b. 0) (sample_entry ''old'' ''a.md'' 4000 2)
     (Meta (createReaddressedMetadata (sample_entry ''old'' ''a.md'' 4000 2) ''a.md''))"
proof -
  let ?d = "sample_entry ''old'' ''a.md'' 4000 2"
  have p: "entry_getPath ?d = Inr ''a.md''" "path2id (\<lambda>s. s) plain_settings ''a.md'' [] = ''a.md''"
    "getMetadataDocumentNamespace ''a.md'' = NORMAL"
    by code_simp+
  show ?thesis
    using readdressed_copy_verified [of ?d "''a.md''" "\<lambda>s. s" plain_settings "\<lambda>a b. 0"] p
    by (simp add: sample_entry_def isDeletedEntry_def)
qed

lemma prefix_le: "(p @ a \<le> p @ b) = (a \<le> (b :: string))"
  by (induction p) simp_all

lemma sorted_map_prefix: "sorted xs \<Longrightarrow> sorted (map (\<lambda>i :: string. p @ i) xs)"
  by (induction xs) (auto simp: prefix_le)

lemma repair_locks_sorted: "sorted (repair_locks ids) \<and> distinct (repair_locks ids)"
  using sorted_map_prefix [of "sort (js_unique ids)" "''processFileEvent-''"]
  by (auto simp: repair_locks_def distinct_map inj_on_def simp del: append_Cons append_Nil)

text \<open>
  Two repairs never wait for each other: the locks that both need are taken by both in the same order.
\<close>

theorem repair_locks_ordered:
  "filter (\<lambda>k. k \<in> set (repair_locks b)) (repair_locks a) = filter (\<lambda>k. k \<in> set (repair_locks a)) (repair_locks b) \<and>
   set (repair_locks a) = (\<lambda>i. ''processFileEvent-'' @ i) ` set a"
proof
  show "filter (\<lambda>k. k \<in> set (repair_locks b)) (repair_locks a) = filter (\<lambda>k. k \<in> set (repair_locks a)) (repair_locks b)"
    by (rule sorted_distinct_set_unique)
       (use repair_locks_sorted [of a] repair_locks_sorted [of b] in \<open>auto simp: sorted_wrt_filter\<close>)
  show "set (repair_locks a) = (\<lambda>i. ''processFileEvent-'' @ i) ` set a"
    by (simp add: repair_locks_def)
qed

end
