(* ===== verification/EarlyReplication.thy ===== *)
theory EarlyReplication
  imports OfflineScanner
begin

text \<open>
  \<open>src/serviceFeatures/earlyReplication.ts\<close>: receiving remote changes at start-up before the full scan has run.
  Each incoming path gets a receipt that says whether its local state was preserved; a received entry is written
  to the storage only after the local state has been prepared again under the lock of its document. The lifecycle
  may stop the session at every await: the environment moves there, and \<open>canRun\<close> is read again. The key-value
  store is a map that does not fail; the file handler and the database are parameters. A call is taken as one
  block, since the lock of the document keeps the others of the same document out. Log lines are left out.
\<close>

section \<open>The session\<close>

record path_receipt =
  pr_version :: nat
  pr_path :: string
  pr_prepared :: bool
  pr_absent :: bool

text \<open>The first row of a metadata read: its error and its document.\<close>

record metadata_row =
  mr_error :: "string option"
  mr_doc :: "note_doc option"

text \<open>
  \<open>el_required\<close> and \<open>el_paths\<close> are the flags the file handler keeps (\<open>requireOfflinePreparation\<close>,
  \<open>requireOfflinePreparationForPath\<close>); \<open>el_receipts\<close> and \<open>el_fullScan\<close> are the key-value store. The ghost trace
  records the preparations that succeeded and the writes.
\<close>

datatype early_action = PreparedPath string | AppliedEntry string | ReflectedEntry string

record 'x early_world =
  el_active :: bool
  el_stopped :: bool
  el_pending :: "string list"
  el_required :: bool
  el_paths :: "string list"
  el_receipts :: "(string, path_receipt) jsmap"
  el_fullScan :: "bool option"
  el_trace :: "early_action list"
  el_env :: 'x

type_synonym ('x, 'a) early_call = "('x early_world, scan_error, 'a) call"

record 'x early_host =
  eh_sha :: "string \<Rightarrow> string"
  eh_paths :: path_settings
  eh_isMinio :: bool
  eh_isDatabaseReady :: bool
  eh_isValidPath :: "string \<Rightarrow> bool"
  eh_isTargetFile :: "string \<Rightarrow> bool"
  eh_wasSeen :: "string \<Rightarrow> 'x \<Rightarrow> bool"
  eh_halted :: "'x \<Rightarrow> bool"
  eh_awaited :: "'x \<Rightarrow> 'x"
  eh_readMetadata :: "string \<Rightarrow> ('x, scan_error, metadata_row option) call"
  eh_canPrepare :: "string \<Rightarrow> bool \<Rightarrow> ('x, scan_error, bool) call"
  eh_prepare :: "string \<Rightarrow> bool \<Rightarrow> bool \<Rightarrow> ('x, scan_error, bool) call"
  eh_isAbsent :: "string \<Rightarrow> ('x, scan_error, bool) call"
  eh_dbToStorage :: "meta_entry \<Rightarrow> string \<Rightarrow> ('x, scan_error, bool) call"

definition ask_host :: "('x, scan_error, 'a) call \<Rightarrow> ('x, 'a) early_call" where
  "ask_host = ask el_env (\<lambda>x w. w\<lparr>el_env := x\<rparr>)"

definition pause_host :: "'x early_host \<Rightarrow> ('x, unit) early_call" where
  "pause_host h = modifyW (\<lambda>w. w\<lparr>el_env := eh_awaited h (el_env w)\<rparr>)"

definition canRun :: "'x early_host \<Rightarrow> 'x early_world \<Rightarrow> bool" where
  "canRun h w \<longleftrightarrow> \<not> el_stopped w \<and> \<not> eh_halted h (el_env w)"

definition ifRunning :: "'x early_host \<Rightarrow> ('x, 'a) early_call \<Rightarrow> ('x, 'a) early_call \<Rightarrow> ('x, 'a) early_call" where
  "ifRunning h m n = after (getW (canRun h)) (\<lambda>b. if b then m else n)"

definition receipt_key :: "string \<Rightarrow> string" where
  "receipt_key i = ''offline-startup-path-v1:'' @ i"

definition setReceipt :: "'x early_host \<Rightarrow> string \<Rightarrow> path_receipt \<Rightarrow> ('x, unit) early_call" where
  "setReceipt h i r = after (modifyW (\<lambda>w. w\<lparr>el_receipts := jm_set (receipt_key i) r (el_receipts w)\<rparr>)) (\<lambda>_. pause_host h)"

definition deleteReceipt :: "'x early_host \<Rightarrow> string \<Rightarrow> ('x, unit) early_call" where
  "deleteReceipt h i = after (modifyW (\<lambda>w. w\<lparr>el_receipts := jm_delete (receipt_key i) (el_receipts w)\<rparr>)) (\<lambda>_. pause_host h)"

text \<open>\<open>pendingPaths.add\<close> with \<open>requireOfflinePreparationForPath(path, true)\<close>, and their reverse.\<close>

definition hold_path :: "string \<Rightarrow> string \<Rightarrow> 'x early_world \<Rightarrow> 'x early_world" where
  "hold_path i path w = w\<lparr>el_pending := List.insert i (el_pending w), el_paths := List.insert path (el_paths w)\<rparr>"

definition release_path :: "string \<Rightarrow> string \<Rightarrow> 'x early_world \<Rightarrow> 'x early_world" where
  "release_path i path w = w\<lparr>el_pending := removeAll i (el_pending w), el_paths := removeAll path (el_paths w)\<rparr>"

definition getPath_early :: "meta_entry \<Rightarrow> ('x, string) early_call" where
  "getPath_early doc = (case entry_getPath doc of Inl e \<Rightarrow> throw (error_text ''Entry has been obfuscated!'') | Inr p \<Rightarrow> ret p)"

definition selected :: "'x early_host \<Rightarrow> meta_entry \<Rightarrow> ('x, bool) early_call" where
  "selected h doc =
     after (getPath_early doc) (\<lambda>path.
     if shouldBeIgnored path \<or> \<not> eh_isValidPath h path then ret False
     else after (pause_host h) (\<lambda>_.
       if path2id (eh_sha h) (eh_paths h) path [] \<noteq> me_id doc then ret False
       else after (pause_host h) (\<lambda>_. ret (eh_isTargetFile h path))))"

definition early_begin :: "'x early_host \<Rightarrow> ('x, bool) early_call" where
  "early_begin h =
     ifRunning h
       (if \<not> eh_isMinio h \<or> \<not> eh_isDatabaseReady h then ret False
        else
          after (modifyW (\<lambda>w. w\<lparr>el_required := True, el_fullScan := Some False\<rparr>)) (\<lambda>_.
          after (pause_host h) (\<lambda>_.
          ifRunning h (after (modifyW (\<lambda>w. w\<lparr>el_active := True\<rparr>)) (\<lambda>_. ret True)) (ret False))))
       (ret False)"

definition early_stop :: "'x early_world \<Rightarrow> 'x early_world" where
  "early_stop w = w\<lparr>el_stopped := True, el_active := False, el_required := False\<rparr>"

definition readMetadata :: "'x early_host \<Rightarrow> string \<Rightarrow> ('x, metadata_row option) early_call" where
  "readMetadata h i = catching (ask_host (eh_readMetadata h i)) (\<lambda>_. throw EarlyDatabaseRead)"

definition row_absent :: "metadata_row option \<Rightarrow> bool" where
  "row_absent row = (case row of Some r \<Rightarrow> mr_error r = Some ''not_found'' | None \<Rightarrow> False)"

fun row_entry :: "metadata_row option \<Rightarrow> meta_entry option" where
  "row_entry (Some r) = (case mr_doc r of Some (Meta d) \<Rightarrow> Some d | _ \<Rightarrow> None)"
| "row_entry None = None"

definition interrupted_error :: scan_error where
  "interrupted_error = error_text ''early receipt interrupted by the lifecycle''"

definition captureUnderLock :: "'x early_host \<Rightarrow> meta_entry \<Rightarrow> ('x, unit) early_call" where
  "captureUnderLock h doc =
     after (getPath_early doc) (\<lambda>path.
     after (pause_host h) (\<lambda>_.
     after (getW (\<lambda>w. jm_get (el_receipts w) (receipt_key (me_id doc)))) (\<lambda>previous.
     if previous \<noteq> None then modifyW (hold_path (me_id doc) path)
     else
       after (readMetadata h (me_id doc)) (\<lambda>row.
       after (getW (\<lambda>w. row_absent row \<and> \<not> eh_wasSeen h path (el_env w))) (\<lambda>absent.
       ifRunning h
         (after (catching (ask_host (eh_canPrepare h path absent))
                   (\<lambda>e. if e = UnknownFileWriteState then ret False else throw e)) (\<lambda>ready.
          ifRunning h
            (after (setReceipt h (me_id doc) \<lparr>pr_version = 1, pr_path = path, pr_prepared = ready, pr_absent = absent\<rparr>) (\<lambda>_.
             modifyW (hold_path (me_id doc) path)))
            (throw interrupted_error)))
         (throw interrupted_error))))))"

definition capturePath :: "'x early_host \<Rightarrow> meta_entry \<Rightarrow> ('x, unit) early_call" where
  "capturePath h doc =
     ifRunning h
       (after (selected h doc) (\<lambda>sel. if \<not> sel then ret () else captureUnderLock h doc))
       (throw interrupted_error)"

text \<open>The documents are taken by eight workers, in some order; a worker that throws ends the call.\<close>

definition early_capture :: "'x early_host \<Rightarrow> meta_entry list \<Rightarrow> ('x, unit) early_call" where
  "early_capture h docs =
     after (getW el_active) (\<lambda>active.
     if \<not> active then ret () else after (forEach (capturePath h) docs) (\<lambda>_. ret ()))"

definition note_action :: "early_action \<Rightarrow> bool \<Rightarrow> 'x early_world \<Rightarrow> 'x early_world" where
  "note_action a ok w = (if ok then w\<lparr>el_trace := el_trace w @ [a]\<rparr> else w)"

definition preparePath :: "'x early_host \<Rightarrow> string \<Rightarrow> bool \<Rightarrow> bool \<Rightarrow> ('x, bool) early_call" where
  "preparePath h path absent full =
     after (ask_host (eh_prepare h path absent full)) (\<lambda>ok. after (modifyW (note_action (PreparedPath path) ok)) (\<lambda>_. ret ok))"

text \<open>The write is recorded when it is attempted, whatever comes of it.\<close>

definition writes :: "early_action \<Rightarrow> ('x, scan_error, bool) call \<Rightarrow> ('x, bool) early_call" where
  "writes a m = ask el_env (\<lambda>x w. w\<lparr>el_env := x, el_trace := el_trace w @ [a]\<rparr>) m"

text \<open>What is done under the lock of the document; \<open>writeEntry\<close> is the callback \<open>apply\<close>.\<close>

definition applyPrepared :: "'x early_host \<Rightarrow> meta_entry \<Rightarrow> ('x, scan_error, bool) call \<Rightarrow> string \<Rightarrow> ('x, bool) early_call" where
  "applyPrepared h doc writeEntry path =
     after (ask_host (eh_isAbsent h path)) (\<lambda>absent.
     ifRunning h
       (after (setReceipt h (me_id doc) \<lparr>pr_version = 1, pr_path = path, pr_prepared = True, pr_absent = absent\<rparr>) (\<lambda>_.
        ifRunning h
          (after (writes (AppliedEntry (me_id doc)) writeEntry) (\<lambda>applied.
           after (getW (canRun h)) (\<lambda>running.
           after (if applied \<and> running
                  then after (deleteReceipt h (me_id doc)) (\<lambda>_. modifyW (release_path (me_id doc) path))
                  else ret ()) (\<lambda>_. ret applied))))
          (ret False)))
       (ret False))"

definition applyUnderLock :: "'x early_host \<Rightarrow> meta_entry \<Rightarrow> ('x, scan_error, bool) call \<Rightarrow> ('x, bool) early_call" where
  "applyUnderLock h doc writeEntry =
     after (getPath_early doc) (\<lambda>path.
     after (modifyW (hold_path (me_id doc) path)) (\<lambda>_.
     after (pause_host h) (\<lambda>_.
     after (getW (\<lambda>w. jm_get (el_receipts w) (receipt_key (me_id doc)))) (\<lambda>receipt.
     if (case receipt of Some r \<Rightarrow> pr_version r \<noteq> 1 \<or> pr_path r \<noteq> path \<or> \<not> pr_prepared r | None \<Rightarrow> False)
     then ret False
     else
       ifRunning h
         (after (preparePath h path (case receipt of Some r \<Rightarrow> pr_absent r | None \<Rightarrow> False) False) (\<lambda>ok.
          if \<not> ok then ret False else ifRunning h (applyPrepared h doc writeEntry path) (ret False)))
         (ret False)))))"

definition early_apply :: "'x early_host \<Rightarrow> meta_entry \<Rightarrow> ('x, scan_error, bool) call \<Rightarrow> ('x, bool) early_call" where
  "early_apply h doc writeEntry =
     ifRunning h
       (after (getW (\<lambda>w. \<not> el_active w \<and> me_id doc \<notin> set (el_pending w))) (\<lambda>free.
        if free then writes (AppliedEntry (me_id doc)) writeEntry
        else
          after (selected h doc) (\<lambda>sel.
          if \<not> sel then ifRunning h (writes (AppliedEntry (me_id doc)) writeEntry) (ret False)
          else applyUnderLock h doc writeEntry)))
       (ret False)"

text \<open>What a scan does with the entry that is read again after the preparation.\<close>

definition scanCurrent :: "'x early_host \<Rightarrow> string \<Rightarrow> string \<Rightarrow> meta_entry option \<Rightarrow> ('x, pair_result) early_call" where
  "scanCurrent h path i latest =
     (case latest of
        None \<Rightarrow> after (deleteReceipt h i) (\<lambda>_. after (modifyW (release_path i path)) (\<lambda>_. ret COMPLETED))
      | Some current \<Rightarrow>
          if me_conflicts current \<noteq> [] then
            after (ask_host (eh_isAbsent h path)) (\<lambda>absentNow.
            ifRunning h
              (after (setReceipt h (me_id current)
                 \<lparr>pr_version = 1, pr_path = path, pr_prepared = True, pr_absent = absentNow\<rparr>) (\<lambda>_. ret SKIPPED))
              (ret FAILED))
          else
            after (writes (ReflectedEntry (me_id current)) (eh_dbToStorage h current (stripAllPrefixes path))) (\<lambda>written.
            if \<not> written then ret FAILED
            else
              ifRunning h
                (after (deleteReceipt h (me_id current)) (\<lambda>_.
                 after (modifyW (release_path i path)) (\<lambda>_. ret COMPLETED)))
                (ret FAILED)))"

definition scanPrepared :: "'x early_host \<Rightarrow> string \<Rightarrow> string \<Rightarrow> ('x, pair_result) early_call" where
  "scanPrepared h path i =
     ifRunning h
       (after (readMetadata h i) (\<lambda>latest. ifRunning h (scanCurrent h path i (row_entry latest)) (ret FAILED)))
       (ret FAILED)"

definition early_scan :: "'x early_host \<Rightarrow> string \<Rightarrow> ('x, pair_result) early_call" where
  "early_scan h path =
     (let i = path2id (eh_sha h) (eh_paths h) path [] in
      after (pause_host h) (\<lambda>_.
      ifRunning h
        (after (modifyW (hold_path i path)) (\<lambda>_.
         after (readMetadata h i) (\<lambda>row.
         after (case row_entry row of Some d \<Rightarrow> selected h d | None \<Rightarrow> ret True) (\<lambda>sel.
         if \<not> sel then ret FAILED
         else
           after (getW (\<lambda>w. row_absent row \<and> \<not> eh_wasSeen h path (el_env w))) (\<lambda>absent.
           after (preparePath h path absent True) (\<lambda>ok.
           if \<not> ok then after (modifyW (\<lambda>w. w\<lparr>el_pending := List.insert i (el_pending w)\<rparr>)) (\<lambda>_. ret FAILED)
           else scanPrepared h path i))))))
        (ret FAILED)))"

definition early_complete :: "'x early_host \<Rightarrow> bool \<Rightarrow> ('x, bool) early_call" where
  "early_complete h succeeded =
     ifRunning h
       (if \<not> succeeded then ret False
        else
          after (modifyW (\<lambda>w. w\<lparr>el_fullScan := Some True\<rparr>)) (\<lambda>_.
          after (pause_host h) (\<lambda>_.
          after (modifyW (\<lambda>w. w\<lparr>el_active := False, el_required := False\<rparr>)) (\<lambda>_. ret True))))
       (ret False)"

section \<open>Weakest preconditions\<close>

lemma wp_ask_host [simp, wp_simps]:
  "wp (ask_host m) Q w = (case m (el_env w) of (r, x) \<Rightarrow> Q r (w\<lparr>el_env := x\<rparr>))"
  by (simp add: wp_def ask_host_def ask_def split: prod.split)

lemma wp_writes [simp, wp_simps]:
  "wp (writes a m) Q w = (case m (el_env w) of (r, x) \<Rightarrow> Q r (w\<lparr>el_env := x, el_trace := el_trace w @ [a]\<rparr>))"
  by (simp add: wp_def writes_def ask_def split: prod.split)

lemma wp_pause [simp, wp_simps]: "wp (pause_host h) Q w = Q (Inr ()) (w\<lparr>el_env := eh_awaited h (el_env w)\<rparr>)"
  by (simp add: pause_host_def)

lemma wp_ifRunning [simp, wp_simps]: "wp (ifRunning h m n) Q w = (if canRun h w then wp m Q w else wp n Q w)"
  by (simp add: ifRunning_def)

lemma wp_setReceipt [simp, wp_simps]:
  "wp (setReceipt h i r) Q w =
     Q (Inr ()) (w\<lparr>el_receipts := jm_set (receipt_key i) r (el_receipts w), el_env := eh_awaited h (el_env w)\<rparr>)"
  by (simp add: setReceipt_def)

lemma wp_deleteReceipt [simp, wp_simps]:
  "wp (deleteReceipt h i) Q w =
     Q (Inr ()) (w\<lparr>el_receipts := jm_delete (receipt_key i) (el_receipts w), el_env := eh_awaited h (el_env w)\<rparr>)"
  by (simp add: deleteReceipt_def)

lemma wp_readMetadata [simp, wp_simps]:
  "wp (readMetadata h i) Q w = (case eh_readMetadata h i (el_env w) of
     (Inl e, x) \<Rightarrow> Q (Inl EarlyDatabaseRead) (w\<lparr>el_env := x\<rparr>) | (Inr a, x) \<Rightarrow> Q (Inr a) (w\<lparr>el_env := x\<rparr>))"
  by (auto simp: readMetadata_def split: prod.split sum.split)

lemma wp_getPath_early [simp, wp_simps]:
  "wp (getPath_early d) Q w = (case entry_getPath d of
     Inl e \<Rightarrow> Q (Inl (error_text ''Entry has been obfuscated!'')) w | Inr p \<Rightarrow> Q (Inr p) w)"
  by (simp add: getPath_early_def split: sum.split)

text \<open>The path that \<open>selected\<close> accepts for a document.\<close>

definition selects :: "'x early_host \<Rightarrow> meta_entry \<Rightarrow> string \<Rightarrow> bool" where
  "selects h doc path \<longleftrightarrow> entry_getPath doc = Inr path \<and> \<not> shouldBeIgnored path \<and> eh_isValidPath h path \<and>
     path2id (eh_sha h) (eh_paths h) path [] = me_id doc \<and> eh_isTargetFile h path"

definition env_only :: "'x early_world \<Rightarrow> 'x early_world \<Rightarrow> bool" where
  "env_only w w' \<longleftrightarrow> w' = w\<lparr>el_env := el_env w'\<rparr>"

lemma env_only_upd [simp]: "env_only w (w1\<lparr>el_env := x\<rparr>) = env_only w w1"
  by (cases w; cases w1) (simp add: env_only_def)

lemma env_only_refl [simp]: "env_only w w"
  by (simp add: env_only_def)

lemma selected_wp:
  "wp (selected h doc) (\<lambda>r w'. env_only w w' \<and>
     (case r of Inl e \<Rightarrow> True | Inr b \<Rightarrow> b = (\<exists>p. selects h doc p) \<and> (\<exists>p. entry_getPath doc = Inr p))) w"
  by (auto simp: selected_def selects_def split: sum.split)

lemma env_only_fields:
  assumes "env_only w w'"
  shows "el_active w' = el_active w" "el_stopped w' = el_stopped w" "el_pending w' = el_pending w"
    "el_paths w' = el_paths w" "el_receipts w' = el_receipts w" "el_trace w' = el_trace w" "el_fullScan w' = el_fullScan w"
    "el_required w' = el_required w"
  using assms by (cases w; cases w'; simp add: env_only_def)+

section \<open>Applying a received entry\<close>

text \<open>What one application has done: \<open>acts\<close> are its new actions.\<close>

definition applied_safely :: "'x early_host \<Rightarrow> meta_entry \<Rightarrow> 'x early_world \<Rightarrow> scan_error + bool \<Rightarrow> 'x early_world \<Rightarrow> bool" where
  "applied_safely h doc w r w' \<longleftrightarrow>
     (\<exists>acts. el_trace w' = el_trace w @ acts \<and>
        (acts = [] \<or>
         (\<exists>p. selects h doc p \<and> (acts = [PreparedPath p] \<or> acts = [PreparedPath p, AppliedEntry (me_id doc)])) \<or>
         acts = [AppliedEntry (me_id doc)] \<and>
           (\<not> el_active w \<and> me_id doc \<notin> set (el_pending w) \<or> (\<nexists>p. selects h doc p))) \<and>
        (r = Inr True \<longrightarrow> AppliedEntry (me_id doc) \<in> set acts)) \<and>
     (\<forall>k. jm_get (el_receipts w) k \<noteq> None \<and> jm_get (el_receipts w') k = None \<longrightarrow>
        k = receipt_key (me_id doc) \<and> r = Inr True)"

lemma selects_path: "selects h doc p \<Longrightarrow> entry_getPath doc = Inr p"
  by (simp add: selects_def)

lemma applyPrepared_wp:
  assumes "el_trace w1 = el_trace w @ [PreparedPath path]" and "el_receipts w1 = el_receipts w" and "selects h doc path"
  shows "wp (applyPrepared h doc a path) (applied_safely h doc w) w1"
  using assms
  by (auto simp: applyPrepared_def applied_safely_def release_path_def split: prod.split sum.split)

lemma applyUnderLock_wp:
  assumes "el_trace w1 = el_trace w" and "el_receipts w1 = el_receipts w" and "selects h doc path"
  shows "wp (applyUnderLock h doc a) (applied_safely h doc w) w1"
proof -
  have quiet: "applied_safely h doc w r w2" if "el_trace w2 = el_trace w" "el_receipts w2 = el_receipts w" "r \<noteq> Inr True" for r w2
    using that by (auto simp: applied_safely_def)
  have prepared: "applied_safely h doc w r w2"
    if "el_trace w2 = el_trace w @ [PreparedPath path]" "el_receipts w2 = el_receipts w" "r \<noteq> Inr True" for r w2
    using that assms(3) by (auto simp: applied_safely_def)
  show ?thesis
    using assms selects_path [OF assms(3)]
    by (auto simp: applyUnderLock_def preparePath_def note_action_def hold_path_def quiet prepared
        intro!: applyPrepared_wp split: prod.split sum.split)
qed

lemma early_apply_wp: "wp (early_apply h doc a) (applied_safely h doc w) w"
proof -
  have quiet: "applied_safely h doc w r w2" if "env_only w w2" "r \<noteq> Inr True" for r w2
    using that by (auto simp: applied_safely_def env_only_fields)
  have free: "wp (writes (AppliedEntry (me_id doc)) a) (applied_safely h doc w) w2"
    if "env_only w w2" "\<not> el_active w \<and> me_id doc \<notin> set (el_pending w) \<or> (\<nexists>p. selects h doc p)" for w2
    using that by (auto simp: applied_safely_def env_only_fields split: prod.split)
  have locked: "wp (applyUnderLock h doc a) (applied_safely h doc w) w2" if "env_only w w2" "selects h doc p" for w2 p
    using that by (intro applyUnderLock_wp) (simp_all add: env_only_fields)
  show ?thesis
    unfolding early_apply_def wp_ifRunning wp_after wp_getW
    by (auto simp: quiet free simp del: wp_writes intro: locked intro!: wp_mono [OF selected_wp] split: sum.split)
qed

section \<open>Capturing a batch of received entries\<close>

text \<open>What a capture may do to the session: add receipts and hold paths.\<close>

definition session_grows :: "'x early_world \<Rightarrow> 'x early_world \<Rightarrow> bool" where
  "session_grows w w' \<longleftrightarrow>
     (\<forall>k r. jm_get (el_receipts w) k = Some r \<longrightarrow> jm_get (el_receipts w') k = Some r) \<and>
     set (el_pending w) \<subseteq> set (el_pending w') \<and> set (el_paths w) \<subseteq> set (el_paths w') \<and>
     el_active w' = el_active w \<and> el_stopped w' = el_stopped w \<and> el_trace w' = el_trace w \<and>
     el_fullScan w' = el_fullScan w \<and> el_required w' = el_required w"

lemma session_grows_refl [simp]: "session_grows w w"
  by (simp add: session_grows_def)

lemma session_grows_trans [trans]: "session_grows w1 w2 \<Longrightarrow> session_grows w2 w3 \<Longrightarrow> session_grows w1 w3"
  by (auto simp: session_grows_def)

lemma env_only_grows: "env_only w w' \<Longrightarrow> session_grows w w'"
  by (simp add: session_grows_def env_only_fields)

text \<open>A captured entry has a receipt of version 1 for its path, or had one before, and its path is held.\<close>

definition captured :: "meta_entry \<Rightarrow> string \<Rightarrow> 'x early_world \<Rightarrow> bool" where
  "captured doc path w \<longleftrightarrow> jm_get (el_receipts w) (receipt_key (me_id doc)) \<noteq> None \<and>
     me_id doc \<in> set (el_pending w) \<and> path \<in> set (el_paths w)"

lemma captured_grows: "captured doc p w \<Longrightarrow> session_grows w w' \<Longrightarrow> captured doc p w'"
  by (auto simp: captured_def session_grows_def)

definition captures :: "'x early_host \<Rightarrow> meta_entry \<Rightarrow> 'x early_world \<Rightarrow> scan_error + 'b \<Rightarrow> 'x early_world \<Rightarrow> bool" where
  "captures h doc w r w' \<longleftrightarrow> session_grows w w' \<and> (\<not> isl r \<longrightarrow> (\<forall>p. selects h doc p \<longrightarrow> captured doc p w'))"

lemma captureUnderLock_wp:
  assumes "env_only w w1" and "selects h doc path"
  shows "wp (captureUnderLock h doc) (captures h doc w) w1"
proof -
  have p: "entry_getPath doc = Inr path" using assms(2) by (rule selects_path)
  have one: "q = path" if "selects h doc q" for q using selects_path [OF that] p by simp
  have failed: "captures h doc w (Inl e) (w1\<lparr>el_env := x\<rparr>)" for e x
    using assms(1) by (simp add: captures_def env_only_grows)
  have kept: "captures h doc w (Inr ()) (hold_path (me_id doc) path (w1\<lparr>el_env := x\<rparr>))"
    if "jm_get (el_receipts w1) (receipt_key (me_id doc)) \<noteq> None" for x
    using that assms(1) by (auto simp: captures_def session_grows_def captured_def hold_path_def env_only_fields dest: one)
  have made: "captures h doc w (Inr ()) (hold_path (me_id doc) path
      (w1\<lparr>el_receipts := jm_set (receipt_key (me_id doc)) r (el_receipts w1), el_env := x\<rparr>))"
    if "jm_get (el_receipts w1) (receipt_key (me_id doc)) = None" for x r
    using that assms(1) by (auto simp: captures_def session_grows_def captured_def hold_path_def env_only_fields dest: one)
  show ?thesis
    using made by (auto simp: captureUnderLock_def p failed kept split: prod.split sum.split)
qed

lemma capturePath_wp: "wp (capturePath h doc) (captures h doc w) w"
proof -
  have failed: "captures h doc w (Inl e) w2" if "env_only w w2" for e w2
    using that by (simp add: captures_def env_only_grows)
  have skipped: "captures h doc w (Inr ()) w2" if "env_only w w2" "\<nexists>p. selects h doc p" for w2
    using that by (auto simp: captures_def env_only_grows)
  show ?thesis
    unfolding capturePath_def wp_ifRunning wp_after
    by (auto simp: failed skipped intro: captureUnderLock_wp intro!: wp_mono [OF selected_wp] split: sum.split)
qed

lemma early_capture_wp:
  "wp (early_capture h docs) (\<lambda>r w'. session_grows w w' \<and>
     (\<not> isl r \<and> el_active w \<longrightarrow> (\<forall>doc\<in>set docs. \<forall>p. selects h doc p \<longrightarrow> captured doc p w'))) w"
proof -
  have "wp (forEach (capturePath h) docs) (\<lambda>r w'. session_grows w w' \<and>
     (\<not> isl r \<longrightarrow> (\<forall>doc\<in>set docs. \<forall>p. selects h doc p \<longrightarrow> captured doc p w'))) w"
  proof (rule wp_forEach_results [where J = "\<lambda>d rs w'. session_grows w w' \<and>
      (\<forall>doc\<in>set d. \<forall>p. selects h doc p \<longrightarrow> captured doc p w')"], goal_cases)
    case (1 d doc rest rs w1)
    have "captures h doc w1 r w2 \<Longrightarrow> session_grows w w2" for r :: "scan_error + unit" and w2
      using 1 by (auto simp: captures_def intro: session_grows_trans)
    then show ?case
      using 1 by (auto intro!: wp_mono [OF capturePath_wp] split: sum.split)
        (auto simp: captures_def, (blast intro: captured_grows)+)
  qed auto
  then show ?thesis
    by (auto simp: early_capture_def elim!: wp_mono split: sum.splits)
qed

section \<open>The scan of a path\<close>

text \<open>
  What a scan has done: the actions begin with the preparation, a reflection follows it; a receipt is given up only
  by a scan that completed, and a completed scan reflected an entry without conflicts or found that there is none.
\<close>

definition scanned_safely :: "'x early_host \<Rightarrow> string \<Rightarrow> 'x early_world \<Rightarrow> scan_error + pair_result \<Rightarrow> 'x early_world \<Rightarrow> bool" where
  "scanned_safely h path w r w' \<longleftrightarrow>
     (\<exists>acts. el_trace w' = el_trace w @ acts \<and>
        (acts = [] \<or> acts = [PreparedPath path] \<or> (\<exists>i. acts = [PreparedPath path, ReflectedEntry i])) \<and>
        (r = Inr COMPLETED \<longrightarrow> acts \<noteq> []) \<and>
        (r = Inr SKIPPED \<longrightarrow> acts = [PreparedPath path])) \<and>
     (\<forall>k. jm_get (el_receipts w) k \<noteq> None \<and> jm_get (el_receipts w') k = None \<longrightarrow> r = Inr COMPLETED)"

lemma scan_quiet: "scanned_safely h path w r w2"
  if "el_trace w2 = el_trace w" "el_receipts w2 = el_receipts w" "r \<noteq> Inr COMPLETED" "r \<noteq> Inr SKIPPED"
  using that by (auto simp: scanned_safely_def)

lemma scan_prepared: "scanned_safely h path w r w2"
  if "el_trace w2 = el_trace w @ [PreparedPath path]" "r = Inr COMPLETED \<or> (\<forall>k. jm_get (el_receipts w) k \<noteq> None \<longrightarrow> jm_get (el_receipts w2) k \<noteq> None)"
  using that by (auto simp: scanned_safely_def)

lemma scan_reflected: "scanned_safely h path w r w2"
  if "el_trace w2 = el_trace w @ [PreparedPath path, ReflectedEntry i]" "r \<noteq> Inr SKIPPED"
    "r = Inr COMPLETED \<or> el_receipts w2 = el_receipts w"
  using that by (auto simp: scanned_safely_def)

lemma scanCurrent_wp:
  assumes "el_trace w1 = el_trace w @ [PreparedPath path]" and "el_receipts w1 = el_receipts w"
  shows "wp (scanCurrent h path i latest) (scanned_safely h path w) w1"
proof (cases latest)
  case None
  then show ?thesis using assms by (auto simp: scanCurrent_def release_path_def intro: scan_prepared)
next
  case (Some d)
  show ?thesis
  proof (cases "me_conflicts d = []")
    case True
    then show ?thesis using assms Some
      by (auto simp: scanCurrent_def release_path_def intro!: scan_reflected split: prod.split sum.split)
  next
    case False
    then show ?thesis using assms Some
      by (auto simp: scanCurrent_def intro!: scan_prepared split: prod.split sum.split)
  qed
qed

lemma scanPrepared_wp:
  assumes "el_trace w1 = el_trace w @ [PreparedPath path]" and "el_receipts w1 = el_receipts w"
  shows "wp (scanPrepared h path i) (scanned_safely h path w) w1"
  using assms by (auto simp: scanPrepared_def intro: scanCurrent_wp scan_prepared split: prod.split sum.split)

lemma preparePath_wp:
  "wp (preparePath h path absent full) (\<lambda>r w'. el_receipts w' = el_receipts w \<and>
     el_trace w' = (if r = Inr True then el_trace w @ [PreparedPath path] else el_trace w)) w"
  by (auto simp: preparePath_def note_action_def split: prod.split sum.split)

lemma early_scan_wp: "wp (early_scan h path) (scanned_safely h path w) w"
proof -
  let ?same = "\<lambda>w2 :: 'a early_world. el_trace w2 = el_trace w \<and> el_receipts w2 = el_receipts w"
  have sel: "wp (case d of Some d \<Rightarrow> selected h d | None \<Rightarrow> ret True) (\<lambda>r. ?same) w1" if "?same w1" for d w1
    using that by (cases d) (auto simp: env_only_fields intro!: wp_mono [OF selected_wp])
  have quiet: "scanned_safely h path w r w2" if "?same w2" "r \<noteq> Inr COMPLETED" "r \<noteq> Inr SKIPPED" for r w2
    using that by (simp add: scan_quiet)
  have prep: "wp (after (preparePath h path absent True) (\<lambda>ok. if \<not> ok then
        after (modifyW (\<lambda>w. w\<lparr>el_pending := List.insert i (el_pending w)\<rparr>)) (\<lambda>_. ret FAILED)
      else scanPrepared h path i)) (scanned_safely h path w) w2" if "?same w2" for absent i w2
    unfolding wp_after
    by (rule wp_mono [OF preparePath_wp]) (use that in \<open>auto simp: quiet intro: scanPrepared_wp split: sum.split\<close>)
  show ?thesis
    unfolding early_scan_def Let_def wp_after [of "pause_host h"] wp_pause sum.case wp_ifRunning wp_after [of _ "\<lambda>_. after (readMetadata _ _) _"]
      wp_after [of "readMetadata _ _"] wp_readMetadata wp_modifyW wp_after [of "case_option _ _ _"]
    by (auto simp: quiet hold_path_def wp_getW wp_after [of "getW _"] simp del: wp_after wp_option
        intro!: wp_mono [OF sel] prep split: prod.split sum.split)
qed

section \<open>The session as a transition system\<close>

text \<open>The calls of a session, with what they returned; between them the environment moves freely.\<close>

datatype early_op =
    Begun "scan_error + bool"
  | Stopped
  | Captured "meta_entry list" "scan_error + unit"
  | Applied meta_entry "scan_error + bool"
  | Scanned string "scan_error + pair_result"
  | ScanCompleted bool "scan_error + bool"
  | HostMoved

inductive early_step :: "'x early_host \<Rightarrow> 'x early_world \<Rightarrow> early_op \<Rightarrow> 'x early_world \<Rightarrow> bool" for h where
  step_begin: "early_begin h w = (r, w') \<Longrightarrow> early_step h w (Begun r) w'"
| step_stop: "early_step h w Stopped (early_stop w)"
| step_capture: "early_capture h docs w = (r, w') \<Longrightarrow> early_step h w (Captured docs r) w'"
| step_apply: "early_apply h doc m w = (r, w') \<Longrightarrow> early_step h w (Applied doc r) w'"
| step_scan: "early_scan h path w = (r, w') \<Longrightarrow> early_step h w (Scanned path r) w'"
| step_complete: "early_complete h b w = (r, w') \<Longrightarrow> early_step h w (ScanCompleted b r) w'"
| step_host: "early_step h w HostMoved (w\<lparr>el_env := x\<rparr>)"

text \<open>
  While a document is pending, a path of it is held for preparation; an active session holds every path, runs, and has
  a full scan outstanding.
\<close>

definition session_ok :: "'x early_host \<Rightarrow> 'x early_world \<Rightarrow> bool" where
  "session_ok h w \<longleftrightarrow>
     (\<forall>i\<in>set (el_pending w). \<exists>p\<in>set (el_paths w). path2id (eh_sha h) (eh_paths h) p [] = i) \<and>
     (el_active w \<longrightarrow> el_required w \<and> el_fullScan w = Some False \<and> \<not> el_stopped w)"

lemma session_ok_env [simp]:
  "session_ok h (w\<lparr>el_env := x\<rparr>) = session_ok h w"
  "session_ok h (w\<lparr>el_env := x, el_trace := t\<rparr>) = session_ok h w"
  "session_ok h (w\<lparr>el_receipts := m, el_env := x\<rparr>) = session_ok h w"
  "session_ok h (w\<lparr>el_env := x, el_receipts := m\<rparr>) = session_ok h w"
  "session_ok h (w\<lparr>el_trace := t\<rparr>) = session_ok h w"
  "session_ok h (w\<lparr>el_receipts := m\<rparr>) = session_ok h w"
  by (simp_all add: session_ok_def)

lemma hold_ok [simp]:
  "session_ok h w \<Longrightarrow> path2id (eh_sha h) (eh_paths h) p [] = i \<Longrightarrow> session_ok h (hold_path i p w)"
  by (auto simp: session_ok_def hold_path_def)

lemma release_ok [simp]:
  "session_ok h w \<Longrightarrow> path2id (eh_sha h) (eh_paths h) p [] = i \<Longrightarrow> session_ok h (release_path i p w)"
  by (auto simp: session_ok_def release_path_def)

lemma env_only_ok: "env_only w w' \<Longrightarrow> session_ok h w' = session_ok h w"
  by (simp add: session_ok_def env_only_fields)

lemma selects_id: "selects h doc p \<Longrightarrow> path2id (eh_sha h) (eh_paths h) p [] = me_id doc"
  by (simp add: selects_def)

lemma capturePath_ok: "session_ok h w \<Longrightarrow> wp (capturePath h doc) (\<lambda>r. session_ok h) w"
  unfolding capturePath_def captureUnderLock_def wp_ifRunning wp_after
  by (auto simp: env_only_ok selects_path selects_id intro!: wp_mono [OF selected_wp] split: sum.split prod.split)

lemma early_apply_ok: "session_ok h w \<Longrightarrow> wp (early_apply h doc m) (\<lambda>r. session_ok h) w"
  unfolding early_apply_def applyUnderLock_def wp_ifRunning wp_after
  by (auto simp: env_only_ok selects_path selects_id preparePath_def note_action_def applyPrepared_def
      intro!: wp_mono [OF selected_wp] split: sum.split prod.split)

lemma scanCurrent_ok:
  assumes "session_ok h w" and "path2id (eh_sha h) (eh_paths h) path [] = i"
  shows "wp (scanCurrent h path i latest) (\<lambda>r. session_ok h) w"
  using assms by (auto simp: scanCurrent_def split: sum.split prod.split option.split)

lemma pending_again_ok [simp]:
  "session_ok h w \<Longrightarrow> path \<in> set (el_paths w) \<Longrightarrow> path2id (eh_sha h) (eh_paths h) path [] = i \<Longrightarrow>
     session_ok h (w\<lparr>el_pending := List.insert i (el_pending w)\<rparr>)"
  by (auto simp: session_ok_def)

lemma early_scan_ok:
  assumes ok: "session_ok h w"
  shows "wp (early_scan h path) (\<lambda>r. session_ok h) w"
proof -
  define i where "i = path2id (eh_sha h) (eh_paths h) path []"
  let ?in = "\<lambda>w2. session_ok h w2 \<and> path \<in> set (el_paths w2)"
  have sel: "wp (case d of Some d \<Rightarrow> selected h d | None \<Rightarrow> ret True) (\<lambda>r. ?in) w1" if "?in w1" for d w1
    using that by (cases d) (auto simp: env_only_ok env_only_fields intro!: wp_mono [OF selected_wp])
  have prepare: "wp (preparePath h path absent full) (\<lambda>r. ?in) w1" if "?in w1" for absent full w1
    using that by (auto simp: preparePath_def note_action_def split: prod.split sum.split)
  have scan: "wp (scanPrepared h path i) (\<lambda>r. session_ok h) w1" if "?in w1" for w1
    using that by (auto simp: scanPrepared_def i_def intro: scanCurrent_ok split: prod.split sum.split)
  have prep: "wp (after (preparePath h path absent True) (\<lambda>ok. if \<not> ok then
        after (modifyW (\<lambda>w. w\<lparr>el_pending := List.insert i (el_pending w)\<rparr>)) (\<lambda>_. ret FAILED)
      else scanPrepared h path i)) (\<lambda>r. session_ok h) w2" if "?in w2" for absent w2
    unfolding wp_after
    by (rule wp_mono [OF prepare [OF that]]) (auto simp: i_def [symmetric] intro!: scan split: sum.split)
  have held: "?in (hold_path i path (w\<lparr>el_env := y\<rparr>)\<lparr>el_env := x\<rparr>)" for x y
    using ok by (simp add: i_def) (simp add: hold_path_def)
  show ?thesis
    unfolding early_scan_def Let_def i_def [symmetric] wp_after [of "pause_host h"] wp_pause sum.case wp_ifRunning wp_after [of _ "\<lambda>_. after (readMetadata _ _) _"]
      wp_after [of "readMetadata _ _"] wp_readMetadata wp_modifyW wp_after [of "case_option _ _ _"]
    using ok held by (auto simp: wp_getW wp_after [of "getW _"] i_def [symmetric] simp del: wp_after wp_option
        intro!: wp_mono [OF sel] prep split: prod.split sum.split)
qed

lemma early_step_ok: "early_step h w op w' \<Longrightarrow> session_ok h w \<Longrightarrow> session_ok h w'"
proof (induction rule: early_step.induct)
  case (step_begin w r w')
  have "wp (early_begin h) (\<lambda>r. session_ok h) w"
    using step_begin.prems by (auto simp: early_begin_def session_ok_def canRun_def)
  then show ?case using step_begin.hyps by (rule wpD)
next
  case (step_capture docs w r w')
  have "wp (forEach (capturePath h) docs) (\<lambda>r. session_ok h) w"
    by (rule wp_forEach) (auto intro: capturePath_ok step_capture.prems)
  then have "wp (early_capture h docs) (\<lambda>r. session_ok h) w"
    using step_capture.prems by (auto simp: early_capture_def elim!: wp_mono split: sum.splits)
  then show ?case using step_capture.hyps by (rule wpD)
next
  case (step_complete b w r w')
  have "wp (early_complete h b) (\<lambda>r. session_ok h) w"
    using step_complete.prems by (auto simp: early_complete_def session_ok_def)
  then show ?case using step_complete.hyps by (rule wpD)
next
  case (step_apply doc m w r w')
  from wpD [OF early_apply_ok [OF step_apply.prems] step_apply.hyps] show ?case .
next
  case (step_scan path w r w')
  from wpD [OF early_scan_ok [OF step_scan.prems] step_scan.hyps] show ?case .
qed (simp_all add: early_stop_def session_ok_def)

text \<open>A new session, whatever earlier sessions left in the key-value store and in the file handler.\<close>

definition new_session :: "'x early_world \<Rightarrow> bool" where
  "new_session w \<longleftrightarrow> \<not> el_active w \<and> \<not> el_stopped w \<and> el_pending w = []"

interpretation session: transition_invariant "\<lambda>w w'. \<exists>op. early_step h w op w'" new_session "session_ok h"
  for h
  by unfold_locales (auto simp: new_session_def session_ok_def dest: early_step_ok)

section \<open>Properties\<close>

text \<open>C21. A received entry of a covered path is written while the session is active only right after the state of its
  path was prepared, under the lock of its document; and its receipt is given up only when the entry was written.\<close>

theorem received_entry_prepared_first:
  assumes "early_apply h doc writeEntry w = (r, w')" and "selects h doc path"
    and "el_active w \<or> me_id doc \<in> set (el_pending w)"
  shows "(el_trace w' = el_trace w \<or> el_trace w' = el_trace w @ [PreparedPath path] \<or>
       el_trace w' = el_trace w @ [PreparedPath path, AppliedEntry (me_id doc)]) \<and>
     (r = Inr True \<longrightarrow> el_trace w' = el_trace w @ [PreparedPath path, AppliedEntry (me_id doc)])"
  using early_apply_wp [THEN wpD, OF assms(1)] assms(2,3) selects_path [OF assms(2)]
  by (auto simp: applied_safely_def dest: selects_path)


text \<open>A capture that returns while the session is active has given every covered entry of the batch a receipt and
  holds its path, and has changed no receipt that was there: an interrupted reception keeps its first baseline.\<close>

theorem capture_prepares_batch:
  assumes "early_capture h docs w = (Inr (), w')" and "el_active w"
  shows "(\<forall>doc\<in>set docs. \<forall>p. selects h doc p \<longrightarrow> captured doc p w') \<and>
     (\<forall>k r. jm_get (el_receipts w) k = Some r \<longrightarrow> jm_get (el_receipts w') k = Some r)"
  using early_capture_wp [THEN wpD, OF assms(1)] assms(2) by (auto simp: session_grows_def)

text \<open>In every reachable session each pending document has a path that is held for preparation, and an active session
  requires preparation everywhere, is not stopped and has its full scan outstanding.\<close>

theorem pending_documents_held:
  assumes "new_session w" and "(\<lambda>w w'. \<exists>op. early_step h w op w')\<^sup>*\<^sup>* w w'"
  shows "(\<forall>i\<in>set (el_pending w'). \<exists>p\<in>set (el_paths w'). path2id (eh_sha h) (eh_paths h) p [] = i) \<and>
     (el_active w' \<longrightarrow> el_required w' \<and> el_fullScan w' = Some False \<and> \<not> el_stopped w')"
  using session.reachable_inv [OF assms] by (simp add: session_ok_def)

section \<open>A session at work\<close>

definition sample_early :: "unit early_host" where
  "sample_early = \<lparr>eh_sha = (\<lambda>s. s), eh_paths = plain_settings, eh_isMinio = True, eh_isDatabaseReady = True,
     eh_isValidPath = (\<lambda>p. True), eh_isTargetFile = (\<lambda>p. True), eh_wasSeen = (\<lambda>p x. False), eh_halted = (\<lambda>x. False),
     eh_awaited = (\<lambda>x. x), eh_readMetadata = (\<lambda>i. ret (Some \<lparr>mr_error = Some ''not_found'', mr_doc = None\<rparr>)),
     eh_canPrepare = (\<lambda>p a. yes), eh_prepare = (\<lambda>p a f. yes), eh_isAbsent = (\<lambda>p. yes), eh_dbToStorage = (\<lambda>d p. yes)\<rparr>"

definition fresh_world :: "unit early_world" where
  "fresh_world = \<lparr>el_active = False, el_stopped = False, el_pending = [], el_required = False, el_paths = [],
     el_receipts = [], el_fullScan = None, el_trace = [], el_env = ()\<rparr>"

definition begun_world :: "unit early_world" where
  "begun_world = fresh_world\<lparr>el_active := True, el_required := True, el_fullScan := Some False\<rparr>"

definition captured_world :: "unit early_world" where
  "captured_world = hold_path ''b.md'' ''b.md''
     (begun_world\<lparr>el_receipts := [(receipt_key ''b.md'', \<lparr>pr_version = 1, pr_path = ''b.md'', pr_prepared = True, pr_absent = True\<rparr>)]\<rparr>)"

definition received :: meta_entry where
  "received = sample_entry ''b.md'' ''b.md'' 4000 2"

lemma received_path:
  "entry_getPath received = Inr ''b.md''" "me_id received = ''b.md''"
  "path2id (\<lambda>s. s) plain_settings ''b.md'' [] = ''b.md''" "shouldBeIgnored ''b.md'' = False"
  by code_simp+

lemma received_selected: "selects sample_early received ''b.md''"
  by (simp add: selects_def received_path) (simp add: sample_early_def received_path)

lemmas sample_session = sample_early_def fresh_world_def begun_world_def captured_world_def hold_path_def release_path_def
  canRun_def yes_def ret_def received_path

lemma sample_begins: "early_begin sample_early fresh_world = (Inr True, begun_world)"
proof -
  have "wp (early_begin sample_early) (\<lambda>r w. r = Inr True \<and> w = begun_world) fresh_world"
    by (simp add: early_begin_def sample_session)
  then show ?thesis by (simp add: wp_def split: prod.splits)
qed

lemma sample_captures: "early_capture sample_early [received] begun_world = (Inr (), captured_world)"
proof -
  have "wp (early_capture sample_early [received]) (\<lambda>r w. r = Inr () \<and> w = captured_world) begun_world"
    by (simp add: early_capture_def capturePath_def captureUnderLock_def selected_def row_absent_def sample_session)
  then show ?thesis by (simp add: wp_def split: prod.splits)
qed

lemma sample_applies:
  "early_apply sample_early received yes captured_world =
     (Inr True, begun_world\<lparr>el_trace := [PreparedPath ''b.md'', AppliedEntry ''b.md'']\<rparr>)"
proof -
  have "wp (early_apply sample_early received yes) (\<lambda>r w. r = Inr True \<and>
      w = begun_world\<lparr>el_trace := [PreparedPath ''b.md'', AppliedEntry ''b.md'']\<rparr>) captured_world"
    by (simp add: early_apply_def applyUnderLock_def applyPrepared_def selected_def preparePath_def note_action_def sample_session)
  then show ?thesis by (simp add: wp_def split: prod.splits)
qed

theorem received_entry_prepared_first_witness:
  "el_trace (snd (early_apply sample_early received yes captured_world)) = [PreparedPath ''b.md'', AppliedEntry ''b.md'']"
proof -
  have a: "el_active captured_world \<or> me_id received \<in> set (el_pending captured_world)" and t: "el_trace captured_world = []"
    by (simp_all add: sample_session)
  from received_entry_prepared_first [OF sample_applies received_selected a] show ?thesis
    by (simp add: sample_applies t received_path)
qed


theorem capture_prepares_batch_witness: "captured received ''b.md'' captured_world"
proof -
  have "el_active begun_world" by (simp add: sample_session)
  from capture_prepares_batch [OF sample_captures this] received_selected show ?thesis by simp
qed

theorem pending_documents_held_witness:
  "el_pending captured_world = [''b.md''] \<and>
   (\<exists>p\<in>set (el_paths captured_world). path2id (\<lambda>s. s) plain_settings p [] = ''b.md'')"
proof -
  have n: "new_session fresh_world" by (simp add: new_session_def sample_session)
  have "(\<lambda>w w'. \<exists>op. early_step sample_early w op w')\<^sup>*\<^sup>* fresh_world captured_world"
    using step_begin [OF sample_begins] step_capture [OF sample_captures]
    by (blast intro: rtranclp.rtrancl_into_rtrancl rtranclp.rtrancl_refl)
  from pending_documents_held [OF n this] show ?thesis
    by (simp add: captured_world_def hold_path_def begun_world_def fresh_world_def sample_early_def)
qed

end
