(* ===== verification/FilePublication.thy ===== *)
theory FilePublication
  imports OfflineScanner
begin

text \<open>
  \<open>src/serviceModules/FilePublicationCoordinator.ts\<close>: the record of the revision that a file shows, and the mark of
  a publication that has begun and not ended. An edit of a record is one step, since the lock of the path keeps
  other edits out; before each access to the store other operations may have changed it (\<open>ph_others\<close>), and each
  access may fail. A ghost trace holds the edits and the states of files that were looked at. The worlds are
  extensible, so that the file handler can add its own variables.
\<close>

section \<open>Records\<close>

record provenance =
  pv_revision :: string
  pv_mtime :: "int option"
  pv_reflected :: bool
  pv_pending :: "(string \<times> string) option"
  pv_incomplete :: "string option"

text \<open>The revision and the token of a pending publication are a pair.\<close>

type_synonym pending = "string \<times> string"

record file_stat =
  st_size :: nat
  st_mtime :: int
  st_isFile :: bool

text \<open>A file as the storage lists it, and what \<open>readStubContent\<close> adds; a body is the bytes of a text or of a binary blob.\<close>

datatype body = TextBody string | BinaryBody string

record file_stub =
  fs_path :: string
  fs_stat :: file_stat
  fs_internal :: bool
  fs_body :: "body option"

text \<open>
  What is recorded of the calls: the edits of the store with the records before and after, the answers on which
  decisions rest, and the changes of the storage and of the database. \<open>Listed\<close> holds the path of the item that was
  found, \<open>RevisionRead\<close> and \<open>EntryContent\<close> the content that was loaded of a revision and of an entry.
\<close>

datatype file_action =
  Edited string "provenance option" "provenance option"
| StatSeen string "file_stat option"
| Listed string "string option"
| ReflectedEmpty string
| ConfirmedEmpty string
| BodyRead string body
| MetaSeen string "string option" "meta_entry option"
| RevisionRead string "string option" body
| EntryContent meta_entry body
| InHistory string string string
| ContentInHistory string body string
| ConflictsSeen string "string list"
| StoredOn string "string option" body string
| StoredBeside string body string string
| StoredDeletion string string
| RemovedEntry string "string option"
| MadeChunks string
| WroteFile string body meta_entry
| PublishedFile string meta_entry
| DeletedFile string
| MovedFile string string
| CheckQueued string

record 'x pub_world =
  pw_store :: "(string, provenance) jsmap"
  pw_trace :: "file_action list"
  pw_env :: 'x

record 'x pub_host =
  ph_normalise :: "string \<Rightarrow> string"
  ph_fails :: "'x \<Rightarrow> bool"
  ph_others :: "'x \<Rightarrow> (string, provenance) jsmap \<Rightarrow> (string, provenance) jsmap"
  ph_uuid :: "'x \<Rightarrow> string"
  ph_moved :: "'x \<Rightarrow> 'x"
  ph_statHidden :: "string \<Rightarrow> ('x, scan_error, file_stat option) call"

type_synonym ('x, 'z, 'a) pub_call = "(('x, 'z) pub_world_scheme, scan_error, 'a) call"

section \<open>Access to the store\<close>

definition noted :: "file_action list \<Rightarrow> ('x, 'z) pub_world_scheme \<Rightarrow> ('x, 'z) pub_world_scheme" where
  "noted acts w = w\<lparr>pw_trace := pw_trace w @ acts\<rparr>"

text \<open>A call of the host whose answer is noted; a call that throws notes nothing.\<close>

definition asks :: "('x, scan_error, 'a) call \<Rightarrow> ('a \<Rightarrow> file_action list) \<Rightarrow> ('x, 'z, 'a) pub_call" where
  "asks m f = after (ask pw_env (\<lambda>x w. w\<lparr>pw_env := x\<rparr>) m) (\<lambda>a. after (modifyW (noted (f a))) (\<lambda>_. ret a))"

text \<open>Before the access others may act; during it the environment moves, and it may fail.\<close>

definition access :: "'x pub_host \<Rightarrow> ('x, 'z, unit) pub_call" where
  "access h =
     after (modifyW (\<lambda>w. w\<lparr>pw_env := ph_moved h (pw_env w)\<rparr>)) (\<lambda>_.
     after (getW (\<lambda>w. ph_fails h (pw_env w))) (\<lambda>fails. if fails then throw (error_text ''store'') else ret ()))"

definition others_act :: "'x pub_host \<Rightarrow> ('x, 'z, unit) pub_call" where
  "others_act h = modifyW (\<lambda>w. w\<lparr>pw_store := ph_others h (pw_env w) (pw_store w)\<rparr>)"

definition store_get :: "'x pub_host \<Rightarrow> string \<Rightarrow> ('x, 'z, provenance option) pub_call" where
  "store_get h path = after (access h) (\<lambda>_. getW (\<lambda>w. jm_get (pw_store w) path))"

definition put_record :: "string \<Rightarrow> provenance option \<Rightarrow> (string, provenance) jsmap \<Rightarrow> (string, provenance) jsmap" where
  "put_record path r s = (case r of Some r' \<Rightarrow> jm_set path r' s | None \<Rightarrow> jm_delete path s)"

definition store_put :: "'x pub_host \<Rightarrow> string \<Rightarrow> provenance option \<Rightarrow> ('x, 'z, unit) pub_call" where
  "store_put h path r =
     after (access h) (\<lambda>_. modifyW (\<lambda>w.
       w\<lparr>pw_store := put_record path r (pw_store w), pw_trace := pw_trace w @ [Edited path (jm_get (pw_store w) path) r]\<rparr>))"

text \<open>Any failure of the store is turned into \<open>UnknownFileWriteStateError\<close>.\<close>

definition closed :: "('x, 'z, 'a) pub_call \<Rightarrow> ('x, 'z, 'a) pub_call" where
  "closed m = catching m (\<lambda>_. throw UnknownFileWriteState)"

definition get_locked :: "'x pub_host \<Rightarrow> string \<Rightarrow> ('x, 'z, provenance option) pub_call" where
  "get_locked h path =
     closed (after (store_get h path) (\<lambda>record.
       if (case record of Some r \<Rightarrow> pv_incomplete r \<noteq> None \<and> pv_incomplete r \<noteq> Some [] | None \<Rightarrow> False)
       then throw UnknownFileWriteState else ret record))"

definition pub_get :: "'x pub_host \<Rightarrow> string \<Rightarrow> ('x, 'z, provenance option) pub_call" where
  "pub_get h path = after (others_act h) (\<lambda>_. get_locked h path)"

type_synonym transform = "provenance option \<Rightarrow> scan_error + provenance option"

definition edit :: "'x pub_host \<Rightarrow> string \<Rightarrow> transform \<Rightarrow> ('x, 'z, unit) pub_call" where
  "edit h path transform =
     after (others_act h) (\<lambda>_.
     closed (after (get_locked h path) (\<lambda>record.
       case transform record of Inl e \<Rightarrow> throw e | Inr next \<Rightarrow> store_put h path next)))"

section \<open>The operations\<close>

definition reflected_record :: "string \<Rightarrow> int option \<Rightarrow> bool \<Rightarrow> string option \<Rightarrow> transform" where
  "reflected_record revision mtime reflected token current =
     Inr (Some \<lparr>pv_revision = revision, pv_mtime = mtime, pv_reflected = reflected,
       pv_pending = (case Option.bind current pv_pending of
          Some p \<Rightarrow> if Some (snd p) \<noteq> token then Some p else None | None \<Rightarrow> None),
       pv_incomplete = None\<rparr>)"

definition reflect :: "'x pub_host \<Rightarrow> string \<Rightarrow> string \<Rightarrow> int option \<Rightarrow> bool \<Rightarrow> string option \<Rightarrow> ('x, 'z, unit) pub_call" where
  "reflect h path revision mtime reflected token = edit h path (reflected_record revision mtime reflected token)"

definition unless_pending :: "provenance option \<Rightarrow> transform" where
  "unless_pending next current =
     (if Option.bind current pv_pending \<noteq> None then Inl UnknownFileWriteState else Inr next)"

definition pub_delete :: "'x pub_host \<Rightarrow> string \<Rightarrow> ('x, 'z, unit) pub_call" where
  "pub_delete h path = edit h path (unless_pending None)"

definition begun_record :: "string \<Rightarrow> string \<Rightarrow> transform" where
  "begun_record revision token current =
     Inr (Some (case current of
        Some r \<Rightarrow> r\<lparr>pv_pending := Some (revision, token)\<rparr>
      | None \<Rightarrow> \<lparr>pv_revision = revision, pv_mtime = None, pv_reflected = False, pv_pending = Some (revision, token), pv_incomplete = None\<rparr>))"

definition begin_publication :: "'x pub_host \<Rightarrow> string \<Rightarrow> string \<Rightarrow> ('x, 'z, string) pub_call" where
  "begin_publication h path revision =
     after (getW (\<lambda>w. ph_uuid h (pw_env w))) (\<lambda>token. after (edit h path (begun_record revision token)) (\<lambda>_. ret token))"

definition same_token :: "provenance \<Rightarrow> transform" where
  "same_token seen current =
     (if map_option snd (Option.bind current pv_pending) \<noteq> map_option snd (pv_pending seen) then Inl UnknownFileWriteState else Inr None)"

definition missingPublication :: "'x pub_host \<Rightarrow> string \<Rightarrow> ('x, 'z, string option) pub_call" where
  "missingPublication h path =
     after (asks (ph_statHidden h path) (\<lambda>stat. [StatSeen path stat])) (\<lambda>stat.
     after (pub_get h path) (\<lambda>record.
     case stat of
       None \<Rightarrow> ret (map_option fst (Option.bind record pv_pending))
     | Some _ \<Rightarrow>
         (case record of
            Some r \<Rightarrow> if pv_pending r \<noteq> None then after (edit h path (same_token r)) (\<lambda>_. ret None) else ret None
          | None \<Rightarrow> ret None)))"

definition discardForDatabaseDeletion :: "'x pub_host \<Rightarrow> string \<Rightarrow> ('x, 'z, unit) pub_call" where
  "discardForDatabaseDeletion h path = edit h path (\<lambda>_. Inr None)"

text \<open>The locks of the two paths are taken in the order of their keys before the body below.\<close>

definition pub_move :: "'x pub_host \<Rightarrow> string \<Rightarrow> string \<Rightarrow> ('x, 'z, unit) pub_call" where
  "pub_move h from' to =
     (if from' = to then ret ()
      else
        after (pub_get h from') (\<lambda>record.
        case record of
          None \<Rightarrow> ret ()
        | Some r \<Rightarrow>
            after (if pv_pending r \<noteq> None
                   then after (asks (ph_statHidden h to) (\<lambda>stat. [StatSeen to stat])) (\<lambda>stat.
                          if stat = None then throw UnknownFileWriteState else ret ())
                   else ret ()) (\<lambda>_.
            after (edit h to (unless_pending (Some r))) (\<lambda>_.
            edit h from' (same_token r)))))"

section \<open>Weakest preconditions\<close>

lemma wp_asks [simp, wp_simps]:
  "wp (asks m f) Q w = (case m (pw_env w) of
     (Inl e, x) \<Rightarrow> Q (Inl e) (w\<lparr>pw_env := x\<rparr>) | (Inr a, x) \<Rightarrow> Q (Inr a) (w\<lparr>pw_env := x, pw_trace := pw_trace w @ f a\<rparr>))"
proof -
  have "wp (ask pw_env (\<lambda>x w. w\<lparr>pw_env := x\<rparr>) m) R w = (case m (pw_env w) of (r, x) \<Rightarrow> R r (w\<lparr>pw_env := x\<rparr>))" for R
    by (simp add: wp_def ask_def split: prod.split)
  then show ?thesis by (simp add: asks_def noted_def split: prod.split sum.split)
qed

text \<open>Nothing but the environment and the store has changed.\<close>

definition quiet :: "('x, 'z) pub_world_scheme \<Rightarrow> ('x, 'z) pub_world_scheme \<Rightarrow> bool" where
  "quiet w w' \<longleftrightarrow> pw_trace w' = pw_trace w \<and> pub_world.more w' = pub_world.more w"

lemma quiet_refl [simp]: "quiet w w"
  by (simp add: quiet_def)

lemma wp_access:
  assumes "\<And>x. Q (Inr ()) (w\<lparr>pw_env := x\<rparr>)" and "\<And>e x. Q (Inl e) (w\<lparr>pw_env := x\<rparr>)"
  shows "wp (access h) Q w"
  using assms by (simp add: access_def)

lemma wp_get_locked:
  assumes "\<And>x e. Q (Inl e) (w\<lparr>pw_env := x\<rparr>)" and "\<And>x. Q (Inr (jm_get (pw_store w) path)) (w\<lparr>pw_env := x\<rparr>)"
  shows "wp (get_locked h path) Q w"
  using assms by (auto simp: get_locked_def closed_def store_get_def intro!: wp_access)

lemma wp_pub_get:
  assumes "\<And>w1 e. quiet w w1 \<Longrightarrow> Q (Inl e) w1" and "\<And>w1. quiet w w1 \<Longrightarrow> Q (Inr (jm_get (pw_store w1) path)) w1"
  shows "wp (pub_get h path) Q w"
proof -
  let ?w = "w\<lparr>pw_store := ph_others h (pw_env w) (pw_store w)\<rparr>"
  have "quiet w (?w\<lparr>pw_env := x\<rparr>)" for x by (cases w) (simp add: quiet_def)
  with assms(1) assms(2) [of "?w\<lparr>pw_env := _\<rparr>"] have "wp (get_locked h path) Q ?w"
    by (intro wp_get_locked) simp_all
  then show ?thesis by (simp add: pub_get_def others_act_def)
qed

lemma get_put_record: "jm_get (put_record path r s) path = r"
  by (cases r) (simp_all add: put_record_def)

text \<open>An edit either throws and changes nothing, or it is noted with the records before and after.\<close>

lemma wp_edit:
  assumes throws: "\<And>w1. quiet w w1 \<Longrightarrow> Q (Inl UnknownFileWriteState) w1"
    and edits: "\<And>w1 old new. transform old = Inr new \<Longrightarrow> pw_trace w1 = pw_trace w @ [Edited path old new] \<Longrightarrow>
      jm_get (pw_store w1) path = new \<Longrightarrow> pub_world.more w1 = pub_world.more w \<Longrightarrow> Q (Inr ()) w1"
  shows "wp (edit h path transform) Q w"
proof -
  let ?w = "\<lambda>x. w\<lparr>pw_store := ph_others h (pw_env w) (pw_store w), pw_env := x\<rparr>"
  let ?Q = "\<lambda>r w'. case r of Inl e \<Rightarrow> Q (Inl UnknownFileWriteState) w' | Inr u \<Rightarrow> Q (Inr ()) w'"
  have q: "Q (Inl UnknownFileWriteState) (?w x)" for x
    by (rule throws) (cases w, simp add: quiet_def)
  have put: "wp (store_put h path new) ?Q (?w x)" if "transform (jm_get (ph_others h (pw_env w) (pw_store w)) path) = Inr new" for x new
    unfolding store_put_def wp_after
    by (rule wp_access) (use that q edits in \<open>cases w, auto simp: get_put_record\<close>)
  have "wp (get_locked h path) (\<lambda>r w'. case r of Inl e \<Rightarrow> Q (Inl UnknownFileWriteState) w'
      | Inr record \<Rightarrow> wp (case transform record of Inl e \<Rightarrow> throw e | Inr next \<Rightarrow> store_put h path next) ?Q w')
      (w\<lparr>pw_store := ph_others h (pw_env w) (pw_store w)\<rparr>)"
    by (rule wp_get_locked) (use q put in \<open>auto split: sum.split\<close>)
  then show ?thesis
    unfolding edit_def others_act_def closed_def wp_after wp_modifyW wp_catching sum.case
    by (rule wp_mono) (auto split: sum.splits, erule wp_mono, auto)
qed

section \<open>What the operations do to the marks of publications\<close>

datatype pub_op =
    OpGet string
  | OpReflect string string "int option" bool "string option"
  | OpDelete string
  | OpBegin string string
  | OpMissing string
  | OpDiscard string
  | OpMove string string

definition unit_call :: "('w, 'e, 'a) call \<Rightarrow> ('w, 'e, unit) call" where
  "unit_call m = after m (\<lambda>_. ret ())"

fun pub_run :: "'x pub_host \<Rightarrow> pub_op \<Rightarrow> ('x, 'z, unit) pub_call" where
  "pub_run h (OpGet path) = unit_call (pub_get h path)"
| "pub_run h (OpReflect path revision mtime reflected token) = reflect h path revision mtime reflected token"
| "pub_run h (OpDelete path) = pub_delete h path"
| "pub_run h (OpBegin path revision) = unit_call (begin_publication h path revision)"
| "pub_run h (OpMissing path) = unit_call (missingPublication h path)"
| "pub_run h (OpDiscard path) = discardForDatabaseDeletion h path"
| "pub_run h (OpMove from' to) = pub_move h from' to"

text \<open>An edit gives up the mark \<open>p\<close> of a record.\<close>

definition gives_up :: "provenance option \<Rightarrow> provenance option \<Rightarrow> pending \<Rightarrow> bool" where
  "gives_up old new p \<longleftrightarrow> Option.bind old pv_pending = Some p \<and> Option.bind new pv_pending \<noteq> Some p"

text \<open>
  Who may give up the mark \<open>p\<close> of \<open>path\<close>: the end of this very publication, the begin of another one, a deletion that came
  from the database, a check that saw the file, and a move that has put the mark at its new path before.
\<close>

fun may_give_up :: "pub_op \<Rightarrow> file_action list \<Rightarrow> string \<Rightarrow> pending \<Rightarrow> bool" where
  "may_give_up (OpReflect q _ _ _ token) before path p \<longleftrightarrow> q = path \<and> token = Some (snd p)"
| "may_give_up (OpBegin q _) before path p \<longleftrightarrow> q = path"
| "may_give_up (OpDiscard q) before path p \<longleftrightarrow> q = path"
| "may_give_up (OpMissing q) before path p \<longleftrightarrow> q = path \<and> (\<exists>s. StatSeen path (Some s) \<in> set before)"
| "may_give_up (OpMove from' to) before path p \<longleftrightarrow> path = from' \<and>
     (\<exists>s. StatSeen to (Some s) \<in> set before) \<and>
     (\<exists>old r. Edited to old (Some r) \<in> set before \<and> map_option snd (pv_pending r) = Some (snd p))"
| "may_give_up _ _ _ _ \<longleftrightarrow> False"

definition marks_kept :: "pub_op \<Rightarrow> file_action list \<Rightarrow> bool" where
  "marks_kept op acts \<longleftrightarrow>
     (\<forall>before path old new rest p. acts = before @ Edited path old new # rest \<and> gives_up old new p \<longrightarrow>
        may_give_up op before path p)"

lemma marks_kept_Nil [simp]: "marks_kept op []"
  by (simp add: marks_kept_def)

lemma marks_kept_quiet [simp]: "marks_kept op [StatSeen q s]"
  by (simp add: marks_kept_def Cons_eq_append_conv)

lemma marks_kept_snoc:
  assumes "marks_kept op acts" and "\<And>p. gives_up old new p \<Longrightarrow> may_give_up op acts path p"
  shows "marks_kept op (acts @ [Edited path old new])"
  unfolding marks_kept_def
proof (intro allI impI)
  fix before q old' new' rest p
  assume a: "acts @ [Edited path old new] = before @ Edited q old' new' # rest \<and> gives_up old' new' p"
  show "may_give_up op before q p"
  proof (cases rest rule: rev_cases)
    case Nil
    with a assms(2) show ?thesis by simp
  next
    case (snoc ys y)
    then have "acts = before @ Edited q old' new' # ys" using a by simp
    with assms(1) a show ?thesis unfolding marks_kept_def by blast
  qed
qed

lemma reflected_gives_up:
  "reflected_record revision mtime reflected token old = Inr new \<Longrightarrow> gives_up old new p \<Longrightarrow> token = Some (snd p)"
  by (auto simp: reflected_record_def gives_up_def split: option.splits if_splits)

lemma unless_pending_gives_up: "unless_pending n old = Inr new \<Longrightarrow> \<not> gives_up old new p"
  by (cases p) (auto simp: unless_pending_def gives_up_def split: if_splits)

definition op_keeps_marks :: "pub_op \<Rightarrow> ('x, 'z) pub_world_scheme \<Rightarrow> scan_error + unit \<Rightarrow> ('x, 'z) pub_world_scheme \<Rightarrow> bool" where
  "op_keeps_marks op w r w' \<longleftrightarrow> (\<exists>acts. pw_trace w' = pw_trace w @ acts \<and> marks_kept op acts)"

lemma op_keeps_quiet: "pw_trace w' = pw_trace w \<Longrightarrow> op_keeps_marks op w r w'"
  by (simp add: op_keeps_marks_def)

lemma op_keeps_edit:
  assumes "pw_trace w' = pw_trace w @ acts @ [Edited path old new]" and "marks_kept op acts"
    and "\<And>p. gives_up old new p \<Longrightarrow> may_give_up op acts path p"
  shows "op_keeps_marks op w r w'"
  using assms marks_kept_snoc [OF assms(2,3)] unfolding op_keeps_marks_def by blast

lemma op_keeps_seen: "pw_trace w' = pw_trace w @ [StatSeen q s] \<Longrightarrow> op_keeps_marks op w r w'"
  by (auto simp: op_keeps_marks_def)

lemma pub_edit_marks:
  assumes "pw_trace w1 = pw_trace w @ acts" and "marks_kept op acts"
    and "\<And>old new p. transform old = Inr new \<Longrightarrow> gives_up old new p \<Longrightarrow> may_give_up op acts path p"
  shows "wp (edit h path transform) (op_keeps_marks op w) w1"
  using assms by (intro wp_edit) (auto simp: quiet_def op_keeps_marks_def intro: marks_kept_snoc)

lemma missing_marks: "wp (unit_call (missingPublication h path)) (op_keeps_marks (OpMissing path) w) w"
proof -
  have drop: "wp (edit h path (same_token r)) (op_keeps_marks (OpMissing path) w) w1"
    if "pw_trace w1 = pw_trace w @ [StatSeen path (Some s)]" for r w1 s
    using that by (intro pub_edit_marks) auto
  have kept: "op_keeps_marks (OpMissing path) w r w1" if "pw_trace w1 = pw_trace w @ [StatSeen path s]" for r w1 s
    using that by (rule op_keeps_seen)
  show ?thesis
    by (auto simp: unit_call_def missingPublication_def quiet_def op_keeps_quiet kept split: prod.split sum.split option.split
        intro!: wp_pub_get wp_mono [OF drop])
qed

lemma same_token_gives_up:
  "same_token r old = Inr new \<Longrightarrow> gives_up old new p \<Longrightarrow> map_option snd (pv_pending r) = Some (snd p)"
  by (cases "pv_pending r") (auto simp: same_token_def gives_up_def split: if_splits)

lemma move_marks: "wp (pub_move h from' to) (op_keeps_marks (OpMove from' to) w) w"
proof -
  let ?P = "op_keeps_marks (OpMove from' to) w"
  have last: "wp (edit h from' (same_token r)) ?P w1"
    if "pw_trace w1 = pw_trace w @ seen @ [Edited to old (Some r)]" and "marks_kept (OpMove from' to) (seen @ [Edited to old (Some r)])"
      and "pv_pending r \<noteq> None \<Longrightarrow> \<exists>s. StatSeen to (Some s) \<in> set seen" for r w1 old seen
    using that by (intro pub_edit_marks [where acts = "seen @ [Edited to old (Some r)]"])
      (auto dest!: same_token_gives_up intro!: exI [of _ r])
  have first: "wp (after (edit h to (unless_pending (Some r))) (\<lambda>_. edit h from' (same_token r))) ?P w1"
    if "pw_trace w1 = pw_trace w @ seen" and "marks_kept (OpMove from' to) seen"
      and "pv_pending r \<noteq> None \<Longrightarrow> \<exists>s. StatSeen to (Some s) \<in> set seen" for r w1 seen
    unfolding wp_after
  proof (rule wp_edit, goal_cases)
    case (1 w2)
    with that show ?case by (auto simp: quiet_def op_keeps_marks_def)
  next
    case (2 w2 old new)
    then have "new = Some r" by (auto simp: unless_pending_def split: if_splits)
    moreover have "marks_kept (OpMove from' to) (seen @ [Edited to old new])"
      using that(2) by (rule marks_kept_snoc) (use 2(1) unless_pending_gives_up in blast)
    ultimately show ?case using 2 that by (auto intro!: last)
  qed
  have body: "wp (after (if pv_pending r \<noteq> None
                   then after (asks (ph_statHidden h to) (\<lambda>stat. [StatSeen to stat])) (\<lambda>stat.
                          if stat = None then throw UnknownFileWriteState else ret ())
                   else ret ()) (\<lambda>_. after (edit h to (unless_pending (Some r))) (\<lambda>_. edit h from' (same_token r)))) ?P w1"
    if "pw_trace w1 = pw_trace w" for r w1
  proof (cases "pv_pending r")
    case None
    then show ?thesis using first [of w1 "[]" r] that by simp
  next
    case (Some p)
    have "wp (after (edit h to (unless_pending (Some r))) (\<lambda>_. edit h from' (same_token r))) ?P
        (w1\<lparr>pw_env := x, pw_trace := pw_trace w1 @ [StatSeen to (Some s)]\<rparr>)" for x s
      by (rule first [where seen = "[StatSeen to (Some s)]"]) (use that in auto)
    note go = this
    obtain a x where a: "ph_statHidden h to (pw_env w1) = (a, x)" by fastforce
    show ?thesis
    proof (cases a)
      case (Inl e)
      then show ?thesis using a Some that by (simp add: op_keeps_quiet)
    next
      case (Inr s)
      then show ?thesis using a Some that go by (cases s) (simp_all add: op_keeps_seen)
    qed
  qed
  show ?thesis
    unfolding pub_move_def wp_if wp_after [of "pub_get _ _"]
  proof (simp only: split: if_split, intro conjI impI, goal_cases)
    case 1
    then show ?case by (simp add: op_keeps_quiet)
  next
    case 2
    show ?case
    proof (rule wp_pub_get)
      fix w1 assume q: "quiet w w1"
      show "case Inr (jm_get (pw_store w1) from') of Inl e \<Rightarrow> ?P (Inl e) w1 | Inr a \<Rightarrow> wp (case a of None \<Rightarrow> ret ()
          | Some r \<Rightarrow> after (if pv_pending r \<noteq> None
                   then after (asks (ph_statHidden h to) (\<lambda>stat. [StatSeen to stat])) (\<lambda>stat.
                          if stat = None then throw UnknownFileWriteState else ret ())
                   else ret ()) (\<lambda>_. after (edit h to (unless_pending (Some r))) (\<lambda>_. edit h from' (same_token r)))) ?P w1"
        by (cases "jm_get (pw_store w1) from'")
           (use q body [of w1] in \<open>simp_all only: sum.case option.case quiet_def wp_ret op_keeps_quiet\<close>)
    qed (simp add: quiet_def op_keeps_quiet)
  qed
qed

section \<open>Properties\<close>

text \<open>C19. The mark of a publication that has begun is never lost by accident: whatever others do to the store between two
  accesses, and whichever accesses fail, an operation gives up the mark of a record only when it ends that very publication,
  begins another one, is a deletion from the database, has seen that the file exists, or has put the mark at the new path of
  a file that exists.\<close>

theorem publication_marks_kept:
  "case pub_run h op w of (r, w') \<Rightarrow> \<exists>acts. pw_trace w' = pw_trace w @ acts \<and> marks_kept op acts"
proof -
  have "wp (pub_run h op) (op_keeps_marks op w) w"
  proof (cases op)
    case (OpReflect path revision mtime reflected token)
    then show ?thesis
      by (auto simp: reflect_def dest!: reflected_gives_up intro!: pub_edit_marks)
  next
    case (OpDelete path)
    then show ?thesis
      by (auto simp: pub_delete_def dest: unless_pending_gives_up intro!: pub_edit_marks)
  next
    case (OpBegin path revision)
    then show ?thesis
      by (auto simp: unit_call_def begin_publication_def intro!: pub_edit_marks [THEN wp_mono] split: sum.split)
  next
    case (OpMissing path)
    then show ?thesis using missing_marks by simp
  next
    case (OpMove from' to)
    then show ?thesis using move_marks by simp
  qed (auto simp: unit_call_def discardForDatabaseDeletion_def quiet_def op_keeps_quiet intro!: wp_pub_get pub_edit_marks)
  then show ?thesis by (simp add: wp_def op_keeps_marks_def split: prod.splits)
qed

text \<open>A missing file is reported as an interrupted publication exactly when it is missing and its record has the mark,
  with the revision of the mark; for a file that exists the mark, if any, is dropped, and a publication that has begun
  since the record was read is not.\<close>

theorem missing_publication_exact:
  assumes "missingPublication h path w = (Inr answer, w')"
  shows "\<exists>stat acts. pw_trace w' = pw_trace w @ StatSeen path stat # acts \<and>
     (stat = None \<longrightarrow> acts = [] \<and> answer = map_option fst (Option.bind (jm_get (pw_store w') path) pv_pending)) \<and>
     (stat \<noteq> None \<longrightarrow> answer = None \<and> Option.bind (jm_get (pw_store w') path) pv_pending = None)"
    (is "?post answer w'")
proof -
  have "wp (missingPublication h path) (\<lambda>r w'. case r of Inl e \<Rightarrow> True | Inr a \<Rightarrow> ?post a w') w"
    unfolding missingPublication_def
    by (auto simp: quiet_def same_token_def split: prod.split sum.split option.split if_splits intro!: wp_pub_get wp_edit)
      (metis not_None_eq prod.exhaust)
  from wpD [OF this assms] show ?thesis by simp
qed

definition sample_pub :: "unit pub_host" where
  "sample_pub = \<lparr>ph_normalise = id, ph_fails = (\<lambda>x. False), ph_others = (\<lambda>x s. s), ph_uuid = (\<lambda>x. ''t1''), ph_moved = id,
     ph_statHidden = (\<lambda>p. ret None)\<rparr>"

definition published :: "unit pub_world" where
  "published = \<lparr>pw_store = [(''a.png'', \<lparr>pv_revision = ''1-a'', pv_mtime = None, pv_reflected = False,
     pv_pending = Some (''2-b'', ''t1''), pv_incomplete = None\<rparr>)], pw_trace = [], pw_env = ()\<rparr>"

lemma sample_missing:
  "missingPublication sample_pub ''a.png'' published = (Inr (Some ''2-b''), published\<lparr>pw_trace := [StatSeen ''a.png'' None]\<rparr>)"
proof -
  have "wp (missingPublication sample_pub ''a.png'') (\<lambda>r w. r = Inr (Some ''2-b'') \<and>
      w = published\<lparr>pw_trace := [StatSeen ''a.png'' None]\<rparr>) published"
    by (simp add: missingPublication_def pub_get_def others_act_def get_locked_def closed_def store_get_def access_def
        sample_pub_def published_def ret_def)
  then show ?thesis by (simp add: wp_def split: prod.splits)
qed

theorem missing_publication_exact_witness:
  "\<exists>w'. missingPublication sample_pub ''a.png'' published = (Inr (Some ''2-b''), w') \<and>
     Option.bind (jm_get (pw_store w') ''a.png'') pv_pending \<noteq> None"
  using missing_publication_exact [OF sample_missing]
  by (cases "Option.bind (jm_get (pw_store published) ''a.png'') pv_pending") (auto simp: sample_missing)

end
