(* ===== verification/FileHandler.thy ===== *)
theory FileHandler
  imports FilePublication
begin

text \<open>
  \<open>src/serviceModules/ServiceFileHandlerBase.ts\<close>: the files of the storage and the entries of the database. A changed
  file is stored as a revision of its entry; an entry that arrived is written over its file unless that would lose
  local work. The calls of the storage and of the database are a parameter; each may throw and may change the
  environment, and the answers on which decisions rest are noted in the trace. The host may unload at every call.
  A handler is one block with respect to the variables of the object, since the lock of the document keeps other
  handlers of it out; the store of records may be changed by others between any two accesses. Bodies are bytes; the
  prefix test on texts is taken on their UTF-8 bytes. Log lines, file events that only notify, and timers are left
  out; what a timer starts is a definition of its own.
\<close>

section \<open>The handler, its storage and its database\<close>

datatype storage_item = AFile file_stub | AFolder string

datatype binary_content = BinaryOk string | SizeMismatch nat | Unsupported

datatype availability = Streamable | Missing | NotInspected

text \<open>An entry with its content: the bytes, whether it is a text, and the recorded size.\<close>

record read_entry =
  le_meta :: meta_entry
  le_data :: body

text \<open>
  What waits for an empty read to be settled: the call that is made again then. The first two are reflections, the
  others stores.
\<close>

datatype waiting_operation =
  AgainReflect string
| AgainReflectRevision string string
| AgainStore string bool "string option"
| AgainStoreOn string string bool
| AgainDeleteSource file_stub string string "meta_entry option"

fun is_reflection :: "waiting_operation \<Rightarrow> bool" where
  "is_reflection (AgainReflect _) = True"
| "is_reflection (AgainReflectRevision _ _) = True"
| "is_reflection _ = False"

text \<open>
  \<open>fw_required\<close> and \<open>fw_paths\<close> are the flags for the offline preparation, \<open>fw_waiting\<close> the confirmations of empty reads
  (numbered, with their operations), \<open>fw_confirmations\<close> how many there were, \<open>fw_confirmed\<close> the paths whose emptiness was confirmed, \<open>fw_rechecks\<close> the stored empty files.
\<close>

record 'x file_world = "'x pub_world" +
  fw_required :: bool
  fw_paths :: "string list"
  fw_waiting :: "(string, nat \<times> waiting_operation list) jsmap"
  fw_confirmations :: nat
  fw_confirmed :: "(string, nat) jsmap"
  fw_rechecks :: "string list"

type_synonym ('x, 'a) file_call = "('x file_world, scan_error, 'a) call"
type_synonym ('x, 'a) answer_call = "('x, scan_error, 'a) call"

record 'x file_host =
  fh_pub :: "'x pub_host"
  fh_sha :: "string \<Rightarrow> string"
  fh_paths :: path_settings
  fh_maxSize :: int
  fh_hasProvenance :: bool
  fh_isAndroid :: bool
  fh_usesObjectStorage :: bool
  fh_writeDocumentsIfConflicted :: bool
  fh_processSizeMismatchedFiles :: bool
  fh_isTargetFile :: "string \<Rightarrow> bool"
  fh_unloaded :: "'x \<Rightarrow> bool"
  fh_freshness :: "'x \<Rightarrow> file_stub \<Rightarrow> meta_entry \<Rightarrow> freshness"
  fh_markSame :: "string \<Rightarrow> int \<Rightarrow> int \<Rightarrow> 'x \<Rightarrow> 'x"
  fh_getStub :: "string \<Rightarrow> ('x, storage_item option) answer_call"
  fh_getFileStub :: "string \<Rightarrow> ('x, file_stub option) answer_call"
  fh_readStub :: "file_stub \<Rightarrow> ('x, (file_stub \<times> body) option) answer_call"
  fh_stat :: "string \<Rightarrow> ('x, file_stat option) answer_call"
  fh_exists :: "string \<Rightarrow> ('x, bool) answer_call"
  fh_ensureDir :: "string \<Rightarrow> ('x, bool) answer_call"
  fh_writeFile :: "string \<Rightarrow> body \<Rightarrow> int \<times> int \<Rightarrow> ('x, bool) answer_call"
  fh_touched :: "string \<Rightarrow> ('x, unit) answer_call"
  fh_deleteItem :: "string \<Rightarrow> ('x, unit) answer_call"
  fh_renameFile :: "file_stub \<Rightarrow> string \<Rightarrow> ('x, file_stub option) answer_call"
  fh_stages :: bool
  fh_stage :: "string \<Rightarrow> meta_entry \<Rightarrow> file_stat option \<Rightarrow> ('x, bool) answer_call"
  fh_publish :: "string \<Rightarrow> meta_entry \<Rightarrow> ('x, file_stat) answer_call"
  fh_fetchMeta :: "string \<Rightarrow> string option \<Rightarrow> ('x, meta_entry option) answer_call"
  fh_fetchEntry :: "string \<Rightarrow> string option \<Rightarrow> ('x, read_entry option) answer_call"
  fh_fetchFromMeta :: "meta_entry \<Rightarrow> ('x, read_entry option) answer_call"
  fh_fetchBinary :: "(meta_entry \<Rightarrow> ('x, binary_content option) answer_call) option"
  fh_inspectBinary :: "(meta_entry \<Rightarrow> ('x, availability) answer_call) option"
  fh_conflicts :: "string \<Rightarrow> ('x, string list) answer_call"
  fh_inHistory :: "(string \<Rightarrow> string \<Rightarrow> string \<Rightarrow> ('x, bool) answer_call) option"
  fh_hasContent :: "string \<Rightarrow> body \<Rightarrow> string \<Rightarrow> ('x, bool) answer_call"
  fh_findContent :: "string \<Rightarrow> body \<Rightarrow> ('x, string list) answer_call"
  fh_storeOn :: "file_stub \<Rightarrow> body \<Rightarrow> string option \<Rightarrow> ('x, string option) answer_call"
  fh_storeLive :: "file_stub \<Rightarrow> body \<Rightarrow> string option \<Rightarrow> ('x, string option) answer_call"
  fh_storeBeside :: "file_stub \<Rightarrow> body \<Rightarrow> string \<Rightarrow> ('x, string option) answer_call"
  fh_storeDeletion :: "string \<Rightarrow> string \<Rightarrow> ('x, string option) answer_call"
  fh_removeEntry :: "string \<Rightarrow> string option \<Rightarrow> ('x, bool) answer_call"
  fh_createChunks :: "file_stub \<Rightarrow> body \<Rightarrow> bool \<Rightarrow> ('x, bool) answer_call"
  fh_queueCheck :: "string \<Rightarrow> ('x, unit) answer_call"
  fh_queueCheckIfOpen :: "string \<Rightarrow> ('x, unit) answer_call"

section \<open>Calls\<close>

definition pause :: "'x file_host \<Rightarrow> ('x, unit) file_call" where
  "pause h = modifyW (\<lambda>w. w\<lparr>pw_env := ph_moved (fh_pub h) (pw_env w)\<rparr>)"

definition hostUnloaded :: "'x file_host \<Rightarrow> 'x file_world \<Rightarrow> bool" where
  "hostUnloaded h w = fh_unloaded h (pw_env w)"

definition unlessUnloaded :: "'x file_host \<Rightarrow> 'a \<Rightarrow> ('x, 'a) file_call \<Rightarrow> ('x, 'a) file_call" where
  "unlessUnloaded h a m = after (getW (hostUnloaded h)) (\<lambda>u. if u then ret a else m)"

definition log_only :: "'a \<Rightarrow> ('x, 'a) file_call \<Rightarrow> ('x, 'a) file_call" where
  "log_only a m = catching m (\<lambda>_. ret a)"

fun body_bytes :: "body \<Rightarrow> string" where
  "body_bytes (TextBody s) = s"
| "body_bytes (BinaryBody s) = s"

text \<open>Contents are compared slice by slice.\<close>

definition CONTENT_COMPARE_SLICE_BYTES :: nat where
  "CONTENT_COMPARE_SLICE_BYTES = 8 * 1024 * 1024"

function same_slices :: "string \<Rightarrow> string \<Rightarrow> nat \<Rightarrow> bool" where
  "same_slices a b offset =
     (if length a \<le> offset then True
      else
        let end' = min (offset + CONTENT_COMPARE_SLICE_BYTES) (length a) in
        if take (end' - offset) (drop offset a) \<noteq> take (end' - offset) (drop offset b) then False
        else same_slices a b (offset + CONTENT_COMPARE_SLICE_BYTES))"
  by auto
termination by (relation "measure (\<lambda>(a, b, offset). length a - offset)") (auto simp: CONTENT_COMPARE_SLICE_BYTES_def)

declare same_slices.simps [simp del]

definition isDocContentSame :: "body \<Rightarrow> body \<Rightarrow> bool" where
  "isDocContentSame a b \<longleftrightarrow> length (body_bytes a) = length (body_bytes b) \<and> same_slices (body_bytes a) (body_bytes b) 0"

lemma same_slices_iff: "length a = length b \<Longrightarrow> same_slices a b offset \<longleftrightarrow> drop offset a = drop offset b"
proof (induction a b offset rule: same_slices.induct)
  case (1 a b offset)
  let ?k = "min (offset + CONTENT_COMPARE_SLICE_BYTES) (length a) - offset"
  show ?case
  proof (cases "length a \<le> offset")
    case True
    with 1(2) show ?thesis by (simp add: same_slices.simps)
  next
    case False
    have split: "drop offset a = drop offset b \<longleftrightarrow>
        take ?k (drop offset a) = take ?k (drop offset b) \<and> drop ?k (drop offset a) = drop ?k (drop offset b)"
      by (metis append_take_drop_id)
    have rest: "drop (min (offset + CONTENT_COMPARE_SLICE_BYTES) (length b)) x = drop (offset + CONTENT_COMPARE_SLICE_BYTES) x"
      if "length x = length b" for x :: string
      using that by (simp add: min_def)
    show ?thesis
      using 1 False by (subst same_slices.simps) (simp add: Let_def split rest)
  qed
qed

lemma isDocContentSame_iff: "isDocContentSame a b \<longleftrightarrow> body_bytes a = body_bytes b"
  unfolding isDocContentSame_def using same_slices_iff [of "body_bytes a" "body_bytes b" 0] by auto

definition body_size :: "body \<Rightarrow> nat" where
  "body_size b = length (body_bytes b)"

definition isTextDocument :: "string \<Rightarrow> string option \<Rightarrow> bool \<Rightarrow> string \<Rightarrow> bool" where
  "isTextDocument type' datatype' legacyInlineContent path =
     (if type' = ''plain'' then True
      else if datatype' = Some ''plain'' then True
      else if legacyInlineContent then isPlainText path
      else if datatype' = Some ''newnote'' then False
      else isPlainText path)"

text \<open>The metadata that the entry manager answers has its type as its datatype.\<close>

definition is_text :: "meta_entry \<Rightarrow> bool" where
  "is_text d = isTextDocument (me_type d) (Some (me_type d)) False (me_path d)"

definition size_of :: "meta_entry \<Rightarrow> nat" where
  "size_of d = (case me_size d of Some n \<Rightarrow> n | None \<Rightarrow> 0)"

definition fetchEntryMeta :: "'x file_host \<Rightarrow> string \<Rightarrow> string option \<Rightarrow> ('x, meta_entry option) file_call" where
  "fetchEntryMeta h path rv = asks (fh_fetchMeta h path rv) (\<lambda>d. [MetaSeen path rv d])"

definition fetchEntry :: "'x file_host \<Rightarrow> string \<Rightarrow> string option \<Rightarrow> ('x, read_entry option) file_call" where
  "fetchEntry h path rv =
     asks (fh_fetchEntry h path rv) (\<lambda>e. case e of Some l \<Rightarrow> [RevisionRead path rv (le_data l)] | None \<Rightarrow> [])"

definition getConflictedRevs :: "'x file_host \<Rightarrow> string \<Rightarrow> ('x, string list) file_call" where
  "getConflictedRevs h path = asks (fh_conflicts h path) (\<lambda>revs. [ConflictsSeen path revs])"

definition statHidden :: "'x file_host \<Rightarrow> string \<Rightarrow> ('x, file_stat option) file_call" where
  "statHidden h path = asks (ph_statHidden (fh_pub h) path) (\<lambda>s. [StatSeen path s])"

definition statOf :: "'x file_host \<Rightarrow> string \<Rightarrow> ('x, file_stat option) file_call" where
  "statOf h path = asks (fh_stat h path) (\<lambda>_. [])"

fun item_path :: "storage_item \<Rightarrow> string" where
  "item_path (AFile f) = fs_path f"
| "item_path (AFolder p) = p"

text \<open>A listed file has no body.\<close>

definition getStub :: "'x file_host \<Rightarrow> string \<Rightarrow> ('x, storage_item option) file_call" where
  "getStub h path =
     after (asks (fh_getStub h path) (\<lambda>item. [Listed path (map_option item_path item)])) (\<lambda>item.
     ret (case item of Some (AFile f) \<Rightarrow> Some (AFile (f\<lparr>fs_body := None\<rparr>)) | _ \<Rightarrow> item))"

definition getFileStub :: "'x file_host \<Rightarrow> string \<Rightarrow> ('x, file_stub option) file_call" where
  "getFileStub h path = after (asks (fh_getFileStub h path) (\<lambda>_. [])) (\<lambda>f. ret (map_option (\<lambda>f. f\<lparr>fs_body := None\<rparr>) f))"

text \<open>A change of the storage is noted when it is attempted.\<close>

definition attempts :: "file_action \<Rightarrow> ('x, 'a) answer_call \<Rightarrow> ('x, 'a) file_call" where
  "attempts a m = after (modifyW (noted [a])) (\<lambda>_. asks m (\<lambda>_. []))"

definition queueCheckFor :: "'x file_host \<Rightarrow> string \<Rightarrow> ('x, unit) file_call" where
  "queueCheckFor h path = asks (fh_queueCheck h path) (\<lambda>_. [CheckQueued path])"

definition markSame :: "'x file_host \<Rightarrow> string \<Rightarrow> int \<Rightarrow> int \<Rightarrow> ('x, unit) file_call" where
  "markSame h path a b = modifyW (\<lambda>w. w\<lparr>pw_env := fh_markSame h path a b (pw_env w)\<rparr>)"

text \<open>The methods of the database that write: after the unloading they do nothing and answer \<open>false\<close>.\<close>

definition noted_rev :: "(string \<Rightarrow> file_action) \<Rightarrow> string option \<Rightarrow> file_action list" where
  "noted_rev f r = (case r of Some rv \<Rightarrow> [f rv] | None \<Rightarrow> [])"

definition storeWithBaseRevision :: "'x file_host \<Rightarrow> file_stub \<times> body \<Rightarrow> string option \<Rightarrow> ('x, string option) file_call" where
  "storeWithBaseRevision h file base =
     unlessUnloaded h None (asks (fh_storeOn h (fst file) (snd file) base) (noted_rev (StoredOn (fs_path (fst file)) base (snd file))))"

definition storeWithLiveBaseRevision :: "'x file_host \<Rightarrow> file_stub \<times> body \<Rightarrow> string option \<Rightarrow> ('x, string option) file_call" where
  "storeWithLiveBaseRevision h file base =
     unlessUnloaded h None (asks (fh_storeLive h (fst file) (snd file) base) (noted_rev (StoredOn (fs_path (fst file)) base (snd file))))"

definition storeAsConflictedRevision :: "'x file_host \<Rightarrow> file_stub \<times> body \<Rightarrow> string \<Rightarrow> ('x, string option) file_call" where
  "storeAsConflictedRevision h file current =
     unlessUnloaded h None
       (asks (fh_storeBeside h (fst file) (snd file) current) (noted_rev (StoredBeside (fs_path (fst file)) (snd file) current)))"

definition storeDeletionWithBaseRevision :: "'x file_host \<Rightarrow> string \<Rightarrow> string \<Rightarrow> ('x, string option) file_call" where
  "storeDeletionWithBaseRevision h path base =
     unlessUnloaded h None (asks (fh_storeDeletion h path base) (noted_rev (\<lambda>_. StoredDeletion path base)))"

definition deleteEntry :: "'x file_host \<Rightarrow> string \<Rightarrow> string option \<Rightarrow> ('x, bool) file_call" where
  "deleteEntry h path rv =
     unlessUnloaded h False (asks (fh_removeEntry h path rv) (\<lambda>ok. if ok then [RemovedEntry path rv] else []))"

definition createChunks :: "'x file_host \<Rightarrow> file_stub \<times> body \<Rightarrow> bool \<Rightarrow> ('x, bool) file_call" where
  "createChunks h file force =
     unlessUnloaded h False (asks (fh_createChunks h (fst file) (snd file) force) (\<lambda>ok. if ok then [MadeChunks (fs_path (fst file))] else []))"

section \<open>What the storage shows\<close>

definition getProvenance :: "'x file_host \<Rightarrow> string \<Rightarrow> ('x, provenance option) file_call" where
  "getProvenance h path =
     (if \<not> fh_hasProvenance h then ret None
      else
        after (pub_get (fh_pub h) path) (\<lambda>record.
        case record of
          None \<Rightarrow> ret None
        | Some r \<Rightarrow>
            if pv_pending r \<noteq> None then ret None
            else
              after (fetchEntryMeta h path (Some (pv_revision r))) (\<lambda>entry.
              if (case entry of Some e \<Rightarrow> \<not> isDeletedEntry e | None \<Rightarrow> False) then ret (Some r)
              else after (pub_delete (fh_pub h) path) (\<lambda>_. ret None))))"

definition setProvenance ::
    "'x file_host \<Rightarrow> string \<Rightarrow> string option \<Rightarrow> int option \<Rightarrow> bool \<Rightarrow> string option \<Rightarrow> ('x, unit) file_call" where
  "setProvenance h path revision mtime reflected token =
     (case revision of
        Some r \<Rightarrow> if \<not> fh_hasProvenance h \<or> r = [] then ret () else reflect (fh_pub h) path r mtime reflected token
      | None \<Rightarrow> ret ())"

definition deleteProvenance :: "'x file_host \<Rightarrow> string \<Rightarrow> ('x, unit) file_call" where
  "deleteProvenance h path = (if fh_hasProvenance h then pub_delete (fh_pub h) path else ret ())"

text \<open>The record, when the storage still has the time observed with it and the size of its revision; \<open>None\<close> on failure to read it.\<close>

definition matchStorageToRecord ::
    "'x file_host \<Rightarrow> file_stub \<Rightarrow> nat \<Rightarrow> string option \<Rightarrow> bool \<Rightarrow> bool \<Rightarrow> ('x, (provenance \<times> file_stat) option) file_call" where
  "matchStorageToRecord h file minimumBytes expectedRevision reflectedOnly freshStat =
     (if \<not> fh_hasProvenance h \<or> st_size (fs_stat file) < minimumBytes then ret None
      else
        after (log_only None (pub_get (fh_pub h) (fs_path file))) (\<lambda>record.
        case record of
          None \<Rightarrow> ret None
        | Some r \<Rightarrow>
            if pv_pending r \<noteq> None \<or> pv_mtime r = None \<or> reflectedOnly \<and> \<not> pv_reflected r \<or>
               (case expectedRevision of Some e \<Rightarrow> pv_revision r \<noteq> e | None \<Rightarrow> False) then ret None
            else
              after (if freshStat then statHidden h (fs_path file) else statOf h (fs_path file)) (\<lambda>stat.
              case stat of
                None \<Rightarrow> ret None
              | Some s \<Rightarrow>
                  if Some (st_mtime s) \<noteq> pv_mtime r then ret None
                  else
                    after (fetchEntryMeta h (fs_path file) (Some (pv_revision r))) (\<lambda>recorded.
                    case recorded of
                      None \<Rightarrow> ret None
                    | Some m \<Rightarrow> if isDeletedEntry m \<or> me_size m \<noteq> Some (st_size s) then ret None else ret (Some (r, s))))))"

definition RECOGNISE_REFLECTED_STORAGE_BYTES :: nat where
  "RECOGNISE_REFLECTED_STORAGE_BYTES = 1024 * 1024"

definition isStorageUnchangedSinceReflected :: "'x file_host \<Rightarrow> file_stub \<Rightarrow> string option \<Rightarrow> ('x, bool) file_call" where
  "isStorageUnchangedSinceReflected h file expectedRevision =
     after (matchStorageToRecord h file RECOGNISE_REFLECTED_STORAGE_BYTES expectedRevision False False) (\<lambda>found.
     case found of
       None \<Rightarrow> ret False
     | Some (r, s) \<Rightarrow>
         after (fetchEntryMeta h (fs_path file) None) (\<lambda>current.
         if (case current of Some c \<Rightarrow> isDeletedEntry c \<or> me_rev c \<noteq> Some (pv_revision r) | None \<Rightarrow> True) then ret False
         else after (getConflictedRevs h (fs_path file)) (\<lambda>revs. ret (revs = []))))"

definition isRevisionInHistory :: "'x file_host \<Rightarrow> string \<Rightarrow> string \<Rightarrow> string \<Rightarrow> ('x, bool) file_call" where
  "isRevisionInHistory h path revision branch =
     (case fh_inHistory h of
        None \<Rightarrow> ret False
      | Some m \<Rightarrow> asks (m path revision branch) (\<lambda>yes. if yes then [InHistory path revision branch] else []))"

definition isStorageUnchangedSinceRevisionInHistory :: "'x file_host \<Rightarrow> string \<Rightarrow> file_stub \<Rightarrow> meta_entry \<Rightarrow> ('x, bool) file_call" where
  "isStorageUnchangedSinceRevisionInHistory h path file incoming =
     (case me_rev incoming of
        None \<Rightarrow> ret False
      | Some rv \<Rightarrow>
          if rv = [] then ret False
          else
            log_only False
              (after (matchStorageToRecord h file LARGE_FILE_BYTES None True True) (\<lambda>found.
               case found of
                 None \<Rightarrow> ret False
               | Some (r, s) \<Rightarrow>
                   if st_size s < LARGE_FILE_BYTES then ret False else isRevisionInHistory h path (pv_revision r) rv)))"

text \<open>The entry with what it is compared by: the bytes of a binary entry, otherwise the data as the entry manager loads it.\<close>

definition fetchEntryForComparison :: "'x file_host \<Rightarrow> string \<Rightarrow> string option \<Rightarrow> ('x, read_entry option) file_call" where
  "fetchEntryForComparison h path revision =
     (let whole = fetchEntry h path revision in
      case fh_fetchBinary h of
        None \<Rightarrow> whole
      | Some fetch \<Rightarrow>
          after (fetchEntryMeta h path revision) (\<lambda>meta.
          case meta of
            None \<Rightarrow> whole
          | Some m \<Rightarrow>
              if isDeletedEntry m \<or> is_text m then whole
              else
                after (asks (fetch m) (\<lambda>b. case b of Some (BinaryOk bytes) \<Rightarrow> [RevisionRead path revision (BinaryBody bytes)] | _ \<Rightarrow> [])) (\<lambda>binary.
                case binary of
                  None \<Rightarrow> ret None
                | Some (BinaryOk bytes) \<Rightarrow> ret (Some \<lparr>le_meta = m, le_data = BinaryBody bytes\<rparr>)
                | Some _ \<Rightarrow> whole)))"

definition readFileFromStub :: "'x file_host \<Rightarrow> file_stub \<Rightarrow> ('x, file_stub \<times> body) file_call" where
  "readFileFromStub h file =
     (case fs_body file of
        Some b \<Rightarrow> ret (file, b)
      | None \<Rightarrow>
          after (asks (fh_readStub h file) (\<lambda>read. case read of Some (f, b) \<Rightarrow> [BodyRead (fs_path file) b] | None \<Rightarrow> [])) (\<lambda>read.
          case read of Some fb \<Rightarrow> ret fb | None \<Rightarrow> throw (error_text ''File is not exist on the storage'')))"

definition findUniqueContentRevision :: "'x file_host \<Rightarrow> file_stub \<times> body \<Rightarrow> ('x, string option) file_call" where
  "findUniqueContentRevision h file =
     log_only None
       (after (asks (fh_findContent h (fs_path (fst file)) (snd file)) (\<lambda>_. [])) (\<lambda>revisions.
        ret (case revisions of [r] \<Rightarrow> Some r | _ \<Rightarrow> None)))"

definition getProvenBaseRevision :: "'x file_host \<Rightarrow> file_stub \<times> body \<Rightarrow> string option \<Rightarrow> ('x, string option) file_call" where
  "getProvenBaseRevision h file preferredPath =
     (let path = (case preferredPath of Some p \<Rightarrow> p | None \<Rightarrow> fs_path (fst file)) in
      after (getProvenance h path) (\<lambda>recorded.
      after (case recorded of
               Some r \<Rightarrow> ret (Some r)
             | None \<Rightarrow> if path \<noteq> [] \<and> path \<noteq> fs_path (fst file) then getProvenance h (fs_path (fst file)) else ret None) (\<lambda>found.
      case found of
        Some r \<Rightarrow> ret (Some (pv_revision r))
      | None \<Rightarrow>
          after (findUniqueContentRevision h file) (\<lambda>matched.
          case matched of
            None \<Rightarrow> ret None
          | Some m \<Rightarrow>
              after (setProvenance h path (Some m) (Some (st_mtime (fs_stat (fst file)))) False None) (\<lambda>_. ret (Some m))))))"

text \<open>The time of a file that has just been read is the one of its stat.\<close>

abbreviation observed :: "file_stub \<times> body \<Rightarrow> int option" where
  "observed file \<equiv> Some (st_mtime (fs_stat (fst file)))"

definition isReflectedEmptiness :: "'x file_host \<Rightarrow> string \<Rightarrow> file_stat option \<Rightarrow> ('x, bool) file_call" where
  "isReflectedEmptiness h path stat =
     (case stat of
        None \<Rightarrow> ret False
      | Some s \<Rightarrow>
          if \<not> fh_hasProvenance h then ret False
          else
            after (log_only None (pub_get (fh_pub h) path)) (\<lambda>record.
            let own = (case record of
               Some r \<Rightarrow> pv_pending r = None \<and> pv_reflected r \<and> pv_mtime r = Some (st_mtime s)
             | None \<Rightarrow> False)
            in after (modifyW (noted (if own then [ReflectedEmpty path] else []))) (\<lambda>_. ret own)))"

definition isOwnEmptyReflection :: "'x file_host \<Rightarrow> string \<Rightarrow> file_stat \<Rightarrow> ('x, bool) file_call" where
  "isOwnEmptyReflection h path stat =
     after (isReflectedEmptiness h path (Some stat)) (\<lambda>shown.
     if \<not> shown then ret False
     else
       log_only False
         (after (pub_get (fh_pub h) path) (\<lambda>record.
          case record of
            None \<Rightarrow> ret False
          | Some r \<Rightarrow>
              after (fetchEntryMeta h path (Some (pv_revision r))) (\<lambda>entry.
              ret (case entry of Some e \<Rightarrow> me_size e = Some 0 | None \<Rightarrow> False)))))"

definition databaseHoldsContent :: "'x file_host \<Rightarrow> string \<Rightarrow> ('x, bool) file_call" where
  "databaseHoldsContent h path =
     after (fetchEntryMeta h path None) (\<lambda>current.
     ret (case current of Some c \<Rightarrow> \<not> isDeletedEntry c \<and> 0 < size_of c | None \<Rightarrow> False))"

section \<open>Empty reads\<close>

definition isEmptyReadConfirmed :: "string \<Rightarrow> 'x file_world \<Rightarrow> bool" where
  "isEmptyReadConfirmed path w \<longleftrightarrow> (case jm_get (fw_confirmed w) path of Some n \<Rightarrow> 0 < n | None \<Rightarrow> False)"

text \<open>The confirmation of the path takes the operation, unless the host has unloaded: then nothing waits any more.\<close>

definition checkConfirmed :: "string \<Rightarrow> ('x, bool) file_call" where
  "checkConfirmed path =
     after (getW (isEmptyReadConfirmed path)) (\<lambda>c. after (modifyW (noted (if c then [ConfirmedEmpty path] else []))) (\<lambda>_. ret c))"

definition add_waiting :: "string \<Rightarrow> waiting_operation \<Rightarrow> 'x file_world \<Rightarrow> 'x file_world" where
  "add_waiting path operation w =
     (case jm_get (fw_waiting w) path of
        Some (i, ops) \<Rightarrow> w\<lparr>fw_waiting := jm_set path (i, ops @ [operation]) (fw_waiting w)\<rparr>
      | None \<Rightarrow> w\<lparr>fw_waiting := jm_set path (fw_confirmations w, [operation]) (fw_waiting w),
                  fw_confirmations := Suc (fw_confirmations w)\<rparr>)"

definition waitForEmptyReadToSettle :: "'x file_host \<Rightarrow> string \<Rightarrow> waiting_operation \<Rightarrow> ('x, bool) file_call" where
  "waitForEmptyReadToSettle h path operation =
     unlessUnloaded h False
       (after (modifyW (add_waiting path operation)) (\<lambda>_. ret True))"

section \<open>Keeping local work beside an incoming entry\<close>

text \<open>\<open>false\<close>, \<open>true\<close> and \<open>REFLECTION_NOT_APPLIED\<close>.\<close>

datatype preserved = NotPreserved | Preserved | NotApplied

fun isIncomingTextClearExtension :: "body \<Rightarrow> body \<Rightarrow> bool" where
  "isIncomingTextClearExtension (TextBody incoming) (TextBody local) \<longleftrightarrow>
     local \<noteq> [] \<and> (starts_with incoming local \<or> starts_with (List.rev incoming) (List.rev local))"
| "isIncomingTextClearExtension _ _ \<longleftrightarrow> False"

definition keepBeside :: "'x file_host \<Rightarrow> string \<Rightarrow> file_stub \<times> body \<Rightarrow> string \<Rightarrow> ('x, preserved) file_call" where
  "keepBeside h path file incomingRev =
     after (storeAsConflictedRevision h file incomingRev) (\<lambda>stored.
     case stored of
       None \<Rightarrow> ret Preserved
     | Some rv \<Rightarrow>
         after (setProvenance h path (Some rv) (observed file) False None) (\<lambda>_.
         after (queueCheckFor h path) (\<lambda>_. ret Preserved)))"

text \<open>On Android: what is done with a file that reads as empty, \<open>None\<close> when it does not.\<close>

definition emptyOnAndroid :: "'x file_host \<Rightarrow> string \<Rightarrow> file_stub \<times> body \<Rightarrow> waiting_operation \<Rightarrow> ('x, preserved option) file_call" where
  "emptyOnAndroid h path file again =
     (if \<not> fh_isAndroid h \<or> body_size (snd file) \<noteq> 0 then ret None
      else
        after (statOf h path) (\<lambda>stat.
        if map_option st_size stat \<noteq> Some 0 then ret None
        else
          after (checkConfirmed path) (\<lambda>confirmed.
          if confirmed then ret (Some NotPreserved)
          else
            after (isReflectedEmptiness h path stat) (\<lambda>own.
            if own then ret (Some NotPreserved)
            else
              after (waitForEmptyReadToSettle h path again) (\<lambda>waiting. ret (Some (if waiting then Preserved else NotApplied)))))))"

text \<open>An empty string as the incoming content counts as none.\<close>

definition already_known :: "body option \<Rightarrow> body \<Rightarrow> bool" where
  "already_known incomingContent local =
     (case incomingContent of
        Some c \<Rightarrow> c \<noteq> TextBody [] \<and> (isDocContentSame c local \<or> isIncomingTextClearExtension c local)
      | None \<Rightarrow> False)"

definition keepUnlessKnown :: "'x file_host \<Rightarrow> string \<Rightarrow> file_stub \<Rightarrow> file_stub \<times> body \<Rightarrow> meta_entry \<Rightarrow> string \<Rightarrow> ('x, preserved) file_call" where
  "keepUnlessKnown h path existDoc file incoming incomingRev =
     after (if body_size (snd file) = 0 then statOf h path else ret None) (\<lambda>localStat.
     after (if (case localStat of Some s \<Rightarrow> 0 < st_size s | None \<Rightarrow> False) then readFileFromStub h existDoc else ret file) (\<lambda>file'.
     after (if map_option st_size localStat = Some 0 \<and> 0 < size_of incoming
            then after (isReflectedEmptiness h path localStat) (\<lambda>own. ret (\<not> own)) else ret False) (\<lambda>emptied.
     if emptied then keepBeside h path file' incomingRev
     else
       after (asks (fh_hasContent h path (snd file') incomingRev)
                (\<lambda>has. if has then [ContentInHistory path (snd file') incomingRev] else [])) (\<lambda>has.
       if has then ret NotPreserved else keepBeside h path file' incomingRev))))"

definition preserveUnsyncedStorageAsConflict ::
    "'x file_host \<Rightarrow> string \<Rightarrow> file_stub \<Rightarrow> meta_entry \<Rightarrow> waiting_operation \<Rightarrow> body option \<Rightarrow> ('x, preserved) file_call" where
  "preserveUnsyncedStorageAsConflict h path existDoc incoming again incomingContent =
     after (isStorageUnchangedSinceRevisionInHistory h path existDoc incoming) (\<lambda>unchanged.
     if unchanged then ret NotPreserved
     else
       after (readFileFromStub h existDoc) (\<lambda>file.
       after (emptyOnAndroid h path file again) (\<lambda>early.
       case early of
         Some p \<Rightarrow> ret p
       | None \<Rightarrow>
           if already_known incomingContent (snd file) then ret NotPreserved
           else
             (case me_rev incoming of
                None \<Rightarrow> ret NotPreserved
              | Some rv \<Rightarrow> if rv = [] then ret NotPreserved else keepUnlessKnown h path existDoc file incoming rv))))"

section \<open>Reflecting an entry in the storage\<close>

definition readEntryContentForStorage :: "'x file_host \<Rightarrow> meta_entry \<Rightarrow> ('x, body option) file_call" where
  "readEntryContentForStorage h docEntry =
     (let whole =
        after (asks (fh_fetchFromMeta h docEntry)
                 (\<lambda>read. case read of Some doc \<Rightarrow> [EntryContent docEntry (le_data doc)] | None \<Rightarrow> [])) (\<lambda>read.
        ret (case read of
           None \<Rightarrow> None
         | Some doc \<Rightarrow>
             if \<not> fh_processSizeMismatchedFiles h \<and> me_size (le_meta doc) \<noteq> Some 0 \<and>
                me_size (le_meta doc) \<noteq> Some (body_size (le_data doc)) then None
             else Some (le_data doc)))
      in
      case fh_fetchBinary h of
        None \<Rightarrow> whole
      | Some fetch \<Rightarrow>
          if is_text docEntry then whole
          else
            after (asks (fetch docEntry)
                     (\<lambda>b. case b of Some (BinaryOk bytes) \<Rightarrow> [EntryContent docEntry (BinaryBody bytes)] | _ \<Rightarrow> [])) (\<lambda>binary.
            case binary of
              None \<Rightarrow> ret None
            | Some (BinaryOk bytes) \<Rightarrow> ret (Some (BinaryBody bytes))
            | Some (SizeMismatch n) \<Rightarrow>
                if \<not> fh_processSizeMismatchedFiles h \<and> me_size docEntry \<noteq> Some 0 then ret None else whole
            | Some Unsupported \<Rightarrow> whole))"

definition markWrittenTimeAsSame :: "'x file_host \<Rightarrow> string \<Rightarrow> file_stat option \<Rightarrow> meta_entry \<Rightarrow> ('x, unit) file_call" where
  "markWrittenTimeAsSame h path written docEntry =
     (case written of
        Some s \<Rightarrow> if fh_usesObjectStorage h then markSame h path (st_mtime s) (me_mtime docEntry) else ret ()
      | None \<Rightarrow> ret ())"

definition ANDROID_REWRITE_ATTEMPTS :: nat where
  "ANDROID_REWRITE_ATTEMPTS = 3"

text \<open>The argument is the number of attempts that are left.\<close>

fun rewriteUntilSizeIsReported :: "'x file_host \<Rightarrow> string \<Rightarrow> body \<Rightarrow> meta_entry \<Rightarrow> nat \<Rightarrow> ('x, unit) file_call" where
  "rewriteUntilSizeIsReported h path content docEntry n =
     (if body_size content = 0 then ret ()
      else
        after (statOf h path) (\<lambda>stat.
        if map_option st_size stat \<noteq> Some 0 then ret ()
        else
          (case n of
             0 \<Rightarrow> ret ()
           | Suc m \<Rightarrow>
               after (pause h) (\<lambda>_.
               after (attempts (WroteFile path content docEntry)
                        (fh_writeFile h path content (me_ctime docEntry, me_mtime docEntry))) (\<lambda>ok.
               if \<not> ok then ret ()
               else after (asks (fh_touched h path) (\<lambda>_. [])) (\<lambda>_. rewriteUntilSizeIsReported h path content docEntry m))))))"

declare rewriteUntilSizeIsReported.simps [simp del]

definition writeEntryToStorage :: "'x file_host \<Rightarrow> meta_entry \<Rightarrow> string \<Rightarrow> body \<Rightarrow> ('x, bool) file_call" where
  "writeEntryToStorage h docEntry path content =
     after (asks (fh_ensureDir h path) (\<lambda>_. [])) (\<lambda>_.
     after (attempts (WroteFile path content docEntry)
              (fh_writeFile h path content (me_ctime docEntry, me_mtime docEntry))) (\<lambda>ok.
     after (asks (fh_touched h path) (\<lambda>_. [])) (\<lambda>_.
     after (if ok \<and> fh_isAndroid h then rewriteUntilSizeIsReported h path content docEntry ANDROID_REWRITE_ATTEMPTS else ret ()) (\<lambda>_.
     after (if ok
            then after (statOf h path) (\<lambda>stat.
                 after (markWrittenTimeAsSame h path stat docEntry) (\<lambda>_.
                 setProvenance h path (me_rev docEntry) (map_option st_mtime stat) True None))
            else ret ()) (\<lambda>_. ret ok)))))"

text \<open>\<open>None\<close> is the answer \<open>unsupported\<close>; a failure after the staging has begun is \<open>false\<close>.\<close>

definition writeEntryToStorageInParts :: "'x file_host \<Rightarrow> meta_entry \<Rightarrow> string \<Rightarrow> file_stat option \<Rightarrow> ('x, bool option) file_call" where
  "writeEntryToStorageInParts h docEntry path approvedTarget =
     (case me_rev docEntry of
        None \<Rightarrow> ret None
      | Some rv \<Rightarrow>
          if \<not> fh_stages h \<or> rv = [] then ret None
          else
            after (pub_get (fh_pub h) path) (\<lambda>_.
            after (asks (fh_ensureDir h path) (\<lambda>_. [])) (\<lambda>_.
            unlessUnloaded h (Some False)
              (log_only (Some False)
                (after (asks (fh_stage h path docEntry approvedTarget) (\<lambda>_. [])) (\<lambda>staged.
                 if \<not> staged then ret (Some False)
                 else
                   after (begin_publication (fh_pub h) path rv) (\<lambda>token.
                   after (attempts (PublishedFile path docEntry) (fh_publish h path docEntry)) (\<lambda>stat.
                   if \<not> st_isFile stat \<or> me_size docEntry \<noteq> Some (st_size stat)
                   then throw (error_text ''Publication was not confirmed'')
                   else
                     after (markWrittenTimeAsSame h path (Some stat) docEntry) (\<lambda>_.
                     after (reflect (fh_pub h) path rv (Some (st_mtime stat)) True (Some token)) (\<lambda>_.
                     after (asks (fh_touched h path) (\<lambda>_. [])) (\<lambda>_. ret (Some True))))))))))))"

definition confirmAbsent :: "'x file_host \<Rightarrow> string \<Rightarrow> ('x, bool) file_call" where
  "confirmAbsent h path = after (log_only True (asks (fh_exists h path) (\<lambda>_. []))) (\<lambda>there. ret (\<not> there))"

definition file_getPath :: "meta_entry \<Rightarrow> ('x, string) file_call" where
  "file_getPath docEntry = (case entry_getPath docEntry of Inl e \<Rightarrow> throw (error_text ''Entry has been obfuscated!'') | Inr p \<Rightarrow> ret p)"

definition applyDatabaseDeletion ::
    "'x file_host \<Rightarrow> meta_entry \<Rightarrow> string \<Rightarrow> bool \<Rightarrow> waiting_operation \<Rightarrow> ('x, bool) file_call" where
  "applyDatabaseDeletion h docEntry path force again =
     after (fetchEntryMeta h path None) (\<lambda>latest.
     case latest of
       None \<Rightarrow> ret False
     | Some l \<Rightarrow>
         if me_rev l \<noteq> me_rev docEntry \<or> \<not> isDeletedEntry l then ret False
         else
           after (getStub h path) (\<lambda>current.
           let finish =
             after (confirmAbsent h path) (\<lambda>absent.
             if \<not> absent then ret False
             else after (if fh_hasProvenance h then discardForDatabaseDeletion (fh_pub h) path else ret ()) (\<lambda>_. ret True))
           in
           case current of
             Some (AFolder _) \<Rightarrow> ret False
           | None \<Rightarrow> finish
           | Some (AFile f) \<Rightarrow>
               after (if \<not> force \<and> \<not> fh_writeDocumentsIfConflicted h
                      then preserveUnsyncedStorageAsConflict h path f l again None else ret NotPreserved) (\<lambda>p.
               case p of
                 NotApplied \<Rightarrow> ret False
               | Preserved \<Rightarrow> ret True
               | NotPreserved \<Rightarrow> after (attempts (DeletedFile path) (fh_deleteItem h path)) (\<lambda>_. finish))))"

definition getParentPath :: "string \<Rightarrow> string" where
  "getParentPath path = (if CHR ''/'' \<in> set path then List.rev (drop 1 (dropWhile (\<lambda>c. c \<noteq> CHR ''/'') (List.rev path))) else [])"

text \<open>A change of the case of a name: the file that is there is renamed and has the new path. \<open>None\<close> refuses the reflection.\<close>

definition renameToStoredCase :: "'x file_host \<Rightarrow> string \<Rightarrow> file_stub option \<Rightarrow> ('x, file_stub option option) file_call" where
  "renameToStoredCase h path existDoc =
     (case existDoc of
        None \<Rightarrow> ret (Some None)
      | Some f \<Rightarrow>
          if fs_path f = path then ret (Some (Some f))
          else
            after (pause h) (\<lambda>_.
            if path2id (fh_sha h) (fh_paths h) (fs_path f) [] \<noteq> path2id (fh_sha h) (fh_paths h) path [] then ret None
            else if getParentPath (fs_path f) \<noteq> getParentPath path then ret None
            else
              after (attempts (MovedFile (fs_path f) path) (fh_renameFile h f path)) (\<lambda>renamed.
              case renamed of
                None \<Rightarrow> ret None
              | Some g \<Rightarrow>
                  after (if fh_hasProvenance h then pub_move (fh_pub h) (fs_path f) path else ret ()) (\<lambda>_.
                  ret (Some (Some (g\<lparr>fs_path := path, fs_body := None\<rparr>)))))))"

definition LARGE_BINARY_STREAM_BYTES :: nat where
  "LARGE_BINARY_STREAM_BYTES = 16 * 1024 * 1024"

definition LARGE_BINARY_STREAM_CHUNKS :: nat where
  "LARGE_BINARY_STREAM_CHUNKS = 128"

definition stagesBinary :: "'x file_host \<Rightarrow> meta_entry \<Rightarrow> bool" where
  "stagesBinary h docEntry \<longleftrightarrow>
     \<not> is_text docEntry \<and>
     (LARGE_BINARY_STREAM_BYTES \<le> size_of docEntry \<or> LARGE_BINARY_STREAM_CHUNKS \<le> length (me_children docEntry)) \<and>
     fh_hasProvenance h \<and> fh_stages h"

text \<open>The content is loaded once, when it is first needed.\<close>

definition loadContent :: "'x file_host \<Rightarrow> meta_entry \<Rightarrow> body option \<Rightarrow> ('x, body option) file_call" where
  "loadContent h docEntry loaded = (case loaded of Some b \<Rightarrow> ret (Some b) | None \<Rightarrow> readEntryContentForStorage h docEntry)"

text \<open>A step answers the call (\<open>Inl\<close>) or goes on with what is loaded.\<close>

type_synonym 'x reflection_step = "('x, bool + body option) file_call"

definition sameContentThen ::
    "'x file_host \<Rightarrow> meta_entry \<Rightarrow> file_stub \<Rightarrow> body option \<Rightarrow> ('x, unit) file_call \<Rightarrow> 'x reflection_step" where
  "sameContentThen h docEntry f loaded settle =
     after (loadContent h docEntry loaded) (\<lambda>content.
     case content of
       None \<Rightarrow> ret (Inl False)
     | Some c \<Rightarrow>
         after (readFileFromStub h f) (\<lambda>file.
         if isDocContentSame c (snd file) then after settle (\<lambda>_. ret (Inl True)) else ret (Inr (Some c))))"

definition recordReflected :: "'x file_host \<Rightarrow> string \<Rightarrow> meta_entry \<Rightarrow> file_stub \<Rightarrow> ('x, unit) file_call" where
  "recordReflected h path docEntry f = setProvenance h path (me_rev docEntry) (Some (st_mtime (fs_stat f))) True None"

definition markEntrySame :: "'x file_host \<Rightarrow> meta_entry \<Rightarrow> file_stub \<Rightarrow> ('x, unit) file_call" where
  "markEntrySame h docEntry f = markSame h (me_path docEntry) (me_mtime docEntry) (st_mtime (fs_stat f))"

text \<open>For an explicitly selected revision: a file of the same content is only recorded.\<close>

definition recogniseSelected :: "'x file_host \<Rightarrow> meta_entry \<Rightarrow> string \<Rightarrow> file_stub \<Rightarrow> 'x reflection_step" where
  "recogniseSelected h docEntry path f =
     (if me_size docEntry \<noteq> Some (st_size (fs_stat f)) then ret (Inr None)
      else sameContentThen h docEntry f None (after (recordReflected h path docEntry f) (\<lambda>_. markEntrySame h docEntry f)))"

definition compareWithFile :: "'x file_host \<Rightarrow> meta_entry \<Rightarrow> string \<Rightarrow> file_stub \<Rightarrow> body option \<Rightarrow> 'x reflection_step" where
  "compareWithFile h docEntry path f loaded =
     after (getW (\<lambda>w. fh_freshness h (pw_env w) f docEntry \<noteq> EVEN)) (\<lambda>fresh.
     if fresh \<or> me_size docEntry \<noteq> Some (st_size (fs_stat f)) then ret (Inr loaded)
     else
       sameContentThen h docEntry f loaded
         (after (markEntrySame h docEntry f) (\<lambda>_. recordReflected h path docEntry f)))"

definition preserveBeforeWrite ::
    "'x file_host \<Rightarrow> meta_entry \<Rightarrow> string \<Rightarrow> file_stub \<Rightarrow> waiting_operation \<Rightarrow> body option \<Rightarrow> 'x reflection_step" where
  "preserveBeforeWrite h docEntry path f again loaded =
     (if fh_writeDocumentsIfConflicted h then ret (Inr loaded)
      else
        after (if loaded = None \<and> is_text docEntry
               then after (readEntryContentForStorage h docEntry) (\<lambda>c. ret (case c of None \<Rightarrow> Inl False | Some b \<Rightarrow> Inr (Some b)))
               else ret (Inr loaded)) (\<lambda>content.
        case content of
          Inl b \<Rightarrow> ret (Inl b)
        | Inr known \<Rightarrow>
            after (preserveUnsyncedStorageAsConflict h path f docEntry again known) (\<lambda>p.
            ret (case p of NotApplied \<Rightarrow> Inl False | Preserved \<Rightarrow> Inl True | NotPreserved \<Rightarrow> Inr known))))"

definition writeReflected :: "'x file_host \<Rightarrow> meta_entry \<Rightarrow> string \<Rightarrow> file_stat option \<Rightarrow> body option \<Rightarrow> ('x, bool) file_call" where
  "writeReflected h docEntry path approvedTarget loaded =
     unlessUnloaded h False
       (after (if stagesBinary h docEntry then writeEntryToStorageInParts h docEntry path approvedTarget else ret None) (\<lambda>streamed.
        case streamed of
          Some b \<Rightarrow> ret b
        | None \<Rightarrow>
            after (loadContent h docEntry loaded) (\<lambda>content.
            case content of
              None \<Rightarrow> ret False
            | Some c \<Rightarrow> unlessUnloaded h False (writeEntryToStorage h docEntry path c))))"

definition step_then :: "'x reflection_step \<Rightarrow> (body option \<Rightarrow> ('x, bool) file_call) \<Rightarrow> ('x, bool) file_call" where
  "step_then m f = after m (\<lambda>r. case r of Inl b \<Rightarrow> ret b | Inr loaded \<Rightarrow> f loaded)"

definition reflectEntry ::
    "'x file_host \<Rightarrow> meta_entry \<Rightarrow> string \<Rightarrow> file_stub option \<Rightarrow> bool \<Rightarrow> bool \<Rightarrow> waiting_operation \<Rightarrow> file_stat option \<Rightarrow> ('x, bool) file_call" where
  "reflectEntry h docEntry path existDoc force allowExisting again approvedTarget =
     (case existDoc of
        Some f \<Rightarrow>
          if force then writeReflected h docEntry path approvedTarget None
          else
            after (isStorageUnchangedSinceReflected h f (me_rev docEntry)) (\<lambda>unchanged.
            if unchanged then ret True
            else
              step_then (if allowExisting then recogniseSelected h docEntry path f else ret (Inr None)) (\<lambda>loaded.
              step_then (compareWithFile h docEntry path f loaded) (\<lambda>loaded.
              step_then (preserveBeforeWrite h docEntry path f again loaded) (\<lambda>loaded.
              writeReflected h docEntry path approvedTarget loaded))))
      | None \<Rightarrow> writeReflected h docEntry path approvedTarget None)"

text \<open>The target of a staged file must be the file that was listed, or be absent.\<close>

definition target_changed :: "file_stat option \<Rightarrow> file_stub option \<Rightarrow> bool" where
  "target_changed approved existDoc =
     (case approved of
        None \<Rightarrow> False
      | Some s \<Rightarrow>
          (case existDoc of
             None \<Rightarrow> True
           | Some f \<Rightarrow> \<not> st_isFile s \<or> st_size s \<noteq> st_size (fs_stat f) \<or> st_mtime s \<noteq> st_mtime (fs_stat f)))"

definition again_of :: "string \<Rightarrow> meta_entry \<Rightarrow> bool \<Rightarrow> waiting_operation" where
  "again_of path docEntry allowExisting =
     (case me_rev docEntry of
        Some rv \<Rightarrow> if allowExisting \<and> rv \<noteq> [] then AgainReflectRevision (stripAllPrefixes path) rv else AgainReflect path
      | None \<Rightarrow> AgainReflect path)"

definition applyToFile :: "'x file_host \<Rightarrow> meta_entry \<Rightarrow> string \<Rightarrow> file_stub option \<Rightarrow> bool \<Rightarrow> bool \<Rightarrow> ('x, bool) file_call" where
  "applyToFile h docEntry path existDoc force allowExisting =
     after (if stagesBinary h docEntry then statHidden h path else ret (map_option fs_stat existDoc)) (\<lambda>approved.
     if stagesBinary h docEntry \<and> target_changed approved existDoc then ret False
     else if isDeletedEntry docEntry then applyDatabaseDeletion h docEntry path force (again_of path docEntry allowExisting)
     else
       after (renameToStoredCase h path existDoc) (\<lambda>target.
       case target of
         None \<Rightarrow> ret False
       | Some existDoc' \<Rightarrow> reflectEntry h docEntry path existDoc' force allowExisting (again_of path docEntry allowExisting) approved))"

definition applyDatabaseEntryToStorage :: "'x file_host \<Rightarrow> meta_entry \<Rightarrow> bool \<Rightarrow> bool \<Rightarrow> ('x, bool) file_call" where
  "applyDatabaseEntryToStorage h docEntry force allowExistingConflicts =
     unlessUnloaded h False
       (after (file_getPath docEntry) (\<lambda>path.
        after (getConflictedRevs h path) (\<lambda>revs.
        if revs \<noteq> [] \<and> \<not> allowExistingConflicts \<and> \<not> fh_writeDocumentsIfConflicted h
        then after (asks (fh_queueCheckIfOpen h path) (\<lambda>_. [CheckQueued path])) (\<lambda>_. ret True)
        else
          after (getStub h path) (\<lambda>item.
          case item of
            Some (AFolder _) \<Rightarrow> ret True
          | Some (AFile f) \<Rightarrow> applyToFile h docEntry path (Some f) force allowExistingConflicts
          | None \<Rightarrow> applyToFile h docEntry path None force allowExistingConflicts))))"

section \<open>Which entry is reflected\<close>

datatype file_arg = ByPath string | ByStub file_stub

fun infoToStub :: "'x file_host \<Rightarrow> file_arg \<Rightarrow> ('x, file_stub option) file_call" where
  "infoToStub h (ByPath path) = getFileStub h path"
| "infoToStub h (ByStub file) = ret (Some file)"

fun arg_path :: "file_arg \<Rightarrow> string" where
  "arg_path (ByPath path) = path"
| "arg_path (ByStub file) = fs_path file"

definition nullable_stub :: "'x file_host \<Rightarrow> file_arg option \<Rightarrow> ('x, file_stub option) file_call" where
  "nullable_stub h info = (case info of None \<Rightarrow> ret None | Some i \<Rightarrow> infoToStub h i)"

definition dbToStorage :: "'x file_host \<Rightarrow> entry_or_path \<Rightarrow> file_arg option \<Rightarrow> bool \<Rightarrow> ('x, bool) file_call" where
  "dbToStorage h entryInfo info force =
     after (nullable_stub h info) (\<lambda>_.
     after (case entryInfo of APath p \<Rightarrow> ret p | AnEntry d \<Rightarrow> file_getPath d) (\<lambda>path.
     after (fetchEntryMeta h path None) (\<lambda>doc.
     case doc of None \<Rightarrow> ret False | Some d \<Rightarrow> applyDatabaseEntryToStorage h d force False)))"

definition live_revisions :: "meta_entry option \<Rightarrow> string list \<Rightarrow> string list" where
  "live_revisions current conflicts = (case Option.bind current me_rev of Some r \<Rightarrow> if r = [] then [] else [r] | None \<Rightarrow> []) @ conflicts"

definition dbToStorageWithSpecificRev :: "'x file_host \<Rightarrow> file_arg option \<Rightarrow> string \<Rightarrow> bool \<Rightarrow> ('x, bool) file_call" where
  "dbToStorageWithSpecificRev h info rv force =
     (case info of
        None \<Rightarrow> ret False
      | Some i \<Rightarrow>
          after (infoToStub h i) (\<lambda>file.
          let target = (case file of Some f \<Rightarrow> fs_path f | None \<Rightarrow> arg_path i) in
          after (fetchEntryMeta h target (Some rv)) (\<lambda>doc.
          after (fetchEntryMeta h target None) (\<lambda>current.
          after (getConflictedRevs h target) (\<lambda>conflicts.
          case doc of
            None \<Rightarrow> ret False
          | Some d \<Rightarrow>
              if rv \<notin> set (live_revisions current conflicts) then ret False
              else applyDatabaseEntryToStorage h d force True)))))"

definition recoverMissingPublication :: "'x file_host \<Rightarrow> string \<Rightarrow> ('x, bool) file_call" where
  "recoverMissingPublication h path =
     after (fetchEntryMeta h path None) (\<lambda>entry.
     case entry of None \<Rightarrow> ret False | Some e \<Rightarrow> applyDatabaseEntryToStorage h e False False)"

definition getPendingPublicationRevision :: "'x file_host \<Rightarrow> string \<Rightarrow> ('x, string option) file_call" where
  "getPendingPublicationRevision h path =
     (if fh_hasProvenance h then missingPublication (fh_pub h) path else ret None)"

end
