(* ===== verification/FileStores.thy ===== *)
theory FileStores
  imports FileHandler
begin

text \<open>
  The other direction of \<open>src/serviceModules/ServiceFileHandlerBase.ts\<close>: a changed, removed or renamed file of the
  storage becomes a revision of the database, the confirmation of empty reads on Android with the operations that
  wait for it, the preparation of a path for an early reception, and the handlers of storage events and of
  replicated entries. A waiting operation that runs may run others; the argument \<open>run\<close> is the runner of those, and
  \<open>runWaiting\<close> closes the circle with a bound on the depth.
\<close>

type_synonym 'x runner = "waiting_operation \<Rightarrow> ('x, bool) file_call"

section \<open>Settling an empty read\<close>

definition waits_for :: "'x file_host \<Rightarrow> string \<Rightarrow> 'x file_world \<Rightarrow> (nat \<times> waiting_operation list) option" where
  "waits_for h path w = (if hostUnloaded h w then None else jm_get (fw_waiting w) path)"

definition count_confirmed :: "string \<Rightarrow> bool \<Rightarrow> 'x file_world \<Rightarrow> 'x file_world" where
  "count_confirmed path up w =
     (let n = (case jm_get (fw_confirmed w) path of Some n \<Rightarrow> n | None \<Rightarrow> if up then 0 else 1)
      in w\<lparr>fw_confirmed :=
            if up then jm_set path (Suc n) (fw_confirmed w)
            else if 1 < n then jm_set path (n - 1) (fw_confirmed w) else jm_delete path (fw_confirmed w)\<rparr>)"

text \<open>Reflections run before stores; what one of them throws is logged.\<close>

definition settleEmptyRead :: "'x runner \<Rightarrow> string \<Rightarrow> waiting_operation list \<Rightarrow> bool \<Rightarrow> ('x, unit) file_call" where
  "settleEmptyRead run path operations confirmedEmpty =
     after (modifyW (\<lambda>w. w\<lparr>fw_waiting := jm_delete path (fw_waiting w)\<rparr>)) (\<lambda>_.
     after (modifyW (if confirmedEmpty then count_confirmed path True else id)) (\<lambda>_.
     after (forEach (\<lambda>operation. log_only () (after (run operation) (\<lambda>_. ret ())))
              (filter is_reflection operations @ filter (\<lambda>op. \<not> is_reflection op) operations)) (\<lambda>_.
     modifyW (if confirmedEmpty then count_confirmed path False else id))))"

definition settleEmptyReadWithContent :: "'x file_host \<Rightarrow> 'x runner \<Rightarrow> string \<Rightarrow> ('x, bool) file_call" where
  "settleEmptyReadWithContent h run path =
     after (getW (waits_for h path)) (\<lambda>pending.
     case pending of None \<Rightarrow> ret False | Some (i, ops) \<Rightarrow> after (settleEmptyRead run path ops False) (\<lambda>_. ret True))"

text \<open>
  A check of the confirmation \<open>i\<close> after its \<open>n\<close>-th delay, counted from 0; of the five, the last one settles it. The answer is
  whether another check follows, with the result of this one.
\<close>

definition ANDROID_EMPTY_READ_CHECKS :: nat where
  "ANDROID_EMPTY_READ_CHECKS = 5"

definition confirmEmptyRead :: "'x file_host \<Rightarrow> 'x runner \<Rightarrow> string \<Rightarrow> nat \<Rightarrow> nat \<Rightarrow> ('x, bool) file_call" where
  "confirmEmptyRead h run path i n =
     after (getW (waits_for h path)) (\<lambda>pending.
     if map_option fst pending \<noteq> Some i then ret False
     else
       after (log_only None (after (statOf h path) (\<lambda>s. ret (Some s)))) (\<lambda>checked.
       after (getW (waits_for h path)) (\<lambda>pending.
       if map_option fst pending \<noteq> Some i then ret False
       else
         let isEmpty = (case checked of Some (Some s) \<Rightarrow> st_size s = 0 | _ \<Rightarrow> False);
             settled = (checked \<noteq> None \<and> \<not> isEmpty)
         in if settled \<or> ANDROID_EMPTY_READ_CHECKS \<le> Suc n
            then after (settleEmptyRead run path (snd (the pending)) isEmpty) (\<lambda>_. ret False)
            else ret True)))"

section \<open>Storing a file\<close>

definition rev_of :: "meta_entry \<Rightarrow> string" where
  "rev_of d = (case me_rev d of Some r \<Rightarrow> r | None \<Rightarrow> [])"

definition same_as :: "read_entry option \<Rightarrow> file_stub \<times> body \<Rightarrow> bool" where
  "same_as loaded file = (case loaded of Some l \<Rightarrow> isDocContentSame (le_data l) (snd file) | None \<Rightarrow> False)"

text \<open>The revision that was stored is recorded for its path, and the record of the path it was renamed from is given up.\<close>

definition recordStored :: "'x file_host \<Rightarrow> string \<Rightarrow> file_stub \<times> body \<Rightarrow> string \<Rightarrow> string option \<Rightarrow> ('x, unit) file_call" where
  "recordStored h path file stored preferred =
     after (case preferred of Some p \<Rightarrow> if p \<noteq> path \<and> p \<noteq> [] then deleteProvenance h p else ret () | None \<Rightarrow> ret ()) (\<lambda>_.
     setProvenance h path (Some stored) (observed file) False None)"

definition recheckIfStoredEmpty :: "file_stub \<times> body \<Rightarrow> ('x, unit) file_call" where
  "recheckIfStoredEmpty file =
     modifyW (\<lambda>w. if body_size (snd file) = 0 then w\<lparr>fw_rechecks := List.insert (fs_path (fst file)) (fw_rechecks w)\<rparr> else w)"

definition recordStoredRevision :: "'x file_host \<Rightarrow> string \<Rightarrow> file_stub \<times> body \<Rightarrow> string \<Rightarrow> string option \<Rightarrow> ('x, bool) file_call" where
  "recordStoredRevision h path file stored preferred =
     after (recordStored h path file stored preferred) (\<lambda>_. after (recheckIfStoredEmpty file) (\<lambda>_. ret True))"

definition recordAndCheck :: "'x file_host \<Rightarrow> string \<Rightarrow> file_stub \<times> body \<Rightarrow> string \<Rightarrow> string option \<Rightarrow> ('x, bool) file_call" where
  "recordAndCheck h path file stored preferred =
     after (recordStored h path file stored preferred) (\<lambda>_. after (queueCheckFor h path) (\<lambda>_. ret True))"

text \<open>Whether the storage was last seen to show this revision; an unreadable record proves nothing.\<close>

definition isStorageRecordedAsRevision :: "'x file_host \<Rightarrow> string \<Rightarrow> string option \<Rightarrow> ('x, bool) file_call" where
  "isStorageRecordedAsRevision h path revision =
     (if \<not> fh_hasProvenance h then ret False
      else log_only False (after (pub_get (fh_pub h) path) (\<lambda>record.
        ret (case record of Some r \<Rightarrow> pv_pending r = None \<and> Some (pv_revision r) = revision | None \<Rightarrow> False))))"

text \<open>\<open>None\<close> is the answer \<open>false\<close>, \<open>Some None\<close> is \<open>undefined\<close>.\<close>

definition revisionShownBeforeWinner :: "'x file_host \<Rightarrow> string \<Rightarrow> string option \<Rightarrow> ('x, string option option) file_call" where
  "revisionShownBeforeWinner h path winner =
     (case winner of
        None \<Rightarrow> ret (Some None)
      | Some win \<Rightarrow>
          if \<not> fh_hasProvenance h \<or> win = [] then ret (Some None)
          else
            log_only None
              (after (pub_get (fh_pub h) path) (\<lambda>record.
               case record of
                 None \<Rightarrow> ret (Some None)
               | Some r \<Rightarrow>
                   if pv_pending r \<noteq> None \<or> pv_revision r = win then ret (Some None)
                   else
                     after (isRevisionInHistory h path (pv_revision r) win) (\<lambda>shown.
                     ret (Some (if shown then Some (pv_revision r) else None))))))"

definition preserveBesideConcurrentRevision ::
    "'x file_host \<Rightarrow> string \<Rightarrow> file_stub \<times> body \<Rightarrow> string option \<Rightarrow> string option \<Rightarrow> ('x, bool) file_call" where
  "preserveBesideConcurrentRevision h path file superseded preferred =
     after (storeWithBaseRevision h file superseded) (\<lambda>stored.
     case stored of None \<Rightarrow> ret False | Some r \<Rightarrow> recordAndCheck h path file r preferred)"

definition keepBesideUnreflectedWinner ::
    "'x file_host \<Rightarrow> file_stub \<Rightarrow> file_stub \<times> body \<Rightarrow> string \<Rightarrow> string option \<Rightarrow> ('x, bool) file_call" where
  "keepBesideUnreflectedWinner h file read shownRevision preferred =
     after (matchStorageToRecord h file 0 (Some shownRevision) False False) (\<lambda>recorded.
     after (case recorded of
              None \<Rightarrow> ret False
            | Some (r, s) \<Rightarrow>
                if RECOGNISE_REFLECTED_STORAGE_BYTES \<le> st_size s then ret True
                else after (fetchEntry h (fs_path file) (Some shownRevision)) (\<lambda>shown. ret (same_as shown read))) (\<lambda>unchanged.
     if unchanged then ret True
     else preserveBesideConcurrentRevision h (fs_path file) read (Some shownRevision) preferred))"

text \<open>A conflicted entry: the file extends the branch it shows, or is kept beside the winner.\<close>

definition storeOnBranch ::
    "'x file_host \<Rightarrow> string \<Rightarrow> file_stub \<times> body \<Rightarrow> read_entry option \<Rightarrow> bool \<Rightarrow> string option \<Rightarrow> ('x, bool) file_call" where
  "storeOnBranch h path file loaded force preferred =
     after (getProvenBaseRevision h file preferred) (\<lambda>base.
     case base of
       Some b \<Rightarrow>
         after (fetchEntry h path (Some b)) (\<lambda>shown.
         if same_as shown file \<and> \<not> force
         then after (setProvenance h path (Some b) (observed file) False None) (\<lambda>_. ret True)
         else
           after (storeWithBaseRevision h file (Some b)) (\<lambda>stored.
           case stored of None \<Rightarrow> ret False | Some r \<Rightarrow> recordAndCheck h path file r preferred))
     | None \<Rightarrow>
         after (case loaded of Some l \<Rightarrow> ret (Some (le_meta l)) | None \<Rightarrow> fetchEntryMeta h path None) (\<lambda>current.
         case Option.bind current me_rev of
           None \<Rightarrow> after (queueCheckFor h path) (\<lambda>_. ret False)
         | Some rv \<Rightarrow>
             after (storeAsConflictedRevision h file rv) (\<lambda>stored.
             case stored of
               None \<Rightarrow> after (queueCheckFor h path) (\<lambda>_. ret False)
             | Some r \<Rightarrow> recordAndCheck h path file r preferred)))"

text \<open>The policy for CouchDB.\<close>

definition storeByFreshness ::
    "'x file_host \<Rightarrow> file_stub \<Rightarrow> file_stub \<times> body \<Rightarrow> read_entry option \<Rightarrow> bool \<Rightarrow> string option \<Rightarrow> ('x, bool) file_call" where
  "storeByFreshness h file read loaded force preferred =
     (let path = fs_path file;
          store = (\<lambda>base. after (storeWithBaseRevision h read base) (\<lambda>stored.
            case stored of None \<Rightarrow> ret False | Some r \<Rightarrow> recordStoredRevision h path read r preferred))
      in
      case loaded of
        None \<Rightarrow> store None
      | Some l \<Rightarrow>
          if isDeletedEntry (le_meta l) then store (me_rev (le_meta l))
          else
            after (if force then ret True
                   else
                     after (getW (\<lambda>w. fh_freshness h (pw_env w) file (le_meta l) \<noteq> EVEN)) (\<lambda>differs.
                     if differs then ret True
                     else if same_as loaded read
                     then after (markSame h path (st_mtime (fs_stat (fst read))) (me_mtime (le_meta l))) (\<lambda>_. ret False)
                     else ret True)) (\<lambda>changed.
            if \<not> changed
            then after (setProvenance h path (me_rev (le_meta l)) (observed read) False None) (\<lambda>_. ret True)
            else store (me_rev (le_meta l))))"

text \<open>\<open>again\<close> stores once more from the current state; \<open>retry\<close> is the revision that the first attempt was going to extend.\<close>

definition storeAgainFromCurrentState ::
    "(string \<Rightarrow> string option \<Rightarrow> ('x, bool) file_call) \<Rightarrow> string \<Rightarrow> string option \<Rightarrow> string option option \<Rightarrow> ('x, bool) file_call" where
  "storeAgainFromCurrentState again path superseded retry = (if retry \<noteq> None then ret False else again path superseded)"

text \<open>The policy for object storage: conditional writes, and content decides.\<close>

definition storeByContent ::
    "'x file_host \<Rightarrow> (string \<Rightarrow> string option \<Rightarrow> ('x, bool) file_call) \<Rightarrow> file_stub \<Rightarrow> file_stub \<times> body \<Rightarrow> read_entry option \<Rightarrow> bool \<Rightarrow>
     string option \<Rightarrow> string option option \<Rightarrow> ('x, bool) file_call" where
  "storeByContent h again file read loaded force preferred retry =
     (let path = fs_path file;
          store = (\<lambda>base. after (storeWithLiveBaseRevision h read base) (\<lambda>stored.
            case stored of
              None \<Rightarrow> storeAgainFromCurrentState again path base retry
            | Some r \<Rightarrow> recordStoredRevision h path read r preferred))
      in
      case loaded of
        None \<Rightarrow> store None
      | Some l \<Rightarrow>
          if isDeletedEntry (le_meta l) then store (me_rev (le_meta l))
          else if \<not> force \<and> same_as loaded read
          then
            after (markSame h path (st_mtime (fs_stat (fst read))) (me_mtime (le_meta l))) (\<lambda>_.
            after (setProvenance h path (me_rev (le_meta l)) (observed read) False None) (\<lambda>_. ret True))
          else
            after (if force then ret (Some None) else revisionShownBeforeWinner h path (me_rev (le_meta l))) (\<lambda>shown.
            case shown of
              None \<Rightarrow> ret False
            | Some (Some r) \<Rightarrow> keepBesideUnreflectedWinner h file read r preferred
            | Some None \<Rightarrow>
                after (case retry of
                         None \<Rightarrow> ret False
                       | Some superseded \<Rightarrow>
                           if superseded = me_rev (le_meta l) \<or> force then ret False
                           else after (isStorageRecordedAsRevision h path (me_rev (le_meta l))) (\<lambda>own. ret (\<not> own))) (\<lambda>concurrent.
                if concurrent
                then preserveBesideConcurrentRevision h path read (case retry of Some s \<Rightarrow> s | None \<Rightarrow> None) preferred
                else store (me_rev (le_meta l)))))"

text \<open>The coordinator of a host without a store of records throws at every access.\<close>

definition coordinatorGet :: "'x file_host \<Rightarrow> string \<Rightarrow> ('x, provenance option) file_call" where
  "coordinatorGet h path = (if fh_hasProvenance h then pub_get (fh_pub h) path else throw UnknownFileWriteState)"

text \<open>Before the scan has run, a file without a record is kept beside the entry that arrived; \<open>None\<close> when this does not apply.\<close>

definition storeUnrecorded ::
    "'x file_host \<Rightarrow> string \<Rightarrow> file_stub \<times> body \<Rightarrow> read_entry option \<Rightarrow> bool \<Rightarrow> ('x, bool option) file_call" where
  "storeUnrecorded h path file loaded force =
     after (getW (\<lambda>w. (fw_required w \<or> path \<in> set (fw_paths w)) \<and> fh_usesObjectStorage h \<and> \<not> force)) (\<lambda>held.
     if \<not> held then ret None
     else
       after (coordinatorGet h path) (\<lambda>record.
       if record \<noteq> None then ret None
       else
         after (case loaded of Some l \<Rightarrow> ret (Some (le_meta l)) | None \<Rightarrow> fetchEntryMeta h path None) (\<lambda>current.
         case current of
           None \<Rightarrow> ret None
         | Some c \<Rightarrow>
             if \<not> isDeletedEntry c \<and> same_as loaded file
             then after (setProvenance h path (me_rev c) (observed file) False None) (\<lambda>_. ret (Some True))
             else
               after (storeAsConflictedRevision h file (rev_of c)) (\<lambda>stored.
               case stored of
                 None \<Rightarrow> ret (Some False)
               | Some r \<Rightarrow>
                   after (setProvenance h path (Some r) (observed file) False None) (\<lambda>_.
                   after (queueCheckFor h path) (\<lambda>_. ret (Some True)))))))"

text \<open>
  On Android a file that reads as empty waits, unless its emptiness is confirmed or was written by this device; a
  confirmed one never replaces content. What waits for a file that reads with content runs first, and the file is
  then read again. The answer ends the call, or the file goes on.
\<close>

definition storeEmptyOnAndroid ::
    "'x file_host \<Rightarrow> file_stub \<Rightarrow> file_stub \<times> body \<Rightarrow> bool \<Rightarrow> string option \<Rightarrow> ('x, bool option) file_call" where
  "storeEmptyOnAndroid h file read force preferred =
     (let path = fs_path file in
      if body_size (snd read) \<noteq> 0 then ret None
      else
        after (isOwnEmptyReflection h path (fs_stat (fst read))) (\<lambda>own.
        if own then ret None
        else
          after (checkConfirmed path) (\<lambda>confirmed.
          if \<not> confirmed
          then after (waitForEmptyReadToSettle h path (AgainStore path force preferred)) (\<lambda>b. ret (Some b))
          else
            after (databaseHoldsContent h path) (\<lambda>holds.
            if holds then ret (Some False)
            else
              (case preferred of
                 None \<Rightarrow> ret None
               | Some p \<Rightarrow>
                   if p = path \<or> p = [] then ret None
                   else after (databaseHoldsContent h p) (\<lambda>source. ret (if source then Some False else None)))))))"

definition gateOnAndroid ::
    "'x file_host \<Rightarrow> 'x runner \<Rightarrow> file_stub \<Rightarrow> file_stub \<times> body \<Rightarrow> bool \<Rightarrow> string option \<Rightarrow>
     ('x, bool + file_stub \<times> file_stub \<times> body) file_call" where
  "gateOnAndroid h run file read force preferred =
     (if \<not> fh_isAndroid h then ret (Inr (file, read))
      else
        after (if body_size (snd read) = 0 then ret False else settleEmptyReadWithContent h run (fs_path file)) (\<lambda>settled.
        after (if \<not> settled then ret (Some (file, read))
               else
                 after (getFileStub h (fs_path file)) (\<lambda>current.
                 case current of
                   None \<Rightarrow> ret None
                 | Some c \<Rightarrow> after (readFileFromStub h c) (\<lambda>r. ret (Some (c, r))))) (\<lambda>current.
        case current of
          None \<Rightarrow> ret (Inl False)
        | Some (file', read') \<Rightarrow>
            after (storeEmptyOnAndroid h (file'\<lparr>fs_path := fs_path file\<rparr>) read' force preferred) (\<lambda>answer.
            ret (case answer of Some b \<Rightarrow> Inl b | None \<Rightarrow> Inr (file', read'))))))"

definition storeCompared ::
    "'x file_host \<Rightarrow> (string \<Rightarrow> string option \<Rightarrow> ('x, bool) file_call) \<Rightarrow> file_stub \<Rightarrow> file_stub \<times> body \<Rightarrow> bool \<Rightarrow>
     string option \<Rightarrow> string option option \<Rightarrow> ('x, bool) file_call" where
  "storeCompared h again file read force preferred retry =
     after (fetchEntryForComparison h (fs_path file) None) (\<lambda>loaded.
     after (storeUnrecorded h (fs_path file) read loaded force) (\<lambda>answer.
     case answer of
       Some b \<Rightarrow> ret b
     | None \<Rightarrow>
         after (getConflictedRevs h (fs_path file)) (\<lambda>conflicts.
         if conflicts \<noteq> [] then storeOnBranch h (fs_path file) read loaded force preferred
         else if \<not> fh_usesObjectStorage h then storeByFreshness h file read loaded force preferred
         else storeByContent h again file read loaded force preferred retry)))"

definition storeAttempt ::
    "'x file_host \<Rightarrow> 'x runner \<Rightarrow> (string \<Rightarrow> string option \<Rightarrow> ('x, bool) file_call) \<Rightarrow> file_arg \<Rightarrow> bool \<Rightarrow> bool \<Rightarrow>
     string option \<Rightarrow> string option option \<Rightarrow> ('x, bool) file_call" where
  "storeAttempt h run again info force onlyChunks preferred retry =
     after (infoToStub h info) (\<lambda>stub.
     case stub of
       None \<Rightarrow> ret False
     | Some file \<Rightarrow>
         if fs_internal file then ret False
         else
           after (case preferred of
                    Some p \<Rightarrow> if p \<noteq> fs_path file \<and> p \<noteq> [] \<and> fh_hasProvenance h then pub_move (fh_pub h) p (fs_path file) else ret ()
                  | None \<Rightarrow> ret ()) (\<lambda>_.
           after (getPendingPublicationRevision h (fs_path file)) (\<lambda>pending.
           if pending \<noteq> None then recoverMissingPublication h (fs_path file)
           else if onlyChunks then after (readFileFromStub h file) (\<lambda>read. createChunks h read force)
           else
             after (if force then ret False else isStorageUnchangedSinceReflected h file None) (\<lambda>unchanged.
             if unchanged then ret True
             else
               after (readFileFromStub h file) (\<lambda>read.
               after (gateOnAndroid h run file read force preferred) (\<lambda>gate.
               case gate of
                 Inl b \<Rightarrow> ret b
               | Inr (file', read') \<Rightarrow> storeCompared h again file' read' force preferred retry))))))"

text \<open>The second attempt is the last one.\<close>

definition storeFileToDBFromRevision ::
    "'x file_host \<Rightarrow> 'x runner \<Rightarrow> file_arg \<Rightarrow> bool \<Rightarrow> bool \<Rightarrow> string option \<Rightarrow> ('x, bool) file_call" where
  "storeFileToDBFromRevision h run info force onlyChunks preferred =
     storeAttempt h run
       (\<lambda>path superseded. storeAttempt h run (\<lambda>_ _. ret False) (ByPath path) force False preferred (Some superseded))
       info force onlyChunks preferred None"

definition storeFileToDB :: "'x file_host \<Rightarrow> 'x runner \<Rightarrow> file_arg \<Rightarrow> bool \<Rightarrow> bool \<Rightarrow> string option \<Rightarrow> ('x, bool) file_call" where
  "storeFileToDB h run info force onlyChunks preferred = storeFileToDBFromRevision h run info force onlyChunks preferred"

text \<open>A store outside the handlers of events; on object storage it waits for the lock of the path.\<close>

definition storeFileToDBUnderFileEventLock :: "'x file_host \<Rightarrow> 'x runner \<Rightarrow> file_arg \<Rightarrow> ('x, bool) file_call" where
  "storeFileToDBUnderFileEventLock h run info =
     unlessUnloaded h False
       (if \<not> fh_usesObjectStorage h then storeFileToDB h run info False False None
        else after (pause h) (\<lambda>_. storeFileToDB h run info False False None))"

text \<open>A store on a revision that was selected, for the resolution of a conflict.\<close>

definition storeOnSelected ::
    "'x file_host \<Rightarrow> file_stub \<times> body \<Rightarrow> string \<Rightarrow> meta_entry \<Rightarrow> string \<Rightarrow> bool \<Rightarrow> ('x, bool) file_call" where
  "storeOnSelected h read path baseEntry baseRevision createIfDifferent =
     after (if isDeletedEntry baseEntry then ret False
            else after (fetchEntry h path (Some baseRevision)) (\<lambda>loaded. ret (same_as loaded read))) (\<lambda>same.
     if same
     then after (setProvenance h path (Some baseRevision) (observed read) False None) (\<lambda>_.
          after (queueCheckFor h path) (\<lambda>_. ret True))
     else if \<not> createIfDifferent then ret False
     else
       after (if fh_isAndroid h \<and> body_size (snd read) = 0
              then after (isOwnEmptyReflection h path (fs_stat (fst read))) (\<lambda>own. ret (\<not> own)) else ret False) (\<lambda>emptyRead.
       after (checkConfirmed path) (\<lambda>confirmed.
       if emptyRead \<and> \<not> confirmed then waitForEmptyReadToSettle h path (AgainStoreOn path baseRevision createIfDifferent)
       else if emptyRead \<and> \<not> isDeletedEntry baseEntry \<and> 0 < size_of baseEntry then ret False
       else
         after (storeWithBaseRevision h read (Some baseRevision)) (\<lambda>stored.
         case stored of
           None \<Rightarrow> ret False
         | Some r \<Rightarrow>
             after (setProvenance h path (Some r) (observed read) False None) (\<lambda>_.
             after (queueCheckFor h path) (\<lambda>_. ret True))))))"

definition storeFileToDBWithBaseRevision ::
    "'x file_host \<Rightarrow> 'x runner \<Rightarrow> file_arg \<Rightarrow> string \<Rightarrow> bool \<Rightarrow> ('x, bool) file_call" where
  "storeFileToDBWithBaseRevision h run info baseRevision createIfDifferent =
     after (infoToStub h info) (\<lambda>stub.
     case stub of
       None \<Rightarrow> ret False
     | Some file \<Rightarrow>
         if fs_internal file then ret False
         else
           after (getPendingPublicationRevision h (fs_path file)) (\<lambda>pending.
           if pending \<noteq> None then ret False
           else
             after (fetchEntryMeta h (fs_path file) (Some baseRevision)) (\<lambda>baseEntry.
             after (fetchEntryMeta h (fs_path file) None) (\<lambda>currentEntry.
             after (getConflictedRevs h (fs_path file)) (\<lambda>conflicts.
             case baseEntry of
               None \<Rightarrow> ret False
             | Some b \<Rightarrow>
                 if me_rev b \<noteq> Some baseRevision \<or> baseRevision \<notin> set (live_revisions currentEntry conflicts) then ret False
                 else
                   after (readFileFromStub h file) (\<lambda>read.
                   after (if fh_isAndroid h \<and> 0 < body_size (snd read)
                          then settleEmptyReadWithContent h run (fs_path file) else ret False) (\<lambda>settled.
                   if settled then run (AgainStoreOn (fs_path file) baseRevision createIfDifferent)
                   else storeOnSelected h read (fs_path file) b baseRevision createIfDifferent)))))))"

section \<open>Deletions and renames\<close>

definition deleteOnRevision :: "'x file_host \<Rightarrow> string \<Rightarrow> string \<Rightarrow> ('x, bool) file_call" where
  "deleteOnRevision h path revision =
     after (storeDeletionWithBaseRevision h path revision) (\<lambda>stored.
     if stored = None then ret False
     else after (deleteProvenance h path) (\<lambda>_. after (queueCheckFor h path) (\<lambda>_. ret True)))"

definition fetchEntryToDelete :: "'x file_host \<Rightarrow> string \<Rightarrow> ('x, meta_entry option) file_call" where
  "fetchEntryToDelete h path =
     (let whole = after (fetchEntry h path None) (\<lambda>e. ret (map_option le_meta e)) in
      after (fetchEntryMeta h path None) (\<lambda>meta.
      case meta of
        None \<Rightarrow> ret None
      | Some m \<Rightarrow>
          if isDeletedEntry m then ret (Some m)
          else
            (case fh_inspectBinary h of
               None \<Rightarrow> whole
             | Some inspect \<Rightarrow>
                 if is_text m then whole
                 else
                   after (asks (inspect m) (\<lambda>_. [])) (\<lambda>a.
                   case a of Streamable \<Rightarrow> ret (Some m) | Missing \<Rightarrow> ret None | NotInspected \<Rightarrow> whole))))"

text \<open>Removing an entry without conflicts, whole, with the record of its path.\<close>

definition removeEntry :: "'x file_host \<Rightarrow> string \<Rightarrow> ('x, bool) file_call" where
  "removeEntry h path =
     after (deleteEntry h path None) (\<lambda>removed.
     after (if removed then deleteProvenance h path else ret ()) (\<lambda>_. ret removed))"

text \<open>Of a conflicted entry only the branch that the file showed is deleted, and none when it is unknown.\<close>

definition deleteShownBranch :: "'x file_host \<Rightarrow> string \<Rightarrow> string option \<Rightarrow> ('x, bool) file_call" where
  "deleteShownBranch h path base =
     (case base of
        None \<Rightarrow> after (queueCheckFor h path) (\<lambda>_. ret True)
      | Some r \<Rightarrow> deleteOnRevision h path r)"

text \<open>Before the scan has run, a deletion needs an absent file and a record.\<close>

definition deletePrepared :: "'x file_host \<Rightarrow> string \<Rightarrow> ('x, bool) file_call" where
  "deletePrepared h path =
     after (statHidden h path) (\<lambda>stat.
     if stat \<noteq> None then ret False
     else
       after (catching (coordinatorGet h path) (\<lambda>e. if e = UnknownFileWriteState then ret None else throw e)) (\<lambda>record.
       case record of
         None \<Rightarrow> ret False
       | Some r \<Rightarrow>
           if pv_pending r \<noteq> None \<or> (pv_incomplete r \<noteq> None \<and> pv_incomplete r \<noteq> Some []) then ret False
           else deleteOnRevision h path (pv_revision r)))"

definition deleteAbsent :: "'x file_host \<Rightarrow> string \<Rightarrow> ('x, bool) file_call" where
  "deleteAbsent h path =
     after (fetchEntryToDelete h path) (\<lambda>entry.
     case entry of
       None \<Rightarrow> ret False
     | Some e \<Rightarrow>
         if isDeletedEntry e then ret False
         else
           after (getConflictedRevs h path) (\<lambda>conflicts.
           if conflicts \<noteq> []
           then after (getProvenance h path) (\<lambda>r. deleteShownBranch h path (map_option pv_revision r))
           else removeEntry h path))"

definition deletePresent :: "'x file_host \<Rightarrow> file_stub \<Rightarrow> ('x, bool) file_call" where
  "deletePresent h file =
     (let path = fs_path file in
      after (fetchEntryToDelete h path) (\<lambda>entry.
      case entry of
        None \<Rightarrow> ret False
      | Some e \<Rightarrow>
          if isDeletedEntry e then ret False
          else
            after (getConflictedRevs h path) (\<lambda>conflicts.
            if conflicts \<noteq> []
            then
              after (getProvenance h path) (\<lambda>r.
              after (case r of
                       Some p \<Rightarrow> ret (Some (pv_revision p))
                     | None \<Rightarrow> log_only None (after (readFileFromStub h file) (findUniqueContentRevision h))) (\<lambda>base.
              deleteShownBranch h path base))
            else removeEntry h path)))"

definition deleteFileFromDB :: "'x file_host \<Rightarrow> file_arg \<Rightarrow> ('x, bool) file_call" where
  "deleteFileFromDB h info =
     after (infoToStub h info) (\<lambda>file.
     let path = arg_path info in
     after (getW (\<lambda>w. (fw_required w \<or> path \<noteq> [] \<and> path \<in> set (fw_paths w)) \<and> fh_usesObjectStorage h)) (\<lambda>held.
     if held then (if path = [] then ret False else deletePrepared h path)
     else
       after (getPendingPublicationRevision h path) (\<lambda>pending.
       if pending \<noteq> None then recoverMissingPublication h path
       else
         (case file of
            None \<Rightarrow> deleteAbsent h path
          | Some f \<Rightarrow> if fs_internal f then ret False else deletePresent h f))))"

definition deleteRenameSource :: "'x file_host \<Rightarrow> file_stub \<Rightarrow> string \<Rightarrow> meta_entry option \<Rightarrow> ('x, bool) file_call" where
  "deleteRenameSource h info oldPath oldEntry =
     (if (case oldEntry of Some e \<Rightarrow> isDeletedEntry e | None \<Rightarrow> True) then ret True
      else
        after (getConflictedRevs h oldPath) (\<lambda>conflicts.
        if conflicts = [] then removeEntry h oldPath
        else
          after (getProvenance h oldPath) (\<lambda>r.
          after (case r of
                   Some p \<Rightarrow> ret (Some (pv_revision p))
                 | None \<Rightarrow>
                     after (readFileFromStub h info) (\<lambda>read.
                     after (asks (fh_findContent h oldPath (snd read)) (\<lambda>_. [])) (\<lambda>revisions.
                     ret (case revisions of [x] \<Rightarrow> Some x | _ \<Rightarrow> None)))) (\<lambda>base.
          deleteShownBranch h oldPath base))))"

definition deleteRenameSourceOnceTargetIsStored ::
    "'x file_host \<Rightarrow> file_stub \<Rightarrow> string \<Rightarrow> string \<Rightarrow> meta_entry option \<Rightarrow> ('x, bool) file_call" where
  "deleteRenameSourceOnceTargetIsStored h info oldPath newPath oldEntry =
     waitForEmptyReadToSettle h newPath (AgainDeleteSource info oldPath newPath oldEntry)"

text \<open>The waiting operation of the call above.\<close>

definition deleteSourceIfStored ::
    "'x file_host \<Rightarrow> file_stub \<Rightarrow> string \<Rightarrow> string \<Rightarrow> meta_entry option \<Rightarrow> ('x, bool) file_call" where
  "deleteSourceIfStored h info oldPath newPath oldEntry =
     after (getW (waits_for h newPath)) (\<lambda>waiting.
     if waiting \<noteq> None then deleteRenameSourceOnceTargetIsStored h info oldPath newPath oldEntry
     else
       after (fetchEntryMeta h newPath None) (\<lambda>target.
       if (case target of Some t \<Rightarrow> isDeletedEntry t | None \<Rightarrow> True) then ret False
       else
         after (getFileStub h newPath) (\<lambda>current.
         deleteRenameSource h (case current of Some c \<Rightarrow> c | None \<Rightarrow> info) oldPath oldEntry)))"

definition renameFileInDB :: "'x file_host \<Rightarrow> 'x runner \<Rightarrow> file_stub \<Rightarrow> string \<Rightarrow> ('x, bool) file_call" where
  "renameFileInDB h run info oldPath =
     (let newPath = fs_path info in
      after (pause h) (\<lambda>_.
      if path2id (fh_sha h) (fh_paths h) oldPath [] = path2id (fh_sha h) (fh_paths h) newPath []
      then storeFileToDBFromRevision h run (ByStub info) True False (Some oldPath)
      else
        after (fetchEntryMeta h oldPath None) (\<lambda>oldEntry.
        after (fetchEntryMeta h newPath None) (\<lambda>newEntry.
        if (case newEntry of Some e \<Rightarrow> \<not> isDeletedEntry e | None \<Rightarrow> False) then ret False
        else
          after (storeFileToDB h run (ByStub info) True False (Some oldPath)) (\<lambda>stored.
          if \<not> stored then ret False
          else
            after (getW (waits_for h newPath)) (\<lambda>waiting.
            if waiting \<noteq> None then deleteRenameSourceOnceTargetIsStored h info oldPath newPath oldEntry
            else deleteRenameSource h info oldPath oldEntry))))))"

definition deleteRevisionFromDB :: "'x file_host \<Rightarrow> string \<Rightarrow> string \<Rightarrow> ('x, bool) file_call" where
  "deleteRevisionFromDB h path rv =
     after (getProvenance h path) (\<lambda>r.
     after (deleteEntry h path (Some rv)) (\<lambda>removed.
     after (if removed \<and> map_option pv_revision r = Some rv then deleteProvenance h path else ret ()) (\<lambda>_.
     ret removed)))"

text \<open>The answer \<open>undefined\<close> of a success is \<open>None\<close>.\<close>

definition resolveConflictedByDeletingRevision :: "'x file_host \<Rightarrow> file_arg \<Rightarrow> string \<Rightarrow> ('x, bool option) file_call" where
  "resolveConflictedByDeletingRevision h info rv =
     after (infoToStub h info) (\<lambda>file.
     after (fetchEntryMeta h (case file of Some f \<Rightarrow> fs_path f | None \<Rightarrow> arg_path info) (Some rv)) (\<lambda>doc.
     case doc of
       None \<Rightarrow> ret (Some False)
     | Some d \<Rightarrow>
         after (deleteRevisionFromDB h (arg_path info) rv) (\<lambda>removed.
         if \<not> removed then ret (Some False)
         else
           after (applyDatabaseEntryToStorage h d True False) (\<lambda>applied.
           if \<not> applied then ret (Some False)
           else after (deleteProvenance h (arg_path info)) (\<lambda>_. ret None)))))"

section \<open>The waiting operations\<close>

text \<open>
  What a waiting operation does when it runs. It may run other waiting operations, and a store on a selected revision
  runs again when something was waiting; the number bounds this depth.
\<close>

primrec runWaiting :: "'x file_host \<Rightarrow> nat \<Rightarrow> 'x runner" where
  "runWaiting h 0 = (\<lambda>operation. throw (error_text ''depth''))"
| "runWaiting h (Suc n) = (\<lambda>operation.
     case operation of
       AgainReflect path \<Rightarrow> dbToStorage h (APath path) (Some (ByPath (stripAllPrefixes path))) False
     | AgainReflectRevision path rv \<Rightarrow> dbToStorageWithSpecificRev h (Some (ByPath path)) rv False
     | AgainStore path force preferred \<Rightarrow> storeFileToDBFromRevision h (runWaiting h n) (ByPath path) force False preferred
     | AgainStoreOn path base create \<Rightarrow> storeFileToDBWithBaseRevision h (runWaiting h n) (ByPath path) base create
     | AgainDeleteSource info oldPath newPath oldEntry \<Rightarrow> deleteSourceIfStored h info oldPath newPath oldEntry)"

text \<open>A stored empty file is checked again twice; the answer is whether another check follows.\<close>

definition recheckStoredEmpty :: "'x file_host \<Rightarrow> 'x runner \<Rightarrow> string \<Rightarrow> nat \<Rightarrow> ('x, bool) file_call" where
  "recheckStoredEmpty h run path n =
     after
       (log_only False
         (unlessUnloaded h False
           (after (statOf h path) (\<lambda>stat.
            case stat of
              None \<Rightarrow> ret False
            | Some s \<Rightarrow>
                if st_size s = 0 then ret (Suc n < 2)
                else after (storeFileToDBUnderFileEventLock h run (ByPath path)) (\<lambda>_. ret False))))) (\<lambda>goesOn.
     after (modifyW (\<lambda>w. if goesOn then w else w\<lparr>fw_rechecks := removeAll path (fw_rechecks w)\<rparr>)) (\<lambda>_. ret goesOn))"

definition requireOfflinePreparation :: "bool \<Rightarrow> 'x file_world \<Rightarrow> 'x file_world" where
  "requireOfflinePreparation required w = w\<lparr>fw_required := required\<rparr>"

definition requireOfflinePreparationForPath :: "string \<Rightarrow> bool \<Rightarrow> 'x file_world \<Rightarrow> 'x file_world" where
  "requireOfflinePreparationForPath path required w =
     w\<lparr>fw_paths := (if required then List.insert path (fw_paths w) else removeAll path (fw_paths w))\<rparr>"

section \<open>Preparing a path for an early reception\<close>

definition mark_free :: "provenance option \<Rightarrow> bool" where
  "mark_free record \<longleftrightarrow> (case record of
     Some r \<Rightarrow> pv_pending r = None \<and> (pv_incomplete r = None \<or> pv_incomplete r = Some []) | None \<Rightarrow> True)"

definition canPrepareOfflinePath :: "'x file_host \<Rightarrow> string \<Rightarrow> bool \<Rightarrow> ('x, bool) file_call" where
  "canPrepareOfflinePath h path previouslyAbsent =
     unlessUnloaded h False
       (if \<not> fh_hasProvenance h then ret False
        else after (pub_get (fh_pub h) path) (\<lambda>record. ret (mark_free record \<and> (record \<noteq> None \<or> previouslyAbsent))))"

text \<open>\<open>mayContinue\<close> is the callback of the session.\<close>

definition ifMay :: "('x \<Rightarrow> bool) \<Rightarrow> ('x, bool) file_call \<Rightarrow> ('x, bool) file_call" where
  "ifMay mayContinue m = after (getW (\<lambda>w. mayContinue (pw_env w))) (\<lambda>b. if b then m else ret False)"

definition recordPrepared :: "'x file_host \<Rightarrow> string \<Rightarrow> file_stub \<times> body \<Rightarrow> string option \<Rightarrow> ('x, bool) file_call" where
  "recordPrepared h path read stored =
     (case stored of
        None \<Rightarrow> ret False
      | Some r \<Rightarrow>
          unlessUnloaded h False
            (after (setProvenance h path (Some r) (observed read) False None) (\<lambda>_.
             after (queueCheckFor h path) (\<lambda>_. ret True))))"

definition prepareAbsent :: "'x file_host \<Rightarrow> string \<Rightarrow> bool \<Rightarrow> ('x \<Rightarrow> bool) \<Rightarrow> provenance option \<Rightarrow> ('x, bool) file_call" where
  "prepareAbsent h path allowAbsent mayContinue record =
     (case record of
        Some r \<Rightarrow> ifMay mayContinue (deleteOnRevision h path (pv_revision r))
      | None \<Rightarrow>
          if allowAbsent then ret True
          else after (fetchEntryMeta h path None) (\<lambda>entry. ret (case entry of Some e \<Rightarrow> isDeletedEntry e | None \<Rightarrow> False)))"

definition prepareRecorded :: "'x file_host \<Rightarrow> string \<Rightarrow> file_stub \<Rightarrow> ('x \<Rightarrow> bool) \<Rightarrow> provenance \<Rightarrow> ('x, bool) file_call" where
  "prepareRecorded h path file mayContinue r =
     after (matchStorageToRecord h file LARGE_FILE_BYTES (Some (pv_revision r)) True True) (\<lambda>unchanged.
     if unchanged \<noteq> None then ret True
     else if LARGE_FILE_BYTES \<le> st_size (fs_stat file) then ret False
     else
       after (fetchEntryMeta h (fs_path file) (Some (pv_revision r))) (\<lambda>baseMeta.
       if (case baseMeta of Some m \<Rightarrow> LARGE_FILE_BYTES \<le> size_of m | None \<Rightarrow> True) then ret False
       else
         after (fetchEntry h (fs_path file) (Some (pv_revision r))) (\<lambda>base.
         if (case base of Some b \<Rightarrow> isDeletedEntry (le_meta b) | None \<Rightarrow> True) then ret False
         else
           after (readFileFromStub h file) (\<lambda>read.
           if same_as base read then ret True
           else
             ifMay mayContinue
               (after (storeWithBaseRevision h read (Some (pv_revision r))) (recordPrepared h path read))))))"

definition prepareUnrecorded ::
    "'x file_host \<Rightarrow> 'x runner \<Rightarrow> string \<Rightarrow> file_stub \<Rightarrow> bool \<Rightarrow> bool \<Rightarrow> ('x \<Rightarrow> bool) \<Rightarrow> ('x, bool) file_call" where
  "prepareUnrecorded h run path file allowAbsent allowUnrecordedContent mayContinue =
     (if \<not> allowAbsent \<and> \<not> allowUnrecordedContent \<or> LARGE_FILE_BYTES \<le> st_size (fs_stat file) then ret False
      else
        after (fetchEntryMeta h path None) (\<lambda>entry.
        ifMay mayContinue
          (case entry of
             None \<Rightarrow> storeFileToDB h run (ByStub file) False False None
           | Some e \<Rightarrow>
               if allowUnrecordedContent \<and> LARGE_FILE_BYTES \<le> size_of e then ret False
               else
                 after (readFileFromStub h file) (\<lambda>read.
                 after (if allowUnrecordedContent then fetchEntry h (fs_path file) (me_rev e) else ret None) (\<lambda>base.
                 if (case base of Some b \<Rightarrow> \<not> isDeletedEntry (le_meta b) \<and> same_as base read | None \<Rightarrow> False)
                 then ifMay mayContinue
                        (after (setProvenance h path (Option.bind base (\<lambda>b. me_rev (le_meta b))) (observed read) False None) (\<lambda>_. ret True))
                 else
                   ifMay mayContinue
                     (after (storeAsConflictedRevision h read (rev_of e)) (recordPrepared h path read)))))))"

definition prepareOfflinePath ::
    "'x file_host \<Rightarrow> 'x runner \<Rightarrow> string \<Rightarrow> bool \<Rightarrow> bool \<Rightarrow> ('x \<Rightarrow> bool) \<Rightarrow> ('x, bool) file_call" where
  "prepareOfflinePath h run path allowAbsent allowUnrecordedContent mayContinue =
     unlessUnloaded h False (ifMay mayContinue
       (if \<not> fh_hasProvenance h then ret False
        else
          after (pub_get (fh_pub h) path) (\<lambda>record.
          if \<not> mark_free record then ret False
          else
            after (getStub h path) (\<lambda>current.
            if (case current of Some (AFolder _) \<Rightarrow> True | _ \<Rightarrow> False) then ret False
            else
              after (statHidden h path) (\<lambda>actual.
              unlessUnloaded h False (ifMay mayContinue
                (case (current, actual) of
                   (Some (AFile f), Some s) \<Rightarrow>
                     if \<not> st_isFile s then ret False
                     else
                       (let file = f\<lparr>fs_stat := s\<rparr> in
                        after (if fh_isAndroid h \<and> st_size s = 0
                               then after (isOwnEmptyReflection h path s) (\<lambda>own. ret (\<not> own)) else ret False) (\<lambda>emptyRead.
                        if emptyRead then ret False
                        else
                          (case record of
                             Some r \<Rightarrow> prepareRecorded h path file mayContinue r
                           | None \<Rightarrow> prepareUnrecorded h run path file allowAbsent allowUnrecordedContent mayContinue)))
                 | (None, None) \<Rightarrow> prepareAbsent h path allowAbsent mayContinue record
                 | _ \<Rightarrow> ret False)))))))"

section \<open>Storage events\<close>

text \<open>An event with the file as it was seen; an event of the previous runtime is validated again.\<close>

datatype storage_event =
    FileChanged file_stub
  | FileDeleted file_stub
  | FileRenamed file_stub "string option"
  | InternalEvent file_stub

fun event_file :: "storage_event \<Rightarrow> file_stub" where
  "event_file (FileChanged f) = f"
| "event_file (FileDeleted f) = f"
| "event_file (FileRenamed f _) = f"
| "event_file (InternalEvent f) = f"

definition isCurrentPathSelected :: "'x file_host \<Rightarrow> string \<Rightarrow> ('x, bool) file_call" where
  "isCurrentPathSelected h path = after (pause h) (\<lambda>_. ret (fh_isTargetFile h path \<and> \<not> shouldBeIgnored path))"

definition isCurrentFileSelected :: "'x file_host \<Rightarrow> file_stub \<Rightarrow> ('x, bool) file_call" where
  "isCurrentFileSelected h file =
     after (isCurrentPathSelected h (fs_path file)) (\<lambda>sel.
     ret (sel \<and> \<not> isFileSizeTooLarge (fh_maxSize h) (Some (st_size (fs_stat file)))))"

definition canApplyRestoredDeletion :: "'x file_host \<Rightarrow> string \<Rightarrow> ('x, bool) file_call" where
  "canApplyRestoredDeletion h path = log_only False (isCurrentPathSelected h path)"

definition getExactCurrentFile :: "'x file_host \<Rightarrow> storage_item option \<Rightarrow> string \<Rightarrow> file_stub option" where
  "getExactCurrentFile h current expectedPath =
     (case current of
        Some (AFile f) \<Rightarrow>
          if ph_normalise (fh_pub h) (fs_path f) = ph_normalise (fh_pub h) expectedPath then Some f else None
      | _ \<Rightarrow> None)"

definition holdsRecordedRevision :: "'x file_host \<Rightarrow> file_stub \<Rightarrow> ('x, bool) file_call" where
  "holdsRecordedRevision h file =
     log_only False
       (after (getProvenance h (fs_path file)) (\<lambda>record.
        case record of
          None \<Rightarrow> ret False
        | Some r \<Rightarrow>
            after (statOf h (fs_path file)) (\<lambda>stat.
            after (fetchEntryMeta h (fs_path file) (Some (pv_revision r))) (\<lambda>recordedMeta.
            after (fetchEntryMeta h (fs_path file) None) (\<lambda>winner.
            case (stat, recordedMeta) of
              (Some s, Some m) \<Rightarrow>
                if me_size m \<noteq> Some (st_size s) \<or> (case winner of Some e \<Rightarrow> isDeletedEntry e | None \<Rightarrow> True) then ret False
                else if RECOGNISE_REFLECTED_STORAGE_BYTES \<le> st_size s then ret (pv_mtime r = Some (st_mtime s))
                else
                  after (fetchEntryForComparison h (fs_path file) (Some (pv_revision r))) (\<lambda>recorded.
                  case recorded of
                    None \<Rightarrow> ret False
                  | Some l \<Rightarrow>
                      after (readFileFromStub h file) (\<lambda>read. ret (isDocContentSame (le_data l) (snd read))))
            | _ \<Rightarrow> ret False)))))"

datatype restored_action =
    NoAction
  | StoreAction file_stub
  | DeleteAction string "string option"
  | RenameAction file_stub string

definition planRestoredDeletion :: "'x file_host \<Rightarrow> file_stub \<Rightarrow> ('x, restored_action) file_call" where
  "planRestoredDeletion h file =
     (let path = fs_path file in
      log_only (DeleteAction path None)
        (after (fetchEntryMeta h path None) (\<lambda>winner.
         case winner of
           None \<Rightarrow> ret (DeleteAction path None)
         | Some win \<Rightarrow>
             if isDeletedEntry win then ret (DeleteAction path None)
             else
               after (getProvenance h path) (\<lambda>record.
               ret (case record of
                  Some r \<Rightarrow> if Some (pv_revision r) = me_rev win then DeleteAction path None else DeleteAction path (Some (pv_revision r))
                | None \<Rightarrow>
                    if compareMTime (st_mtime (fs_stat file)) (me_mtime win) = TARGET_IS_NEW then NoAction
                    else DeleteAction path None)))))"

definition planRestoredRename :: "'x file_host \<Rightarrow> string \<Rightarrow> string \<Rightarrow> bool \<Rightarrow> ('x, restored_action) file_call" where
  "planRestoredRename h newPath oldPath isSameDocument =
     after (getStub h newPath) (\<lambda>targetItem.
     let target = getExactCurrentFile h targetItem newPath;
         selectedTarget = (case target of None \<Rightarrow> ret False | Some f \<Rightarrow> isCurrentFileSelected h f)
     in
     if isSameDocument
     then after selectedTarget (\<lambda>sel. ret (if sel then RenameAction (the target) oldPath else NoAction))
     else
       after (log_only None (after (getStub h oldPath) (\<lambda>s. ret (Some s)))) (\<lambda>source.
       let sourceGone = (if source = Some None then canApplyRestoredDeletion h oldPath else ret False) in
       if targetItem \<noteq> None
       then
         after selectedTarget (\<lambda>sel.
         if \<not> sel then ret NoAction
         else after sourceGone (\<lambda>gone. ret (if gone then RenameAction (the target) oldPath else StoreAction (the target))))
       else after sourceGone (\<lambda>gone. ret (if gone then DeleteAction oldPath None else NoAction))))"

definition planRestoredFileEvent :: "'x file_host \<Rightarrow> storage_event \<Rightarrow> bool \<Rightarrow> ('x, restored_action) file_call" where
  "planRestoredFileEvent h event isSameDocument =
     (case event of
        FileChanged f \<Rightarrow>
          after (getStub h (fs_path f)) (\<lambda>item.
          case getExactCurrentFile h item (fs_path f) of
            None \<Rightarrow> ret NoAction
          | Some current \<Rightarrow>
              after (isCurrentFileSelected h current) (\<lambda>sel.
              if \<not> sel then ret NoAction
              else after (holdsRecordedRevision h current) (\<lambda>holds. ret (if holds then NoAction else StoreAction current))))
      | FileDeleted f \<Rightarrow>
          after (getStub h (fs_path f)) (\<lambda>current.
          if current \<noteq> None then ret NoAction
          else
            after (canApplyRestoredDeletion h (fs_path f)) (\<lambda>can.
            if \<not> can then ret NoAction else planRestoredDeletion h f))
      | FileRenamed f oldPath \<Rightarrow> planRestoredRename h (fs_path f) (case oldPath of Some p \<Rightarrow> p | None \<Rightarrow> []) isSameDocument
      | InternalEvent f \<Rightarrow> ret NoAction)"

definition performRestored :: "'x file_host \<Rightarrow> 'x runner \<Rightarrow> restored_action \<Rightarrow> ('x, bool) file_call" where
  "performRestored h run action =
     (case action of
        NoAction \<Rightarrow> ret True
      | StoreAction f \<Rightarrow> storeFileToDB h run (ByStub f) False False None
      | DeleteAction path (Some revision) \<Rightarrow>
          if revision \<noteq> [] then deleteOnRevision h path revision else deleteFileFromDB h (ByPath path)
      | DeleteAction path None \<Rightarrow> deleteFileFromDB h (ByPath path)
      | RenameAction f oldPath \<Rightarrow> renameFileInDB h run f oldPath)"

text \<open>A rename without its old path is not processed; an empty path counts as none.\<close>

definition lacksSource :: "storage_event \<Rightarrow> bool" where
  "lacksSource event \<longleftrightarrow> (case event of FileRenamed f old \<Rightarrow> old = None \<or> old = Some [] | _ \<Rightarrow> False)"

definition processRestoredFileEvent :: "'x file_host \<Rightarrow> 'x runner \<Rightarrow> storage_event \<Rightarrow> ('x, bool) file_call" where
  "processRestoredFileEvent h run event =
     (if lacksSource event then ret True
      else
          after (pause h) (\<lambda>_.
          let same = (case event of
                FileRenamed f (Some old) \<Rightarrow>
                  path2id (fh_sha h) (fh_paths h) (fs_path f) [] = path2id (fh_sha h) (fh_paths h) old []
              | _ \<Rightarrow> False)
          in
          after (log_only NoAction (planRestoredFileEvent h event same)) (performRestored h run)))"

definition processFileEvent :: "'x file_host \<Rightarrow> 'x runner \<Rightarrow> storage_event \<Rightarrow> bool \<Rightarrow> ('x, bool) file_call" where
  "processFileEvent h run event fromPrevious =
     unlessUnloaded h False
       (if fromPrevious then processRestoredFileEvent h run event
        else
          after (isCurrentPathSelected h (fs_path (event_file event))) (\<lambda>sel.
          if \<not> sel \<or> lacksSource event then ret False
          else
            after (pause h) (\<lambda>_.
            unlessUnloaded h False
              (case event of
                 FileChanged f \<Rightarrow> storeFileToDB h run (ByStub f) False False None
               | FileDeleted f \<Rightarrow> deleteFileFromDB h (ByStub f)
               | FileRenamed f (Some old) \<Rightarrow> renameFileInDB h run f old
               | FileRenamed f None \<Rightarrow> ret False
               | InternalEvent f \<Rightarrow> ret False))))"

section \<open>Replicated entries\<close>

definition applyReplicated :: "'x file_host \<Rightarrow> meta_entry \<Rightarrow> string \<Rightarrow> ('x, bool) file_call" where
  "applyReplicated h entry path =
     after (getStub h (stripAllPrefixes path)) (\<lambda>item.
     case item of
       Some (AFolder _) \<Rightarrow> ret True
     | Some (AFile f) \<Rightarrow>
         if isFileSizeTooLarge (fh_maxSize h) (Some (st_size (fs_stat f))) then ret False
         else dbToStorage h (AnEntry entry) (Some (ByStub f)) False
     | None \<Rightarrow> dbToStorage h (AnEntry entry) None False)"

text \<open>\<open>prepare\<close> is the session of the early reception, when there is one.\<close>

definition processReplicatedDoc ::
    "'x file_host \<Rightarrow> (meta_entry \<Rightarrow> ('x, bool) file_call \<Rightarrow> ('x, bool) file_call) option \<Rightarrow> meta_entry \<Rightarrow> ('x, bool) file_call" where
  "processReplicatedDoc h prepare entry =
     unlessUnloaded h False
       (after (pause h) (\<lambda>_.
        if \<not> fh_isTargetFile h (me_path entry) \<or> isFileSizeTooLarge (fh_maxSize h) (me_size entry) \<or> shouldBeIgnored (me_path entry)
        then ret False
        else
          after (file_getPath entry) (\<lambda>path.
          case prepare of
            Some p \<Rightarrow> p entry (applyReplicated h entry path)
          | None \<Rightarrow> applyReplicated h entry path)))"

section \<open>Chunks of all files\<close>

definition createAllChunks :: "'x file_host \<Rightarrow> 'x runner \<Rightarrow> file_stub list \<Rightarrow> ('x, unit) file_call" where
  "createAllChunks h run files =
     after
       (forEach (\<lambda>file.
          after (pause h) (\<lambda>_.
          if \<not> fh_isTargetFile h (fs_path file) \<or> isFileSizeTooLarge (fh_maxSize h) (Some (st_size (fs_stat file))) \<or>
             shouldBeIgnored (fs_path file) then ret True
          else log_only True (storeFileToDB h run (ByStub file) False True None))) files) (\<lambda>_. ret ())"

end
