(* ===== verification/FileSamples.thy ===== *)
theory FileSamples
  imports FileStores
begin

text \<open>
  A small storage and database on which the theorems of the file handler are applied: one file \<open>a.md\<close> with the body
  \<open>old\<close> that the database knows, and an entry for it with the body \<open>new\<close>. Nobody else acts, and nothing fails.
\<close>

definition answers :: "'a \<Rightarrow> ('x, 'a) answer_call" where
  "answers a = ret a"

definition sample_meta :: "string \<Rightarrow> nat \<Rightarrow> meta_entry" where
  "sample_meta rv n = \<lparr>me_id = ''a.md'', me_rev = Some rv, me_path = ''a.md'', me_ctime = 1000, me_mtime = 5000, me_size = Some n,
     me_type = ''plain'', me_children = [], me_eden = [], me_deleted = None, me_tombstone = False, me_conflicts = []\<rparr>"

definition sample_stat :: "nat \<Rightarrow> file_stat" where
  "sample_stat n = \<lparr>st_size = n, st_mtime = 2000, st_isFile = True\<rparr>"

definition sample_stub :: "nat \<Rightarrow> file_stub" where
  "sample_stub n = \<lparr>fs_path = ''a.md'', fs_stat = sample_stat n, fs_internal = False, fs_body = None\<rparr>"

text \<open>The file has the body \<open>stored\<close>, the entry the content \<open>incoming\<close>, and \<open>known\<close> tells which bodies are in the history.\<close>

definition sample_pub_host :: "nat \<Rightarrow> unit pub_host" where
  "sample_pub_host n = \<lparr>ph_normalise = id, ph_fails = (\<lambda>x. False), ph_others = (\<lambda>x s. s), ph_uuid = (\<lambda>x. ''t1''), ph_moved = id,
     ph_statHidden = (\<lambda>p. answers (Some (sample_stat n)))\<rparr>"

definition sample_files :: "bool \<Rightarrow> string \<Rightarrow> string \<Rightarrow> (body \<Rightarrow> bool) \<Rightarrow> unit file_host" where
  "sample_files android stored incoming known =
     \<lparr>fh_pub = sample_pub_host (length stored), fh_sha = id,
      fh_paths = \<lparr>ps_usePathObfuscation = False, ps_passphrase = [], ps_handleFilenameCaseSensitive = True, ps_obfuscation = None\<rparr>,
      fh_maxSize = 0, fh_hasProvenance = True, fh_isAndroid = android, fh_usesObjectStorage = False,
      fh_writeDocumentsIfConflicted = False, fh_processSizeMismatchedFiles = False, fh_isTargetFile = (\<lambda>p. True),
      fh_unloaded = (\<lambda>x. False), fh_freshness = (\<lambda>x f d. TARGET_IS_NEW), fh_markSame = (\<lambda>p a b x. x),
      fh_getStub = (\<lambda>p. answers (Some (AFile (sample_stub (length stored))))),
      fh_getFileStub = (\<lambda>p. answers (if p = ''a.md'' then Some (sample_stub (length stored)) else None)),
      fh_readStub = (\<lambda>f. answers (Some (f, TextBody stored))), fh_stat = (\<lambda>p. answers (Some (sample_stat (length stored)))),
      fh_exists = (\<lambda>p. answers True), fh_ensureDir = (\<lambda>p. answers True), fh_writeFile = (\<lambda>p b t. answers True),
      fh_touched = (\<lambda>p. answers ()), fh_deleteItem = (\<lambda>p. answers ()), fh_renameFile = (\<lambda>f p. answers None),
      fh_stages = False, fh_stage = (\<lambda>p d s. answers False), fh_publish = (\<lambda>p d. answers (sample_stat 0)),
      fh_fetchMeta = (\<lambda>p r. answers (Some (sample_meta ''2-b'' (length incoming)))),
      fh_fetchEntry = (\<lambda>p r. answers (Some \<lparr>le_meta = sample_meta ''2-b'' (length incoming), le_data = TextBody incoming\<rparr>)),
      fh_fetchFromMeta = (\<lambda>d. answers (Some \<lparr>le_meta = d, le_data = TextBody incoming\<rparr>)),
      fh_fetchBinary = None, fh_inspectBinary = None, fh_conflicts = (\<lambda>p. answers []), fh_inHistory = None,
      fh_hasContent = (\<lambda>p b r. answers (known b)), fh_findContent = (\<lambda>p b. answers []),
      fh_storeOn = (\<lambda>f b r. answers (Some ''3-c'')), fh_storeLive = (\<lambda>f b r. answers (Some ''3-c'')),
      fh_storeBeside = (\<lambda>f b r. answers (Some ''3-c'')), fh_storeDeletion = (\<lambda>p r. answers (Some ''3-c'')),
      fh_removeEntry = (\<lambda>p r. answers True), fh_createChunks = (\<lambda>f b force. answers True),
      fh_queueCheck = (\<lambda>p. answers ()), fh_queueCheckIfOpen = (\<lambda>p. answers ())\<rparr>"

definition fresh_world :: "unit file_world" where
  "fresh_world = \<lparr>pw_store = [], pw_trace = [], pw_env = (), fw_required = False, fw_paths = [], fw_waiting = [],
     fw_confirmations = 0, fw_confirmed = [], fw_rechecks = []\<rparr>"

text \<open>Its fields.\<close>

lemma sample_files_simps [simp]:
  "fh_pub (sample_files android stored incoming known) = sample_pub_host (length stored)"
  "fh_sha (sample_files android stored incoming known) = id"
  "fh_paths (sample_files android stored incoming known) = \<lparr>ps_usePathObfuscation = False, ps_passphrase = [], ps_handleFilenameCaseSensitive = True, ps_obfuscation = None\<rparr>"
  "fh_maxSize (sample_files android stored incoming known) = 0"
  "fh_hasProvenance (sample_files android stored incoming known) = True"
  "fh_isAndroid (sample_files android stored incoming known) = android"
  "fh_usesObjectStorage (sample_files android stored incoming known) = False"
  "fh_writeDocumentsIfConflicted (sample_files android stored incoming known) = False"
  "fh_processSizeMismatchedFiles (sample_files android stored incoming known) = False"
  "fh_isTargetFile (sample_files android stored incoming known) = (\<lambda>p. True)"
  "fh_unloaded (sample_files android stored incoming known) = (\<lambda>x. False)"
  "fh_freshness (sample_files android stored incoming known) = (\<lambda>x f d. TARGET_IS_NEW)"
  "fh_markSame (sample_files android stored incoming known) = (\<lambda>p a b x. x)"
  "fh_getStub (sample_files android stored incoming known) = (\<lambda>p. answers (Some (AFile (sample_stub (length stored)))))"
  "fh_getFileStub (sample_files android stored incoming known) = (\<lambda>p. answers (if p = ''a.md'' then Some (sample_stub (length stored)) else None))"
  "fh_readStub (sample_files android stored incoming known) = (\<lambda>f. answers (Some (f, TextBody stored)))"
  "fh_stat (sample_files android stored incoming known) = (\<lambda>p. answers (Some (sample_stat (length stored))))"
  "fh_exists (sample_files android stored incoming known) = (\<lambda>p. answers True)"
  "fh_ensureDir (sample_files android stored incoming known) = (\<lambda>p. answers True)"
  "fh_writeFile (sample_files android stored incoming known) = (\<lambda>p b t. answers True)"
  "fh_touched (sample_files android stored incoming known) = (\<lambda>p. answers ())"
  "fh_deleteItem (sample_files android stored incoming known) = (\<lambda>p. answers ())"
  "fh_renameFile (sample_files android stored incoming known) = (\<lambda>f p. answers None)"
  "fh_stages (sample_files android stored incoming known) = False"
  "fh_stage (sample_files android stored incoming known) = (\<lambda>p d s. answers False)"
  "fh_publish (sample_files android stored incoming known) = (\<lambda>p d. answers (sample_stat 0))"
  "fh_fetchMeta (sample_files android stored incoming known) = (\<lambda>p r. answers (Some (sample_meta ''2-b'' (length incoming))))"
  "fh_fetchEntry (sample_files android stored incoming known) = (\<lambda>p r. answers (Some \<lparr>le_meta = sample_meta ''2-b'' (length incoming), le_data = TextBody incoming\<rparr>))"
  "fh_fetchFromMeta (sample_files android stored incoming known) = (\<lambda>d. answers (Some \<lparr>le_meta = d, le_data = TextBody incoming\<rparr>))"
  "fh_fetchBinary (sample_files android stored incoming known) = None"
  "fh_inspectBinary (sample_files android stored incoming known) = None"
  "fh_conflicts (sample_files android stored incoming known) = (\<lambda>p. answers [])"
  "fh_inHistory (sample_files android stored incoming known) = None"
  "fh_hasContent (sample_files android stored incoming known) = (\<lambda>p b r. answers (known b))"
  "fh_findContent (sample_files android stored incoming known) = (\<lambda>p b. answers [])"
  "fh_storeOn (sample_files android stored incoming known) = (\<lambda>f b r. answers (Some ''3-c''))"
  "fh_storeLive (sample_files android stored incoming known) = (\<lambda>f b r. answers (Some ''3-c''))"
  "fh_storeBeside (sample_files android stored incoming known) = (\<lambda>f b r. answers (Some ''3-c''))"
  "fh_storeDeletion (sample_files android stored incoming known) = (\<lambda>p r. answers (Some ''3-c''))"
  "fh_removeEntry (sample_files android stored incoming known) = (\<lambda>p r. answers True)"
  "fh_createChunks (sample_files android stored incoming known) = (\<lambda>f b force. answers True)"
  "fh_queueCheck (sample_files android stored incoming known) = (\<lambda>p. answers ())"
  "fh_queueCheckIfOpen (sample_files android stored incoming known) = (\<lambda>p. answers ())"
  by (simp_all add: sample_files_def)

text \<open>The trace that a call leaves.\<close>

definition left_by :: "(unit, 'a) file_call \<Rightarrow> file_action list" where
  "left_by m = pw_trace (snd (m fresh_world))"

lemma sample_path [simp]: "entry_getPath (sample_meta rv n) = Inr ''a.md''"
proof -
  have "id2path ''a.md'' (Some ''a.md'') False = Inr ''a.md''" by code_simp
  then show ?thesis by (simp add: entry_getPath_def sample_meta_def)
qed

lemma sample_meta_simps [simp]:
  "me_rev (sample_meta rv n) = Some rv" "me_size (sample_meta rv n) = Some n" "isDeletedEntry (sample_meta rv n) = False"
  "is_text (sample_meta rv n) = True" "size_of (sample_meta rv n) = n" "me_path (sample_meta rv n) = ''a.md''"
  by (simp_all add: sample_meta_def isDeletedEntry_def is_text_def isTextDocument_def size_of_def)

lemma sample_stub_simps [simp]:
  "fs_path (sample_stub n) = ''a.md''" "fs_stat (sample_stub n) = sample_stat n" "fs_internal (sample_stub n) = False"
  "fs_body (sample_stub n) = None" "st_size (sample_stat n) = n" "st_mtime (sample_stat n) = 2000" "st_isFile (sample_stat n) = True"
  "(sample_stub n)\<lparr>fs_body := None\<rparr> = sample_stub n"
  by (simp_all add: sample_stub_def sample_stat_def)

lemma sample_pub_simps [simp]:
  "ph_fails (sample_pub_host n) = (\<lambda>x. False)" "ph_others (sample_pub_host n) = (\<lambda>x s. s)" "ph_moved (sample_pub_host n) = id"
  "ph_statHidden (sample_pub_host n) = (\<lambda>p. answers (Some (sample_stat n)))" "ph_uuid (sample_pub_host n) = (\<lambda>x. ''t1'')"
  by (simp_all add: sample_pub_host_def)

lemma answers_run [simp]: "answers a x = (Inr a, x)"
  by (simp add: answers_def ret_def)

lemma fresh_world_simps [simp]:
  "pw_store fresh_world = []" "pw_trace fresh_world = []" "pw_env fresh_world = ()" "fw_required fresh_world = False"
  "fw_paths fresh_world = []" "fw_waiting fresh_world = []" "fw_confirmed fresh_world = []"
  by (simp_all add: fresh_world_def)

lemmas reflection_defs =
  dbToStorage_def nullable_stub_def fetchEntryMeta_def applyDatabaseEntryToStorage_def unlessUnloaded_def
  file_getPath_def getConflictedRevs_def getStub_def hostUnloaded_def applyToFile_def stagesBinary_def renameToStoredCase_def
  reflectEntry_def isStorageUnchangedSinceReflected_def matchStorageToRecord_def RECOGNISE_REFLECTED_STORAGE_BYTES_def
  step_then_def compareWithFile_def preserveBeforeWrite_def readEntryContentForStorage_def preserveUnsyncedStorageAsConflict_def
  isStorageUnchangedSinceRevisionInHistory_def LARGE_FILE_BYTES_def log_only_def readFileFromStub_def emptyOnAndroid_def
  already_known_def isDocContentSame_iff keepUnlessKnown_def body_size_def writeReflected_def loadContent_def
  writeEntryToStorage_def attempts_def noted_def statOf_def markWrittenTimeAsSame_def setProvenance_def reflect_def edit_def
  others_act_def closed_def get_locked_def store_get_def access_def store_put_def reflected_record_def put_record_def
  Let_def

lemma reflection_writes:
  "wp (dbToStorage (sample_files False ''old'' ''new'' (\<lambda>b. True)) (APath ''a.md'') None False)
     (\<lambda>r w. WroteFile ''a.md'' (TextBody ''new'') (sample_meta ''2-b'' (length ''new'')) \<in> set (pw_trace w)) fresh_world"
  by (simp add: reflection_defs)

end
