(* ===== verification/FileSafety.thy ===== *)
theory FileSafety
  imports FileSamples
begin

text \<open>
  What the file handler may do, as properties of the trace: every change of the storage or of the database is
  justified by the answers that came before it in the same call. A rule \<open>J\<close> says what justifies an action by the
  ones before it. The locales prove once for each call that it keeps such a rule, under assumptions on the kinds of
  actions the rule lets pass; a property then only has to look at the calls that make the critical actions.
\<close>

section \<open>Rules on traces\<close>

text \<open>Since the call began, with the actions \<open>t0\<close> before it, every action is justified, and the facts \<open>F\<close> have been seen.\<close>

type_synonym justification = "file_action list \<Rightarrow> file_action \<Rightarrow> bool"

definition all_justified :: "justification \<Rightarrow> file_action list \<Rightarrow> bool" where
  "all_justified J acts \<longleftrightarrow> (\<forall>before a rest. acts = before @ a # rest \<longrightarrow> J before a)"

definition okay :: "file_action list \<Rightarrow> justification \<Rightarrow> file_action set \<Rightarrow> ('x, 'z) pub_world_scheme \<Rightarrow> bool" where
  "okay t0 J F w \<longleftrightarrow> (\<exists>acts. pw_trace w = t0 @ acts \<and> all_justified J acts \<and> F \<subseteq> set acts)"

lemma all_justified_Nil [simp]: "all_justified J []"
  by (simp add: all_justified_def)

lemma all_justified_snoc: "all_justified J acts \<Longrightarrow> J acts a \<Longrightarrow> all_justified J (acts @ [a])"
  unfolding all_justified_def
  by (auto simp: append_eq_append_conv2 Cons_eq_append_conv append_eq_Cons_conv)

lemma all_justified_append:
  assumes "all_justified J acts" and "\<And>x b. x \<in> set extra \<Longrightarrow> J b x"
  shows "all_justified J (acts @ extra)"
  using assms(2)
proof (induction extra rule: rev_induct)
  case Nil
  then show ?case using assms(1) by simp
next
  case (snoc a extra)
  then have "all_justified J ((acts @ extra) @ [a])" by (intro all_justified_snoc) auto
  then show ?case by simp
qed

lemma okay_start: "okay (pw_trace w) J {} w"
  by (simp add: okay_def)

lemma okay_mono: "okay t0 J F w \<Longrightarrow> G \<subseteq> F \<Longrightarrow> okay t0 J G w"
  by (auto simp: okay_def)

lemma okay_trace: "okay t0 J F w \<Longrightarrow> pw_trace w' = pw_trace w \<Longrightarrow> okay t0 J F w'"
  by (simp add: okay_def)

lemma okay_append:
  assumes "okay t0 J F w" and "pw_trace w' = pw_trace w @ acts" and "\<And>x b. x \<in> set acts \<Longrightarrow> J b x"
  shows "okay t0 J (F \<union> set acts) w'"
proof -
  obtain old where "pw_trace w = t0 @ old" "all_justified J old" "F \<subseteq> set old" using assms(1) by (auto simp: okay_def)
  with assms(2) all_justified_append [where acts = old and extra = acts and J = J] assms(3) show ?thesis
    unfolding okay_def by (intro exI [of _ "old @ acts"]) auto
qed

lemma okay_act:
  assumes "okay t0 J F w" and "pw_trace w' = pw_trace w @ [a]" and "\<And>b. F \<subseteq> set b \<Longrightarrow> J b a"
  shows "okay t0 J (insert a F) w'"
proof -
  obtain old where "pw_trace w = t0 @ old" "all_justified J old" "F \<subseteq> set old" using assms(1) by (auto simp: okay_def)
  with assms(2) all_justified_snoc [of J old a] assms(3) [of old] show ?thesis
    unfolding okay_def by (intro exI [of _ "old @ [a]"]) auto
qed

lemma maintains_passing:
  assumes "\<And>a x b. x \<in> set (f a) \<Longrightarrow> J b x"
  shows "maintains (okay t0 J F :: ('x, 'z) pub_world_scheme \<Rightarrow> bool) (asks m f)"
proof (rule maintainsI)
  fix w :: "('x, 'z) pub_world_scheme" assume ok: "okay t0 J F w"
  have "okay t0 J F (w\<lparr>pw_env := x, pw_trace := pw_trace w @ f a\<rparr>)" for x a
    by (rule okay_mono [OF okay_append [OF ok]]) (use assms in auto)
  moreover have "okay t0 J F (w\<lparr>pw_env := x\<rparr>)" for x
    by (rule okay_trace [OF ok]) simp
  ultimately show "wp (asks m f) (\<lambda>r. okay t0 J F) w"
    by (auto split: prod.split sum.split)
qed

text \<open>What a rule says of the actions of a call.\<close>

lemma maintains_justified:
  assumes "maintains (okay (pw_trace w) J {}) m" and "m w = (r, w')"
  shows "\<exists>acts. pw_trace w' = pw_trace w @ acts \<and> all_justified J acts"
  using maintains_run [OF assms okay_start] by (auto simp: okay_def)

text \<open>The answers; the edits of the records and the checks that are queued count as such.\<close>

fun is_fact :: "file_action \<Rightarrow> bool" where
  "is_fact (StoredOn _ _ _ _) = False"
| "is_fact (StoredBeside _ _ _ _) = False"
| "is_fact (StoredDeletion _ _) = False"
| "is_fact (RemovedEntry _ _) = False"
| "is_fact (MadeChunks _) = False"
| "is_fact (WroteFile _ _ _) = False"
| "is_fact (PublishedFile _ _) = False"
| "is_fact (DeletedFile _) = False"
| "is_fact (MovedFile _ _) = False"
| "is_fact _ = True"

lemma wp_True: "wp m (\<lambda>r w. True) w"
  by (simp add: wp_def split: prod.split)

section \<open>What a call learns\<close>

text \<open>The call keeps the rule, and its answer \<open>a\<close> comes with facts \<open>G\<close> such that \<open>R G a\<close>.\<close>

definition learns ::
    "file_action list \<Rightarrow> justification \<Rightarrow> file_action set \<Rightarrow> (file_action set \<Rightarrow> 'a \<Rightarrow> bool) \<Rightarrow> ('x, 'z, 'a) pub_call \<Rightarrow> bool" where
  "learns t0 J F R m \<longleftrightarrow>
     (\<forall>w. okay t0 J F w \<longrightarrow> wp m (\<lambda>r w'. \<exists>G. F \<subseteq> G \<and> okay t0 J G w' \<and> (\<forall>a. r = Inr a \<longrightarrow> R G a)) w)"

lemma learnsI:
  "(\<And>w. okay t0 J F w \<Longrightarrow> wp m (\<lambda>r w'. \<exists>G. F \<subseteq> G \<and> okay t0 J G w' \<and> (\<forall>a. r = Inr a \<longrightarrow> R G a)) w) \<Longrightarrow> learns t0 J F R m"
  by (simp add: learns_def)

lemma learns_after:
  assumes "learns t0 J F R m" and "\<And>G a. F \<subseteq> G \<Longrightarrow> R G a \<Longrightarrow> learns t0 J G S (f a)"
  shows "learns t0 J F S (after m f :: ('x, 'z, 'b) pub_call)"
proof (rule learnsI)
  fix w :: "('x, 'z) pub_world_scheme" assume ok: "okay t0 J F w"
  have m: "wp m (\<lambda>r w'. \<exists>G. F \<subseteq> G \<and> okay t0 J G w' \<and> (\<forall>a. r = Inr a \<longrightarrow> R G a)) w"
    using assms(1) ok by (simp add: learns_def)
  show "wp (after m f) (\<lambda>r w'. \<exists>G. F \<subseteq> G \<and> okay t0 J G w' \<and> (\<forall>a. r = Inr a \<longrightarrow> S G a)) w"
    unfolding wp_after
  proof (rule wp_mono [OF m], elim exE conjE)
    fix r and w' :: "('x, 'z) pub_world_scheme" and G
    assume G: "F \<subseteq> G" "okay t0 J G w'" "\<forall>a. r = Inr a \<longrightarrow> R G a"
    show "case r of Inl e \<Rightarrow> \<exists>G. F \<subseteq> G \<and> okay t0 J G w' \<and> (\<forall>a. Inl e = Inr a \<longrightarrow> S G a)
        | Inr a \<Rightarrow> wp (f a) (\<lambda>r w'. \<exists>G. F \<subseteq> G \<and> okay t0 J G w' \<and> (\<forall>a. r = Inr a \<longrightarrow> S G a)) w'"
    proof (cases r)
      case (Inl e)
      with G show ?thesis by auto
    next
      case (Inr a)
      with G assms(2) have "learns t0 J G S (f a)" by blast
      with G(2) have "wp (f a) (\<lambda>r w'. \<exists>H. G \<subseteq> H \<and> okay t0 J H w' \<and> (\<forall>a. r = Inr a \<longrightarrow> S H a)) w'"
        by (simp add: learns_def)
      then have "wp (f a) (\<lambda>r w'. \<exists>G. F \<subseteq> G \<and> okay t0 J G w' \<and> (\<forall>a. r = Inr a \<longrightarrow> S G a)) w'"
        by (rule wp_mono) (use G(1) in blast)
      with Inr show ?thesis by simp
    qed
  qed
qed

lemma learns_mono:
  assumes m: "learns t0 J F R (m :: ('x, 'z, 'a) pub_call)" and RS: "\<And>G a. F \<subseteq> G \<Longrightarrow> R G a \<Longrightarrow> S G a"
  shows "learns t0 J F S m"
proof (rule learnsI)
  fix w :: "('x, 'z) pub_world_scheme" assume "okay t0 J F w"
  with m have "wp m (\<lambda>r w'. \<exists>G. F \<subseteq> G \<and> okay t0 J G w' \<and> (\<forall>a. r = Inr a \<longrightarrow> R G a)) w"
    by (simp add: learns_def)
  then show "wp m (\<lambda>r w'. \<exists>G. F \<subseteq> G \<and> okay t0 J G w' \<and> (\<forall>a. r = Inr a \<longrightarrow> S G a)) w"
    by (rule wp_mono, elim ex_forward) (auto intro: RS)
qed

lemma learns_maintains: 
  assumes m: "maintains (okay t0 J F) (m :: ('x, 'z, 'a) pub_call)" and R: "\<And>a. R F a"
  shows "learns t0 J F R m"
proof (rule learnsI)
  fix w :: "('x, 'z) pub_world_scheme" assume "okay t0 J F w"
  from maintainsD [OF m this] show "wp m (\<lambda>r w'. \<exists>G. F \<subseteq> G \<and> okay t0 J G w' \<and> (\<forall>a. r = Inr a \<longrightarrow> R G a)) w"
    by (rule wp_mono, intro exI [of _ F]) (simp add: R)
qed

text \<open>A call whose answer does not matter.\<close>

lemma learns_skip:
  "maintains (okay t0 J F) m \<Longrightarrow> (\<And>a. learns t0 J F S (f a)) \<Longrightarrow> learns t0 J F S (after m f)"
  by (rule learns_after [where R = "\<lambda>G a. G = F"], erule learns_maintains) auto

lemma maintains_learns: "learns t0 J F R m \<Longrightarrow> maintains (okay t0 J F) m"
  unfolding learns_def by (rule maintainsI, drule spec, drule (1) mp, erule wp_mono) (auto elim: okay_mono)

lemma learns_ret: "R F a \<Longrightarrow> learns t0 J F R (ret a)"
  by (auto simp: learns_def)

lemma learns_throw: "learns t0 J F R (throw e)"
  by (auto simp: learns_def)

lemma learns_if: "(b \<Longrightarrow> learns t0 J F R m) \<Longrightarrow> (\<not> b \<Longrightarrow> learns t0 J F R m') \<Longrightarrow> learns t0 J F R (if b then m else m')"
  by simp

lemma learns_option:
  "(x = None \<Longrightarrow> learns t0 J F R m) \<Longrightarrow> (\<And>a. x = Some a \<Longrightarrow> learns t0 J F R (f a)) \<Longrightarrow>
   learns t0 J F R (case x of None \<Rightarrow> m | Some a \<Rightarrow> f a)"
  by (simp split: option.split)

lemma learns_log_only:
  assumes "learns t0 J F R m" and "\<And>G. F \<subseteq> G \<Longrightarrow> R G a"
  shows "learns t0 J F R (log_only a m :: ('x, 'a) file_call)"
proof (rule learnsI)
  fix w :: "'x file_world" assume "okay t0 J F w"
  with assms(1) have "wp m (\<lambda>r w'. \<exists>G. F \<subseteq> G \<and> okay t0 J G w' \<and> (\<forall>a. r = Inr a \<longrightarrow> R G a)) w"
    by (simp add: learns_def)
  then show "wp (log_only a m) (\<lambda>r w'. \<exists>G. F \<subseteq> G \<and> okay t0 J G w' \<and> (\<forall>a. r = Inr a \<longrightarrow> R G a)) w"
    unfolding log_only_def wp_catching by (rule wp_mono) (use assms(2) in \<open>auto split: sum.split\<close>)
qed

section \<open>Calls that only ask\<close>

locale trace_safety =
  fixes J :: justification
  assumes facts: "is_fact a \<Longrightarrow> J b a"
begin

lemma okay_facts:
  "okay t0 J F w \<Longrightarrow> pw_trace w' = pw_trace w @ acts \<Longrightarrow> (\<And>x. x \<in> set acts \<Longrightarrow> is_fact x) \<Longrightarrow> okay t0 J (F \<union> set acts) w'"
  by (rule okay_append) (auto intro: facts)

lemma okay_facts_keep:
  "okay t0 J F w \<Longrightarrow> pw_trace w' = pw_trace w @ acts \<Longrightarrow> (\<And>x. x \<in> set acts \<Longrightarrow> is_fact x) \<Longrightarrow> okay t0 J F w'"
  by (rule okay_mono [OF okay_facts]) auto

lemma maintains_modify_quiet: "(\<And>w. pw_trace (g w) = pw_trace w) \<Longrightarrow> maintains (okay t0 J F) (modifyW g)"
  by (auto simp: maintains_def okay_def)

lemma maintains_asks: "(\<And>a x. x \<in> set (f a) \<Longrightarrow> is_fact x) \<Longrightarrow> maintains (okay t0 J F) (asks m f)"
  by (rule maintains_passing) (auto intro: facts)

text \<open>An answer adds its facts.\<close>

lemma wp_asks_facts:
  assumes ok: "okay t0 J F w" and "\<And>a x. x \<in> set (f a) \<Longrightarrow> is_fact x"
    and "\<And>e w'. okay t0 J F w' \<Longrightarrow> Q (Inl e) w'" and "\<And>a w'. okay t0 J (F \<union> set (f a)) w' \<Longrightarrow> Q (Inr a) w'"
  shows "wp (asks m f) Q w"
proof -
  have "okay t0 J (F \<union> set (f a)) (w\<lparr>pw_env := x, pw_trace := pw_trace w @ f a\<rparr>)" for a x
    by (rule okay_facts [OF ok]) (use assms(2) in auto)
  moreover have "okay t0 J F (w\<lparr>pw_env := x\<rparr>)" for x
    by (rule okay_trace [OF ok]) simp
  ultimately show ?thesis using assms(3,4) by (auto split: prod.split sum.split)
qed

lemma maintains_edit [maintains_rules]: "maintains (okay t0 J F) (edit h path transform)"
  by (rule maintainsI, rule wp_edit) (auto simp: quiet_def intro: okay_trace okay_facts_keep)

lemma maintains_pub_get [maintains_rules]: "maintains (okay t0 J F) (pub_get h path)"
  by (rule maintainsI, rule wp_pub_get) (auto simp: quiet_def intro: okay_trace)

lemmas maintains_asking [maintains_rules] = maintains_asks [where f = "\<lambda>_. []", simplified]

lemma maintains_noted [maintains_rules]: "(\<And>x. x \<in> set acts \<Longrightarrow> is_fact x) \<Longrightarrow> maintains (okay t0 J F) (modifyW (noted acts))"
  by (rule maintainsI) (auto simp: noted_def intro: okay_facts_keep)

lemma maintains_pub [maintains_rules]:
  "maintains (okay t0 J F) (reflect h path r m b t)" "maintains (okay t0 J F) (pub_delete h path)"
  "maintains (okay t0 J F) (begin_publication h path r)" "maintains (okay t0 J F) (discardForDatabaseDeletion h path)"
  "maintains (okay t0 J F) (missingPublication h path)" "maintains (okay t0 J F) (pub_move h path to)"
  unfolding reflect_def pub_delete_def begin_publication_def discardForDatabaseDeletion_def missingPublication_def pub_move_def
  by (intro maintains_rules maintains_asks; simp)+

lemma maintains_primitives [maintains_rules]:
  "maintains (okay t0 J F) (pause h)" "maintains (okay t0 J F) (markSame h path a b)"
  "maintains (okay t0 J F) (fetchEntryMeta h path rv)" "maintains (okay t0 J F) (fetchEntry h path rv)"
  "maintains (okay t0 J F) (getConflictedRevs h path)" "maintains (okay t0 J F) (statHidden h path)"
  "maintains (okay t0 J F) (statOf h path)" "maintains (okay t0 J F) (getStub h path)"
  "maintains (okay t0 J F) (getFileStub h path)" "maintains (okay t0 J F) (queueCheckFor h path)"
  "maintains (okay t0 J F) (isRevisionInHistory h path r branch)"
  "maintains (okay t0 J F) (readFileFromStub h file)" "maintains (okay t0 J F) (checkConfirmed path)"
  unfolding pause_def markSame_def fetchEntryMeta_def fetchEntry_def getConflictedRevs_def statHidden_def statOf_def
    getStub_def getFileStub_def queueCheckFor_def isRevisionInHistory_def readFileFromStub_def checkConfirmed_def
  by (intro maintains_rules maintains_asks maintains_modify_quiet; auto split: option.splits if_splits)+

lemma maintains_unlessUnloaded [maintains_rules]:
  "maintains (okay t0 J F) m \<Longrightarrow> maintains (okay t0 J F) (unlessUnloaded h a m)"
  unfolding unlessUnloaded_def by (intro maintains_rules)

lemma maintains_log_only [maintains_rules]: "maintains (okay t0 J F) m \<Longrightarrow> maintains (okay t0 J F) (log_only a m)"
  unfolding log_only_def by (intro maintains_rules)

lemma maintains_records [maintains_rules]:
  "maintains (okay t0 J F) (getProvenance h path)" "maintains (okay t0 J F) (setProvenance h path r m b t)"
  "maintains (okay t0 J F) (deleteProvenance h path)" "maintains (okay t0 J F) (matchStorageToRecord h file k e ro fs)"
  "maintains (okay t0 J F) (isReflectedEmptiness h path stat)" "maintains (okay t0 J F) (waitForEmptyReadToSettle h path operation)"
  unfolding getProvenance_def setProvenance_def deleteProvenance_def matchStorageToRecord_def isReflectedEmptiness_def
    waitForEmptyReadToSettle_def Let_def
  by (intro maintains_rules maintains_modify_quiet; simp add: add_waiting_def split: option.split prod.split)+

lemma maintains_checks [maintains_rules]:
  "maintains (okay t0 J F) (isStorageUnchangedSinceReflected h file e)"
  "maintains (okay t0 J F) (isStorageUnchangedSinceRevisionInHistory h path file d)"
  "maintains (okay t0 J F) (fetchEntryForComparison h path rv)"
  "maintains (okay t0 J F) (findUniqueContentRevision h read)"
  "maintains (okay t0 J F) (isOwnEmptyReflection h path stat)"
  "maintains (okay t0 J F) (databaseHoldsContent h path)"
  "maintains (okay t0 J F) (readEntryContentForStorage h d)"
  "maintains (okay t0 J F) (confirmAbsent h path)" "maintains (okay t0 J F) (file_getPath d)"
  "maintains (okay t0 J F) (markWrittenTimeAsSame h path st d)"
  "maintains (okay t0 J F) (recordReflected h path d file)" "maintains (okay t0 J F) (markEntrySame h d file)"
  "maintains (okay t0 J F) (getPendingPublicationRevision h path)"
  unfolding isStorageUnchangedSinceReflected_def isStorageUnchangedSinceRevisionInHistory_def fetchEntryForComparison_def
    findUniqueContentRevision_def isOwnEmptyReflection_def databaseHoldsContent_def readEntryContentForStorage_def
    confirmAbsent_def file_getPath_def markWrittenTimeAsSame_def recordReflected_def markEntrySame_def
    getPendingPublicationRevision_def Let_def
  by (intro maintains_rules maintains_asks; auto split: option.splits binary_content.splits)+

lemma maintains_infoToStub [maintains_rules]:
  "maintains (okay t0 J F) (infoToStub h info)" "maintains (okay t0 J F) (nullable_stub h arg)"
proof -
  show a: "maintains (okay t0 J F) (infoToStub h info)" for info
    by (cases info) (simp_all add: maintains_rules)
  show "maintains (okay t0 J F) (nullable_stub h arg)"
    unfolding nullable_stub_def by (intro maintains_rules a)
qed

lemma maintains_emptyOnAndroid [maintains_rules]: "maintains (okay t0 J F) (emptyOnAndroid h path read again)"
  unfolding emptyOnAndroid_def by (intro maintains_rules)

lemma maintains_loads [maintains_rules]:
  "maintains (okay t0 J F) (loadContent h d loaded)"
  "maintains (okay t0 J F) m \<Longrightarrow> maintains (okay t0 J F) (sameContentThen h d file loaded m)"
  "maintains (okay t0 J F) (recogniseSelected h d path file)" "maintains (okay t0 J F) (compareWithFile h d path file loaded)"
  unfolding loadContent_def sameContentThen_def recogniseSelected_def compareWithFile_def
  by (intro maintains_rules; assumption?)+


text \<open>What the answers say.\<close>

lemma learns_asks:
  assumes "\<And>a x. x \<in> set (f a) \<Longrightarrow> is_fact x" and "\<And>a. R (F \<union> set (f a)) a"
  shows "learns t0 J F R (asks m f)"
  by (rule learnsI, rule wp_asks_facts) (use assms in \<open>auto intro: exI [of _ F]\<close>)

lemma learns_noted: "(\<And>x. x \<in> set acts \<Longrightarrow> is_fact x) \<Longrightarrow> R (F \<union> set acts) () \<Longrightarrow> learns t0 J F R (modifyW (noted acts))"
  by (rule learnsI) (auto simp: noted_def intro!: exI [of _ "F \<union> set acts"] elim: okay_facts)

end

section \<open>Rules that let stores pass\<close>

text \<open>The actions on the database that replace nothing: revisions beside the others, marked deletions, and chunks.\<close>

fun is_store :: "file_action \<Rightarrow> bool" where
  "is_store (StoredBeside _ _ _ _) = True"
| "is_store (StoredDeletion _ _) = True"
| "is_store (MadeChunks _) = True"
| "is_store _ = False"

locale storage_safety = trace_safety +
  assumes stores: "is_store a \<Longrightarrow> J b a"
begin

lemma maintains_stores [maintains_rules]:
  "maintains (okay t0 J F) (storeAsConflictedRevision h read r)" "maintains (okay t0 J F) (storeDeletionWithBaseRevision h path r)"
  "maintains (okay t0 J F) (createChunks h read force)"
proof -
  have a: "maintains (okay t0 J F) (asks m f)" if "\<And>a x. x \<in> set (f a) \<Longrightarrow> is_store x" for m and f :: "'c \<Rightarrow> file_action list"
    by (rule maintains_passing) (auto intro: stores that)
  show "maintains (okay t0 J F) (storeAsConflictedRevision h read r)" "maintains (okay t0 J F) (storeDeletionWithBaseRevision h path r)"
    "maintains (okay t0 J F) (createChunks h read force)"
    unfolding storeAsConflictedRevision_def storeDeletionWithBaseRevision_def createChunks_def
    by (intro maintains_rules a; auto simp: noted_rev_def split: option.splits if_splits)+
qed

lemma maintains_preserve [maintains_rules]:
  "maintains (okay t0 J F) (keepBeside h path read r)" "maintains (okay t0 J F) (keepUnlessKnown h path file read d r)"
  "maintains (okay t0 J F) (preserveUnsyncedStorageAsConflict h path file d again content)"
proof -
  show a: "maintains (okay t0 J F) (keepBeside h path read r)" for read r
    unfolding keepBeside_def by (intro maintains_rules)
  show b: "maintains (okay t0 J F) (keepUnlessKnown h path file read d r)" for read r
    unfolding keepUnlessKnown_def by (intro maintains_rules maintains_asks a; auto split: if_splits)
  show "maintains (okay t0 J F) (preserveUnsyncedStorageAsConflict h path file d again content)"
    unfolding preserveUnsyncedStorageAsConflict_def by (intro maintains_rules b)
qed

lemma maintains_preserveBeforeWrite [maintains_rules]:
  "maintains (okay t0 J F) (preserveBeforeWrite h d path file again loaded)"
  unfolding preserveBeforeWrite_def by (intro maintains_rules)

end

section \<open>What the checks before a write learn\<close>

text \<open>
  The body that was read of a file is already known: it is in the history of the incoming revision, the incoming
  content is the same or extends it, or it is empty and its emptiness was confirmed or written by this device.
\<close>

definition known_body :: "file_action set \<Rightarrow> string \<Rightarrow> meta_entry \<Rightarrow> body \<Rightarrow> bool" where
  "known_body S p d b \<longleftrightarrow>
     (\<exists>rv. me_rev d = Some rv \<and> ContentInHistory p b rv \<in> S) \<or>
     (\<exists>c. EntryContent d c \<in> S \<and> (isDocContentSame c b \<or> isIncomingTextClearExtension c b)) \<or>
     body_size b = 0 \<and> (ConfirmedEmpty p \<in> S \<or> ReflectedEmpty p \<in> S)"

text \<open>
  A file may be replaced by an entry when none is listed, when the entry has no revision, when the body that was read of
  the listed file is known, or when the file, too large to be read, still has the time and size of a revision in the
  history of the entry. (The item is listed under its own path, which may differ in case.)
\<close>

definition may_replace :: "file_action set \<Rightarrow> string \<Rightarrow> meta_entry \<Rightarrow> bool" where
  "may_replace S p d \<longleftrightarrow>
     Listed p None \<in> S \<or> me_rev d = None \<or> me_rev d = Some [] \<or>
     (\<exists>q. Listed p (Some q) \<in> S \<and>
       ((\<exists>r rv. me_rev d = Some rv \<and> InHistory p r rv \<in> S) \<or>
        (\<exists>b. (BodyRead q b \<in> S \<or> BodyRead p b \<in> S) \<and> known_body S p d b)))"

lemma known_body_mono: "known_body S p d b \<Longrightarrow> S \<subseteq> T \<Longrightarrow> known_body T p d b"
  unfolding known_body_def by blast

lemma may_replace_mono: "may_replace S p d \<Longrightarrow> S \<subseteq> T \<Longrightarrow> may_replace T p d"
  unfolding may_replace_def by (meson known_body_mono subsetD)

context trace_safety
begin

lemma learns_read:
  assumes "fs_body f = None"
  shows "learns t0 J F (\<lambda>G fb. BodyRead (fs_path f) (snd fb) \<in> G) (readFileFromStub h f)"
  unfolding readFileFromStub_def assms option.case
proof (rule learns_after [where R = "\<lambda>G read. F \<subseteq> G \<and> (\<forall>fb. read = Some fb \<longrightarrow> BodyRead (fs_path f) (snd fb) \<in> G)"], goal_cases)
  case 1
  show ?case by (rule learns_asks) (auto split: option.splits)
next
  case (2 G read)
  then show ?case by (intro learns_option learns_ret learns_throw) auto
qed

lemma learns_checkConfirmed: "learns t0 J F (\<lambda>G c. c \<longrightarrow> ConfirmedEmpty path \<in> G) (checkConfirmed path)"
  unfolding checkConfirmed_def
  by (intro learns_skip maintains_rules learns_after [where R = "\<lambda>G u. c \<longrightarrow> ConfirmedEmpty path \<in> G" for c]
      learns_noted learns_ret) auto

lemma learns_isReflectedEmptiness:
  "learns t0 J F (\<lambda>G own. own \<longrightarrow> ReflectedEmpty path \<in> G) (isReflectedEmptiness h path stat)"
  unfolding isReflectedEmptiness_def Let_def
  by (intro learns_option learns_if learns_ret learns_skip maintains_log_only maintains_pub_get
      learns_after [where R = "\<lambda>G u. c \<longrightarrow> ReflectedEmpty path \<in> G" for c] learns_noted) auto

text \<open>A file that reads as empty is let go only with a reason.\<close>

lemma learns_emptyOnAndroid:
  "learns t0 J F (\<lambda>G r. r = Some NotPreserved \<longrightarrow>
     body_size (snd fb) = 0 \<and> (ConfirmedEmpty path \<in> G \<or> ReflectedEmpty path \<in> G)) (emptyOnAndroid h path fb again)"
  unfolding emptyOnAndroid_def
  by (rule learns_if, simp add: learns_ret,
      rule learns_skip, rule maintains_primitives, rule learns_if, simp add: learns_ret,
      rule learns_after [OF learns_checkConfirmed], rule learns_if, simp add: learns_ret,
      rule learns_after [OF learns_isReflectedEmptiness], rule learns_if, simp add: learns_ret,
      rule learns_skip, rule maintains_records, simp add: learns_ret)

lemma learns_unchangedSinceHistory:
  "learns t0 J F (\<lambda>G unchanged. unchanged \<longrightarrow> (\<exists>s rv. me_rev d = Some rv \<and> InHistory path s rv \<in> G))
     (isStorageUnchangedSinceRevisionInHistory h path f d)"
  unfolding isStorageUnchangedSinceRevisionInHistory_def isRevisionInHistory_def
  by (intro learns_option learns_if learns_log_only learns_skip maintains_records learns_ret)
    (auto split: prod.split option.split intro!: learns_ret learns_asks)

end

context trace_safety
begin

lemma learns_hasContent:
  "learns t0 J F (\<lambda>G has. has \<longrightarrow> ContentInHistory path b rv \<in> G)
     (asks (fh_hasContent h path b rv) (\<lambda>has. if has then [ContentInHistory path b rv] else []))"
  by (rule learns_asks) (auto split: if_splits)

text \<open>The content of an entry comes from the entry.\<close>

lemma learns_readContent:
  "learns t0 J F (\<lambda>G r. \<forall>c. r = Some c \<longrightarrow> EntryContent d c \<in> G) (readEntryContentForStorage h d)"
proof -
  let ?R = "\<lambda>G r. \<forall>c. r = Some c \<longrightarrow> EntryContent d c \<in> G"
  let ?whole = "after (asks (fh_fetchFromMeta h d) (\<lambda>read. case read of Some doc \<Rightarrow> [EntryContent d (le_data doc)] | None \<Rightarrow> []))
      (\<lambda>read. ret (case read of None \<Rightarrow> None
         | Some doc \<Rightarrow> if \<not> fh_processSizeMismatchedFiles h \<and> me_size (le_meta doc) \<noteq> Some 0 \<and>
             me_size (le_meta doc) \<noteq> Some (body_size (le_data doc)) then None else Some (le_data doc)))"
  have whole: "learns t0 J G ?R ?whole" for G
    by (rule learns_after [where R = "\<lambda>G read. \<forall>doc. read = Some doc \<longrightarrow> EntryContent d (le_data doc) \<in> G"])
      (auto intro!: learns_asks learns_ret split: option.splits if_splits)
  show ?thesis
    unfolding readEntryContentForStorage_def Let_def
    by (intro learns_option learns_if whole
        learns_after [where R = "\<lambda>G b. \<forall>bytes. b = Some (BinaryOk bytes) \<longrightarrow> EntryContent d (BinaryBody bytes) \<in> G"] learns_asks)
      (auto intro: learns_ret whole split: option.splits binary_content.splits)
qed

lemma learns_loadContent:
  "(\<And>c. loaded = Some c \<Longrightarrow> EntryContent d c \<in> F) \<Longrightarrow>
   learns t0 J F (\<lambda>G r. \<forall>c. r = Some c \<longrightarrow> EntryContent d c \<in> G) (loadContent h d loaded)"
  unfolding loadContent_def by (auto intro: learns_readContent learns_ret split: option.split)

end

context storage_safety
begin

lemma learns_keepBeside: "learns t0 J F (\<lambda>G p. p \<noteq> NotPreserved) (keepBeside h path fb r)"
  unfolding keepBeside_def
  by (intro learns_skip maintains_stores learns_option learns_ret maintains_records maintains_primitives) auto

lemma learns_keepUnlessKnown:
  assumes body: "fs_body f = None" and "BodyRead (fs_path f) (snd fb) \<in> F"
  shows "learns t0 J F (\<lambda>G p. p = NotPreserved \<longrightarrow>
      (\<exists>b. BodyRead (fs_path f) b \<in> G \<and> ContentInHistory path b rv \<in> G)) (keepUnlessKnown h path f fb d rv)"
proof -
  have go: "learns t0 J G (\<lambda>G p. p = NotPreserved \<longrightarrow> (\<exists>b. BodyRead (fs_path f) b \<in> G \<and> ContentInHistory path b rv \<in> G))
     (after (asks (fh_hasContent h path (snd g) rv) (\<lambda>has. if has then [ContentInHistory path (snd g) rv] else []))
       (\<lambda>has. if has then ret NotPreserved else keepBeside h path g rv))"
    if "BodyRead (fs_path f) (snd g) \<in> G" for g G
    by (rule learns_after [OF learns_hasContent], rule learns_if)
      (use that in \<open>auto intro!: learns_ret learns_mono [OF learns_keepBeside]\<close>)
  show ?thesis
    unfolding keepUnlessKnown_def
    by (rule learns_skip, intro maintains_rules maintains_primitives,
        rule learns_after [where R = "\<lambda>G g. BodyRead (fs_path f) (snd g) \<in> G"],
        rule learns_if, rule learns_read [OF body], rule learns_ret, rule assms(2),
        rule learns_skip, intro maintains_rules maintains_records,
        rule learns_if, rule learns_mono [OF learns_keepBeside], simp, erule go)
qed

text \<open>Local work is kept, or the file may be replaced.\<close>

lemma learns_preserve:
  assumes body: "fs_body f = None" and listed: "Listed path (Some lp) \<in> F" "fs_path f = lp \<or> fs_path f = path"
    and content: "\<And>c. content = Some c \<Longrightarrow> EntryContent d c \<in> F"
  shows "learns t0 J F (\<lambda>G p. p = NotPreserved \<longrightarrow> may_replace G path d)
    (preserveUnsyncedStorageAsConflict h path f d again content)"
proof -
  have known: "may_replace G path d" if "F \<subseteq> G" "BodyRead (fs_path f) b \<in> G" "known_body G path d b" for G b
    unfolding may_replace_def using listed that by blast
  have later: "learns t0 J G (\<lambda>G p. p = NotPreserved \<longrightarrow> may_replace G path d)
      (if already_known content (snd fb) then ret NotPreserved
       else (case me_rev d of None \<Rightarrow> ret NotPreserved
         | Some rv \<Rightarrow> if rv = [] then ret NotPreserved else keepUnlessKnown h path f fb d rv))"
    if at: "F \<subseteq> G" "BodyRead (fs_path f) (snd fb) \<in> G" for G fb
  proof (rule learns_if, goal_cases)
    case 1
    then have "known_body G path d (snd fb)"
      using content at(1) unfolding already_known_def known_body_def by (auto split: option.splits)
    with at known show ?case by (auto intro!: learns_ret)
  next
    case 2
    have "may_replace H path d" if "G \<subseteq> H" "BodyRead (fs_path f) b \<in> H" "ContentInHistory path b rv \<in> H" "me_rev d = Some rv"
      for H b rv
      using known [of H b] at(1) that unfolding known_body_def by blast
    then show ?case
      by (intro learns_option learns_if learns_ret learns_mono [OF learns_keepUnlessKnown [OF body at(2)]])
        (auto simp: may_replace_def)
  qed
  show ?thesis
    unfolding preserveUnsyncedStorageAsConflict_def
  proof (rule learns_after [OF learns_unchangedSinceHistory], rule learns_if, goal_cases)
    case (1 G unchanged)
    with listed show ?case by (auto intro!: learns_ret simp: may_replace_def)
  next
    case (2 G unchanged)
    show ?case
    proof (rule learns_after [OF learns_read [OF body]], rule learns_after [OF learns_emptyOnAndroid], rule learns_option, goal_cases)
      case (1 G1 fb G2 early)
      then show ?case using 2(1) by (intro later) auto
    next
      case (2 G1 fb G2 early p)
      have "F \<subseteq> G2" "BodyRead (fs_path f) (snd fb) \<in> G2" using 2 \<open>F \<subseteq> G\<close> by auto
      with 2 known show ?case by (auto intro!: learns_ret simp: known_body_def)
    qed
  qed
qed

end

section \<open>Local work is kept\<close>

text \<open>
  A rule that lets a file be written, published or deleted when it may be replaced; a lax one also when the call was
  forced.
\<close>

locale reflection_safety = storage_safety +
  fixes lax :: bool
  assumes moves: "J b (MovedFile p q)"
    and writes: "EntryContent d c \<in> set b \<Longrightarrow> lax \<or> may_replace (set b) p d \<Longrightarrow> J b (WroteFile p c d)"
    and publishes: "lax \<or> may_replace (set b) p d \<Longrightarrow> J b (PublishedFile p d)"
    and deletes: "MetaSeen p None (Some l) \<in> set b \<Longrightarrow> isDeletedEntry l \<Longrightarrow> lax \<or> may_replace (set b) p l \<Longrightarrow> J b (DeletedFile p)"
begin

lemma maintains_attempts:
  assumes "\<And>b. F \<subseteq> set b \<Longrightarrow> J b a"
  shows "maintains (okay t0 J F) (attempts a m)"
  unfolding attempts_def
  by (intro maintains_after maintains_asks maintainsI)
    (use assms in \<open>auto simp: noted_def intro: okay_mono [OF okay_act]\<close>)

lemma may_write: "EntryContent d c \<in> F \<Longrightarrow> lax \<or> may_replace F p d \<Longrightarrow> F \<subseteq> set b \<Longrightarrow> J b (WroteFile p c d)"
  by (rule writes) (auto intro: may_replace_mono)

lemma may_publish: "lax \<or> may_replace F p d \<Longrightarrow> F \<subseteq> set b \<Longrightarrow> J b (PublishedFile p d)"
  by (rule publishes) (auto intro: may_replace_mono)

lemma maintains_rewrite:
  "EntryContent d c \<in> F \<Longrightarrow> lax \<or> may_replace F path d \<Longrightarrow> maintains (okay t0 J F) (rewriteUntilSizeIsReported h path c d k)"
proof (induction k)
  case 0
  show ?case
    by (subst rewriteUntilSizeIsReported.simps, simp only: nat.case, intro maintains_rules maintains_primitives)
next
  case (Suc k)
  show ?case
    by (subst rewriteUntilSizeIsReported.simps, simp only: nat.case,
        intro maintains_rules maintains_primitives maintains_asks maintains_attempts Suc may_write [OF Suc.prems]) auto
qed

lemma maintains_writeEntry:
  assumes "EntryContent d c \<in> F" and "lax \<or> may_replace F path d"
  shows "maintains (okay t0 J F) (writeEntryToStorage h d path c)"
  unfolding writeEntryToStorage_def
  by (intro maintains_rules maintains_primitives maintains_checks maintains_records maintains_asks maintains_attempts
      maintains_rewrite may_write [OF assms] assms) auto

lemma maintains_writeInParts:
  assumes "lax \<or> may_replace F path d"
  shows "maintains (okay t0 J F) (writeEntryToStorageInParts h d path approved)"
  unfolding writeEntryToStorageInParts_def
  by (intro maintains_rules maintains_primitives maintains_unlessUnloaded maintains_log_only maintains_pub_get maintains_pub
      maintains_checks maintains_asks maintains_attempts may_publish [OF assms]) auto

lemma maintains_writeReflected:
  assumes "lax \<or> may_replace F path d" and "\<And>c. loaded = Some c \<Longrightarrow> EntryContent d c \<in> F"
  shows "maintains (okay t0 J F) (writeReflected h d path approved loaded)"
proof -
  have "learns t0 J F (\<lambda>_ _. True) (after (loadContent h d loaded) (\<lambda>content.
      case content of None \<Rightarrow> ret False | Some c \<Rightarrow> unlessUnloaded h False (writeEntryToStorage h d path c)))"
    by (rule learns_after [OF learns_loadContent], erule assms(2),
        intro learns_option learns_ret learns_maintains maintains_unlessUnloaded maintains_writeEntry)
      (use assms(1) in \<open>auto dest: may_replace_mono\<close>)
  note load = maintains_learns [OF this]
  show ?thesis
    unfolding writeReflected_def
    by (rule maintains_unlessUnloaded, rule maintains_after, intro maintains_if maintains_ret maintains_writeInParts assms(1),
        rule maintains_option, rule load, rule maintains_ret)
qed

text \<open>The steps before the write.\<close>

lemma learns_sameContent:
  assumes body: "fs_body f = None" and loaded: "\<And>c. loaded = Some c \<Longrightarrow> EntryContent d c \<in> F"
    and settle: "\<And>G. maintains (okay t0 J G) settle"
  shows "learns t0 J F (\<lambda>G r. \<forall>c. r = Inr (Some c) \<longrightarrow> EntryContent d c \<in> G) (sameContentThen h d f loaded settle)"
  unfolding sameContentThen_def
  by (rule learns_after [OF learns_loadContent], erule loaded,
      intro learns_option learns_ret learns_after [OF learns_read [OF body]] learns_if learns_skip settle) auto

lemma learns_recognise:
  "fs_body f = None \<Longrightarrow> learns t0 J F (\<lambda>G r. \<forall>c. r = Inr (Some c) \<longrightarrow> EntryContent d c \<in> G) (recogniseSelected h d path f)"
  unfolding recogniseSelected_def
  by (intro learns_if learns_ret learns_sameContent maintains_after maintains_checks) auto

lemma learns_compare:
  "fs_body f = None \<Longrightarrow> (\<And>c. loaded = Some c \<Longrightarrow> EntryContent d c \<in> F) \<Longrightarrow>
   learns t0 J F (\<lambda>G r. \<forall>c. r = Inr (Some c) \<longrightarrow> EntryContent d c \<in> G) (compareWithFile h d path f loaded)"
  unfolding compareWithFile_def
  by (intro learns_skip maintains_getW learns_if learns_ret learns_sameContent maintains_after maintains_checks) auto

lemma learns_preserveBefore:
  assumes body: "fs_body f = None" and listed: "Listed path (Some lp) \<in> F" "fs_path f = lp \<or> fs_path f = path"
    and loaded: "\<And>c. loaded = Some c \<Longrightarrow> EntryContent d c \<in> F" and strict: "lax \<or> \<not> fh_writeDocumentsIfConflicted h"
  shows "learns t0 J F (\<lambda>G r. \<forall>l. r = Inr l \<longrightarrow> (lax \<or> may_replace G path d) \<and> (\<forall>c. l = Some c \<longrightarrow> EntryContent d c \<in> G))
    (preserveBeforeWrite h d path f again loaded)"
  unfolding preserveBeforeWrite_def
proof (rule learns_if, goal_cases)
  case 1
  with strict loaded show ?case by (auto intro!: learns_ret)
next
  case 2
  let ?R = "\<lambda>G r. \<forall>c. r = Inr (Some c) \<longrightarrow> EntryContent d c \<in> G"
  have first: "learns t0 J F ?R (if loaded = None \<and> is_text d
      then after (readEntryContentForStorage h d) (\<lambda>c. ret (case c of None \<Rightarrow> Inl False | Some b \<Rightarrow> Inr (Some b)))
      else ret (Inr loaded))"
    by (intro learns_if learns_after [OF learns_readContent] learns_ret) (auto split: option.split dest: loaded)
  show ?case
  proof (rule learns_after [OF first], goal_cases)
    case (1 G content)
    show ?case
    proof (cases content)
      case (Inl b)
      then show ?thesis by (simp add: learns_ret)
    next
      case (Inr known)
      have k: "EntryContent d c \<in> G" if "known = Some c" for c using that 1(2) Inr by simp
      have "learns t0 J G (\<lambda>G p. p = NotPreserved \<longrightarrow> may_replace G path d) (preserveUnsyncedStorageAsConflict h path f d again known)"
        by (rule learns_preserve [OF body _ listed(2) k]) (use listed(1) 1(1) in auto)
      then show ?thesis
        unfolding Inr sum.case
        by (rule learns_after) (use k in \<open>auto intro!: learns_ret split: preserved.splits\<close>)
    qed
  qed
qed

end

text \<open>A listed item, and the file at its path after a rename.\<close>

definition listed_as :: "file_action set \<Rightarrow> string \<Rightarrow> file_stub option \<Rightarrow> bool" where
  "listed_as F path file \<longleftrightarrow>
     (case file of
        None \<Rightarrow> Listed path None \<in> F
      | Some f \<Rightarrow> fs_body f = None \<and> (\<exists>lp. Listed path (Some lp) \<in> F \<and> (fs_path f = lp \<or> fs_path f = path)))"

lemma listed_as_mono: "listed_as F path f \<Longrightarrow> F \<subseteq> G \<Longrightarrow> listed_as G path f"
  by (auto simp: listed_as_def split: option.splits)

context trace_safety
begin

lemma learns_fetchMeta: "learns t0 J F (\<lambda>G d. MetaSeen path rv d \<in> G) (fetchEntryMeta h path rv)"
  unfolding fetchEntryMeta_def by (rule learns_asks) auto

lemma learns_getStub:
  "learns t0 J F (\<lambda>G item. (item = None \<longrightarrow> listed_as G path None) \<and> (\<forall>f. item = Some (AFile f) \<longrightarrow> listed_as G path (Some f)))
     (getStub h path)"
  unfolding getStub_def
  by (rule learns_after [where R = "\<lambda>G item. Listed path (map_option item_path item) \<in> G"])
    (auto intro!: learns_asks learns_ret simp: listed_as_def split: option.splits storage_item.splits)

end

context reflection_safety
begin

lemma maintains_stepThen:
  assumes "learns t0 J F (\<lambda>G r. \<forall>l. r = Inr l \<longrightarrow> P G l) m" and "\<And>G l. F \<subseteq> G \<Longrightarrow> P G l \<Longrightarrow> maintains (okay t0 J G) (f l)"
  shows "maintains (okay t0 J F) (step_then m f)"
  unfolding step_then_def
proof (rule maintains_learns [where R = "\<lambda>_ _. True"], rule learns_after [OF assms(1)], goal_cases)
  case (1 G r)
  then show ?case by (cases r) (auto intro!: learns_ret learns_maintains assms(2))
qed

lemma maintains_reflectEntry:
  assumes listed: "listed_as F path existDoc" and strict: "lax \<or> \<not> force \<and> \<not> fh_writeDocumentsIfConflicted h"
  shows "maintains (okay t0 J F) (reflectEntry h d path existDoc force allow again approved)"
proof (cases existDoc)
  case None
  with listed have "may_replace F path d" by (simp add: listed_as_def may_replace_def)
  with None show ?thesis by (auto simp: reflectEntry_def intro!: maintains_writeReflected)
next
  case (Some f)
  with listed obtain lp where f: "fs_body f = None" "Listed path (Some lp) \<in> F" "fs_path f = lp \<or> fs_path f = path"
    by (auto simp: listed_as_def)
  have first: "learns t0 J G (\<lambda>G r. \<forall>l. r = Inr l \<longrightarrow> (\<forall>c. l = Some c \<longrightarrow> EntryContent d c \<in> G))
      (if allow then recogniseSelected h d path f else ret (Inr None))" for G
    by (intro learns_if learns_mono [OF learns_recognise [OF f(1)]] learns_ret) auto
  show ?thesis
  proof (cases force)
    case True
    with strict Some show ?thesis by (auto simp: reflectEntry_def intro!: maintains_writeReflected)
  next
    case False
    have last: "maintains (okay t0 J G) (step_then (preserveBeforeWrite h d path f again l) (writeReflected h d path approved))"
      if "F \<subseteq> G" "\<forall>c. l = Some c \<longrightarrow> EntryContent d c \<in> G" for G l
      by (rule maintains_stepThen [OF learns_preserveBefore [OF f(1) _ f(3)]])
        (use that f(2) strict False in \<open>auto intro: maintains_writeReflected\<close>)
    have compare: "maintains (okay t0 J G) (step_then (compareWithFile h d path f l) (\<lambda>l.
        step_then (preserveBeforeWrite h d path f again l) (writeReflected h d path approved)))"
      if "F \<subseteq> G" "\<forall>c. l = Some c \<longrightarrow> EntryContent d c \<in> G" for G l
      by (rule maintains_stepThen [where P = "\<lambda>G l. \<forall>c. l = Some c \<longrightarrow> EntryContent d c \<in> G"], rule learns_mono [OF learns_compare [OF f(1)]])
        (use that last in auto)
    show ?thesis
      unfolding reflectEntry_def Some option.case if_not_P [OF False]
      by (intro maintains_after maintains_checks maintains_if maintains_ret maintains_stepThen [OF first] compare)
  qed
qed

lemma learns_rename:
  assumes "listed_as F path existDoc"
  shows "learns t0 J F (\<lambda>G r. \<forall>f. r = Some f \<longrightarrow> listed_as G path f) (renameToStoredCase h path existDoc)"
proof (cases existDoc)
  case None
  with assms show ?thesis by (simp add: renameToStoredCase_def learns_ret)
next
  case (Some f)
  then obtain lp where f: "Listed path (Some lp) \<in> F" "fs_body f = None" "fs_path f = lp \<or> fs_path f = path"
    using assms by (auto simp: listed_as_def)
  show ?thesis
    unfolding renameToStoredCase_def Some option.case
    by (intro learns_if learns_ret learns_skip maintains_primitives maintains_attempts moves learns_option maintains_if
        maintains_pub maintains_ret)
      (use f in \<open>auto simp: listed_as_def\<close>)
qed

end

context reflection_safety
begin

lemma maintains_deletion:
  assumes strict: "lax \<or> \<not> force \<and> \<not> fh_writeDocumentsIfConflicted h"
  shows "maintains (okay t0 J F) (applyDatabaseDeletion h d path force again)"
proof -
  let ?finish = "after (confirmAbsent h path) (\<lambda>absent.
      if \<not> absent then ret False
      else after (if fh_hasProvenance h then discardForDatabaseDeletion (fh_pub h) path else ret ()) (\<lambda>_. ret True))"
  have finish: "maintains (okay t0 J G) ?finish" for G
    by (intro maintains_rules maintains_checks maintains_pub)
  have item: "maintains (okay t0 J G)
      (case current of Some (AFolder p) \<Rightarrow> ret False | None \<Rightarrow> ?finish
       | Some (AFile f) \<Rightarrow>
           after (if \<not> force \<and> \<not> fh_writeDocumentsIfConflicted h
                  then preserveUnsyncedStorageAsConflict h path f l again None else ret NotPreserved) (\<lambda>p.
           case p of NotApplied \<Rightarrow> ret False | Preserved \<Rightarrow> ret True
           | NotPreserved \<Rightarrow> after (attempts (DeletedFile path) (fh_deleteItem h path)) (\<lambda>_. ?finish)))"
    if l: "MetaSeen path None (Some l) \<in> G" "isDeletedEntry l"
      and cur: "\<forall>f. current = Some (AFile f) \<longrightarrow> listed_as G path (Some f)" for G l current
  proof (cases "\<exists>f. current = Some (AFile f)")
    case False
    then consider "current = None" | q where "current = Some (AFolder q)"
      by (cases current rule: option.exhaust) (auto intro: storage_item.exhaust)
    then show ?thesis
    proof cases
      case 1
      show ?thesis unfolding 1 option.case by (rule finish)
    next
      case 2
      show ?thesis unfolding 2 option.case storage_item.case by (rule maintains_ret)
    qed
  next
    case True
    then obtain f where f: "current = Some (AFile f)" by blast
    with cur obtain lp where at: "fs_body f = None" "Listed path (Some lp) \<in> G" "fs_path f = lp \<or> fs_path f = path"
      by (auto simp: listed_as_def)
    let ?P = "\<lambda>H p. p = NotPreserved \<longrightarrow> lax \<or> may_replace H path l"
    have keep: "learns t0 J G ?P (if \<not> force \<and> \<not> fh_writeDocumentsIfConflicted h
        then preserveUnsyncedStorageAsConflict h path f l again None else ret NotPreserved)"
      by (rule learns_if, rule learns_mono [OF learns_preserve [OF at]]) (use strict in \<open>auto intro: learns_ret\<close>)
    have del: "maintains (okay t0 J H) (after (attempts (DeletedFile path) (fh_deleteItem h path)) (\<lambda>_. ?finish))"
      if "G \<subseteq> H" "lax \<or> may_replace H path l" for H
      by (rule maintains_after [OF maintains_attempts finish], rule deletes [OF _ l(2)])
        (use that l(1) in \<open>auto intro: may_replace_mono\<close>)
    show ?thesis
      unfolding f option.case storage_item.case
    proof (rule maintains_learns [where R = "\<lambda>_ _. True"], rule learns_after [OF keep], goal_cases)
      case (1 H p)
      then show ?case by (cases p; simp only: preserved.case; intro learns_ret learns_maintains del; simp)
    qed
  qed
  show ?thesis
    unfolding applyDatabaseDeletion_def Let_def
  proof (rule maintains_learns [where R = "\<lambda>_ _. True"], rule learns_after [OF learns_fetchMeta], rule learns_option,
      rule learns_ret, simp, rule learns_if, rule learns_ret, simp, rule learns_after [OF learns_getStub], goal_cases)
    case (1 G latest l H current)
    then show ?case by (intro learns_maintains item) auto
  qed
qed

lemma maintains_applyToFile:
  assumes listed: "listed_as F path existDoc" and strict: "lax \<or> \<not> force \<and> \<not> fh_writeDocumentsIfConflicted h"
  shows "maintains (okay t0 J F) (applyToFile h d path existDoc force allow)"
proof -
  have "learns t0 J F (\<lambda>_ _. True) (after (renameToStoredCase h path existDoc) (\<lambda>target. case target of None \<Rightarrow> ret False
      | Some f \<Rightarrow> reflectEntry h d path f force allow again approved))" for again approved
    by (rule learns_after [OF learns_rename [OF listed]], rule learns_option, rule learns_ret, simp,
        rule learns_maintains, rule maintains_reflectEntry [OF _ strict]) simp_all
  from maintains_learns [OF this] show ?thesis
    unfolding applyToFile_def
    by (intro maintains_after [where m = "if _ then _ else _"] maintains_if maintains_primitives maintains_ret
        maintains_deletion [OF strict])
qed

text \<open>Every entrance of the reflections.\<close>

lemma maintains_applyEntry:
  assumes strict: "lax \<or> \<not> force \<and> \<not> fh_writeDocumentsIfConflicted h"
  shows "maintains (okay t0 J F) (applyDatabaseEntryToStorage h d force allow)"
proof -
  have "learns t0 J F (\<lambda>_ _. True) (after (getStub h path) (\<lambda>item. case item of
       Some (AFolder p) \<Rightarrow> ret True | Some (AFile f) \<Rightarrow> applyToFile h d path (Some f) force allow
     | None \<Rightarrow> applyToFile h d path None force allow))" for path
    by (rule learns_after [OF learns_getStub])
      (auto split: option.split storage_item.split intro!: maintains_ret learns_maintains maintains_applyToFile [OF _ strict])
  note item = maintains_learns [OF this]
  show ?thesis
    unfolding applyDatabaseEntryToStorage_def
    by (rule maintains_unlessUnloaded, rule maintains_after, rule maintains_checks, rule maintains_after,
        rule maintains_primitives, rule maintains_if, rule maintains_after, rule maintains_asks, simp, rule maintains_ret,
        rule item)
qed

lemma maintains_reflections:
  "lax \<or> \<not> force \<and> \<not> fh_writeDocumentsIfConflicted h \<Longrightarrow> maintains (okay t0 J F) (dbToStorage h e info force)"
  "lax \<or> \<not> force \<and> \<not> fh_writeDocumentsIfConflicted h \<Longrightarrow> maintains (okay t0 J F) (dbToStorageWithSpecificRev h info rv force)"
  "lax \<or> \<not> fh_writeDocumentsIfConflicted h \<Longrightarrow> maintains (okay t0 J F) (recoverMissingPublication h path)"
  "lax \<or> \<not> fh_writeDocumentsIfConflicted h \<Longrightarrow> maintains (okay t0 J F) (applyReplicated h entry path)"
proof -
  show a: "lax \<or> \<not> force \<and> \<not> fh_writeDocumentsIfConflicted h \<Longrightarrow> maintains (okay t0 J F) (dbToStorage h e info force)"
    for e info force
    unfolding dbToStorage_def
    by (cases e) (auto intro!: maintains_rules maintains_applyEntry)
  show "lax \<or> \<not> force \<and> \<not> fh_writeDocumentsIfConflicted h \<Longrightarrow> maintains (okay t0 J F) (dbToStorageWithSpecificRev h info rv force)"
    unfolding dbToStorageWithSpecificRev_def Let_def
    by (intro maintains_rules maintains_applyEntry maintains_infoToStub maintains_primitives)
  show "lax \<or> \<not> fh_writeDocumentsIfConflicted h \<Longrightarrow> maintains (okay t0 J F) (recoverMissingPublication h path)"
    unfolding recoverMissingPublication_def
    by (intro maintains_rules maintains_applyEntry maintains_primitives) simp
  show "lax \<or> \<not> fh_writeDocumentsIfConflicted h \<Longrightarrow> maintains (okay t0 J F) (applyReplicated h entry path)"
    unfolding applyReplicated_def
    by (rule maintains_after, rule maintains_primitives)
      (auto split: option.split storage_item.split intro!: maintains_ret a maintains_if)
qed

end

text \<open>
  What justifies a change of a file: the content is the one of the entry, and the file may be replaced by it; a file is
  deleted for the newest revision of its entry, which is a deletion.
\<close>

fun writes_justified :: justification where
  "writes_justified before (WroteFile p c d) \<longleftrightarrow> EntryContent d c \<in> set before \<and> may_replace (set before) p d"
| "writes_justified before (PublishedFile p d) \<longleftrightarrow> may_replace (set before) p d"
| "writes_justified before (DeletedFile p) \<longleftrightarrow>
     (\<exists>l. MetaSeen p None (Some l) \<in> set before \<and> isDeletedEntry l \<and> may_replace (set before) p l)"
| "writes_justified before _ \<longleftrightarrow> True"

interpretation wj: reflection_safety writes_justified False
proof unfold_locales
  show "is_fact a \<Longrightarrow> writes_justified b a" for a b by (cases a) simp_all
  show "is_store a \<Longrightarrow> writes_justified b a" for a b by (cases a) simp_all
qed auto

text \<open>The unforced entrances.\<close>

datatype reflection_call =
    Replicated meta_entry
  | Newest entry_or_path "file_arg option"
  | Selected "file_arg option" string
  | Recover string

fun reflect_call :: "'x file_host \<Rightarrow> reflection_call \<Rightarrow> ('x, bool) file_call" where
  "reflect_call h (Replicated entry) = processReplicatedDoc h None entry"
| "reflect_call h (Newest entry info) = dbToStorage h entry info False"
| "reflect_call h (Selected info rv) = dbToStorageWithSpecificRev h info rv False"
| "reflect_call h (Recover path) = recoverMissingPublication h path"

lemma maintains_reflectCall:
  assumes "\<not> fh_writeDocumentsIfConflicted h"
  shows "maintains (okay t0 writes_justified F) (reflect_call h c)"
proof (cases c)
  case (Replicated entry)
  show ?thesis
    unfolding Replicated reflect_call.simps processReplicatedDoc_def option.case
    by (intro wj.maintains_unlessUnloaded maintains_after maintains_if maintains_ret wj.maintains_primitives wj.maintains_checks
        wj.maintains_reflections) (simp add: assms)
qed (use assms in \<open>simp_all add: wj.maintains_reflections\<close>)



end
