(* ===== verification/StoreSafety.thy ===== *)
theory StoreSafety
  imports FileSafety
begin

text \<open>
  What the handlers of storage events may do to the database: on Android, where a file can read as empty for a moment, an
  empty body extends a revision only when its emptiness was settled; and an entry is removed as a whole only when it has
  no conflicts. One locale goes through every store, deletion and rename; two interpretations use it.
\<close>

section \<open>Settled bodies\<close>

definition holds_nothing :: "meta_entry option \<Rightarrow> bool" where
  "holds_nothing d \<longleftrightarrow> (case d of None \<Rightarrow> True | Some e \<Rightarrow> isDeletedEntry e \<or> size_of e = 0)"

text \<open>
  A body that is not empty; an emptiness that this device has written itself, of a recorded revision that is empty; or a
  confirmed one, when the database holds no content for the path, or none in the revision that is extended.
\<close>

definition settled :: "file_action set \<Rightarrow> string \<Rightarrow> string option \<Rightarrow> body \<Rightarrow> bool" where
  "settled S p base b \<longleftrightarrow>
     body_size b \<noteq> 0 \<or>
     ReflectedEmpty p \<in> S \<and> (\<exists>r e. MetaSeen p (Some r) (Some e) \<in> S \<and> me_size e = Some 0) \<or>
     ConfirmedEmpty p \<in> S \<and>
       (\<exists>d. holds_nothing d \<and> (MetaSeen p None d \<in> S \<or> base \<noteq> None \<and> MetaSeen p base d \<in> S))"

lemma settled_mono: "settled S p base b \<Longrightarrow> S \<subseteq> T \<Longrightarrow> settled T p base b"
  unfolding settled_def by blast

text \<open>A file is read under the path that was asked for.\<close>

definition reads_back :: "'x file_host \<Rightarrow> bool" where
  "reads_back h \<longleftrightarrow>
     (\<forall>f x g b x'. fh_readStub h f x = (Inr (Some (g, b)), x') \<longrightarrow> fs_path g = fs_path f) \<and>
     (\<forall>p x g x'. fh_getFileStub h p x = (Inr (Some g), x') \<longrightarrow> fs_path g = p)"

text \<open>An answer that does not depend on the trace.\<close>

lemma learns_answer:
  assumes "learns t0 J F R (m :: ('x, 'z, 'a) pub_call)" and "\<And>w. wp m (\<lambda>r w'. \<forall>a. r = Inr a \<longrightarrow> P a) w"
  shows "learns t0 J F (\<lambda>G a. R G a \<and> P a) m"
proof (rule learnsI)
  fix w :: "('x, 'z) pub_world_scheme" assume "okay t0 J F w"
  with assms(1) have "wp m (\<lambda>r w'. \<exists>G. F \<subseteq> G \<and> okay t0 J G w' \<and> (\<forall>a. r = Inr a \<longrightarrow> R G a)) w"
    by (simp add: learns_def)
  from wp_conj [OF this assms(2)] show "wp m (\<lambda>r w'. \<exists>G. F \<subseteq> G \<and> okay t0 J G w' \<and> (\<forall>a. r = Inr a \<longrightarrow> R G a \<and> P a)) w"
    by (rule wp_mono) blast
qed

lemma reads_backD:
  "reads_back h \<Longrightarrow> fh_readStub h f x = (Inr (Some (g, b)), x') \<Longrightarrow> fs_path g = fs_path f"
  "reads_back h \<Longrightarrow> fh_getFileStub h p x = (Inr (Some g), x') \<Longrightarrow> fs_path g = p"
  unfolding reads_back_def by blast+

lemma read_path:
  "reads_back h \<Longrightarrow> wp (readFileFromStub h f) (\<lambda>r w'. \<forall>fb. r = Inr fb \<longrightarrow> fs_path (fst fb) = fs_path f) w"
  unfolding readFileFromStub_def
  by (cases "fs_body f") (auto dest: reads_backD split: prod.split sum.split option.split)

lemma fileStub_path:
  "reads_back h \<Longrightarrow> wp (getFileStub h p) (\<lambda>r w'. \<forall>a. r = Inr a \<longrightarrow> (\<forall>g. a = Some g \<longrightarrow> fs_path g = p)) w"
  unfolding getFileStub_def by (auto dest: reads_backD split: prod.split sum.split option.split)

context trace_safety
begin

lemma maintains_read [maintains_rules]: "maintains (okay t0 J F) (readFileFromStub h f)"
  by (rule maintains_primitives)

lemma learns_readPath: "reads_back h \<Longrightarrow> learns t0 J F (\<lambda>G fb. fs_path (fst fb) = fs_path f) (readFileFromStub h f)"
  by (rule learns_mono, rule learns_answer [OF learns_maintains [where R = "\<lambda>_ _. True"] read_path]) (auto intro: maintains_read)

lemma learns_fileStub: "reads_back h \<Longrightarrow> learns t0 J F (\<lambda>G g. \<forall>f. g = Some f \<longrightarrow> fs_path f = p) (getFileStub h p)"
  by (rule learns_mono, rule learns_answer [OF learns_maintains [where R = "\<lambda>_ _. True"] fileStub_path])
    (auto intro: maintains_primitives)

lemma learns_ownEmpty:
  "learns t0 J F (\<lambda>G own. own \<longrightarrow> ReflectedEmpty p \<in> G \<and> (\<exists>r e. MetaSeen p (Some r) (Some e) \<in> G \<and> me_size e = Some 0))
     (isOwnEmptyReflection h p stat)"
  unfolding isOwnEmptyReflection_def
proof (rule learns_after [OF learns_isReflectedEmptiness], goal_cases)
  case (1 G shown)
  have "learns t0 J G (\<lambda>G own. own \<longrightarrow> (\<exists>r e. MetaSeen p (Some r) (Some e) \<in> G \<and> me_size e = Some 0))
      (log_only False (after (pub_get (fh_pub h) p) (\<lambda>record. case record of None \<Rightarrow> ret False
        | Some r \<Rightarrow> after (fetchEntryMeta h p (Some (pv_revision r))) (\<lambda>entry.
            ret (case entry of Some e \<Rightarrow> me_size e = Some 0 | None \<Rightarrow> False)))))" for G
    by (intro learns_log_only learns_skip maintains_pub_get learns_option learns_after [OF learns_fetchMeta] learns_ret)
      (auto split: option.splits)
  from this [of G] show ?case
    using 1 by (intro learns_if learns_ret) (auto elim!: learns_mono)
qed

lemma learns_databaseHolds:
  "learns t0 J F (\<lambda>G holds. \<not> holds \<longrightarrow> (\<exists>d. MetaSeen p None d \<in> G \<and> holds_nothing d)) (databaseHoldsContent h p)"
  unfolding databaseHoldsContent_def
  by (rule learns_after [OF learns_fetchMeta], rule learns_ret) (auto simp: holds_nothing_def split: option.splits)

end

section \<open>Going through the stores\<close>

text \<open>A file that was read, ready to be stored on any revision.\<close>

definition ready :: "bool \<Rightarrow> file_action set \<Rightarrow> file_stub \<times> body \<Rightarrow> bool" where
  "ready android S read \<longleftrightarrow> (android \<longrightarrow> (\<forall>base. settled S (fs_path (fst read)) base (snd read)))"

lemma ready_mono: "ready android S read \<Longrightarrow> S \<subseteq> T \<Longrightarrow> ready android T read"
  unfolding ready_def by (blast intro: settled_mono)

text \<open>
  A rule that lets an empty body of an Android host extend a revision only when it is settled, and an entry go only when
  it has no conflicts.
\<close>

locale handler_safety = reflection_safety J True for J :: justification +
  fixes android :: bool
  assumes extends: "(android \<Longrightarrow> settled (set b) p base body) \<Longrightarrow> J b (StoredOn p base body rv)"
    and removes: "ConflictsSeen p [] \<in> set b \<Longrightarrow> J b (RemovedEntry p None)"
begin

lemma maintains_storedOn:
  assumes "android \<Longrightarrow> settled F (fs_path (fst read)) base (snd read)"
  shows "maintains (okay t0 J F) (storeWithBaseRevision (h :: 'x file_host) read base)"
    "maintains (okay t0 J F) (storeWithLiveBaseRevision h read base)"
proof -
  have a: "maintains (okay t0 J F) (asks m (noted_rev (StoredOn (fs_path (fst read)) base (snd read))) :: ('x, string option) file_call)" for m
  proof (rule maintainsI)
    fix w :: "'x file_world" assume ok: "okay t0 J F w"
    have "okay t0 J F (w\<lparr>pw_env := x, pw_trace := pw_trace w @ noted_rev (StoredOn (fs_path (fst read)) base (snd read)) r\<rparr>)" for x r
    proof (cases r)
      case None
      show ?thesis by (rule okay_trace [OF ok]) (simp add: None noted_rev_def)
    next
      case (Some rv)
      show ?thesis
        by (rule okay_mono [OF okay_act [OF ok, of _ "StoredOn (fs_path (fst read)) base (snd read) rv"]])
          (auto simp: Some noted_rev_def intro!: extends intro: settled_mono [OF assms])
    qed
    moreover have "okay t0 J F (w\<lparr>pw_env := x\<rparr>)" for x by (rule okay_trace [OF ok]) simp
    ultimately show "wp (asks m (noted_rev (StoredOn (fs_path (fst read)) base (snd read)))) (\<lambda>r. okay t0 J F) w"
      by (auto split: prod.split sum.split)
  qed
  show "maintains (okay t0 J F) (storeWithBaseRevision h read base)" "maintains (okay t0 J F) (storeWithLiveBaseRevision h read base)"
    unfolding storeWithBaseRevision_def storeWithLiveBaseRevision_def by (intro maintains_unlessUnloaded a)+
qed

lemma maintains_ready:
  "ready android F read \<Longrightarrow> maintains (okay t0 J F) (storeWithBaseRevision h read base)"
  "ready android F read \<Longrightarrow> maintains (okay t0 J F) (storeWithLiveBaseRevision h read base)"
  by (rule maintains_storedOn; simp add: ready_def)+

lemma maintains_recording [maintains_rules]:
  "maintains (okay t0 J F) (recordStored h path read stored preferred)" "maintains (okay t0 J F) (recheckIfStoredEmpty read)"
  "maintains (okay t0 J F) (recordStoredRevision h path read stored preferred)"
  "maintains (okay t0 J F) (recordAndCheck h path read stored preferred)"
  "maintains (okay t0 J F) (isStorageRecordedAsRevision h path r)" "maintains (okay t0 J F) (revisionShownBeforeWinner h path winner)"
  "maintains (okay t0 J F) (getProvenBaseRevision h read preferred)" "maintains (okay t0 J F) (coordinatorGet h path)"
  unfolding recordStoredRevision_def recordAndCheck_def recordStored_def recheckIfStoredEmpty_def isStorageRecordedAsRevision_def
    revisionShownBeforeWinner_def getProvenBaseRevision_def coordinatorGet_def Let_def
  by (intro maintains_rules maintains_records maintains_checks maintains_primitives maintains_log_only maintains_pub_get
      maintains_modify_quiet; simp)+

lemma maintains_keeping:
  assumes "ready android F read"
  shows "maintains (okay t0 J F) (preserveBesideConcurrentRevision h path read superseded preferred)"
    "maintains (okay t0 J F) (keepBesideUnreflectedWinner h f read shown preferred)"
    "maintains (okay t0 J F) (storeOnBranch h path read loaded force preferred)"
    "maintains (okay t0 J F) (storeByFreshness h f read loaded force preferred)"
proof -
  show a: "maintains (okay t0 J F) (preserveBesideConcurrentRevision h path read superseded preferred)" for path superseded
    unfolding preserveBesideConcurrentRevision_def by (intro maintains_rules maintains_ready assms maintains_recording)
  show "maintains (okay t0 J F) (keepBesideUnreflectedWinner h f read shown preferred)"
    unfolding keepBesideUnreflectedWinner_def by (intro maintains_rules maintains_records maintains_primitives a)
  show "maintains (okay t0 J F) (storeOnBranch h path read loaded force preferred)"
    unfolding storeOnBranch_def
    by (intro maintains_rules maintains_recording maintains_primitives maintains_records maintains_ready assms maintains_stores)
  show "maintains (okay t0 J F) (storeByFreshness h f read loaded force preferred)"
    unfolding storeByFreshness_def Let_def
    by (intro maintains_rules maintains_recording maintains_primitives maintains_records maintains_ready assms)
qed

lemma maintains_storeByContent:
  assumes "ready android F read" and again: "\<And>path superseded. maintains (okay t0 J F) (again path superseded)"
  shows "maintains (okay t0 J F) (storeByContent h again f read loaded force preferred retry)"
  unfolding storeByContent_def storeAgainFromCurrentState_def Let_def
  by (intro maintains_rules maintains_recording maintains_primitives maintains_records maintains_ready assms maintains_keeping)

lemma maintains_storeCompared:
  assumes "ready android F read" and again: "\<And>path superseded. maintains (okay t0 J F) (again path superseded)"
  shows "maintains (okay t0 J F) (storeCompared h again f read force preferred retry)"
  unfolding storeCompared_def storeUnrecorded_def
  by (intro maintains_rules maintains_recording maintains_primitives maintains_records maintains_checks maintains_stores
      maintains_keeping maintains_storeByContent assms)

end

context handler_safety
begin

lemma learns_storeEmpty:
  assumes "fs_path (fst read) = fs_path file"
  shows "learns t0 J F (\<lambda>G a. a = None \<longrightarrow> ready android G read) (storeEmptyOnAndroid h file read force preferred)"
proof -
  have holds: "learns t0 J F (\<lambda>G a. a = None \<longrightarrow> ready android G read)
      (after (databaseHoldsContent h (fs_path file)) (\<lambda>holds. if holds then ret (Some False) else
         (case preferred of None \<Rightarrow> ret None
          | Some p \<Rightarrow> if p = fs_path file \<or> p = [] then ret None
              else after (databaseHoldsContent h p) (\<lambda>source. ret (if source then Some False else None)))))"
    if "ConfirmedEmpty (fs_path file) \<in> F" for F
  proof (rule learns_after [OF learns_databaseHolds], rule learns_if, rule learns_ret, simp, goal_cases)
    case (1 G holds)
    then have "ready android G read" using that assms unfolding ready_def settled_def by auto
    then show ?case
      by (intro learns_option learns_if learns_ret learns_skip maintains_checks) auto
  qed
  show ?thesis
    unfolding storeEmptyOnAndroid_def Let_def
  proof (rule learns_if, goal_cases)
    case 1
    then show ?case by (intro learns_ret) (simp add: ready_def settled_def)
  next
    case 2
    show ?case
    proof (rule learns_after [OF learns_ownEmpty], rule learns_if, goal_cases)
      case (1 G own)
      then show ?case using assms by (intro learns_ret) (auto simp: ready_def settled_def)
    next
      case (2 G own)
      show ?case
        by (rule learns_after [OF learns_checkConfirmed], rule learns_if, rule learns_skip, rule maintains_records,
            rule learns_ret, simp, rule holds) simp
    qed
  qed
qed

lemma maintains_storeEmpty: "maintains (okay t0 J F) (storeEmptyOnAndroid h file read force preferred)"
  unfolding storeEmptyOnAndroid_def Let_def
  by (intro maintains_if maintains_after maintains_option maintains_ret maintains_checks maintains_primitives maintains_records)

lemma maintains_settling:
  assumes "\<And>op. maintains (okay t0 J F) (run op)"
  shows "maintains (okay t0 J F) (settleEmptyRead run path ops c)" "maintains (okay t0 J F) (settleEmptyReadWithContent h run path)"
proof -
  show a: "maintains (okay t0 J F) (settleEmptyRead run path ops c)" for ops c
    unfolding settleEmptyRead_def
    by (intro maintains_rules maintains_log_only maintains_modify_quiet assms) (auto simp: count_confirmed_def Let_def)
  show "maintains (okay t0 J F) (settleEmptyReadWithContent h run path)"
    unfolding settleEmptyReadWithContent_def by (intro maintains_rules a)
qed

lemma learns_gate:
  assumes run: "\<And>op G. maintains (okay t0 J G) (run op)" and host: "android \<Longrightarrow> fh_isAndroid h \<and> reads_back h"
    and at: "android \<Longrightarrow> fs_path (fst read) = fs_path file"
  shows "learns t0 J F (\<lambda>G r. \<forall>f rd. r = Inr (f, rd) \<longrightarrow> ready android G rd) (gateOnAndroid h run file read force preferred)"
proof (cases "android")
  case False
  then have "ready android G rd" for G rd by (simp add: ready_def)
  moreover have "maintains (okay t0 J F) (gateOnAndroid h run file read force preferred)"
    unfolding gateOnAndroid_def
    by (intro maintains_if maintains_after maintains_option maintains_prod maintains_ret maintains_settling run
        maintains_primitives maintains_storeEmpty)
  ultimately show ?thesis by (intro learns_maintains) auto
next
  case True
  with host at have h: "fh_isAndroid h" "reads_back h" "fs_path (fst read) = fs_path file" by auto
  let ?R = "\<lambda>G c. \<forall>x. c = Some x \<longrightarrow> fs_path (fst (snd x)) = fs_path file"
  have again: "learns t0 J G ?R (if \<not> settled' then ret (Some (file, read))
      else after (getFileStub h (fs_path file)) (\<lambda>current. case current of None \<Rightarrow> ret None
        | Some c \<Rightarrow> after (readFileFromStub h c) (\<lambda>r. ret (Some (c, r)))))" for G settled'
    by (rule learns_if, rule learns_ret, simp add: h, rule learns_after [OF learns_fileStub [OF h(2)]], rule learns_option,
        rule learns_ret, simp, rule learns_after [OF learns_readPath [OF h(2)]], rule learns_ret, simp)
  show ?thesis
    unfolding gateOnAndroid_def
    by (rule learns_if, simp add: h, rule learns_skip, intro maintains_if maintains_ret maintains_settling run,
        rule learns_after [OF again], rule learns_option, rule learns_ret, simp, simp only: split_beta,
        rule learns_after [OF learns_storeEmpty])
      (auto intro!: learns_ret split: option.split)
qed

end

context handler_safety
begin

lemma learns_readAt:
  assumes "android \<Longrightarrow> fh_isAndroid h \<and> reads_back h"
  shows "learns t0 J F (\<lambda>G fb. android \<longrightarrow> fs_path (fst fb) = fs_path f) (readFileFromStub h f)"
proof (cases android)
  case True
  with assms have "reads_back h" by simp
  from learns_readPath [OF this] show ?thesis by (rule learns_mono) simp
next
  case False
  then show ?thesis by (intro learns_maintains maintains_read) simp
qed

lemma maintains_storeAttempt:
  assumes run: "\<And>op G. maintains (okay t0 J G) (run op)" and host: "android \<Longrightarrow> fh_isAndroid h \<and> reads_back h"
    and again: "\<And>path superseded G. maintains (okay t0 J G) (again path superseded)"
  shows "maintains (okay t0 J F) (storeAttempt h run again info force onlyChunks preferred retry)"
proof -
  have gate: "maintains (okay t0 J G) (after (gateOnAndroid h run f read force preferred) (\<lambda>gate. case gate of Inl b \<Rightarrow> ret b
      | Inr (file', read') \<Rightarrow> storeCompared h again file' read' force preferred retry))"
    if "android \<longrightarrow> fs_path (fst read) = fs_path f" for G f read
  proof (rule maintains_learns [where R = "\<lambda>_ _. True"], rule learns_after [OF learns_gate [OF run host]], goal_cases)
    case (3 H gate)
    then show ?case
      by (cases gate) (auto intro!: learns_ret learns_maintains maintains_storeCompared again)
  qed (use that in auto)
  have read: "maintains (okay t0 J G) (after (readFileFromStub h f) (\<lambda>read.
      after (gateOnAndroid h run f read force preferred) (\<lambda>gate. case gate of Inl b \<Rightarrow> ret b
      | Inr (file', read') \<Rightarrow> storeCompared h again file' read' force preferred retry)))" for G f
    by (rule maintains_learns [where R = "\<lambda>_ _. True"], rule learns_after [OF learns_readAt [OF host]])
      (auto intro: learns_maintains gate)
  have stored: "maintains (okay t0 J F) (after (if force then ret False else isStorageUnchangedSinceReflected h f None) (\<lambda>unchanged.
      if unchanged then ret True else after (readFileFromStub h f) (\<lambda>read.
      after (gateOnAndroid h run f read force preferred) (\<lambda>gate. case gate of Inl b \<Rightarrow> ret b
      | Inr (file', read') \<Rightarrow> storeCompared h again file' read' force preferred retry))))" for f
    by (rule maintains_after, intro maintains_if maintains_ret maintains_checks, rule maintains_if, rule maintains_ret, rule read)
  have chunks: "maintains (okay t0 J F) (after (readFileFromStub h f) (\<lambda>read. createChunks h read force))" for f
    by (intro maintains_after maintains_read maintains_stores)
  show ?thesis
    unfolding storeAttempt_def
    by (rule maintains_after, rule maintains_infoToStub, rule maintains_option, rule maintains_ret, rule maintains_if,
        rule maintains_ret, rule maintains_after, intro maintains_option maintains_if maintains_ret maintains_pub,
        rule maintains_after, rule maintains_checks, rule maintains_if, rule maintains_reflections, simp, rule maintains_if,
        rule chunks, rule stored)
qed

end

context handler_safety
begin

lemma maintains_storeFile:
  assumes run: "\<And>op G. maintains (okay t0 J G) (run op)" and host: "android \<Longrightarrow> fh_isAndroid h \<and> reads_back h"
  shows "maintains (okay t0 J F) (storeFileToDBFromRevision h run info force onlyChunks preferred)"
    "maintains (okay t0 J F) (storeFileToDB h run info force onlyChunks preferred)"
    "maintains (okay t0 J F) (storeFileToDBUnderFileEventLock h run info)"
proof -
  have host': "fh_isAndroid h \<and> reads_back h" if android using host that by simp
  show a: "maintains (okay t0 J F) (storeFileToDBFromRevision h run info force onlyChunks preferred)" for force onlyChunks preferred
    unfolding storeFileToDBFromRevision_def
    by (rule maintains_storeAttempt [OF run host'], assumption, rule maintains_storeAttempt [OF run host'], assumption,
        rule maintains_ret)
  show b: "maintains (okay t0 J F) (storeFileToDB h run info force onlyChunks preferred)" for force onlyChunks preferred
    unfolding storeFileToDB_def by (rule a)
  show "maintains (okay t0 J F) (storeFileToDBUnderFileEventLock h run info)"
    unfolding storeFileToDBUnderFileEventLock_def
    by (intro maintains_unlessUnloaded maintains_if maintains_after maintains_primitives b)
qed

lemma maintains_storeOnSelected:
  assumes at: "android \<Longrightarrow> fs_path (fst read) = path \<and> fh_isAndroid h" and base: "MetaSeen path (Some r) (Some b) \<in> F"
  shows "maintains (okay t0 J F) (storeOnSelected h read path b r create)"
proof -
  have store: "maintains (okay t0 J G) (after (storeWithBaseRevision h read (Some r)) (\<lambda>stored. case stored of
      None \<Rightarrow> ret False
    | Some r \<Rightarrow> after (setProvenance h path (Some r) (observed read) False None) (\<lambda>_. after (queueCheckFor h path) (\<lambda>_. ret True))))"
    if "android \<Longrightarrow> settled G path (Some r) (snd read)" for G
    by (rule maintains_after, rule maintains_storedOn, use at that in simp,
        intro maintains_option maintains_after maintains_ret maintains_records maintains_primitives)
  have empty: "learns t0 J F (\<lambda>G e. \<not> e \<longrightarrow> android \<longrightarrow> settled G path (Some r) (snd read))
      (if fh_isAndroid h \<and> body_size (snd read) = 0
       then after (isOwnEmptyReflection h path (fs_stat (fst read))) (\<lambda>own. ret (\<not> own)) else ret False)"
    by (intro learns_if learns_after [OF learns_ownEmpty] learns_ret) (use at in \<open>auto simp: settled_def\<close>)
  have last: "maintains (okay t0 J F) (after (if fh_isAndroid h \<and> body_size (snd read) = 0
       then after (isOwnEmptyReflection h path (fs_stat (fst read))) (\<lambda>own. ret (\<not> own)) else ret False) (\<lambda>emptyRead.
     after (checkConfirmed path) (\<lambda>confirmed.
     if emptyRead \<and> \<not> confirmed then waitForEmptyReadToSettle h path (AgainStoreOn path r create)
     else if emptyRead \<and> \<not> isDeletedEntry b \<and> 0 < size_of b then ret False
     else after (storeWithBaseRevision h read (Some r)) (\<lambda>stored. case stored of None \<Rightarrow> ret False
       | Some r \<Rightarrow> after (setProvenance h path (Some r) (observed read) False None) (\<lambda>_. after (queueCheckFor h path) (\<lambda>_. ret True))))))"
  proof (rule maintains_learns [where R = "\<lambda>_ _. True"], rule learns_after [OF empty], rule learns_after [OF learns_checkConfirmed],
      rule learns_if, goal_cases)
    case (1 G e H c)
    show ?case by (intro learns_maintains maintains_records) simp
  next
    case (2 G e H c)
    have "settled H path (Some r) (snd read)" if "\<not> (e \<and> \<not> isDeletedEntry b \<and> 0 < size_of b)" android
    proof (cases e)
      case True
      with 2 have "ConfirmedEmpty path \<in> H" by simp
      moreover have "holds_nothing (Some b)" using that(1) True by (auto simp: holds_nothing_def)
      moreover have "MetaSeen path (Some r) (Some b) \<in> H" using base 2(1,3) by auto
      ultimately show ?thesis unfolding settled_def by blast
    next
      case False
      with 2 that show ?thesis by (auto intro: settled_mono)
    qed
    then show ?case by (intro learns_if learns_ret learns_maintains store) auto
  qed
  show ?thesis
    unfolding storeOnSelected_def
    by (rule maintains_after, intro maintains_if maintains_ret maintains_after maintains_primitives, rule maintains_if,
        intro maintains_after maintains_ret maintains_records maintains_primitives, rule maintains_if, rule maintains_ret, rule last)
qed

lemma maintains_storeOnRevision:
  assumes run: "\<And>op G. maintains (okay t0 J G) (run op)" and host: "android \<Longrightarrow> fh_isAndroid h \<and> reads_back h"
  shows "maintains (okay t0 J F) (storeFileToDBWithBaseRevision h run info r create)"
proof -
  have read: "maintains (okay t0 J G) (after (readFileFromStub h f) (\<lambda>read.
      after (if fh_isAndroid h \<and> 0 < body_size (snd read) then settleEmptyReadWithContent h run (fs_path f) else ret False) (\<lambda>settled.
      if settled then run (AgainStoreOn (fs_path f) r create)
      else storeOnSelected h read (fs_path f) b r create)))"
    if "MetaSeen (fs_path f) (Some r) (Some b) \<in> G" for G f b
  proof (rule maintains_learns [where R = "\<lambda>_ _. True"], rule learns_after [OF learns_readAt [OF host]], assumption, goal_cases)
    case (1 H read)
    have b: "MetaSeen (fs_path f) (Some r) (Some b) \<in> H" using that 1(1) by auto
    show ?case
      by (rule learns_skip, intro maintains_if maintains_ret maintains_settling run, rule learns_maintains, rule maintains_if, rule run,
          rule maintains_storeOnSelected [OF _ b]) (use 1(2) host in auto)
  qed
  have seen: "learns t0 J F (\<lambda>_ _. True) (after (fetchEntryMeta h (fs_path f) (Some r)) (\<lambda>baseEntry.
      after (fetchEntryMeta h (fs_path f) None) (\<lambda>currentEntry.
      after (getConflictedRevs h (fs_path f)) (\<lambda>conflicts.
      case baseEntry of None \<Rightarrow> ret False
      | Some b \<Rightarrow> if me_rev b \<noteq> Some r \<or> r \<notin> set (live_revisions currentEntry conflicts) then ret False
          else after (readFileFromStub h f) (\<lambda>read.
            after (if fh_isAndroid h \<and> 0 < body_size (snd read) then settleEmptyReadWithContent h run (fs_path f) else ret False)
              (\<lambda>settled. if settled then run (AgainStoreOn (fs_path f) r create)
               else storeOnSelected h read (fs_path f) b r create))))))" for f
    by (rule learns_after [OF learns_fetchMeta], rule learns_skip, rule maintains_primitives, rule learns_skip, rule maintains_primitives,
        intro learns_option learns_ret learns_if learns_maintains read) auto
  show ?thesis
    unfolding storeFileToDBWithBaseRevision_def
    by (rule maintains_after, rule maintains_infoToStub, rule maintains_option, rule maintains_ret, rule maintains_if,
        rule maintains_ret, rule maintains_after, rule maintains_checks, rule maintains_if, rule maintains_ret,
        rule maintains_learns [OF seen])
qed

end

section \<open>Removals\<close>

context trace_safety
begin

text \<open>A path without conflicts was seen to be so.\<close>

lemma learns_noConflicts: "learns t0 J F (\<lambda>G revs. revs = [] \<longrightarrow> ConflictsSeen path [] \<in> G) (getConflictedRevs h path)"
  unfolding getConflictedRevs_def by (rule learns_asks) auto

lemma maintains_availability:
  "maintains I m1 \<Longrightarrow> maintains I m2 \<Longrightarrow> maintains I m3 \<Longrightarrow>
   maintains I (case a of Streamable \<Rightarrow> m1 | Missing \<Rightarrow> m2 | NotInspected \<Rightarrow> m3)"
  by (cases a) simp_all

lemma maintains_fetchEntryToDelete: "maintains (okay t0 J F) (fetchEntryToDelete h path)"
proof -
  have whole: "maintains (okay t0 J F) (after (fetchEntry h path None) (\<lambda>e. ret (map_option le_meta e)))"
    by (intro maintains_after maintains_primitives maintains_ret)
  show ?thesis
    unfolding fetchEntryToDelete_def Let_def
    by (rule maintains_after, rule maintains_primitives, rule maintains_option, rule maintains_ret, rule maintains_if, rule maintains_ret,
        rule maintains_option, rule whole, rule maintains_if, rule whole, rule maintains_after, rule maintains_asks, simp,
        intro maintains_availability maintains_ret whole)
qed

end

context handler_safety
begin

lemma maintains_removeEntry:
  assumes seen: "ConflictsSeen path [] \<in> F"
  shows "maintains (okay t0 J F) (removeEntry (h :: 'x file_host) path)"
proof -
  have "J b (RemovedEntry path None)" if "F \<subseteq> set b" for b using seen that by (intro removes) auto
  then have "maintains (okay t0 J F) (asks m (\<lambda>ok. if ok then [RemovedEntry path None] else []) :: ('x, bool) file_call)" for m
    by (intro maintainsI) (auto intro: okay_trace okay_mono [OF okay_act] split: prod.split sum.split)
  then show ?thesis
    unfolding removeEntry_def deleteEntry_def
    by (intro maintains_after maintains_unlessUnloaded maintains_if maintains_records maintains_ret)
qed

lemma maintains_deleteOnRevision: "maintains (okay t0 J F) (deleteOnRevision h path r)"
  unfolding deleteOnRevision_def
  by (intro maintains_after maintains_stores maintains_if maintains_ret maintains_records maintains_primitives)

lemma maintains_deleteShownBranch: "maintains (okay t0 J F) (deleteShownBranch h path base)"
  unfolding deleteShownBranch_def
  by (intro maintains_option maintains_after maintains_primitives maintains_ret maintains_deleteOnRevision)

lemma maintains_unlessConflicted:
  assumes "\<And>G. maintains (okay t0 J G) m"
  shows "maintains (okay t0 J F) (after (getConflictedRevs h path) (\<lambda>conflicts. if conflicts \<noteq> [] then m else removeEntry h path))"
    "maintains (okay t0 J F) (after (getConflictedRevs h path) (\<lambda>conflicts. if conflicts = [] then removeEntry h path else m))"
  by (rule maintains_learns [where R = "\<lambda>_ _. True"], rule learns_after [OF learns_noConflicts],
      rule learns_if; (intro learns_maintains assms maintains_removeEntry; simp))+

lemma maintains_deletions:
  "maintains (okay t0 J F) (deletePrepared h path)" "maintains (okay t0 J F) (deleteAbsent h path)"
  "maintains (okay t0 J F) (deletePresent h f)" "maintains (okay t0 J F) (deleteRenameSource h f path old)"
  unfolding deletePrepared_def deleteAbsent_def deletePresent_def deleteRenameSource_def Let_def
  by (intro maintains_unlessConflicted maintains_rules maintains_fetchEntryToDelete maintains_primitives maintains_checks
      maintains_records maintains_recording maintains_log_only maintains_asks maintains_deleteOnRevision
      maintains_deleteShownBranch; simp)+

end

section \<open>Storage events\<close>

context handler_safety
begin

lemma maintains_deleteFile: "maintains (okay t0 J F) (deleteFileFromDB h info)"
  unfolding deleteFileFromDB_def Let_def
  by (intro maintains_after maintains_infoToStub maintains_getW maintains_if maintains_ret maintains_deletions maintains_checks
      maintains_option maintains_reflections) simp

lemma maintains_deleteSource:
  "maintains (okay t0 J F) (deleteRenameSourceOnceTargetIsStored h info old new' oldEntry)"
  "maintains (okay t0 J F) (deleteSourceIfStored h info old new' oldEntry)"
proof -
  show a: "maintains (okay t0 J F) (deleteRenameSourceOnceTargetIsStored h info old new' oldEntry)"
    unfolding deleteRenameSourceOnceTargetIsStored_def by (rule maintains_records)
  show "maintains (okay t0 J F) (deleteSourceIfStored h info old new' oldEntry)"
    unfolding deleteSourceIfStored_def
    by (intro maintains_after maintains_getW maintains_if maintains_ret maintains_primitives maintains_deletions a)
qed

lemma maintains_rename:
  assumes run: "\<And>op G. maintains (okay t0 J G) (run op)" and host: "android \<Longrightarrow> fh_isAndroid h \<and> reads_back h"
  shows "maintains (okay t0 J F) (renameFileInDB h run info old)"
proof -
  have store: "maintains (okay t0 J F) (storeFileToDBFromRevision h run i force c preferred)"
    "maintains (okay t0 J F) (storeFileToDB h run i force c preferred)" for i force c preferred
    by (rule maintains_storeFile [OF run host], assumption)+
  show ?thesis
    unfolding renameFileInDB_def Let_def
    by (intro maintains_after maintains_getW maintains_if maintains_ret maintains_primitives maintains_deletions
        maintains_deleteSource store)
qed

text \<open>Whatever waits, at any depth.\<close>

lemma maintains_runWaiting:
  assumes host: "android \<Longrightarrow> fh_isAndroid h \<and> reads_back h"
  shows "maintains (okay t0 J F) (runWaiting h k operation)"
proof (induction k arbitrary: operation F)
  case 0
  show ?case by (simp add: maintains_throw)
next
  case (Suc k)
  have store: "maintains (okay t0 J F) (storeFileToDBFromRevision h (runWaiting h k) i force c preferred)"
    "maintains (okay t0 J F) (storeFileToDBWithBaseRevision h (runWaiting h k) i r create)" for i force c preferred r create
    by (rule maintains_storeFile [OF Suc host], assumption, rule maintains_storeOnRevision [OF Suc host], assumption)
  show ?case
    by (cases operation) (simp_all add: store maintains_reflections maintains_deleteSource)
qed

lemma maintains_planRestored:
  "maintains (okay t0 J F) (planRestoredFileEvent h event same)"
proof -
  have sel: "maintains (okay t0 J F) (isCurrentPathSelected h path)" "maintains (okay t0 J F) (isCurrentFileSelected h f)"
    "maintains (okay t0 J F) (canApplyRestoredDeletion h path)" for path f
    unfolding isCurrentFileSelected_def isCurrentPathSelected_def canApplyRestoredDeletion_def
    by (intro maintains_after maintains_primitives maintains_ret maintains_log_only)+
  have holds: "maintains (okay t0 J F) (holdsRecordedRevision h f)" for f
    unfolding holdsRecordedRevision_def
    by (intro maintains_log_only maintains_after maintains_records maintains_option maintains_ret maintains_primitives
        maintains_prod maintains_if maintains_checks)
  have deletion: "maintains (okay t0 J F) (planRestoredDeletion h f)" for f
    unfolding planRestoredDeletion_def Let_def
    by (intro maintains_log_only maintains_after maintains_records maintains_option maintains_ret maintains_primitives maintains_if)
  have rename: "maintains (okay t0 J F) (planRestoredRename h p q same)" for p q
    unfolding planRestoredRename_def Let_def
    by (intro maintains_log_only maintains_after maintains_option maintains_ret maintains_primitives maintains_if sel)
  show ?thesis
    unfolding planRestoredFileEvent_def
    by (cases event) (simp_all, (intro maintains_after maintains_primitives maintains_option maintains_ret maintains_if sel holds
        deletion rename)+)
qed

lemma maintains_events:
  assumes run: "\<And>op G. maintains (okay t0 J G) (run op)" and host: "android \<Longrightarrow> fh_isAndroid h \<and> reads_back h"
  shows "maintains (okay t0 J F) (processFileEvent h run event fromPrevious)"
proof -
  have store: "maintains (okay t0 J F) (storeFileToDB h run i force c preferred)" for i force c preferred
    by (rule maintains_storeFile [OF run host], assumption)
  have rename: "maintains (okay t0 J F) (renameFileInDB h run f old)" for f old
    by (rule maintains_rename [OF run host], assumption)
  have perform: "maintains (okay t0 J F) (performRestored h run a)" for a
  proof (cases a)
    case (DeleteAction path base)
    then show ?thesis
      by (cases base) (simp_all add: performRestored_def maintains_deleteOnRevision maintains_deleteFile)
  qed (simp_all add: performRestored_def maintains_ret store rename)
  have restored: "maintains (okay t0 J F) (processRestoredFileEvent h run event)"
    unfolding processRestoredFileEvent_def Let_def
    by (intro maintains_if maintains_ret maintains_after maintains_primitives maintains_log_only maintains_planRestored perform)
  have live: "maintains (okay t0 J F) (case event of FileChanged f \<Rightarrow> storeFileToDB h run (ByStub f) False False None
      | FileDeleted f \<Rightarrow> deleteFileFromDB h (ByStub f) | FileRenamed f (Some old) \<Rightarrow> renameFileInDB h run f old
      | FileRenamed f None \<Rightarrow> ret False | InternalEvent f \<Rightarrow> ret False)"
    by (cases event) (simp_all add: store maintains_deleteFile rename maintains_ret split: option.split)
  show ?thesis
    unfolding processFileEvent_def isCurrentPathSelected_def
    by (intro maintains_unlessUnloaded maintains_if restored maintains_after maintains_primitives maintains_ret live)
qed

lemma maintains_settled:
  assumes host: "android \<Longrightarrow> fh_isAndroid h \<and> reads_back h"
  shows "maintains (okay t0 J F) (confirmEmptyRead h (runWaiting h k) path i n)"
    "maintains (okay t0 J F) (recheckStoredEmpty h (runWaiting h k) path n)"
    "maintains (okay t0 J F) (storeFileToDBUnderFileEventLock h (runWaiting h k) info)"
proof -
  have run: "maintains (okay t0 J G) (runWaiting h k op)" for op G
    by (rule maintains_runWaiting [OF host])
  show store: "maintains (okay t0 J F) (storeFileToDBUnderFileEventLock h (runWaiting h k) info)" for info
    by (rule maintains_storeFile [OF run host], assumption)
  show "maintains (okay t0 J F) (confirmEmptyRead h (runWaiting h k) path i n)"
    unfolding confirmEmptyRead_def Let_def
    by (intro maintains_after maintains_getW maintains_option maintains_if maintains_ret maintains_log_only maintains_primitives
        maintains_settling run)
  show "maintains (okay t0 J F) (recheckStoredEmpty h (runWaiting h k) path n)"
    unfolding recheckStoredEmpty_def
    by (intro maintains_after maintains_log_only maintains_unlessUnloaded maintains_primitives maintains_option maintains_if
        maintains_ret store maintains_modify_quiet) simp
qed

end

section \<open>Properties\<close>

text \<open>What can begin on the side of the storage: an event, a check of an empty file, a store for the scanner, or a waiting operation.\<close>

datatype storage_call =
    Event storage_event bool
  | EmptyCheck string nat nat
  | StoredEmptyCheck string nat
  | Scanned file_arg
  | Waiting waiting_operation

fun storage_run :: "'x file_host \<Rightarrow> nat \<Rightarrow> storage_call \<Rightarrow> ('x, bool) file_call" where
  "storage_run h k (Event event fromPrevious) = processFileEvent h (runWaiting h k) event fromPrevious"
| "storage_run h k (EmptyCheck path i n) = confirmEmptyRead h (runWaiting h k) path i n"
| "storage_run h k (StoredEmptyCheck path n) = recheckStoredEmpty h (runWaiting h k) path n"
| "storage_run h k (Scanned info) = storeFileToDBUnderFileEventLock h (runWaiting h k) info"
| "storage_run h k (Waiting operation) = runWaiting h k operation"

context handler_safety
begin

lemma maintains_storageRun:
  assumes host: "android \<Longrightarrow> fh_isAndroid h \<and> reads_back h"
  shows "maintains (okay t0 J F) (storage_run h k c)"
proof (cases c)
  case (Event event fromPrevious)
  show ?thesis
    unfolding Event storage_run.simps by (rule maintains_events [OF maintains_runWaiting [OF host] host])
next
  case (Waiting operation)
  show ?thesis unfolding Waiting storage_run.simps by (rule maintains_runWaiting [OF host])
qed (simp_all add: maintains_settled [OF host])

end

fun empties_justified :: justification where
  "empties_justified before (StoredOn p base b rv) \<longleftrightarrow> settled (set before) p base b"
| "empties_justified before _ \<longleftrightarrow> True"

fun removals_justified :: justification where
  "removals_justified before (RemovedEntry p r) \<longleftrightarrow> r = None \<and> ConflictsSeen p [] \<in> set before"
| "removals_justified before _ \<longleftrightarrow> True"

interpretation er: handler_safety empties_justified True
proof unfold_locales
  show "is_fact a \<Longrightarrow> empties_justified b a" for a b by (cases a) simp_all
  show "is_store a \<Longrightarrow> empties_justified b a" for a b by (cases a) simp_all
qed auto

interpretation rr: handler_safety removals_justified False
proof unfold_locales
  show "is_fact a \<Longrightarrow> removals_justified b a" for a b by (cases a) simp_all
  show "is_store a \<Longrightarrow> removals_justified b a" for a b by (cases a) simp_all
qed auto


text \<open>
  C18. A storage event never removes a conflicted entry as a whole, and never a single revision outright: an entry is
  removed only when it was seen, in the same call, to have no conflicting revisions; of a conflicted one a branch is deleted
  by a new revision on it.
\<close>

theorem removals_spare_conflicts:
  "case storage_run h k c w of (r, w') \<Rightarrow> \<exists>acts. pw_trace w' = pw_trace w @ acts \<and> all_justified removals_justified acts"
proof -
  obtain r w' where run: "storage_run h k c w = (r, w')" by fastforce
  from maintains_justified [OF rr.maintains_storageRun run] run show ?thesis by simp
qed

text \<open>An empty file whose emptiness was confirmed, in a database without content.\<close>

definition confirmed_world :: "unit file_world" where
  "confirmed_world = fresh_world\<lparr>fw_confirmed := [(''a.md'', 1)]\<rparr>"

lemma sample_reads_back: "reads_back (sample_files android stored incoming known)"
  by (auto simp: reads_back_def split: if_splits)

lemma empty_store_runs:
  "wp (storage_run (sample_files True [] [] (\<lambda>b. False)) 1 (Scanned (ByPath ''a.md'')))
     (\<lambda>r w. StoredOn ''a.md'' (Some ''2-b'') (TextBody []) ''3-c'' \<in> set (pw_trace w)) confirmed_world"
  by (simp add: reflection_defs storeFileToDBUnderFileEventLock_def storeFileToDB_def storeFileToDBFromRevision_def storeAttempt_def
    getFileStub_def getPendingPublicationRevision_def missingPublication_def pub_get_def gateOnAndroid_def storeEmptyOnAndroid_def
    isOwnEmptyReflection_def isReflectedEmptiness_def checkConfirmed_def isEmptyReadConfirmed_def databaseHoldsContent_def
    storeCompared_def fetchEntryForComparison_def fetchEntry_def storeUnrecorded_def storeByFreshness_def confirmed_world_def
    storeWithBaseRevision_def noted_rev_def recordStoredRevision_def recordStored_def recheckIfStoredEmpty_def)


end
