(* ===== verification/PreparedPaths.thy ===== *)
theory PreparedPaths
  imports StoreSafety
begin

text \<open>
  The preparation of a path before an early reception: an answer \<open>true\<close> means that nothing local would be lost when
  the path is written afterwards. The answers and stores of the call are the evidence.
\<close>

definition anything :: justification where
  "anything before a \<longleftrightarrow> True"

interpretation any: handler_safety anything False
  by unfold_locales (simp_all add: anything_def)

lemma learns_asks_any:
  assumes R: "\<And>a. R (F \<union> set (f a)) a"
  shows "learns t0 anything F R (asks m f :: ('x, 'z, 'a) pub_call)"
proof (rule learnsI)
  fix w :: "('x, 'z) pub_world_scheme" assume ok: "okay t0 anything F w"
  obtain r x where m: "m (pw_env w) = (r, x)" by fastforce
  show "wp (asks m f) (\<lambda>r w'. \<exists>G. F \<subseteq> G \<and> okay t0 anything G w' \<and> (\<forall>a. r = Inr a \<longrightarrow> R G a)) w"
  proof (cases r)
    case (Inl e)
    have "okay t0 anything F (w\<lparr>pw_env := x\<rparr>)" by (rule okay_trace [OF ok]) simp
    with Inl m show ?thesis by auto
  next
    case (Inr a)
    have "okay t0 anything (F \<union> set (f a)) (w\<lparr>pw_env := x, pw_trace := pw_trace w @ f a\<rparr>)"
      by (rule okay_append [OF ok]) (simp_all add: anything_def)
    with Inr m R show ?thesis by (auto intro!: exI [of _ "F \<union> set (f a)"])
  qed
qed

text \<open>What a store adds to the trace.\<close>

lemma learns_stored:
  "learns t0 anything F (\<lambda>G r. \<forall>rv. r = Some rv \<longrightarrow> StoredOn (fs_path (fst read)) base (snd read) rv \<in> G) (storeWithBaseRevision h read base)"
  "learns t0 anything F (\<lambda>G r. \<forall>rv. r = Some rv \<longrightarrow> StoredBeside (fs_path (fst read)) (snd read) cur rv \<in> G) (storeAsConflictedRevision h read cur)"
  "learns t0 anything F (\<lambda>G r. r \<noteq> None \<longrightarrow> StoredDeletion path b \<in> G) (storeDeletionWithBaseRevision h path b)"
proof -
  have a: "learns t0 anything F (\<lambda>G r. \<forall>rv. r = Some rv \<longrightarrow> f rv \<in> G) (asks m (noted_rev f))" for m f
    by (rule learns_asks_any) (simp add: noted_rev_def)
  show "learns t0 anything F (\<lambda>G r. \<forall>rv. r = Some rv \<longrightarrow> StoredOn (fs_path (fst read)) base (snd read) rv \<in> G) (storeWithBaseRevision h read base)"
    "learns t0 anything F (\<lambda>G r. \<forall>rv. r = Some rv \<longrightarrow> StoredBeside (fs_path (fst read)) (snd read) cur rv \<in> G) (storeAsConflictedRevision h read cur)"
    "learns t0 anything F (\<lambda>G r. r \<noteq> None \<longrightarrow> StoredDeletion path b \<in> G) (storeDeletionWithBaseRevision h path b)"
    unfolding storeWithBaseRevision_def storeAsConflictedRevision_def storeDeletionWithBaseRevision_def unlessUnloaded_def
    by (rule learns_skip, rule maintains_getW, rule learns_if, rule learns_ret, simp, rule learns_mono [OF a], simp_all)+
qed

text \<open>
  What a local file holds is kept: it still has the time and size of a revision that was reflected, its body that was read is the one of a
  revision, or was stored on a revision or beside one, or the database has no entry for it and it was handed to the
  ordinary store.
\<close>

definition file_kept :: "file_action set \<Rightarrow> string \<Rightarrow> string \<Rightarrow> bool" where
  "file_kept S p q \<longleftrightarrow>
     (\<exists>r m s. StatSeen q (Some s) \<in> S \<and> MetaSeen q (Some r) (Some m) \<in> S \<and> \<not> isDeletedEntry m \<and> me_size m = Some (st_size s)) \<or>
     (\<exists>b. BodyRead q b \<in> S \<and>
        ((\<exists>r c. RevisionRead q r c \<in> S \<and> isDocContentSame c b) \<or> (\<exists>q' base rv. StoredOn q' base b rv \<in> S) \<or>
         (\<exists>q' cur rv. StoredBeside q' b cur rv \<in> S))) \<or>
     MetaSeen p None None \<in> S"

text \<open>
  What an absent file means is kept: it was allowed to be absent, its deletion was stored, or the newest revision is a
  deletion.
\<close>

definition absence_kept :: "file_action set \<Rightarrow> bool \<Rightarrow> string \<Rightarrow> bool" where
  "absence_kept S allowed p \<longleftrightarrow>
     allowed \<or> (\<exists>b. StoredDeletion p b \<in> S) \<or> (\<exists>e. MetaSeen p None (Some e) \<in> S \<and> isDeletedEntry e)"

definition path_kept :: "file_action set \<Rightarrow> bool \<Rightarrow> string \<Rightarrow> bool" where
  "path_kept S allowed p \<longleftrightarrow>
     Listed p None \<in> S \<and> StatSeen p None \<in> S \<and> absence_kept S allowed p \<or>
     (\<exists>q s. Listed p (Some q) \<in> S \<and> StatSeen p (Some s) \<in> S \<and> st_isFile s \<and> file_kept S p q)"

lemma file_keptI:
  "StatSeen q (Some s) \<in> S \<Longrightarrow> MetaSeen q (Some r) (Some m) \<in> S \<Longrightarrow> \<not> isDeletedEntry m \<Longrightarrow> me_size m = Some (st_size s) \<Longrightarrow> file_kept S p q"
  "BodyRead q b \<in> S \<Longrightarrow> RevisionRead q r' c \<in> S \<Longrightarrow> isDocContentSame c b \<Longrightarrow> file_kept S p q"
  "BodyRead q b \<in> S \<Longrightarrow> StoredOn q' base b rv \<in> S \<Longrightarrow> file_kept S p q"
  "BodyRead q b \<in> S \<Longrightarrow> StoredBeside q' b cur rv \<in> S \<Longrightarrow> file_kept S p q"
  "MetaSeen p None None \<in> S \<Longrightarrow> file_kept S p q"
  unfolding file_kept_def by blast+

lemma file_kept_mono: "file_kept S p q \<Longrightarrow> S \<subseteq> T \<Longrightarrow> file_kept T p q"
  unfolding file_kept_def by (elim disj_forward ex_forward conj_forward) (auto simp: subset_iff)

lemma learns_match:
  "learns t0 anything F (\<lambda>G found. found \<noteq> None \<longrightarrow> file_kept G p (fs_path f)) (matchStorageToRecord h f k e ro True)"
proof -
  let ?P = "\<lambda>G. file_kept G p (fs_path f)"
  have meta: "learns t0 anything G (\<lambda>G found. found \<noteq> None \<longrightarrow> ?P G) (after (fetchEntryMeta h (fs_path f) (Some r)) (\<lambda>recorded.
      case recorded of None \<Rightarrow> ret None
      | Some m \<Rightarrow> if isDeletedEntry m \<or> me_size m \<noteq> Some (st_size s) then ret None else ret (Some (pv, s))))"
    if "StatSeen (fs_path f) (Some s) \<in> G" for G r s and pv :: provenance
    by (rule learns_after [OF any.learns_fetchMeta], intro learns_option learns_if learns_ret)
      (use that in \<open>auto intro: file_keptI(1)\<close>)
  have stat: "learns t0 anything G (\<lambda>G s. StatSeen (fs_path f) s \<in> G) (statHidden h (fs_path f))" for G
    unfolding statHidden_def by (rule learns_asks_any) simp
  show ?thesis
    unfolding matchStorageToRecord_def if_True
    by (rule learns_if, rule learns_ret, simp, rule learns_skip, intro any.maintains_log_only any.maintains_pub_get,
        rule learns_option, rule learns_ret, simp, rule learns_if, rule learns_ret, simp, rule learns_after [OF stat], rule learns_option,
        rule learns_ret, simp, rule learns_if, rule learns_ret, simp, rule meta, simp)
qed

lemma learns_fetchEntry:
  "learns t0 anything F (\<lambda>G l. \<forall>e. l = Some e \<longrightarrow> RevisionRead p r (le_data e) \<in> G) (fetchEntry h p r)"
  unfolding fetchEntry_def by (rule learns_asks_any) auto

lemma learns_ifMay: "learns t0 anything F R m \<Longrightarrow> (\<And>G. F \<subseteq> G \<Longrightarrow> R G False) \<Longrightarrow> learns t0 anything F R (ifMay may m)"
  unfolding ifMay_def by (intro learns_skip maintains_getW learns_if learns_ret) auto

lemma learns_unlessUnloaded:
  "learns t0 anything F R m \<Longrightarrow> R F a \<Longrightarrow> learns t0 anything F R (unlessUnloaded h a m)"
  unfolding unlessUnloaded_def by (intro learns_skip maintains_getW learns_if learns_ret) auto

lemma maintains_recordPrepared: "maintains (okay t0 anything F) (recordPrepared h path read stored)"
  unfolding recordPrepared_def
  by (intro maintains_option maintains_ret any.maintains_unlessUnloaded maintains_after any.maintains_records any.maintains_primitives)

lemma learns_recordPrepared: "learns t0 anything F (\<lambda>G ok. ok \<longrightarrow> stored \<noteq> None) (recordPrepared h path read stored)"
proof (cases stored)
  case None
  then show ?thesis by (simp add: recordPrepared_def learns_ret)
next
  case (Some r)
  show ?thesis by (rule learns_maintains [OF maintains_recordPrepared]) (simp add: Some)
qed

lemma learns_prepareAbsent:
  "learns t0 anything F (\<lambda>G ok. ok \<longrightarrow> absence_kept G allowed path) (prepareAbsent h path allowed may record)"
proof -
  have del: "learns t0 anything G (\<lambda>G ok. ok \<longrightarrow> absence_kept G allowed path) (deleteOnRevision h path r)" for G r
    unfolding deleteOnRevision_def
    by (rule learns_after [OF learns_stored(3)], rule learns_if, rule learns_ret, simp, rule learns_skip, rule any.maintains_records,
        rule learns_skip, rule any.maintains_primitives, rule learns_ret) (auto simp: absence_kept_def)
  show ?thesis
    unfolding prepareAbsent_def
    by (intro learns_option learns_if learns_ret learns_ifMay del learns_after [OF any.learns_fetchMeta])
      (auto simp: absence_kept_def split: option.splits)
qed

lemma learns_keptStore:
  assumes read: "BodyRead q (snd read) \<in> F"
  shows "learns t0 anything F (\<lambda>G ok. ok \<longrightarrow> file_kept G p q)
      (after (storeWithBaseRevision h read base) (recordPrepared h path read))"
    "learns t0 anything F (\<lambda>G ok. ok \<longrightarrow> file_kept G p q)
      (after (storeAsConflictedRevision h read cur) (recordPrepared h path read))"
proof -
  have kept: "learns t0 anything G (\<lambda>G ok. ok \<longrightarrow> file_kept G p q) (recordPrepared h path read stored)"
    if "stored \<noteq> None \<Longrightarrow> file_kept G p q" for G stored
    by (rule learns_mono [OF learns_recordPrepared]) (use that in \<open>auto intro: file_kept_mono\<close>)
  show "learns t0 anything F (\<lambda>G ok. ok \<longrightarrow> file_kept G p q)
      (after (storeWithBaseRevision h read base) (recordPrepared h path read))"
    by (rule learns_after [OF learns_stored(1)], rule kept) (use read in \<open>auto intro: file_keptI(3)\<close>)
  show "learns t0 anything F (\<lambda>G ok. ok \<longrightarrow> file_kept G p q)
      (after (storeAsConflictedRevision h read cur) (recordPrepared h path read))"
    by (rule learns_after [OF learns_stored(2)], rule kept) (use read in \<open>auto intro: file_keptI(4)\<close>)
qed

lemma learns_prepareRecorded:
  assumes body: "fs_body f = None"
  shows "learns t0 anything F (\<lambda>G ok. ok \<longrightarrow> file_kept G path (fs_path f)) (prepareRecorded h path f may r)"
proof -
  let ?K = "\<lambda>G ok. ok \<longrightarrow> file_kept G path (fs_path f)"
  have read: "learns t0 anything G ?K (after (readFileFromStub h f) (\<lambda>read. if same_as base read then ret True
      else ifMay may (after (storeWithBaseRevision h read (Some (pv_revision r))) (recordPrepared h path read))))"
    if "\<forall>e. base = Some e \<longrightarrow> RevisionRead (fs_path f) (Some (pv_revision r)) (le_data e) \<in> G" for G base
  proof (rule learns_after [OF any.learns_read [OF body]], rule learns_if, goal_cases)
    case (1 H fb)
    then obtain e where "base = Some e" "isDocContentSame (le_data e) (snd fb)" by (auto simp: same_as_def split: option.splits)
    with 1 that show ?case by (intro learns_ret) (auto intro: file_keptI(2))
  next
    case (2 H fb)
    then show ?case by (intro learns_ifMay learns_keptStore) simp_all
  qed
  show ?thesis
    unfolding prepareRecorded_def
    by (rule learns_after [OF learns_match], rule learns_if, rule learns_ret, simp, rule learns_if, rule learns_ret, simp,
        rule learns_skip, rule any.maintains_primitives, rule learns_if, rule learns_ret, simp,
        rule learns_after [OF learns_fetchEntry], rule learns_if, rule learns_ret, simp, rule read, simp)
qed

lemma learns_prepareUnrecorded:
  assumes body: "fs_body f = None" and run: "\<And>op G. maintains (okay t0 anything G) (run op)"
  shows "learns t0 anything F (\<lambda>G ok. ok \<longrightarrow> file_kept G path (fs_path f)) (prepareUnrecorded h run path f allowAbsent allow may)"
proof -
  let ?K = "\<lambda>G ok. ok \<longrightarrow> file_kept G path (fs_path f)"
  have store: "maintains (okay t0 anything G) (storeFileToDB h run (ByStub f) False False None)" for G
    by (rule any.maintains_storeFile [OF run]) simp
  have base: "learns t0 anything G (\<lambda>G l. \<forall>e. l = Some e \<longrightarrow> RevisionRead (fs_path f) r (le_data e) \<in> G)
      (if allow then fetchEntry h (fs_path f) r else ret None)" for G r
    by (intro learns_if learns_fetchEntry learns_ret) simp
  have read: "learns t0 anything G ?K (after (readFileFromStub h f) (\<lambda>read.
      after (if allow then fetchEntry h (fs_path f) (me_rev e) else ret None) (\<lambda>base.
      if (case base of Some b \<Rightarrow> \<not> isDeletedEntry (le_meta b) \<and> same_as base read | None \<Rightarrow> False)
      then ifMay may (after (setProvenance h path (Option.bind base (\<lambda>b. me_rev (le_meta b))) (observed read) False None) (\<lambda>_. ret True))
      else ifMay may (after (storeAsConflictedRevision h read (rev_of e)) (recordPrepared h path read)))))" for G e
  proof (rule learns_after [OF any.learns_read [OF body]], rule learns_after [OF base], rule learns_if, goal_cases)
    case (1 H fb H' l)
    then obtain b where "l = Some b" "isDocContentSame (le_data b) (snd fb)" by (auto simp: same_as_def split: option.splits)
    with 1 have "file_kept H' path (fs_path f)" by (auto intro: file_keptI(2))
    then show ?case by (intro learns_ifMay learns_skip any.maintains_records learns_ret) simp_all
  next
    case (2 H fb H' l)
    then show ?case by (intro learns_ifMay learns_keptStore) auto
  qed
  show ?thesis
    unfolding prepareUnrecorded_def
  proof (rule learns_if, rule learns_ret, simp, rule learns_after [OF any.learns_fetchMeta], rule learns_ifMay, rule learns_option, goal_cases)
    case (1 G e)
    then have "file_kept G path (fs_path f)" by (auto intro: file_keptI(5))
    then show ?case by (intro learns_maintains store) simp
  next
    case (2 G e d)
    show ?case by (rule learns_if, rule learns_ret, simp, rule read)
  qed simp
qed

lemma learns_item:
  "learns t0 anything F (\<lambda>G item. Listed path (map_option item_path item) \<in> G \<and> (\<forall>f. item = Some (AFile f) \<longrightarrow> fs_body f = None))
     (getStub h path)"
  unfolding getStub_def
  by (rule learns_after [where R = "\<lambda>G item. Listed path (map_option item_path item) \<in> G"], rule learns_asks_any)
    (auto intro!: learns_ret split: option.splits storage_item.splits)

lemma path_kept_mono: "path_kept S allowed p \<Longrightarrow> S \<subseteq> T \<Longrightarrow> path_kept T allowed p"
  unfolding path_kept_def absence_kept_def by (meson file_kept_mono subsetD)

lemma learns_run:
  assumes "learns (pw_trace w) J {} R m" and "m w = (Inr a, w')"
  shows "\<exists>acts G. pw_trace w' = pw_trace w @ acts \<and> G \<subseteq> set acts \<and> R G a"
proof -
  have "wp m (\<lambda>r w'. \<exists>G. {} \<subseteq> G \<and> okay (pw_trace w) J G w' \<and> (\<forall>a. r = Inr a \<longrightarrow> R G a)) w"
    using assms(1) okay_start unfolding learns_def by blast
  from wpD [OF this assms(2)] show ?thesis by (auto simp: okay_def)
qed


lemma sample_prepared:
  "wp (prepareOfflinePath (sample_files False ''old'' ''old'' (\<lambda>b. False)) (runWaiting (sample_files False ''old'' ''old'' (\<lambda>b. False)) 1) ''a.md'' False True
     (\<lambda>x. True)) (\<lambda>r w. r = Inr True) fresh_world"
  by (simp add: reflection_defs prepareOfflinePath_def ifMay_def pub_get_def mark_free_def statHidden_def prepareUnrecorded_def
      fetchEntry_def same_as_def)


end
