(* ===== verification/EntryManager.thy ===== *)
theory EntryManager
  imports FileHandler ConflictManager ChunkPipeline
begin

text \<open>
  \<open>src/managers/EntryManager/EntryManagerImpls.ts\<close>: the entries of the local database. An entry is stored as the list of
  the chunks that hold its pieces; it is read back by reading its chunks, or part by part when it is binary. The
  chunks go through the layered chunk manager (\<open>manager_write\<close>, \<open>manager_read\<close>); PouchDB, the splitter, the hash
  and the decoder are parameters. The world is the chunk cache with the state of the database. \<open>transaction\<close> and
  \<open>serialized\<close> only order the operations of one file and are left out, as are log lines.
\<close>

section \<open>Documents\<close>

text \<open>
  A document as PouchDB answers it and as the code builds it. An absent type is the empty one, an absent optional
  field is \<open>None\<close>; the size is \<open>None\<close> unless it is an integer. A chunk in \<open>ed_eden\<close> is its identifier with its data.
\<close>

record entry_doc =
  ed_id :: string
  ed_rev :: "string option"
  ed_path :: string
  ed_ctime :: int
  ed_mtime :: int
  ed_size :: "int option"
  ed_type :: string
  ed_datatype :: "string option"
  ed_children :: "string list"
  ed_eden :: "(string \<times> string) list option"
  ed_deleted :: "bool option"
  ed_tombstone :: "bool option"
  ed_conflicts :: "string list option"
  ed_revisions :: "(nat \<times> string list) option"
  ed_revs_info :: "(string \<times> string) list option"
  ed_data :: "stored_data option"
  ed_legacyInlineContent :: bool

text \<open>What is to be saved: its data is a blob, or text that is made one.\<close>

record saving_entry =
  sv_id :: string
  sv_path :: string
  sv_ctime :: int
  sv_mtime :: int
  sv_size :: "int option"
  sv_data :: "body + stored_data"
  sv_type :: string

record entry_settings =
  es_paths :: path_settings
  es_syncInternalFiles :: bool
  es_syncOnlyRegEx :: string
  es_syncIgnoreRegEx :: string
  es_remoteType :: string
  es_useOnlyLocalChunk :: bool
  es_deleteMetadataOfDeletedFiles :: bool

text \<open>The field \<open>rev\<close> of the options may be absent, or present and undefined.\<close>

record get_options =
  go_rev :: "string option option"
  go_conflicts :: bool
  go_revs_info :: bool

record put_answer =
  pa_id :: string
  pa_ok :: bool
  pa_rev :: string

text \<open>An error of PouchDB has at most a status.\<close>

datatype entry_error =
  DatabaseError "int option"
| ChunkError chunk_error
| PathError path_error
| BadPattern
| SplitFailed
| LoadFailed
| OutOfRange
| UnsupportedBinaryContent
| BinaryContentSizeMismatch nat

definition isErrorOfMissingDoc :: "entry_error \<Rightarrow> bool" where
  "isErrorOfMissingDoc ex \<longleftrightarrow> ex = DatabaseError (Some 404)"

text \<open>
  \<open>eh_regexp flags pattern\<close> is the test of the expression, \<open>None\<close> when it is not valid. \<open>eh_split\<close> is what the splitter
  yields for an entry: it fails, or yields pieces and then ends or breaks off (\<open>True\<close>). \<open>eh_digest\<close> is SHA-256 of the
  JSON text of a document, \<open>eh_decode\<close> is \<open>decodeBinary\<close>. \<open>eh_putRevision\<close> is \<open>bulkDocs\<close> with \<open>new_edits: false\<close>.
\<close>

record 'd entry_host =
  eh_settings :: entry_settings
  eh_regexp :: "string \<Rightarrow> string \<Rightarrow> (string \<Rightarrow> bool) option"
  eh_sha :: "string \<Rightarrow> string"
  eh_hash :: "string \<Rightarrow> string"
  eh_split :: "saving_entry \<Rightarrow> (string list \<times> bool) option"
  eh_digest :: "entry_doc \<Rightarrow> 8 word list"
  eh_decode :: "string \<Rightarrow> string"
  eh_allDocs :: "'d \<Rightarrow> doc_id list \<Rightarrow> db_row list option"
  eh_bulkDocs :: "entry_leaf list \<Rightarrow> bool \<Rightarrow> 'd \<Rightarrow> write_row list option \<times> 'd"
  eh_deliver :: "read_options \<Rightarrow> doc_id list \<Rightarrow> 'd \<Rightarrow> ((doc_id \<Rightarrow> entry_leaf option) \<times> 'd) option"
  eh_get :: "string \<Rightarrow> get_options option \<Rightarrow> 'd \<Rightarrow> (entry_error + entry_doc) \<times> 'd"
  eh_put :: "entry_doc \<Rightarrow> bool \<Rightarrow> 'd \<Rightarrow> (entry_error + put_answer) \<times> 'd"
  eh_putRevision :: "entry_doc \<Rightarrow> 'd \<Rightarrow> (entry_error + unit) \<times> 'd"
  eh_now :: "'d \<Rightarrow> int"

type_synonym ('d, 'a) entry_act = "(cache_layer \<times> 'd, entry_error, 'a) act"

section \<open>Actions\<close>

definition catchE :: "('w, 'e, 'a) act \<Rightarrow> ('e \<Rightarrow> ('w, 'f, 'a) act) \<Rightarrow> ('w, 'f, 'a) act" where
  "catchE m h = (\<lambda>w. case m w of None \<Rightarrow> None | Some (Inl e, w') \<Rightarrow> h e w' | Some (Inr a, w') \<Rightarrow> Some (Inr a, w'))"

definition liftE :: "('e \<Rightarrow> 'f) \<Rightarrow> ('w, 'e, 'a) act \<Rightarrow> ('w, 'f, 'a) act" where
  "liftE f m = (\<lambda>w. case m w of None \<Rightarrow> None | Some (Inl e, w') \<Rightarrow> Some (Inl (f e), w') | Some (Inr a, w') \<Rightarrow> Some (Inr a, w'))"

definition ofSum :: "('e \<Rightarrow> 'f) \<Rightarrow> 'e + 'a \<Rightarrow> ('w, 'f, 'a) act" where
  "ofSum f r = (case r of Inl e \<Rightarrow> throwE (f e) | Inr a \<Rightarrow> retE a)"

definition pouch :: "('d \<Rightarrow> (entry_error + 'a) \<times> 'd) \<Rightarrow> ('d, 'a) entry_act" where
  "pouch f = (\<lambda>(c, d). case f d of (r, d') \<Rightarrow> Some (r, (c, d')))"

section \<open>Target files\<close>

text \<open>\<open>s.split(sep)\<close> for a separator that is not empty.\<close>

function split_str :: "string \<Rightarrow> string \<Rightarrow> string list" where
  "split_str sep s =
     (case index_of sep s of
        None \<Rightarrow> [s]
      | Some i \<Rightarrow> if sep = [] \<or> s = [] then [s] else take i s # split_str sep (drop (i + length sep) s))"
  by auto
termination by (relation "measure (\<lambda>(sep, s). length s)") auto

declare split_str.simps [simp del]

definition parseCustomRegExp :: "string \<Rightarrow> bool \<times> string" where
  "parseCustomRegExp regexp = (if starts_with regexp ''!!'' then (True, drop 2 regexp) else (False, regexp))"

definition newCustomRegExp :: "(string \<Rightarrow> string \<Rightarrow> (string \<Rightarrow> bool) option) \<Rightarrow> string \<Rightarrow> string \<Rightarrow> (string \<Rightarrow> bool) option" where
  "newCustomRegExp engine flags regexp =
     (case parseCustomRegExp regexp of (negate, pattern) \<Rightarrow>
        map_option (\<lambda>test str. if negate then \<not> test str else test str) (engine flags pattern))"

definition parseCustomRegExpList ::
    "(string \<Rightarrow> string \<Rightarrow> (string \<Rightarrow> bool) option) \<Rightarrow> string \<Rightarrow> string \<Rightarrow> string \<Rightarrow> (string \<Rightarrow> bool) option list" where
  "parseCustomRegExpList engine list' flags delimiter =
     map (newCustomRegExp engine flags)
       (filter (\<lambda>e. e \<noteq> []) (split_str delimiter (filter (\<lambda>c. c \<noteq> CHR 0x0A \<and> c \<noteq> CHR '' '') list')))"

text \<open>The tests of a setting, or \<open>None\<close> when one of its expressions is not valid.\<close>

definition getFileRegExp :: "'d entry_host \<Rightarrow> string \<Rightarrow> (string \<Rightarrow> bool) list option" where
  "getFileRegExp h setting =
     those (parseCustomRegExpList (eh_regexp h) setting
       (if ps_handleFilenameCaseSensitive (es_paths (eh_settings h)) then '''' else ''i'') ''|[]|'')"

definition isTargetFile :: "'d entry_host \<Rightarrow> string \<Rightarrow> entry_error + bool" where
  "isTargetFile h filenameSrc =
     (let settings = eh_settings h;
          file = (if starts_with filenameSrc ICHeader then drop (length ICHeader) filenameSrc else filenameSrc);
          ignored = (if es_syncIgnoreRegEx settings \<noteq> [] then
                       (case getFileRegExp h (es_syncIgnoreRegEx settings) of
                          None \<Rightarrow> Inl BadPattern
                        | Some tests \<Rightarrow> Inr (\<not> list_ex (\<lambda>e. e file) tests))
                     else Inr True)
      in if starts_with file ICXHeader then Inr True
         else if starts_with file PSCHeader then Inr True
         else if contains_code CHR '':'' file then Inr False
         else if \<not> es_syncInternalFiles settings \<and> starts_with file ''.'' then Inr False
         else if es_syncOnlyRegEx settings \<noteq> [] then
           (case getFileRegExp h (es_syncOnlyRegEx settings) of
              None \<Rightarrow> Inl BadPattern
            | Some tests \<Rightarrow> if length tests > 0 \<and> \<not> list_ex (\<lambda>e. e file) tests then Inr False else ignored)
         else ignored)"

section \<open>Storing\<close>

definition chunk_leaf :: "string \<Rightarrow> string \<Rightarrow> entry_leaf" where
  "chunk_leaf i data = \<lparr>leaf_id = i, leaf_rev = None, leaf_deleted = False, leaf_data = data, leaf_isCorrupted = False\<rparr>"

text \<open>A piece whose chunk is in the cache keeps that identifier; otherwise the identifier is the hash. The flag is \<open>isNew\<close>.\<close>

definition prepareChunk :: "'d entry_host \<Rightarrow> string \<Rightarrow> ('d, bool \<times> string) entry_act" where
  "prepareChunk h piece = (\<lambda>(c, d).
     case getChunkIDFromCache piece c of
       (Some cachedChunkId, c') \<Rightarrow> Some (Inr (False, cachedChunkId), (c', d))
     | (None, c') \<Rightarrow> Some (Inr (True, ''h:'' @ eh_hash h piece), (c', d)))"

definition MAX_WRITE_SIZE :: nat where
  "MAX_WRITE_SIZE = 1000 * 1024 * 2"

definition flushBufferedChunks :: "'d entry_host \<Rightarrow> entry_leaf list \<Rightarrow> ('d, bool) entry_act" where
  "flushBufferedChunks h bufferedChunk =
     (if bufferedChunk = [] then retE True
      else
        bindE (liftE ChunkError (manager_write (eh_bulkDocs h) bufferedChunk \<lparr>wo_skipCache = False, wo_force = False\<rparr>))
          (\<lambda>result. retE (wr_result result)))"

text \<open>The loop over the pieces; \<open>None\<close> when a buffer could not be written.\<close>

fun chunk_loop :: "'d entry_host \<Rightarrow> string list \<Rightarrow> entry_leaf list \<Rightarrow> nat \<Rightarrow> string list \<Rightarrow>
    ('d, (entry_leaf list \<times> string list) option) entry_act" where
  "chunk_loop h [] bufferedChunk bufferedSize chunks = retE (Some (bufferedChunk, chunks))"
| "chunk_loop h (piece # pieces) bufferedChunk bufferedSize chunks =
     (if length piece = 0 then chunk_loop h pieces bufferedChunk bufferedSize chunks
      else
        bindE (prepareChunk h piece) (\<lambda>(isNew, i).
        let bufferedChunk' = bufferedChunk @ [chunk_leaf i piece];
            chunks' = chunks @ [i];
            bufferedSize' = bufferedSize + length piece
        in if bufferedSize' > MAX_WRITE_SIZE then
             bindE (flushBufferedChunks h bufferedChunk') (\<lambda>flushed.
             if flushed then chunk_loop h pieces [] 0 chunks' else retE None)
           else chunk_loop h pieces bufferedChunk' bufferedSize' chunks'))"

text \<open>The identifiers of the chunks of an entry, or \<open>None\<close> when they could not all be written.\<close>

definition createEntryChunks :: "'d entry_host \<Rightarrow> saving_entry \<Rightarrow> ('d, string list option) entry_act" where
  "createEntryChunks h note' =
     (case eh_split h note' of
        None \<Rightarrow> throwE SplitFailed
      | Some (pieces, breaks) \<Rightarrow>
          bindE
            (catchE
              (bindE (chunk_loop h pieces [] 0 []) (\<lambda>r. if r \<noteq> None \<and> breaks then throwE SplitFailed else retE r))
              (\<lambda>ex. retE None))
            (\<lambda>r. case r of
               None \<Rightarrow> retE None
             | Some (bufferedChunk, chunks) \<Rightarrow>
                 bindE (flushBufferedChunks h bufferedChunk) (\<lambda>flushed. retE (if flushed then Some chunks else None))))"

datatype revision_mode = Latest | ForceBase "string option" | LiveBase "string option"

fun baseRevision :: "revision_mode \<Rightarrow> string option" where
  "baseRevision Latest = None"
| "baseRevision (ForceBase base) = base"
| "baseRevision (LiveBase base) = base"

definition REMOTE_COUCHDB :: string where "REMOTE_COUCHDB = ''''"
definition REMOTE_MINIO :: string where "REMOTE_MINIO = ''MINIO''"

definition useLatestRevision :: "'d entry_host \<Rightarrow> revision_mode \<Rightarrow> bool" where
  "useLatestRevision h target \<longleftrightarrow>
     target = Latest \<or> target = ForceBase None \<and> es_remoteType (eh_settings h) \<noteq> REMOTE_MINIO"

definition insertsRoot :: "'d entry_host \<Rightarrow> revision_mode \<Rightarrow> bool" where
  "insertsRoot h target \<longleftrightarrow> target = ForceBase None \<and> es_remoteType (eh_settings h) = REMOTE_MINIO"

text \<open>\<open>byte.toString(16).padStart(2, "0")\<close>.\<close>

definition hex_digit :: "nat \<Rightarrow> char" where
  "hex_digit n = (if n < 10 then char_of (48 + n) else char_of (87 + n))"

definition hex_byte :: "8 word \<Rightarrow> string" where
  "hex_byte b = [hex_digit (unat b div 16), hex_digit (unat b mod 16)]"

definition rootRevisionId :: "'d entry_host \<Rightarrow> entry_doc \<Rightarrow> string" where
  "rootRevisionId h newDoc = concat (map hex_byte (eh_digest h newDoc))"

definition as_blob :: "body + stored_data \<Rightarrow> body" where
  "as_blob data = (case data of Inl blob \<Rightarrow> blob | Inr s \<Rightarrow> TextBody (getDocData s))"

fun isTextBlob :: "body \<Rightarrow> bool" where
  "isTextBlob (TextBody s) = True"
| "isTextBlob (BinaryBody s) = False"

text \<open>The entry with the type of its data, and the document that lists its chunks.\<close>

definition typed_entry :: "saving_entry \<Rightarrow> saving_entry" where
  "typed_entry note' =
     (let data = as_blob (sv_data note')
      in note'\<lparr>sv_data := Inl data, sv_type := if isTextBlob data then ''plain'' else ''newnote''\<rparr>)"

definition new_doc :: "saving_entry \<Rightarrow> string list \<Rightarrow> entry_doc" where
  "new_doc note' chunks =
     \<lparr>ed_id = sv_id note', ed_rev = None, ed_path = sv_path note', ed_ctime = sv_ctime note', ed_mtime = sv_mtime note',
      ed_size = sv_size note', ed_type = sv_type note', ed_datatype = None, ed_children = chunks, ed_eden = Some [],
      ed_deleted = None, ed_tombstone = None, ed_conflicts = None, ed_revisions = None, ed_revs_info = None,
      ed_data = None, ed_legacyInlineContent = False\<rparr>"

text \<open>The document with the revision that it extends.\<close>

definition based :: "'d entry_host \<Rightarrow> revision_mode \<Rightarrow> entry_doc \<Rightarrow> ('d, entry_doc) entry_act" where
  "based h target newDoc =
     (if \<not> useLatestRevision h target then
        retE (case baseRevision target of Some base \<Rightarrow> newDoc\<lparr>ed_rev := Some base\<rparr> | None \<Rightarrow> newDoc)
      else
        catchE (bindE (pouch (eh_get h (ed_id newDoc) None)) (\<lambda>old. retE (newDoc\<lparr>ed_rev := ed_rev old\<rparr>)))
          (\<lambda>ex. if isErrorOfMissingDoc ex then retE newDoc else throwE ex))"

definition rev_options :: "string option \<Rightarrow> get_options" where
  "rev_options rv = \<lparr>go_rev = Some rv, go_conflicts = False, go_revs_info = False\<rparr>"

definition writeDocument :: "'d entry_host \<Rightarrow> revision_mode \<Rightarrow> entry_doc \<Rightarrow> ('d, put_answer option) entry_act" where
  "writeDocument h target newDoc =
     bindE (based h target newDoc) (\<lambda>doc.
     if insertsRoot h target then
       let revisionId = rootRevisionId h doc;
           rv = ''1-'' @ revisionId
       in bindE (pouch (eh_putRevision h (doc\<lparr>ed_rev := Some rv, ed_revisions := Some (1, [revisionId])\<rparr>))) (\<lambda>_.
          bindE (pouch (eh_get h (ed_id doc) (Some (rev_options (Some rv))))) (\<lambda>_.
          retE (Some \<lparr>pa_id = ed_id doc, pa_ok = True, pa_rev = rv\<rparr>)))
     else
       bindE (pouch (eh_put h doc (case target of LiveBase _ \<Rightarrow> False | _ \<Rightarrow> True))) (\<lambda>r.
       retE (if pa_ok r then Some r else None)))"

definition putDBEntryInternal :: "'d entry_host \<Rightarrow> saving_entry \<Rightarrow> bool \<Rightarrow> revision_mode \<Rightarrow> ('d, put_answer option) entry_act" where
  "putDBEntryInternal h note0 onlyChunks target =
     bindE (ofSum PathError (id2path (sv_id note0) (Some (sv_path note0)) False)) (\<lambda>filename.
     bindE (ofSum id (isTargetFile h filename)) (\<lambda>isTarget.
     if \<not> isTarget then retE None
     else
       let note' = typed_entry note0 in
       bindE (createEntryChunks h note') (\<lambda>chunks.
       case chunks of
         None \<Rightarrow> retE None
       | Some ids \<Rightarrow>
           if onlyChunks then retE (Some \<lparr>pa_id = sv_id note', pa_ok = True, pa_rev = ''dummy''\<rparr>)
           else writeDocument h target (new_doc note' ids))))"

definition putDBEntry :: "'d entry_host \<Rightarrow> saving_entry \<Rightarrow> bool \<Rightarrow> string option \<Rightarrow> ('d, put_answer option) entry_act" where
  "putDBEntry h note' onlyChunks conflictBaseRev =
     putDBEntryInternal h note' onlyChunks
       (case conflictBaseRev of Some rv \<Rightarrow> if rv \<noteq> [] then ForceBase (Some rv) else Latest | None \<Rightarrow> Latest)"

definition putDBEntryWithLiveBaseRevision ::
    "'d entry_host \<Rightarrow> saving_entry \<Rightarrow> string option \<Rightarrow> bool \<Rightarrow> ('d, put_answer option) entry_act" where
  "putDBEntryWithLiveBaseRevision h note' base onlyChunks =
     catchE (putDBEntryInternal h note' onlyChunks (LiveBase base))
       (\<lambda>ex. if ex = DatabaseError (Some 409) then retE None else throwE ex)"

definition putDBEntryWithBaseRevision ::
    "'d entry_host \<Rightarrow> saving_entry \<Rightarrow> string option \<Rightarrow> bool \<Rightarrow> ('d, put_answer option) entry_act" where
  "putDBEntryWithBaseRevision h note' base onlyChunks = putDBEntryInternal h note' onlyChunks (ForceBase base)"

section \<open>Reading\<close>

definition isLegacyNote :: "entry_doc \<Rightarrow> bool" where
  "isLegacyNote meta \<longleftrightarrow> ed_type meta = [] \<or> ed_type meta = ''notes''"

definition has_chunks :: "entry_doc \<Rightarrow> bool" where
  "has_chunks doc \<longleftrightarrow> ed_type doc = ''newnote'' \<or> ed_type doc = ''plain''"

definition first_flag :: "entry_doc \<Rightarrow> bool option" where
  "first_flag doc = (case ed_deleted doc of Some b \<Rightarrow> Some b | None \<Rightarrow> ed_tombstone doc)"

text \<open>The metadata of a document, under the path that was asked for.\<close>

definition loaded_meta :: "string \<Rightarrow> entry_doc \<Rightarrow> entry_doc" where
  "loaded_meta path obj =
     (let type' = (if has_chunks obj then ed_type obj else ''plain'')
      in obj\<lparr>ed_path := path, ed_children := (if has_chunks obj then ed_children obj else []), ed_type := type',
           ed_datatype := Some type', ed_deleted := first_flag obj, ed_tombstone := None,
           ed_eden := Some (case ed_eden obj of Some e \<Rightarrow> e | None \<Rightarrow> []), ed_data := Some (OneText []),
           ed_legacyInlineContent := False\<rparr>)"

definition getDBEntryMetaByPath :: "'d entry_host \<Rightarrow> string \<Rightarrow> get_options option \<Rightarrow> bool \<Rightarrow> ('d, entry_doc option) entry_act" where
  "getDBEntryMetaByPath h path opt includeDeleted =
     bindE (ofSum id (isTargetFile h path)) (\<lambda>isTarget.
     if \<not> isTarget then retE None
     else
       catchE
         (bindE (pouch (eh_get h (path2id (eh_sha h) (es_paths (eh_settings h)) path []) opt)) (\<lambda>obj.
          retE
            (if \<not> includeDeleted \<and> first_flag obj = Some True then None
             else if ed_type obj = ''leaf'' then None
             else if isLegacyNote obj \<or> has_chunks obj then Some (loaded_meta path obj)
             else None)))
         (\<lambda>ex. if isErrorOfMissingDoc ex then retE None else throwE ex))"

text \<open>A note of the old kind holds its content itself.\<close>

definition complementEntryMeta :: "entry_doc \<Rightarrow> entry_doc" where
  "complementEntryMeta note' =
     note'\<lparr>ed_children := [], ed_datatype := Some ''newnote'', ed_type := ''newnote'', ed_deleted := first_flag note',
       ed_tombstone := None, ed_eden := Some (case ed_eden note' of Some e \<Rightarrow> e | None \<Rightarrow> []),
       ed_revisions := None, ed_revs_info := None, ed_legacyInlineContent := True\<rparr>"

definition respondOldFashionedEntry :: "entry_doc \<Rightarrow> entry_doc" where
  "respondOldFashionedEntry note' = complementEntryMeta note'"

definition canUseOnDemandChunking :: "entry_settings \<Rightarrow> bool" where
  "canUseOnDemandChunking settings =
     (if es_remoteType settings \<noteq> REMOTE_COUCHDB then False
      else if es_useOnlyLocalChunk settings then False
      else True)"

definition canFetchRemotely :: "entry_settings \<Rightarrow> bool" where
  "canFetchRemotely settings =
     (if \<not> canUseOnDemandChunking settings then False
      else if es_remoteType settings = REMOTE_MINIO then False
      else True)"

record retrieval =
  rt_waitForDelivery :: bool
  rt_preventRemoteRequest :: bool

definition computeChunkRetrievalMethod :: "bool \<Rightarrow> entry_settings \<Rightarrow> retrieval" where
  "computeChunkRetrievalMethod waitForReady settings =
     (let isOnDemandFetchEnabled = canFetchRemotely settings
      in if \<not> waitForReady then
           if isOnDemandFetchEnabled then \<lparr>rt_waitForDelivery = True, rt_preventRemoteRequest = False\<rparr>
           else \<lparr>rt_waitForDelivery = False, rt_preventRemoteRequest = True\<rparr>
         else \<lparr>rt_waitForDelivery = True, rt_preventRemoteRequest = \<not> isOnDemandFetchEnabled\<rparr>)"

definition chunk_options :: "'d entry_host \<Rightarrow> bool \<Rightarrow> bool \<Rightarrow> read_options" where
  "chunk_options h skipCache waitForReady =
     (let m = computeChunkRetrievalMethod waitForReady (eh_settings h)
      in \<lparr>ro_skipCache = skipCache, ro_waitForDelivery = Some (rt_waitForDelivery m), ro_timeout = None,
           ro_preventRemoteRequest = rt_preventRemoteRequest m\<rparr>)"

definition readChunks :: "'d entry_host \<Rightarrow> string list \<Rightarrow> read_options \<Rightarrow> (string \<times> string) list \<Rightarrow>
    ('d, entry_leaf option list) entry_act" where
  "readChunks h ids options eden =
     liftE ChunkError
       (manager_read (eh_allDocs h) (eh_deliver h options) ids options (map (\<lambda>(i, data). (i, LeafDoc (chunk_leaf i data))) eden))"

definition eden_of :: "entry_doc \<Rightarrow> (string \<times> string) list" where
  "eden_of meta = (case ed_eden meta of Some e \<Rightarrow> e | None \<Rightarrow> [])"

text \<open>The entry with the data of its chunks.\<close>

definition loaded_entry_of :: "entry_doc \<Rightarrow> entry_leaf list \<Rightarrow> entry_doc" where
  "loaded_entry_of meta chunks =
     meta\<lparr>ed_data := Some (Pieces (map leaf_data chunks)), ed_datatype := Some (ed_type meta), ed_deleted := first_flag meta,
       ed_tombstone := None, ed_revisions := None, ed_revs_info := None, ed_legacyInlineContent := False\<rparr>"

definition respondEntryFromMeta :: "'d entry_host \<Rightarrow> entry_doc \<Rightarrow> bool \<Rightarrow> bool \<Rightarrow> ('d, entry_doc option) entry_act" where
  "respondEntryFromMeta h meta dump waitForReady =
     bindE
       (if dump then
          bindE (pouch (eh_get h (ed_id meta) (Some \<lparr>go_rev = Some (ed_rev meta), go_conflicts = True, go_revs_info = True\<rparr>)))
            (\<lambda>_. retE ())
        else retE ()) (\<lambda>_.
     catchE
       (bindE (readChunks h (ed_children meta) (chunk_options h False waitForReady) (eden_of meta)) (\<lambda>chunks.
        if list_ex (\<lambda>e. e = None) chunks then throwE LoadFailed
        else retE (Some (loaded_entry_of meta (List.map_filter id chunks)))))
       (\<lambda>ex. retE None))"

definition meta_filename :: "entry_doc \<Rightarrow> path_error + string" where
  "meta_filename meta = id2path (ed_id meta) (Some (ed_path meta)) False"

definition getDBEntryFromMeta :: "'d entry_host \<Rightarrow> entry_doc \<Rightarrow> bool \<Rightarrow> bool \<Rightarrow> ('d, entry_doc option) entry_act" where
  "getDBEntryFromMeta h meta dump waitForReady =
     bindE (ofSum PathError (meta_filename meta)) (\<lambda>filename.
     bindE (ofSum id (isTargetFile h filename)) (\<lambda>isTarget.
     if \<not> isTarget then retE None
     else if isLegacyNote meta then retE (Some (respondOldFashionedEntry meta))
     else if has_chunks meta then respondEntryFromMeta h meta dump waitForReady
     else retE None))"

definition getDBEntryByPath :: "'d entry_host \<Rightarrow> string \<Rightarrow> get_options option \<Rightarrow> bool \<Rightarrow> bool \<Rightarrow> bool \<Rightarrow> ('d, entry_doc option) entry_act" where
  "getDBEntryByPath h path opt dump waitForReady includeDeleted =
     bindE (getDBEntryMetaByPath h path opt includeDeleted) (\<lambda>meta.
     case meta of Some m \<Rightarrow> getDBEntryFromMeta h m dump waitForReady | None \<Rightarrow> retE None)"

section \<open>Binary content in parts\<close>

definition BINARY_CONTENT_READ_BATCH :: nat where "BINARY_CONTENT_READ_BATCH = 16"
definition BINARY_CONTENT_PART_BYTES :: nat where "BINARY_CONTENT_PART_BYTES = 8 * 1024 * 1024"

text \<open>\<open>Number.isSafeInteger(size) && size >= 0\<close>.\<close>

definition usable_size :: "int option \<Rightarrow> bool" where
  "usable_size size' \<longleftrightarrow> (case size' of Some n \<Rightarrow> 0 \<le> n \<and> n < 2 ^ 53 | None \<Rightarrow> False)"

text \<open>The slices of \<open>n\<close> elements; the last may be shorter.\<close>

function batches :: "nat \<Rightarrow> 'a list \<Rightarrow> 'a list list" where
  "batches n xs = (if xs = [] \<or> n = 0 then [] else take n xs # batches n (drop n xs))"
  by auto
termination by (relation "measure (\<lambda>(n, xs). length xs)") auto

declare batches.simps [simp del]

text \<open>The preloaded chunks of a batch: \<open>Object.fromEntries\<close> keeps one for each identifier.\<close>

definition preloaded :: "(string \<times> string) list \<Rightarrow> string list \<Rightarrow> (string \<times> string) list" where
  "preloaded eden ids =
     List.map_filter (\<lambda>i. map_option (\<lambda>data. (i, data)) (map_of (rev eden) i)) (js_unique ids)"

record part_state =
  pt_buffered :: "string list"
  pt_bufferedSize :: nat
  pt_decodedSize :: nat
  pt_parts :: "string list"

definition new_parts :: part_state where
  "new_parts = \<lparr>pt_buffered = [], pt_bufferedSize = 0, pt_decodedSize = 0, pt_parts = []\<rparr>"

text \<open>The chunks of a batch are decoded and gathered; the parts that were yielded are kept when it stops.\<close>

fun gather :: "(string \<Rightarrow> string) \<Rightarrow> int \<Rightarrow> entry_leaf list \<Rightarrow> part_state \<Rightarrow> part_state \<times> entry_error option" where
  "gather decode size' [] s = (s, None)"
| "gather decode size' (chunk # chunks) s =
     (if starts_with (leaf_data chunk) ''%'' then (s, Some UnsupportedBinaryContent)
      else
        let bytes = decode (leaf_data chunk);
            decodedSize = pt_decodedSize s + length bytes
        in if int decodedSize > size' then (s\<lparr>pt_decodedSize := decodedSize\<rparr>, Some (BinaryContentSizeMismatch decodedSize))
           else
             let buffered = pt_buffered s @ [bytes];
                 bufferedSize = pt_bufferedSize s + length bytes
             in gather decode size' chunks
                  (if bufferedSize \<ge> BINARY_CONTENT_PART_BYTES
                   then \<lparr>pt_buffered = [], pt_bufferedSize = 0, pt_decodedSize = decodedSize, pt_parts = pt_parts s @ [concat buffered]\<rparr>
                   else s\<lparr>pt_buffered := buffered, pt_bufferedSize := bufferedSize, pt_decodedSize := decodedSize\<rparr>))"

text \<open>The parts that a generator yields, and the error with which it ended, if any.\<close>

type_synonym yields = "string list \<times> entry_error option"

fun part_loop :: "'d entry_host \<Rightarrow> int \<Rightarrow> read_options \<Rightarrow> (string \<times> string) list \<Rightarrow> string list list \<Rightarrow> part_state \<Rightarrow>
    ('d, part_state \<times> entry_error option) entry_act" where
  "part_loop h size' options eden [] s = retE (s, None)"
| "part_loop h size' options eden (ids # rest) s =
     bindE
       (catchE (bindE (readChunks h ids options (preloaded eden ids)) (\<lambda>chunks. retE (Inr chunks))) (\<lambda>ex. retE (Inl ex)))
       (\<lambda>r. case r of
          Inl ex \<Rightarrow> retE (s, Some ex)
        | Inr chunks \<Rightarrow>
            if list_ex (\<lambda>chunk. chunk = None) chunks then retE (s, Some LoadFailed)
            else
              (case gather (eh_decode h) size' (List.map_filter id chunks) s of
                 (s', Some ex) \<Rightarrow> retE (s', Some ex)
               | (s', None) \<Rightarrow> part_loop h size' options eden rest s'))"

text \<open>Why an entry is not read in parts, found before its chunks are read; a path that cannot be tested is an error too.\<close>

definition entry_is_text :: "entry_doc \<Rightarrow> bool" where
  "entry_is_text meta = isTextDocument (ed_type meta) (ed_datatype meta) (ed_legacyInlineContent meta) (ed_path meta)"

definition meta_is_target :: "'d entry_host \<Rightarrow> entry_doc \<Rightarrow> entry_error + bool" where
  "meta_is_target h meta = (case meta_filename meta of Inl e \<Rightarrow> Inl (PathError e) | Inr filename \<Rightarrow> isTargetFile h filename)"

definition refused :: "'d entry_host \<Rightarrow> entry_doc \<Rightarrow> entry_error option" where
  "refused h meta =
     (if isLegacyNote meta \<or> \<not> has_chunks meta then Some UnsupportedBinaryContent
      else
        (case meta_is_target h meta of
           Inl e \<Rightarrow> Some e
         | Inr isTarget \<Rightarrow>
             if \<not> isTarget \<or> entry_is_text meta \<or> \<not> usable_size (ed_size meta) then Some UnsupportedBinaryContent
             else None))"

definition recorded_size :: "entry_doc \<Rightarrow> int" where
  "recorded_size meta = (case ed_size meta of Some n \<Rightarrow> n | None \<Rightarrow> 0)"

definition iterateDBEntryBinaryContentFromMeta :: "'d entry_host \<Rightarrow> entry_doc \<Rightarrow> bool \<Rightarrow> ('d, yields) entry_act" where
  "iterateDBEntryBinaryContentFromMeta h meta waitForReady =
     (case refused h meta of
        Some ex \<Rightarrow> retE ([], Some ex)
      | None \<Rightarrow>
          bindE (part_loop h (recorded_size meta) (chunk_options h True waitForReady) (eden_of meta)
              (batches BINARY_CONTENT_READ_BATCH (ed_children meta)) new_parts)
            (\<lambda>(s, ex). retE
              (case ex of
                 Some e \<Rightarrow> (pt_parts s, Some e)
               | None \<Rightarrow>
                   if int (pt_decodedSize s) \<noteq> recorded_size meta
                   then (pt_parts s, Some (BinaryContentSizeMismatch (pt_decodedSize s)))
                   else if pt_bufferedSize s > 0 then (pt_parts s @ [concat (pt_buffered s)], None)
                   else (pt_parts s, None))))"

text \<open>The decoded size of a chunk from its length. Only well-formed base64 makes it the size of the decoded chunk.\<close>

definition decodedBase64Length :: "string \<Rightarrow> int" where
  "decodedBase64Length data =
     (let padding = (if ends_with data ''=='' then 2 else if ends_with data ''='' then 1 else 0)
      in int (length data * 3 div 4) - padding)"

datatype content_availability = IsStreamable | IsMissing | IsUnsupported

fun measure_chunks :: "int \<Rightarrow> entry_leaf list \<Rightarrow> int \<Rightarrow> int option" where
  "measure_chunks size' [] decodedSize = Some decodedSize"
| "measure_chunks size' (chunk # chunks) decodedSize =
     (if starts_with (leaf_data chunk) ''%'' then None
      else
        let decodedSize' = decodedSize + decodedBase64Length (leaf_data chunk)
        in if decodedSize' > size' then None else measure_chunks size' chunks decodedSize')"

fun inspect_loop :: "'d entry_host \<Rightarrow> int \<Rightarrow> read_options \<Rightarrow> (string \<times> string) list \<Rightarrow> string list list \<Rightarrow> int \<Rightarrow>
    ('d, content_availability) entry_act" where
  "inspect_loop h size' options eden [] decodedSize =
     retE (if decodedSize = size' then IsStreamable else IsUnsupported)"
| "inspect_loop h size' options eden (ids # rest) decodedSize =
     bindE (readChunks h ids options (preloaded eden ids)) (\<lambda>chunks.
     if list_ex (\<lambda>chunk. chunk = None) chunks then retE IsMissing
     else
       (case measure_chunks size' (List.map_filter id chunks) decodedSize of
          None \<Rightarrow> retE IsUnsupported
        | Some decodedSize' \<Rightarrow> inspect_loop h size' options eden rest decodedSize'))"

definition inspectDBEntryBinaryContent :: "'d entry_host \<Rightarrow> entry_doc \<Rightarrow> bool \<Rightarrow> ('d, content_availability) entry_act" where
  "inspectDBEntryBinaryContent h meta waitForReady =
     (if isLegacyNote meta \<or> \<not> has_chunks meta then retE IsUnsupported
      else if \<not> usable_size (ed_size meta) then retE IsUnsupported
      else
        bindE (ofSum id (meta_is_target h meta)) (\<lambda>isTarget.
        if \<not> isTarget then retE IsUnsupported
        else if entry_is_text meta then retE IsUnsupported
        else
          catchE
            (inspect_loop h (recorded_size meta) (chunk_options h True waitForReady) (eden_of meta)
              (batches BINARY_CONTENT_READ_BATCH (ed_children meta)) 0)
            (\<lambda>ex. retE IsMissing)))"

definition canStreamDBEntryBinaryContent :: "'d entry_host \<Rightarrow> entry_doc \<Rightarrow> bool \<Rightarrow> ('d, bool) entry_act" where
  "canStreamDBEntryBinaryContent h meta waitForReady =
     bindE (inspectDBEntryBinaryContent h meta waitForReady) (\<lambda>a. retE (a = IsStreamable))"

text \<open>\<open>content.set(part, offset)\<close> for each part: out of range when a part does not fit.\<close>

fun assemble :: "string list \<Rightarrow> string \<Rightarrow> nat \<Rightarrow> (string \<times> nat) option" where
  "assemble [] content offset = Some (content, offset)"
| "assemble (part # parts) content offset =
     (if offset + length part > length content then None
      else assemble parts (take offset content @ part @ drop (offset + length part) content) (offset + length part))"

definition zeros :: "nat \<Rightarrow> string" where
  "zeros n = replicate n (CHR 0x00)"

definition getDBEntryBinaryContentFromMeta :: "'d entry_host \<Rightarrow> entry_doc \<Rightarrow> bool \<Rightarrow> ('d, binary_content option) entry_act" where
  "getDBEntryBinaryContentFromMeta h meta waitForReady =
     bindE (ofSum id (meta_is_target h meta)) (\<lambda>isTarget.
     if \<not> isTarget then retE None
     else
       bindE (iterateDBEntryBinaryContentFromMeta h meta waitForReady) (\<lambda>(parts, ex). retE
         (case assemble parts (zeros (if usable_size (ed_size meta) then nat (recorded_size meta) else 0)) 0 of
            None \<Rightarrow> None
          | Some (content, offset) \<Rightarrow>
              (case ex of
                 Some UnsupportedBinaryContent \<Rightarrow> Some Unsupported
               | Some (BinaryContentSizeMismatch decodedSize) \<Rightarrow> Some (SizeMismatch decodedSize)
               | Some _ \<Rightarrow> None
               | None \<Rightarrow>
                   if offset \<noteq> length content then Some (SizeMismatch offset) else Some (BinaryOk content)))))"

section \<open>Deleting\<close>

definition rev_deletion :: "get_options option \<Rightarrow> bool" where
  "rev_deletion opt =
     (case opt of
        None \<Rightarrow> False
      | Some o' \<Rightarrow> (case go_rev o' of None \<Rightarrow> False | Some rv \<Rightarrow> rv \<noteq> Some ''''))"

definition now :: "'d entry_host \<Rightarrow> ('d, int) entry_act" where
  "now h = (\<lambda>(c, d). Some (Inr (eh_now h d), (c, d)))"

text \<open>A revision is deleted as such; an entry as a whole becomes one that is marked deleted.\<close>

definition deleted_doc :: "'d entry_host \<Rightarrow> bool \<Rightarrow> entry_doc \<Rightarrow> ('d, entry_doc) entry_act" where
  "deleted_doc h revDeletion obj =
     (if isLegacyNote obj \<or> revDeletion then retE (obj\<lparr>ed_tombstone := Some True\<rparr>)
      else
        bindE (now h) (\<lambda>t.
        let obj' = obj\<lparr>ed_deleted := Some True, ed_mtime := t\<rparr>
        in retE (if es_deleteMetadataOfDeletedFiles (eh_settings h) then obj'\<lparr>ed_tombstone := Some True\<rparr> else obj')))"

definition deleteDBEntryByPath :: "'d entry_host \<Rightarrow> string \<Rightarrow> get_options option \<Rightarrow> ('d, bool) entry_act" where
  "deleteDBEntryByPath h path opt =
     bindE (ofSum id (isTargetFile h path)) (\<lambda>isTarget.
     if \<not> isTarget then retE False
     else
       catchE
         (bindE (pouch (eh_get h (path2id (eh_sha h) (es_paths (eh_settings h)) path []) opt)) (\<lambda>obj.
          if ed_type obj = ''leaf'' then retE False
          else if isLegacyNote obj \<or> has_chunks obj then
            bindE (deleted_doc h (rev_deletion opt) obj) (\<lambda>obj'.
            bindE (pouch (eh_put h obj' (\<not> rev_deletion opt))) (\<lambda>r. retE True))
          else retE False))
         (\<lambda>ex. if isErrorOfMissingDoc ex then retE False else throwE ex))"

definition storeDeletionByPathAtRevision :: "'d entry_host \<Rightarrow> string \<Rightarrow> string \<Rightarrow> ('d, put_answer option) entry_act" where
  "storeDeletionByPathAtRevision h path base =
     bindE (ofSum id (isTargetFile h path)) (\<lambda>isTarget.
     if \<not> isTarget then retE None
     else
       catchE
         (bindE (pouch (eh_get h (path2id (eh_sha h) (es_paths (eh_settings h)) path []) (Some (rev_options (Some base))))) (\<lambda>obj.
          if ed_type obj = ''leaf'' then retE None
          else
            bindE (now h) (\<lambda>t.
            bindE (pouch (eh_put h (obj\<lparr>ed_tombstone := None, ed_deleted := Some True, ed_mtime := t\<rparr>) True)) (\<lambda>result.
            retE (Some result)))))
         (\<lambda>ex. if isErrorOfMissingDoc ex then retE None else throwE ex))"

end
