(* ===== verification/EntryStore.thy ===== *)
theory EntryStore
  imports EntryManager
begin

text \<open>
  What an entry that was stored gives when it is read. The chunks of the cache and of the database are addressed by
  their content (\<open>addressed\<close>): an identifier stands for one text. PouchDB is taken with its documented behaviour
  (\<open>pouch_laws\<close>); any of its calls may fail. The assertions say of every operation that it settles.
\<close>

section \<open>Operations that settle\<close>

named_theorems runs_rules "total correctness of the constructs of actions"

definition runs :: "('w, 'e, 'a) act \<Rightarrow> ('e + 'a \<Rightarrow> 'w \<Rightarrow> bool) \<Rightarrow> 'w \<Rightarrow> bool" where
  "runs m Q w \<longleftrightarrow> (case m w of None \<Rightarrow> False | Some (r, w') \<Rightarrow> Q r w')"

lemma runsD: "runs m Q w \<Longrightarrow> \<exists>r w'. m w = Some (r, w') \<and> Q r w'"
  by (auto simp: runs_def split: option.splits)

lemma runsI: "m w = Some (r, w') \<Longrightarrow> Q r w' \<Longrightarrow> runs m Q w"
  by (simp add: runs_def)

lemma runs_mono: "runs m Q w \<Longrightarrow> (\<And>r w'. Q r w' \<Longrightarrow> R r w') \<Longrightarrow> runs m R w"
  by (auto simp: runs_def split: option.splits)

lemma runs_retE [simp]: "runs (retE a) Q w = Q (Inr a) w"
  by (simp add: runs_def retE_def)

lemma runs_throwE [simp]: "runs (throwE e) Q w = Q (Inl e) w"
  by (simp add: runs_def throwE_def)

lemma runs_bindE [simp]:
  "runs (bindE m f) Q w = runs m (\<lambda>r w'. case r of Inl e \<Rightarrow> Q (Inl e) w' | Inr a \<Rightarrow> runs (f a) Q w') w"
  by (auto simp: runs_def bindE_def split: option.splits sum.splits)

lemma runs_catchE [simp]:
  "runs (catchE m f) Q w = runs m (\<lambda>r w'. case r of Inl e \<Rightarrow> runs (f e) Q w' | Inr a \<Rightarrow> Q (Inr a) w') w"
  by (auto simp: runs_def catchE_def split: option.splits sum.splits)

lemma runs_liftE [simp]:
  "runs (liftE f m) Q w = runs m (\<lambda>r w'. case r of Inl e \<Rightarrow> Q (Inl (f e)) w' | Inr a \<Rightarrow> Q (Inr a) w') w"
  by (auto simp: runs_def liftE_def split: option.splits sum.splits)

lemma runs_ofSum [simp]: "runs (ofSum f r) Q w = (case r of Inl e \<Rightarrow> Q (Inl (f e)) w | Inr a \<Rightarrow> Q (Inr a) w)"
  by (simp add: ofSum_def split: sum.split)

lemma runs_pouch [simp]: "runs (pouch f) Q (c, d) = (case f d of (r, d') \<Rightarrow> Q r (c, d'))"
  by (auto simp: runs_def pouch_def split: prod.split)

text \<open>The rule of a sequence, and of a handler, with what holds in between.\<close>

lemma runs_seq:
  assumes "runs m (\<lambda>r w'. case r of Inl e \<Rightarrow> Q (Inl e) w' | Inr a \<Rightarrow> I a w') w" and "\<And>a w'. I a w' \<Longrightarrow> runs (f a) Q w'"
  shows "runs (bindE m f) Q w"
  using assms by (auto intro: runs_mono split: sum.splits)

section \<open>The documented behaviour of the database\<close>

text \<open>
  \<open>content d\<close> are the documents that are not deleted, as \<open>allDocs\<close> gives them; \<open>entries d i\<close> is what is stored of the
  document \<open>i\<close> with all its revisions, and \<open>alive\<close> its leaves that are not deletions. \<open>bulkDocs\<close> adds the documents it is
  given where there is none, and changes no other; when it reports at most conflicts, every identifier is taken.
  A read changes nothing. A \<open>put\<close> that fails changes no entry; what it stored is read back under its revision. One that
  is not forced extends a live leaf, or creates an entry that has none.
\<close>

definition bulk_law :: "'d entry_host \<Rightarrow> ('d \<Rightarrow> doc_id \<rightharpoonup> db_doc) \<Rightarrow> ('d \<Rightarrow> string \<Rightarrow> 'v) \<Rightarrow> bool" where
  "bulk_law h content entries \<longleftrightarrow>
     (\<forall>chunks d res d'. eh_bulkDocs h chunks True d = (res, d') \<longrightarrow>
        entries d' = entries d \<and>
        (\<forall>i. content d' i = content d i \<or>
             content d i = None \<and> (\<exists>ch\<in>set chunks. leaf_id ch = i \<and> (\<exists>rv. content d' i = Some (LeafDoc (ch\<lparr>leaf_rev := rv\<rparr>))))) \<and>
        (\<forall>rows. res = Some rows \<longrightarrow> conflicts_only rows \<longrightarrow> (\<forall>ch\<in>set chunks. content d' (leaf_id ch) \<noteq> None)))"

definition get_law :: "'d entry_host \<Rightarrow> bool" where
  "get_law h \<longleftrightarrow> (\<forall>i opt d r d'. eh_get h i opt d = (r, d') \<longrightarrow> d' = d)"

definition plain_doc :: "entry_doc \<Rightarrow> bool" where
  "plain_doc doc \<longleftrightarrow> ed_conflicts doc = None \<and> ed_revisions doc = None \<and> ed_revs_info doc = None"

definition read_back :: "'d entry_host \<Rightarrow> entry_doc \<Rightarrow> string \<Rightarrow> 'd \<Rightarrow> bool" where
  "read_back h doc rv d \<longleftrightarrow>
     fst (eh_get h (ed_id doc) (Some (rev_options (Some rv))) d) = Inr (doc\<lparr>ed_rev := Some rv, ed_revisions := None\<rparr>)"

definition same_chunks :: "('d \<Rightarrow> doc_id \<rightharpoonup> db_doc) \<Rightarrow> 'd \<Rightarrow> 'd \<Rightarrow> bool" where
  "same_chunks content d d' \<longleftrightarrow> (\<forall>i. starts_with i ''h:'' \<longrightarrow> content d' i = content d i)"

definition put_law :: "'d entry_host \<Rightarrow> ('d \<Rightarrow> doc_id \<rightharpoonup> db_doc) \<Rightarrow> ('d \<Rightarrow> string \<Rightarrow> 'v) \<Rightarrow> ('v \<Rightarrow> string set) \<Rightarrow> bool" where
  "put_law h content entries alive \<longleftrightarrow>
     (\<forall>doc force d r d'. eh_put h doc force d = (r, d') \<longrightarrow>
        same_chunks content d d' \<and> (\<forall>j. j \<noteq> ed_id doc \<longrightarrow> entries d' j = entries d j) \<and>
        (case r of
           Inl ex \<Rightarrow> entries d' = entries d
         | Inr a \<Rightarrow>
             if pa_ok a then
               (plain_doc doc \<longrightarrow> read_back h doc (pa_rev a) d') \<and>
               (\<not> force \<longrightarrow> (case ed_rev doc of Some rv \<Rightarrow> rv \<in> alive (entries d (ed_id doc)) | None \<Rightarrow> alive (entries d (ed_id doc)) = {}))
             else entries d' = entries d))"

definition root_law :: "'d entry_host \<Rightarrow> ('d \<Rightarrow> doc_id \<rightharpoonup> db_doc) \<Rightarrow> ('d \<Rightarrow> string \<Rightarrow> 'v) \<Rightarrow> bool" where
  "root_law h content entries \<longleftrightarrow>
     (\<forall>doc d r d'. eh_putRevision h doc d = (r, d') \<longrightarrow>
        same_chunks content d d' \<and> (\<forall>j. j \<noteq> ed_id doc \<longrightarrow> entries d' j = entries d j) \<and>
        (case r of
           Inl ex \<Rightarrow> entries d' = entries d
         | Inr u \<Rightarrow> \<forall>rv. ed_rev doc = Some rv \<longrightarrow> ed_conflicts doc = None \<longrightarrow> ed_revs_info doc = None \<longrightarrow>
             (\<exists>x. fst (eh_get h (ed_id doc) (Some (rev_options (Some rv))) d') = Inr x) \<longrightarrow> read_back h doc rv d'))"

definition pouch_laws :: "'d entry_host \<Rightarrow> ('d \<Rightarrow> doc_id \<rightharpoonup> db_doc) \<Rightarrow> ('d \<Rightarrow> string \<Rightarrow> 'v) \<Rightarrow> ('v \<Rightarrow> string set) \<Rightarrow> bool" where
  "pouch_laws h content entries alive \<longleftrightarrow>
     allDocs_law (eh_allDocs h) content \<and> bulk_law h content entries \<and> get_law h \<and>
     put_law h content entries alive \<and> root_law h content entries"

lemma bulk_lawD:
  assumes "bulk_law h content entries" and "eh_bulkDocs h chunks True d = (res, d')"
  shows "entries d' = entries d"
    and "content d' i = content d i \<or>
      content d i = None \<and> (\<exists>ch\<in>set chunks. leaf_id ch = i \<and> (\<exists>rv. content d' i = Some (LeafDoc (ch\<lparr>leaf_rev := rv\<rparr>))))"
    and "res = Some rows \<Longrightarrow> conflicts_only rows \<Longrightarrow> ch \<in> set chunks \<Longrightarrow> content d' (leaf_id ch) \<noteq> None"
  using assms unfolding bulk_law_def by blast+

section \<open>Chunks addressed by their content\<close>

text \<open>\<open>addr i\<close> is the text that the identifier \<open>i\<close> stands for.\<close>

definition cache_addressed :: "(doc_id \<Rightarrow> string) \<Rightarrow> cache_layer \<Rightarrow> bool" where
  "cache_addressed addr c \<longleftrightarrow>
     cache_ok c \<and> cache_bounded c \<and> (\<forall>i l. cached c i = Some l \<longrightarrow> starts_with i ''h:'' \<and> leaf_data l = addr i)"

definition chunks_addressed :: "(doc_id \<Rightarrow> string) \<Rightarrow> (doc_id \<rightharpoonup> db_doc) \<Rightarrow> bool" where
  "chunks_addressed addr m \<longleftrightarrow>
     (\<forall>i doc. starts_with i ''h:'' \<longrightarrow> m i = Some doc \<longrightarrow> (\<exists>l. doc = LeafDoc l \<and> leaf_data l = addr i))"

definition addressed :: "(doc_id \<Rightarrow> string) \<Rightarrow> ('d \<Rightarrow> doc_id \<rightharpoonup> db_doc) \<Rightarrow> cache_layer \<times> 'd \<Rightarrow> bool" where
  "addressed addr content w \<longleftrightarrow> cache_addressed addr (fst w) \<and> chunks_addressed addr (content (snd w))"

lemma cache_addressedD:
  assumes "cache_addressed addr c"
  shows "cache_ok c" and "cache_bounded c" and "cached c i = Some l \<Longrightarrow> starts_with i ''h:'' \<and> leaf_data l = addr i"
  using assms by (auto simp: cache_addressed_def)

lemma chunks_addressedD: "chunks_addressed addr m \<Longrightarrow> starts_with i ''h:'' \<Longrightarrow> m i = Some doc \<Longrightarrow> \<exists>l. doc = LeafDoc l \<and> leaf_data l = addr i"
  by (auto simp: chunks_addressed_def)

lemma addressed_Pair [simp]: "addressed addr content (c, d) \<longleftrightarrow> cache_addressed addr c \<and> chunks_addressed addr (content d)"
  by (simp add: addressed_def)

lemma same_chunks_addressed: "same_chunks content d d' \<Longrightarrow> chunks_addressed addr (content d') = chunks_addressed addr (content d)"
  by (simp add: chunks_addressed_def same_chunks_def)

text \<open>A chunk that may be written: its identifier stands for its data.\<close>

definition own_chunk :: "(doc_id \<Rightarrow> string) \<Rightarrow> entry_leaf \<Rightarrow> bool" where
  "own_chunk addr ch \<longleftrightarrow> starts_with (leaf_id ch) ''h:'' \<and> leaf_data ch = addr (leaf_id ch)"

lemma own_chunk_leaf: "own_chunk addr (chunk_leaf i p) \<longleftrightarrow> starts_with i ''h:'' \<and> p = addr i"
  by (simp add: own_chunk_def chunk_leaf_def)

definition chunk_stored :: "('d \<Rightarrow> doc_id \<rightharpoonup> db_doc) \<Rightarrow> 'd \<Rightarrow> string \<Rightarrow> bool" where
  "chunk_stored content d i \<longleftrightarrow> starts_with i ''h:'' \<and> content d i \<noteq> None"

definition grows :: "('d \<Rightarrow> doc_id \<rightharpoonup> db_doc) \<Rightarrow> 'd \<Rightarrow> 'd \<Rightarrow> bool" where
  "grows content d d' \<longleftrightarrow> (\<forall>i. chunk_stored content d i \<longrightarrow> chunk_stored content d' i)"

lemma grows_refl [simp]: "grows content d d"
  by (simp add: grows_def)

lemma grows_trans: "grows content d d' \<Longrightarrow> grows content d' d'' \<Longrightarrow> grows content d d''"
  by (simp add: grows_def)

lemma same_chunks_stored: "same_chunks content d d' \<Longrightarrow> chunk_stored content d' i = chunk_stored content d i"
  by (auto simp: chunk_stored_def same_chunks_def)

lemma own_chunk_id: "own_chunk addr ch \<Longrightarrow> leaf_id ch \<noteq> []"
  by (auto simp: own_chunk_def)

lemma cacheAll_addressed:
  assumes "cache_addressed addr c" and "\<And>ch. ch \<in> set chunks \<Longrightarrow> own_chunk addr ch"
  shows "\<exists>c'. cacheAll chunks c = Some c' \<and> cache_addressed addr c'"
  using assms
proof (induction chunks arbitrary: c)
  case Nil
  then show ?case by simp
next
  case (Cons ch chunks)
  have own: "own_chunk addr ch" using Cons.prems(2) by simp
  from cacheChunk_spec [OF cache_addressedD(1,2) [OF Cons.prems(1)] own_chunk_id [OF own]]
  obtain c1 where c1: "cacheChunk ch c = Some c1" "cache_ok c1" "cache_bounded c1"
    and got: "\<And>j. cached c1 j = (if j \<notin> set (lru_after c (leaf_id ch)) then None
        else if j = leaf_id ch \<and> cached c j = None then Some ch else cached c j)" by blast
  have "cache_addressed addr c1"
    using own cache_addressedD(3) [OF Cons.prems(1)]
    by (auto simp: cache_addressed_def c1 got own_chunk_def split: if_splits)
  from Cons.IH [OF this] Cons.prems(2) c1(1) show ?case by simp
qed

lemma cache_write_addressed:
  assumes "cache_addressed addr c" and "\<And>ch. ch \<in> set chunks \<Longrightarrow> own_chunk addr ch" and "\<not> wo_skipCache options"
  shows "\<exists>c' res. executeWritePipeline [cache_write] options chunks (c, d) = Some (Inr res, (c', d)) \<and> cache_addressed addr c' \<and> wr_result res"
proof -
  obtain c1 where c1: "cache_filter chunks c [] = (filter (\<lambda>ch. cached c (leaf_id ch) = None) chunks, c1)"
    and ok: "cache_ok c1" "cached c1 = cached c" "cache_bounded c1"
    using cache_filter_spec [OF cache_addressedD(1) [OF assms(1)], of chunks "[]"] cache_addressedD(2) [OF assms(1)] by auto
  have "cache_addressed addr c1" using ok assms(1) by (simp add: cache_addressed_def)
  from cacheAll_addressed [OF this assms(2)] obtain c2 where c2: "cacheAll chunks c1 = Some c2" "cache_addressed addr c2" by blast
  with c1 assms(3) show ?thesis by (simp add: cache_write_def bindE_def retE_def)
qed

text \<open>
  What a write of chunks keeps, and what it gives: every chunk is stored when it succeeds. It settles whether the
  database accepts the chunks or not.
\<close>

definition chunk_safe :: "(doc_id \<Rightarrow> string) \<Rightarrow> ('d \<Rightarrow> doc_id \<rightharpoonup> db_doc) \<Rightarrow> ('d \<Rightarrow> string \<Rightarrow> 'v) \<Rightarrow> 'd \<Rightarrow> cache_layer \<times> 'd \<Rightarrow> bool" where
  "chunk_safe addr content entries d0 w \<longleftrightarrow>
     addressed addr content w \<and> entries (snd w) = entries d0 \<and> grows content d0 (snd w)"

text \<open>The database takes all chunks: none is refused for another reason than that it is there.\<close>

definition accepts :: "'d entry_host \<Rightarrow> bool" where
  "accepts h \<longleftrightarrow> (\<forall>chunks d. \<exists>rows d'. eh_bulkDocs h chunks True d = (Some rows, d') \<and> conflicts_only rows)"

lemma manager_write_settles:
  assumes law: "bulk_law h content entries" and safe: "chunk_safe addr content entries d0 w"
    and own: "\<And>ch. ch \<in> set chunks \<Longrightarrow> own_chunk addr ch" and ne: "chunks \<noteq> []"
  shows "runs (manager_write (eh_bulkDocs h) chunks \<lparr>wo_skipCache = False, wo_force = False\<rparr>)
    (\<lambda>r w'. chunk_safe addr content entries d0 w' \<and> grows content (snd w) (snd w') \<and>
       (\<forall>res. r = Inr res \<longrightarrow> wr_result res \<and> (\<forall>ch\<in>set chunks. chunk_stored content (snd w') (leaf_id ch))) \<and>
       (accepts h \<longrightarrow> (\<exists>res. r = Inr res))) w"
proof -
  obtain c d where w: "w = (c, d)" by (cases w)
  obtain res d' where b: "eh_bulkDocs h chunks True d = (res, d')" by (cases "eh_bulkDocs h chunks True d")
  note bulk = bulk_lawD [OF law b]
  have ca: "cache_addressed addr c" and cd: "chunks_addressed addr (content d)"
    using safe by (simp_all add: chunk_safe_def w)
  have cd': "chunks_addressed addr (content d')"
    unfolding chunks_addressed_def
  proof (intro allI impI)
    fix i doc assume "starts_with i ''h:''" and "content d' i = Some doc"
    with bulk(2) [of i] chunks_addressedD [OF cd, of i doc] own show "\<exists>l. doc = LeafDoc l \<and> leaf_data l = addr i"
      by (auto simp: own_chunk_def)
  qed
  have g: "grows content d d'"
    unfolding grows_def chunk_stored_def by (metis bulk(2))
  have safe': "chunk_safe addr content entries d0 (c', d')" if "cache_addressed addr c'" for c'
    using safe that cd' g bulk(1) by (auto simp: chunk_safe_def w intro: grows_trans)
  show ?thesis
  proof (cases "\<exists>rows. res = Some rows \<and> conflicts_only rows")
    case True
    then obtain rows where rows: "res = Some rows" "conflicts_only rows" by blast
    obtain c' res' where cw: "executeWritePipeline [cache_write] \<lparr>wo_skipCache = False, wo_force = False\<rparr> chunks (c, d') =
        Some (Inr res' :: chunk_error + write_result, (c', d'))" "cache_addressed addr c'"
      using cache_write_addressed [where options = "\<lparr>wo_skipCache = False, wo_force = False\<rparr>" and d = d' and chunks = chunks, OF ca own] by auto
    have "\<forall>ch\<in>set chunks. chunk_stored content d' (leaf_id ch)"
      using bulk(3) [OF rows] own by (auto simp: chunk_stored_def own_chunk_def)
    with cw rows b ne g safe' show ?thesis
      by (simp add: runs_def w manager_write_def db_write_def list_ex_failed bindE_def retE_def Let_def del: not_None_eq)
  next
    case False
    with b have "\<not> accepts h" unfolding accepts_def by (metis prod.inject)
    with False b ne g safe' [OF ca] show ?thesis
      by (cases res) (simp_all add: runs_def w manager_write_def db_write_def list_ex_failed throwE_def del: not_None_eq)
  qed
qed

section \<open>The chunks of an entry\<close>

text \<open>The cache answers an identifier that stands for the piece; the hash must do so for the pieces of the entry.\<close>

lemma getChunkID_loop_found:
  "getChunkID_loop data m c = (Some i, c') \<Longrightarrow> \<exists>l. (i, Some l) \<in> set m \<and> leaf_data l = data"
  by (induction data m c rule: getChunkID_loop.induct) (auto split: option.splits if_splits)

lemma getChunkID_loop_cache:
  assumes "cache_addressed addr c" and "\<And>i. (i, None) \<in> set m \<Longrightarrow> cached c i = None"
  shows "cache_addressed addr (snd (getChunkID_loop data m c))"
  using assms
proof (induction data m c rule: getChunkID_loop.induct)
  case (1 data c)
  then show ?case by simp
next
  case (2 data i cell rest c)
  show ?case
  proof (cases cell)
    case None
    let ?c = "deleteCachedChunk i (c\<lparr>derefCount := derefCount c + 1\<rparr>)"
    have none: "cached c i = None" using 2(4) None by simp
    then have same: "cached ?c = cached c" by (auto simp: cached_delete)
    have "jm_wf (caches ?c)" using 2(3) by (simp add: cache_addressed_def cache_ok_def)
    moreover have "cache_bounded ?c"
      by (rule bounded_keys_subset [of c])
         (use 2(3) in \<open>auto simp: cache_addressed_def deleteCachedChunk_def length_delete_le jm_keys_delete simp del: set_map\<close>)
    ultimately have "cache_addressed addr ?c" using 2(3) same by (auto simp: cache_addressed_def cache_ok_def)
    moreover have "cached ?c j = None" if "(j, None) \<in> set rest" for j using 2(4) [of j] that same by simp
    ultimately have "cache_addressed addr (snd (getChunkID_loop data rest ?c))" by (rule 2(1) [OF None])
    then show ?thesis using None by simp
  next
    case (Some chunk)
    then show ?thesis using 2 by simp
  qed
qed

lemma prepareChunk_settles:
  assumes ca: "cache_addressed addr c" and hash: "addr (''h:'' @ eh_hash h piece) = piece"
  shows "\<exists>isNew i c'. prepareChunk h piece (c, d) = Some (Inr (isNew, i), (c', d)) \<and>
    cache_addressed addr c' \<and> starts_with i ''h:'' \<and> addr i = piece"
proof -
  have wf: "jm_wf (caches c)" using ca by (simp add: cache_addressed_def cache_ok_def)
  have cell: "cached c i = cell" if "(i, cell) \<in> set (caches c)" for i cell
    using that wf by (simp add: cached_def jm_wf_def map_of_is_SomeI split: option.split)
  obtain r c' where g: "getChunkID_loop piece (caches c) c = (r, c')" by (cases "getChunkID_loop piece (caches c) c")
  have c': "cache_addressed addr c'"
    using getChunkID_loop_cache [OF ca, of "caches c" piece] cell g by simp
  show ?thesis
  proof (cases r)
    case None
    with g c' hash show ?thesis by (auto simp: prepareChunk_def getChunkIDFromCache_def)
  next
    case (Some i)
    with g obtain l where l: "(i, Some l) \<in> set (caches c)" "leaf_data l = piece"
      using getChunkID_loop_found by metis
    with cell [OF l(1)] cache_addressedD(3) [OF ca] have "starts_with i ''h:''" "addr i = piece" by auto
    with g c' Some show ?thesis by (auto simp: prepareChunk_def getChunkIDFromCache_def)
  qed
qed

lemma flush_settles:
  assumes law: "bulk_law h content entries" and safe: "chunk_safe addr content entries d0 w"
    and own: "\<And>ch. ch \<in> set chunks \<Longrightarrow> own_chunk addr ch"
  shows "runs (flushBufferedChunks h chunks)
    (\<lambda>r w'. chunk_safe addr content entries d0 w' \<and> grows content (snd w) (snd w') \<and>
       (r = Inr True \<longrightarrow> (\<forall>ch\<in>set chunks. chunk_stored content (snd w') (leaf_id ch))) \<and>
       (accepts h \<longrightarrow> r = Inr True)) w"
proof (cases "chunks = []")
  case True
  with safe show ?thesis by (simp add: flushBufferedChunks_def)
next
  case False
  from manager_write_settles [OF law safe own False] show ?thesis
    by (simp add: flushBufferedChunks_def False) (erule runs_mono, auto split: sum.split)
qed

text \<open>
  The chunks that are listed so far stand for the pieces so far, and each is stored or in the buffer.
\<close>

definition listed_ok :: "(doc_id \<Rightarrow> string) \<Rightarrow> ('d \<Rightarrow> doc_id \<rightharpoonup> db_doc) \<Rightarrow> string list \<Rightarrow> 'd \<Rightarrow> entry_leaf list \<Rightarrow> string list \<Rightarrow> bool" where
  "listed_ok addr content pieces d buffer chunks \<longleftrightarrow>
     map addr chunks = pieces \<and> (\<forall>ch\<in>set buffer. own_chunk addr ch) \<and>
     (\<forall>i\<in>set chunks. chunk_stored content d i \<or> i \<in> leaf_id ` set buffer)"

lemma listed_ok_flushed:
  assumes "listed_ok addr content pieces d buffer chunks" and "grows content d d'" and "\<forall>ch\<in>set buffer. chunk_stored content d' (leaf_id ch)"
  shows "listed_ok addr content pieces d' [] chunks"
  using assms by (auto simp: listed_ok_def grows_def)

lemma listed_ok_add:
  assumes "listed_ok addr content pieces d buffer chunks" and "starts_with i ''h:''" and "addr i = piece"
  shows "listed_ok addr content (pieces @ [piece]) d (buffer @ [chunk_leaf i piece]) (chunks @ [i])"
  using assms by (auto simp: listed_ok_def own_chunk_def chunk_leaf_def)

lemma chunk_loop_settles:
  assumes law: "bulk_law h content entries" and hash: "\<forall>p\<in>set pieces. addr (''h:'' @ eh_hash h p) = p"
    and safe: "chunk_safe addr content entries d0 w" and lst: "listed_ok addr content before (snd w) buffer chunks"
  shows "runs (chunk_loop h pieces buffer size' chunks)
    (\<lambda>r w'. chunk_safe addr content entries d0 w' \<and>
       (\<forall>b cs. r = Inr (Some (b, cs)) \<longrightarrow> listed_ok addr content (before @ filter (\<lambda>p. p \<noteq> []) pieces) (snd w') b cs) \<and>
       (accepts h \<longrightarrow> (\<exists>b cs. r = Inr (Some (b, cs))))) w"
  using hash safe lst
proof (induction pieces arbitrary: buffer size' chunks before w)
  case Nil
  then show ?case by simp
next
  case (Cons piece pieces)
  have hp: "\<forall>p\<in>set pieces. addr (''h:'' @ eh_hash h p) = p" using Cons.prems(1) by simp
  note IH = Cons.IH [OF hp]
  obtain c d where w: "w = (c, d)" by (cases w)
  show ?case
  proof (cases "piece = []")
    case True
    with IH [OF Cons.prems(2,3)] show ?thesis by simp
  next
    case False
    have ca: "cache_addressed addr c" using Cons.prems(2) by (simp add: w chunk_safe_def)
    have "addr (''h:'' @ eh_hash h piece) = piece" using Cons.prems(1) by simp
    from prepareChunk_settles [OF ca this, of d]
    obtain isNew i c' where pr: "prepareChunk h piece (c, d) = Some (Inr (isNew, i), (c', d))"
      and c': "cache_addressed addr c'" and i: "starts_with i ''h:''" "addr i = piece" by blast
    have safe': "chunk_safe addr content entries d0 (c', d)" using Cons.prems(2) c' by (simp add: w chunk_safe_def)
    have lst': "listed_ok addr content (before @ [piece]) d (buffer @ [chunk_leaf i piece]) (chunks @ [i])"
      using listed_ok_add [OF Cons.prems(3) i] by (simp add: w)
    let ?B = "buffer @ [chunk_leaf i piece]" and ?C = "chunks @ [i]" and ?n = "size' + length piece"
    let ?Q = "\<lambda>r w'. chunk_safe addr content entries d0 w' \<and>
       (\<forall>b cs. r = Inr (Some (b, cs)) \<longrightarrow> listed_ok addr content ((before @ [piece]) @ filter (\<lambda>p. p \<noteq> []) pieces) (snd w') b cs) \<and>
       (accepts h \<longrightarrow> (\<exists>b cs. r = Inr (Some (b, cs))))"
    have go: "runs (if ?n > MAX_WRITE_SIZE then bindE (flushBufferedChunks h ?B) (\<lambda>flushed. if flushed then chunk_loop h pieces [] 0 ?C else retE None)
        else chunk_loop h pieces ?B ?n ?C) ?Q (c', d)"
    proof (cases "?n > MAX_WRITE_SIZE")
      case True
      have fl: "runs (flushBufferedChunks h ?B)
          (\<lambda>r w'. chunk_safe addr content entries d0 w' \<and> grows content (snd (c', d)) (snd w') \<and>
             (r = Inr True \<longrightarrow> (\<forall>ch\<in>set ?B. chunk_stored content (snd w') (leaf_id ch))) \<and>
             (accepts h \<longrightarrow> r = Inr True)) (c', d)"
        by (rule flush_settles [OF law safe']) (use lst' in \<open>auto simp: listed_ok_def\<close>)
      show ?thesis
        unfolding if_P [OF True] runs_bindE
      proof (rule runs_mono [OF fl], goal_cases)
        case (1 r w')
        show ?case
        proof (cases r)
          case (Inl e)
          with 1 show ?thesis by simp
        next
          case (Inr ok)
          show ?thesis
          proof (cases ok)
            case True
            have "listed_ok addr content (before @ [piece]) (snd w') [] ?C"
              by (rule listed_ok_flushed [OF lst']) (use 1 Inr True in simp_all)
            from IH [OF _ this, of 0] 1 Inr True show ?thesis by simp
          next
            case False
            with 1 Inr show ?thesis by simp
          qed
        qed
      qed
    next
      case False
      have "listed_ok addr content (before @ [piece]) (snd (c', d)) ?B ?C" using lst' by simp
      from IH [OF safe' this, of ?n] False show ?thesis by simp
    qed
    have "runs (prepareChunk h piece) (\<lambda>r w'. r = Inr (isNew, i) \<and> w' = (c', d)) w"
      by (rule runsI [where r = "Inr (isNew, i)"]) (simp_all add: w pr)
    with go False show ?thesis
      by (simp add: Let_def) (erule runs_mono, simp)
  qed
qed

lemma createEntryChunks_settles:
  assumes law: "bulk_law h content entries" and safe: "chunk_safe addr content entries d0 w"
    and hash: "\<forall>pieces b. eh_split h e = Some (pieces, b) \<longrightarrow> (\<forall>p\<in>set pieces. addr (''h:'' @ eh_hash h p) = p)"
  shows "runs (createEntryChunks h e)
    (\<lambda>r w'. chunk_safe addr content entries d0 w' \<and>
       (\<forall>cs. r = Inr (Some cs) \<longrightarrow> (\<exists>pieces. eh_split h e = Some (pieces, False) \<and>
          map addr cs = filter (\<lambda>p. p \<noteq> []) pieces \<and> (\<forall>i\<in>set cs. chunk_stored content (snd w') i))) \<and>
       (accepts h \<longrightarrow> (\<exists>pieces. eh_split h e = Some (pieces, False)) \<longrightarrow> (\<exists>cs. r = Inr (Some cs)))) w"
proof (cases "eh_split h e")
  case None
  with safe show ?thesis by (simp add: createEntryChunks_def)
next
  case (Some pb)
  then obtain pieces breaks where sp: "eh_split h e = Some (pieces, breaks)" by (cases pb) auto
  have hp: "\<forall>p\<in>set pieces. addr (''h:'' @ eh_hash h p) = p" using hash sp by blast
  have "listed_ok addr content [] (snd w) [] []" by (simp add: listed_ok_def)
  from chunk_loop_settles [OF law hp safe this, of 0]
  have loop: "runs (chunk_loop h pieces [] 0 [])
    (\<lambda>r w'. chunk_safe addr content entries d0 w' \<and>
       (\<forall>b cs. r = Inr (Some (b, cs)) \<longrightarrow> listed_ok addr content (filter (\<lambda>p. p \<noteq> []) pieces) (snd w') b cs) \<and>
       (accepts h \<longrightarrow> (\<exists>b cs. r = Inr (Some (b, cs))))) w"
    by simp
  show ?thesis
    unfolding createEntryChunks_def sp option.case prod.case runs_bindE runs_catchE
  proof (rule runs_mono [OF loop], goal_cases)
    case (1 r w')
    show ?case
    proof (cases "\<exists>b cs. r = Inr (Some (b, cs)) \<and> \<not> breaks")
      case True
      then obtain b cs where r: "r = Inr (Some (b, cs))" "\<not> breaks" by blast
      with 1 have lst: "listed_ok addr content (filter (\<lambda>p. p \<noteq> []) pieces) (snd w') b cs"
        and safe': "chunk_safe addr content entries d0 w'" by simp_all
      have own: "own_chunk addr ch" if "ch \<in> set b" for ch using lst that by (simp add: listed_ok_def)
      have "runs (flushBufferedChunks h b)
          (\<lambda>r w''. chunk_safe addr content entries d0 w'' \<and>
             (r = Inr True \<longrightarrow> map addr cs = filter (\<lambda>p. p \<noteq> []) pieces \<and> (\<forall>i\<in>set cs. chunk_stored content (snd w'') i)) \<and>
             (accepts h \<longrightarrow> r = Inr True)) w'"
        by (rule runs_mono [OF flush_settles [OF law safe' own]], assumption)
           (use lst in \<open>auto simp: listed_ok_def grows_def\<close>)
      then show ?thesis
        using r by (simp, elim runs_mono) (auto split: sum.split)
    next
      case False
      with 1 show ?thesis by (cases r) (auto split: option.split)
    qed
  qed
qed

section \<open>Writing the document\<close>

definition same_but_rev :: "entry_doc \<Rightarrow> entry_doc \<Rightarrow> bool" where
  "same_but_rev x y \<longleftrightarrow> x\<lparr>ed_rev := None\<rparr> = y\<lparr>ed_rev := None\<rparr>"

lemma based_settles:
  assumes "get_law h"
  shows "runs (based h target doc)
    (\<lambda>r w'. w' = w \<and> (\<forall>x. r = Inr x \<longrightarrow> same_but_rev x doc \<and>
       (\<not> useLatestRevision h target \<longrightarrow> ed_rev doc = None \<longrightarrow> ed_rev x = baseRevision target))) w"
proof -
  obtain c d where w: "w = (c, d)" by (cases w)
  obtain r d' where g: "eh_get h (ed_id doc) None d = (r, d')" by (cases "eh_get h (ed_id doc) None d")
  with assms have "d' = d" unfolding get_law_def by blast
  with g show ?thesis
    by (auto simp: based_def w same_but_rev_def split: option.split sum.split)
qed

text \<open>
  Writing the document: nothing but its own entry changes, and not even that when it is answered with \<open>None\<close> or, unless
  a second root was inserted, with an error. What was written is read back.
\<close>

definition stored_as :: "'d entry_host \<Rightarrow> entry_doc \<Rightarrow> string \<Rightarrow> 'd \<Rightarrow> bool" where
  "stored_as h doc rv d \<longleftrightarrow> fst (eh_get h (ed_id doc) (Some (rev_options (Some rv))) d) = Inr (doc\<lparr>ed_rev := Some rv\<rparr>)"

definition base_alive :: "revision_mode \<Rightarrow> string set \<Rightarrow> bool" where
  "base_alive target revs \<longleftrightarrow>
     (case target of LiveBase (Some rv) \<Rightarrow> rv \<in> revs | LiveBase None \<Rightarrow> revs = {} | _ \<Rightarrow> True)"

definition document_written :: "'d entry_host \<Rightarrow> ('d \<Rightarrow> doc_id \<rightharpoonup> db_doc) \<Rightarrow> ('d \<Rightarrow> string \<Rightarrow> 'v) \<Rightarrow> ('v \<Rightarrow> string set) \<Rightarrow>
    revision_mode \<Rightarrow> entry_doc \<Rightarrow> cache_layer \<times> 'd \<Rightarrow> entry_error + put_answer option \<Rightarrow> cache_layer \<times> 'd \<Rightarrow> bool" where
  "document_written h content entries alive target doc w r w' \<longleftrightarrow>
     fst w' = fst w \<and> same_chunks content (snd w) (snd w') \<and>
     (\<forall>j. j \<noteq> ed_id doc \<longrightarrow> entries (snd w') j = entries (snd w) j) \<and>
     (case r of
        Inl ex \<Rightarrow> insertsRoot h target \<or> entries (snd w') = entries (snd w)
      | Inr None \<Rightarrow> entries (snd w') = entries (snd w)
      | Inr (Some a) \<Rightarrow> stored_as h doc (pa_rev a) (snd w') \<and> base_alive target (alive (entries (snd w) (ed_id doc))))"

lemma same_but_revD:
  assumes "same_but_rev x y"
  shows "x\<lparr>ed_rev := rv\<rparr> = y\<lparr>ed_rev := rv\<rparr>" and "ed_id x = ed_id y" and "plain_doc x = plain_doc y" and "ed_revisions x = ed_revisions y"
  using assms by (cases x; cases y; simp add: same_but_rev_def plain_doc_def)+

lemma read_back_stored:
  "same_but_rev x doc \<Longrightarrow> ed_revisions doc = None \<Longrightarrow> read_back h x rv d \<Longrightarrow> stored_as h doc rv d"
  unfolding same_but_rev_def read_back_def stored_as_def by (cases x; cases doc; simp)

lemma writeDocument_settles:
  assumes laws: "pouch_laws h content entries alive" and doc: "plain_doc doc" "ed_rev doc = None"
  shows "runs (writeDocument h target doc) (document_written h content entries alive target doc w) w"
proof -
  obtain c d where w: "w = (c, d)" by (cases w)
  have get: "get_law h" and put: "put_law h content entries alive" and root: "root_law h content entries"
    using laws by (simp_all add: pouch_laws_def)
  have same: "same_chunks content d d" by (simp add: same_chunks_def)
  show ?thesis
    unfolding writeDocument_def runs_bindE
  proof (rule runs_mono [OF based_settles [OF get]], goal_cases)
    case (1 r w')
    show ?case
    proof (cases r)
      case (Inl e)
      with 1 w same show ?thesis by (simp add: document_written_def)
    next
      case (Inr x)
      with 1 doc have x: "same_but_rev x doc" and b: "\<not> useLatestRevision h target \<Longrightarrow> ed_rev x = baseRevision target"
        and w': "w' = (c, d)" by (simp_all add: w)
      note eq = same_but_revD [OF x]
      show ?thesis
      proof (cases "insertsRoot h target")
        case True
        let ?id = "rootRevisionId h x"
        let ?y = "x\<lparr>ed_rev := Some (''1-'' @ ?id), ed_revisions := Some (1, [?id])\<rparr>"
        obtain r1 d1 where p: "eh_putRevision h ?y d = (r1, d1)" by (cases "eh_putRevision h ?y d")
        obtain r2 d2 where g: "eh_get h (ed_id x) (Some (rev_options (Some (''1-'' @ ?id)))) d1 = (r2, d2)"
          by (cases "eh_get h (ed_id x) (Some (rev_options (Some (''1-'' @ ?id)))) d1")
        have d2: "d2 = d1" using get g unfolding get_law_def by blast
        note law = root [unfolded root_law_def, rule_format, OF p]
        have kept: "same_chunks content d d1" "\<And>j. j \<noteq> ed_id doc \<Longrightarrow> entries d1 j = entries d j" using law eq by simp_all
        have "stored_as h doc (''1-'' @ ?id) d1" if "r1 = Inr u" "r2 = Inr y" for u y
        proof -
          have "read_back h ?y (''1-'' @ ?id) d1"
            using law that g doc(1) eq(3) by (simp add: plain_doc_def)
          then have "fst (eh_get h (ed_id doc) (Some (rev_options (Some (''1-'' @ ?id)))) d1) =
              Inr (x\<lparr>ed_rev := Some (''1-'' @ ?id), ed_revisions := None\<rparr>)"
            by (simp add: read_back_def eq(2))
          moreover have "x\<lparr>ed_rev := Some (''1-'' @ ?id), ed_revisions := None\<rparr> = doc\<lparr>ed_rev := Some (''1-'' @ ?id)\<rparr>"
            using eq(1) [of "Some (''1-'' @ ?id)"] eq(4) doc(1) by (cases x; cases doc) (simp add: plain_doc_def)
          ultimately show ?thesis by (simp add: stored_as_def)
        qed
        moreover have "base_alive target s" for s using True by (simp add: insertsRoot_def base_alive_def)
        ultimately show ?thesis
          using Inr w' w p g d2 kept True
          by (auto simp: document_written_def Let_def split: sum.split)
      next
        case False
        let ?f = "case target of LiveBase _ \<Rightarrow> False | _ \<Rightarrow> True"
        obtain r1 d1 where p: "eh_put h x ?f d = (r1, d1)" by (cases "eh_put h x ?f d")
        note law = put [unfolded put_law_def, rule_format, OF p]
        have kept: "same_chunks content d d1" "\<And>j. j \<noteq> ed_id doc \<Longrightarrow> entries d1 j = entries d j" using law eq by simp_all
        have failed: "entries d1 = entries d" if "\<And>a. r1 = Inr a \<Longrightarrow> \<not> pa_ok a"
          using law that by (auto split: sum.splits)
        have "stored_as h doc (pa_rev a) d1 \<and> base_alive target (alive (entries d (ed_id doc)))" if "r1 = Inr a" "pa_ok a" for a
        proof -
          have "read_back h x (pa_rev a) d1" using law that doc(1) eq by simp
          then have "stored_as h doc (pa_rev a) d1" using read_back_stored [OF x] doc(1) by (simp add: plain_doc_def)
          moreover have "base_alive target (alive (entries d (ed_id doc)))"
            using law that b eq(2)
            by (auto simp: base_alive_def useLatestRevision_def split: revision_mode.split option.splits)
          ultimately show ?thesis ..
        qed
        with failed kept show ?thesis
          using Inr w' w p False
          by (auto simp: document_written_def split: sum.split)
      qed
    qed
  qed
qed

section \<open>Storing an entry\<close>

text \<open>The hash tells the pieces of the entry apart from every other content.\<close>

definition pieces_addressed :: "'d entry_host \<Rightarrow> (doc_id \<Rightarrow> string) \<Rightarrow> saving_entry \<Rightarrow> bool" where
  "pieces_addressed h addr e \<longleftrightarrow>
     (\<forall>pieces b. eh_split h (typed_entry e) = Some (pieces, b) \<longrightarrow> (\<forall>p\<in>set pieces. addr (''h:'' @ eh_hash h p) = p))"

text \<open>What is stored of an entry: the chunks of its pieces, in order, and the document that lists them.\<close>

definition entry_stored :: "'d entry_host \<Rightarrow> (doc_id \<Rightarrow> string) \<Rightarrow> ('d \<Rightarrow> doc_id \<rightharpoonup> db_doc) \<Rightarrow> saving_entry \<Rightarrow> string \<Rightarrow> 'd \<Rightarrow> bool" where
  "entry_stored h addr content e rv d \<longleftrightarrow>
     (\<exists>pieces cs. eh_split h (typed_entry e) = Some (pieces, False) \<and> map addr cs = filter (\<lambda>p. p \<noteq> []) pieces \<and>
        (\<forall>i\<in>set cs. chunk_stored content d i) \<and> stored_as h (new_doc (typed_entry e) cs) rv d)"

definition put_outcome :: "'d entry_host \<Rightarrow> (doc_id \<Rightarrow> string) \<Rightarrow> ('d \<Rightarrow> doc_id \<rightharpoonup> db_doc) \<Rightarrow> ('d \<Rightarrow> string \<Rightarrow> 'v) \<Rightarrow>
    ('v \<Rightarrow> string set) \<Rightarrow> saving_entry \<Rightarrow> revision_mode \<Rightarrow> 'd \<Rightarrow> entry_error + put_answer option \<Rightarrow> cache_layer \<times> 'd \<Rightarrow> bool" where
  "put_outcome h addr content entries alive e target d0 r w' \<longleftrightarrow>
     addressed addr content w' \<and> grows content d0 (snd w') \<and>
     (\<forall>j. j \<noteq> sv_id e \<longrightarrow> entries (snd w') j = entries d0 j) \<and>
     (case r of
        Inl ex \<Rightarrow> insertsRoot h target \<or> entries (snd w') = entries d0
      | Inr None \<Rightarrow> entries (snd w') = entries d0
      | Inr (Some a) \<Rightarrow> entry_stored h addr content e (pa_rev a) (snd w') \<and> base_alive target (alive (entries d0 (sv_id e))))"

lemma new_doc_simps [simp]:
  "plain_doc (new_doc e cs)" "ed_rev (new_doc e cs) = None" "ed_id (new_doc e cs) = sv_id e" "ed_children (new_doc e cs) = cs"
  "ed_path (new_doc e cs) = sv_path e" "ed_type (new_doc e cs) = sv_type e" "ed_size (new_doc e cs) = sv_size e"
  "ed_mtime (new_doc e cs) = sv_mtime e" "ed_ctime (new_doc e cs) = sv_ctime e"
  "ed_eden (new_doc e cs) = Some []" "ed_deleted (new_doc e cs) = None" "ed_tombstone (new_doc e cs) = None"
  by (simp_all add: new_doc_def plain_doc_def)

lemma typed_entry_simps [simp]: "sv_id (typed_entry e) = sv_id e" "sv_path (typed_entry e) = sv_path e" "sv_size (typed_entry e) = sv_size e"
  "sv_mtime (typed_entry e) = sv_mtime e" "sv_ctime (typed_entry e) = sv_ctime e"
  "sv_type (typed_entry e) = (if isTextBlob (as_blob (sv_data e)) then ''plain'' else ''newnote'')"
  by (simp_all add: typed_entry_def Let_def)

lemma put_settles:
  assumes laws: "pouch_laws h content entries alive" and ad: "addressed addr content w" and hash: "pieces_addressed h addr e"
  shows "runs (putDBEntryInternal h e False target) (put_outcome h addr content entries alive e target (snd w)) w"
proof -
  obtain c d where w: "w = (c, d)" by (cases w)
  have bulk: "bulk_law h content entries" using laws by (simp add: pouch_laws_def)
  have safe: "chunk_safe addr content entries d w" using ad by (simp add: w chunk_safe_def)
  have untouched: "put_outcome h addr content entries alive e target d r w" if "\<And>a. r \<noteq> Inr (Some a)" for r
    using ad that by (auto simp: put_outcome_def w split: sum.split option.split)
  have chunks: "runs (createEntryChunks h (typed_entry e))
      (\<lambda>r w'. chunk_safe addr content entries d w' \<and>
         (\<forall>cs. r = Inr (Some cs) \<longrightarrow> (\<exists>pieces. eh_split h (typed_entry e) = Some (pieces, False) \<and>
            map addr cs = filter (\<lambda>p. p \<noteq> []) pieces \<and> (\<forall>i\<in>set cs. chunk_stored content (snd w') i)))) w"
    by (rule runs_mono [OF createEntryChunks_settles [OF bulk safe]]) (use hash in \<open>simp_all add: pieces_addressed_def\<close>)
  have body: "runs (bindE (createEntryChunks h (typed_entry e)) (\<lambda>chunks. case chunks of
         None \<Rightarrow> retE None | Some ids \<Rightarrow> writeDocument h target (new_doc (typed_entry e) ids)))
      (put_outcome h addr content entries alive e target d) w"
    unfolding runs_bindE
  proof (rule runs_mono [OF chunks], goal_cases)
    case (1 r w')
    show ?case
    proof (cases "\<exists>cs. r = Inr (Some cs)")
      case True
      then obtain cs where r: "r = Inr (Some cs)" by blast
      with 1 obtain pieces where cs: "eh_split h (typed_entry e) = Some (pieces, False)"
          "map addr cs = filter (\<lambda>p. p \<noteq> []) pieces" "\<forall>i\<in>set cs. chunk_stored content (snd w') i" by blast
      have safe': "chunk_safe addr content entries d w'" using 1 by simp
      have out: "put_outcome h addr content entries alive e target d r'' w''"
        if d: "document_written h content entries alive target (new_doc (typed_entry e) cs) w' r'' w''" for r'' w''
      proof -
        have sc: "same_chunks content (snd w') (snd w'')" and f: "fst w'' = fst w'" using d by (simp_all add: document_written_def)
        have "addressed addr content w''" "grows content d (snd w'')"
          using safe' f same_chunks_addressed [OF sc] same_chunks_stored [OF sc]
          by (simp_all add: addressed_def chunk_safe_def grows_def)
        moreover have "\<forall>j. j \<noteq> sv_id e \<longrightarrow> entries (snd w'') j = entries d j"
          using d safe' by (simp add: document_written_def chunk_safe_def)
        moreover have "entry_stored h addr content e rv (snd w'')" if "stored_as h (new_doc (typed_entry e) cs) rv (snd w'')" for rv
          using cs that same_chunks_stored [OF sc] unfolding entry_stored_def by metis
        ultimately show ?thesis
          using d safe' unfolding put_outcome_def document_written_def chunk_safe_def
          by (simp split: sum.splits option.splits)
      qed
      show ?thesis
        unfolding r sum.case option.case
        by (rule runs_mono [OF writeDocument_settles [OF laws]]) (simp_all add: out)
    next
      case False
      with 1 show ?thesis
        by (auto simp: put_outcome_def chunk_safe_def split: sum.splits option.splits)
    qed
  qed
  have skipped: "put_outcome h addr content entries alive e target d (Inr None) w" by (rule untouched) simp
  have threw: "put_outcome h addr content entries alive e target d (Inl ex) w" for ex by (rule untouched) simp
  have "runs (putDBEntryInternal h e False target) (put_outcome h addr content entries alive e target d) w"
  proof (cases "id2path (sv_id e) (Some (sv_path e)) False")
    case (Inl x)
    with threw show ?thesis by (simp add: putDBEntryInternal_def)
  next
    case id: (Inr filename)
    show ?thesis
    proof (cases "isTargetFile h filename")
      case (Inl x)
      with id threw show ?thesis by (simp add: putDBEntryInternal_def)
    next
      case (Inr isTarget)
      with id body skipped show ?thesis by (cases isTarget) (simp_all add: putDBEntryInternal_def Let_def)
    qed
  qed
  then show ?thesis by (simp add: w)
qed

text \<open>
  The database answers: it takes chunks, finds documents or says that they are missing, and takes a forced document.
  Then an entry whose content can be split is stored.
\<close>

definition answers :: "'d entry_host \<Rightarrow> bool" where
  "answers h \<longleftrightarrow> accepts h \<and>
     (\<forall>i d. \<exists>r d'. eh_get h i None d = (r, d') \<and> (\<forall>ex. r = Inl ex \<longrightarrow> isErrorOfMissingDoc ex)) \<and>
     (\<forall>doc d. \<exists>a d'. eh_put h doc True d = (Inr a, d') \<and> pa_ok a)"

definition forced :: "'d entry_host \<Rightarrow> revision_mode \<Rightarrow> bool" where
  "forced h target \<longleftrightarrow> \<not> insertsRoot h target \<and> (\<forall>base. target \<noteq> LiveBase base)"

lemma runs_conj: "runs m P w \<Longrightarrow> runs m Q w \<Longrightarrow> runs m (\<lambda>r w'. P r w' \<and> Q r w') w"
  by (auto simp: runs_def split: option.splits)

lemma writeDocument_succeeds:
  assumes "answers h" and "forced h target"
  shows "runs (writeDocument h target doc) (\<lambda>r w'. \<exists>a. r = Inr (Some a)) w"
proof -
  obtain c d where w: "w = (c, d)" by (cases w)
  have put: "\<exists>a d'. eh_put h x True d = (Inr a, d') \<and> pa_ok a" for x d using assms(1) by (simp add: answers_def)
  have f: "(case target of LiveBase _ \<Rightarrow> False | _ \<Rightarrow> True) = True" using assms(2) by (cases target) (simp_all add: forced_def)
  have b: "\<exists>x d'. based h target doc (c, d) = Some (Inr x, (c, d'))"
  proof (cases "useLatestRevision h target")
    case True
    obtain r d' where "eh_get h (ed_id doc) None d = (r, d')" "\<forall>ex. r = Inl ex \<longrightarrow> isErrorOfMissingDoc ex"
      using assms(1) unfolding answers_def by blast
    with True show ?thesis
      by (cases r) (simp_all add: based_def catchE_def bindE_def pouch_def retE_def)
  next
    case False
    then show ?thesis by (simp add: based_def retE_def)
  qed
  then obtain x d' where b: "based h target doc (c, d) = Some (Inr x, (c, d'))" by blast
  obtain a d'' where "eh_put h x True d' = (Inr a, d'')" "pa_ok a" using put by blast
  with b f assms(2) show ?thesis
    by (simp add: runs_def w writeDocument_def bindE_def pouch_def retE_def forced_def)
qed

lemma put_succeeds:
  assumes bulk: "bulk_law h content entries" and ad: "addressed addr content w" and hash: "pieces_addressed h addr e"
    and ok: "answers h" "forced h target" "eh_split h (typed_entry e) = Some (pieces, False)"
    and tgt: "id2path (sv_id e) (Some (sv_path e)) False = Inr filename" "isTargetFile h filename = Inr True"
  shows "runs (putDBEntryInternal h e False target) (\<lambda>r w'. \<exists>a. r = Inr (Some a)) w"
proof -
  have safe: "chunk_safe addr content entries (snd w) w" using ad by (simp add: chunk_safe_def)
  have "runs (createEntryChunks h (typed_entry e)) (\<lambda>r w'. \<exists>cs. r = Inr (Some cs)) w"
    by (rule runs_mono [OF createEntryChunks_settles [OF bulk safe]]) (use hash ok in \<open>simp_all add: pieces_addressed_def answers_def\<close>)
  then show ?thesis
    unfolding putDBEntryInternal_def
    by (simp add: tgt Let_def, elim runs_mono) (auto intro: writeDocument_succeeds [OF ok(1,2)])
qed

end
