(* ===== verification/EntryContent.thy ===== *)
theory EntryContent
  imports EntryStore
begin

text \<open>
  Reading entries: what the chunks of an entry answer, whether they come from the cache, from the database or by
  delivery, and with them the round trip of an entry, its binary content in parts and the inspection before it.
\<close>

section \<open>What a read of chunks answers\<close>

text \<open>\<open>next\<close> is only asked for what the database has not.\<close>

lemma db_read_all:
  assumes law: "allDocs_law allDocs content" and ol: "only_leaves (content d) ids"
    and nx: "\<And>xs. xs \<noteq> [] \<Longrightarrow> set xs \<subseteq> {i \<in> set ids. content d i = None} \<Longrightarrow> next xs (c, d) = Some (Inr (map f xs), (c, d))"
  shows "db_read allDocs ids options next (c, d) =
    Some (Inr (map (\<lambda>i. case leaf_of (content d i) of Some l \<Rightarrow> Some l | None \<Rightarrow> f i) ids), (c, d))"
proof -
  let ?m = "content d" and ?rem = "filter (\<lambda>i. content d i = None) ids"
  have idl: "leaf_id l = i" if "?m i = Some (LeafDoc l)" for i l
    using allDocs_lawD(2) [OF law that] .
  obtain rm where sc: "db_scan (map (row_for ?m) ids) [] [] = Inr (rm, ?rem)"
    and rm: "\<And>j. jm_get rm j = (if j \<in> set ids \<and> ?m j \<noteq> None then leaf_of (?m j) else jm_get [] j)"
    using db_scan_rows [OF ol idl, of "[]" "[]"] unfolding append_Nil by blast
  have eq: "jm_get rm j = leaf_of (?m j)" if "j \<in> set ids" for j using that rm by (auto simp: leaf_of_def)
  consider "ids = []" | "ids \<noteq> []" "?rem = []" | "?rem \<noteq> []" by fastforce
  then show ?thesis
  proof cases
    case 1
    then show ?thesis by (simp add: db_read_def retE_def)
  next
    case 2
    have "jm_get rm j = (case leaf_of (?m j) of Some l \<Rightarrow> Some l | None \<Rightarrow> f j)" if "j \<in> set ids" for j
    proof -
      have "leaf_of (?m j) \<noteq> None" using that ol 2(2) unfolding only_leaves_def filter_empty_conv by blast
      with eq [OF that] show ?thesis by auto
    qed
    with 2 show ?thesis by (simp add: db_read_def retE_def allDocs_lawD(1) [OF law] sc cong: map_cong)
  next
    case 3
    then have ne: "ids \<noteq> []" by auto
    have nxt: "next ?rem (c, d) = Some (Inr (map f ?rem), (c, d))" using 3 by (intro nx) auto
    have found: "leaf_of (?m i) \<noteq> None" if "i \<in> set ids" "\<not> ?m i = None" for i
      using ol [unfolded only_leaves_def, rule_format, OF that(1)] that(2) by simp
    have absent: "leaf_of (?m i) = None" if "?m i = None" for i using that by (simp add: leaf_of_def)
    note b = bind_next_map [of "next" ?rem "(c, d)" f "(c, d)" "\<lambda>i. ?m i = None" ids "\<lambda>i. leaf_of (?m i)",
      OF nxt refl found absent]
    show ?thesis using 3 ne b by (simp add: db_read_def allDocs_lawD(1) [OF law] sc eq cong: map_cong)
  qed
qed

text \<open>
  The answer for an identifier: what was preloaded, what the cache has unless it is skipped, the leaf of the
  database, what the delivery brings.
\<close>

definition chunk_answer :: "read_options \<Rightarrow> cache_layer \<Rightarrow> (doc_id \<rightharpoonup> db_doc) \<Rightarrow> (doc_id \<Rightarrow> entry_leaf option) \<Rightarrow> doc_id \<Rightarrow> entry_leaf option" where
  "chunk_answer options c m f i =
     (case if ro_skipCache options then None else cached c i of
        Some l \<Rightarrow> Some l
      | None \<Rightarrow> (case leaf_of (m i) of Some l \<Rightarrow> Some l | None \<Rightarrow> delivered options f i))"

text \<open>The delivery answers for what the database has not, and changes nothing that matters here.\<close>

definition delivers :: "(doc_id list \<Rightarrow> 'd \<Rightarrow> ((doc_id \<Rightarrow> entry_leaf option) \<times> 'd) option) \<Rightarrow> 'd \<Rightarrow> doc_id set \<Rightarrow> (doc_id \<Rightarrow> entry_leaf option) \<Rightarrow> bool" where
  "delivers deliver d missing f \<longleftrightarrow>
     (\<forall>xs. xs \<noteq> [] \<longrightarrow> set xs \<subseteq> missing \<longrightarrow> deliver xs d = Some (f, d)) \<and> (\<forall>i l. f i = Some l \<longrightarrow> leaf_id l = i)"

lemma pipeline_answers:
  assumes ok: "cache_ok c" and law: "allDocs_law allDocs content" and ol: "only_leaves (content d) ids"
    and dl: "delivers deliver d {i \<in> set ids. content d i = None} f"
  shows "\<exists>c'. executeReadPipeline (readLayers allDocs deliver) options ids (c, d) =
    Some (Inr (map (chunk_answer options c (content d) f) ids), (c', d)) \<and>
    cache_ok c' \<and> cached c' = cached c \<and> (cache_bounded c \<longrightarrow> cache_bounded c')"
proof -
  let ?arrival = "executeReadPipeline [arrival_read deliver] options"
  let ?db = "executeReadPipeline [db_read allDocs, arrival_read deliver] options"
  let ?g = "\<lambda>i. case leaf_of (content d i) of Some l \<Rightarrow> Some l | None \<Rightarrow> delivered options f i"
  have arr: "?arrival xs (c', d) = Some (Inr (map (delivered options f) xs), (c', d))"
    if "xs \<noteq> []" "set xs \<subseteq> {i \<in> set ids. content d i = None}" for xs c'
    using that dl by (simp add: arrival_read_eq delivered_def [abs_def] delivers_def)
  have db: "?db xs (c', d) = Some (Inr (map ?g xs), (c', d))" if "set xs \<subseteq> set ids" for xs c'
  proof -
    have "?arrival ys (c', d) = Some (Inr (map (delivered options f) ys), (c', d))"
      if "ys \<noteq> []" "set ys \<subseteq> {i \<in> set xs. content d i = None}" for ys
      by (rule arr) (use that \<open>set xs \<subseteq> set ids\<close> in auto)
    from db_read_all [OF law only_leaves_subset [OF ol that], of ?arrival c' "delivered options f" options, OF this]
    show ?thesis by simp
  qed
  show ?thesis
  proof (cases "ro_skipCache options")
    case True
    with db [of ids c] ok show ?thesis
      by (simp add: readLayers_def cache_read_def chunk_answer_def [abs_def])
  next
    case False
    obtain c' where c': "cache_ok c'" "cached c' = cached c" "cache_bounded c \<longrightarrow> cache_bounded c'"
      and eq: "cache_read ids options ?db (c, d) =
        (let remaining = filter (\<lambda>i. cached c i = None) ids
         in if remaining = [] then Some (Inr (map (cached c) ids), (c', d))
            else bindE (?db remaining) (\<lambda>rs. retE (map (\<lambda>i. case cached c i of Some l \<Rightarrow> Some l
                   | None \<Rightarrow> pair_results remaining rs i) ids)) (c', d))"
      by (rule cache_read_unfold [OF ok False, of ids ?db d])
    show ?thesis
    proof (cases "filter (\<lambda>i. cached c i = None) ids = []")
      case True
      then have "cached c i = chunk_answer options c (content d) f i" if "i \<in> set ids" for i
        using that False by (auto simp: filter_empty_conv chunk_answer_def)
      with True c' eq show ?thesis by (intro exI [of _ c']) (simp add: readLayers_def cong: map_cong)
    next
      case rem: False
      have "?db (filter (\<lambda>i. cached c i = None) ids) (c', d) = Some (Inr (map ?g (filter (\<lambda>i. cached c i = None) ids)), (c', d))"
        by (rule db) auto
      from bind_next_map [of ?db "filter (\<lambda>i. cached c i = None) ids" "(c', d)" ?g "(c', d)" "\<lambda>i. cached c i = None" ids "cached c", OF this refl]
        rem c' eq False
      show ?thesis by (intro exI [of _ c']) (simp add: readLayers_def chunk_answer_def [abs_def])
    qed
  qed
qed

lemma delivers_mono: "delivers deliver d A f \<Longrightarrow> B \<subseteq> A \<Longrightarrow> delivers deliver d B f"
  unfolding delivers_def by blast

text \<open>The chunks that are preloaded: an answer of their own, and in the cache.\<close>

definition eden_answer :: "(string \<times> string) list \<Rightarrow> doc_id \<Rightarrow> entry_leaf option" where
  "eden_answer eden i = map_option (chunk_leaf i) (map_of eden i)"

lemma preload_leaves:
  assumes "cache_ok c" and "cache_bounded c" and "[] \<notin> fst ` set eden" and "distinct (map fst eden)"
  shows "\<exists>c' rm'. preload (map (\<lambda>(i, x). (i, LeafDoc (chunk_leaf i x))) eden) c rm ids =
      Some (c', rm', filter (\<lambda>j. j \<notin> fst ` set eden) ids) \<and> cache_ok c' \<and> cache_bounded c' \<and> (eden = [] \<longrightarrow> c' = c) \<and>
    (\<forall>j. jm_get rm' j = (case eden_answer eden j of Some l \<Rightarrow> Some (Some l) | None \<Rightarrow> jm_get rm j))"
  using assms
proof (induction eden arbitrary: c rm ids)
  case Nil
  then show ?case by (simp add: eden_answer_def)
next
  case (Cons e eden)
  obtain i x where e: "e = (i, x)" by (cases e)
  have ne: "leaf_id (chunk_leaf i x) \<noteq> []" using Cons.prems(3) e by (auto simp: chunk_leaf_def)
  obtain c1 where c1: "cacheChunk (chunk_leaf i x) c = Some c1" "cache_ok c1" "cache_bounded c1"
    using cacheChunk_spec [OF Cons.prems(1,2) ne] by blast
  have "[] \<notin> fst ` set eden" "distinct (map fst eden)" using Cons.prems(3,4) by auto
  from Cons.IH [where rm = "jm_set i (Some (chunk_leaf i x)) rm" and ids = "filter (\<lambda>j. j \<noteq> i) ids", OF c1(2,3) this]
  obtain c' rm' where IH: "preload (map (\<lambda>(i, x). (i, LeafDoc (chunk_leaf i x))) eden) c1 (jm_set i (Some (chunk_leaf i x)) rm)
        (filter (\<lambda>j. j \<noteq> i) ids) = Some (c', rm', filter (\<lambda>j. j \<notin> fst ` set eden) (filter (\<lambda>j. j \<noteq> i) ids))"
    and ok: "cache_ok c'" "cache_bounded c'"
    and get: "\<And>j. jm_get rm' j = (case eden_answer eden j of Some l \<Rightarrow> Some (Some l)
        | None \<Rightarrow> jm_get (jm_set i (Some (chunk_leaf i x)) rm) j)" by auto
  have new: "map_of eden i = None" using Cons.prems(4) e by (simp add: map_of_eq_None_iff)
  have "jm_get rm' j = (case eden_answer (e # eden) j of Some l \<Rightarrow> Some (Some l) | None \<Rightarrow> jm_get rm j)" for j
    using get [of j] new e by (auto simp: eden_answer_def split: option.splits)
  moreover have "filter (\<lambda>j. j \<notin> fst ` set eden) (filter (\<lambda>j. j \<noteq> i) ids) = filter (\<lambda>j. j \<notin> fst ` set (e # eden)) ids"
    using e by (simp add: conj_commute)
  ultimately show ?case using c1(1) IH ok e by simp
qed

definition full_answer :: "read_options \<Rightarrow> (string \<times> string) list \<Rightarrow> cache_layer \<Rightarrow> (doc_id \<rightharpoonup> db_doc) \<Rightarrow> (doc_id \<Rightarrow> entry_leaf option) \<Rightarrow>
    doc_id \<Rightarrow> entry_leaf option" where
  "full_answer options eden c m f i = (case eden_answer eden i of Some l \<Rightarrow> Some l | None \<Rightarrow> chunk_answer options c m f i)"

lemma chunk_answer_id:
  assumes "cache_ok c" and "allDocs_law allDocs content" and "\<And>i l. f i = Some l \<Longrightarrow> leaf_id l = i"
  shows "id_matches i (chunk_answer options c (content d) f i)"
  using cache_ok_id [OF assms(1), of i] allDocs_lawD(2) [OF assms(2), of d i] assms(3) [of i]
  by (auto simp: chunk_answer_def id_matches_def leaf_of_def delivered_def split: option.splits db_doc.splits if_splits)

lemma readChunks_answers:
  assumes ok: "cache_ok c" "cache_bounded c" and law: "allDocs_law (eh_allDocs h) content" and ol: "only_leaves (content d) ids"
    and dl: "delivers (eh_deliver h options) d {i \<in> set ids. content d i = None} f"
    and eden: "[] \<notin> fst ` set eden" "distinct (map fst eden)"
  shows "\<exists>c1 c'. readChunks h ids options eden (c, d) = Some (Inr (map (full_answer options eden c1 (content d) f) ids), (c', d)) \<and>
    cache_ok c' \<and> cache_bounded c' \<and> (eden = [] \<longrightarrow> c1 = c)"
proof -
  let ?rm = "foldl (\<lambda>m i. jm_set i (None :: entry_leaf option) m) [] ids"
  let ?ks = "js_unique (jm_keys ?rm)" and ?pre = "map (\<lambda>(i, x). (i, LeafDoc (chunk_leaf i x))) eden"
  let ?js = "filter (\<lambda>j. j \<notin> fst ` set eden) ?ks"
  have ks: "set ?ks = set ids" by (simp only: set_js_unique init_result_keys) simp
  obtain c1 rm1 where p: "preload ?pre c ?rm ?ks = Some (c1, rm1, ?js)" and c1: "cache_ok c1" "cache_bounded c1" "eden = [] \<longrightarrow> c1 = c"
    and get: "\<And>j. jm_get rm1 j = (case eden_answer eden j of Some l \<Rightarrow> Some (Some l) | None \<Rightarrow> jm_get ?rm j)"
    using preload_leaves [where rm = ?rm and ids = ?ks, OF ok eden] by blast
  let ?g = "chunk_answer options c1 (content d) f"
  have js: "set ?js \<subseteq> set ids" using ks by auto
  have own: "f i = Some l \<Longrightarrow> leaf_id l = i" for i l using dl unfolding delivers_def by blast
  have dl': "delivers (eh_deliver h options) d {i \<in> set ?js. content d i = None} f"
    by (rule delivers_mono [OF dl]) (use js in auto)
  obtain c' where c': "executeReadPipeline (readLayers (eh_allDocs h) (eh_deliver h options)) options ?js (c1, d) = Some (Inr (map ?g ?js), (c', d))"
      "cache_ok c'" "cache_bounded c'"
    using pipeline_answers [OF c1(1) law only_leaves_subset [OF ol js] dl'] c1(2) by blast
  have out: "map_or_false (merge_results (map ?g ?js) rm1) i = full_answer options eden c1 (content d) f i" if "i \<in> set ids" for i
  proof -
    have m: "jm_get (merge_results (map ?g ?js) rm1) i = (if i \<in> set ?js \<and> ?g i \<noteq> None then Some (?g i) else jm_get rm1 i)"
      by (rule merge_results_map) (use chunk_answer_id [OF c1(1) law own] in simp_all)
    have "eden_answer eden i \<noteq> None \<longleftrightarrow> i \<in> fst ` set eden"
      using map_of_eq_None_iff [of eden i] by (auto simp: eden_answer_def)
    with m get [of i] that ks show ?thesis
      by (auto simp: map_or_false_def full_answer_def init_result_map split: option.splits)
  qed
  have "manager_read (eh_allDocs h) (eh_deliver h options) ids options ?pre (c, d) =
      Some (Inr (map (map_or_false (merge_results (map ?g ?js) rm1)) ids), (c', d))"
    by (simp only: manager_read_def Let_def prod.case p option.case bindE_def c' sum.case retE_def)
  with out c' c1(3) show ?thesis
    by (intro exI [of _ c1] exI [of _ c']) (simp add: readChunks_def liftE_def cong: map_cong)
qed

section \<open>The round trip of an entry\<close>

text \<open>The chunks of an entry that are stored are all answered, with the texts they stand for.\<close>

lemma stored_chunks_read:
  assumes laws: "pouch_laws h content entries alive" and ad: "addressed addr content (c, d)"
    and stored: "\<forall>i\<in>set ids. chunk_stored content d i"
  shows "\<exists>ls w'. readChunks h ids options [] (c, d) = Some (Inr (map Some ls), w') \<and> map leaf_data ls = map addr ids"
proof -
  have law: "allDocs_law (eh_allDocs h) content" using laws by (simp add: pouch_laws_def)
  have leaf: "\<exists>l. content d i = Some (LeafDoc l) \<and> leaf_data l = addr i" if "i \<in> set ids" for i
    using stored that chunks_addressedD [of addr "content d" i] ad by (auto simp: chunk_stored_def)
  have ne: "i \<noteq> []" if "i \<in> set ids" for i using stored that by (auto simp: chunk_stored_def)
  have ol: "only_leaves (content d) ids" using leaf ne by (fastforce simp: only_leaves_def leaf_of_def)
  have "delivers (eh_deliver h options) d {} (\<lambda>_. None)" by (simp add: delivers_def)
  then have dl: "delivers (eh_deliver h options) d {i \<in> set ids. content d i = None} (\<lambda>_. None)"
    by (rule delivers_mono) (use leaf in auto)
  have ok: "cache_ok c" "cache_bounded c" using ad by (simp_all add: cache_addressed_def)
  obtain c1 c' where r: "readChunks h ids options [] (c, d) = Some (Inr (map (full_answer options [] c1 (content d) (\<lambda>_. None)) ids), (c', d))"
    and c1: "c1 = c"
    using readChunks_answers [where options = options and eden = "[]", OF ok law ol dl] by auto
  let ?f = "full_answer options [] c (content d) (\<lambda>_. None)"
  have ans: "\<exists>l. ?f i = Some l \<and> leaf_data l = addr i" if "i \<in> set ids" for i
    using leaf [OF that] ad
    by (auto simp: full_answer_def eden_answer_def chunk_answer_def leaf_of_def cache_addressed_def split: option.split)
  have "map ?f ids = map Some (map (the \<circ> ?f) ids)" "map leaf_data (map (the \<circ> ?f) ids) = map addr ids"
    using ans by fastforce+
  with r c1 show ?thesis by metis
qed

lemma map_filter_Some [simp]: "List.map_filter id (map Some xs) = xs"
  by (induction xs) (simp_all add: List.map_filter_def)

lemma none_missing [simp]: "list_ex (\<lambda>e. e = None) (map Some xs) = False"
  by (simp add: list_ex_iff)

lemma respond_stored:
  assumes "pouch_laws h content entries alive" and "addressed addr content (c, d)"
    and "\<forall>i\<in>set (ed_children meta). chunk_stored content d i" and "eden_of meta = []"
  shows "\<exists>ls w'. respondEntryFromMeta h meta False waitForReady (c, d) = Some (Inr (Some (loaded_entry_of meta ls)), w') \<and>
    map leaf_data ls = map addr (ed_children meta)"
proof -
  obtain ls w' where "readChunks h (ed_children meta) (chunk_options h False waitForReady) [] (c, d) = Some (Inr (map Some ls), w')"
    and "map leaf_data ls = map addr (ed_children meta)"
    using stored_chunks_read [OF assms(1-3)] by blast
  with assms(4) show ?thesis
    by (intro exI [of _ ls] exI [of _ w']) (simp add: respondEntryFromMeta_def catchE_def bindE_def retE_def)
qed

text \<open>A path of the vault: no prefix, as the path service writes it, and a target of the synchronisation.\<close>

definition vault_path :: "'d entry_host \<Rightarrow> string \<Rightarrow> bool" where
  "vault_path h p \<longleftrightarrow> CHR '':'' \<notin> set p \<and> \<not> starts_with p ''/'' \<and> normalizePath p = p \<and> p \<noteq> [] \<and> isTargetFile h p = Inr True"

lemma vault_path_id:
  assumes "vault_path h p"
  shows "id2path (path2id (eh_sha h) settings p []) (Some p) False = Inr p"
proof -
  have "entry_getPath (sample_entry (path2id (eh_sha h) settings p []) p 0 0) = Inr p"
    using assms by (intro entry_getPath_plain) (simp_all add: vault_path_def sample_entry_def)
  then show ?thesis by (simp add: entry_getPath_def sample_entry_def)
qed

text \<open>
  An entry that was stored is read back: asked for by its path and the revision that the put answered, it has the
  pieces of its content as data, under the same path, with the same times and size.
\<close>

lemma stored_entry_read:
  assumes laws: "pouch_laws h content entries alive" and ad: "addressed addr content (c, d)"
    and st: "entry_stored h addr content e rv d" and p: "vault_path h (sv_path e)"
    and i: "sv_id e = path2id (eh_sha h) (es_paths (eh_settings h)) (sv_path e) []"
  shows "\<exists>pieces doc w'. eh_split h (typed_entry e) = Some (pieces, False) \<and>
    getDBEntryByPath h (sv_path e) (Some (rev_options (Some rv))) False waitForReady False (c, d) = Some (Inr (Some doc), w') \<and>
    ed_data doc = Some (Pieces (filter (\<lambda>p. p \<noteq> []) pieces)) \<and> ed_path doc = sv_path e \<and> ed_rev doc = Some rv \<and>
    ed_mtime doc = sv_mtime e \<and> ed_ctime doc = sv_ctime e \<and> ed_size doc = sv_size e \<and>
    ed_type doc = sv_type (typed_entry e)"
proof -
  obtain pieces cs where sp: "eh_split h (typed_entry e) = Some (pieces, False)" and cs: "map addr cs = filter (\<lambda>p. p \<noteq> []) pieces"
      "\<forall>i\<in>set cs. chunk_stored content d i"
    and sa: "stored_as h (new_doc (typed_entry e) cs) rv d" using st unfolding entry_stored_def by blast
  let ?doc = "(new_doc (typed_entry e) cs)\<lparr>ed_rev := Some rv\<rparr>"
  let ?meta = "loaded_meta (sv_path e) ?doc"
  have get: "eh_get h (sv_id e) (Some (rev_options (Some rv))) d = (Inr ?doc, d)"
    using sa laws unfolding pouch_laws_def get_law_def stored_as_def
    by (metis fst_conv new_doc_simps(3) prod.collapse typed_entry_simps(1))
  have chunked: "has_chunks ?doc" by (simp add: has_chunks_def)
  have tgt: "isTargetFile h (sv_path e) = Inr True" using p by (simp add: vault_path_def)
  have meta: "getDBEntryMetaByPath h (sv_path e) (Some (rev_options (Some rv))) False (c, d) = Some (Inr (Some ?meta), (c, d))"
    using get chunked i tgt
    by (simp add: getDBEntryMetaByPath_def bindE_def catchE_def ofSum_def retE_def pouch_def first_flag_def has_chunks_def)
  have m: "ed_children ?meta = cs" "eden_of ?meta = []" "ed_id ?meta = sv_id e" "ed_path ?meta = sv_path e" "has_chunks ?meta"
      "\<not> isLegacyNote ?meta"
    using chunked by (simp_all add: loaded_meta_def eden_of_def Let_def has_chunks_def isLegacyNote_def)
  have "meta_filename ?meta = Inr (sv_path e)"
    using vault_path_id [OF p] m i by (simp add: meta_filename_def)
  then have "getDBEntryFromMeta h ?meta False waitForReady (c, d) = respondEntryFromMeta h ?meta False waitForReady (c, d)"
    using m tgt by (simp add: getDBEntryFromMeta_def bindE_def ofSum_def retE_def)
  moreover obtain ls w' where "respondEntryFromMeta h ?meta False waitForReady (c, d) = Some (Inr (Some (loaded_entry_of ?meta ls)), w')"
      "map leaf_data ls = map addr cs"
    using respond_stored [where meta = ?meta and waitForReady = waitForReady, OF laws ad] m cs by auto
  ultimately show ?thesis
    using sp meta cs chunked
    by (intro exI [of _ pieces] exI [of _ "loaded_entry_of ?meta ls"] exI [of _ w'])
       (simp add: getDBEntryByPath_def bindE_def loaded_entry_of_def loaded_meta_def Let_def has_chunks_def)
qed

lemma concat_nonempty: "concat (filter (\<lambda>p. p \<noteq> []) ps) = concat ps"
  by (induction ps) auto



end
