(* ===== verification/EntryParts.thy ===== *)
theory EntryParts
  imports EntryContent
begin

text \<open>
  Binary entries read in parts: the parts hold exactly the decoded content when its length is the recorded one, none
  is much longer than the limit, and the inspection, which decodes nothing, foretells whether the parts can be read.
\<close>

section \<open>Batches\<close>

lemma batches_simps [simp]: "batches n [] = []" "0 < n \<Longrightarrow> xs \<noteq> [] \<Longrightarrow> batches n xs = take n xs # batches n (drop n xs)"
  by (simp_all add: batches.simps)

lemma concat_batches: "0 < n \<Longrightarrow> concat (batches n xs) = xs"
  by (induction n xs rule: batches.induct) (metis append_take_drop_id batches_simps concat.simps neq0_conv)

lemma preloaded_answer:
  assumes "distinct (map fst eden)" and "i \<in> set ids"
  shows "eden_answer (preloaded eden ids) i = eden_answer eden i"
proof -
  have r: "map_of (rev eden) = map_of eden"
    using assms(1) by (intro map_of_inject_set [THEN iffD2]) (simp_all add: rev_map [symmetric])
  have "map_of (List.map_filter (\<lambda>i. map_option (\<lambda>x. (i, x)) (map_of eden i)) is) i =
      (if i \<in> set is then map_of eden i else None)" for "is"
    by (induction "is") (auto simp: List.map_filter_def split: option.splits)
  with assms(2) r show ?thesis by (simp add: eden_answer_def preloaded_def)
qed

lemma preloaded_keys:
  assumes "[] \<notin> fst ` set eden"
  shows "[] \<notin> fst ` set (preloaded eden ids)" and "distinct (map fst (preloaded eden ids))"
proof -
  have keys: "map fst (List.map_filter (\<lambda>i. map_option (\<lambda>x. (i, x)) (f i)) is) = filter (\<lambda>i. f i \<noteq> None) is" for f :: "string \<Rightarrow> string option" and "is"
    by (induction "is") (auto simp: List.map_filter_def split: option.splits)
  have "i \<in> fst ` set eden" if "map_of (rev eden) i \<noteq> None" for i
    using that map_of_eq_None_iff [of "rev eden" i] by auto
  moreover have "fst ` set (preloaded eden ids) \<subseteq> {i. map_of (rev eden) i \<noteq> None}"
    using arg_cong [OF keys [of "map_of (rev eden)" "js_unique ids"], of set] by (auto simp: preloaded_def)
  ultimately show "[] \<notin> fst ` set (preloaded eden ids)" using assms by blast
  show "distinct (map fst (preloaded eden ids))" by (simp add: preloaded_def keys)
qed

section \<open>What the chunks of an entry answer\<close>

text \<open>Its embedded chunks, the leaves of the database, the delivery: the cache is not asked.\<close>

definition part_answer :: "read_options \<Rightarrow> (string \<times> string) list \<Rightarrow> (doc_id \<rightharpoonup> db_doc) \<Rightarrow> (doc_id \<Rightarrow> entry_leaf option) \<Rightarrow> doc_id \<Rightarrow> entry_leaf option" where
  "part_answer options eden m f i =
     (case eden_answer eden i of
        Some l \<Rightarrow> Some l
      | None \<Rightarrow> (case leaf_of (m i) of Some l \<Rightarrow> Some l | None \<Rightarrow> delivered options f i))"

text \<open>The chunks of an entry can be read: the database holds only leaves under their identifiers, the delivery answers.\<close>

definition readable :: "'d entry_host \<Rightarrow> ('d \<Rightarrow> doc_id \<rightharpoonup> db_doc) \<Rightarrow> read_options \<Rightarrow> entry_doc \<Rightarrow> (doc_id \<Rightarrow> entry_leaf option) \<Rightarrow> 'd \<Rightarrow> bool" where
  "readable h content options meta f d \<longleftrightarrow>
     allDocs_law (eh_allDocs h) content \<and> only_leaves (content d) (ed_children meta) \<and>
     delivers (eh_deliver h options) d {i \<in> set (ed_children meta). content d i = None} f \<and>
     [] \<notin> fst ` set (eden_of meta) \<and> distinct (map fst (eden_of meta))"

definition cache_fine :: "cache_layer \<times> 'd \<Rightarrow> 'd \<Rightarrow> bool" where
  "cache_fine w d \<longleftrightarrow> cache_ok (fst w) \<and> cache_bounded (fst w) \<and> snd w = d"

lemma batch_read:
  assumes "readable h content options meta f d" and "cache_fine w d" and "set ids \<subseteq> set (ed_children meta)" and "ro_skipCache options"
  shows "\<exists>w'. readChunks h ids options (preloaded (eden_of meta) ids) w =
      Some (Inr (map (part_answer options (eden_of meta) (content d) f) ids), w') \<and> cache_fine w' d"
proof -
  obtain c where w: "w = (c, d)" and c: "cache_ok c" "cache_bounded c" using assms(2) by (cases w) (simp add: cache_fine_def)
  have law: "allDocs_law (eh_allDocs h) content" and ol: "only_leaves (content d) ids"
    and ed: "[] \<notin> fst ` set (eden_of meta)" "distinct (map fst (eden_of meta))"
    using assms(1,3) by (auto simp: readable_def only_leaves_def)
  have dl: "delivers (eh_deliver h options) d {i \<in> set ids. content d i = None} f"
    by (rule delivers_mono [of _ _ "{i \<in> set (ed_children meta). content d i = None}"])
       (use assms(1,3) in \<open>auto simp: readable_def\<close>)
  obtain c1 c' where r: "readChunks h ids options (preloaded (eden_of meta) ids) (c, d) =
      Some (Inr (map (full_answer options (preloaded (eden_of meta) ids) c1 (content d) f) ids), (c', d))" "cache_ok c'" "cache_bounded c'"
    using readChunks_answers [OF c law ol dl preloaded_keys [OF ed(1)]] by blast
  have "full_answer options (preloaded (eden_of meta) ids) c1 (content d) f i = part_answer options (eden_of meta) (content d) f i"
    if "i \<in> set ids" for i
    using preloaded_answer [OF ed(2) that] assms(4)
    by (simp add: full_answer_def part_answer_def chunk_answer_def split: option.split)
  with r show ?thesis by (intro exI [of _ "(c', d)"]) (simp add: w cache_fine_def cong: map_cong)
qed

text \<open>The loop over the batches with what the chunks answer, and that of the inspection.\<close>

fun parts_of :: "(string \<Rightarrow> string) \<Rightarrow> int \<Rightarrow> (doc_id \<Rightarrow> entry_leaf option) \<Rightarrow> string list list \<Rightarrow> part_state \<Rightarrow> part_state \<times> entry_error option" where
  "parts_of decode size' ans [] s = (s, None)"
| "parts_of decode size' ans (ids # rest) s =
     (if \<exists>i\<in>set ids. ans i = None then (s, Some LoadFailed)
      else (case gather decode size' (map (the \<circ> ans) ids) s of
              (s', Some ex) \<Rightarrow> (s', Some ex)
            | (s', None) \<Rightarrow> parts_of decode size' ans rest s'))"

fun availability_of :: "int \<Rightarrow> (doc_id \<Rightarrow> entry_leaf option) \<Rightarrow> string list list \<Rightarrow> int \<Rightarrow> content_availability" where
  "availability_of size' ans [] n = (if n = size' then IsStreamable else IsUnsupported)"
| "availability_of size' ans (ids # rest) n =
     (if \<exists>i\<in>set ids. ans i = None then IsMissing
      else (case measure_chunks size' (map (the \<circ> ans) ids) n of
              None \<Rightarrow> IsUnsupported
            | Some n' \<Rightarrow> availability_of size' ans rest n'))"

lemma answered:
  "list_ex (\<lambda>e. e = None) (map ans ids) \<longleftrightarrow> (\<exists>i\<in>set ids. ans i = None)"
  "\<not> (\<exists>i\<in>set ids. ans i = None) \<Longrightarrow> List.map_filter id (map ans ids) = map (the \<circ> ans) ids"
  by (force simp: list_ex_iff) (induction ids, auto simp: List.map_filter_def)

lemma part_loop_eq:
  assumes rd: "readable h content options meta f d" and sk: "ro_skipCache options"
    and "set (concat bs) \<subseteq> set (ed_children meta)" and "cache_fine w d"
  shows "\<exists>w'. part_loop h size' options (eden_of meta) bs s w =
      Some (Inr (parts_of (eh_decode h) size' (part_answer options (eden_of meta) (content d) f) bs s), w') \<and> cache_fine w' d"
  using assms(3,4)
proof (induction bs arbitrary: s w)
  case Nil
  then show ?case by (simp add: retE_def)
next
  case (Cons ids rest)
  let ?ans = "part_answer options (eden_of meta) (content d) f"
  have sub: "set ids \<subseteq> set (ed_children meta)" "set (concat rest) \<subseteq> set (ed_children meta)" using Cons.prems(1) by simp_all
  obtain w' where w': "readChunks h ids options (preloaded (eden_of meta) ids) w = Some (Inr (map ?ans ids), w')" "cache_fine w' d"
    using batch_read [OF rd Cons.prems(2) sub(1) sk] by blast
  show ?case
  proof (cases "\<exists>i\<in>set ids. ?ans i = None")
    case True
    with w' show ?thesis by (simp add: bindE_def catchE_def retE_def answered(1))
  next
    case False
    obtain s' ex where g: "gather (eh_decode h) size' (map (the \<circ> ?ans) ids) s = (s', ex)"
      by (cases "gather (eh_decode h) size' (map (the \<circ> ?ans) ids) s")
    with w' False Cons.IH [OF sub(2) w'(2), of s'] show ?thesis
      by (cases ex) (simp_all add: bindE_def catchE_def retE_def answered del: map_map split_paired_Ex not_None_eq)
  qed
qed

lemma inspect_loop_eq:
  assumes rd: "readable h content options meta f d" and sk: "ro_skipCache options"
    and "set (concat bs) \<subseteq> set (ed_children meta)" and "cache_fine w d"
  shows "\<exists>w'. inspect_loop h size' options (eden_of meta) bs n w =
      Some (Inr (availability_of size' (part_answer options (eden_of meta) (content d) f) bs n), w') \<and> cache_fine w' d"
  using assms(3,4)
proof (induction bs arbitrary: n w)
  case Nil
  then show ?case by (simp add: retE_def)
next
  case (Cons ids rest)
  let ?ans = "part_answer options (eden_of meta) (content d) f"
  have sub: "set ids \<subseteq> set (ed_children meta)" "set (concat rest) \<subseteq> set (ed_children meta)" using Cons.prems(1) by simp_all
  obtain w' where w': "readChunks h ids options (preloaded (eden_of meta) ids) w = Some (Inr (map ?ans ids), w')" "cache_fine w' d"
    using batch_read [OF rd Cons.prems(2) sub(1) sk] by blast
  show ?case
  proof (cases "\<exists>i\<in>set ids. ?ans i = None")
    case True
    with w' show ?thesis by (simp add: bindE_def retE_def answered(1))
  next
    case False
    with w' Cons.IH [OF sub(2) w'(2)] show ?thesis
      by (cases "measure_chunks size' (map (the \<circ> ?ans) ids) n") (simp_all add: bindE_def retE_def answered del: map_map split_paired_Ex not_None_eq)
  qed
qed

section \<open>Gathering parts\<close>

definition gathered :: "part_state \<Rightarrow> string \<Rightarrow> bool" where
  "gathered s bytes \<longleftrightarrow>
     concat (pt_parts s) @ concat (pt_buffered s) = bytes \<and> pt_bufferedSize s = length (concat (pt_buffered s)) \<and>
     pt_bufferedSize s < BINARY_CONTENT_PART_BYTES \<and> pt_decodedSize s = length bytes"

definition bounded_parts :: "nat \<Rightarrow> part_state \<Rightarrow> bool" where
  "bounded_parts m s \<longleftrightarrow>
     (\<forall>p\<in>set (pt_parts s). BINARY_CONTENT_PART_BYTES \<le> length p \<and> length p < BINARY_CONTENT_PART_BYTES + m)"

definition legacy_encoded :: "entry_leaf \<Rightarrow> bool" where
  "legacy_encoded chunk \<longleftrightarrow> starts_with (leaf_data chunk) ''%''"

definition decoded :: "(string \<Rightarrow> string) \<Rightarrow> entry_leaf list \<Rightarrow> string" where
  "decoded decode chunks = concat (map (\<lambda>ch. decode (leaf_data ch)) chunks)"

lemma decoded_simps [simp]: "decoded decode [] = []" "decoded decode (ch # chunks) = decode (leaf_data ch) @ decoded decode chunks"
  "decoded decode (xs @ ys) = decoded decode xs @ decoded decode ys"
  by (simp_all add: decoded_def)

fun refuses :: "entry_error \<Rightarrow> bool" where
  "refuses UnsupportedBinaryContent = True"
| "refuses (BinaryContentSizeMismatch n) = True"
| "refuses _ = False"

text \<open>
  The chunks are gathered to the end exactly when none has the legacy encoding and they stay within the recorded size.
\<close>

definition gather_outcome :: "(string \<Rightarrow> string) \<Rightarrow> int \<Rightarrow> nat \<Rightarrow> string \<Rightarrow> entry_leaf list \<Rightarrow> part_state \<times> entry_error option \<Rightarrow> bool" where
  "gather_outcome decode size' m bytes chunks out \<longleftrightarrow>
     bounded_parts m (fst out) \<and>
     (case snd out of
        None \<Rightarrow> gathered (fst out) (bytes @ decoded decode chunks) \<and> \<not> list_ex legacy_encoded chunks \<and>
          int (length (bytes @ decoded decode chunks)) \<le> size'
      | Some ex \<Rightarrow> refuses ex \<and> (list_ex legacy_encoded chunks \<or> size' < int (length (bytes @ decoded decode chunks))))"

lemma gather_outcome_step:
  "gather_outcome decode size' m (bytes @ decode (leaf_data ch)) chunks out \<Longrightarrow> \<not> legacy_encoded ch \<Longrightarrow>
    gather_outcome decode size' m bytes (ch # chunks) out"
  by (auto simp: gather_outcome_def add.assoc split: option.splits)

lemma gather_spec:
  assumes "gathered s bytes" and "bounded_parts m s" and "int (length bytes) \<le> size'"
    and "\<forall>ch\<in>set chunks. length (decode (leaf_data ch)) \<le> m"
  shows "gather_outcome decode size' m bytes chunks (gather decode size' chunks s)"
  using assms
proof (induction chunks arbitrary: s bytes)
  case Nil
  then show ?case by (simp add: gather_outcome_def)
next
  case (Cons ch chunks)
  let ?b = "decode (leaf_data ch)"
  have n: "pt_decodedSize s = length bytes" using Cons.prems(1) by (simp add: gathered_def)
  consider (legacy) "legacy_encoded ch" | (big) "\<not> legacy_encoded ch" "size' < int (length bytes + length ?b)"
    | (fits) "\<not> legacy_encoded ch" "int (length bytes + length ?b) \<le> size'" by linarith
  then show ?case
  proof cases
    case legacy
    with Cons.prems(2) show ?thesis by (simp add: gather_outcome_def legacy_encoded_def)
  next
    case big
    with Cons.prems(2) n show ?thesis
      by (simp add: gather_outcome_def legacy_encoded_def Let_def bounded_parts_def)
  next
    case fits
    let ?s = "if pt_bufferedSize s + length ?b \<ge> BINARY_CONTENT_PART_BYTES
      then \<lparr>pt_buffered = [], pt_bufferedSize = 0, pt_decodedSize = length bytes + length ?b, pt_parts = pt_parts s @ [concat (pt_buffered s @ [?b])]\<rparr>
      else s\<lparr>pt_buffered := pt_buffered s @ [?b], pt_bufferedSize := pt_bufferedSize s + length ?b, pt_decodedSize := length bytes + length ?b\<rparr>"
    have g: "gather decode size' (ch # chunks) s = gather decode size' chunks ?s"
      using fits n by (simp add: legacy_encoded_def Let_def)
    have s: "gathered ?s (bytes @ ?b)"
      using Cons.prems(1) by (auto simp: gathered_def BINARY_CONTENT_PART_BYTES_def)
    have b: "bounded_parts m ?s"
      using Cons.prems(1,2,4) by (auto simp: bounded_parts_def gathered_def)
    have "gather_outcome decode size' m (bytes @ ?b) chunks (gather decode size' chunks ?s)"
      by (rule Cons.IH [OF s b]) (use fits Cons.prems(4) in simp_all)
    then show ?thesis unfolding g by (rule gather_outcome_step) (rule fits(1))
  qed
qed

definition all_answered :: "(doc_id \<Rightarrow> entry_leaf option) \<Rightarrow> string list \<Rightarrow> bool" where
  "all_answered ans ids \<longleftrightarrow> (\<forall>i\<in>set ids. ans i \<noteq> None)"

definition leaves_of :: "(doc_id \<Rightarrow> entry_leaf option) \<Rightarrow> string list \<Rightarrow> entry_leaf list" where
  "leaves_of ans ids = map (the \<circ> ans) ids"

text \<open>The parts of an entry are read to the end exactly when, besides, all its chunks are answered.\<close>

definition parts_outcome :: "(string \<Rightarrow> string) \<Rightarrow> int \<Rightarrow> (doc_id \<Rightarrow> entry_leaf option) \<Rightarrow> nat \<Rightarrow> string \<Rightarrow> string list \<Rightarrow>
    part_state \<times> entry_error option \<Rightarrow> bool" where
  "parts_outcome decode size' ans m bytes ids out \<longleftrightarrow>
     bounded_parts m (fst out) \<and>
     (case snd out of
        None \<Rightarrow> gathered (fst out) (bytes @ decoded decode (leaves_of ans ids)) \<and> all_answered ans ids \<and>
          \<not> list_ex legacy_encoded (leaves_of ans ids)
      | Some ex \<Rightarrow> \<not> all_answered ans ids \<or> list_ex legacy_encoded (leaves_of ans ids) \<or>
          size' < int (length (bytes @ decoded decode (leaves_of ans ids))))"

lemma parts_of_spec:
  assumes "gathered s bytes" and "bounded_parts m s" and "int (length bytes) \<le> size'"
    and "\<forall>i\<in>set (concat bs). \<forall>l. ans i = Some l \<longrightarrow> length (decode (leaf_data l)) \<le> m"
  shows "parts_outcome decode size' ans m bytes (concat bs) (parts_of decode size' ans bs s)"
  using assms
proof (induction bs arbitrary: s bytes)
  case Nil
  then show ?case by (simp add: parts_outcome_def leaves_of_def all_answered_def)
next
  case (Cons ids rest)
  show ?case
  proof (cases "\<exists>i\<in>set ids. ans i = None")
    case True
    with Cons.prems(2) show ?thesis by (auto simp: parts_outcome_def all_answered_def)
  next
    case False
    have m: "\<forall>ch\<in>set (map (the \<circ> ans) ids). length (decode (leaf_data ch)) \<le> m"
    proof
      fix ch assume "ch \<in> set (map (the \<circ> ans) ids)"
      then obtain i where "i \<in> set ids" "ch = the (ans i)" by auto
      with False Cons.prems(4) show "length (decode (leaf_data ch)) \<le> m" by (cases "ans i") auto
    qed
    obtain s' ex where g: "gather decode size' (map (the \<circ> ans) ids) s = (s', ex)" by (cases "gather decode size' (map (the \<circ> ans) ids) s")
    have out: "gather_outcome decode size' m bytes (leaves_of ans ids) (s', ex)"
      using gather_spec [OF Cons.prems(1-3) m] g by (simp add: leaves_of_def)
    show ?thesis
    proof (cases ex)
      case None
      with out have s': "gathered s' (bytes @ decoded decode (leaves_of ans ids))" "bounded_parts m s'"
          "int (length (bytes @ decoded decode (leaves_of ans ids))) \<le> size'" "\<not> list_ex legacy_encoded (leaves_of ans ids)"
        by (simp_all add: gather_outcome_def)
      have "parts_outcome decode size' ans m (bytes @ decoded decode (leaves_of ans ids)) (concat rest) (parts_of decode size' ans rest s')"
        by (rule Cons.IH [OF s'(1-3)]) (use Cons.prems(4) in auto)
      with s'(4) False g None show ?thesis
        by (auto simp: parts_outcome_def leaves_of_def all_answered_def list_ex_append add.assoc split: option.splits)
    next
      case (Some e)
      with out False g show ?thesis
        by (auto simp: gather_outcome_def parts_outcome_def leaves_of_def list_ex_append split: option.splits)
    qed
  qed
qed

section \<open>The yielded parts\<close>

definition finish_parts :: "int \<Rightarrow> part_state \<times> entry_error option \<Rightarrow> yields" where
  "finish_parts size' out =
     (case out of
        (s, Some e) \<Rightarrow> (pt_parts s, Some e)
      | (s, None) \<Rightarrow>
          if int (pt_decodedSize s) \<noteq> size' then (pt_parts s, Some (BinaryContentSizeMismatch (pt_decodedSize s)))
          else if pt_bufferedSize s > 0 then (pt_parts s @ [concat (pt_buffered s)], None)
          else (pt_parts s, None))"

abbreviation answers_of :: "'d entry_host \<Rightarrow> ('d \<Rightarrow> doc_id \<rightharpoonup> db_doc) \<Rightarrow> bool \<Rightarrow> entry_doc \<Rightarrow> (doc_id \<Rightarrow> entry_leaf option) \<Rightarrow> 'd \<Rightarrow> doc_id \<Rightarrow> entry_leaf option" where
  "answers_of h content waitForReady meta f d \<equiv> part_answer (chunk_options h True waitForReady) (eden_of meta) (content d) f"

abbreviation all_parts :: "'d entry_host \<Rightarrow> (doc_id \<Rightarrow> entry_leaf option) \<Rightarrow> entry_doc \<Rightarrow> part_state \<times> entry_error option" where
  "all_parts h ans meta \<equiv>
     parts_of (eh_decode h) (recorded_size meta) ans (batches BINARY_CONTENT_READ_BATCH (ed_children meta)) new_parts"

lemma batch_positive [simp]: "0 < BINARY_CONTENT_READ_BATCH"
  by (simp add: BINARY_CONTENT_READ_BATCH_def)

lemma skips_cache [simp]: "ro_skipCache (chunk_options h True waitForReady)"
  by (simp add: chunk_options_def Let_def)

lemma iterate_eq:
  assumes "refused h meta = None" and "readable h content (chunk_options h True waitForReady) meta f d" and "cache_fine w d"
  shows "\<exists>w'. iterateDBEntryBinaryContentFromMeta h meta waitForReady w =
    Some (Inr (finish_parts (recorded_size meta) (all_parts h (answers_of h content waitForReady meta f d) meta)), w') \<and> cache_fine w' d"
proof -
  have "set (concat (batches BINARY_CONTENT_READ_BATCH (ed_children meta))) \<subseteq> set (ed_children meta)"
    by (simp only: concat_batches [OF batch_positive])
  from part_loop_eq [OF assms(2) skips_cache this assms(3), of "recorded_size meta" new_parts]
  obtain w' where "part_loop h (recorded_size meta) (chunk_options h True waitForReady) (eden_of meta)
      (batches BINARY_CONTENT_READ_BATCH (ed_children meta)) new_parts w =
      Some (Inr (all_parts h (answers_of h content waitForReady meta f d) meta), w')" "cache_fine w' d" by blast
  then show ?thesis
    using assms(1)
    by (intro exI [of _ w'])
       (simp add: iterateDBEntryBinaryContentFromMeta_def bindE_def retE_def finish_parts_def split: prod.split)
qed

lemma refused_None:
  assumes "refused h meta = None"
  shows "\<not> isLegacyNote meta" and "has_chunks meta" and "meta_is_target h meta = Inr True" and "\<not> entry_is_text meta"
    and "usable_size (ed_size meta)" and "0 \<le> recorded_size meta"
proof -
  show k: "\<not> isLegacyNote meta" "has_chunks meta" using assms unfolding refused_def by (metis option.distinct(1))+
  obtain r where r: "meta_is_target h meta = r" by blast
  have "r = Inr True \<and> \<not> entry_is_text meta \<and> usable_size (ed_size meta)"
    using assms k r unfolding refused_def by (cases r) (simp_all split: if_splits)
  then show "meta_is_target h meta = Inr True" "\<not> entry_is_text meta" "usable_size (ed_size meta)" using r by simp_all
  then show "0 \<le> recorded_size meta" by (cases "ed_size meta") (simp_all add: usable_size_def recorded_size_def)
qed

lemma all_parts_spec:
  assumes "0 \<le> recorded_size meta" and "\<forall>i\<in>set (ed_children meta). \<forall>l. ans i = Some l \<longrightarrow> length (eh_decode h (leaf_data l)) \<le> m"
  shows "parts_outcome (eh_decode h) (recorded_size meta) ans m [] (ed_children meta) (all_parts h ans meta)"
proof -
  have "gathered new_parts []" by (simp add: gathered_def new_parts_def BINARY_CONTENT_PART_BYTES_def)
  from parts_of_spec [OF this, of m "recorded_size meta" "batches BINARY_CONTENT_READ_BATCH (ed_children meta)" ans "eh_decode h"] assms
  show ?thesis by (simp add: concat_batches bounded_parts_def new_parts_def)
qed

lemma chunk_bound_exists: "\<exists>m. \<forall>i\<in>set ids. \<forall>l. ans i = Some l \<longrightarrow> length (decode (leaf_data l)) \<le> m"
proof (induction ids)
  case Nil
  then show ?case by simp
next
  case (Cons i ids)
  then obtain m where m: "\<forall>j\<in>set ids. \<forall>l. ans j = Some l \<longrightarrow> length (decode (leaf_data l)) \<le> m" by blast
  have "length (decode (leaf_data l)) \<le> max m (length (decode (leaf_data (the (ans j)))))"
    if "j \<in> set (i # ids)" "ans j = Some l" for j l using that m by simp
  with m show ?case
    by (intro exI [of _ "max m (length (decode (leaf_data (the (ans i)))))"]) (auto simp: le_max_iff_disj)
qed

text \<open>What is yielded without an error is the content, of the recorded size.\<close>

lemma finish_exact:
  assumes "0 \<le> recorded_size meta"
  shows "snd (finish_parts (recorded_size meta) (all_parts h ans meta)) = None \<longleftrightarrow>
      all_answered ans (ed_children meta) \<and> \<not> list_ex legacy_encoded (leaves_of ans (ed_children meta)) \<and>
      int (length (decoded (eh_decode h) (leaves_of ans (ed_children meta)))) = recorded_size meta"
    and "snd (finish_parts (recorded_size meta) (all_parts h ans meta)) = None \<Longrightarrow>
      concat (fst (finish_parts (recorded_size meta) (all_parts h ans meta))) = decoded (eh_decode h) (leaves_of ans (ed_children meta))"
proof -
  obtain m where "\<forall>i\<in>set (ed_children meta). \<forall>l. ans i = Some l \<longrightarrow> length (eh_decode h (leaf_data l)) \<le> m"
    using chunk_bound_exists [of "ed_children meta" ans "eh_decode h"] by blast
  from all_parts_spec [OF assms this]
  have out: "parts_outcome (eh_decode h) (recorded_size meta) ans m [] (ed_children meta) (all_parts h ans meta)" .
  obtain s ex where s: "all_parts h ans meta = (s, ex)" by (cases "all_parts h ans meta")
  show "snd (finish_parts (recorded_size meta) (all_parts h ans meta)) = None \<longleftrightarrow>
      all_answered ans (ed_children meta) \<and> \<not> list_ex legacy_encoded (leaves_of ans (ed_children meta)) \<and>
      int (length (decoded (eh_decode h) (leaves_of ans (ed_children meta)))) = recorded_size meta"
    using out unfolding s parts_outcome_def finish_parts_def by (cases ex) (auto simp: gathered_def)
  show "concat (fst (finish_parts (recorded_size meta) (all_parts h ans meta))) = decoded (eh_decode h) (leaves_of ans (ed_children meta))"
    if "snd (finish_parts (recorded_size meta) (all_parts h ans meta)) = None"
    using that out unfolding s parts_outcome_def finish_parts_def by (cases ex) (auto simp: gathered_def simp del: concat_eq_Nil_conv split: if_splits)
qed

lemma assemble_fits:
  "length (concat parts) \<le> length rest \<Longrightarrow>
    assemble parts (pre @ rest) (length pre) = Some (pre @ concat parts @ drop (length (concat parts)) rest, length pre + length (concat parts))"
proof (induction parts arbitrary: pre rest)
  case Nil
  then show ?case by simp
next
  case (Cons p parts)
  have "assemble parts ((pre @ p) @ drop (length p) rest) (length (pre @ p)) =
      Some ((pre @ p) @ concat parts @ drop (length (concat parts)) (drop (length p) rest), length (pre @ p) + length (concat parts))"
    by (rule Cons.IH) (use Cons.prems in simp)
  with Cons.prems show ?case by (simp add: add.commute)
qed

section \<open>The inspection\<close>

text \<open>The answer of an inspection that fits the way the parts ended.\<close>

fun verdict :: "entry_error option \<Rightarrow> content_availability" where
  "verdict None = IsStreamable"
| "verdict (Some UnsupportedBinaryContent) = IsUnsupported"
| "verdict (Some (BinaryContentSizeMismatch n)) = IsUnsupported"
| "verdict (Some _) = IsMissing"

definition measures :: "(string \<Rightarrow> string) \<Rightarrow> entry_leaf \<Rightarrow> bool" where
  "measures decode ch \<longleftrightarrow> legacy_encoded ch \<or> int (length (decode (leaf_data ch))) = decodedBase64Length (leaf_data ch)"

lemma measure_gather:
  assumes "\<forall>ch\<in>set chunks. measures decode ch"
  shows "case gather decode size' chunks s of
      (s', None) \<Rightarrow> measure_chunks size' chunks (int (pt_decodedSize s)) = Some (int (pt_decodedSize s'))
    | (s', Some ex) \<Rightarrow> refuses ex \<and> measure_chunks size' chunks (int (pt_decodedSize s)) = None"
  using assms
proof (induction chunks arbitrary: s)
  case Nil
  then show ?case by simp
next
  case (Cons ch chunks)
  show ?case
  proof (cases "legacy_encoded ch")
    case True
    then show ?thesis by (simp add: legacy_encoded_def)
  next
    case False
    with Cons.prems have len: "decodedBase64Length (leaf_data ch) = int (length (decode (leaf_data ch)))" by (simp add: measures_def)
    have IH: "case gather decode size' chunks t of
        (s', None) \<Rightarrow> measure_chunks size' chunks (int (pt_decodedSize t)) = Some (int (pt_decodedSize s'))
      | (s', Some ex) \<Rightarrow> refuses ex \<and> measure_chunks size' chunks (int (pt_decodedSize t)) = None" for t
      using Cons by simp
    show ?thesis
    proof (cases "size' < int (pt_decodedSize s + length (decode (leaf_data ch)))")
      case True
      with False len show ?thesis by (simp add: legacy_encoded_def Let_def)
    next
      case fits: False
      let ?n = "pt_decodedSize s + length (decode (leaf_data ch))"
      obtain t where t: "gather decode size' (ch # chunks) s = gather decode size' chunks t" "pt_decodedSize t = ?n"
        using False fits by (auto simp: legacy_encoded_def Let_def)
      have m: "measure_chunks size' (ch # chunks) (int (pt_decodedSize s)) = measure_chunks size' chunks (int (pt_decodedSize t))"
        using False fits len t(2) by (simp add: legacy_encoded_def Let_def)
      show ?thesis unfolding t(1) m by (rule IH)
    qed
  qed
qed

lemma availability_parts:
  assumes "\<forall>i\<in>set (concat bs). \<forall>l. ans i = Some l \<longrightarrow> measures decode l"
  shows "availability_of size' ans bs (int (pt_decodedSize s)) = verdict (snd (finish_parts size' (parts_of decode size' ans bs s)))"
  using assms
proof (induction bs arbitrary: s)
  case Nil
  then show ?case by (auto simp: finish_parts_def)
next
  case (Cons ids rest)
  show ?case
  proof (cases "\<exists>i\<in>set ids. ans i = None")
    case True
    then show ?thesis by (simp add: finish_parts_def)
  next
    case False
    have "\<forall>ch\<in>set (map (the \<circ> ans) ids). measures decode ch"
    proof
      fix ch assume "ch \<in> set (map (the \<circ> ans) ids)"
      then obtain i where "i \<in> set ids" "ch = the (ans i)" by auto
      with False Cons.prems show "measures decode ch" by (cases "ans i") auto
    qed
    note m = measure_gather [OF this, of size' s]
    obtain s' ex where g: "gather decode size' (map (the \<circ> ans) ids) s = (s', ex)" by (cases "gather decode size' (map (the \<circ> ans) ids) s")
    have rest: "availability_of size' ans rest (int (pt_decodedSize s')) = verdict (snd (finish_parts size' (parts_of decode size' ans rest s')))"
      by (rule Cons.IH) (use Cons.prems in auto)
    show ?thesis
    proof (cases ex)
      case None
      with m g False rest show ?thesis by (simp del: not_None_eq)
    next
      case (Some e)
      with m g False show ?thesis by (cases e) (simp_all add: finish_parts_def del: not_None_eq)
    qed
  qed
qed

section \<open>Base64\<close>

text \<open>The standard encoding, in which the splitter writes the pieces of a binary file.\<close>

definition b64_alphabet :: string where
  "b64_alphabet = ''ABCDEFGHIJKLMNOPQRSTUVWXYZabcdefghijklmnopqrstuvwxyz0123456789+/''"

abbreviation byte_val :: "char \<Rightarrow> nat" where
  "byte_val c \<equiv> of_char c"

definition b64_char :: "nat \<Rightarrow> char" where
  "b64_char n = b64_alphabet ! (n mod 64)"

fun base64 :: "string \<Rightarrow> string" where
  "base64 (a # b # c # s) =
     [b64_char (byte_val a div 4), b64_char (byte_val a mod 4 * 16 + byte_val b div 16),
      b64_char (byte_val b mod 16 * 4 + byte_val c div 64), b64_char (byte_val c mod 64)] @ base64 s"
| "base64 [a, b] =
     [b64_char (byte_val a div 4), b64_char (byte_val a mod 4 * 16 + byte_val b div 16), b64_char (byte_val b mod 16 * 4), CHR ''='']"
| "base64 [a] = [b64_char (byte_val a div 4), b64_char (byte_val a mod 4 * 16), CHR ''='', CHR ''='']"
| "base64 [] = []"

lemma b64_char_neq: "b64_char n \<noteq> CHR ''=''" "b64_char n \<noteq> CHR ''%''"
proof -
  have "\<forall>c\<in>set b64_alphabet. c \<noteq> CHR ''='' \<and> c \<noteq> CHR ''%''" by (simp add: b64_alphabet_def)
  moreover have "b64_char n \<in> set b64_alphabet"
    unfolding b64_char_def by (rule nth_mem) (simp add: b64_alphabet_def)
  ultimately show "b64_char n \<noteq> CHR ''=''" "b64_char n \<noteq> CHR ''%''" by auto
qed

text \<open>The length of the text tells the number of the bytes, for every sequence of bytes.\<close>

lemma ends_with_base64:
  "base64 s \<noteq> [] \<Longrightarrow> e \<noteq> [] \<Longrightarrow> length e \<le> 2 \<Longrightarrow> ends_with (x # y # z # u # base64 s) e = ends_with (base64 s) e"
proof -
  assume ne: "base64 s \<noteq> []" and e: "e \<noteq> []" "length e \<le> 2"
  have "4 \<le> length (base64 s)" using ne by (cases s rule: base64.cases) auto
  with e show "ends_with (x # y # z # u # base64 s) e = ends_with (base64 s) e"
    by (simp add: ends_with_def Suc_diff_le numeral_eq_Suc)
qed

lemma decodedBase64Length_base64: "decodedBase64Length (base64 s) = int (length s)"
proof (induction s rule: base64.induct)
  case (1 a b c s)
  show ?case
  proof (cases "s = []")
    case True
    then show ?thesis by (simp add: decodedBase64Length_def ends_with_def b64_char_neq)
  next
    case False
    then have ne: "base64 s \<noteq> []" by (cases s rule: base64.cases) auto
    have div: "(12 + length (base64 s) * 3) div 4 = 3 + length (base64 s) * 3 div 4" by presburger
    have "decodedBase64Length (base64 (a # b # c # s)) = decodedBase64Length (base64 s) + 3"
      using ends_with_base64 [OF ne, of "''==''"] ends_with_base64 [OF ne, of "''=''"] div
      by (simp add: decodedBase64Length_def Let_def)
    with 1 show ?thesis by simp
  qed
qed (simp_all add: decodedBase64Length_def ends_with_def b64_char_neq)

text \<open>A decoder of this encoding inverts it, and the chunks of a binary entry are in it unless they are legacy ones.\<close>

definition decodes_base64 :: "'d entry_host \<Rightarrow> bool" where
  "decodes_base64 h \<longleftrightarrow> (\<forall>bytes. eh_decode h (base64 bytes) = bytes)"

definition binary_chunk :: "entry_leaf \<Rightarrow> bool" where
  "binary_chunk ch \<longleftrightarrow> legacy_encoded ch \<or> (\<exists>bytes. leaf_data ch = base64 bytes)"

lemma binary_chunk_measures: "decodes_base64 h \<Longrightarrow> binary_chunk ch \<Longrightarrow> measures (eh_decode h) ch"
  by (auto simp: binary_chunk_def measures_def decodes_base64_def decodedBase64Length_base64)

section \<open>Properties\<close>

text \<open>
  C25. Reading a binary entry that is not refused beforehand always answers, and it answers its content exactly
  when every chunk is there, none has the legacy encoding, and the decoded chunks add up to the recorded size; the
  content is then the decoded chunks in the order of the entry.
\<close>

theorem binary_content_exact:
  assumes "refused h meta = None" and "readable h content (chunk_options h True waitForReady) meta f d" and "cache_fine w d"
  defines "ans \<equiv> answers_of h content waitForReady meta f d"
  shows "\<exists>r w'. getDBEntryBinaryContentFromMeta h meta waitForReady w = Some (Inr r, w') \<and>
    (\<forall>bytes. r = Some (BinaryOk bytes) \<longleftrightarrow>
       all_answered ans (ed_children meta) \<and> \<not> list_ex legacy_encoded (leaves_of ans (ed_children meta)) \<and>
       bytes = decoded (eh_decode h) (leaves_of ans (ed_children meta)) \<and> int (length bytes) = recorded_size meta)"
proof -
  note ok = refused_None [OF assms(1)]
  let ?y = "finish_parts (recorded_size meta) (all_parts h ans meta)"
  let ?n = "nat (recorded_size meta)" and ?bytes = "decoded (eh_decode h) (leaves_of ans (ed_children meta))"
  obtain w' where it: "iterateDBEntryBinaryContentFromMeta h meta waitForReady w = Some (Inr ?y, w')"
    using iterate_eq [OF assms(1-3)] unfolding ans_def by blast
  note exact = finish_exact [OF ok(6), of h ans]
  obtain parts ex where y: "?y = (parts, ex)" by (cases ?y)
  let ?r = "case assemble parts (zeros ?n) 0 of
            None \<Rightarrow> None
          | Some (content, offset) \<Rightarrow>
              (case ex of
                 Some UnsupportedBinaryContent \<Rightarrow> Some Unsupported
               | Some (BinaryContentSizeMismatch decodedSize) \<Rightarrow> Some (SizeMismatch decodedSize)
               | Some _ \<Rightarrow> None
               | None \<Rightarrow> if offset \<noteq> length content then Some (SizeMismatch offset) else Some (BinaryOk content))"
  have run: "getDBEntryBinaryContentFromMeta h meta waitForReady w = Some (Inr ?r, w')"
    using it ok(3,5) y by (simp add: getDBEntryBinaryContentFromMeta_def bindE_def ofSum_def retE_def)
  show ?thesis
  proof (cases ex)
    case None
    with exact y have full: "all_answered ans (ed_children meta)" "\<not> list_ex legacy_encoded (leaves_of ans (ed_children meta))"
        "int (length ?bytes) = recorded_size meta" "concat parts = ?bytes" by simp_all
    then have "assemble parts (zeros ?n) 0 = Some (?bytes, length ?bytes)"
      using assemble_fits [of parts "zeros ?n" "[]"] by (simp add: zeros_def)
    with run None full show ?thesis by auto
  next
    case (Some e)
    with exact(1) y have "\<not> (all_answered ans (ed_children meta) \<and> \<not> list_ex legacy_encoded (leaves_of ans (ed_children meta)) \<and>
        int (length ?bytes) = recorded_size meta)" by simp
    moreover have "?r \<noteq> Some (BinaryOk bytes)" for bytes
      using Some by (simp split: option.split prod.split entry_error.split)
    ultimately show ?thesis using run by blast
  qed
qed

text \<open>
  C26. The parts that a binary entry is read in bound the memory of the caller: each is shorter than eight mebibytes
  and one decoded chunk, none is empty, and every part but the last has at least eight mebibytes.
\<close>

theorem binary_parts_bounded:
  assumes "refused h meta = None" and "readable h content (chunk_options h True waitForReady) meta f d" and "cache_fine w d"
    and "\<forall>i\<in>set (ed_children meta). \<forall>l. answers_of h content waitForReady meta f d i = Some l \<longrightarrow> length (eh_decode h (leaf_data l)) \<le> m"
  shows "\<exists>parts ex w'. iterateDBEntryBinaryContentFromMeta h meta waitForReady w = Some (Inr (parts, ex), w') \<and>
    (\<forall>p\<in>set parts. p \<noteq> [] \<and> length p < 8 * 1024 * 1024 + max 1 m) \<and> (\<forall>p\<in>set (butlast parts). 8 * 1024 * 1024 \<le> length p)"
proof -
  let ?ans = "answers_of h content waitForReady meta f d"
  let ?y = "finish_parts (recorded_size meta) (all_parts h ?ans meta)"
  obtain s e where s: "all_parts h ?ans meta = (s, e)" by (cases "all_parts h ?ans meta")
  have out: "parts_outcome (eh_decode h) (recorded_size meta) ?ans m [] (ed_children meta) (s, e)"
    using all_parts_spec [OF refused_None(6) [OF assms(1)] assms(4)] s by simp
  then have b: "BINARY_CONTENT_PART_BYTES \<le> length p \<and> length p < BINARY_CONTENT_PART_BYTES + m" if "p \<in> set (pt_parts s)" for p
    using that by (simp add: parts_outcome_def bounded_parts_def)
  have last: "length (concat (pt_buffered s)) < BINARY_CONTENT_PART_BYTES" "pt_bufferedSize s = length (concat (pt_buffered s))" if "e = None"
    using out that by (auto simp: parts_outcome_def gathered_def)
  have "(\<forall>p\<in>set (fst ?y). p \<noteq> [] \<and> length p < BINARY_CONTENT_PART_BYTES + max 1 m) \<and>
      (\<forall>p\<in>set (butlast (fst ?y)). BINARY_CONTENT_PART_BYTES \<le> length p)"
  proof -
    have k: "p \<noteq> [] \<and> length p < BINARY_CONTENT_PART_BYTES + max 1 m \<and> BINARY_CONTENT_PART_BYTES \<le> length p" if "p \<in> set (pt_parts s)" for p
      using b [OF that] by (auto simp: BINARY_CONTENT_PART_BYTES_def)
    have k': "\<forall>p\<in>set (butlast (pt_parts s)). BINARY_CONTENT_PART_BYTES \<le> length p" using k by (auto dest: in_set_butlastD)
    have "fst ?y = pt_parts s \<or> fst ?y = pt_parts s @ [concat (pt_buffered s)] \<and> e = None \<and> 0 < pt_bufferedSize s"
      by (cases e) (simp_all add: s finish_parts_def)
    then consider "fst ?y = pt_parts s" | "fst ?y = pt_parts s @ [concat (pt_buffered s)]" "e = None" "0 < pt_bufferedSize s"
      by argo
    then show ?thesis
    proof cases
      case 1
      with k k' show ?thesis by auto
    next
      case 2
      with k last show ?thesis by (auto simp del: concat_eq_Nil_conv)
    qed
  qed
  moreover obtain w' where "iterateDBEntryBinaryContentFromMeta h meta waitForReady w = Some (Inr ?y, w')"
    using iterate_eq [OF assms(1-3)] by blast
  ultimately show ?thesis
    by (intro exI [of _ "fst ?y"] exI [of _ "snd ?y"] exI [of _ w']) (simp add: BINARY_CONTENT_PART_BYTES_def)
qed

text \<open>
  C27. The inspection, which decodes nothing, answers what reading the parts will find: streamable exactly when they end
  without an error, missing when a chunk is not there, unsupported when the entry, its encoding or its size refuses it.
  Both see the same chunks, and a decoder of base64 decodes them.
\<close>

theorem inspection_foretells:
  assumes "meta_is_target h meta = Inr isTarget" and "readable h content (chunk_options h True waitForReady) meta f d" and "cache_fine w d"
    and "decodes_base64 h"
    and "\<forall>i\<in>set (ed_children meta). \<forall>l. answers_of h content waitForReady meta f d i = Some l \<longrightarrow> binary_chunk l"
  shows "\<exists>parts ex w1 w2. iterateDBEntryBinaryContentFromMeta h meta waitForReady w = Some (Inr (parts, ex), w1) \<and>
    inspectDBEntryBinaryContent h meta waitForReady w = Some (Inr (verdict ex), w2)"
proof (cases "refused h meta")
  case None
  let ?ans = "answers_of h content waitForReady meta f d"
  note ok = refused_None [OF None]
  obtain w1 where it: "iterateDBEntryBinaryContentFromMeta h meta waitForReady w =
      Some (Inr (finish_parts (recorded_size meta) (all_parts h ?ans meta)), w1)"
    using iterate_eq [OF None assms(2,3)] by blast
  let ?bs = "batches BINARY_CONTENT_READ_BATCH (ed_children meta)"
  have sub: "set (concat ?bs) \<subseteq> set (ed_children meta)" by (simp only: concat_batches [OF batch_positive])
  have mm: "\<forall>i\<in>set (concat ?bs). \<forall>l. ?ans i = Some l \<longrightarrow> measures (eh_decode h) l"
    using assms(4,5) sub binary_chunk_measures by blast
  obtain w2 where "inspect_loop h (recorded_size meta) (chunk_options h True waitForReady) (eden_of meta) ?bs 0 w =
      Some (Inr (availability_of (recorded_size meta) ?ans ?bs 0), w2)"
    using inspect_loop_eq [OF assms(2) skips_cache sub assms(3)] by blast
  moreover have "availability_of (recorded_size meta) ?ans ?bs 0 = verdict (snd (finish_parts (recorded_size meta) (all_parts h ?ans meta)))"
    using availability_parts [OF mm, of "recorded_size meta" new_parts] by (simp add: new_parts_def)
  ultimately have "inspectDBEntryBinaryContent h meta waitForReady w =
      Some (Inr (verdict (snd (finish_parts (recorded_size meta) (all_parts h ?ans meta)))), w2)"
    using ok by (simp add: inspectDBEntryBinaryContent_def bindE_def catchE_def ofSum_def retE_def)
  with it show ?thesis by (metis prod.collapse)
next
  case (Some e)
  have e: "e = UnsupportedBinaryContent"
    using Some assms(1) unfolding refused_def by (simp split: if_splits)
  have "inspectDBEntryBinaryContent h meta waitForReady w = Some (Inr IsUnsupported, w)"
    using Some assms(1) unfolding refused_def inspectDBEntryBinaryContent_def
    by (auto simp: bindE_def ofSum_def retE_def split: if_splits)
  with Some e show ?thesis by (simp add: iterateDBEntryBinaryContentFromMeta_def retE_def)
qed

text \<open>
  A legacy chunk behind eight mebibytes of others is found only after a part was yielded: an entry that cannot be
  read in parts is not always reported before the first part.
\<close>

lemma refusal_after_a_part:
  assumes "\<not> legacy_encoded a" and "length (decode (leaf_data a)) = 8 * 1024 * 1024" and "legacy_encoded b" and "8 * 1024 * 1024 \<le> size'"
  shows "\<exists>s. gather decode size' [a, b] new_parts = (s, Some UnsupportedBinaryContent) \<and> pt_parts s = [decode (leaf_data a)]"
  using assms by (simp add: legacy_encoded_def new_parts_def Let_def BINARY_CONTENT_PART_BYTES_def)

end
