(* ===== verification/EntrySamples.thy ===== *)
theory EntrySamples
  imports EntryParts
begin

text \<open>
  A database in memory with the documented behaviour, and the properties of the entry manager applied to it. Each
  entry is the list of its revisions, the last one first.
\<close>

section \<open>A database in memory\<close>

type_synonym sample_db = "entry_leaf list \<times> (string \<times> (string \<times> entry_doc) list) list"

definition leaf_at :: "entry_leaf list \<Rightarrow> string \<Rightarrow> entry_leaf option" where
  "leaf_at ls i = find (\<lambda>l. leaf_id l = i) ls"

definition sample_chunks :: "sample_db \<Rightarrow> doc_id \<rightharpoonup> db_doc" where
  "sample_chunks d i = map_option LeafDoc (leaf_at (fst d) i)"

definition sample_entries :: "sample_db \<Rightarrow> string \<Rightarrow> (string \<times> entry_doc) list" where
  "sample_entries d i = (case map_of (snd d) i of Some revs \<Rightarrow> revs | None \<Rightarrow> [])"

fun head_rev :: "(string \<times> entry_doc) list \<Rightarrow> string option" where
  "head_rev [] = None"
| "head_rev ((rv, doc) # revs) = (if ed_tombstone doc = Some True then None else Some rv)"

definition sample_alive :: "(string \<times> entry_doc) list \<Rightarrow> string set" where
  "sample_alive revs = set_option (head_rev revs)"

fun add_leaves :: "entry_leaf list \<Rightarrow> entry_leaf list \<Rightarrow> entry_leaf list \<times> write_row list" where
  "add_leaves [] ls = (ls, [])"
| "add_leaves (ch # chs) ls =
     (if leaf_at ls (leaf_id ch) = None
      then (case add_leaves chs (ls @ [ch]) of (ls', rows) \<Rightarrow>
        (ls', \<lparr>wrow_error = None, wrow_status = None, wrow_id = Some (leaf_id ch)\<rparr> # rows))
      else (case add_leaves chs ls of (ls', rows) \<Rightarrow>
        (ls', \<lparr>wrow_error = Some ''conflict'', wrow_status = Some 409, wrow_id = Some (leaf_id ch)\<rparr> # rows)))"

definition sample_bulkDocs :: "entry_leaf list \<Rightarrow> bool \<Rightarrow> sample_db \<Rightarrow> write_row list option \<times> sample_db" where
  "sample_bulkDocs chunks edits d = (case add_leaves chunks (fst d) of (ls, rows) \<Rightarrow> (Some rows, (ls, snd d)))"

definition sample_get :: "string \<Rightarrow> get_options option \<Rightarrow> sample_db \<Rightarrow> (entry_error + entry_doc) \<times> sample_db" where
  "sample_get i opt d =
     (let revs = sample_entries d i;
          head = (case head_rev revs of None \<Rightarrow> None | Some rv \<Rightarrow> map_of revs rv);
          found = (case opt of
            Some o' \<Rightarrow> (case go_rev o' of Some (Some rv) \<Rightarrow> map_of revs rv | _ \<Rightarrow> head)
          | None \<Rightarrow> head)
      in (case found of Some doc \<Rightarrow> Inr doc | None \<Rightarrow> Inl (DatabaseError (Some 404)), d))"

definition as_stored :: "entry_doc \<Rightarrow> string \<Rightarrow> entry_doc" where
  "as_stored doc rv = doc\<lparr>ed_rev := Some rv, ed_revisions := None\<rparr>"

definition sample_put :: "entry_doc \<Rightarrow> bool \<Rightarrow> sample_db \<Rightarrow> (entry_error + put_answer) \<times> sample_db" where
  "sample_put doc force d =
     (let revs = sample_entries d (ed_id doc);
          rv = CHR ''1'' # replicate (length revs) (CHR ''1'')
      in if \<not> force \<and> ed_rev doc \<noteq> head_rev revs then (Inl (DatabaseError (Some 409)), d)
         else (Inr \<lparr>pa_id = ed_id doc, pa_ok = True, pa_rev = rv\<rparr>, (fst d, jm_set (ed_id doc) ((rv, as_stored doc rv) # revs) (snd d))))"

definition sample_putRevision :: "entry_doc \<Rightarrow> sample_db \<Rightarrow> (entry_error + unit) \<times> sample_db" where
  "sample_putRevision doc d =
     (case ed_rev doc of
        None \<Rightarrow> (Inl (DatabaseError None), d)
      | Some rv \<Rightarrow> (Inr (), (fst d, jm_set (ed_id doc) (jm_set rv (as_stored doc rv) (sample_entries d (ed_id doc))) (snd d))))"

section \<open>It has the documented behaviour\<close>

lemma leaf_at_append: "leaf_at (ls @ [ch]) i = (case leaf_at ls i of Some l \<Rightarrow> Some l | None \<Rightarrow> if leaf_id ch = i then Some ch else None)"
  by (induction ls) (auto simp: leaf_at_def)

lemma leaf_at_id: "leaf_at ls i = Some l \<Longrightarrow> leaf_id l = i"
  by (auto simp: leaf_at_def find_Some_iff)

lemma add_leaves_content:
  "add_leaves chs ls = (ls', rows) \<Longrightarrow>
     leaf_at ls' i = leaf_at ls i \<or> leaf_at ls i = None \<and> (\<exists>ch\<in>set chs. leaf_id ch = i \<and> leaf_at ls' i = Some ch)"
proof (induction chs arbitrary: ls rows)
  case Nil
  then show ?case by simp
next
  case (Cons c chs)
  then obtain rows' where "add_leaves chs (if leaf_at ls (leaf_id c) = None then ls @ [c] else ls) = (ls', rows')"
    by (auto split: prod.splits if_splits)
  from Cons.IH [OF this] show ?case by (auto simp: leaf_at_append split: if_splits option.splits)
qed

lemma add_leaves_taken: "add_leaves chs ls = (ls', rows) \<Longrightarrow> ch \<in> set chs \<Longrightarrow> leaf_at ls' (leaf_id ch) \<noteq> None"
proof (induction chs arbitrary: ls rows)
  case Nil
  then show ?case by simp
next
  case (Cons c chs)
  let ?ls = "if leaf_at ls (leaf_id c) = None then ls @ [c] else ls"
  from Cons.prems(1) obtain rows' where r: "add_leaves chs ?ls = (ls', rows')"
    by (auto split: prod.splits if_splits)
  have "leaf_at ?ls (leaf_id c) \<noteq> None" by (simp add: leaf_at_append)
  with add_leaves_content [OF r, of "leaf_id c"] have "leaf_at ls' (leaf_id c) \<noteq> None" by auto
  with Cons.IH [OF r] Cons.prems(2) show ?case by auto
qed

lemma add_leaves_rows: "add_leaves chs ls = (ls', rows) \<Longrightarrow> conflicts_only rows"
proof (induction chs arbitrary: ls rows)
  case Nil
  then show ?case by (simp add: conflicts_only_def)
next
  case (Cons c chs)
  then show ?case by (fastforce simp: conflicts_only_def split: if_splits prod.splits)
qed

text \<open>The decoder: it inverts \<open>base64\<close>.\<close>

definition b64_index :: "char \<Rightarrow> nat" where
  "b64_index c = length (takeWhile (\<lambda>x. x \<noteq> c) b64_alphabet)"

fun unbase64 :: "string \<Rightarrow> string" where
  "unbase64 (p # q # r # t # s) =
     (let x = char_of (b64_index p * 4 + b64_index q div 16);
          y = char_of (b64_index q mod 16 * 16 + b64_index r div 4);
          z = char_of (b64_index r mod 4 * 64 + b64_index t)
      in if r = CHR ''='' then [x] else if t = CHR ''='' then [x, y] else [x, y, z] @ unbase64 s)"
| "unbase64 _ = []"

lemma position_distinct: "distinct xs \<Longrightarrow> n < length xs \<Longrightarrow> length (takeWhile (\<lambda>x. x \<noteq> xs ! n) xs) = n"
proof (induction xs arbitrary: n)
  case Nil
  then show ?case by simp
next
  case (Cons x xs)
  then show ?case by (cases n) auto
qed

lemma b64_index_char: "n < 64 \<Longrightarrow> b64_index (b64_char n) = n"
proof -
  assume "n < 64"
  moreover have "distinct b64_alphabet" "length b64_alphabet = 64" by (simp_all add: b64_alphabet_def)
  ultimately show ?thesis using position_distinct [of b64_alphabet n] by (simp add: b64_index_def b64_char_def)
qed

lemma byte_small: "byte_val a < 256"
  using of_char_mod_256 [of a] mod_less_divisor [of 256 "byte_val a"] by simp

lemma sextets:
  "byte_val a div 4 < 64" "byte_val b div 16 < 16" "byte_val c div 64 < 4"
  by (simp_all add: div_less_iff_less_mult byte_small)

lemma sextet_bounds:
  "byte_val a mod 4 * 16 + byte_val b div 16 < 64" "byte_val b mod 16 * 4 + byte_val c div 64 < 64"
  "byte_val a mod 4 * 16 < 64" "byte_val b mod 16 * 4 < 64"
  using sextets(2) [of b] sextets(3) [of c] mod_less_divisor [of 4 "byte_val a"] mod_less_divisor [of 16 "byte_val b"] by linarith+

lemma sextet_values:
  "byte_val a div 4 * 4 + (byte_val a mod 4 * 16 + byte_val b div 16) div 16 = byte_val a"
  "(byte_val a mod 4 * 16 + byte_val b div 16) mod 16 * 16 + (byte_val b mod 16 * 4 + byte_val c div 64) div 4 = byte_val b"
  "(byte_val b mod 16 * 4 + byte_val c div 64) mod 4 * 64 + byte_val c mod 64 = byte_val c"
  "byte_val a div 4 * 4 + byte_val a mod 4 * 16 div 16 = byte_val a"
  "(byte_val a mod 4 * 16 + byte_val b div 16) mod 16 * 16 + byte_val b mod 16 * 4 div 4 = byte_val b"
  using sextets(2) [of b] sextets(3) [of c] by simp_all

lemma unbase64_base64: "unbase64 (base64 s) = s"
proof (induction s rule: base64.induct)
  case (1 a b c s)
  then show ?case
    by (simp only: base64.simps append.simps unbase64.simps Let_def b64_index_char sextets sextet_bounds sextet_values
        b64_char_neq if_False mod_less_divisor zero_less_numeral char_of_char)
next
  case (2 a b)
  show ?case
    by (simp only: base64.simps unbase64.simps Let_def b64_index_char sextets sextet_bounds sextet_values
        b64_char_neq if_False if_True char_of_char simp_thms)
next
  case (3 a)
  show ?case
    by (simp only: base64.simps unbase64.simps Let_def b64_index_char sextets sextet_bounds sextet_values
        if_True char_of_char simp_thms)
qed simp

definition sample_store :: "sample_db entry_host" where
  "sample_store =
     \<lparr>eh_settings = \<lparr>es_paths = sample_path_settings, es_syncInternalFiles = False, es_syncOnlyRegEx = [], es_syncIgnoreRegEx = ''tmp/'',
        es_remoteType = [], es_useOnlyLocalChunk = False, es_deleteMetadataOfDeletedFiles = False\<rparr>,
      eh_regexp = (\<lambda>flags pattern. Some (\<lambda>s. starts_with s pattern)), eh_sha = (\<lambda>s. s), eh_hash = (\<lambda>s. s),
      eh_split = (\<lambda>e. let s = body_bytes (as_blob (sv_data e)) in Some ([take 2 s, [], drop 2 s], False)),
      eh_digest = (\<lambda>doc. [0]), eh_decode = unbase64,
      eh_allDocs = (\<lambda>d ids. Some (map (row_for (sample_chunks d)) ids)), eh_bulkDocs = sample_bulkDocs,
      eh_deliver = (\<lambda>options ids d. Some (\<lambda>_. None, d)), eh_get = sample_get, eh_put = sample_put,
      eh_putRevision = sample_putRevision, eh_now = (\<lambda>d. 9)\<rparr>"

lemma sample_entries_set: "sample_entries (ls, jm_set i revs es) j = (if j = i then revs else sample_entries (ls, es) j)"
  by (simp add: sample_entries_def)

lemma sample_bulk_law: "bulk_law sample_store sample_chunks sample_entries"
  unfolding bulk_law_def
proof (intro allI impI)
  fix chunks :: "entry_leaf list" and d d' :: sample_db and res
  assume "eh_bulkDocs sample_store chunks True d = (res, d')"
  then obtain ls rows where a: "add_leaves chunks (fst d) = (ls, rows)" "res = Some rows" "d' = (ls, snd d)"
    by (auto simp: sample_store_def sample_bulkDocs_def split: prod.splits)
  have grown: "sample_chunks d' i = sample_chunks d i \<or>
      sample_chunks d i = None \<and> (\<exists>ch\<in>set chunks. leaf_id ch = i \<and> (\<exists>rv. sample_chunks d' i = Some (LeafDoc (ch\<lparr>leaf_rev := rv\<rparr>))))" for i
  proof (cases "leaf_at ls i = leaf_at (fst d) i")
    case True
    with a(3) show ?thesis by (simp add: sample_chunks_def)
  next
    case False
    with add_leaves_content [OF a(1), of i] obtain ch where ch: "leaf_at (fst d) i = None" "ch \<in> set chunks" "leaf_id ch = i" "leaf_at ls i = Some ch"
      by blast
    then have "sample_chunks d' i = Some (LeafDoc (ch\<lparr>leaf_rev := leaf_rev ch\<rparr>))" using a(3) by (simp add: sample_chunks_def)
    moreover have "sample_chunks d i = None" using ch(1) by (simp add: sample_chunks_def)
    ultimately show ?thesis using ch(2,3) by blast
  qed
  show "sample_entries d' = sample_entries d \<and>
      (\<forall>i. sample_chunks d' i = sample_chunks d i \<or>
         sample_chunks d i = None \<and> (\<exists>ch\<in>set chunks. leaf_id ch = i \<and> (\<exists>rv. sample_chunks d' i = Some (LeafDoc (ch\<lparr>leaf_rev := rv\<rparr>))))) \<and>
      (\<forall>rows. res = Some rows \<longrightarrow> conflicts_only rows \<longrightarrow> (\<forall>ch\<in>set chunks. sample_chunks d' (leaf_id ch) \<noteq> None))"
  proof (intro conjI allI impI ballI grown)
    show "sample_entries d' = sample_entries d" by (simp add: a(3) sample_entries_def fun_eq_iff)
    show "sample_chunks d' (leaf_id ch) \<noteq> None" if "ch \<in> set chunks" for ch
      using add_leaves_taken [OF a(1) that] a(3) by (simp add: sample_chunks_def)
  qed
qed

lemma sample_read_back:
  assumes "map_of (sample_entries d (ed_id doc)) rv = Some (as_stored doc rv)"
  shows "read_back sample_store doc rv d"
  using assms by (simp add: read_back_def sample_store_def sample_get_def rev_options_def as_stored_def)

lemma sample_put_law: "put_law sample_store sample_chunks sample_entries sample_alive"
  unfolding put_law_def
proof (intro allI impI)
  fix doc force d r d'
  assume "eh_put sample_store doc force d = (r, d')"
  then have p: "sample_put doc force d = (r, d')" by (simp add: sample_store_def)
  let ?revs = "sample_entries d (ed_id doc)"
  let ?rv = "CHR ''1'' # replicate (length ?revs) (CHR ''1'')"
  show "same_chunks sample_chunks d d' \<and> (\<forall>j. j \<noteq> ed_id doc \<longrightarrow> sample_entries d' j = sample_entries d j) \<and>
      (case r of
         Inl ex \<Rightarrow> sample_entries d' = sample_entries d
       | Inr a \<Rightarrow>
           if pa_ok a then (plain_doc doc \<longrightarrow> read_back sample_store doc (pa_rev a) d') \<and>
             (\<not> force \<longrightarrow> (case ed_rev doc of Some rv \<Rightarrow> rv \<in> sample_alive (sample_entries d (ed_id doc))
                | None \<Rightarrow> sample_alive (sample_entries d (ed_id doc)) = {}))
           else sample_entries d' = sample_entries d)"
  proof (cases "\<not> force \<and> ed_rev doc \<noteq> head_rev ?revs")
    case True
    with p show ?thesis by (auto simp: sample_put_def same_chunks_def)
  next
    case False
    then have r: "r = Inr \<lparr>pa_id = ed_id doc, pa_ok = True, pa_rev = ?rv\<rparr>"
        and d': "d' = (fst d, jm_set (ed_id doc) ((?rv, as_stored doc ?rv) # ?revs) (snd d))"
      using p by (auto simp: sample_put_def Let_def split: if_splits)
    have e: "sample_entries d' j = (if j = ed_id doc then (?rv, as_stored doc ?rv) # ?revs else sample_entries d j)" for j
      using sample_entries_set [of "fst d" "ed_id doc" "(?rv, as_stored doc ?rv) # ?revs" "snd d" j] by (simp add: d')
    have "read_back sample_store doc ?rv d'" by (rule sample_read_back) (simp add: e)
    with False e show ?thesis
      by (auto simp: r same_chunks_def sample_chunks_def d' sample_alive_def split: option.splits)
  qed
qed

lemma sample_root_law: "root_law sample_store sample_chunks sample_entries"
  unfolding root_law_def
proof (intro allI impI)
  fix doc d r d'
  assume "eh_putRevision sample_store doc d = (r, d')"
  then have p: "sample_putRevision doc d = (r, d')" by (simp add: sample_store_def)
  show "same_chunks sample_chunks d d' \<and> (\<forall>j. j \<noteq> ed_id doc \<longrightarrow> sample_entries d' j = sample_entries d j) \<and>
      (case r of
         Inl ex \<Rightarrow> sample_entries d' = sample_entries d
       | Inr u \<Rightarrow> \<forall>rv. ed_rev doc = Some rv \<longrightarrow> ed_conflicts doc = None \<longrightarrow> ed_revs_info doc = None \<longrightarrow>
           (\<exists>x. fst (eh_get sample_store (ed_id doc) (Some (rev_options (Some rv))) d') = Inr x) \<longrightarrow> read_back sample_store doc rv d')"
  proof (cases "ed_rev doc")
    case None
    with p show ?thesis by (auto simp: sample_putRevision_def same_chunks_def)
  next
    case (Some rv)
    let ?revs = "jm_set rv (as_stored doc rv) (sample_entries d (ed_id doc))"
    have d': "d' = (fst d, jm_set (ed_id doc) ?revs (snd d))" and r: "r = Inr ()" using p Some by (auto simp: sample_putRevision_def)
    have e: "sample_entries d' j = (if j = ed_id doc then ?revs else sample_entries d j)" for j
      using sample_entries_set [of "fst d" "ed_id doc" ?revs "snd d" j] by (simp add: d')
    have "read_back sample_store doc rv d'" by (rule sample_read_back) (simp add: e)
    with e Some show ?thesis by (simp add: r same_chunks_def sample_chunks_def d')
  qed
qed

lemma sample_allDocs_law: "allDocs_law (eh_allDocs sample_store) sample_chunks"
  by (auto simp: allDocs_law_def sample_store_def sample_chunks_def dest: leaf_at_id)

lemma sample_laws: "pouch_laws sample_store sample_chunks sample_entries sample_alive"
  using sample_bulk_law sample_put_law sample_root_law sample_allDocs_law
  by (simp add: pouch_laws_def get_law_def sample_store_def sample_get_def Let_def)

lemma sample_answers: "answers sample_store"
proof -
  have "\<exists>rows d'. sample_bulkDocs chunks True d = (Some rows, d') \<and> conflicts_only rows" for chunks and d :: sample_db
    by (cases "add_leaves chunks (fst d)") (simp add: sample_bulkDocs_def add_leaves_rows)
  then show ?thesis
    by (simp add: answers_def accepts_def sample_store_def sample_put_def Let_def sample_get_def isErrorOfMissingDoc_def split: option.split)
qed

section \<open>The properties at work\<close>

text \<open>The decoder of the sample database: it inverts \<open>base64\<close>.\<close>

definition sample_address :: "string \<Rightarrow> string" where
  "sample_address i = drop 2 i"

definition sample_id :: "string \<Rightarrow> string" where
  "sample_id path = path2id (eh_sha sample_store) (es_paths (eh_settings sample_store)) path []"

definition sample_saving :: "string \<Rightarrow> string \<Rightarrow> saving_entry" where
  "sample_saving path s = \<lparr>sv_id = sample_id path, sv_path = path, sv_ctime = 1, sv_mtime = 2, sv_size = Some (int (length s)),
     sv_data = Inr (OneText s), sv_type = []\<rparr>"

definition empty_world :: "cache_layer \<times> sample_db" where
  "empty_world = (new_cache 10, ([], []))"

lemma new_cache_addressed: "cache_addressed addr (new_cache 10)"
  by (simp add: cache_addressed_def cache_ok_def cache_bounded_def cached_def new_cache_def)

lemma empty_addressed: "addressed sample_address sample_chunks empty_world"
  by (simp add: empty_world_def new_cache_addressed chunks_addressed_def sample_chunks_def leaf_at_def)

lemma sample_pieces: "pieces_addressed sample_store sample_address e"
  by (simp add: pieces_addressed_def sample_store_def sample_address_def)

lemma sample_vault_path: "vault_path sample_store ''a.md''"
proof -
  have "isTargetFile sample_store ''a.md'' = Inr True" by code_simp
  moreover have "normalizePath ''a.md'' = ''a.md''" by code_simp
  ultimately show ?thesis by (simp add: vault_path_def)
qed



definition sample_binary :: entry_doc where
  "sample_binary = \<lparr>ed_id = sample_id ''p.bin'', ed_rev = Some ''1'', ed_path = ''p.bin'', ed_ctime = 1, ed_mtime = 2, ed_size = Some 5,
     ed_type = ''newnote'', ed_datatype = Some ''newnote'', ed_children = [''h:1'', ''h:2''], ed_eden = Some [], ed_deleted = None, ed_tombstone = None,
     ed_conflicts = None, ed_revisions = None, ed_revs_info = None, ed_data = None, ed_legacyInlineContent = False\<rparr>"

definition binary_world :: "cache_layer \<times> sample_db" where
  "binary_world = (new_cache 10, ([chunk_leaf ''h:1'' (base64 ''abc''), chunk_leaf ''h:2'' (base64 ''de'')], []))"

lemma sample_binary_fields: "ed_children sample_binary = [''h:1'', ''h:2'']" "eden_of sample_binary = []" "recorded_size sample_binary = 5"
  by (simp_all add: sample_binary_def eden_of_def recorded_size_def)

lemma sample_binary_accepted: "refused sample_store sample_binary = None" "meta_is_target sample_store sample_binary = Inr True"
  by code_simp+

lemma binary_readable: "readable sample_store sample_chunks options sample_binary (\<lambda>_. None) (snd binary_world)"
  using sample_allDocs_law
  by (simp add: readable_def sample_binary_fields delivers_def only_leaves_def sample_chunks_def binary_world_def leaf_at_def
      chunk_leaf_def leaf_of_def sample_store_def)

lemma binary_fine: "cache_fine binary_world (snd binary_world)"
  using new_cache_addressed by (simp add: cache_fine_def binary_world_def cache_addressed_def)

lemma binary_answers:
  "part_answer options (eden_of sample_binary) (sample_chunks (snd binary_world)) (\<lambda>_. None) i =
     (if i = ''h:1'' then Some (chunk_leaf ''h:1'' (base64 ''abc'')) else if i = ''h:2'' then Some (chunk_leaf ''h:2'' (base64 ''de'')) else None)"
  by (auto simp: part_answer_def sample_binary_fields eden_answer_def sample_chunks_def binary_world_def leaf_at_def chunk_leaf_def
      leaf_of_def delivered_def)

lemma sample_decodes: "eh_decode sample_store (base64 s) = s"
  by (simp add: sample_store_def unbase64_base64)

theorem binary_content_exact_witness:
  "\<exists>w'. getDBEntryBinaryContentFromMeta sample_store sample_binary True binary_world = Some (Inr (Some (BinaryOk ''abcde'')), w')"
proof -
  have "\<not> legacy_encoded (chunk_leaf i (base64 ''abc''))" "\<not> legacy_encoded (chunk_leaf i (base64 ''de''))" for i
    by (simp_all add: legacy_encoded_def chunk_leaf_def b64_char_neq)
  then show ?thesis
    using binary_content_exact [OF sample_binary_accepted(1) binary_readable binary_fine, of True]
    by (auto simp: sample_binary_fields(1,3) binary_answers all_answered_def leaves_of_def decoded_def chunk_leaf_def sample_decodes simp del: base64.simps)
qed

theorem binary_parts_bounded_witness:
  "\<exists>parts ex w'. iterateDBEntryBinaryContentFromMeta sample_store sample_binary True binary_world = Some (Inr (parts, ex), w') \<and>
    (\<forall>p\<in>set parts. p \<noteq> [] \<and> length p < 8 * 1024 * 1024 + 3)"
proof -
  have "\<forall>i\<in>set (ed_children sample_binary). \<forall>l. answers_of sample_store sample_chunks True sample_binary (\<lambda>_. None) (snd binary_world) i = Some l \<longrightarrow>
      length (eh_decode sample_store (leaf_data l)) \<le> 3"
    by (auto simp: sample_binary_fields(1) binary_answers chunk_leaf_def sample_decodes simp del: base64.simps)
  from binary_parts_bounded [OF sample_binary_accepted(1) binary_readable binary_fine this] show ?thesis by (auto simp: max_def)
qed

theorem inspection_foretells_witness:
  "\<exists>parts ex w1 w2. iterateDBEntryBinaryContentFromMeta sample_store sample_binary True binary_world = Some (Inr (parts, ex), w1) \<and>
    inspectDBEntryBinaryContent sample_store sample_binary True binary_world = Some (Inr (verdict ex), w2)"
proof -
  have "decodes_base64 sample_store" by (simp add: decodes_base64_def sample_decodes)
  moreover have "\<forall>i\<in>set (ed_children sample_binary). \<forall>l. answers_of sample_store sample_chunks True sample_binary (\<lambda>_. None) (snd binary_world) i = Some l \<longrightarrow>
      binary_chunk l"
    by (auto simp: sample_binary_fields(1) binary_answers binary_chunk_def chunk_leaf_def simp del: base64.simps)
  ultimately show ?thesis
    by (rule inspection_foretells [OF sample_binary_accepted(2) binary_readable binary_fine])
qed

section \<open>Notes of the old kind\<close>

text \<open>
  The metadata of a note that holds its content itself is given the type of an entry in chunks, so that a read by
  path finds no chunks and answers an empty content, where the read from the note as it is stored answers it.
\<close>

definition old_note :: entry_doc where
  "old_note = \<lparr>ed_id = sample_id ''o.md'', ed_rev = Some ''1'', ed_path = ''o.md'', ed_ctime = 1, ed_mtime = 2, ed_size = Some 4,
     ed_type = ''notes'', ed_datatype = None, ed_children = [], ed_eden = None, ed_deleted = None, ed_tombstone = None,
     ed_conflicts = None, ed_revisions = None, ed_revs_info = None, ed_data = Some (OneText ''text''), ed_legacyInlineContent = False\<rparr>"

definition old_world :: "cache_layer \<times> sample_db" where
  "old_world = (new_cache 10, ([], [(sample_id ''o.md'', [(''1'', old_note)])]))"

definition data_of :: "((entry_error + entry_doc option) \<times> 'w) option \<Rightarrow> stored_data option" where
  "data_of r = (case r of Some (Inr (Some doc), _) \<Rightarrow> ed_data doc | _ \<Rightarrow> None)"

lemma old_note_by_path:
  "data_of (getDBEntryByPath sample_store ''o.md'' None False True False old_world) = Some (Pieces [])"
  "data_of (getDBEntryFromMeta sample_store old_note False True old_world) = Some (OneText ''text'')"
  by code_simp+

end
