(* ===== verification/JournalText.thy ===== *)
theory JournalText
  imports Prelude
begin

text \<open>
  The text of a journal (\<open>src/replication/journal/JournalSyncCore.ts\<close>): one line for each entry, a chunk as its
  identifier and its escaped data, a document as its JSON text. A journal is sent as the UTF-8 bytes of its lines. A
  string is its 16-bit code units. The JSON text of a document and its parser are parameters.
\<close>

section \<open>UTF-8\<close>

text \<open>\<open>TextEncoder.encode\<close>: a lone surrogate becomes U+FFFD.\<close>

definition byte :: "nat \<Rightarrow> 8 word" where
  "byte n = of_nat n"

definition pair_point :: "code_unit \<Rightarrow> code_unit \<Rightarrow> nat" where
  "pair_point c d = 0x10000 + (unat c - 0xD800) * 0x400 + (unat d - 0xDC00)"

definition unit_utf8 :: "code_unit \<Rightarrow> 8 word list" where
  "unit_utf8 c =
     (let n = unat c
      in if n < 0x80 then [byte n]
         else if n < 0x800 then [byte (0xC0 + n div 0x40), byte (0x80 + n mod 0x40)]
         else if is_high c \<or> is_low c then [0xEF, 0xBF, 0xBD]
         else [byte (0xE0 + n div 0x1000), byte (0x80 + n div 0x40 mod 0x40), byte (0x80 + n mod 0x40)])"

definition pair_utf8 :: "code_unit \<Rightarrow> code_unit \<Rightarrow> 8 word list" where
  "pair_utf8 c d =
     (let n = pair_point c d
      in [byte (0xF0 + n div 0x40000), byte (0x80 + n div 0x1000 mod 0x40), byte (0x80 + n div 0x40 mod 0x40), byte (0x80 + n mod 0x40)])"

fun utf8_encode :: "code_unit list \<Rightarrow> 8 word list" where
  "utf8_encode [] = []"
| "utf8_encode [c] = unit_utf8 c"
| "utf8_encode (c # d # cs) =
     (if is_high c \<and> is_low d then pair_utf8 c d @ utf8_encode cs else unit_utf8 c @ utf8_encode (d # cs))"

text \<open>\<open>TextDecoder.decode\<close>: what is not well-formed becomes U+FFFD, one for each longest beginning of a sequence.\<close>

definition byte_in_range :: "8 word \<Rightarrow> nat \<Rightarrow> nat \<Rightarrow> bool" where
  "byte_in_range b lo hi \<longleftrightarrow> lo \<le> unat b \<and> unat b \<le> hi"

definition second_range :: "nat \<Rightarrow> nat \<times> nat" where
  "second_range lead =
     (if lead = 0xE0 then (0xA0, 0xBF) else if lead = 0xED then (0x80, 0x9F)
      else if lead = 0xF0 then (0x90, 0xBF) else if lead = 0xF4 then (0x80, 0x8F) else (0x80, 0xBF))"

definition second_ok :: "8 word \<Rightarrow> 8 word \<Rightarrow> bool" where
  "second_ok b c = (case second_range (unat b) of (lo, hi) \<Rightarrow> byte_in_range c lo hi)"

definition sequence_length :: "8 word \<Rightarrow> nat" where
  "sequence_length b =
     (if unat b < 0x80 then 1 else if byte_in_range b 0xC2 0xDF then 2 else if byte_in_range b 0xE0 0xEF then 3
      else if byte_in_range b 0xF0 0xF4 then 4 else 0)"

definition unit_of :: "nat \<Rightarrow> code_unit" where
  "unit_of n = of_nat n"

definition units_of_point :: "nat \<Rightarrow> code_unit list" where
  "units_of_point n =
     (if n < 0x10000 then [unit_of n]
      else [unit_of (0xD800 + (n - 0x10000) div 0x400), unit_of (0xDC00 + (n - 0x10000) mod 0x400)])"

definition six :: "8 word \<Rightarrow> nat" where
  "six b = unat b - 0x80"

function utf8_units :: "8 word list \<Rightarrow> code_unit list" where
  "utf8_units [] = []"
| "utf8_units (b # bs) =
     (if sequence_length b = 1 then unit_of (unat b) # utf8_units bs
      else if sequence_length b = 0 then 0xFFFD # utf8_units bs
      else
        (case bs of
           [] \<Rightarrow> [0xFFFD]
         | c # cs \<Rightarrow>
             if \<not> second_ok b c then 0xFFFD # utf8_units bs
             else if sequence_length b = 2 then unit_of ((unat b - 0xC0) * 0x40 + six c) # utf8_units cs
             else
               (case cs of
                  [] \<Rightarrow> [0xFFFD]
                | d # ds \<Rightarrow>
                    if \<not> byte_in_range d 0x80 0xBF then 0xFFFD # utf8_units cs
                    else if sequence_length b = 3 then
                      unit_of ((unat b - 0xE0) * 0x1000 + six c * 0x40 + six d) # utf8_units ds
                    else
                      (case ds of
                         [] \<Rightarrow> [0xFFFD]
                       | e # es \<Rightarrow>
                           if \<not> byte_in_range e 0x80 0xBF then 0xFFFD # utf8_units ds
                           else units_of_point ((unat b - 0xF0) * 0x40000 + six c * 0x1000 + six d * 0x40 + six e) @ utf8_units es))))"
  by pat_completeness auto
termination by (relation "measure length") auto

declare utf8_units.simps(2) [simp del]

text \<open>A byte order mark at the beginning is dropped.\<close>

definition utf8_decode :: "8 word list \<Rightarrow> code_unit list" where
  "utf8_decode bs = utf8_units (if starts_with bs [0xEF, 0xBB, 0xBF] then drop 3 bs else bs)"

fun well_formed_text :: "code_unit list \<Rightarrow> bool" where
  "well_formed_text [] = True"
| "well_formed_text [c] = (\<not> is_high c \<and> \<not> is_low c)"
| "well_formed_text (c # d # cs) =
     (if is_high c then is_low d \<and> well_formed_text cs else \<not> is_low c \<and> well_formed_text (d # cs))"

subsection \<open>Lemmas\<close>

lemma unat_byte [simp]: "n < 256 \<Longrightarrow> unat (byte n) = n"
  by (simp add: byte_def unat_of_nat take_bit_eq_mod)

lemma unit_of_unat [simp]: "unit_of (unat c) = c"
  by (simp add: unit_of_def)

lemma six_byte [simp]: "n < 0x40 \<Longrightarrow> six (byte (0x80 + n)) = n"
  by (simp add: six_def)

lemma cont_byte [simp]: "n < 0x40 \<Longrightarrow> byte_in_range (byte (0x80 + n)) 0x80 0xBF"
  by (simp add: byte_in_range_def)

lemma unat_unit: "unat (c :: code_unit) < 0x10000"
  using unsigned_less [of c] by simp

lemma is_high_unat: "is_high c \<longleftrightarrow> 0xD800 \<le> unat c \<and> unat c \<le> 0xDBFF"
  by (simp add: is_high_def word_le_nat_alt)

lemma is_low_unat: "is_low c \<longleftrightarrow> 0xDC00 \<le> unat c \<and> unat c \<le> 0xDFFF"
  by (simp add: is_low_def word_le_nat_alt)

lemma utf8_units_one: "\<lbrakk>n < 0x80\<rbrakk> \<Longrightarrow> utf8_units (byte n # t) = unit_of n # utf8_units t"
  by (simp add: utf8_units.simps(2) sequence_length_def)

lemma utf8_units_two:
  assumes "0x80 \<le> n" and "n < 0x800"
  shows "utf8_units (byte (0xC0 + n div 0x40) # byte (0x80 + n mod 0x40) # t) = unit_of n # utf8_units t"
proof -
  have "2 \<le> n div 0x40" and "n div 0x40 < 0x20" using assms by simp_all
  moreover have "n div 0x40 * 0x40 + n mod 0x40 = n" by simp
  ultimately show ?thesis
    by (simp add: utf8_units.simps(2) sequence_length_def byte_in_range_def second_ok_def second_range_def six_def)
qed

lemma second_three:
  "\<lbrakk>a < 0x10; b < 0x40; a = 0 \<Longrightarrow> 0x20 \<le> b; a = 13 \<Longrightarrow> b < 0x20\<rbrakk> \<Longrightarrow> second_ok (byte (0xE0 + a)) (byte (0x80 + b))"
  by (auto simp: second_ok_def second_range_def byte_in_range_def)

lemma second_four:
  "\<lbrakk>a < 5; b < 0x40; a = 0 \<Longrightarrow> 0x10 \<le> b; a = 4 \<Longrightarrow> b < 0x10\<rbrakk> \<Longrightarrow> second_ok (byte (0xF0 + a)) (byte (0x80 + b))"
  by (auto simp: second_ok_def second_range_def byte_in_range_def)

lemma utf8_units_three:
  assumes "0x800 \<le> n" and "n < 0x10000" and "\<not> (0xD800 \<le> n \<and> n \<le> 0xDFFF)"
  shows "utf8_units (byte (0xE0 + n div 0x1000) # byte (0x80 + n div 0x40 mod 0x40) # byte (0x80 + n mod 0x40) # t) = unit_of n # utf8_units t"
proof -
  let ?a = "n div 0x1000" and ?b = "n div 0x40 mod 0x40" and ?c = "n mod 0x40"
  have a: "?a < 0x10" using assms by simp
  have "n div 0x40 = ?a * 0x40 + ?b" using div_mult_mod_eq [of "n div 0x40" "0x40"] by (simp add: div_mult2_eq [symmetric])
  then have n: "n = ?a * 0x1000 + ?b * 0x40 + ?c" using div_mult_mod_eq [of n "0x40"] by linarith
  have b: "?b < 0x40" and c: "?c < 0x40" by simp_all
  have lo: "?a = 0 \<Longrightarrow> 0x20 \<le> ?b" using n c assms(1) by linarith
  have hi: "?a = 13 \<Longrightarrow> ?b < 0x20"
  proof (rule ccontr)
    assume "?a = 13" and "\<not> ?b < 0x20"
    then have "0xD800 \<le> n" and "n \<le> 0xDFFF" using n b c by linarith+
    with assms(3) show False by simp
  qed
  have e: "?a * 0x1000 + ?b * 0x40 + ?c = n" using n by simp
  have len: "sequence_length (byte (0xE0 + ?a)) = 3" using a by (simp add: sequence_length_def byte_in_range_def)
  have sec: "second_ok (byte (0xE0 + ?a)) (byte (0x80 + ?b))"
    using a b lo hi by (rule second_three)
  have ua: "unat (byte (0xE0 + ?a)) - 0xE0 = ?a" using a by simp
  show ?thesis
    by (subst utf8_units.simps(2)) (simp only: len sec list.case ua six_byte [OF b] six_byte [OF c] cont_byte [OF c] e if_True if_False not_True_eq_False simp_thms; simp)
qed

lemma utf8_units_four:
  assumes "0x10000 \<le> n" and "n < 0x110000"
  shows "utf8_units (byte (0xF0 + n div 0x40000) # byte (0x80 + n div 0x1000 mod 0x40) # byte (0x80 + n div 0x40 mod 0x40) # byte (0x80 + n mod 0x40) # t) =
    units_of_point n @ utf8_units t"
proof -
  let ?a = "n div 0x40000" and ?b = "n div 0x1000 mod 0x40" and ?c = "n div 0x40 mod 0x40" and ?d = "n mod 0x40"
  have a: "?a < 5" using assms by simp
  have "n div 0x1000 = ?a * 0x40 + ?b" using div_mult_mod_eq [of "n div 0x1000" "0x40"] by (simp add: div_mult2_eq [symmetric])
  moreover have "n div 0x40 = n div 0x1000 * 0x40 + ?c" using div_mult_mod_eq [of "n div 0x40" "0x40"] by (simp add: div_mult2_eq [symmetric])
  ultimately have n: "n = ?a * 0x40000 + ?b * 0x1000 + ?c * 0x40 + ?d" using div_mult_mod_eq [of n "0x40"] by linarith
  have b: "?b < 0x40" and c: "?c < 0x40" and d: "?d < 0x40" by simp_all
  have lo: "?a = 0 \<Longrightarrow> 0x10 \<le> ?b" using n c d assms(1) by linarith
  have hi: "?a = 4 \<Longrightarrow> ?b < 0x10" using n assms(2) by linarith
  have e: "?a * 0x40000 + ?b * 0x1000 + ?c * 0x40 + ?d = n" using n by simp
  have len: "sequence_length (byte (0xF0 + ?a)) = 4" using a by (simp add: sequence_length_def byte_in_range_def)
  have sec: "second_ok (byte (0xF0 + ?a)) (byte (0x80 + ?b))"
    using a b lo hi by (rule second_four)
  have ua: "unat (byte (0xF0 + ?a)) - 0xF0 = ?a" using a by simp
  show ?thesis
    by (subst utf8_units.simps(2)) (simp only: len sec list.case ua six_byte [OF b] six_byte [OF c] six_byte [OF d] cont_byte [OF c] cont_byte [OF d] e if_True if_False not_True_eq_False simp_thms; simp)
qed

lemma utf8_units_unit:
  assumes "\<not> is_high c" and "\<not> is_low c"
  shows "utf8_units (unit_utf8 c @ t) = c # utf8_units t"
proof -
  have s: "\<not> (0xD800 \<le> unat c \<and> unat c \<le> 0xDFFF)" using assms by (auto simp: is_high_unat is_low_unat)
  consider "unat c < 0x80" | "0x80 \<le> unat c" "unat c < 0x800" | "0x800 \<le> unat c" by linarith
  then show ?thesis
  proof cases
    case 1
    then show ?thesis by (simp add: unit_utf8_def Let_def utf8_units_one)
  next
    case 2
    then show ?thesis by (simp add: unit_utf8_def Let_def utf8_units_two)
  next
    case 3
    with assms s show ?thesis by (simp add: unit_utf8_def Let_def utf8_units_three unat_unit)
  qed
qed

lemma units_of_pair:
  assumes "is_high c" and "is_low d"
  shows "units_of_point (pair_point c d) = [c, d]" and "0x10000 \<le> pair_point c d" and "pair_point c d < 0x110000"
proof -
  obtain h l where h: "unat c = 0xD800 + h" "h < 0x400" and l: "unat d = 0xDC00 + l" "l < 0x400"
    using assms by (auto simp: is_high_unat is_low_unat dest!: le_Suc_ex)
  then have p: "pair_point c d = 0x10000 + (h * 0x400 + l)" by (simp add: pair_point_def)
  have "unit_of (0xD800 + h) = c" and "unit_of (0xDC00 + l) = d" using h(1) l(1) unit_of_unat by metis+
  then show "units_of_point (pair_point c d) = [c, d]" using l(2) by (simp add: p units_of_point_def)
  show "0x10000 \<le> pair_point c d" by (simp add: p)
  have "h * 0x400 + l < 0x100000" using h(2) l(2) by linarith
  then show "pair_point c d < 0x110000" by (simp add: p)
qed

lemma utf8_units_encode: "well_formed_text s \<Longrightarrow> utf8_units (utf8_encode s @ t) = s @ utf8_units t"
proof (induction s rule: utf8_encode.induct)
  case (3 c d cs)
  show ?case
  proof (cases "is_high c")
    case True
    with 3 show ?thesis
      by (simp add: pair_utf8_def Let_def utf8_units_four units_of_pair)
  next
    case False
    with 3 show ?thesis by (simp add: utf8_units_unit)
  qed
qed (simp_all add: utf8_units_unit)

section \<open>Lines\<close>

definition RECORD_SPLIT :: code_unit where "RECORD_SPLIT = 0x0A"
definition UNIT_SPLIT :: code_unit where "UNIT_SPLIT = 0x1F"

fun escape_unit :: "code_unit \<Rightarrow> code_unit list" where
  "escape_unit c =
     (if c = 0x0A then [0x5C, 0x6E] else if c = 0x0D then [0x5C, 0x72] else if c = 0x5C then [0x5C, 0x5C] else [c])"

definition escapeNewLineFromString :: "code_unit list \<Rightarrow> code_unit list" where
  "escapeNewLineFromString str =
     (if \<not> contains_code 0x0A str \<and> \<not> contains_code 0x0D str then str
      else [0x5C, 0x66] @ concat (map escape_unit str))"

text \<open>The replacement of \<open>\n\<close>, \<open>\r\<close> and a doubled backslash, from left to right.\<close>

fun unescape_units :: "code_unit list \<Rightarrow> code_unit list" where
  "unescape_units (c # d # cs) =
     (if c = 0x5C \<and> d = 0x6E then 0x0A # unescape_units cs
      else if c = 0x5C \<and> d = 0x72 then 0x0D # unescape_units cs
      else if c = 0x5C \<and> d = 0x5C then 0x5C # unescape_units cs
      else c # unescape_units (d # cs))"
| "unescape_units s = s"

definition unescapeNewLineFromString :: "code_unit list \<Rightarrow> code_unit list" where
  "unescapeNewLineFromString str = (if \<not> starts_with str [0x5C, 0x66] then str else unescape_units (drop 2 str))"

text \<open>An entry of a journal: a chunk has its identifier and its data, a document is as it is stored.\<close>

datatype 'd journal_row = ChunkRow "code_unit list" "code_unit list" | DocRow 'd

fun row_text :: "('d \<Rightarrow> code_unit list) \<Rightarrow> 'd journal_row \<Rightarrow> code_unit list" where
  "row_text stringify (ChunkRow i data) = 0x7E # i @ UNIT_SPLIT # escapeNewLineFromString data"
| "row_text stringify (DocRow d) = stringify d"

definition serializeDoc :: "('d \<Rightarrow> code_unit list) \<Rightarrow> 'd journal_row \<Rightarrow> 8 word list" where
  "serializeDoc stringify row = utf8_encode (row_text stringify row @ [RECORD_SPLIT])"

text \<open>One line; \<open>None\<close> when it cannot be parsed, or has no data part.\<close>

definition parse_row :: "(code_unit list \<Rightarrow> 'd option) \<Rightarrow> code_unit list \<Rightarrow> 'd journal_row option" where
  "parse_row parse strPiece =
     (if starts_with strPiece [0x7E] then
        (case split_on UNIT_SPLIT (drop 1 strPiece) of
           idPart # dataPart # _ \<Rightarrow> Some (ChunkRow idPart (unescapeNewLineFromString dataPart))
         | _ \<Rightarrow> None)
      else map_option DocRow (parse strPiece))"

lemma index_of_found: "index_of needle s = Some i \<Longrightarrow> needle \<noteq> [] \<Longrightarrow> i < length s"
  by (induction s arbitrary: i) (auto split: if_splits)

function parse_rows :: "(code_unit list \<Rightarrow> 'd option) \<Rightarrow> 8 word list \<Rightarrow> nat \<Rightarrow> 'd journal_row list \<Rightarrow> 'd journal_row list option" where
  "parse_rows parse bytes idxFrom result =
     (case index_from [0x0A] idxFrom bytes of
        None \<Rightarrow> Some result
      | Some idxTo \<Rightarrow>
          (case parse_row parse (utf8_decode (js_slice bytes idxFrom idxTo)) of
             None \<Rightarrow> None
           | Some row \<Rightarrow> if idxTo > 0 then parse_rows parse bytes (idxTo + 1) (result @ [row]) else Some (result @ [row])))"
  by pat_completeness auto
termination
  by (relation "measure (\<lambda>(_, bytes, from, _). length bytes - from)") (auto simp: index_from_def dest!: index_of_found)

declare parse_rows.simps [simp del]

definition parseRemoteJournal :: "(code_unit list \<Rightarrow> 'd option) \<Rightarrow> 8 word list \<Rightarrow> 'd journal_row list option" where
  "parseRemoteJournal parse decompressed = parse_rows parse decompressed 0 []"

subsection \<open>Lemmas\<close>

lemma well_formed_Cons:
  "well_formed_text (c # s) \<Longrightarrow> \<not> is_high c \<Longrightarrow> \<not> is_low c \<and> well_formed_text s"
  by (cases s) auto

lemma well_formed_append: "well_formed_text s \<Longrightarrow> well_formed_text t \<Longrightarrow> well_formed_text (s @ t)"
proof (induction s rule: well_formed_text.induct)
  case (2 c)
  then show ?case by (cases t) auto
qed (auto split: if_splits)

lemma well_formed_plain: "\<forall>c\<in>set s. \<not> is_high c \<and> \<not> is_low c \<Longrightarrow> well_formed_text s"
  by (induction s rule: well_formed_text.induct) auto

lemma well_formed_escape: "well_formed_text s \<Longrightarrow> well_formed_text (concat (map escape_unit s))"
proof (induction s rule: well_formed_text.induct)
  case (3 c d cs)
  show ?case
  proof (cases "is_high c")
    case True
    with 3(3) have "is_low d" "well_formed_text cs" by simp_all
    moreover have "c \<noteq> 0x0A" "c \<noteq> 0x0D" "c \<noteq> 0x5C" "d \<noteq> 0x0A" "d \<noteq> 0x0D" "d \<noteq> 0x5C"
      using True \<open>is_low d\<close> by (auto simp: is_high_def is_low_def)
    ultimately show ?thesis using 3(1) True by simp
  next
    case False
    with 3(3) have c: "\<not> is_low c" and "well_formed_text (d # cs)" by simp_all
    with 3(2) False have e: "well_formed_text (concat (map escape_unit (d # cs)))" by blast
    have "well_formed_text (escape_unit c)" using False c by (auto simp: is_high_def is_low_def)
    with e show ?thesis by (simp only: list.map concat.simps well_formed_append)
  qed
qed (auto simp: is_high_def is_low_def)

lemma well_formed_escaped: "well_formed_text s \<Longrightarrow> well_formed_text (escapeNewLineFromString s)"
  using well_formed_append [OF _ well_formed_escape [of s], of "[0x5C, 0x66]"]
  by (simp add: escapeNewLineFromString_def is_high_def is_low_def)

lemma unescape_escape: "unescape_units (concat (map escape_unit s) @ t) = s @ unescape_units t"
proof (induction s)
  case (Cons c s)
  have "c \<noteq> 0x5C \<Longrightarrow> unescape_units (c # u) = c # unescape_units u" for u by (cases u) auto
  with Cons show ?case by auto
qed auto

lemma escape_no_newline: "0x0A \<notin> set (escapeNewLineFromString s)"
proof -
  have "0x0A \<notin> set (escape_unit c)" for c by simp
  then show ?thesis by (auto simp: escapeNewLineFromString_def simp del: escape_unit.simps)
qed

lemma byte_newline: "n < 256 \<Longrightarrow> byte n = 0x0A \<longleftrightarrow> n = 0x0A"
  by (simp add: word_unat_eq_iff)

lemma multi_no_newline:
  "\<lbrakk>n < 0x10000; 0x80 \<le> n\<rbrakk> \<Longrightarrow> 0x0A \<notin> set [byte (0xE0 + n div 0x1000), byte (0x80 + n div 0x40 mod 0x40), byte (0x80 + n mod 0x40)]"
  "\<lbrakk>n < 0x800; 0x80 \<le> n\<rbrakk> \<Longrightarrow> 0x0A \<notin> set [byte (0xC0 + n div 0x40), byte (0x80 + n mod 0x40)]"
proof -
  assume "n < 0x10000"
  then have "n div 0x1000 < 0x10" by simp
  then show "0x0A \<notin> set [byte (0xE0 + n div 0x1000), byte (0x80 + n div 0x40 mod 0x40), byte (0x80 + n mod 0x40)]"
    by (auto simp: byte_newline dest!: sym [of "10 :: 8 word"])
next
  assume "n < 0x800"
  then have "n div 0x40 < 0x20" by simp
  then show "0x0A \<notin> set [byte (0xC0 + n div 0x40), byte (0x80 + n mod 0x40)]"
    by (auto simp: byte_newline dest!: sym [of "10 :: 8 word"])
qed

lemma unit_utf8_newline: "0x0A \<in> set (unit_utf8 c) \<longleftrightarrow> c = 0x0A"
proof -
  consider "unat c < 0x80" | "0x80 \<le> unat c" "unat c < 0x800" | "0x800 \<le> unat c" by linarith
  then show ?thesis
  proof cases
    case 1
    then show ?thesis by (auto simp: unit_utf8_def Let_def byte_newline word_unat_eq_iff dest!: sym [of "10 :: 8 word"])
  next
    case 2
    with multi_no_newline(2) [OF 2(2,1)] show ?thesis by (auto simp: unit_utf8_def Let_def)
  next
    case 3
    with multi_no_newline(1) [OF unat_unit [of c]] show ?thesis by (auto simp: unit_utf8_def Let_def)
  qed
qed

lemma pair_utf8_newline: "is_high c \<Longrightarrow> is_low d \<Longrightarrow> 0x0A \<notin> set (pair_utf8 c d)"
proof -
  assume "is_high c" and "is_low d"
  then have "pair_point c d div 0x40000 < 5" using units_of_pair(3) by fastforce
  then show ?thesis by (auto simp: pair_utf8_def Let_def byte_newline dest!: sym [of "10 :: 8 word"])
qed

lemma utf8_newline: "0x0A \<in> set (utf8_encode s) \<longleftrightarrow> 0x0A \<in> set s"
proof (induction s rule: utf8_encode.induct)
  case (3 c d cs)
  then show ?case
    by (auto simp: pair_utf8_newline unit_utf8_newline is_high_def is_low_def)
qed (auto simp: unit_utf8_newline)

lemma utf8_append:
  "well_formed_text s \<Longrightarrow> utf8_encode (s @ t) = utf8_encode s @ utf8_encode t"
proof (induction s rule: utf8_encode.induct)
  case (2 c)
  then show ?case by (cases t) auto
qed (auto split: if_splits)

lemma utf8_newline_end: "well_formed_text s \<Longrightarrow> utf8_encode (s @ [RECORD_SPLIT]) = utf8_encode s @ [0x0A]"
proof -
  have "utf8_encode [RECORD_SPLIT] = [0x0A]" by (simp add: RECORD_SPLIT_def unit_utf8_def Let_def byte_def)
  then show "well_formed_text s \<Longrightarrow> ?thesis" by (simp add: utf8_append)
qed

section \<open>Reading a journal back\<close>

text \<open>A line that the parser finds again: it begins with an ASCII character and has no line feed.\<close>

definition line_ok :: "code_unit list \<Rightarrow> bool" where
  "line_ok l \<longleftrightarrow> l \<noteq> [] \<and> unat (hd l) < 0x80 \<and> 0x0A \<notin> set l \<and> well_formed_text l"

lemma unit_utf8_hd: "unit_utf8 c \<noteq> []"
  by (simp add: unit_utf8_def Let_def)

lemma utf8_hd:
  assumes "line_ok l"
  shows "\<exists>bs. utf8_encode l = byte (unat (hd l)) # bs"
proof -
  obtain c cs where l: "l = c # cs" and c: "unat c < 0x80" using assms by (cases l) (auto simp: line_ok_def)
  have "\<not> is_high c" using c by (simp add: is_high_unat)
  then have "\<exists>bs. utf8_encode (c # cs) = unit_utf8 c @ bs" by (cases cs) auto
  then show ?thesis using l c by (auto simp: unit_utf8_def Let_def)
qed

lemma decode_line: "line_ok l \<Longrightarrow> utf8_decode (utf8_encode l) = l"
proof -
  assume l: "line_ok l"
  obtain bs where b: "utf8_encode l = byte (unat (hd l)) # bs" using utf8_hd [OF l] by blast
  have "byte (unat (hd l)) \<noteq> 0xEF" using l by (simp add: line_ok_def word_unat_eq_iff)
  then have "\<not> starts_with (utf8_encode l) [0xEF, 0xBB, 0xBF]" by (simp add: b)
  with utf8_units_encode [of l "[]"] l show ?thesis by (simp add: utf8_decode_def line_ok_def)
qed

lemma index_of_first: "x \<notin> set s \<Longrightarrow> index_of [x] (s @ x # t) = Some (length s)"
  by (induction s) auto

lemma parse_rows_line:
  assumes l: "line_ok l"
  shows "parse_rows parse (pre @ utf8_encode l @ 0x0A # rest) (length pre) acc =
    (case parse_row parse l of
       None \<Rightarrow> None
     | Some row \<Rightarrow> parse_rows parse (pre @ utf8_encode l @ 0x0A # rest) (length (pre @ utf8_encode l @ [0x0A])) (acc @ [row]))"
proof -
  obtain bs where b: "utf8_encode l = byte (unat (hd l)) # bs" using utf8_hd [OF l] by blast
  have "0x0A \<notin> set (utf8_encode l)" using l by (simp add: utf8_newline line_ok_def)
  then have i: "index_from [0x0A] (length pre) (pre @ utf8_encode l @ 0x0A # rest) = Some (length pre + length (utf8_encode l))"
    by (simp add: index_from_def index_of_first add.commute)
  have p: "0 < length pre + length (utf8_encode l)" by (simp add: b)
  have s: "js_slice (pre @ utf8_encode l @ 0x0A # rest) (length pre) (length pre + length (utf8_encode l)) = utf8_encode l"
    by (simp add: js_slice_def)
  show ?thesis
    using p by (subst parse_rows.simps) (simp add: i s decode_line [OF l] split: option.split del: length_greater_0_conv length_0_conv add_gr_0)
qed

lemma parse_rows_done: "0x0A \<notin> set (drop n bs) \<Longrightarrow> parse_rows parse bs n acc = Some acc"
proof -
  assume "0x0A \<notin> set (drop n bs)"
  moreover have "index_of [x] s = None" if "x \<notin> set s" for x :: "8 word" and s using that by (induction s) auto
  ultimately show ?thesis by (subst parse_rows.simps) (simp add: index_from_def)
qed

lemma parse_rows_lines:
  assumes "\<forall>r\<in>set rows. line_ok (row_text stringify r) \<and> parse_row parse (row_text stringify r) = Some (f r)"
  shows "parse_rows parse (pre @ concat (map (serializeDoc stringify) rows)) (length pre) acc = Some (acc @ map f rows)"
  using assms
proof (induction rows arbitrary: pre acc)
  case Nil
  then show ?case by (simp add: parse_rows_done)
next
  case (Cons r rows)
  let ?l = "row_text stringify r" and ?rest = "concat (map (serializeDoc stringify) rows)"
  have l: "line_ok ?l" and p: "parse_row parse ?l = Some (f r)" using Cons.prems by simp_all
  have s: "serializeDoc stringify r = utf8_encode ?l @ [0x0A]"
    using l by (simp add: serializeDoc_def utf8_newline_end line_ok_def)
  have "parse_rows parse ((pre @ utf8_encode ?l @ [0x0A]) @ ?rest) (length (pre @ utf8_encode ?l @ [0x0A])) (acc @ [f r]) =
      Some ((acc @ [f r]) @ map f rows)"
    by (rule Cons.IH) (use Cons.prems in simp)
  with parse_rows_line [OF l, of parse pre ?rest acc] p show ?case by (simp add: s)
qed

text \<open>The data that arrive: cut at the first separator of units, and taken for escaped when they begin like that.\<close>

definition received_data :: "code_unit list \<Rightarrow> code_unit list" where
  "received_data data = unescapeNewLineFromString (takeWhile (\<lambda>c. c \<noteq> UNIT_SPLIT) (escapeNewLineFromString data))"

definition intact_data :: "code_unit list \<Rightarrow> bool" where
  "intact_data data \<longleftrightarrow>
     UNIT_SPLIT \<notin> set data \<and> (0x0A \<in> set data \<or> 0x0D \<in> set data \<or> \<not> starts_with data [0x5C, 0x66])"

lemma unescape_length: "length (unescape_units s) \<le> length s"
  by (induction s rule: unescape_units.induct) auto

lemma takeWhile_short: "x \<in> set s \<Longrightarrow> \<not> P x \<Longrightarrow> length (takeWhile P s) < length s"
  by (induction s) auto

lemma takeWhile_escape:
  "takeWhile (\<lambda>c. c \<noteq> UNIT_SPLIT) (concat (map escape_unit s)) = concat (map escape_unit (takeWhile (\<lambda>c. c \<noteq> UNIT_SPLIT) s))"
  by (induction s) (auto simp: UNIT_SPLIT_def)

lemma received_iff_intact: "received_data data = data \<longleftrightarrow> intact_data data"
proof (cases "0x0A \<in> set data \<or> 0x0D \<in> set data")
  case True
  then have e: "escapeNewLineFromString data = [0x5C, 0x66] @ concat (map escape_unit data)"
    by (auto simp: escapeNewLineFromString_def)
  have "received_data data = takeWhile (\<lambda>c. c \<noteq> UNIT_SPLIT) data"
    using unescape_escape [of "takeWhile (\<lambda>c. c \<noteq> UNIT_SPLIT) data" "[]"]
    by (simp add: received_data_def e takeWhile_escape [unfolded UNIT_SPLIT_def] unescapeNewLineFromString_def UNIT_SPLIT_def)
  moreover have "takeWhile (\<lambda>c. c \<noteq> UNIT_SPLIT) data = data \<longleftrightarrow> UNIT_SPLIT \<notin> set data"
    by (auto simp: takeWhile_eq_all_conv)
  ultimately show ?thesis using True by (auto simp: intact_data_def)
next
  case False
  then have e: "escapeNewLineFromString data = data" by (simp add: escapeNewLineFromString_def)
  have short: "length (unescapeNewLineFromString s) \<le> length s" for s
  proof -
    have "length (unescape_units (drop 2 s)) \<le> length s" by (rule order_trans [OF unescape_length]) simp
    then show ?thesis by (simp add: unescapeNewLineFromString_def)
  qed
  show ?thesis
  proof (cases "UNIT_SPLIT \<in> set data")
    case True
    have "length (takeWhile (\<lambda>c. c \<noteq> UNIT_SPLIT) data) < length data" by (rule takeWhile_short [OF True]) simp
    then have "length (received_data data) < length data"
      unfolding received_data_def e by (rule le_less_trans [OF short])
    with True show ?thesis by (auto simp: intact_data_def)
  next
    case clean: False
    then have "takeWhile (\<lambda>c. c \<noteq> UNIT_SPLIT) data = data" by (induction data) auto
    then have r: "received_data data = unescapeNewLineFromString data" by (simp only: received_data_def e)
    have "length (unescapeNewLineFromString data) < length data" if p: "starts_with data [0x5C, 0x66]"
    proof -
      obtain s where s: "data = 0x5C # 0x66 # s" using p by (auto simp: starts_with_iff_prefix prefix_def)
      show ?thesis using unescape_length [of s] by (simp add: s unescapeNewLineFromString_def)
    qed
    then have "unescapeNewLineFromString data = data \<longleftrightarrow> \<not> starts_with data [0x5C, 0x66]"
      by (metis less_irrefl unescapeNewLineFromString_def)
    then show ?thesis using False clean by (simp add: r intact_data_def)
  qed
qed

text \<open>What \<open>JSON.stringify\<close> and \<open>JSON.parse\<close> do with a document: one line that is not taken for a chunk, and back.\<close>

definition json_document :: "('d \<Rightarrow> code_unit list) \<Rightarrow> (code_unit list \<Rightarrow> 'd option) \<Rightarrow> 'd \<Rightarrow> bool" where
  "json_document stringify parse d \<longleftrightarrow>
     line_ok (stringify d) \<and> \<not> starts_with (stringify d) [0x7E] \<and> parse (stringify d) = Some d"

fun row_fine :: "('d \<Rightarrow> code_unit list) \<Rightarrow> (code_unit list \<Rightarrow> 'd option) \<Rightarrow> 'd journal_row \<Rightarrow> bool" where
  "row_fine stringify parse (ChunkRow i data) \<longleftrightarrow>
     well_formed_text i \<and> 0x0A \<notin> set i \<and> UNIT_SPLIT \<notin> set i \<and> well_formed_text data"
| "row_fine stringify parse (DocRow d) \<longleftrightarrow> json_document stringify parse d"

fun received_row :: "'d journal_row \<Rightarrow> 'd journal_row" where
  "received_row (ChunkRow i data) = ChunkRow i (received_data data)"
| "received_row (DocRow d) = DocRow d"

lemma first_piece: "\<exists>rest. split_on c s = takeWhile (\<lambda>x. x \<noteq> c) s # rest"
  by (induction s) auto

lemma row_received:
  assumes "row_fine stringify parse r"
  shows "line_ok (row_text stringify r) \<and> parse_row parse (row_text stringify r) = Some (received_row r)"
proof (cases r)
  case (ChunkRow i data)
  have d: "well_formed_text (i @ UNIT_SPLIT # escapeNewLineFromString data)"
    using assms ChunkRow well_formed_append [OF _ well_formed_append [OF _ well_formed_escaped], of i "[UNIT_SPLIT]" data]
    by (simp add: UNIT_SPLIT_def is_high_def is_low_def)
  have "split_on UNIT_SPLIT (i @ UNIT_SPLIT # escapeNewLineFromString data) = i # split_on UNIT_SPLIT (escapeNewLineFromString data)"
    using assms ChunkRow by (simp add: split_on_append)
  moreover obtain rest where "split_on UNIT_SPLIT (escapeNewLineFromString data) =
      takeWhile (\<lambda>c. c \<noteq> UNIT_SPLIT) (escapeNewLineFromString data) # rest"
    using first_piece [of UNIT_SPLIT "escapeNewLineFromString data"] by auto
  moreover have "well_formed_text (0x7E # i @ UNIT_SPLIT # escapeNewLineFromString data)"
    using well_formed_append [OF _ d, of "[0x7E]"] by (simp add: is_high_def is_low_def)
  ultimately show ?thesis
    using assms escape_no_newline [of data]
    by (simp add: ChunkRow line_ok_def parse_row_def received_data_def UNIT_SPLIT_def)
next
  case (DocRow d)
  with assms show ?thesis by (simp add: json_document_def parse_row_def)
qed

text \<open>
  C31. A journal of chunks and documents is read back with the same entries in the same order, and the data of a chunk
  are those that were sent exactly when they contain no unit separator and do not begin, without a line break
  anywhere, like escaped data.
\<close>

theorem journal_read_back:
  assumes "\<forall>r\<in>set rows. row_fine stringify parse r"
  shows "parseRemoteJournal parse (concat (map (serializeDoc stringify) rows)) = Some (map received_row rows) \<and>
    (map received_row rows = rows \<longleftrightarrow> (\<forall>i data. ChunkRow i data \<in> set rows \<longrightarrow> intact_data data))"
proof
  show "parseRemoteJournal parse (concat (map (serializeDoc stringify) rows)) = Some (map received_row rows)"
    using parse_rows_lines [of rows stringify parse received_row "[]" "[]"] row_received [of stringify parse] assms
    by (simp add: parseRemoteJournal_def)
  have "received_row r = r \<longleftrightarrow> (\<forall>i data. r = ChunkRow i data \<longrightarrow> intact_data data)" for r :: "'a journal_row"
    by (cases r) (simp_all add: received_iff_intact)
  then show "map received_row rows = rows \<longleftrightarrow> (\<forall>i data. ChunkRow i data \<in> set rows \<longrightarrow> intact_data data)"
    by (simp add: map_idI list_eq_iff_nth_eq in_set_conv_nth) metis
qed

text \<open>A chunk \<open>\frac\<close> of a note loses its first two characters; a chunk with a unit separator loses what follows it.\<close>

lemma tex_chunk_damaged:
  "received_data [0x5C, 0x66, 0x72, 0x61, 0x63] = [0x72, 0x61, 0x63]" and "received_data [0x61, 0x1F, 0x62] = [0x61]"
  by (simp_all add: received_data_def escapeNewLineFromString_def unescapeNewLineFromString_def UNIT_SPLIT_def)

lemma journal_read_back_witness:
  "parseRemoteJournal (\<lambda>t. if t = [0x7B, 0x7D] then Some () else None)
     (concat (map (serializeDoc (\<lambda>_. [0x7B, 0x7D])) [ChunkRow [0x68, 0x3A, 0x31] [0x61, 0x0A, 0x5C], DocRow ()])) =
   Some [ChunkRow [0x68, 0x3A, 0x31] [0x61, 0x0A, 0x5C], DocRow ()]"
proof -
  let ?rows = "[ChunkRow [0x68, 0x3A, 0x31] [0x61, 0x0A, 0x5C], DocRow ()]" and ?p = "\<lambda>t. if t = [0x7B, 0x7D :: code_unit] then Some () else None"
  have "\<forall>r\<in>set ?rows. row_fine (\<lambda>_. [0x7B, 0x7D]) ?p r"
    by (simp add: json_document_def line_ok_def is_high_def is_low_def UNIT_SPLIT_def)
  note reading = journal_read_back [OF this]
  have "\<forall>i data. ChunkRow i data \<in> set ?rows \<longrightarrow> intact_data data"
    by (simp add: intact_data_def UNIT_SPLIT_def)
  with reading have "map received_row ?rows = ?rows" by (rule conjunct2 [THEN iffD2])
  with reading show ?thesis by (simp only:)
qed

end
