(* ===== verification/JournalCheckpoint.thy ===== *)
theory JournalCheckpoint
  imports Prelude
begin

text \<open>
  The checkpoint of the journal replication (\<open>src/replication/journal/JournalSyncTypes.ts\<close> and
  \<open>JournalSyncCore.ts\<close>): what a device knows the remote to hold, how far it has sent its own changes, and which
  journals it has received. One record of the store holds it. While a transfer runs a client keeps a copy in
  memory, counts the writes of every client of the process to tell when its copy is old, and writes what it received
  later. All operations run under the lock of the record, so each is one step; the store may fail to write. The
  identifiers of a JavaScript \<open>Set\<close> are a set here, as no code depends on their order.
\<close>

section \<open>The record\<close>

record checkpoint =
  cp_lastLocalSeq :: int
  cp_journalEpoch :: string
  cp_knownIDs :: "string set"
  cp_sentIDs :: "string set"
  cp_receivedFiles :: "string set"
  cp_sentFiles :: "string set"
  cp_resetGeneration :: int

definition createCheckPointInfoDefault :: checkpoint where
  "createCheckPointInfoDefault =
     \<lparr>cp_lastLocalSeq = 0, cp_journalEpoch = [], cp_knownIDs = {}, cp_sentIDs = {}, cp_receivedFiles = {}, cp_sentFiles = {},
      cp_resetGeneration = 0\<rparr>"

text \<open>The forms in which a set may lie in the store, and what else may lie there under its name.\<close>

datatype stored_set = AsSet "string set" | AsArray "string list" | AsObject "string list" | AsOther

record stored_checkpoint =
  sc_lastLocalSeq :: "int option"
  sc_journalEpoch :: "string option"
  sc_knownIDs :: "stored_set option"
  sc_sentIDs :: "stored_set option"
  sc_receivedFiles :: "stored_set option"
  sc_sentFiles :: "stored_set option"
  sc_resetGeneration :: "int option"

fun read_set :: "stored_set option \<Rightarrow> string set" where
  "read_set None = {}"
| "read_set (Some (AsSet s)) = s"
| "read_set (Some (AsArray xs)) = set xs"
| "read_set (Some (AsObject ks)) = set ks"
| "read_set (Some AsOther) = {}"

definition is_safe :: "int \<Rightarrow> bool" where
  "is_safe n \<longleftrightarrow> - (2 ^ 53) < n \<and> n < 2 ^ 53"

definition readCheckpointRecord :: "stored_checkpoint option \<Rightarrow> checkpoint" where
  "readCheckpointRecord stored =
     (case stored of
        None \<Rightarrow> createCheckPointInfoDefault
      | Some old \<Rightarrow>
          \<lparr>cp_lastLocalSeq = (case sc_lastLocalSeq old of Some n \<Rightarrow> n | None \<Rightarrow> 0),
           cp_journalEpoch = (case sc_journalEpoch old of Some e \<Rightarrow> e | None \<Rightarrow> []),
           cp_knownIDs = read_set (sc_knownIDs old), cp_sentIDs = read_set (sc_sentIDs old),
           cp_receivedFiles = read_set (sc_receivedFiles old), cp_sentFiles = read_set (sc_sentFiles old),
           cp_resetGeneration =
             (case sc_resetGeneration old of Some n \<Rightarrow> if is_safe n then n else 0 | None \<Rightarrow> 0)\<rparr>)"

definition stored_form :: "checkpoint \<Rightarrow> stored_checkpoint" where
  "stored_form info =
     \<lparr>sc_lastLocalSeq = Some (cp_lastLocalSeq info), sc_journalEpoch = Some (cp_journalEpoch info),
      sc_knownIDs = Some (AsSet (cp_knownIDs info)), sc_sentIDs = Some (AsSet (cp_sentIDs info)),
      sc_receivedFiles = Some (AsSet (cp_receivedFiles info)), sc_sentFiles = Some (AsSet (cp_sentFiles info)),
      sc_resetGeneration = Some (cp_resetGeneration info)\<rparr>"

section \<open>The copy in memory\<close>

record unwritten_progress =
  up_knownIDs :: "string set"
  up_receivedFiles :: "string set"
  up_since :: int

record held_checkpoint =
  hc_info :: checkpoint
  hc_writes :: nat
  hc_unwritten :: "unwritten_progress option"

text \<open>
  A client with the record of its store and the number of writes to it. The key under which the record lies names
  the remote; the remote stays the same here.
\<close>

record journal_client =
  jc_store :: "stored_checkpoint option"
  jc_writes :: nat
  jc_held :: "held_checkpoint option"
  jc_holders :: nat
  jc_keptSince :: "int option"
  jc_preflightPending :: bool
  jc_current :: checkpoint

definition CHECKPOINT_WRITE_INTERVAL_MS :: int where "CHECKPOINT_WRITE_INTERVAL_MS = 30 * 1000"

definition hasPassed :: "int \<Rightarrow> int \<Rightarrow> int \<Rightarrow> bool" where
  "hasPassed since t interval = (let elapsed = t - since in elapsed < 0 \<or> elapsed \<ge> interval)"

definition keepsCheckpoint :: "int \<Rightarrow> journal_client \<Rightarrow> bool" where
  "keepsCheckpoint t c \<longleftrightarrow>
     (if jc_holders c > 0 then True
      else (case jc_keptSince c of Some since \<Rightarrow> \<not> hasPassed since t CHECKPOINT_WRITE_INTERVAL_MS | None \<Rightarrow> False))"

definition add_progress :: "unwritten_progress \<Rightarrow> checkpoint \<Rightarrow> checkpoint" where
  "add_progress u info =
     info\<lparr>cp_knownIDs := cp_knownIDs info \<union> up_knownIDs u, cp_receivedFiles := cp_receivedFiles info \<union> up_receivedFiles u\<rparr>"

text \<open>The checkpoint of a holder of the lock: the copy while nobody has written since, otherwise the record.\<close>

definition kept_unwritten :: "held_checkpoint option \<Rightarrow> checkpoint \<Rightarrow> unwritten_progress option" where
  "kept_unwritten held info =
     (case held of
        None \<Rightarrow> None
      | Some h \<Rightarrow> if cp_resetGeneration (hc_info h) = cp_resetGeneration info then hc_unwritten h else None)"

definition loadCheckpoint :: "int \<Rightarrow> journal_client \<Rightarrow> checkpoint \<times> journal_client" where
  "loadCheckpoint t c =
     (let keeps = keepsCheckpoint t c;
          held = (if keeps then jc_held c else None)
      in case held of
           Some h \<Rightarrow>
             if hc_writes h = jc_writes c then (hc_info h, c)
             else
               (let info = readCheckpointRecord (jc_store c);
                    unwritten = kept_unwritten held info;
                    info' = (case unwritten of Some u \<Rightarrow> add_progress u info | None \<Rightarrow> info)
                in (info', c\<lparr>jc_current := info', jc_held := Some \<lparr>hc_info = info', hc_writes = jc_writes c, hc_unwritten = unwritten\<rparr>\<rparr>))
         | None \<Rightarrow>
             (let info = readCheckpointRecord (jc_store c)
              in (info, c\<lparr>jc_current := info,
                    jc_held := if keeps then Some \<lparr>hc_info = info, hc_writes = jc_writes c, hc_unwritten = None\<rparr> else None\<rparr>)))"

text \<open>The write of the whole record. It counts before the store answers; \<open>stored\<close> is whether the store wrote.\<close>

definition writeCheckpoint :: "bool \<Rightarrow> checkpoint \<Rightarrow> journal_client \<Rightarrow> journal_client" where
  "writeCheckpoint stored info c =
     (let c' = c\<lparr>jc_writes := jc_writes c + 1, jc_current := info\<rparr>
      in if \<not> stored then c'
         else c'\<lparr>jc_store := Some (stored_form info),
                 jc_held := (case jc_held c of Some h \<Rightarrow> Some \<lparr>hc_info = info, hc_writes = jc_writes c + 1, hc_unwritten = None\<rparr> | None \<Rightarrow> None)\<rparr>)"

text \<open>An update of the record; one that removes history counts as a reset.\<close>

definition removes_history :: "checkpoint \<Rightarrow> checkpoint \<Rightarrow> bool" where
  "removes_history old updated \<longleftrightarrow>
     cp_lastLocalSeq updated < cp_lastLocalSeq old \<or> card (cp_knownIDs updated) < card (cp_knownIDs old) \<or>
     card (cp_sentIDs updated) < card (cp_sentIDs old) \<or> card (cp_receivedFiles updated) < card (cp_receivedFiles old) \<or>
     card (cp_sentFiles updated) < card (cp_sentFiles old)"

definition updated_record :: "bool \<Rightarrow> checkpoint \<Rightarrow> checkpoint \<Rightarrow> checkpoint" where
  "updated_record isReset old updated =
     updated\<lparr>cp_resetGeneration :=
       if isReset \<or> removes_history old updated then cp_resetGeneration old + 1 else cp_resetGeneration old\<rparr>"

text \<open>\<open>func\<close> answers \<open>None\<close> when it gives back the checkpoint that it was given. The update throws when the store does.\<close>

definition updateCheckPointInfo ::
    "int \<Rightarrow> bool \<Rightarrow> bool \<Rightarrow> (checkpoint \<Rightarrow> checkpoint option) \<Rightarrow> journal_client \<Rightarrow> checkpoint option \<times> journal_client" where
  "updateCheckPointInfo t stored isReset func c =
     (case loadCheckpoint t c of (old, c') \<Rightarrow>
        (case func old of
           None \<Rightarrow> (Some old, c')
         | Some updated \<Rightarrow>
             (let newInfo = updated_record isReset old updated
              in (if stored then Some newInfo else None, writeCheckpoint stored newInfo c'))))"

definition getCheckpointInfo :: "int \<Rightarrow> journal_client \<Rightarrow> checkpoint \<times> journal_client" where
  "getCheckpointInfo t c =
     (case (if keepsCheckpoint t c then jc_held c else None) of
        Some h \<Rightarrow> if hc_writes h = jc_writes c then (hc_info h, c) else loadCheckpoint t c
      | None \<Rightarrow> loadCheckpoint t c)"

text \<open>
  The registration of what a receive has stored; \<open>None\<close> when the store throws. It is written at once unless a
  transfer holds the copy, and then at the end of the interval.
\<close>

definition unwritten_of :: "int \<Rightarrow> held_checkpoint \<Rightarrow> unwritten_progress" where
  "unwritten_of t h =
     (case hc_unwritten h of Some u \<Rightarrow> u | None \<Rightarrow> \<lparr>up_knownIDs = {}, up_receivedFiles = {}, up_since = t\<rparr>)"

definition registerReceived ::
    "int \<Rightarrow> bool \<Rightarrow> int option \<Rightarrow> string list \<Rightarrow> string list \<Rightarrow> journal_client \<Rightarrow> bool option \<times> journal_client" where
  "registerReceived t stored resetGeneration knownIDs receivedFiles c =
     (case loadCheckpoint t c of (info, c1) \<Rightarrow>
        if resetGeneration \<noteq> None \<and> resetGeneration \<noteq> Some (cp_resetGeneration info) then (Some False, c1)
        else if knownIDs = [] \<and> receivedFiles = [] then (Some True, c1)
        else
          let info' = info\<lparr>cp_knownIDs := cp_knownIDs info \<union> set knownIDs, cp_receivedFiles := cp_receivedFiles info \<union> set receivedFiles\<rparr>
          in case (if jc_holders c1 > 0 then jc_held c1 else None) of
               None \<Rightarrow> (if stored then Some True else None, writeCheckpoint stored info' (c1\<lparr>jc_current := info'\<rparr>))
             | Some h \<Rightarrow>
                 let u = unwritten_of t h;
                     u' = u\<lparr>up_knownIDs := up_knownIDs u \<union> set knownIDs, up_receivedFiles := up_receivedFiles u \<union> set receivedFiles\<rparr>;
                     c2 = c1\<lparr>jc_current := info', jc_held := Some (h\<lparr>hc_info := info', hc_unwritten := Some u'\<rparr>)\<rparr>
                 in if hasPassed (up_since u') t CHECKPOINT_WRITE_INTERVAL_MS
                    then (if stored then Some True else None, writeCheckpoint stored info' c2)
                    else (Some True, c2))"

text \<open>A transfer begins to hold the copy, and ends; the last one to end writes what was only registered.\<close>

definition holdingCheckpoint :: "int \<Rightarrow> journal_client \<Rightarrow> journal_client" where
  "holdingCheckpoint t c =
     (if keepsCheckpoint t c then c else c\<lparr>jc_held := None\<rparr>)\<lparr>jc_holders := jc_holders c + 1\<rparr>"

definition forgetCopy :: "journal_client \<Rightarrow> journal_client" where
  "forgetCopy c = c\<lparr>jc_held := None, jc_keptSince := None, jc_preflightPending := False\<rparr>"

definition has_unwritten :: "journal_client \<Rightarrow> bool" where
  "has_unwritten c \<longleftrightarrow> (case jc_held c of Some h \<Rightarrow> hc_unwritten h \<noteq> None | None \<Rightarrow> False)"

definition releaseCheckpoint :: "int \<Rightarrow> bool \<Rightarrow> journal_client \<Rightarrow> journal_client" where
  "releaseCheckpoint t stored c =
     (if jc_holders c > 1 then c\<lparr>jc_holders := jc_holders c - 1\<rparr>
      else
        let c1 = (if has_unwritten c then
                    (case loadCheckpoint t c of (info, c') \<Rightarrow> if has_unwritten c' then writeCheckpoint stored info c' else c')
                  else c)
        in (forgetCopy c1)\<lparr>jc_holders := jc_holders c - 1\<rparr>)"

text \<open>
  The checks before a cycle give up the copy, so that the record is read for the cycle, and keep the new one for the
  transfer that follows: the look for local changes, and the check that the caches are fresh, which goes on with the
  copy of the former.
\<close>

definition localPreflight :: "int \<Rightarrow> journal_client \<Rightarrow> journal_client" where
  "localPreflight t c =
     (if jc_holders c = 0 then c\<lparr>jc_held := None, jc_keptSince := Some t, jc_preflightPending := True\<rparr> else c)"

definition cyclePreflight :: "int \<Rightarrow> journal_client \<Rightarrow> journal_client" where
  "cyclePreflight t c =
     (if jc_holders c = 0 then
        c\<lparr>jc_held := if \<not> jc_preflightPending c \<or> \<not> keepsCheckpoint t c then None else jc_held c,
          jc_keptSince := Some t, jc_preflightPending := False\<rparr>
      else c)"

section \<open>What the copy stands for\<close>

text \<open>
  The specification has no copy: the record as it is stored, with what was registered and is not written yet. The
  operations of the clients of the process, each with the time at which it runs and whether the store can write.
\<close>

datatype checkpoint_op =
  GetOp int
| UpdateOp int bool bool "checkpoint \<Rightarrow> checkpoint option"
| RegisterOp int bool "int option" "string list" "string list"
| HoldOp int
| ReleaseOp int bool
| PreflightOp int bool
| OtherWrite bool checkpoint

datatype checkpoint_answer = Answer checkpoint | Registered bool | StoreFailed | Settled

record checkpoint_spec =
  ss_disk :: checkpoint
  ss_pending :: "unwritten_progress option"
  ss_holders :: nat

fun exec :: "checkpoint_op \<Rightarrow> journal_client \<Rightarrow> checkpoint_answer \<times> journal_client" where
  "exec (GetOp t) c = (case getCheckpointInfo t c of (info, c') \<Rightarrow> (Answer info, c'))"
| "exec (UpdateOp t stored isReset func) c =
     (case updateCheckPointInfo t stored isReset func c of
        (Some info, c') \<Rightarrow> (Answer info, c') | (None, c') \<Rightarrow> (StoreFailed, c'))"
| "exec (RegisterOp t stored g ids files) c =
     (case registerReceived t stored g ids files c of (Some b, c') \<Rightarrow> (Registered b, c') | (None, c') \<Rightarrow> (StoreFailed, c'))"
| "exec (HoldOp t) c = (Settled, holdingCheckpoint t c)"
| "exec (ReleaseOp t stored) c = (Settled, releaseCheckpoint t stored c)"
| "exec (PreflightOp t isLocal) c = (Settled, if isLocal then localPreflight t c else cyclePreflight t c)"
| "exec (OtherWrite stored r) c =
     (Settled, c\<lparr>jc_writes := jc_writes c + 1, jc_store := if stored then Some (stored_form r) else jc_store c\<rparr>)"

definition with_pending :: "unwritten_progress option \<Rightarrow> checkpoint \<Rightarrow> checkpoint" where
  "with_pending u info = (case u of Some p \<Rightarrow> add_progress p info | None \<Rightarrow> info)"

definition spec_seen :: "checkpoint_spec \<Rightarrow> checkpoint" where
  "spec_seen s = with_pending (ss_pending s) (ss_disk s)"

definition add_registered :: "int \<Rightarrow> string list \<Rightarrow> string list \<Rightarrow> unwritten_progress option \<Rightarrow> unwritten_progress" where
  "add_registered t ids files u =
     (case u of
        Some p \<Rightarrow> p\<lparr>up_knownIDs := up_knownIDs p \<union> set ids, up_receivedFiles := up_receivedFiles p \<union> set files\<rparr>
      | None \<Rightarrow> \<lparr>up_knownIDs = set ids, up_receivedFiles = set files, up_since = t\<rparr>)"

fun spec_step :: "checkpoint_op \<Rightarrow> checkpoint_spec \<Rightarrow> checkpoint_answer \<times> checkpoint_spec" where
  "spec_step (GetOp t) s = (Answer (spec_seen s), s)"
| "spec_step (UpdateOp t stored isReset func) s =
     (case func (spec_seen s) of
        None \<Rightarrow> (Answer (spec_seen s), s)
      | Some updated \<Rightarrow>
          let new = updated_record isReset (spec_seen s) updated
          in if stored then (Answer new, s\<lparr>ss_disk := new, ss_pending := None\<rparr>) else (StoreFailed, s))"
| "spec_step (RegisterOp t stored g ids files) s =
     (if g \<noteq> None \<and> g \<noteq> Some (cp_resetGeneration (ss_disk s)) then (Registered False, s)
      else if ids = [] \<and> files = [] then (Registered True, s)
      else
        let u = add_registered t ids files (ss_pending s)
        in if ss_holders s > 0 \<and> \<not> hasPassed (up_since u) t CHECKPOINT_WRITE_INTERVAL_MS
           then (Registered True, s\<lparr>ss_pending := Some u\<rparr>)
           else if stored then (Registered True, s\<lparr>ss_disk := with_pending (Some u) (ss_disk s), ss_pending := None\<rparr>)
           else (StoreFailed, if ss_holders s > 0 then s\<lparr>ss_pending := Some u\<rparr> else s))"
| "spec_step (HoldOp t) s = (Settled, s\<lparr>ss_holders := ss_holders s + 1\<rparr>)"
| "spec_step (ReleaseOp t stored) s =
     (Settled,
      if ss_holders s > 1 then s\<lparr>ss_holders := ss_holders s - 1\<rparr>
      else s\<lparr>ss_disk := if stored then spec_seen s else ss_disk s, ss_pending := None, ss_holders := ss_holders s - 1\<rparr>)"
| "spec_step (PreflightOp t isLocal) s = (Settled, s)"
| "spec_step (OtherWrite stored r) s =
     (Settled,
      if stored then s\<lparr>ss_disk := r, ss_pending := if cp_resetGeneration r = cp_resetGeneration (ss_disk s) then ss_pending s else None\<rparr>
      else s)"

text \<open>
  The generation in the store is a safe integer, and a write of another client never takes it back; updates take it
  one further at most.
\<close>

fun op_fine :: "checkpoint_op \<Rightarrow> checkpoint_spec \<Rightarrow> bool" where
  "op_fine (OtherWrite stored r) s \<longleftrightarrow> cp_resetGeneration (ss_disk s) \<le> cp_resetGeneration r \<and> is_safe (cp_resetGeneration r)"
| "op_fine (UpdateOp t stored isReset func) s \<longleftrightarrow> is_safe (cp_resetGeneration (ss_disk s) + 1)"
| "op_fine _ s \<longleftrightarrow> True"

fun exec_run :: "checkpoint_op list \<Rightarrow> journal_client \<Rightarrow> checkpoint_answer list" where
  "exec_run [] c = []"
| "exec_run (op # ops) c = (case exec op c of (a, c') \<Rightarrow> a # exec_run ops c')"

fun spec_run :: "checkpoint_op list \<Rightarrow> checkpoint_spec \<Rightarrow> checkpoint_answer list" where
  "spec_run [] s = []"
| "spec_run (op # ops) s = (case spec_step op s of (a, s') \<Rightarrow> a # spec_run ops s')"

fun run_fine :: "checkpoint_op list \<Rightarrow> checkpoint_spec \<Rightarrow> bool" where
  "run_fine [] s = True"
| "run_fine (op # ops) s = (op_fine op s \<and> run_fine ops (snd (spec_step op s)))"

subsection \<open>The simulation\<close>

definition disk :: "journal_client \<Rightarrow> checkpoint" where
  "disk c = readCheckpointRecord (jc_store c)"

definition spec_of :: "journal_client \<Rightarrow> checkpoint_spec" where
  "spec_of c = \<lparr>ss_disk = disk c, ss_pending = kept_unwritten (jc_held c) (disk c), ss_holders = jc_holders c\<rparr>"

definition coherent :: "journal_client \<Rightarrow> bool" where
  "coherent c \<longleftrightarrow>
     (\<forall>h. jc_held c = Some h \<longrightarrow>
        (hc_writes h = jc_writes c \<longrightarrow> hc_info h = with_pending (hc_unwritten h) (disk c)) \<and> hc_writes h \<le> jc_writes c \<and>
        cp_resetGeneration (hc_info h) \<le> cp_resetGeneration (disk c) \<and> (jc_holders c = 0 \<longrightarrow> hc_unwritten h = None))"

lemma generation_pending [simp]: "cp_resetGeneration (with_pending u info) = cp_resetGeneration info"
  by (simp add: with_pending_def add_progress_def split: option.split)

lemma generation_progress [simp]: "cp_resetGeneration (add_progress u info) = cp_resetGeneration info"
  by (simp add: add_progress_def)

lemma with_pending_None [simp]: "with_pending None info = info"
  by (simp add: with_pending_def)

lemma read_stored: "is_safe (cp_resetGeneration info) \<Longrightarrow> readCheckpointRecord (Some (stored_form info)) = info"
  by (simp add: readCheckpointRecord_def stored_form_def)

lemma disk_safe: "is_safe (cp_resetGeneration (disk c))"
  by (simp add: disk_def readCheckpointRecord_def createCheckPointInfoDefault_def is_safe_def split: option.split)

lemma disk_updates [simp]:
  "disk (c\<lparr>jc_current := x\<rparr>) = disk c" "disk (c\<lparr>jc_held := y\<rparr>) = disk c" "disk (c\<lparr>jc_holders := n\<rparr>) = disk c"
  "disk (c\<lparr>jc_keptSince := k\<rparr>) = disk c" "disk (c\<lparr>jc_preflightPending := b\<rparr>) = disk c" "disk (c\<lparr>jc_writes := w\<rparr>) = disk c"
  by (simp_all add: disk_def)

lemma kept_unwritten_fresh [simp]:
  "cp_resetGeneration i = cp_resetGeneration d \<Longrightarrow> kept_unwritten (Some \<lparr>hc_info = i, hc_writes = w, hc_unwritten = u\<rparr>) d = u"
  "kept_unwritten None d = None"
  by (simp_all add: kept_unwritten_def)

lemma keeps_holders: "\<not> keepsCheckpoint t c \<Longrightarrow> jc_holders c = 0"
  by (auto simp: keepsCheckpoint_def split: if_splits)

lemma load_spec:
  assumes "coherent c"
  shows "\<exists>c'. loadCheckpoint t c = (spec_seen (spec_of c), c') \<and> coherent c' \<and> spec_of c' = spec_of c \<and>
    jc_writes c' = jc_writes c \<and> jc_store c' = jc_store c \<and> jc_keptSince c' = jc_keptSince c \<and>
    (if keepsCheckpoint t c
     then jc_held c' = Some \<lparr>hc_info = spec_seen (spec_of c), hc_writes = jc_writes c, hc_unwritten = ss_pending (spec_of c)\<rparr>
     else jc_held c' = None) \<and> jc_holders c' = jc_holders c"
proof (cases "if keepsCheckpoint t c then jc_held c else None")
  case None
  then have p: "kept_unwritten (jc_held c) (disk c) = None"
    using assms keeps_holders [of t c] by (auto simp: kept_unwritten_def coherent_def split: if_splits option.splits)
  with None show ?thesis
    by (auto simp: loadCheckpoint_def Let_def spec_of_def spec_seen_def coherent_def disk_def [symmetric] kept_unwritten_def
        split: if_splits)
next
  case (Some h)
  then have k: "keepsCheckpoint t c" and h: "jc_held c = Some h" by (simp_all split: if_splits)
  show ?thesis
  proof (cases "hc_writes h = jc_writes c")
    case True
    with assms h have i: "hc_info h = with_pending (hc_unwritten h) (disk c)" by (simp add: coherent_def)
    then have "kept_unwritten (jc_held c) (disk c) = hc_unwritten h" by (simp add: kept_unwritten_def h)
    with True k h i assms show ?thesis
      by (intro exI [of _ c]) (cases h, simp add: loadCheckpoint_def Let_def spec_of_def spec_seen_def)
  next
    case False
    let ?u = "kept_unwritten (jc_held c) (disk c)" and ?i = "with_pending (kept_unwritten (jc_held c) (disk c)) (disk c)"
    let ?c = "c\<lparr>jc_current := ?i, jc_held := Some \<lparr>hc_info = ?i, hc_writes = jc_writes c, hc_unwritten = ?u\<rparr>\<rparr>"
    have d: "disk ?c = disk c" by (simp add: disk_def)
    have l: "loadCheckpoint t c = (?i, ?c)"
      using False k h by (simp add: loadCheckpoint_def Let_def disk_def with_pending_def)
    have "jc_holders c = 0 \<longrightarrow> ?u = None" using assms h by (auto simp: coherent_def kept_unwritten_def)
    then have "coherent ?c" by (simp add: coherent_def d)
    moreover have "spec_of ?c = spec_of c" by (simp add: spec_of_def)
    ultimately show ?thesis using l k by (simp add: spec_seen_def spec_of_def)
  qed
qed

lemma write_spec:
  assumes "is_safe (cp_resetGeneration info)"
  shows "spec_of (writeCheckpoint True info c) = (spec_of c)\<lparr>ss_disk := info, ss_pending := None\<rparr>" and "coherent (writeCheckpoint True info c)"
    using read_stored [OF assms(1)]
  by (auto simp: writeCheckpoint_def spec_of_def disk_def kept_unwritten_def coherent_def split: option.split)

lemma failed_write_spec:
  assumes "coherent c"
  shows "spec_of (writeCheckpoint False info c) = spec_of c" and "coherent (writeCheckpoint False info c)"
  using assms by (auto simp: writeCheckpoint_def Let_def spec_of_def coherent_def)

lemma get_spec:
  assumes "coherent c"
  shows "\<exists>c'. getCheckpointInfo t c = (spec_seen (spec_of c), c') \<and> coherent c' \<and> spec_of c' = spec_of c"
proof (cases "if keepsCheckpoint t c then jc_held c else None")
  case None
  with load_spec [OF assms, of t] show ?thesis by (auto simp: getCheckpointInfo_def)
next
  case (Some h)
  then have h: "jc_held c = Some h" by (simp split: if_splits)
  show ?thesis
  proof (cases "hc_writes h = jc_writes c")
    case True
    with assms h have "hc_info h = with_pending (hc_unwritten h) (disk c)" by (simp add: coherent_def)
    then have "hc_info h = spec_seen (spec_of c)" by (simp add: spec_seen_def spec_of_def kept_unwritten_def h)
    with True Some assms show ?thesis by (simp add: getCheckpointInfo_def)
  next
    case False
    with Some load_spec [OF assms, of t] show ?thesis by (auto simp: getCheckpointInfo_def)
  qed
qed

lemma seen_generation: "cp_resetGeneration (spec_seen (spec_of c)) = cp_resetGeneration (disk c)"
  by (simp add: spec_seen_def spec_of_def)

lemma update_spec:
  assumes c: "coherent c" and safe: "is_safe (cp_resetGeneration (disk c) + 1)"
  shows "\<exists>c'. exec (UpdateOp t stored isReset func) c = (fst (spec_step (UpdateOp t stored isReset func) (spec_of c)), c') \<and>
    coherent c' \<and> spec_of c' = snd (spec_step (UpdateOp t stored isReset func) (spec_of c))"
proof -
  obtain c1 where l: "loadCheckpoint t c = (spec_seen (spec_of c), c1)" "coherent c1" "spec_of c1 = spec_of c"
    using load_spec [OF c, of t] by blast
  show ?thesis
  proof (cases "func (spec_seen (spec_of c))")
    case None
    with l show ?thesis by (simp add: updateCheckPointInfo_def)
  next
    case (Some updated)
    let ?new = "updated_record isReset (spec_seen (spec_of c)) updated"
    have "cp_resetGeneration ?new \<in> {cp_resetGeneration (disk c), cp_resetGeneration (disk c) + 1}"
      by (simp add: updated_record_def seen_generation)
    then have "is_safe (cp_resetGeneration ?new)" using safe disk_safe by auto
    with write_spec [OF this] failed_write_spec [OF l(2)] l Some show ?thesis
      by (cases stored) (auto simp: updateCheckPointInfo_def Let_def)
  qed
qed

lemma with_registered:
  "with_pending (Some (add_registered t ids files u)) d =
     (with_pending u d)\<lparr>cp_knownIDs := cp_knownIDs (with_pending u d) \<union> set ids,
        cp_receivedFiles := cp_receivedFiles (with_pending u d) \<union> set files\<rparr>"
  by (simp add: with_pending_def add_registered_def add_progress_def Un_assoc split: option.split)

lemma registered_unwritten:
  "(unwritten_of t h)\<lparr>up_knownIDs := up_knownIDs (unwritten_of t h) \<union> set ids, up_receivedFiles := up_receivedFiles (unwritten_of t h) \<union> set files\<rparr> =
     add_registered t ids files (hc_unwritten h)"
  by (simp add: unwritten_of_def add_registered_def split: option.split)

lemma registered_since: "up_since (unwritten_of t h) = up_since (add_registered t ids files (hc_unwritten h))"
  by (simp add: unwritten_of_def add_registered_def split: option.split)

lemma register_spec:
  assumes c: "coherent c"
  shows "\<exists>c'. exec (RegisterOp t stored g ids files) c = (fst (spec_step (RegisterOp t stored g ids files) (spec_of c)), c') \<and>
    coherent c' \<and> spec_of c' = snd (spec_step (RegisterOp t stored g ids files) (spec_of c))"
proof -
  let ?s = "spec_of c" and ?info = "spec_seen (spec_of c)"
  let ?u = "add_registered t ids files (ss_pending ?s)" and ?info' = "with_pending (Some (add_registered t ids files (ss_pending (spec_of c)))) (disk c)"
  obtain c1 where l: "loadCheckpoint t c = (?info, c1)" and c1: "coherent c1" "spec_of c1 = ?s" "jc_writes c1 = jc_writes c" "jc_holders c1 = jc_holders c"
    and h: "if keepsCheckpoint t c then jc_held c1 = Some \<lparr>hc_info = ?info, hc_writes = jc_writes c, hc_unwritten = ss_pending ?s\<rparr> else jc_held c1 = None"
    using load_spec [OF c, of t] by blast
  have d: "disk c1 = disk c" using c1(2) by (simp add: spec_of_def)
  have i: "?info\<lparr>cp_knownIDs := cp_knownIDs ?info \<union> set ids, cp_receivedFiles := cp_receivedFiles ?info \<union> set files\<rparr> = ?info'"
    by (simp add: with_registered spec_seen_def) (simp add: spec_of_def)
  have safe: "is_safe (cp_resetGeneration ?info')" using disk_safe by simp
  consider (refuse) "g \<noteq> None \<and> g \<noteq> Some (cp_resetGeneration ?info) \<or> ids = [] \<and> files = []"
    | (direct) "g = None \<or> g = Some (cp_resetGeneration ?info)" "\<not> (ids = [] \<and> files = [])" "jc_holders c = 0"
    | (held) "g = None \<or> g = Some (cp_resetGeneration ?info)" "\<not> (ids = [] \<and> files = [])" "0 < jc_holders c"
    using neq0_conv [of "jc_holders c"] by argo
  then show ?thesis
  proof cases
    case refuse
    with l c1 seen_generation [of c] show ?thesis by (auto simp: registerReceived_def spec_of_def)
  next
    case direct
    let ?c2 = "c1\<lparr>jc_current := ?info'\<rparr>"
    have "coherent ?c2" "spec_of ?c2 = ?s" using c1 by (auto simp: coherent_def spec_of_def)
    with failed_write_spec [of ?c2 ?info'] write_spec [OF safe, of ?c2] direct l c1 i seen_generation [of c] show ?thesis
      by (cases stored) (auto simp: registerReceived_def Let_def spec_of_def)
  next
    case held
    then have "keepsCheckpoint t c" by (simp add: keepsCheckpoint_def)
    with h have h1: "jc_held c1 = Some \<lparr>hc_info = ?info, hc_writes = jc_writes c, hc_unwritten = ss_pending ?s\<rparr>" by simp
    let ?c2 = "c1\<lparr>jc_current := ?info', jc_held := Some \<lparr>hc_info = ?info', hc_writes = jc_writes c, hc_unwritten = Some ?u\<rparr>\<rparr>"
    have r: "registerReceived t stored g ids files c =
        (if hasPassed (up_since ?u) t CHECKPOINT_WRITE_INTERVAL_MS
         then (if stored then Some True else None, writeCheckpoint stored ?info' ?c2) else (Some True, ?c2))"
      using held l c1 i h1 by (auto simp: registerReceived_def Let_def registered_unwritten registered_since [of t _ ids files])
    have c2: "coherent ?c2" "spec_of ?c2 = ?s\<lparr>ss_pending := Some ?u\<rparr>"
      using c1 held d by (simp_all add: coherent_def spec_of_def)
    with failed_write_spec [OF c2(1), of ?info'] write_spec [OF safe, of ?c2] held r c1 seen_generation [of c] show ?thesis
      by (cases stored) (auto simp: spec_of_def)
  qed
qed

lemma hold_spec:
  assumes "coherent c"
  shows "coherent (holdingCheckpoint t c)" and "spec_of (holdingCheckpoint t c) = (spec_of c)\<lparr>ss_holders := ss_holders (spec_of c) + 1\<rparr>"
  using assms keeps_holders [of t c]
  by (auto simp: holdingCheckpoint_def coherent_def spec_of_def kept_unwritten_def split: option.split)

lemma forget_spec: "coherent ((forgetCopy c)\<lparr>jc_holders := n\<rparr>)" "disk (forgetCopy c) = disk c"
  "spec_of ((forgetCopy c)\<lparr>jc_holders := n\<rparr>) = \<lparr>ss_disk = disk c, ss_pending = None, ss_holders = n\<rparr>"
  by (simp_all add: forgetCopy_def coherent_def spec_of_def disk_def)

lemma release_spec:
  assumes c: "coherent c"
  shows "coherent (releaseCheckpoint t stored c) \<and> spec_of (releaseCheckpoint t stored c) = snd (spec_step (ReleaseOp t stored) (spec_of c))"
proof (cases "1 < jc_holders c")
  case True
  with c show ?thesis by (simp add: releaseCheckpoint_def coherent_def spec_of_def)
next
  case last: False
  obtain c1 where l: "loadCheckpoint t c = (spec_seen (spec_of c), c1)" and c1: "coherent c1" "spec_of c1 = spec_of c"
    and h: "if keepsCheckpoint t c then jc_held c1 = Some \<lparr>hc_info = spec_seen (spec_of c), hc_writes = jc_writes c, hc_unwritten = ss_pending (spec_of c)\<rparr> else jc_held c1 = None"
    using load_spec [OF c, of t] by blast
  have d: "disk c1 = disk c" using c1(2) by (simp add: spec_of_def)
  have safe: "is_safe (cp_resetGeneration (spec_seen (spec_of c)))" using disk_safe by (simp add: seen_generation)
  show ?thesis
  proof (cases "has_unwritten c")
    case False
    then have "ss_pending (spec_of c) = None"
      by (auto simp: has_unwritten_def spec_of_def kept_unwritten_def split: option.splits)
    with False last show ?thesis by (simp add: releaseCheckpoint_def forget_spec spec_seen_def) (simp add: spec_of_def)
  next
    case True
    then have "jc_holders c > 0" using c by (auto simp: has_unwritten_def coherent_def split: option.splits)
    then have "keepsCheckpoint t c" by (simp add: keepsCheckpoint_def)
    with h have h1: "jc_held c1 = Some \<lparr>hc_info = spec_seen (spec_of c), hc_writes = jc_writes c, hc_unwritten = ss_pending (spec_of c)\<rparr>" by simp
    show ?thesis
    proof (cases "ss_pending (spec_of c)")
      case None
      with True last l h1 d show ?thesis
        by (simp add: releaseCheckpoint_def forget_spec has_unwritten_def spec_seen_def) (simp add: spec_of_def)
    next
      case (Some u)
      have "disk (writeCheckpoint stored (spec_seen (spec_of c)) c1) = (if stored then spec_seen (spec_of c) else disk c)"
        using write_spec(1) [OF safe, of c1] failed_write_spec(1) [OF c1(1), of "spec_seen (spec_of c)"] d
        by (cases stored) (simp_all add: spec_of_def)
      with True last l h1 Some show ?thesis
        by (simp add: releaseCheckpoint_def forget_spec has_unwritten_def) (simp add: spec_of_def)
    qed
  qed
qed

lemma preflight_spec:
  assumes "coherent c"
  shows "coherent (localPreflight t c)" "spec_of (localPreflight t c) = spec_of c"
    "coherent (cyclePreflight t c)" "spec_of (cyclePreflight t c) = spec_of c"
  using assms
  by (auto simp: localPreflight_def cyclePreflight_def coherent_def spec_of_def kept_unwritten_def split: option.split)

lemma other_write_spec:
  assumes c: "coherent c" and fine: "op_fine (OtherWrite stored r) (spec_of c)"
  shows "\<exists>c'. exec (OtherWrite stored r) c = (Settled, c') \<and> coherent c' \<and> spec_of c' = snd (spec_step (OtherWrite stored r) (spec_of c))"
proof -
  let ?c = "c\<lparr>jc_writes := jc_writes c + 1, jc_store := if stored then Some (stored_form r) else jc_store c\<rparr>"
  have d: "disk ?c = (if stored then r else disk c)" using read_stored [of r] fine by (simp add: disk_def)
  have s: "spec_of ?c = \<lparr>ss_disk = if stored then r else disk c, ss_pending = kept_unwritten (jc_held c) (if stored then r else disk c), ss_holders = jc_holders c\<rparr>"
    unfolding spec_of_def d by simp
  have g: "cp_resetGeneration (disk c) \<le> cp_resetGeneration r" using fine by (simp add: spec_of_def)
  show ?thesis
  proof (cases "jc_held c")
    case None
    then have "coherent ?c" by (simp add: coherent_def)
    with None s show ?thesis by (auto simp: spec_of_def)
  next
    case (Some h)
    then have h: "hc_writes h \<le> jc_writes c" "cp_resetGeneration (hc_info h) \<le> cp_resetGeneration (disk c)"
        "jc_holders c = 0 \<longrightarrow> hc_unwritten h = None"
      using c by (simp_all add: coherent_def)
    have "coherent ?c" unfolding coherent_def d using Some h g by simp
    moreover have "kept_unwritten (Some h) r = (if cp_resetGeneration r = cp_resetGeneration (disk c) then kept_unwritten (Some h) (disk c) else None)"
      using h(2) g by (simp add: kept_unwritten_def)
    ultimately show ?thesis using Some s by (auto simp: spec_of_def)
  qed
qed

lemma step_simulated:
  assumes "coherent c" and "op_fine op (spec_of c)"
  shows "\<exists>c'. exec op c = (fst (spec_step op (spec_of c)), c') \<and> coherent c' \<and> spec_of c' = snd (spec_step op (spec_of c))"
proof (cases op)
  case (GetOp t)
  with get_spec [OF assms(1), of t] show ?thesis by auto
next
  case (UpdateOp t stored isReset func)
  with assms update_spec [OF assms(1)] show ?thesis by (simp only: op_fine.simps) (simp add: spec_of_def)
next
  case (RegisterOp t stored g ids files)
  with register_spec [OF assms(1)] show ?thesis by blast
next
  case (HoldOp t)
  with hold_spec [OF assms(1)] show ?thesis by simp
next
  case (ReleaseOp t stored)
  with release_spec [OF assms(1), of t stored] show ?thesis by simp
next
  case (PreflightOp t isLocal)
  with preflight_spec [OF assms(1), of t] show ?thesis by simp
next
  case (OtherWrite stored r)
  with other_write_spec assms show ?thesis by simp
qed

section \<open>Properties\<close>

text \<open>
  C22. The copy in memory is invisible: whatever the operations of a client, the writes of other clients and the
  failures of the store, each operation answers what it would answer if every client read and wrote the record itself
  and kept beside it what it registered without writing it.
\<close>

theorem checkpoint_copy_refines:
  assumes "coherent c" and "run_fine ops (spec_of c)"
  shows "exec_run ops c = spec_run ops (spec_of c)"
  using assms
proof (induction ops arbitrary: c)
  case Nil
  then show ?case by simp
next
  case (Cons op ops)
  then obtain c' where "exec op c = (fst (spec_step op (spec_of c)), c')" "coherent c'" "spec_of c' = snd (spec_step op (spec_of c))"
    using step_simulated [of c op] by auto
  with Cons show ?case by (simp split: prod.split)
qed

definition sample_client :: journal_client where
  "sample_client = \<lparr>jc_store = None, jc_writes = 0, jc_held = None, jc_holders = 0, jc_keptSince = None, jc_preflightPending = False, jc_current = createCheckPointInfoDefault\<rparr>"

definition sample_other :: checkpoint where
  "sample_other = createCheckPointInfoDefault\<lparr>cp_lastLocalSeq := 5\<rparr>"

definition sample_ops :: "checkpoint_op list" where
  "sample_ops = [PreflightOp 0 True, HoldOp 0, RegisterOp 1 True (Some 0) [''h:1''] [], OtherWrite True sample_other, ReleaseOp 3 True, GetOp 4]"

lemma checkpoint_copy_refines_witness:
  "last (exec_run sample_ops sample_client) = Answer (sample_other\<lparr>cp_knownIDs := {''h:1''}\<rparr>)"
proof -
  have start: "spec_of sample_client = \<lparr>ss_disk = createCheckPointInfoDefault, ss_pending = None, ss_holders = 0\<rparr>"
    by (simp add: spec_of_def sample_client_def disk_def readCheckpointRecord_def)
  have "coherent sample_client" by (simp add: coherent_def sample_client_def)
  moreover have "run_fine sample_ops (spec_of sample_client)"
    unfolding start by (simp add: sample_ops_def sample_other_def createCheckPointInfoDefault_def is_safe_def Let_def)
  ultimately have "exec_run sample_ops sample_client = spec_run sample_ops (spec_of sample_client)"
    by (rule checkpoint_copy_refines)
  then show ?thesis
    unfolding start
    by (simp add: sample_ops_def sample_other_def createCheckPointInfoDefault_def Let_def add_registered_def hasPassed_def
        CHECKPOINT_WRITE_INTERVAL_MS_def spec_seen_def with_pending_def add_progress_def)
qed

end
