(* ===== verification/JournalSend.thy ===== *)
theory JournalSend
  imports JournalCheckpoint
begin

text \<open>
  Sending the local changes as journals (\<open>src/replication/journal/JournalSyncCore.ts\<close>). A reader goes through the
  changes of the local database after the stored position, brings along the chunks that the documents use and the
  remote lacks, and hands packs on; a packer collects rows into journals, large chunks apart; an uploader stores each
  journal and then records it in the checkpoint, with the position that is safe once it is stored. The three run
  at the same time over queues. The definitions are the steps between two awaits; \<open>JournalPipeline\<close> runs them. The
  local database, the storage and the clock are parameters or chosen by the environment. Log lines and the
  statistics of the user interface are left out.
\<close>

section \<open>Documents\<close>

text \<open>
  A document or a chunk as the local database answers it. \<open>jd_children\<close> are the strings of a list of children;
  \<open>jd_bytes\<close> is the length of its line in a journal, \<open>jd_dataLength\<close> that of the data of a chunk.
\<close>

record journal_doc =
  jd_id :: string
  jd_rev :: string
  jd_deleted :: bool
  jd_softDeleted :: bool
  jd_children :: "string list option"
  jd_size :: "int option"
  jd_bytes :: nat
  jd_dataLength :: nat

definition isChunkID :: "string \<Rightarrow> bool" where
  "isChunkID i \<longleftrightarrow> starts_with i ''h:''"

definition isChunkEntry :: "journal_doc \<Rightarrow> bool" where
  "isChunkEntry entry \<longleftrightarrow> isChunkID (jd_id entry)"

definition chunksInUseBy :: "journal_doc \<Rightarrow> string list" where
  "chunksInUseBy entry =
     (case jd_children entry of
        Some ids \<Rightarrow> if jd_deleted entry \<or> jd_softDeleted entry then [] else ids
      | None \<Rightarrow> [])"

definition docKeyOf :: "string \<Rightarrow> string \<Rightarrow> string" where
  "docKeyOf i rv = (if starts_with i ''h:'' then i else i @ ''-'' @ rv)"

definition getDocKey :: "journal_doc \<Rightarrow> string" where
  "getDocKey doc = docKeyOf (jd_id doc) (jd_rev doc)"

definition BULK_CHUNK_MIN_BYTES :: nat where "BULK_CHUNK_MIN_BYTES = 16 * 1024"

definition mayLeaveChunksUnused :: "journal_doc \<Rightarrow> bool" where
  "mayLeaveChunksUnused entry \<longleftrightarrow>
     jd_deleted entry \<or> jd_softDeleted entry \<or>
     (case jd_size entry of Some n \<Rightarrow> n \<ge> int BULK_CHUNK_MIN_BYTES | None \<Rightarrow> False)"

section \<open>Reading the changes\<close>

record change_row =
  ch_seq :: int
  ch_id :: string
  ch_revs :: "string list"

record changes_answer =
  ca_results :: "change_row list"
  ca_last_seq :: int

text \<open>\<open>override || lastLocalSeq\<close>: where the changes are read from.\<close>

definition pack_from :: "checkpoint \<Rightarrow> int \<Rightarrow> int" where
  "pack_from checkPointInfo override = (if override \<noteq> 0 then override else cp_lastLocalSeq checkPointInfo)"

definition unknown_revisions :: "checkpoint \<Rightarrow> change_row list \<Rightarrow> (string \<times> string) list" where
  "unknown_revisions checkPointInfo results =
     filter (\<lambda>(i, rv). docKeyOf i rv \<notin> cp_knownIDs checkPointInfo \<and> docKeyOf i rv \<notin> cp_sentIDs checkPointInfo)
       (concat (map (\<lambda>e. map (\<lambda>rv. (ch_id e, rv)) (ch_revs e)) results))"

record journal_pack =
  jp_changes :: "journal_doc list"
  jp_hasNext :: bool
  jp_packLastSeq :: int

text \<open>The pack from the answers of the database; \<open>None\<close> when a revision could not be read.\<close>

definition createJournalPack ::
    "checkpoint \<Rightarrow> changes_answer \<Rightarrow> int \<Rightarrow> ((string \<times> string) list \<Rightarrow> journal_doc list) \<Rightarrow> journal_pack option" where
  "createJournalPack checkPointInfo allChanges update_seq bulkGet =
     (let packLastSeq = ca_last_seq allChanges;
          hasNext = (packLastSeq < update_seq);
          unknown = unknown_revisions checkPointInfo (ca_results allChanges);
          docChanges = bulkGet unknown;
          loadedRevisions = map getDocKey docChanges
      in if ca_results allChanges = [] then Some \<lparr>jp_changes = [], jp_hasNext = False, jp_packLastSeq = packLastSeq\<rparr>
         else if unknown = [] then Some \<lparr>jp_changes = [], jp_hasNext = hasNext, jp_packLastSeq = packLastSeq\<rparr>
         else if list_ex (\<lambda>(i, rv). docKeyOf i rv \<notin> set loadedRevisions) unknown then None
         else Some \<lparr>jp_changes = docChanges, jp_hasNext = hasNext, jp_packLastSeq = packLastSeq\<rparr>)"

text \<open>The chunks that the documents of a pack use and the remote lacks, with the chunks this send has seen to.\<close>

fun absent_of :: "(string \<Rightarrow> bool) \<Rightarrow> string list \<Rightarrow> string list \<times> string set \<Rightarrow> string list \<times> string set" where
  "absent_of isInRemote [] (absent, brought) = (absent, brought)"
| "absent_of isInRemote (i # ids) (absent, brought) =
     (if i \<in> brought \<or> isInRemote i then absent_of isInRemote ids (absent, brought)
      else absent_of isInRemote ids (absent @ [i], insert i brought))"

fun chunksToBringAlong :: "(string \<Rightarrow> bool) \<Rightarrow> journal_doc list \<Rightarrow> string list \<times> string set \<Rightarrow> string list \<times> string set" where
  "chunksToBringAlong isInRemote [] (absent, brought) = (absent, brought)"
| "chunksToBringAlong isInRemote (row # rows) (absent, brought) =
     (if isChunkEntry row then chunksToBringAlong isInRemote rows (absent, insert (jd_id row) brought)
      else chunksToBringAlong isInRemote rows (absent_of isInRemote (chunksInUseBy row) (absent, brought)))"

definition LOCAL_CHUNK_READ_MAX_COUNT :: nat where "LOCAL_CHUNK_READ_MAX_COUNT = 50"
definition LOCAL_CHUNK_READ_MAX_BYTES :: nat where "LOCAL_CHUNK_READ_MAX_BYTES = 4 * 1024 * 1024"

text \<open>How many chunks the next slice reads, from the size of the largest chunk read so far.\<close>

definition slice_count :: "nat option \<Rightarrow> nat" where
  "slice_count largestBytes =
     (let n = (case largestBytes of None \<Rightarrow> 1 | Some b \<Rightarrow> LOCAL_CHUNK_READ_MAX_BYTES div max 1 b)
      in min LOCAL_CHUNK_READ_MAX_COUNT (max 1 n))"

text \<open>One slice: what was asked for, the chunks that are there, the rest, and the largest size so far.\<close>

definition read_slice ::
    "(string \<Rightarrow> journal_doc option) \<Rightarrow> string list \<Rightarrow> nat option \<Rightarrow> string list \<times> journal_doc list \<times> string list \<times> nat option" where
  "read_slice local ids largestBytes =
     (let n = slice_count largestBytes;
          asked = take n ids;
          chunks = List.map_filter local asked
      in (asked, chunks, drop n ids,
          foldl (\<lambda>m leaf. Some (max (case m of Some b \<Rightarrow> b | None \<Rightarrow> 0) (jd_dataLength leaf))) largestBytes chunks))"

record send_pack =
  sp_changes :: "journal_doc list"
  sp_packLastSeq :: int
  sp_storesPosition :: bool

section \<open>Packing\<close>

record send_buffer =
  sb_rows :: "journal_doc list"
  sb_binarySize :: nat
  sb_sentIDs :: "string list"
  sb_relied :: "(string \<times> string) list"

record journal_unit =
  ju_rows :: "journal_doc list"
  ju_packLastSeq :: int
  ju_sentIDs :: "string list"
  ju_isBulk :: bool
  ju_relied :: "(string \<times> string) list"

datatype send_unit = JournalUnit journal_unit | PositionOnly int

definition createBuffer :: send_buffer where
  "createBuffer = \<lparr>sb_rows = [], sb_binarySize = 0, sb_sentIDs = [], sb_relied = []\<rparr>"

definition maxOutBufLength :: nat where "maxOutBufLength = 250"
definition maxBinarySize :: nat where "maxBinarySize = 1024 * 1024 * 10"

definition isFull :: "send_buffer \<Rightarrow> bool" where
  "isFull buffer \<longleftrightarrow> length (sb_rows buffer) > maxOutBufLength \<or> sb_binarySize buffer > maxBinarySize"

record packer =
  pk_ordinary :: send_buffer
  pk_bulk :: send_buffer
  pk_lastProcessedSeq :: int
  pk_lastCompletedPackSeq :: int
  pk_safeSeq :: int
  pk_packedChunks :: "string set"
  pk_out :: "send_unit list"

definition new_packer :: "int \<Rightarrow> packer" where
  "new_packer startSeq =
     \<lparr>pk_ordinary = createBuffer, pk_bulk = createBuffer, pk_lastProcessedSeq = startSeq, pk_lastCompletedPackSeq = startSeq,
      pk_safeSeq = startSeq, pk_packedChunks = {}, pk_out = []\<rparr>"

definition unit_of_buffer :: "send_buffer \<Rightarrow> bool \<Rightarrow> int \<Rightarrow> send_unit" where
  "unit_of_buffer buffer isBulk packLastSeq =
     JournalUnit \<lparr>ju_rows = sb_rows buffer, ju_packLastSeq = packLastSeq, ju_sentIDs = sb_sentIDs buffer, ju_isBulk = isBulk,
       ju_relied = sb_relied buffer\<rparr>"

text \<open>The large chunks are closed first; only the last journal carries the position.\<close>

definition batch_units :: "packer \<Rightarrow> int \<Rightarrow> send_unit list" where
  "batch_units p packLastSeq =
     (let hasOrdinary = (sb_rows (pk_ordinary p) \<noteq> [])
      in (if sb_rows (pk_bulk p) \<noteq> [] then [unit_of_buffer (pk_bulk p) True (if hasOrdinary then pk_safeSeq p else packLastSeq)] else []) @
         (if hasOrdinary then [unit_of_buffer (pk_ordinary p) False packLastSeq] else []))"

definition closeBatch :: "int \<Rightarrow> packer \<Rightarrow> packer" where
  "closeBatch packLastSeq p =
     p\<lparr>pk_out := pk_out p @ batch_units p packLastSeq, pk_ordinary := createBuffer, pk_bulk := createBuffer, pk_safeSeq := packLastSeq\<rparr>"

definition add_row :: "journal_doc \<Rightarrow> send_buffer \<Rightarrow> send_buffer" where
  "add_row row buffer =
     buffer\<lparr>sb_sentIDs := sb_sentIDs buffer @ [getDocKey row], sb_binarySize := sb_binarySize buffer + jd_bytes row,
       sb_rows := sb_rows buffer @ [row]\<rparr>"

definition pack_row :: "journal_doc \<Rightarrow> int \<Rightarrow> packer \<Rightarrow> packer" where
  "pack_row row closingSeq p =
     (let isChunk = isChunkEntry row;
          p1 = (if isChunk then p\<lparr>pk_packedChunks := insert (jd_id row) (pk_packedChunks p)\<rparr> else p)
      in if isChunk \<and> jd_bytes row \<ge> BULK_CHUNK_MIN_BYTES then
           let b = add_row row (pk_bulk p1); p2 = p1\<lparr>pk_bulk := b\<rparr> in if isFull b then closeBatch closingSeq p2 else p2
         else
           let b = add_row row (pk_ordinary p1); p2 = p1\<lparr>pk_ordinary := b\<rparr> in if isFull b then closeBatch closingSeq p2 else p2)"

definition rely_on_remote :: "journal_doc \<Rightarrow> packer \<Rightarrow> packer" where
  "rely_on_remote row p =
     (if list_ex (\<lambda>i. i \<notin> pk_packedChunks p) (chunksInUseBy row)
      then p\<lparr>pk_ordinary := (pk_ordinary p)\<lparr>sb_relied := sb_relied (pk_ordinary p) @ [(jd_id row, jd_rev row)]\<rparr>\<rparr> else p)"

fun pack_rows :: "int \<Rightarrow> journal_doc list \<Rightarrow> packer \<Rightarrow> packer" where
  "pack_rows packLastSeq [] p = p"
| "pack_rows packLastSeq (row # rows) p =
     (let closingSeq = (if rows = [] then packLastSeq else pk_lastCompletedPackSeq p)
      in if isChunkEntry row then
           if jd_id row \<in> pk_packedChunks p then pack_rows packLastSeq rows p
           else pack_rows packLastSeq rows (pack_row row closingSeq p)
         else pack_rows packLastSeq rows (pack_row row closingSeq (rely_on_remote row p)))"

definition transform_pack :: "send_pack \<Rightarrow> packer \<Rightarrow> packer" where
  "transform_pack chunk p0 =
     (let p = p0\<lparr>pk_lastProcessedSeq := sp_packLastSeq chunk\<rparr>
      in if sp_storesPosition chunk then
           let p1 = p\<lparr>pk_lastCompletedPackSeq := sp_packLastSeq chunk\<rparr>;
               isWaiting = (sb_rows (pk_ordinary p1) \<noteq> [] \<or> sb_rows (pk_bulk p1) \<noteq> []);
               p2 = closeBatch (sp_packLastSeq chunk) p1
           in if \<not> isWaiting then p2\<lparr>pk_out := pk_out p2 @ [PositionOnly (sp_packLastSeq chunk)]\<rparr> else p2
         else (pack_rows (sp_packLastSeq chunk) (sp_changes chunk) p)\<lparr>pk_lastCompletedPackSeq := sp_packLastSeq chunk\<rparr>)"

definition flush_packer :: "packer \<Rightarrow> packer" where
  "flush_packer p = closeBatch (pk_lastProcessedSeq p) p"

section \<open>Uploading\<close>

definition BULK_JOURNAL_SUFFIX :: string where "BULK_JOURNAL_SUFFIX = ''-chunks.jsonl.gz''"
definition JOURNAL_SUFFIX :: string where "JOURNAL_SUFFIX = ''-docs.jsonl.gz''"

text \<open>The name of a journal: the identity of the writer, where it started, its position, its place and its content.\<close>

definition NUL :: string where "NUL = [CHR 0x00]"

definition journal_name :: "(string \<Rightarrow> string) \<Rightarrow> (int \<Rightarrow> string) \<Rightarrow> string \<Rightarrow> int \<Rightarrow> nat \<Rightarrow> journal_unit \<Rightarrow> string" where
  "journal_name sha256Hex show_int writerId startSeq partIndex chunk =
     (let contentId = sha256Hex (join_with NUL (ju_sentIDs chunk))
      in sha256Hex (writerId @ NUL @ show_int startSeq @ NUL @ show_int (ju_packLastSeq chunk) @ NUL @ show_int (int partIndex) @ NUL @ contentId) @
         (if ju_isBulk chunk then BULK_JOURNAL_SUFFIX else JOURNAL_SUFFIX))"

text \<open>The record of a transfer, only while the checkpoint has the generation that it started from.\<close>

definition updateTransfer :: "int \<Rightarrow> (checkpoint \<Rightarrow> checkpoint option) \<Rightarrow> checkpoint \<Rightarrow> checkpoint option" where
  "updateTransfer resetGeneration func info = (if cp_resetGeneration info \<noteq> resetGeneration then None else func info)"

definition record_position :: "int \<Rightarrow> checkpoint \<Rightarrow> checkpoint option" where
  "record_position packLastSeq info = Some (info\<lparr>cp_lastLocalSeq := packLastSeq\<rparr>)"

definition record_unit :: "journal_unit \<Rightarrow> string \<Rightarrow> checkpoint \<Rightarrow> checkpoint option" where
  "record_unit chunk filename info =
     Some (info\<lparr>cp_lastLocalSeq := ju_packLastSeq chunk, cp_sentIDs := cp_sentIDs info \<union> set (ju_sentIDs chunk),
       cp_sentFiles := insert filename (cp_sentFiles info)\<rparr>)"

definition record_scanned :: "int \<Rightarrow> checkpoint \<Rightarrow> checkpoint option" where
  "record_scanned lastScannedSeq info =
     (if lastScannedSeq > cp_lastLocalSeq info then Some (info\<lparr>cp_lastLocalSeq := lastScannedSeq\<rparr>) else None)"

text \<open>What a sending device remembers beside its checkpoint.\<close>

record reliance_document =
  rd_id :: string
  rd_rev :: string
  rd_sentAt :: int

record journal_reliance =
  jr_documents :: "reliance_document list"
  jr_resend :: "string list"

definition reliance_after_unit :: "bool \<Rightarrow> int \<Rightarrow> journal_unit \<Rightarrow> journal_reliance \<Rightarrow> journal_reliance" where
  "reliance_after_unit hasResendChunks sentAt chunk old =
     (if ju_relied chunk \<noteq> [] \<or> hasResendChunks then
        \<lparr>jr_documents = jr_documents old @ map (\<lambda>(i, rv). \<lparr>rd_id = i, rd_rev = rv, rd_sentAt = sentAt\<rparr>) (ju_relied chunk),
         jr_resend = filter (\<lambda>i. i \<notin> set (ju_sentIDs chunk)) (jr_resend old)\<rparr>
      else old)"

text \<open>The chunks to send again: those still absent, which alone stay in the queue.\<close>

definition takeChunksToSendAgain :: "checkpoint \<Rightarrow> journal_reliance \<Rightarrow> string list \<times> journal_reliance" where
  "takeChunksToSendAgain checkPointInfo reliance =
     (let queued = jr_resend reliance;
          absent = filter (\<lambda>i. i \<notin> cp_knownIDs checkPointInfo \<and> i \<notin> cp_sentIDs checkPointInfo) queued
      in if queued = [] then ([], reliance)
         else (absent, if length absent \<noteq> length queued then reliance\<lparr>jr_resend := filter (\<lambda>i. i \<in> set absent) queued\<rparr> else reliance))"

end
