(* ===== verification/JournalPipeline.thy ===== *)
theory JournalPipeline
  imports JournalSend
begin

text \<open>
  The send of the local journal as a transition system: the reader, the packer and the uploader of
  \<open>_sendLocalJournal\<close> over their queues, cut where the code awaits. The environment chooses the answers of the local
  database and of the storage, when a stop is requested, what other clients write to the checkpoint and what becomes
  of the local database meanwhile. A queue may be longer here than the streams let it become. The checkpoint is the
  one that every access sees (\<open>JournalCheckpoint\<close>); \<open>pl_current\<close> is the one that this client looked at last.
\<close>

section \<open>State\<close>

record send_env =
  se_sha256Hex :: "string \<Rightarrow> string"
  se_show :: "int \<Rightarrow> string"
  se_deviceAndVaultName :: string

text \<open>
  The fields from \<open>pl_feed\<close> on are the local database and what the proofs remember: chunks that the remote was taken
  to hold, chunks that the local database lacked, and identifiers that other clients recorded as sent.
\<close>

record pipeline =
  pl_check :: checkpoint
  pl_current :: checkpoint
  pl_reliance :: journal_reliance
  pl_startSeq :: int
  pl_generation :: int
  pl_hasResend :: bool
  pl_lastSeq :: int
  pl_scanned :: int
  pl_positionStoredAt :: int
  pl_largest :: "nat option"
  pl_brought :: "string set"
  pl_reading :: "string list option"
  pl_resent :: bool
  pl_after :: "send_pack option"
  pl_captured :: "checkpoint option"
  pl_closed :: bool
  pl_errored :: bool
  pl_packs :: "send_pack list"
  pl_packer :: packer
  pl_flushed :: bool
  pl_writing :: "(journal_unit \<times> string) option"
  pl_partIndex :: nat
  pl_uploaded :: "(string \<times> journal_unit) list"
  pl_broken :: bool
  pl_result :: "bool option"
  pl_feed :: "change_row list"
  pl_updateSeq :: int
  pl_taken :: "string set"
  pl_lacking :: "string set"
  pl_foreign :: "string set"

text \<open>The start of \<open>_sendLocalJournal\<close>.\<close>

definition start_send :: "checkpoint \<Rightarrow> journal_reliance \<Rightarrow> change_row list \<Rightarrow> int \<Rightarrow> int \<Rightarrow> pipeline" where
  "start_send check reliance feed updateSeq t =
     (let startSeq = cp_lastLocalSeq check;
          (resendIDs, reliance') = takeChunksToSendAgain check reliance
      in \<lparr>pl_check = check, pl_current = check, pl_reliance = reliance', pl_startSeq = startSeq,
          pl_generation = cp_resetGeneration check, pl_hasResend = (resendIDs \<noteq> []), pl_lastSeq = startSeq, pl_scanned = startSeq,
          pl_positionStoredAt = t, pl_largest = None, pl_brought = set resendIDs,
          pl_reading = (if resendIDs \<noteq> [] then Some resendIDs else None), pl_resent = (resendIDs \<noteq> []), pl_after = None,
          pl_captured = None, pl_closed = False, pl_errored = False, pl_packs = [], pl_packer = new_packer startSeq,
          pl_flushed = False, pl_writing = None, pl_partIndex = 0, pl_uploaded = [], pl_broken = False, pl_result = None,
          pl_feed = feed, pl_updateSeq = updateSeq, pl_taken = {}, pl_lacking = {}, pl_foreign = cp_sentIDs check\<rparr>)"

section \<open>The reader\<close>

definition reader_waits :: "pipeline \<Rightarrow> bool" where
  "reader_waits s \<longleftrightarrow> \<not> pl_closed s \<and> \<not> pl_errored s \<and> pl_captured s = None \<and> pl_result s = None"

definition pull_stop :: "pipeline \<Rightarrow> pipeline" where
  "pull_stop s = s\<lparr>pl_closed := True\<rparr>"

definition lacks :: "string list \<Rightarrow> journal_doc list \<Rightarrow> string set" where
  "lacks asked chunks = set asked - jd_id ` set chunks"

definition pull_slice :: "(string \<Rightarrow> journal_doc option) \<Rightarrow> string list \<Rightarrow> pipeline \<Rightarrow> pipeline" where
  "pull_slice local ids s =
     (case read_slice local ids (pl_largest s) of (asked, chunks, rest, largest) \<Rightarrow>
        s\<lparr>pl_reading := Some rest, pl_largest := largest,
          pl_packs := pl_packs s @ (if chunks = [] then [] else [\<lparr>sp_changes = chunks, sp_packLastSeq = pl_lastSeq s, sp_storesPosition = False\<rparr>]),
          pl_lacking := pl_lacking s \<union> lacks asked chunks,
          pl_reliance :=
            (if pl_resent s \<and> length chunks < length asked
             then (pl_reliance s)\<lparr>jr_resend := filter (\<lambda>i. i \<notin> lacks asked chunks) (jr_resend (pl_reliance s))\<rparr>
             else pl_reliance s)\<rparr>)"

definition pull_slices_end :: "pipeline \<Rightarrow> pipeline" where
  "pull_slices_end s =
     (let s1 = s\<lparr>pl_reading := None, pl_resent := False\<rparr>
      in case pl_after s of
           None \<Rightarrow> s1
         | Some pack \<Rightarrow>
             s1\<lparr>pl_after := None, pl_lastSeq := sp_packLastSeq pack, pl_scanned := sp_packLastSeq pack, pl_packs := pl_packs s @ [pack]\<rparr>)"

definition pull_pack_begin :: "pipeline \<Rightarrow> pipeline" where
  "pull_pack_begin s = s\<lparr>pl_captured := Some (pl_check s), pl_current := pl_check s\<rparr>"

definition isInRemote :: "checkpoint \<Rightarrow> string \<Rightarrow> bool" where
  "isInRemote info i \<longleftrightarrow> i \<in> cp_knownIDs info \<or> i \<in> cp_sentIDs info"

definition pull_pack_read :: "int \<Rightarrow> journal_pack option \<Rightarrow> pipeline \<Rightarrow> pipeline" where
  "pull_pack_read t r s0 =
     (let s = s0\<lparr>pl_captured := None\<rparr>
      in case r of
           None \<Rightarrow> s\<lparr>pl_errored := True\<rparr>
         | Some p \<Rightarrow>
             if cp_resetGeneration (pl_current s) \<noteq> pl_generation s then s\<lparr>pl_errored := True\<rparr>
             else if jp_changes p \<noteq> [] then
               (case chunksToBringAlong (isInRemote (pl_current s)) (jp_changes p) ([], pl_brought s) of (absent, brought) \<Rightarrow>
                  s\<lparr>pl_after := Some \<lparr>sp_changes = jp_changes p, sp_packLastSeq = jp_packLastSeq p, sp_storesPosition = False\<rparr>,
                    pl_reading := Some absent, pl_brought := brought,
                    pl_taken := pl_taken s \<union> (cp_knownIDs (pl_current s) \<union> cp_sentIDs (pl_current s))\<rparr>)
             else
               (let s1 = s\<lparr>pl_lastSeq := jp_packLastSeq p, pl_scanned := jp_packLastSeq p\<rparr>
                in if \<not> jp_hasNext p then s1\<lparr>pl_closed := True\<rparr>
                   else if hasPassed (pl_positionStoredAt s1) t CHECKPOINT_WRITE_INTERVAL_MS then
                     s1\<lparr>pl_positionStoredAt := t,
                        pl_packs := pl_packs s1 @ [\<lparr>sp_changes = [], sp_packLastSeq = jp_packLastSeq p, sp_storesPosition = True\<rparr>]\<rparr>
                   else s1))"

section \<open>The packer and the uploader\<close>

definition transform_step :: "send_pack \<Rightarrow> send_pack list \<Rightarrow> pipeline \<Rightarrow> pipeline" where
  "transform_step pack packs s = s\<lparr>pl_packs := packs, pl_packer := transform_pack pack (pl_packer s)\<rparr>"

definition flush_step :: "pipeline \<Rightarrow> pipeline" where
  "flush_step s = s\<lparr>pl_flushed := True, pl_packer := flush_packer (pl_packer s)\<rparr>"

definition pop_unit :: "pipeline \<Rightarrow> pipeline" where
  "pop_unit s = s\<lparr>pl_packer := (pl_packer s)\<lparr>pk_out := tl (pk_out (pl_packer s))\<rparr>\<rparr>"

text \<open>
  An update of the checkpoint. The first flag is whether the store writes it; when it does not, the client has seen
  the update all the same and throws.
\<close>

definition update_check :: "bool \<Rightarrow> (checkpoint \<Rightarrow> checkpoint option) \<Rightarrow> pipeline \<Rightarrow> pipeline" where
  "update_check stored func s =
     (case func (pl_check s) of
        None \<Rightarrow> s\<lparr>pl_current := pl_check s\<rparr>
      | Some updated \<Rightarrow>
          let new = updated_record False (pl_check s) updated
          in if stored then s\<lparr>pl_check := new, pl_current := new\<rparr> else s\<lparr>pl_current := new, pl_broken := True\<rparr>)"

definition position_step :: "bool \<Rightarrow> int \<Rightarrow> pipeline \<Rightarrow> pipeline" where
  "position_step stored n s = update_check stored (updateTransfer (pl_generation s) (record_position n)) (pop_unit s)"

definition upload_step :: "send_env \<Rightarrow> journal_unit \<Rightarrow> pipeline \<Rightarrow> pipeline" where
  "upload_step e u s =
     (let filename = journal_name (se_sha256Hex e) (se_show e) (se_sha256Hex e (se_deviceAndVaultName e)) (pl_startSeq s) (pl_partIndex s) u
      in (pop_unit s)\<lparr>pl_writing := Some (u, filename), pl_partIndex := pl_partIndex s + 1, pl_uploaded := pl_uploaded s @ [(filename, u)]\<rparr>)"

definition record_step :: "bool \<Rightarrow> int \<Rightarrow> journal_unit \<Rightarrow> string \<Rightarrow> pipeline \<Rightarrow> pipeline" where
  "record_step stored t u filename s0 =
     (let s = s0\<lparr>pl_writing := None\<rparr>
      in if cp_resetGeneration (pl_check s) \<noteq> pl_generation s then s\<lparr>pl_current := pl_check s, pl_broken := True\<rparr>
         else
           let s1 = update_check stored (updateTransfer (pl_generation s) (record_unit u filename)) s
           in if pl_broken s1 then s1 else s1\<lparr>pl_reliance := reliance_after_unit (pl_hasResend s) t u (pl_reliance s)\<rparr>)"

text \<open>The end of the pipe: what was looked through is recorded, and the send answers.\<close>

definition finish_step :: "bool \<Rightarrow> pipeline \<Rightarrow> pipeline" where
  "finish_step stored s =
     (let s1 = update_check stored (updateTransfer (pl_generation s) (record_scanned (pl_scanned s))) s
      in s1\<lparr>pl_result := Some (\<not> pl_broken s1 \<and> cp_resetGeneration (pl_check s) = pl_generation s)\<rparr>)"

section \<open>The environment\<close>

text \<open>
  The position of a checkpoint covers the feed when every revision of a document up to it counts as received or sent.
  Chunks are not covered: a removal record takes them out of what the remote is known to hold.
\<close>

definition covered :: "change_row list \<Rightarrow> int \<Rightarrow> string set \<Rightarrow> int \<Rightarrow> bool" where
  "covered feed updateSeq keys n \<longleftrightarrow>
     n \<le> updateSeq \<and>
     (\<forall>row\<in>set feed. ch_seq row \<le> n \<longrightarrow> \<not> isChunkID (ch_id row) \<longrightarrow> (\<forall>rv\<in>set (ch_revs row). docKeyOf (ch_id row) rv \<in> keys))"

definition exchanged :: "checkpoint \<Rightarrow> string set" where
  "exchanged info = cp_knownIDs info \<union> cp_sentIDs info"

definition covers :: "change_row list \<Rightarrow> int \<Rightarrow> checkpoint \<Rightarrow> bool" where
  "covers feed updateSeq info \<longleftrightarrow> covered feed updateSeq (exchanged info) (cp_lastLocalSeq info)"

text \<open>
  Another client adds to the history or removes from it; what removes is a reset of the generation, and its position
  covers the feed as well. A change of the local database gives an entry a new sequence.
\<close>

definition other_client :: "pipeline \<Rightarrow> checkpoint \<Rightarrow> bool" where
  "other_client s info \<longleftrightarrow>
     covers (pl_feed s) (pl_updateSeq s) info \<and>
     (cp_resetGeneration info = cp_resetGeneration (pl_check s) \<and>
        cp_knownIDs (pl_check s) \<subseteq> cp_knownIDs info \<and> cp_sentIDs (pl_check s) \<subseteq> cp_sentIDs info \<or>
      cp_resetGeneration (pl_check s) < cp_resetGeneration info)"

definition local_change :: "pipeline \<Rightarrow> change_row list \<Rightarrow> int \<Rightarrow> bool" where
  "local_change s feed updateSeq \<longleftrightarrow>
     pl_updateSeq s \<le> updateSeq \<and> (\<forall>row\<in>set feed. row \<in> set (pl_feed s) \<or> pl_updateSeq s < ch_seq row)"

text \<open>What the changes feed answers: entries of the feed, and all of them up to the sequence it names.\<close>

definition feed_answer :: "pipeline \<Rightarrow> int \<Rightarrow> changes_answer \<Rightarrow> bool" where
  "feed_answer s from answer \<longleftrightarrow>
     ca_last_seq answer \<le> pl_updateSeq s \<and>
     (\<forall>row\<in>set (pl_feed s). from < ch_seq row \<and> ch_seq row \<le> ca_last_seq answer \<longrightarrow> row \<in> set (ca_results answer))"

definition chunk_reader :: "(string \<Rightarrow> journal_doc option) \<Rightarrow> bool" where
  "chunk_reader local \<longleftrightarrow> (\<forall>i leaf. local i = Some leaf \<longrightarrow> jd_id leaf = i)"

section \<open>Steps\<close>

text \<open>
  The local database may fail to read (\<open>ReadFails\<close>); an upload, an encryption or a write of the store may fail
  (\<open>Breaks\<close>), after which nothing more is uploaded.
\<close>

inductive send_step :: "send_env \<Rightarrow> pipeline \<Rightarrow> pipeline \<Rightarrow> bool" for e where
  Stop: "reader_waits s \<Longrightarrow> send_step e s (pull_stop s)"
| Slice: "reader_waits s \<Longrightarrow> pl_reading s = Some ids \<Longrightarrow> ids \<noteq> [] \<Longrightarrow> chunk_reader local \<Longrightarrow> send_step e s (pull_slice local ids s)"
| SlicesEnd: "reader_waits s \<Longrightarrow> pl_reading s = Some [] \<Longrightarrow> send_step e s (pull_slices_end s)"
| PackBegin: "reader_waits s \<Longrightarrow> pl_reading s = None \<Longrightarrow> send_step e s (pull_pack_begin s)"
| PackRead: "pl_captured s = Some info \<Longrightarrow> pl_result s = None \<Longrightarrow> feed_answer s (pack_from info (pl_lastSeq s)) answer \<Longrightarrow>
    send_step e s (pull_pack_read t (createJournalPack info answer updateSeq bulkGet) s)"
| Transform: "pl_packs s = pack # packs \<Longrightarrow> pl_result s = None \<Longrightarrow> send_step e s (transform_step pack packs s)"
| Flush: "pl_closed s \<Longrightarrow> \<not> pl_errored s \<Longrightarrow> pl_packs s = [] \<Longrightarrow> \<not> pl_flushed s \<Longrightarrow> pl_result s = None \<Longrightarrow> send_step e s (flush_step s)"
| Position: "pl_writing s = None \<Longrightarrow> \<not> pl_broken s \<Longrightarrow> pk_out (pl_packer s) = PositionOnly n # units \<Longrightarrow> pl_result s = None \<Longrightarrow>
    send_step e s (position_step stored n s)"
| Upload: "pl_writing s = None \<Longrightarrow> \<not> pl_broken s \<Longrightarrow> pk_out (pl_packer s) = JournalUnit u # units \<Longrightarrow> pl_result s = None \<Longrightarrow>
    send_step e s (upload_step e u s)"
| Record: "pl_writing s = Some (u, filename) \<Longrightarrow> \<not> pl_broken s \<Longrightarrow> pl_result s = None \<Longrightarrow> send_step e s (record_step stored t u filename s)"
| Finish: "pl_flushed s \<Longrightarrow> pk_out (pl_packer s) = [] \<Longrightarrow> pl_writing s = None \<Longrightarrow> \<not> pl_errored s \<Longrightarrow> \<not> pl_broken s \<Longrightarrow>
    pl_result s = None \<Longrightarrow> send_step e s (finish_step stored s)"
| ReadFails: "reader_waits s \<Longrightarrow> send_step e s (s\<lparr>pl_errored := True\<rparr>)"
| Breaks: "pl_writing s = None \<Longrightarrow> pl_result s = None \<Longrightarrow> send_step e s (s\<lparr>pl_broken := True\<rparr>)"
| Fail: "pl_errored s \<or> pl_broken s \<Longrightarrow> pl_result s = None \<Longrightarrow> send_step e s (s\<lparr>pl_result := Some False\<rparr>)"
| OtherClient: "other_client s info \<Longrightarrow>
    send_step e s (s\<lparr>pl_check := info, pl_foreign := pl_foreign s \<union> (cp_sentIDs info - cp_sentIDs (pl_check s))\<rparr>)"
| LocalChange: "local_change s feed updateSeq \<Longrightarrow> send_step e s (s\<lparr>pl_feed := feed, pl_updateSeq := updateSeq\<rparr>)"

end
