(* ===== verification/JournalCoverage.thy ===== *)
theory JournalCoverage
  imports JournalPipeline
begin

text \<open>
  The position that a send stores never passes a revision of a document that the remote lacks. What is on its way
  is followed through the queues: a position may be stored once every journal before it is recorded.
\<close>

section \<open>What is covered on the way\<close>

definition doc_keys :: "journal_doc list \<Rightarrow> string set" where
  "doc_keys rows = getDocKey ` {row \<in> set rows. \<not> isChunkEntry row}"

fun unit_keys :: "send_unit \<Rightarrow> string set" where
  "unit_keys (JournalUnit u) = set (ju_sentIDs u)"
| "unit_keys (PositionOnly n) = {}"

fun unit_seq :: "send_unit \<Rightarrow> int" where
  "unit_seq (JournalUnit u) = ju_packLastSeq u"
| "unit_seq (PositionOnly n) = n"

definition units_keys :: "send_unit list \<Rightarrow> string set" where
  "units_keys us = \<Union> (unit_keys ` set us)"

definition buffer_keys :: "packer \<Rightarrow> string set" where
  "buffer_keys p = set (sb_sentIDs (pk_ordinary p)) \<union> set (sb_sentIDs (pk_bulk p))"

definition packs_keys :: "send_pack list \<Rightarrow> string set" where
  "packs_keys ps = doc_keys (concat (map sp_changes ps))"

text \<open>\<open>C K n\<close>: the keys cover the position.\<close>

type_synonym coverage = "string set \<Rightarrow> int \<Rightarrow> bool"

definition grows :: "coverage \<Rightarrow> bool" where
  "grows C \<longleftrightarrow> (\<forall>K L n. C K n \<longrightarrow> K \<subseteq> L \<longrightarrow> C L n)"

fun units_covered :: "coverage \<Rightarrow> string set \<Rightarrow> send_unit list \<Rightarrow> bool" where
  "units_covered C K [] = True"
| "units_covered C K (u # us) \<longleftrightarrow> C (K \<union> unit_keys u) (unit_seq u) \<and> units_covered C (K \<union> unit_keys u) us"

fun packs_covered :: "coverage \<Rightarrow> string set \<Rightarrow> send_pack list \<Rightarrow> bool" where
  "packs_covered C K [] = True"
| "packs_covered C K (p # ps) \<longleftrightarrow> C (K \<union> packs_keys [p]) (sp_packLastSeq p) \<and> packs_covered C (K \<union> packs_keys [p]) ps"

lemma covered_grows: "grows (covered feed n)"
  by (auto simp: grows_def covered_def)

lemma growsD: "grows C \<Longrightarrow> C K n \<Longrightarrow> K \<subseteq> L \<Longrightarrow> C L n"
  by (auto simp: grows_def)

lemma units_covered_mono: "grows C \<Longrightarrow> units_covered C K us \<Longrightarrow> K \<subseteq> L \<Longrightarrow> units_covered C L us"
proof (induction us arbitrary: K L)
  case (Cons u us)
  have "K \<union> unit_keys u \<subseteq> L \<union> unit_keys u" using Cons.prems(3) by blast
  then show ?case using Cons.prems(2) growsD [OF Cons.prems(1)] Cons.IH [OF Cons.prems(1)] by (simp only: units_covered.simps) blast
qed simp

lemma packs_covered_mono: "grows C \<Longrightarrow> packs_covered C K ps \<Longrightarrow> K \<subseteq> L \<Longrightarrow> packs_covered C L ps"
proof (induction ps arbitrary: K L)
  case (Cons p ps)
  have "K \<union> packs_keys [p] \<subseteq> L \<union> packs_keys [p]" using Cons.prems(3) by blast
  then show ?case using Cons.prems(2) growsD [OF Cons.prems(1)] Cons.IH [OF Cons.prems(1)] by (simp only: packs_covered.simps) blast
qed simp

lemma units_keys_simps [simp]: "units_keys [] = {}" "units_keys (u # us) = unit_keys u \<union> units_keys us"
    "units_keys (us @ vs) = units_keys us \<union> units_keys vs"
  by (auto simp: units_keys_def)

lemma doc_keys_simps [simp]: "doc_keys [] = {}"
    "doc_keys (row # rows) = (if isChunkEntry row then {} else {getDocKey row}) \<union> doc_keys rows"
    "doc_keys (rows @ others) = doc_keys rows \<union> doc_keys others"
  by (auto simp: doc_keys_def)

lemma packs_keys_simps [simp]: "packs_keys [] = {}" "packs_keys (p # ps) = doc_keys (sp_changes p) \<union> packs_keys ps"
    "packs_keys (ps @ qs) = packs_keys ps \<union> packs_keys qs"
  by (simp_all add: packs_keys_def)

lemma units_covered_append:
  "units_covered C K (us @ vs) \<longleftrightarrow> units_covered C K us \<and> units_covered C (K \<union> units_keys us) vs"
  by (induction us arbitrary: K) (auto simp: Un_assoc)

lemma packs_covered_append:
  "packs_covered C K (ps @ qs) \<longleftrightarrow> packs_covered C K ps \<and> packs_covered C (K \<union> packs_keys ps) qs"
  by (induction ps arbitrary: K) (auto simp: Un_assoc)

section \<open>The packer\<close>

definition packer_keys :: "packer \<Rightarrow> string set" where
  "packer_keys p = units_keys (pk_out p) \<union> buffer_keys p"

text \<open>
  Its journals are covered in their order; the position at which both buffers were empty is covered by the journals
  alone, and the packs that are in completely by the buffers too. An empty buffer has no keys.
\<close>

definition packer_covered :: "coverage \<Rightarrow> string set \<Rightarrow> packer \<Rightarrow> bool" where
  "packer_covered C K p \<longleftrightarrow>
     units_covered C K (pk_out p) \<and> C (K \<union> units_keys (pk_out p)) (pk_safeSeq p) \<and>
     C (K \<union> packer_keys p) (pk_lastCompletedPackSeq p) \<and>
     (sb_rows (pk_ordinary p) = [] \<longrightarrow> sb_sentIDs (pk_ordinary p) = []) \<and> (sb_rows (pk_bulk p) = [] \<longrightarrow> sb_sentIDs (pk_bulk p) = [])"

lemma batch_units_keys:
  "packer_covered C K p \<Longrightarrow> units_keys (batch_units p n) = buffer_keys p"
  by (cases "sb_rows (pk_ordinary p) = []"; cases "sb_rows (pk_bulk p) = []")
    (simp_all add: packer_covered_def batch_units_def Let_def unit_of_buffer_def buffer_keys_def Un_commute)

lemma batch_units_covered:
  assumes g: "grows C" and safe: "C L (pk_safeSeq p)" and n: "C (L \<union> buffer_keys p) n"
    and o: "sb_rows (pk_ordinary p) = [] \<longrightarrow> sb_sentIDs (pk_ordinary p) = []" and b: "sb_rows (pk_bulk p) = [] \<longrightarrow> sb_sentIDs (pk_bulk p) = []"
  shows "units_covered C L (batch_units p n)"
proof -
  have "C (L \<union> set (sb_sentIDs (pk_bulk p))) (pk_safeSeq p)" by (rule growsD [OF g safe]) blast
  moreover have "C (L \<union> set (sb_sentIDs (pk_bulk p)) \<union> set (sb_sentIDs (pk_ordinary p))) n"
    by (rule growsD [OF g n]) (auto simp: buffer_keys_def)
  ultimately show ?thesis
    using o b by (cases "sb_rows (pk_ordinary p) = []"; cases "sb_rows (pk_bulk p) = []")
      (simp_all add: batch_units_def Let_def unit_of_buffer_def)
qed

lemma closeBatch_keys: "packer_covered C K p \<Longrightarrow> packer_keys (closeBatch n p) = packer_keys p"
  by (simp add: closeBatch_def packer_keys_def batch_units_keys) (simp add: buffer_keys_def createBuffer_def)

lemma closeBatch_covered:
  assumes g: "grows C" and p: "packer_covered C K p" and n: "C (K \<union> packer_keys p) n"
  shows "packer_covered C K (closeBatch n p)"
proof -
  have all: "C (K \<union> units_keys (pk_out p) \<union> buffer_keys p) n" using n by (simp only: packer_keys_def Un_assoc)
  have "units_covered C (K \<union> units_keys (pk_out p)) (batch_units p n)"
    by (rule batch_units_covered [OF g _ all]) (use p in \<open>simp_all add: packer_covered_def\<close>)
  then have u: "units_covered C K (pk_out (closeBatch n p))"
    using p by (simp add: closeBatch_def units_covered_append packer_covered_def)
  have "units_keys (pk_out (closeBatch n p)) = packer_keys p"
    using p by (simp add: closeBatch_def packer_keys_def batch_units_keys)
  moreover have "C (K \<union> packer_keys p) (pk_lastCompletedPackSeq p)" using p by (simp add: packer_covered_def)
  ultimately show ?thesis
    using u n unfolding packer_covered_def closeBatch_keys [OF p] by (simp add: closeBatch_def createBuffer_def)
qed

lemma pack_row_covered:
  assumes g: "grows C" and p: "packer_covered C K p" and n: "C (K \<union> insert (getDocKey row) (packer_keys p)) n"
  shows "packer_covered C K (pack_row row n p)" and "packer_keys (pack_row row n p) = insert (getDocKey row) (packer_keys p)"
proof -
  let ?p1 = "if isChunkEntry row then p\<lparr>pk_packedChunks := insert (jd_id row) (pk_packedChunks p)\<rparr> else p"
  let ?bulk = "isChunkEntry row \<and> jd_bytes row \<ge> BULK_CHUNK_MIN_BYTES"
  let ?p2 = "if ?bulk then ?p1\<lparr>pk_bulk := add_row row (pk_bulk ?p1)\<rparr> else ?p1\<lparr>pk_ordinary := add_row row (pk_ordinary ?p1)\<rparr>"
  have k: "packer_keys ?p2 = insert (getDocKey row) (packer_keys p)"
    by (auto simp: packer_keys_def buffer_keys_def add_row_def)
  have f: "pk_out ?p2 = pk_out p" "pk_safeSeq ?p2 = pk_safeSeq p" "pk_lastCompletedPackSeq ?p2 = pk_lastCompletedPackSeq p" by simp_all
  have "C (K \<union> packer_keys ?p2) (pk_lastCompletedPackSeq p)"
    by (rule growsD [OF g, of "K \<union> packer_keys p"]) (use p k in \<open>auto simp: packer_covered_def\<close>)
  then have c: "packer_covered C K ?p2"
    using p unfolding packer_covered_def f by (auto simp: add_row_def)
  have r: "pack_row row n p = (if isFull (if ?bulk then pk_bulk ?p2 else pk_ordinary ?p2) then closeBatch n ?p2 else ?p2)"
    by (simp add: pack_row_def Let_def)
  show "packer_covered C K (pack_row row n p)"
    unfolding r using c closeBatch_covered [OF g c] n k by simp
  show "packer_keys (pack_row row n p) = insert (getDocKey row) (packer_keys p)"
    unfolding r using c closeBatch_keys [OF c] k by simp
qed

lemma rely_same [simp]:
  "packer_covered C K (rely_on_remote row p) = packer_covered C K p" "packer_keys (rely_on_remote row p) = packer_keys p"
  "pk_lastCompletedPackSeq (rely_on_remote row p) = pk_lastCompletedPackSeq p" "pk_packedChunks (rely_on_remote row p) = pk_packedChunks p"
  "pk_lastProcessedSeq (rely_on_remote row p) = pk_lastProcessedSeq p"
  by (simp_all add: rely_on_remote_def packer_covered_def packer_keys_def buffer_keys_def)

lemma pack_row_fields [simp]:
  "pk_lastCompletedPackSeq (pack_row row n p) = pk_lastCompletedPackSeq p" "pk_lastProcessedSeq (pack_row row n p) = pk_lastProcessedSeq p"
  by (simp_all add: pack_row_def Let_def closeBatch_def)

lemma pack_rows_fields [simp]: "pk_lastProcessedSeq (pack_rows n rows p) = pk_lastProcessedSeq p"
  by (induction rows arbitrary: p) (simp_all add: Let_def)

lemma pack_rows_covered:
  assumes g: "grows C"
  shows "packer_covered C K p \<Longrightarrow> C (K \<union> packer_keys p \<union> doc_keys rows) n \<Longrightarrow>
    packer_covered C K (pack_rows n rows p) \<and> packer_keys p \<union> doc_keys rows \<subseteq> packer_keys (pack_rows n rows p)"
proof (induction rows arbitrary: p)
  case (Cons row rows)
  let ?n = "if rows = [] then n else pk_lastCompletedPackSeq p"
  have packed: ?case
    if q: "packer_covered C K q" "packer_keys q = packer_keys p" "pk_lastCompletedPackSeq q = pk_lastCompletedPackSeq p"
      and step: "pack_rows n (row # rows) p = pack_rows n rows (pack_row row ?n q)" for q
  proof -
    have "C (K \<union> insert (getDocKey row) (packer_keys q)) ?n"
    proof (cases "rows = []")
      case True
      have "C (K \<union> insert (getDocKey row) (packer_keys p)) n" by (rule growsD [OF g Cons.prems(2)]) (auto simp: True)
      then show ?thesis by (simp add: True q(2))
    next
      case False
      have "C (K \<union> packer_keys p) (pk_lastCompletedPackSeq p)" using Cons.prems(1) by (simp add: packer_covered_def)
      then have "C (K \<union> insert (getDocKey row) (packer_keys p)) (pk_lastCompletedPackSeq p)" by (rule growsD [OF g]) blast
      then show ?thesis by (simp add: False q(2))
    qed
    note row = pack_row_covered [OF g q(1) this]
    have "C (K \<union> packer_keys (pack_row row ?n q) \<union> doc_keys rows) n"
      by (rule growsD [OF g Cons.prems(2)]) (auto simp: row(2) q(2))
    with Cons.IH [OF row(1)] row(2) q(2) step show ?thesis by (auto split: if_splits)
  qed
  consider "isChunkEntry row" "jd_id row \<in> pk_packedChunks p" | "isChunkEntry row" "jd_id row \<notin> pk_packedChunks p" | "\<not> isChunkEntry row"
    by blast
  then show ?case
  proof cases
    case 1
    with Cons show ?thesis by (simp add: Let_def)
  next
    case 2
    then show ?thesis using packed [of p] Cons.prems(1) by (simp add: Let_def)
  next
    case 3
    then show ?thesis using packed [of "rely_on_remote row p"] Cons.prems(1) by (simp add: Let_def)
  qed
qed simp

text \<open>What a pack brings is covered with what the packer already has: then the packer keeps its invariant.\<close>

lemma transform_pack_covered:
  assumes g: "grows C" and p: "packer_covered C K p" and n: "C (K \<union> packer_keys p \<union> doc_keys (sp_changes pack)) (sp_packLastSeq pack)"
    and e: "sp_storesPosition pack \<Longrightarrow> sp_changes pack = []"
  shows "packer_covered C K (transform_pack pack p) \<and> packer_keys p \<union> doc_keys (sp_changes pack) \<subseteq> packer_keys (transform_pack pack p) \<and>
    pk_lastProcessedSeq (transform_pack pack p) = sp_packLastSeq pack \<and> pk_lastCompletedPackSeq (transform_pack pack p) = sp_packLastSeq pack"
proof (cases "sp_storesPosition pack")
  case False
  let ?p = "p\<lparr>pk_lastProcessedSeq := sp_packLastSeq pack\<rparr>" and ?q = "pack_rows (sp_packLastSeq pack) (sp_changes pack) (p\<lparr>pk_lastProcessedSeq := sp_packLastSeq pack\<rparr>)"
  have "packer_covered C K ?p" "packer_keys ?p = packer_keys p"
    using p by (simp_all add: packer_covered_def packer_keys_def buffer_keys_def)
  with pack_rows_covered [OF g, of K ?p "sp_changes pack" "sp_packLastSeq pack"] n
  have q: "packer_covered C K ?q" "packer_keys p \<union> doc_keys (sp_changes pack) \<subseteq> packer_keys ?q" by simp_all
  have "C (K \<union> packer_keys ?q) (sp_packLastSeq pack)" by (rule growsD [OF g n]) (use q(2) in blast)
  with q(1) have "packer_covered C K (?q\<lparr>pk_lastCompletedPackSeq := sp_packLastSeq pack\<rparr>)"
    by (simp add: packer_covered_def packer_keys_def buffer_keys_def)
  with False q(2) show ?thesis by (simp add: transform_pack_def Let_def packer_keys_def buffer_keys_def)
next
  case True
  let ?n = "sp_packLastSeq pack"
  let ?p = "p\<lparr>pk_lastProcessedSeq := ?n, pk_lastCompletedPackSeq := ?n\<rparr>"
  have kp: "packer_keys ?p = packer_keys p" by (simp add: packer_keys_def buffer_keys_def)
  have n': "C (K \<union> packer_keys p) ?n" using n e [OF True] by simp
  then have cp: "packer_covered C K ?p" using p unfolding packer_covered_def kp by (simp add: packer_keys_def buffer_keys_def)
  let ?q = "closeBatch ?n ?p"
  have q: "packer_covered C K ?q" "packer_keys ?q = packer_keys p"
    using closeBatch_covered [OF g cp] closeBatch_keys [OF cp] n' kp by simp_all
  have "pk_safeSeq ?q = ?n" by (simp add: closeBatch_def)
  with q(1) have "C (K \<union> units_keys (pk_out ?q)) ?n" by (simp add: packer_covered_def)
  with q have "packer_covered C K (?q\<lparr>pk_out := pk_out ?q @ [PositionOnly ?n]\<rparr>)" "packer_keys (?q\<lparr>pk_out := pk_out ?q @ [PositionOnly ?n]\<rparr>) = packer_keys p"
    by (simp_all add: packer_covered_def units_covered_append packer_keys_def buffer_keys_def)
  moreover have "pk_lastProcessedSeq ?q = ?n" "pk_lastCompletedPackSeq ?q = ?n" by (simp_all add: closeBatch_def)
  ultimately show ?thesis using True q e [OF True] by (simp add: transform_pack_def Let_def)
qed

lemma flush_packer_covered:
  "grows C \<Longrightarrow> packer_covered C K p \<Longrightarrow> C (K \<union> packer_keys p) (pk_lastProcessedSeq p) \<Longrightarrow>
    packer_covered C K (flush_packer p) \<and> packer_keys (flush_packer p) = packer_keys p"
  by (simp add: flush_packer_def closeBatch_covered closeBatch_keys)

section \<open>The reader\<close>

lemma chunk_key: "isChunkID (docKeyOf i rv) \<longleftrightarrow> isChunkID i"
  by (cases i rule: list.exhaust; cases "tl i") (auto simp: docKeyOf_def isChunkID_def)

lemma pack_covers:
  assumes pack: "createJournalPack info answer updateSeq bulkGet = Some p"
    and answer: "ca_last_seq answer \<le> m" "\<forall>row\<in>set feed. from < ch_seq row \<and> ch_seq row \<le> ca_last_seq answer \<longrightarrow> row \<in> set (ca_results answer)"
    and pos: "covered feed m K from" and known: "exchanged info \<subseteq> K"
  shows "covered feed m (K \<union> doc_keys (jp_changes p)) (jp_packLastSeq p)"
proof -
  have seq: "jp_packLastSeq p = ca_last_seq answer"
    using pack by (auto simp: createJournalPack_def Let_def split: if_splits)
  have "docKeyOf (ch_id row) rv \<in> K \<union> doc_keys (jp_changes p)"
    if row: "row \<in> set feed" "ch_seq row \<le> ca_last_seq answer" "\<not> isChunkID (ch_id row)" and rv: "rv \<in> set (ch_revs row)" for row rv
  proof (cases "ch_seq row \<le> from")
    case True
    with pos row rv show ?thesis by (auto simp: covered_def)
  next
    case False
    with answer(2) row have r: "row \<in> set (ca_results answer)" by auto
    show ?thesis
    proof (cases "docKeyOf (ch_id row) rv \<in> exchanged info")
      case False
      with r rv have u: "(ch_id row, rv) \<in> set (unknown_revisions info (ca_results answer))"
        by (auto simp: unknown_revisions_def exchanged_def)
      then have "unknown_revisions info (ca_results answer) \<noteq> []" by (metis list.set(1) empty_iff)
      with pack r have c: "jp_changes p = bulkGet (unknown_revisions info (ca_results answer))"
          "\<not> list_ex (\<lambda>(i, rv). docKeyOf i rv \<notin> set (map getDocKey (jp_changes p))) (unknown_revisions info (ca_results answer))"
        by (auto simp: createJournalPack_def Let_def split: if_splits)
      with u have "docKeyOf (ch_id row) rv \<in> set (map getDocKey (jp_changes p))" by (auto simp: list_ex_iff)
      then obtain d where d: "d \<in> set (jp_changes p)" "getDocKey d = docKeyOf (ch_id row) rv" by auto
      then have "\<not> isChunkEntry d" using row(3) chunk_key by (metis getDocKey_def isChunkEntry_def)
      with d show ?thesis by (force simp: doc_keys_def)
    qed (use known in blast)
  qed
  with answer(1) show ?thesis by (auto simp: covered_def seq)
qed

section \<open>The invariant\<close>

definition front :: "pipeline \<Rightarrow> send_unit list" where
  "front s = (case pl_writing s of Some (u, _) \<Rightarrow> [JournalUnit u] | None \<Rightarrow> [])"

definition feed_of :: "pipeline \<Rightarrow> coverage" where
  "feed_of s = covered (pl_feed s) (pl_updateSeq s)"

definition front_keys :: "pipeline \<Rightarrow> string set" where
  "front_keys s = exchanged (pl_check s) \<union> units_keys (front s)"

definition packed_keys :: "pipeline \<Rightarrow> string set" where
  "packed_keys s = front_keys s \<union> packer_keys (pl_packer s)"

definition read_keys :: "pipeline \<Rightarrow> string set" where
  "read_keys s = packed_keys s \<union> packs_keys (pl_packs s)"

text \<open>What flows through the queues is covered at every place.\<close>

definition flow_covered :: "coverage \<Rightarrow> pipeline \<Rightarrow> bool" where
  "flow_covered C s \<longleftrightarrow>
     units_covered C (exchanged (pl_check s)) (front s) \<and> packer_covered C (front_keys s) (pl_packer s) \<and>
     C (packed_keys s) (pk_lastProcessedSeq (pl_packer s)) \<and> packs_covered C (packed_keys s) (pl_packs s) \<and>
     C (read_keys s) (pl_lastSeq s) \<and> C (read_keys s) (pl_scanned s) \<and>
     (\<forall>p. pl_after s = Some p \<longrightarrow> C (read_keys s \<union> doc_keys (sp_changes p)) (sp_packLastSeq p))"

text \<open>The checkpoint with which a pack is being read was the one at that time.\<close>

definition captured_fine :: "pipeline \<Rightarrow> bool" where
  "captured_fine s \<longleftrightarrow>
     (\<forall>i. pl_captured s = Some i \<longrightarrow>
        pl_generation s \<le> cp_resetGeneration i \<and> cp_resetGeneration i \<le> cp_resetGeneration (pl_current s) \<and>
        cp_resetGeneration i \<le> cp_resetGeneration (pl_check s) \<and>
        (cp_resetGeneration i = cp_resetGeneration (pl_check s) \<longrightarrow>
           exchanged i \<subseteq> exchanged (pl_check s) \<and> feed_of s (exchanged i) (cp_lastLocalSeq i)))"

definition position_packs :: "pipeline \<Rightarrow> bool" where
  "position_packs s \<longleftrightarrow>
     (\<forall>p\<in>set (pl_packs s). sp_storesPosition p \<longrightarrow> sp_changes p = []) \<and> (\<forall>p. pl_after s = Some p \<longrightarrow> \<not> sp_storesPosition p)"

definition drained :: "pipeline \<Rightarrow> bool" where
  "drained s \<longleftrightarrow>
     (pl_closed s \<longrightarrow> pl_captured s = None) \<and>
     (pl_flushed s \<longrightarrow> pl_closed s \<and> pl_packs s = [] \<and> buffer_keys (pl_packer s) = {})"

definition live :: "pipeline \<Rightarrow> bool" where
  "live s \<longleftrightarrow> cp_resetGeneration (pl_check s) = pl_generation s \<and> \<not> pl_broken s"

definition send_inv :: "pipeline \<Rightarrow> bool" where
  "send_inv s \<longleftrightarrow>
     covers (pl_feed s) (pl_updateSeq s) (pl_check s) \<and> pl_generation s \<le> cp_resetGeneration (pl_check s) \<and>
     (live s \<longrightarrow> flow_covered (feed_of s) s) \<and> captured_fine s \<and> position_packs s \<and> drained s"

lemmas flow_defs = flow_covered_def front_def front_keys_def packed_keys_def read_keys_def

lemma feed_grows: "grows (feed_of s)"
  by (simp add: feed_of_def covered_grows)

lemma start_send_inv:
  assumes "covers feed updateSeq check"
  shows "send_inv (start_send check reliance feed updateSeq t)"
proof -
  obtain resendIDs reliance' where r: "takeChunksToSendAgain check reliance = (resendIDs, reliance')" by fastforce
  have "covered feed updateSeq (exchanged check) (cp_lastLocalSeq check)" using assms by (simp add: covers_def)
  then show ?thesis
    using assms r
    by (simp add: send_inv_def start_send_def Let_def flow_defs feed_of_def packer_covered_def packer_keys_def buffer_keys_def
        new_packer_def createBuffer_def captured_fine_def position_packs_def drained_def)
qed

lemma stop_inv: "send_inv s \<Longrightarrow> reader_waits s \<Longrightarrow> send_inv (pull_stop s)"
  by (simp add: send_inv_def pull_stop_def live_def flow_defs feed_of_def captured_fine_def position_packs_def drained_def reader_waits_def)

lemma read_slice_parts:
  assumes "read_slice local ids l = (asked, chunks, rest, l')"
  shows "asked = take (slice_count l) ids" and "rest = drop (slice_count l) ids" and "chunks = List.map_filter local asked"
  using assms by (auto simp: read_slice_def Let_def)

lemma slice_chunks:
  assumes "read_slice local ids l = (asked, chunks, rest, l')" and "chunk_reader local" and "c \<in> set chunks"
  shows "jd_id c \<in> set asked"
  using assms by (auto simp: read_slice_parts [OF assms(1)] chunk_reader_def List.map_filter_def)

lemma slice_inv:
  assumes i: "send_inv s" and w: "reader_waits s"
  shows "send_inv (pull_slice local ids s)"
proof -
  obtain asked chunks rest l' where r: "read_slice local ids (pl_largest s) = (asked, chunks, rest, l')" by (metis prod_cases4)
  have "flow_covered (feed_of s) s \<Longrightarrow> flow_covered (feed_of s) (pull_slice local ids s)"
    using growsD [OF feed_grows [of s]]
    by (simp add: pull_slice_def r flow_defs packs_covered_append) (meson Un_upper1 Un_mono order_refl sup.coboundedI1)
  then show ?thesis
    using i w by (auto simp: pull_slice_def r send_inv_def live_def feed_of_def captured_fine_def position_packs_def drained_def reader_waits_def)
qed

lemma slices_end_inv:
  assumes i: "send_inv s" and w: "reader_waits s"
  shows "send_inv (pull_slices_end s)"
proof (cases "pl_after s")
  case None
  with i w show ?thesis
    by (simp add: pull_slices_end_def Let_def send_inv_def live_def feed_of_def flow_defs captured_fine_def position_packs_def drained_def)
next
  case (Some p)
  have "flow_covered (feed_of s) s \<Longrightarrow> flow_covered (feed_of s) (pull_slices_end s)"
    using Some by (simp add: pull_slices_end_def Let_def flow_defs packs_covered_append Un_assoc)
  then show ?thesis
    using i w Some
    by (auto simp: pull_slices_end_def Let_def send_inv_def live_def feed_of_def captured_fine_def position_packs_def drained_def reader_waits_def)
qed

lemma pack_begin_inv: "send_inv s \<Longrightarrow> reader_waits s \<Longrightarrow> send_inv (pull_pack_begin s)"
  by (simp add: pull_pack_begin_def send_inv_def live_def feed_of_def flow_defs captured_fine_def position_packs_def drained_def
      reader_waits_def covers_def)

lemma pack_read_inv:
  assumes i: "send_inv s" and c: "pl_captured s = Some info" and a: "feed_answer s (pack_from info (pl_lastSeq s)) answer"
  shows "send_inv (pull_pack_read t (createJournalPack info answer updateSeq bulkGet) s)"
proof -
  let ?s' = "pull_pack_read t (createJournalPack info answer updateSeq bulkGet) s"
  have open': "\<not> pl_closed s" using i c by (auto simp: send_inv_def drained_def)
  have others: "pl_check ?s' = pl_check s" "pl_generation ?s' = pl_generation s" "pl_feed ?s' = pl_feed s" "pl_updateSeq ?s' = pl_updateSeq s"
      "pl_captured ?s' = None" "pl_writing ?s' = pl_writing s" "pl_packer ?s' = pl_packer s" "pl_flushed ?s' = pl_flushed s"
      "pl_broken ?s' = pl_broken s"
    by (auto simp: pull_pack_read_def Let_def split: option.split prod.split)
  have flushed: "\<not> pl_flushed s" using i open' by (auto simp: send_inv_def drained_def)
  have pos: "position_packs ?s'"
    using i by (auto simp: send_inv_def position_packs_def pull_pack_read_def Let_def split: option.split prod.split)
  have "flow_covered (feed_of s) ?s'" if f: "flow_covered (feed_of s) s" and l: "live s"
  proof (cases "createJournalPack info answer updateSeq bulkGet")
    case None
    with f show ?thesis by (simp add: pull_pack_read_def flow_defs)
  next
    case (Some p)
    show ?thesis
    proof (cases "cp_resetGeneration (pl_current s) = pl_generation s")
      case False
      with Some f show ?thesis by (simp add: pull_pack_read_def flow_defs)
    next
      case True
      with i c l have info: "exchanged info \<subseteq> exchanged (pl_check s)" "feed_of s (exchanged info) (cp_lastLocalSeq info)"
        by (auto simp: send_inv_def captured_fine_def live_def)
      have sub: "exchanged info \<subseteq> read_keys s" using info(1) by (auto simp: flow_defs)
      have "feed_of s (read_keys s) (pl_lastSeq s)" using f by (simp add: flow_covered_def)
      moreover have "feed_of s (read_keys s) (cp_lastLocalSeq info)" by (rule growsD [OF feed_grows info(2) sub])
      ultimately have "feed_of s (read_keys s) (pack_from info (pl_lastSeq s))" by (simp add: pack_from_def)
      then have p: "feed_of s (read_keys s \<union> doc_keys (jp_changes p)) (jp_packLastSeq p)"
        using a pack_covers [OF Some _ _ _ sub] by (auto simp: feed_of_def feed_answer_def)
      show ?thesis
      proof (cases "jp_changes p = []")
        case True
        then have "feed_of s (read_keys s) (jp_packLastSeq p)" using p by simp
        with True Some f \<open>cp_resetGeneration (pl_current s) = pl_generation s\<close> show ?thesis
          by (simp add: pull_pack_read_def Let_def flow_defs packs_covered_append)
      next
        case False
        with p Some f \<open>cp_resetGeneration (pl_current s) = pl_generation s\<close> show ?thesis
          by (simp add: pull_pack_read_def Let_def flow_defs split: prod.split)
      qed
    qed
  qed
  moreover have "captured_fine ?s'" "drained ?s'" using others flushed by (simp_all add: captured_fine_def drained_def)
  ultimately show ?thesis using i pos unfolding send_inv_def live_def feed_of_def others by simp
qed

lemma flow_packer:
  assumes p: "pl_packer s' = q" and o: "pl_check s' = pl_check s" "pl_writing s' = pl_writing s" "pl_packs s' = packs"
      "pl_lastSeq s' = pl_lastSeq s" "pl_scanned s' = pl_scanned s" "pl_after s' = pl_after s"
    and q: "packer_covered C (front_keys s) q" "C (front_keys s \<union> packer_keys q) (pk_lastProcessedSeq q)"
      "packs_covered C (front_keys s \<union> packer_keys q) packs"
    and k: "read_keys s \<subseteq> front_keys s \<union> packer_keys q \<union> packs_keys packs" and g: "grows C" and f: "flow_covered C s"
  shows "flow_covered C s'"
proof -
  have e: "front s' = front s" "front_keys s' = front_keys s" "packed_keys s' = front_keys s \<union> packer_keys q"
      "read_keys s' = front_keys s \<union> packer_keys q \<union> packs_keys packs"
    using p o by (simp_all add: front_def front_keys_def packed_keys_def read_keys_def)
  have "C (read_keys s') n" if "C (read_keys s) n" for n using growsD [OF g that] k e(4) by simp
  moreover have "C (read_keys s' \<union> K) n" if "C (read_keys s \<union> K) n" for n K
    by (rule growsD [OF g that]) (use k e(4) in auto)
  ultimately show ?thesis using f q unfolding flow_covered_def e p o by simp
qed

lemma transform_inv:
  assumes i: "send_inv s" and p: "pl_packs s = pack # packs"
  shows "send_inv (transform_step pack packs s)"
proof -
  let ?q = "transform_pack pack (pl_packer s)"
  have "flow_covered (feed_of s) (transform_step pack packs s)" if f: "flow_covered (feed_of s) s"
  proof -
    have "packer_covered (feed_of s) (front_keys s) (pl_packer s)" using f by (simp add: flow_covered_def)
    moreover have n: "feed_of s (packed_keys s \<union> doc_keys (sp_changes pack)) (sp_packLastSeq pack)"
      and ps: "packs_covered (feed_of s) (packed_keys s \<union> doc_keys (sp_changes pack)) packs"
      using f p by (simp_all add: flow_covered_def)
    moreover have "sp_storesPosition pack \<Longrightarrow> sp_changes pack = []" using i p by (auto simp: send_inv_def position_packs_def)
    ultimately have q: "packer_covered (feed_of s) (front_keys s) ?q" "packer_keys (pl_packer s) \<union> doc_keys (sp_changes pack) \<subseteq> packer_keys ?q"
        "pk_lastProcessedSeq ?q = sp_packLastSeq pack"
      using transform_pack_covered [OF feed_grows, of s "front_keys s" "pl_packer s" pack] by (simp_all add: packed_keys_def)
    have sub: "packed_keys s \<union> doc_keys (sp_changes pack) \<subseteq> front_keys s \<union> packer_keys ?q" using q(2) by (auto simp: packed_keys_def)
    show ?thesis
    proof (rule flow_packer [OF _ _ _ _ _ _ _ q(1) _ _ _ feed_grows f])
      show "feed_of s (front_keys s \<union> packer_keys ?q) (pk_lastProcessedSeq ?q)" unfolding q(3) by (rule growsD [OF feed_grows n sub])
      show "packs_covered (feed_of s) (front_keys s \<union> packer_keys ?q) packs" by (rule packs_covered_mono [OF feed_grows ps sub])
      show "read_keys s \<subseteq> front_keys s \<union> packer_keys ?q \<union> packs_keys packs" using sub by (auto simp: read_keys_def p)
    qed (simp_all add: transform_step_def)
  qed
  moreover have "\<not> pl_flushed s" using i p by (auto simp: send_inv_def drained_def)
  ultimately show ?thesis
    using i p by (auto simp: transform_step_def send_inv_def live_def feed_of_def captured_fine_def position_packs_def drained_def)
qed

lemma flush_inv:
  assumes i: "send_inv s" and c: "pl_closed s" "pl_packs s = []"
  shows "send_inv (flush_step s)"
proof -
  let ?q = "flush_packer (pl_packer s)"
  have "flow_covered (feed_of s) (flush_step s)" if f: "flow_covered (feed_of s) s"
  proof -
    have "packer_covered (feed_of s) (front_keys s) (pl_packer s)" "feed_of s (front_keys s \<union> packer_keys (pl_packer s)) (pk_lastProcessedSeq (pl_packer s))"
      using f by (simp_all add: flow_covered_def packed_keys_def)
    note q = flush_packer_covered [OF feed_grows this]
    show ?thesis
    proof (rule flow_packer [OF _ _ _ _ _ _ _ _ _ _ _ feed_grows f])
      show "packer_covered (feed_of s) (front_keys s) ?q" using q by simp
      show "feed_of s (front_keys s \<union> packer_keys ?q) (pk_lastProcessedSeq ?q)"
        using q f by (simp add: flow_covered_def packed_keys_def) (simp add: flush_packer_def closeBatch_def)
      show "read_keys s \<subseteq> front_keys s \<union> packer_keys ?q \<union> packs_keys []" using q c by (simp add: read_keys_def packed_keys_def)
    qed (simp_all add: flush_step_def c)
  qed
  moreover have "buffer_keys ?q = {}" by (simp add: flush_packer_def closeBatch_def buffer_keys_def createBuffer_def)
  ultimately show ?thesis
    using i c by (auto simp: flush_step_def send_inv_def live_def feed_of_def captured_fine_def position_packs_def drained_def)
qed

section \<open>The uploader and the environment\<close>

lemma flow_mono:
  assumes f: "flow_covered C s" and g: "grows C" and e: "exchanged (pl_check s) \<subseteq> exchanged (pl_check s')"
    and o: "pl_writing s' = pl_writing s" "pl_packer s' = pl_packer s" "pl_packs s' = pl_packs s" "pl_lastSeq s' = pl_lastSeq s"
      "pl_scanned s' = pl_scanned s" "pl_after s' = pl_after s"
  shows "flow_covered C s'"
proof -
  have fr: "front s' = front s" using o by (simp add: front_def)
  have k: "front_keys s \<subseteq> front_keys s'" "packed_keys s \<subseteq> packed_keys s'" "read_keys s \<subseteq> read_keys s'"
    using e by (auto simp: front_keys_def packed_keys_def read_keys_def fr o)
  have pk: "packer_covered C (front_keys s') (pl_packer s)"
  proof -
    have p: "packer_covered C (front_keys s) (pl_packer s)" using f by (simp add: flow_covered_def)
    have "C (front_keys s' \<union> K) n" if "C (front_keys s \<union> K) n" for K n by (rule growsD [OF g that]) (use k(1) in blast)
    with p units_covered_mono [OF g _ k(1)] show ?thesis by (simp add: packer_covered_def)
  qed
  have "C (read_keys s' \<union> K) n" if "C (read_keys s \<union> K) n" for K n by (rule growsD [OF g that]) (use k(3) in blast)
  moreover note growsD [OF g _ k(2)] growsD [OF g _ k(3)] units_covered_mono [OF g _ e] packs_covered_mono [OF g _ k(2)]
  ultimately show ?thesis using f pk unfolding flow_covered_def fr o by blast
qed

text \<open>Whoever moves the checkpoint on to one that covers the feed and keeps the history of its generation.\<close>

definition follows :: "pipeline \<Rightarrow> checkpoint \<Rightarrow> bool" where
  "follows s info \<longleftrightarrow>
     covers (pl_feed s) (pl_updateSeq s) info \<and> cp_resetGeneration (pl_check s) \<le> cp_resetGeneration info \<and>
     (cp_resetGeneration info = cp_resetGeneration (pl_check s) \<longrightarrow> exchanged (pl_check s) \<subseteq> exchanged info)"

lemma captured_follows:
  assumes "captured_fine s" and "follows s info" and "pl_check s' = info \<or> pl_check s' = pl_check s"
    and "cp_resetGeneration (pl_current s') \<ge> cp_resetGeneration (pl_check s) \<or> pl_current s' = pl_current s"
    and "pl_captured s' = pl_captured s" "pl_generation s' = pl_generation s" "pl_feed s' = pl_feed s" "pl_updateSeq s' = pl_updateSeq s"
  shows "captured_fine s'"
  unfolding captured_fine_def
proof (intro allI impI)
  fix i
  assume "pl_captured s' = Some i"
  with assms(1,5) have c: "pl_generation s \<le> cp_resetGeneration i" "cp_resetGeneration i \<le> cp_resetGeneration (pl_current s)"
      "cp_resetGeneration i \<le> cp_resetGeneration (pl_check s)"
    and k: "cp_resetGeneration i = cp_resetGeneration (pl_check s) \<Longrightarrow> exchanged i \<subseteq> exchanged (pl_check s) \<and> feed_of s (exchanged i) (cp_lastLocalSeq i)"
    by (auto simp: captured_fine_def)
  have cur: "cp_resetGeneration i \<le> cp_resetGeneration (pl_current s')" using assms(4) c by auto
  have chk: "cp_resetGeneration (pl_check s) \<le> cp_resetGeneration (pl_check s')"
    and same: "cp_resetGeneration (pl_check s') = cp_resetGeneration (pl_check s) \<Longrightarrow> exchanged (pl_check s) \<subseteq> exchanged (pl_check s')"
    using assms(2,3) by (auto simp: follows_def)
  have "exchanged i \<subseteq> exchanged (pl_check s') \<and> feed_of s' (exchanged i) (cp_lastLocalSeq i)"
    if "cp_resetGeneration i = cp_resetGeneration (pl_check s')"
    using k same chk c(3) that assms(7,8) by (simp add: feed_of_def) (metis order_antisym subset_trans)
  with c cur chk assms(6) show "pl_generation s' \<le> cp_resetGeneration i \<and> cp_resetGeneration i \<le> cp_resetGeneration (pl_current s') \<and>
      cp_resetGeneration i \<le> cp_resetGeneration (pl_check s') \<and>
      (cp_resetGeneration i = cp_resetGeneration (pl_check s') \<longrightarrow> exchanged i \<subseteq> exchanged (pl_check s') \<and> feed_of s' (exchanged i) (cp_lastLocalSeq i))"
    by auto
qed

lemma check_inv:
  assumes i: "send_inv s" and n: "follows s info"
  shows "send_inv (s\<lparr>pl_check := info\<rparr>)" and "send_inv (s\<lparr>pl_check := info, pl_foreign := x\<rparr>)"
proof -
  have l: "live (s\<lparr>pl_check := info\<rparr>) \<Longrightarrow> live s \<and> exchanged (pl_check s) \<subseteq> exchanged info"
    using i n by (simp add: live_def send_inv_def follows_def)
  have "flow_covered (feed_of s) (s\<lparr>pl_check := info\<rparr>)" if "live (s\<lparr>pl_check := info\<rparr>)"
    using flow_mono [of "feed_of s" s "s\<lparr>pl_check := info\<rparr>"] feed_grows i l [OF that] by (simp add: send_inv_def)
  moreover have "captured_fine (s\<lparr>pl_check := info\<rparr>)" using captured_follows [of s info] i n by (simp add: send_inv_def)
  ultimately show c: "send_inv (s\<lparr>pl_check := info\<rparr>)"
    using i n by (simp add: send_inv_def follows_def feed_of_def position_packs_def drained_def)
  have "live (s\<lparr>pl_check := info, pl_foreign := x\<rparr>) = live (s\<lparr>pl_check := info\<rparr>)"
    "feed_of (s\<lparr>pl_check := info, pl_foreign := x\<rparr>) = feed_of (s\<lparr>pl_check := info\<rparr>)" by (simp_all add: live_def feed_of_def)
  with c show "send_inv (s\<lparr>pl_check := info, pl_foreign := x\<rparr>)"
    by (simp add: send_inv_def flow_defs captured_fine_def position_packs_def drained_def)
qed

lemma other_client_inv:
  "send_inv s \<Longrightarrow> other_client s info \<Longrightarrow> send_inv (s\<lparr>pl_check := info, pl_foreign := x\<rparr>)"
  by (rule check_inv(2)) (auto simp: other_client_def follows_def exchanged_def)

lemma covered_later:
  assumes "local_change s feed m" and "covered (pl_feed s) (pl_updateSeq s) K n"
  shows "covered feed m K n"
  using assms by (force simp: local_change_def covered_def)

lemma units_covered_later: "(\<And>K n. C K n \<Longrightarrow> D K n) \<Longrightarrow> units_covered C K us \<Longrightarrow> units_covered D K us"
  by (induction us arbitrary: K) auto

lemma packs_covered_later: "(\<And>K n. C K n \<Longrightarrow> D K n) \<Longrightarrow> packs_covered C K ps \<Longrightarrow> packs_covered D K ps"
  by (induction ps arbitrary: K) auto

lemma local_change_inv:
  assumes i: "send_inv s" and l: "local_change s feed m"
  shows "send_inv (s\<lparr>pl_feed := feed, pl_updateSeq := m\<rparr>)"
proof -
  let ?s' = "s\<lparr>pl_feed := feed, pl_updateSeq := m\<rparr>"
  have later: "feed_of s K n \<Longrightarrow> feed_of ?s' K n" for K n using covered_later [OF l] by (simp add: feed_of_def)
  note u = units_covered_later [of "feed_of s" "feed_of ?s'", OF later] and p = packs_covered_later [of "feed_of s" "feed_of ?s'", OF later]
  have "packer_covered (feed_of s) K q \<Longrightarrow> packer_covered (feed_of ?s') K q" for K q
    using u later by (simp add: packer_covered_def)
  then have "flow_covered (feed_of s) s \<Longrightarrow> flow_covered (feed_of ?s') ?s'"
    using u p later by (simp add: flow_defs)
  moreover have "captured_fine ?s'" using i later by (simp add: send_inv_def captured_fine_def)
  ultimately show ?thesis
    using i covered_later [OF l] by (simp add: send_inv_def live_def covers_def position_packs_def drained_def)
qed

lemma flow_pop:
  assumes f: "flow_covered C s" and g: "grows C" and w: "pl_writing s = None" and u: "pk_out (pl_packer s) = u # us"
  shows "C (exchanged (pl_check s) \<union> unit_keys u) (unit_seq u)"
    and "unit_keys u = {} \<Longrightarrow> flow_covered C (pop_unit s)"
    and "u = JournalUnit v \<Longrightarrow> pl_packer s' = pl_packer (pop_unit s) \<Longrightarrow> pl_writing s' = Some (v, name) \<Longrightarrow> pl_check s' = pl_check s \<Longrightarrow>
      pl_packs s' = pl_packs s \<Longrightarrow> pl_lastSeq s' = pl_lastSeq s \<Longrightarrow> pl_scanned s' = pl_scanned s \<Longrightarrow> pl_after s' = pl_after s \<Longrightarrow> flow_covered C s'"
proof -
  let ?K = "exchanged (pl_check s)" and ?q = "pl_packer (pop_unit s)"
  have fr: "front s = []" "front_keys s = ?K" using w by (simp_all add: front_def front_keys_def)
  have p: "packer_covered C ?K (pl_packer s)" using f fr by (simp add: flow_covered_def)
  then show seq: "C (?K \<union> unit_keys u) (unit_seq u)" by (simp add: packer_covered_def u)
  have q: "pk_out ?q = us" "pk_safeSeq ?q = pk_safeSeq (pl_packer s)" "pk_lastCompletedPackSeq ?q = pk_lastCompletedPackSeq (pl_packer s)"
      "pk_lastProcessedSeq ?q = pk_lastProcessedSeq (pl_packer s)" "pk_ordinary ?q = pk_ordinary (pl_packer s)" "pk_bulk ?q = pk_bulk (pl_packer s)"
    by (simp_all add: pop_unit_def u)
  have keys: "?K \<union> unit_keys u \<union> packer_keys ?q = ?K \<union> packer_keys (pl_packer s)"
    by (auto simp: packer_keys_def buffer_keys_def q u)
  have pq: "packer_covered C (?K \<union> unit_keys u) ?q"
    using p keys unfolding packer_covered_def q u by (simp add: Un_assoc)
  show "flow_covered C (pop_unit s)" if e: "unit_keys u = {}"
  proof -
    have "pl_check (pop_unit s) = pl_check s" "front (pop_unit s) = []" "pl_packs (pop_unit s) = pl_packs s" "pl_lastSeq (pop_unit s) = pl_lastSeq s"
        "pl_scanned (pop_unit s) = pl_scanned s" "pl_after (pop_unit s) = pl_after s"
      using w by (simp_all add: pop_unit_def front_def)
    then show ?thesis using f fr pq keys e q(4) by (simp add: flow_covered_def front_keys_def packed_keys_def read_keys_def)
  qed
  assume "u = JournalUnit v" "pl_packer s' = pl_packer (pop_unit s)" "pl_writing s' = Some (v, name)" "pl_check s' = pl_check s"
      "pl_packs s' = pl_packs s" "pl_lastSeq s' = pl_lastSeq s" "pl_scanned s' = pl_scanned s" "pl_after s' = pl_after s"
  then show "flow_covered C s'"
    using f fr pq keys q(4) seq by (simp add: flow_covered_def front_def front_keys_def packed_keys_def read_keys_def)
qed

lemma upload_inv:
  assumes i: "send_inv s" and w: "pl_writing s = None" and u: "pk_out (pl_packer s) = JournalUnit u # us"
  shows "send_inv (upload_step e u s)"
proof -
  have o: "pl_check (upload_step e u s) = pl_check s" "pl_packs (upload_step e u s) = pl_packs s" "pl_lastSeq (upload_step e u s) = pl_lastSeq s"
      "pl_scanned (upload_step e u s) = pl_scanned s" "pl_after (upload_step e u s) = pl_after s" "pl_packer (upload_step e u s) = pl_packer (pop_unit s)"
      "pl_feed (upload_step e u s) = pl_feed s" "pl_updateSeq (upload_step e u s) = pl_updateSeq s" "pl_captured (upload_step e u s) = pl_captured s"
      "pl_generation (upload_step e u s) = pl_generation s" "pl_current (upload_step e u s) = pl_current s" "pl_broken (upload_step e u s) = pl_broken s"
      "pl_closed (upload_step e u s) = pl_closed s" "pl_flushed (upload_step e u s) = pl_flushed s"
    by (simp_all add: upload_step_def Let_def pop_unit_def)
  have "buffer_keys (pl_packer (pop_unit s)) = buffer_keys (pl_packer s)" by (simp add: pop_unit_def buffer_keys_def)
  moreover obtain name where "pl_writing (upload_step e u s) = Some (u, name)" by (simp add: upload_step_def Let_def)
  note flow_pop(3) [OF _ feed_grows w u refl _ this]
  ultimately show ?thesis using i
    by (simp add: send_inv_def live_def feed_of_def captured_fine_def position_packs_def drained_def o)
qed

lemma update_follows:
  assumes "covered (pl_feed s) (pl_updateSeq s) (exchanged updated) (cp_lastLocalSeq updated)" and "exchanged (pl_check s) \<subseteq> exchanged updated"
  shows "follows s (updated_record False (pl_check s) updated)"
  using assms by (auto simp: follows_def covers_def updated_record_def exchanged_def)

lemma broken_inv:
  assumes "send_inv s" and "follows s info"
  shows "send_inv (s\<lparr>pl_current := info, pl_broken := True\<rparr>)"
  using assms captured_follows [of s info "s\<lparr>pl_current := info, pl_broken := True\<rparr>"]
  by (simp add: send_inv_def live_def position_packs_def drained_def follows_def)

lemma current_inv:
  assumes "send_inv s" and "cp_resetGeneration (pl_check s) \<le> cp_resetGeneration info"
  shows "send_inv (s\<lparr>pl_current := info\<rparr>)"
  using assms
  by (auto simp: send_inv_def live_def flow_defs feed_of_def captured_fine_def position_packs_def drained_def)

lemma update_check_inv:
  assumes i: "send_inv s" and f: "\<forall>updated. func (pl_check s) = Some updated \<longrightarrow> follows s (updated_record False (pl_check s) updated)"
  shows "send_inv (update_check stored func s)"
proof (cases "func (pl_check s)")
  case None
  with current_inv [OF i, of "pl_check s"] show ?thesis by (simp add: update_check_def)
next
  case (Some updated)
  with f have n: "follows s (updated_record False (pl_check s) updated)" by simp
  from current_inv [OF check_inv(1) [OF i n]] broken_inv [OF i n] Some show ?thesis
    by (simp add: update_check_def Let_def)
qed

lemma position_inv:
  assumes i: "send_inv s" and w: "pl_writing s = None" "\<not> pl_broken s" and u: "pk_out (pl_packer s) = PositionOnly n # us"
  shows "send_inv (position_step stored n s)"
proof -
  have o: "pl_check (pop_unit s) = pl_check s" "pl_feed (pop_unit s) = pl_feed s" "pl_updateSeq (pop_unit s) = pl_updateSeq s"
      "pl_captured (pop_unit s) = pl_captured s" "pl_generation (pop_unit s) = pl_generation s" "pl_current (pop_unit s) = pl_current s"
      "pl_broken (pop_unit s) = pl_broken s" "pl_closed (pop_unit s) = pl_closed s" "pl_flushed (pop_unit s) = pl_flushed s"
      "pl_packs (pop_unit s) = pl_packs s" "pl_after (pop_unit s) = pl_after s" "buffer_keys (pl_packer (pop_unit s)) = buffer_keys (pl_packer s)"
    by (simp_all add: pop_unit_def buffer_keys_def)
  have "live s \<longrightarrow> flow_covered (feed_of s) (pop_unit s)" using i flow_pop(2) [OF _ feed_grows w(1) u] by (simp add: send_inv_def)
  then have p: "send_inv (pop_unit s)"
    using i by (simp add: send_inv_def live_def feed_of_def captured_fine_def position_packs_def drained_def o)
  have "follows (pop_unit s) (updated_record False (pl_check s) (pl_check s\<lparr>cp_lastLocalSeq := n\<rparr>))"
    if "cp_resetGeneration (pl_check s) = pl_generation s"
  proof -
    have "live s" using that w(2) by (simp add: live_def)
    then have "feed_of s (exchanged (pl_check s)) n"
      using i flow_pop(1) [OF _ feed_grows w(1) u, of s] by (simp add: send_inv_def)
    then show ?thesis using update_follows [of "pop_unit s" "pl_check s\<lparr>cp_lastLocalSeq := n\<rparr>"] by (simp add: o feed_of_def exchanged_def)
  qed
  then show ?thesis
    unfolding position_step_def by (intro update_check_inv [OF p]) (auto simp: updateTransfer_def record_position_def o split: if_splits)
qed

lemma reliance_inv [simp]: "send_inv (s\<lparr>pl_reliance := r\<rparr>) = send_inv s" "send_inv (s\<lparr>pl_result := x\<rparr>) = send_inv s"
    "live (s\<lparr>pl_result := x\<rparr>) = live s"
  by (simp_all add: send_inv_def live_def flow_defs feed_of_def captured_fine_def position_packs_def drained_def)

lemma record_inv:
  assumes i: "send_inv s" and w: "pl_writing s = Some (u, filename)" "\<not> pl_broken s"
  shows "send_inv (record_step stored t u filename s)"
proof (cases "cp_resetGeneration (pl_check s) = pl_generation s")
  case False
  then have "send_inv (s\<lparr>pl_writing := None, pl_current := pl_check s, pl_broken := True\<rparr>)"
    using i by (auto simp: send_inv_def live_def flow_defs feed_of_def captured_fine_def position_packs_def drained_def)
  with False show ?thesis by (simp add: record_step_def Let_def)
next
  case True
  let ?s = "s\<lparr>pl_writing := None\<rparr>"
  let ?u = "pl_check s\<lparr>cp_lastLocalSeq := ju_packLastSeq u, cp_sentIDs := cp_sentIDs (pl_check s) \<union> set (ju_sentIDs u),
      cp_sentFiles := insert filename (cp_sentFiles (pl_check s))\<rparr>"
  let ?new = "updated_record False (pl_check s) ?u"
  have x: "exchanged ?u = exchanged (pl_check s) \<union> set (ju_sentIDs u)" "exchanged ?new = exchanged ?u" "cp_lastLocalSeq ?new = ju_packLastSeq u"
    by (auto simp: exchanged_def updated_record_def)
  have f: "flow_covered (feed_of s) s" using i True w(2) by (simp add: send_inv_def live_def)
  then have "feed_of s (exchanged ?u) (ju_packLastSeq u)" by (simp add: flow_covered_def front_def w x)
  then have n: "follows s ?new" by (intro update_follows) (simp_all add: feed_of_def x)
  have c: "captured_fine (?s\<lparr>pl_check := ?new, pl_current := ?new\<rparr>)" "captured_fine (?s\<lparr>pl_current := ?new, pl_broken := True\<rparr>)"
    using i n by (auto simp: send_inv_def follows_def intro!: captured_follows [of s ?new])
  have "front s = [JournalUnit u]" "front (?s\<lparr>pl_check := ?new, pl_current := ?new\<rparr>) = []" by (simp_all add: front_def w)
  then have "flow_covered (feed_of s) (?s\<lparr>pl_check := ?new, pl_current := ?new\<rparr>)"
    using f by (simp add: flow_covered_def front_keys_def packed_keys_def read_keys_def x Un_assoc)
  then have "send_inv (?s\<lparr>pl_check := ?new, pl_current := ?new\<rparr>)" "send_inv (?s\<lparr>pl_current := ?new, pl_broken := True\<rparr>)"
    using i n c by (simp_all add: send_inv_def live_def feed_of_def follows_def position_packs_def drained_def)
  with True show ?thesis
    by (simp add: record_step_def update_check_def updateTransfer_def record_unit_def Let_def)
qed

lemma finish_inv:
  assumes i: "send_inv s" and d: "pl_flushed s" "pk_out (pl_packer s) = []" "pl_writing s = None" "\<not> pl_broken s"
  shows "send_inv (finish_step stored s)"
proof -
  have "read_keys s = exchanged (pl_check s)"
    using i d by (simp add: send_inv_def drained_def read_keys_def packed_keys_def front_keys_def front_def packer_keys_def)
  then have "follows s (updated_record False (pl_check s) (pl_check s\<lparr>cp_lastLocalSeq := pl_scanned s\<rparr>))"
    if "cp_resetGeneration (pl_check s) = pl_generation s"
    using that i d by (intro update_follows) (auto simp: send_inv_def live_def flow_covered_def feed_of_def exchanged_def)
  then have "send_inv (update_check stored (updateTransfer (pl_generation s) (record_scanned (pl_scanned s))) s)"
    by (intro update_check_inv [OF i]) (auto simp: updateTransfer_def record_scanned_def split: if_splits)
  then show ?thesis by (simp add: finish_step_def Let_def)
qed

lemma send_step_inv: "send_step e s s' \<Longrightarrow> send_inv s \<Longrightarrow> send_inv s'"
proof (induction rule: send_step.induct)
  case (ReadFails s)
  then show ?case by (simp add: send_inv_def live_def flow_defs feed_of_def captured_fine_def position_packs_def drained_def)
next
  case (Breaks s)
  then show ?case by (simp add: send_inv_def live_def captured_fine_def feed_of_def position_packs_def drained_def)
next
  case (Fail s)
  then show ?case by simp
qed (auto intro: stop_inv slice_inv slices_end_inv pack_begin_inv pack_read_inv transform_inv flush_inv position_inv upload_inv record_inv
      finish_inv other_client_inv local_change_inv)

interpretation sending: transition_invariant "send_step e" send_inv send_inv for e
  by unfold_locales (auto intro: send_step_inv)

section \<open>What is recorded as sent\<close>

definition uploaded_keys :: "pipeline \<Rightarrow> string set" where
  "uploaded_keys s = (\<Union>(f, u)\<in>set (pl_uploaded s). set (ju_sentIDs u))"

definition sent_inv :: "pipeline \<Rightarrow> bool" where
  "sent_inv s \<longleftrightarrow>
     cp_sentIDs (pl_check s) \<subseteq> pl_foreign s \<union> uploaded_keys s \<and> (\<forall>u f. pl_writing s = Some (u, f) \<longrightarrow> (f, u) \<in> set (pl_uploaded s))"

lemma sent_same: "sent_inv s \<Longrightarrow> pl_check s' = pl_check s \<Longrightarrow> pl_foreign s' = pl_foreign s \<Longrightarrow> pl_uploaded s' = pl_uploaded s \<Longrightarrow>
    pl_writing s' = pl_writing s \<or> pl_writing s' = None \<Longrightarrow> sent_inv s'"
  by (auto simp: sent_inv_def uploaded_keys_def)

lemma sent_update:
  "sent_inv s \<Longrightarrow> (\<And>u. func (pl_check s) = Some u \<Longrightarrow> cp_sentIDs u \<subseteq> pl_foreign s \<union> uploaded_keys s) \<Longrightarrow> sent_inv (update_check stored func s)"
  by (auto simp: update_check_def Let_def sent_inv_def uploaded_keys_def updated_record_def split: option.split)

lemma step_sent: "send_step e s s' \<Longrightarrow> sent_inv s \<Longrightarrow> sent_inv s'"
proof (induction rule: send_step.induct)
  case (Slice s ids local)
  show ?case by (rule sent_same [OF Slice.prems]) (auto simp: pull_slice_def split: prod.split)
next
  case (SlicesEnd s)
  show ?case by (rule sent_same [OF SlicesEnd.prems]) (auto simp: pull_slices_end_def Let_def split: option.split)
next
  case (PackRead s info answer t updateSeq bulkGet)
  show ?case by (rule sent_same [OF PackRead.prems]) (auto simp: pull_pack_read_def Let_def split: option.split prod.split)
next
  case (Position s n units stored)
  have p: "sent_inv (pop_unit s)" by (rule sent_same [OF Position.prems]) (simp_all add: pop_unit_def)
  show ?case
    unfolding position_step_def
    by (rule sent_update [OF p]) (use p in \<open>auto simp: updateTransfer_def record_position_def sent_inv_def split: if_splits\<close>)
next
  case (Upload s u units)
  then show ?case by (auto simp: upload_step_def Let_def pop_unit_def sent_inv_def uploaded_keys_def)
next
  case (Record s u filename stored t)
  let ?s = "s\<lparr>pl_writing := None\<rparr>"
  have s: "sent_inv ?s" by (rule sent_same [OF Record.prems]) simp_all
  have f: "(filename, u) \<in> set (pl_uploaded s)" using Record by (simp add: sent_inv_def)
  have "sent_inv (update_check stored (updateTransfer (pl_generation s) (record_unit u filename)) ?s)"
  proof (rule sent_update [OF s])
    have "set (ju_sentIDs u) \<subseteq> uploaded_keys ?s" using f by (force simp: uploaded_keys_def)
    then show "updateTransfer (pl_generation s) (record_unit u filename) (pl_check ?s) = Some v \<Longrightarrow> cp_sentIDs v \<subseteq> pl_foreign ?s \<union> uploaded_keys ?s" for v
      using s by (auto simp: updateTransfer_def record_unit_def sent_inv_def split: if_splits)
  qed
  then show ?case using s by (auto simp: record_step_def Let_def sent_inv_def uploaded_keys_def)
next
  case (Finish s stored)
  have "sent_inv (update_check stored (updateTransfer (pl_generation s) (record_scanned (pl_scanned s))) s)"
    by (rule sent_update [OF Finish.prems]) (use Finish.prems in \<open>auto simp: updateTransfer_def record_scanned_def sent_inv_def split: if_splits\<close>)
  then show ?case by (simp add: finish_step_def Let_def sent_inv_def uploaded_keys_def)
next
  case (OtherClient s info)
  then show ?case by (auto simp: sent_inv_def uploaded_keys_def)
qed (auto simp: sent_inv_def uploaded_keys_def pull_stop_def pull_pack_begin_def transform_step_def flush_step_def)

interpretation recording: transition_invariant "send_step e" sent_inv sent_inv for e
  by unfold_locales (auto intro: step_sent)

section \<open>Properties\<close>

text \<open>
  C5. The position that is stored never passes a revision of a document that the remote may lack: whatever the local
  database, the storage, other clients and the order of the reader, the packer and the uploader do, every revision
  of a document in the feed up to the stored position came from the remote, lies in a journal whose upload succeeded,
  or was recorded as sent by another client or before.
\<close>

theorem position_never_passes_unsent:
  assumes "covers feed updateSeq check" and "(send_step e)\<^sup>*\<^sup>* (start_send check reliance feed updateSeq t) s"
    and "row \<in> set (pl_feed s)" and "ch_seq row \<le> cp_lastLocalSeq (pl_check s)" and "\<not> isChunkID (ch_id row)" and "rv \<in> set (ch_revs row)"
  shows "docKeyOf (ch_id row) rv \<in> cp_knownIDs (pl_check s) \<union> pl_foreign s \<union> (\<Union>(f, u)\<in>set (pl_uploaded s). set (ju_sentIDs u))"
proof -
  have "sent_inv (start_send check reliance feed updateSeq t)"
    by (simp add: start_send_def Let_def sent_inv_def split: prod.split)
  then have sent: "cp_sentIDs (pl_check s) \<subseteq> pl_foreign s \<union> uploaded_keys s"
    using recording.reachable_inv [OF _ assms(2)] by (simp add: sent_inv_def)
  have "send_inv s" by (rule sending.reachable_inv [OF start_send_inv [OF assms(1)] assms(2)])
  with assms(3-6) have "docKeyOf (ch_id row) rv \<in> exchanged (pl_check s)" by (auto simp: send_inv_def covers_def covered_def)
  with sent show ?thesis by (auto simp: exchanged_def uploaded_keys_def)
qed

text \<open>A note is read, packed and uploaded, and its journal is recorded.\<close>

definition sample_env :: send_env where
  "sample_env = \<lparr>se_sha256Hex = (\<lambda>x. x), se_show = (\<lambda>n. ''0''), se_deviceAndVaultName = ''d''\<rparr>"

definition sample_doc :: journal_doc where
  "sample_doc = \<lparr>jd_id = ''n'', jd_rev = ''1-a'', jd_deleted = False, jd_softDeleted = False, jd_children = None, jd_size = None,
     jd_bytes = 9, jd_dataLength = 0\<rparr>"

definition sample_row :: change_row where
  "sample_row = \<lparr>ch_seq = 1, ch_id = ''n'', ch_revs = [''1-a'']\<rparr>"

definition sample_start :: pipeline where
  "sample_start = start_send createCheckPointInfoDefault \<lparr>jr_documents = [], jr_resend = []\<rparr> [sample_row] 1 0"

definition sample_first :: pipeline where
  "sample_first = pull_pack_read 0 (createJournalPack createCheckPointInfoDefault \<lparr>ca_results = [sample_row], ca_last_seq = 1\<rparr> 1 (\<lambda>_. [sample_doc]))
     (pull_pack_begin sample_start)"

definition sample_pack :: send_pack where
  "sample_pack = \<lparr>sp_changes = [sample_doc], sp_packLastSeq = 1, sp_storesPosition = False\<rparr>"

definition sample_last :: pipeline where
  "sample_last = pull_pack_read 0 (createJournalPack createCheckPointInfoDefault \<lparr>ca_results = [], ca_last_seq = 1\<rparr> 1 (\<lambda>_. []))
     (pull_pack_begin (transform_step sample_pack [] (pull_slices_end sample_first)))"

definition sample_unit :: journal_unit where
  "sample_unit = \<lparr>ju_rows = [sample_doc], ju_packLastSeq = 1, ju_sentIDs = [''n-1-a''], ju_isBulk = False, ju_relied = []\<rparr>"

definition sample_sent :: pipeline where
  "sample_sent =
     record_step True 0 sample_unit
       (journal_name (\<lambda>x. x) (\<lambda>n. ''0'') ''d'' 0 0 sample_unit) (upload_step sample_env sample_unit (flush_step sample_last))"

lemmas sample_defs = sample_start_def start_send_def takeChunksToSendAgain_def createCheckPointInfoDefault_def new_packer_def createBuffer_def
  pull_pack_begin_def pull_pack_read_def createJournalPack_def unknown_revisions_def sample_row_def sample_doc_def docKeyOf_def getDocKey_def
  isChunkEntry_def isChunkID_def chunksInUseBy_def Let_def

lemma sample_first_eq:
  "sample_first = sample_start\<lparr>pl_current := createCheckPointInfoDefault, pl_after := Some sample_pack, pl_reading := Some []\<rparr>"
  by (simp add: sample_first_def sample_pack_def sample_defs)

definition sample_buffer :: send_buffer where
  "sample_buffer = \<lparr>sb_rows = [sample_doc], sb_binarySize = 9, sb_sentIDs = [''n-1-a''], sb_relied = []\<rparr>"

definition sample_packer :: packer where
  "sample_packer = \<lparr>pk_ordinary = sample_buffer, pk_bulk = createBuffer, pk_lastProcessedSeq = 1, pk_lastCompletedPackSeq = 1,
     pk_safeSeq = 0, pk_packedChunks = {}, pk_out = []\<rparr>"

lemma sample_transformed: "transform_pack sample_pack (new_packer 0) = sample_packer"
  by (simp add: transform_pack_def sample_pack_def sample_packer_def sample_buffer_def pack_row_def rely_on_remote_def add_row_def isFull_def
      maxOutBufLength_def maxBinarySize_def BULK_CHUNK_MIN_BYTES_def sample_defs)

lemma sample_last_eq:
  "sample_last = sample_start\<lparr>pl_current := createCheckPointInfoDefault, pl_after := None, pl_reading := None, pl_lastSeq := 1, pl_scanned := 1,
     pl_resent := False, pl_packer := sample_packer, pl_closed := True\<rparr>"
proof -
  have "pl_packer sample_start = new_packer 0" by (simp add: sample_defs)
  then show ?thesis
    by (simp add: sample_last_def sample_first_eq pull_slices_end_def transform_step_def sample_transformed Let_def)
      (simp add: sample_pack_def sample_defs)
qed

lemma sample_flushed: "flush_packer sample_packer = sample_packer\<lparr>pk_ordinary := createBuffer, pk_safeSeq := 1, pk_out := [JournalUnit sample_unit]\<rparr>"
  by (simp add: flush_packer_def closeBatch_def sample_packer_def batch_units_def sample_buffer_def unit_of_buffer_def sample_unit_def createBuffer_def)

lemma send_goes_on: "(send_step e)\<^sup>*\<^sup>* s s' \<Longrightarrow> send_step e s' s'' \<Longrightarrow> (send_step e)\<^sup>*\<^sup>* s s''"
  by (rule rtranclp.rtrancl_into_rtrancl)

lemma sample_reachable: "(send_step sample_env)\<^sup>*\<^sup>* sample_start (flush_step sample_last)"
proof -
  have w: "reader_waits sample_start" "pl_reading sample_start = None" by (simp_all add: reader_waits_def sample_defs)
  have 1: "(send_step sample_env)\<^sup>*\<^sup>* sample_start (pull_pack_begin sample_start)"
    by (rule send_goes_on [OF rtranclp.rtrancl_refl send_step.PackBegin [OF w]])
  have a: "feed_answer (pull_pack_begin sample_start) (pack_from createCheckPointInfoDefault (pl_lastSeq (pull_pack_begin sample_start)))
      \<lparr>ca_results = [sample_row], ca_last_seq = 1\<rparr>"
    by (simp add: feed_answer_def sample_defs)
  have 2: "(send_step sample_env)\<^sup>*\<^sup>* sample_start sample_first"
    unfolding sample_first_def
    by (rule send_goes_on [OF 1 send_step.PackRead [OF _ _ a]]) (simp_all add: sample_defs)
  have 3: "(send_step sample_env)\<^sup>*\<^sup>* sample_start (pull_slices_end sample_first)"
    by (rule send_goes_on [OF 2 send_step.SlicesEnd]) (simp_all add: sample_first_eq reader_waits_def, simp_all add: sample_defs)
  let ?s = "transform_step sample_pack [] (pull_slices_end sample_first)"
  have 4: "(send_step sample_env)\<^sup>*\<^sup>* sample_start ?s"
    by (rule send_goes_on [OF 3 send_step.Transform]) (simp_all add: sample_first_eq pull_slices_end_def, simp_all add: sample_defs)
  have 5: "(send_step sample_env)\<^sup>*\<^sup>* sample_start (pull_pack_begin ?s)"
    by (rule send_goes_on [OF 4 send_step.PackBegin])
      (simp_all add: sample_first_eq pull_slices_end_def transform_step_def reader_waits_def, simp_all add: sample_defs)
  have b: "feed_answer (pull_pack_begin ?s) (pack_from createCheckPointInfoDefault (pl_lastSeq (pull_pack_begin ?s))) \<lparr>ca_results = [], ca_last_seq = 1\<rparr>"
    by (simp add: feed_answer_def pack_from_def sample_first_eq pull_slices_end_def transform_step_def pull_pack_begin_def Let_def)
      (simp add: sample_pack_def sample_defs)
  have 6: "(send_step sample_env)\<^sup>*\<^sup>* sample_start sample_last"
    unfolding sample_last_def
    by (rule send_goes_on [OF 5 send_step.PackRead [OF _ _ b]])
      (simp_all add: sample_first_eq pull_slices_end_def transform_step_def pull_pack_begin_def, simp_all add: sample_defs)
  show ?thesis
    by (rule send_goes_on [OF 6 send_step.Flush]) (simp_all add: sample_last_eq, simp_all add: sample_defs)
qed

lemma position_never_passes_unsent_witness:
  "cp_lastLocalSeq (pl_check sample_sent) = 1 \<and> docKeyOf ''n'' ''1-a'' \<in> (\<Union>(f, u)\<in>set (pl_uploaded sample_sent). set (ju_sentIDs u))"
proof -
  let ?f = "flush_step sample_last" and ?name = "journal_name (\<lambda>x. x) (\<lambda>n. ''0'') ''d'' 0 0 sample_unit"
  have f: "pk_out (pl_packer ?f) = JournalUnit sample_unit # []" "pl_writing ?f = None" "\<not> pl_broken ?f" "pl_result ?f = None"
    by (simp_all add: flush_step_def sample_last_eq sample_flushed) (simp_all add: sample_defs)
  have u: "(send_step sample_env)\<^sup>*\<^sup>* sample_start (upload_step sample_env sample_unit ?f)"
    by (rule send_goes_on [OF sample_reachable send_step.Upload [OF f(2,3,1,4)]])
  have w: "pl_writing (upload_step sample_env sample_unit ?f) = Some (sample_unit, ?name)"
    by (simp add: upload_step_def Let_def sample_env_def flush_step_def sample_last_eq) (simp add: sample_start_def start_send_def takeChunksToSendAgain_def createCheckPointInfoDefault_def)
  have r: "(send_step sample_env)\<^sup>*\<^sup>* sample_start sample_sent"
    unfolding sample_sent_def
    by (rule send_goes_on [OF u send_step.Record [OF w]]) (use f in \<open>simp_all add: upload_step_def Let_def pop_unit_def\<close>)
  have s: "pl_feed sample_sent = [sample_row]" "cp_lastLocalSeq (pl_check sample_sent) = 1" "cp_knownIDs (pl_check sample_sent) = {}" "pl_foreign sample_sent = {}"
    by (simp_all add: sample_sent_def record_step_def update_check_def updateTransfer_def record_unit_def updated_record_def upload_step_def pop_unit_def
        flush_step_def sample_last_eq sample_unit_def Let_def) (simp_all add: sample_defs)
  have "covers [sample_row] 1 createCheckPointInfoDefault"
    by (simp add: covers_def covered_def sample_row_def createCheckPointInfoDefault_def)
  note sent = position_never_passes_unsent [OF this r [unfolded sample_start_def], of sample_row "''1-a''"]
  show ?thesis using sent s by (simp add: sample_row_def isChunkID_def)
qed

end
