(* ===== verification/Spec2Isabelle.thy ===== *)
theory Spec2Isabelle
  imports Paths ChunkPipeline RpcChunking BinarySplitting LeaseCoordinator ChunkDelivery ChunkFetcher Handlers ConflictManager StorageEvents IdentityRepair EarlyReplication PreparedPaths EntrySamples JournalText JournalCoverage
begin

text \<open>
  Self-hosted LiveSync, common library: a verification development.

  The library keeps the notes of a vault in PouchDB and replicates them. A note is cut into chunks named by
  their hash; its entry lists the names. On the way in, storage events are queued and debounced, the file is
  cut, and the chunks are written through a cache. On the way out, the chunks of an entry are read from the
  cache and the database, and what is missing is awaited from the replication or fetched from the remote.
  Concurrent edits of a note meet as conflicting revisions, which are merged when that is safe. The theories
  follow these parts, one component each, and every definition follows a function or a class of the source.

  The parts and their theories, with the files under \<open>src/src\<close> they translate:

  \<^item> \<open>Paths\<close>: \<open>string_and_binary/path.ts\<close>. Valid file names, prefixes, the document identifier of a path
    and the path of an identifier, the ignore files. A path of valid characters is recovered from its
    identifier; the loop over the ignore patterns is the reference reading "the last matching pattern
    decides" but for negated directories.
  \<^item> \<open>TextSplitting\<close>, \<open>BinarySplitting\<close>: \<open>string_and_binary/chunks.ts\<close>. Every splitter yields pieces whose
    concatenation is the file, within the sizes it promises; surrogate pairs stay together; the rolling
    hash of the Rabin-Karp splitter is the polynomial hash on 32-bit words of what passed the window.
  \<^item> \<open>CacheLayer\<close>, \<open>ChunkPipeline\<close>: \<open>managers/LayeredChunkManager.ts\<close> and its layers. The cache is an
    insertion-ordered map of weak references that the collector may clear between any two calls. Reads are
    aligned with the identifiers and answer each with the chunk that the first layer having it holds;
    writes count what they store and report a failed insertion.
  \<^item> \<open>ChunkDelivery\<close>, \<open>ChunkFetcher\<close>: \<open>managers/ChunkDeliveryCoordinator.ts\<close>, the waiters of
    \<open>ArrivalWaitLayer.ts\<close> and \<open>managers/ChunkFetcher.ts\<close>. Claims count who still delivers a chunk; a
    read waits while somebody does. Both are transition systems whose steps are the handlers of the code,
    cut at every await; the environment chooses the answers of the remote, the timers and the clock.
    Invariants over all reachable states show that no waiter is stranded, that no claim is abandoned and
    that a promise is settled once.
  \<^item> \<open>RpcChunking\<close>: \<open>rpc/chunking.ts\<close>. A payload survives splitting, any order of arrival and duplicates.
  \<^item> \<open>Handlers\<close>: \<open>services/lib/HandlerUtils.ts\<close>. The slots and the prioritised registrations the services
    are wired with; the registrations refine a stably sorted list.
  \<^item> \<open>LeaseCoordinator\<close>: \<open>services/lib/DurableReplicationCoordinator.ts\<close>. Several runtimes share one
    stored queue. Every update is an atomic function of the stored JSON, and the environment may change the
    store between two updates. The ghost history of grants and completions shows that fencing tokens grow
    and that what is recorded as completed was requested before the lease that completed it.
  \<^item> \<open>Json\<close>, \<open>Patch\<close>: \<open>common/utils.patch.ts\<close> on JSON values with ordered properties. Applying the patch
    from one object to another gives the other.
  \<^item> \<open>SensibleMerge\<close>, \<open>ConflictManager\<close>: \<open>managers/ConflictManager.ts\<close>. The line merge of two diffs against
    their base keeps what both sides did; the automatic decision does not depend on the order in which the
    database lists the leaves, and takes no action without an available common base.
  \<^item> \<open>StorageEvents\<close>: \<open>managers/StorageEventManager.ts\<close>. What is admitted to the queue, and the queue with
    its batches, slots and snapshots as a transition system; an event is in one place or has an outcome.

  \<^item> \<open>PathService\<close>: \<open>services/base/PathService.ts\<close> and the comparisons of \<open>common/utils.ts\<close>. The identifier of
    a path under the settings, the path of an entry, the windows of modification times, and whether the
    identifier of an entry is that of its path.
  \<^item> \<open>HostCalls\<close>, \<open>OfflineScanner\<close>, \<open>IdentityRepair\<close>: \<open>serviceFeatures/offlineScanner.ts\<close>. The scan that
    compares a vault with its database at start-up, as a sequence of calls of the services with a trace of what
    it changed; what it may change and what it reports are computed by weakest preconditions. A document
    under a wrong identifier is copied, verified and only then removed.
  \<^item> \<open>EarlyReplication\<close>: \<open>serviceFeatures/earlyReplication.ts\<close>. Changes received before that scan: a receipt
    of every path survives interruptions until its entry is written, after the local state was prepared.
  \<^item> \<open>FilePublication\<close>: \<open>serviceModules/FilePublicationCoordinator.ts\<close>. The record of the revision that a file
    shows, with the mark of a publication that has begun. Others may edit the store between any two accesses,
    and each access may fail; the mark is given up only by who may.
  \<^item> \<open>FileHandler\<close>, \<open>FileStores\<close>: \<open>serviceModules/ServiceFileHandlerBase.ts\<close>. Entries that arrive are written
    over their files, changed files are stored as revisions, deletions and renames follow; empty reads on
    Android wait until they are settled. The calls of the storage and of the database are a parameter, and
    their answers are noted in a trace together with the changes. A handler is one block for the variables of
    the object. A waiting operation may run others: \<open>runWaiting\<close> bounds the depth, and the properties hold for
    every bound.
  \<^item> \<open>FileSafety\<close>, \<open>StoreSafety\<close>, \<open>PreparedPaths\<close>: the properties of these, as rules that say what justifies
    an action by the actions before it. What a call learns is composed along its definition; locales go once
    through every call, and each rule is an interpretation of them: local work is kept, empty reads are
    settled, conflicted entries are not removed, a prepared path loses nothing. \<open>FileSamples\<close> has the small
    storage on which they are applied.

  \<^item> \<open>EntryManager\<close>: \<open>managers/EntryManager/EntryManagerImpls.ts\<close>. An entry is stored as the chunks of its pieces and
    a document that names them; it is read as a whole, or part by part when it is binary. It calls the layered
    chunk manager of \<open>ChunkPipeline\<close>; PouchDB is a parameter whose laws \<open>EntryStore\<close> states. \<open>EntryStore\<close> and
    \<open>EntryContent\<close> show that what is stored is read back, and that a put on a live base changes nothing unless the
    base is live; \<open>EntryParts\<close> that the content in parts is exact and bounded and that the inspection foretells it.
    \<open>EntrySamples\<close> has a small database in memory that meets the laws.

  \<^item> \<open>JournalText\<close>: \<open>serializeDoc\<close> and \<open>_parseRemoteJournal\<close> of \<open>replication/journal/JournalSyncCore.ts\<close>, with the
    escaping of \<open>common/utils.ts\<close>. A journal is a file of lines in UTF-8, whose encoder and decoder are defined
    here; it is read back with the entries that were written, and which chunk data do not survive is stated exactly.
  \<^item> \<open>JournalCheckpoint\<close>: the checkpoint of \<open>JournalSyncTypes.ts\<close> and its accesses in \<open>JournalSyncCore.ts\<close>. The copy
    that a client holds in memory refines the stored record together with what waits to be written: every sequence of
    operations of the clients of a process, also with a store that fails, has the same answers.
  \<^item> \<open>JournalSend\<close>, \<open>JournalPipeline\<close>: \<open>_sendLocalJournal\<close> and its three streams. \<open>JournalSend\<close> has the functions
    (the pack of the next changes, the chunks to bring along, the slices, the batches, the names, what is recorded);
    \<open>JournalPipeline\<close> runs the reader, the packer and the uploader over their queues as a transition system, in which
    the local database grows, other clients change or reset the checkpoint, and every access may fail.
  \<^item> \<open>JournalCoverage\<close>: a position is followed through the queues. The one that is stored never passes a revision
    of a document that was neither received nor uploaded.

  \<open>Prelude\<close> holds the shared vocabulary: the JavaScript string operations, the insertion-ordered map and its
  interface as a locale. The interfaces between components are locales too, each interpreted on the model's
  definitions in the theory of its provider: the ordered map, the chunk layers, the stored queue and the
  order of the conflict candidates among them.

  Conventions. A JavaScript string is a list of 16-bit code units where the code counts them and a list of
  characters where it does not. Numbers are integers, or words where the code masks them to 32 bits. A
  thrown error is the left side of a sum, \<open>undefined\<close> is \<open>None\<close> or a constructor of its own. A \<open>Map\<close> keeps
  the order of insertion. A call that does not await anything is one step. Code that is not in the
  repository is an argument of the definitions: SHA-256, the glob matcher, the diff library, the sentence
  segmenter, PouchDB, the key-value store and the clock.

  Loops. Loops over a list or a shrinking rest are functions with a measure. Those that may not end are
  \<open>partial_function (option)\<close> or relations, and what makes them end is stated: the generator that cuts by
  length ends exactly for a positive length, and the eviction of the cache for limits that are not negative.
  The attempts to get a lease of the durable queue may go on for as long as other runtimes hold it: there
  \<open>None\<close> means that the call has not returned, and what is proved is about the calls that return.

  Not modelled, and why: drivers of PouchDB, CouchDB, object stores, WebRTC and WebCrypto, whose behaviour is
  that of their third-party libraries; the wiring of services, settings and their texts, which hold no
  logic; user interface and log lines. Left for later are what a receiver does
  with the journals (their order, their removal, the cleaner) and the remote configurations with their connection
  strings. In the journals the compression and the encryption are left out, as is the limit on the queues of the
  streams: a queue may be longer in the model than it becomes.
\<close>

end
